(* ===== verification/Recapn_Prelude.thy ===== *)
theory Recapn_Prelude
  imports Main "HOL-Library.Word"
begin

text \<open>
  Shared vocabulary of the development: the machine integer types, the four ways a Rust
  call can end, checked arithmetic, the little-endian layout of integers, and the lemmas
  on lists, options and words that several components use.
\<close>

unbundle bit_operations_syntax

named_theorems outcome_simps \<open>evaluation of outcomes through binds and cases\<close>
named_theorems bytes_simps \<open>lengths and round trips of byte encodings\<close>
named_theorems bounds_simps \<open>ranges of the narrow integers\<close>

type_synonym u8 = "8 word"
type_synonym u16 = "16 word"
type_synonym u32 = "32 word"
type_synonym u64 = "64 word"

section \<open>Outcomes\<close>

text \<open>
  A Rust call returns a value, returns an error, panics (an \<open>unwrap\<close> of nothing, a failed
  \<open>assert!\<close>, a slice index out of range, \<open>unreachable!\<close>), or has undefined behaviour
  (an \<open>unsafe\<close> read outside every allocated object).
\<close>

datatype ('e, 'a) outcome = Ok 'a | Err 'e | Panic | UB

definition obind :: "('e, 'a) outcome \<Rightarrow> ('a \<Rightarrow> ('e, 'b) outcome) \<Rightarrow> ('e, 'b) outcome" where
  "obind m f = (case m of Ok x \<Rightarrow> f x | Err e \<Rightarrow> Err e | Panic \<Rightarrow> Panic | UB \<Rightarrow> UB)"

definition unwrap :: "'a option \<Rightarrow> ('e, 'a) outcome" where
  "unwrap x = (case x of Some v \<Rightarrow> Ok v | None \<Rightarrow> Panic)"

definition ok_or :: "'e \<Rightarrow> 'a option \<Rightarrow> ('e, 'a) outcome" where
  "ok_or e x = (case x of Some v \<Rightarrow> Ok v | None \<Rightarrow> Err e)"

definition assert_that :: "bool \<Rightarrow> ('e, unit) outcome" where
  "assert_that b = (if b then Ok () else Panic)"

definition safe :: "('e, 'a) outcome \<Rightarrow> bool" where
  "safe m \<longleftrightarrow> m \<noteq> Panic \<and> m \<noteq> UB"

lemma obind_simps [simp, outcome_simps]:
  "obind (Ok x) f = f x"
  "obind (Err e) f = Err e"
  "obind Panic f = Panic"
  "obind UB f = UB"
  by (simp_all add: obind_def)

lemma unwrap_simps [simp, outcome_simps]: "unwrap (Some v) = Ok v" "unwrap None = Panic"
  by (simp_all add: unwrap_def)

lemma ok_or_simps [simp, outcome_simps]: "ok_or e (Some v) = Ok v" "ok_or e None = Err e"
  by (simp_all add: ok_or_def)

lemma assert_that_simps [simp, outcome_simps]:
  "assert_that True = Ok ()" "assert_that False = Panic"
  by (simp_all add: assert_that_def)

lemma safe_simps [simp, outcome_simps]:
  "safe (Ok x)" "safe (Err e)" "\<not> safe Panic" "\<not> safe UB"
  by (simp_all add: safe_def)

lemma obind_OkE:
  assumes "obind m f = Ok y"
  obtains x where "m = Ok x" "f x = Ok y"
  using assms by (cases m) auto

lemma obind_Ok_iff: "obind m f = Ok y \<longleftrightarrow> (\<exists>x. m = Ok x \<and> f x = Ok y)"
  by (cases m) auto

lemma obind_cong [fundef_cong]:
  "m = m' \<Longrightarrow> (\<And>x. m' = Ok x \<Longrightarrow> f x = g x) \<Longrightarrow> obind m f = obind m' g"
  by (cases m') auto

lemma unwrap_Ok_iff [simp]: "unwrap x = Ok v \<longleftrightarrow> x = Some v"
  by (cases x) auto

lemma ok_or_Ok_iff [simp]: "ok_or e x = Ok v \<longleftrightarrow> x = Some v"
  by (cases x) auto

lemma safe_ok_or [simp]: "safe (ok_or e x)"
  by (cases x) auto

lemma safe_obind [intro]: "safe m \<Longrightarrow> (\<And>x. m = Ok x \<Longrightarrow> safe (f x)) \<Longrightarrow> safe (obind m f)"
  by (cases m) auto

lemma safe_obind_iff: "safe (obind m f) \<longleftrightarrow> safe m \<and> (\<forall>x. m = Ok x \<longrightarrow> safe (f x))"
  by (cases m) auto

section \<open>Checked and saturating arithmetic of the unsigned types\<close>

definition checked_add :: "'a::len word \<Rightarrow> 'a word \<Rightarrow> 'a word option" where
  "checked_add x y = (if unat x + unat y < 2 ^ LENGTH('a) then Some (x + y) else None)"

definition checked_sub :: "'a::len word \<Rightarrow> 'a word \<Rightarrow> 'a word option" where
  "checked_sub x y = (if y \<le> x then Some (x - y) else None)"

definition checked_mul :: "'a::len word \<Rightarrow> 'a word \<Rightarrow> 'a word option" where
  "checked_mul x y = (if unat x * unat y < 2 ^ LENGTH('a) then Some (x * y) else None)"

definition saturating_add :: "'a::len word \<Rightarrow> 'a word \<Rightarrow> 'a word" where
  "saturating_add x y = (if unat x + unat y < 2 ^ LENGTH('a) then x + y else - 1)"

definition saturating_sub :: "'a::len word \<Rightarrow> 'a word \<Rightarrow> 'a word" where
  "saturating_sub x y = (if y \<le> x then x - y else 0)"

lemma unat_add_no_wrap:
  "unat x + unat y < 2 ^ LENGTH('a) \<Longrightarrow> unat (x + y) = unat x + unat (y :: 'a::len word)"
  by (simp add: unat_word_ariths)

lemma unat_mult_no_wrap:
  "unat x * unat y < 2 ^ LENGTH('a) \<Longrightarrow> unat (x * y) = unat x * unat (y :: 'a::len word)"
  by (simp add: unat_word_ariths)

lemma checked_add_Some:
  "checked_add x y = Some z \<longleftrightarrow> unat x + unat y < 2 ^ LENGTH('a) \<and> z = x + (y :: 'a::len word)"
  by (auto simp: checked_add_def)

lemma checked_sub_Some:
  "checked_sub x y = Some z \<longleftrightarrow> y \<le> x \<and> z = x - (y :: 'a::len word)"
  by (auto simp: checked_sub_def)

lemma unat_saturating_add:
  "unat (saturating_add x y) = min (unat x + unat y) (2 ^ LENGTH('a) - 1)"
  for x y :: "'a::len word"
proof (cases "unat x + unat y < 2 ^ LENGTH('a)")
  case True
  then have "min (unat x + unat y) (2 ^ LENGTH('a) - 1) = unat x + unat y" by linarith
  with True show ?thesis by (simp add: saturating_add_def unat_add_no_wrap)
next
  case False
  then show ?thesis by (simp add: saturating_add_def unsigned_minus_1_eq_mask mask_eq_exp_minus_1)
qed

lemma unat_sub_no_wrap: "y \<le> x \<Longrightarrow> unat (x - y) = unat x - unat (y :: 'a::len word)"
  by (simp add: unat_sub)

lemma nat_div_ceil:
  fixes m k :: nat
  assumes "0 < k"
  shows "(m + k - 1) div k = m div k + (if m mod k = 0 then 0 else 1)"
proof -
  define q r where "q = m div k" and "r = m mod k"
  have m: "m = q * k + r" and r: "r < k" using assms by (simp_all add: q_def r_def)
  have "(q * k + r + k - 1) div k = q + (if r = 0 then 0 else 1)"
    by (rule div_nat_eqI) (use r in \<open>auto simp: algebra_simps\<close>)
  then show ?thesis by (simp only: m [symmetric] q_def [symmetric] r_def [symmetric])
qed

section \<open>Little-endian bytes\<close>

fun le_word :: "u8 list \<Rightarrow> 'a::len word" where
  "le_word [] = 0"
| "le_word (b # bs) = ucast b OR push_bit 8 (le_word bs)"

fun le_bytes :: "nat \<Rightarrow> 'a::len word \<Rightarrow> u8 list" where
  "le_bytes 0 w = []"
| "le_bytes (Suc n) w = ucast w # le_bytes n (drop_bit 8 w)"

lemma length_le_bytes [simp, bytes_simps]: "length (le_bytes n w) = n"
  by (induction n arbitrary: w) auto

lemma bit_le_word:
  "bit (le_word bs :: 'a::len word) i \<longleftrightarrow>
     i < LENGTH('a) \<and> i div 8 < length bs \<and> bit (bs ! (i div 8)) (i mod 8)"
proof (induction bs arbitrary: i)
  case Nil
  then show ?case by simp
next
  case (Cons b bs)
  show ?case
  proof (cases "i < 8")
    case True
    then show ?thesis
      by (auto simp: bit_simps not_le)
  next
    case False
    then obtain j where i: "i = j + 8" by (metis add.commute le_Suc_ex not_less)
    have "bit b i = False" using False bit_imp_le_length [of b i] by auto
    moreover have "(j + 8) div 8 = Suc (j div 8)" by simp
    ultimately show ?thesis
      using Cons.IH [of j] by (auto simp: i bit_simps)
  qed
qed

lemma nth_le_bytes: "i < n \<Longrightarrow> le_bytes n w ! i = ucast (drop_bit (8 * i) w)"
proof (induction n arbitrary: i w)
  case 0
  then show ?case by simp
next
  case (Suc n)
  then show ?case by (cases i) (auto simp: ac_simps)
qed

lemma le_word_le_bytes [simp, bytes_simps]:
  "LENGTH('a) \<le> 8 * n \<Longrightarrow> le_word (le_bytes n w) = (w :: 'a::len word)"
  by (rule bit_word_eqI) (auto simp: bit_le_word nth_le_bytes bit_simps)

lemma le_bytes_le_word [simp, bytes_simps]:
  assumes "8 * length bs \<le> LENGTH('a)"
  shows "le_bytes (length bs) (le_word bs :: 'a::len word) = bs"
proof (rule nth_equalityI)
  fix i assume i: "i < length (le_bytes (length bs) (le_word bs :: 'a word))"
  show "le_bytes (length bs) (le_word bs :: 'a word) ! i = bs ! i"
  proof (rule bit_word_eqI)
    fix k assume "k < LENGTH(8)"
    then have k: "k < 8" by simp
    with i assms have "8 * i + k < LENGTH('a)" by simp
    moreover have "(8 * i + k) div 8 = i" "(8 * i + k) mod 8 = k" using k by auto
    ultimately show "bit (le_bytes (length bs) (le_word bs :: 'a word) ! i) k = bit (bs ! i) k"
      using i k by (auto simp: nth_le_bytes bit_simps bit_le_word)
  qed
qed simp

section \<open>Lists\<close>

text \<open>\<open>find_position\<close> is \<open>Iterator::position\<close>: the index of the first match.\<close>

fun find_position :: "('a \<Rightarrow> bool) \<Rightarrow> 'a list \<Rightarrow> nat option" where
  "find_position P [] = None"
| "find_position P (x # xs) = (if P x then Some 0 else map_option Suc (find_position P xs))"

lemma find_position_takeWhile:
  "(case find_position P xs of Some i \<Rightarrow> i | None \<Rightarrow> length xs) = length (takeWhile (\<lambda>x. \<not> P x) xs)"
  by (induction xs) (auto split: option.splits)

lemma take_length_takeWhile [simp]: "take (length (takeWhile P xs)) xs = takeWhile P xs"
  by (induction xs) auto

lemma take_length_takeWhile_take [simp]:
  "take (length (takeWhile P (take n xs))) xs = takeWhile P (take n xs)"
proof (induction xs arbitrary: n)
  case Nil
  then show ?case by simp
next
  case (Cons x xs)
  then show ?case by (cases n) auto
qed

lemma replicate_eq_iff: "xs = replicate n x \<longleftrightarrow> length xs = n \<and> (\<forall>y \<in> set xs. y = x)"
  by (auto simp: replicate_length_same)

end
