(* ===== verification/Int_Types.thy ===== *)
theory Int_Types
  imports Recapn_Prelude
begin

text \<open>
  The narrow integers of \<^verbatim>\<open>recapn/src/num.rs\<close>: \<open>u29\<close>, \<open>NonZeroU29\<close> and \<open>i30\<close>.
  The Rust types have a private field and constructors that check the range, so each is a
  \<^theory_text>\<open>typedef\<close> of the words in its range; the morphism is the field \<open>.0\<close>.
\<close>

section \<open>Ranges\<close>

definition u29_MIN_VALUE :: u32 where "u29_MIN_VALUE = 0"
definition u29_MAX_VALUE :: u32 where "u29_MAX_VALUE = 2 ^ 29 - 1"
definition nz29_MIN_VALUE :: u32 where "nz29_MIN_VALUE = 1"
definition nz29_MAX_VALUE :: u32 where "nz29_MAX_VALUE = 2 ^ 29 - 1"
definition i30_MIN_VALUE :: int where "i30_MIN_VALUE = - (2 ^ 30 div 2)"
definition i30_MAX_VALUE :: int where "i30_MAX_VALUE = 2 ^ 30 div 2 - 1"

lemma u29_range_iff [bounds_simps]:
  "u29_MIN_VALUE \<le> n \<and> n \<le> u29_MAX_VALUE \<longleftrightarrow> unat n < 2 ^ 29"
  by (simp add: u29_MIN_VALUE_def u29_MAX_VALUE_def word_le_nat_alt) arith

lemma nz29_range_iff [bounds_simps]:
  "nz29_MIN_VALUE \<le> n \<and> n \<le> nz29_MAX_VALUE \<longleftrightarrow> 0 < unat n \<and> unat n < 2 ^ 29"
  by (simp add: nz29_MIN_VALUE_def nz29_MAX_VALUE_def word_le_nat_alt) arith

lemma i30_range_iff [bounds_simps]:
  "i30_MIN_VALUE \<le> k \<and> k \<le> i30_MAX_VALUE \<longleftrightarrow> - (2 ^ 29) \<le> k \<and> k < 2 ^ 29"
  by (auto simp: i30_MIN_VALUE_def i30_MAX_VALUE_def)

section \<open>The types\<close>

typedef u29 = "{n :: u32. u29_MIN_VALUE \<le> n \<and> n \<le> u29_MAX_VALUE}"
  morphisms u29_inner Abs_u29
  by (rule exI [of _ 0]) (simp add: bounds_simps)

typedef nz29 = "{n :: u32. nz29_MIN_VALUE \<le> n \<and> n \<le> nz29_MAX_VALUE}"
  morphisms nz29_inner Abs_nz29
  by (rule exI [of _ 1]) (simp add: bounds_simps)

typedef i30 = "{n :: u32. i30_MIN_VALUE \<le> sint n \<and> sint n \<le> i30_MAX_VALUE}"
  morphisms i30_inner Abs_i30
  by (rule exI [of _ 0]) (simp add: bounds_simps)

setup_lifting type_definition_u29
setup_lifting type_definition_nz29
setup_lifting type_definition_i30

section \<open>Constructors and accessors\<close>

text \<open>The constructors wrap a word that is in range; \<open>_clip\<close> is that wrapping.\<close>

lift_definition u29_clip :: "u32 \<Rightarrow> u29" is
  "\<lambda>n. if u29_MIN_VALUE \<le> n \<and> n \<le> u29_MAX_VALUE then n else 0"
  by (simp add: bounds_simps)

definition u29_new :: "u32 \<Rightarrow> u29 option" where
  "u29_new n = (if u29_MIN_VALUE \<le> n \<and> n \<le> u29_MAX_VALUE then Some (u29_clip n) else None)"

lift_definition nz29_clip :: "u32 \<Rightarrow> nz29" is
  "\<lambda>n. if nz29_MIN_VALUE \<le> n \<and> n \<le> nz29_MAX_VALUE then n else 1"
  by (simp add: bounds_simps)

definition nz29_new :: "u32 \<Rightarrow> nz29 option" where
  "nz29_new n = (if nz29_MIN_VALUE \<le> n \<and> n \<le> nz29_MAX_VALUE then Some (nz29_clip n) else None)"

lift_definition i30_clip :: "u32 \<Rightarrow> i30" is
  "\<lambda>n. if i30_MIN_VALUE \<le> sint n \<and> sint n \<le> i30_MAX_VALUE then n else 0"
  by (simp add: bounds_simps)

definition i30_new :: "u32 \<Rightarrow> i30 option" where
  "i30_new n = (if i30_MIN_VALUE \<le> sint n \<and> sint n \<le> i30_MAX_VALUE then Some (i30_clip n) else None)"

definition u29_new_unwrap :: "u32 \<Rightarrow> ('e, u29) outcome" where
  "u29_new_unwrap n = unwrap (u29_new n)"

definition nz29_new_unwrap :: "u32 \<Rightarrow> ('e, nz29) outcome" where
  "nz29_new_unwrap n = unwrap (nz29_new n)"

definition i30_new_unwrap :: "u32 \<Rightarrow> ('e, i30) outcome" where
  "i30_new_unwrap n = unwrap (i30_new n)"

text \<open>\<open>new_unchecked\<close> reaches \<open>unreachable_unchecked\<close> when the value is out of range.\<close>

definition u29_new_unchecked :: "u32 \<Rightarrow> ('e, u29) outcome" where
  "u29_new_unchecked n = (case u29_new n of Some v \<Rightarrow> Ok v | None \<Rightarrow> UB)"

definition nz29_new_unchecked :: "u32 \<Rightarrow> ('e, nz29) outcome" where
  "nz29_new_unchecked n = (case nz29_new n of Some v \<Rightarrow> Ok v | None \<Rightarrow> UB)"

definition i30_new_unchecked :: "u32 \<Rightarrow> ('e, i30) outcome" where
  "i30_new_unchecked n = (case i30_new n of Some v \<Rightarrow> Ok v | None \<Rightarrow> UB)"

definition u29_get :: "u29 \<Rightarrow> ('e, u32) outcome" where
  "u29_get v = (if u29_MIN_VALUE \<le> u29_inner v \<and> u29_inner v \<le> u29_MAX_VALUE
     then Ok (u29_inner v) else UB)"

definition nz29_get :: "nz29 \<Rightarrow> ('e, u32) outcome" where
  "nz29_get v = (if nz29_MIN_VALUE \<le> nz29_inner v \<and> nz29_inner v \<le> nz29_MAX_VALUE
     then Ok (nz29_inner v) else UB)"

definition i30_get :: "i30 \<Rightarrow> ('e, u32) outcome" where
  "i30_get v = (if i30_MIN_VALUE \<le> sint (i30_inner v) \<and> sint (i30_inner v) \<le> i30_MAX_VALUE
     then Ok (i30_inner v) else UB)"

text \<open>The conversions that build a value without a check of their own.\<close>

lift_definition u29_ZERO :: u29 is 0
  by (simp add: u29_MIN_VALUE_def)

lift_definition u29_MAX :: u29 is "u29_MAX_VALUE"
  by (simp add: u29_MIN_VALUE_def u29_MAX_VALUE_def)

lift_definition nz29_ONE :: nz29 is 1
  by (simp add: bounds_simps)

lift_definition nz29_MAX :: nz29 is "nz29_MAX_VALUE"
  by (simp add: nz29_MIN_VALUE_def nz29_MAX_VALUE_def)

lift_definition u29_of_nz29 :: "nz29 \<Rightarrow> u29" is "\<lambda>n. n"
  by (simp add: bounds_simps)

definition u29_of_nz29_option :: "nz29 option \<Rightarrow> u29" where
  "u29_of_nz29_option x = (case x of Some v \<Rightarrow> u29_of_nz29 v | None \<Rightarrow> u29_ZERO)"

lemma unat_less_uint: "unat (n :: 'a::len word) < k \<Longrightarrow> uint n < int k"
  by (metis nat_int unat_eq_nat_uint of_nat_less_iff uint_nat)

lemma sint_below_half: "unat (n :: u32) < 2 ^ 31 \<Longrightarrow> sint n = uint n"
  by (drule unat_less_uint) (simp add: sint_uint signed_take_bit_int_eq_self_iff
      order_trans [OF _ uint_ge_0])

lift_definition i30_of_u29 :: "u29 \<Rightarrow> i30" is "\<lambda>n. n"
proof -
  fix n :: u32
  assume "u29_MIN_VALUE \<le> n \<and> n \<le> u29_MAX_VALUE"
  then have n: "unat n < 2 ^ 29" by (simp add: bounds_simps)
  from unat_less_uint [OF n] have u: "uint n < 2 ^ 29" by simp
  from n have "sint n = uint n" by (simp add: sint_below_half)
  with u show "i30_MIN_VALUE \<le> sint n \<and> sint n \<le> i30_MAX_VALUE"
    by (auto simp add: bounds_simps intro: order_trans [OF _ uint_ge_0])
qed

text \<open>The \<open>From\<close> and \<open>TryFrom\<close> macros, on the mathematical value of the source integer.\<close>

datatype try_from_int_error = TryFromIntError

definition u32_try_from :: "int \<Rightarrow> (try_from_int_error, u32) outcome" where
  "u32_try_from k = (if 0 \<le> k \<and> k < 2 ^ 32 then Ok (word_of_int k) else Err TryFromIntError)"

definition i32_try_from :: "int \<Rightarrow> (try_from_int_error, u32) outcome" where
  "i32_try_from k = (if - (2 ^ 31) \<le> k \<and> k < 2 ^ 31 then Ok (word_of_int k) else Err TryFromIntError)"

definition u29_try_from :: "int \<Rightarrow> (try_from_int_error, u29) outcome" where
  "u29_try_from k = obind (u32_try_from k) (\<lambda>inner. ok_or TryFromIntError (u29_new inner))"

definition i30_try_from :: "int \<Rightarrow> (try_from_int_error, i30) outcome" where
  "i30_try_from k = obind (i32_try_from k) (\<lambda>inner. ok_or TryFromIntError (i30_new inner))"

definition u29_from_u16 :: "u16 \<Rightarrow> ('e, u29) outcome" where
  "u29_from_u16 v = u29_new_unwrap (ucast v)"

definition i30_from_i16 :: "u16 \<Rightarrow> ('e, i30) outcome" where
  "i30_from_i16 v = i30_new_unwrap (scast v)"

section \<open>Values\<close>

abbreviation u29_val :: "u29 \<Rightarrow> nat" where "u29_val v \<equiv> unat (u29_inner v)"
abbreviation nz29_val :: "nz29 \<Rightarrow> nat" where "nz29_val v \<equiv> unat (nz29_inner v)"
abbreviation i30_val :: "i30 \<Rightarrow> int" where "i30_val v \<equiv> sint (i30_inner v)"

lemma u29_val_less: "u29_val v < 2 ^ 29"
  using u29_inner [of v] by (simp add: bounds_simps)

lemma nz29_val_bounds: "0 < nz29_val v" "nz29_val v < 2 ^ 29"
  using nz29_inner [of v] by (simp_all add: bounds_simps)

lemma i30_val_bounds: "- (2 ^ 29) \<le> i30_val v" "i30_val v < 2 ^ 29"
  using i30_inner [of v] by (simp_all add: bounds_simps)

lemma u29_clip_inner [simp]: "unat n < 2 ^ 29 \<Longrightarrow> u29_inner (u29_clip n) = n"
  by (simp add: u29_clip.rep_eq bounds_simps)

lemma nz29_clip_inner [simp]: "0 < unat n \<Longrightarrow> unat n < 2 ^ 29 \<Longrightarrow> nz29_inner (nz29_clip n) = n"
  by (simp add: nz29_clip.rep_eq bounds_simps)

lemma i30_clip_inner [simp]:
  "- (2 ^ 29) \<le> sint n \<Longrightarrow> sint n < 2 ^ 29 \<Longrightarrow> i30_inner (i30_clip n) = n"
  by (simp add: i30_clip.rep_eq bounds_simps)

lemma u29_new_eq: "u29_new n = (if unat n < 2 ^ 29 then Some (u29_clip n) else None)"
  by (simp add: u29_new_def bounds_simps)

lemma nz29_new_eq:
  "nz29_new n = (if 0 < unat n \<and> unat n < 2 ^ 29 then Some (nz29_clip n) else None)"
  by (simp add: nz29_new_def bounds_simps)

lemma i30_new_eq:
  "i30_new n = (if - (2 ^ 29) \<le> sint n \<and> sint n < 2 ^ 29 then Some (i30_clip n) else None)"
  by (simp add: i30_new_def bounds_simps)

lemma u29_new_Some_iff: "u29_new n = Some v \<longleftrightarrow> u29_inner v = n"
  using u29_val_less [of v] by (auto simp: u29_new_eq u29_inner_inject [symmetric])

lemma nz29_new_Some_iff: "nz29_new n = Some v \<longleftrightarrow> nz29_inner v = n"
  using nz29_val_bounds [of v] by (auto simp: nz29_new_eq nz29_inner_inject [symmetric])

lemma i30_new_Some_iff: "i30_new n = Some v \<longleftrightarrow> i30_inner v = n"
  using i30_val_bounds [of v] by (auto simp: i30_new_eq i30_inner_inject [symmetric])

lemma u29_get_Ok [simp]: "u29_get v = Ok (u29_inner v)"
  using u29_val_less [of v] by (simp add: u29_get_def bounds_simps)

lemma nz29_get_Ok [simp]: "nz29_get v = Ok (nz29_inner v)"
  using nz29_val_bounds [of v] by (simp add: nz29_get_def bounds_simps)

lemma i30_get_Ok [simp]: "i30_get v = Ok (i30_inner v)"
  using i30_val_bounds [of v] by (simp add: i30_get_def bounds_simps)

lemma u29_of_nz29_val [simp]: "u29_val (u29_of_nz29 v) = nz29_val v"
  by (simp add: u29_of_nz29.rep_eq)

lemma u29_ZERO_val [simp]: "u29_inner u29_ZERO = 0"
  by (simp add: u29_ZERO.rep_eq)

lemma u29_MAX_val [simp]: "u29_val u29_MAX = 2 ^ 29 - 1"
  by (simp add: u29_MAX.rep_eq u29_MAX_VALUE_def)

lemma nz29_ONE_val [simp]: "nz29_inner nz29_ONE = 1"
  by (simp add: nz29_ONE.rep_eq)

lemma nz29_MAX_val [simp]: "nz29_val nz29_MAX = 2 ^ 29 - 1"
  by (simp add: nz29_MAX.rep_eq nz29_MAX_VALUE_def)

lemma i30_of_u29_val: "i30_val (i30_of_u29 v) = int (u29_val v)"
  using u29_val_less [of v] by (simp add: i30_of_u29.rep_eq sint_below_half)

lemma u29_eq_iff: "v = w \<longleftrightarrow> u29_val v = u29_val w"
  by (metis u29_inner_inject unsigned_word_eqI)

lemma nz29_eq_iff: "v = w \<longleftrightarrow> nz29_val v = nz29_val w"
  by (metis nz29_inner_inject unsigned_word_eqI)

section \<open>Orders\<close>

text \<open>The derived \<open>Ord\<close> instances compare the inner integers.\<close>

instantiation u29 :: linorder
begin
definition less_eq_u29 :: "u29 \<Rightarrow> u29 \<Rightarrow> bool" where "less_eq_u29 a b = (u29_inner a \<le> u29_inner b)"
definition less_u29 :: "u29 \<Rightarrow> u29 \<Rightarrow> bool" where "less_u29 a b = (u29_inner a < u29_inner b)"
instance
  by standard (auto simp: less_eq_u29_def less_u29_def u29_inner_inject [symmetric])
end

instantiation nz29 :: linorder
begin
definition less_eq_nz29 :: "nz29 \<Rightarrow> nz29 \<Rightarrow> bool" where "less_eq_nz29 a b = (nz29_inner a \<le> nz29_inner b)"
definition less_nz29 :: "nz29 \<Rightarrow> nz29 \<Rightarrow> bool" where "less_nz29 a b = (nz29_inner a < nz29_inner b)"
instance
  by standard (auto simp: less_eq_nz29_def less_nz29_def nz29_inner_inject [symmetric])
end

text \<open>The derived \<open>Eq\<close> instances compare the inner integers too.\<close>

instantiation u29 :: equal
begin
definition equal_u29 :: "u29 \<Rightarrow> u29 \<Rightarrow> bool" where "equal_u29 a b = (u29_inner a = u29_inner b)"
instance
  by standard (simp add: equal_u29_def u29_inner_inject)
end

instantiation nz29 :: equal
begin
definition equal_nz29 :: "nz29 \<Rightarrow> nz29 \<Rightarrow> bool" where "equal_nz29 a b = (nz29_inner a = nz29_inner b)"
instance
  by standard (simp add: equal_nz29_def nz29_inner_inject)
end

instantiation i30 :: equal
begin
definition equal_i30 :: "i30 \<Rightarrow> i30 \<Rightarrow> bool" where "equal_i30 a b = (i30_inner a = i30_inner b)"
instance
  by standard (simp add: equal_i30_def i30_inner_inject)
end

lemma u29_le_iff: "a \<le> b \<longleftrightarrow> u29_val a \<le> u29_val b"
  by (simp add: less_eq_u29_def word_le_nat_alt)

lemma u29_less_iff: "a < b \<longleftrightarrow> u29_val a < u29_val b"
  by (simp add: less_u29_def word_less_nat_alt)

lemma nz29_le_iff: "a \<le> b \<longleftrightarrow> nz29_val a \<le> nz29_val b"
  by (simp add: less_eq_nz29_def word_le_nat_alt)

lemma nz29_max_val: "nz29_val (max a b) = max (nz29_val a) (nz29_val b)"
  by (simp add: max_def nz29_le_iff)

section \<open>Conversions are exact\<close>

lemma uint_word_of_int_u32: "0 \<le> k \<Longrightarrow> k < 2 ^ 32 \<Longrightarrow> unat (word_of_int k :: u32) = nat k"
  by (simp add: unat_eq_nat_uint uint_word_of_int_eq take_bit_int_eq_self)

lemma sint_word_of_int_u32:
  "- (2 ^ 31) \<le> k \<Longrightarrow> k < 2 ^ 31 \<Longrightarrow> sint (word_of_int k :: u32) = k"
  by (simp add: sint_sbintrunc' signed_take_bit_int_eq_self)

text \<open>The checked conversion into \<open>u29\<close> succeeds exactly on the 29-bit range, with the
  same value, and fails with \<open>TryFromIntError\<close> everywhere else.\<close>

lemma u29_try_from_exact:
  "case u29_try_from k of
     Ok v \<Rightarrow> 0 \<le> k \<and> k < 2 ^ 29 \<and> int (u29_val v) = k
   | Err e \<Rightarrow> \<not> (0 \<le> k \<and> k < 2 ^ 29)
   | Panic \<Rightarrow> False
   | UB \<Rightarrow> False"
proof (cases "0 \<le> k \<and> k < 2 ^ 32")
  case True
  then have "unat (word_of_int k :: u32) = nat k" by (intro uint_word_of_int_u32) auto
  with True show ?thesis
    by (simp add: u29_try_from_def u32_try_from_def u29_new_eq nat_less_iff del: of_nat_unat) 
next
  case False
  then show ?thesis by (auto simp: u29_try_from_def u32_try_from_def)
qed

text \<open>The checked conversion into \<open>i30\<close> succeeds exactly on the 30-bit signed range, with
  the same value, and fails with \<open>TryFromIntError\<close> everywhere else.\<close>

lemma i30_try_from_exact:
  "case i30_try_from k of
     Ok v \<Rightarrow> - (2 ^ 29) \<le> k \<and> k < 2 ^ 29 \<and> i30_val v = k
   | Err e \<Rightarrow> \<not> (- (2 ^ 29) \<le> k \<and> k < 2 ^ 29)
   | Panic \<Rightarrow> False
   | UB \<Rightarrow> False"
proof (cases "- (2 ^ 31) \<le> k \<and> k < 2 ^ 31")
  case True
  then have "sint (word_of_int k :: u32) = k" by (intro sint_word_of_int_u32) auto
  with True show ?thesis
    by (simp add: i30_try_from_def i32_try_from_def i30_new_eq)
next
  case False
  then show ?thesis by (auto simp: i30_try_from_def i32_try_from_def)
qed

end
