(* ===== verification/Seg_Words.thy ===== *)
theory Seg_Words
  imports Int_Types
begin

text \<open>
  \<open>Word\<close>, the 8-byte unit of a message (\<^verbatim>\<open>recapn/src/alloc.rs\<close>), its views as bytes and
  the rounding of bit and byte counts to words.
\<close>

section \<open>The word type\<close>

datatype Word = Word u8 u8 u8 u8 u8 u8 u8 u8

definition Word_NULL :: Word where
  "Word_NULL = Word 0 0 0 0 0 0 0 0"

definition Word_BYTES :: nat where "Word_BYTES = 8"
definition Word_BITS :: nat where "Word_BITS = Word_BYTES * 8"

definition is_null :: "Word \<Rightarrow> bool" where
  "is_null w \<longleftrightarrow> w = Word_NULL"

text \<open>The field \<open>.0\<close>, an array of eight bytes, and the word with a given array.\<close>

fun word_bytes :: "Word \<Rightarrow> u8 list" where
  "word_bytes (Word a b c d e f g h) = [a, b, c, d, e, f, g, h]"

definition word_of_bytes :: "u8 list \<Rightarrow> Word" where
  "word_of_bytes bs = Word (bs ! 0) (bs ! 1) (bs ! 2) (bs ! 3) (bs ! 4) (bs ! 5) (bs ! 6) (bs ! 7)"

definition slice_to_bytes :: "Word list \<Rightarrow> u8 list" where
  "slice_to_bytes ws = concat (map word_bytes ws)"

text \<open>The words of a byte slice: whole groups of eight bytes, as \<open>align_to\<close> yields them.\<close>

fun bytes_to_words :: "u8 list \<Rightarrow> Word list" where
  "bytes_to_words (a # b # c # d # e # f # g # h # bs) = Word a b c d e f g h # bytes_to_words bs"
| "bytes_to_words _ = []"

lemma length_word_bytes [simp, bytes_simps]: "length (word_bytes w) = 8"
  by (cases w) simp

lemma length_8_cases:
  assumes "length bs = 8"
  obtains a b c d e f g h where "bs = [a, b, c, d, e, f, g, h]"
  using assms by (auto simp: numeral_eq_Suc length_Suc_conv)

lemma word_bytes_of_bytes [simp, bytes_simps]:
  assumes "length bs = 8" shows "word_bytes (word_of_bytes bs) = bs"
  using assms by (elim length_8_cases) (simp add: word_of_bytes_def numeral_eq_Suc)

lemma word_of_bytes_bytes [simp, bytes_simps]: "word_of_bytes (word_bytes w) = w"
  by (cases w) (simp add: word_of_bytes_def numeral_eq_Suc)

lemma word_bytes_inject [simp]: "word_bytes v = word_bytes w \<longleftrightarrow> v = w"
  by (metis word_of_bytes_bytes)

lemma word_bytes_NULL: "word_bytes Word_NULL = replicate 8 0"
  by (simp add: Word_NULL_def numeral_eq_Suc)

lemma word_eq_NULL_iff: "w = Word_NULL \<longleftrightarrow> (\<forall>b \<in> set (word_bytes w). b = 0)"
  by (cases w) (auto simp: Word_NULL_def)

lemma slice_to_bytes_simps [simp]:
  "slice_to_bytes [] = []"
  "slice_to_bytes (w # ws) = word_bytes w @ slice_to_bytes ws"
  "slice_to_bytes (vs @ ws) = slice_to_bytes vs @ slice_to_bytes ws"
  by (simp_all add: slice_to_bytes_def)

lemma length_slice_to_bytes [simp, bytes_simps]: "length (slice_to_bytes ws) = 8 * length ws"
  by (induction ws) auto

lemma bytes_to_words_append:
  assumes "length bs = 8"
  shows "bytes_to_words (bs @ cs) = word_of_bytes bs # bytes_to_words cs"
  using assms by (elim length_8_cases) (simp add: word_of_bytes_def numeral_eq_Suc)

lemma bytes_to_words_slice [simp, bytes_simps]: "bytes_to_words (slice_to_bytes ws) = ws"
  by (induction ws) (auto simp: bytes_to_words_append)

lemma length_bytes_to_words [simp]: "length (bytes_to_words bs) = length bs div 8"
  by (induction bs rule: bytes_to_words.induct) auto

lemma slice_bytes_to_words [simp, bytes_simps]:
  "length bs mod 8 = 0 \<Longrightarrow> slice_to_bytes (bytes_to_words bs) = bs"
  by (induction bs rule: bytes_to_words.induct) auto

lemma bytes_to_words_split:
  assumes "length bs mod 8 = 0"
  shows "bytes_to_words (bs @ cs) = bytes_to_words bs @ bytes_to_words cs"
  using assms by (induction bs rule: bytes_to_words.induct) auto

lemma bytes_to_words_Nil_iff: "bytes_to_words bs = [] \<longleftrightarrow> length bs < 8"
proof -
  have "bytes_to_words bs = [] \<longleftrightarrow> length (bytes_to_words bs) = 0" by (simp only: length_0_conv)
  also have "\<dots> \<longleftrightarrow> length bs < 8" by (simp only: length_bytes_to_words) arith
  finally show ?thesis .
qed

section \<open>Rounding\<close>

text \<open>\<open>u64::div_ceil\<close>, and the truncating cast of its result to \<open>u32\<close>.\<close>

definition div_ceil :: "'a::len word \<Rightarrow> 'a word \<Rightarrow> 'a word" where
  "div_ceil x y = (let d = x div y; r = x mod y in if 0 < r then d + 1 else d)"

definition round_up_bit_count :: "u64 \<Rightarrow> u32" where
  "round_up_bit_count bits = ucast (div_ceil bits 64)"

definition round_up_byte_count :: "u32 \<Rightarrow> u32" where
  "round_up_byte_count bytes = div_ceil bytes 8"

lemma unat_div_ceil:
  fixes x y :: "'a::len word"
  assumes "1 < unat y"
  shows "unat (div_ceil x y) = (unat x + unat y - 1) div unat y"
proof -
  have ceil: "(unat x + unat y - 1) div unat y =
      unat x div unat y + (if unat x mod unat y = 0 then 0 else 1)"
    by (rule nat_div_ceil) (use assms in simp)
  show ?thesis
  proof (cases "unat x mod unat y = 0")
    case True
    then have "x mod y = 0" by (metis unat_eq_0 unat_mod_distrib)
    then show ?thesis using True ceil by (simp add: div_ceil_def unat_div_distrib)
  next
    case False
    then have "x mod y \<noteq> 0" by (metis unat_0 unat_mod_distrib)
    then have "0 < x mod y" using word_neq_0_conv by blast
    have "unat x div unat y * 1 \<le> unat x div unat y * unat y"
      using assms by (intro mult_le_mono2) simp
    then have "unat x div unat y + 1 \<le> unat x div unat y * unat y + unat x mod unat y"
      using False by linarith
    then have "unat (x div y) + unat (1 :: 'a word) < 2 ^ LENGTH('a)"
      by (simp add: unat_div_distrib) (erule le_less_trans, rule unsigned_less)
    then have "unat (x div y + 1) = unat x div unat y + 1"
      by (subst unat_add_no_wrap) (simp_all add: unat_div_distrib)
    with \<open>0 < x mod y\<close> False ceil show ?thesis
      by (simp add: div_ceil_def Let_def)
  qed
qed

lemma unat_round_up_byte_count: "unat (round_up_byte_count n) = (unat n + 7) div 8"
  by (simp add: round_up_byte_count_def unat_div_ceil)

lemma unat_round_up_bit_count:
  assumes "unat n \<le> 2 ^ 37"
  shows "unat (round_up_bit_count n) = (unat n + 63) div 64"
proof -
  have "(unat n + 63) div 64 < 2 ^ 32" using assms by auto
  then show ?thesis
    by (simp add: round_up_bit_count_def unat_div_ceil unsigned_ucast_eq take_bit_nat_eq_self)
qed

end
