(* ===== verification/Packing.thy ===== *)
theory Packing
  imports Seg_Words
begin

text \<open>
  The packer of \<^verbatim>\<open>recapn/src/io/packing.rs\<close>. A packer holds the words left to pack and,
  when an uncompressed run did not fit the output buffer, the bytes of the run still to
  copy. \<open>pack\<close> is called with output buffers of any sizes; \<open>pack_all\<close> is the packed form
  of a word list with no buffer at all, the reference the calls together must produce.
\<close>

section \<open>Helpers\<close>

text \<open>\<open>copy_and_advance_slices src dst\<close> on a destination of \<open>n\<close> bytes: what is written, and
  the space left (\<open>Inr\<close>) or the source left (\<open>Inl\<close>).\<close>

definition copy_and_advance_slices :: "'a list \<Rightarrow> nat \<Rightarrow> 'a list \<times> ('a list + nat)" where
  "copy_and_advance_slices src n =
     (if length src \<le> n then (src, Inr (n - length src)) else (take n src, Inl (drop n src)))"

definition split_at_filter :: "Word list \<Rightarrow> (Word \<Rightarrow> bool) \<Rightarrow> Word list \<times> Word list" where
  "split_at_filter input func =
     (let to_read = min (length input) 255;
          zero_words = (case find_position func (take to_read input) of Some i \<Rightarrow> i | None \<Rightarrow> to_read)
      in (take zero_words input, drop zero_words input))"

text \<open>The macro \<open>handle_byte!\<close>, run for the eight bytes of a word: the tag and the bytes written.\<close>

definition handle_byte :: "nat \<Rightarrow> u8 \<Rightarrow> u8 \<times> u8 list \<Rightarrow> u8 \<times> u8 list" where
  "handle_byte idx b = (\<lambda>(tag, out).
     (let bit = (if b \<noteq> 0 then 1 else 0) in
       (tag OR push_bit idx bit, if b \<noteq> 0 then out @ [b] else out)))"

definition pack_word :: "Word \<Rightarrow> u8 \<times> u8 list" where
  "pack_word w = fold (\<lambda>(idx, b). handle_byte idx b) (enumerate 0 (word_bytes w)) (0, [])"

text \<open>The filter that ends an uncompressed run.\<close>

definition compressible :: "Word \<Rightarrow> bool" where
  "compressible w \<longleftrightarrow> 2 \<le> length (filter (\<lambda>b. b = 0) (word_bytes w))"

lemma fst_split_at_filter:
  "fst (split_at_filter ws P) = takeWhile (\<lambda>w. \<not> P w) (take 255 ws)"
proof -
  let ?xs = "take (min (length ws) 255) ws"
  have xs: "?xs = take 255 ws" by (simp add: min_def)
  have "(case find_position P ?xs of Some i \<Rightarrow> i | None \<Rightarrow> min (length ws) 255) =
      length (takeWhile (\<lambda>w. \<not> P w) ?xs)"
    using find_position_takeWhile [of ?xs P] by (cases "find_position P ?xs") auto
  then have "fst (split_at_filter ws P) = take (length (takeWhile (\<lambda>w. \<not> P w) ?xs)) ws"
    by (simp add: split_at_filter_def Let_def)
  also have "\<dots> = takeWhile (\<lambda>w. \<not> P w) ?xs" by (rule take_length_takeWhile_take)
  finally show ?thesis by (simp only: xs)
qed

lemma split_at_filter_append: "split_at_filter ws P = (a, b) \<Longrightarrow> ws = a @ b"
  by (auto simp: split_at_filter_def Let_def)

lemma split_at_filter_run:
  assumes "split_at_filter ws P = (a, b)"
  shows "length a \<le> 255" "\<forall>w \<in> set a. \<not> P w"
proof -
  have a: "a = takeWhile (\<lambda>w. \<not> P w) (take 255 ws)"
    using fst_split_at_filter [of ws P] assms by simp
  show "length a \<le> 255"
    unfolding a using length_takeWhile_le [of "\<lambda>w. \<not> P w" "take 255 ws"] by simp
  show "\<forall>w \<in> set a. \<not> P w"
    unfolding a by (auto dest: set_takeWhileD)
qed

lemma split_at_filter_shorter: "split_at_filter ws P = (a, b) \<Longrightarrow> length b \<le> length ws"
  using split_at_filter_append by fastforce

section \<open>The packer\<close>

record packer =
  input :: "Word list"
  active_copy :: "u8 list option"

record pack_result =
  completed :: bool
  bytes_written :: nat

definition packer_new :: "Word list \<Rightarrow> packer" where
  "packer_new ws = \<lparr>input = ws, active_copy = None\<rparr>"

definition MIN_BUF :: nat where "MIN_BUF = 10"

text \<open>
  The packing loop on an output buffer with \<open>space\<close> bytes left: the packer state it leaves,
  whether it completed, the space left and the bytes it wrote.
\<close>

function pack_loop :: "Word list \<Rightarrow> nat \<Rightarrow> packer \<times> bool \<times> nat \<times> u8 list" where
  "pack_loop ws space = (case ws of
     [] \<Rightarrow> (\<lparr>input = [], active_copy = None\<rparr>, True, space, [])
   | w # rest \<Rightarrow>
       if space < MIN_BUF then (\<lparr>input = ws, active_copy = None\<rparr>, False, space, [])
       else if w = Word_NULL then
         (case split_at_filter rest (\<lambda>v. v \<noteq> Word_NULL) of (zeros, remainder) \<Rightarrow>
            (case pack_loop remainder (space - 2) of (p, c, left, out) \<Rightarrow>
               (p, c, left, [0, of_nat (length zeros)] @ out)))
       else (case pack_word w of (tag, bytes) \<Rightarrow>
         if tag = 0xff then
           (case split_at_filter rest compressible of (uncompressed, remainder) \<Rightarrow>
              (let hdr = tag # bytes @ [of_nat (length uncompressed)] in
               case copy_and_advance_slices (slice_to_bytes uncompressed) (space - length hdr) of
                 (copied, Inr space') \<Rightarrow>
                   (case pack_loop remainder space' of (p, c, left, out) \<Rightarrow>
                      (p, c, left, hdr @ copied @ out))
               | (copied, Inl rest_bytes) \<Rightarrow>
                   (\<lparr>input = remainder, active_copy = Some rest_bytes\<rparr>, False, 0, hdr @ copied)))
         else
           (case pack_loop rest (space - Suc (length bytes)) of (p, c, left, out) \<Rightarrow>
              (p, c, left, tag # bytes @ out))))"
  by pat_completeness auto
termination pack_loop
  by (relation "measure (\<lambda>(ws, space). length ws)")
     (auto dest!: split_at_filter_shorter [OF sym])

declare pack_loop.simps [simp del]

definition pack :: "packer \<Rightarrow> nat \<Rightarrow> packer \<times> pack_result \<times> u8 list" where
  "pack p in_output_len = (case active_copy p of
     Some bytes \<Rightarrow>
       (case copy_and_advance_slices bytes in_output_len of
          (copied, Inl remainder) \<Rightarrow>
            (p\<lparr>active_copy := Some remainder\<rparr>,
             \<lparr>completed = False, bytes_written = in_output_len\<rparr>, copied)
        | (copied, Inr space) \<Rightarrow>
            (case pack_loop (input p) space of (p', c, left, out) \<Rightarrow>
               (p', \<lparr>completed = c, bytes_written = in_output_len - left\<rparr>, copied @ out)))
   | None \<Rightarrow>
       (case pack_loop (input p) in_output_len of (p', c, left, out) \<Rightarrow>
          (p', \<lparr>completed = c, bytes_written = in_output_len - left\<rparr>, out)))"

text \<open>The callers' loop (\<open>write_message_packed\<close>, with one 256-byte buffer): call \<open>pack\<close> and
  write what it produced until it completes. The buffer sizes are a list here.\<close>

fun pack_calls :: "packer \<Rightarrow> nat list \<Rightarrow> packer \<times> bool \<times> u8 list" where
  "pack_calls p [] = (p, False, [])"
| "pack_calls p (n # ns) = (case pack p n of (p', r, out) \<Rightarrow>
     if completed r then (p', True, out)
     else (case pack_calls p' ns of (p'', c, out') \<Rightarrow> (p'', c, out @ out')))"

section \<open>The reference: packing without a buffer\<close>

function pack_all :: "Word list \<Rightarrow> u8 list" where
  "pack_all ws = (case ws of
     [] \<Rightarrow> []
   | w # rest \<Rightarrow>
       if w = Word_NULL then
         (case split_at_filter rest (\<lambda>v. v \<noteq> Word_NULL) of (zeros, remainder) \<Rightarrow>
            [0, of_nat (length zeros)] @ pack_all remainder)
       else (case pack_word w of (tag, bytes) \<Rightarrow>
         if tag = 0xff then
           (case split_at_filter rest compressible of (uncompressed, remainder) \<Rightarrow>
              tag # bytes @ [of_nat (length uncompressed)] @ slice_to_bytes uncompressed @
                pack_all remainder)
         else tag # bytes @ pack_all rest))"
  by pat_completeness auto
termination pack_all
  by (relation "measure length") (auto dest!: split_at_filter_shorter [OF sym])

declare pack_all.simps [simp del]

lemma pack_all_Nil [simp]: "pack_all [] = []"
  by (simp add: pack_all.simps)

text \<open>The equations of the reference, one per kind of word.\<close>

lemma pack_all_null:
  "split_at_filter rest (\<lambda>v. v \<noteq> Word_NULL) = (zeros, remd) \<Longrightarrow>
   pack_all (Word_NULL # rest) = [0, of_nat (length zeros)] @ pack_all remd"
  by (simp add: pack_all.simps [of "Word_NULL # rest"])

lemma pack_all_word:
  "w \<noteq> Word_NULL \<Longrightarrow> pack_word w = (tag, bytes) \<Longrightarrow> tag \<noteq> 0xff \<Longrightarrow>
   pack_all (w # rest) = tag # bytes @ pack_all rest"
  by (simp add: pack_all.simps [of "w # rest"])

lemma pack_all_full:
  "w \<noteq> Word_NULL \<Longrightarrow> pack_word w = (0xff, bytes) \<Longrightarrow>
   split_at_filter rest compressible = (unc, remd) \<Longrightarrow>
   pack_all (w # rest) =
     0xff # bytes @ [of_nat (length unc)] @ slice_to_bytes unc @ pack_all remd"
  by (simp add: pack_all.simps [of "w # rest"])

lemma pack_loop_null:
  "MIN_BUF \<le> space \<Longrightarrow> split_at_filter rest (\<lambda>v. v \<noteq> Word_NULL) = (zeros, remd) \<Longrightarrow>
   pack_loop (Word_NULL # rest) space =
     (case pack_loop remd (space - 2) of (p, c, left, out) \<Rightarrow>
        (p, c, left, [0, of_nat (length zeros)] @ out))"
  by (simp add: pack_loop.simps [of "Word_NULL # rest"])

lemma pack_loop_full:
  assumes "MIN_BUF \<le> space" "w \<noteq> Word_NULL" "pack_word w = (0xff, bytes)"
    and "split_at_filter rest compressible = (unc, remd)"
    and "hdr = 0xff # bytes @ [of_nat (length unc)]"
    and "copy_and_advance_slices (slice_to_bytes unc) (space - length hdr) = (copied, r)"
  shows "pack_loop (w # rest) space = (case r of
       Inr space' \<Rightarrow> (case pack_loop remd space' of (p, c, left, out) \<Rightarrow>
          (p, c, left, hdr @ copied @ out))
     | Inl rest_bytes \<Rightarrow>
          (\<lparr>input = remd, active_copy = Some rest_bytes\<rparr>, False, 0, hdr @ copied))"
  using assms by (simp add: pack_loop.simps [of "w # rest"] split: sum.split)

text \<open>What is left to write for a packer state.\<close>

definition pending :: "packer \<Rightarrow> u8 list" where
  "pending p = (case active_copy p of Some bytes \<Rightarrow> bytes | None \<Rightarrow> []) @ pack_all (input p)"

lemma pending_new [simp]: "pending (packer_new ws) = pack_all ws"
  by (simp add: pending_def packer_new_def)

section \<open>One word\<close>

lemma pack_word_Word:
  "pack_word (Word a b c d e f g h) =
     (fold (\<lambda>(i, x) t. t OR push_bit i (if x \<noteq> 0 then 1 else 0))
        (enumerate 0 [a, b, c, d, e, f, g, h]) 0,
      filter (\<lambda>x. x \<noteq> 0) [a, b, c, d, e, f, g, h])"
  by (simp add: pack_word_def handle_byte_def Let_def)

lemma pack_word_snd: "snd (pack_word w) = filter (\<lambda>x. x \<noteq> 0) (word_bytes w)"
  by (cases w) (simp add: pack_word_Word)

lemma bit_fold_tag:
  "n + length xs \<le> 8 \<Longrightarrow>
   bit (fold (\<lambda>(i, x) t. t OR push_bit i (if x \<noteq> 0 then 1 else 0)) (enumerate n xs) (t :: u8)) k
   \<longleftrightarrow> bit t k \<or> (n \<le> k \<and> k < n + length xs \<and> xs ! (k - n) \<noteq> (0 :: u8))"
proof (induction xs arbitrary: n t)
  case Nil
  then show ?case by auto
next
  case (Cons x xs)
  let ?f = "\<lambda>(i, x) t. t OR push_bit i (if x \<noteq> 0 then 1 else (0 :: u8))"
  have "bit (fold ?f (enumerate n (x # xs)) t) k \<longleftrightarrow>
      bit (t OR push_bit n (if x \<noteq> 0 then 1 else 0)) k \<or>
      (Suc n \<le> k \<and> k < Suc n + length xs \<and> xs ! (k - Suc n) \<noteq> 0)"
    using Cons by simp
  then show ?case
    using Cons.prems by (auto simp: bit_simps nth_Cons' bit_1_iff)
qed

lemma all_word_bytes: "(\<forall>b \<in> set (word_bytes w). P b) \<longleftrightarrow> (\<forall>i < 8. P (word_bytes w ! i))"
  by (simp add: all_set_conv_all_nth)

lemma bit_u8_255: "bit (0xff :: u8) k \<longleftrightarrow> k < 8"
proof -
  have "(0xff :: u8) = mask 8" by (simp add: mask_eq_exp_minus_1)
  then show ?thesis by (simp only: bit_mask_iff) auto
qed

lemma u8_eq_iff: "x = y \<longleftrightarrow> (\<forall>k < 8. bit x k = bit y k)" for x y :: u8
  by (simp add: bit_eq_iff)

lemma bit_pack_word_tag: "bit (fst (pack_word w)) k \<longleftrightarrow> k < 8 \<and> word_bytes w ! k \<noteq> 0"
proof (cases w)
  case (Word a b c d e f g h)
  show ?thesis
    unfolding Word pack_word_Word fst_conv by (subst bit_fold_tag) (simp_all add: numeral_eq_Suc)
qed

lemma tag_zero_iff: "fst (pack_word w) = 0 \<longleftrightarrow> w = Word_NULL"
  by (simp only: u8_eq_iff [of "fst (pack_word w)"] word_eq_NULL_iff all_word_bytes bit_pack_word_tag
      bit_0_eq bot_apply bot_bool_def) blast

lemma tag_full_iff: "fst (pack_word w) = 0xff \<longleftrightarrow> (\<forall>b \<in> set (word_bytes w). b \<noteq> 0)"
  by (simp only: u8_eq_iff [of "fst (pack_word w)"] all_word_bytes bit_pack_word_tag bit_u8_255) blast

lemma length_pack_word: "pack_word w = (tag, bytes) \<Longrightarrow> length bytes \<le> 8"
  using pack_word_snd [of w] length_filter_le [of "\<lambda>x. x \<noteq> 0" "word_bytes w"] by simp

lemma pack_word_full: "pack_word w = (0xff, bytes) \<Longrightarrow> bytes = word_bytes w"
  using pack_word_snd [of w] tag_full_iff [of w] by (simp add: filter_id_conv)

section \<open>Buffer independence\<close>

lemma copy_cases:
  "copy_and_advance_slices src n = (copied, r) \<Longrightarrow>
     (r = Inr (n - length copied) \<and> copied = src \<and> length src \<le> n) \<or>
     (\<exists>rem. r = Inl rem \<and> src = copied @ rem \<and> length copied = n \<and> rem \<noteq> [])"
  by (auto simp: copy_and_advance_slices_def split: if_splits)

text \<open>
  One run of the loop: what it writes followed by what its state still owes is the packed
  form; the space it reports is the buffer minus what it wrote; it completes only with
  nothing left, and otherwise a buffer of ten bytes makes progress.
\<close>

definition pack_step_ok :: "u8 list \<Rightarrow> nat \<Rightarrow> packer \<times> bool \<times> nat \<times> u8 list \<Rightarrow> bool" where
  "pack_step_ok owed space r = (case r of (p, c, left, out) \<Rightarrow>
     owed = out @ pending p \<and> length out + left = space \<and>
     (c \<longrightarrow> pending p = []) \<and> (\<not> c \<and> MIN_BUF \<le> space \<longrightarrow> out \<noteq> []))"

lemma pack_step_ok_prepend:
  assumes "pack_step_ok owed (space - length hdr) r" "length hdr \<le> space" "hdr \<noteq> []"
  shows "pack_step_ok (hdr @ owed) space (case r of (p, c, left, out) \<Rightarrow> (p, c, left, hdr @ out))"
  using assms by (auto simp: pack_step_ok_def)

lemma pack_loop_ok: "pack_step_ok (pack_all ws) space (pack_loop ws space)"
proof (induction ws space rule: pack_loop.induct)
  case (1 ws space)
  show ?case
  proof (cases ws)
    case Nil
    then show ?thesis by (simp add: pack_loop.simps pack_step_ok_def pending_def)
  next
    case (Cons w rest)
    consider (full) "space < MIN_BUF" | (null) "\<not> space < MIN_BUF" "w = Word_NULL"
      | (word) "\<not> space < MIN_BUF" "w \<noteq> Word_NULL" by blast
    then show ?thesis
    proof cases
      case full
      then show ?thesis
        by (simp add: Cons pack_loop.simps [of "w # rest" space] pack_step_ok_def pending_def)
    next
      case null
      obtain zeros remd where s: "split_at_filter rest (\<lambda>v. v \<noteq> Word_NULL) = (zeros, remd)"
        by force
      have "pack_step_ok (pack_all remd) (space - length [0, of_nat (length zeros) :: u8])
          (pack_loop remd (space - 2))"
        using 1(1) [OF Cons null(1) null(2) s [symmetric]] by (simp add: numeral_2_eq_2)
      from pack_step_ok_prepend [OF this] null show ?thesis
        by (simp add: Cons pack_loop_null [OF _ s] pack_all_null [OF s] MIN_BUF_def)
    next
      case word
      obtain tag bytes where tb: "pack_word w = (tag, bytes)" by force
      have len: "length bytes \<le> 8" using tb by (rule length_pack_word)
      show ?thesis
      proof (cases "tag = 0xff")
        case False
        have "pack_step_ok (pack_all rest) (space - length (tag # bytes))
            (pack_loop rest (space - Suc (length bytes)))"
          using 1(3) [OF Cons word tb [symmetric] False] by simp
        from pack_step_ok_prepend [OF this] word len show ?thesis
          by (simp add: Cons pack_loop.simps [of "w # rest" space] pack_all.simps [of "w # rest"]
              tb False MIN_BUF_def)
      next
        case True
        obtain unc remd where s: "split_at_filter rest compressible = (unc, remd)" by force
        define hdr where "hdr = tag # bytes @ [of_nat (length unc)]"
        have hdr: "length hdr \<le> space" "hdr \<noteq> []" using len word by (auto simp: hdr_def MIN_BUF_def)
        obtain copied r where c:
          "copy_and_advance_slices (slice_to_bytes unc) (space - length hdr) = (copied, r)" by force
        have loop: "pack_loop (w # rest) space = (case r of
             Inr space' \<Rightarrow> (case pack_loop remd space' of (p, c, left, out) \<Rightarrow>
                (p, c, left, hdr @ copied @ out))
           | Inl rest_bytes \<Rightarrow>
                (\<lparr>input = remd, active_copy = Some rest_bytes\<rparr>, False, 0, hdr @ copied))"
          using word tb True s c by (intro pack_loop_full) (simp_all add: hdr_def)
        have all: "pack_all (w # rest) = hdr @ slice_to_bytes unc @ pack_all remd"
          using pack_all_full [OF word(2) _ s] tb True by (simp add: hdr_def)
        from copy_cases [OF c] show ?thesis
        proof
          assume r: "r = Inr (space - length hdr - length copied) \<and> copied = slice_to_bytes unc \<and>
            length (slice_to_bytes unc) \<le> space - length hdr"
          have "pack_step_ok (pack_all remd) (space - length (hdr @ copied))
              (pack_loop remd (space - length hdr - length copied))"
            using 1(2) [OF Cons word tb [symmetric] True s [symmetric] hdr_def c [symmetric]] r by simp
          then have "pack_step_ok ((hdr @ copied) @ pack_all remd) space
              (case pack_loop remd (space - length hdr - length copied) of
                 (p, c, left, out) \<Rightarrow> (p, c, left, (hdr @ copied) @ out))"
            by (rule pack_step_ok_prepend) (use hdr r in auto)
          then show ?thesis
            using r unfolding Cons loop all by simp
        next
          assume "\<exists>rem. r = Inl rem \<and> slice_to_bytes unc = copied @ rem \<and>
            length copied = space - length hdr \<and> rem \<noteq> []"
          then obtain rem where r: "r = Inl rem" "slice_to_bytes unc = copied @ rem"
            "length copied = space - length hdr" by blast
          with hdr show ?thesis
            unfolding Cons loop all by (simp add: pack_step_ok_def pending_def)
        qed
      qed
    qed
  qed
qed

lemma pack_ok:
  assumes "pack p n = (p', r, out)"
  shows "pending p = out @ pending p'" "length out = bytes_written r" "bytes_written r \<le> n"
    "completed r \<Longrightarrow> pending p' = []" "\<not> completed r \<Longrightarrow> MIN_BUF \<le> n \<Longrightarrow> out \<noteq> []"
proof -
  have "pending p = out @ pending p' \<and> length out = bytes_written r \<and> bytes_written r \<le> n \<and>
    (completed r \<longrightarrow> pending p' = []) \<and> (\<not> completed r \<and> MIN_BUF \<le> n \<longrightarrow> out \<noteq> [])"
  proof (cases "active_copy p")
    case None
    obtain q c left o1 where "pack_loop (input p) n = (q, c, left, o1)" by (metis prod_cases4)
    with pack_loop_ok [of "input p" n] assms None show ?thesis
      by (auto simp: pack_def pack_step_ok_def pending_def)
  next
    case (Some bytes)
    obtain copied k where c: "copy_and_advance_slices bytes n = (copied, k)" by force
    from copy_cases [OF c] show ?thesis
    proof
      assume k: "k = Inr (n - length copied) \<and> copied = bytes \<and> length bytes \<le> n"
      obtain q cm left o1 where "pack_loop (input p) (n - length copied) = (q, cm, left, o1)"
        by (metis prod_cases4)
      with pack_loop_ok [of "input p" "n - length copied"] assms Some c k show ?thesis
        by (cases "bytes = []") (auto simp: pack_def pack_step_ok_def pending_def)
    next
      assume "\<exists>rem. k = Inl rem \<and> bytes = copied @ rem \<and> length copied = n \<and> rem \<noteq> []"
      with assms Some c show ?thesis
        by (auto simp: pack_def pending_def MIN_BUF_def)
    qed
  qed
  then show "pending p = out @ pending p'" "length out = bytes_written r" "bytes_written r \<le> n"
    "completed r \<Longrightarrow> pending p' = []" "\<not> completed r \<Longrightarrow> MIN_BUF \<le> n \<Longrightarrow> out \<noteq> []"
    by auto
qed

lemma pack_calls_prefix:
  "pack_calls p ns = (p', c, out) \<Longrightarrow> pending p = out @ pending p' \<and> (c \<longrightarrow> pending p' = [])"
proof (induction ns arbitrary: p p' c out)
  case Nil
  then show ?case by simp
next
  case (Cons n ns)
  obtain q r o1 where q: "pack p n = (q, r, o1)" by (metis prod_cases3)
  note ok = pack_ok [OF q]
  show ?case
  proof (cases "completed r")
    case True
    with Cons.prems q ok show ?thesis by auto
  next
    case False
    obtain q' c' o2 where q': "pack_calls q ns = (q', c', o2)" by (metis prod_cases3)
    from Cons.IH [OF this] Cons.prems q q' False ok(1) show ?thesis by auto
  qed
qed

lemma pack_calls_complete:
  "\<forall>n \<in> set ns. MIN_BUF \<le> n \<Longrightarrow> length (pending p) < length ns \<Longrightarrow>
   \<exists>p' out. pack_calls p ns = (p', True, out)"
proof (induction ns arbitrary: p)
  case Nil
  then show ?case by simp
next
  case (Cons n ns)
  obtain q r o1 where q: "pack p n = (q, r, o1)" by (metis prod_cases3)
  note ok = pack_ok [OF q]
  show ?case
  proof (cases "completed r")
    case True
    with q show ?thesis by simp
  next
    case False
    with ok Cons.prems have "o1 \<noteq> []" by simp
    with ok(1) Cons.prems have "length (pending q) < length ns" by (cases o1) auto
    with Cons.prems Cons.IH [of q] obtain q' o2 where "pack_calls q ns = (q', True, o2)" by auto
    with q False show ?thesis by simp
  qed
qed

text \<open>C6: packing is independent of the output buffers. Called with any sequence of buffers of
  at least ten bytes that is long enough, the packer completes, and the bytes it wrote are
  exactly the packed form of its words.\<close>

theorem pack_buffer_independent:
  assumes "\<forall>n \<in> set ns. MIN_BUF \<le> n" and "length (pack_all ws) < length ns"
  shows "\<exists>p. pack_calls (packer_new ws) ns = (p, True, pack_all ws)"
proof -
  from pack_calls_complete [OF assms(1), of "packer_new ws"] assms(2)
  obtain p out where p: "pack_calls (packer_new ws) ns = (p, True, out)" by auto
  from pack_calls_prefix [OF p] have "out = pack_all ws" by simp
  with p show ?thesis by blast
qed

theorem pack_buffer_independent_witness:
  "\<exists>p. pack_calls (packer_new [Word_NULL]) [10, 12, 10] = (p, True, [0, 0])"
proof -
  have a: "pack_all [Word_NULL] = [0, 0]"
    by (simp add: pack_all_null [of "[]" "[]" "[]"] split_at_filter_def)
  have "\<exists>p. pack_calls (packer_new [Word_NULL]) [10, 12, 10] = (p, True, pack_all [Word_NULL])"
    by (rule pack_buffer_independent) (simp_all add: MIN_BUF_def a)
  then show ?thesis by (simp only: a)
qed

text \<open>A single call never writes more than the buffer, reports exactly what it wrote, leaves a
  state that owes exactly the rest of the packed form, and completes only when nothing is owed.\<close>

lemma pack_call_accounts:
  "case pack p n of (p', r, out) \<Rightarrow>
     pending p = out @ pending p' \<and> length out = bytes_written r \<and> bytes_written r \<le> n \<and>
     (if completed r then pending p' = [] else True)"
  using pack_ok by (cases "pack p n") (auto split: if_splits)

text \<open>A packer that still has an uncompressed run to copy writes into a buffer of any size,
  also one below the ten bytes that \<open>pack\<close>'s documentation calls the minimum below which
  no bytes will be written.\<close>

lemma pack_small_buffer_writes:
  "let p = fst (pack (packer_new [Word 1 1 1 1 1 1 1 1, Word 2 2 2 2 2 2 2 2]) 10) in
   pack p 3 = (p\<lparr>active_copy := Some [2, 2, 2, 2, 2]\<rparr>,
     \<lparr>completed = False, bytes_written = 3\<rparr>, [2, 2, 2])"
proof -
  have t: "pack_word (Word 1 1 1 1 1 1 1 1) = (0xff, [1, 1, 1, 1, 1, 1, 1, 1])"
    by (simp add: pack_word_Word)
  have s: "split_at_filter [Word 2 2 2 2 2 2 2 2] compressible = ([Word 2 2 2 2 2 2 2 2], [])"
    by (simp add: split_at_filter_def compressible_def)
  have l: "pack_loop [Word 1 1 1 1 1 1 1 1, Word 2 2 2 2 2 2 2 2] 10 =
      (\<lparr>input = [], active_copy = Some (replicate 8 2)\<rparr>, False, 0, [0xff, 1, 1, 1, 1, 1, 1, 1, 1, 1])"
    by (subst pack_loop_full [OF _ _ t s refl])
       (simp_all add: MIN_BUF_def Word_NULL_def copy_and_advance_slices_def, simp add: numeral_eq_Suc)
  show ?thesis
    by (simp add: pack_def packer_new_def l copy_and_advance_slices_def) (simp add: numeral_eq_Suc)
qed

end
