(* ===== verification/Unpacking.thy ===== *)
theory Unpacking
  imports Packing
begin

text \<open>
  The resumable unpacker of \<^verbatim>\<open>recapn/src/io/packing.rs\<close>: it is handed input and output slices
  of any sizes and keeps, between calls, which part of a word or run it is in the middle of.
  The model keeps the remaining input, the remaining output and the words written so far in a
  \<open>cursor\<close>; \<open>Panic\<close> is the failed assertion of \<open>take_first_mut\<close> or an \<open>unreachable!\<close>.
\<close>

section \<open>Partial words\<close>

datatype written_bytes = WZero | WOne | WTwo | WThree | WFour | WFive | WSix | WSeven

fun needed_for_full :: "written_bytes \<Rightarrow> nat" where
  "needed_for_full WZero = 8"
| "needed_for_full WOne = 7"
| "needed_for_full WTwo = 6"
| "needed_for_full WThree = 5"
| "needed_for_full WFour = 4"
| "needed_for_full WFive = 3"
| "needed_for_full WSix = 2"
| "needed_for_full WSeven = 1"

fun written :: "written_bytes \<Rightarrow> nat" where
  "written WZero = 0"
| "written WOne = 1"
| "written WTwo = 2"
| "written WThree = 3"
| "written WFour = 4"
| "written WFive = 5"
| "written WSix = 6"
| "written WSeven = 7"

definition from_bytes :: "nat \<Rightarrow> (unit, written_bytes) outcome" where
  "from_bytes n =
     (if n = 0 then Ok WZero else if n = 1 then Ok WOne else if n = 2 then Ok WTwo
      else if n = 3 then Ok WThree else if n = 4 then Ok WFour else if n = 5 then Ok WFive
      else if n = 6 then Ok WSix else if n = 7 then Ok WSeven else Panic)"

record partial_word =
  pw_buf :: "u8 list"
  pw_written :: written_bytes

record partial_tagged_word =
  pt_buf :: "u8 list"
  pt_tag :: u8
  pt_written :: written_bytes

definition count_ones :: "u8 \<Rightarrow> nat" where
  "count_ones t = length (filter (bit t) [0..<8])"

definition pw_needed_bytes :: "partial_word \<Rightarrow> nat" where
  "pw_needed_bytes p = needed_for_full (pw_written p)"

definition pt_needed_bytes :: "partial_tagged_word \<Rightarrow> nat" where
  "pt_needed_bytes p = count_ones (pt_tag p)"

text \<open>\<open>PartialWord::start\<close>: the eight-byte buffer begins with the source bytes.\<close>

definition pw_start :: "u8 list \<Rightarrow> (unit, partial_word) outcome" where
  "pw_start src = obind (from_bytes (length src)) (\<lambda>wb.
     Ok \<lparr>pw_buf = src @ replicate (8 - length src) 0, pw_written = wb\<rparr>)"

text \<open>
  \<open>PartialWord::finish\<close>: \<open>Inr\<close> the completed word, written to the first output word, or
  \<open>Inl\<close> the word still partial, with the source used up; and the source and output left.
\<close>

definition pw_finish :: "partial_word \<Rightarrow> u8 list \<Rightarrow> Word list \<Rightarrow>
    (unit, (partial_word + Word) \<times> u8 list \<times> Word list) outcome" where
  "pw_finish p src dst =
     (let needed = needed_for_full (pw_written p); buf_start = written (pw_written p) in
      if needed \<le> length src then
        (let buf = take buf_start (pw_buf p) @ take needed src in
         case dst of [] \<Rightarrow> Panic
         | _ # dst' \<Rightarrow> Ok (Inr (word_of_bytes buf), drop needed src, dst'))
      else
        (let buf_end = buf_start + length src;
             buf = take buf_start (pw_buf p) @ src @ drop buf_end (pw_buf p) in
         obind (from_bytes buf_end) (\<lambda>wb. Ok (Inl \<lparr>pw_buf = buf, pw_written = wb\<rparr>, [], dst))))"

text \<open>
  The loop that \<open>PartialTaggedWord::start\<close> and \<open>finish\<close> share: for each bit of the tag from
  the lowest, a set bit takes a source byte into the buffer, and stops if there is none.
\<close>

function fill_tagged :: "u8 list \<Rightarrow> u8 \<Rightarrow> nat \<Rightarrow> u8 list \<Rightarrow>
    (unit, u8 list \<times> u8 \<times> nat \<times> u8 list) outcome" where
  "fill_tagged buf tag dst_idx src =
     (if tag = 0 then Ok (buf, tag, dst_idx, src)
      else if tag AND 1 \<noteq> 0 then
        (case src of
           [] \<Rightarrow> Ok (buf, tag, dst_idx, src)
         | byte # src' \<Rightarrow>
             if dst_idx < length buf
             then fill_tagged (buf[dst_idx := byte]) (drop_bit 1 tag) (Suc dst_idx) src'
             else Panic)
      else fill_tagged buf (drop_bit 1 tag) (Suc dst_idx) src)"
  by pat_completeness auto

lemma drop_bit_1_less: "tag \<noteq> 0 \<Longrightarrow> unat (drop_bit (Suc 0) tag) < unat (tag :: u8)"
  by (simp add: drop_bit_eq_div unat_div_distrib unat_gt_0)

termination fill_tagged
  by (relation "measure (\<lambda>(buf, tag, dst_idx, src). unat tag)") (auto simp: drop_bit_1_less)

declare fill_tagged.simps [simp del]

definition pt_start :: "u8 \<Rightarrow> u8 list \<Rightarrow> (unit, partial_tagged_word) outcome" where
  "pt_start tag src = obind (fill_tagged (replicate 8 0) tag 0 src) (\<lambda>(buf, tag', dst_idx, _).
     obind (from_bytes dst_idx) (\<lambda>wb. Ok \<lparr>pt_buf = buf, pt_tag = tag', pt_written = wb\<rparr>))"

definition pt_finish :: "partial_tagged_word \<Rightarrow> u8 list \<Rightarrow> Word list \<Rightarrow>
    (unit, (partial_tagged_word + Word) \<times> u8 list \<times> Word list) outcome" where
  "pt_finish p src dst =
     obind (fill_tagged (pt_buf p) (pt_tag p) (written (pt_written p)) src)
       (\<lambda>(buf, tag, dst_idx, src').
         if tag = 0 then
           (case dst of [] \<Rightarrow> Panic | _ # dst' \<Rightarrow> Ok (Inr (word_of_bytes buf), src', dst'))
         else obind (from_bytes dst_idx) (\<lambda>wb.
           Ok (Inl \<lparr>pt_buf = buf, pt_tag = tag, pt_written = wb\<rparr>, src', dst)))"

section \<open>The unpacker\<close>

datatype incomplete_state =
    PartialWord partial_tagged_word
  | PartialUncompressed partial_word
  | NeedNullCount
  | NeedUncompressedCount
  | WritingNulls nat
  | WritingUncompressed nat "partial_word option"

datatype stop_reason = NeedInput | NeedOutput

type_synonym unpacker = "incomplete_state option"

record cursor =
  src :: "u8 list"
  dst :: "Word list"
  out :: "Word list"

text \<open>A step of the unpacker goes on to the main loop, or stops with the state it leaves.\<close>

datatype flow = Go cursor | Stop unpacker stop_reason cursor

definition write_nulls :: "cursor \<Rightarrow> nat \<Rightarrow> flow" where
  "write_nulls c count =
     (if count \<le> length (dst c) then
        Go (c\<lparr>dst := drop count (dst c), out := out c @ take count (dst c)\<rparr>)
      else
        Stop (Some (WritingNulls (count - length (dst c)))) NeedOutput
          (c\<lparr>dst := [], out := out c @ dst c\<rparr>))"

definition write_uncompressed :: "cursor \<Rightarrow> nat \<Rightarrow> (unit, flow) outcome" where
  "write_uncompressed c count =
     (let full_words = length (src c) div 8; partial_bytes = length (src c) mod 8;
          enough_input = (count \<le> full_words);
          words_to_read = (if enough_input then count else full_words);
          enough_output = (words_to_read \<le> length (dst c)) in
      if \<not> enough_output then
        (let n = length (dst c) in
         Ok (Stop (Some (WritingUncompressed (count - n) None)) NeedOutput
           (c\<lparr>src := drop (8 * n) (src c), dst := [],
              out := out c @ bytes_to_words (take (8 * n) (src c))\<rparr>)))
      else if \<not> enough_input then
        (let has_partial = (partial_bytes \<noteq> 0);
             consumed_words = full_words + (if has_partial then 1 else 0);
             rest = drop (full_words * 8) (src c);
             c' = c\<lparr>src := [], dst := drop words_to_read (dst c),
                    out := out c @ bytes_to_words (take (full_words * 8) (src c))\<rparr> in
         if has_partial then
           obind (pw_start rest) (\<lambda>p.
             Ok (Stop (Some (WritingUncompressed (count - consumed_words) (Some p))) NeedInput c'))
         else Ok (Stop (Some (WritingUncompressed (count - consumed_words) None)) NeedInput c'))
      else
        Ok (Go (c\<lparr>src := drop (words_to_read * 8) (src c), dst := drop words_to_read (dst c),
                  out := out c @ bytes_to_words (take (words_to_read * 8) (src c))\<rparr>)))"

text \<open>The loop over the bytes of the output word in the general case of a tag.\<close>

fun expand_tag :: "u8 list \<Rightarrow> u8 \<Rightarrow> u8 list \<Rightarrow> (unit, u8 list) outcome" where
  "expand_tag [] tag i = Ok []"
| "expand_tag (b # bs) tag i =
     (if tag AND 1 \<noteq> 0 then
        (case i of
           [] \<Rightarrow> Panic
         | x # i' \<Rightarrow>
             if drop_bit 1 tag = 0 then Ok (x # bs)
             else obind (expand_tag bs (drop_bit 1 tag) i') (\<lambda>r. Ok (x # r)))
      else if drop_bit 1 tag = 0 then Ok (b # bs)
      else obind (expand_tag bs (drop_bit 1 tag) i) (\<lambda>r. Ok (b # r)))"

text \<open>One round of the main loop; the source and the output are not empty.\<close>

definition unpack_round :: "u8 \<Rightarrow> u8 list \<Rightarrow> Word \<Rightarrow> Word list \<Rightarrow> Word list \<Rightarrow> (unit, flow) outcome" where
  "unpack_round tag src' w dst' o' =
     (if tag = 0 then
        (case src' of
           [] \<Rightarrow> Ok (Stop (Some NeedNullCount) NeedInput \<lparr>src = [], dst = dst', out = o' @ [w]\<rparr>)
         | count # src'' \<Rightarrow>
             (let c = \<lparr>src = src'', dst = dst', out = o' @ [w]\<rparr> in
              Ok (if count \<noteq> 0 then write_nulls c (unat count) else Go c)))
      else if tag = 0xff then
        (if length src' < 8 then
           obind (pw_start src') (\<lambda>p. Ok (Stop (Some (PartialUncompressed p)) NeedInput
             \<lparr>src = [], dst = w # dst', out = o'\<rparr>))
         else
           (let o'' = o' @ [word_of_bytes (take 8 src')] in
            case drop 8 src' of
              [] \<Rightarrow> Ok (Stop (Some NeedUncompressedCount) NeedInput \<lparr>src = [], dst = dst', out = o''\<rparr>)
            | count # src'' \<Rightarrow>
                (let c = \<lparr>src = src'', dst = dst', out = o''\<rparr> in
                 if count \<noteq> 0 then write_uncompressed c (unat count) else Ok (Go c))))
      else
        (let bytes_needed = count_ones tag in
         if length src' < bytes_needed then
           obind (pt_start tag src') (\<lambda>p. Ok (Stop (Some (PartialWord p)) NeedInput
             \<lparr>src = [], dst = w # dst', out = o'\<rparr>))
         else
           obind (expand_tag (word_bytes w) tag (take bytes_needed src')) (\<lambda>bs.
             Ok (Go \<lparr>src = drop bytes_needed src', dst = dst', out = o' @ [word_of_bytes bs]\<rparr>))))"

lemma write_nulls_src: "write_nulls c n = Go c' \<Longrightarrow> src c' = src c"
  by (auto simp: write_nulls_def split: if_splits)

lemma write_uncompressed_src: "write_uncompressed c n = Ok (Go c') \<Longrightarrow> length (src c') \<le> length (src c)"
  by (auto simp: write_uncompressed_def Let_def obind_Ok_iff split: if_splits)

lemma unpack_round_shorter:
  "unpack_round tag s w d o' = Ok (Go c') \<Longrightarrow> length (src c') \<le> length s"
  by (auto simp: unpack_round_def Let_def obind_Ok_iff
      dest!: write_nulls_src write_uncompressed_src split: if_splits list.splits)
     (metis Suc_leD diff_le_self length_Cons length_drop order_trans)+

function unpack_loop :: "cursor \<Rightarrow> (unit, unpacker \<times> stop_reason \<times> cursor) outcome" where
  "unpack_loop c = (case src c of
     [] \<Rightarrow> Ok (None, NeedInput, c)
   | tag # src' \<Rightarrow> (case dst c of
       [] \<Rightarrow> Ok (None, NeedOutput, c)
     | w # dst' \<Rightarrow> obind (unpack_round tag src' w dst' (out c)) (\<lambda>f. case f of
         Go c' \<Rightarrow> unpack_loop c'
       | Stop st r c' \<Rightarrow> Ok (st, r, c'))))"
  by pat_completeness auto
termination unpack_loop
proof (relation "measure (\<lambda>c. length (src c))")
  fix c c' :: cursor and tag src' w dst' f
  assume "src c = tag # src'" "unpack_round tag src' w dst' (out c) = Ok f" "f = Go c'"
  then show "(c', c) \<in> measure (\<lambda>c. length (src c))"
    by (auto dest: unpack_round_shorter)
qed simp

declare unpack_loop.simps [simp del]

text \<open>The \<open>match\<close> on the state taken at the start of a call: finish what was under way.\<close>

definition resume :: "unpacker \<Rightarrow> cursor \<Rightarrow> (unit, flow) outcome" where
  "resume st c = (case st of
     Some (PartialWord partial) \<Rightarrow>
       obind (pt_finish partial (src c) (dst c)) (\<lambda>(r, s, d). case r of
         Inl p \<Rightarrow> Ok (Stop (Some (PartialWord p)) NeedInput (c\<lparr>src := s, dst := d\<rparr>))
       | Inr w \<Rightarrow> Ok (Go (c\<lparr>src := s, dst := d, out := out c @ [w]\<rparr>)))
   | Some (PartialUncompressed partial) \<Rightarrow>
       obind (pw_finish partial (src c) (dst c)) (\<lambda>(r, s, d). case r of
         Inl p \<Rightarrow> Ok (Stop (Some (PartialUncompressed p)) NeedInput (c\<lparr>src := s, dst := d\<rparr>))
       | Inr w \<Rightarrow>
           (let c' = c\<lparr>src := s, dst := d, out := out c @ [w]\<rparr> in
            case s of
              [] \<Rightarrow> Ok (Stop (Some NeedUncompressedCount) NeedInput c')
            | count # s' \<Rightarrow> write_uncompressed (c'\<lparr>src := s'\<rparr>) (unat count)))
   | Some NeedNullCount \<Rightarrow>
       (case src c of [] \<Rightarrow> Panic
        | count # s \<Rightarrow> Ok (write_nulls (c\<lparr>src := s\<rparr>) (unat count)))
   | Some NeedUncompressedCount \<Rightarrow>
       (case src c of [] \<Rightarrow> Panic
        | count # s \<Rightarrow> write_uncompressed (c\<lparr>src := s\<rparr>) (unat count))
   | Some (WritingNulls count) \<Rightarrow> Ok (write_nulls c count)
   | Some (WritingUncompressed remaining partial) \<Rightarrow>
       (case partial of
          None \<Rightarrow> write_uncompressed c remaining
        | Some p \<Rightarrow>
            obind (pw_finish p (src c) (dst c)) (\<lambda>(r, s, d). case r of
              Inl p' \<Rightarrow> Ok (Stop (Some (WritingUncompressed remaining (Some p'))) NeedInput
                (c\<lparr>src := s, dst := d\<rparr>))
            | Inr w \<Rightarrow>
                write_uncompressed (c\<lparr>src := s, dst := d, out := out c @ [w]\<rparr>) remaining))
   | None \<Rightarrow> Ok (Go c))"

definition unpack_inner :: "unpacker \<Rightarrow> cursor \<Rightarrow> (unit, unpacker \<times> stop_reason \<times> cursor) outcome" where
  "unpack_inner st c =
     (if src c = [] then Ok (st, NeedInput, c)
      else obind (resume st c) (\<lambda>f. case f of
        Go c' \<Rightarrow> unpack_loop c'
      | Stop st' r c' \<Rightarrow> Ok (st', r, c')))"

record unpack_result =
  bytes_read :: nat
  words_written :: nat
  reason :: stop_reason

text \<open>A call of \<open>unpack\<close>: the state after it, its result, and the words it wrote.\<close>

definition unpack :: "unpacker \<Rightarrow> u8 list \<Rightarrow> Word list \<Rightarrow>
    (unit, unpacker \<times> unpack_result \<times> Word list) outcome" where
  "unpack st s d = obind (unpack_inner st \<lparr>src = s, dst = d, out = []\<rparr>) (\<lambda>(st', r, c).
     Ok (st', \<lparr>bytes_read = length s - length (src c), words_written = length d - length (dst c),
               reason = r\<rparr>, out c))"

text \<open>\<open>Unpacker::finish\<close>: an error with the bytes still needed, or nothing.\<close>

definition unpacker_finish :: "unpacker \<Rightarrow> (nat, unit) outcome" where
  "unpacker_finish st = (case st of
     Some (PartialWord p) \<Rightarrow> Err (pt_needed_bytes p)
   | Some (PartialUncompressed p) \<Rightarrow> Err (pw_needed_bytes p + 1)
   | Some NeedNullCount \<Rightarrow> Err 1
   | Some NeedUncompressedCount \<Rightarrow> Err 1
   | Some (WritingNulls _) \<Rightarrow> Err 0
   | Some (WritingUncompressed remaining partial) \<Rightarrow>
       Err (remaining * 8 + (case partial of Some p \<Rightarrow> pw_needed_bytes p | None \<Rightarrow> 0))
   | None \<Rightarrow> Ok ())"

end
