(* ===== verification/Unpacking_Correct.thy ===== *)
theory Unpacking_Correct
  imports Unpacking
begin

text \<open>
  The unpacker refines a byte-at-a-time automaton for the packed format, whatever sizes the
  input and output slices have, and the automaton inverts packing.
\<close>

section \<open>The format as an automaton\<close>

datatype dstate =
    DReady
  | DTagged u8 "u8 list"
  | DFull "u8 list"
  | DNulls
  | DCount
  | DRaw nat "u8 list"

definition pad8 :: "u8 list \<Rightarrow> u8 list" where
  "pad8 acc = acc @ replicate (8 - length acc) 0"

text \<open>\<open>tagged\<close> skips the zero bytes the tag says are not there; a used-up tag ends the word.\<close>

function tagged :: "u8 \<Rightarrow> u8 list \<Rightarrow> dstate \<times> Word list" where
  "tagged tag acc =
     (if tag = 0 then (DReady, [word_of_bytes (pad8 acc)])
      else if tag AND 1 \<noteq> 0 then (DTagged tag acc, [])
      else tagged (drop_bit 1 tag) (acc @ [0]))"
  by pat_completeness auto
termination tagged
  by (relation "measure (\<lambda>(tag, acc). unat tag)") (auto simp: drop_bit_1_less)

declare tagged.simps [simp del]

definition raw :: "nat \<Rightarrow> dstate" where
  "raw n = (if n = 0 then DReady else DRaw n [])"

fun dstep :: "dstate \<Rightarrow> u8 \<Rightarrow> dstate \<times> Word list" where
  "dstep DReady b =
     (if b = 0 then (DNulls, [Word_NULL]) else if b = 0xff then (DFull [], []) else tagged b [])"
| "dstep (DTagged tag acc) b = tagged (drop_bit 1 tag) (acc @ [b])"
| "dstep (DFull acc) b =
     (if length acc = 7 then (DCount, [word_of_bytes (acc @ [b])]) else (DFull (acc @ [b]), []))"
| "dstep DNulls b = (DReady, replicate (unat b) Word_NULL)"
| "dstep DCount b = (raw (unat b), [])"
| "dstep (DRaw n acc) b =
     (if length acc = 7 then (raw (n - 1), [word_of_bytes (acc @ [b])]) else (DRaw n (acc @ [b]), []))"

fun drun :: "dstate \<Rightarrow> u8 list \<Rightarrow> dstate \<times> Word list" where
  "drun d [] = (d, [])"
| "drun d (b # bs) = (case dstep d b of (d', o1) \<Rightarrow> case drun d' bs of (d'', o2) \<Rightarrow> (d'', o1 @ o2))"

definition then_run :: "dstate \<times> Word list \<Rightarrow> u8 list \<Rightarrow> dstate \<times> Word list" where
  "then_run p bs = (case p of (d, o1) \<Rightarrow> case drun d bs of (d', o2) \<Rightarrow> (d', o1 @ o2))"

lemma drun_append: "drun d (as @ bs) = then_run (drun d as) bs"
  by (induction as arbitrary: d) (auto simp: then_run_def split: prod.splits)

lemma drun_Cons: "drun d (b # bs) = then_run (dstep d b) bs"
  by (simp add: then_run_def)

lemma then_run_Nil [simp]: "then_run p [] = p"
  by (cases p) (simp add: then_run_def)

lemma then_run_append: "then_run p (as @ bs) = then_run (then_run p as) bs"
  by (cases p) (auto simp: then_run_def drun_append split: prod.splits)

lemma then_run_pair [simp]: "then_run (d, o1) bs = (fst (drun d bs), o1 @ snd (drun d bs))"
  by (auto simp: then_run_def split: prod.splits)

lemma drun_raw_partial:
  "length acc + length bs < 8 \<Longrightarrow> drun (DRaw n acc) bs = (DRaw n (acc @ bs), [])"
  by (induction bs arbitrary: acc) auto

lemma drun_full_partial:
  "length acc + length bs < 8 \<Longrightarrow> drun (DFull acc) bs = (DFull (acc @ bs), [])"
  by (induction bs arbitrary: acc) auto

lemma drun_raw_word:
  "length acc + length bs = 8 \<Longrightarrow> bs \<noteq> [] \<Longrightarrow>
   drun (DRaw n acc) bs = (raw (n - 1), [word_of_bytes (acc @ bs)])"
proof (induction bs arbitrary: acc)
  case Nil
  then show ?case by simp
next
  case (Cons b bs)
  then show ?case by (cases "bs = []") auto
qed

lemma drun_full_word:
  "length acc + length bs = 8 \<Longrightarrow> bs \<noteq> [] \<Longrightarrow>
   drun (DFull acc) bs = (DCount, [word_of_bytes (acc @ bs)])"
proof (induction bs arbitrary: acc)
  case Nil
  then show ?case by simp
next
  case (Cons b bs)
  then show ?case by (cases "bs = []") auto
qed

lemma drun_raw_words:
  "length ws \<le> n \<Longrightarrow> drun (raw n) (slice_to_bytes ws) = (raw (n - length ws), ws)"
proof (induction ws arbitrary: n)
  case Nil
  then show ?case by simp
next
  case (Cons w ws)
  then have n: "n \<noteq> 0" "raw n = DRaw n []" by (auto simp: raw_def)
  have "word_bytes w \<noteq> []" by (metis length_word_bytes list.size(3) zero_neq_numeral)
  then have "drun (raw n) (word_bytes w) = (raw (n - 1), [w])"
    unfolding n by (subst drun_raw_word) simp_all
  with Cons show ?case by (simp add: drun_append)
qed

lemma drun_raw_bytes:
  assumes "length bs = 8 * k" "k \<le> n"
  shows "drun (raw n) bs = (raw (n - k), bytes_to_words bs)"
proof -
  have "slice_to_bytes (bytes_to_words bs) = bs" using assms by simp
  moreover have "length (bytes_to_words bs) = k" using assms by simp
  ultimately show ?thesis using drun_raw_words [of "bytes_to_words bs" n] assms by simp
qed

section \<open>Tagged words\<close>

lemma count_ones_drop:
  "count_ones t = (if t AND 1 \<noteq> 0 then 1 else 0) + count_ones (drop_bit 1 t)"
proof -
  have m: "[0..<8] = 0 # map Suc [0..<7]" by (simp add: map_Suc_upt upt_conv_Cons)
  have l: "[0..<8] = [0..<7] @ [7::nat]" by (simp add: upt_rec)
  have b: "\<not> bit t 8" using bit_imp_le_length [of t 8] by auto
  have "t AND 1 \<noteq> 0 \<longleftrightarrow> bit t 0" by (simp add: and_one_eq odd_iff_mod_2_eq_one bit_0)
  then show ?thesis
    unfolding count_ones_def
    by (subst m, subst l) (simp add: filter_map comp_def bit_drop_bit_eq b)
qed

lemma count_ones_zero [simp]: "count_ones 0 = 0"
  by (simp add: count_ones_def)

lemma tagged_zero: "tagged 0 acc = (DReady, [word_of_bytes (pad8 acc)])"
  by (simp add: tagged.simps [of 0])

lemma tagged_odd: "tag AND 1 \<noteq> 0 \<Longrightarrow> tagged tag acc = (DTagged tag acc, [])"
  by (auto simp: tagged.simps [of tag])

lemma tagged_even: "tag \<noteq> 0 \<Longrightarrow> tag AND 1 = 0 \<Longrightarrow> tagged tag acc = tagged (drop_bit 1 tag) (acc @ [0])"
  by (simp add: tagged.simps [of tag])

lemma then_run_tagged_odd:
  "tag AND 1 \<noteq> 0 \<Longrightarrow>
   then_run (tagged tag acc) (b # bs) = then_run (tagged (drop_bit 1 tag) (acc @ [b])) bs"
  by (simp add: tagged_odd then_run_def split: prod.splits)

text \<open>The buffer of a partial word is zero from the write position on, and the tag has no bits
  beyond it.\<close>

definition canon :: "u8 list \<Rightarrow> nat \<Rightarrow> u8 \<Rightarrow> bool" where
  "canon buf idx tag \<longleftrightarrow> length buf = 8 \<and> idx \<le> 8 \<and> drop idx buf = replicate (8 - idx) 0 \<and>
     unat tag < 2 ^ (8 - idx)"

lemma canon_start: "canon (replicate 8 0) 0 tag"
  using unsigned_less [of tag, where ?'a = nat] by (simp add: canon_def)

lemma canon_less: "canon buf idx tag \<Longrightarrow> tag \<noteq> 0 \<Longrightarrow> idx < 8"
  by (cases "idx = 8") (auto simp: canon_def unsigned_eq_0_iff)

lemma canon_buf: "canon buf idx tag \<Longrightarrow> pad8 (take idx buf) = buf"
  unfolding canon_def pad8_def by (metis append_take_drop_id length_take min.absorb2)

lemma half_tag: "unat (tag :: u8) < 2 ^ (8 - idx) \<Longrightarrow> idx < 8 \<Longrightarrow>
    unat (drop_bit (Suc 0) tag) < 2 ^ (8 - Suc idx)"
  by (simp add: drop_bit_eq_div unat_div_distrib Suc_diff_Suc [symmetric])

lemma canon_step:
  assumes "canon buf idx tag" "tag \<noteq> 0"
  shows "canon (buf[idx := b]) (Suc idx) (drop_bit 1 tag)"
    "take (Suc idx) (buf[idx := b]) = take idx buf @ [b]"
    "canon buf (Suc idx) (drop_bit 1 tag)" "take (Suc idx) buf = take idx buf @ [0]"
proof -
  have i: "idx < 8" "length buf = 8" using assms canon_less by (auto simp: canon_def)
  have d: "drop (Suc idx) buf = replicate (8 - Suc idx) 0"
  proof -
    have "drop (Suc idx) buf = drop 1 (drop idx buf)" by simp
    also have "\<dots> = drop 1 (replicate (8 - idx) 0)" using assms(1) by (simp only: canon_def)
    also have "\<dots> = replicate (8 - Suc idx) 0" by (simp add: drop_replicate)
    finally show ?thesis .
  qed
  have "hd (drop idx buf) = buf ! idx" using i by (simp add: hd_drop_conv_nth)
  moreover have "hd (drop idx buf) = 0"
    using assms(1) i by (simp add: canon_def hd_replicate)
  ultimately have z: "buf ! idx = 0" by simp
  have h: "unat (drop_bit 1 tag) < 2 ^ (8 - Suc idx)"
    using half_tag [of tag idx] assms(1) i by (simp add: canon_def)
  from d i h show "canon (buf[idx := b]) (Suc idx) (drop_bit 1 tag)"
    "canon buf (Suc idx) (drop_bit 1 tag)"
    by (simp_all add: canon_def)
  from i z show "take (Suc idx) (buf[idx := b]) = take idx buf @ [b]"
    "take (Suc idx) buf = take idx buf @ [0]"
    by (simp_all add: take_Suc_conv_app_nth)
qed

definition fill_post :: "u8 list \<Rightarrow> dstate \<times> Word list \<Rightarrow>
    (unit, u8 list \<times> u8 \<times> nat \<times> u8 list) outcome \<Rightarrow> bool" where
  "fill_post s p r = (case r of
     Ok (buf', tag', idx', s') \<Rightarrow> \<exists>bs. s = bs @ s' \<and> canon buf' idx' tag' \<and>
       then_run p bs = tagged tag' (take idx' buf') \<and> (tag' = 0 \<or> tag' AND 1 \<noteq> 0 \<and> s' = [])
   | _ \<Rightarrow> False)"

lemma fill_post_here:
  "canon buf idx tag \<Longrightarrow> tag = 0 \<or> tag AND 1 \<noteq> 0 \<and> s = [] \<Longrightarrow>
   fill_post s (tagged tag (take idx buf)) (Ok (buf, tag, idx, s))"
  unfolding fill_post_def by (simp add: exI [of _ "[]"])

lemma fill_post_byte:
  assumes "fill_post s (tagged (drop_bit 1 tag) (acc @ [b])) r" "tag AND 1 \<noteq> 0"
  shows "fill_post (b # s) (tagged tag acc) r"
proof -
  from assms(1) obtain buf' tag' idx' s' bs where
    r: "r = Ok (buf', tag', idx', s')" and "s = bs @ s'" "canon buf' idx' tag'"
    "then_run (tagged (drop_bit 1 tag) (acc @ [b])) bs = tagged tag' (take idx' buf')"
    "tag' = 0 \<or> tag' AND 1 \<noteq> 0 \<and> s' = []"
    by (auto simp: fill_post_def simp del: One_nat_def split: outcome.splits)
  with assms(2) have "b # s = (b # bs) @ s' \<and> canon buf' idx' tag' \<and>
      then_run (tagged tag acc) (b # bs) = tagged tag' (take idx' buf') \<and>
      (tag' = 0 \<or> tag' AND 1 \<noteq> 0 \<and> s' = [])"
    by (simp add: then_run_tagged_odd)
  then show ?thesis unfolding fill_post_def r by auto
qed

lemma fill_tagged_ok:
  "canon buf idx tag \<Longrightarrow> fill_post s (tagged tag (take idx buf)) (fill_tagged buf tag idx s)"
proof (induction buf tag idx s rule: fill_tagged.induct)
  case (1 buf tag idx s)
  consider "tag = 0" | "tag \<noteq> 0" "tag AND 1 = 0" | "tag \<noteq> 0" "tag AND 1 \<noteq> 0" "s = []"
    | b s' where "tag \<noteq> 0" "tag AND 1 \<noteq> 0" "s = b # s'"
    by (cases s) auto
  then show ?case
  proof cases
    case 1
    with "1.prems" fill_post_here [of buf idx tag s] show ?thesis
      by (simp add: fill_tagged.simps [of buf 0])
  next
    case 2
    note st = canon_step [OF "1.prems" 2(1)]
    from "1.IH"(2) 2 st(3)
    have "fill_post s (tagged (drop_bit 1 tag) (take (Suc idx) buf))
        (fill_tagged buf (drop_bit 1 tag) (Suc idx) s)" by simp
    with 2 st(4) show ?thesis by (simp add: fill_tagged.simps [of buf tag] tagged_even)
  next
    case 3
    with "1.prems" fill_post_here [of buf idx tag s] show ?thesis
      by (simp add: fill_tagged.simps [of buf tag])
  next
    case 4
    note st = canon_step(1,2) [OF "1.prems" 4(1), of b]
    have i: "idx < length buf" using canon_less [OF "1.prems" 4(1)] "1.prems" by (simp add: canon_def)
    from "1.IH"(1) [OF 4 i] st(1)
    have "fill_post s' (tagged (drop_bit 1 tag) (take (Suc idx) (buf[idx := b])))
        (fill_tagged (buf[idx := b]) (drop_bit 1 tag) (Suc idx) s')" by simp
    from fill_post_byte [OF this [unfolded st(2)] 4(2)] 4 i show ?thesis
      by (simp add: fill_tagged.simps [of buf tag])
  qed
qed

lemma fill_taggedE:
  assumes "canon buf idx tag"
  obtains buf' tag' idx' s' bs where "fill_tagged buf tag idx s = Ok (buf', tag', idx', s')"
    "s = bs @ s'" "canon buf' idx' tag'"
    "then_run (tagged tag (take idx buf)) bs = tagged tag' (take idx' buf')"
    "tag' = 0 \<or> tag' AND 1 \<noteq> 0 \<and> s' = []"
proof -
  obtain r where r: "fill_tagged buf tag idx s = r" "fill_post s (tagged tag (take idx buf)) r"
    using fill_tagged_ok [OF assms, of s] by blast
  then obtain buf' tag' idx' s' where "r = Ok (buf', tag', idx', s')"
    by (cases r) (auto simp: fill_post_def)
  with r that show thesis by (simp add: fill_post_def) blast
qed

lemma expand_tag_ok:
  "tag \<noteq> 0 \<Longrightarrow> unat tag < 2 ^ k \<Longrightarrow> length acc + k = 8 \<Longrightarrow> length i = count_ones tag \<Longrightarrow>
   \<exists>bs. expand_tag (replicate k 0) tag i = Ok bs \<and> length bs = k \<and>
     then_run (tagged tag acc) i = (DReady, [word_of_bytes (acc @ bs)])"
proof (induction k arbitrary: tag acc i)
  case 0
  then show ?case by (simp add: unat_eq_0)
next
  case (Suc k)
  let ?t = "drop_bit 1 tag"
  have t: "unat ?t < 2 ^ k" using Suc.prems by (simp add: drop_bit_eq_div unat_div_distrib)
  have c: "count_ones tag = (if tag AND 1 \<noteq> 0 then 1 else 0) + count_ones ?t"
    by (rule count_ones_drop)
  have pad: "pad8 (acc @ [x]) = acc @ x # replicate k 0" for x
    using Suc.prems by (simp add: pad8_def)
  show ?case
  proof (cases "tag AND 1 = 0")
    case even: True
    with c Suc.prems have i: "length i = count_ones ?t" by simp
    have run: "tagged tag acc = tagged ?t (acc @ [0])" using Suc.prems even by (simp add: tagged_even)
    show ?thesis
    proof (cases "?t = 0")
      case True
      with i even run show ?thesis by (auto simp: tagged_zero pad)
    next
      case False
      from Suc.IH [OF this t _ i, of "acc @ [0]"] Suc.prems obtain bs where
        "expand_tag (replicate k 0) ?t i = Ok bs" "length bs = k"
        "then_run (tagged ?t (acc @ [0])) i = (DReady, [word_of_bytes ((acc @ [0]) @ bs)])" by auto
      with False even run show ?thesis by simp
    qed
  next
    case odd: False
    with c Suc.prems obtain x j where j: "i = x # j" "length j = count_ones ?t"
      by (cases i) auto
    have run: "then_run (tagged tag acc) i = then_run (tagged ?t (acc @ [x])) j"
      using odd by (simp add: j then_run_tagged_odd)
    show ?thesis
    proof (cases "?t = 0")
      case True
      with j odd run show ?thesis by (auto simp: tagged_zero pad)
    next
      case False
      from Suc.IH [OF this t _ j(2), of "acc @ [x]"] Suc.prems obtain bs where
        "expand_tag (replicate k 0) ?t j = Ok bs" "length bs = k"
        "then_run (tagged ?t (acc @ [x])) j = (DReady, [word_of_bytes ((acc @ [x]) @ bs)])" by auto
      with False odd run j show ?thesis by simp
    qed
  qed
qed

section \<open>The unpacker's state as an automaton state\<close>

lemma from_bytesE:
  assumes "n < 8"
  obtains wb where "from_bytes n = Ok wb" "written wb = n"
proof -
  have "\<exists>wb. from_bytes n = Ok wb \<and> written wb = n"
    using assms unfolding from_bytes_def by auto
  with that show thesis by blast
qed

lemma written_less: "written wb < 8"
  by (cases wb) auto

lemma needed_written: "needed_for_full wb = 8 - written wb"
  by (cases wb) auto

text \<open>What is owed to the output before any more input, and where the automaton stands.\<close>

definition owed :: "unpacker \<Rightarrow> Word list" where
  "owed st = (case st of Some (WritingNulls n) \<Rightarrow> replicate n Word_NULL | _ \<Rightarrow> [])"

definition pw_acc :: "partial_word \<Rightarrow> u8 list" where
  "pw_acc p = take (written (pw_written p)) (pw_buf p)"

definition pt_acc :: "partial_tagged_word \<Rightarrow> u8 list" where
  "pt_acc p = take (written (pt_written p)) (pt_buf p)"

definition absd :: "unpacker \<Rightarrow> dstate" where
  "absd st = (case st of
     None \<Rightarrow> DReady
   | Some (PartialWord p) \<Rightarrow> DTagged (pt_tag p) (pt_acc p)
   | Some (PartialUncompressed p) \<Rightarrow> DFull (pw_acc p)
   | Some NeedNullCount \<Rightarrow> DNulls
   | Some NeedUncompressedCount \<Rightarrow> DCount
   | Some (WritingNulls n) \<Rightarrow> DReady
   | Some (WritingUncompressed r None) \<Rightarrow> raw r
   | Some (WritingUncompressed r (Some p)) \<Rightarrow> DRaw (Suc r) (pw_acc p))"

definition pw_ok :: "partial_word \<Rightarrow> bool" where
  "pw_ok p \<longleftrightarrow> length (pw_buf p) = 8"

definition pt_ok :: "partial_tagged_word \<Rightarrow> bool" where
  "pt_ok p \<longleftrightarrow> canon (pt_buf p) (written (pt_written p)) (pt_tag p) \<and> pt_tag p AND 1 \<noteq> 0"

definition unpacker_ok :: "unpacker \<Rightarrow> bool" where
  "unpacker_ok st \<longleftrightarrow> (case st of
     Some (PartialWord p) \<Rightarrow> pt_ok p
   | Some (PartialUncompressed p) \<Rightarrow> pw_ok p
   | Some (WritingUncompressed r (Some p)) \<Rightarrow> pw_ok p
   | Some (WritingUncompressed r None) \<Rightarrow> 0 < r
   | Some (WritingNulls n) \<Rightarrow> 0 < n
   | _ \<Rightarrow> True)"

text \<open>
  The refinement relation between what a call did and the automaton: from owing \<open>p\<close> in \<open>d\<close>,
  the input \<open>bs\<close> lets the words \<open>ws\<close> be written and leaves \<open>p'\<close> owed in \<open>d'\<close>.
\<close>

definition feeds :: "Word list \<Rightarrow> dstate \<Rightarrow> u8 list \<Rightarrow> Word list \<Rightarrow> Word list \<Rightarrow> dstate \<Rightarrow> bool" where
  "feeds p d bs ws p' d' \<longleftrightarrow> fst (drun d bs) = d' \<and> p @ snd (drun d bs) = ws @ p'"

lemma feeds_Nil: "feeds p d [] [] p d"
  by (simp add: feeds_def)

lemma feeds_trans:
  assumes "feeds p d bs ws p' d'" "feeds p' d' bs' ws' p'' d''"
  shows "feeds p d (bs @ bs') (ws @ ws') p'' d''"
proof -
  obtain d1 o1 where 1: "drun d bs = (d1, o1)" by force
  obtain d2 o2 where 2: "drun d1 bs' = (d2, o2)" by force
  from assms 1 2 have "p @ o1 = ws @ p'" "p' @ o2 = ws' @ p''" "d' = d1" "d'' = d2"
    by (simp_all add: feeds_def)
  moreover from this(1,2) have "p @ (o1 @ o2) = (ws @ ws') @ p''"
    by (metis append.assoc)
  ultimately show ?thesis using 1 2 by (simp add: feeds_def drun_append)
qed

lemma feeds_run: "drun d bs = (d', ws) \<Longrightarrow> feeds [] d bs ws [] d'"
  by (simp add: feeds_def)

text \<open>A step from cursor \<open>c\<close>: what it consumed and wrote, and where it left the automaton.\<close>

definition moved :: "Word list \<Rightarrow> dstate \<Rightarrow> cursor \<Rightarrow> cursor \<Rightarrow> Word list \<Rightarrow> dstate \<Rightarrow> bool" where
  "moved p d c c' p' d' \<longleftrightarrow> (\<exists>bs ws. src c = bs @ src c' \<and> out c' = out c @ ws \<and>
     length (dst c) = length ws + length (dst c') \<and> feeds p d bs ws p' d') \<and>
     (\<exists>n. dst c' = drop n (dst c))"

lemma moved_refl: "moved p d c c p d"
  unfolding moved_def by (auto simp: feeds_Nil intro: exI [of _ "[]"] exI [of _ 0])

lemma movedE:
  assumes "moved p d c c' p' d'"
  obtains bs ws n where "src c = bs @ src c'" "out c' = out c @ ws"
    "length (dst c) = length ws + length (dst c')" "feeds p d bs ws p' d'" "dst c' = drop n (dst c)"
  using assms unfolding moved_def by blast

lemma moved_trans:
  assumes "moved p d c c' p' d'" "moved p' d' c' c'' p'' d''"
  shows "moved p d c c'' p'' d''"
proof -
  from assms(1) obtain bs ws n where 1: "src c = bs @ src c'" "out c' = out c @ ws"
    "length (dst c) = length ws + length (dst c')" "feeds p d bs ws p' d'" "dst c' = drop n (dst c)"
    by (rule movedE)
  from assms(2) obtain bs' ws' n' where 2: "src c' = bs' @ src c''" "out c'' = out c' @ ws'"
    "length (dst c') = length ws' + length (dst c'')" "feeds p' d' bs' ws' p'' d''"
    "dst c'' = drop n' (dst c')"
    by (rule movedE)
  have "src c = (bs @ bs') @ src c''" "out c'' = out c @ (ws @ ws')"
    "length (dst c) = length (ws @ ws') + length (dst c'')" "dst c'' = drop (n' + n) (dst c)"
    using 1 2 by (simp_all add: add.commute)
  moreover have "feeds p d (bs @ bs') (ws @ ws') p'' d''" using 1(4) 2(4) by (rule feeds_trans)
  ultimately show ?thesis unfolding moved_def by blast
qed

lemma movedI:
  "src c = bs @ src c' \<Longrightarrow> out c' = out c @ ws \<Longrightarrow> length (dst c) = length ws + length (dst c') \<Longrightarrow>
   dst c' = drop n (dst c) \<Longrightarrow> feeds p d bs ws p' d' \<Longrightarrow> moved p d c c' p' d'"
  unfolding moved_def by blast

text \<open>What each reason for stopping says of the slices.\<close>

definition stopped :: "stop_reason \<Rightarrow> cursor \<Rightarrow> bool" where
  "stopped r c \<longleftrightarrow> (case r of NeedInput \<Rightarrow> src c = [] | NeedOutput \<Rightarrow> dst c = [])"

definition flow_ok :: "Word list \<Rightarrow> dstate \<Rightarrow> cursor \<Rightarrow> flow \<Rightarrow> bool" where
  "flow_ok p d c f \<longleftrightarrow> (case f of
     Go c' \<Rightarrow> moved p d c c' [] DReady
   | Stop st r c' \<Rightarrow> moved p d c c' (owed st) (absd st) \<and> unpacker_ok st \<and> stopped r c' \<and>
       (r = NeedInput \<longrightarrow> owed st = []))"

lemma flow_ok_trans: "moved p d c c' p' d' \<Longrightarrow> flow_ok p' d' c' f \<Longrightarrow> flow_ok p d c f"
  unfolding flow_ok_def by (cases f) (auto intro: moved_trans)

definition nulls :: "cursor \<Rightarrow> bool" where
  "nulls c \<longleftrightarrow> dst c = replicate (length (dst c)) Word_NULL"

lemma nulls_take: "nulls c \<Longrightarrow> n \<le> length (dst c) \<Longrightarrow> take n (dst c) = replicate n Word_NULL"
  unfolding nulls_def by (metis min.absorb1 take_replicate)

lemma moved_nulls: "moved p d c c' p' d' \<Longrightarrow> nulls c \<Longrightarrow> nulls c'"
  unfolding moved_def nulls_def by (metis drop_replicate length_replicate)

section \<open>Each operation\<close>

lemma write_nulls_ok:
  assumes "nulls c"
  shows "flow_ok (replicate n Word_NULL) DReady c (write_nulls c n)"
proof (cases "n \<le> length (dst c)")
  case True
  have "take n (dst c) = replicate n Word_NULL"
    using assms True by (rule nulls_take)
  with True show ?thesis
    unfolding flow_ok_def write_nulls_def
    by (auto intro!: movedI [where bs = "[]" and n = n] simp: feeds_def)
next
  case False
  have "replicate n Word_NULL = dst c @ replicate (n - length (dst c)) Word_NULL"
    using False assms unfolding nulls_def
    by (metis le_add_diff_inverse nat_le_linear replicate_add)
  with False show ?thesis
    unfolding flow_ok_def write_nulls_def
    by (auto intro!: movedI [where bs = "[]" and n = "length (dst c)"]
        simp: feeds_def owed_def absd_def unpacker_ok_def stopped_def)
qed

lemma pw_start_ok:
  assumes "length s < 8"
  obtains p where "pw_start s = Ok p" "pw_acc p = s" "pw_ok p"
proof -
  from from_bytesE [OF assms] obtain wb where "from_bytes (length s) = Ok wb" "written wb = length s" .
  with assms show thesis
    by (intro that [of "\<lparr>pw_buf = s @ replicate (8 - length s) 0, pw_written = wb\<rparr>"])
       (simp_all add: pw_start_def pw_acc_def pw_ok_def)
qed

lemma raw_pos: "0 < n \<Longrightarrow> raw n = DRaw n []"
  by (simp add: raw_def)

lemma write_uncompressed_ok:
  "\<exists>f. write_uncompressed c n = Ok f \<and> flow_ok [] (raw n) c f"
proof -
  let ?full = "length (src c) div 8" and ?part = "length (src c) mod 8"
  let ?read = "if n \<le> ?full then n else ?full"
  have full8: "8 * ?full \<le> length (src c)" by simp
  consider (no_out) "length (dst c) < ?read"
    | (no_in) "\<not> length (dst c) < ?read" "?full < n"
    | (go) "\<not> length (dst c) < ?read" "n \<le> ?full" by linarith
  then show ?thesis
  proof cases
    case no_out
    let ?k = "length (dst c)"
    have k: "?k < n" "?k \<le> n" "8 * ?k \<le> length (src c)"
      using no_out full8 by (auto split: if_splits)
    have run: "drun (raw n) (take (8 * ?k) (src c)) =
        (raw (n - ?k), bytes_to_words (take (8 * ?k) (src c)))"
      by (rule drun_raw_bytes) (use k in auto)
    have "\<not> ?read \<le> ?k" using no_out by simp
    with k feeds_run [OF run] show ?thesis
      unfolding write_uncompressed_def Let_def flow_ok_def
      by (auto intro!: movedI [where n = ?k] simp: owed_def absd_def unpacker_ok_def stopped_def)
  next
    case no_in
    let ?rest = "drop (?full * 8) (src c)" and ?head = "take (?full * 8) (src c)"
    have run: "drun (raw n) ?head = (raw (n - ?full), bytes_to_words ?head)"
      by (rule drun_raw_bytes) (use no_in in auto)
    have rest: "length ?rest = ?part" by (simp add: minus_div_mult_eq_mod)
    have raw: "raw (n - ?full) = DRaw (n - ?full) []" using no_in by (simp add: raw_pos)
    have "drun (DRaw (n - ?full) []) ?rest = (DRaw (n - ?full) ?rest, [])"
      using rest by (subst drun_raw_partial) simp_all
    then have "drun (raw n) (?head @ ?rest) = (DRaw (n - ?full) ?rest, bytes_to_words ?head)"
      unfolding drun_append run by (simp add: raw)
    then have run2: "drun (raw n) (src c) = (DRaw (n - ?full) ?rest, bytes_to_words ?head)"
      by simp
    have r: "\<not> n \<le> ?full" "?full \<le> length (dst c)" using no_in by auto
    from rest have "length ?rest < 8" by simp
    from pw_start_ok [OF this] obtain p where p: "pw_start ?rest = Ok p" "pw_acc p = ?rest" "pw_ok p" .
    show ?thesis
    proof (cases "?part = 0")
      case True
      then have "?rest = []" using rest by simp
      with r True feeds_run [OF run2] raw show ?thesis
        unfolding write_uncompressed_def Let_def flow_ok_def
        by (auto intro!: movedI [where n = ?full] simp: owed_def absd_def unpacker_ok_def stopped_def)
    next
      case False
      have "Suc (n - Suc ?full) = n - ?full" using no_in by simp
      with r False feeds_run [OF run2] p show ?thesis
        unfolding write_uncompressed_def Let_def flow_ok_def
        by (auto intro!: movedI [where n = ?full] simp: owed_def absd_def unpacker_ok_def stopped_def)
    qed
  next
    case go
    have n: "8 * n \<le> length (src c)" "n \<le> length (dst c)" using go full8 by auto
    have run: "drun (raw n) (take (n * 8) (src c)) = (raw (n - n), bytes_to_words (take (n * 8) (src c)))"
      by (rule drun_raw_bytes) (use n in auto)
    with n go feeds_run [OF run] show ?thesis
      unfolding write_uncompressed_def Let_def flow_ok_def
      by (auto intro!: movedI [where n = n] simp: raw_def)
  qed
qed

lemma pw_finish_ok:
  assumes "pw_ok p" "s \<noteq> []" "d \<noteq> []"
  obtains (partial) p' where "pw_finish p s d = Ok (Inl p', [], d)" "pw_ok p'"
      "pw_acc p' = pw_acc p @ s" "length (pw_acc p @ s) < 8"
    | (complete) bs s' where "pw_finish p s d = Ok (Inr (word_of_bytes (pw_acc p @ bs)), s', tl d)"
      "s = bs @ s'" "length (pw_acc p @ bs) = 8" "bs \<noteq> []"
proof (cases "needed_for_full (pw_written p) \<le> length s")
  case True
  have acc: "length (pw_acc p) = written (pw_written p)"
    using assms written_less [of "pw_written p"] by (simp add: pw_acc_def pw_ok_def)
  from assms obtain w d' where "d = w # d'" by (cases d) auto
  with True acc written_less [of "pw_written p"] show thesis
    by (intro complete [of "take (needed_for_full (pw_written p)) s" "drop (needed_for_full (pw_written p)) s"])
       (auto simp: pw_finish_def Let_def pw_acc_def needed_written)
next
  case False
  have acc: "length (pw_acc p) = written (pw_written p)"
    using assms written_less [of "pw_written p"] by (simp add: pw_acc_def pw_ok_def)
  have e: "written (pw_written p) + length s < 8" using False by (simp add: needed_written)
  from from_bytesE [OF e] obtain wb where
    "from_bytes (written (pw_written p) + length s) = Ok wb"
    "written wb = written (pw_written p) + length s" .
  with False e acc assms show thesis
    by (intro partial [of "\<lparr>pw_buf = take (written (pw_written p)) (pw_buf p) @ s @
          drop (written (pw_written p) + length s) (pw_buf p), pw_written = wb\<rparr>"])
       (auto simp: pw_finish_def Let_def pw_acc_def pw_ok_def)
qed

lemma pt_acc_len: "pt_ok p \<Longrightarrow> pt_acc p = take (written (pt_written p)) (pt_buf p)"
  by (simp add: pt_acc_def)

lemma pt_finish_ok:
  assumes "pt_ok p" "d \<noteq> []"
  obtains (partial) p' where "pt_finish p s d = Ok (Inl p', [], d)" "pt_ok p'"
      "drun (DTagged (pt_tag p) (pt_acc p)) s = (DTagged (pt_tag p') (pt_acc p'), [])"
    | (complete) bs s' w where "pt_finish p s d = Ok (Inr w, s', tl d)" "s = bs @ s'"
      "drun (DTagged (pt_tag p) (pt_acc p)) bs = (DReady, [w])"
proof -
  let ?idx = "written (pt_written p)"
  from assms have c: "canon (pt_buf p) ?idx (pt_tag p)" and odd: "pt_tag p AND 1 \<noteq> 0"
    by (simp_all add: pt_ok_def)
  from fill_taggedE [OF c, of s] obtain buf' tag' idx' s' bs where
    f: "fill_tagged (pt_buf p) (pt_tag p) ?idx s = Ok (buf', tag', idx', s')" and
    s: "s = bs @ s'" and c': "canon buf' idx' tag'" and
    run: "then_run (tagged (pt_tag p) (take ?idx (pt_buf p))) bs = tagged tag' (take idx' buf')" and
    fin: "tag' = 0 \<or> tag' AND 1 \<noteq> 0 \<and> s' = []" .
  have run': "drun (DTagged (pt_tag p) (pt_acc p)) bs = tagged tag' (take idx' buf')"
    using run odd by (simp add: tagged_odd pt_acc_def)
  show thesis
  proof (cases "tag' = 0")
    case True
    from assms(2) obtain w d' where d: "d = w # d'" by (cases d) auto
    have "drun (DTagged (pt_tag p) (pt_acc p)) bs = (DReady, [word_of_bytes buf'])"
      using run' True canon_buf [OF c'] by (simp add: tagged_zero)
    with f True d s show thesis by (intro complete) (simp_all add: pt_finish_def)
  next
    case False
    with fin have t: "tag' AND 1 \<noteq> 0" "s' = []" by auto
    from canon_less [OF c' False] have "idx' < 8" .
    from from_bytesE [OF this] obtain wb where wb: "from_bytes idx' = Ok wb" "written wb = idx'" .
    have "drun (DTagged (pt_tag p) (pt_acc p)) s = (DTagged tag' (take idx' buf'), [])"
      using run' t s by (simp add: tagged_odd)
    with f False wb t c' show thesis
      by (intro partial [of "\<lparr>pt_buf = buf', pt_tag = tag', pt_written = wb\<rparr>"])
         (simp_all add: pt_finish_def pt_ok_def pt_acc_def)
  qed
qed

lemma count_ones_bits: "n \<le> 8 \<Longrightarrow> unat (tag :: u8) < 2 ^ n \<Longrightarrow> count_ones tag \<le> n"
proof (induction n arbitrary: tag)
  case 0
  then show ?case by (simp add: unsigned_eq_0_iff)
next
  case (Suc n)
  from Suc.prems have "unat (drop_bit 1 tag) < 2 ^ n" by (simp add: drop_bit_eq_div unat_div_distrib)
  with Suc have "count_ones (drop_bit 1 tag) \<le> n" by simp
  then show ?case by (subst count_ones_drop) auto
qed

lemma fill_tagged_takes:
  "fill_tagged buf tag idx s = Ok (buf', tag', idx', s') \<Longrightarrow> tag' = 0 \<Longrightarrow> count_ones tag \<le> length s"
proof (induction buf tag idx s rule: fill_tagged.induct)
  case (1 buf tag idx s)
  show ?case
  proof (cases "tag = 0")
    case True
    then show ?thesis by simp
  next
    case False
    with 1 show ?thesis
      by (subst count_ones_drop)
         (auto simp: fill_tagged.simps [of buf tag] split: if_splits list.splits)
  qed
qed

lemma pt_start_ok:
  assumes "tag \<noteq> 0" "length s < count_ones tag"
  obtains p where "pt_start tag s = Ok p" "pt_ok p"
    "then_run (tagged tag []) s = (DTagged (pt_tag p) (pt_acc p), [])"
proof -
  from fill_taggedE [OF canon_start, of tag s] obtain buf' tag' idx' s' bs where
    f: "fill_tagged (replicate 8 0) tag 0 s = Ok (buf', tag', idx', s')" and
    s: "s = bs @ s'" and c': "canon buf' idx' tag'" and
    run: "then_run (tagged tag (take 0 (replicate 8 0))) bs = tagged tag' (take idx' buf')" and
    fin: "tag' = 0 \<or> tag' AND 1 \<noteq> 0 \<and> s' = []" .
  have nz: "tag' \<noteq> 0" using fill_tagged_takes [OF f] assms by auto
  with fin have t: "tag' AND 1 \<noteq> 0" "s' = []" by auto
  from canon_less [OF c' nz] have "idx' < 8" .
  from from_bytesE [OF this] obtain wb where wb: "from_bytes idx' = Ok wb" "written wb = idx'" .
  from f wb c' t s run show thesis
    by (intro that [of "\<lparr>pt_buf = buf', pt_tag = tag', pt_written = wb\<rparr>"])
       (simp_all add: pt_start_def pt_ok_def pt_acc_def tagged_odd)
qed

section \<open>A call\<close>

text \<open>The states in which a call may complete a word from bytes it kept, and so writes to the
  first output word without looking whether there is one.\<close>

definition holds_partial :: "unpacker \<Rightarrow> bool" where
  "holds_partial st \<longleftrightarrow> (case st of
     Some (PartialWord p) \<Rightarrow> True
   | Some (PartialUncompressed p) \<Rightarrow> True
   | Some (WritingUncompressed r (Some p)) \<Rightarrow> True
   | _ \<Rightarrow> False)"

lemma holds_partialE:
  assumes "holds_partial st"
  obtains (tagged) p where "st = Some (PartialWord p)"
    | (full) p where "st = Some (PartialUncompressed p)"
    | (run) r p where "st = Some (WritingUncompressed r (Some p))"
  using assms by (auto simp: holds_partial_def split: option.splits incomplete_state.splits)

lemma moved_word:
  assumes "src c = bs @ s'" "dst c \<noteq> []" "drun d bs = (d', [w])"
  shows "moved [] d c (c\<lparr>src := s', dst := tl (dst c), out := out c @ [w]\<rparr>) [] d'"
proof (rule movedI [where bs = bs and ws = "[w]" and n = 1])
  show "feeds [] d bs [w] [] d'" using assms(3) by (rule feeds_run)
qed (use assms(1,2) in \<open>simp_all add: drop_Suc\<close>)

lemma moved_bytes:
  assumes "src c = bs @ s'" "drun d bs = (d', [])"
  shows "moved [] d c (c\<lparr>src := s'\<rparr>) [] d'"
proof (rule movedI [where bs = bs and ws = "[]" and n = 0])
  show "feeds [] d bs [] [] d'" using assms(2) by (rule feeds_run)
qed (use assms(1) in simp_all)

lemma Ok_flow_trans:
  "moved p d c c' p' d' \<Longrightarrow> \<exists>f. m = Ok f \<and> flow_ok p' d' c' f \<Longrightarrow> \<exists>f. m = Ok f \<and> flow_ok p d c f"
  using flow_ok_trans by blast

lemma flow_ok_stop:
  "moved p d c c' (owed st) (absd st) \<Longrightarrow> unpacker_ok st \<Longrightarrow> stopped r c' \<Longrightarrow>
   (r = NeedInput \<longrightarrow> owed st = []) \<Longrightarrow> flow_ok p d c (Stop st r c')"
  by (simp add: flow_ok_def)

lemma flow_ok_go: "moved p d c c' [] DReady \<Longrightarrow> flow_ok p d c (Go c')"
  by (simp add: flow_ok_def)

lemma src_update_Nil: "c\<lparr>src := [], dst := dst c\<rparr> = c\<lparr>src := []\<rparr>"
  by (cases c) simp

lemma resume_ok:
  assumes ok: "unpacker_ok st" and s: "src c \<noteq> []" and d: "dst c \<noteq> [] \<or> \<not> holds_partial st"
    and n: "nulls c"
  shows "\<exists>f. resume st c = Ok f \<and> flow_ok (owed st) (absd st) c f"
proof (cases st)
  case None
  then show ?thesis by (simp add: resume_def flow_ok_go owed_def absd_def moved_refl)
next
  case (Some i)
  show ?thesis
  proof (cases i)
    case (PartialWord p)
    with Some d ok have d': "dst c \<noteq> []" and p: "pt_ok p"
      by (simp_all add: holds_partial_def unpacker_ok_def)
    have a: "owed st = []" "absd st = DTagged (pt_tag p) (pt_acc p)"
      by (simp_all add: Some PartialWord owed_def absd_def)
    from p d' show ?thesis
    proof (cases rule: pt_finish_ok [of p "dst c" "src c"])
      case (partial p')
      have "moved [] (absd st) c (c\<lparr>src := []\<rparr>) [] (DTagged (pt_tag p') (pt_acc p'))"
        using partial a by (intro moved_bytes) simp_all
      with partial a show ?thesis
        by (simp add: resume_def Some PartialWord src_update_Nil)
           (rule flow_ok_stop; simp add: owed_def absd_def unpacker_ok_def stopped_def)
    next
      case (complete bs s' w)
      have "moved [] (absd st) c (c\<lparr>src := s', dst := tl (dst c), out := out c @ [w]\<rparr>) [] DReady"
        using complete a d' by (intro moved_word) simp_all
      with complete a show ?thesis
        by (simp add: resume_def Some PartialWord flow_ok_go)
    qed
  next
    case (PartialUncompressed p)
    with Some d ok have d': "dst c \<noteq> []" and p: "pw_ok p"
      by (simp_all add: holds_partial_def unpacker_ok_def)
    have a: "owed st = []" "absd st = DFull (pw_acc p)"
      by (simp_all add: Some PartialUncompressed owed_def absd_def)
    from p s d' show ?thesis
    proof (cases rule: pw_finish_ok [of p "src c" "dst c"])
      case (partial p')
      have "moved [] (absd st) c (c\<lparr>src := []\<rparr>) [] (DFull (pw_acc p'))"
        unfolding a partial(3)
        by (rule moved_bytes [OF _ drun_full_partial]) (use partial(4) in simp_all)
      with partial a show ?thesis
        by (simp add: resume_def Some PartialUncompressed src_update_Nil)
           (rule flow_ok_stop; simp add: owed_def absd_def unpacker_ok_def stopped_def)
    next
      case (complete bs s')
      let ?c = "c\<lparr>src := s', dst := tl (dst c), out := out c @ [word_of_bytes (pw_acc p @ bs)]\<rparr>"
      have m: "moved [] (absd st) c ?c [] DCount"
        unfolding a by (rule moved_word [OF complete(2) d' drun_full_word])
          (use complete(3,4) in simp_all)
      show ?thesis
      proof (cases s')
        case Nil
        with m complete a show ?thesis
          by (simp add: resume_def Some PartialUncompressed Let_def)
             (rule flow_ok_stop; simp add: owed_def absd_def unpacker_ok_def stopped_def)
      next
        case (Cons count s2)
        have "moved [] DCount ?c (?c\<lparr>src := s2\<rparr>) [] (raw (unat count))"
          using Cons by (intro moved_bytes [where bs = "[count]"]) simp_all
        with m have "moved [] (absd st) c (?c\<lparr>src := s2\<rparr>) [] (raw (unat count))"
          by (rule moved_trans)
        from Ok_flow_trans [OF this write_uncompressed_ok] complete a Cons show ?thesis
          by (simp add: resume_def Some PartialUncompressed Let_def)
      qed
    qed
  next
    case NeedNullCount
    from s obtain count s' where s': "src c = count # s'" by (cases "src c") auto
    have m: "moved [] DNulls c (c\<lparr>src := s'\<rparr>) (replicate (unat count) Word_NULL) DReady"
      by (rule movedI [where bs = "[count]" and ws = "[]" and n = 0])
         (simp_all add: s' feeds_def)
    have "nulls (c\<lparr>src := s'\<rparr>)" using m n by (rule moved_nulls)
    from flow_ok_trans [OF m write_nulls_ok [OF this]] s' show ?thesis
      by (simp add: resume_def Some NeedNullCount owed_def absd_def)
  next
    case NeedUncompressedCount
    from s obtain count s' where s': "src c = count # s'" by (cases "src c") auto
    have m: "moved [] DCount c (c\<lparr>src := s'\<rparr>) [] (raw (unat count))"
      by (rule moved_bytes [where bs = "[count]"]) (simp_all add: s')
    from Ok_flow_trans [OF m write_uncompressed_ok] s' show ?thesis
      by (simp add: resume_def Some NeedUncompressedCount owed_def absd_def)
  next
    case (WritingNulls k)
    with write_nulls_ok [OF n, of k] show ?thesis
      by (simp add: resume_def Some owed_def absd_def)
  next
    case (WritingUncompressed r q)
    show ?thesis
    proof (cases q)
      case None
      with write_uncompressed_ok [of c r] show ?thesis
        by (simp add: resume_def Some WritingUncompressed owed_def absd_def)
    next
      case (Some p)
      with \<open>st = Some i\<close> WritingUncompressed d ok have d': "dst c \<noteq> []" and p: "pw_ok p"
        by (simp_all add: holds_partial_def unpacker_ok_def)
      have a: "owed st = []" "absd st = DRaw (Suc r) (pw_acc p)"
        by (simp_all add: \<open>st = Some i\<close> Some WritingUncompressed owed_def absd_def)
      from p s d' show ?thesis
      proof (cases rule: pw_finish_ok [of p "src c" "dst c"])
        case (partial p')
        have "moved [] (absd st) c (c\<lparr>src := []\<rparr>) [] (DRaw (Suc r) (pw_acc p'))"
          unfolding a partial(3)
          by (rule moved_bytes [OF _ drun_raw_partial]) (use partial(4) in simp_all)
        with partial a show ?thesis
          by (simp add: resume_def \<open>st = Some i\<close> Some WritingUncompressed src_update_Nil)
             (rule flow_ok_stop; simp add: owed_def absd_def unpacker_ok_def stopped_def)
      next
        case (complete bs s')
        let ?c = "c\<lparr>src := s', dst := tl (dst c), out := out c @ [word_of_bytes (pw_acc p @ bs)]\<rparr>"
        have m: "moved [] (absd st) c ?c [] (raw r)"
          unfolding a using moved_word [OF complete(2) d' drun_raw_word [of "pw_acc p" bs "Suc r"]]
            complete(3,4) by simp
        from Ok_flow_trans [OF m write_uncompressed_ok] complete a show ?thesis
          by (simp add: resume_def \<open>st = Some i\<close> Some WritingUncompressed)
      qed
    qed
  qed
qed

lemma tag_width: "unat (tag :: u8) < 2 ^ 8"
  using unsigned_less [of tag, where ?'a = nat] by simp

lemma unpack_round_ok:
  assumes n: "nulls \<lparr>src = tag # s, dst = w # d, out = o'\<rparr>"
  shows "\<exists>f. unpack_round tag s w d o' = Ok f \<and>
    flow_ok [] DReady \<lparr>src = tag # s, dst = w # d, out = o'\<rparr> f"
proof -
  let ?c = "\<lparr>src = tag # s, dst = w # d, out = o'\<rparr>"
  have w: "w = Word_NULL" using n by (simp add: nulls_def)
  consider "tag = 0" | "tag = 0xff" | "tag \<noteq> 0" "tag \<noteq> 0xff" by blast
  then show ?thesis
  proof cases
    case 1
    show ?thesis
    proof (cases s)
      case Nil
      have "moved [] DReady ?c \<lparr>src = [], dst = d, out = o' @ [w]\<rparr> [] DNulls"
        using moved_word [of ?c "[tag]" "[]" DReady DNulls w] 1 Nil w by simp
      with 1 Nil show ?thesis
        by (simp add: unpack_round_def)
           (rule flow_ok_stop; simp add: owed_def absd_def unpacker_ok_def stopped_def)
    next
      case (Cons count s')
      let ?c' = "\<lparr>src = s', dst = d, out = o' @ [w]\<rparr>"
      have "moved [] DReady ?c \<lparr>src = s, dst = d, out = o' @ [w]\<rparr> [] DNulls"
        using moved_word [of ?c "[tag]" s DReady DNulls w] 1 w by simp
      moreover have "moved [] DNulls \<lparr>src = s, dst = d, out = o' @ [w]\<rparr> ?c'
          (replicate (unat count) Word_NULL) DReady"
        by (rule movedI [where bs = "[count]" and ws = "[]" and n = 0])
           (simp_all add: Cons feeds_def)
      ultimately have m: "moved [] DReady ?c ?c' (replicate (unat count) Word_NULL) DReady"
        by (rule moved_trans)
      show ?thesis
      proof (cases "count = 0")
        case True
        with m 1 Cons show ?thesis by (simp add: unpack_round_def Let_def flow_ok_go)
      next
        case False
        from flow_ok_trans [OF m write_nulls_ok [OF moved_nulls [OF m n]]] 1 Cons False
        show ?thesis by (simp add: unpack_round_def Let_def)
      qed
    qed
  next
    case 2
    have m0: "moved [] DReady ?c (?c\<lparr>src := s\<rparr>) [] (DFull [])"
      by (rule moved_bytes [where bs = "[tag]"]) (simp_all add: 2)
    show ?thesis
    proof (cases "length s < 8")
      case True
      from pw_start_ok [OF this] obtain p where p: "pw_start s = Ok p" "pw_acc p = s" "pw_ok p" .
      have "moved [] (DFull []) (?c\<lparr>src := s\<rparr>) (?c\<lparr>src := []\<rparr>) [] (DFull s)"
        using moved_bytes [of "?c\<lparr>src := s\<rparr>" s "[]" "DFull []" "DFull s"] drun_full_partial [of "[]" s] True
        by simp
      from moved_trans [OF m0 this] 2 True p show ?thesis
        by (simp add: unpack_round_def Let_def)
           (rule flow_ok_stop; simp add: owed_def absd_def unpacker_ok_def stopped_def)
    next
      case False
      let ?v = "word_of_bytes (take 8 s)"
      have run: "drun (DFull []) (take 8 s) = (DCount, [?v])"
        using drun_full_word [of "[]" "take 8 s"] False by (cases s) auto
      have "moved [] (DFull []) (?c\<lparr>src := s\<rparr>)
          \<lparr>src = drop 8 s, dst = d, out = o' @ [?v]\<rparr> [] DCount"
        using moved_word [OF _ _ run, of "?c\<lparr>src := s\<rparr>" "drop 8 s"] by simp
      with m0 have m1: "moved [] DReady ?c \<lparr>src = drop 8 s, dst = d, out = o' @ [?v]\<rparr> [] DCount"
        by (rule moved_trans)
      show ?thesis
      proof (cases "drop 8 s")
        case Nil
        with m1 2 False show ?thesis
          by (simp add: unpack_round_def Let_def)
             (rule flow_ok_stop; simp add: owed_def absd_def unpacker_ok_def stopped_def)
      next
        case (Cons count s')
        let ?c' = "\<lparr>src = s', dst = d, out = o' @ [?v]\<rparr>"
        have "moved [] DCount \<lparr>src = drop 8 s, dst = d, out = o' @ [?v]\<rparr> ?c' [] (raw (unat count))"
          using moved_bytes [of "\<lparr>src = drop 8 s, dst = d, out = o' @ [?v]\<rparr>" "[count]" s' DCount
              "raw (unat count)"] Cons by simp
        with m1 have m2: "moved [] DReady ?c ?c' [] (raw (unat count))" by (rule moved_trans)
        show ?thesis
        proof (cases "count = 0")
          case True
          with m2 2 False Cons show ?thesis
            by (simp add: unpack_round_def Let_def flow_ok_go raw_def)
        next
          case nz: False
          from Ok_flow_trans [OF m2 write_uncompressed_ok] 2 False Cons nz show ?thesis
            by (simp add: unpack_round_def Let_def)
        qed
      qed
    qed
  next
    case 3
    have step: "drun DReady (tag # bs) = then_run (tagged tag []) bs" for bs
      using 3 by (simp only: drun_Cons) simp
    show ?thesis
    proof (cases "length s < count_ones tag")
      case True
      from pt_start_ok [OF 3(1) this] obtain p where p: "pt_start tag s = Ok p" "pt_ok p"
        "then_run (tagged tag []) s = (DTagged (pt_tag p) (pt_acc p), [])" .
      have "moved [] DReady ?c (?c\<lparr>src := []\<rparr>) [] (DTagged (pt_tag p) (pt_acc p))"
        by (rule moved_bytes [where bs = "tag # s"]) (simp_all only: step p(3), simp)
      with 3 True p show ?thesis
        by (simp add: unpack_round_def Let_def)
           (rule flow_ok_stop; simp add: owed_def absd_def unpacker_ok_def stopped_def)
    next
      case False
      let ?i = "take (count_ones tag) s"
      from expand_tag_ok [OF 3(1) tag_width, of "[]" ?i] False obtain bs where
        bs: "expand_tag (replicate 8 0) tag ?i = Ok bs"
        "then_run (tagged tag []) ?i = (DReady, [word_of_bytes bs])" by auto
      have "drun DReady (tag # ?i) = (DReady, [word_of_bytes bs])"
        by (simp only: step bs)
      from moved_word [OF _ _ this, of ?c "drop (count_ones tag) s"] 3 False bs w show ?thesis
        by (simp add: unpack_round_def Let_def word_bytes_NULL flow_ok_go)
    qed
  qed
qed

definition call_ok :: "Word list \<Rightarrow> dstate \<Rightarrow> cursor \<Rightarrow>
    (unit, unpacker \<times> stop_reason \<times> cursor) outcome \<Rightarrow> bool" where
  "call_ok p d c r \<longleftrightarrow> (case r of
     Ok (st, why, c') \<Rightarrow> moved p d c c' (owed st) (absd st) \<and> unpacker_ok st \<and> stopped why c' \<and>
       (why = NeedInput \<longrightarrow> owed st = [])
   | _ \<Rightarrow> False)"

lemma call_ok_trans: "moved p d c c' p' d' \<Longrightarrow> call_ok p' d' c' r \<Longrightarrow> call_ok p d c r"
  by (auto simp: call_ok_def intro: moved_trans split: outcome.splits)

lemma unpack_loop_ok: "nulls c \<Longrightarrow> call_ok [] DReady c (unpack_loop c)"
proof (induction c rule: unpack_loop.induct)
  case (1 c)
  have here: "src c = [] \<or> dst c = [] \<Longrightarrow> ?case"
    by (subst unpack_loop.simps)
       (auto simp: call_ok_def owed_def absd_def unpacker_ok_def stopped_def moved_refl split: list.splits)
  show ?case
  proof (cases "src c = [] \<or> dst c = []")
    case True
    then show ?thesis by (rule here)
  next
    case False
    then obtain tag s w d where c: "src c = tag # s" "dst c = w # d"
      by (auto simp: neq_Nil_conv)
    then have c_eq: "c = \<lparr>src = tag # s, dst = w # d, out = out c\<rparr>" by (cases c) simp
    from unpack_round_ok [of tag s w d "out c"] 1(2) obtain f where
      f: "unpack_round tag s w d (out c) = Ok f" "flow_ok [] DReady c f"
      unfolding c_eq [symmetric] by blast
    show ?thesis
    proof (cases f)
      case (Go c')
      with f have m: "moved [] DReady c c' [] DReady" by (simp add: flow_ok_def)
      from 1(1) [OF c f(1) Go] moved_nulls [OF m 1(2)] have "call_ok [] DReady c' (unpack_loop c')"
        by simp
      with m have "call_ok [] DReady c (unpack_loop c')" by (rule call_ok_trans)
      with c f Go show ?thesis by (subst unpack_loop.simps) simp
    next
      case (Stop st r c')
      with c f show ?thesis by (subst unpack_loop.simps) (simp add: call_ok_def flow_ok_def)
    qed
  qed
qed

lemma unpack_inner_ok:
  assumes "unpacker_ok st" "dst c \<noteq> [] \<or> \<not> holds_partial st" "nulls c" "src c \<noteq> []"
  shows "call_ok (owed st) (absd st) c (unpack_inner st c)"
proof -
  from resume_ok [OF assms(1,4,2,3)] obtain f where
    f: "resume st c = Ok f" "flow_ok (owed st) (absd st) c f" by blast
  show ?thesis
  proof (cases f)
    case (Go c')
    with f have m: "moved (owed st) (absd st) c c' [] DReady" by (simp add: flow_ok_def)
    from call_ok_trans [OF m unpack_loop_ok [OF moved_nulls [OF m assms(3)]]] f Go assms(4)
    show ?thesis by (simp add: unpack_inner_def)
  next
    case (Stop st' r c')
    with f assms(4) show ?thesis by (simp add: unpack_inner_def call_ok_def flow_ok_def)
  qed
qed

text \<open>The contract of a call with input.\<close>

definition unpack_post :: "unpacker \<Rightarrow> u8 list \<Rightarrow> nat \<Rightarrow>
    (unit, unpacker \<times> unpack_result \<times> Word list) outcome \<Rightarrow> bool" where
  "unpack_post st s n res \<longleftrightarrow> (case res of
      Ok (st', r, ws) \<Rightarrow>
        unpacker_ok st' \<and> bytes_read r \<le> length s \<and> words_written r = length ws \<and> length ws \<le> n \<and>
        feeds (owed st) (absd st) (take (bytes_read r) s) ws (owed st') (absd st') \<and>
        (if reason r = NeedInput then bytes_read r = length s else length ws = n)
    | _ \<Rightarrow> False)"

lemma unpack_with_input:
  assumes "unpacker_ok st" and "0 < n \<or> \<not> holds_partial st" and "s \<noteq> []"
  obtains st' r ws where "unpack st s (replicate n Word_NULL) = Ok (st', r, ws)"
    "unpack_post st s n (Ok (st', r, ws))" "reason r = NeedInput \<longrightarrow> owed st' = []"
proof -
  let ?c = "\<lparr>src = s, dst = replicate n Word_NULL, out = []\<rparr>"
  have "call_ok (owed st) (absd st) ?c (unpack_inner st ?c)"
    by (rule unpack_inner_ok) (use assms in \<open>auto simp: nulls_def\<close>)
  then obtain st' why c' where r: "unpack_inner st ?c = Ok (st', why, c')"
    "moved (owed st) (absd st) ?c c' (owed st') (absd st')" "unpacker_ok st'" "stopped why c'"
    "why = NeedInput \<longrightarrow> owed st' = []"
    by (auto simp: call_ok_def split: outcome.splits)
  from r(2) obtain bs ws k where m: "src ?c = bs @ src c'" "out c' = out ?c @ ws"
    "length (dst ?c) = length ws + length (dst c')"
    "feeds (owed st) (absd st) bs ws (owed st') (absd st')" "dst c' = drop k (dst ?c)"
    by (rule movedE)
  have l: "length s = length bs + length (src c')" using m(1) by (metis cursor.select_convs(1) length_append)
  have t: "take (length bs) s = bs" using m(1) by (metis append_eq_conv_conj cursor.select_convs(1))
  have u: "unpack st s (replicate n Word_NULL) = Ok (st', \<lparr>bytes_read = length bs,
      words_written = length ws, reason = why\<rparr>, ws)"
    using m(2,3) l unfolding unpack_def r(1) by simp
  show thesis
    by (rule that [OF u])
       (use m(3,4) r(3,4,5) l t in \<open>cases why; simp add: stopped_def unpack_post_def\<close>)+
qed

lemma unpack_no_input: "unpack st [] d = Ok (st, \<lparr>bytes_read = 0, words_written = 0, reason = NeedInput\<rparr>, [])"
  by (simp add: unpack_def unpack_inner_def)

text \<open>With an empty output slice a call from a state that holds a part of a word either adds
  the input to that part, or, when the input completes the word, writes out of bounds.\<close>

definition word_due :: "unpacker \<Rightarrow> u8 list \<Rightarrow> bool" where
  "word_due st s \<longleftrightarrow> holds_partial st \<and> snd (drun (absd st) s) \<noteq> []"

lemma pw_finish_no_output:
  "pw_finish p s [Word_NULL] = Ok (Inl p', [], [Word_NULL]) \<Longrightarrow> pw_finish p s [] = Ok (Inl p', [], [])"
  "pw_finish p s [Word_NULL] = Ok (Inr w, s', d) \<Longrightarrow> pw_finish p s [] = Panic"
  by (auto simp: pw_finish_def Let_def obind_Ok_iff split: if_splits)

lemma pt_finish_no_output:
  "pt_finish p s [Word_NULL] = Ok (Inl p', [], [Word_NULL]) \<Longrightarrow> pt_finish p s [] = Ok (Inl p', [], [])"
  "pt_finish p s [Word_NULL] = Ok (Inr w, s', d) \<Longrightarrow> pt_finish p s [] = Panic"
  by (cases "fill_tagged (pt_buf p) (pt_tag p) (written (pt_written p)) s";
      force simp: pt_finish_def obind_Ok_iff split: if_splits)+

lemma drun_yields: "drun d bs = (d', w # ws) \<Longrightarrow> snd (drun d (bs @ s')) \<noteq> []"
  by (simp add: drun_append)

lemma unpack_waits:
  assumes "resume st \<lparr>src = s, dst = [], out = []\<rparr> =
      Ok (Stop st' NeedInput \<lparr>src = [], dst = [], out = []\<rparr>)" and "s \<noteq> []" and "unpacker_ok st'"
    and "drun (absd st) s = (absd st', [])" and "owed st = []" and "owed st' = []"
  shows "\<not> word_due st s \<and> unpack_post st s 0 (unpack st s [])"
  using assms by (simp add: word_due_def unpack_def unpack_inner_def unpack_post_def feeds_def)

lemma unpack_due:
  assumes "resume st \<lparr>src = s, dst = [], out = []\<rparr> = Panic" and "s = bs @ s'"
    and "holds_partial st" and "drun (absd st) bs = (d', [w])"
  shows "word_due st s \<and> unpack st s [] = Panic"
proof -
  from drun_yields [OF assms(4), of s'] assms(2,3) have "word_due st s" by (simp add: word_due_def)
  moreover from this have "s \<noteq> []" by (auto simp: word_due_def)
  ultimately show ?thesis using assms(1) by (simp add: unpack_def unpack_inner_def)
qed

lemma unpack_no_output:
  assumes ok: "unpacker_ok st" and h: "holds_partial st" and s: "s \<noteq> []"
  shows "if word_due st s then unpack st s [] = Panic else unpack_post st s 0 (unpack st s [])"
proof -
  have "(word_due st s \<and> unpack st s [] = Panic) \<or>
      (\<not> word_due st s \<and> unpack_post st s 0 (unpack st s []))"
    using h
  proof (cases rule: holds_partialE)
    case (tagged p)
    with ok have p: "pt_ok p" by (simp add: unpacker_ok_def)
    from p have "[Word_NULL] \<noteq> []" by simp
    with p show ?thesis
    proof (cases rule: pt_finish_ok [of p "[Word_NULL]" s])
      case (partial p')
      with tagged pt_finish_no_output(1) [OF partial(1)] show ?thesis
        by (intro disjI2 unpack_waits [of st s "Some (PartialWord p')"])
           (use s in \<open>simp_all add: resume_def absd_def owed_def unpacker_ok_def\<close>)
    next
      case (complete bs s' w)
      with tagged h pt_finish_no_output(2) [OF complete(1)] show ?thesis
        by (intro disjI1 unpack_due [of st s bs s']) (simp_all add: resume_def absd_def)
    qed
  next
    case (full p)
    with ok have p: "pw_ok p" by (simp add: unpacker_ok_def)
    have "[Word_NULL] \<noteq> []" by simp
    with p s show ?thesis
    proof (cases rule: pw_finish_ok [of p s "[Word_NULL]"])
      case (partial p')
      with full pw_finish_no_output(1) [OF partial(1)] show ?thesis
        by (intro disjI2 unpack_waits [of st s "Some (PartialUncompressed p')"])
           (use s in \<open>simp_all add: resume_def absd_def owed_def unpacker_ok_def drun_full_partial\<close>)
    next
      case (complete bs s')
      with full h pw_finish_no_output(2) [OF complete(1)] show ?thesis
        by (intro disjI1 unpack_due [of st s bs s']) (simp_all add: resume_def absd_def drun_full_word)
    qed
  next
    case (run r p)
    with ok have p: "pw_ok p" by (simp add: unpacker_ok_def)
    have "[Word_NULL] \<noteq> []" by simp
    with p s show ?thesis
    proof (cases rule: pw_finish_ok [of p s "[Word_NULL]"])
      case (partial p')
      with run pw_finish_no_output(1) [OF partial(1)] show ?thesis
        by (intro disjI2 unpack_waits [of st s "Some (WritingUncompressed r (Some p'))"])
           (use s in \<open>simp_all add: resume_def absd_def owed_def unpacker_ok_def drun_raw_partial\<close>)
    next
      case (complete bs s')
      with run h pw_finish_no_output(2) [OF complete(1)] show ?thesis
        by (intro disjI1 unpack_due [of st s bs s']) (simp_all add: resume_def absd_def drun_raw_word)
    qed
  qed
  then show ?thesis by auto
qed

text \<open>C1: from any state a call can leave, a call of \<open>unpack\<close> with \<open>n\<close> null words of output
  leaves a valid state, consumes the bytes it reports, writes the words the automaton yields for
  those bytes and no others, and stops for input only with the whole input read and for output
  only with the slice full.  There is one exception, and in it the call panics: the output
  slice is empty, the state holds a part of a word, and the input completes that word.\<close>

theorem unpack_refines:
  assumes "unpacker_ok st"
  shows "if n = 0 \<and> word_due st s then unpack st s [] = Panic
    else unpack_post st s n (unpack st s (replicate n Word_NULL))"
proof (cases "s = []")
  case True
  with assms show ?thesis by (simp add: unpack_no_input unpack_post_def feeds_Nil word_due_def)
next
  case False
  then show ?thesis
  proof (cases "0 < n \<or> \<not> holds_partial st")
    case True
    from unpack_with_input [OF assms True False] True show ?thesis by (metis less_nat_zero_code word_due_def)
  next
    case hold: False
    from unpack_no_output [OF assms _ False] hold show ?thesis by simp
  qed
qed

theorem unpack_refines_witness:
  "unpack_post (Some NeedNullCount) [2] 1 (unpack (Some NeedNullCount) [2] [Word_NULL]) \<and>
   unpack (Some NeedNullCount) [2] [Word_NULL] =
     Ok (Some (WritingNulls 1), \<lparr>bytes_read = 1, words_written = 1, reason = NeedOutput\<rparr>, [Word_NULL])"
proof -
  have "unpack_post (Some NeedNullCount) [2] 1 (unpack (Some NeedNullCount) [2] (replicate 1 Word_NULL))"
    using unpack_refines [of "Some NeedNullCount" 1 "[2]"] by (simp add: unpacker_ok_def)
  then show ?thesis
    by (simp add: unpack_def unpack_inner_def resume_def write_nulls_def)
qed

lemma unpack_loop_stop:
  "src c = tag # s \<Longrightarrow> dst c = w # d \<Longrightarrow>
   unpack_round tag s w d (out c) = Ok (Stop st r c') \<Longrightarrow> unpack_loop c = Ok (st, r, c')"
  by (subst unpack_loop.simps) simp

text \<open>The exception occurs: an uncompressed run cut inside a word, with the output slice just
  filled, leaves a state in which a further call with an empty output slice, as
  \<open>PackedStream::finish\<close> makes it, panics.\<close>

lemma unpack_partial_panics:
  "\<exists>st. unpack None [0xff, 1, 1, 1, 1, 1, 1, 1, 1, 2, 7] [Word_NULL] =
      Ok (st, \<lparr>bytes_read = 11, words_written = 1, reason = NeedInput\<rparr>, [Word 1 1 1 1 1 1 1 1]) \<and>
    unpack st [7, 7, 7, 7, 7, 7, 7] [] = Panic"
proof -
  let ?p = "\<lparr>pw_buf = 7 # replicate 7 0, pw_written = WOne\<rparr>"
  let ?s = "[1, 1, 1, 1, 1, 1, 1, 1, 2, 7] :: u8 list"
  have "write_uncompressed \<lparr>src = [7], dst = [], out = [Word 1 1 1 1 1 1 1 1]\<rparr> 2 =
      Ok (Stop (Some (WritingUncompressed 1 (Some ?p))) NeedInput
            \<lparr>src = [], dst = [], out = [Word 1 1 1 1 1 1 1 1]\<rparr>)"
    by (simp add: write_uncompressed_def pw_start_def from_bytes_def)
  then have "unpack_round 0xff ?s Word_NULL [] [] =
      Ok (Stop (Some (WritingUncompressed 1 (Some ?p))) NeedInput
            \<lparr>src = [], dst = [], out = [Word 1 1 1 1 1 1 1 1]\<rparr>)"
    by (simp add: unpack_round_def word_of_bytes_def)
  then have "unpack_loop \<lparr>src = 0xff # ?s, dst = [Word_NULL], out = []\<rparr> =
      Ok (Some (WritingUncompressed 1 (Some ?p)), NeedInput,
          \<lparr>src = [], dst = [], out = [Word 1 1 1 1 1 1 1 1]\<rparr>)"
    by (intro unpack_loop_stop) simp_all
  then have "unpack None (0xff # ?s) [Word_NULL] =
      Ok (Some (WritingUncompressed 1 (Some ?p)),
          \<lparr>bytes_read = 11, words_written = 1, reason = NeedInput\<rparr>, [Word 1 1 1 1 1 1 1 1])"
    by (simp add: unpack_def unpack_inner_def resume_def)
  moreover have "unpack (Some (WritingUncompressed 1 (Some ?p))) [7, 7, 7, 7, 7, 7, 7] [] = Panic"
    by (simp add: unpack_def unpack_inner_def resume_def pw_finish_def Let_def)
  ultimately show ?thesis by blast
qed

section \<open>The automaton inverts packing\<close>

lemma tagged_nonzero_bytes:
  "length acc + length xs = 8 \<Longrightarrow> (\<And>i. bit tag i \<longleftrightarrow> i < length xs \<and> xs ! i \<noteq> 0) \<Longrightarrow>
   then_run (tagged tag acc) (filter (\<lambda>b. b \<noteq> 0) xs) = (DReady, [word_of_bytes (acc @ xs)])"
proof (induction xs arbitrary: tag acc)
  case Nil
  then have "tag = 0" by (simp add: bit_eq_iff)
  with Nil show ?case by (simp add: tagged_zero pad8_def)
next
  case (Cons x xs)
  have b0: "bit tag 0 \<longleftrightarrow> x \<noteq> 0" using Cons.prems(2) [of 0] by simp
  have odd: "tag AND 1 \<noteq> 0 \<longleftrightarrow> bit tag 0"
    by (simp add: and_one_eq odd_iff_mod_2_eq_one bit_0)
  have bits: "bit (drop_bit 1 tag) i \<longleftrightarrow> i < length xs \<and> xs ! i \<noteq> 0" for i
    using Cons.prems(2) [of "Suc i"] by (simp add: bit_drop_bit_eq)
  have IH: "then_run (tagged (drop_bit 1 tag) (acc @ [x])) (filter (\<lambda>b. b \<noteq> 0) xs) =
      (DReady, [word_of_bytes (acc @ x # xs)])"
    using Cons.IH [of "acc @ [x]" "drop_bit 1 tag"] Cons.prems(1) bits by simp
  show ?case
  proof (cases "x = 0")
    case True
    show ?thesis
    proof (cases "tag = 0")
      case t: True
      have z: "\<forall>b \<in> set (x # xs). b = 0"
        using Cons.prems(2) unfolding t all_set_conv_all_nth by auto
      then have "x # xs = replicate (8 - length acc) 0"
        using Cons.prems(1) by (intro replicate_eq_iff [THEN iffD2]) auto
      moreover have "filter (\<lambda>b. b \<noteq> 0) (x # xs) = []" using z by (simp add: filter_empty_conv)
      ultimately show ?thesis by (simp add: t tagged_zero pad8_def)
    next
      case False
      with True b0 odd IH show ?thesis by (simp add: tagged_even)
    qed
  next
    case False
    with b0 odd IH show ?thesis by (simp add: then_run_tagged_odd)
  qed
qed

lemma drun_pack_word:
  assumes "w \<noteq> Word_NULL" "pack_word w = (tag, bytes)" "tag \<noteq> 0xff"
  shows "drun DReady (tag # bytes) = (DReady, [w])"
proof -
  have t: "tag \<noteq> 0" using assms tag_zero_iff [of w] by simp
  have b: "bytes = filter (\<lambda>x. x \<noteq> 0) (word_bytes w)" using pack_word_snd [of w] assms by simp
  have "then_run (tagged tag []) bytes = (DReady, [word_of_bytes ([] @ word_bytes w)])"
    unfolding b using bit_pack_word_tag [of w] assms(2)
    by (intro tagged_nonzero_bytes) simp_all
  with t assms(3) show ?thesis by (simp only: drun_Cons) simp
qed

lemma unat_of_nat_u8: "n \<le> 255 \<Longrightarrow> unat (of_nat n :: u8) = n"
  by (simp add: unat_of_nat take_bit_nat_eq_self)

lemma drun_pack_all: "drun DReady (pack_all ws) = (DReady, ws)"
proof (induction ws rule: pack_all.induct)
  case (1 ws)
  show ?case
  proof (cases ws)
    case Nil
    then show ?thesis by simp
  next
    case (Cons w rest)
    show ?thesis
    proof (cases "w = Word_NULL")
      case True
      obtain zeros remd where s: "split_at_filter rest (\<lambda>v. v \<noteq> Word_NULL) = (zeros, remd)" by force
      note run = split_at_filter_run [OF s]
      have z: "zeros = replicate (length zeros) Word_NULL"
        using run(2) by (intro replicate_eq_iff [THEN iffD2]) auto
      have "drun DReady [0, of_nat (length zeros)] = (DReady, Word_NULL # zeros)"
        using run(1) z by (simp add: unat_of_nat_u8)
      with 1(1) [OF Cons True s [symmetric]] split_at_filter_append [OF s] show ?thesis
        unfolding Cons True pack_all_null [OF s] drun_append by simp
    next
      case False
      obtain tag bytes where tb: "pack_word w = (tag, bytes)" by force
      show ?thesis
      proof (cases "tag = 0xff")
        case full: True
        obtain unc remd where s: "split_at_filter rest compressible = (unc, remd)" by force
        note run = split_at_filter_run [OF s]
        have b: "bytes = word_bytes w" using pack_word_full tb full by simp
        have w: "word_bytes w \<noteq> []" by (metis length_word_bytes list.size(3) zero_neq_numeral)
        have "drun DReady (0xff # bytes @ [of_nat (length unc)]) = (raw (length unc), [w])"
          using drun_full_word [of "[]" "word_bytes w"] w run(1)
          by (simp add: b drun_append unat_of_nat_u8)
        then have "drun DReady ((0xff # bytes @ [of_nat (length unc)]) @ slice_to_bytes unc) =
            (DReady, w # unc)"
          unfolding drun_append by (simp add: drun_raw_words raw_def [of 0])
        with 1(2) [OF Cons False tb [symmetric] full s [symmetric]] split_at_filter_append [OF s]
        have "drun DReady (((0xff # bytes @ [of_nat (length unc)]) @ slice_to_bytes unc) @ pack_all remd) =
            (DReady, w # rest)"
          unfolding drun_append [of _ "(0xff # bytes @ [of_nat (length unc)]) @ slice_to_bytes unc"]
          by simp
        with tb full show ?thesis
          unfolding Cons by (simp add: pack_all_full [OF False _ s] del: drun.simps)
      next
        case word: False
        have "drun DReady ((tag # bytes) @ pack_all rest) = (DReady, w # rest)"
          using drun_pack_word [OF False tb word] 1(3) [OF Cons False tb [symmetric] word]
          unfolding drun_append by simp
        then show ?thesis
          unfolding Cons by (simp add: pack_all_word [OF False tb word] del: drun.simps)
      qed
    qed
  qed
qed

end
