(* ===== verification/Stream_Table.thy ===== *)
theory Stream_Table
  imports Seg_Words
begin

text \<open>
  The stream framing table of \<^verbatim>\<open>recapn/src/io/stream.rs\<close>: the number of segments less one,
  then the length of each segment, as little-endian 32-bit values padded to a whole word. The
  segments of a message are the list of their used words. A subtraction that would underflow
  is a panic, as in a build with overflow checks.
\<close>

section \<open>32-bit views of words\<close>

text \<open>\<open>WireValue::<u32>::from_word_slice\<close> and the words behind such a view.\<close>

fun word_u32s :: "Word \<Rightarrow> u32 list" where
  "word_u32s (Word a b c d e f g h) = [le_word [a, b, c, d], le_word [e, f, g, h]]"

definition wire_u32s :: "Word list \<Rightarrow> u32 list" where
  "wire_u32s ws = concat (map word_u32s ws)"

definition word_of_u32s :: "u32 \<Rightarrow> u32 \<Rightarrow> Word" where
  "word_of_u32s lo hi = word_of_bytes (le_bytes 4 lo @ le_bytes 4 hi)"

fun words_of_u32s :: "u32 list \<Rightarrow> Word list" where
  "words_of_u32s (lo # hi # vs) = word_of_u32s lo hi # words_of_u32s vs"
| "words_of_u32s _ = []"

lemma word_u32s_of [simp, bytes_simps]: "word_u32s (word_of_u32s lo hi) = [lo, hi]"
proof -
  have "le_bytes 4 v = [le_bytes 4 v ! 0, le_bytes 4 v ! 1, le_bytes 4 v ! 2, le_bytes 4 v ! 3]"
    for v :: u32 by (simp add: numeral_eq_Suc)
  then obtain a b c d e f g h where
    l: "le_bytes 4 lo = [a, b, c, d]" and h: "le_bytes 4 hi = [e, f, g, h]" by metis
  have "le_word [a, b, c, d] = lo" "le_word [e, f, g, h] = hi"
    unfolding l [symmetric] h [symmetric] by simp_all
  then show ?thesis
    unfolding word_of_u32s_def l h by (simp add: word_of_bytes_def numeral_eq_Suc del: le_word.simps)
qed

lemma word_of_u32s_of [simp, bytes_simps]:
  "word_of_u32s (le_word [a, b, c, d]) (le_word [e, f, g, h]) = Word a b c d e f g h"
proof -
  have "le_bytes 4 (le_word [p, q, r, s] :: u32) = [p, q, r, s]" for p q r s
  proof -
    have l: "length [p, q, r, s] = 4" by simp
    show ?thesis
      using le_bytes_le_word [of "[p, q, r, s]", where ?'a = 32] unfolding l by (simp del: le_word.simps le_bytes.simps)
  qed
  then show ?thesis
    by (simp add: word_of_u32s_def word_of_bytes_def numeral_eq_Suc del: le_word.simps le_bytes.simps)
qed

lemma wire_u32s_simps [simp]:
  "wire_u32s [] = []"
  "wire_u32s (w # ws) = word_u32s w @ wire_u32s ws"
  "wire_u32s (vs @ ws) = wire_u32s vs @ wire_u32s ws"
  by (simp_all add: wire_u32s_def)

lemma length_word_u32s [simp]: "length (word_u32s w) = 2"
  by (cases w) simp

lemma length_wire_u32s [simp]: "length (wire_u32s ws) = 2 * length ws"
  by (induction ws) auto

lemma length_words_of_u32s [simp]: "length (words_of_u32s vs) = length vs div 2"
  by (induction vs rule: words_of_u32s.induct) auto

lemma words_of_wire [simp, bytes_simps]: "words_of_u32s (wire_u32s ws) = ws"
proof (induction ws)
  case (Cons w ws)
  then show ?case by (cases w) (simp del: le_word.simps)
qed simp

lemma wire_of_words [simp, bytes_simps]:
  "even (length vs) \<Longrightarrow> wire_u32s (words_of_u32s vs) = vs"
  by (induction vs rule: words_of_u32s.induct) auto

section \<open>Table sizes\<close>

definition table_size_from_count :: "u32 \<Rightarrow> u32" where
  "table_size_from_count count = count div 2 + 1"

definition table_size_of :: "Word list list \<Rightarrow> u32" where
  "table_size_of segments = table_size_from_count (of_nat (length segments))"

definition max_table_size_from_len :: "u64 \<Rightarrow> u32" where
  "max_table_size_from_len len =
     (let max32 = (- 1 :: u32) - 1; MAX_TABLE = table_size_from_count max32 in
      case checked_mul len 2 of
        None \<Rightarrow> MAX_TABLE
      | Some r \<Rightarrow> (case checked_sub r 1 of
          None \<Rightarrow> 0
        | Some r \<Rightarrow> if r > ucast MAX_TABLE then MAX_TABLE else ucast r))"

lemma unat_table_size: "unat (table_size_from_count c) = unat c div 2 + 1"
proof -
  have "unat c div 2 + 1 < 2 ^ 32" using unsigned_less [of c, where ?'a = nat] by simp
  then show ?thesis
    unfolding table_size_from_count_def
    by (subst unat_add_no_wrap) (simp_all add: unat_div_distrib)
qed

section \<open>Writing\<close>

text \<open>\<open>lens.iter_mut().zip(values).for_each(set)\<close>.\<close>

fun zip_set :: "'a list \<Rightarrow> 'a list \<Rightarrow> 'a list" where
  "zip_set (l # ls) (v # vs) = v # zip_set ls vs"
| "zip_set ls _ = ls"

definition write_table :: "Word list list \<Rightarrow> Word list \<Rightarrow> (unit, Word list) outcome" where
  "write_table segments sl =
     (if length sl \<noteq> unat (table_size_of segments) then Panic
      else
        (let sl = sl[length sl - 1 := Word_NULL] in
         case wire_u32s sl of
           [] \<Rightarrow> Panic
         | count # lens \<Rightarrow>
             obind (unwrap (checked_sub (of_nat (length segments)) 1)) (\<lambda>c.
               Ok (words_of_u32s (c # zip_set lens (map (\<lambda>s. of_nat (length s)) segments))))))"

lemma zip_set_length [simp]: "length (zip_set ls vs) = length ls"
  by (induction ls vs rule: zip_set.induct) auto

lemma zip_set_eq: "zip_set ls vs = take (length ls) vs @ drop (length vs) ls"
  by (induction ls vs rule: zip_set.induct) auto

definition INLINE_TABLE_SIZE :: nat where "INLINE_TABLE_SIZE = 3"

datatype table = Inline u8 "Word list" | Heap "Word list"

definition table_new :: table where
  "table_new = Inline 1 (replicate INLINE_TABLE_SIZE Word_NULL)"

definition resize_to :: "table \<Rightarrow> nat \<Rightarrow> table" where
  "resize_to t len = (case t of
     Inline current_len array \<Rightarrow>
       if len \<le> INLINE_TABLE_SIZE then
         (if unat current_len < len then Inline (of_nat len) array else t)
       else Heap (replicate len Word_NULL)
   | Heap vec \<Rightarrow>
       if length vec < len then Heap (vec @ replicate (len - length vec) Word_NULL) else t)"

definition table_slice :: "table \<Rightarrow> (unit, Word list) outcome" where
  "table_slice t = (case t of
     Inline len array \<Rightarrow> if unat len \<le> length array then Ok (take (unat len) array) else Panic
   | Heap boxed \<Rightarrow> Ok boxed)"

text \<open>\<open>as_slice_mut\<close>: the table with the contents of its slice replaced.\<close>

definition table_put :: "table \<Rightarrow> Word list \<Rightarrow> table" where
  "table_put t ws = (case t of
     Inline len array \<Rightarrow> Inline len (ws @ drop (unat len) array)
   | Heap boxed \<Rightarrow> Heap ws)"

definition write_segments :: "table \<Rightarrow> Word list list \<Rightarrow> (unit, table) outcome" where
  "write_segments t segments =
     (let t = resize_to t (unat (table_size_of segments)) in
      obind (table_slice t) (\<lambda>s. obind (write_table segments s) (\<lambda>s'. Ok (table_put t s'))))"

definition from_segments :: "Word list list \<Rightarrow> (unit, table) outcome" where
  "from_segments segments = write_segments table_new segments"

definition as_bytes :: "table \<Rightarrow> (unit, u8 list) outcome" where
  "as_bytes t = obind (table_slice t) (\<lambda>s. Ok (slice_to_bytes s))"

section \<open>Reading\<close>

datatype table_read_error =
    TooManySegments
  | Empty
  | Incomplete (inc_count: u32) (inc_required: nat)

text \<open>\<open>StreamTableRef\<close>: the length values of a table, of which there is at least one.\<close>

type_synonym stream_table_ref = "u32 list"

definition ref_new :: "u32 list \<Rightarrow> ('e, stream_table_ref) outcome" where
  "ref_new sl = (if sl = [] then Panic else Ok sl)"

definition try_read :: "Word list \<Rightarrow> (table_read_error, stream_table_ref \<times> Word list) outcome" where
  "try_read sl = (case wire_u32s sl of
     [] \<Rightarrow> Err Empty
   | count # table \<Rightarrow>
       obind (ok_or TooManySegments (checked_add count 1)) (\<lambda>count.
         let end_of_table = unat (table_size_from_count count) in
         if length sl < end_of_table then Err (Incomplete count (end_of_table - length sl))
         else if length table < unat count then Panic
         else obind (ref_new (take (unat count) table)) (\<lambda>r. Ok (r, drop end_of_table sl))))"

definition ref_count :: "stream_table_ref \<Rightarrow> ('e, u32) outcome" where
  "ref_count r = (let n = of_nat (length r) :: u32 in if n = 0 then Panic else Ok n)"

definition ref_split_first :: "stream_table_ref \<Rightarrow> ('e, u32 \<times> u32 list) outcome" where
  "ref_split_first r = (case r of [] \<Rightarrow> Panic | first # rest \<Rightarrow> Ok (first, rest))"

definition segment_len_try_get :: "u32 \<Rightarrow> u29 option" where
  "segment_len_try_get v = u29_new v"

text \<open>\<open>Borrow<StreamTableRef> for StreamTable\<close> takes every value of the table's words.\<close>

definition table_borrow :: "table \<Rightarrow> (unit, stream_table_ref) outcome" where
  "table_borrow t = obind (table_slice t) (\<lambda>s. ref_new (wire_u32s s))"

definition clone_into :: "stream_table_ref \<Rightarrow> table \<Rightarrow> (unit, table) outcome" where
  "clone_into r target =
     obind (ref_count r) (\<lambda>n.
       let target = resize_to target (unat (table_size_from_count n)) in
       obind (table_slice target) (\<lambda>s.
         case wire_u32s s of
           [] \<Rightarrow> Panic
         | count # lens \<Rightarrow>
             if length lens < length r then Panic
             else Ok (table_put target (words_of_u32s ((n - 1) # r @ drop (length r) lens)))))"

definition to_owned :: "stream_table_ref \<Rightarrow> (unit, table) outcome" where
  "to_owned r = clone_into r table_new"

section \<open>Reading what was written\<close>

lemma try_read_eq:
  "try_read sl = (case sl of
     [] \<Rightarrow> Err Empty
   | w # _ \<Rightarrow>
       let c = unat (hd (word_u32s w)); size = (c + 1) div 2 + 1 in
       if c = 2 ^ 32 - 1 then Err TooManySegments
       else if length sl < size then Err (Incomplete (of_nat (c + 1)) (size - length sl))
       else Ok (take (c + 1) (tl (wire_u32s sl)), drop size sl))"
proof (cases sl)
  case Nil
  then show ?thesis by (simp add: try_read_def)
next
  case (Cons w ws)
  obtain lo hi where w: "word_u32s w = [lo, hi]" by (cases w) simp
  show ?thesis
  proof (cases "unat lo = 2 ^ 32 - 1")
    case True
    then show ?thesis by (simp add: try_read_def Cons w checked_add_def)
  next
    case False
    with unsigned_less [of lo, where ?'a = nat] have "unat lo + 1 < 2 ^ 32" by simp
    then have c: "checked_add lo 1 = Some (lo + 1)" "unat (lo + 1) = unat lo + 1"
      by (simp_all add: checked_add_def unat_add_no_wrap)
    then have n: "(of_nat (unat lo + 1) :: u32) = lo + 1" by simp
    have "\<not> length sl < (unat lo + 1) div 2 + 1 \<Longrightarrow> \<not> 2 * length ws + 1 < unat lo + 1"
      by (simp add: Cons)
    then show ?thesis
      using False by (simp add: try_read_def Cons w c unat_table_size ref_new_def Let_def n del: of_nat_add)
  qed
qed

definition segments_ok :: "Word list list \<Rightarrow> bool" where
  "segments_ok segments \<longleftrightarrow> segments \<noteq> [] \<and> length segments < 2 ^ 32 \<and>
     list_all (\<lambda>s. length s < 2 ^ 32) segments"

definition segment_lens :: "Word list list \<Rightarrow> u32 list" where
  "segment_lens segments = map (\<lambda>s. of_nat (length s)) segments"

definition table_ok :: "table \<Rightarrow> bool" where
  "table_ok t \<longleftrightarrow> (case t of
     Inline len array \<Rightarrow> 1 \<le> unat len \<and> unat len \<le> INLINE_TABLE_SIZE \<and> length array = INLINE_TABLE_SIZE
   | Heap v \<Rightarrow> v \<noteq> [])"

fun table_len :: "table \<Rightarrow> nat" where
  "table_len (Inline len _) = unat len"
| "table_len (Heap v) = length v"

lemma unat_table_size_of:
  "segments_ok segs \<Longrightarrow> unat (table_size_of segs) = length segs div 2 + 1"
  by (simp add: segments_ok_def table_size_of_def unat_table_size unat_of_nat take_bit_nat_eq_self)

lemma table_slice_ok:
  assumes "table_ok t"
  obtains s where "table_slice t = Ok s" "length s = table_len t" "s \<noteq> []"
proof (cases t)
  case (Inline len array)
  then show ?thesis
    using assms by (intro that [of "take (unat len) array"])
      (auto simp: table_ok_def table_slice_def INLINE_TABLE_SIZE_def)
next
  case (Heap v)
  then show ?thesis using assms by (intro that [of v]) (auto simp: table_ok_def table_slice_def)
qed

lemma resize_to_ok:
  assumes "table_ok t" "1 \<le> n"
  shows "table_ok (resize_to t n)" "table_len (resize_to t n) = max (table_len t) n"
proof -
  have u: "n \<le> 3 \<Longrightarrow> unat (of_nat n :: u8) = n" by (simp add: unat_of_nat take_bit_nat_eq_self)
  show "table_ok (resize_to t n)"
    using assms u by (cases t) (auto simp: table_ok_def resize_to_def INLINE_TABLE_SIZE_def)
  show "table_len (resize_to t n) = max (table_len t) n"
    using assms u by (cases t) (auto simp: table_ok_def resize_to_def INLINE_TABLE_SIZE_def max_def)
qed

lemma table_put_slice:
  assumes "table_ok t" "length ws = table_len t"
  shows "table_slice (table_put t ws) = Ok ws" "table_ok (table_put t ws)"
    "table_len (table_put t ws) = table_len t"
  using assms by (cases t; auto simp: table_ok_def table_put_def table_slice_def)+

lemma write_table_ok:
  assumes "segments_ok segs" "length s = length segs div 2 + 1"
  obtains t where "write_table segs s = Ok t" "length t = length s"
    "\<And>rest. try_read (t @ rest) = Ok (segment_lens segs, rest)"
proof -
  let ?n = "length segs" and ?s = "s[length s - 1 := Word_NULL]"
  have n: "1 \<le> ?n" "?n < 2 ^ 32" using assms(1) by (cases segs; simp add: segments_ok_def)+
  obtain count lens where w: "wire_u32s ?s = count # lens" "length lens = 2 * (?n div 2) + 1"
  proof (cases "wire_u32s ?s")
    case Nil
    then have "length (wire_u32s ?s) = 0" by simp
    then have "length s = 0" by simp
    with assms(2) show thesis by simp
  next
    case (Cons count lens)
    then have "length (count # lens) = 2 * length s" by (metis length_list_update length_wire_u32s)
    with assms(2) Cons that show thesis by simp
  qed
  have un: "unat (of_nat ?n :: u32) = ?n" using n by (simp add: unat_of_nat take_bit_nat_eq_self)
  define c where "c = (of_nat ?n :: u32) - 1"
  have one: "(1 :: u32) \<le> of_nat ?n" using n un by (simp add: word_le_nat_alt)
  have sub: "checked_sub (of_nat ?n) 1 = Some c" using one by (simp add: checked_sub_def c_def)
  have uc: "unat c = ?n - 1" unfolding c_def by (subst unat_sub_no_wrap [OF one]) (simp add: un)
  define vs where "vs = c # zip_set lens (segment_lens segs)"
  have vs_len: "length vs = 2 * length s" using w(2) assms(2) by (simp add: vs_def)
  have wt: "write_table segs s = Ok (words_of_u32s vs)"
    using assms(2) unat_table_size_of [OF assms(1)]
    unfolding write_table_def Let_def w(1) vs_def segment_lens_def by (simp add: sub)
  have wire: "wire_u32s (words_of_u32s vs) = vs" by (rule wire_of_words) (simp add: vs_len)
  have len: "length (words_of_u32s vs) = length s" by (simp add: vs_len)
  obtain v ws where v: "words_of_u32s vs = v # ws"
    using len assms(2) by (cases "words_of_u32s vs") auto
  have hd: "hd (word_u32s v) = c" using wire unfolding v by (cases v) (simp add: vs_def)
  have "take ?n (zip_set lens (segment_lens segs)) = segment_lens segs"
    using w(2) by (simp add: zip_set_eq segment_lens_def)
  then have t: "take ?n (tl (wire_u32s (words_of_u32s vs) @ wire_u32s rest)) = segment_lens segs" for rest
    using w(2) by (simp add: wire vs_def)
  have "try_read (words_of_u32s vs @ rest) = Ok (segment_lens segs, rest)" for rest
  proof -
    have a: "Suc (unat (hd (word_u32s v))) = ?n" using uc n by (simp add: hd)
    have b: "unat (hd (word_u32s v)) \<noteq> 2 ^ 32 - 1" using a n by simp
    have d: "drop (?n div 2 + 1) (words_of_u32s vs @ rest) = rest"
      using len assms(2) by simp
    have e: "\<not> length (words_of_u32s vs @ rest) < ?n div 2 + 1" using len assms(2) by simp
    show ?thesis
      using t [of rest] d e b
      unfolding try_read_eq by (simp add: v Let_def a del: take_Suc_conv_app_nth)
  qed
  with wt len show thesis by (rule that)
qed

lemma try_read_safe: "safe (try_read sl)"
  by (auto simp: try_read_eq Let_def split: list.split)

lemma try_read_Ok:
  assumes "try_read sl = Ok (r, rest)"
  shows "r \<noteq> []" "length r < 2 ^ 32" "rest = drop (length r div 2 + 1) sl" "length r div 2 + 1 \<le> length sl"
proof -
  obtain w ws lo hi where sl: "sl = w # ws" "word_u32s w = [lo, hi]"
    using assms by (cases sl; cases "hd sl") (auto simp: try_read_eq)
  have lt: "unat lo < 2 ^ 32" using unsigned_less [of lo, where ?'a = nat] by simp
  from assms sl have ne: "unat lo \<noteq> 2 ^ 32 - 1" by (auto simp: try_read_eq)
  from assms sl ne have size: "(unat lo + 1) div 2 + 1 \<le> length sl" and
    r: "r = take (unat lo + 1) (tl (wire_u32s sl))" and rest: "rest = drop ((unat lo + 1) div 2 + 1) sl"
    by (auto simp: try_read_eq Let_def split: if_splits)
  from r size have len: "length r = unat lo + 1" by (simp add: sl)
  with lt ne size rest show "r \<noteq> []" "length r < 2 ^ 32" "rest = drop (length r div 2 + 1) sl"
    "length r div 2 + 1 \<le> length sl" by auto
qed

lemma try_read_first_word:
  assumes "try_read (w # ws) = Ok (r, [])"
  shows "try_read [w] = (if ws = [] then Ok (r, []) else Err (Incomplete (of_nat (length r)) (length ws)))"
proof -
  obtain lo hi where w: "word_u32s w = [lo, hi]" by (cases w) simp
  note t = try_read_Ok [OF assms]
  from assms w have ne: "unat lo \<noteq> 2 ^ 32 - 1" by (auto simp: try_read_eq)
  from assms w ne have r: "r = take (unat lo + 1) (tl (wire_u32s (w # ws)))"
    by (auto simp: try_read_eq Let_def split: if_splits)
  have size: "length r div 2 = length ws" using t(3,4) by simp
  from assms w ne have "(unat lo + 1) div 2 + 1 \<le> length (w # ws)"
    by (auto simp: try_read_eq Let_def split: if_splits)
  with r have len: "length r = unat lo + 1" by (simp add: w)
  with size have "(unat lo + 1) div 2 = length ws" by simp
  with len ne w assms show ?thesis by (auto simp: try_read_eq Let_def)
qed

text \<open>Whatever its slice holds, \<open>try_read\<close> does not panic; on success it returns the length
  values that precede the remainder; and when it asks for more words it asks for the exact
  number: with fewer it asks for the difference, with as many it succeeds.\<close>

lemma try_read_progress:
  "case try_read sl of
     Ok (r, rest) \<Rightarrow> r \<noteq> [] \<and> drop (length r div 2 + 1) sl = rest \<and>
       length sl = length r div 2 + 1 + length rest \<and> r = take (length r) (tl (wire_u32s sl))
   | Err Empty \<Rightarrow> sl = []
   | Err TooManySegments \<Rightarrow> sl \<noteq> [] \<and> hd (wire_u32s sl) = - 1
   | Err (Incomplete c required) \<Rightarrow> 0 < required \<and> c = hd (wire_u32s sl) + 1 \<and>
       (\<forall>ws. case try_read (sl @ ws) of
          Ok _ \<Rightarrow> required \<le> length ws
        | Err (Incomplete c' required') \<Rightarrow> c' = c \<and> required' + length ws = required
        | _ \<Rightarrow> False)
   | _ \<Rightarrow> False"
proof (cases sl)
  case Nil
  then show ?thesis by (simp add: try_read_eq)
next
  case (Cons w ws)
  obtain lo hi where w: "word_u32s w = [lo, hi]" by (cases w) simp
  show ?thesis
  proof (cases "unat lo = 2 ^ 32 - 1")
    case True
    then have "lo = - 1" by (intro word_unat_eq_iff [THEN iffD2]) (simp add: unsigned_minus_1_eq_mask mask_eq_exp_minus_1)
    with True show ?thesis by (simp add: try_read_eq Cons w)
  next
    case False
    then show ?thesis by (auto simp: try_read_eq Cons w Let_def min_def)
  qed
qed

lemma from_segments_ok:
  assumes "segments_ok segs"
  obtains t s where "from_segments segs = Ok t" "table_slice t = Ok s"
    "length s = unat (table_size_of segs)" "\<And>rest. try_read (s @ rest) = Ok (segment_lens segs, rest)"
proof -
  let ?n = "length segs div 2 + 1"
  have size: "unat (table_size_of segs) = ?n" using assms by (rule unat_table_size_of)
  have new: "table_ok table_new" "table_len table_new = 1"
    by (simp_all add: table_new_def table_ok_def INLINE_TABLE_SIZE_def)
  note r = resize_to_ok [OF new(1), of ?n]
  from r have r': "table_ok (resize_to table_new ?n)" "table_len (resize_to table_new ?n) = ?n"
    by (simp_all add: new)
  from table_slice_ok [OF r'(1)] obtain s where s: "table_slice (resize_to table_new ?n) = Ok s"
    "length s = ?n" using r'(2) by auto
  from write_table_ok [OF assms s(2)] obtain t where
    t: "write_table segs s = Ok t" "length t = length s" "\<And>rest. try_read (t @ rest) = Ok (segment_lens segs, rest)"
    by blast
  have l: "length t = table_len (resize_to table_new ?n)" using t(2) s(2) r'(2) by simp
  show thesis
    by (rule that [of "table_put (resize_to table_new ?n) t" t])
       (use table_put_slice [OF r'(1) l] t s size in
         \<open>simp_all add: from_segments_def write_segments_def\<close>)
qed

text \<open>A table written for a message, followed by anything, reads back as the lengths of its
  segments, with what followed as the remainder.\<close>

lemma table_round_trip:
  assumes "segments_ok segs"
  shows "\<exists>t s. from_segments segs = Ok t \<and> table_slice t = Ok s \<and>
    length s = unat (table_size_of segs) \<and> try_read (s @ rest) = Ok (segment_lens segs, rest)"
  using from_segments_ok [OF assms] by metis

lemma table_round_trip_witness:
  "\<exists>t s. from_segments [[Word_NULL], []] = Ok t \<and> table_slice t = Ok s \<and>
    length s = unat (table_size_of [[Word_NULL], []]) \<and>
    try_read (s @ [Word_NULL]) = Ok (segment_lens [[Word_NULL], []], [Word_NULL])"
  by (rule table_round_trip) (simp add: segments_ok_def)

text \<open>Reusing a stream table works exactly when the new message does not need a smaller
  table than the one in use: the table never shrinks, so the size check of \<open>write_table\<close> fails
  on the words that are left over.\<close>

lemma write_segments_reuse:
  assumes "table_ok t" "segments_ok segs"
  shows "write_segments t segs = Panic \<longleftrightarrow> length segs div 2 + 1 < table_len t"
proof -
  define n where "n = length segs div 2 + 1"
  have size: "unat (table_size_of segs) = n" unfolding n_def using assms(2) by (rule unat_table_size_of)
  have "1 \<le> n" by (simp add: n_def)
  note r = resize_to_ok [OF assms(1) this]
  from table_slice_ok [OF r(1)] r(2) obtain s where
    s: "table_slice (resize_to t n) = Ok s" "length s = max (table_len t) n" by metis
  show ?thesis
  proof (cases "n < table_len t")
    case True
    with s have "write_table segs s = Panic" by (simp add: write_table_def size)
    with True s(1) show ?thesis by (simp add: write_segments_def size n_def)
  next
    case False
    with s have "length s = n" by simp
    then obtain t' where "write_table segs s = Ok t'" using write_table_ok [OF assms(2)] n_def by metis
    with False s(1) show ?thesis by (simp add: write_segments_def size n_def)
  qed
qed

lemma write_segments_reuse_witness:
  "write_segments (Heap [Word_NULL, Word_NULL, Word_NULL, Word_NULL]) [[]] = Panic \<longleftrightarrow>
     length [[] :: Word list] div 2 + 1 < table_len (Heap [Word_NULL, Word_NULL, Word_NULL, Word_NULL])"
  by (rule write_segments_reuse) (simp_all add: table_ok_def segments_ok_def)

end
