(* ===== verification/Segment_Set.thy ===== *)
theory Segment_Set
  imports Stream_Table
begin

text \<open>
  The sets of read-only segments of \<^verbatim>\<open>recapn/src/io.rs\<close>: \<open>TableSegmentSet\<close>, which searches the
  stream table on each access, and \<open>SegmentSet\<close>, which keeps the start of each segment. Both
  are instances of the \<open>ReadArena\<close> interface of \<^verbatim>\<open>recapn/src/arena.rs\<close>. A segment is modelled by
  the words it covers; positions (\<open>usize\<close>) are naturals below \<open>2 ^ 64\<close>.
\<close>

section \<open>The interface of a read arena\<close>

definition nth_opt :: "'a list \<Rightarrow> nat \<Rightarrow> 'a option" where
  "nth_opt xs i = (if i < length xs then Some (xs ! i) else None)"

lemma nth_opt_simps [simp]:
  "nth_opt [] i = None" "nth_opt (x # xs) 0 = Some x" "nth_opt (x # xs) (Suc i) = nth_opt xs i"
  by (simp_all add: nth_opt_def)

text \<open>
  What a client relies on: \<open>segment\<close> is a lookup in a list of segments, for which it does not
  panic, and \<open>size_in_words\<close> is their total length. \<open>SegmentsIter\<close> (\<^verbatim>\<open>recapn/src/message.rs\<close>) asks
  for the segments from 0 on until there is none.
\<close>

fun segments_iter :: "('a \<Rightarrow> u32 \<Rightarrow> ('e, 'b option) outcome) \<Rightarrow> 'a \<Rightarrow> u32 \<Rightarrow> nat \<Rightarrow> ('e, 'b list) outcome" where
  "segments_iter segment a cur 0 = Ok []"
| "segments_iter segment a cur (Suc fuel) = obind (segment a cur) (\<lambda>s. case s of
     None \<Rightarrow> Ok []
   | Some seg \<Rightarrow> obind (segments_iter segment a (cur + 1) fuel) (\<lambda>rest. Ok (seg # rest)))"

locale read_arena =
  fixes segment :: "'a \<Rightarrow> u32 \<Rightarrow> (unit, Word list option) outcome"
    and size_in_words :: "'a \<Rightarrow> nat"
    and valid :: "'a \<Rightarrow> bool"
    and contents :: "'a \<Rightarrow> Word list list"
  assumes few: "valid a \<Longrightarrow> length (contents a) < 2 ^ 32"
    and segment_lookup: "valid a \<Longrightarrow> segment a i = Ok (nth_opt (contents a) (unat i))"
    and size_total: "valid a \<Longrightarrow> size_in_words a = length (concat (contents a))"
begin

lemma segment_safe: "valid a \<Longrightarrow> safe (segment a i)"
  by (simp add: segment_lookup)

lemma segment_length: "valid a \<Longrightarrow> segment a i = Ok (Some s) \<Longrightarrow> length s \<le> size_in_words a"
  by (auto simp: segment_lookup size_total nth_opt_def length_concat member_le_sum_list split: if_splits)

lemma iter_from:
  "valid a \<Longrightarrow> i \<le> length (contents a) \<Longrightarrow> length (contents a) - i < fuel \<Longrightarrow>
   segments_iter segment a (of_nat i) fuel = Ok (drop i (contents a))"
proof (induction fuel arbitrary: i)
  case 0
  then show ?case by simp
next
  case (Suc fuel)
  from Suc.prems few [OF Suc.prems(1)] have u: "unat (of_nat i :: u32) = i"
    by (simp add: unat_of_nat take_bit_nat_eq_self)
  show ?case
  proof (cases "i < length (contents a)")
    case True
    have "segments_iter segment a (of_nat (Suc i)) fuel = Ok (drop (Suc i) (contents a))"
      using Suc True by (intro Suc.IH) auto
    then show ?thesis
      using Suc.prems(1) True by (simp add: segment_lookup u nth_opt_def Cons_nth_drop_Suc add.commute)
  next
    case False
    with Suc.prems(1) have "segment a (of_nat i) = Ok None" by (simp add: segment_lookup u nth_opt_def)
    with False show ?thesis by simp
  qed
qed

lemma iter_all:
  "valid a \<Longrightarrow> segments_iter segment a 0 (Suc (length (contents a))) = Ok (contents a)"
  using iter_from [of a 0 "Suc (length (contents a))"] by (simp del: segments_iter.simps)

end

section \<open>Errors\<close>

datatype read_error =
    Table table_read_error
  | SegmentTooLarge u32
  | MessageTooLarge
  | ReadIncomplete

definition usize_checked_add :: "nat \<Rightarrow> nat \<Rightarrow> nat option" where
  "usize_checked_add a b = (if a + b < 2 ^ 64 then Some (a + b) else None)"

definition map_err :: "('e \<Rightarrow> ('f, 'a) outcome) \<Rightarrow> ('e, 'a) outcome \<Rightarrow> ('f, 'a) outcome" where
  "map_err f m = (case m of Ok x \<Rightarrow> Ok x | Err e \<Rightarrow> f e | Panic \<Rightarrow> Panic | UB \<Rightarrow> UB)"

lemma map_err_simps [simp, outcome_simps]:
  "map_err f (Ok x) = Ok x" "map_err f (Err e) = f e" "map_err f Panic = Panic" "map_err f UB = UB"
  by (simp_all add: map_err_def)

section \<open>Using the table in place\<close>

record table_segment_set =
  ts_table :: stream_table_ref
  ts_data :: "Word list"

text \<open>The validation loop of \<open>TableSegmentSet::new\<close>, over the length values from the \<open>id\<close>-th.\<close>

fun total_len_loop :: "u32 list \<Rightarrow> u32 \<Rightarrow> nat \<Rightarrow> (read_error, nat) outcome" where
  "total_len_loop [] i sum_len = Ok sum_len"
| "total_len_loop (l # ls) i sum_len = (case segment_len_try_get l of
     None \<Rightarrow> Err (SegmentTooLarge i)
   | Some len \<Rightarrow> (case usize_checked_add sum_len (u29_val len) of
       None \<Rightarrow> Err ReadIncomplete
     | Some new_total \<Rightarrow> total_len_loop ls (i + 1) new_total))"

definition table_set_new :: "Word list \<Rightarrow> (read_error, table_segment_set \<times> Word list) outcome" where
  "table_set_new words =
     obind (map_err (\<lambda>e. Err (Table e)) (try_read words)) (\<lambda>(table, data).
       obind (total_len_loop table 0 0) (\<lambda>total_len.
         if total_len > length data then Err ReadIncomplete
         else Ok (\<lparr>ts_table = table, ts_data = take total_len data\<rparr>, drop total_len data)))"

definition table_set_segment :: "table_segment_set \<Rightarrow> u32 \<Rightarrow> (unit, Word list option) outcome" where
  "table_set_segment s i =
     (if unat i < length (ts_table s) then
        (let segment = ts_table s ! unat i;
             start = sum_list (map unat (take (unat i) (ts_table s))) in
         if start < length (ts_data s) then
           obind (unwrap (segment_len_try_get segment)) (\<lambda>len.
             if start + u29_val len \<le> length (ts_data s)
             then Ok (Some (take (u29_val len) (drop start (ts_data s))))
             else UB)
         else Panic)
      else Ok None)"

definition table_set_size :: "table_segment_set \<Rightarrow> nat" where
  "table_set_size s = length (ts_data s)"

section \<open>Keeping the starts\<close>

type_synonym segment_set_table = "nat list"

definition segment_len_to_usize :: "u32 \<Rightarrow> u32 \<Rightarrow> (read_error, nat) outcome" where
  "segment_len_to_usize len i = (case segment_len_try_get len of
     Some len \<Rightarrow> Ok (u29_val len)
   | None \<Rightarrow> Err (SegmentTooLarge i))"

fun start_idxs_loop :: "u32 list \<Rightarrow> u32 \<Rightarrow> nat \<Rightarrow> nat \<Rightarrow> (read_error, nat list \<times> nat) outcome" where
  "start_idxs_loop [] i current_pos limit = Ok ([], current_pos)"
| "start_idxs_loop (l # ls) i current_pos limit =
     obind (segment_len_to_usize l i) (\<lambda>len.
       case (case usize_checked_add current_pos len of
               Some new \<Rightarrow> if new \<le> limit then Some new else None
             | None \<Rightarrow> None) of
         None \<Rightarrow> Err MessageTooLarge
       | Some new_pos \<Rightarrow>
           obind (start_idxs_loop ls (i + 1) new_pos limit) (\<lambda>(starts, end_pos).
             Ok (current_pos # starts, end_pos)))"

definition from_stream :: "stream_table_ref \<Rightarrow> nat \<Rightarrow> (read_error, segment_set_table \<times> nat) outcome" where
  "from_stream table limit =
     obind (ref_split_first table) (\<lambda>(first, remainder).
       obind (segment_len_to_usize first 0) (\<lambda>current_pos.
         if current_pos > limit then Err MessageTooLarge
         else start_idxs_loop remainder 1 current_pos limit))"

text \<open>The start, and the end unless it is unbounded.\<close>

definition segment_bounds :: "segment_set_table \<Rightarrow> u32 \<Rightarrow> (nat \<times> nat option) option" where
  "segment_bounds table i =
     (let idx = unat i in
      case (if i = 0 then Some 0 else nth_opt table (idx - 1)) of
        None \<Rightarrow> None
      | Some start \<Rightarrow> Some (start, nth_opt table idx))"

definition last_start :: "segment_set_table \<Rightarrow> nat" where
  "last_start table = (if table = [] then 0 else last table)"

record segment_set =
  ss_slice :: "Word list"
  ss_table :: segment_set_table

definition segment_set_new :: "segment_set_table \<Rightarrow> Word list \<Rightarrow> ('e, segment_set) outcome" where
  "segment_set_new table data =
     obind (assert_that (last_start table \<le> length data)) (\<lambda>_. Ok \<lparr>ss_slice = data, ss_table = table\<rparr>)"

definition segment_set_segment :: "segment_set \<Rightarrow> u32 \<Rightarrow> (unit, Word list option) outcome" where
  "segment_set_segment s i = (case segment_bounds (ss_table s) i of
     None \<Rightarrow> Ok None
   | Some (start, end_bound) \<Rightarrow>
       (let end_pos = (case end_bound of Some e \<Rightarrow> e | None \<Rightarrow> length (ss_slice s)) in
        if start \<le> end_pos \<and> end_pos \<le> length (ss_slice s) then
          (let sl = take (end_pos - start) (drop start (ss_slice s)) in
           obind (unwrap (u29_new (of_nat (length sl)))) (\<lambda>len. Ok (Some sl)))
        else Panic))"

definition segment_set_size :: "segment_set \<Rightarrow> nat" where
  "segment_set_size s = length (ss_slice s)"

definition read_from_slice :: "Word list \<Rightarrow> (read_error, segment_set \<times> Word list) outcome" where
  "read_from_slice sl =
     obind (map_err (\<lambda>e. Err (Table e)) (try_read sl)) (\<lambda>(table, content).
       obind (from_stream table (length content)) (\<lambda>(table, message_len).
         if length content < message_len then Err ReadIncomplete
         else Ok (\<lparr>ss_slice = take message_len content, ss_table = table\<rparr>, drop message_len content)))"

section \<open>What the sets hold\<close>

fun split_segments :: "u32 list \<Rightarrow> Word list \<Rightarrow> Word list list" where
  "split_segments [] d = []"
| "split_segments (l # ls) d = take (unat l) d # split_segments ls (drop (unat l) d)"

fun prefix_sums :: "nat \<Rightarrow> u32 list \<Rightarrow> nat list" where
  "prefix_sums p [] = []"
| "prefix_sums p (l # ls) = p # prefix_sums (p + unat l) ls"

definition lens_total :: "u32 list \<Rightarrow> nat" where
  "lens_total ls = sum_list (map unat ls)"

definition lens_ok :: "u32 list \<Rightarrow> bool" where
  "lens_ok ls \<longleftrightarrow> list_all (\<lambda>l. unat l < 2 ^ 29) ls"

lemma lens_simps [simp]:
  "lens_total [] = 0" "lens_total (l # ls) = unat l + lens_total ls"
  "lens_ok []" "lens_ok (l # ls) \<longleftrightarrow> unat l < 2 ^ 29 \<and> lens_ok ls"
  by (simp_all add: lens_total_def lens_ok_def)

lemma try_get_simps [simp]:
  "unat l < 2 ^ 29 \<Longrightarrow> segment_len_try_get l = Some (u29_clip l)"
  "\<not> unat l < 2 ^ 29 \<Longrightarrow> segment_len_try_get l = None"
  by (simp_all add: segment_len_try_get_def u29_new_eq)

lemma u29_clip_val [simp]: "unat l < 2 ^ 29 \<Longrightarrow> u29_val (u29_clip l) = unat l"
  by simp

lemma length_split_segments [simp]: "length (split_segments ls d) = length ls"
  by (induction ls arbitrary: d) auto

lemma length_prefix_sums [simp]: "length (prefix_sums p ls) = length ls"
  by (induction ls arbitrary: p) auto

lemma nth_split_segments:
  "i < length ls \<Longrightarrow>
   split_segments ls d ! i = take (unat (ls ! i)) (drop (lens_total (take i ls)) d)"
proof (induction ls arbitrary: i d)
  case Nil
  then show ?case by simp
next
  case (Cons l ls)
  then show ?case by (cases i) (auto simp: add.commute)
qed

lemma nth_prefix_sums: "i < length ls \<Longrightarrow> prefix_sums p ls ! i = p + lens_total (take i ls)"
proof (induction ls arbitrary: i p)
  case Nil
  then show ?case by simp
next
  case (Cons l ls)
  then show ?case by (cases i) auto
qed

lemma concat_split_segments: "length d = lens_total ls \<Longrightarrow> concat (split_segments ls d) = d"
  by (induction ls arbitrary: d) auto

lemma split_segments_concat:
  "list_all (\<lambda>s. length s < 2 ^ 32) segs \<Longrightarrow> split_segments (segment_lens segs) (concat segs @ rest) = segs"
  by (induction segs) (auto simp: segment_lens_def unat_of_nat take_bit_nat_eq_self)

lemma lens_total_take: "lens_total (take i ls) \<le> lens_total ls"
  by (induction ls arbitrary: i) (auto simp: take_Cons split: nat.splits)

lemma lens_total_take_Suc:
  "i < length ls \<Longrightarrow> lens_total (take (Suc i) ls) = lens_total (take i ls) + unat (ls ! i)"
  by (simp add: take_Suc_conv_app_nth lens_total_def)

lemma lens_total_take_le: "i < length ls \<Longrightarrow> lens_total (take i ls) + unat (ls ! i) \<le> lens_total ls"
  using lens_total_take [of "Suc i" ls] by (simp add: lens_total_take_Suc)

lemma lens_ok_nth: "lens_ok ls \<Longrightarrow> i < length ls \<Longrightarrow> unat (ls ! i) < 2 ^ 29"
  by (simp add: lens_ok_def list_all_length)

lemma total_len_loop_ok:
  "lens_ok ls \<Longrightarrow> p + lens_total ls < 2 ^ 64 \<Longrightarrow> total_len_loop ls i p = Ok (p + lens_total ls)"
  by (induction ls arbitrary: i p) (simp_all add: usize_checked_add_def add.assoc)

lemma total_len_loop_Ok:
  "total_len_loop ls i p = Ok e \<Longrightarrow> lens_ok ls \<and> e = p + lens_total ls"
proof (induction ls arbitrary: i p)
  case Nil
  then show ?case by simp
next
  case (Cons l ls)
  then show ?case
    by (cases "unat l < 2 ^ 29") (auto simp: usize_checked_add_def split: if_splits dest!: Cons.IH)
qed

lemma total_len_loop_safe: "safe (total_len_loop ls i p)"
  by (induction ls arbitrary: i p) (auto split: option.splits)

lemma start_idxs_ok:
  "lens_ok ls \<Longrightarrow> p + lens_total ls \<le> limit \<Longrightarrow> limit < 2 ^ 64 \<Longrightarrow>
   start_idxs_loop ls i p limit = Ok (prefix_sums p ls, p + lens_total ls)"
  by (induction ls arbitrary: i p) (auto simp: segment_len_to_usize_def usize_checked_add_def)

lemma start_idxs_Ok:
  "start_idxs_loop ls i p limit = Ok (T, e) \<Longrightarrow> p \<le> limit \<Longrightarrow>
   lens_ok ls \<and> T = prefix_sums p ls \<and> e = p + lens_total ls \<and> e \<le> limit"
proof (induction ls arbitrary: i p T)
  case Nil
  then show ?case by simp
next
  case (Cons l ls)
  then show ?case
    by (cases "unat l < 2 ^ 29")
       (auto simp: segment_len_to_usize_def usize_checked_add_def obind_Ok_iff
          split: if_splits dest!: Cons.IH)
qed

lemma start_idxs_safe: "safe (start_idxs_loop ls i p limit)"
proof (induction ls arbitrary: i p)
  case Nil
  then show ?case by simp
next
  case (Cons l ls)
  then show ?case
    by (cases "unat l < 2 ^ 29")
       (auto simp: segment_len_to_usize_def safe_obind_iff split: option.splits)
qed

section \<open>\<open>SegmentSet\<close> as a read arena\<close>

definition set_contents :: "segment_set \<Rightarrow> Word list list" where
  "set_contents s = map2 (\<lambda>a b. take (b - a) (drop a (ss_slice s)))
     (0 # ss_table s) (ss_table s @ [length (ss_slice s)])"

definition lens_of_set :: "segment_set \<Rightarrow> u32 list \<Rightarrow> bool" where
  "lens_of_set s ls \<longleftrightarrow> ls \<noteq> [] \<and> length ls < 2 ^ 32 \<and> lens_ok ls \<and>
     ss_table s = prefix_sums (unat (hd ls)) (tl ls) \<and> length (ss_slice s) = lens_total ls"

definition set_valid :: "segment_set \<Rightarrow> bool" where
  "set_valid s \<longleftrightarrow> (\<exists>ls. lens_of_set s ls)"

lemma map2_prefix_sums:
  "map2 (\<lambda>a b. take (b - a) (drop a d)) (p # prefix_sums (p + unat l) ls)
     (prefix_sums (p + unat l) ls @ [p + lens_total (l # ls)]) = split_segments (l # ls) (drop p d)"
proof (induction ls arbitrary: p l)
  case Nil
  then show ?case by simp
next
  case (Cons k ls)
  from Cons [of "p + unat l" k] show ?case by (simp add: add.assoc add.commute)
qed

lemma set_contents_lens: "lens_of_set s ls \<Longrightarrow> set_contents s = split_segments ls (ss_slice s)"
  using map2_prefix_sums [of "ss_slice s" 0 "hd ls" "tl ls"]
  by (cases ls) (simp_all add: lens_of_set_def set_contents_def)

lemma set_bounds:
  assumes "lens_of_set s ls" and "unat i < length ls"
  shows "segment_bounds (ss_table s) i = Some (lens_total (take (unat i) ls),
    if Suc (unat i) < length ls then Some (lens_total (take (Suc (unat i)) ls)) else None)"
proof -
  from assms obtain l ks where ls: "ls = l # ks" and t: "ss_table s = prefix_sums (unat l) ks"
    by (cases ls) (auto simp: lens_of_set_def)
  show ?thesis
  proof (cases "i = 0")
    case True
    then show ?thesis
      by (simp add: segment_bounds_def t ls nth_opt_def nth_prefix_sums)
  next
    case False
    then obtain k where k: "unat i = Suc k" by (metis not0_implies_Suc unat_eq_0)
    with assms(2) False show ?thesis
      by (simp add: segment_bounds_def t ls nth_opt_def nth_prefix_sums)
  qed
qed

lemma set_segment_ok:
  assumes "lens_of_set s ls"
  shows "segment_set_segment s i = Ok (nth_opt (set_contents s) (unat i))"
proof (cases "unat i < length ls")
  case True
  let ?a = "lens_total (take (unat i) ls)" and ?l = "unat (ls ! unat i)"
  have len: "length (ss_slice s) = lens_total ls" using assms by (simp add: lens_of_set_def)
  have e: "(case (if Suc (unat i) < length ls then Some (lens_total (take (Suc (unat i)) ls)) else None) of
      Some e \<Rightarrow> e | None \<Rightarrow> length (ss_slice s)) = ?a + ?l"
  proof (cases "Suc (unat i) < length ls")
    case False
    with True have "take (Suc (unat i)) ls = ls" by simp
    then have "lens_total ls = ?a + ?l" using lens_total_take_Suc [OF True] by simp
    with False show ?thesis by (simp add: len)
  qed (simp add: lens_total_take_Suc True)
  have b: "?a + ?l \<le> length (ss_slice s)" using lens_total_take_le [OF True] by (simp add: len)
  have "lens_ok ls" using assms by (simp add: lens_of_set_def)
  then have "?l < 2 ^ 29" using True by (rule lens_ok_nth)
  moreover have "length (take ?l (drop ?a (ss_slice s))) = ?l" using b by simp
  ultimately have n: "u29_new (of_nat (length (take ?l (drop ?a (ss_slice s))))) \<noteq> None"
    by (simp only:) (simp add: u29_new_eq)
  show ?thesis
    using b n True unfolding segment_set_segment_def set_bounds [OF assms True]
    by (auto simp: e Let_def set_contents_lens [OF assms] nth_opt_def nth_split_segments)
next
  case False
  from assms obtain l ks where ls: "ls = l # ks" and t: "ss_table s = prefix_sums (unat l) ks"
    by (cases ls) (auto simp: lens_of_set_def)
  from False have "i \<noteq> 0" by (auto simp: ls)
  then obtain k where k: "unat i = Suc k" by (metis not0_implies_Suc unat_eq_0)
  from False \<open>i \<noteq> 0\<close> have "segment_bounds (ss_table s) i = None"
    by (simp add: segment_bounds_def t k ls nth_opt_def)
  with False show ?thesis
    by (simp add: segment_set_segment_def set_contents_lens [OF assms] nth_opt_def)
qed

lemma length_set_contents: "length (set_contents s) = Suc (length (ss_table s))"
  by (simp add: set_contents_def)

interpretation set_arena: read_arena segment_set_segment segment_set_size set_valid set_contents
proof unfold_locales
  fix s i assume "set_valid s"
  then obtain ls where ls: "lens_of_set s ls" by (auto simp: set_valid_def)
  then show "length (set_contents s) < 2 ^ 32"
    by (simp add: set_contents_lens [OF ls] lens_of_set_def)
  from ls show "segment_set_segment s i = Ok (nth_opt (set_contents s) (unat i))"
    by (rule set_segment_ok)
  show "segment_set_size s = length (concat (set_contents s))"
    using ls by (simp add: segment_set_size_def set_contents_lens [OF ls] concat_split_segments lens_of_set_def)
qed

lemma from_stream_Ok:
  assumes "from_stream table limit = Ok (T, e)"
  shows "table \<noteq> [] \<and> lens_ok table \<and> T = prefix_sums (unat (hd table)) (tl table) \<and>
    e = lens_total table \<and> e \<le> limit"
proof -
  from assms obtain l ls where t: "table = l # ls"
    by (cases table) (simp_all add: from_stream_def ref_split_first_def)
  with assms show ?thesis
    by (cases "unat l < 2 ^ 29")
       (auto simp: from_stream_def ref_split_first_def segment_len_to_usize_def
          split: if_splits dest!: start_idxs_Ok)
qed

lemma from_stream_ok:
  assumes "table \<noteq> []" "lens_ok table" "lens_total table \<le> limit" "limit < 2 ^ 64"
  shows "from_stream table limit = Ok (prefix_sums (unat (hd table)) (tl table), lens_total table)"
  using assms by (cases table)
    (simp_all add: from_stream_def ref_split_first_def segment_len_to_usize_def start_idxs_ok)

lemma from_stream_safe: "table \<noteq> [] \<Longrightarrow> safe (from_stream table limit)"
  by (cases table)
     (auto simp: from_stream_def ref_split_first_def safe_obind_iff segment_len_to_usize_def start_idxs_safe
        split: option.splits)

lemma read_from_slice_lens:
  assumes "read_from_slice sl = Ok (s, rest)"
  obtains ls where "lens_of_set s ls" "drop (length ls div 2 + 1) sl = ss_slice s @ rest"
    "try_read sl = Ok (ls, ss_slice s @ rest)"
proof -
  from assms obtain ls content where r: "try_read sl = Ok (ls, content)"
    by (auto simp: read_from_slice_def obind_Ok_iff map_err_def split: outcome.splits)
  from assms r obtain T e where f: "from_stream ls (length content) = Ok (T, e)" and
    s: "s = \<lparr>ss_slice = take e content, ss_table = T\<rparr>" "rest = drop e content"
    by (auto simp: read_from_slice_def obind_Ok_iff split: if_splits)
  note f' = from_stream_Ok [OF f] and t = try_read_Ok [OF r]
  have c: "content = ss_slice s @ rest" by (simp add: s)
  show thesis
    by (rule that [of ls]) (use s f' t r c in \<open>auto simp: lens_of_set_def\<close>)
qed

lemma set_last_start:
  assumes "lens_of_set s ls"
  shows "last_start (ss_table s) \<le> length (ss_slice s)"
proof -
  from assms obtain l ks where ls: "ls = l # ks" and t: "ss_table s = prefix_sums (unat l) ks"
    "length (ss_slice s) = lens_total ls" by (cases ls) (auto simp: lens_of_set_def)
  show ?thesis
  proof (cases "ks = []")
    case True
    then show ?thesis by (simp add: last_start_def t)
  next
    case False
    then have "last (prefix_sums (unat l) ks) = unat l + lens_total (take (length ks - 1) ks)"
      by (metis diff_less last_conv_nth length_greater_0_conv length_prefix_sums nth_prefix_sums zero_less_one)
    then show ?thesis
      using lens_total_take [of "length ks - 1" ks] False by (auto simp: last_start_def t ls)
  qed
qed

lemma start_idxs_Err: "start_idxs_loop ls i p limit = Err e \<Longrightarrow> e \<noteq> ReadIncomplete"
proof (induction ls arbitrary: i p)
  case Nil
  then show ?case by simp
next
  case (Cons l ls)
  then show ?case
    by (cases "unat l < 2 ^ 29")
       (auto simp: segment_len_to_usize_def obind_def split: option.splits outcome.splits if_splits)
qed

lemma from_stream_Err: "from_stream table limit = Err e \<Longrightarrow> e \<noteq> ReadIncomplete"
  by (cases table; cases "unat (hd table) < 2 ^ 29")
     (auto simp: from_stream_def ref_split_first_def segment_len_to_usize_def
        split: if_splits dest: start_idxs_Err)

text \<open>C5: parsing a message from any slice of words does not panic, and on success the
  segments it serves, for every segment id and again without a panic, are consecutive and make
  up, with the remainder, the words after the table.\<close>

theorem read_from_slice_partition:
  "case read_from_slice sl of
     Ok (s, rest) \<Rightarrow>
       (\<exists>n. drop n sl = concat (set_contents s) @ rest \<and> n = length (set_contents s) div 2 + 1) \<and>
       (\<forall>i. segment_set_segment s i = Ok (nth_opt (set_contents s) (unat i)))
   | Err e \<Rightarrow> True
   | _ \<Rightarrow> False"
proof (cases "read_from_slice sl")
  case (Ok p)
  obtain s rest where p: "p = (s, rest)" by force
  from read_from_slice_lens [OF Ok [unfolded p]] obtain ls where
    ls: "lens_of_set s ls" "drop (length ls div 2 + 1) sl = ss_slice s @ rest" by metis
  have c: "concat (set_contents s) = ss_slice s" "length (set_contents s) = length ls"
    using ls(1) by (simp_all add: set_contents_lens [OF ls(1)] concat_split_segments lens_of_set_def)
  from Ok p ls(2) c set_segment_ok [OF ls(1)] show ?thesis by simp
next
  case Panic
  then have "\<not> safe (read_from_slice sl)" by simp
  moreover have "safe (read_from_slice sl)"
    using try_read_safe [of sl] from_stream_safe try_read_Ok(1)
    by (cases "try_read sl") (auto simp: read_from_slice_def safe_obind_iff)
  ultimately show ?thesis by blast
next
  case UB
  then have "\<not> safe (read_from_slice sl)" by simp
  moreover have "safe (read_from_slice sl)"
    using try_read_safe [of sl] from_stream_safe try_read_Ok(1)
    by (cases "try_read sl") (auto simp: read_from_slice_def safe_obind_iff)
  ultimately show ?thesis by blast
qed simp

definition message_ok :: "Word list list \<Rightarrow> bool" where
  "message_ok segs \<longleftrightarrow> segments_ok segs \<and> list_all (\<lambda>s. length s < 2 ^ 29) segs"

lemma message_ok_lens:
  assumes "message_ok segs"
  shows "segment_lens segs \<noteq> []" "lens_ok (segment_lens segs)"
    "lens_total (segment_lens segs) = length (concat segs)" "length (segment_lens segs) < 2 ^ 32"
    "split_segments (segment_lens segs) (concat segs @ rest) = segs"
proof -
  have u: "s \<in> set segs \<Longrightarrow> unat (of_nat (length s) :: u32) = length s" for s
    using assms by (auto simp: message_ok_def list_all_iff unat_of_nat take_bit_nat_eq_self)
  show "segment_lens segs \<noteq> []" "length (segment_lens segs) < 2 ^ 32"
    using assms by (auto simp: message_ok_def segments_ok_def segment_lens_def)
  show "lens_ok (segment_lens segs)"
    using assms u by (auto simp: message_ok_def lens_ok_def segment_lens_def list_all_iff)
  show "lens_total (segment_lens segs) = length (concat segs)"
    unfolding lens_total_def segment_lens_def length_concat using u
    by (auto intro!: arg_cong [where f = sum_list])
  show "split_segments (segment_lens segs) (concat segs @ rest) = segs"
    using assms by (intro split_segments_concat) (simp add: message_ok_def segments_ok_def)
qed

lemma read_stream_of_message:
  assumes "message_ok segs" "length (concat segs) \<le> limit" "limit < 2 ^ 64"
  obtains T where "from_stream (segment_lens segs) limit = Ok (T, length (concat segs))"
    "lens_of_set \<lparr>ss_slice = concat segs, ss_table = T\<rparr> (segment_lens segs)"
    "set_contents \<lparr>ss_slice = concat segs, ss_table = T\<rparr> = segs"
proof -
  note m = message_ok_lens [OF assms(1)]
  let ?T = "prefix_sums (unat (hd (segment_lens segs))) (tl (segment_lens segs))"
  let ?s = "\<lparr>ss_slice = concat segs, ss_table = ?T\<rparr>"
  have l: "lens_of_set ?s (segment_lens segs)" using m by (simp add: lens_of_set_def)
  have "set_contents ?s = segs" using set_contents_lens [OF l] m(5) [of "[]"] by simp
  with l show thesis
    using from_stream_ok [OF m(1,2), of limit] assms(2,3) m(3) by (intro that) simp_all
qed

text \<open>C9: the words of a message, its stream table followed by its segments, read back from a
  slice as a set that serves exactly those segments, whatever follows them.\<close>

theorem slice_round_trip:
  assumes "message_ok segs" and "length (concat segs @ rest) < 2 ^ 64"
  shows "\<exists>t table s. from_segments segs = Ok t \<and> table_slice t = Ok table \<and>
    read_from_slice (table @ concat segs @ rest) = Ok (s, rest) \<and>
    (\<forall>i. segment_set_segment s i = Ok (nth_opt segs (unat i)))"
proof -
  from assms(1) have ok: "segments_ok segs" by (simp add: message_ok_def)
  from from_segments_ok [OF ok] obtain t table where
    t: "from_segments segs = Ok t" "table_slice t = Ok table"
    "\<And>rest. try_read (table @ rest) = Ok (segment_lens segs, rest)" by metis
  from read_stream_of_message [OF assms(1), of "length (concat segs @ rest)"] assms(2) obtain T where
    T: "from_stream (segment_lens segs) (length (concat segs @ rest)) = Ok (T, length (concat segs))"
    "lens_of_set \<lparr>ss_slice = concat segs, ss_table = T\<rparr> (segment_lens segs)"
    "set_contents \<lparr>ss_slice = concat segs, ss_table = T\<rparr> = segs" by auto
  have "read_from_slice (table @ concat segs @ rest) = Ok (\<lparr>ss_slice = concat segs, ss_table = T\<rparr>, rest)"
    using T(1) by (simp add: read_from_slice_def t(3) [of "concat segs @ rest", simplified])
  with t T(3) set_segment_ok [OF T(2)] show ?thesis by auto
qed

theorem slice_round_trip_witness:
  "\<exists>t table s. from_segments [[Word 1 0 0 0 0 0 0 0], []] = Ok t \<and> table_slice t = Ok table \<and>
    read_from_slice (table @ concat [[Word 1 0 0 0 0 0 0 0], []] @ [Word_NULL]) = Ok (s, [Word_NULL]) \<and>
    (\<forall>i. segment_set_segment s i = Ok (nth_opt [[Word 1 0 0 0 0 0 0 0], []] (unat i)))"
  by (rule slice_round_trip) (simp_all add: message_ok_def segments_ok_def)

section \<open>\<open>TableSegmentSet\<close> as a read arena\<close>

lemma table_set_new_Ok:
  assumes "table_set_new words = Ok (s, rest)"
  shows "try_read words = Ok (ts_table s, ts_data s @ rest)" "lens_ok (ts_table s)"
    "length (ts_data s) = lens_total (ts_table s)"
proof -
  from assms obtain ls data where r: "try_read words = Ok (ls, data)"
    by (auto simp: table_set_new_def obind_Ok_iff map_err_def split: outcome.splits)
  from assms r obtain e where e: "total_len_loop ls 0 0 = Ok e" "e \<le> length data" and
    s: "s = \<lparr>ts_table = ls, ts_data = take e data\<rparr>" "rest = drop e data"
    by (auto simp: table_set_new_def obind_Ok_iff split: if_splits)
  from total_len_loop_Ok [OF e(1)] e(2) r s
  show "try_read words = Ok (ts_table s, ts_data s @ rest)" "lens_ok (ts_table s)"
    "length (ts_data s) = lens_total (ts_table s)" by auto
qed

definition table_set_contents :: "table_segment_set \<Rightarrow> Word list list" where
  "table_set_contents s = split_segments (ts_table s) (ts_data s)"

lemma table_set_segment_eq:
  assumes "lens_ok (ts_table s)" "length (ts_data s) = lens_total (ts_table s)"
  shows "table_set_segment s i =
    (if unat i < length (ts_table s) \<and> lens_total (take (unat i) (ts_table s)) = length (ts_data s)
     then Panic else Ok (nth_opt (table_set_contents s) (unat i)))"
proof (cases "unat i < length (ts_table s)")
  case True
  let ?a = "lens_total (take (unat i) (ts_table s))" and ?l = "unat (ts_table s ! unat i)"
  have b: "?a + ?l \<le> length (ts_data s)" using lens_total_take_le [OF True] by (simp add: assms)
  have "?l < 2 ^ 29" using assms(1) True by (rule lens_ok_nth)
  then show ?thesis
    using b True
    by (auto simp: table_set_segment_def Let_def lens_total_def [symmetric] nth_opt_def
        table_set_contents_def nth_split_segments)
next
  case False
  then show ?thesis by (simp add: table_set_segment_def nth_opt_def table_set_contents_def)
qed

definition table_set_valid :: "table_segment_set \<Rightarrow> bool" where
  "table_set_valid s \<longleftrightarrow> lens_ok (ts_table s) \<and> length (ts_data s) = lens_total (ts_table s) \<and>
     length (ts_table s) < 2 ^ 32 \<and> (ts_table s = [] \<or> last (ts_table s) \<noteq> 0)"

lemma lens_total_proper:
  "ls \<noteq> [] \<Longrightarrow> last ls \<noteq> 0 \<Longrightarrow> i < length ls \<Longrightarrow> lens_total (take i ls) < lens_total ls"
proof (induction ls arbitrary: i)
  case Nil
  then show ?case by simp
next
  case (Cons l ls)
  show ?case
  proof (cases "ls = []")
    case True
    with Cons.prems show ?thesis by (simp add: unat_gt_0)
  next
    case False
    with Cons.prems Cons.IH [of 0] have "0 < lens_total ls" by simp
    with False Cons show ?thesis by (cases i) auto
  qed
qed

interpretation table_arena: read_arena table_set_segment table_set_size table_set_valid table_set_contents
proof unfold_locales
  fix s and i :: u32 assume v: "table_set_valid s"
  then show "length (table_set_contents s) < 2 ^ 32"
    by (simp add: table_set_contents_def table_set_valid_def)
  have "\<not> (unat i < length (ts_table s) \<and> lens_total (take (unat i) (ts_table s)) = length (ts_data s))"
    using v lens_total_proper [of "ts_table s" "unat i"]
    by (cases "ts_table s = []") (auto simp: table_set_valid_def)
  then show "table_set_segment s i = Ok (nth_opt (table_set_contents s) (unat i))"
    using v table_set_segment_eq [of s i] by (simp add: table_set_valid_def)
  show "table_set_size s = length (concat (table_set_contents s))"
    using v by (simp add: table_set_size_def table_set_contents_def concat_split_segments table_set_valid_def)
qed

text \<open>The two ways to read a slice agree: what \<open>TableSegmentSet::new\<close> accepts,
  \<open>read_from_slice\<close> accepts with the same remainder, and the sets serve the same segments, with
  one exception: for the empty segments at the end of a message \<open>TableSegmentSet\<close> panics.\<close>

lemma slice_readers_agree:
  assumes "table_set_new words = Ok (ts, rest)" and "length words < 2 ^ 64"
  shows "\<exists>s. read_from_slice words = Ok (s, rest) \<and> (\<forall>i.
    if unat i < length (ts_table ts) \<and> list_all (\<lambda>l. l = 0) (drop (unat i) (ts_table ts))
    then table_set_segment ts i = Panic \<and> segment_set_segment s i = Ok (Some [])
    else table_set_segment ts i = segment_set_segment s i)"
proof -
  note t = table_set_new_Ok [OF assms(1)]
  note r = try_read_Ok [OF t(1)]
  have lim: "length (ts_data ts @ rest) < 2 ^ 64" using assms(2) unfolding r(3) by simp
  let ?s = "\<lparr>ss_slice = ts_data ts, ss_table = prefix_sums (unat (hd (ts_table ts))) (tl (ts_table ts))\<rparr>"
  have f: "from_stream (ts_table ts) (length (ts_data ts @ rest)) = Ok (ss_table ?s, length (ts_data ts))"
    using from_stream_ok [OF r(1) t(2) _ lim] t(3) by simp
  have read: "read_from_slice words = Ok (?s, rest)" using f by (simp add: read_from_slice_def t(1))
  have ls: "lens_of_set ?s (ts_table ts)" using r t by (simp add: lens_of_set_def)
  have c: "set_contents ?s = table_set_contents ts"
    by (simp add: set_contents_lens [OF ls] table_set_contents_def)
  have z: "list_all (\<lambda>l. l = 0) (drop n (ts_table ts)) \<longleftrightarrow>
      lens_total (take n (ts_table ts)) = length (ts_data ts)" for n
  proof -
    have "lens_total (ts_table ts) = lens_total (take n (ts_table ts)) + lens_total (drop n (ts_table ts))"
      by (metis append_take_drop_id lens_total_def map_append sum_list_append)
    then show ?thesis
      by (simp add: t(3) lens_total_def [of "drop n _"] list_all_iff unat_eq_0)
  qed
  have "segment_set_segment ?s i = Ok (Some [])"
    if "unat i < length (ts_table ts)" "lens_total (take (unat i) (ts_table ts)) = length (ts_data ts)" for i
    using that lens_total_take_le [OF that(1)]
    by (simp add: set_segment_ok [OF ls] c table_set_contents_def nth_opt_def nth_split_segments t(3))
  with read show ?thesis
    by (auto simp: z table_set_segment_eq [OF t(2,3)] set_segment_ok [OF ls] c intro!: exI [of _ ?s])
qed

lemma slice_readers_agree_witness:
  "table_set_new [Word 1 0 0 0 1 0 0 0, Word_NULL, Word_NULL, Word 7 7 7 7 7 7 7 7] =
     Ok (\<lparr>ts_table = [1, 0], ts_data = [Word_NULL]\<rparr>, [Word 7 7 7 7 7 7 7 7]) \<and>
   table_set_segment \<lparr>ts_table = [1, 0], ts_data = [Word_NULL]\<rparr> 1 = Panic"
proof -
  let ?w = "[Word 1 0 0 0 1 0 0 0, Word_NULL, Word_NULL, Word 7 7 7 7 7 7 7 7]"
  let ?ts = "\<lparr>ts_table = [1, 0], ts_data = [Word_NULL]\<rparr>"
  have n: "table_set_new ?w = Ok (?ts, [Word 7 7 7 7 7 7 7 7])"
    by (simp add: table_set_new_def try_read_eq usize_checked_add_def Word_NULL_def Let_def)
  have "length ?w < 2 ^ 64" by simp
  from slice_readers_agree [OF n this] have "table_set_segment ?ts 1 = Panic"
    by (auto dest: spec [of _ 1])
  with n show ?thesis by simp
qed

end
