(* ===== verification/Message_Io.thy ===== *)
theory Message_Io
  imports Segment_Set
begin

text \<open>
  Reading and writing a whole message in the standard framing (\<^verbatim>\<open>recapn/src/io.rs\<close>:
  \<open>read_from_stream\<close>, \<open>write_message\<close>). The two readers of the file, from a byte stream and
  from a packed stream, run the same steps over different sources of words; the steps are one
  definition with the source's \<open>read_exact\<close> as its argument, and their correctness is proved
  once in the locale of the sources. A \<open>Read\<close> or \<open>Write\<close> instance is modelled by what it will
  do: the bytes it has, or the answers it will give.
\<close>

section \<open>Errors and options\<close>

datatype io_kind = UnexpectedEof | WriteZero | Interrupted | OtherError

datatype stream_error =
    STable table_read_error
  | SSegmentTooLarge u32
  | SMessageTooLarge
  | SIo io_kind

definition map_read_err :: "read_error \<Rightarrow> (stream_error, 'a) outcome" where
  "map_read_err err = (case err of
     Table e \<Rightarrow> Err (STable e)
   | SegmentTooLarge i \<Rightarrow> Err (SSegmentTooLarge i)
   | MessageTooLarge \<Rightarrow> Err SMessageTooLarge
   | ReadIncomplete \<Rightarrow> Panic)"

record stream_options =
  segment_limit :: u32
  read_limit :: nat

definition DEFAULT_OPTIONS :: stream_options where
  "DEFAULT_OPTIONS = \<lparr>segment_limit = 512, read_limit = 8 * 1024 * 1024\<rparr>"

text \<open>
  A reading step returns an outcome with the source it leaves; no result at all means that it
  does not return. \<open>io_then\<close> is the \<open>?\<close> that turns an I/O error into a stream error.
\<close>

type_synonym ('e, 'a, 's) step = "(('e, 'a) outcome \<times> 's) option"

definition io_then :: "(io_kind, 'a, 's) step \<Rightarrow> ('a \<Rightarrow> 's \<Rightarrow> (stream_error, 'b, 's) step) \<Rightarrow>
    (stream_error, 'b, 's) step" where
  "io_then m f = (case m of
     None \<Rightarrow> None
   | Some (Ok x, s) \<Rightarrow> f x s
   | Some (Err e, s) \<Rightarrow> Some (Err (SIo e), s)
   | Some (Panic, s) \<Rightarrow> Some (Panic, s)
   | Some (UB, s) \<Rightarrow> Some (UB, s))"

definition and_then :: "(stream_error, 'a, 's) step \<Rightarrow> ('a \<Rightarrow> 's \<Rightarrow> (stream_error, 'b, 's) step) \<Rightarrow>
    (stream_error, 'b, 's) step" where
  "and_then m f = (case m of
     None \<Rightarrow> None
   | Some (Ok x, s) \<Rightarrow> f x s
   | Some (Err e, s) \<Rightarrow> Some (Err e, s)
   | Some (Panic, s) \<Rightarrow> Some (Panic, s)
   | Some (UB, s) \<Rightarrow> Some (UB, s))"

lemma step_simps [simp, outcome_simps]:
  "io_then (Some (Ok x, s)) f = f x s" "io_then (Some (Err e, s)) f = Some (Err (SIo e), s)"
  "and_then (Some (Ok x, s)) g = g x s" "and_then (Some (Err e', s)) g = Some (Err e', s)"
  by (simp_all add: io_then_def and_then_def)

section \<open>Reading\<close>

definition TABLE_STACK_BUF_LEN :: nat where "TABLE_STACK_BUF_LEN = 32"

text \<open>The buffer for the rest of the table: on the heap, or a prefix of the one on the stack.\<close>

definition table_buffer :: "u32 \<Rightarrow> nat \<Rightarrow> (unit, Word list) outcome" where
  "table_buffer count required =
     (if count > max_table_size_from_len (of_nat TABLE_STACK_BUF_LEN)
      then Ok (replicate (required + 1) Word_NULL)
      else if required + 1 \<le> TABLE_STACK_BUF_LEN then Ok (replicate (required + 1) Word_NULL)
      else Panic)"

definition read_segment_table :: "('s \<Rightarrow> nat \<Rightarrow> (io_kind, Word list, 's) step) \<Rightarrow> 's \<Rightarrow> stream_options \<Rightarrow>
    (stream_error, stream_table_ref, 's) step" where
  "read_segment_table read_exact r options =
     io_then (read_exact r 1) (\<lambda>first r.
       case try_read first of
         Ok (table, _) \<Rightarrow> Some (Ok table, r)
       | Err (Incomplete count required) \<Rightarrow>
           if count \<ge> segment_limit options then Some (Err (STable TooManySegments), r)
           else (case table_buffer count required of
             Ok (_ # rest) \<Rightarrow>
               io_then (read_exact r (length rest)) (\<lambda>rest r.
                 case try_read (first @ rest) of
                   Ok (table, _) \<Rightarrow> Some (Ok table, r)
                 | _ \<Rightarrow> Some (Panic, r))
           | _ \<Rightarrow> Some (Panic, r))
       | Err TooManySegments \<Rightarrow> Some (Err (STable TooManySegments), r)
       | Err Empty \<Rightarrow> Some (Panic, r)
       | Panic \<Rightarrow> Some (Panic, r)
       | UB \<Rightarrow> Some (UB, r))"

definition read_message :: "('s \<Rightarrow> nat \<Rightarrow> (io_kind, Word list, 's) step) \<Rightarrow> 's \<Rightarrow> stream_options \<Rightarrow>
    (stream_error, segment_set, 's) step" where
  "read_message read_exact r options =
     and_then (read_segment_table read_exact r options) (\<lambda>segment_table r.
       and_then (Some (map_err map_read_err (from_stream segment_table (read_limit options)), r))
         (\<lambda>(table, message_len) r.
            io_then (read_exact r message_len) (\<lambda>data r. Some (segment_set_new table data, r))))"

text \<open>A byte stream: the bytes it still has, and the error after them (\<open>UnexpectedEof\<close> at the end
  of a file). \<open>read_exact\<close> into a buffer of words reads eight bytes for each.\<close>

record byte_reader =
  rd_bytes :: "u8 list"
  rd_end :: io_kind

definition read_exact_bytes :: "byte_reader \<Rightarrow> nat \<Rightarrow> (io_kind, Word list, byte_reader) step" where
  "read_exact_bytes r n =
     (if 8 * n \<le> length (rd_bytes r)
      then Some (Ok (bytes_to_words (take (8 * n) (rd_bytes r))), r\<lparr>rd_bytes := drop (8 * n) (rd_bytes r)\<rparr>)
      else Some (Err (rd_end r), r\<lparr>rd_bytes := []\<rparr>))"

definition read_from_stream :: "byte_reader \<Rightarrow> stream_options \<Rightarrow> (stream_error, segment_set, byte_reader) step" where
  "read_from_stream r options = read_message read_exact_bytes r options"

section \<open>Writing\<close>

text \<open>A writer: how it will answer the next calls, by an error or the number of bytes it takes at
  most, and the bytes it has taken. When the answers run out it takes everything.\<close>

record writer =
  answers :: "(io_kind + nat) list"
  taken :: "u8 list"

definition write_vectored :: "writer \<Rightarrow> u8 list list \<Rightarrow> (io_kind, nat) outcome \<times> writer" where
  "write_vectored w bufs = (case answers w of
     [] \<Rightarrow> (Ok (length (concat bufs)), w\<lparr>taken := taken w @ concat bufs\<rparr>)
   | Inl e # as \<Rightarrow> (Err e, w\<lparr>answers := as\<rparr>)
   | Inr n # as \<Rightarrow>
       (let k = min n (length (concat bufs)) in
        (Ok k, \<lparr>answers = as, taken = taken w @ take k (concat bufs)\<rparr>)))"

text \<open>\<open>IoSlice::advance_slices\<close>: drop whole buffers, empty ones too, then advance in the next.\<close>

fun advance_slices :: "u8 list list \<Rightarrow> nat \<Rightarrow> (io_kind, u8 list list) outcome" where
  "advance_slices [] n = (if n = 0 then Ok [] else Panic)"
| "advance_slices (b # bs) n =
     (if length b \<le> n then advance_slices bs (n - length b) else Ok (drop n b # bs))"

lemma advance_slices_ok:
  "n \<le> length (concat bufs) \<Longrightarrow>
   \<exists>bufs'. advance_slices bufs n = Ok bufs' \<and> concat bufs' = drop n (concat bufs) \<and>
     (bufs' = [] \<or> hd bufs' \<noteq> [])"
  by (induction bufs n rule: advance_slices.induct) auto

lemma write_vectored_cases:
  assumes "write_vectored w bufs = (r, w')"
  obtains e where "r = Err e" "taken w' = taken w" "length (answers w') < length (answers w)"
    | n where "r = Ok n" "n \<le> length (concat bufs)" "taken w' = taken w @ take n (concat bufs)"
      "length (answers w') \<le> length (answers w)"
      "answers w = [] \<longrightarrow> n = length (concat bufs)"
  using assms by (cases "answers w")
    (auto simp: write_vectored_def Let_def split: sum.splits)

function write_all_vectored :: "writer \<Rightarrow> u8 list list \<Rightarrow> (io_kind, unit) outcome \<times> writer" where
  "write_all_vectored w bufs =
     (if bufs = [] then (Ok (), w)
      else (case write_vectored w bufs of
        (Ok n, w') \<Rightarrow>
          if n = 0 then (Err WriteZero, w')
          else (case advance_slices bufs n of
            Ok bufs' \<Rightarrow> write_all_vectored w' bufs'
          | _ \<Rightarrow> (Panic, w'))
      | (Err e, w') \<Rightarrow> if e = Interrupted then write_all_vectored w' bufs else (Err e, w')
      | (_, w') \<Rightarrow> (Panic, w')))"
  by pat_completeness auto
termination write_all_vectored
proof (relation "measure (\<lambda>(w, bufs). length (answers w) + length (concat bufs))")
  fix w bufs x w' n bufs'
  assume "(x, w') = write_vectored w bufs" "x = Ok n" "n \<noteq> 0" "advance_slices bufs n = Ok bufs'"
  then have "write_vectored w bufs = (Ok n, w')" "n \<noteq> 0" "advance_slices bufs n = Ok bufs'" by auto
  then show "((w', bufs'), (w, bufs)) \<in> measure (\<lambda>(w, bufs). length (answers w) + length (concat bufs))"
    using advance_slices_ok [of n bufs] by (cases rule: write_vectored_cases) auto
next
  fix w bufs x w' e
  assume "(x, w') = write_vectored w bufs" "x = Err e"
  then have "write_vectored w bufs = (Err e, w')" by simp
  then show "((w', bufs), (w, bufs)) \<in> measure (\<lambda>(w, bufs). length (answers w) + length (concat bufs))"
    by (cases rule: write_vectored_cases) auto
qed simp

declare write_all_vectored.simps [simp del]

text \<open>\<open>Write::write_all\<close>: the same loop over one buffer.\<close>

definition write_all :: "writer \<Rightarrow> u8 list \<Rightarrow> (io_kind, unit) outcome \<times> writer" where
  "write_all w buf = write_all_vectored w (if buf = [] then [] else [buf])"

definition write_message :: "writer \<Rightarrow> Word list list \<Rightarrow> (io_kind, unit) outcome \<times> writer" where
  "write_message w segments =
     (case obind (from_segments segments) as_bytes of
        Ok stream_table \<Rightarrow>
          (case advance_slices (stream_table # map slice_to_bytes segments) 0 of
             Ok bufs \<Rightarrow> write_all_vectored w bufs
           | _ \<Rightarrow> (Panic, w))
      | _ \<Rightarrow> (Panic, w))"

section \<open>What is written\<close>

definition willing :: "writer \<Rightarrow> bool" where
  "willing w \<longleftrightarrow> list_all (\<lambda>a. case a of Inl e \<Rightarrow> e = Interrupted | Inr n \<Rightarrow> 0 < n) (answers w)"

text \<open>The outcome of writing all of \<open>m\<close>: a prefix of it is taken, all of it on success.\<close>

definition wrote :: "u8 list \<Rightarrow> writer \<Rightarrow> (io_kind, unit) outcome \<times> writer \<Rightarrow> bool" where
  "wrote m w res \<longleftrightarrow> (case res of (r, w') \<Rightarrow>
     (\<exists>k \<le> length m. taken w' = taken w @ take k m \<and> (r = Ok () \<longrightarrow> k = length m)) \<and> safe r \<and>
     (willing w \<longrightarrow> r = Ok () \<and> willing w'))"

lemma wrote_step:
  assumes "wrote (drop n m) w' res" "taken w' = taken w @ take n m" "n \<le> length m"
    "willing w \<longrightarrow> willing w'"
  shows "wrote m w res"
proof -
  obtain r w'' where res: "res = (r, w'')" by force
  from assms(1) res obtain k where k: "k \<le> length (drop n m)" "taken w'' = taken w' @ take k (drop n m)"
    "r = Ok () \<longrightarrow> k = length (drop n m)" "safe r" "willing w' \<longrightarrow> r = Ok () \<and> willing w''"
    by (auto simp: wrote_def)
  have "taken w'' = taken w @ take (n + k) m" using k(2) assms(2) by (simp add: take_add)
  moreover have "n + k \<le> length m" "r = Ok () \<longrightarrow> n + k = length m" using k(1,3) assms(3) by auto
  ultimately show ?thesis using k(4,5) assms(4) res unfolding wrote_def by auto
qed

lemma write_all_vectored_done: "write_all_vectored w [] = (Ok (), w)"
  by (simp add: write_all_vectored.simps)

lemma write_all_vectored_wrote:
  "bufs = [] \<or> hd bufs \<noteq> [] \<Longrightarrow> wrote (concat bufs) w (write_all_vectored w bufs)"
proof (induction w bufs rule: write_all_vectored.induct)
  case (1 w bufs)
  show ?case
  proof (cases "bufs = []")
    case True
    then show ?thesis by (simp add: write_all_vectored_done wrote_def)
  next
    case False
    with 1(3) have ne: "concat bufs \<noteq> []" by (cases bufs) auto
    obtain r w' where v: "write_vectored w bufs = (r, w')" by force
    then show ?thesis
    proof (cases rule: write_vectored_cases)
      case (1 e)
      have will: "willing w \<longrightarrow> e = Interrupted \<and> willing w'"
        using v 1(1) by (auto simp: write_vectored_def willing_def Let_def split: list.split_asm sum.split_asm)
      show ?thesis
      proof (cases "e = Interrupted")
        case True
        from "1.IH"(2) [OF False v [symmetric] 1(1) True] \<open>bufs = [] \<or> hd bufs \<noteq> []\<close>
        have "wrote (concat bufs) w' (write_all_vectored w' bufs)" by simp
        then have "wrote (drop 0 (concat bufs)) w' (write_all_vectored w' bufs)" by simp
        then have "wrote (concat bufs) w (write_all_vectored w' bufs)"
          by (rule wrote_step) (use 1 will in simp_all)
        with v 1 True False show ?thesis by (subst write_all_vectored.simps) simp
      next
        case ne: False
        with v 1 False will show ?thesis
          by (subst write_all_vectored.simps) (auto simp: wrote_def intro: exI [of _ 0])
      qed
    next
      case (2 n)
      have will: "willing w \<longrightarrow> 0 < n \<and> willing w'"
        using v 2(1) ne by (auto simp: write_vectored_def willing_def Let_def split: list.split_asm sum.split_asm)
      show ?thesis
      proof (cases "n = 0")
        case True
        with v 2 False will show ?thesis
          by (subst write_all_vectored.simps) (auto simp: wrote_def intro: exI [of _ 0])
      next
        case pos: False
        from advance_slices_ok [OF 2(2)] obtain bufs' where
          b: "advance_slices bufs n = Ok bufs'" "concat bufs' = drop n (concat bufs)" "bufs' = [] \<or> hd bufs' \<noteq> []"
          by blast
        from "1.IH"(1) [OF False v [symmetric] 2(1) pos b(1,3)]
        have "wrote (drop n (concat bufs)) w' (write_all_vectored w' bufs')" by (simp add: b(2))
        then have "wrote (concat bufs) w (write_all_vectored w' bufs')"
          by (rule wrote_step) (use 2 will in simp_all)
        with v 2 pos False b(1) show ?thesis by (subst write_all_vectored.simps) simp
      qed
    qed
  qed
qed

lemma write_all_wrote: "wrote buf w (write_all w buf)"
  using write_all_vectored_wrote [of "if buf = [] then [] else [buf]" w] by (auto simp: write_all_def)

text \<open>The bytes of a message in the standard framing.\<close>

definition table_words :: "Word list list \<Rightarrow> Word list" where
  "table_words segs = (case obind (from_segments segs) table_slice of Ok s \<Rightarrow> s | _ \<Rightarrow> [])"

lemma table_wordsE:
  assumes "segments_ok segs"
  obtains t where "from_segments segs = Ok t" "table_slice t = Ok (table_words segs)"
    "length (table_words segs) = length segs div 2 + 1"
    "\<And>rest. try_read (table_words segs @ rest) = Ok (segment_lens segs, rest)"
proof -
  from from_segments_ok [OF assms] obtain t s where
    "from_segments segs = Ok t" "table_slice t = Ok s" "length s = unat (table_size_of segs)"
    "\<And>rest. try_read (s @ rest) = Ok (segment_lens segs, rest)" by metis
  moreover from this have "s = table_words segs" by (simp add: table_words_def)
  ultimately show thesis using that assms by (simp add: unat_table_size_of)
qed

lemma write_message_wrote:
  assumes "segments_ok segs"
  shows "wrote (slice_to_bytes (table_words segs @ concat segs)) w (write_message w segs)"
proof -
  from table_wordsE [OF assms] obtain t where
    t: "from_segments segs = Ok t" "table_slice t = Ok (table_words segs)" by metis
  let ?bufs = "slice_to_bytes (table_words segs) # map slice_to_bytes segs"
  have "concat (map slice_to_bytes segs) = slice_to_bytes (concat segs)" by (induction segs) simp_all
  then have c: "concat ?bufs = slice_to_bytes (table_words segs @ concat segs)" by simp
  from advance_slices_ok [of 0 ?bufs] obtain bufs' where
    b: "advance_slices ?bufs 0 = Ok bufs'" "concat bufs' = concat ?bufs" "bufs' = [] \<or> hd bufs' \<noteq> []"
    by auto
  from t b(1) have "write_message w segs = write_all_vectored w bufs'"
    by (simp add: write_message_def as_bytes_def)
  with write_all_vectored_wrote [OF b(3), of w] b(2) c show ?thesis by simp
qed

text \<open>Writing a message makes the writer take a prefix of the stream table and the segments
  in order, all of it when it reports success, and it succeeds on a writer that only ever
  interrupts or takes too little; it never panics.\<close>

lemma write_message_bytes:
  assumes "segments_ok segs"
  shows "wrote (slice_to_bytes (table_words segs @ concat segs)) w (write_message w segs)"
  using assms by (rule write_message_wrote)

lemma write_message_bytes_witness:
  "wrote (slice_to_bytes (table_words [[Word_NULL]] @ concat [[Word_NULL]]))
     \<lparr>answers = [Inr 3, Inl Interrupted], taken = []\<rparr>
     (write_message \<lparr>answers = [Inr 3, Inl Interrupted], taken = []\<rparr> [[Word_NULL]])"
  by (rule write_message_bytes) (simp add: segments_ok_def)

section \<open>Reading back\<close>

text \<open>
  What the steps of a reader rely on in a source of words: \<open>read_exact\<close> returns, without a
  panic, and with as many words as it was asked for; and a source that \<open>has\<close> given blocks of
  words delivers them to the reads of their lengths.
\<close>

locale word_source =
  fixes read_exact :: "'s \<Rightarrow> nat \<Rightarrow> (io_kind, Word list, 's) step"
    and inv :: "'s \<Rightarrow> bool"
    and has :: "'s \<Rightarrow> Word list list \<Rightarrow> bool"
  assumes reads: "inv s \<Longrightarrow> \<exists>r s'. read_exact s n = Some (r, s') \<and> inv s' \<and> safe r \<and>
      (\<forall>ws. r = Ok ws \<longrightarrow> length ws = n)"
    and delivers: "inv s \<Longrightarrow> has s (b # bs) \<Longrightarrow>
      \<exists>s'. read_exact s (length b) = Some (Ok b, s') \<and> inv s' \<and> has s' bs"

definition message_blocks :: "Word list list \<Rightarrow> Word list list" where
  "message_blocks segs = (case table_words segs of
     [] \<Rightarrow> []
   | t # ts \<Rightarrow> [t] # (if ts = [] then [] else [ts]) @ [concat segs])"

text \<open>The limits a message must respect; a table of one word is not checked.\<close>

definition within_limits :: "stream_options \<Rightarrow> Word list list \<Rightarrow> bool" where
  "within_limits options segs \<longleftrightarrow>
     (length segs = 1 \<or> length segs < unat (segment_limit options)) \<and>
     length (concat segs) \<le> read_limit options \<and> read_limit options < 2 ^ 64"

definition good_table :: "(stream_error, stream_table_ref) outcome \<Rightarrow> bool" where
  "good_table r \<longleftrightarrow> safe r \<and> (\<forall>t. r = Ok t \<longrightarrow> t \<noteq> [] \<and> length t < 2 ^ 32)"

lemma max_table_32: "max_table_size_from_len (of_nat TABLE_STACK_BUF_LEN) = 63"
  by (simp add: max_table_size_from_len_def TABLE_STACK_BUF_LEN_def checked_mul_def checked_sub_def
      table_size_from_count_def)

lemma table_buffer_ok:
  assumes "required = unat count div 2"
  shows "table_buffer count required = Ok (replicate (Suc required) Word_NULL)"
proof (cases "count > 63")
  case True
  then show ?thesis by (simp add: table_buffer_def max_table_32)
next
  case False
  then have "unat count \<le> 63" by (simp add: word_less_nat_alt)
  then have "required \<le> 31" using assms by simp
  then show ?thesis by (simp add: table_buffer_def max_table_32 TABLE_STACK_BUF_LEN_def)
qed

lemma try_read_incomplete:
  assumes "try_read [w] = Err (Incomplete c req)"
  shows "req = unat c div 2" "length ws = req \<Longrightarrow> \<exists>t. try_read (w # ws) = Ok (t, [])"
proof -
  obtain lo hi where w: "word_u32s w = [lo, hi]" by (cases w) simp
  have lt: "unat lo < 2 ^ 32" using unsigned_less [of lo, where ?'a = nat] by simp
  have c: "c = of_nat (unat lo + 1)" "unat lo \<noteq> 2 ^ 32 - 1" "req = (unat lo + 1) div 2"
    using assms w by (auto simp: try_read_eq Let_def split: if_splits)
  have "unat c = unat lo + 1"
    using lt c(2) by (simp add: c(1) unat_of_nat take_bit_nat_eq_self del: of_nat_add of_nat_Suc)
  with c show "req = unat c div 2" by simp
  show "length ws = req \<Longrightarrow> \<exists>t. try_read (w # ws) = Ok (t, [])"
    using c w by (simp add: try_read_eq Let_def)
qed

context word_source
begin

lemma read_segment_table_safe:
  assumes "inv s"
  shows "\<exists>r s'. read_segment_table read_exact s options = Some (r, s') \<and> inv s' \<and> good_table r"
proof -
  from reads [OF assms, of 1] obtain r s1 where
    r: "read_exact s 1 = Some (r, s1)" "inv s1" "safe r" "\<forall>ws. r = Ok ws \<longrightarrow> length ws = 1" by blast
  show ?thesis
  proof (cases r)
    case (Ok first)
    with r obtain w where first: "first = [w]" by (cases first) auto
    show ?thesis
    proof (cases "try_read [w]")
      case ok: (Ok p)
      then show ?thesis
        using r Ok first try_read_Ok [of "[w]"]
        by (cases p) (auto simp: read_segment_table_def good_table_def)
    next
      case err: (Err e)
      show ?thesis
      proof (cases e)
        case (Incomplete c req)
        note inc = try_read_incomplete [OF err [unfolded Incomplete]]
        from reads [OF r(2), of req] obtain r2 s2 where
          r2: "read_exact s1 req = Some (r2, s2)" "inv s2" "safe r2" "\<forall>ws. r2 = Ok ws \<longrightarrow> length ws = req"
          by blast
        show ?thesis
        proof (cases r2)
          case ok2: (Ok rest)
          with r2 inc(2) [of rest] obtain t where t: "try_read (w # rest) = Ok (t, [])" by auto
          from try_read_Ok [OF this] t ok2 r2 r Ok first err Incomplete table_buffer_ok [OF inc(1)]
          show ?thesis by (auto simp: read_segment_table_def good_table_def)
        qed (use r2 r Ok first err Incomplete table_buffer_ok [OF inc(1)] in
              \<open>auto simp: read_segment_table_def good_table_def\<close>)
      qed (use err r Ok first in \<open>auto simp: read_segment_table_def good_table_def try_read_eq Let_def split: if_splits\<close>)
    qed (use try_read_safe [of "[w]"] in auto)
  qed (use r in \<open>auto simp: read_segment_table_def good_table_def\<close>)
qed

lemma read_message_safe:
  assumes "inv s"
  shows "\<exists>r s'. read_message read_exact s options = Some (r, s') \<and> inv s' \<and> safe r \<and>
    (\<forall>set. r = Ok set \<longrightarrow> set_valid set)"
proof -
  from read_segment_table_safe [OF assms] obtain r s1 where
    r: "read_segment_table read_exact s options = Some (r, s1)" "inv s1" "good_table r" by blast
  show ?thesis
  proof (cases r)
    case (Ok t)
    with r(3) have t: "t \<noteq> []" "length t < 2 ^ 32" by (simp_all add: good_table_def)
    show ?thesis
    proof (cases "from_stream t (read_limit options)")
      case f: (Ok p)
      obtain T len where p: "p = (T, len)" by force
      note f' = from_stream_Ok [OF f [unfolded p]]
      from reads [OF r(2), of len] obtain r2 s2 where
        r2: "read_exact s1 len = Some (r2, s2)" "inv s2" "safe r2" "\<forall>ws. r2 = Ok ws \<longrightarrow> length ws = len"
        by blast
      show ?thesis
      proof (cases r2)
        case d: (Ok data)
        then have ls: "lens_of_set \<lparr>ss_slice = data, ss_table = T\<rparr> t"
          using f' t r2(4) by (simp add: lens_of_set_def)
        have "last_start T \<le> length data"
          using ls set_last_start [OF ls] by simp
        with ls d r2 f p r Ok show ?thesis
          by (auto simp: read_message_def segment_set_new_def set_valid_def)
      qed (use r2 f p r Ok in \<open>auto simp: read_message_def\<close>)
    next
      case (Err e)
      then have "e \<noteq> ReadIncomplete" by (rule from_stream_Err)
      with Err r Ok show ?thesis by (cases e) (auto simp: read_message_def map_read_err_def)
    qed (use from_stream_safe [OF t(1), of "read_limit options"] in auto)
  qed (use r in \<open>auto simp: read_message_def good_table_def\<close>)
qed

lemma read_message_delivers:
  assumes "inv s" "has s (message_blocks segs @ later)" "message_ok segs" "within_limits options segs"
  shows "\<exists>set s'. read_message read_exact s options = Some (Ok set, s') \<and> inv s' \<and> has s' later \<and>
    set_valid set \<and> set_contents set = segs"
proof -
  have ok: "segments_ok segs" using assms(3) by (simp add: message_ok_def)
  from table_wordsE [OF ok] have
    tw: "length (table_words segs) = length segs div 2 + 1"
    "\<And>rest. try_read (table_words segs @ rest) = Ok (segment_lens segs, rest)" by metis+
  from tw(1) obtain w ws where w: "table_words segs = w # ws" by (cases "table_words segs") auto
  have read: "try_read (w # ws) = Ok (segment_lens segs, [])" using tw(2) [of "[]"] by (simp add: w)
  note first = try_read_first_word [OF read]
  have "\<exists>s1. read_segment_table read_exact s options = Some (Ok (segment_lens segs), s1) \<and> inv s1 \<and>
      has s1 (concat segs # later)"
  proof (cases "ws = []")
    case True
    with assms(2) w have "has s ([w] # concat segs # later)" by (simp add: message_blocks_def)
    from delivers [OF assms(1) this] first True show ?thesis
      by (auto simp: read_segment_table_def)
  next
    case False
    with assms(2) w have "has s ([w] # ws # concat segs # later)" by (simp add: message_blocks_def)
    from delivers [OF assms(1) this] obtain s1 where
      s1: "read_exact s 1 = Some (Ok [w], s1)" "inv s1" "has s1 (ws # concat segs # later)" by auto
    from delivers [OF s1(2,3)] obtain s2 where
      s2: "read_exact s1 (length ws) = Some (Ok ws, s2)" "inv s2" "has s2 (concat segs # later)" by blast
    have n: "length (segment_lens segs) = length segs" by (simp add: segment_lens_def)
    have lt: "length segs < 2 ^ 32" using ok by (simp add: segments_ok_def)
    have "length segs \<noteq> 1" using False tw(1) w by auto
    then have c: "\<not> segment_limit options \<le> of_nat (length segs)"
      using assms(4) lt by (simp add: within_limits_def word_le_nat_alt unat_of_nat take_bit_nat_eq_self)
    have inc: "try_read [w] = Err (Incomplete (of_nat (length segs)) (length ws))"
      using first False n by simp
    from table_buffer_ok [OF try_read_incomplete(1) [OF inc]] s1 s2 inc c read show ?thesis
      by (auto simp: read_segment_table_def)
  qed
  then obtain s1 where s1: "read_segment_table read_exact s options = Some (Ok (segment_lens segs), s1)"
    "inv s1" "has s1 (concat segs # later)" by blast
  from delivers [OF s1(2,3)] obtain s2 where
    s2: "read_exact s1 (length (concat segs)) = Some (Ok (concat segs), s2)" "inv s2" "has s2 later" by blast
  from read_stream_of_message [OF assms(3), of "read_limit options"] assms(4) obtain T where
    T: "from_stream (segment_lens segs) (read_limit options) = Ok (T, length (concat segs))"
    "lens_of_set \<lparr>ss_slice = concat segs, ss_table = T\<rparr> (segment_lens segs)"
    "set_contents \<lparr>ss_slice = concat segs, ss_table = T\<rparr> = segs" by (auto simp: within_limits_def)
  have "last_start T \<le> length (concat segs)" using set_last_start [OF T(2)] by simp
  with s1 s2 T show ?thesis
    by (auto simp: read_message_def segment_set_new_def set_valid_def)
qed

end

definition bytes_has :: "u8 list \<Rightarrow> byte_reader \<Rightarrow> Word list list \<Rightarrow> bool" where
  "bytes_has rest r bs \<longleftrightarrow> rd_bytes r = slice_to_bytes (concat bs) @ rest"

interpretation byte_source: word_source read_exact_bytes "\<lambda>_. True" "bytes_has rest" for rest
proof unfold_locales
  fix r :: byte_reader and n
  show "\<exists>o' r'. read_exact_bytes r n = Some (o', r') \<and> True \<and> safe o' \<and> (\<forall>ws. o' = Ok ws \<longrightarrow> length ws = n)"
    by (simp add: read_exact_bytes_def)
next
  fix r b bs assume "bytes_has rest r (b # bs)"
  then show "\<exists>r'. read_exact_bytes r (length b) = Some (Ok b, r') \<and> True \<and> bytes_has rest r' bs"
    by (auto simp: bytes_has_def read_exact_bytes_def)
qed

text \<open>C7: reading a message from any byte stream with any limits returns without a panic, and a set
  it returns is valid: each of its segments can be asked for.\<close>

theorem read_from_stream_safe:
  "\<exists>r rd'. read_from_stream rd options = Some (r, rd') \<and>
     (case r of Ok st \<Rightarrow> \<forall>i. segment_set_segment st i = Ok (nth_opt (set_contents st) (unat i))
      | Err e \<Rightarrow> True | _ \<Rightarrow> False)"
proof -
  from byte_source.read_message_safe [of rd options] obtain r rd' where
    r: "read_from_stream rd options = Some (r, rd')" "safe r" "\<forall>set. r = Ok set \<longrightarrow> set_valid set"
    by (auto simp: read_from_stream_def)
  then show ?thesis
    by (cases r) (auto simp: set_arena.segment_lookup)
qed

text \<open>C3: the bytes \<open>write_message\<close> writes read back with \<open>read_from_stream\<close> as the segments of
  the message, and the stream is left at what followed them.\<close>

theorem stream_round_trip:
  assumes "message_ok segs" and "within_limits options segs" and "willing w" and "taken w = []"
  shows "\<exists>w' set rd'. write_message w segs = (Ok (), w') \<and>
    read_from_stream \<lparr>rd_bytes = taken w' @ rest, rd_end = e\<rparr> options = Some (Ok set, rd') \<and>
    set_contents set = segs \<and> rd_bytes rd' = rest"
proof -
  have ok: "segments_ok segs" using assms(1) by (simp add: message_ok_def)
  obtain r w' where w: "write_message w segs = (r, w')" by force
  with write_message_wrote [OF ok, of w] assms(3,4) have
    w': "r = Ok ()" "taken w' = slice_to_bytes (table_words segs @ concat segs)"
    by (auto simp: wrote_def)
  let ?rd = "\<lparr>rd_bytes = taken w' @ rest, rd_end = e\<rparr>"
  have "concat (message_blocks segs) = table_words segs @ concat segs"
  proof -
    from table_wordsE [OF ok] have "length (table_words segs) = length segs div 2 + 1" by metis
    then show ?thesis by (cases "table_words segs") (auto simp: message_blocks_def)
  qed
  then have "bytes_has rest ?rd (message_blocks segs @ [])" by (simp add: bytes_has_def w'(2))
  from byte_source.read_message_delivers [OF _ this assms(1,2)] w w' show ?thesis
    by (auto simp: read_from_stream_def bytes_has_def)
qed

theorem stream_round_trip_witness:
  "\<exists>w' set rd'. write_message \<lparr>answers = [Inr 3], taken = []\<rparr> [[Word 1 0 0 0 0 0 0 0], []] = (Ok (), w') \<and>
    read_from_stream \<lparr>rd_bytes = taken w' @ [9], rd_end = UnexpectedEof\<rparr> DEFAULT_OPTIONS = Some (Ok set, rd') \<and>
    set_contents set = [[Word 1 0 0 0 0 0 0 0], []] \<and> rd_bytes rd' = [9]"
  by (rule stream_round_trip)
     (simp_all add: message_ok_def segments_ok_def within_limits_def willing_def DEFAULT_OPTIONS_def)

end
