(* ===== verification/Packed_Stream.thy ===== *)
theory Packed_Stream
  imports Unpacking_Correct Message_Io
begin

text \<open>
  Reading and writing a message in the packed encoding (\<^verbatim>\<open>recapn/src/io.rs\<close>: \<open>PackedStream\<close>,
  \<open>read_from_packed_stream\<close>, \<open>write_message_packed\<close>). A \<open>BufRead\<close> is the list of what its
  buffer will be filled with, or the error it will return; an empty buffer is the end of it.
  The loops of the stream are partial functions: that they return is part of what is proved.
\<close>

type_synonym bufread = "(io_kind + u8 list) list"

definition fill_buf :: "bufread \<Rightarrow> (io_kind, u8 list) outcome \<times> bufread" where
  "fill_buf st = (case st of
     [] \<Rightarrow> (Ok [], [])
   | Inl e # st' \<Rightarrow> (Err e, st')
   | Inr buf # st' \<Rightarrow> (Ok buf, st))"

definition consume :: "bufread \<Rightarrow> nat \<Rightarrow> bufread" where
  "consume st n = (case st of
     Inr buf # st' \<Rightarrow> if n < length buf then Inr (drop n buf) # st' else st'
   | _ \<Rightarrow> st)"

record packed_stream =
  unpacker :: unpacker
  stream :: bufread

definition packed_new :: "bufread \<Rightarrow> packed_stream" where
  "packed_new st = \<lparr>unpacker = None, stream = st\<rparr>"

text \<open>\<open>Unpacker::finish\<close> with its error mapped to an I/O error.\<close>

definition finish_kind :: "io_kind \<Rightarrow> unpacker \<Rightarrow> (io_kind, unit) outcome" where
  "finish_kind k u = map_err (\<lambda>_. Err k) (unpacker_finish u)"

text \<open>\<open>PackedStream::read\<close> into the words of \<open>buf_out\<close>: the words written at its start.\<close>

partial_function (option) packed_read :: "packed_stream \<Rightarrow> Word list \<Rightarrow>
    (io_kind, Word list, packed_stream) step" where
  "packed_read ps buf_out =
     (if buf_out = [] then Some (Ok [], ps)
      else (case fill_buf (stream ps) of
        (Ok buf, st) \<Rightarrow>
          if buf = [] then
            Some (obind (finish_kind UnexpectedEof (unpacker ps)) (\<lambda>_. Ok []), ps\<lparr>stream := st\<rparr>)
          else (case unpack (unpacker ps) buf buf_out of
            Ok (u, result, ws) \<Rightarrow>
              if reason result = NeedInput \<and> words_written result = 0
              then packed_read \<lparr>unpacker = u, stream = consume st (bytes_read result)\<rparr> buf_out
              else Some (Ok ws, \<lparr>unpacker = u, stream = consume st (bytes_read result)\<rparr>)
          | _ \<Rightarrow> Some (Panic, ps))
      | (Err e, st) \<Rightarrow> Some (Err e, ps\<lparr>stream := st\<rparr>)
      | (_, st) \<Rightarrow> Some (Panic, ps)))"

text \<open>The loop of \<open>read_exact\<close>, with the words read so far; the output starts out null.\<close>

partial_function (option) read_exact_loop :: "packed_stream \<Rightarrow> Word list \<Rightarrow> Word list \<Rightarrow>
    (io_kind, Word list, packed_stream) step" where
  "read_exact_loop ps buf_out acc =
     (if buf_out = [] then Some (Ok acc, ps)
      else Option.bind (packed_read ps buf_out) (\<lambda>(r, ps').
        case r of
          Ok ws \<Rightarrow>
            if ws = [] then Some (Err UnexpectedEof, ps')
            else read_exact_loop ps' (drop (length ws) buf_out) (acc @ ws)
        | Err e \<Rightarrow> if e = Interrupted then read_exact_loop ps' buf_out acc else Some (Err e, ps')
        | Panic \<Rightarrow> Some (Panic, ps')
        | UB \<Rightarrow> Some (UB, ps')))"

definition packed_read_exact :: "packed_stream \<Rightarrow> nat \<Rightarrow> (io_kind, Word list, packed_stream) step" where
  "packed_read_exact ps n = read_exact_loop ps (replicate n Word_NULL) []"

partial_function (option) packed_finish :: "packed_stream \<Rightarrow> (io_kind, unit, packed_stream) step" where
  "packed_finish ps = (case fill_buf (stream ps) of
     (Ok buf, st) \<Rightarrow>
       if buf = [] then Some (finish_kind UnexpectedEof (unpacker ps), ps\<lparr>stream := st\<rparr>)
       else (case unpack (unpacker ps) buf [] of
         Ok (u, result, ws) \<Rightarrow>
           if reason result = NeedInput
           then packed_finish \<lparr>unpacker = u, stream = consume st (bytes_read result)\<rparr>
           else Some (finish_kind WriteZero u, \<lparr>unpacker = u, stream = consume st (bytes_read result)\<rparr>)
       | _ \<Rightarrow> Some (Panic, ps))
   | (Err e, st) \<Rightarrow> Some (Err e, ps\<lparr>stream := st\<rparr>)
   | (_, st) \<Rightarrow> Some (Panic, ps))"

definition read_with_packed_stream :: "packed_stream \<Rightarrow> stream_options \<Rightarrow>
    (stream_error, segment_set, packed_stream) step" where
  "read_with_packed_stream ps options = read_message packed_read_exact ps options"

definition read_from_packed_stream :: "bufread \<Rightarrow> stream_options \<Rightarrow>
    (stream_error, segment_set, packed_stream) step" where
  "read_from_packed_stream st options =
     and_then (read_with_packed_stream (packed_new st) options) (\<lambda>msg packed.
       io_then (packed_finish packed) (\<lambda>_ packed. Some (Ok msg, packed)))"

section \<open>Writing\<close>

lemma pack_pending_less:
  assumes "pack p 256 = (p', r, bs)" "\<not> completed r"
  shows "length (pending p') < length (pending p)"
proof -
  have "bs \<noteq> []" using pack_ok(5) [OF assms(1,2)] by (simp add: MIN_BUF_def)
  with pack_ok(1) [OF assms(1)] show ?thesis by simp
qed

text \<open>The loop over the buffer of 256 bytes for one segment.\<close>

function pack_segment :: "writer \<Rightarrow> packer \<Rightarrow> (io_kind, unit) outcome \<times> writer" where
  "pack_segment w p = (case pack p 256 of (p', result, buffer) \<Rightarrow>
     case write_all w buffer of
       (Ok _, w') \<Rightarrow> if completed result then (Ok (), w') else pack_segment w' p'
     | (r, w') \<Rightarrow> (r, w'))"
  by pat_completeness auto
termination pack_segment
  by (relation "measure (\<lambda>(w, p). length (pending p))") (auto intro: pack_pending_less [OF sym])

declare pack_segment.simps [simp del]

fun pack_segments :: "writer \<Rightarrow> Word list list \<Rightarrow> (io_kind, unit) outcome \<times> writer" where
  "pack_segments w [] = (Ok (), w)"
| "pack_segments w (s # ss) = (case pack_segment w (packer_new s) of
     (Ok _, w') \<Rightarrow> pack_segments w' ss
   | (r, w') \<Rightarrow> (r, w'))"

definition write_message_packed :: "writer \<Rightarrow> Word list list \<Rightarrow> (io_kind, unit) outcome \<times> writer" where
  "write_message_packed w segments =
     (case obind (from_segments segments) table_slice of
        Ok stream_table \<Rightarrow> pack_segments w (stream_table # segments)
      | _ \<Rightarrow> (Panic, w))"

section \<open>The stream as a source of words\<close>

definition ev_bytes :: "bufread \<Rightarrow> u8 list" where
  "ev_bytes st = concat (map (case_sum (\<lambda>_. []) (\<lambda>b. b)) st)"

definition ev_ok :: "bool \<Rightarrow> bufread \<Rightarrow> bool" where
  "ev_ok k st \<longleftrightarrow> list_all (case_sum (\<lambda>e. k \<and> e = Interrupted) (\<lambda>b. b \<noteq> [])) st"

definition ev_size :: "bufread \<Rightarrow> nat" where
  "ev_size st = length st + length (ev_bytes st)"

lemma ev_simps [simp]:
  "ev_bytes [] = []" "ev_bytes (Inl e # st) = ev_bytes st" "ev_bytes (Inr b # st) = b @ ev_bytes st"
  "ev_ok k []" "ev_ok k (Inl e # st) \<longleftrightarrow> k \<and> e = Interrupted \<and> ev_ok k st" "ev_ok k (Inr b # st) \<longleftrightarrow> b \<noteq> [] \<and> ev_ok k st"
  by (simp_all add: ev_bytes_def ev_ok_def)

lemma consume_simps:
  assumes "n \<le> length b"
  shows "ev_bytes (consume (Inr b # st) n) = drop n b @ ev_bytes st"
    "ev_ok k (Inr b # st) \<Longrightarrow> ev_ok k (consume (Inr b # st) n)"
    "0 < n \<Longrightarrow> ev_size (consume (Inr b # st) n) < ev_size (Inr b # st)"
    "ev_size (consume (Inr b # st) n) \<le> ev_size (Inr b # st)"
  using assms by (auto simp: consume_def ev_size_def)

lemma fill_buf_cases:
  obtains (eof) "st = [] \<or> (\<exists>st'. st = Inr [] # st')" "fill_buf st = (Ok [], st)"
  | (error) e st' where "st = Inl e # st'" "fill_buf st = (Err e, st')"
  | (data) buf st' where "st = Inr buf # st'" "buf \<noteq> []" "fill_buf st = (Ok buf, st)"
proof (cases st)
  case Nil
  then show thesis by (intro eof) (simp_all add: fill_buf_def)
next
  case (Cons a st')
  show thesis
  proof (cases a)
    case (Inl e)
    with Cons show thesis by (intro error [of e st']) (simp_all add: fill_buf_def)
  next
    case (Inr buf)
    show thesis
    proof (cases "buf = []")
      case True
      with Cons Inr show thesis by (intro eof) (simp_all add: fill_buf_def)
    next
      case False
      with Cons Inr show thesis by (intro data [of buf st']) (simp_all add: fill_buf_def)
    qed
  qed
qed

lemma finish_kind_safe: "safe (finish_kind k u)" "finish_kind k u = Err e \<Longrightarrow> e = k"
  by (auto simp: finish_kind_def unpacker_finish_def map_err_def
      split: option.splits incomplete_state.splits)

lemma packed_read_data:
  assumes "buf_out \<noteq> []" "fill_buf (stream ps) = (Ok buf, st)" "buf \<noteq> []"
    and "unpack (unpacker ps) buf buf_out = Ok (u, result, ws)"
  shows "packed_read ps buf_out =
    (if reason result = NeedInput \<and> words_written result = 0
     then packed_read \<lparr>unpacker = u, stream = consume st (bytes_read result)\<rparr> buf_out
     else Some (Ok ws, \<lparr>unpacker = u, stream = consume st (bytes_read result)\<rparr>))"
  by (subst packed_read.simps) (simp only: assms prod.case outcome.case if_False)

text \<open>Any stream: a read returns, without a panic.\<close>

definition read_ok :: "packed_stream \<Rightarrow> nat \<Rightarrow> (io_kind, Word list, packed_stream) step \<Rightarrow> bool" where
  "read_ok ps n m \<longleftrightarrow> (case m of None \<Rightarrow> False | Some (r, ps') \<Rightarrow>
     unpacker_ok (unpacker ps') \<and> safe r \<and> ev_size (stream ps') \<le> ev_size (stream ps) \<and>
     (r = Err Interrupted \<longrightarrow> ev_size (stream ps') < ev_size (stream ps)) \<and>
     (\<forall>ws. r = Ok ws \<longrightarrow> length ws \<le> n))"

lemma read_ok_mono:
  "read_ok ps' n m \<Longrightarrow> ev_size (stream ps') \<le> ev_size (stream ps) \<Longrightarrow> read_ok ps n m"
  by (auto simp: read_ok_def split: option.splits)

lemma packed_read_ok:
  "unpacker_ok (unpacker ps) \<Longrightarrow> 0 < n \<Longrightarrow> read_ok ps n (packed_read ps (replicate n Word_NULL))"
proof (induction "ev_size (stream ps)" arbitrary: ps rule: less_induct)
  case less
  have ne: "replicate n Word_NULL \<noteq> []" using less.prems by simp
  show ?case
  proof (cases rule: fill_buf_cases [of "stream ps"])
    case eof
    have "obind (finish_kind UnexpectedEof (unpacker ps)) (\<lambda>_. Ok []) \<noteq> (Err Interrupted :: (io_kind, Word list) outcome)"
      using finish_kind_safe(2) [of UnexpectedEof "unpacker ps" Interrupted]
      by (cases "finish_kind UnexpectedEof (unpacker ps)") auto
    with eof ne less.prems finish_kind_safe(1) [of UnexpectedEof "unpacker ps"] show ?thesis
      by (subst packed_read.simps) (auto simp: read_ok_def safe_obind_iff obind_Ok_iff)
  next
    case (error e st')
    with ne less.prems show ?thesis
      by (subst packed_read.simps) (auto simp: read_ok_def ev_size_def)
  next
    case (data buf st')
    from unpack_with_input [OF less.prems(1) disjI1 [OF less.prems(2)] data(2)] obtain u r ws where
      u: "unpack (unpacker ps) buf (replicate n Word_NULL) = Ok (u, r, ws)"
      "unpack_post (unpacker ps) buf n (Ok (u, r, ws))" by metis
    from u(2) have p: "unpacker_ok u" "bytes_read r \<le> length buf" "words_written r = length ws"
      "length ws \<le> n" "reason r = NeedInput \<longrightarrow> bytes_read r = length buf"
      by (auto simp: unpack_post_def split: if_splits)
    note c = consume_simps [OF p(2), where st = st']
    let ?ps = "\<lparr>unpacker = u, stream = consume (stream ps) (bytes_read r)\<rparr>"
    show ?thesis
    proof (cases "reason r = NeedInput \<and> words_written r = 0")
      case True
      with p data(2) have "0 < bytes_read r" by simp
      with c data(1) have l: "ev_size (stream ?ps) < ev_size (stream ps)" by simp
      have "read_ok ps n (packed_read ?ps (replicate n Word_NULL))"
        by (rule read_ok_mono [of ?ps, rotated]) (use less.hyps [OF l] p less.prems l in simp_all)
      then show ?thesis unfolding packed_read_data [OF ne data(3,2) u(1)] using True by (simp only: simp_thms if_True)
    next
      case False
      then have "packed_read ps (replicate n Word_NULL) = Some (Ok ws, ?ps)"
        unfolding packed_read_data [OF ne data(3,2) u(1)] by (simp only: simp_thms if_False)
      with p c(4) data(1) show ?thesis by (simp add: read_ok_def)
    qed
  qed
qed

lemma read_exact_loop_ok:
  "unpacker_ok (unpacker ps) \<Longrightarrow>
   \<exists>r ps'. read_exact_loop ps (replicate n Word_NULL) acc = Some (r, ps') \<and> unpacker_ok (unpacker ps') \<and>
     safe r \<and> (\<forall>ws. r = Ok ws \<longrightarrow> length ws = length acc + n)"
proof (induction "n + ev_size (stream ps)" arbitrary: ps n acc rule: less_induct)
  case less
  show ?case
  proof (cases "n = 0")
    case True
    then show ?thesis using less.prems by (subst read_exact_loop.simps) simp
  next
    case False
    then have ne: "replicate n Word_NULL \<noteq> []" by simp
    from packed_read_ok [OF less.prems, of n] False obtain r ps' where
      r: "packed_read ps (replicate n Word_NULL) = Some (r, ps')" and
      ok: "unpacker_ok (unpacker ps')" "safe r" "ev_size (stream ps') \<le> ev_size (stream ps)"
      "r = Err Interrupted \<longrightarrow> ev_size (stream ps') < ev_size (stream ps)" "\<forall>ws. r = Ok ws \<longrightarrow> length ws \<le> n"
      by (auto simp: read_ok_def split: option.splits)
    show ?thesis
    proof (cases r)
      case (Ok ws)
      show ?thesis
      proof (cases "ws = []")
        case True
        with ne r Ok ok show ?thesis by (subst read_exact_loop.simps) simp
      next
        case nw: False
        with ok Ok have "n - length ws + ev_size (stream ps') < n + ev_size (stream ps)"
          by (cases ws) auto
        from less.hyps [OF this ok(1), of "acc @ ws"] ne r Ok nw ok(5) show ?thesis
          by (subst read_exact_loop.simps) (auto simp: drop_replicate)
      qed
    next
      case (Err e)
      show ?thesis
      proof (cases "e = Interrupted")
        case True
        with ok Err have "n + ev_size (stream ps') < n + ev_size (stream ps)" by simp
        from less.hyps [OF this ok(1), of acc] ne r Err True show ?thesis
          by (subst read_exact_loop.simps) simp
      next
        case False
        with ne r Err ok show ?thesis by (subst read_exact_loop.simps) simp
      qed
    qed (use ok in simp_all)
  qed
qed

text \<open>
  The stream still holds the packed form of the words \<open>x\<close>: those the unpacker owes and those
  the automaton yields for the bytes to come, which end between words.
\<close>

definition pinv :: "bool \<Rightarrow> packed_stream \<Rightarrow> Word list \<Rightarrow> bool" where
  "pinv k ps x \<longleftrightarrow> unpacker_ok (unpacker ps) \<and> ev_ok k (stream ps) \<and>
     (\<exists>v. drun (absd (unpacker ps)) (ev_bytes (stream ps)) = (DReady, v) \<and> owed (unpacker ps) @ v = x)"

definition live :: "packed_stream \<Rightarrow> bool" where
  "live ps \<longleftrightarrow> owed (unpacker ps) = [] \<or> ev_bytes (stream ps) \<noteq> []"

definition delivers_some :: "bool \<Rightarrow> nat \<Rightarrow> Word list \<Rightarrow> packed_stream \<Rightarrow> (io_kind, Word list, packed_stream) step \<Rightarrow> bool" where
  "delivers_some k n x ps m \<longleftrightarrow> (case m of
     Some (Err e, ps') \<Rightarrow> e = Interrupted \<and> pinv k ps' x \<and> live ps' \<and> ev_size (stream ps') < ev_size (stream ps)
   | Some (Ok ws, ps') \<Rightarrow> ws \<noteq> [] \<and> length ws \<le> n \<and> ev_size (stream ps') \<le> ev_size (stream ps) \<and>
       (\<exists>x'. x = ws @ x' \<and> pinv k ps' x') \<and> (length ws < n \<longrightarrow> live ps')
   | _ \<Rightarrow> False)"

lemma pinv_unpack:
  assumes "pinv k ps x" "stream ps = Inr buf # st" "unpack_post (unpacker ps) buf n (Ok (u, r, ws))"
  shows "\<exists>x'. x = ws @ x' \<and> pinv k \<lparr>unpacker = u, stream = consume (stream ps) (bytes_read r)\<rparr> x'"
proof -
  let ?u = "unpacker ps" and ?c = "consume (stream ps) (bytes_read r)"
  from assms(3) have p: "unpacker_ok u" "bytes_read r \<le> length buf"
    "feeds (owed ?u) (absd ?u) (take (bytes_read r) buf) ws (owed u) (absd u)"
    by (auto simp: unpack_post_def)
  from assms(1) obtain v where v: "drun (absd ?u) (ev_bytes (stream ps)) = (DReady, v)" "owed ?u @ v = x"
    and e: "ev_ok k (stream ps)" by (auto simp: pinv_def)
  note c = consume_simps [OF p(2), where st = st]
  obtain o1 where o1: "drun (absd ?u) (take (bytes_read r) buf) = (absd u, o1)" "owed ?u @ o1 = ws @ owed u"
    using p(3) by (cases "drun (absd ?u) (take (bytes_read r) buf)") (auto simp: feeds_def)
  have split: "ev_bytes (stream ps) = take (bytes_read r) buf @ ev_bytes ?c"
    using c(1) by (simp add: assms(2))
  obtain d2 o2 where o2: "drun (absd u) (ev_bytes ?c) = (d2, o2)" by force
  with v(1) o1(1) have "d2 = DReady" "v = o1 @ o2" unfolding split drun_append by simp_all
  with v(2) o1(2) have "x = ws @ (owed u @ o2)" by (metis append.assoc)
  moreover have "ev_ok k ?c" using c(2) e by (simp add: assms(2))
  ultimately show ?thesis using p(1) o2 \<open>d2 = DReady\<close> unfolding pinv_def by auto
qed

lemma packed_read_delivers:
  "pinv k ps x \<Longrightarrow> live ps \<Longrightarrow> 0 < n \<Longrightarrow> n \<le> length x \<Longrightarrow>
   delivers_some k n x ps (packed_read ps (replicate n Word_NULL))"
proof (induction "ev_size (stream ps)" arbitrary: ps rule: less_induct)
  case less
  have ne: "replicate n Word_NULL \<noteq> []" using less.prems by simp
  have ok: "unpacker_ok (unpacker ps)" using less.prems(1) by (simp add: pinv_def)
  show ?case
  proof (cases rule: fill_buf_cases [of "stream ps"])
    case eof
    with less.prems have "x = []" by (auto simp: pinv_def live_def)
    with less.prems show ?thesis by simp
  next
    case (error e st')
    with less.prems(1,2) have "e = Interrupted" "pinv k (ps\<lparr>stream := st'\<rparr>) x" "live (ps\<lparr>stream := st'\<rparr>)"
      by (auto simp: pinv_def live_def)
    with error ne show ?thesis
      by (subst packed_read.simps) (simp add: delivers_some_def ev_size_def)
  next
    case (data buf st')
    from unpack_with_input [OF ok disjI1 [OF less.prems(3)] data(2)] obtain u r ws where
      u: "unpack (unpacker ps) buf (replicate n Word_NULL) = Ok (u, r, ws)"
      "unpack_post (unpacker ps) buf n (Ok (u, r, ws))" "reason r = NeedInput \<longrightarrow> owed u = []" by metis
    from u(2) have p: "bytes_read r \<le> length buf" "words_written r = length ws" "length ws \<le> n"
      "reason r = NeedInput \<longrightarrow> bytes_read r = length buf" "reason r \<noteq> NeedInput \<longrightarrow> length ws = n"
      by (auto simp: unpack_post_def split: if_splits)
    note c = consume_simps [OF p(1), where st = st']
    let ?ps = "\<lparr>unpacker = u, stream = consume (stream ps) (bytes_read r)\<rparr>"
    from pinv_unpack [OF less.prems(1) data(1) u(2)] obtain x' where x': "x = ws @ x'" "pinv k ?ps x'" by blast
    show ?thesis
    proof (cases "reason r = NeedInput \<and> words_written r = 0")
      case True
      with p data(2) have "0 < bytes_read r" by simp
      with c data(1) have l: "ev_size (stream ?ps) < ev_size (stream ps)" by simp
      have "pinv k ?ps x" "live ?ps" using True x' p(2) u(3) by (simp_all add: live_def)
      from less.hyps [OF l this less.prems(3,4)] l
      have "delivers_some k n x ps (packed_read ?ps (replicate n Word_NULL))"
        by (auto simp: delivers_some_def split: option.splits outcome.splits)
      then show ?thesis unfolding packed_read_data [OF ne data(3,2) u(1)] using True by (simp only: simp_thms if_True)
    next
      case False
      then have read: "packed_read ps (replicate n Word_NULL) = Some (Ok ws, ?ps)"
        unfolding packed_read_data [OF ne data(3,2) u(1)] by (simp only: simp_thms if_False)
      have "ws \<noteq> []" using False p(2,5) less.prems(3) by auto
      moreover have "length ws < n \<longrightarrow> live ?ps" using p(5) u(3) by (auto simp: live_def)
      ultimately show ?thesis
        unfolding read using p(3) x' c(4) data(1) by (auto simp: delivers_some_def)
    qed
  qed
qed

lemma read_exact_loop_delivers:
  "pinv k ps (b @ y) \<Longrightarrow> b \<noteq> [] \<longrightarrow> live ps \<Longrightarrow>
   \<exists>ps'. read_exact_loop ps (replicate (length b) Word_NULL) acc = Some (Ok (acc @ b), ps') \<and> pinv k ps' y"
proof (induction "length b + ev_size (stream ps)" arbitrary: ps b acc rule: less_induct)
  case less
  show ?case
  proof (cases "b = []")
    case True
    then show ?thesis using less.prems by (subst read_exact_loop.simps) simp
  next
    case False
    then have ne: "replicate (length b) Word_NULL \<noteq> []" by simp
    have "delivers_some k (length b) (b @ y) ps (packed_read ps (replicate (length b) Word_NULL))"
      by (rule packed_read_delivers) (use less.prems False in simp_all)
    then obtain r ps' where r: "packed_read ps (replicate (length b) Word_NULL) = Some (r, ps')"
      "delivers_some k (length b) (b @ y) ps (Some (r, ps'))"
      by (auto simp: delivers_some_def split: option.splits)
    show ?thesis
    proof (cases r)
      case (Ok ws)
      with r(2) obtain x' where ws: "ws \<noteq> []" "length ws \<le> length b" "b @ y = ws @ x'" "pinv k ps' x'"
        "length ws < length b \<longrightarrow> live ps'" "ev_size (stream ps') \<le> ev_size (stream ps)"
        by (auto simp: delivers_some_def)
      define b' where "b' = drop (length ws) b"
      have "take (length ws) (b @ y) = ws" using ws(3) by simp
      then have b1: "b = ws @ b'"
        unfolding b'_def using ws(2) by (metis append_take_drop_id diff_is_0_eq take0 take_append append_Nil2)
      then have b: "b = ws @ b'" "x' = b' @ y" using ws(3) by (simp_all add: append.assoc)
      have "length b' + ev_size (stream ps') < length b + ev_size (stream ps)"
      proof -
        have "0 < length ws" using ws(1) by simp
        moreover have "length b = length ws + length b'" by (subst b(1)) simp
        ultimately show ?thesis using ws(6) by linarith
      qed
      from less.hyps [OF this, of "acc @ ws"] ws(4,5) b obtain ps'' where
        "read_exact_loop ps' (replicate (length b') Word_NULL) (acc @ ws) = Some (Ok ((acc @ ws) @ b'), ps'')"
        "pinv k ps'' y" by auto
      with ne r(1) Ok ws(1) b(1) show ?thesis
        by (subst read_exact_loop.simps) (simp add: drop_replicate)
    next
      case (Err e)
      with r(2) have e: "e = Interrupted" "pinv k ps' (b @ y)" "live ps'"
        "ev_size (stream ps') < ev_size (stream ps)" by (simp_all add: delivers_some_def)
      from less.hyps [of b ps' acc] e ne r(1) Err show ?thesis
        by (subst read_exact_loop.simps) simp
    qed (use r(2) in \<open>simp_all add: delivers_some_def\<close>)
  qed
qed

text \<open>
  A read can only start inside a run of null words if the run does not end the stream. So the
  blocks that are read in turn must each have a non-null word in them or after them.
\<close>

fun blocks_ok :: "Word list list \<Rightarrow> bool" where
  "blocks_ok [] = True"
| "blocks_ok (b # bs) = ((b = [] \<or> list_ex (\<lambda>w. w \<noteq> Word_NULL) (concat (b # bs))) \<and> blocks_ok bs)"

definition packed_has :: "bool \<Rightarrow> packed_stream \<Rightarrow> Word list list \<Rightarrow> bool" where
  "packed_has k ps bs \<longleftrightarrow> pinv k ps (concat bs) \<and> blocks_ok bs"

lemma owed_null: "w \<in> set (owed u) \<Longrightarrow> w = Word_NULL"
  by (auto simp: owed_def split: option.splits incomplete_state.splits)

lemma pinv_live:
  assumes "pinv k ps x" "list_ex (\<lambda>w. w \<noteq> Word_NULL) x"
  shows "live ps"
proof (rule ccontr)
  assume "\<not> live ps"
  with assms(1) have "x = owed (unpacker ps)" by (auto simp: pinv_def live_def)
  with assms(2) owed_null [of _ "unpacker ps"] show False by (auto simp: list_ex_iff)
qed

interpretation packed_source: word_source packed_read_exact "\<lambda>ps. unpacker_ok (unpacker ps)" "packed_has k" for k
proof unfold_locales
  fix ps :: packed_stream and n assume "unpacker_ok (unpacker ps)"
  from read_exact_loop_ok [OF this, of n "[]"]
  show "\<exists>r ps'. packed_read_exact ps n = Some (r, ps') \<and> unpacker_ok (unpacker ps') \<and> safe r \<and>
      (\<forall>ws. r = Ok ws \<longrightarrow> length ws = n)"
    by (simp add: packed_read_exact_def)
next
  fix ps b bs assume h: "packed_has k ps (b # bs)"
  then have p: "pinv k ps (b @ concat bs)" by (simp add: packed_has_def)
  have "b \<noteq> [] \<longrightarrow> live ps" using h pinv_live [OF p] by (auto simp: packed_has_def)
  from read_exact_loop_delivers [OF p this, of "[]"] h
  show "\<exists>ps'. packed_read_exact ps (length b) = Some (Ok b, ps') \<and> unpacker_ok (unpacker ps') \<and> packed_has k ps' bs"
    by (auto simp: packed_read_exact_def packed_has_def pinv_def)
qed

section \<open>Finishing\<close>

lemma raw_not_ready: "drun (DRaw n acc) bs \<noteq> (DReady, [])"
  by (induction bs arbitrary: n acc) (auto split: prod.splits simp: raw_def)

lemma full_not_ready: "drun (DFull acc) bs \<noteq> (DReady, [])"
  by (induction bs arbitrary: acc) (auto split: prod.splits)

lemma tagged_emits: "snd (tagged t acc) = [] \<Longrightarrow> \<exists>t' acc'. tagged t acc = (DTagged t' acc', [])"
proof (induction t acc rule: tagged.induct)
  case (1 t acc)
  show ?case
  proof (cases "t = 0")
    case True
    with 1 show ?thesis by (simp add: tagged_zero)
  next
    case False
    show ?thesis
    proof (cases "t AND 1 = 0")
      case True
      with 1 False show ?thesis by (simp add: tagged_even)
    next
      case odd: False
      then show ?thesis by (simp add: tagged_odd)
    qed
  qed
qed

lemma tagged_not_ready: "drun (DTagged t acc) bs \<noteq> (DReady, [])"
proof (induction bs arbitrary: t acc)
  case Nil
  then show ?case by simp
next
  case (Cons b bs)
  show ?case
  proof
    assume run: "drun (DTagged t acc) (b # bs) = (DReady, [])"
    obtain d o1 where s: "tagged (drop_bit 1 t) (acc @ [b]) = (d, o1)" by force
    with run have "o1 = []" "drun d bs = (DReady, [])" by (auto split: prod.splits)
    with tagged_emits [of "drop_bit 1 t" "acc @ [b]"] s obtain t' acc' where "d = DTagged t' acc'" by auto
    with Cons \<open>drun d bs = (DReady, [])\<close> show False by simp
  qed
qed

lemma ready_cases:
  assumes "drun d bs = (DReady, [])"
  shows "d = DReady \<and> bs = [] \<or> (d = DNulls \<or> d = DCount) \<and> bs = [0]"
proof -
  have ready: "drun DReady cs = (DReady, []) \<Longrightarrow> cs = []" for cs
  proof (cases cs)
    case (Cons c cs')
    assume run: "drun DReady cs = (DReady, [])"
    obtain d1 o1 where s: "dstep DReady c = (d1, o1)" by force
    with run Cons have o1: "o1 = []" "drun d1 cs' = (DReady, [])" by (auto simp del: dstep.simps split: prod.splits)
    show ?thesis
    proof (cases "c = 0xff")
      case True
      with s have "d1 = DFull []" by simp
      with o1(2) full_not_ready [of "[]" cs'] show ?thesis by simp
    next
      case False
      have "c \<noteq> 0" using s o1(1) by auto
      with False s o1(1) have "tagged c [] = (d1, [])" by simp
      then obtain t acc where "d1 = DTagged t acc" using tagged_emits [of c "[]"] by auto
      with o1(2) tagged_not_ready [of t acc cs'] show ?thesis by simp
    qed
  qed simp
  show ?thesis
  proof (cases d)
    case DReady
    with assms ready [of bs] show ?thesis by simp
  next
    case (DTagged t acc)
    with assms tagged_not_ready [of t acc bs] show ?thesis by simp
  next
    case (DFull acc)
    with assms full_not_ready [of acc bs] show ?thesis by simp
  next
    case DNulls
    with assms obtain b cs where bs: "bs = b # cs" by (cases bs) auto
    with assms DNulls have "replicate (unat b) Word_NULL = []" "drun DReady cs = (DReady, [])"
      by (auto split: prod.splits)
    with bs DNulls ready show ?thesis by (simp add: unsigned_eq_0_iff)
  next
    case DCount
    with assms obtain b cs where bs: "bs = b # cs" by (cases bs) auto
    with assms DCount have run: "drun (raw (unat b)) cs = (DReady, [])" by (auto split: prod.splits)
    with raw_not_ready [of "unat b" "[]" cs] have "b = 0" by (auto simp: raw_def unsigned_eq_0_iff split: if_splits)
    with run bs DCount ready show ?thesis by (simp add: raw_def)
  next
    case (DRaw n acc)
    with assms raw_not_ready [of n acc bs] show ?thesis by simp
  qed
qed

lemma finished_state:
  assumes "unpacker_ok u" "absd u = DReady" "owed u = []"
  shows "u = None"
proof (cases u)
  case (Some i)
  with assms show ?thesis
    by (cases i) (auto simp: unpacker_ok_def absd_def owed_def raw_def split: option.splits if_splits)
qed

lemma unpack_loop_empty: "src c = [] \<Longrightarrow> unpack_loop c = Ok (None, NeedInput, c)"
  by (simp add: unpack_loop.simps [of c])

lemma unpack_count_zero:
  "unpack (Some NeedNullCount) [0] [] = Ok (None, \<lparr>bytes_read = 1, words_written = 0, reason = NeedInput\<rparr>, [])"
  "unpack (Some NeedUncompressedCount) [0] [] =
     Ok (None, \<lparr>bytes_read = 1, words_written = 0, reason = NeedInput\<rparr>, [])"
  by (simp_all add: unpack_def unpack_inner_def resume_def write_nulls_def write_uncompressed_def
      unpack_loop_empty Let_def)

lemma no_errors_cases:
  assumes "ev_ok False st"
  obtains "st = []" | b st' where "st = Inr b # st'" "b \<noteq> []" "ev_ok False st'"
proof (cases st)
  case (Cons a st')
  with assms that show thesis by (cases a) auto
qed (rule that)

lemma no_errors_nonempty:
  assumes "ev_ok False st" "ev_bytes st = c # cs"
  obtains b st' where "st = Inr b # st'" "b \<noteq> []" "ev_ok False st'" "b @ ev_bytes st' = c # cs"
  using assms(2) by (cases rule: no_errors_cases [OF assms(1)]) auto

lemma no_errors_empty: "ev_ok False st \<Longrightarrow> ev_bytes st = [] \<Longrightarrow> st = []"
  by (erule no_errors_cases) simp_all

lemma packed_finish_ok:
  assumes "pinv False ps []"
  shows "packed_finish ps = Some (Ok (), \<lparr>unpacker = None, stream = []\<rparr>)"
proof -
  let ?u = "unpacker ps"
  from assms have ok: "unpacker_ok ?u" "ev_ok False (stream ps)" "owed ?u = []"
    "drun (absd ?u) (ev_bytes (stream ps)) = (DReady, [])" by (auto simp: pinv_def)
  have fin: "packed_finish \<lparr>unpacker = None, stream = []\<rparr> = Some (Ok (), \<lparr>unpacker = None, stream = []\<rparr>)"
    by (subst packed_finish.simps) (simp add: fill_buf_def finish_kind_def unpacker_finish_def)
  from ready_cases [OF ok(4)] show ?thesis
  proof
    assume r: "absd ?u = DReady \<and> ev_bytes (stream ps) = []"
    then have "?u = None" using finished_state ok by blast
    moreover have "stream ps = []"
      using no_errors_empty [OF ok(2)] r by blast
    ultimately have "ps = \<lparr>unpacker = None, stream = []\<rparr>" by (cases ps) simp
    with fin show ?thesis by simp
  next
    assume r: "(absd ?u = DNulls \<or> absd ?u = DCount) \<and> ev_bytes (stream ps) = [0]"
    from no_errors_nonempty [OF ok(2) conjunct2 [OF r]] obtain buf st where
      st: "stream ps = Inr buf # st" "buf \<noteq> []" "ev_ok False st" "buf @ ev_bytes st = [0]" by blast
    then have b: "buf = [0]" "ev_bytes st = []" by (simp_all add: append_eq_Cons_conv)
    have "st = []" using no_errors_empty [OF st(3)] b(2) by blast
    have "?u = Some NeedNullCount \<or> ?u = Some NeedUncompressedCount"
      using r by (auto simp: absd_def raw_def split: option.splits incomplete_state.splits if_splits)
    then have u: "unpack ?u [0] [] = Ok (None, \<lparr>bytes_read = 1, words_written = 0, reason = NeedInput\<rparr>, [])"
      by (auto simp: unpack_count_zero)
    have c: "consume (stream ps) (Suc 0) = []" using st b \<open>st = []\<close> by (simp add: consume_def)
    have f: "fill_buf (stream ps) = (Ok [0], stream ps)" using st b by (simp add: fill_buf_def)
    show ?thesis
      by (subst packed_finish.simps) (simp add: f u c fin)
  qed
qed

section \<open>Packed messages\<close>

lemma wrote_append:
  assumes "wrote m1 w (r1, w1)" "r1 = Ok () \<Longrightarrow> wrote m2 w1 res" "r1 \<noteq> Ok () \<Longrightarrow> res = (r1, w1)"
  shows "wrote (m1 @ m2) w res"
proof -
  from assms(1) obtain k where k: "k \<le> length m1" "taken w1 = taken w @ take k m1"
    "r1 = Ok () \<longrightarrow> k = length m1" "safe r1" "willing w \<longrightarrow> r1 = Ok () \<and> willing w1"
    by (auto simp: wrote_def)
  show ?thesis
  proof (cases "r1 = Ok ()")
    case True
    with k have t: "taken w1 = taken w @ take (length m1) (m1 @ m2)" by simp
    have "wrote (drop (length m1) (m1 @ m2)) w1 res" using assms(2) True by simp
    then show ?thesis by (rule wrote_step) (use t k True in simp_all)
  next
    case False
    with assms(3) have "res = (r1, w1)" by blast
    with k False show ?thesis by (auto simp: wrote_def intro!: exI [of _ k])
  qed
qed

lemma pack_segment_wrote: "wrote (pending p) w (pack_segment w p)"
proof (induction w p rule: pack_segment.induct)
  case (1 w p)
  obtain p' result buffer where p: "pack p 256 = (p', result, buffer)" by (cases "pack p 256") auto
  obtain r w' where r: "write_all w buffer = (r, w')" by force
  note ok = pack_ok [OF p]
  have w: "wrote buffer w (r, w')" using write_all_wrote [of buffer w] r by simp
  show ?case
    unfolding ok(1)
  proof (rule wrote_append [OF w])
    assume r': "r = Ok ()"
    show "wrote (pending p') w' (pack_segment w p)"
    proof (cases "completed result")
      case True
      then show ?thesis using ok(4) p r r' by (subst pack_segment.simps) (simp add: wrote_def)
    next
      case False
      from 1 [OF p [symmetric] refl r [unfolded r', symmetric] refl False] False p r r' show ?thesis
        by (subst pack_segment.simps) simp
    qed
  next
    assume "r \<noteq> Ok ()"
    then show "pack_segment w p = (r, w')" using p r by (subst pack_segment.simps) (cases r; simp)
  qed
qed

lemma pack_segments_wrote: "wrote (concat (map pack_all segs)) w (pack_segments w segs)"
proof (induction segs arbitrary: w)
  case Nil
  then show ?case by (simp add: wrote_def)
next
  case (Cons s segs)
  obtain r w' where r: "pack_segment w (packer_new s) = (r, w')" by force
  have w: "wrote (pack_all s) w (r, w')" using pack_segment_wrote [of "packer_new s" w] r by simp
  show ?case
    unfolding list.map concat.simps
    by (rule wrote_append [OF w]) (use Cons r in \<open>cases r; simp\<close>)+
qed

definition packed_bytes :: "Word list list \<Rightarrow> u8 list" where
  "packed_bytes segs = concat (map pack_all (table_words segs # segs))"

lemma write_message_packed_wrote:
  assumes "segments_ok segs"
  shows "wrote (packed_bytes segs) w (write_message_packed w segs)"
proof -
  from table_wordsE [OF assms] obtain t where
    "from_segments segs = Ok t" "table_slice t = Ok (table_words segs)" by metis
  then show ?thesis
    using pack_segments_wrote [of "table_words segs # segs" w]
    by (simp add: write_message_packed_def packed_bytes_def)
qed

lemma drun_packed: "drun DReady (concat (map pack_all segs)) = (DReady, concat segs)"
  by (induction segs) (simp_all add: drun_append drun_pack_all)

lemma drun_packed_bytes: "drun DReady (packed_bytes segs) = (DReady, table_words segs @ concat segs)"
  using drun_packed [of "table_words segs # segs"] by (simp add: packed_bytes_def)

lemma concat_message_blocks:
  assumes "segments_ok segs"
  shows "concat (message_blocks segs) = table_words segs @ concat segs"
proof -
  from table_wordsE [OF assms] have "length (table_words segs) = length segs div 2 + 1" by metis
  then show ?thesis by (cases "table_words segs") (auto simp: message_blocks_def)
qed

text \<open>The packed bytes arrive in chunks, none of them empty.\<close>

definition chunks_of :: "u8 list \<Rightarrow> u8 list list \<Rightarrow> bool" where
  "chunks_of bs chunks \<longleftrightarrow> concat chunks = bs \<and> list_all (\<lambda>c. c \<noteq> []) chunks"

lemma chunk_events:
  "list_all (\<lambda>c. c \<noteq> []) chunks \<Longrightarrow> ev_ok k (map Inr chunks)"
  "ev_bytes (map Inr chunks) = concat chunks"
  by (induction chunks) auto

lemma read_packed_words:
  assumes "message_ok segs" "within_limits options segs" "list_ex (\<lambda>w. w \<noteq> Word_NULL) (concat segs)"
    and "drun DReady bs = (DReady, table_words segs @ concat segs)" "chunks_of bs chunks"
  shows "\<exists>set. read_from_packed_stream (map Inr chunks) options = Some (Ok set, \<lparr>unpacker = None, stream = []\<rparr>) \<and>
    set_valid set \<and> set_contents set = segs"
proof -
  let ?ps = "packed_new (map Inr chunks)"
  have ok: "segments_ok segs" using assms(1) by (simp add: message_ok_def)
  have c: "ev_bytes (map Inr chunks) = bs" "ev_ok False (map Inr chunks)"
    using assms(5) chunk_events(1) [of chunks False] chunk_events(2) [of chunks] by (simp_all add: chunks_of_def)
  have u: "unpacker_ok (unpacker ?ps)" "owed (unpacker ?ps) = []" "absd (unpacker ?ps) = DReady"
    by (simp_all add: packed_new_def unpacker_ok_def owed_def absd_def)
  have "blocks_ok (message_blocks segs)"
    using assms(3) by (auto simp: message_blocks_def split: list.split)
  then have h: "packed_has False ?ps (message_blocks segs @ [])"
    using u c assms(4) concat_message_blocks [OF ok] by (simp add: packed_has_def pinv_def packed_new_def)
  from packed_source.read_message_delivers [OF u(1) h assms(1,2)] obtain set ps' where
    m: "read_message packed_read_exact ?ps options = Some (Ok set, ps')" "packed_has False ps' []" "set_valid set"
    "set_contents set = segs" by auto
  from packed_finish_ok [of ps'] m show ?thesis
    by (auto simp: read_from_packed_stream_def read_with_packed_stream_def packed_has_def)
qed

text \<open>C2: a message that \<open>write_message_packed\<close> wrote is read back by \<open>read_from_packed_stream\<close>,
  in whatever chunks its bytes arrive, provided some word of its segments is not null: the
  segments are the same, and the stream and its unpacker are finished.\<close>

theorem packed_round_trip:
  assumes "message_ok segs" and "within_limits options segs" and "willing w" and "taken w = []"
    and "list_ex (\<lambda>w. w \<noteq> Word_NULL) (concat segs)"
  shows "\<exists>w'. write_message_packed w segs = (Ok (), w') \<and>
    (\<forall>chunks. chunks_of (taken w') chunks \<longrightarrow>
       (\<exists>set. read_from_packed_stream (map Inr chunks) options =
            Some (Ok set, \<lparr>unpacker = None, stream = []\<rparr>) \<and> set_contents set = segs))"
proof -
  have ok: "segments_ok segs" using assms(1) by (simp add: message_ok_def)
  obtain r w' where w: "write_message_packed w segs = (r, w')" by force
  with write_message_packed_wrote [OF ok, of w] assms(3,4) have w': "r = Ok ()" "taken w' = packed_bytes segs"
    by (auto simp: wrote_def)
  have "\<exists>set. read_from_packed_stream (map Inr chunks) options =
      Some (Ok set, \<lparr>unpacker = None, stream = []\<rparr>) \<and> set_contents set = segs"
    if "chunks_of (taken w') chunks" for chunks
    using read_packed_words [OF assms(1,2,5) drun_packed_bytes] that by (auto simp: w'(2))
  with w w'(1) show ?thesis by blast
qed

theorem packed_round_trip_witness:
  "\<exists>w'. write_message_packed \<lparr>answers = [Inr 3], taken = []\<rparr> [[Word_NULL, Word 1 0 0 0 0 0 0 0], []] = (Ok (), w') \<and>
    (\<forall>chunks. chunks_of (taken w') chunks \<longrightarrow>
       (\<exists>set. read_from_packed_stream (map Inr chunks) DEFAULT_OPTIONS =
            Some (Ok set, \<lparr>unpacker = None, stream = []\<rparr>) \<and>
          set_contents set = [[Word_NULL, Word 1 0 0 0 0 0 0 0], []]))"
  by (rule packed_round_trip)
     (simp_all add: message_ok_def segments_ok_def within_limits_def willing_def DEFAULT_OPTIONS_def Word_NULL_def)

text \<open>C8: reading from any packed stream, of any bytes in any chunks with I/O errors between
  them, returns and does not panic while the message is read, and a set it returns is valid.\<close>

theorem read_packed_safe:
  "\<exists>r ps. read_with_packed_stream (packed_new st) options = Some (r, ps) \<and>
     (case r of Ok s \<Rightarrow> \<forall>i. segment_set_segment s i = Ok (nth_opt (set_contents s) (unat i))
      | Err e \<Rightarrow> True | _ \<Rightarrow> False)"
proof -
  have "unpacker_ok (unpacker (packed_new st))" by (simp add: packed_new_def unpacker_ok_def)
  from packed_source.read_message_safe [OF this, of options] obtain r ps where
    r: "read_with_packed_stream (packed_new st) options = Some (r, ps)" "safe r" "\<forall>set. r = Ok set \<longrightarrow> set_valid set"
    by (auto simp: read_with_packed_stream_def)
  then show ?thesis by (cases r) (auto simp: set_arena.segment_lookup)
qed

text \<open>The null words of a run that ends the stream are lost to a read that starts inside the
  run: the bytes stand for four null words, the first can be read, and the read of the
  remaining three reports the end of the file.\<close>

lemma null_run_at_end_lost:
  "drun DReady [0, 3] = (DReady, replicate 4 Word_NULL) \<and>
   (\<exists>ps. packed_read_exact (packed_new [Inr [0, 3]]) 1 = Some (Ok [Word_NULL], ps) \<and>
     unpacker ps = Some (WritingNulls 3) \<and>
     (\<exists>ps'. packed_read_exact ps 3 = Some (Err UnexpectedEof, ps')))"
proof -
  let ?ps = "\<lparr>unpacker = Some (WritingNulls 3), stream = []\<rparr>"
  let ?ev = "[Inr [0, 3]] :: bufread"
  have "unpack_round 0 [3] Word_NULL [] [] =
      Ok (Stop (Some (WritingNulls 3)) NeedOutput \<lparr>src = [], dst = [], out = [Word_NULL]\<rparr>)"
    by (simp add: unpack_round_def write_nulls_def)
  then have "unpack_loop \<lparr>src = [0, 3], dst = [Word_NULL], out = []\<rparr> =
      Ok (Some (WritingNulls 3), NeedOutput, \<lparr>src = [], dst = [], out = [Word_NULL]\<rparr>)"
    by (intro unpack_loop_stop) simp_all
  then have u: "unpack (unpacker (packed_new ?ev)) [0, 3] [Word_NULL] =
      Ok (Some (WritingNulls 3), \<lparr>bytes_read = 2, words_written = 1, reason = NeedOutput\<rparr>, [Word_NULL])"
    by (simp add: unpack_def unpack_inner_def resume_def packed_new_def)
  have f: "fill_buf (stream (packed_new ?ev)) = (Ok [0, 3], ?ev)" by (simp add: packed_new_def fill_buf_def)
  from packed_read_data [OF _ f _ u]
  have "packed_read (packed_new [Inr [0, 3]]) [Word_NULL] = Some (Ok [Word_NULL], ?ps)"
    by (simp add: consume_def)
  then have "packed_read_exact (packed_new [Inr [0, 3]]) 1 = Some (Ok [Word_NULL], ?ps)"
    unfolding packed_read_exact_def
    by (subst read_exact_loop.simps) (simp, subst read_exact_loop.simps, simp)
  moreover have "packed_read ?ps (replicate 3 Word_NULL) = Some (Err UnexpectedEof, ?ps)"
    by (subst packed_read.simps) (simp add: fill_buf_def finish_kind_def unpacker_finish_def)
  then have "packed_read_exact ?ps 3 = Some (Err UnexpectedEof, ?ps)"
    unfolding packed_read_exact_def by (subst read_exact_loop.simps) simp
  moreover have "drun DReady [0, 3] = (DReady, replicate 4 Word_NULL)"
  proof -
    have "replicate 4 Word_NULL = Word_NULL # replicate 3 Word_NULL"
      by (simp add: replicate_Suc [symmetric] del: replicate_Suc)
    then show ?thesis by simp
  qed
  ultimately show ?thesis by (auto simp del: drun.simps)
qed

end
