(* ===== verification/Elem_Size.thy ===== *)
theory Elem_Size
  imports Seg_Words
begin

text \<open>
  Sizes of structs and of list elements (\<^verbatim>\<open>recapn/src/ptr.rs\<close>): \<open>StructSize\<close>,
  \<open>ElementSize\<close>, \<open>PtrElementSize\<close>, the sizes of lists computed from them and the rules by
  which a list is upgraded to a list of structs.
\<close>

section \<open>Struct sizes\<close>

record struct_size =
  ss_data :: u16
  ss_ptrs :: u16

definition StructSize_EMPTY :: struct_size where
  "StructSize_EMPTY = \<lparr>ss_data = 0, ss_ptrs = 0\<rparr>"

definition struct_is_empty :: "struct_size \<Rightarrow> bool" where
  "struct_is_empty s \<longleftrightarrow> s = StructSize_EMPTY"

definition struct_total :: "struct_size \<Rightarrow> u32" where
  "struct_total s = ucast (ss_data s) + ucast (ss_ptrs s)"

definition struct_len :: "struct_size \<Rightarrow> ('e, u29) outcome" where
  "struct_len s = u29_new_unwrap (struct_total s)"

definition struct_max_elements :: "struct_size \<Rightarrow> (unit, u29) outcome" where
  "struct_max_elements s =
     (if struct_is_empty s then Ok u29_MAX
      else u29_new_unwrap ((u29_MAX_VALUE - 1) div struct_total s))"

definition fits_inside :: "struct_size \<Rightarrow> struct_size \<Rightarrow> bool" where
  "fits_inside s outer \<longleftrightarrow> ss_data s \<le> ss_data outer \<and> ss_ptrs s \<le> ss_ptrs outer"

definition struct_max :: "struct_size \<Rightarrow> struct_size \<Rightarrow> struct_size" where
  "struct_max s t = \<lparr>ss_data = max (ss_data s) (ss_data t), ss_ptrs = max (ss_ptrs s) (ss_ptrs t)\<rparr>"

section \<open>Element sizes\<close>

datatype elem_size = Void | Bit | Byte | TwoBytes | FourBytes | EightBytes | Pointer
  | InlineComposite struct_size

datatype ptr_elem_size = PVoid | PBit | PByte | PTwoBytes | PFourBytes | PEightBytes | PPointer
  | PInlineComposite

definition elem_is_empty :: "elem_size \<Rightarrow> bool" where
  "elem_is_empty e \<longleftrightarrow> (case e of Void \<Rightarrow> True | InlineComposite s \<Rightarrow> s = StructSize_EMPTY | _ \<Rightarrow> False)"

definition is_ptrs :: "elem_size \<Rightarrow> bool" where
  "is_ptrs e \<longleftrightarrow> (let not_empty = \<not> elem_is_empty e;
     has_ptrs = (case e of Pointer \<Rightarrow> True | InlineComposite s \<Rightarrow> ss_data s = 0 | _ \<Rightarrow> False) in
     not_empty \<and> has_ptrs)"

definition is_composite :: "elem_size \<Rightarrow> bool" where
  "is_composite e \<longleftrightarrow> (case e of InlineComposite s \<Rightarrow> ss_data s \<noteq> 0 \<and> ss_ptrs s \<noteq> 0 | _ \<Rightarrow> False)"

definition is_data :: "elem_size \<Rightarrow> bool" where
  "is_data e \<longleftrightarrow> \<not> elem_is_empty e \<and> \<not> is_ptrs e \<and> \<not> is_composite e"

fun is_inline_composite :: "elem_size \<Rightarrow> bool" where
  "is_inline_composite (InlineComposite s) = True"
| "is_inline_composite _ = False"

fun bits :: "elem_size \<Rightarrow> u32" where
  "bits Void = 0"
| "bits Bit = 1"
| "bits Byte = 8"
| "bits TwoBytes = 8 * 2"
| "bits FourBytes = 8 * 4"
| "bits EightBytes = 8 * 8"
| "bits Pointer = 8 * 8"
| "bits (InlineComposite s) = struct_total s * 64"

fun bytes_and_ptrs :: "elem_size \<Rightarrow> u32 \<times> u16" where
  "bytes_and_ptrs Void = (0, 0)"
| "bytes_and_ptrs Bit = (0, 0)"
| "bytes_and_ptrs Byte = (1, 0)"
| "bytes_and_ptrs TwoBytes = (2, 0)"
| "bytes_and_ptrs FourBytes = (4, 0)"
| "bytes_and_ptrs EightBytes = (8, 0)"
| "bytes_and_ptrs Pointer = (0, 1)"
| "bytes_and_ptrs (InlineComposite s) = (ucast (ss_data s) * 8, ss_ptrs s)"

fun struct_upgrade :: "elem_size \<Rightarrow> struct_size" where
  "struct_upgrade Void = StructSize_EMPTY"
| "struct_upgrade Bit = StructSize_EMPTY"
| "struct_upgrade Pointer = \<lparr>ss_data = 0, ss_ptrs = 1\<rparr>"
| "struct_upgrade (InlineComposite s) = s"
| "struct_upgrade _ = \<lparr>ss_data = 1, ss_ptrs = 0\<rparr>"

fun elem_max_elements :: "elem_size \<Rightarrow> (unit, u29) outcome" where
  "elem_max_elements (InlineComposite s) = struct_max_elements s"
| "elem_max_elements _ = Ok u29_MAX"

definition total_bytes :: "elem_size \<Rightarrow> u29 \<Rightarrow> u32" where
  "total_bytes e n = (let count = ucast (u29_inner n) :: u64; element_bits = ucast (bits e) in
     ucast (div_ceil (element_bits * count) 8))"

definition total_words :: "elem_size \<Rightarrow> u29 \<Rightarrow> u32" where
  "total_words e n = (let count = ucast (u29_inner n) :: u64; element_bits = ucast (bits e) in
     round_up_bit_count (element_bits * count))"

definition object_words :: "elem_size \<Rightarrow> u29 \<Rightarrow> u32" where
  "object_words e n = (let tag_size = if is_inline_composite e then 1 else 0 in total_words e n + tag_size)"

fun as_ptr_size :: "elem_size \<Rightarrow> ptr_elem_size" where
  "as_ptr_size Void = PVoid"
| "as_ptr_size Bit = PBit"
| "as_ptr_size Byte = PByte"
| "as_ptr_size TwoBytes = PTwoBytes"
| "as_ptr_size FourBytes = PFourBytes"
| "as_ptr_size EightBytes = PEightBytes"
| "as_ptr_size Pointer = PPointer"
| "as_ptr_size (InlineComposite _) = PInlineComposite"

fun to_element_size :: "ptr_elem_size \<Rightarrow> elem_size" where
  "to_element_size PVoid = Void"
| "to_element_size PBit = Bit"
| "to_element_size PByte = Byte"
| "to_element_size PTwoBytes = TwoBytes"
| "to_element_size PFourBytes = FourBytes"
| "to_element_size PEightBytes = EightBytes"
| "to_element_size PPointer = Pointer"
| "to_element_size PInlineComposite = InlineComposite StructSize_EMPTY"

text \<open>The patterns \<open>InlineComposite(StructSize { ptrs: 0, .. })\<close> and \<open>{ data: 0, .. }\<close>.\<close>

fun composite_no_ptrs :: "elem_size \<Rightarrow> bool" where
  "composite_no_ptrs (InlineComposite s) \<longleftrightarrow> ss_ptrs s = 0"
| "composite_no_ptrs _ \<longleftrightarrow> False"

fun composite_no_data :: "elem_size \<Rightarrow> bool" where
  "composite_no_data (InlineComposite s) \<longleftrightarrow> ss_data s = 0"
| "composite_no_data _ \<longleftrightarrow> False"

text \<open>The arms of the two upgrade matches, in their order.\<close>

definition upgradable_to :: "elem_size \<Rightarrow> ptr_elem_size \<Rightarrow> bool" where
  "upgradable_to s p \<longleftrightarrow>
     (if is_inline_composite s \<and> p = PInlineComposite then True
      else if s = Bit \<and> p = PBit then True
      else if s = Bit \<or> p = PBit then False
      else if composite_no_ptrs s \<and> p = PPointer then False
      else if composite_no_data s \<and> p \<in> {PByte, PTwoBytes, PFourBytes, PEightBytes} then False
      else if p = PInlineComposite then True
      else as_ptr_size s = p)"

fun upgrade_composites :: "elem_size \<Rightarrow> elem_size \<Rightarrow> elem_size option" where
  "upgrade_composites (InlineComposite s) (InlineComposite m) = Some (InlineComposite (struct_max s m))"
| "upgrade_composites _ _ = None"

definition upgrade_to :: "elem_size \<Rightarrow> elem_size \<Rightarrow> elem_size option" where
  "upgrade_to s m =
     (if s = m then Some m
      else if is_inline_composite s \<and> is_inline_composite m then upgrade_composites s m
      else if s = Bit \<or> m = Bit then None
      else if composite_no_ptrs s \<and> m = Pointer then None
      else if is_inline_composite s \<and> m = Pointer then Some s
      else if s = Pointer \<and> composite_no_ptrs m then None
      else if s = Pointer \<and> is_inline_composite m then Some m
      else if composite_no_data s \<and> m = Void then Some s
      else if composite_no_data s then None
      else if is_inline_composite s then Some s
      else if s = Void \<and> composite_no_data m then Some m
      else if composite_no_data m then None
      else if is_inline_composite m then Some m
      else None)"

section \<open>Sizes\<close>

lemma unat_struct_total: "unat (struct_total s) = unat (ss_data s) + unat (ss_ptrs s)"
proof -
  have "unat (ss_data s) < 2 ^ 16" "unat (ss_ptrs s) < 2 ^ 16"
    using unsigned_less [of "ss_data s"] unsigned_less [of "ss_ptrs s"] by simp_all
  then show ?thesis
    by (simp add: struct_total_def unat_word_ariths unsigned_ucast_eq take_bit_nat_eq_self)
qed

lemma unat_struct_total_less: "unat (struct_total s) \<le> 131070"
proof -
  have "unat (ss_data s) < 2 ^ 16" "unat (ss_ptrs s) < 2 ^ 16"
    using unsigned_less [of "ss_data s"] unsigned_less [of "ss_ptrs s"] by simp_all
  then show ?thesis by (simp add: unat_struct_total)
qed

lemma struct_total_0: "struct_total s = 0 \<longleftrightarrow> s = StructSize_EMPTY"
proof -
  have "struct_total s = 0 \<longleftrightarrow> unat (struct_total s) = 0" by (simp add: unat_eq_0)
  also have "\<dots> \<longleftrightarrow> s = StructSize_EMPTY"
    by (auto simp: unat_struct_total unat_eq_0 StructSize_EMPTY_def)
  finally show ?thesis .
qed

lemma struct_len_Ok: "struct_len s = Ok (u29_clip (struct_total s))"
  using unat_struct_total_less [of s] by (simp add: struct_len_def u29_new_unwrap_def u29_new_eq)

lemma struct_len_val: "struct_len s = Ok n \<Longrightarrow> u29_val n = unat (ss_data s) + unat (ss_ptrs s)"
  using unat_struct_total_less [of s] by (auto simp: struct_len_Ok unat_struct_total)

lemma unat_bits: "unat (bits e) = (case e of
    Void \<Rightarrow> 0 | Bit \<Rightarrow> 1 | Byte \<Rightarrow> 8 | TwoBytes \<Rightarrow> 16 | FourBytes \<Rightarrow> 32 | EightBytes \<Rightarrow> 64
  | Pointer \<Rightarrow> 64 | InlineComposite s \<Rightarrow> 64 * unat (struct_total s))"
proof (cases e)
  case (InlineComposite s)
  have "unat (struct_total s * 64) = unat (struct_total s) * 64"
    using unat_struct_total_less [of s] by (subst unat_mult_no_wrap) simp_all
  with InlineComposite show ?thesis by simp
qed simp_all

lemma unat_bits_le: "unat (bits e) \<le> 64 * 131070"
  using unat_struct_total_less by (cases e) (auto simp: unat_bits simp del: bits.simps)

lemma unat_u64_of_u32 [simp]: "unat (ucast (x :: u32) :: u64) = unat x"
proof -
  have "unat x < 2 ^ 64" using unsigned_less [of x] by (rule less_trans) simp
  then show ?thesis by (simp add: unsigned_ucast_eq take_bit_nat_eq_self)
qed

text \<open>The 64-bit product of the element bits and the count does not wrap; the result wraps when it is
  truncated to 32 bits.\<close>

lemma element_bits_count:
  "unat (ucast (bits e) * ucast (u29_inner n) :: u64) = unat (bits e) * u29_val n"
proof -
  have "unat (bits e) * u29_val n \<le> 64 * 131070 * 2 ^ 29"
    using unat_bits_le [of e] u29_val_less [of n] by (intro mult_le_mono) simp_all
  then show ?thesis
    by (subst unat_mult_no_wrap) simp_all
qed

lemma unat_total_words:
  "unat (total_words e n) = (unat (bits e) * u29_val n + 63) div 64 mod 2 ^ 32"
  by (simp add: total_words_def Let_def round_up_bit_count_def unsigned_ucast_eq take_bit_eq_mod
      unat_div_ceil element_bits_count) (subst add.commute, rule refl)

lemma unat_total_bytes:
  "unat (total_bytes e n) = (unat (bits e) * u29_val n + 7) div 8 mod 2 ^ 32"
  by (simp add: total_bytes_def Let_def unsigned_ucast_eq take_bit_eq_mod unat_div_ceil element_bits_count)
     (subst add.commute, rule refl)

lemma total_words_plain:
  assumes "\<not> is_inline_composite e"
  shows "unat (total_words e n) = (unat (bits e) * u29_val n + 63) div 64"
proof -
  have "unat (bits e) \<le> 64" using assms by (cases e) (auto simp: unat_bits)
  then have "unat (bits e) * u29_val n \<le> 64 * 2 ^ 29"
    using u29_val_less [of n] by (intro mult_le_mono) simp_all
  then have "unat (bits e) * u29_val n + 63 < 2 ^ 32 * 64" by simp
  then have "(unat (bits e) * u29_val n + 63) div 64 < 2 ^ 32" by (rule less_mult_imp_div_less)
  then show ?thesis by (simp only: unat_total_words mod_less)
qed

lemma total_words_composite:
  assumes "unat (struct_total s) * u29_val n < 2 ^ 32"
  shows "unat (total_words (InlineComposite s) n) = unat (struct_total s) * u29_val n"
proof -
  have "(unat (bits (InlineComposite s)) * u29_val n + 63) div 64 = unat (struct_total s) * u29_val n"
    by (simp add: unat_bits del: bits.simps)
  with assms show ?thesis by (simp only: unat_total_words mod_less)
qed

lemma struct_max_elements_Ok:
  obtains m where "struct_max_elements s = Ok m"
    "u29_val m = (if s = StructSize_EMPTY then 2 ^ 29 - 1 else (2 ^ 29 - 2) div unat (struct_total s))"
proof (cases "s = StructSize_EMPTY")
  case True
  then show thesis by (intro that [of u29_MAX]) (simp_all add: struct_max_elements_def struct_is_empty_def)
next
  case False
  let ?k = "(u29_MAX_VALUE - 1) div struct_total s"
  have k: "unat ?k = (2 ^ 29 - 2) div unat (struct_total s)"
    by (simp add: u29_MAX_VALUE_def unat_div_distrib)
  then have "unat ?k < 2 ^ 29" by (simp add: le_less_trans [OF div_le_dividend])
  with False k show thesis
    by (intro that [of "u29_clip ?k"])
       (simp_all add: struct_max_elements_def struct_is_empty_def u29_new_unwrap_def u29_new_eq)
qed

lemma composite_fits:
  assumes "struct_max_elements s = Ok m" "n \<le> m"
  shows "unat (struct_total s) * u29_val n \<le> 2 ^ 29 - 2"
proof (cases "s = StructSize_EMPTY")
  case True
  then show ?thesis by (simp add: struct_total_0 [THEN iffD2])
next
  case False
  then have "0 < unat (struct_total s)" by (simp add: unat_gt_0 struct_total_0)
  obtain m' where "struct_max_elements s = Ok m'" "u29_val m' = (2 ^ 29 - 2) div unat (struct_total s)"
    using struct_max_elements_Ok [of s] False by metis
  with assms(1) have "u29_val m = (2 ^ 29 - 2) div unat (struct_total s)" by simp
  with assms(2) have "u29_val n \<le> (2 ^ 29 - 2) div unat (struct_total s)" by (simp add: u29_le_iff)
  then have "u29_val n * unat (struct_total s) \<le> 2 ^ 29 - 2"
    using \<open>0 < unat (struct_total s)\<close> by (simp add: less_eq_div_iff_mult_less_eq)
  then show ?thesis by (simp add: mult.commute)
qed

text \<open>The exact number of words of a list object, tag included.\<close>

definition list_object_words :: "elem_size \<Rightarrow> nat \<Rightarrow> nat" where
  "list_object_words e n = (case e of
     InlineComposite s \<Rightarrow> 1 + n * (unat (ss_data s) + unat (ss_ptrs s))
   | _ \<Rightarrow> (unat (bits e) * n + 63) div 64)"

text \<open>A list of at most \<open>max_elements\<close> elements has exactly the size that \<open>object_words\<close> computes in
  32 bits, and that size is a valid object length: for inline composites it counts the tag word.\<close>

lemma object_words_exact:
  assumes "elem_max_elements e = Ok m" and "n \<le> m"
  shows "unat (object_words e n) = list_object_words e (u29_val n) \<and>
    unat (object_words e n) < 2 ^ 29"
proof (cases "is_inline_composite e")
  case True
  then obtain s where e: "e = InlineComposite s" by (cases e) auto
  from assms e have b: "unat (struct_total s) * u29_val n \<le> 2 ^ 29 - 2" by (auto dest: composite_fits)
  then have t: "unat (total_words e n) = unat (struct_total s) * u29_val n"
    unfolding e by (intro total_words_composite) simp
  then have "unat (object_words e n) = unat (struct_total s) * u29_val n + 1"
    using b e by (simp add: object_words_def unat_word_ariths)
  with b e show ?thesis by (simp add: list_object_words_def unat_struct_total mult.commute)
next
  case False
  then have "unat (bits e) \<le> 64" by (cases e) (auto simp: unat_bits)
  then have "unat (bits e) * u29_val n \<le> 64 * (2 ^ 29 - 1)"
    using u29_val_less [of n] by (intro mult_le_mono) simp_all
  moreover have "unat (object_words e n) = (unat (bits e) * u29_val n + 63) div 64"
    using False by (simp add: object_words_def total_words_plain)
  ultimately show ?thesis using False
    by (cases e) (auto simp: list_object_words_def)
qed

lemma object_words_exact_witness:
  "unat (object_words (InlineComposite \<lparr>ss_data = 2, ss_ptrs = 1\<rparr>) (u29_clip 5)) = 16"
proof -
  obtain m where m: "struct_max_elements \<lparr>ss_data = 2, ss_ptrs = 1\<rparr> = Ok m"
    "u29_val m = (2 ^ 29 - 2) div 3"
    by (rule struct_max_elements_Ok [of "\<lparr>ss_data = 2, ss_ptrs = 1\<rparr>"])
       (auto simp: StructSize_EMPTY_def unat_struct_total)
  have "u29_clip 5 \<le> m" by (simp add: u29_le_iff m(2))
  have e: "elem_max_elements (InlineComposite \<lparr>ss_data = 2, ss_ptrs = 1\<rparr>) = Ok m" using m(1) by simp
  have "u29_val (u29_clip 5) = 5" by simp
  with object_words_exact [OF e \<open>u29_clip 5 \<le> m\<close>] show ?thesis by (simp add: list_object_words_def)
qed

section \<open>Upgrades\<close>

lemma struct_max_bounds: "fits_inside s (struct_max s t)" "fits_inside t (struct_max s t)"
  by (auto simp: fits_inside_def struct_max_def)

lemma struct_max_absorb [simp]:
  "struct_max (struct_max s t) s = struct_max s t" "struct_max (struct_max s t) t = struct_max s t"
  "struct_max s (struct_max s t) = struct_max s t" "struct_max t (struct_max s t) = struct_max s t"
  "struct_max s s = s"
  by (auto simp: struct_max_def max_def)

lemma upgrade_composites [simp]:
  "upgrade_to (InlineComposite s) (InlineComposite t) = Some (InlineComposite (struct_max s t))"
  by (simp add: upgrade_to_def)

lemma struct_max_commute: "struct_max s t = struct_max t s"
  by (auto simp: struct_max_def max.commute)

text \<open>\<open>upgrade_to\<close> is commutative; upgrading to the same size changes nothing; the result absorbs both
  sizes; and a resulting struct has room for both of the sizes it came from.\<close>

lemma upgrade_to_join:
  "upgrade_to a b = upgrade_to b a \<and> upgrade_to a a = Some a \<and>
   (case upgrade_to a b of
      Some c \<Rightarrow> upgrade_to c a = Some c \<and> upgrade_to c b = Some c \<and>
        (case c of InlineComposite s \<Rightarrow> fits_inside (struct_upgrade a) s \<and> fits_inside (struct_upgrade b) s
         | _ \<Rightarrow> a = c \<and> b = c)
    | None \<Rightarrow> True)"
proof -
  have comm: "upgrade_to a b = upgrade_to b a"
    by (cases a; cases b) (auto simp: upgrade_to_def struct_max_commute)
  have absorb: "upgrade_to c a = Some c \<and> upgrade_to c b = Some c" if "upgrade_to a b = Some c" for c
    using that
    by (cases "is_inline_composite a \<and> is_inline_composite b"; cases a; cases b)
       (auto simp: upgrade_to_def [of Void] upgrade_to_def [of Bit] upgrade_to_def [of Byte]
         upgrade_to_def [of TwoBytes] upgrade_to_def [of FourBytes] upgrade_to_def [of EightBytes]
         upgrade_to_def [of Pointer] upgrade_to_def [of _ Void] upgrade_to_def [of _ Byte]
         upgrade_to_def [of _ TwoBytes] upgrade_to_def [of _ FourBytes] upgrade_to_def [of _ EightBytes]
         upgrade_to_def [of _ Pointer] upgrade_to_def [of _ Bit] split: if_splits)
  have one: "1 \<le> x" if "x \<noteq> 0" for x :: u16
    using that by (simp add: word_le_nat_alt unat_gt_0 Suc_le_eq)
  have room: "case c of InlineComposite s \<Rightarrow> fits_inside (struct_upgrade a) s \<and> fits_inside (struct_upgrade b) s
         | _ \<Rightarrow> a = c \<and> b = c" if "upgrade_to a b = Some c" for c
    using that struct_max_bounds
    by (cases a; cases b) (auto simp: upgrade_to_def fits_inside_def StructSize_EMPTY_def one split: if_splits)
  show ?thesis using comm absorb room by (cases "upgrade_to a b") (auto simp: upgrade_to_def)
qed

text \<open>\<open>upgradable_to\<close>, the check made when a list is read, refuses every struct list that is not
  expected to be one, also where \<open>upgrade_to\<close> accepts it because the struct has the pointer or the data
  word needed; on lists that are not of structs the two agree.\<close>

lemma upgradable_to_refuses_structs:
  "upgradable_to (InlineComposite s) p = (p = PInlineComposite) \<and>
   upgrade_to (InlineComposite s) Pointer = (if ss_ptrs s = 0 then None else Some (InlineComposite s)) \<and>
   upgrade_to (InlineComposite s) Byte = (if ss_data s = 0 then None else Some (InlineComposite s)) \<and>
   upgradable_to (case e of InlineComposite t \<Rightarrow> Byte | _ \<Rightarrow> e) p =
     (let f = (case e of InlineComposite t \<Rightarrow> Byte | _ \<Rightarrow> e) in
      upgrade_to f (if p = PInlineComposite then InlineComposite \<lparr>ss_data = 1, ss_ptrs = 1\<rparr> else to_element_size p) =
      Some (if p = PInlineComposite then InlineComposite \<lparr>ss_data = 1, ss_ptrs = 1\<rparr> else to_element_size p))"
  by (cases e; cases p) (auto simp: upgradable_to_def upgrade_to_def)

end
