(* ===== verification/Wire_Ptr.thy ===== *)
theory Wire_Ptr
  imports Elem_Size Stream_Table
begin

text \<open>
  The pointers of the wire format (\<^verbatim>\<open>recapn/src/ptr.rs\<close>): \<open>Parts\<close>, the union
  \<open>WirePtr\<close> and its four views, and the errors of a failed read. A \<open>WireValue<u32>\<close> is the
  value its \<open>get\<close> returns; a word is seen as \<open>Parts\<close> through its two little-endian halves,
  so that the target is a little-endian machine, where \<open>WireValue(v)\<close> and \<open>WireValue::new(v)\<close>
  are the same.
\<close>

section \<open>Errors\<close>

datatype expected_read = ExpStruct | ExpList | ExpFar | ExpCapability

datatype actual_read = ActNull | ActStruct | ActList | ActFar | ActOther

record failed_read =
  fr_expected :: "expected_read option"
  fr_actual :: actual_read

record incompatible_upgrade =
  iu_from :: ptr_elem_size
  iu_to :: ptr_elem_size

datatype rerror =
    NestingLimitExceeded
  | PointerOutOfBounds
  | ReadLimitExceeded
  | InlineCompositeOverrun
  | UnsupportedInlineCompositeElementTag
  | UnexpectedRead failed_read
  | IncompatibleUpgrade incompatible_upgrade
  | CapabilityNotAllowed
  | InvalidCapabilityPointer u32
  | TextNotNulTerminated
  | MissingSegment u32
  | WritingNotAllowed
  | AllocTooLarge
  | AllocFailed nz29
  | OrphanFromDifferentMessage

definition fail_upgrade :: "ptr_elem_size \<Rightarrow> ptr_elem_size \<Rightarrow> rerror" where
  "fail_upgrade from to' = IncompatibleUpgrade \<lparr>iu_from = from, iu_to = to'\<rparr>"

section \<open>Parts\<close>

datatype wire_kind = KStruct | KList | KFar | KOther

fun kind_val :: "wire_kind \<Rightarrow> u32" where
  "kind_val KStruct = 0"
| "kind_val KList = 1"
| "kind_val KFar = 2"
| "kind_val KOther = 3"

record parts =
  lower :: u32
  upper :: u32

definition parts_of_word :: "Word \<Rightarrow> parts" where
  "parts_of_word w = \<lparr>lower = word_u32s w ! 0, upper = word_u32s w ! 1\<rparr>"

definition word_of_parts :: "parts \<Rightarrow> Word" where
  "word_of_parts p = word_of_u32s (lower p) (upper p)"

definition content_offset :: "parts \<Rightarrow> ('e, i30) outcome" where
  "content_offset p = i30_new_unwrap (signed_drop_bit 2 (lower p))"

definition set_content_offset :: "parts \<Rightarrow> i30 \<Rightarrow> parts" where
  "set_content_offset p off =
     (let old_kind = lower p AND 3; new_lower = push_bit 2 (i30_inner off) OR old_kind in
      \<lparr>lower = new_lower, upper = upper p\<rparr>)"

section \<open>The union\<close>

text \<open>The arms of the match on two bits; a fifth value does not exist.\<close>

definition kind :: "Word \<Rightarrow> wire_kind" where
  "kind w = (let k = ucast (lower (parts_of_word w)) AND 3 :: u8 in
     if k = 0 then KStruct else if k = 1 then KList else if k = 2 then KFar else KOther)"

definition fail_read :: "Word \<Rightarrow> expected_read option \<Rightarrow> rerror" where
  "fail_read w expected = UnexpectedRead \<lparr>fr_expected = expected,
     fr_actual = (if is_null w then ActNull else case kind w of
       KStruct \<Rightarrow> ActStruct | KFar \<Rightarrow> ActFar | KOther \<Rightarrow> ActOther | KList \<Rightarrow> ActList)\<rparr>"

definition is_struct :: "Word \<Rightarrow> bool" where "is_struct w \<longleftrightarrow> kind w = KStruct"
definition is_list :: "Word \<Rightarrow> bool" where "is_list w \<longleftrightarrow> kind w = KList"

definition is_capability :: "Word \<Rightarrow> bool" where
  "is_capability w \<longleftrightarrow> lower (parts_of_word w) = kind_val KOther"

definition struct_ptr :: "Word \<Rightarrow> parts option" where
  "struct_ptr w = (if is_struct w then Some (parts_of_word w) else None)"

definition try_struct_ptr :: "Word \<Rightarrow> (rerror, parts) outcome" where
  "try_struct_ptr w = ok_or (fail_read w (Some ExpStruct)) (struct_ptr w)"

definition list_ptr :: "Word \<Rightarrow> parts option" where
  "list_ptr w = (if is_list w then Some (parts_of_word w) else None)"

definition try_list_ptr :: "Word \<Rightarrow> (rerror, parts) outcome" where
  "try_list_ptr w = ok_or (fail_read w (Some ExpList)) (list_ptr w)"

definition far_ptr :: "Word \<Rightarrow> parts option" where
  "far_ptr w = (if kind w = KFar then Some (parts_of_word w) else None)"

definition try_far_ptr :: "Word \<Rightarrow> (rerror, parts) outcome" where
  "try_far_ptr w = ok_or (fail_read w (Some ExpFar)) (far_ptr w)"

definition cap_ptr :: "Word \<Rightarrow> parts option" where
  "cap_ptr w = (if is_capability w then Some (parts_of_word w) else None)"

definition try_cap_ptr :: "Word \<Rightarrow> (rerror, parts) outcome" where
  "try_cap_ptr w = ok_or (fail_read w (Some ExpCapability)) (cap_ptr w)"

section \<open>Struct pointers\<close>

definition struct_ptr_new :: "i30 \<Rightarrow> struct_size \<Rightarrow> parts" where
  "struct_ptr_new off s =
     \<lparr>lower = push_bit 2 (i30_inner off), upper = ucast (ss_data s) OR push_bit 16 (ucast (ss_ptrs s))\<rparr>"

definition StructPtr_EMPTY :: "('e, parts) outcome" where
  "StructPtr_EMPTY = obind (i30_new_unwrap (- 1)) (\<lambda>off. Ok (struct_ptr_new off StructSize_EMPTY))"

definition new_inline_composite_tag :: "u29 \<Rightarrow> struct_size \<Rightarrow> parts" where
  "new_inline_composite_tag count s =
     \<lparr>lower = push_bit 2 (u29_inner count), upper = ucast (ss_data s) OR push_bit 16 (ucast (ss_ptrs s))\<rparr>"

definition inline_composite_element_count :: "parts \<Rightarrow> ('e, u29) outcome" where
  "inline_composite_element_count p = unwrap (u29_new (drop_bit 2 (lower p) AND u29_MAX_VALUE))"

definition data_size :: "parts \<Rightarrow> u16" where "data_size p = ucast (upper p)"
definition ptr_count :: "parts \<Rightarrow> u16" where "ptr_count p = ucast (drop_bit 16 (upper p))"

definition struct_ptr_size :: "parts \<Rightarrow> struct_size" where
  "struct_ptr_size p = \<lparr>ss_data = data_size p, ss_ptrs = ptr_count p\<rparr>"

section \<open>List pointers\<close>

fun ptr_elem_val :: "ptr_elem_size \<Rightarrow> u32" where
  "ptr_elem_val PVoid = 0"
| "ptr_elem_val PBit = 1"
| "ptr_elem_val PByte = 2"
| "ptr_elem_val PTwoBytes = 3"
| "ptr_elem_val PFourBytes = 4"
| "ptr_elem_val PEightBytes = 5"
| "ptr_elem_val PPointer = 6"
| "ptr_elem_val PInlineComposite = 7"

definition list_ptr_new :: "i30 \<Rightarrow> ptr_elem_size \<Rightarrow> u29 \<Rightarrow> parts" where
  "list_ptr_new off sz count =
     \<lparr>lower = push_bit 2 (i30_inner off) OR kind_val KList,
      upper = push_bit 3 (u29_inner count) OR ptr_elem_val sz\<rparr>"

definition element_size :: "parts \<Rightarrow> ptr_elem_size" where
  "element_size p = (let k = ucast (upper p) AND 7 :: u8 in
     if k = 0 then PVoid else if k = 1 then PBit else if k = 2 then PByte else if k = 3 then PTwoBytes
     else if k = 4 then PFourBytes else if k = 5 then PEightBytes else if k = 6 then PPointer
     else PInlineComposite)"

definition element_count :: "parts \<Rightarrow> ('e, u29) outcome" where
  "element_count p = unwrap (u29_new (drop_bit 3 (upper p)))"

section \<open>Far and capability pointers\<close>

definition far_ptr_new :: "u32 \<Rightarrow> u29 \<Rightarrow> bool \<Rightarrow> parts" where
  "far_ptr_new segment off double_far =
     \<lparr>lower = push_bit 3 (u29_inner off) OR push_bit 2 (of_bool double_far) OR kind_val KFar,
      upper = segment\<rparr>"

definition far_offset :: "parts \<Rightarrow> ('e, u29) outcome" where
  "far_offset p = unwrap (u29_new (drop_bit 3 (lower p)))"

definition double_far :: "parts \<Rightarrow> bool" where
  "double_far p \<longleftrightarrow> drop_bit 2 (lower p) AND 1 \<noteq> 0"

definition far_segment :: "parts \<Rightarrow> u32" where "far_segment p = upper p"

definition cap_ptr_new :: "u32 \<Rightarrow> parts" where
  "cap_ptr_new index = \<lparr>lower = kind_val KOther, upper = index\<rparr>"

definition capability_index :: "parts \<Rightarrow> u32" where "capability_index p = upper p"

section \<open>Words and parts\<close>

lemma parts_of_word_of [simp, bytes_simps]: "parts_of_word (word_of_parts p) = p"
  by (simp add: parts_of_word_def word_of_parts_def)

lemma word_of_parts_of [simp, bytes_simps]: "word_of_parts (parts_of_word w) = w"
  by (cases w) (simp add: parts_of_word_def word_of_parts_def del: le_word.simps)

lemma low_bits:
  "ucast (x :: u32) AND 3 = (of_bool (bit x 0) + 2 * of_bool (bit x 1) :: u8)"
  "ucast (x :: u32) AND 7 = (of_bool (bit x 0) + 2 * of_bool (bit x 1) + 4 * of_bool (bit x 2) :: u8)"
proof -
  have n: "n < 8 \<longleftrightarrow> n = 0 \<or> n = 1 \<or> n = 2 \<or> n = 3 \<or> n = 4 \<or> n = 5 \<or> n = 6 \<or> n = (7 :: nat)" for n
    by arith
  show "ucast (x :: u32) AND 3 = (of_bool (bit x 0) + 2 * of_bool (bit x 1) :: u8)"
    by (cases "bit x 0"; cases "bit x 1"; rule bit_word_eqI)
       (auto simp: n bit_and_iff bit_unsigned_iff)
  show "ucast (x :: u32) AND 7 = (of_bool (bit x 0) + 2 * of_bool (bit x 1) + 4 * of_bool (bit x 2) :: u8)"
    by (cases "bit x 0"; cases "bit x 1"; cases "bit x 2"; rule bit_word_eqI)
       (auto simp: n bit_and_iff bit_unsigned_iff)
qed

lemma kind_bits:
  "kind w = (if bit (lower (parts_of_word w)) 0
     then (if bit (lower (parts_of_word w)) 1 then KOther else KList)
     else (if bit (lower (parts_of_word w)) 1 then KFar else KStruct))"
  by (simp add: kind_def low_bits)

lemma element_size_bits:
  "element_size p = (if bit (upper p) 2
     then (if bit (upper p) 1 then (if bit (upper p) 0 then PInlineComposite else PPointer)
           else (if bit (upper p) 0 then PEightBytes else PFourBytes))
     else (if bit (upper p) 1 then (if bit (upper p) 0 then PTwoBytes else PByte)
           else (if bit (upper p) 0 then PBit else PVoid)))"
  by (simp add: element_size_def low_bits)

lemma bit_small:
  "bit (1 :: u32) n \<longleftrightarrow> n = 0" "bit (2 :: u32) n \<longleftrightarrow> n = 1" "bit (3 :: u32) n \<longleftrightarrow> n = 0 \<or> n = 1"
  "bit (ptr_elem_val sz) n \<longleftrightarrow> n = 0 \<and> sz \<in> {PBit, PTwoBytes, PEightBytes, PInlineComposite} \<or>
     n = 1 \<and> sz \<in> {PByte, PTwoBytes, PPointer, PInlineComposite} \<or>
     n = 2 \<and> sz \<in> {PFourBytes, PEightBytes, PPointer, PInlineComposite}"
proof -
  show "bit (1 :: u32) n \<longleftrightarrow> n = 0" by (simp add: bit_1_iff)
  show "bit (2 :: u32) n \<longleftrightarrow> n = 1" by (auto simp: bit_2_iff)
  show "bit (3 :: u32) n \<longleftrightarrow> n = 0 \<or> n = 1"
    by (cases n) (auto simp: bit_Suc bit_1_iff)
  show "bit (ptr_elem_val sz) n \<longleftrightarrow> n = 0 \<and> sz \<in> {PBit, PTwoBytes, PEightBytes, PInlineComposite} \<or>
     n = 1 \<and> sz \<in> {PByte, PTwoBytes, PPointer, PInlineComposite} \<or>
     n = 2 \<and> sz \<in> {PFourBytes, PEightBytes, PPointer, PInlineComposite}"
    by (cases sz; cases n; cases "n - 1"; cases "n - 2") (auto simp: bit_Suc bit_1_iff)
qed

lemma i30_sign_bits:
  assumes "29 \<le> n" "n < 32"
  shows "bit (i30_inner v) n = bit (i30_inner v) 29"
proof -
  have "signed_take_bit 29 (i30_val v) = i30_val v"
    using i30_val_bounds [of v] by (simp add: signed_take_bit_int_eq_self_iff)
  then have "bit (i30_val v) n = bit (i30_val v) 29"
    using assms(1) by (metis bit_signed_take_bit_iff min.absorb1 min.idem min_def possible_bit_int)
  with assms show ?thesis by (simp add: bit_sint_iff)
qed

lemma bit_u29_less:
  assumes "bit (u29_inner v) n"
  shows "n < 29"
proof -
  have "unat (take_bit 29 (u29_inner v)) = u29_val v"
    unfolding unsigned_take_bit_eq by (rule take_bit_nat_eq_self [OF u29_val_less])
  then have "take_bit 29 (u29_inner v) = u29_inner v" by (rule unsigned_word_eqI)
  with assms show ?thesis by (metis bit_take_bit_iff)
qed

lemma u29_MAX_mask: "u29_MAX_VALUE = mask 29"
  by (simp add: u29_MAX_VALUE_def mask_eq_exp_minus_1)

text \<open>The two words a pointer is made of, bit by bit.\<close>

lemma offset_of_bits:
  assumes "\<And>n. 2 \<le> n \<Longrightarrow> n < 32 \<Longrightarrow> bit (lower p) n = bit (i30_inner off) (n - 2)"
  shows "content_offset p = Ok off"
proof -
  have "signed_drop_bit 2 (lower p) = i30_inner off"
  proof (rule bit_word_eqI)
    fix n assume "n < LENGTH(32)"
    then have n: "n < 32" by simp
    show "bit (signed_drop_bit 2 (lower p)) n = bit (i30_inner off) n"
      using assms [of 31] assms [of "n + 2"] i30_sign_bits [of n off] n
      by (cases "n < 30") (auto simp: bit_signed_drop_bit_iff not_less)
  qed
  then show ?thesis by (simp add: content_offset_def i30_new_unwrap_def i30_new_Some_iff)
qed

lemma content_offset_total:
  obtains off where "content_offset p = Ok off" "i30_val off = sint (lower p) div 4"
    "\<And>n. 2 \<le> n \<Longrightarrow> n < 32 \<Longrightarrow> bit (lower p) n = bit (i30_inner off) (n - 2)"
proof -
  let ?o = "signed_drop_bit 2 (lower p)"
  have s: "sint ?o = sint (lower p) div 4"
    by (simp add: sint_signed_drop_bit_eq drop_bit_eq_div)
  have "- (2 ^ 31) \<le> sint (lower p)" "sint (lower p) < 2 ^ 31"
    using sint_ge [of "lower p"] sint_lt [of "lower p"] by simp_all
  then have b: "- (2 ^ 29) \<le> sint ?o" "sint ?o < 2 ^ 29" unfolding s by simp_all
  show thesis
  proof (rule that [of "i30_clip ?o"])
    show "content_offset p = Ok (i30_clip ?o)" using b by (simp add: content_offset_def i30_new_unwrap_def i30_new_eq)
    show "i30_val (i30_clip ?o) = sint (lower p) div 4" using b s by simp
    fix n :: nat assume "2 \<le> n" "n < 32"
    moreover from this have "Suc (Suc (n - 2)) = n" by simp
    ultimately show "bit (lower p) n = bit (i30_inner (i30_clip ?o)) (n - 2)"
      using b by (auto simp: bit_signed_drop_bit_iff)
  qed
qed

lemma u29_of_bits:
  assumes "\<And>n. n < 32 \<Longrightarrow> bit x n = bit (u29_inner v) n"
  shows "u29_new x = Some v"
proof -
  have "u29_inner v = x" by (rule bit_word_eqI) (use assms in auto)
  then show ?thesis by (simp add: u29_new_Some_iff)
qed

lemma drop_3_new:
  obtains v where "u29_new (drop_bit 3 x) = Some v" "u29_inner v = drop_bit 3 x"
proof -
  have "unat x < 2 ^ 32" using unsigned_less [of x] by simp
  then have "unat (drop_bit 3 x) < 2 ^ 29" by (simp add: drop_bit_eq_div unat_div_distrib less_mult_imp_div_less)
  then show thesis by (intro that [of "u29_clip (drop_bit 3 x)"]) (simp_all add: u29_new_eq)
qed

lemma element_count_total: obtains n where "element_count p = Ok n" "u29_inner n = drop_bit 3 (upper p)"
  using drop_3_new [of "upper p"] by (auto simp: element_count_def)

lemma far_offset_total: obtains n where "far_offset p = Ok n" "u29_inner n = drop_bit 3 (lower p)"
  using drop_3_new [of "lower p"] by (auto simp: far_offset_def)

lemma composite_count_total:
  obtains n where "inline_composite_element_count p = Ok n"
    "u29_val n = unat (lower p) div 4 mod 2 ^ 29"
proof -
  let ?c = "drop_bit 2 (lower p) AND u29_MAX_VALUE"
  have "?c = take_bit 29 (drop_bit 2 (lower p))"
    by (simp only: take_bit_eq_mask u29_MAX_mask)
  then have c: "unat ?c = unat (lower p) div 4 mod 2 ^ 29"
    by (simp add: take_bit_eq_mod drop_bit_eq_div unat_div_distrib unat_mod_distrib)
  then have "unat ?c < 2 ^ 29" by simp
  with c show thesis
    by (intro that [of "u29_clip ?c"]) (simp_all add: inline_composite_element_count_def u29_new_eq)
qed

lemma struct_ptr_size_bits:
  assumes "upper p = ucast (ss_data s) OR push_bit 16 (ucast (ss_ptrs s))"
  shows "struct_ptr_size p = s"
proof -
  have "data_size p = ss_data s"
    unfolding data_size_def assms by (rule bit_word_eqI) (auto simp: bit_simps)
  moreover have "ptr_count p = ss_ptrs s"
    unfolding ptr_count_def assms by (rule bit_word_eqI) (auto simp: bit_simps dest: bit_imp_le_length)
  ultimately show ?thesis by (simp add: struct_ptr_size_def)
qed

lemma struct_upper_of_size:
  "ucast (ss_data (struct_ptr_size p)) OR push_bit 16 (ucast (ss_ptrs (struct_ptr_size p))) = upper p"
  by (rule bit_word_eqI) (auto simp: struct_ptr_size_def data_size_def ptr_count_def bit_simps)

lemma double_far_bit: "double_far p = bit (lower p) 2"
  by (simp only: double_far_def bit_iff_odd_drop_bit and_one_eq odd_iff_mod_2_eq_one)
     (metis not_mod_2_eq_1_eq_0 zero_neq_one)

lemma tag_count: "inline_composite_element_count (new_inline_composite_tag n s) = Ok n"
proof -
  have "u29_new (drop_bit 2 (push_bit 2 (u29_inner n)) AND u29_MAX_VALUE) = Some n"
    by (rule u29_of_bits) (auto simp: u29_MAX_mask bit_simps dest: bit_u29_less)
  then show ?thesis by (simp add: inline_composite_element_count_def new_inline_composite_tag_def)
qed

lemma list_ptr_count: "element_count (list_ptr_new off e n) = Ok n"
proof -
  have "u29_new (drop_bit 3 (push_bit 3 (u29_inner n) OR ptr_elem_val e)) = Some n"
    by (rule u29_of_bits) (auto simp: bit_simps bit_small dest: bit_u29_less)
  then show ?thesis by (simp add: element_count_def list_ptr_new_def)
qed

lemma list_ptr_elem: "element_size (list_ptr_new off e n) = e"
  by (cases e) (simp_all add: element_size_bits list_ptr_new_def bit_simps bit_small)

lemma far_ptr_offset: "far_offset (far_ptr_new i n d) = Ok n"
proof -
  have "u29_new (drop_bit 3 (lower (far_ptr_new i n d))) = Some n"
    by (rule u29_of_bits) (auto simp: far_ptr_new_def bit_simps bit_small dest: bit_u29_less)
  then show ?thesis by (simp add: far_offset_def)
qed

lemma ptr_kinds:
  "kind (word_of_parts (struct_ptr_new off s)) = KStruct"
  "kind (word_of_parts (new_inline_composite_tag n s)) = KStruct"
  "kind (word_of_parts (list_ptr_new off e n)) = KList"
  "kind (word_of_parts (far_ptr_new i n d)) = KFar"
  "kind (word_of_parts (cap_ptr_new i)) = KOther"
  by (simp_all add: kind_bits struct_ptr_new_def new_inline_composite_tag_def list_ptr_new_def
      far_ptr_new_def cap_ptr_new_def bit_simps bit_small)

lemma new_offsets:
  "content_offset (struct_ptr_new off s) = Ok off" "content_offset (list_ptr_new off e n) = Ok off"
  by (rule offset_of_bits; simp add: struct_ptr_new_def list_ptr_new_def bit_simps bit_small)+

lemma new_sizes:
  "struct_ptr_size (struct_ptr_new off s) = s" "struct_ptr_size (new_inline_composite_tag n s) = s"
  by (rule struct_ptr_size_bits; simp add: struct_ptr_new_def new_inline_composite_tag_def)+

lemma far_ptr_flag: "double_far (far_ptr_new i n d) = d"
  by (simp add: double_far_bit far_ptr_new_def bit_simps bit_small)

text \<open>C13: what the encoders of the four kinds of pointers put into a word, the decoders read back:
  offset and size of a struct pointer, count and size of an inline-composite tag, offset, element size
  and count of a list pointer, segment, offset and flag of a far pointer, index of a capability
  pointer; and the word has the kind it was built for.\<close>

theorem wire_ptr_encode_decode:
  "(let w = word_of_parts (struct_ptr_new off s) in
      struct_ptr w = Some (struct_ptr_new off s) \<and> content_offset (struct_ptr_new off s) = Ok off \<and>
      struct_ptr_size (struct_ptr_new off s) = s) \<and>
   (let t = new_inline_composite_tag n s in
      struct_ptr (word_of_parts t) = Some t \<and> inline_composite_element_count t = Ok n \<and> struct_ptr_size t = s) \<and>
   (let p = list_ptr_new off e n in
      list_ptr (word_of_parts p) = Some p \<and> content_offset p = Ok off \<and> element_size p = e \<and> element_count p = Ok n) \<and>
   (let p = far_ptr_new i n d in
      far_ptr (word_of_parts p) = Some p \<and> far_segment p = i \<and> far_offset p = Ok n \<and> double_far p = d) \<and>
   (let p = cap_ptr_new i in
      cap_ptr (word_of_parts p) = Some p \<and> capability_index p = i)"
  by (simp add: Let_def struct_ptr_def is_struct_def list_ptr_def is_list_def far_ptr_def cap_ptr_def
      is_capability_def ptr_kinds new_offsets new_sizes tag_count list_ptr_count list_ptr_elem far_ptr_offset
      far_ptr_flag far_segment_def capability_index_def)
     (simp add: far_ptr_new_def cap_ptr_new_def)

text \<open>Every word is decoded without a panic, and nothing of it is lost: building the pointer again
  from the decoded fields gives the word back, for a struct and a list pointer, a far pointer, and a
  capability pointer; each word is of exactly one kind.\<close>

lemma wire_ptr_decode_encode:
  "case kind w of
     KStruct \<Rightarrow> (\<exists>off. content_offset (parts_of_word w) = (Ok off :: (rerror, i30) outcome) \<and>
       word_of_parts (struct_ptr_new off (struct_ptr_size (parts_of_word w))) = w)
   | KList \<Rightarrow> (\<exists>off n. content_offset (parts_of_word w) = (Ok off :: (rerror, i30) outcome) \<and> element_count (parts_of_word w) = (Ok n :: (rerror, u29) outcome) \<and>
       word_of_parts (list_ptr_new off (element_size (parts_of_word w)) n) = w)
   | KFar \<Rightarrow> (\<exists>n. far_offset (parts_of_word w) = (Ok n :: (rerror, u29) outcome) \<and>
       word_of_parts (far_ptr_new (far_segment (parts_of_word w)) n (double_far (parts_of_word w))) = w)
   | KOther \<Rightarrow> (case cap_ptr w of
       None \<Rightarrow> lower (parts_of_word w) \<noteq> 3
     | Some p \<Rightarrow> word_of_parts (cap_ptr_new (capability_index p)) = w)"
proof -
  let ?p = "parts_of_word w"
  have same: "lower q = lower ?p \<Longrightarrow> upper q = upper ?p \<Longrightarrow> word_of_parts q = w" for q :: parts
    using word_of_parts_of [of w] by (simp add: word_of_parts_def)
  obtain off where off: "content_offset ?p = (Ok off :: (rerror, i30) outcome)"
    "\<And>n. 2 \<le> n \<Longrightarrow> n < 32 \<Longrightarrow> bit (lower ?p) n = bit (i30_inner off) (n - 2)"
    using content_offset_total [of ?p] by metis
  show ?thesis
  proof (cases "kind w")
    case KStruct
    then have k: "\<not> bit (lower ?p) 0" "\<not> bit (lower ?p) 1" by (auto simp: kind_bits split: if_splits)
    have "lower (struct_ptr_new off (struct_ptr_size ?p)) = lower ?p"
    proof (rule bit_word_eqI)
      fix n assume "n < LENGTH(32)"
      then consider "n = 0" | "n = 1" | "2 \<le> n" "n < 32" by fastforce
      then show "bit (lower (struct_ptr_new off (struct_ptr_size ?p))) n = bit (lower ?p) n"
        by cases (use k off(2) [of n] in \<open>simp_all add: struct_ptr_new_def bit_push_bit_iff\<close>)
    qed
    then have "word_of_parts (struct_ptr_new off (struct_ptr_size ?p)) = w"
      by (rule same) (simp add: struct_ptr_new_def struct_upper_of_size)
    with KStruct off(1) show ?thesis by auto
  next
    case KList
    then have k: "bit (lower ?p) 0" "\<not> bit (lower ?p) 1" by (auto simp: kind_bits split: if_splits)
    obtain n where n: "element_count ?p = (Ok n :: (rerror, u29) outcome)" "u29_inner n = drop_bit 3 (upper ?p)" by (rule element_count_total)
    have "lower (list_ptr_new off (element_size ?p) n) = lower ?p"
    proof (rule bit_word_eqI)
      fix n assume "n < LENGTH(32)"
      then consider "n = 0" | "n = 1" | "2 \<le> n" "n < 32" by fastforce
      then show "bit (lower (list_ptr_new off (element_size ?p) n')) n = bit (lower ?p) n" for n'
        by cases (use k off(2) [of n] in \<open>simp_all add: list_ptr_new_def bit_push_bit_iff bit_or_iff bit_1_iff\<close>)
    qed
    moreover have "upper (list_ptr_new off (element_size ?p) n) = upper ?p"
    proof (rule bit_word_eqI)
      fix m assume "m < LENGTH(32)"
      then consider "m = 0" | "m = 1" | "m = 2" | "3 \<le> m" "m < 32" by fastforce
      then show "bit (upper (list_ptr_new off (element_size ?p) n)) m = bit (upper ?p) m"
        by cases (simp_all add: list_ptr_new_def bit_push_bit_iff bit_or_iff bit_small(4) n(2) bit_drop_bit_eq
            element_size_bits)
    qed
    ultimately show ?thesis using KList off(1) n(1) by (auto intro!: same)
  next
    case KFar
    then have k: "\<not> bit (lower ?p) 0" "bit (lower ?p) 1" by (auto simp: kind_bits split: if_splits)
    obtain n where n: "far_offset ?p = (Ok n :: (rerror, u29) outcome)" "u29_inner n = drop_bit 3 (lower ?p)" by (rule far_offset_total)
    have "lower (far_ptr_new (far_segment ?p) n (double_far ?p)) = lower ?p"
    proof (rule bit_word_eqI)
      fix m assume "m < LENGTH(32)"
      then consider "m = 0" | "m = 1" | "m = 2" | "3 \<le> m" "m < 32" by fastforce
      then show "bit (lower (far_ptr_new (far_segment ?p) n (double_far ?p))) m = bit (lower ?p) m"
        by cases (use k in \<open>simp_all add: far_ptr_new_def bit_push_bit_iff bit_or_iff bit_2_iff bit_1_iff n(2)
            bit_drop_bit_eq double_far_bit\<close>)
    qed
    then show ?thesis using KFar n(1) by (auto simp: far_ptr_new_def far_segment_def intro!: same)
  next
    case KOther
    then show ?thesis
      by (auto simp: cap_ptr_def is_capability_def cap_ptr_new_def capability_index_def intro!: same)
  qed
qed

text \<open>Moving a struct or list pointer with \<open>set_content_offset\<close> changes its offset and nothing else.\<close>

lemma set_content_offset_moves:
  "content_offset (set_content_offset p off) = Ok off \<and> upper (set_content_offset p off) = upper p \<and>
   kind (word_of_parts (set_content_offset p off)) = kind (word_of_parts p)"
proof -
  have m: "bit (lower p AND 3) n \<longleftrightarrow> n < 2 \<and> bit (lower p) n" for n
    unfolding bit_and_iff bit_small by (auto simp: less_2_cases_iff)
  have "content_offset (set_content_offset p off) = Ok off"
    by (rule offset_of_bits) (simp add: set_content_offset_def Let_def bit_or_iff bit_push_bit_iff m)
  then show ?thesis by (simp add: set_content_offset_def Let_def kind_bits bit_or_iff bit_push_bit_iff m)
qed

end
