(* ===== verification/Seg_Alloc.thy ===== *)
theory Seg_Alloc
  imports Seg_Words
begin

text \<open>
  Segments, the addresses of their words, and the allocators that provide them
  (\<^verbatim>\<open>recapn/src/alloc.rs\<close>). Memory is a map from the addresses of words to words; a word that
  is not allocated is not in it. What the system allocator does is part of the heap's state:
  the addresses it will answer with, of which one that is not a free, aligned range counts as
  a refusal.
\<close>

section \<open>Memory\<close>

record heap =
  mem :: "u64 \<Rightarrow> Word option"
  choices :: "u64 option list"

record segment =
  seg_data :: u64
  seg_len :: u29

text \<open>The addresses of \<open>n\<close> words from \<open>a\<close> on.\<close>

definition addr :: "u64 \<Rightarrow> nat \<Rightarrow> u64" where
  "addr a i = a + 8 * of_nat i"

definition addr_list :: "u64 \<Rightarrow> nat \<Rightarrow> u64 list" where
  "addr_list a n = map (addr a) [0..<n]"

definition seg_addrs :: "segment \<Rightarrow> u64 set" where
  "seg_addrs s = set (addr_list (seg_data s) (u29_val (seg_len s)))"

definition put_words :: "u64 list \<Rightarrow> Word option \<Rightarrow> heap \<Rightarrow> heap" where
  "put_words xs w h = h\<lparr>mem := (\<lambda>x. if x \<in> set xs then w else mem h x)\<rparr>"

definition zeroed :: "heap \<Rightarrow> u64 set \<Rightarrow> bool" where
  "zeroed h A \<longleftrightarrow> (\<forall>x \<in> A. mem h x = Some Word_NULL)"

text \<open>\<open>Segment::to_ptr_range\<close> (with \<open>wrapping_add\<close>) and \<open>len_as_bytes\<close>.\<close>

definition to_ptr_range :: "segment \<Rightarrow> u64 \<times> u64" where
  "to_ptr_range s = (seg_data s, seg_data s + 8 * ucast (u29_inner (seg_len s)))"

definition len_as_bytes :: "segment \<Rightarrow> nat" where
  "len_as_bytes s = u29_val (seg_len s) * 8"

text \<open>\<open>as_slice_unchecked\<close>: undefined when a word of the segment is not allocated.\<close>

definition load_words :: "heap \<Rightarrow> u64 list \<Rightarrow> ('e, Word list) outcome" where
  "load_words h xs = (if list_all (\<lambda>x. mem h x \<noteq> None) xs then Ok (map (\<lambda>x. the (mem h x)) xs) else UB)"

definition as_slice_unchecked :: "heap \<Rightarrow> segment \<Rightarrow> ('e, Word list) outcome" where
  "as_slice_unchecked h s = load_words h (addr_list (seg_data s) (u29_val (seg_len s)))"

section \<open>The system allocator\<close>

definition ISIZE_MAX :: nat where "ISIZE_MAX = 2 ^ 63 - 1"

definition layout_array :: "nat \<Rightarrow> nat option" where
  "layout_array n = (if 8 * n \<le> ISIZE_MAX then Some (8 * n) else None)"

definition free_range :: "heap \<Rightarrow> u64 \<Rightarrow> nat \<Rightarrow> bool" where
  "free_range h a n \<longleftrightarrow> a \<noteq> 0 \<and> a AND 7 = 0 \<and> unat a + 8 * n \<le> 2 ^ 63 \<and>
     list_all (\<lambda>x. mem h x = None) (addr_list a n)"

definition alloc_zeroed :: "heap \<Rightarrow> nat \<Rightarrow> u64 option \<times> heap" where
  "alloc_zeroed h n = (case choices h of
     [] \<Rightarrow> (None, h)
   | c # cs \<Rightarrow>
       (let h' = h\<lparr>choices := cs\<rparr> in
        case c of
          None \<Rightarrow> (None, h')
        | Some a \<Rightarrow> if free_range h a n then (Some a, put_words (addr_list a n) (Some Word_NULL) h')
                    else (None, h')))"

definition sys_dealloc :: "heap \<Rightarrow> u64 \<Rightarrow> nat \<Rightarrow> ('e, heap) outcome" where
  "sys_dealloc h a n =
     (if list_all (\<lambda>x. mem h x \<noteq> None) (addr_list a n) then Ok (put_words (addr_list a n) None h) else UB)"

section \<open>The allocators\<close>

type_synonym 'a alloc_fn = "'a \<Rightarrow> heap \<Rightarrow> nz29 \<Rightarrow> segment option \<times> 'a \<times> heap"
type_synonym 'a dealloc_fn = "'a \<Rightarrow> heap \<Rightarrow> segment \<Rightarrow> (unit, 'a \<times> heap) outcome"

datatype never = Never

definition never_alloc :: "never alloc_fn" where
  "never_alloc a h sz = (None, a, h)"

definition never_dealloc :: "never dealloc_fn" where
  "never_dealloc a h s = Panic"

datatype global = Global

definition global_alloc :: "global alloc_fn" where
  "global_alloc a h sz = (case layout_array (nz29_val sz) of
     None \<Rightarrow> (None, a, h)
   | Some bytes \<Rightarrow> (case alloc_zeroed h (nz29_val sz) of
       (None, h') \<Rightarrow> (None, a, h')
     | (Some p, h') \<Rightarrow> (Some \<lparr>seg_data = p, seg_len = u29_of_nz29 sz\<rparr>, a, h')))"

definition global_dealloc :: "global dealloc_fn" where
  "global_dealloc a h s = (case layout_array (u29_val (seg_len s)) of
     None \<Rightarrow> Panic
   | Some bytes \<Rightarrow> obind (sys_dealloc h (seg_data s) (u29_val (seg_len s))) (\<lambda>h'. Ok (a, h')))"

record 'a fixed =
  fx_size :: nz29
  fx_inner :: 'a

definition fixed_new :: "nz29 \<Rightarrow> 'a \<Rightarrow> 'a fixed" where
  "fixed_new sz a = \<lparr>fx_size = sz, fx_inner = a\<rparr>"

definition fixed_alloc :: "'a alloc_fn \<Rightarrow> 'a fixed alloc_fn" where
  "fixed_alloc alloc s h sz = (case alloc (fx_inner s) h (max sz (fx_size s)) of
     (r, a, h') \<Rightarrow> (r, s\<lparr>fx_inner := a\<rparr>, h'))"

definition fixed_dealloc :: "'a dealloc_fn \<Rightarrow> 'a fixed dealloc_fn" where
  "fixed_dealloc dealloc s h seg =
     obind (dealloc (fx_inner s) h seg) (\<lambda>(a, h'). Ok (s\<lparr>fx_inner := a\<rparr>, h'))"

record 'a growing =
  gr_next :: nz29
  gr_inner :: 'a

definition DEFAULT_FIRST_SEGMENT_LEN :: nz29 where
  "DEFAULT_FIRST_SEGMENT_LEN = nz29_clip 1024"

definition growing_new :: "nz29 \<Rightarrow> 'a \<Rightarrow> 'a growing" where
  "growing_new first_segment a = \<lparr>gr_next = first_segment, gr_inner = a\<rparr>"

definition growing_alloc :: "'a alloc_fn \<Rightarrow> 'a growing alloc_fn" where
  "growing_alloc alloc s h sz =
     (let alloc_size = max sz (gr_next s);
          next_size = saturating_add (nz29_inner (gr_next s)) (nz29_inner alloc_size);
          next_segment = (case nz29_new next_size of Some n \<Rightarrow> n | None \<Rightarrow> nz29_MAX) in
      case alloc (gr_inner s) h alloc_size of
        (r, a, h') \<Rightarrow> (r, \<lparr>gr_next = next_segment, gr_inner = a\<rparr>, h'))"

definition growing_dealloc :: "'a dealloc_fn \<Rightarrow> 'a growing dealloc_fn" where
  "growing_dealloc dealloc s h seg =
     obind (dealloc (gr_inner s) h seg) (\<lambda>(a, h'). Ok (s\<lparr>gr_inner := a\<rparr>, h'))"

text \<open>Scratch space: where its words are, how many, and whether they have been used.\<close>

record space =
  sp_dirty :: bool
  sp_data :: u64
  sp_words :: nat

definition space_new :: "u64 \<Rightarrow> nat \<Rightarrow> heap \<Rightarrow> (unit, space \<times> heap) outcome" where
  "space_new a n h =
     obind (assert_that (0 < n)) (\<lambda>_. obind (assert_that (n \<le> unat u29_MAX_VALUE)) (\<lambda>_.
       Ok (\<lparr>sp_dirty = False, sp_data = a, sp_words = n\<rparr>, put_words (addr_list a n) (Some Word_NULL) h)))"

definition dyn_space_new :: "u64 \<Rightarrow> nz29 \<Rightarrow> heap \<Rightarrow> space \<times> heap" where
  "dyn_space_new a len h =
     (\<lparr>sp_dirty = False, sp_data = a, sp_words = nz29_val len\<rparr>,
      put_words (addr_list a (nz29_val len)) (Some Word_NULL) h)"

definition space_segment :: "space \<Rightarrow> heap \<Rightarrow> (unit, segment \<times> space \<times> heap) outcome" where
  "space_segment sp h =
     (let h' = (if sp_dirty sp then put_words (addr_list (sp_data sp) (sp_words sp)) (Some Word_NULL) h else h) in
      obind (nz29_new_unwrap (of_nat (sp_words sp))) (\<lambda>len.
        if sp_data sp = 0 then Panic
        else Ok (\<lparr>seg_data = sp_data sp, seg_len = u29_of_nz29 len\<rparr>, sp\<lparr>sp_dirty := True\<rparr>, h')))"

record 'a scratch =
  sc_segment :: segment
  sc_used :: bool
  sc_next :: 'a

definition with_segment :: "segment \<Rightarrow> 'a \<Rightarrow> 'a scratch" where
  "with_segment s a = \<lparr>sc_segment = s, sc_used = False, sc_next = a\<rparr>"

definition with_space :: "space \<Rightarrow> heap \<Rightarrow> 'a \<Rightarrow> (unit, 'a scratch \<times> space \<times> heap) outcome" where
  "with_space sp h a = obind (space_segment sp h) (\<lambda>(seg, sp', h').
     Ok (\<lparr>sc_segment = seg, sc_used = False, sc_next = a\<rparr>, sp', h'))"

definition scratch_alloc :: "'a alloc_fn \<Rightarrow> 'a scratch alloc_fn" where
  "scratch_alloc alloc s h sz =
     (if sc_used s \<or> seg_len (sc_segment s) < u29_of_nz29 sz then
        (case alloc (sc_next s) h sz of (r, a, h') \<Rightarrow> (r, s\<lparr>sc_next := a\<rparr>, h'))
      else (Some (sc_segment s), s\<lparr>sc_used := True\<rparr>, h))"

definition scratch_dealloc :: "'a dealloc_fn \<Rightarrow> 'a scratch dealloc_fn" where
  "scratch_dealloc dealloc s h seg =
     (if seg \<noteq> sc_segment s then
        obind (dealloc (sc_next s) h seg) (\<lambda>(a, h'). Ok (s\<lparr>sc_next := a\<rparr>, h'))
      else Ok (s, h))"

section \<open>The contract\<close>

text \<open>
  What the arena relies on. An allocator may hold words in reserve (\<open>owns\<close>); a segment it
  gives out is made of words of the reserve or of words that were not allocated, is large
  enough and zeroed, and is no longer in the reserve. Nothing else in memory changes, and the
  allocator's invariant survives writes outside its reserve.
\<close>

locale allocator =
  fixes alloc :: "'a alloc_fn"
    and ok :: "'a \<Rightarrow> heap \<Rightarrow> bool"
    and owns :: "'a \<Rightarrow> u64 set"
  assumes keeps: "ok a h \<Longrightarrow> alloc a h n = (r, a', h') \<Longrightarrow> ok a' h' \<and> owns a' \<subseteq> owns a"
    and refused: "ok a h \<Longrightarrow> alloc a h n = (None, a', h') \<Longrightarrow> mem h' = mem h \<and> owns a' = owns a"
    and fits: "ok a h \<Longrightarrow> alloc a h n = (Some s, a', h') \<Longrightarrow> nz29_val n \<le> u29_val (seg_len s)"
    and nowrap: "ok a h \<Longrightarrow> alloc a h n = (Some s, a', h') \<Longrightarrow>
      unat (seg_data s) + 8 * u29_val (seg_len s) \<le> 2 ^ 63"
    and nonnull: "ok a h \<Longrightarrow> alloc a h n = (Some s, a', h') \<Longrightarrow> seg_data s \<noteq> 0"
    and gives_zeroed: "ok a h \<Longrightarrow> alloc a h n = (Some s, a', h') \<Longrightarrow> zeroed h' (seg_addrs s)"
    and fresh: "ok a h \<Longrightarrow> alloc a h n = (Some s, a', h') \<Longrightarrow>
      seg_addrs s \<inter> owns a' = {} \<and> (\<forall>x \<in> seg_addrs s. x \<in> owns a \<or> mem h x = None)"
    and frame: "ok a h \<Longrightarrow> alloc a h n = (Some s, a', h') \<Longrightarrow> x \<notin> seg_addrs s \<Longrightarrow> mem h' x = mem h x"
    and owned_mapped: "ok a h \<Longrightarrow> x \<in> owns a \<Longrightarrow> mem h x \<noteq> None"
    and inv_local: "ok a h \<Longrightarrow> (\<And>x. x \<in> owns a \<Longrightarrow> mem h' x = mem h x) \<Longrightarrow> ok a h'"

section \<open>The allocators meet the contract\<close>

lemma put_words_mem [simp]: "mem (put_words xs w h) x = (if x \<in> set xs then w else mem h x)"
  by (simp add: put_words_def)

lemma u29_less_nz29_iff: "seg_len s < u29_of_nz29 n \<longleftrightarrow> u29_val (seg_len s) < nz29_val n"
  by (simp add: u29_less_iff)

lemma alloc_zeroed_cases:
  assumes "alloc_zeroed h n = (r, h')"
  obtains "r = None" "mem h' = mem h"
    | a where "r = Some a" "a \<noteq> 0" "unat a + 8 * n \<le> 2 ^ 63"
      "\<forall>x \<in> set (addr_list a n). mem h x = None \<and> mem h' x = Some Word_NULL"
      "\<forall>x. x \<notin> set (addr_list a n) \<longrightarrow> mem h' x = mem h x"
proof (cases "choices h")
  case Nil
  then show thesis using assms that(1) by (simp add: alloc_zeroed_def)
next
  case (Cons c cs)
  show thesis
  proof (cases "\<exists>a. c = Some a \<and> free_range h a n")
    case True
    then obtain a where c: "c = Some a" "free_range h a n" by blast
    with Cons assms have r: "r = Some a" "h' = put_words (addr_list a n) (Some Word_NULL) (h\<lparr>choices := cs\<rparr>)"
      by (simp_all add: alloc_zeroed_def)
    show thesis
      by (rule that(2) [of a]) (use c r in \<open>auto simp: free_range_def list_all_iff\<close>)
  next
    case False
    with Cons assms have "r = None" "mem h' = mem h"
      by (auto simp: alloc_zeroed_def Let_def split: option.splits)
    then show thesis by (rule that(1))
  qed
qed

lemma global_alloc_cases:
  assumes "global_alloc g h n = (r, g', h')"
  obtains "r = None" "mem h' = mem h"
    | s where "r = Some s" "u29_val (seg_len s) = nz29_val n" "seg_data s \<noteq> 0"
      "unat (seg_data s) + 8 * u29_val (seg_len s) \<le> 2 ^ 63"
      "\<forall>x \<in> seg_addrs s. mem h x = None \<and> mem h' x = Some Word_NULL"
      "\<forall>x. x \<notin> seg_addrs s \<longrightarrow> mem h' x = mem h x"
proof (cases "layout_array (nz29_val n)")
  case None
  then show thesis using assms that(1) by (simp add: global_alloc_def)
next
  case (Some b)
  obtain q h2 where z: "alloc_zeroed h (nz29_val n) = (q, h2)" by force
  then show thesis
  proof (cases rule: alloc_zeroed_cases)
    case 1
    with z Some assms show thesis by (intro that(1)) (simp_all add: global_alloc_def)
  next
    case (2 a)
    with z Some assms show thesis
      by (intro that(2) [of "\<lparr>seg_data = a, seg_len = u29_of_nz29 n\<rparr>"])
         (simp_all add: global_alloc_def seg_addrs_def)
  qed
qed

interpretation global: allocator global_alloc "\<lambda>_ _. True" "\<lambda>_. {}"
  by unfold_locales (auto elim!: global_alloc_cases simp: zeroed_def)

interpretation never: allocator never_alloc "\<lambda>_ _. True" "\<lambda>_. {}"
  by unfold_locales (auto simp: never_alloc_def)

text \<open>The scratch segment is in reserve until it is used; it must be zeroed and apart from what
  the next allocator holds.\<close>

definition scratch_inv :: "('a \<Rightarrow> heap \<Rightarrow> bool) \<Rightarrow> ('a \<Rightarrow> u64 set) \<Rightarrow> 'a scratch \<Rightarrow> heap \<Rightarrow> bool" where
  "scratch_inv ok owns s h \<longleftrightarrow> ok (sc_next s) h \<and> (sc_used s \<or>
     zeroed h (seg_addrs (sc_segment s)) \<and> seg_addrs (sc_segment s) \<inter> owns (sc_next s) = {} \<and>
     unat (seg_data (sc_segment s)) + 8 * u29_val (seg_len (sc_segment s)) \<le> 2 ^ 63 \<and>
     seg_data (sc_segment s) \<noteq> 0)"

definition scratch_owns :: "('a \<Rightarrow> u64 set) \<Rightarrow> 'a scratch \<Rightarrow> u64 set" where
  "scratch_owns owns s = (if sc_used s then {} else seg_addrs (sc_segment s)) \<union> owns (sc_next s)"

context allocator
begin

text \<open>An allocator that passes every request on, perhaps a larger one, meets the contract.\<close>

lemma wrap_allocator:
  assumes w: "\<And>s h n r s' h'. f s h n = (r, s', h') \<Longrightarrow>
    \<exists>m. nz29_val n \<le> nz29_val m \<and> alloc (p s) h m = (r, p s', h')"
  shows "allocator f (\<lambda>s. ok (p s)) (\<lambda>s. owns (p s))"
proof unfold_locales
  fix a h n and r :: "segment option" and a' h'
  assume i: "ok (p a) h" and f: "f a h n = (r, a', h')"
  from w [OF f] obtain m where "alloc (p a) h m = (r, p a', h')" by blast
  from keeps [OF i this] show "ok (p a') h' \<and> owns (p a') \<subseteq> owns (p a)" .
next
  fix a h n a' h'
  assume i: "ok (p a) h" and f: "f a h n = (None, a', h')"
  from w [OF f] obtain m where "alloc (p a) h m = (None, p a', h')" by blast
  from refused [OF i this] show "mem h' = mem h \<and> owns (p a') = owns (p a)" .
next
  fix a h n s a' h'
  assume i: "ok (p a) h" and f: "f a h n = (Some s, a', h')"
  from w [OF f] obtain m where m: "nz29_val n \<le> nz29_val m" "alloc (p a) h m = (Some s, p a', h')" by blast
  from fits [OF i m(2)] m(1) show "nz29_val n \<le> u29_val (seg_len s)" by simp
  from nowrap [OF i m(2)] show "unat (seg_data s) + 8 * u29_val (seg_len s) \<le> 2 ^ 63" .
  from nonnull [OF i m(2)] show "seg_data s \<noteq> 0" .
  from gives_zeroed [OF i m(2)] show "zeroed h' (seg_addrs s)" .
  from fresh [OF i m(2)] show "seg_addrs s \<inter> owns (p a') = {} \<and>
      (\<forall>x\<in>seg_addrs s. x \<in> owns (p a) \<or> mem h x = None)" .
  fix x assume "x \<notin> seg_addrs s"
  with frame [OF i m(2)] show "mem h' x = mem h x" .
next
  fix a h x assume "ok (p a) h" "x \<in> owns (p a)"
  then show "mem h x \<noteq> None" by (rule owned_mapped)
next
  fix a h and h' :: heap assume "ok (p a) h" "\<And>x. x \<in> owns (p a) \<Longrightarrow> mem h' x = mem h x"
  then show "ok (p a) h'" by (rule inv_local)
qed

lemma fixed_allocator:
  "allocator (fixed_alloc alloc) (\<lambda>s. ok (fx_inner s)) (\<lambda>s. owns (fx_inner s))"
proof (rule wrap_allocator)
  fix s :: "'a fixed" and h n r s' h'
  assume f: "fixed_alloc alloc s h n = (r, s', h')"
  then have "alloc (fx_inner s) h (max n (fx_size s)) = (r, fx_inner s', h')"
    by (auto simp: fixed_alloc_def split: prod.splits)
  then show "\<exists>m. nz29_val n \<le> nz29_val m \<and> alloc (fx_inner s) h m = (r, fx_inner s', h')"
    by (intro exI [of _ "max n (fx_size s)"]) (simp add: nz29_max_val)
qed

lemma growing_allocator:
  "allocator (growing_alloc alloc) (\<lambda>s. ok (gr_inner s)) (\<lambda>s. owns (gr_inner s))"
proof (rule wrap_allocator)
  fix s :: "'a growing" and h n r s' h'
  assume f: "growing_alloc alloc s h n = (r, s', h')"
  then have "alloc (gr_inner s) h (max n (gr_next s)) = (r, gr_inner s', h')"
    by (auto simp: growing_alloc_def Let_def split: prod.splits)
  then show "\<exists>m. nz29_val n \<le> nz29_val m \<and> alloc (gr_inner s) h m = (r, gr_inner s', h')"
    by (intro exI [of _ "max n (gr_next s)"]) (simp add: nz29_max_val)
qed

lemma scratch_next:
  assumes "scratch_inv ok owns s h" "sc_used s \<or> seg_len (sc_segment s) < u29_of_nz29 n"
    "scratch_alloc alloc s h n = (r, s', h')"
  shows "ok (sc_next s) h" "alloc (sc_next s) h n = (r, sc_next s', h')" "sc_used s' = sc_used s"
    "sc_segment s' = sc_segment s"
  using assms by (auto simp: scratch_inv_def scratch_alloc_def split: prod.splits)

lemma scratch_keeps_segment:
  assumes "scratch_inv ok owns s h" "\<not> sc_used s" "alloc (sc_next s) h n = (r, a', h')"
  shows "zeroed h' (seg_addrs (sc_segment s))"
    "seg_addrs (sc_segment s) \<inter> owns a' = {}" "r = Some g \<Longrightarrow> seg_addrs g \<inter> seg_addrs (sc_segment s) = {}"
proof -
  from assms(1,2) have i: "ok (sc_next s) h" and z: "zeroed h (seg_addrs (sc_segment s))"
    and d: "seg_addrs (sc_segment s) \<inter> owns (sc_next s) = {}" by (auto simp: scratch_inv_def)
  from keeps [OF i assms(3)] d show "seg_addrs (sc_segment s) \<inter> owns a' = {}" by blast
  have apart: "seg_addrs g \<inter> seg_addrs (sc_segment s) = {}" if "r = Some g" for g
  proof -
    have a: "alloc (sc_next s) h n = (Some g, a', h')" using assms(3) that by simp
    { fix x assume x: "x \<in> seg_addrs g" "x \<in> seg_addrs (sc_segment s)"
      from conjunct2 [OF fresh [OF i a]] x(1) have "x \<in> owns (sc_next s) \<or> mem h x = None" by (rule bspec)
      moreover have "mem h x = Some Word_NULL" using z x(2) by (simp add: zeroed_def)
      ultimately have False using d x(2) by auto }
    then show ?thesis by blast
  qed
  then show "r = Some g \<Longrightarrow> seg_addrs g \<inter> seg_addrs (sc_segment s) = {}" .
  show "zeroed h' (seg_addrs (sc_segment s))"
  proof (cases r)
    case None
    with refused [OF i, of n a' h'] assms(3) z show ?thesis by (simp add: zeroed_def)
  next
    case (Some g)
    with assms(3) have a: "alloc (sc_next s) h n = (Some g, a', h')" by simp
    show ?thesis
      unfolding zeroed_def
    proof
      fix x assume x: "x \<in> seg_addrs (sc_segment s)"
      with apart [OF Some] have "x \<notin> seg_addrs g" by blast
      with frame [OF i a this] z x show "mem h' x = Some Word_NULL" by (simp add: zeroed_def)
    qed
  qed
qed

lemma scratch_here:
  assumes "\<not> (sc_used s \<or> seg_len (sc_segment s) < u29_of_nz29 n)" "scratch_alloc alloc s h n = (r, s', h')"
  shows "r = Some (sc_segment s)" "s' = s\<lparr>sc_used := True\<rparr>" "h' = h" "\<not> sc_used s"
    "nz29_val n \<le> u29_val (seg_len (sc_segment s))"
  using assms by (auto simp: scratch_alloc_def u29_less_iff)

lemma scratch_allocator:
  "allocator (scratch_alloc alloc) (scratch_inv ok owns) (scratch_owns owns)"
proof unfold_locales
  fix s :: "'a scratch" and h n and r :: "segment option" and s' h'
  assume i: "scratch_inv ok owns s h" and f: "scratch_alloc alloc s h n = (r, s', h')"
  show "scratch_inv ok owns s' h' \<and> scratch_owns owns s' \<subseteq> scratch_owns owns s"
  proof (cases "sc_used s \<or> seg_len (sc_segment s) < u29_of_nz29 n")
    case True
    note nx = scratch_next [OF i True f]
    show ?thesis
    proof (cases "sc_used s")
      case True
      with nx keeps [OF nx(1,2)] show ?thesis by (simp add: scratch_inv_def scratch_owns_def)
    next
      case False
      with nx keeps [OF nx(1,2)] scratch_keeps_segment(1,2) [OF i False nx(2)] i show ?thesis
        by (auto simp: scratch_inv_def scratch_owns_def)
    qed
  next
    case False
    from scratch_here [OF this f] i show ?thesis by (auto simp: scratch_inv_def scratch_owns_def)
  qed
next
  fix s :: "'a scratch" and h n s' h'
  assume i: "scratch_inv ok owns s h" and f: "scratch_alloc alloc s h n = (None, s', h')"
  show "mem h' = mem h \<and> scratch_owns owns s' = scratch_owns owns s"
  proof (cases "sc_used s \<or> seg_len (sc_segment s) < u29_of_nz29 n")
    case True
    note nx = scratch_next [OF i True f]
    from refused [OF nx(1,2)] nx show ?thesis by (simp add: scratch_owns_def)
  next
    case False
    from scratch_here(1) [OF this f] show ?thesis by simp
  qed
next
  fix s :: "'a scratch" and h n g s' h'
  assume i: "scratch_inv ok owns s h" and f: "scratch_alloc alloc s h n = (Some g, s', h')"
  have post: "nz29_val n \<le> u29_val (seg_len g) \<and> unat (seg_data g) + 8 * u29_val (seg_len g) \<le> 2 ^ 63 \<and>
    zeroed h' (seg_addrs g) \<and>
    (seg_addrs g \<inter> scratch_owns owns s' = {} \<and> (\<forall>x\<in>seg_addrs g. x \<in> scratch_owns owns s \<or> mem h x = None)) \<and>
    (\<forall>x. x \<notin> seg_addrs g \<longrightarrow> mem h' x = mem h x) \<and> seg_data g \<noteq> 0"
  proof (cases "sc_used s \<or> seg_len (sc_segment s) < u29_of_nz29 n")
    case True
    note nx = scratch_next [OF i True f]
    have "sc_used s \<or> seg_addrs g \<inter> seg_addrs (sc_segment s) = {}"
      using scratch_keeps_segment(3) [OF i _ nx(2)] by blast
    then show ?thesis
      using fits [OF nx(1,2)] nowrap [OF nx(1,2)] gives_zeroed [OF nx(1,2)] fresh [OF nx(1,2)]
        frame [OF nx(1,2)] nonnull [OF nx(1,2)] nx(3,4) by (auto simp: scratch_owns_def)
  next
    case False
    note he = scratch_here [OF this f]
    with i show ?thesis by (auto simp: scratch_inv_def scratch_owns_def)
  qed
  show "nz29_val n \<le> u29_val (seg_len g)" using post by (rule conjunct1)
  show "unat (seg_data g) + 8 * u29_val (seg_len g) \<le> 2 ^ 63"
    using post [THEN conjunct2] by (rule conjunct1)
  show "zeroed h' (seg_addrs g)" using post [THEN conjunct2, THEN conjunct2] by (rule conjunct1)
  show "seg_addrs g \<inter> scratch_owns owns s' = {} \<and> (\<forall>x\<in>seg_addrs g. x \<in> scratch_owns owns s \<or> mem h x = None)"
    using post [THEN conjunct2, THEN conjunct2, THEN conjunct2] by (rule conjunct1)
  show "seg_data g \<noteq> 0"
    using post [THEN conjunct2, THEN conjunct2, THEN conjunct2, THEN conjunct2] by (rule conjunct2)
  fix x assume "x \<notin> seg_addrs g"
  with post [THEN conjunct2, THEN conjunct2, THEN conjunct2, THEN conjunct2]
  show "mem h' x = mem h x" by simp
next
  fix s :: "'a scratch" and h x
  assume "scratch_inv ok owns s h" "x \<in> scratch_owns owns s"
  then consider "x \<in> owns (sc_next s)" "ok (sc_next s) h" | "mem h x = Some Word_NULL"
    by (auto simp: scratch_inv_def scratch_owns_def zeroed_def split: if_splits)
  then show "mem h x \<noteq> None" by cases (use owned_mapped in simp_all)
next
  fix s :: "'a scratch" and h and h' :: heap
  assume i: "scratch_inv ok owns s h" and e: "\<And>x. x \<in> scratch_owns owns s \<Longrightarrow> mem h' x = mem h x"
  have "ok (sc_next s) h'"
  proof (rule inv_local)
    show "ok (sc_next s) h" using i by (simp add: scratch_inv_def)
    fix x assume "x \<in> owns (sc_next s)"
    then show "mem h' x = mem h x" by (intro e) (simp add: scratch_owns_def)
  qed
  moreover have "mem h' x = mem h x" if "\<not> sc_used s" "x \<in> seg_addrs (sc_segment s)" for x
    using that by (intro e) (simp add: scratch_owns_def)
  ultimately show "scratch_inv ok owns s h'"
    using i by (auto simp: scratch_inv_def zeroed_def)
qed

end

text \<open>The allocators of \<open>Message::global\<close> and \<open>Message::with_scratch\<close>, and the others.\<close>

interpretation fixed_global: allocator "fixed_alloc global_alloc" "\<lambda>_ _. True" "\<lambda>_. {}"
  by (rule global.fixed_allocator)

interpretation growing_global: allocator "growing_alloc global_alloc" "\<lambda>_ _. True" "\<lambda>_. {}"
  by (rule global.growing_allocator)

interpretation scratch_growing: allocator "scratch_alloc (growing_alloc global_alloc)"
    "scratch_inv (\<lambda>_ _. True) (\<lambda>_. {})" "scratch_owns (\<lambda>_. {})"
  by (rule growing_global.scratch_allocator)

interpretation scratch_never: allocator "scratch_alloc never_alloc"
    "scratch_inv (\<lambda>_ _. True) (\<lambda>_. {})" "scratch_owns (\<lambda>_. {})"
  by (rule never.scratch_allocator)

section \<open>Properties of the allocators\<close>

text \<open>A segment from the allocator of \<open>Message::with_scratch\<close> (scratch space in front of a
  growing global allocator) fits the request and is zeroed, its words were not allocated or are
  those of the unused scratch space, and no other word of memory changes.\<close>

lemma scratch_message_alloc:
  assumes "scratch_inv (\<lambda>_ _. True) (\<lambda>_. {}) a h"
    and "scratch_alloc (growing_alloc global_alloc) a h n = (Some s, a', h')"
  shows "nz29_val n \<le> u29_val (seg_len s) \<and> zeroed h' (seg_addrs s) \<and>
    (\<forall>x \<in> seg_addrs s. mem h x = None \<or> \<not> sc_used a \<and> x \<in> seg_addrs (sc_segment a)) \<and>
    (\<forall>x. x \<notin> seg_addrs s \<longrightarrow> mem h' x = mem h x) \<and> scratch_inv (\<lambda>_ _. True) (\<lambda>_. {}) a' h'"
proof -
  note * = scratch_growing.fits [OF assms] scratch_growing.gives_zeroed [OF assms]
    scratch_growing.keeps [OF assms] scratch_growing.frame [OF assms]
  have "mem h x = None \<or> \<not> sc_used a \<and> x \<in> seg_addrs (sc_segment a)" if "x \<in> seg_addrs s" for x
  proof -
    have "x \<in> scratch_owns (\<lambda>_. {}) a \<or> mem h x = None"
      using conjunct2 [OF scratch_growing.fresh [OF assms]] that by (rule bspec)
    then show ?thesis by (auto simp: scratch_owns_def split: if_splits)
  qed
  with * show ?thesis by simp
qed

text \<open>The growing allocator asks for the larger of the request and its next size, and its next
  size grows by what it asked for, up to the largest segment.\<close>

lemma growing_sizes:
  "growing_alloc alloc s h n = (case alloc (gr_inner s) h (max n (gr_next s)) of
     (r, a, h') \<Rightarrow> (r, fst (snd (growing_alloc alloc s h n)), h')) \<and>
   nz29_val (gr_next (fst (snd (growing_alloc alloc s h n)))) =
     min (nz29_val (gr_next s) + max (nz29_val n) (nz29_val (gr_next s))) (2 ^ 29 - 1)"
proof
  show "growing_alloc alloc s h n = (case alloc (gr_inner s) h (max n (gr_next s)) of
     (r, a, h') \<Rightarrow> (r, fst (snd (growing_alloc alloc s h n)), h'))"
    by (simp add: growing_alloc_def Let_def split: prod.splits)
  let ?next = "saturating_add (nz29_inner (gr_next s)) (nz29_inner (max n (gr_next s)))"
  have u: "unat ?next = nz29_val (gr_next s) + max (nz29_val n) (nz29_val (gr_next s))"
    using nz29_val_bounds [of "gr_next s"] nz29_val_bounds [of "max n (gr_next s)"]
    by (simp add: unat_saturating_add nz29_max_val)
  have p: "0 < unat ?next" using u nz29_val_bounds(1) [of "gr_next s"] by simp
  have "nz29_val (case nz29_new ?next of Some m \<Rightarrow> m | None \<Rightarrow> nz29_MAX) = min (unat ?next) (2 ^ 29 - 1)"
    using p by (simp add: nz29_new_eq min_def)
  then show "nz29_val (gr_next (fst (snd (growing_alloc alloc s h n)))) =
     min (nz29_val (gr_next s) + max (nz29_val n) (nz29_val (gr_next s))) (2 ^ 29 - 1)"
    unfolding u by (simp add: growing_alloc_def Let_def split: prod.splits)
qed

definition space_ok :: "space \<Rightarrow> heap \<Rightarrow> bool" where
  "space_ok sp h \<longleftrightarrow> 0 < sp_words sp \<and> sp_words sp < 2 ^ 29 \<and> sp_data sp \<noteq> 0 \<and>
     unat (sp_data sp) + 8 * sp_words sp \<le> 2 ^ 63 \<and>
     (\<not> sp_dirty sp \<longrightarrow> zeroed h (set (addr_list (sp_data sp) (sp_words sp))))"

text \<open>Scratch space can be reused: whatever an earlier message left in it, the allocator made
  from it starts with a zeroed segment of all its words, and the space is marked dirty.\<close>

lemma with_space_zeroed:
  assumes "space_ok sp h"
  shows "\<exists>s sp' h'. with_space sp h a = Ok (s, sp', h') \<and> scratch_inv (\<lambda>_ _. True) (\<lambda>_. {}) s h' \<and>
    seg_addrs (sc_segment s) = set (addr_list (sp_data sp) (sp_words sp)) \<and>
    sp_dirty sp' \<and> space_ok sp' h'"
proof -
  let ?A = "addr_list (sp_data sp) (sp_words sp)" and ?l = "nz29_clip (of_nat (sp_words sp))"
  let ?h = "if sp_dirty sp then put_words ?A (Some Word_NULL) h else h"
  have u: "unat (of_nat (sp_words sp) :: u32) = sp_words sp"
    using assms by (simp add: space_ok_def unat_of_nat take_bit_nat_eq_self)
  have n: "nz29_new (of_nat (sp_words sp)) = Some ?l" "nz29_val ?l = sp_words sp"
    using assms u by (simp_all add: space_ok_def nz29_new_eq)
  have z: "zeroed ?h (set ?A)" using assms by (auto simp: space_ok_def zeroed_def)
  let ?s = "\<lparr>sc_segment = \<lparr>seg_data = sp_data sp, seg_len = u29_of_nz29 ?l\<rparr>, sc_used = False, sc_next = a\<rparr>"
  have "with_space sp h a = Ok (?s, sp\<lparr>sp_dirty := True\<rparr>, ?h)"
    using assms n by (simp add: with_space_def space_segment_def nz29_new_unwrap_def space_ok_def)
  moreover have "seg_addrs (sc_segment ?s) = set ?A" by (simp add: seg_addrs_def n)
  moreover have "scratch_inv (\<lambda>_ _. True) (\<lambda>_. {}) ?s ?h"
    using z assms by (simp add: scratch_inv_def seg_addrs_def n space_ok_def)
  moreover have "space_ok (sp\<lparr>sp_dirty := True\<rparr>) ?h" using assms by (simp add: space_ok_def)
  ultimately show ?thesis by (intro exI [of _ ?s]) simp
qed

lemma with_space_zeroed_witness:
  "\<exists>s sp' h'. with_space \<lparr>sp_dirty = True, sp_data = 64, sp_words = 2\<rparr>
      \<lparr>mem = (\<lambda>_. Some (Word 1 1 1 1 1 1 1 1)), choices = []\<rparr> (growing_new nz29_ONE Global) = Ok (s, sp', h') \<and>
    scratch_inv (\<lambda>_ _. True) (\<lambda>_. {}) s h' \<and>
    seg_addrs (sc_segment s) = set (addr_list 64 2) \<and> sp_dirty sp' \<and> space_ok sp' h'"
  using with_space_zeroed [of "\<lparr>sp_dirty = True, sp_data = 64, sp_words = 2\<rparr>"
      "\<lparr>mem = (\<lambda>_. Some (Word 1 1 1 1 1 1 1 1)), choices = []\<rparr>" "growing_new nz29_ONE Global"]
  by (simp add: space_ok_def)

lemma scratch_message_alloc_witness:
  "let a = with_segment \<lparr>seg_data = 64, seg_len = u29_of_nz29 nz29_ONE\<rparr> (growing_new nz29_ONE Global);
       h = \<lparr>mem = [64 \<mapsto> Word_NULL], choices = []\<rparr> in
   scratch_alloc (growing_alloc global_alloc) a h nz29_ONE =
     (Some \<lparr>seg_data = 64, seg_len = u29_of_nz29 nz29_ONE\<rparr>, a\<lparr>sc_used := True\<rparr>, h) \<and>
   zeroed h (seg_addrs \<lparr>seg_data = 64, seg_len = u29_of_nz29 nz29_ONE\<rparr>)"
proof -
  let ?s = "\<lparr>seg_data = 64, seg_len = u29_of_nz29 nz29_ONE\<rparr>"
  let ?a = "with_segment ?s (growing_new nz29_ONE Global)"
  let ?h = "\<lparr>mem = [64 \<mapsto> Word_NULL], choices = []\<rparr>"
  have addrs: "seg_addrs ?s = {64}" by (simp add: seg_addrs_def addr_list_def addr_def)
  have i: "scratch_inv (\<lambda>_ _. True) (\<lambda>_. {}) ?a ?h"
    by (simp add: scratch_inv_def with_segment_def addrs zeroed_def)
  have "scratch_alloc (growing_alloc global_alloc) ?a ?h nz29_ONE = (Some ?s, ?a\<lparr>sc_used := True\<rparr>, ?h)"
    by (simp add: scratch_alloc_def with_segment_def u29_less_iff)
  with scratch_message_alloc [OF i this] show ?thesis by (simp add: Let_def)
qed

end
