(* ===== verification/Msg_Arena.thy ===== *)
theory Msg_Arena
  imports Segment_Set Seg_Alloc
begin

text \<open>
  The arenas that hold the segments of a message being built (\<^verbatim>\<open>recapn/src/arena.rs\<close>, and
  \<open>SingleSegmentArena\<close> and the read limiter of \<^verbatim>\<open>recapn/src/message.rs\<close>). An operation returns
  the arena it leaves; the heap is passed along with it. The pointers of the arena to its
  segments are positions in its list of segments.
\<close>

section \<open>Segments of an arena\<close>

datatype segment_state = Used nz29 | ReadOnly | Deleted

record arena_segment =
  as_segment :: segment
  as_id :: u32
  as_state :: segment_state

definition arena_segment_new :: "segment \<Rightarrow> nz29 \<Rightarrow> u32 \<Rightarrow> arena_segment" where
  "arena_segment_new s used_len i = \<lparr>as_segment = s, as_id = i, as_state = Used used_len\<rparr>"

definition arena_segment_external :: "segment \<Rightarrow> u32 \<Rightarrow> arena_segment" where
  "arena_segment_external s i = \<lparr>as_segment = s, as_id = i, as_state = ReadOnly\<rparr>"

definition is_read_only :: "arena_segment \<Rightarrow> bool" where
  "is_read_only s \<longleftrightarrow> (case as_state s of ReadOnly \<Rightarrow> True | _ \<Rightarrow> False)"

definition segment_delete :: "arena_segment \<Rightarrow> arena_segment" where
  "segment_delete s = s\<lparr>as_state := Deleted\<rparr>"

definition try_use_len :: "arena_segment \<Rightarrow> nz29 \<Rightarrow> (unit, u29 option \<times> arena_segment) outcome" where
  "try_use_len s len = (case as_state s of
     Used old_used \<Rightarrow>
       (let new_used = nz29_inner old_used + nz29_inner len in
        if new_used > u29_inner (seg_len (as_segment s)) then Ok (None, s)
        else obind (nz29_new_unwrap new_used) (\<lambda>u.
          Ok (Some (u29_of_nz29 old_used), s\<lparr>as_state := Used u\<rparr>)))
   | _ \<Rightarrow> Panic)"

definition used_len :: "arena_segment \<Rightarrow> u29" where
  "used_len s = (case as_state s of
     Used len \<Rightarrow> u29_of_nz29 len
   | ReadOnly \<Rightarrow> seg_len (as_segment s)
   | Deleted \<Rightarrow> u29_ZERO)"

definition used_segment :: "arena_segment \<Rightarrow> segment" where
  "used_segment s = \<lparr>seg_data = seg_data (as_segment s), seg_len = used_len s\<rparr>"

section \<open>The growing arena\<close>

record 'a arena =
  first :: "arena_segment option"
  tail :: "arena_segment list"
  last_owned :: u32
  ar_alloc :: 'a

definition MAX_SEGMENTS :: nat where "MAX_SEGMENTS = 2 ^ 32 - 2"

definition arena_new :: "'a \<Rightarrow> 'a arena" where
  "arena_new a = \<lparr>first = None, tail = [], last_owned = 0, ar_alloc = a\<rparr>"

definition arena_alloc_segment :: "'a alloc_fn \<Rightarrow> 'a arena \<Rightarrow> heap \<Rightarrow> nz29 \<Rightarrow> u32 \<Rightarrow>
    arena_segment option \<times> 'a arena \<times> heap" where
  "arena_alloc_segment alloc ar h min_size i = (case alloc (ar_alloc ar) h min_size of
     (r, a, h') \<Rightarrow> (map_option (\<lambda>s. arena_segment_new s min_size i) r, ar\<lparr>ar_alloc := a\<rparr>, h'))"

text \<open>\<open>root_and_build\<close>: the root segment, allocated if there is none.\<close>

definition alloc_root :: "'a alloc_fn \<Rightarrow> 'a arena \<Rightarrow> heap \<Rightarrow> (unit, 'a arena \<times> heap) outcome" where
  "alloc_root alloc ar h = (case first ar of
     Some s \<Rightarrow> Ok (ar, h)
   | None \<Rightarrow> (case arena_alloc_segment alloc ar h nz29_ONE 0 of
       (None, ar', h') \<Rightarrow> Panic
     | (Some s, ar', h') \<Rightarrow> Ok (ar'\<lparr>first := Some s\<rparr>, h')))"

definition arena_segment_at :: "'a arena \<Rightarrow> u32 \<Rightarrow> arena_segment option" where
  "arena_segment_at ar i = (if i = 0 then first ar else nth_opt (tail ar) (unat (i - 1)))"

definition arena_put :: "'a arena \<Rightarrow> u32 \<Rightarrow> arena_segment \<Rightarrow> 'a arena" where
  "arena_put ar i s =
     (if i = 0 then ar\<lparr>first := Some s\<rparr> else ar\<lparr>tail := (tail ar)[unat (i - 1) := s]\<rparr>)"

definition arena_size_in_words :: "'a arena \<Rightarrow> nat" where
  "arena_size_in_words ar = (case first ar of
     None \<Rightarrow> 0
   | Some root \<Rightarrow> u29_val (used_len root) + sum_list (map (\<lambda>s. u29_val (used_len s)) (tail ar)))"

definition arena_len :: "'a arena \<Rightarrow> u32" where
  "arena_len ar = (if first ar = None then 0 else 1) + of_nat (length (tail ar))"

fun dealloc_all :: "'a dealloc_fn \<Rightarrow> 'a \<Rightarrow> heap \<Rightarrow> arena_segment list \<Rightarrow> (unit, 'a \<times> heap) outcome" where
  "dealloc_all dealloc a h [] = Ok (a, h)"
| "dealloc_all dealloc a h (s # ss) =
     obind (dealloc a h (as_segment s)) (\<lambda>(a', h'). dealloc_all dealloc a' h' ss)"

definition arena_clear :: "'a dealloc_fn \<Rightarrow> 'a arena \<Rightarrow> heap \<Rightarrow> (unit, 'a arena \<times> heap) outcome" where
  "arena_clear dealloc ar h =
     obind (dealloc_all dealloc (ar_alloc ar) h ((case first ar of Some s \<Rightarrow> [s] | None \<Rightarrow> []) @ tail ar))
       (\<lambda>(a, h'). Ok (\<lparr>first = None, tail = [], last_owned = 0, ar_alloc = a\<rparr>, h'))"

text \<open>\<open>BuildArena::alloc\<close>: the offset of the place and the id of the segment it is in.\<close>

definition arena_alloc :: "'a alloc_fn \<Rightarrow> 'a arena \<Rightarrow> heap \<Rightarrow> nz29 \<Rightarrow>
    (unit, (u29 \<times> u32) option \<times> 'a arena \<times> heap) outcome" where
  "arena_alloc alloc ar h min_size =
     obind (unwrap (arena_segment_at ar (last_owned ar))) (\<lambda>last.
       obind (try_use_len last min_size) (\<lambda>(r, last').
         case r of
           Some rf \<Rightarrow> Ok (Some (rf, last_owned ar), arena_put ar (last_owned ar) last', h)
         | None \<Rightarrow>
             (let tail_len = length (tail ar) in
              if tail_len \<ge> MAX_SEGMENTS then Ok (None, ar, h)
              else
                (let i = of_nat tail_len + 1 in
                 case arena_alloc_segment alloc ar h min_size i of
                   (None, ar', h') \<Rightarrow> Ok (None, ar', h')
                 | (Some s, ar', h') \<Rightarrow>
                     Ok (Some (u29_ZERO, i), ar'\<lparr>tail := tail ar' @ [s], last_owned := i\<rparr>, h')))))"

definition insert_external_segment :: "'a arena \<Rightarrow> segment \<Rightarrow> u32 option \<times> 'a arena" where
  "insert_external_segment ar s =
     (let tail_len = length (tail ar) in
      if tail_len \<ge> MAX_SEGMENTS then (None, ar)
      else
        (let i = of_nat tail_len in
         (Some i, ar\<lparr>tail := tail ar @ [arena_segment_external s i]\<rparr>)))"

definition remove_external_segment :: "'a arena \<Rightarrow> u32 \<Rightarrow> (unit, 'a arena) outcome" where
  "remove_external_segment ar i = (case arena_segment_at ar i of
     None \<Rightarrow> Panic
   | Some s \<Rightarrow> Ok (arena_put ar i (segment_delete s)))"

text \<open>\<open>ReadArena::segment\<close>, with the words the segment stands for.\<close>

definition arena_read_segment :: "'a arena \<times> heap \<Rightarrow> u32 \<Rightarrow> (unit, Word list option) outcome" where
  "arena_read_segment = (\<lambda>(ar, h) i. case arena_segment_at ar i of
     None \<Rightarrow> Ok None
   | Some s \<Rightarrow> obind (as_slice_unchecked h (used_segment s)) (\<lambda>ws. Ok (Some ws)))"

section \<open>The single-segment arena\<close>

definition single_new :: "segment \<Rightarrow> arena_segment" where
  "single_new s = arena_segment_new s nz29_ONE 0"

definition single_alloc :: "arena_segment \<Rightarrow> nz29 \<Rightarrow> (unit, (u29 \<times> u32) option \<times> arena_segment) outcome" where
  "single_alloc s min_size = obind (try_use_len s min_size) (\<lambda>(r, s').
     Ok (map_option (\<lambda>place. (place, 0)) r, s'))"

definition single_segment_at :: "arena_segment \<Rightarrow> u32 \<Rightarrow> arena_segment option" where
  "single_segment_at s i = (if i \<noteq> 0 then None else Some s)"

definition single_read_segment :: "arena_segment \<times> heap \<Rightarrow> u32 \<Rightarrow> (unit, Word list option) outcome" where
  "single_read_segment = (\<lambda>(s, h) i. if i \<noteq> 0 then Ok None
     else obind (as_slice_unchecked h (used_segment s)) (\<lambda>ws. Ok (Some ws)))"

definition single_insert_external :: "arena_segment \<Rightarrow> segment \<Rightarrow> u32 option" where
  "single_insert_external s e = None"

definition single_size_in_words :: "arena_segment \<Rightarrow> nat" where
  "single_size_in_words s = u29_val (used_len s)"

section \<open>The read limiter\<close>

record reader_options =
  traversal_limit :: u64
  nesting_limit :: u32

definition DEFAULT_READER_OPTIONS :: reader_options where
  "DEFAULT_READER_OPTIONS = \<lparr>traversal_limit = 8 * 1024 * 1024, nesting_limit = 64\<rparr>"

definition limiter_try_read :: "u64 \<Rightarrow> u64 \<Rightarrow> bool \<times> u64" where
  "limiter_try_read limit n = (if n \<le> limit then (True, limit - n) else (False, limit))"

section \<open>What an arena is made of\<close>

definition segs :: "'a arena \<Rightarrow> arena_segment list" where
  "segs ar = (case first ar of Some s \<Rightarrow> [s] | None \<Rightarrow> []) @ tail ar"

definition seg_place :: "arena_segment \<Rightarrow> nat \<Rightarrow> nat \<Rightarrow> u64 set" where
  "seg_place s off n = addr (seg_data (as_segment s)) ` {off ..< off + n}"

definition all_addrs :: "arena_segment \<Rightarrow> u64 set" where
  "all_addrs s = seg_place s 0 (u29_val (seg_len (as_segment s)))"

definition owned :: "arena_segment \<Rightarrow> bool" where
  "owned s \<longleftrightarrow> (\<exists>u. as_state s = Used u)"

definition used_addrs :: "arena_segment \<Rightarrow> u64 set" where
  "used_addrs s = (if owned s then seg_place s 0 (u29_val (used_len s)) else {})"

definition seg_ok :: "heap \<Rightarrow> arena_segment \<Rightarrow> bool" where
  "seg_ok h s \<longleftrightarrow> (case as_state s of
     Used u \<Rightarrow> nz29_val u \<le> u29_val (seg_len (as_segment s)) \<and>
       unat (seg_data (as_segment s)) + 8 * u29_val (seg_len (as_segment s)) \<le> 2 ^ 63 \<and>
       (\<forall>x \<in> all_addrs s. mem h x \<noteq> None) \<and>
       zeroed h (seg_place s (nz29_val u) (u29_val (seg_len (as_segment s)) - nz29_val u))
   | ReadOnly \<Rightarrow> (\<forall>x \<in> all_addrs s. mem h x \<noteq> None)
   | Deleted \<Rightarrow> True)"

definition apart :: "arena_segment list \<Rightarrow> bool" where
  "apart ss \<longleftrightarrow> (\<forall>i < length ss. \<forall>j < length ss. i \<noteq> j \<longrightarrow> owned (ss ! i) \<longrightarrow> owned (ss ! j) \<longrightarrow>
     all_addrs (ss ! i) \<inter> all_addrs (ss ! j) = {})"

definition used_places :: "'a arena \<Rightarrow> u64 set" where
  "used_places ar = (\<Union>s \<in> set (segs ar). used_addrs s)"

text \<open>The invariant, for the words \<open>res\<close> that the allocator holds in reserve.\<close>

definition segs_ok :: "heap \<Rightarrow> u64 set \<Rightarrow> arena_segment list \<Rightarrow> bool" where
  "segs_ok h res ss \<longleftrightarrow> list_all (seg_ok h) ss \<and> apart ss \<and>
     (\<forall>s \<in> set ss. owned s \<longrightarrow> all_addrs s \<inter> res = {})"

definition arena_ok :: "('a \<Rightarrow> heap \<Rightarrow> bool) \<Rightarrow> ('a \<Rightarrow> u64 set) \<Rightarrow> 'a arena \<Rightarrow> heap \<Rightarrow> bool" where
  "arena_ok ok owns ar h \<longleftrightarrow> ok (ar_alloc ar) h \<and> first ar \<noteq> None \<and> length (tail ar) \<le> MAX_SEGMENTS \<and>
     unat (last_owned ar) < length (segs ar) \<and> owned (segs ar ! unat (last_owned ar)) \<and>
     segs_ok h (owns (ar_alloc ar)) (segs ar)"

lemma unat_minus_one: "i \<noteq> 0 \<Longrightarrow> unat (i - 1 :: u32) = unat i - 1"
  by (metis Suc_pred' diff_Suc_1 unat_gt_0 unat_minus_one)

lemma segment_at_segs:
  assumes "first ar \<noteq> None"
  shows "arena_segment_at ar i = nth_opt (segs ar) (unat i)"
proof (cases "i = 0")
  case True
  with assms show ?thesis by (auto simp: arena_segment_at_def segs_def nth_opt_def)
next
  case False
  then have "0 < unat i" by (simp add: unat_gt_0)
  then obtain k where "unat i = Suc k" by (cases "unat i") auto
  with False assms unat_minus_one [OF False] show ?thesis
    by (auto simp: arena_segment_at_def segs_def nth_opt_def)
qed

lemma segs_put:
  assumes "first ar \<noteq> None"
  shows "segs (arena_put ar i s) = (segs ar)[unat i := s]" "first (arena_put ar i s) \<noteq> None"
    "ar_alloc (arena_put ar i s) = ar_alloc ar" "last_owned (arena_put ar i s) = last_owned ar"
    "length (tail (arena_put ar i s)) = length (tail ar)"
proof -
  show "segs (arena_put ar i s) = (segs ar)[unat i := s]"
  proof (cases "i = 0")
    case True
    with assms show ?thesis by (auto simp: arena_put_def segs_def)
  next
    case False
    then have "0 < unat i" by (simp add: unat_gt_0)
    then obtain k where "unat i = Suc k" by (cases "unat i") auto
    with False assms unat_minus_one [OF False] show ?thesis
      by (auto simp: arena_put_def segs_def)
  qed
qed (use assms in \<open>simp_all add: arena_put_def\<close>)

lemma addr_inj:
  assumes "unat a + 8 * n \<le> 2 ^ 63" "i < n" "j < n" "addr a i = addr a j"
  shows "i = j"
proof -
  have "unat (addr a k) = unat a + 8 * k" if "k < n" for k
  proof -
    have k: "8 * k < 2 ^ 64" "unat a + 8 * k < 2 ^ 64" using that assms(1) by auto
    have "unat (8 * of_nat k :: u64) = 8 * k"
    proof -
      have "(8 * of_nat k :: u64) = of_nat (8 * k)" by simp
      then show ?thesis using k(1) by (simp add: unat_of_nat take_bit_nat_eq_self del: of_nat_mult)
    qed
    with k(2) show ?thesis by (simp add: addr_def unat_add_no_wrap)
  qed
  with assms(2,3) have "unat a + 8 * i = unat a + 8 * j" using assms(4) by metis
  then show ?thesis by simp
qed

lemma seg_place_disjoint:
  assumes "unat (seg_data (as_segment s)) + 8 * u29_val (seg_len (as_segment s)) \<le> 2 ^ 63"
    and "off \<le> off'" "off + n \<le> off'" "off' + n' \<le> u29_val (seg_len (as_segment s))"
  shows "seg_place s off n \<inter> seg_place s off' n' = {}"
proof -
  have ne: "addr (seg_data (as_segment s)) i \<noteq> addr (seg_data (as_segment s)) j"
    if "i \<in> {off ..< off + n}" "j \<in> {off' ..< off' + n'}" for i j
  proof
    assume "addr (seg_data (as_segment s)) i = addr (seg_data (as_segment s)) j"
    then have "i = j" by (intro addr_inj [OF assms(1)]) (use that assms in auto)
    with that assms show False by auto
  qed
  show ?thesis unfolding seg_place_def by (rule equals0I) (use ne in blast)
qed

lemma seg_place_mono: "off' \<le> off \<Longrightarrow> off + n \<le> off' + n' \<Longrightarrow> seg_place s off n \<subseteq> seg_place s off' n'"
  by (auto simp: seg_place_def)

lemma seg_place_split: "seg_place s off (n + n') = seg_place s off n \<union> seg_place s (off + n) n'"
  by (auto simp: seg_place_def image_Un [symmetric] intro!: arg_cong [where f = "image _"])

lemma seg_place_cong: "as_segment s = as_segment s' \<Longrightarrow> seg_place s = seg_place s'"
  by (intro ext) (simp add: seg_place_def)

lemma seg_addrs_all: "seg_addrs (as_segment s) = all_addrs s"
  by (simp add: seg_addrs_def all_addrs_def seg_place_def addr_list_def atLeast0LessThan)

lemma try_use_len_cases:
  assumes "owned s" "nz29_val u = u29_val (used_len s)" "seg_ok h s"
  obtains "try_use_len s n = Ok (None, s)" "u29_val (seg_len (as_segment s)) < u29_val (used_len s) + nz29_val n"
    | s' where "try_use_len s n = Ok (Some (used_len s), s')" "as_segment s' = as_segment s" "owned s'"
      "u29_val (used_len s') = u29_val (used_len s) + nz29_val n"
      "u29_val (used_len s') \<le> u29_val (seg_len (as_segment s))" "as_id s' = as_id s"
proof -
  from assms(1) obtain v where v: "as_state s = Used v" by (auto simp: owned_def)
  have ul: "u29_val (used_len s) = nz29_val v" by (simp add: used_len_def v)
  define w where "w = nz29_inner v + nz29_inner n"
  have w: "unat w = nz29_val v + nz29_val n"
    unfolding w_def using nz29_val_bounds [of v] nz29_val_bounds [of n] by (simp add: unat_add_no_wrap)
  show thesis
  proof (cases "u29_val (seg_len (as_segment s)) < unat w")
    case True
    then have "try_use_len s n = Ok (None, s)"
      by (simp add: try_use_len_def v Let_def w_def [symmetric] word_less_nat_alt)
    then show thesis by (rule that(1)) (use True w ul in simp)
  next
    case False
    have "0 < unat w" "unat w < 2 ^ 29"
      using w nz29_val_bounds [of v] False u29_val_less [of "seg_len (as_segment s)"] by auto
    then have n: "nz29_new w = Some (nz29_clip w)" "nz29_val (nz29_clip w) = unat w"
      by (simp_all add: nz29_new_eq)
    have "try_use_len s n = Ok (Some (used_len s), s\<lparr>as_state := Used (nz29_clip w)\<rparr>)"
      using False n by (simp add: try_use_len_def v Let_def w_def [symmetric] word_less_nat_alt
          nz29_new_unwrap_def used_len_def)
    then show thesis
      by (rule that(2)) (use False w n ul in \<open>simp_all add: owned_def used_len_def\<close>)
  qed
qed

lemma seg_okD:
  assumes "seg_ok h s" "owned s"
  shows "u29_val (used_len s) \<le> u29_val (seg_len (as_segment s))"
    "unat (seg_data (as_segment s)) + 8 * u29_val (seg_len (as_segment s)) \<le> 2 ^ 63"
    "x \<in> all_addrs s \<Longrightarrow> mem h x \<noteq> None"
    "zeroed h (seg_place s (u29_val (used_len s)) (u29_val (seg_len (as_segment s)) - u29_val (used_len s)))"
  using assms by (auto simp: seg_ok_def owned_def used_len_def)

lemma seg_okI:
  assumes "owned s" "u29_val (used_len s) \<le> u29_val (seg_len (as_segment s))"
    "unat (seg_data (as_segment s)) + 8 * u29_val (seg_len (as_segment s)) \<le> 2 ^ 63"
    "\<And>x. x \<in> all_addrs s \<Longrightarrow> mem h x \<noteq> None"
    "zeroed h (seg_place s (u29_val (used_len s)) (u29_val (seg_len (as_segment s)) - u29_val (used_len s)))"
  shows "seg_ok h s"
  using assms by (auto simp: seg_ok_def owned_def used_len_def)

lemma seg_ok_frame:
  assumes "seg_ok h s" "\<And>x. mem h x \<noteq> None \<Longrightarrow> mem h' x \<noteq> None"
    "\<And>x. owned s \<Longrightarrow> x \<in> all_addrs s \<Longrightarrow> mem h' x = mem h x"
  shows "seg_ok h' s"
proof (cases "owned s")
  case True
  note d = seg_okD [OF assms(1) True]
  have "zeroed h' (seg_place s (u29_val (used_len s)) (u29_val (seg_len (as_segment s)) - u29_val (used_len s)))"
    unfolding zeroed_def
  proof
    fix x assume x: "x \<in> seg_place s (u29_val (used_len s))
      (u29_val (seg_len (as_segment s)) - u29_val (used_len s))"
    moreover have "seg_place s (u29_val (used_len s)) (u29_val (seg_len (as_segment s)) - u29_val (used_len s))
        \<subseteq> all_addrs s"
      unfolding all_addrs_def by (rule seg_place_mono) (use d(1) in simp_all)
    ultimately have "x \<in> all_addrs s" by (rule rev_subsetD)
    with assms(3) [OF True this] d(4) x show "mem h' x = Some Word_NULL" by (simp add: zeroed_def)
  qed
  with d True assms(2) show ?thesis by (intro seg_okI) auto
next
  case False
  with assms(1,2) show ?thesis
    by (auto simp: seg_ok_def owned_def split: segment_state.splits)
qed

lemma used_addrs_all: "seg_ok h s \<Longrightarrow> used_addrs s \<subseteq> all_addrs s"
proof (cases "owned s")
  case True
  assume "seg_ok h s"
  from seg_okD(1) [OF this True] show ?thesis
    using True unfolding used_addrs_def all_addrs_def by (simp add: seg_place_mono)
qed (simp add: used_addrs_def)

lemma apart_update:
  assumes "apart ss" "i < length ss" "all_addrs s = all_addrs (ss ! i)" "owned (ss ! i)"
  shows "apart (ss[i := s])"
  using assms unfolding apart_def by (simp add: nth_list_update)

lemma apart_append:
  assumes "apart ss" "\<And>t. t \<in> set ss \<Longrightarrow> owned t \<Longrightarrow> all_addrs t \<inter> all_addrs s = {}"
  shows "apart (ss @ [s])"
proof -
  have t: "owned (ss ! i) \<Longrightarrow> all_addrs (ss ! i) \<inter> all_addrs s = {}" if "i < length ss" for i
    using assms(2) [of "ss ! i"] that by simp
  show ?thesis
    using assms(1) t unfolding apart_def by (auto simp: nth_append less_Suc_eq)
qed

text \<open>What a place handed out for \<open>n\<close> words promises.\<close>

definition placed :: "'a arena \<Rightarrow> heap \<Rightarrow> nz29 \<Rightarrow> 'a arena \<Rightarrow> heap \<Rightarrow> u29 \<Rightarrow> u32 \<Rightarrow> bool" where
  "placed ar h n ar' h' off i \<longleftrightarrow> (\<exists>s. arena_segment_at ar' i = Some s \<and>
     u29_val off + nz29_val n \<le> u29_val (seg_len (as_segment s)) \<and>
     zeroed h' (seg_place s (u29_val off) (nz29_val n)) \<and>
     seg_place s (u29_val off) (nz29_val n) \<inter> used_places ar = {} \<and>
     used_places ar' = used_places ar \<union> seg_place s (u29_val off) (nz29_val n)) \<and>
   (\<forall>x \<in> used_places ar. mem h' x = mem h x)"

lemma UN_update:
  assumes "i < length ss" "f (ss ! i) \<subseteq> f s"
  shows "(\<Union>x \<in> set (ss[i := s]). f x) = (\<Union>x \<in> set ss. f x) \<union> f s"
proof -
  have "set ss = set (take i ss) \<union> {ss ! i} \<union> set (drop (Suc i) ss)"
    using assms(1) by (subst id_take_nth_drop [OF assms(1)]) auto
  moreover have "set (ss[i := s]) = set (take i ss) \<union> {s} \<union> set (drop (Suc i) ss)"
    using assms(1) by (simp add: upd_conv_take_nth_drop)
  ultimately show ?thesis using assms(2) by auto
qed

text \<open>Using more of a segment that has room.\<close>

lemma use_segment:
  assumes ss: "segs_ok h res ss" and i: "i < length ss" "owned (ss ! i)"
    and s': "as_segment s' = as_segment (ss ! i)" "owned s'"
      "u29_val (used_len s') = u29_val (used_len (ss ! i)) + n"
      "u29_val (used_len s') \<le> u29_val (seg_len (as_segment (ss ! i)))"
  defines "p \<equiv> seg_place s' (u29_val (used_len (ss ! i))) n"
  shows "segs_ok h res (ss[i := s'])" "zeroed h p"
    "p \<inter> (\<Union>s \<in> set ss. used_addrs s) = {}"
    "(\<Union>s \<in> set (ss[i := s']). used_addrs s) = (\<Union>s \<in> set ss. used_addrs s) \<union> p"
proof -
  let ?s = "ss ! i" and ?u = "u29_val (used_len (ss ! i))" and ?l = "u29_val (seg_len (as_segment (ss ! i)))"
  have mem: "?s \<in> set ss" using i(1) by simp
  have ok: "seg_ok h ?s" using ss i(1) by (simp add: segs_ok_def list_all_length)
  note d = seg_okD [OF ok i(2)]
  have pl: "seg_place s' = seg_place ?s" by (rule seg_place_cong) (rule s'(1))
  have all: "all_addrs s' = all_addrs ?s" by (simp add: all_addrs_def pl s'(1))
  have p_tail: "p \<subseteq> seg_place ?s ?u (?l - ?u)"
    unfolding p_def pl by (rule seg_place_mono) (use s'(3,4) in auto)
  have p_all: "p \<subseteq> all_addrs ?s"
    unfolding p_def pl all_addrs_def by (rule seg_place_mono) (use s'(3,4) in auto)
  show "zeroed h p" using d(4) p_tail by (auto simp: zeroed_def)
  have used: "used_addrs s' = used_addrs ?s \<union> p"
    using s' i(2) by (simp add: used_addrs_def p_def pl seg_place_split)
  show "(\<Union>s \<in> set (ss[i := s']). used_addrs s) = (\<Union>s \<in> set ss. used_addrs s) \<union> p"
    using UN_update [OF i(1), of used_addrs s'] mem by (auto simp: used)
  show "p \<inter> (\<Union>s \<in> set ss. used_addrs s) = {}"
  proof -
    have "p \<inter> used_addrs t = {}" if t: "t \<in> set ss" for t
    proof (cases "owned t")
      case True
      from t obtain j where j: "j < length ss" "t = ss ! j" by (auto simp: in_set_conv_nth)
      show ?thesis
      proof (cases "j = i")
        case True
        have "p \<inter> seg_place ?s 0 ?u = {}"
          using seg_place_disjoint [OF d(2), of 0 ?u ?u n] s'(3,4) by (auto simp: p_def pl)
        with True j i(2) show ?thesis by (simp add: used_addrs_def)
      next
        case False
        with ss i j True have "all_addrs ?s \<inter> all_addrs t = {}" by (simp add: segs_ok_def apart_def)
        moreover have "used_addrs t \<subseteq> all_addrs t"
          using ss j by (intro used_addrs_all [of h]) (simp add: segs_ok_def list_all_length)
        ultimately show ?thesis using p_all by auto
      qed
    qed (simp add: used_addrs_def)
    then show ?thesis by blast
  qed
  have "seg_ok h s'"
  proof (rule seg_okI)
    show "zeroed h (seg_place s' (u29_val (used_len s')) (u29_val (seg_len (as_segment s')) - u29_val (used_len s')))"
    proof -
      have "seg_place ?s (u29_val (used_len s')) (?l - u29_val (used_len s')) \<subseteq> seg_place ?s ?u (?l - ?u)"
        by (rule seg_place_mono) (use s'(3,4) in auto)
      with d(4) show ?thesis by (auto simp: zeroed_def pl s'(1))
    qed
  qed (use s' d in \<open>simp_all add: all\<close>)
  then show "segs_ok h res (ss[i := s'])"
    using ss i all apart_update [OF _ i(1) all i(2)] mem
    by (auto simp: segs_ok_def list_all_length nth_list_update set_conv_nth in_set_conv_nth
        dest!: set_update_subset_insert [THEN subsetD] split: if_splits)
qed

text \<open>A new segment, fresh from the allocator.\<close>

lemma add_segment:
  assumes ss: "segs_ok h res ss"
    and fresh: "\<And>x. x \<in> all_addrs s \<Longrightarrow> x \<in> res \<or> mem h x = None" "all_addrs s \<inter> res' = {}" "res' \<subseteq> res"
    and frame: "\<And>x. x \<notin> all_addrs s \<Longrightarrow> mem h' x = mem h x"
    and s: "zeroed h' (all_addrs s)" "owned s" "u29_val (used_len s) \<le> u29_val (seg_len (as_segment s))"
      "unat (seg_data (as_segment s)) + 8 * u29_val (seg_len (as_segment s)) \<le> 2 ^ 63"
  shows "segs_ok h' res' (ss @ [s])" "all_addrs s \<inter> (\<Union>s \<in> set ss. used_addrs s) = {}"
    "x \<in> (\<Union>s \<in> set ss. used_addrs s) \<Longrightarrow> mem h' x = mem h x"
proof -
  have apart_s: "all_addrs t \<inter> all_addrs s = {}" if t: "t \<in> set ss" "owned t" for t
  proof -
    have ok: "seg_ok h t" using ss t(1) by (simp add: segs_ok_def list_all_iff)
    { fix x assume x: "x \<in> all_addrs t" "x \<in> all_addrs s"
      from seg_okD(3) [OF ok t(2) x(1)] fresh(1) [OF x(2)] have "x \<in> res" by auto
      moreover have "all_addrs t \<inter> res = {}" using ss t by (simp add: segs_ok_def)
      ultimately have False using x(1) by auto }
    then show ?thesis by blast
  qed
  have used: "used_addrs t \<inter> all_addrs s = {}" if t: "t \<in> set ss" for t
  proof (cases "owned t")
    case True
    have "used_addrs t \<subseteq> all_addrs t"
      using ss t by (intro used_addrs_all [of h]) (simp add: segs_ok_def list_all_iff)
    with apart_s [OF t True] show ?thesis by auto
  qed (simp add: used_addrs_def)
  then show "all_addrs s \<inter> (\<Union>s \<in> set ss. used_addrs s) = {}" by auto
  show "x \<in> (\<Union>s \<in> set ss. used_addrs s) \<Longrightarrow> mem h' x = mem h x"
    using used by (intro frame) auto
  have old: "seg_ok h' t" if t: "t \<in> set ss" for t
  proof (rule seg_ok_frame [of h])
    show "seg_ok h t" using ss t by (simp add: segs_ok_def list_all_iff)
    show "mem h' x \<noteq> None" if "mem h x \<noteq> None" for x
      using that frame [of x] s(1) by (cases "x \<in> all_addrs s") (auto simp: zeroed_def)
    show "mem h' x = mem h x" if "owned t" "x \<in> all_addrs t" for x
      using that apart_s [OF t that(1)] by (intro frame) auto
  qed
  have "seg_place s (u29_val (used_len s)) (u29_val (seg_len (as_segment s)) - u29_val (used_len s)) \<subseteq> all_addrs s"
    unfolding all_addrs_def by (rule seg_place_mono) (use s(3) in simp_all)
  then have "seg_ok h' s"
    using s by (intro seg_okI) (auto simp: zeroed_def)
  moreover have "apart (ss @ [s])" using ss apart_s by (intro apart_append) (simp_all add: segs_ok_def)
  moreover have "all_addrs t \<inter> res' = {}" if "t \<in> set (ss @ [s])" "owned t" for t
  proof (cases "t = s")
    case False
    with that ss have "all_addrs t \<inter> res = {}" by (simp add: segs_ok_def)
    with fresh(3) show ?thesis by blast
  qed (use fresh(2) in simp)
  ultimately show "segs_ok h' res' (ss @ [s])"
    using old by (simp add: segs_ok_def list_all_iff)
qed

text \<open>An allocation uses more of one segment or adds one.\<close>

definition segs_alloc :: "arena_segment list \<Rightarrow> nat \<Rightarrow> nat \<Rightarrow> nat \<Rightarrow> arena_segment list \<Rightarrow> bool" where
  "segs_alloc ss n off i ss' \<longleftrightarrow> (\<exists>s. owned s \<and> u29_val (used_len s) = off + n \<and> (
     i < length ss \<and> owned (ss ! i) \<and> ss' = ss[i := s] \<and> as_segment s = as_segment (ss ! i) \<and>
       as_id s = as_id (ss ! i) \<and> u29_val (used_len (ss ! i)) = off \<or>
     i = length ss \<and> length ss < 2 ^ 32 \<and> ss' = ss @ [s] \<and> as_id s = of_nat i \<and> off = 0 \<and>
       seg_data (as_segment s) \<noteq> 0))"

context allocator
begin

lemma arena_alloc_placed:
  assumes ok: "arena_ok ok owns ar h"
  obtains ar' h' where "arena_alloc alloc ar h n = Ok (None, ar', h')" "arena_ok ok owns ar' h'"
      "segs ar' = segs ar" "mem h' = mem h"
    | off i ar' h' where "arena_alloc alloc ar h n = Ok (Some (off, i), ar', h')" "arena_ok ok owns ar' h'"
      "placed ar h n ar' h' off i"
proof -
  let ?i = "unat (last_owned ar)" and ?s = "segs ar ! unat (last_owned ar)"
  have first: "first ar \<noteq> None" and inv: "ok (ar_alloc ar) h" and tl: "length (tail ar) \<le> MAX_SEGMENTS"
    and i: "?i < length (segs ar)" "owned ?s" and ss: "segs_ok h (owns (ar_alloc ar)) (segs ar)"
    using ok by (simp_all add: arena_ok_def)
  have at: "arena_segment_at ar (last_owned ar) = Some ?s"
    using i(1) by (simp add: segment_at_segs [OF first] nth_opt_def)
  have sok: "seg_ok h ?s" using ss i(1) by (simp add: segs_ok_def list_all_length)
  obtain u where u: "nz29_val u = u29_val (used_len ?s)" using i(2) by (auto simp: owned_def used_len_def)
  from i(2) u sok show thesis
  proof (cases rule: try_use_len_cases [where n = n])
    case (2 s')
    let ?ar = "arena_put ar (last_owned ar) s'"
    note put = segs_put [OF first, of "last_owned ar" s']
    note use = use_segment [OF ss i 2(2,3,4,5)]
    have "arena_alloc alloc ar h n = Ok (Some (used_len ?s, last_owned ar), ?ar, h)"
      by (simp add: arena_alloc_def at 2(1))
    moreover have "arena_ok ok owns ?ar h"
      using ok use(1) i 2(3) by (simp add: arena_ok_def put)
    moreover have "placed ar h n ?ar h (used_len ?s) (last_owned ar)"
    proof -
      have "arena_segment_at ?ar (last_owned ar) = Some s'"
        using i(1) by (simp add: segment_at_segs [OF put(2)] put(1) nth_opt_def)
      with use(2,3,4) 2(2,4,5) show ?thesis by (simp add: placed_def used_places_def put(1))
    qed
    ultimately show thesis by (rule that(2))
  next
    case 1
    show thesis
    proof (cases "length (tail ar) \<ge> MAX_SEGMENTS")
      case True
      then have "arena_alloc alloc ar h n = Ok (None, ar, h)"
        by (simp add: arena_alloc_def at 1(1) Let_def)
      with ok show thesis by (intro that(1)) simp_all
    next
      case room: False
      let ?j = "of_nat (length (tail ar)) + 1 :: u32"
      obtain r a h' where al: "alloc (ar_alloc ar) h n = (r, a, h')" by (cases "alloc (ar_alloc ar) h n") auto
      show thesis
      proof (cases r)
        case None
        have "arena_alloc alloc ar h n = Ok (None, ar\<lparr>ar_alloc := a\<rparr>, h')"
          using None room al by (simp add: arena_alloc_def at 1(1) Let_def arena_alloc_segment_def)
        moreover note keeps [OF inv al] refused [OF inv al [unfolded None]]
        moreover have "segs_ok h' (owns (ar_alloc ar)) (segs ar)"
          using ss \<open>mem h' = mem h \<and> owns a = owns (ar_alloc ar)\<close>
          by (auto simp: segs_ok_def list_all_iff intro: seg_ok_frame [of h])
        ultimately show thesis
          using ok by (intro that(1) [of "ar\<lparr>ar_alloc := a\<rparr>" h']) (simp_all add: arena_ok_def segs_def)
      next
        case (Some g)
        note a = al [unfolded Some]
        let ?g = "arena_segment_new g n ?j"
        let ?ar = "ar\<lparr>ar_alloc := a, tail := tail ar @ [?g], last_owned := ?j\<rparr>"
        have g: "owned ?g" "as_segment ?g = g" "u29_val (used_len ?g) = nz29_val n"
          by (simp_all add: arena_segment_new_def owned_def used_len_def)
        have ga: "all_addrs ?g = seg_addrs g" using seg_addrs_all [of ?g] g(2) by simp
        have segs': "segs ?ar = segs ar @ [?g]" by (simp add: segs_def)
        have len: "length (segs ar) = Suc (length (tail ar))" using first by (auto simp: segs_def)
        have uj: "unat ?j = length (segs ar)"
        proof -
          have lt: "length (tail ar) + 1 < 2 ^ 32" using room by (simp add: MAX_SEGMENTS_def)
          then have "unat (of_nat (length (tail ar)) :: u32) = length (tail ar)"
            by (simp add: unat_of_nat take_bit_nat_eq_self)
          with lt len show ?thesis by (subst unat_add_no_wrap) simp_all
        qed
        have fr: "x \<in> owns (ar_alloc ar) \<or> mem h x = None" if "x \<in> seg_addrs g" for x
          using conjunct2 [OF fresh [OF inv a]] that by (rule bspec)
        have added: "segs_ok h' (owns a) (segs ar @ [?g])"
          "seg_addrs g \<inter> (\<Union>s \<in> set (segs ar). used_addrs s) = {}"
          "\<And>x. x \<in> (\<Union>s \<in> set (segs ar). used_addrs s) \<Longrightarrow> mem h' x = mem h x"
          by (rule add_segment [OF ss, of ?g "owns a" h', unfolded ga];
              (assumption | use fr fresh [OF inv a] keeps [OF inv a] frame [OF inv a] gives_zeroed [OF inv a] fits [OF inv a]
                nowrap [OF inv a] g in simp))+
        have "arena_alloc alloc ar h n = Ok (Some (u29_ZERO, ?j), ?ar, h')"
          using room a by (simp add: arena_alloc_def at 1(1) Let_def arena_alloc_segment_def)
        moreover have "arena_ok ok owns ?ar h'"
          using keeps [OF inv a] first room uj added(1) g(1)
          by (simp add: arena_ok_def segs' nth_append)
        moreover have "placed ar h n ?ar h' u29_ZERO ?j"
        proof -
          have f': "first ?ar \<noteq> None" using first by simp
          have "arena_segment_at ?ar ?j = Some ?g"
            by (simp only: segment_at_segs [OF f'] segs' uj) (simp add: nth_opt_def)
          moreover have "seg_place ?g 0 (nz29_val n) \<subseteq> seg_addrs g"
            unfolding ga [symmetric] all_addrs_def
            by (rule seg_place_mono) (use fits [OF inv a] g(2) in simp_all)
          moreover have "used_addrs ?g = seg_place ?g 0 (nz29_val n)" by (simp add: used_addrs_def g)
          ultimately show ?thesis
            using added(2,3) gives_zeroed [OF inv a] fits [OF inv a] g(2)
            unfolding placed_def used_places_def segs'
            by (intro conjI exI [of _ ?g] ballI) (auto simp: zeroed_def)
        qed
        ultimately show thesis by (rule that(2))
      qed
    qed
  qed
qed

lemma arena_alloc_segs:
  assumes ok: "arena_ok ok owns ar h" and r: "arena_alloc alloc ar h n = Ok (Some (off, i), ar', h')"
  shows "segs_alloc (segs ar) (nz29_val n) (u29_val off) (unat i) (segs ar')"
proof -
  let ?i = "unat (last_owned ar)" and ?s = "segs ar ! unat (last_owned ar)"
  have first: "first ar \<noteq> None" and inv: "ok (ar_alloc ar) h"
    and i: "?i < length (segs ar)" "owned ?s" and ss: "segs_ok h (owns (ar_alloc ar)) (segs ar)"
    using ok by (simp_all add: arena_ok_def)
  have at: "arena_segment_at ar (last_owned ar) = Some ?s"
    using i(1) by (simp add: segment_at_segs [OF first] nth_opt_def)
  have sok: "seg_ok h ?s" using ss i(1) by (simp add: segs_ok_def list_all_length)
  obtain u where u: "nz29_val u = u29_val (used_len ?s)" using i(2) by (auto simp: owned_def used_len_def)
  from i(2) u sok show ?thesis
  proof (cases rule: try_use_len_cases [where n = n])
    case (2 s')
    with r have "off = used_len ?s" "i = last_owned ar" "ar' = arena_put ar (last_owned ar) s'"
      by (auto simp: arena_alloc_def at 2(1))
    with 2 i show ?thesis unfolding segs_alloc_def by (intro exI [of _ s']) (simp add: segs_put [OF first])
  next
    case 1
    let ?j = "of_nat (length (tail ar)) + 1 :: u32"
    from r 1 obtain g a where room: "length (tail ar) < MAX_SEGMENTS"
      and al: "alloc (ar_alloc ar) h n = (Some g, a, h')"
      and res: "off = u29_ZERO" "i = ?j"
        "ar' = ar\<lparr>ar_alloc := a, tail := tail ar @ [arena_segment_new g n ?j], last_owned := ?j\<rparr>"
      by (auto simp: arena_alloc_def at Let_def arena_alloc_segment_def split: if_splits prod.splits option.splits)
    have len: "length (segs ar) = Suc (length (tail ar))" using first by (auto simp: segs_def)
    have lt: "length (tail ar) + 1 < 2 ^ 32" using room by (simp add: MAX_SEGMENTS_def)
    then have "unat (of_nat (length (tail ar)) :: u32) = length (tail ar)"
      by (simp add: unat_of_nat take_bit_nat_eq_self)
    with lt len have uj: "unat ?j = length (segs ar)" by (subst unat_add_no_wrap) simp_all
    have "segs ar' = segs ar @ [arena_segment_new g n ?j]" by (simp add: res segs_def)
    with nonnull [OF inv al] lt len show ?thesis
      unfolding segs_alloc_def
      by (intro exI [of _ "arena_segment_new g n ?j"] conjI disjI2)
         (simp_all add: res uj arena_segment_new_def owned_def used_len_def)
  qed
qed

lemma alloc_root_ok:
  assumes "ok (ar_alloc ar) h" "first ar = None" "tail ar = []" "last_owned ar = 0"
  obtains "alloc_root alloc ar h = Panic"
    | ar' h' s where "alloc_root alloc ar h = Ok (ar', h')" "arena_ok ok owns ar' h'" "segs ar' = [s]"
      "used_places ar' = seg_place s 0 1" "zeroed h' (seg_place s 0 1)"
proof -
  obtain r a h' where al: "alloc (ar_alloc ar) h nz29_ONE = (r, a, h')" by (cases "alloc (ar_alloc ar) h nz29_ONE") auto
  show thesis
  proof (cases r)
    case None
    with al assms show thesis by (intro that(1)) (simp add: alloc_root_def arena_alloc_segment_def)
  next
    case (Some g)
    note a = al [unfolded Some]
    let ?g = "arena_segment_new g nz29_ONE 0" and ?ar = "ar\<lparr>ar_alloc := a, first := Some (arena_segment_new g nz29_ONE 0)\<rparr>"
    have g: "owned ?g" "as_segment ?g = g" "u29_val (used_len ?g) = 1"
      by (simp_all add: arena_segment_new_def owned_def used_len_def)
    have ga: "all_addrs ?g = seg_addrs g" using seg_addrs_all [of ?g] g(2) by simp
    have ss: "segs_ok h (owns (ar_alloc ar)) []" by (simp add: segs_ok_def apart_def)
    have fr: "x \<in> owns (ar_alloc ar) \<or> mem h x = None" if "x \<in> seg_addrs g" for x
      using conjunct2 [OF fresh [OF assms(1) a]] that by (rule bspec)
    have "segs_ok h' (owns a) ([] @ [?g])"
      by (rule add_segment(1) [OF ss, of ?g "owns a" h', unfolded ga];
          (assumption | use fr fresh [OF assms(1) a] keeps [OF assms(1) a] frame [OF assms(1) a]
            gives_zeroed [OF assms(1) a] fits [OF assms(1) a] nowrap [OF assms(1) a] g in simp))
    moreover have segs': "segs ?ar = [?g]" using assms(3) by (simp add: segs_def)
    ultimately have "arena_ok ok owns ?ar h'"
      using keeps [OF assms(1) a] assms g by (simp add: arena_ok_def)
    moreover have "alloc_root alloc ar h = Ok (?ar, h')"
      using a assms by (simp add: alloc_root_def arena_alloc_segment_def)
    moreover have "used_places ?ar = seg_place ?g 0 1"
      unfolding used_places_def segs' by (simp add: used_addrs_def g)
    moreover have "zeroed h' (seg_place ?g 0 1)"
    proof -
      have "seg_place ?g 0 1 \<subseteq> seg_addrs g"
        unfolding ga [symmetric] all_addrs_def by (rule seg_place_mono) (use fits [OF assms(1) a] g(2) in simp_all)
      with gives_zeroed [OF assms(1) a] show ?thesis by (auto simp: zeroed_def)
    qed
    ultimately show thesis using segs' by (intro that(2) [of ?ar h' ?g])
  qed
qed

text \<open>Building writes to the places it was given, and keeps the invariant.\<close>

lemma arena_write:
  assumes "arena_ok ok owns ar h" "x \<in> used_places ar"
  shows "arena_ok ok owns ar (h\<lparr>mem := (mem h)(x \<mapsto> w)\<rparr>)"
proof -
  let ?h = "h\<lparr>mem := (mem h)(x \<mapsto> w)\<rparr>"
  from assms have ss: "segs_ok h (owns (ar_alloc ar)) (segs ar)" and inv: "ok (ar_alloc ar) h"
    by (simp_all add: arena_ok_def)
  from assms(2) obtain i where i: "i < length (segs ar)" "x \<in> used_addrs (segs ar ! i)"
    by (auto simp: used_places_def in_set_conv_nth)
  let ?s = "segs ar ! i"
  have own: "owned ?s" using i(2) by (auto simp: used_addrs_def split: if_splits)
  have ok_s: "seg_ok h ?s" using ss i(1) by (simp add: segs_ok_def list_all_length)
  have xs: "x \<in> all_addrs ?s" using used_addrs_all [OF ok_s] i(2) by auto
  have "seg_ok ?h t" if t: "j < length (segs ar)" "t = segs ar ! j" for t j
  proof (cases "owned t \<and> j = i")
    case True
    note d = seg_okD [OF ok_s own]
    have "seg_place ?s 0 (u29_val (used_len ?s)) \<inter>
        seg_place ?s (u29_val (used_len ?s)) (u29_val (seg_len (as_segment ?s)) - u29_val (used_len ?s)) = {}"
      by (rule seg_place_disjoint) (use d(1,2) in auto)
    with i(2) own have "x \<notin> seg_place ?s (u29_val (used_len ?s)) (u29_val (seg_len (as_segment ?s)) - u29_val (used_len ?s))"
      by (auto simp: used_addrs_def)
    with d True t show ?thesis by (intro seg_okI) (auto simp: zeroed_def)
  next
    case False
    have "seg_ok h t" using ss t by (simp add: segs_ok_def list_all_length)
    then show ?thesis
    proof (rule seg_ok_frame)
      show "mem ?h y = mem h y" if y: "owned t" "y \<in> all_addrs t" for y
      proof -
        have "j \<noteq> i" using False y(1) by simp
        with ss t i(1) y(1) own have "all_addrs t \<inter> all_addrs ?s = {}" by (simp add: segs_ok_def apart_def)
        with y(2) xs show ?thesis by auto
      qed
    qed simp
  qed
  then have "segs_ok ?h (owns (ar_alloc ar)) (segs ar)" using ss by (simp add: segs_ok_def list_all_length)
  moreover have "ok (ar_alloc ar) ?h"
  proof (rule inv_local [OF inv])
    fix y assume y: "y \<in> owns (ar_alloc ar)"
    have "all_addrs ?s \<inter> owns (ar_alloc ar) = {}" using ss i(1) own by (simp add: segs_ok_def)
    with xs y show "mem ?h y = mem h y" by auto
  qed
  ultimately show ?thesis using assms(1) by (simp add: arena_ok_def)
qed

end

section \<open>Arenas as read arenas\<close>

definition segment_words :: "heap \<Rightarrow> arena_segment \<Rightarrow> Word list" where
  "segment_words h s = map (\<lambda>x. the (mem h x)) (addr_list (seg_data (as_segment s)) (u29_val (used_len s)))"

definition arena_contents :: "'a arena \<times> heap \<Rightarrow> Word list list" where
  "arena_contents = (\<lambda>(ar, h). map (segment_words h) (segs ar))"

definition segment_readable :: "heap \<Rightarrow> arena_segment \<Rightarrow> bool" where
  "segment_readable h s \<longleftrightarrow> (\<forall>x \<in> seg_place s 0 (u29_val (used_len s)). mem h x \<noteq> None)"

definition arena_readable :: "'a arena \<times> heap \<Rightarrow> bool" where
  "arena_readable = (\<lambda>(ar, h). (first ar = None \<longrightarrow> tail ar = []) \<and> length (tail ar) \<le> MAX_SEGMENTS \<and>
     list_all (segment_readable h) (segs ar))"

lemma read_used_segment:
  "segment_readable h s \<Longrightarrow> as_slice_unchecked h (used_segment s) = Ok (segment_words h s)"
  by (auto simp: as_slice_unchecked_def load_words_def used_segment_def segment_words_def segment_readable_def
      seg_place_def addr_list_def list_all_iff)

lemma length_segment_words [simp]: "length (segment_words h s) = u29_val (used_len s)"
  by (simp add: segment_words_def addr_list_def)

interpretation message_arena: read_arena arena_read_segment "\<lambda>(ar, h). arena_size_in_words ar"
    arena_readable arena_contents
proof unfold_locales
  fix a :: "'a arena \<times> heap" and i
  assume v: "arena_readable a"
  obtain ar h where a: "a = (ar, h)" by force
  from v a have tl: "length (tail ar) \<le> MAX_SEGMENTS" and r: "list_all (segment_readable h) (segs ar)"
    and none: "first ar = None \<longrightarrow> tail ar = []" by (auto simp: arena_readable_def)
  show "length (arena_contents a) < 2 ^ 32"
    using tl by (auto simp: a arena_contents_def segs_def MAX_SEGMENTS_def split: option.split)
  have at: "arena_segment_at ar i = nth_opt (segs ar) (unat i)"
  proof (cases "first ar = None")
    case True
    with none show ?thesis by (auto simp: arena_segment_at_def segs_def nth_opt_def)
  next
    case False
    then show ?thesis by (rule segment_at_segs)
  qed
  show "arena_read_segment a i = Ok (nth_opt (arena_contents a) (unat i))"
    using r by (auto simp: a arena_read_segment_def at arena_contents_def nth_opt_def list_all_length read_used_segment)
  show "(case a of (ar, h) \<Rightarrow> arena_size_in_words ar) = length (concat (arena_contents a))"
    using none by (auto simp: a arena_size_in_words_def arena_contents_def segs_def length_concat comp_def
        split: option.split)
qed

definition single_readable :: "arena_segment \<times> heap \<Rightarrow> bool" where
  "single_readable = (\<lambda>(s, h). segment_readable h s)"

interpretation single_arena: read_arena single_read_segment "\<lambda>(s, h). single_size_in_words s"
    single_readable "\<lambda>(s, h). [segment_words h s]"
  by unfold_locales
     (auto simp: single_readable_def single_read_segment_def single_size_in_words_def nth_opt_def
        read_used_segment unat_eq_0)

lemma arena_ok_readable:
  assumes "arena_ok ok owns ar h"
  shows "arena_readable (ar, h)"
proof -
  have "segment_readable h s" if s: "s \<in> set (segs ar)" for s
  proof -
    have ok: "seg_ok h s" using assms s by (simp add: arena_ok_def segs_ok_def list_all_iff)
    show ?thesis
    proof (cases "as_state s")
      case (Used u)
      then have "owned s" by (simp add: owned_def)
      note d = seg_okD [OF ok this]
      have "seg_place s 0 (u29_val (used_len s)) \<subseteq> all_addrs s"
        unfolding all_addrs_def by (rule seg_place_mono) (use d(1) in simp_all)
      with d(3) show ?thesis by (auto simp: segment_readable_def)
    next
      case ReadOnly
      with ok show ?thesis by (simp add: segment_readable_def seg_ok_def used_len_def all_addrs_def)
    next
      case Deleted
      then show ?thesis by (simp add: segment_readable_def used_len_def seg_place_def)
    qed
  qed
  then show ?thesis using assms by (auto simp: arena_readable_def arena_ok_def list_all_iff)
qed

section \<open>Properties of the arenas\<close>

abbreviation message_alloc :: "global growing scratch alloc_fn" where
  "message_alloc \<equiv> scratch_alloc (growing_alloc global_alloc)"

abbreviation message_ok_arena :: "global growing scratch arena \<Rightarrow> heap \<Rightarrow> bool" where
  "message_ok_arena \<equiv> arena_ok (scratch_inv (\<lambda>_ _. True) (\<lambda>_. {})) (scratch_owns (\<lambda>_. {}))"

text \<open>C4: in a message with scratch space, an allocation does not panic and keeps the arena's
  invariant; a place it hands out lies inside its segment, is zeroed, and overlaps no place handed
  out before, whose contents do not change; if it hands out none, nothing changes in memory.\<close>

theorem message_alloc_places:
  assumes "message_ok_arena ar h"
  shows "\<exists>r ar' h'. arena_alloc message_alloc ar h n = Ok (r, ar', h') \<and> message_ok_arena ar' h' \<and>
    (case r of
       Some (off, i) \<Rightarrow> placed ar h n ar' h' off i
     | None \<Rightarrow> segs ar' = segs ar \<and> mem h' = mem h)"
  by (rule scratch_growing.arena_alloc_placed [OF assms, of n]) auto

text \<open>What a message is read back from: the segment iterator yields for each segment of the
  arena its used words, and the arena's size is their total.\<close>

lemma message_segments_iter:
  assumes "message_ok_arena ar h"
  shows "segments_iter arena_read_segment (ar, h) 0 (Suc (length (segs ar))) =
      Ok (map (segment_words h) (segs ar)) \<and>
    arena_size_in_words ar = length (concat (map (segment_words h) (segs ar))) \<and>
    unat (arena_len ar) = length (segs ar)"
proof -
  note r = arena_ok_readable [OF assms]
  have c: "arena_contents (ar, h) = map (segment_words h) (segs ar)" by (simp add: arena_contents_def)
  from assms have f: "first ar \<noteq> None" "length (tail ar) \<le> MAX_SEGMENTS" by (auto simp: arena_ok_def)
  then have "unat (arena_len ar) = length (segs ar)"
    by (auto simp: arena_len_def segs_def MAX_SEGMENTS_def unat_word_ariths unat_of_nat take_bit_nat_eq_self)
  then show ?thesis
    using message_arena.iter_all [OF r] message_arena.size_total [OF r] by (simp add: c del: segments_iter.simps)
qed

lemma arena_segment_at_append:
  assumes "first ar \<noteq> None"
  shows "arena_segment_at (ar\<lparr>tail := tail ar @ [s]\<rparr>) i =
    (if unat i = length (segs ar) then Some s else arena_segment_at ar i)"
proof -
  have s: "segs (ar\<lparr>tail := tail ar @ [s]\<rparr>) = segs ar @ [s]" by (simp add: segs_def)
  show ?thesis
    using segment_at_segs [of "ar\<lparr>tail := tail ar @ [s]\<rparr>" i] segment_at_segs [OF assms, of i] assms
    by (auto simp: s nth_opt_def nth_append)
qed

text \<open>\<open>insert_external_segment\<close> returns the id of another segment: the external segment
  is stored one id further, and the id returned is that of the segment before it.\<close>

lemma insert_external_wrong_id:
  assumes "first ar \<noteq> None" and "length (tail ar) < MAX_SEGMENTS"
  shows "\<exists>i ar'. insert_external_segment ar e = (Some i, ar') \<and>
    arena_segment_at ar' i = arena_segment_at ar i \<and> arena_segment_at ar i \<noteq> None \<and>
    arena_segment_at ar' (i + 1) = Some (arena_segment_external e i)"
proof -
  let ?i = "of_nat (length (tail ar)) :: u32"
  let ?ar = "ar\<lparr>tail := tail ar @ [arena_segment_external e ?i]\<rparr>"
  have lt: "length (tail ar) + 1 < 2 ^ 32" using assms(2) by (simp add: MAX_SEGMENTS_def)
  then have u: "unat ?i = length (tail ar)" by (simp add: unat_of_nat take_bit_nat_eq_self)
  with lt have u1: "unat (?i + 1) = Suc (length (tail ar))" by (subst unat_add_no_wrap) simp_all
  have len: "length (segs ar) = Suc (length (tail ar))" using assms(1) by (auto simp: segs_def)
  note at = arena_segment_at_append [OF assms(1), of "arena_segment_external e ?i"]
  have "insert_external_segment ar e = (Some ?i, ?ar)"
    using assms(2) by (simp add: insert_external_segment_def Let_def)
  moreover have "arena_segment_at ?ar ?i = arena_segment_at ar ?i" by (simp add: at u len)
  moreover have "arena_segment_at ?ar (?i + 1) = Some (arena_segment_external e ?i)" by (simp add: at u1 len)
  moreover have "arena_segment_at ar ?i \<noteq> None"
    by (simp add: segment_at_segs [OF assms(1)] nth_opt_def u len)
  ultimately show ?thesis by blast
qed

definition witness_root :: arena_segment where
  "witness_root = arena_segment_new \<lparr>seg_data = 64, seg_len = u29_MAX\<rparr> nz29_ONE 0"

lemma insert_external_wrong_id_witness:
  "let ar = \<lparr>first = Some witness_root, tail = [], last_owned = 0, ar_alloc = Global\<rparr>;
       e = \<lparr>seg_data = 640, seg_len = u29_ZERO\<rparr> in
   \<exists>i ar'. insert_external_segment ar e = (Some i, ar') \<and>
    arena_segment_at ar' i = arena_segment_at ar i \<and> arena_segment_at ar i \<noteq> None \<and>
    arena_segment_at ar' (i + 1) = Some (arena_segment_external e i)"
  unfolding Let_def by (rule insert_external_wrong_id) (simp_all add: MAX_SEGMENTS_def)

text \<open>Removing the external segment by the id that inserting it returned deletes the segment the
  message allocates from, and the next allocation panics, for any allocator.\<close>

lemma remove_external_breaks_alloc:
  assumes "first ar = Some s" and "tail ar = []" and "last_owned ar = 0"
  shows "\<exists>i ar1 ar2. insert_external_segment ar e = (Some i, ar1) \<and>
    remove_external_segment ar1 i = Ok ar2 \<and> arena_alloc alloc ar2 h n = Panic"
proof -
  let ?ar1 = "ar\<lparr>tail := [arena_segment_external e 0]\<rparr>"
  let ?ar2 = "?ar1\<lparr>first := Some (segment_delete s)\<rparr>"
  have "insert_external_segment ar e = (Some 0, ?ar1)"
    using assms by (simp add: insert_external_segment_def MAX_SEGMENTS_def Let_def)
  moreover have "remove_external_segment ?ar1 0 = Ok ?ar2"
    using assms by (simp add: remove_external_segment_def arena_segment_at_def arena_put_def)
  moreover have "arena_alloc alloc ?ar2 h n = Panic"
    using assms by (simp add: arena_alloc_def arena_segment_at_def try_use_len_def segment_delete_def)
  ultimately show ?thesis by blast
qed

lemma remove_external_breaks_alloc_witness:
  "let ar = \<lparr>first = Some witness_root, tail = [], last_owned = 0, ar_alloc = Global\<rparr> in
   \<exists>i ar1 ar2. insert_external_segment ar \<lparr>seg_data = 640, seg_len = u29_ZERO\<rparr> = (Some i, ar1) \<and>
    remove_external_segment ar1 i = Ok ar2 \<and>
    arena_alloc global_alloc ar2 \<lparr>mem = Map.empty, choices = []\<rparr> nz29_ONE = Panic"
  unfolding Let_def by (rule remove_external_breaks_alloc) simp_all

text \<open>A message with one word of scratch space, after its root was allocated.\<close>

definition witness_heap :: heap where
  "witness_heap = \<lparr>mem = [64 \<mapsto> Word_NULL], choices = []\<rparr>"

definition witness_space :: segment where
  "witness_space = \<lparr>seg_data = 64, seg_len = u29_of_nz29 nz29_ONE\<rparr>"

definition witness_arena :: "global growing scratch arena" where
  "witness_arena = \<lparr>first = Some (arena_segment_new witness_space nz29_ONE 0), tail = [], last_owned = 0,
     ar_alloc = (with_segment witness_space (growing_new nz29_ONE Global))\<lparr>sc_used := True\<rparr>\<rparr>"

lemma witness_alloc_root:
  "alloc_root message_alloc (arena_new (with_segment witness_space (growing_new nz29_ONE Global))) witness_heap =
    Ok (witness_arena, witness_heap)"
  by (simp add: alloc_root_def arena_alloc_segment_def arena_new_def with_segment_def scratch_alloc_def
      u29_less_iff witness_space_def witness_arena_def)

lemma witness_message: "message_ok_arena witness_arena witness_heap"
proof -
  let ?ar = "arena_new (with_segment witness_space (growing_new nz29_ONE Global))"
  have addrs: "seg_addrs witness_space = {64}"
    by (simp add: seg_addrs_def addr_list_def addr_def witness_space_def)
  moreover have "unat (seg_data witness_space) + 8 * u29_val (seg_len witness_space) \<le> 2 ^ 63"
    by (simp add: witness_space_def)
  ultimately have "scratch_inv (\<lambda>_ _. True) (\<lambda>_. {}) (ar_alloc ?ar) witness_heap"
    by (simp add: scratch_inv_def with_segment_def zeroed_def arena_new_def witness_heap_def)
       (simp add: witness_space_def)
  then show ?thesis
    by (rule scratch_growing.alloc_root_ok) (use witness_alloc_root in \<open>auto simp: arena_new_def\<close>)
qed

theorem message_alloc_places_witness:
  "\<exists>r ar' h'. arena_alloc message_alloc witness_arena witness_heap nz29_ONE = Ok (r, ar', h') \<and>
    message_ok_arena ar' h' \<and>
    (case r of
       Some (off, i) \<Rightarrow> placed witness_arena witness_heap nz29_ONE ar' h' off i
     | None \<Rightarrow> segs ar' = segs witness_arena \<and> mem h' = mem witness_heap)"
  by (rule message_alloc_places [OF witness_message])

lemma message_segments_iter_witness:
  "segments_iter arena_read_segment (witness_arena, witness_heap) 0 2 = Ok [[Word_NULL]]"
proof -
  have "segs witness_arena = [arena_segment_new witness_space nz29_ONE 0]"
    by (simp add: segs_def witness_arena_def)
  moreover have "segment_words witness_heap (arena_segment_new witness_space nz29_ONE 0) = [Word_NULL]"
    by (simp add: segment_words_def arena_segment_new_def used_len_def witness_space_def addr_list_def addr_def
        witness_heap_def)
  ultimately show ?thesis
    using message_segments_iter [OF witness_message] by (simp add: numeral_2_eq_2 del: segments_iter.simps)
qed

end
