(* ===== verification/Obj_Reader.thy ===== *)
theory Obj_Reader
  imports Wire_Ptr Msg_Arena
begin

text \<open>
  Reading objects of a message through its pointers (\<^verbatim>\<open>recapn/src/ptr.rs\<close>, \<open>SegmentReader\<close> and
  \<open>ObjectReader\<close>; \<^verbatim>\<open>recapn/src/alloc.rs\<close>, \<open>SegmentPtr\<close> and \<open>SegmentRef\<close>). A pointer is an
  address; reading a word outside every allocated one is undefined behaviour. The arena is the
  function \<open>ReadArena::segment\<close>. The limiter is shared by all readers of a message: its state, the
  number of words that may still be read, is passed along, and is \<open>None\<close> where there is no limiter.
\<close>

section \<open>Pointers into a segment\<close>

definition ptr_offset :: "u64 \<Rightarrow> u29 \<Rightarrow> u64" where
  "ptr_offset p off = p + 8 * ucast (u29_inner off)"

definition ptr_signed_offset :: "u64 \<Rightarrow> i30 \<Rightarrow> u64" where
  "ptr_signed_offset p off = p + 8 * scast (i30_inner off)"

definition ptr_signed_offset_from_end :: "u64 \<Rightarrow> i30 \<Rightarrow> (rerror, u64) outcome" where
  "ptr_signed_offset_from_end p off =
     obind (i30_new_unwrap 1) (\<lambda>one. Ok (ptr_signed_offset (ptr_signed_offset p one) off))"

definition as_ref_unchecked :: "u64 \<Rightarrow> (rerror, u64) outcome" where
  "as_ref_unchecked p = (if p = 0 then UB else Ok p)"

definition deref :: "heap \<Rightarrow> u64 \<Rightarrow> (rerror, Word) outcome" where
  "deref h p = (case mem h p of Some w \<Rightarrow> Ok w | None \<Rightarrow> UB)"

section \<open>Segment readers\<close>

type_synonym read_segments = "u32 \<Rightarrow> segment option"

record segment_reader =
  sg_data :: u64
  sg_len :: u29
  sg_id :: u32

definition segment_reader_new :: "u32 \<Rightarrow> segment \<Rightarrow> segment_reader" where
  "segment_reader_new i s = \<lparr>sg_data = seg_data s, sg_len = seg_len s, sg_id = i\<rparr>"

definition from_source :: "read_segments \<Rightarrow> u32 \<Rightarrow> segment_reader option" where
  "from_source arena i = map_option (segment_reader_new i) (arena i)"

definition reader_start :: "segment_reader \<Rightarrow> u64 option" where
  "reader_start s = (if sg_len s = u29_ZERO then None else Some (sg_data s))"

text \<open>\<open>end\<close> is computed with \<open>add\<close>, which must not leave the segment's allocation.\<close>

definition reader_end :: "segment_reader \<Rightarrow> (rerror, u64) outcome" where
  "reader_end s = (if unat (sg_data s) + 8 * u29_val (sg_len s) < 2 ^ 64
     then Ok (ptr_offset (sg_data s) (sg_len s)) else UB)"

definition try_get_section :: "segment_reader \<Rightarrow> u64 \<Rightarrow> u29 \<Rightarrow> (rerror, u64 option) outcome" where
  "try_get_section s start len =
     (let e = ptr_offset start len in
      if e < start then Ok None
      else if sg_data s > start then Ok None
      else obind (reader_end s) (\<lambda>seg_end.
        if e > seg_end then Ok None
        else obind (as_ref_unchecked start) (\<lambda>r. Ok (Some r))))"

definition try_get_section_offset :: "segment_reader \<Rightarrow> u29 \<Rightarrow> u29 \<Rightarrow> (rerror, u64 option) outcome" where
  "try_get_section_offset s off len = try_get_section s (ptr_offset (sg_data s) off) len"

section \<open>Reading with a limiter\<close>

type_synonym 'a reading = "u64 option \<Rightarrow> (rerror, 'a) outcome \<times> u64 option"

definition rlift :: "(rerror, 'a) outcome \<Rightarrow> 'a reading" where
  "rlift m = (\<lambda>l. (m, l))"

definition rbind :: "'a reading \<Rightarrow> ('a \<Rightarrow> 'b reading) \<Rightarrow> 'b reading" where
  "rbind m f = (\<lambda>l. case m l of
     (Ok x, l') \<Rightarrow> f x l' | (Err e, l') \<Rightarrow> (Err e, l') | (Panic, l') \<Rightarrow> (Panic, l') | (UB, l') \<Rightarrow> (UB, l'))"

abbreviation rok :: "'a \<Rightarrow> 'a reading" where "rok x \<equiv> rlift (Ok x)"
abbreviation rerr :: "rerror \<Rightarrow> 'a reading" where "rerr e \<equiv> rlift (Err e)"

definition try_amplified_read :: "u64 \<Rightarrow> bool reading" where
  "try_amplified_read words = (\<lambda>l. case l of
     None \<Rightarrow> (Ok True, None)
   | Some k \<Rightarrow> (case limiter_try_read k words of (b, k') \<Rightarrow> (Ok b, Some k')))"

section \<open>Object readers\<close>

record object_reader =
  or_segment :: "segment_reader option"

datatype location = Near u64 | Far u64 | DoubleFar u32 u29

record content =
  ct_ptr :: Word
  ct_location :: location

record struct_content =
  st_ptr :: u64
  st_size :: struct_size

record list_content =
  ls_ptr :: u64
  ls_element_size :: elem_size
  ls_element_count :: u29

datatype typed_content = TStruct struct_content | TList list_content | TCapability u32

definition data_start :: "struct_content \<Rightarrow> u64" where "data_start c = st_ptr c"

definition ptrs_start :: "struct_content \<Rightarrow> (rerror, u64) outcome" where
  "ptrs_start c = obind (u29_from_u16 (ss_data (st_size c))) (\<lambda>n. as_ref_unchecked (ptr_offset (st_ptr c) n))"

definition try_read_object_in :: "read_segments \<Rightarrow> object_reader \<Rightarrow> u32 \<Rightarrow> u29 \<Rightarrow> u29 \<Rightarrow>
    (u64 \<times> object_reader) reading" where
  "try_read_object_in arena r segment off len =
     rbind (rlift (ok_or (MissingSegment segment)
         (case or_segment r of None \<Rightarrow> None | Some _ \<Rightarrow> from_source arena segment))) (\<lambda>reader.
     rbind (rlift (obind (try_get_section_offset reader off len) (ok_or PointerOutOfBounds))) (\<lambda>ptr.
     rbind (try_amplified_read (ucast (u29_inner len))) (\<lambda>b.
       if \<not> b then rerr ReadLimitExceeded
       else rok (ptr, r\<lparr>or_segment := Some reader\<rparr>))))"

definition try_read_object_from_end_of :: "object_reader \<Rightarrow> u64 \<Rightarrow> i30 \<Rightarrow> u29 \<Rightarrow> u64 reading" where
  "try_read_object_from_end_of r ptr off len =
     rbind (rlift (ptr_signed_offset_from_end ptr off)) (\<lambda>start.
     rbind (rlift (case or_segment r of
         Some segment \<Rightarrow> obind (try_get_section segment start len) (ok_or PointerOutOfBounds)
       | None \<Rightarrow> as_ref_unchecked start)) (\<lambda>new_ptr.
     rbind (try_amplified_read (ucast (u29_inner len))) (\<lambda>b.
       if \<not> b then rerr ReadLimitExceeded else rok new_ptr)))"

text \<open>The match on the location that every reader of an object makes.\<close>

definition read_at :: "read_segments \<Rightarrow> object_reader \<Rightarrow> location \<Rightarrow> parts \<Rightarrow> u29 \<Rightarrow>
    (u64 \<times> object_reader) reading" where
  "read_at arena r loc p len = (case loc of
     DoubleFar segment off \<Rightarrow> try_read_object_in arena r segment off len
   | Near origin \<Rightarrow> rbind (rlift (content_offset p)) (\<lambda>off.
       rbind (try_read_object_from_end_of r origin off len) (\<lambda>ptr. rok (ptr, r)))
   | Far origin \<Rightarrow> rbind (rlift (content_offset p)) (\<lambda>off.
       rbind (try_read_object_from_end_of r origin off len) (\<lambda>ptr. rok (ptr, r))))"

text \<open>What the landing pad \<open>pad\<close> of the far pointer \<open>far\<close> describes.\<close>

definition landing_pad_content :: "heap \<Rightarrow> parts \<Rightarrow> u64 \<Rightarrow> (rerror, content) outcome" where
  "landing_pad_content h far pad =
     obind (deref h pad) (\<lambda>pad_ptr.
       if double_far far then
         obind (obind (as_ref_unchecked (ptr_offset pad (u29_clip 1))) (deref h)) (\<lambda>tag.
         obind (try_far_ptr pad_ptr) (\<lambda>far'.
         obind (far_offset far') (\<lambda>off'.
           Ok \<lparr>ct_ptr = tag, ct_location = DoubleFar (far_segment far') off'\<rparr>)))
       else Ok \<lparr>ct_ptr = pad_ptr, ct_location = Far pad\<rparr>)"

definition location_of :: "heap \<Rightarrow> read_segments \<Rightarrow> object_reader \<Rightarrow> u64 \<Rightarrow> (content \<times> object_reader) reading" where
  "location_of h arena r src =
     rbind (rlift (deref h src)) (\<lambda>ptr. case far_ptr ptr of
       None \<Rightarrow> rok (\<lparr>ct_ptr = ptr, ct_location = Near src\<rparr>, r)
     | Some far \<Rightarrow>
         rbind (rlift (unwrap (u29_new (if double_far far then 2 else 1)))) (\<lambda>landing_pad_size.
         rbind (rlift (far_offset far)) (\<lambda>off.
         rbind (try_read_object_in arena r (far_segment far) off landing_pad_size) (\<lambda>(pad, r').
         rbind (rlift (landing_pad_content h far pad)) (\<lambda>c. rok (c, r'))))))"

definition read_as_struct_content :: "read_segments \<Rightarrow> object_reader \<Rightarrow> location \<Rightarrow> parts \<Rightarrow>
    (struct_content \<times> object_reader) reading" where
  "read_as_struct_content arena r loc p =
     (let sz = struct_ptr_size p in
      rbind (rlift (struct_len sz)) (\<lambda>len.
      rbind (read_at arena r loc p len) (\<lambda>(start, r').
        rok (\<lparr>st_ptr = start, st_size = sz\<rparr>, r'))))"

definition try_read_as_struct_content :: "read_segments \<Rightarrow> object_reader \<Rightarrow> content \<Rightarrow>
    (struct_content \<times> object_reader) reading" where
  "try_read_as_struct_content arena r c =
     rbind (rlift (try_struct_ptr (ct_ptr c))) (\<lambda>p. read_as_struct_content arena r (ct_location c) p)"

definition try_read_struct :: "heap \<Rightarrow> read_segments \<Rightarrow> object_reader \<Rightarrow> u64 \<Rightarrow>
    (struct_content \<times> object_reader) reading" where
  "try_read_struct h arena r ptr =
     rbind (location_of h arena r ptr) (\<lambda>(c, r'). try_read_as_struct_content arena r' c)"

definition check_expected :: "elem_size \<Rightarrow> ptr_elem_size \<Rightarrow> ptr_elem_size option \<Rightarrow> unit reading" where
  "check_expected e ptr_element expected_element_size = (case expected_element_size of
     Some expected \<Rightarrow> if \<not> upgradable_to e expected then rerr (fail_upgrade ptr_element expected) else rok ()
   | None \<Rightarrow> rok ())"

definition read_composite_content :: "heap \<Rightarrow> read_segments \<Rightarrow> object_reader \<Rightarrow> location \<Rightarrow> parts \<Rightarrow>
    ptr_elem_size option \<Rightarrow> (list_content \<times> object_reader) reading" where
  "read_composite_content h arena r loc p expected_element_size =
     rbind (rlift (element_count p)) (\<lambda>word_count.
     rbind (rlift (ok_or PointerOutOfBounds (u29_new (u29_inner word_count + 1)))) (\<lambda>len.
     rbind (read_at arena r loc p len) (\<lambda>(tag_ptr, r').
     rbind (rlift (deref h tag_ptr)) (\<lambda>tag_word.
     rbind (rlift (ok_or UnsupportedInlineCompositeElementTag (struct_ptr tag_word))) (\<lambda>tag.
     rbind (rlift (as_ref_unchecked (ptr_offset tag_ptr (u29_clip 1)))) (\<lambda>fst_ptr.
     rbind (rlift (inline_composite_element_count tag)) (\<lambda>count.
       let sz = struct_ptr_size tag in
       rbind (check_expected (InlineComposite sz) (element_size p) expected_element_size) (\<lambda>_.
       let words_per_element = struct_total sz in
       if (ucast (u29_inner count) :: u64) * ucast words_per_element > ucast (u29_inner word_count)
       then rerr InlineCompositeOverrun
       else
         rbind (if words_per_element = 0 then try_amplified_read (ucast (u29_inner count)) else rok True) (\<lambda>b.
           if \<not> b then rerr ReadLimitExceeded
           else rok (\<lparr>ls_ptr = fst_ptr, ls_element_size = InlineComposite sz, ls_element_count = count\<rparr>, r'))))))))))"

definition read_flat_content :: "read_segments \<Rightarrow> object_reader \<Rightarrow> location \<Rightarrow> parts \<Rightarrow>
    ptr_elem_size option \<Rightarrow> (list_content \<times> object_reader) reading" where
  "read_flat_content arena r loc p expected_element_size =
     (let e = to_element_size (element_size p) in
      rbind (check_expected e (element_size p) expected_element_size) (\<lambda>_.
      rbind (rlift (element_count p)) (\<lambda>count.
      rbind (if e = Void then try_amplified_read (ucast (u29_inner count)) else rok True) (\<lambda>b.
        if \<not> b then rerr ReadLimitExceeded
        else
          (let word_count = round_up_bit_count (ucast (u29_inner count) * ucast (bits e)) in
           rbind (rlift (unwrap (u29_new word_count))) (\<lambda>len.
           rbind (read_at arena r loc p len) (\<lambda>(ptr, r').
             rok (\<lparr>ls_ptr = ptr, ls_element_size = e, ls_element_count = count\<rparr>, r'))))))))"

definition read_as_list_content :: "heap \<Rightarrow> read_segments \<Rightarrow> object_reader \<Rightarrow> location \<Rightarrow> parts \<Rightarrow>
    ptr_elem_size option \<Rightarrow> (list_content \<times> object_reader) reading" where
  "read_as_list_content h arena r loc p expected =
     (if element_size p = PInlineComposite then read_composite_content h arena r loc p expected
      else read_flat_content arena r loc p expected)"

definition try_read_as_list_content :: "heap \<Rightarrow> read_segments \<Rightarrow> object_reader \<Rightarrow> content \<Rightarrow>
    ptr_elem_size option \<Rightarrow> (list_content \<times> object_reader) reading" where
  "try_read_as_list_content h arena r c expected =
     rbind (rlift (try_list_ptr (ct_ptr c))) (\<lambda>p. read_as_list_content h arena r (ct_location c) p expected)"

definition try_read_list :: "heap \<Rightarrow> read_segments \<Rightarrow> object_reader \<Rightarrow> u64 \<Rightarrow> ptr_elem_size option \<Rightarrow>
    (list_content \<times> object_reader) reading" where
  "try_read_list h arena r ptr expected =
     rbind (location_of h arena r ptr) (\<lambda>(c, r'). try_read_as_list_content h arena r' c expected)"

definition try_read_typed :: "heap \<Rightarrow> read_segments \<Rightarrow> object_reader \<Rightarrow> u64 \<Rightarrow>
    (typed_content \<times> object_reader) reading" where
  "try_read_typed h arena r src =
     rbind (location_of h arena r src) (\<lambda>(c, r'). case kind (ct_ptr c) of
       KStruct \<Rightarrow> rbind (rlift (unwrap (struct_ptr (ct_ptr c)))) (\<lambda>p.
         rbind (read_as_struct_content arena r' (ct_location c) p) (\<lambda>(s, r''). rok (TStruct s, r'')))
     | KList \<Rightarrow> rbind (rlift (unwrap (list_ptr (ct_ptr c)))) (\<lambda>p.
         rbind (read_as_list_content h arena r' (ct_location c) p None) (\<lambda>(s, r''). rok (TList s, r'')))
     | KOther \<Rightarrow> rbind (rlift (try_cap_ptr (ct_ptr c))) (\<lambda>p. rok (TCapability (capability_index p), r'))
     | KFar \<Rightarrow> rerr (fail_read (ct_ptr c) None))"

section \<open>What a reading may do\<close>

text \<open>\<open>spends n l l'\<close>: the limiter goes from \<open>l\<close> to \<open>l'\<close> by reading \<open>n\<close> words. \<open>reads m P\<close>: from any
  state of the limiter, \<open>m\<close> neither panics nor has undefined behaviour, and a value it returns
  satisfies \<open>P\<close> together with the number of words read.\<close>

definition spends :: "nat \<Rightarrow> u64 option \<Rightarrow> u64 option \<Rightarrow> bool" where
  "spends n l l' \<longleftrightarrow> (case (l, l') of
     (None, None) \<Rightarrow> True | (Some a, Some b) \<Rightarrow> unat a = unat b + n | _ \<Rightarrow> False)"

definition reads :: "'a reading \<Rightarrow> ('a \<Rightarrow> nat \<Rightarrow> bool) \<Rightarrow> bool" where
  "reads m P \<longleftrightarrow> (\<forall>l. safe (fst (m l)) \<and>
     (\<exists>n. spends n l (snd (m l)) \<and> (\<forall>x. fst (m l) = Ok x \<longrightarrow> P x n)))"

lemma spends_0 [simp]: "spends 0 l l"
  by (simp add: spends_def split: option.split)

lemma spends_trans: "spends n l l' \<Longrightarrow> spends k l' l'' \<Longrightarrow> spends (n + k) l l''"
  by (auto simp: spends_def split: option.splits)

lemma readsI:
  assumes "\<And>l. safe (fst (m l))" "\<And>l. \<exists>n. spends n l (snd (m l)) \<and> (\<forall>x. fst (m l) = Ok x \<longrightarrow> P x n)"
  shows "reads m P"
  using assms by (simp add: reads_def)

lemma readsE:
  assumes "reads m P"
  obtains n where "safe (fst (m l))" "spends n l (snd (m l))" "\<And>x. fst (m l) = Ok x \<Longrightarrow> P x n"
  using assms by (auto simp: reads_def)

lemma reads_lift:
  assumes "safe m" "\<And>x. m = Ok x \<Longrightarrow> P x 0"
  shows "reads (rlift m) P"
  by (rule readsI) (use assms in \<open>auto simp: rlift_def intro: exI [of _ 0]\<close>)

lemma reads_ok [intro]: "P x 0 \<Longrightarrow> reads (rok x) P"
  by (rule reads_lift) auto

lemma reads_err [simp, intro]: "reads (rerr e) P"
  by (rule reads_lift) auto

lemma rbind_fst_snd:
  "m l = (Ok x, l') \<Longrightarrow> rbind m f l = f x l'"
  "m l = (Err e, l') \<Longrightarrow> rbind m f l = (Err e, l')"
  by (simp_all add: rbind_def)

lemma reads_bind:
  assumes "reads m P" "\<And>x n. P x n \<Longrightarrow> reads (f x) (\<lambda>y k. Q y (n + k))"
  shows "reads (rbind m f) Q"
proof -
  have "safe (fst (rbind m f l)) \<and> (\<exists>n. spends n l (snd (rbind m f l)) \<and> (\<forall>x. fst (rbind m f l) = Ok x \<longrightarrow> Q x n))"
    for l
  proof -
    obtain o' l' where m: "m l = (o', l')" by force
    obtain n where n: "safe o'" "spends n l l'" "\<And>x. o' = Ok x \<Longrightarrow> P x n"
      by (rule readsE [OF assms(1), of l]) (simp add: m)
    show ?thesis
    proof (cases o')
      case (Ok x)
      from assms(2) [OF n(3) [OF Ok]] obtain k where
        "safe (fst (f x l'))" "spends k l' (snd (f x l'))" "\<forall>y. fst (f x l') = Ok y \<longrightarrow> Q y (n + k)"
        unfolding reads_def by blast
      with m Ok spends_trans [OF n(2)] show ?thesis by (auto simp: rbind_fst_snd)
    qed (use n m in \<open>auto simp: rbind_fst_snd\<close>)
  qed
  then show ?thesis by (simp add: reads_def)
qed

lemma reads_bind_lift:
  assumes "safe m" "\<And>x. m = Ok x \<Longrightarrow> reads (f x) Q"
  shows "reads (rbind (rlift m) f) Q"
  by (rule reads_bind [where P = "\<lambda>x n. n = 0 \<and> m = Ok x"]) (use assms in \<open>auto intro: reads_lift\<close>)

lemma rbind_rok [simp]: "rbind (rok x) f = f x"
  by (rule ext) (simp add: rbind_def rlift_def)

lemma reads_mono:
  assumes "reads m P" "\<And>x n. P x n \<Longrightarrow> Q x n"
  shows "reads m Q"
  using assms unfolding reads_def by fast

lemma reads_amplified: "reads (try_amplified_read w) (\<lambda>b n. n = (if b then unat w else 0))"
proof (rule readsI)
  fix l
  show "safe (fst (try_amplified_read w l))"
    by (simp add: try_amplified_read_def limiter_try_read_def split: option.split)
  show "\<exists>n. spends n l (snd (try_amplified_read w l)) \<and>
      (\<forall>b. fst (try_amplified_read w l) = Ok b \<longrightarrow> n = (if b then unat w else 0))"
  proof (cases l)
    case None
    then show ?thesis by (auto simp: try_amplified_read_def spends_def)
  next
    case (Some k)
    show ?thesis
      by (rule exI [of _ "if w \<le> k then unat w else 0"])
         (use Some in \<open>auto simp: try_amplified_read_def limiter_try_read_def spends_def unat_sub_no_wrap word_le_nat_alt\<close>)
  qed
qed

lemma reads_limited:
  assumes "P (unat w)"
  shows "reads (rbind (try_amplified_read w) (\<lambda>b. if \<not> b then rerr e else rok x)) (\<lambda>y n. y = x \<and> P n)"
  by (rule reads_bind [OF reads_amplified]) (use assms in \<open>auto intro!: reads_ok\<close>)

section \<open>Sections of a segment\<close>

definition seg_safe :: "heap \<Rightarrow> segment \<Rightarrow> bool" where
  "seg_safe h s \<longleftrightarrow> seg_data s \<noteq> 0 \<and> unat (seg_data s) + 8 * u29_val (seg_len s) < 2 ^ 64 \<and>
     (\<forall>k < u29_val (seg_len s). mem h (addr (seg_data s) k) \<noteq> None)"

definition inside :: "segment_reader \<Rightarrow> u64 \<Rightarrow> nat \<Rightarrow> bool" where
  "inside s p n \<longleftrightarrow> (\<exists>k. p = addr (sg_data s) k \<and> k + n \<le> u29_val (sg_len s))"

definition sg_segment :: "segment_reader \<Rightarrow> segment" where
  "sg_segment s = \<lparr>seg_data = sg_data s, seg_len = sg_len s\<rparr>"

definition aligned :: "segment_reader \<Rightarrow> u64 \<Rightarrow> bool" where
  "aligned s p \<longleftrightarrow> (\<exists>m. p = sg_data s + 8 * m)"

lemma addr_aligned [simp]: "aligned s (addr (sg_data s) k)"
  by (auto simp: aligned_def addr_def)

lemma inside_aligned: "inside s p n \<Longrightarrow> aligned s p"
  by (auto simp: inside_def)

lemma aligned_offset: "aligned s p \<Longrightarrow> aligned s (ptr_offset p off)"
  unfolding aligned_def ptr_offset_def by (metis (no_types) add.assoc distrib_left)

lemma aligned_signed: "aligned s p \<Longrightarrow> aligned s (ptr_signed_offset p off)"
  unfolding aligned_def ptr_signed_offset_def by (metis (no_types) add.assoc distrib_left)

lemma aligned_data [simp]: "aligned s (sg_data s)"
  unfolding aligned_def by (rule exI [of _ 0]) simp

lemma unat_ptr_step: "unat (8 * ucast (u29_inner n) :: u64) = 8 * u29_val n"
proof -
  have "8 * u29_val n < 2 ^ 64" using u29_val_less [of n] by simp
  then have "unat (8 :: u64) * unat (ucast (u29_inner n) :: u64) < 2 ^ LENGTH(64)" by simp
  then show ?thesis by (subst unat_mult_no_wrap) simp_all
qed

lemma ptr_offset_addr: "ptr_offset p n = addr p (u29_val n)"
proof -
  have "(ucast (u29_inner n) :: u64) = of_nat (u29_val n)"
    using u29_val_less [of n] by (intro unsigned_word_eqI) (simp add: unat_of_nat take_bit_nat_eq_self)
  then show ?thesis by (simp add: ptr_offset_def addr_def)
qed

lemma addr_addr: "addr (addr p i) j = addr p (i + j)"
  by (simp add: addr_def algebra_simps)

lemma aligned_between:
  assumes "aligned s p" "sg_data s \<le> p"
  obtains k where "p = addr (sg_data s) k" "unat p = unat (sg_data s) + 8 * k"
proof -
  obtain m where m: "p = sg_data s + 8 * m" using assms(1) by (auto simp: aligned_def)
  let ?d = "p - sg_data s"
  have d: "unat p = unat (sg_data s) + unat ?d" using assms(2) by (simp add: unat_sub_no_wrap word_le_nat_alt)
  have "?d = 8 * m" by (simp add: m)
  then have "unat ?d = (8 * unat m) mod 2 ^ 64" by (simp add: unat_word_ariths)
  then have "unat ?d mod 8 = 0" by (simp add: mod_mod_cancel)
  then obtain k where k: "unat ?d = 8 * k" by (auto simp: mod_eq_0_iff_dvd)
  have "?d = of_nat (8 * k)" by (metis k of_nat_unat ucast_id)
  then have "p = addr (sg_data s) k" by (simp add: addr_def algebra_simps)
  with d k show thesis by (intro that) simp_all
qed

lemma try_get_section_ok:
  assumes "seg_safe h (sg_segment s)" "aligned s start"
  shows "case try_get_section s start len of
      Ok (Some p) \<Rightarrow> p = start \<and> inside s start (u29_val len) | Ok None \<Rightarrow> True | _ \<Rightarrow> False"
proof -
  let ?e = "ptr_offset start len"
  from assms(1) have z: "sg_data s \<noteq> 0" and b: "unat (sg_data s) + 8 * u29_val (sg_len s) < 2 ^ 64"
    by (simp_all add: seg_safe_def sg_segment_def)
  have en: "unat (ptr_offset (sg_data s) (sg_len s)) = unat (sg_data s) + 8 * u29_val (sg_len s)"
    using b by (simp add: ptr_offset_def unat_add_no_wrap unat_ptr_step)
  show ?thesis
  proof (cases "?e < start \<or> sg_data s > start \<or> ?e > ptr_offset (sg_data s) (sg_len s)")
    case True
    with b show ?thesis by (auto simp: try_get_section_def Let_def reader_end_def)
  next
    case False
    then have c: "start \<le> ?e" "sg_data s \<le> start" "?e \<le> ptr_offset (sg_data s) (sg_len s)" by auto
    then have "start \<noteq> 0" using z by auto
    with False b have eq: "try_get_section s start len = Ok (Some start)"
      by (auto simp: try_get_section_def Let_def reader_end_def as_ref_unchecked_def)
    obtain k where k: "start = addr (sg_data s) k" "unat start = unat (sg_data s) + 8 * k"
      using assms(2) c(2) by (rule aligned_between)
    have "unat ?e = unat start + 8 * u29_val len"
    proof -
      have "unat start + 8 * u29_val len < 2 ^ 64"
      proof (rule ccontr)
        assume "\<not> ?thesis"
        moreover have "8 * u29_val len < 2 ^ 64" using u29_val_less [of len] by simp
        moreover have "unat start < 2 ^ 64" using unsigned_less [of start] by simp
        moreover have "unat ?e = (unat start + 8 * u29_val len) mod 2 ^ 64"
          by (simp add: ptr_offset_def unat_word_ariths(1) unat_ptr_step)
        moreover from calculation have "(unat start + 8 * u29_val len) mod 2 ^ 64 = unat start + 8 * u29_val len - 2 ^ 64"
          by (subst le_mod_geq) (simp_all only: not_less, simp)
        ultimately have "unat ?e < unat start" by linarith
        with c(1) show False by (simp add: word_le_nat_alt)
      qed
      then show ?thesis by (simp add: ptr_offset_def unat_add_no_wrap unat_ptr_step)
    qed
    with c(3) k(2) en have "k + u29_val len \<le> u29_val (sg_len s)" by (simp add: word_le_nat_alt)
    with eq k(1) show ?thesis by (auto simp: inside_def)
  qed
qed

section \<open>Objects of a readable arena\<close>

text \<open>An arena serves segments whose words are allocated; \<open>valid\<close> is the arena's invariant.\<close>

locale segment_source =
  fixes segment_of :: "'a \<Rightarrow> read_segments"
    and valid :: "'a \<Rightarrow> heap \<Rightarrow> bool"
  assumes served: "valid a h \<Longrightarrow> segment_of a i = Some s \<Longrightarrow> seg_safe h s"

definition seg_of :: "object_reader \<Rightarrow> segment_reader" where
  "seg_of r = the (or_segment r)"

definition reader_ok :: "heap \<Rightarrow> object_reader \<Rightarrow> bool" where
  "reader_ok h r \<longleftrightarrow> or_segment r \<noteq> None \<and> seg_safe h (sg_segment (seg_of r))"

definition location_ok :: "object_reader \<Rightarrow> location \<Rightarrow> bool" where
  "location_ok r loc \<longleftrightarrow> (case loc of
     Near origin \<Rightarrow> aligned (seg_of r) origin | Far origin \<Rightarrow> aligned (seg_of r) origin | DoubleFar _ _ \<Rightarrow> True)"

text \<open>The words a located object takes in the message, and whether they lie in the reader's segment.\<close>

fun object_size :: "typed_content \<Rightarrow> nat" where
  "object_size (TStruct s) = unat (ss_data (st_size s)) + unat (ss_ptrs (st_size s))"
| "object_size (TList l) = list_object_words (ls_element_size l) (u29_val (ls_element_count l))"
| "object_size (TCapability i) = 0"

fun object_inside :: "segment_reader \<Rightarrow> typed_content \<Rightarrow> bool" where
  "object_inside s (TStruct c) \<longleftrightarrow> inside s (st_ptr c) (object_size (TStruct c))"
| "object_inside s (TList l) \<longleftrightarrow> inside s (ls_ptr l)
     (object_size (TList l) - (if is_inline_composite (ls_element_size l) then 1 else 0))"
| "object_inside s (TCapability i) \<longleftrightarrow> True"

text \<open>An object read for \<open>n\<close> words lies in the reader's segment and is no larger than what was paid
  for it, and a list has at most 64 elements for each word paid, also where elements take no space.\<close>

definition located :: "object_reader \<Rightarrow> typed_content \<Rightarrow> nat \<Rightarrow> bool" where
  "located r t n \<longleftrightarrow> object_inside (seg_of r) t \<and> object_size t \<le> n \<and>
     (case t of TList l \<Rightarrow> u29_val (ls_element_count l) \<le> 64 * n | _ \<Rightarrow> True)"

lemma inside_deref:
  assumes "seg_safe h (sg_segment s)" "inside s p n" "0 < n"
  shows "safe (deref h p)"
proof -
  from assms(2,3) obtain k where k: "p = addr (sg_data s) k" "k < u29_val (sg_len s)" by (auto simp: inside_def)
  with assms(1) have "mem h p \<noteq> None" by (simp add: seg_safe_def sg_segment_def)
  then show ?thesis by (auto simp: deref_def)
qed

lemma inside_mono: "inside s p n \<Longrightarrow> m \<le> n \<Longrightarrow> inside s p m"
  by (force simp: inside_def)

lemma inside_step:
  assumes "inside s p n" "m \<le> n"
  shows "inside s (addr p m) (n - m)"
proof -
  from assms obtain k where "p = addr (sg_data s) k" "k + n \<le> u29_val (sg_len s)" by (auto simp: inside_def)
  with assms(2) show ?thesis unfolding inside_def by (intro exI [of _ "k + m"]) (simp add: addr_addr)
qed

lemma inside_nonnull:
  assumes "seg_safe h (sg_segment s)" "inside s p n"
  shows "p \<noteq> 0"
proof -
  from assms(2) obtain k where k: "p = addr (sg_data s) k" "k + n \<le> u29_val (sg_len s)" by (auto simp: inside_def)
  from assms(1) have z: "sg_data s \<noteq> 0" and b: "unat (sg_data s) + 8 * u29_val (sg_len s) < 2 ^ 64"
    by (simp_all add: seg_safe_def sg_segment_def)
  have "unat (of_nat k :: u64) = k" using k(2) b by (simp add: unat_of_nat take_bit_nat_eq_self)
  then have "unat p = unat (sg_data s) + 8 * k"
    using k b by (simp add: addr_def unat_word_ariths)
  with z show ?thesis by (auto simp: unat_eq_0)
qed

lemma aligned_from_end:
  assumes "aligned s p"
  obtains start where "ptr_signed_offset_from_end p off = Ok start" "aligned s start"
proof -
  obtain one where "i30_new_unwrap 1 = (Ok one :: (rerror, i30) outcome)"
    by (simp add: i30_new_unwrap_def i30_new_eq)
  with assms show thesis
    by (intro that [of "ptr_signed_offset (ptr_signed_offset p one) off"])
       (simp_all add: ptr_signed_offset_from_end_def aligned_signed)
qed

lemma safe_far_offset: "safe (far_offset p)"
  by (rule drop_3_new [of "lower p"]) (simp add: far_offset_def)

lemma safe_element_count: "safe (element_count p)"
  by (rule drop_3_new [of "upper p"]) (simp add: element_count_def)

context segment_source
begin

lemma from_source_ok:
  assumes "valid a h" "from_source (segment_of a) i = Some s"
  shows "seg_safe h (sg_segment s)" "sg_id s = i"
proof -
  from assms(2) obtain g where g: "segment_of a i = Some g" "s = segment_reader_new i g"
    by (auto simp: from_source_def)
  with served [OF assms(1) g(1)] show "seg_safe h (sg_segment s)" "sg_id s = i"
    by (simp_all add: segment_reader_new_def sg_segment_def seg_safe_def)
qed

lemma section_outcome:
  assumes "seg_safe h (sg_segment s)" "aligned s start"
  shows "safe (obind (try_get_section s start len) (ok_or PointerOutOfBounds))"
    "obind (try_get_section s start len) (ok_or PointerOutOfBounds) = Ok p \<Longrightarrow> inside s p (u29_val len)"
  using try_get_section_ok [OF assms(1,2), of len]
  by (auto split: outcome.splits option.splits)

lemma read_object_in:
  assumes "valid a h" "reader_ok h r"
  shows "reads (try_read_object_in (segment_of a) r i off len)
    (\<lambda>(p, r') n. n = u29_val len \<and> reader_ok h r' \<and> inside (seg_of r') p (u29_val len))"
proof -
  have "reads (rbind (rlift (obind (try_get_section_offset s off len) (ok_or PointerOutOfBounds))) (\<lambda>ptr.
      rbind (try_amplified_read (ucast (u29_inner len))) (\<lambda>b.
       if \<not> b then rerr ReadLimitExceeded else rok (ptr, r\<lparr>or_segment := Some s\<rparr>))))
     (\<lambda>(p, r') n. n = u29_val len \<and> reader_ok h r' \<and> inside (seg_of r') p (u29_val len))"
    if "from_source (segment_of a) i = Some s" for s
  proof (rule reads_bind_lift)
    note s = from_source_ok [OF assms(1) that]
    note sec = section_outcome [OF s(1) aligned_offset [OF aligned_data, where off = off]]
    show "safe (obind (try_get_section_offset s off len) (ok_or PointerOutOfBounds))"
      unfolding try_get_section_offset_def by (rule sec(1))
    fix p assume p: "obind (try_get_section_offset s off len) (ok_or PointerOutOfBounds) = Ok p"
    have i: "inside s p (u29_val len)"
      using p unfolding try_get_section_offset_def by (rule sec(2))
    show "reads (rbind (try_amplified_read (ucast (u29_inner len))) (\<lambda>b.
       if \<not> b then rerr ReadLimitExceeded else rok (p, r\<lparr>or_segment := Some s\<rparr>)))
      (\<lambda>(p, r') n. n = u29_val len \<and> reader_ok h r' \<and> inside (seg_of r') p (u29_val len))"
      by (rule reads_mono [OF reads_limited [where P = "\<lambda>n. n = u29_val len"]])
         (use i s in \<open>auto simp: reader_ok_def seg_of_def\<close>)
  qed
  then show ?thesis
    unfolding try_read_object_in_def
    by (rule reads_bind_lift [OF safe_ok_or]) (auto split: option.splits)
qed

lemma read_object_from_end_of:
  assumes "reader_ok h r" "aligned (seg_of r) origin"
  shows "reads (try_read_object_from_end_of r origin off len)
    (\<lambda>p n. n = u29_val len \<and> inside (seg_of r) p (u29_val len))"
proof -
  from assms(1) obtain s where s: "or_segment r = Some s" "seg_safe h (sg_segment s)" "seg_of r = s"
    by (auto simp: reader_ok_def seg_of_def)
  obtain start where st: "ptr_signed_offset_from_end origin off = Ok start" "aligned s start"
    using assms(2) unfolding s(3) by (rule aligned_from_end)
  note sec = section_outcome [OF s(2) st(2), where len = len]
  show ?thesis
    unfolding try_read_object_from_end_of_def st(1) s(3)
  proof (intro reads_bind_lift, goal_cases)
    case (2 x)
    then show ?case using s(1) sec(1) by auto
  next
    case (3 x p)
    then have "inside s p (u29_val len)" using s(1) sec(2) by auto
    then show ?case
      by (intro reads_mono [OF reads_limited [where P = "\<lambda>n. n = u29_val len"]]) auto
  qed simp
qed

lemma read_at_ok:
  assumes "valid a h" "reader_ok h r" "location_ok r loc"
  shows "reads (read_at (segment_of a) r loc p len)
    (\<lambda>(q, r') n. n = u29_val len \<and> reader_ok h r' \<and> inside (seg_of r') q (u29_val len))"
proof -
  obtain off where off: "content_offset p = (Ok off :: (rerror, i30) outcome)" by (rule content_offset_total)
  have near: "reads (rbind (rlift (content_offset p)) (\<lambda>off.
       rbind (try_read_object_from_end_of r origin off len) (\<lambda>ptr. rok (ptr, r))))
     (\<lambda>(q, r') n. n = u29_val len \<and> reader_ok h r' \<and> inside (seg_of r') q (u29_val len))"
    if "aligned (seg_of r) origin" for origin
    unfolding off
    by (rule reads_bind_lift, simp, simp, rule reads_bind [OF read_object_from_end_of [OF assms(2) that]])
       (use assms(2) in auto)
  show ?thesis
    using assms(3) near read_object_in [OF assms(1,2)]
    by (cases loc) (simp_all add: read_at_def location_ok_def)
qed

lemma landing_pad_ok:
  assumes "reader_ok h r" "inside (seg_of r) p (if double_far far then 2 else 1)"
  shows "safe (landing_pad_content h far p)"
    "landing_pad_content h far p = Ok c \<Longrightarrow> location_ok r (ct_location c)"
proof -
  have seg: "seg_safe h (sg_segment (seg_of r))" using assms(1) by (simp add: reader_ok_def)
  have pad: "safe (deref h p)" by (rule inside_deref [OF seg assms(2)]) simp
  have tag: "safe (obind (as_ref_unchecked (ptr_offset p (u29_clip 1))) (deref h))" if "double_far far"
  proof -
    have "inside (seg_of r) (addr p 1) (2 - 1)" by (rule inside_step) (use assms(2) that in simp_all)
    then have one: "inside (seg_of r) (addr p 1) 1" by simp
    have "ptr_offset p (u29_clip 1) = addr p 1" by (simp add: ptr_offset_addr)
    then show ?thesis using inside_nonnull [OF seg one] inside_deref [OF seg one]
      by (simp add: as_ref_unchecked_def)
  qed
  show "safe (landing_pad_content h far p)"
    unfolding landing_pad_content_def using pad tag
    by (auto simp: safe_obind_iff try_far_ptr_def safe_far_offset)
  show "landing_pad_content h far p = Ok c \<Longrightarrow> location_ok r (ct_location c)"
    using inside_aligned [OF assms(2)]
    by (auto simp: landing_pad_content_def location_ok_def obind_Ok_iff split: if_splits)
qed

lemma location_of_ok:
  assumes "valid a h" "reader_ok h r" "inside (seg_of r) src 1"
  shows "reads (location_of h (segment_of a) r src)
    (\<lambda>(c, r') n. reader_ok h r' \<and> location_ok r' (ct_location c))"
  unfolding location_of_def
proof (rule reads_bind_lift, goal_cases)
  case 1
  have "seg_safe h (sg_segment (seg_of r))" using assms(2) by (simp add: reader_ok_def)
  then show ?case by (rule inside_deref [OF _ assms(3)]) simp
next
  case (2 w)
  show ?case
  proof (cases "far_ptr w")
    case None
    then show ?thesis using assms by (auto simp: location_ok_def inside_aligned)
  next
    case (Some far)
    show ?thesis
      unfolding Some option.case
    proof (rule reads_bind_lift, simp add: u29_new_eq, rule reads_bind_lift [OF safe_far_offset],
        rule reads_bind [OF read_object_in [OF assms(1,2)]], goal_cases)
      case (1 len off x n)
      then obtain pad r' where x: "x = (pad, r')" "reader_ok h r'"
        "inside (seg_of r') pad (if double_far far then 2 else 1)"
        by (cases x) (auto simp: u29_new_eq split: if_splits)
      show ?case
        unfolding x(1) prod.case
        by (rule reads_bind_lift [OF landing_pad_ok(1) [OF x(2,3)]])
           (use x(2) landing_pad_ok(2) [OF x(2,3)] in auto)
    qed
  qed
qed

lemma struct_content_ok:
  assumes "valid a h" "reader_ok h r" "location_ok r loc"
  shows "reads (read_as_struct_content (segment_of a) r loc p)
    (\<lambda>(c, r') n. reader_ok h r' \<and> located r' (TStruct c) n)"
proof -
  note len = struct_len_Ok [of "struct_ptr_size p"]
  have v: "u29_val (u29_clip (struct_total (struct_ptr_size p))) =
      unat (ss_data (struct_ptr_size p)) + unat (ss_ptrs (struct_ptr_size p))"
    using struct_len_val [OF struct_len_Ok] .
  show ?thesis
    unfolding read_as_struct_content_def Let_def len
    by (rule reads_bind_lift, simp, simp, rule reads_bind [OF read_at_ok [OF assms]])
       (auto simp: v located_def)
qed

lemma composite_bound:
  assumes "\<not> (ucast (u29_inner word_count) :: u64) < ucast (u29_inner count) * ucast (struct_total sz)"
  shows "u29_val count * (unat (ss_data sz) + unat (ss_ptrs sz)) \<le> u29_val word_count"
proof -
  have "u29_val count * unat (struct_total sz) \<le> 2 ^ 29 * 131070"
    using u29_val_less [of count] unat_struct_total_less [of sz] by (intro mult_le_mono) simp_all
  then have "unat (ucast (u29_inner count) * ucast (struct_total sz) :: u64) = u29_val count * unat (struct_total sz)"
    by (subst unat_mult_no_wrap) simp_all
  with assms show ?thesis by (simp add: word_less_nat_alt unat_struct_total)
qed

lemma check_expected_ok: "reads (check_expected e pe ex) (\<lambda>_ n. n = 0)"
  by (auto simp: check_expected_def split: option.split)

lemma composite_content_ok:
  assumes "valid a h" "reader_ok h r" "location_ok r loc"
  shows "reads (read_composite_content h (segment_of a) r loc p ex)
    (\<lambda>(c, r') n. reader_ok h r' \<and> located r' (TList c) n)"
  unfolding read_composite_content_def Let_def
proof (rule reads_bind_lift [OF safe_element_count], rule reads_bind_lift [OF safe_ok_or],
    rule reads_bind [OF read_at_ok [OF assms]], goal_cases)
  case (1 word_count len x n)
  have "u29_inner len = u29_inner word_count + 1" using 1(2) by (simp add: u29_new_Some_iff)
  moreover have "unat (u29_inner word_count + 1) = u29_val word_count + 1"
    using u29_val_less [of word_count] by (subst unat_add_no_wrap) simp_all
  ultimately have l: "u29_val len = u29_val word_count + 1" by simp
  obtain t r' where x: "x = (t, r')" by force
  with 1(3) have n: "n = u29_val word_count + 1" and r': "reader_ok h r'"
    and i: "inside (seg_of r') t (u29_val word_count + 1)" by (simp_all add: l)
  have seg: "seg_safe h (sg_segment (seg_of r'))" using r' by (simp add: reader_ok_def)
  have d: "safe (deref h t)" by (rule inside_deref [OF seg i]) simp
  have f: "ptr_offset t (u29_clip 1) = addr t 1" by (simp add: ptr_offset_addr)
  have j: "inside (seg_of r') (addr t 1) (u29_val word_count)"
    using inside_step [OF i, of 1] by simp
  show ?case
    unfolding x prod.case f
  proof (rule reads_bind_lift [OF d], rule reads_bind_lift [OF safe_ok_or], rule reads_bind_lift, goal_cases)
    case 1
    then show ?case using inside_nonnull [OF seg j] by (simp add: as_ref_unchecked_def)
  next
    case (2 w tag q)
    then have q: "q = addr t 1" using inside_nonnull [OF seg j] by (simp add: as_ref_unchecked_def)
    obtain c where c: "inline_composite_element_count tag = (Ok c :: (rerror, u29) outcome)"
      by (rule composite_count_total)
    let ?sz = "struct_ptr_size tag"
    show ?case
      unfolding c rbind_rok
    proof (rule reads_bind [OF check_expected_ok], goal_cases)
      case (1 _ k)
      show ?case
      proof (cases "(ucast (u29_inner word_count) :: u64) < ucast (u29_inner c) * ucast (struct_total ?sz)")
        case True
        then show ?thesis by simp
      next
        case False
        then have b: "u29_val c * (unat (ss_data ?sz) + unat (ss_ptrs ?sz)) \<le> u29_val word_count"
          by (rule composite_bound)
        have z: "u29_val c \<le> u29_val word_count" if "struct_total ?sz \<noteq> 0"
        proof -
          have "0 < unat (ss_data ?sz) + unat (ss_ptrs ?sz)"
            using that unat_struct_total [of ?sz] by (metis unat_gt_0)
          then have "u29_val c * 1 \<le> u29_val c * (unat (ss_data ?sz) + unat (ss_ptrs ?sz))"
            by (intro mult_le_mono2) linarith
          with b show ?thesis by linarith
        qed
        have amp: "reads (if struct_total ?sz = 0 then try_amplified_read (ucast (u29_inner c)) else rok True)
            (\<lambda>b k. b \<longrightarrow> struct_total ?sz = 0 \<longrightarrow> u29_val c \<le> k)"
          by (auto intro: reads_mono [OF reads_amplified])
        have loc: "located r' (TList \<lparr>ls_ptr = q, ls_element_size = InlineComposite ?sz, ls_element_count = c\<rparr>) (n + (k + (m + 0)))"
          if "struct_total ?sz = 0 \<longrightarrow> u29_val c \<le> m" for m
          using that b z n inside_mono [OF j b] q by (auto simp: located_def list_object_words_def)
        show ?thesis
          unfolding if_not_P [OF False]
          by (rule reads_bind [OF amp]) (use loc r' in \<open>auto intro!: reads_ok\<close>)
      qed
    qed
  qed
qed

lemma flat_words:
  fixes e :: elem_size
  assumes "\<not> is_inline_composite e"
  shows "unat (round_up_bit_count (ucast (u29_inner n) * ucast (bits e))) = list_object_words e (u29_val n)"
    "list_object_words e (u29_val n) < 2 ^ 29" "e \<noteq> Void \<Longrightarrow> u29_val n \<le> 64 * list_object_words e (u29_val n)"
proof -
  have "round_up_bit_count (ucast (u29_inner n) * ucast (bits e)) = total_words e n"
    by (simp add: total_words_def Let_def mult.commute)
  moreover have w: "list_object_words e (u29_val n) = (unat (bits e) * u29_val n + 63) div 64"
    using assms by (cases e) (simp_all add: list_object_words_def)
  ultimately show "unat (round_up_bit_count (ucast (u29_inner n) * ucast (bits e))) = list_object_words e (u29_val n)"
    using total_words_plain [OF assms] by simp
  have "unat (bits e) \<le> 64" using assms by (cases e) (auto simp: unat_bits)
  then have "unat (bits e) * u29_val n \<le> 64 * (2 ^ 29 - 1)"
    using u29_val_less [of n] by (intro mult_le_mono) simp_all
  then show "list_object_words e (u29_val n) < 2 ^ 29" unfolding w by simp
  assume "e \<noteq> Void"
  then have "1 \<le> unat (bits e)" using assms by (cases e) (auto simp: unat_bits)
  then have "1 * u29_val n \<le> unat (bits e) * u29_val n" by (rule mult_le_mono1)
  then have "u29_val n \<le> unat (bits e) * u29_val n" by (simp only: mult_1)
  also have "\<dots> \<le> 64 * ((unat (bits e) * u29_val n + 63) div 64)" by arith
  finally show "u29_val n \<le> 64 * list_object_words e (u29_val n)" unfolding w .
qed

lemma flat_content_ok:
  assumes "valid a h" "reader_ok h r" "location_ok r loc" "element_size p \<noteq> PInlineComposite"
  shows "reads (read_flat_content (segment_of a) r loc p ex)
    (\<lambda>(c, r') n. reader_ok h r' \<and> located r' (TList c) n)"
proof -
  let ?e = "to_element_size (element_size p)"
  have flat: "\<not> is_inline_composite ?e" using assms(4) by (cases "element_size p") auto
  have amp: "reads (if ?e = Void then try_amplified_read (ucast (u29_inner c)) else rok True)
      (\<lambda>b k. b \<longrightarrow> ?e = Void \<longrightarrow> u29_val c \<le> k)" for c
    by (auto intro: reads_mono [OF reads_amplified])
  show ?thesis
    unfolding read_flat_content_def Let_def
  proof (rule reads_bind [OF check_expected_ok], rule reads_bind_lift [OF safe_element_count],
      rule reads_bind [OF amp], goal_cases)
    case (1 _ k c b m)
    note w = flat_words [OF flat, of c]
    have new: "u29_new (round_up_bit_count (ucast (u29_inner c) * ucast (bits ?e))) =
        Some (u29_clip (round_up_bit_count (ucast (u29_inner c) * ucast (bits ?e))))"
      using w(1,2) by (simp add: u29_new_eq)
    show ?case
    proof (cases b)
      case True
      have loc: "located r' (TList \<lparr>ls_ptr = q, ls_element_size = ?e, ls_element_count = c\<rparr>) (k + (m + (j + 0)))"
        if "j = list_object_words ?e (u29_val c)" "inside (seg_of r') q j" for q r' j
        using 1 True that w(3) flat by (auto simp: located_def)
      show ?thesis
        unfolding new using True
        by (auto intro!: reads_bind [OF read_at_ok [OF assms(1-3)]] reads_ok) (use w loc in auto)
    qed simp
  qed
qed

lemma list_content_ok:
  assumes "valid a h" "reader_ok h r" "location_ok r loc"
  shows "reads (read_as_list_content h (segment_of a) r loc p ex)
    (\<lambda>(c, r') n. reader_ok h r' \<and> located r' (TList c) n)"
  using composite_content_ok [OF assms] flat_content_ok [OF assms]
  by (simp add: read_as_list_content_def)

lemma located_more: "located r t n \<Longrightarrow> n \<le> m \<Longrightarrow> located r t m"
  by (auto simp: located_def split: typed_content.splits)

lemma try_read_typed_ok:
  assumes "valid a h" "reader_ok h r" "inside (seg_of r) src 1"
  shows "reads (try_read_typed h (segment_of a) r src) (\<lambda>(t, r') n. reader_ok h r' \<and> located r' t n)"
  unfolding try_read_typed_def
proof (rule reads_bind [OF location_of_ok [OF assms]], goal_cases)
  case (1 x n)
  obtain c r' where x: "x = (c, r')" by force
  with 1 have r': "reader_ok h r'" "location_ok r' (ct_location c)" by auto
  note st = struct_content_ok [OF assms(1) r'] and ls = list_content_ok [OF assms(1) r']
  show ?case
  proof (cases "kind (ct_ptr c)")
    case KStruct
    then show ?thesis
      unfolding x prod.case
      by (auto simp: struct_ptr_def is_struct_def intro!: reads_bind [OF st] reads_ok elim: located_more)
  next
    case KList
    then show ?thesis
      unfolding x prod.case
      by (auto simp: list_ptr_def is_list_def intro!: reads_bind [OF ls] reads_ok elim: located_more)
  next
    case KFar
    then show ?thesis unfolding x prod.case by simp
  next
    case KOther
    then show ?thesis
      unfolding x prod.case using r'
      by (auto simp: try_cap_ptr_def located_def intro!: reads_bind_lift reads_ok)
  qed
qed

lemma try_read_struct_ok:
  assumes "valid a h" "reader_ok h r" "inside (seg_of r) src 1"
  shows "reads (try_read_struct h (segment_of a) r src) (\<lambda>(c, r') n. reader_ok h r' \<and> located r' (TStruct c) n)"
  unfolding try_read_struct_def
proof (rule reads_bind [OF location_of_ok [OF assms]], goal_cases)
  case (1 x n)
  obtain c r' where x: "x = (c, r')" by force
  with 1 have r': "reader_ok h r'" "location_ok r' (ct_location c)" by auto
  show ?case
    unfolding x prod.case try_read_as_struct_content_def try_struct_ptr_def
    by (rule reads_bind_lift [OF safe_ok_or], rule reads_mono [OF struct_content_ok [OF assms(1) r']])
       (auto elim: located_more)
qed

lemma try_read_list_ok:
  assumes "valid a h" "reader_ok h r" "inside (seg_of r) src 1"
  shows "reads (try_read_list h (segment_of a) r src ex) (\<lambda>(c, r') n. reader_ok h r' \<and> located r' (TList c) n)"
  unfolding try_read_list_def
proof (rule reads_bind [OF location_of_ok [OF assms]], goal_cases)
  case (1 x n)
  obtain c r' where x: "x = (c, r')" by force
  with 1 have r': "reader_ok h r'" "location_ok r' (ct_location c)" by auto
  show ?case
    unfolding x prod.case try_read_as_list_content_def try_list_ptr_def
    by (rule reads_bind_lift [OF safe_ok_or], rule reads_mono [OF list_content_ok [OF assms(1) r']])
       (auto elim: located_more)
qed

end

section \<open>Arenas of messages\<close>

definition arena_source :: "'a arena \<Rightarrow> read_segments" where
  "arena_source ar i = map_option used_segment (arena_segment_at ar i)"

definition single_source :: "arena_segment \<Rightarrow> read_segments" where
  "single_source s i = map_option used_segment (single_segment_at s i)"

text \<open>\<open>NonNull\<close> data, and an allocation that does not wrap around the address space.\<close>

definition segment_bounded :: "arena_segment \<Rightarrow> bool" where
  "segment_bounded s \<longleftrightarrow> seg_data (as_segment s) \<noteq> 0 \<and>
     unat (seg_data (as_segment s)) + 8 * u29_val (used_len s) < 2 ^ 64"

definition source_ok :: "'a arena \<Rightarrow> heap \<Rightarrow> bool" where
  "source_ok ar h \<longleftrightarrow> arena_readable (ar, h) \<and> list_all segment_bounded (segs ar)"

lemma readable_seg_safe:
  "segment_readable h s \<Longrightarrow> segment_bounded s \<Longrightarrow> seg_safe h (used_segment s)"
  by (auto simp: segment_readable_def segment_bounded_def seg_safe_def used_segment_def seg_place_def)

interpretation message_source: segment_source arena_source source_ok
proof
  fix ar :: "'a arena" and h i s
  assume v: "source_ok ar h" and s: "arena_source ar i = Some s"
  from s obtain g where g: "arena_segment_at ar i = Some g" "s = used_segment g"
    by (auto simp: arena_source_def)
  have "g \<in> set (segs ar)"
  proof (cases "i = 0")
    case True
    with g(1) show ?thesis by (simp add: arena_segment_at_def segs_def)
  next
    case False
    with g(1) show ?thesis by (auto simp: arena_segment_at_def segs_def nth_opt_def split: if_splits)
  qed
  with v have "segment_readable h g" "segment_bounded g"
    by (auto simp: source_ok_def arena_readable_def list_all_iff)
  then show "seg_safe h s" unfolding g(2) by (rule readable_seg_safe)
qed

interpretation single_source: segment_source single_source "\<lambda>s h. segment_readable h s \<and> segment_bounded s"
proof
  fix s h i g
  assume v: "segment_readable h s \<and> segment_bounded s" and g: "single_source s i = Some g"
  from g have "g = used_segment s" by (auto simp: single_source_def single_segment_at_def split: if_splits)
  with v show "seg_safe h g" using readable_seg_safe by simp
qed

text \<open>What a reading may end in: an error or a value that satisfies \<open>P\<close>, with the words it was charged.\<close>

definition read_result :: "('a \<Rightarrow> nat \<Rightarrow> bool) \<Rightarrow> u64 option \<Rightarrow> (rerror, 'a) outcome \<times> u64 option \<Rightarrow> bool" where
  "read_result P l res = (case res of (m, l') \<Rightarrow> (case m of
     Ok x \<Rightarrow> \<exists>n. spends n l l' \<and> P x n | Err e \<Rightarrow> \<exists>n. spends n l l' | _ \<Rightarrow> False))"

lemma reads_result: "reads m P \<Longrightarrow> read_result P l (m l)"
  by (rule readsE [of m P l], assumption) (cases "m l"; cases "fst (m l)"; auto simp: read_result_def)

text \<open>C10: reading any pointer word of a message, whatever its words say, neither panics nor reads outside
  the message: the result is an error or an object that lies wholly in the segment of the reader
  returned with it. The limiter is charged at least the object's size, and for a list one word for every
  64 elements also where the elements take no space.\<close>

theorem read_typed_safe:
  assumes "source_ok ar h" and "reader_ok h r" and "inside (seg_of r) src 1"
  shows "read_result (\<lambda>(t, r') n. reader_ok h r' \<and> located r' t n) l (try_read_typed h (arena_source ar) r src l)"
  using message_source.try_read_typed_ok [OF assms] by (rule reads_result)

text \<open>A segment of four words: a pointer to a list of eight bytes, and three words more.\<close>

definition demo_heap :: heap where
  "demo_heap = \<lparr>mem = [64 \<mapsto> word_of_parts (list_ptr_new (i30_clip 0) PByte (u29_clip 8)),
     72 \<mapsto> Word 1 2 3 4 5 6 7 8, 80 \<mapsto> Word_NULL, 88 \<mapsto> Word_NULL], choices = []\<rparr>"

definition demo_arena :: "never arena" where
  "demo_arena = \<lparr>first = Some (arena_segment_new \<lparr>seg_data = 64, seg_len = u29_clip 4\<rparr> (nz29_clip 4) 0),
     tail = [], last_owned = 0, ar_alloc = Never\<rparr>"

definition demo_reader :: object_reader where
  "demo_reader = \<lparr>or_segment = from_source (arena_source demo_arena) 0\<rparr>"

lemma four_cases: "k < 4 \<longleftrightarrow> k = 0 \<or> k = 1 \<or> k = 2 \<or> k = (3 :: nat)"
  by arith

lemma demo_used: "u29_val (used_len (arena_segment_new s (nz29_clip 4) i)) = 4"
  by (simp add: used_len_def arena_segment_new_def)

lemma demo_ok: "source_ok demo_arena demo_heap" "reader_ok demo_heap demo_reader" "inside (seg_of demo_reader) 64 1"
proof -
  have m: "mem demo_heap (addr 64 k) \<noteq> None" if "k < 4" for k
    using that unfolding four_cases by (auto simp: addr_def demo_heap_def)
  have s: "segs demo_arena = [arena_segment_new \<lparr>seg_data = 64, seg_len = u29_clip 4\<rparr> (nz29_clip 4) 0]"
    by (simp add: segs_def demo_arena_def)
  have rb: "segment_readable demo_heap (arena_segment_new \<lparr>seg_data = 64, seg_len = u29_clip 4\<rparr> (nz29_clip 4) 0)"
    "segment_bounded (arena_segment_new \<lparr>seg_data = 64, seg_len = u29_clip 4\<rparr> (nz29_clip 4) 0)"
    using m by (auto simp: segment_readable_def seg_place_def demo_used segment_bounded_def) (simp add: arena_segment_new_def)+
  then show ok: "source_ok demo_arena demo_heap"
    by (simp add: source_ok_def arena_readable_def s) (simp add: demo_arena_def)
  have r: "or_segment demo_reader = Some \<lparr>sg_data = 64, sg_len = u29_clip 4, sg_id = 0\<rparr>"
    by (simp add: demo_reader_def from_source_def arena_source_def arena_segment_at_def demo_arena_def
        segment_reader_new_def used_segment_def arena_segment_new_def used_len_def u29_eq_iff)
  then show "reader_ok demo_heap demo_reader"
    using m by (simp add: reader_ok_def seg_of_def seg_safe_def sg_segment_def)
  show "inside (seg_of demo_reader) 64 1"
    using r by (auto simp: seg_of_def inside_def addr_def intro: exI [of _ 0])
qed

theorem read_typed_safe_witness:
  "read_result (\<lambda>(t, r') n. reader_ok demo_heap r' \<and> located r' t n) (Some 8)
     (try_read_typed demo_heap (arena_source demo_arena) demo_reader 64 (Some 8))"
  by (rule read_typed_safe [OF demo_ok])

end
