(* ===== verification/Ptr_Reader.thy ===== *)
theory Ptr_Reader
  imports Obj_Reader
begin

text \<open>
  The readers handed to the user (\<^verbatim>\<open>recapn/src/ptr.rs\<close>: \<open>PtrReader\<close>, \<open>StructReader\<close>,
  \<open>ListReader\<close>, and \<open>target_size\<close> with its helpers). The capability table a reader carries is left
  out: none of the operations here uses it. An overflowing addition of sizes is a panic, as in a
  build with overflow checks.
\<close>

section \<open>Readers\<close>

record ptr_reader =
  pr_ptr :: u64
  pr_reader :: object_reader
  pr_nesting :: u32

record struct_reader =
  sr_data_start :: u64
  sr_ptrs_start :: u64
  sr_reader :: object_reader
  sr_nesting :: u32
  sr_data_len :: u32
  sr_ptrs_len :: u16

record list_reader =
  lr_ptr :: u64
  lr_reader :: object_reader
  lr_element_count :: u29
  lr_nesting :: u32
  lr_element_size :: elem_size

datatype ptr_type = PtNull | PtStruct | PtList | PtCapability

definition ptr_root :: "read_segments \<Rightarrow> u32 \<Rightarrow> ptr_reader option" where
  "ptr_root arena nesting =
     Option.bind (from_source arena 0) (\<lambda>root.
     Option.bind (reader_start root) (\<lambda>start.
       Some \<lparr>pr_ptr = start, pr_reader = \<lparr>or_segment = Some root\<rparr>, pr_nesting = nesting\<rparr>))"

definition nesting_sub :: "u32 \<Rightarrow> u32 reading" where
  "nesting_sub nesting = rlift (ok_or NestingLimitExceeded (checked_sub nesting 1))"

definition ptr_is_null :: "heap \<Rightarrow> ptr_reader \<Rightarrow> bool reading" where
  "ptr_is_null h p = rbind (rlift (deref h (pr_ptr p))) (\<lambda>w. rok (is_null w))"

definition ptr_type_of :: "heap \<Rightarrow> read_segments \<Rightarrow> ptr_reader \<Rightarrow> ptr_type reading" where
  "ptr_type_of h arena p =
     rbind (ptr_is_null h p) (\<lambda>null. if null then rok PtNull
     else rbind (location_of h arena (pr_reader p) (pr_ptr p)) (\<lambda>(c, _).
       if is_struct (ct_ptr c) then rok PtStruct
       else if is_list (ct_ptr c) then rok PtList
       else if is_capability (ct_ptr c) then rok PtCapability
       else rerr (fail_read (ct_ptr c) None)))"

definition to_struct :: "heap \<Rightarrow> read_segments \<Rightarrow> ptr_reader \<Rightarrow> struct_reader option reading" where
  "to_struct h arena p =
     rbind (ptr_is_null h p) (\<lambda>null. if null then rok None
     else rbind (nesting_sub (pr_nesting p)) (\<lambda>nesting.
     rbind (try_read_struct h arena (pr_reader p) (pr_ptr p)) (\<lambda>(c, r).
     rbind (rlift (ptrs_start c)) (\<lambda>start.
       rok (Some \<lparr>sr_data_start = data_start c, sr_ptrs_start = start, sr_reader = r, sr_nesting = nesting,
         sr_data_len = ucast (ss_data (st_size c)) * 8, sr_ptrs_len = ss_ptrs (st_size c)\<rparr>)))))"

definition to_list :: "heap \<Rightarrow> read_segments \<Rightarrow> ptr_reader \<Rightarrow> ptr_elem_size option \<Rightarrow> list_reader option reading" where
  "to_list h arena p expected =
     rbind (ptr_is_null h p) (\<lambda>null. if null then rok None
     else rbind (nesting_sub (pr_nesting p)) (\<lambda>nesting.
     rbind (try_read_list h arena (pr_reader p) (pr_ptr p) expected) (\<lambda>(c, r).
       rok (Some \<lparr>lr_ptr = ls_ptr c, lr_reader = r, lr_element_count = ls_element_count c,
         lr_nesting = nesting, lr_element_size = ls_element_size c\<rparr>))))"

text \<open>A blob is the address of its bytes and their number.\<close>

definition to_blob :: "heap \<Rightarrow> read_segments \<Rightarrow> ptr_reader \<Rightarrow> (u64 \<times> u29) option reading" where
  "to_blob h arena p =
     rbind (ptr_is_null h p) (\<lambda>null. if null then rok None
     else rbind (location_of h arena (pr_reader p) (pr_ptr p)) (\<lambda>(c, r).
     rbind (rlift (try_list_ptr (ct_ptr c))) (\<lambda>lp.
       if element_size lp \<noteq> PByte then rerr (fail_upgrade (element_size lp) PByte)
       else
         rbind (rlift (element_count lp)) (\<lambda>count.
         rbind (rlift (unwrap (u29_new (round_up_byte_count (u29_inner count))))) (\<lambda>len.
         rbind (read_at arena r (ct_location c) lp len) (\<lambda>(ptr, _).
           rok (Some (ptr, count))))))))"

definition try_to_capability_index :: "heap \<Rightarrow> ptr_reader \<Rightarrow> u32 option reading" where
  "try_to_capability_index h p =
     rbind (rlift (deref h (pr_ptr p))) (\<lambda>w. if is_null w then rok None
     else rbind (rlift (try_cap_ptr w)) (\<lambda>c. rok (Some (capability_index c))))"

definition ptr_field_option :: "struct_reader \<Rightarrow> u16 \<Rightarrow> (rerror, ptr_reader option) outcome" where
  "ptr_field_option s index =
     (if index < sr_ptrs_len s then
        obind (u29_from_u16 index) (\<lambda>off.
        obind (as_ref_unchecked (ptr_offset (sr_ptrs_start s) off)) (\<lambda>q.
          Ok (Some \<lparr>pr_ptr = q, pr_reader = sr_reader s, pr_nesting = sr_nesting s\<rparr>)))
      else Ok None)"

definition ptr_section :: "struct_reader \<Rightarrow> (rerror, list_reader) outcome" where
  "ptr_section s = obind (u29_from_u16 (sr_ptrs_len s)) (\<lambda>n.
     Ok \<lparr>lr_ptr = sr_ptrs_start s, lr_reader = sr_reader s, lr_element_count = n,
       lr_nesting = sr_nesting s, lr_element_size = Pointer\<rparr>)"

definition index_to_offset :: "list_reader \<Rightarrow> u32 \<Rightarrow> u64" where
  "index_to_offset l index = (ucast (bits (lr_element_size l)) * ucast index) div 8"

definition ptr_unchecked :: "list_reader \<Rightarrow> u32 \<Rightarrow> (rerror, ptr_reader) outcome" where
  "ptr_unchecked l index =
     (let base_offset = index_to_offset l index;
        data_offset = (case lr_element_size l of InlineComposite s \<Rightarrow> ucast (ss_data s) * 8 | _ \<Rightarrow> 0) in
      obind (as_ref_unchecked (lr_ptr l + (base_offset + data_offset))) (\<lambda>q.
        Ok \<lparr>pr_ptr = q, pr_reader = lr_reader l, pr_nesting = lr_nesting l\<rparr>))"

definition struct_unchecked :: "list_reader \<Rightarrow> u32 \<Rightarrow> (rerror, struct_reader) outcome" where
  "struct_unchecked l index =
     (case bytes_and_ptrs (lr_element_size l) of (data_len, ptrs_len) \<Rightarrow>
        let struct_start = lr_ptr l + index_to_offset l index;
          struct_ptrs = struct_start + ucast data_len in
        obind (as_ref_unchecked struct_start) (\<lambda>d.
        obind (as_ref_unchecked struct_ptrs) (\<lambda>q.
          Ok \<lparr>sr_data_start = d, sr_ptrs_start = q, sr_reader = lr_reader l,
            sr_nesting = saturating_sub (lr_nesting l) 1, sr_data_len = data_len, sr_ptrs_len = ptrs_len\<rparr>)))"

section \<open>The size of what a pointer points to\<close>

record message_size =
  ms_words :: u64
  ms_caps :: u32

definition size_add :: "message_size \<Rightarrow> message_size \<Rightarrow> (rerror, message_size) outcome" where
  "size_add a b =
     obind (unwrap (checked_add (ms_words a) (ms_words b))) (\<lambda>w.
     obind (unwrap (checked_add (ms_caps a) (ms_caps b))) (\<lambda>c.
       Ok \<lparr>ms_words = w, ms_caps = c\<rparr>))"

abbreviation no_size :: message_size where "no_size \<equiv> \<lparr>ms_words = 0, ms_caps = 0\<rparr>"

text \<open>The body of the loop of \<open>total_ptrs_size\<close>, for the pointers that are left.\<close>

fun total_ptrs_loop :: "heap \<Rightarrow> (u64 \<Rightarrow> message_size reading) \<Rightarrow> message_size \<Rightarrow> u64 list \<Rightarrow> message_size reading" where
  "total_ptrs_loop h target acc [] = rok acc"
| "total_ptrs_loop h target acc (p # ps) =
     rbind (rlift (as_ref_unchecked p)) (\<lambda>ptr.
     rbind (rlift (deref h ptr)) (\<lambda>w.
       if is_null w then total_ptrs_loop h target acc ps
       else rbind (target ptr) (\<lambda>sz.
         rbind (rlift (size_add acc sz)) (\<lambda>acc'. total_ptrs_loop h target acc' ps))))"

definition iter_unchecked :: "u64 \<Rightarrow> u29 \<Rightarrow> u64 list" where
  "iter_unchecked place off = addr_list place (u29_val off)"

definition total_ptrs_size :: "heap \<Rightarrow> (u64 \<Rightarrow> message_size reading) \<Rightarrow> u64 \<Rightarrow> u29 \<Rightarrow> message_size reading" where
  "total_ptrs_size h target start len = total_ptrs_loop h target no_size (iter_unchecked start len)"

definition total_struct_size :: "heap \<Rightarrow> (u64 \<Rightarrow> message_size reading) \<Rightarrow> struct_content \<Rightarrow> message_size reading" where
  "total_struct_size h target c =
     rbind (rlift (ptrs_start c)) (\<lambda>start.
     rbind (rlift (u29_from_u16 (ss_ptrs (st_size c)))) (\<lambda>n.
     rbind (total_ptrs_size h target start n) (\<lambda>ptrs_total_size.
       rlift (size_add \<lparr>ms_words = ucast (struct_total (st_size c)), ms_caps = 0\<rparr> ptrs_total_size))))"

text \<open>\<open>step_by_unchecked\<close>: the starts of \<open>len\<close> places \<open>off\<close> words apart.\<close>

definition step_by_unchecked :: "u64 \<Rightarrow> u29 \<Rightarrow> u29 \<Rightarrow> (rerror, u64 list) outcome" where
  "step_by_unchecked place off len =
     (case checked_mul (u29_inner off) (u29_inner len) of
        Some sz \<Rightarrow> if sz \<le> u29_MAX_VALUE
          then Ok (map (\<lambda>i. addr place (u29_val off * i)) [0..<u29_val len]) else Panic
      | None \<Rightarrow> Panic)"

fun total_composites_loop :: "heap \<Rightarrow> (u64 \<Rightarrow> message_size reading) \<Rightarrow> struct_size \<Rightarrow> message_size \<Rightarrow> u64 list \<Rightarrow>
    message_size reading" where
  "total_composites_loop h target sz acc [] = rok acc"
| "total_composites_loop h target sz acc (d # ds) =
     rbind (rlift (as_ref_unchecked d)) (\<lambda>src_data.
     rbind (rlift (obind (u29_from_u16 (ss_data sz)) (\<lambda>n. as_ref_unchecked (ptr_offset src_data n)))) (\<lambda>ptrs.
     rbind (rlift (u29_from_u16 (ss_ptrs sz))) (\<lambda>n.
     rbind (total_ptrs_size h target ptrs n) (\<lambda>s.
     rbind (rlift (size_add acc s)) (\<lambda>acc'.
       total_composites_loop h target sz acc' ds)))))"

definition total_inline_composites_targets_size :: "heap \<Rightarrow> (u64 \<Rightarrow> message_size reading) \<Rightarrow> u64 \<Rightarrow> u29 \<Rightarrow>
    struct_size \<Rightarrow> message_size reading" where
  "total_inline_composites_targets_size h target start len sz =
     rbind (rlift (struct_len sz)) (\<lambda>step.
     rbind (rlift (step_by_unchecked start step len)) (\<lambda>places.
       total_composites_loop h target sz no_size places))"

text \<open>\<open>below\<close> is what \<open>nesting_limit.checked_sub(1)\<close> allows: nothing, or sizes at the lower limit.\<close>

definition target_size_at :: "heap \<Rightarrow> read_segments \<Rightarrow> (object_reader \<Rightarrow> u64 \<Rightarrow> message_size reading) option \<Rightarrow>
    object_reader \<Rightarrow> u64 \<Rightarrow> message_size reading" where
  "target_size_at h arena below r ptr =
     rbind (try_read_typed h arena r ptr) (\<lambda>(t, r'). case t of
       TStruct c \<Rightarrow>
         rbind (rlift (ok_or NestingLimitExceeded below)) (\<lambda>target. total_struct_size h (target r') c)
     | TList l \<Rightarrow>
         (let content_size = \<lparr>ms_words = ucast (total_words (ls_element_size l) (ls_element_count l)), ms_caps = 0\<rparr> in
          rbind (case ls_element_size l of
              InlineComposite sz \<Rightarrow>
                rbind (rlift (ok_or NestingLimitExceeded below)) (\<lambda>target.
                rbind (total_inline_composites_targets_size h (target r') (ls_ptr l) (ls_element_count l) sz) (\<lambda>s.
                rbind (rlift (unwrap (checked_add (ms_words s) 1))) (\<lambda>w. rok (s\<lparr>ms_words := w\<rparr>))))
            | Pointer \<Rightarrow>
                rbind (rlift (ok_or NestingLimitExceeded below)) (\<lambda>target.
                  total_ptrs_size h (target r') (ls_ptr l) (ls_element_count l))
            | _ \<Rightarrow> rok no_size)
            (\<lambda>targets_size. rlift (size_add content_size targets_size)))
     | TCapability _ \<Rightarrow> rok \<lparr>ms_words = 0, ms_caps = 1\<rparr>)"

primrec target_size :: "heap \<Rightarrow> read_segments \<Rightarrow> nat \<Rightarrow> object_reader \<Rightarrow> u64 \<Rightarrow> message_size reading" where
  "target_size h arena 0 = target_size_at h arena None"
| "target_size h arena (Suc nesting) = target_size_at h arena (Some (target_size h arena nesting))"

definition ptr_target_size :: "heap \<Rightarrow> read_segments \<Rightarrow> ptr_reader \<Rightarrow> message_size reading" where
  "ptr_target_size h arena p =
     rbind (ptr_is_null h p) (\<lambda>null. if null then rok no_size
     else rbind (nesting_sub (pr_nesting p)) (\<lambda>nesting.
       target_size h arena (unat nesting) (pr_reader p) (pr_ptr p)))"

section \<open>Readings on a budget\<close>

text \<open>\<open>reads_on B m P\<close>: what \<open>reads\<close> says, for limiters of at most \<open>B\<close> words.\<close>

definition reads_on :: "nat \<Rightarrow> 'a reading \<Rightarrow> ('a \<Rightarrow> nat \<Rightarrow> bool) \<Rightarrow> bool" where
  "reads_on B m P \<longleftrightarrow> (\<forall>k. unat k \<le> B \<longrightarrow> safe (fst (m (Some k))) \<and>
     (\<exists>n. spends n (Some k) (snd (m (Some k))) \<and> (\<forall>x. fst (m (Some k)) = Ok x \<longrightarrow> P x n)))"

lemma reads_on_of: "reads m P \<Longrightarrow> reads_on B m P"
  by (simp add: reads_def reads_on_def)

lemma spends_SomeE:
  assumes "spends n (Some k) l"
  obtains k' where "l = Some k'" "unat k = unat k' + n"
  using assms by (auto simp: spends_def split: option.splits)

lemma reads_on_bind:
  assumes "reads_on B m P" "\<And>x n. P x n \<Longrightarrow> n \<le> B \<Longrightarrow> reads_on (B - n) (f x) (\<lambda>y k. Q y (n + k))"
  shows "reads_on B (rbind m f) Q"
  unfolding reads_on_def
proof (intro allI impI)
  fix k :: u64 assume k: "unat k \<le> B"
  obtain o' l' where m: "m (Some k) = (o', l')" by force
  from assms(1) k m obtain n where n: "safe o'" "spends n (Some k) l'" "\<forall>x. o' = Ok x \<longrightarrow> P x n"
    unfolding reads_on_def by (metis fst_conv snd_conv)
  obtain k' where k': "l' = Some k'" "unat k = unat k' + n" using n(2) by (rule spends_SomeE)
  show "safe (fst (rbind m f (Some k))) \<and>
      (\<exists>n. spends n (Some k) (snd (rbind m f (Some k))) \<and> (\<forall>x. fst (rbind m f (Some k)) = Ok x \<longrightarrow> Q x n))"
  proof (cases o')
    case (Ok x)
    with n(3) have "P x n" by simp
    moreover from k k'(2) have "n \<le> B" "unat k' \<le> B - n" by auto
    ultimately obtain j where
      "safe (fst (f x l'))" "spends j l' (snd (f x l'))" "\<forall>y. fst (f x l') = Ok y \<longrightarrow> Q y (n + j)"
      using assms(2) [of x n] unfolding reads_on_def k'(1) by blast
    with m Ok spends_trans [OF n(2)] show ?thesis by (auto simp: rbind_fst_snd)
  qed (use n m in \<open>auto simp: rbind_fst_snd\<close>)
qed

lemma reads_on_lift: "safe m \<Longrightarrow> (\<And>x. m = Ok x \<Longrightarrow> P x 0) \<Longrightarrow> reads_on B (rlift m) P"
  by (rule reads_on_of [OF reads_lift])

lemma reads_on_ok [intro]: "P x 0 \<Longrightarrow> reads_on B (rok x) P"
  by (rule reads_on_lift) auto

lemma reads_on_err [simp, intro]: "reads_on B (rerr e) P"
  by (rule reads_on_lift) auto

lemma reads_on_bind_lift:
  assumes "safe m" "\<And>x. m = Ok x \<Longrightarrow> reads_on B (f x) Q"
  shows "reads_on B (rbind (rlift m) f) Q"
  by (rule reads_on_bind [where P = "\<lambda>x n. n = 0 \<and> m = Ok x"]) (use assms in \<open>auto intro: reads_on_lift\<close>)

lemma reads_on_mono:
  assumes "reads_on B m P" "\<And>x n. P x n \<Longrightarrow> Q x n"
  shows "reads_on B m Q"
  using assms unfolding reads_on_def by fast

lemma reads_on_result: "reads_on B m P \<Longrightarrow> unat k \<le> B \<Longrightarrow> read_result P (Some k) (m (Some k))"
  unfolding reads_on_def read_result_def
  by (drule spec [of _ k]) (cases "m (Some k)"; cases "fst (m (Some k))"; auto)

section \<open>Sizes\<close>

text \<open>The size of a target read for \<open>n\<close> words: no more words than were charged, and no more
  capabilities than the pointers seen.\<close>

abbreviation sized :: "nat \<Rightarrow> message_size \<Rightarrow> nat \<Rightarrow> bool" where
  "sized ptrs s n \<equiv> unat (ms_words s) \<le> n \<and> unat (ms_caps s) \<le> ptrs + n"

lemma size_add_ok:
  assumes "unat (ms_words a) + unat (ms_words b) < 2 ^ 64" "unat (ms_caps a) + unat (ms_caps b) < 2 ^ 32"
  obtains s where "size_add a b = Ok s" "unat (ms_words s) = unat (ms_words a) + unat (ms_words b)"
    "unat (ms_caps s) = unat (ms_caps a) + unat (ms_caps b)"
  using assms by (auto simp: size_add_def checked_add_def unat_add_no_wrap)

lemma size_add_bind:
  assumes "unat (ms_words a) + unat (ms_words b) < 2 ^ 64" "unat (ms_caps a) + unat (ms_caps b) < 2 ^ 32"
    and "\<And>s. unat (ms_words s) = unat (ms_words a) + unat (ms_words b) \<Longrightarrow>
      unat (ms_caps s) = unat (ms_caps a) + unat (ms_caps b) \<Longrightarrow> reads_on B (f s) Q"
  shows "reads_on B (rbind (rlift (size_add a b)) f) Q"
  using size_add_ok [OF assms(1,2)] assms(3) by (metis rbind_rok)

text \<open>A budget of \<open>2 ^ 31\<close> words keeps the count of capabilities, a \<open>u32\<close>, from overflowing.\<close>

definition MAX_BUDGET :: nat where "MAX_BUDGET = 2 ^ 31"

lemma ptrs_loop_ok:
  assumes "\<And>p. p \<in> set ps \<Longrightarrow> p \<noteq> 0 \<and> safe (deref h p)"
    and "\<And>p B'. p \<in> set ps \<Longrightarrow> B' \<le> MAX_BUDGET \<Longrightarrow> reads_on B' (target p) (sized 1)"
    and "unat (ms_words acc) + B < 2 ^ 64" "unat (ms_caps acc) + length ps + B < 2 ^ 32" "B \<le> MAX_BUDGET"
  shows "reads_on B (total_ptrs_loop h target acc ps)
    (\<lambda>s n. unat (ms_words s) \<le> unat (ms_words acc) + n \<and> unat (ms_caps s) \<le> unat (ms_caps acc) + length ps + n)"
  using assms
proof (induction ps arbitrary: acc B)
  case Nil
  then show ?case by auto
next
  case (Cons p ps)
  note p = Cons.prems(1) [of p, simplified]
  have ref: "as_ref_unchecked p = Ok p" using p by (simp add: as_ref_unchecked_def)
  have rest: "reads_on B' (total_ptrs_loop h target acc' ps) (\<lambda>s n. unat (ms_words s) \<le> unat (ms_words acc') + n \<and>
      unat (ms_caps s) \<le> unat (ms_caps acc') + length ps + n)"
    if "unat (ms_words acc') + B' < 2 ^ 64" "unat (ms_caps acc') + length ps + B' < 2 ^ 32" "B' \<le> B" for acc' B'
    by (rule Cons.IH) (use Cons.prems that in auto)
  show ?case
    unfolding total_ptrs_loop.simps ref rbind_rok
  proof (rule reads_on_bind_lift, use p in blast, goal_cases)
    case (1 w)
    show ?case
    proof (cases "is_null w")
      case True
      have "reads_on B (total_ptrs_loop h target acc ps) (\<lambda>s n. unat (ms_words s) \<le> unat (ms_words acc) + n \<and>
          unat (ms_caps s) \<le> unat (ms_caps acc) + length ps + n)"
        by (rule rest) (use Cons.prems in auto)
      with True show ?thesis by (auto elim: reads_on_mono)
    next
      case False
      have "reads_on B (rbind (target p) (\<lambda>sz. rbind (rlift (size_add acc sz)) (\<lambda>acc'. total_ptrs_loop h target acc' ps)))
        (\<lambda>s n. unat (ms_words s) \<le> unat (ms_words acc) + n \<and> unat (ms_caps s) \<le> unat (ms_caps acc) + length (p # ps) + n)"
      proof (rule reads_on_bind [OF Cons.prems(2)], simp, rule Cons.prems(5), goal_cases)
        case (1 sz n)
        show ?case
        proof (rule size_add_bind, goal_cases)
          case (3 s)
          show ?case
            by (rule reads_on_mono, rule rest [of s "B - n"]) (use 1 3 Cons.prems in auto)
        qed (use 1 Cons.prems in auto)
      qed
      with False show ?thesis by simp
    qed
  qed
qed

lemma inside_iter:
  assumes "inside s start (u29_val len)" "p \<in> set (iter_unchecked start len)"
  shows "inside s p 1"
proof -
  from assms(2) obtain i where i: "i < u29_val len" "p = addr start i"
    by (auto simp: iter_unchecked_def addr_list_def)
  have "inside s (addr start i) (u29_val len - i)" by (rule inside_step [OF assms(1)]) (use i in simp)
  then have "inside s (addr start i) 1" by (rule inside_mono) (use i in simp)
  with i(2) show ?thesis by simp
qed

lemma inside_ref:
  assumes "seg_safe h (sg_segment s)" "inside s p n"
  shows "as_ref_unchecked p = Ok p"
  using inside_nonnull [OF assms] by (simp add: as_ref_unchecked_def)

lemma inside_less: "inside s p n \<Longrightarrow> n < 2 ^ 29"
  using u29_val_less [of "sg_len s"] by (auto simp: inside_def)

text \<open>What the sizes of the targets one level down satisfy.\<close>

definition targets_sized :: "heap \<Rightarrow> object_reader \<Rightarrow> (u64 \<Rightarrow> message_size reading) \<Rightarrow> bool" where
  "targets_sized h r target \<longleftrightarrow> (\<forall>p B. inside (seg_of r) p 1 \<longrightarrow> B \<le> MAX_BUDGET \<longrightarrow> reads_on B (target p) (sized 1))"

lemma total_ptrs_size_ok:
  assumes "reader_ok h r" "inside (seg_of r) start (u29_val len)" "targets_sized h r target" "B \<le> MAX_BUDGET"
  shows "reads_on B (total_ptrs_size h target start len) (sized (u29_val len))"
proof -
  have seg: "seg_safe h (sg_segment (seg_of r))" using assms(1) by (simp add: reader_ok_def)
  have l: "length (iter_unchecked start len) = u29_val len" by (simp add: iter_unchecked_def addr_list_def)
  have "reads_on B (total_ptrs_loop h target no_size (iter_unchecked start len))
      (\<lambda>s n. unat (ms_words s) \<le> unat (ms_words no_size) + n \<and>
        unat (ms_caps s) \<le> unat (ms_caps no_size) + length (iter_unchecked start len) + n)"
  proof (rule ptrs_loop_ok)
    fix p assume "p \<in> set (iter_unchecked start len)"
    note i = inside_iter [OF assms(2) this]
    show "p \<noteq> 0 \<and> safe (deref h p)"
      using inside_nonnull [OF seg i] inside_deref [OF seg i] by simp
    show "reads_on B' (target p) (sized 1)" if "B' \<le> MAX_BUDGET" for B'
      using assms(3) i that by (simp add: targets_sized_def)
  qed (use assms(4) u29_val_less [of len] l in \<open>auto simp: MAX_BUDGET_def\<close>)
  then show ?thesis by (simp add: total_ptrs_size_def l)
qed

lemma u16_offset: obtains n where "u29_from_u16 v = (Ok n :: (rerror, u29) outcome)" "u29_val n = unat v"
proof -
  have "unat v < 2 ^ 16" using unsigned_less [of v] by simp
  then have "unat (ucast v :: u32) = unat v" by (simp add: unsigned_ucast_eq take_bit_nat_eq_self)
  with \<open>unat v < 2 ^ 16\<close> show thesis
    by (intro that [of "u29_clip (ucast v)"]) (simp_all add: u29_from_u16_def u29_new_unwrap_def u29_new_eq)
qed

text \<open>The pointer section of a struct that lies in the segment.\<close>

lemma struct_ptrs:
  assumes "seg_safe h (sg_segment s)" "inside s p (unat (ss_data sz) + unat (ss_ptrs sz))"
  obtains n k where "u29_from_u16 (ss_data sz) = (Ok n :: (rerror, u29) outcome)"
    "as_ref_unchecked (ptr_offset p n) = Ok (ptr_offset p n)"
    "u29_from_u16 (ss_ptrs sz) = (Ok k :: (rerror, u29) outcome)" "u29_val k = unat (ss_ptrs sz)"
    "inside s (ptr_offset p n) (u29_val k)"
proof -
  obtain n where n: "u29_from_u16 (ss_data sz) = (Ok n :: (rerror, u29) outcome)" "u29_val n = unat (ss_data sz)"
    by (rule u16_offset)
  obtain k where k: "u29_from_u16 (ss_ptrs sz) = (Ok k :: (rerror, u29) outcome)" "u29_val k = unat (ss_ptrs sz)"
    by (rule u16_offset)
  have i: "inside s (ptr_offset p n) (u29_val k)"
    using inside_step [OF assms(2), of "unat (ss_data sz)"] n k by (simp add: ptr_offset_addr)
  show thesis by (rule that [OF n(1) inside_ref [OF assms(1) i] k i])
qed

lemma total_struct_size_ok:
  assumes "reader_ok h r" "inside (seg_of r) (st_ptr c) (unat (ss_data (st_size c)) + unat (ss_ptrs (st_size c)))"
    and "targets_sized h r target" "B \<le> MAX_BUDGET"
  shows "reads_on B (total_struct_size h target c) (\<lambda>s n.
    unat (ms_words s) \<le> unat (ss_data (st_size c)) + unat (ss_ptrs (st_size c)) + n \<and>
    unat (ms_caps s) \<le> unat (ss_ptrs (st_size c)) + n)"
proof -
  have seg: "seg_safe h (sg_segment (seg_of r))" using assms(1) by (simp add: reader_ok_def)
  obtain n k where n: "u29_from_u16 (ss_data (st_size c)) = (Ok n :: (rerror, u29) outcome)"
    "as_ref_unchecked (ptr_offset (st_ptr c) n) = Ok (ptr_offset (st_ptr c) n)"
    "u29_from_u16 (ss_ptrs (st_size c)) = (Ok k :: (rerror, u29) outcome)" "u29_val k = unat (ss_ptrs (st_size c))"
    "inside (seg_of r) (ptr_offset (st_ptr c) n) (u29_val k)"
    using seg assms(2) by (rule struct_ptrs)
  have w: "unat (ucast (struct_total (st_size c)) :: u64) = unat (ss_data (st_size c)) + unat (ss_ptrs (st_size c))"
    by (simp add: unat_struct_total)
  have p: "unat (ss_ptrs (st_size c)) < 2 ^ 16" using unsigned_less [of "ss_ptrs (st_size c)"] by simp
  have t: "unat (struct_total (st_size c)) \<le> 131070" by (rule unat_struct_total_less)
  have "ptrs_start c = Ok (ptr_offset (st_ptr c) n)" using n(1,2) by (simp add: ptrs_start_def)
  then show ?thesis
    unfolding total_struct_size_def n(3) rbind_rok
  proof (simp only: rbind_rok, intro reads_on_bind [OF total_ptrs_size_ok [OF assms(1) n(5) assms(3,4)]], goal_cases)
    case (1 s m)
    let ?a = "\<lparr>ms_words = ucast (struct_total (st_size c)), ms_caps = 0\<rparr>"
    from 1 n(4) assms(4) p t have "unat (ms_words ?a) + unat (ms_words s) < 2 ^ 64" "unat (ms_caps ?a) + unat (ms_caps s) < 2 ^ 32"
      by (auto simp: MAX_BUDGET_def)
    then obtain s' where "size_add ?a s = Ok s'" "unat (ms_words s') = unat (ms_words ?a) + unat (ms_words s)"
      "unat (ms_caps s') = unat (ms_caps ?a) + unat (ms_caps s)" by (rule size_add_ok)
    with 1 n(4) w show ?case by (auto intro!: reads_on_ok)
  qed
qed

lemma composites_loop_ok:
  assumes "reader_ok h r" "targets_sized h r target"
    and "\<And>d. d \<in> set ds \<Longrightarrow> inside (seg_of r) d (unat (ss_data sz) + unat (ss_ptrs sz))"
    and "unat (ms_words acc) + B < 2 ^ 64" "unat (ms_caps acc) + length ds * unat (ss_ptrs sz) + B < 2 ^ 32" "B \<le> MAX_BUDGET"
  shows "reads_on B (total_composites_loop h target sz acc ds) (\<lambda>s n.
    unat (ms_words s) \<le> unat (ms_words acc) + n \<and> unat (ms_caps s) \<le> unat (ms_caps acc) + length ds * unat (ss_ptrs sz) + n)"
  using assms(3-)
proof (induction ds arbitrary: acc B)
  case Nil
  then show ?case by auto
next
  case (Cons d ds)
  have seg: "seg_safe h (sg_segment (seg_of r))" using assms(1) by (simp add: reader_ok_def)
  have d: "inside (seg_of r) d (unat (ss_data sz) + unat (ss_ptrs sz))" using Cons.prems(1) by simp
  obtain n k where n: "u29_from_u16 (ss_data sz) = (Ok n :: (rerror, u29) outcome)"
    "as_ref_unchecked (ptr_offset d n) = Ok (ptr_offset d n)"
    "u29_from_u16 (ss_ptrs sz) = (Ok k :: (rerror, u29) outcome)" "u29_val k = unat (ss_ptrs sz)"
    "inside (seg_of r) (ptr_offset d n) (u29_val k)"
    using seg d by (rule struct_ptrs)
  have head: "rlift (obind (u29_from_u16 (ss_data sz)) (\<lambda>n. as_ref_unchecked (ptr_offset d n))) = rok (ptr_offset d n)"
    using n by simp
  show ?case
    unfolding total_composites_loop.simps inside_ref [OF seg d] rbind_rok head n(3)
  proof (rule reads_on_bind [OF total_ptrs_size_ok [OF assms(1) n(5) assms(2) Cons.prems(4)]], goal_cases)
    case (1 s m)
    show ?case
    proof (rule size_add_bind, goal_cases)
      case (3 acc')
      show ?case
        by (rule reads_on_mono, rule Cons.IH [of acc' "B - m"]) (use 1 3 Cons.prems n(4) in auto)
    qed (use 1 n(4) Cons.prems in auto)
  qed
qed

lemma step_by_ok:
  assumes "inside s start (u29_val len * u29_val step)"
  obtains places where "step_by_unchecked start step len = Ok places" "length places = u29_val len"
    "\<And>d. d \<in> set places \<Longrightarrow> inside s d (u29_val step)"
proof -
  have p: "u29_val step * u29_val len < 2 ^ 29" using inside_less [OF assms] by (simp add: mult.commute)
  then have m: "checked_mul (u29_inner step) (u29_inner len) = Some (u29_inner step * u29_inner len)"
    "unat (u29_inner step * u29_inner len) = u29_val step * u29_val len"
    by (simp_all add: checked_mul_def unat_mult_no_wrap)
  then have "u29_inner step * u29_inner len \<le> u29_MAX_VALUE"
    using p by (simp add: word_le_nat_alt u29_MAX_VALUE_def)
  with m have eq: "step_by_unchecked start step len = Ok (map (\<lambda>i. addr start (u29_val step * i)) [0..<u29_val len])"
    by (simp add: step_by_unchecked_def)
  show thesis
  proof (rule that [OF eq])
    fix d assume "d \<in> set (map (\<lambda>i. addr start (u29_val step * i)) [0..<u29_val len])"
    then obtain i where i: "i < u29_val len" "d = addr start (u29_val step * i)" by auto
    then have "u29_val step * (i + 1) \<le> u29_val step * u29_val len" by (intro mult_le_mono2) simp
    then have b: "u29_val step * i + u29_val step \<le> u29_val len * u29_val step" by (simp add: algebra_simps)
    have "inside s d (u29_val len * u29_val step - u29_val step * i)"
      unfolding i(2) by (rule inside_step [OF assms]) (use b in linarith)
    then show "inside s d (u29_val step)" by (rule inside_mono) (use b in simp)
  qed simp
qed

lemma composites_size_ok:
  assumes "reader_ok h r" "targets_sized h r target" "B \<le> MAX_BUDGET"
    and "inside (seg_of r) start (u29_val len * (unat (ss_data sz) + unat (ss_ptrs sz)))"
  shows "reads_on B (total_inline_composites_targets_size h target start len sz)
    (sized (u29_val len * unat (ss_ptrs sz)))"
proof -
  have st: "u29_val (u29_clip (struct_total sz)) = unat (ss_data sz) + unat (ss_ptrs sz)"
    using struct_len_val [OF struct_len_Ok] .
  obtain places where places: "step_by_unchecked start (u29_clip (struct_total sz)) len = Ok places"
    "length places = u29_val len"
    "\<And>d. d \<in> set places \<Longrightarrow> inside (seg_of r) d (u29_val (u29_clip (struct_total sz)))"
    using step_by_ok [of "seg_of r" start len "u29_clip (struct_total sz)"] assms(4) st by metis
  have "u29_val len * unat (ss_ptrs sz) \<le> u29_val len * (unat (ss_data sz) + unat (ss_ptrs sz))"
    by (rule mult_le_mono2) simp
  with inside_less [OF assms(4)] have caps: "u29_val len * unat (ss_ptrs sz) < 2 ^ 29" by linarith
  have "reads_on B (total_composites_loop h target sz no_size places) (\<lambda>s n.
      unat (ms_words s) \<le> unat (ms_words no_size) + n \<and>
      unat (ms_caps s) \<le> unat (ms_caps no_size) + length places * unat (ss_ptrs sz) + n)"
    by (rule composites_loop_ok [OF assms(1,2)])
       (use places st caps assms(3) in \<open>auto simp: MAX_BUDGET_def\<close>)
  then show ?thesis
    unfolding total_inline_composites_targets_size_def struct_len_Ok rbind_rok places(1)
    by (simp add: places(2))
qed

lemma list_words:
  assumes "inside s p (list_object_words e (u29_val n) - (if is_inline_composite e then 1 else 0))"
  shows "unat (total_words e n) + (if is_inline_composite e then 1 else 0) = list_object_words e (u29_val n)"
proof (cases e)
  case (InlineComposite sz)
  with inside_less [OF assms] have "unat (struct_total sz) * u29_val n < 2 ^ 29"
    by (simp add: list_object_words_def unat_struct_total mult.commute)
  then show ?thesis
    using InlineComposite total_words_composite [of sz n]
    by (simp add: list_object_words_def unat_struct_total mult.commute)
qed (simp_all add: total_words_plain list_object_words_def)

lemma target_size_at_ok:
  assumes "source_ok ar h" "reader_ok h r" "inside (seg_of r) ptr 1" "B \<le> MAX_BUDGET"
    and below: "\<And>target. below = Some target \<Longrightarrow>
      (\<forall>r p B. reader_ok h r \<longrightarrow> inside (seg_of r) p 1 \<longrightarrow> B \<le> MAX_BUDGET \<longrightarrow> reads_on B (target r p) (sized 1))"
  shows "reads_on B (target_size_at h (arena_source ar) below r ptr) (sized 1)"
  unfolding target_size_at_def
proof (rule reads_on_bind [OF reads_on_of [OF message_source.try_read_typed_ok [OF assms(1-3)]]], goal_cases)
  case (1 x n)
  obtain t r' where x: "x = (t, r')" by force
  with 1 have r': "reader_ok h r'" and t: "located r' t n" by auto
  have B: "B - n \<le> MAX_BUDGET" using assms(4) by simp
  have targets: "targets_sized h r' (target r')" if "ok_or NestingLimitExceeded below = Ok target" for target
    using below r' that by (auto simp: targets_sized_def)
  show ?case
  proof (cases t)
    case (TStruct c)
    from t TStruct have i: "inside (seg_of r') (st_ptr c) (unat (ss_data (st_size c)) + unat (ss_ptrs (st_size c)))"
      and n: "unat (ss_data (st_size c)) + unat (ss_ptrs (st_size c)) \<le> n" by (auto simp: located_def)
    show ?thesis
      unfolding x TStruct prod.case typed_content.case
      by (rule reads_on_bind_lift, simp, rule reads_on_mono [OF total_struct_size_ok [OF r' i targets B]])
         (use n in auto)
  next
    case (TCapability j)
    show ?thesis unfolding x TCapability prod.case typed_content.case by (auto intro!: reads_on_ok)
  next
    case (TList l)
    let ?e = "ls_element_size l" and ?c = "ls_element_count l"
    let ?content = "\<lparr>ms_words = ucast (total_words ?e ?c), ms_caps = 0\<rparr>"
    from t TList have i: "inside (seg_of r') (ls_ptr l) (list_object_words ?e (u29_val ?c) - (if is_inline_composite ?e then 1 else 0))"
      and n: "list_object_words ?e (u29_val ?c) \<le> n" by (auto simp: located_def)
    note w = list_words [OF i]
    have words: "unat (ms_words ?content) = unat (total_words ?e ?c)" by simp
    let ?tag = "if is_inline_composite ?e then 1 else 0 :: nat"
    have targets_size: "reads_on (B - n) (case ?e of
              InlineComposite sz \<Rightarrow>
                rbind (rlift (ok_or NestingLimitExceeded below)) (\<lambda>target.
                rbind (total_inline_composites_targets_size h (target r') (ls_ptr l) ?c sz) (\<lambda>s.
                rbind (rlift (unwrap (checked_add (ms_words s) 1))) (\<lambda>w. rok (s\<lparr>ms_words := w\<rparr>))))
            | Pointer \<Rightarrow>
                rbind (rlift (ok_or NestingLimitExceeded below)) (\<lambda>target.
                  total_ptrs_size h (target r') (ls_ptr l) ?c)
            | _ \<Rightarrow> rok no_size)
        (\<lambda>s m. unat (ms_words s) \<le> ?tag + m \<and> unat (ms_caps s) \<le> n + m)"
    proof (cases ?e)
      case (InlineComposite sz)
      with i have i': "inside (seg_of r') (ls_ptr l) (u29_val ?c * (unat (ss_data sz) + unat (ss_ptrs sz)))"
        by (simp add: list_object_words_def)
      have "u29_val ?c * unat (ss_ptrs sz) \<le> u29_val ?c * (unat (ss_data sz) + unat (ss_ptrs sz))"
        by (rule mult_le_mono2) simp
      moreover from n InlineComposite have "Suc (u29_val ?c * (unat (ss_data sz) + unat (ss_ptrs sz))) \<le> n"
        by (simp add: list_object_words_def)
      ultimately have caps: "u29_val ?c * unat (ss_ptrs sz) \<le> n" by linarith
      have "reads_on (B - n) (rbind (total_inline_composites_targets_size h (target r') (ls_ptr l) ?c sz) (\<lambda>s.
              rbind (rlift (unwrap (checked_add (ms_words s) 1))) (\<lambda>w. rok (s\<lparr>ms_words := w\<rparr>))))
          (\<lambda>s m. unat (ms_words s) \<le> 1 + m \<and> unat (ms_caps s) \<le> n + m)"
        if "ok_or NestingLimitExceeded below = Ok target" for target
      proof (rule reads_on_bind [OF composites_size_ok [OF r' targets [OF that] B i']], goal_cases)
        case (1 s m)
        then have "unat (ms_words s) \<le> 2 ^ 31" using assms(4) by (auto simp: MAX_BUDGET_def)
        then have "unat (ms_words s) + 1 < 2 ^ 64" by simp
        then have "checked_add (ms_words s) 1 = Some (ms_words s + 1)" "unat (ms_words s + 1) = unat (ms_words s) + 1"
          by (simp_all add: checked_add_def unat_add_no_wrap)
        with 1 caps show ?case by (auto intro!: reads_on_ok)
      qed
      then show ?thesis unfolding InlineComposite by (auto intro: reads_on_bind_lift)
    next
      case Pointer
      with i have i': "inside (seg_of r') (ls_ptr l) (u29_val ?c)" by (simp add: list_object_words_def)
      from n Pointer have "u29_val ?c \<le> n" by (simp add: list_object_words_def)
      then show ?thesis
        unfolding Pointer elem_size.case
        by (intro reads_on_bind_lift reads_on_mono [OF total_ptrs_size_ok [OF r' i' targets B]]) auto
    qed (auto intro!: reads_on_ok)
    show ?thesis
      unfolding x TList prod.case typed_content.case Let_def
    proof (rule reads_on_bind [OF targets_size], goal_cases)
      case (1 s m)
      have "unat (ms_words ?content) + unat (ms_words s) < 2 ^ 64" "unat (ms_caps ?content) + unat (ms_caps s) < 2 ^ 32"
        using 1 words w n \<open>n \<le> B\<close> assms(4) by (auto simp: MAX_BUDGET_def split: if_splits)
      then obtain s' where s': "size_add ?content s = Ok s'" "unat (ms_words s') = unat (ms_words ?content) + unat (ms_words s)"
        "unat (ms_caps s') = unat (ms_caps ?content) + unat (ms_caps s)" by (rule size_add_ok)
      have "unat (ms_words s') \<le> n + m" using s'(2) words w n 1(1) by linarith
      then show ?case using 1 s' words w n by (auto intro!: reads_on_ok)
    qed
  qed
qed

lemma target_size_ok:
  assumes "source_ok ar h"
  shows "reader_ok h r \<Longrightarrow> inside (seg_of r) p 1 \<Longrightarrow> B \<le> MAX_BUDGET \<Longrightarrow>
    reads_on B (target_size h (arena_source ar) nesting r p) (sized 1)"
proof (induction nesting arbitrary: r p B)
  case 0
  show ?case unfolding target_size.simps by (rule target_size_at_ok [OF assms 0]) simp
next
  case (Suc nesting)
  show ?case unfolding target_size.simps by (rule target_size_at_ok [OF assms Suc.prems]) (use Suc.IH in auto)
qed

section \<open>Readers that lie in their segment\<close>

definition ptr_ok :: "heap \<Rightarrow> ptr_reader \<Rightarrow> bool" where
  "ptr_ok h p \<longleftrightarrow> reader_ok h (pr_reader p) \<and> inside (seg_of (pr_reader p)) (pr_ptr p) 1"

definition struct_ok :: "heap \<Rightarrow> struct_reader \<Rightarrow> bool" where
  "struct_ok h s \<longleftrightarrow> reader_ok h (sr_reader s) \<and>
     inside (seg_of (sr_reader s)) (sr_ptrs_start s) (unat (sr_ptrs_len s))"

definition list_ok :: "heap \<Rightarrow> list_reader \<Rightarrow> bool" where
  "list_ok h l \<longleftrightarrow> reader_ok h (lr_reader l) \<and> inside (seg_of (lr_reader l)) (lr_ptr l)
     (list_object_words (lr_element_size l) (u29_val (lr_element_count l)) -
      (if is_inline_composite (lr_element_size l) then 1 else 0))"

lemma nesting_sub_Ok: "checked_sub n 1 = Some m \<Longrightarrow> Suc (unat m) = unat (n :: u32)"
  by (auto simp: checked_sub_Some unat_sub_no_wrap word_le_nat_alt)

lemma ptr_root_ok:
  assumes "source_ok ar h" "ptr_root (arena_source ar) nesting = Some p"
  shows "ptr_ok h p" "pr_nesting p = nesting"
proof -
  from assms(2) obtain root where root: "from_source (arena_source ar) 0 = Some root" "sg_len root \<noteq> u29_ZERO"
    "p = \<lparr>pr_ptr = sg_data root, pr_reader = \<lparr>or_segment = Some root\<rparr>, pr_nesting = nesting\<rparr>"
    by (auto simp: ptr_root_def reader_start_def bind_eq_Some_conv split: if_splits)
  note seg = message_source.from_source_ok [OF assms(1) root(1)]
  have "u29_val (sg_len root) \<noteq> 0" using root(2) by (simp add: u29_eq_iff)
  then have "inside root (sg_data root) 1" by (auto simp: inside_def addr_def intro!: exI [of _ 0])
  with root seg show "ptr_ok h p" "pr_nesting p = nesting" by (simp_all add: ptr_ok_def reader_ok_def seg_of_def)
qed

lemma ptr_is_null_ok:
  assumes "reader_ok h (pr_reader p)" "inside (seg_of (pr_reader p)) (pr_ptr p) 1"
  shows "reads (ptr_is_null h p) (\<lambda>_ n. n = 0)"
proof -
  have "safe (deref h (pr_ptr p))"
    by (rule inside_deref [OF _ assms(2)]) (use assms(1) in \<open>simp_all add: reader_ok_def\<close>)
  then show ?thesis unfolding ptr_is_null_def by (intro reads_bind_lift) auto
qed

lemma to_struct_ok:
  assumes "source_ok ar h" "ptr_ok h p"
  shows "reads (to_struct h (arena_source ar) p) (\<lambda>r n. case r of None \<Rightarrow> True
    | Some s \<Rightarrow> struct_ok h s \<and> unat (sr_nesting s) + 1 = unat (pr_nesting p))"
proof -
  from assms(2) have p: "reader_ok h (pr_reader p)" "inside (seg_of (pr_reader p)) (pr_ptr p) 1" by (auto simp: ptr_ok_def)
  have "reads (rbind (nesting_sub (pr_nesting p)) (\<lambda>nesting.
     rbind (try_read_struct h (arena_source ar) (pr_reader p) (pr_ptr p)) (\<lambda>(c, r).
     rbind (rlift (ptrs_start c)) (\<lambda>start.
       rok (Some \<lparr>sr_data_start = data_start c, sr_ptrs_start = start, sr_reader = r, sr_nesting = nesting,
         sr_data_len = ucast (ss_data (st_size c)) * 8, sr_ptrs_len = ss_ptrs (st_size c)\<rparr>)))))
    (\<lambda>r n. case r of None \<Rightarrow> True | Some s \<Rightarrow> struct_ok h s \<and> unat (sr_nesting s) + 1 = unat (pr_nesting p))"
    unfolding nesting_sub_def
  proof (rule reads_bind_lift, simp, rule reads_bind [OF message_source.try_read_struct_ok [OF assms(1) p]], goal_cases)
    case (1 nesting x n)
    obtain c r where x: "x = (c, r)" by force
    with 1 have r: "reader_ok h r" "inside (seg_of r) (st_ptr c) (unat (ss_data (st_size c)) + unat (ss_ptrs (st_size c)))"
      and m: "unat nesting + 1 = unat (pr_nesting p)" by (auto simp: located_def dest: nesting_sub_Ok)
    obtain a k where a: "u29_from_u16 (ss_data (st_size c)) = (Ok a :: (rerror, u29) outcome)"
      "as_ref_unchecked (ptr_offset (st_ptr c) a) = Ok (ptr_offset (st_ptr c) a)"
      "u29_val k = unat (ss_ptrs (st_size c))" "inside (seg_of r) (ptr_offset (st_ptr c) a) (u29_val k)"
      using r by (auto simp: reader_ok_def elim: struct_ptrs)
    have "ptrs_start c = Ok (ptr_offset (st_ptr c) a)" using a by (simp add: ptrs_start_def)
    with r a(3,4) m show ?case unfolding x prod.case by (auto simp: struct_ok_def intro!: reads_ok)
  qed
  then show ?thesis
    unfolding to_struct_def by (intro reads_bind [OF ptr_is_null_ok [OF p]]) (auto intro!: reads_ok)
qed

lemma to_list_ok:
  assumes "source_ok ar h" "ptr_ok h p"
  shows "reads (to_list h (arena_source ar) p ex) (\<lambda>r n. case r of None \<Rightarrow> True
    | Some l \<Rightarrow> list_ok h l \<and> unat (lr_nesting l) + 1 = unat (pr_nesting p))"
proof -
  from assms(2) have p: "reader_ok h (pr_reader p)" "inside (seg_of (pr_reader p)) (pr_ptr p) 1" by (auto simp: ptr_ok_def)
  have "reads (rbind (nesting_sub (pr_nesting p)) (\<lambda>nesting.
     rbind (try_read_list h (arena_source ar) (pr_reader p) (pr_ptr p) ex) (\<lambda>(c, r).
       rok (Some \<lparr>lr_ptr = ls_ptr c, lr_reader = r, lr_element_count = ls_element_count c,
         lr_nesting = nesting, lr_element_size = ls_element_size c\<rparr>))))
    (\<lambda>r n. case r of None \<Rightarrow> True | Some l \<Rightarrow> list_ok h l \<and> unat (lr_nesting l) + 1 = unat (pr_nesting p))"
    unfolding nesting_sub_def
    by (rule reads_bind_lift, simp, rule reads_bind [OF message_source.try_read_list_ok [OF assms(1) p]])
       (auto simp: located_def list_ok_def dest: nesting_sub_Ok intro!: reads_ok)
  then show ?thesis
    unfolding to_list_def by (intro reads_bind [OF ptr_is_null_ok [OF p]]) (auto intro!: reads_ok)
qed

lemma blob_words:
  obtains n where "unwrap (u29_new (round_up_byte_count (u29_inner c))) = (Ok n :: (rerror, u29) outcome)"
    "u29_val n = (u29_val c + 7) div 8"
  using u29_val_less [of c]
  by (intro that [of "u29_clip (round_up_byte_count (u29_inner c))"]) (simp_all add: u29_new_eq unat_round_up_byte_count)

text \<open>The bytes of a blob lie in the segment of some reader, and the words they take were charged.\<close>

lemma to_blob_ok:
  assumes "source_ok ar h" "ptr_ok h p"
  shows "reads (to_blob h (arena_source ar) p) (\<lambda>r n. case r of None \<Rightarrow> True
    | Some (b, count) \<Rightarrow> (u29_val count + 7) div 8 \<le> n \<and>
        (\<exists>s. seg_safe h (sg_segment s) \<and> inside s b ((u29_val count + 7) div 8)))"
proof -
  from assms(2) have p: "reader_ok h (pr_reader p)" "inside (seg_of (pr_reader p)) (pr_ptr p) 1" by (auto simp: ptr_ok_def)
  have "reads (rbind (location_of h (arena_source ar) (pr_reader p) (pr_ptr p)) (\<lambda>(c, r).
     rbind (rlift (try_list_ptr (ct_ptr c))) (\<lambda>lp.
       if element_size lp \<noteq> PByte then rerr (fail_upgrade (element_size lp) PByte)
       else
         rbind (rlift (element_count lp)) (\<lambda>count.
         rbind (rlift (unwrap (u29_new (round_up_byte_count (u29_inner count))))) (\<lambda>len.
         rbind (read_at (arena_source ar) r (ct_location c) lp len) (\<lambda>(ptr, _).
           rok (Some (ptr, count))))))))
    (\<lambda>r n. case r of None \<Rightarrow> True
      | Some (b, count) \<Rightarrow> (u29_val count + 7) div 8 \<le> n \<and>
        (\<exists>s. seg_safe h (sg_segment s) \<and> inside s b ((u29_val count + 7) div 8)))" (is "reads _ ?P")
  proof (rule reads_bind [OF message_source.location_of_ok [OF assms(1) p]], goal_cases)
    case (1 x n)
    obtain c r where x: "x = (c, r)" by force
    with 1 have r: "reader_ok h r" "location_ok r (ct_location c)" by auto
    have inner: "reads (rbind (rlift (unwrap (u29_new (round_up_byte_count (u29_inner count))))) (\<lambda>len.
         rbind (read_at (arena_source ar) r (ct_location c) lp len) (\<lambda>(ptr, _). rok (Some (ptr, count)))))
       (\<lambda>r k. ?P r (n + k))" for lp count
    proof -
      obtain len where len: "unwrap (u29_new (round_up_byte_count (u29_inner count))) = (Ok len :: (rerror, u29) outcome)"
        "u29_val len = (u29_val count + 7) div 8" by (rule blob_words)
      show ?thesis
        unfolding len(1) rbind_rok
        by (rule reads_bind [OF message_source.read_at_ok [OF assms(1) r]])
           (auto simp: len(2) reader_ok_def intro!: reads_ok)
    qed
    show ?case
      unfolding x prod.case try_list_ptr_def
      by (rule reads_bind_lift [OF safe_ok_or]) (auto intro!: reads_bind_lift [OF safe_element_count] inner)
  qed
  then show ?thesis
    unfolding to_blob_def
    by (intro reads_bind [OF ptr_is_null_ok [OF p]]) (auto intro!: reads_ok elim!: reads_mono split: option.splits)
qed

lemma ptr_field_ok:
  assumes "struct_ok h s" "ptr_field_option s i = Ok (Some q)"
  shows "ptr_ok h q \<and> pr_nesting q = sr_nesting s"
proof -
  obtain n where n: "u29_from_u16 i = (Ok n :: (rerror, u29) outcome)" "u29_val n = unat i" by (rule u16_offset)
  from assms(2) n(1) have i: "i < sr_ptrs_len s"
    and q: "q = \<lparr>pr_ptr = ptr_offset (sr_ptrs_start s) n, pr_reader = sr_reader s, pr_nesting = sr_nesting s\<rparr>"
    by (auto simp: ptr_field_option_def obind_Ok_iff as_ref_unchecked_def split: if_splits)
  from assms(1) have r: "reader_ok h (sr_reader s)"
    and ins: "inside (seg_of (sr_reader s)) (sr_ptrs_start s) (unat (sr_ptrs_len s))" by (auto simp: struct_ok_def)
  have "inside (seg_of (sr_reader s)) (ptr_offset (sr_ptrs_start s) n) (unat (sr_ptrs_len s) - unat i)"
    unfolding ptr_offset_addr n(2) by (rule inside_step [OF ins]) (use i in \<open>simp add: word_less_nat_alt\<close>)
  then have "inside (seg_of (sr_reader s)) (ptr_offset (sr_ptrs_start s) n) 1"
    by (rule inside_mono) (use i in \<open>simp add: word_less_nat_alt\<close>)
  with r q show ?thesis by (simp add: ptr_ok_def)
qed

text \<open>The elements of a list of pointers or of structs.\<close>

fun elem_words :: "elem_size \<Rightarrow> nat" where
  "elem_words Pointer = 1"
| "elem_words (InlineComposite s) = unat (ss_data s) + unat (ss_ptrs s)"
| "elem_words _ = 0"

definition whole_words :: "elem_size \<Rightarrow> bool" where
  "whole_words e \<longleftrightarrow> e = Pointer \<or> is_inline_composite e"

lemma index_offset:
  assumes "whole_words (lr_element_size l)"
  shows "index_to_offset l i = 8 * of_nat (elem_words (lr_element_size l) * unat i)"
proof -
  let ?w = "elem_words (lr_element_size l)"
  have b: "unat (bits (lr_element_size l)) = 64 * ?w"
    using assms by (cases "lr_element_size l") (auto simp: whole_words_def unat_bits unat_struct_total simp del: bits.simps)
  then have w: "?w \<le> 131070" using unat_bits_le [of "lr_element_size l"] by simp
  have i: "unat i < 2 ^ 32" using unsigned_less [of i] by simp
  have "?w * unat i \<le> 131070 * 2 ^ 32" using w i by (intro mult_le_mono) simp_all
  then have wi: "64 * (?w * unat i) < 2 ^ 64"
    by (rule le_less_trans [OF mult_le_mono2]) simp
  then have "unat (ucast (bits (lr_element_size l)) * ucast i :: u64) = 64 * (?w * unat i)"
    by (subst unat_mult_no_wrap) (simp_all add: b mult.assoc)
  then have "unat (index_to_offset l i) = 8 * (?w * unat i)"
    by (simp add: index_to_offset_def unat_div_distrib)
  moreover have "unat (8 * of_nat (?w * unat i) :: u64) = 8 * (?w * unat i)"
    using wi by (simp add: unat_word_ariths unat_of_nat take_bit_nat_eq_self mult.commute del: of_nat_mult)
  ultimately show ?thesis by (metis unsigned_word_eqI)
qed

lemma elem_inside:
  assumes "list_ok h l" "whole_words (lr_element_size l)" "i < u29_inner (lr_element_count l)"
  shows "inside (seg_of (lr_reader l)) (lr_ptr l + index_to_offset l i) (elem_words (lr_element_size l))"
proof -
  let ?w = "elem_words (lr_element_size l)" and ?n = "u29_val (lr_element_count l)"
  have i: "unat i < ?n" using assms(3) by (simp add: word_less_nat_alt)
  have "list_object_words (lr_element_size l) ?n - (if is_inline_composite (lr_element_size l) then 1 else 0) = ?n * ?w"
    using assms(2) by (cases "lr_element_size l") (auto simp: whole_words_def list_object_words_def)
  with assms(1) have ins: "inside (seg_of (lr_reader l)) (lr_ptr l) (?n * ?w)" by (simp add: list_ok_def)
  have "(unat i + 1) * ?w \<le> ?n * ?w" using i by (intro mult_le_mono1) simp
  then have b: "?w * unat i + ?w \<le> ?n * ?w" by (simp add: algebra_simps)
  have "lr_ptr l + index_to_offset l i = addr (lr_ptr l) (?w * unat i)"
    using index_offset [OF assms(2), of i] by (simp add: addr_def)
  moreover have "inside (seg_of (lr_reader l)) (addr (lr_ptr l) (?w * unat i)) (?n * ?w - ?w * unat i)"
    by (rule inside_step [OF ins]) (use b in linarith)
  ultimately have at: "inside (seg_of (lr_reader l)) (lr_ptr l + index_to_offset l i) (?n * ?w - ?w * unat i)" by simp
  show ?thesis by (rule inside_mono [OF at]) (use b in linarith)
qed

lemma u16_words: "ucast (d :: u16) * 8 = (8 * of_nat (unat d) :: u64)" "ucast (ucast d * 8 :: u32) = (8 * of_nat (unat d) :: u64)"
proof -
  have d: "unat d < 2 ^ 16" using unsigned_less [of d] by simp
  then have u: "unat (ucast d :: u32) = unat d" "unat (ucast d :: u64) = unat d"
    by (simp_all add: unsigned_ucast_eq take_bit_nat_eq_self)
  with d have m: "unat (ucast d * 8 :: u32) = unat d * 8"
    by (subst unat_mult_no_wrap) simp_all
  have "of_nat (unat (ucast d * 8 :: u32)) = (8 * of_nat (unat d) :: u64)" unfolding m by simp
  then show "ucast (ucast d * 8 :: u32) = (8 * of_nat (unat d) :: u64)" by (simp only: of_nat_unat ucast_id)
  have "of_nat (unat (ucast d :: u64)) * 8 = (8 * of_nat (unat d) :: u64)" unfolding u by simp
  then show "ucast d * 8 = (8 * of_nat (unat d) :: u64)" by (simp only: of_nat_unat ucast_id)
qed

lemma ptr_unchecked_ok:
  assumes "list_ok h l" "i < u29_inner (lr_element_count l)"
    and "lr_element_size l = Pointer \<or> (\<exists>sz. lr_element_size l = InlineComposite sz \<and> ss_ptrs sz \<noteq> 0)"
  obtains q where "ptr_unchecked l i = Ok q" "ptr_ok h q" "pr_nesting q = lr_nesting l"
proof -
  have whole: "whole_words (lr_element_size l)" using assms(3) by (auto simp: whole_words_def)
  note ins = elem_inside [OF assms(1) whole assms(2)]
  let ?d = "case lr_element_size l of InlineComposite s \<Rightarrow> ucast (ss_data s) * 8 | _ \<Rightarrow> (0 :: u64)"
  let ?k = "case lr_element_size l of InlineComposite s \<Rightarrow> unat (ss_data s) | _ \<Rightarrow> 0"
  have d: "?d = 8 * of_nat ?k"
    by (cases "lr_element_size l") (simp_all add: u16_words)
  have k: "?k + 1 \<le> elem_words (lr_element_size l)"
    using assms(3) by (auto simp: Suc_le_eq unat_gt_0)
  have "lr_ptr l + (index_to_offset l i + ?d) = addr (lr_ptr l + index_to_offset l i) ?k"
    by (simp only: d addr_def add.assoc)
  moreover have "inside (seg_of (lr_reader l)) (addr (lr_ptr l + index_to_offset l i) ?k) (elem_words (lr_element_size l) - ?k)"
    by (rule inside_step [OF ins]) (use k in linarith)
  ultimately have at: "inside (seg_of (lr_reader l)) (lr_ptr l + (index_to_offset l i + ?d)) (elem_words (lr_element_size l) - ?k)"
    by simp
  have q: "inside (seg_of (lr_reader l)) (lr_ptr l + (index_to_offset l i + ?d)) 1"
    by (rule inside_mono [OF at]) (use k in linarith)
  have r: "reader_ok h (lr_reader l)" using assms(1) by (simp add: list_ok_def)
  then have "as_ref_unchecked (lr_ptr l + (index_to_offset l i + ?d)) = Ok (lr_ptr l + (index_to_offset l i + ?d))"
    using q by (intro inside_ref) (auto simp: reader_ok_def)
  then have "ptr_unchecked l i = Ok \<lparr>pr_ptr = lr_ptr l + (index_to_offset l i + ?d), pr_reader = lr_reader l, pr_nesting = lr_nesting l\<rparr>"
    by (simp add: ptr_unchecked_def Let_def)
  then show thesis by (rule that) (use q r in \<open>simp_all only: ptr_ok_def ptr_reader.simps simp_thms\<close>)
qed

lemma struct_unchecked_ok:
  assumes "list_ok h l" "i < u29_inner (lr_element_count l)" "whole_words (lr_element_size l)"
  obtains s where "struct_unchecked l i = Ok s" "struct_ok h s" "sr_nesting s \<le> lr_nesting l"
proof -
  note ins = elem_inside [OF assms(1,3,2)]
  obtain dl pl where dp: "bytes_and_ptrs (lr_element_size l) = (dl, pl)" by force
  let ?k = "case lr_element_size l of InlineComposite s \<Rightarrow> unat (ss_data s) | _ \<Rightarrow> 0"
  have k: "(ucast dl :: u64) = 8 * of_nat ?k" "?k + unat pl = elem_words (lr_element_size l)"
    using dp assms(3) by (auto simp: whole_words_def u16_words elim!: is_inline_composite.elims)
  let ?d = "lr_ptr l + index_to_offset l i"
  have q: "?d + ucast dl = addr ?d ?k" by (simp only: k(1) addr_def)
  have ip: "inside (seg_of (lr_reader l)) (addr ?d ?k) (unat pl)"
    using inside_step [OF ins, of ?k] k(2) by (metis add_diff_cancel_left' le_add1)
  have r: "reader_ok h (lr_reader l)" using assms(1) by (simp add: list_ok_def)
  then have seg: "seg_safe h (sg_segment (seg_of (lr_reader l)))" by (simp add: reader_ok_def)
  have "saturating_sub (lr_nesting l) 1 \<le> lr_nesting l"
    by (auto simp: saturating_sub_def word_le_nat_alt unat_sub_no_wrap)
  have eq: "struct_unchecked l i = Ok \<lparr>sr_data_start = ?d, sr_ptrs_start = addr ?d ?k, sr_reader = lr_reader l,
      sr_nesting = saturating_sub (lr_nesting l) 1, sr_data_len = dl, sr_ptrs_len = pl\<rparr>" (is "_ = Ok ?s")
    by (simp only: struct_unchecked_def dp prod.case Let_def inside_ref [OF seg ins] q inside_ref [OF seg ip] obind_simps)
  show thesis
  proof (rule that [OF eq])
    show "struct_ok h ?s" using r ip by (simp only: struct_ok_def struct_reader.simps simp_thms)
  qed (simp only: struct_reader.simps \<open>saturating_sub (lr_nesting l) 1 \<le> lr_nesting l\<close>)
qed

section \<open>Walking through a message\<close>

text \<open>The pointers a client can reach from the root pointer: the fields of the structs it reads, the
  elements of the lists of pointers and the fields of the structs in lists. The walk carries the number
  of pointers it has followed and the traversal limit that is left; every read may also be made again,
  the relation lets the walk go on from any reader it holds.\<close>

inductive reach :: "heap \<Rightarrow> read_segments \<Rightarrow> ptr_reader \<Rightarrow> u64 option \<Rightarrow> nat \<Rightarrow> ptr_reader \<Rightarrow> u64 option \<Rightarrow> bool"
  for h arena root limit where
  start: "reach h arena root limit 0 root limit"
| field: "reach h arena root limit d p l \<Longrightarrow> to_struct h arena p l = (Ok (Some s), l') \<Longrightarrow>
    ptr_field_option s i = Ok (Some q) \<Longrightarrow> reach h arena root limit (Suc d) q l'"
| elem: "reach h arena root limit d p l \<Longrightarrow> to_list h arena p expected l = (Ok (Some ls), l') \<Longrightarrow>
    i < u29_inner (lr_element_count ls) \<Longrightarrow>
    lr_element_size ls = Pointer \<or> (\<exists>sz. lr_element_size ls = InlineComposite sz \<and> ss_ptrs sz \<noteq> 0) \<Longrightarrow>
    ptr_unchecked ls i = Ok q \<Longrightarrow> reach h arena root limit (Suc d) q l'"
| elem_field: "reach h arena root limit d p l \<Longrightarrow> to_list h arena p expected l = (Ok (Some ls), l') \<Longrightarrow>
    i < u29_inner (lr_element_count ls) \<Longrightarrow> lr_element_size ls \<noteq> Bit \<Longrightarrow>
    struct_unchecked ls i = Ok s \<Longrightarrow> ptr_field_option s j = Ok (Some q) \<Longrightarrow> reach h arena root limit (Suc d) q l'"

inductive_cases reach_0: "reach h arena root limit 0 q l"

lemma readsD: "reads m Q \<Longrightarrow> m l = (Ok x, l') \<Longrightarrow> \<exists>n. Q x n \<and> spends n l l'"
  by (auto simp: reads_def read_result_def dest!: spec [of _ l])

lemma ptr_field_none: "sr_ptrs_len s = 0 \<Longrightarrow> ptr_field_option s j \<noteq> Ok (Some q)"
  by (simp add: ptr_field_option_def)

lemma struct_unchecked_no_ptrs:
  assumes "struct_unchecked l i = Ok s" "\<not> whole_words (lr_element_size l)"
  shows "sr_ptrs_len s = 0"
  using assms by (cases "lr_element_size l") (auto simp: struct_unchecked_def whole_words_def obind_Ok_iff Let_def)

lemma reach_ok:
  assumes "source_ok ar h" "ptr_ok h root" "reach h (arena_source ar) root limit d q l"
  shows "ptr_ok h q \<and> d + unat (pr_nesting q) \<le> unat (pr_nesting root) \<and> (\<exists>n. spends n limit l)"
  using assms(3)
proof induction
  case start
  show ?case using assms(2) by (auto intro: spends_0)
next
  case (field d p l s l' i q)
  then have p: "ptr_ok h p" by simp
  obtain n where "struct_ok h s" "unat (sr_nesting s) + 1 = unat (pr_nesting p)" "spends n l l'"
    using readsD [OF to_struct_ok [OF assms(1) p] field.hyps(2)] by auto
  with ptr_field_ok [OF _ field.hyps(3)] field.IH show ?case by (auto dest: spends_trans)
next
  case (elem d p l expected ls l' i q)
  then have p: "ptr_ok h p" by simp
  obtain n where ls: "list_ok h ls" "unat (lr_nesting ls) + 1 = unat (pr_nesting p)" "spends n l l'"
    using readsD [OF to_list_ok [OF assms(1) p] elem.hyps(2)] by auto
  obtain q' where "ptr_unchecked ls i = Ok q'" "ptr_ok h q'" "pr_nesting q' = lr_nesting ls"
    using ls(1) elem.hyps(3,4) by (rule ptr_unchecked_ok)
  with elem.hyps(5) elem.IH ls(2,3) show ?case by (auto dest: spends_trans)
next
  case (elem_field d p l expected ls l' i s j q)
  then have p: "ptr_ok h p" by simp
  obtain n where ls: "list_ok h ls" "unat (lr_nesting ls) + 1 = unat (pr_nesting p)" "spends n l l'"
    using readsD [OF to_list_ok [OF assms(1) p] elem_field.hyps(2)] by auto
  have "whole_words (lr_element_size ls)"
    using struct_unchecked_no_ptrs [OF elem_field.hyps(5)] ptr_field_none elem_field.hyps(6) by blast
  with ls(1) elem_field.hyps(3) obtain s' where "struct_unchecked ls i = Ok s'" "struct_ok h s'" "sr_nesting s' \<le> lr_nesting ls"
    by (rule struct_unchecked_ok)
  with elem_field.hyps(5) have s: "struct_ok h s" "unat (sr_nesting s) \<le> unat (lr_nesting ls)" by (simp_all add: word_le_nat_alt)
  from ptr_field_ok [OF s(1) elem_field.hyps(6)] s(2) ls(2,3) elem_field.IH show ?case by (auto dest: spends_trans)
qed

section \<open>Properties of the readers\<close>

text \<open>C12: asking for the size of what a pointer of a message points to ends, also when the message is
  cyclic, without a panic: in an error, or in a size of at most as many words as the limiter was
  charged, so never more than the traversal limit. The limit is one of up to \<open>2 ^ 31\<close> words.\<close>

theorem target_size_bounded:
  assumes "source_ok ar h" and "reader_ok h (pr_reader p)" and "inside (seg_of (pr_reader p)) (pr_ptr p) 1"
    and "unat limit \<le> 2 ^ 31"
  shows "read_result (\<lambda>s n. unat (ms_words s) \<le> n \<and> unat (ms_caps s) \<le> 1 + n \<and> n \<le> unat limit)
    (Some limit) (ptr_target_size h (arena_source ar) p (Some limit))"
proof -
  have "reads_on (unat limit) (ptr_target_size h (arena_source ar) p) (sized 1)"
    unfolding ptr_target_size_def
  proof (rule reads_on_bind [OF reads_on_of [OF ptr_is_null_ok [OF assms(2,3)]]], goal_cases)
    case (1 null n)
    have "reads_on (unat limit) (rbind (nesting_sub (pr_nesting p)) (\<lambda>nesting.
       target_size h (arena_source ar) (unat nesting) (pr_reader p) (pr_ptr p))) (sized 1)"
      unfolding nesting_sub_def
      by (rule reads_on_bind_lift, simp, rule target_size_ok [OF assms(1-3)])
         (use assms(4) in \<open>simp add: MAX_BUDGET_def\<close>)
    with 1 show ?case by (auto intro!: reads_on_ok)
  qed
  then have "read_result (sized 1) (Some limit) (ptr_target_size h (arena_source ar) p (Some limit))"
    by (rule reads_on_result) simp
  moreover have "n \<le> unat limit" if "spends n (Some limit) l'" for n l'
    using that by (rule spends_SomeE) simp
  ultimately show ?thesis
    by (fastforce simp: read_result_def split: prod.splits outcome.splits)
qed

definition demo_ptr :: ptr_reader where
  "demo_ptr = \<lparr>pr_ptr = 64, pr_reader = demo_reader, pr_nesting = 64\<rparr>"

theorem target_size_bounded_witness:
  "read_result (\<lambda>s n. unat (ms_words s) \<le> n \<and> unat (ms_caps s) \<le> 1 + n \<and> n \<le> unat (100 :: u64))
    (Some 100) (ptr_target_size demo_heap (arena_source demo_arena) demo_ptr (Some 100))"
  by (rule target_size_bounded) (use demo_ok in \<open>simp_all add: demo_ptr_def\<close>)

text \<open>C11: whatever pointers a client follows from the root of a message, through struct fields, lists of
  pointers and lists of structs, the pointer it stands on lies in a segment; the pointers followed and
  the nesting limit left never exceed the nesting limit it began with, so a walk is never longer than
  the nesting limit; the reads were charged to the traversal limit; and the next read neither panics
  nor touches memory outside the message.\<close>

theorem reach_safe:
  assumes "source_ok ar h" and "ptr_root (arena_source ar) nesting = Some root"
    and "reach h (arena_source ar) root limit d q l"
  shows "inside (seg_of (pr_reader q)) (pr_ptr q) 1 \<and> d + unat (pr_nesting q) \<le> unat nesting \<and>
    (\<exists>n. spends n limit l) \<and> safe (fst (to_struct h (arena_source ar) q l)) \<and>
    safe (fst (to_list h (arena_source ar) q expected l)) \<and> safe (fst (to_blob h (arena_source ar) q l))"
proof -
  note root = ptr_root_ok [OF assms(1,2)]
  from reach_ok [OF assms(1) root(1) assms(3)] root(2)
  have q: "ptr_ok h q" "d + unat (pr_nesting q) \<le> unat nesting" "\<exists>n. spends n limit l" by auto
  from to_struct_ok [OF assms(1) q(1)] to_list_ok [OF assms(1) q(1), of expected] to_blob_ok [OF assms(1) q(1)] q show ?thesis
    by (auto simp: reads_def ptr_ok_def)
qed

text \<open>A message of one word: a pointer to a struct whose only pointer is that word itself.\<close>

definition loop_heap :: heap where
  "loop_heap = \<lparr>mem = [64 \<mapsto> word_of_parts (struct_ptr_new (i30_clip (- 1)) \<lparr>ss_data = 0, ss_ptrs = 1\<rparr>)], choices = []\<rparr>"

definition loop_arena :: "never arena" where
  "loop_arena = \<lparr>first = Some (arena_segment_new \<lparr>seg_data = 64, seg_len = u29_clip 1\<rparr> (nz29_clip 1) 0),
     tail = [], last_owned = 0, ar_alloc = Never\<rparr>"

definition loop_root :: ptr_reader where
  "loop_root = \<lparr>pr_ptr = 64, pr_reader = \<lparr>or_segment = Some \<lparr>sg_data = 64, sg_len = u29_clip 1, sg_id = 0\<rparr>\<rparr>,
     pr_nesting = 64\<rparr>"

lemma loop_ok: "source_ok loop_arena loop_heap" "ptr_root (arena_source loop_arena) 64 = Some loop_root"
proof -
  have u: "u29_val (used_len (arena_segment_new s (nz29_clip 1) i)) = 1" for s i
    by (simp add: used_len_def arena_segment_new_def)
  have s: "segs loop_arena = [arena_segment_new \<lparr>seg_data = 64, seg_len = u29_clip 1\<rparr> (nz29_clip 1) 0]"
    by (simp add: segs_def loop_arena_def)
  have rb: "segment_readable loop_heap (arena_segment_new \<lparr>seg_data = 64, seg_len = u29_clip 1\<rparr> (nz29_clip 1) 0)"
    "segment_bounded (arena_segment_new \<lparr>seg_data = 64, seg_len = u29_clip 1\<rparr> (nz29_clip 1) 0)"
    by (auto simp: segment_readable_def seg_place_def u segment_bounded_def addr_def loop_heap_def)
      (simp add: arena_segment_new_def)+
  then show "source_ok loop_arena loop_heap"
    by (simp add: source_ok_def arena_readable_def s) (simp add: loop_arena_def)
  show "ptr_root (arena_source loop_arena) 64 = Some loop_root"
    by (simp add: ptr_root_def reader_start_def loop_root_def from_source_def arena_source_def arena_segment_at_def
        loop_arena_def segment_reader_new_def used_segment_def arena_segment_new_def used_len_def u29_eq_iff)
qed

definition loop_struct :: struct_reader where
  "loop_struct = \<lparr>sr_data_start = 64, sr_ptrs_start = 64, sr_reader = pr_reader loop_root, sr_nesting = 63,
     sr_data_len = 0, sr_ptrs_len = 1\<rparr>"

lemma loop_word: "deref loop_heap 64 = Ok (word_of_parts (struct_ptr_new (i30_clip (- 1)) \<lparr>ss_data = 0, ss_ptrs = 1\<rparr>))"
  by (simp add: deref_def loop_heap_def)

lemma loop_not_null: "\<not> is_null (word_of_parts (struct_ptr_new (i30_clip (- 1)) \<lparr>ss_data = 0, ss_ptrs = 1\<rparr>))"
  by code_simp

lemma loop_len: "struct_len \<lparr>ss_data = 0, ss_ptrs = 1\<rparr> = (Ok (u29_clip 1) :: (rerror, u29) outcome)"
  by code_simp

lemma loop_origin: "ptr_signed_offset_from_end 64 (i30_clip (- 1)) = Ok 64"
  by code_simp

lemma loop_get: "try_get_section \<lparr>sg_data = 64, sg_len = u29_clip 1, sg_id = 0\<rparr> 64 (u29_clip 1) = Ok (Some 64)"
  by (simp add: try_get_section_def ptr_offset_addr addr_def reader_end_def as_ref_unchecked_def)

lemma loop_section: "try_read_object_from_end_of (pr_reader loop_root) 64 (i30_clip (- 1)) (u29_clip 1) (Some 8) = (Ok 64, Some 7)"
  by (simp add: try_read_object_from_end_of_def loop_origin loop_root_def loop_get rbind_def rlift_def ok_or_def
      try_amplified_read_def limiter_try_read_def checked_sub_def)

lemma loop_ptrs_start: "ptrs_start \<lparr>st_ptr = 64, st_size = \<lparr>ss_data = 0, ss_ptrs = 1\<rparr>\<rparr> = Ok 64"
  by code_simp

lemma loop_to_struct: "to_struct loop_heap (arena_source loop_arena) loop_root (Some 8) = (Ok (Some loop_struct), Some 7)"
proof -
  let ?w = "word_of_parts (struct_ptr_new (i30_clip (- 1)) \<lparr>ss_data = 0, ss_ptrs = 1\<rparr>)"
  have p: "pr_ptr loop_root = 64" "pr_nesting loop_root = 64" by (simp_all add: loop_root_def)
  have "try_read_struct loop_heap (arena_source loop_arena) (pr_reader loop_root) 64 (Some 8)
      = (Ok (\<lparr>st_ptr = 64, st_size = \<lparr>ss_data = 0, ss_ptrs = 1\<rparr>\<rparr>, pr_reader loop_root), Some 7)"
    by (simp add: try_read_struct_def location_of_def rbind_def rlift_def loop_word far_ptr_def ptr_kinds
        try_read_as_struct_content_def try_struct_ptr_def struct_ptr_def is_struct_def ok_or_def
        read_as_struct_content_def new_sizes new_offsets loop_len loop_section read_at_def Let_def)
  then show ?thesis
    by (simp add: to_struct_def ptr_is_null_def p rbind_def rlift_def loop_word loop_not_null nesting_sub_def
        ok_or_def checked_sub_def loop_struct_def loop_ptrs_start data_start_def)
qed

lemma loop_field: "ptr_field_option loop_struct 0 = Ok (Some (loop_root\<lparr>pr_nesting := 63\<rparr>))"
  by code_simp

lemma loop_reach: "reach loop_heap (arena_source loop_arena) loop_root (Some 8) 1 (loop_root\<lparr>pr_nesting := 63\<rparr>) (Some 7)"
  using reach.field [OF reach.start loop_to_struct loop_field] by simp

theorem reach_safe_witness:
  "inside (seg_of (pr_reader loop_root)) 64 1 \<and> 1 + unat (63 :: u32) \<le> unat (64 :: u32) \<and>
    (\<exists>n. spends n (Some 8) (Some 7)) \<and>
    safe (fst (to_struct loop_heap (arena_source loop_arena) (loop_root\<lparr>pr_nesting := 63\<rparr>) (Some 7))) \<and>
    safe (fst (to_list loop_heap (arena_source loop_arena) (loop_root\<lparr>pr_nesting := 63\<rparr>) None (Some 7))) \<and>
    safe (fst (to_blob loop_heap (arena_source loop_arena) (loop_root\<lparr>pr_nesting := 63\<rparr>) (Some 7)))"
  using reach_safe [OF loop_ok loop_reach, of None] by (simp add: loop_root_def)

end
