(* ===== verification/Obj_Builder.thy ===== *)
theory Obj_Builder
  imports Obj_Reader
begin

text \<open>
  Building objects in a message (\<^verbatim>\<open>recapn/src/ptr.rs\<close>, \<open>ObjectBuilder\<close>): placing structs and lists,
  in the segment of the pointer, or elsewhere behind a far pointer with one or two landing pads, and
  finding them again. The state is the arena of the message with the heap its segments are in. A
  builder is a reference to a segment of the arena: its position in the arena. A debug assertion
  that fails is a panic.
\<close>

section \<open>Messages being built\<close>

record 'a message =
  mg_arena :: "'a arena"
  mg_heap :: heap

type_synonym ('a, 'b) build = "'a message \<Rightarrow> (rerror, 'b) outcome \<times> 'a message"

definition bbind :: "('a, 'b) build \<Rightarrow> ('b \<Rightarrow> ('a, 'c) build) \<Rightarrow> ('a, 'c) build" where
  "bbind m f = (\<lambda>s. case m s of
     (Ok x, s') \<Rightarrow> f x s' | (Err e, s') \<Rightarrow> (Err e, s') | (Panic, s') \<Rightarrow> (Panic, s') | (UB, s') \<Rightarrow> (UB, s'))"

definition bget :: "('a message \<Rightarrow> (rerror, 'b) outcome) \<Rightarrow> ('a, 'b) build" where
  "bget q = (\<lambda>s. (q s, s))"

abbreviation bret :: "'b \<Rightarrow> ('a, 'b) build" where "bret x \<equiv> bget (\<lambda>_. Ok x)"
abbreviation bfail :: "rerror \<Rightarrow> ('a, 'b) build" where "bfail e \<equiv> bget (\<lambda>_. Err e)"

text \<open>\<open>expect\<close> on a result.\<close>

definition expect_ok :: "('e, 'b) outcome \<Rightarrow> ('f, 'b) outcome" where
  "expect_ok m = (case m of Ok x \<Rightarrow> Ok x | Err e \<Rightarrow> Panic | Panic \<Rightarrow> Panic | UB \<Rightarrow> UB)"

definition write_word :: "u64 \<Rightarrow> Word \<Rightarrow> ('a, unit) build" where
  "write_word p w = (\<lambda>m. if mem (mg_heap m) p = None then (UB, m)
     else (Ok (), m\<lparr>mg_heap := put_words [p] (Some w) (mg_heap m)\<rparr>))"

section \<open>Places in a segment\<close>

type_synonym object_builder = u32

definition builder_segment :: "'a message \<Rightarrow> object_builder \<Rightarrow> (rerror, arena_segment) outcome" where
  "builder_segment m b = (case arena_segment_at (mg_arena m) b of Some s \<Rightarrow> Ok s | None \<Rightarrow> UB)"

definition builder_id :: "'a message \<Rightarrow> object_builder \<Rightarrow> (rerror, u32) outcome" where
  "builder_id m b = obind (builder_segment m b) (\<lambda>s. Ok (as_id s))"

definition builder_as_reader :: "'a message \<Rightarrow> object_builder \<Rightarrow> (rerror, object_reader) outcome" where
  "builder_as_reader m b = obind (builder_segment m b) (\<lambda>s.
     Ok \<lparr>or_segment = Some \<lparr>sg_data = seg_data (as_segment s), sg_len = seg_len (as_segment s), sg_id = as_id s\<rparr>\<rparr>)"

definition builder_contains :: "'a message \<Rightarrow> object_builder \<Rightarrow> u64 \<Rightarrow> (rerror, bool) outcome" where
  "builder_contains m b r = obind (builder_segment m b) (\<lambda>s.
     case to_ptr_range (as_segment s) of (lo, hi) \<Rightarrow> Ok (lo \<le> r \<and> r < hi))"

definition check_ref :: "'a message \<Rightarrow> object_builder \<Rightarrow> u64 \<Rightarrow> (rerror, u64) outcome" where
  "check_ref m b r = obind (builder_contains m b r) (\<lambda>c. obind (assert_that c) (\<lambda>_. as_ref_unchecked r))"

definition builder_start :: "'a message \<Rightarrow> object_builder \<Rightarrow> (rerror, u64) outcome" where
  "builder_start m b = obind (builder_segment m b) (\<lambda>s. Ok (seg_data (as_segment s)))"

definition builder_end :: "'a message \<Rightarrow> object_builder \<Rightarrow> (rerror, u64) outcome" where
  "builder_end m b = obind (builder_segment m b) (\<lambda>s. Ok (ptr_offset (seg_data (as_segment s)) (used_len s)))"

definition contains_range :: "'a message \<Rightarrow> object_builder \<Rightarrow> u64 \<Rightarrow> u64 \<Rightarrow> (rerror, bool) outcome" where
  "contains_range m b start fin = obind (builder_start m b) (\<lambda>segment_start.
     obind (builder_end m b) (\<lambda>segment_end.
       Ok (segment_start \<le> start \<and> start \<le> fin \<and> fin \<le> segment_end)))"

definition contains_section :: "'a message \<Rightarrow> object_builder \<Rightarrow> u64 \<Rightarrow> u29 \<Rightarrow> (rerror, bool) outcome" where
  "contains_section m b r off = contains_range m b r (ptr_offset r off)"

definition at_offset :: "'a message \<Rightarrow> object_builder \<Rightarrow> u29 \<Rightarrow> (rerror, u64) outcome" where
  "at_offset m b off = obind (builder_start m b) (\<lambda>start. check_ref m b (ptr_offset start off))"

text \<open>\<open>offset_from\<close> of raw pointers, in words, cast to an \<open>i32\<close>.\<close>

definition offset_between :: "u64 \<Rightarrow> u64 \<Rightarrow> (rerror, i30) outcome" where
  "offset_between from to = (if sint (to - from) mod 8 \<noteq> 0 then UB
     else i30_new_unchecked (word_of_int (sint (to - from) div 8)))"

definition offset_from :: "'a message \<Rightarrow> object_builder \<Rightarrow> u64 \<Rightarrow> u64 \<Rightarrow> (rerror, i30) outcome" where
  "offset_from m b from to = obind (contains_range m b from to) (\<lambda>c.
     obind (assert_that c) (\<lambda>_. offset_between from to))"

definition offset_from_end_of :: "'a message \<Rightarrow> object_builder \<Rightarrow> u64 \<Rightarrow> u64 \<Rightarrow> (rerror, i30) outcome" where
  "offset_from_end_of m b from to = offset_from m b (ptr_offset from (u29_clip 1)) to"

definition offset_from_start :: "'a message \<Rightarrow> object_builder \<Rightarrow> u64 \<Rightarrow> (rerror, u29) outcome" where
  "offset_from_start m b to = obind (builder_contains m b to) (\<lambda>c. obind (assert_that c) (\<lambda>_.
     obind (builder_start m b) (\<lambda>start. obind (offset_from m b start to) (\<lambda>off.
       obind (i30_get off) (\<lambda>n. unwrap (u29_new n))))))"

definition set_ptr :: "object_builder \<Rightarrow> u64 \<Rightarrow> Word \<Rightarrow> ('a, unit) build" where
  "set_ptr b ptr value = bbind (bget (\<lambda>m. obind (builder_contains m b ptr) assert_that)) (\<lambda>_. write_word ptr value)"

definition clear_section :: "object_builder \<Rightarrow> u64 \<Rightarrow> u29 \<Rightarrow> ('a, unit) build" where
  "clear_section b start off = bbind (bget (\<lambda>m. obind (contains_section m b start off) assert_that)) (\<lambda>_ m.
     let xs = addr_list start (u29_val off) in
     if \<not> list_all (\<lambda>x. mem (mg_heap m) x \<noteq> None) xs then (UB, m)
     else (Ok (), m\<lparr>mg_heap := put_words xs (Some Word_NULL) (mg_heap m)\<rparr>))"

section \<open>Other segments\<close>

definition build_segment :: "'a message \<Rightarrow> u32 \<Rightarrow> object_builder option" where
  "build_segment m i = map_option (\<lambda>_. i) (arena_segment_at (mg_arena m) i)"

definition build_object_in :: "'a message \<Rightarrow> u32 \<Rightarrow> u29 \<Rightarrow> (rerror, (u64 \<times> object_builder) option) outcome" where
  "build_object_in m i off = (case build_segment m i of
     None \<Rightarrow> Ok None
   | Some b \<Rightarrow> obind (at_offset m b off) (\<lambda>place. Ok (Some (place, b))))"

definition build_object_from_end_of :: "'a message \<Rightarrow> object_builder \<Rightarrow> u64 \<Rightarrow> i30 \<Rightarrow>
    (rerror, u64 \<times> object_builder) outcome" where
  "build_object_from_end_of m b ptr off = obind (ptr_signed_offset_from_end ptr off) (\<lambda>p.
     obind (check_ref m b p) (\<lambda>start. Ok (start, b)))"

definition build_object_from_end_in :: "'a message \<Rightarrow> object_builder \<Rightarrow> u32 \<Rightarrow> u64 \<Rightarrow> i30 \<Rightarrow>
    (rerror, (u64 \<times> object_builder) option) outcome" where
  "build_object_from_end_in m b i ptr off = (case build_segment m i of
     None \<Rightarrow> Ok None
   | Some b' \<Rightarrow> obind (ptr_signed_offset_from_end ptr off) (\<lambda>p.
       obind (check_ref m b p) (\<lambda>start. Ok (Some (start, b')))))"

definition locate_ptr :: "'a message \<Rightarrow> object_builder \<Rightarrow> u64 \<Rightarrow> Word \<Rightarrow> (rerror, content \<times> object_builder) outcome" where
  "locate_ptr m b place w = (case far_ptr w of
     None \<Rightarrow> Ok (\<lparr>ct_ptr = w, ct_location = Near place\<rparr>, b)
   | Some far \<Rightarrow> obind (far_offset far) (\<lambda>off.
       obind (build_object_in m (far_segment far) off) (\<lambda>r. obind (unwrap r) (\<lambda>(pad, b').
       if double_far far then
         obind (as_ref_unchecked (ptr_offset pad (u29_clip 1))) (\<lambda>tag.
         obind (deref (mg_heap m) pad) (\<lambda>pad_ptr.
         obind (expect_ok (try_far_ptr pad_ptr)) (\<lambda>far'.
         obind (deref (mg_heap m) tag) (\<lambda>tag_ptr.
         obind (far_offset far') (\<lambda>off'.
           Ok (\<lparr>ct_ptr = tag_ptr, ct_location = DoubleFar (far_segment far') off'\<rparr>, b'))))))
       else obind (deref (mg_heap m) pad) (\<lambda>pad_ptr.
         Ok (\<lparr>ct_ptr = pad_ptr, ct_location = Far pad\<rparr>, b'))))))"

definition locate :: "'a message \<Rightarrow> object_builder \<Rightarrow> u64 \<Rightarrow> (rerror, content \<times> object_builder) outcome" where
  "locate m b ptr = obind (deref (mg_heap m) ptr) (locate_ptr m b ptr)"

text \<open>The match on the location that \<open>build_struct\<close> and \<open>build_list\<close> make.\<close>

definition build_at :: "'a message \<Rightarrow> object_builder \<Rightarrow> location \<Rightarrow> parts \<Rightarrow> (rerror, u64 \<times> object_builder) outcome" where
  "build_at m b loc p = (case loc of
     Near origin \<Rightarrow> obind (content_offset p) (build_object_from_end_of m b origin)
   | Far origin \<Rightarrow> obind (content_offset p) (build_object_from_end_of m b origin)
   | DoubleFar i off \<Rightarrow> obind (build_object_in m i off) (ok_or WritingNotAllowed))"

definition build_struct :: "'a message \<Rightarrow> object_builder \<Rightarrow> u64 \<Rightarrow> (rerror, struct_content \<times> object_builder) outcome" where
  "build_struct m b origin = obind (locate m b origin) (\<lambda>(c, b').
     obind (try_struct_ptr (ct_ptr c)) (\<lambda>p.
     obind (build_at m b' (ct_location c) p) (\<lambda>(start, b'').
       Ok (\<lparr>st_ptr = start, st_size = struct_ptr_size p\<rparr>, b''))))"

definition build_list :: "'a message \<Rightarrow> object_builder \<Rightarrow> u64 \<Rightarrow> (rerror, list_content \<times> object_builder) outcome" where
  "build_list m b origin = obind (locate m b origin) (\<lambda>(c, b').
     obind (try_list_ptr (ct_ptr c)) (\<lambda>p.
     obind (build_at m b' (ct_location c) p) (\<lambda>(start, b'').
       if element_size p = PInlineComposite then
         obind (deref (mg_heap m) start) (\<lambda>w.
         obind (unwrap (struct_ptr w)) (\<lambda>tag.
         obind (as_ref_unchecked (ptr_offset start (u29_clip 1))) (\<lambda>list_start.
         obind (inline_composite_element_count tag) (\<lambda>n.
           Ok (\<lparr>ls_ptr = list_start, ls_element_size = InlineComposite (struct_ptr_size tag), ls_element_count = n\<rparr>,
             b'')))))
       else obind (element_count p) (\<lambda>n.
         Ok (\<lparr>ls_ptr = start, ls_element_size = to_element_size (element_size p), ls_element_count = n\<rparr>, b'')))))"

definition clear_struct_section :: "object_builder \<Rightarrow> struct_content \<Rightarrow> ('a, unit) build" where
  "clear_struct_section b c = bbind (bget (\<lambda>_. struct_len (st_size c))) (clear_section b (st_ptr c))"

definition clear_list_section :: "object_builder \<Rightarrow> list_content \<Rightarrow> ('a, unit) build" where
  "clear_list_section b c = (case nz29_new (object_words (ls_element_size c) (ls_element_count c)) of
     None \<Rightarrow> bret ()
   | Some n \<Rightarrow> bbind (if is_inline_composite (ls_element_size c)
         then bget (\<lambda>m. obind (i30_from_i16 (- 1)) (\<lambda>off. check_ref m b (ptr_signed_offset (ls_ptr c) off)))
         else bret (ls_ptr c)) (\<lambda>obj_start. clear_section b obj_start (u29_of_nz29 n)))"

text \<open>Clearing a pointer clears its landing pads; a pad in a segment that does not exist ends it early.\<close>

definition clear_pads :: "parts \<Rightarrow> ('a, bool) build" where
  "clear_pads far = bbind (bget (\<lambda>m. obind (far_offset far) (build_object_in m (far_segment far)))) (\<lambda>r. case r of
     None \<Rightarrow> bret False
   | Some (pad, b) \<Rightarrow> bbind (set_ptr b pad Word_NULL) (\<lambda>_.
       if double_far far then
         bbind (bget (\<lambda>_. as_ref_unchecked (ptr_offset pad (u29_clip 1)))) (\<lambda>tag.
         bbind (set_ptr b tag Word_NULL) (\<lambda>_. bret True))
       else bret True))"

definition clear_ptrs :: "object_builder \<Rightarrow> u64 \<Rightarrow> ('a, unit) build" where
  "clear_ptrs b ptr = bbind (bget (\<lambda>m. deref (mg_heap m) ptr)) (\<lambda>w.
     bbind (case far_ptr w of Some far \<Rightarrow> clear_pads far | None \<Rightarrow> bret True) (\<lambda>go.
       if go then set_ptr b ptr Word_NULL else bret ()))"

section \<open>Allocation\<close>

definition use_len :: "object_builder \<Rightarrow> nz29 \<Rightarrow> ('a, u29 option) build" where
  "use_len b n = (\<lambda>m. case obind (builder_segment m b) (\<lambda>s. expect_ok (try_use_len s n)) of
     Ok (r, s) \<Rightarrow> (Ok r, m\<lparr>mg_arena := arena_put (mg_arena m) b s\<rparr>)
   | Err e \<Rightarrow> (Err e, m) | Panic \<Rightarrow> (Panic, m) | UB \<Rightarrow> (UB, m))"

definition alloc_in_segment :: "object_builder \<Rightarrow> nz29 \<Rightarrow> ('a, u64 option) build" where
  "alloc_in_segment b n = bbind (use_len b n) (\<lambda>r. case r of
     None \<Rightarrow> bret None
   | Some off \<Rightarrow> bget (\<lambda>m. obind (at_offset m b off) (\<lambda>p. Ok (Some p))))"

definition arena_allocate :: "'a alloc_fn \<Rightarrow> nz29 \<Rightarrow> ('a, (u29 \<times> u32) option) build" where
  "arena_allocate alloc n = (\<lambda>m. case arena_alloc alloc (mg_arena m) (mg_heap m) n of
     Ok (r, ar, h) \<Rightarrow> (Ok r, \<lparr>mg_arena = ar, mg_heap = h\<rparr>)
   | Err e \<Rightarrow> (Panic, m) | Panic \<Rightarrow> (Panic, m) | UB \<Rightarrow> (UB, m))"

definition alloc_in_arena :: "'a alloc_fn \<Rightarrow> nz29 \<Rightarrow> ('a, (u64 \<times> object_builder) option) build" where
  "alloc_in_arena alloc n = bbind (arena_allocate alloc n) (\<lambda>r. case r of
     None \<Rightarrow> bret None
   | Some (off, b) \<Rightarrow> bget (\<lambda>m. obind (at_offset m b off) (\<lambda>p. Ok (Some (p, b)))))"

definition builder_alloc :: "'a alloc_fn \<Rightarrow> object_builder \<Rightarrow> nz29 \<Rightarrow> ('a, (u64 \<times> object_builder) option) build" where
  "builder_alloc alloc b n = bbind (alloc_in_segment b n) (\<lambda>r. case r of
     Some p \<Rightarrow> bret (Some (p, b))
   | None \<Rightarrow> alloc_in_arena alloc n)"

definition LANDING_PAD_LEN :: nz29 where "LANDING_PAD_LEN = nz29_clip 2"

definition alloc_double_far_landing_pad :: "'a alloc_fn \<Rightarrow> object_builder \<Rightarrow>
    ('a, (u64 \<times> u64 \<times> object_builder) option) build" where
  "alloc_double_far_landing_pad alloc b = bbind (builder_alloc alloc b LANDING_PAD_LEN) (\<lambda>r. case r of
     None \<Rightarrow> bret None
   | Some (pad, b') \<Rightarrow> bget (\<lambda>_. obind (as_ref_unchecked (ptr_offset pad (u29_clip 1))) (\<lambda>tag.
       Ok (Some (pad, tag, b')))))"

definition alloc_struct :: "'a alloc_fn \<Rightarrow> object_builder \<Rightarrow> u64 \<Rightarrow> struct_size \<Rightarrow> ('a, u64 \<times> object_builder) build" where
  "alloc_struct alloc b ptr sz = (case nz29_new (struct_total sz) of
     None \<Rightarrow> bbind (bget (\<lambda>_. StructPtr_EMPTY)) (\<lambda>p. bbind (set_ptr b ptr (word_of_parts p)) (\<lambda>_. bret (ptr, b)))
   | Some len \<Rightarrow> bbind (alloc_in_segment b len) (\<lambda>r. case r of
       Some start \<Rightarrow>
         bbind (bget (\<lambda>m. offset_from_end_of m b ptr start)) (\<lambda>off.
         bbind (set_ptr b ptr (word_of_parts (struct_ptr_new off sz))) (\<lambda>_. bret (start, b)))
     | None \<Rightarrow>
         bbind (bget (\<lambda>_. nz29_new_unwrap (struct_total sz + 1))) (\<lambda>len_with_pad.
         bbind (alloc_in_arena alloc len_with_pad) (\<lambda>a.
         bbind (bget (\<lambda>_. ok_or (AllocFailed len_with_pad) a)) (\<lambda>(pad, b').
         bbind (bget (\<lambda>_. as_ref_unchecked (ptr_offset pad (u29_clip 1)))) (\<lambda>start.
         bbind (bget (\<lambda>m. offset_from_start m b' pad)) (\<lambda>offset_to_pad.
         bbind (bget (\<lambda>m. builder_id m b')) (\<lambda>i.
         bbind (set_ptr b ptr (word_of_parts (far_ptr_new i offset_to_pad False))) (\<lambda>_.
         bbind (bget (\<lambda>_. i30_from_i16 0)) (\<lambda>zero.
         bbind (set_ptr b' pad (word_of_parts (struct_ptr_new zero sz))) (\<lambda>_. bret (start, b'))))))))))))"

definition alloc_segment_of_list :: "'a alloc_fn \<Rightarrow> object_builder \<Rightarrow> u64 \<Rightarrow> elem_size \<Rightarrow> u29 \<Rightarrow>
    ('a, u64 \<times> object_builder) build" where
  "alloc_segment_of_list alloc b ptr e n =
     bbind (alloc_double_far_landing_pad alloc b) (\<lambda>r.
     bbind (bget (\<lambda>_. ok_or (AllocFailed LANDING_PAD_LEN) r)) (\<lambda>(pad, tag, pad_builder).
     bbind (alloc_in_arena alloc nz29_MAX) (\<lambda>a.
     bbind (bget (\<lambda>_. ok_or (AllocFailed nz29_MAX) a)) (\<lambda>(start, list_segment).
     bbind (bget (\<lambda>m. offset_from_start m pad_builder pad)) (\<lambda>offset_to_pad.
     bbind (bget (\<lambda>m. builder_id m pad_builder)) (\<lambda>i.
     bbind (set_ptr b ptr (word_of_parts (far_ptr_new i offset_to_pad True))) (\<lambda>_.
     bbind (bget (\<lambda>m. offset_from_start m list_segment start)) (\<lambda>offset_to_list.
     bbind (bget (\<lambda>m. builder_id m list_segment)) (\<lambda>j.
     bbind (set_ptr pad_builder pad (word_of_parts (far_ptr_new j offset_to_list False))) (\<lambda>_.
     bbind (bget (\<lambda>_. i30_from_i16 0)) (\<lambda>zero.
     bbind (set_ptr pad_builder tag (word_of_parts (list_ptr_new zero (as_ptr_size e) n))) (\<lambda>_.
       bret (start, list_segment)))))))))))))"

text \<open>Where \<open>alloc_list\<close> puts the list: near, behind a landing pad, or in a segment of its own.\<close>

definition place_list :: "'a alloc_fn \<Rightarrow> object_builder \<Rightarrow> u64 \<Rightarrow> elem_size \<Rightarrow> u29 \<Rightarrow> u29 \<Rightarrow> nz29 \<Rightarrow>
    ('a, u64 \<times> object_builder) build" where
  "place_list alloc b ptr e n list_ptr_element_count len =
     bbind (alloc_in_segment b len) (\<lambda>r. case r of
       Some start \<Rightarrow>
         bbind (bget (\<lambda>m. offset_from_end_of m b ptr start)) (\<lambda>off.
         bbind (set_ptr b ptr (word_of_parts (list_ptr_new off (as_ptr_size e) list_ptr_element_count))) (\<lambda>_.
           bret (start, b)))
     | None \<Rightarrow> (case nz29_new (nz29_inner len + 1) of
         Some len_with_landing_pad \<Rightarrow>
           bbind (alloc_in_arena alloc len_with_landing_pad) (\<lambda>a.
           bbind (bget (\<lambda>_. ok_or (AllocFailed len_with_landing_pad) a)) (\<lambda>(pad, b').
           bbind (bget (\<lambda>_. as_ref_unchecked (ptr_offset pad (u29_clip 1)))) (\<lambda>start.
           bbind (bget (\<lambda>m. offset_from_start m b' pad)) (\<lambda>offset_to_pad.
           bbind (bget (\<lambda>m. builder_id m b')) (\<lambda>i.
           bbind (set_ptr b ptr (word_of_parts (far_ptr_new i offset_to_pad False))) (\<lambda>_.
           bbind (bget (\<lambda>_. i30_from_i16 0)) (\<lambda>zero.
           bbind (set_ptr b' pad (word_of_parts (list_ptr_new zero (as_ptr_size e) list_ptr_element_count))) (\<lambda>_.
             bret (start, b')))))))))
       | None \<Rightarrow> alloc_segment_of_list alloc b ptr e n))"

text \<open>The tag of a list of structs, and where its elements start.\<close>

definition place_tag :: "object_builder \<Rightarrow> u64 \<Rightarrow> elem_size \<Rightarrow> u29 \<Rightarrow> ('a, u64) build" where
  "place_tag b start e n = (case e of
     InlineComposite sz \<Rightarrow>
       bbind (set_ptr b start (word_of_parts (new_inline_composite_tag n sz))) (\<lambda>_.
         bget (\<lambda>_. as_ref_unchecked (ptr_offset start (u29_clip 1))))
   | _ \<Rightarrow> bret start)"

definition alloc_list :: "'a alloc_fn \<Rightarrow> object_builder \<Rightarrow> u64 \<Rightarrow> elem_size \<Rightarrow> u29 \<Rightarrow>
    ('a, u64 \<times> u29 \<times> object_builder) build" where
  "alloc_list alloc b ptr e n =
     (let is_struct_list = is_inline_composite e;
          tag_size = if is_struct_list then 1 else 0;
          size = total_words e n in
      bbind (bget (\<lambda>_. unwrap (checked_add size tag_size))) (\<lambda>total_size.
        if total_size = 0 then
          bbind (bget (\<lambda>_. i30_from_i16 0)) (\<lambda>zero.
          bbind (set_ptr b ptr (word_of_parts (list_ptr_new zero (as_ptr_size e) n))) (\<lambda>_.
          bbind (bget (\<lambda>_. as_ref_unchecked (ptr_offset ptr (u29_clip 1)))) (\<lambda>start.
            bret (start, u29_ZERO, b))))
        else
          bbind (bget (\<lambda>_. ok_or AllocTooLarge (nz29_new total_size))) (\<lambda>len.
          bbind (if is_struct_list then bget (\<lambda>_. unwrap (u29_new size)) else bret n) (\<lambda>list_ptr_element_count.
          bbind (place_list alloc b ptr e n list_ptr_element_count len) (\<lambda>(start, b').
          bbind (place_tag b' start e n) (\<lambda>start'.
            bret (start', u29_of_nz29 len, b')))))))"

section \<open>Orphans\<close>

datatype orphan_object =
    OrphanStruct u64 struct_size
  | OrphanList u64 ptr_elem_size u29
  | OrphanFar u64 bool
  | OrphanCapability u32

definition alloc_struct_orphan :: "'a alloc_fn \<Rightarrow> object_builder \<Rightarrow> struct_size \<Rightarrow>
    ('a, orphan_object \<times> object_builder) build" where
  "alloc_struct_orphan alloc b sz = (case nz29_new (struct_total sz) of
     None \<Rightarrow> bget (\<lambda>m. obind (builder_start m b) (\<lambda>start. Ok (OrphanStruct start StructSize_EMPTY, b)))
   | Some len \<Rightarrow> bbind (builder_alloc alloc b len) (\<lambda>a.
       bbind (bget (\<lambda>_. ok_or (AllocFailed len) a)) (\<lambda>(start, b'). bret (OrphanStruct start sz, b'))))"

definition alloc_list_orphan :: "'a alloc_fn \<Rightarrow> object_builder \<Rightarrow> elem_size \<Rightarrow> u29 \<Rightarrow>
    ('a, orphan_object \<times> object_builder) build" where
  "alloc_list_orphan alloc b e n = (let total_size = object_words e n in
     if total_size = 0 then
       bget (\<lambda>m. obind (builder_start m b) (\<lambda>start. Ok (OrphanList start (as_ptr_size e) n, b)))
     else
       bbind (bget (\<lambda>_. ok_or AllocTooLarge (nz29_new total_size))) (\<lambda>len.
       bbind (builder_alloc alloc b len) (\<lambda>a.
       bbind (bget (\<lambda>_. ok_or (AllocFailed len) a)) (\<lambda>(start, b').
       bbind (case e of
           InlineComposite sz \<Rightarrow> set_ptr b' start (word_of_parts (new_inline_composite_tag n sz))
         | _ \<Rightarrow> bret ()) (\<lambda>_.
         bret (OrphanList start (as_ptr_size e) n, b'))))))"

end
