(* ===== verification/Built_Objects.thy ===== *)
theory Built_Objects
  imports Obj_Builder
begin

text \<open>
  What the builder of \<^verbatim>\<open>Obj_Builder\<close> builds, readers find: a struct or a list that was placed in a
  message is read back from the pointer it was given, at the same place and of the same size, near
  or far, and everything placed before is left alone.
\<close>

section \<open>Addresses in a segment\<close>

abbreviation sdata :: "arena_segment \<Rightarrow> u64" where "sdata s \<equiv> seg_data (as_segment s)"
abbreviation scap :: "arena_segment \<Rightarrow> nat" where "scap s \<equiv> u29_val (seg_len (as_segment s))"
abbreviation sused :: "arena_segment \<Rightarrow> nat" where "sused s \<equiv> u29_val (used_len s)"

definition seg_fine :: "arena_segment \<Rightarrow> bool" where
  "seg_fine s \<longleftrightarrow> owned s \<and> sused s \<le> scap s \<and> sdata s \<noteq> 0 \<and> unat (sdata s) + 8 * scap s \<le> 2 ^ 63"

lemma unat_addr:
  assumes "unat a + 8 * n \<le> 2 ^ 63" "k \<le> n"
  shows "unat (addr a k) = unat a + 8 * k"
proof -
  have k: "8 * k < 2 ^ 64" "unat a + 8 * k < 2 ^ 64" using assms by auto
  have "(8 * of_nat k :: u64) = of_nat (8 * k)" by simp
  then have "unat (8 * of_nat k :: u64) = 8 * k"
    using k(1) by (simp add: unat_of_nat take_bit_nat_eq_self del: of_nat_mult)
  with k(2) show ?thesis by (simp add: addr_def unat_add_no_wrap)
qed

lemma addr_0 [simp]: "addr a 0 = a"
  by (simp add: addr_def)

lemma addr_nonnull:
  assumes "unat a + 8 * n \<le> 2 ^ 63" "k \<le> n" "a \<noteq> 0"
  shows "addr a k \<noteq> 0"
  using unat_addr [OF assms(1,2)] assms(3) by (metis add_is_0 unat_0 unat_eq_0)

lemma addr_diff:
  assumes "i \<le> j"
  shows "addr a j - addr a i = of_nat (8 * (j - i))"
  using assms by (simp add: addr_def of_nat_diff algebra_simps)

lemma sint_of_nat_64: "n < 2 ^ 63 \<Longrightarrow> sint (of_nat n :: u64) = int n"
  by (simp add: signed_of_nat signed_take_bit_int_eq_self_iff)

lemma i30_of_int:
  assumes "- (2 ^ 29) \<le> k" "k < 2 ^ 29"
  obtains v where "i30_new_unchecked (word_of_int k) = Ok v" "i30_val v = k"
proof -
  have s: "sint (word_of_int k :: u32) = k" using assms by (intro sint_word_of_int_u32) simp_all
  then show thesis
    using assms by (intro that [of "i30_clip (word_of_int k)"]) (simp_all add: i30_new_unchecked_def i30_new_eq)
qed

lemma offset_between_addr:
  assumes "i \<le> j" "j < 2 ^ 29"
  obtains v where "offset_between (addr a i) (addr a j) = Ok v" "i30_val v = int (j - i)"
proof -
  have "sint (addr a j - addr a i) = 8 * int (j - i)"
    unfolding addr_diff [OF assms(1)] using assms(2) by (subst sint_of_nat_64) simp_all
  moreover obtain v where "i30_new_unchecked (word_of_int (int (j - i))) = (Ok v :: (rerror, i30) outcome)"
    "i30_val v = int (j - i)" by (rule i30_of_int [of "int (j - i)"]) (use assms in auto)
  ultimately show thesis by (intro that [of v]) (simp_all add: offset_between_def)
qed

lemma scast_i30: "(scast (i30_inner v) :: u64) = word_of_int (i30_val v)"
  by (simp only: scast_eq)

lemma signed_offset_addr:
  assumes "int i + 1 + i30_val v = int j"
  shows "ptr_signed_offset_from_end (addr a i) v = Ok (addr a j)"
proof -
  obtain one where one: "i30_new_unwrap 1 = (Ok one :: (rerror, i30) outcome)" "i30_inner one = 1"
    by (simp add: i30_new_unwrap_def i30_new_eq i30_new_Some_iff)
  have e: "(word_of_int (i30_val v) :: u64) = of_nat j - of_nat i - 1"
  proof -
    have "i30_val v = int j - int i - 1" using assms by simp
    then show ?thesis by simp
  qed
  have "ptr_signed_offset (addr a i) one = addr a i + 8"
    by (simp only: ptr_signed_offset_def one(2)) simp
  then have "ptr_signed_offset (ptr_signed_offset (addr a i) one) v = addr a i + 8 + 8 * (of_nat j - of_nat i - 1)"
    by (simp only: ptr_signed_offset_def [of "addr a i + 8"] scast_i30 e)
  also have "\<dots> = addr a j" by (simp only: addr_def) (simp add: right_diff_distrib)
  finally show ?thesis using one(1) by (simp add: ptr_signed_offset_from_end_def)
qed

section \<open>A builder's own segment\<close>

definition builds :: "'a arena \<Rightarrow> object_builder \<Rightarrow> arena_segment \<Rightarrow> bool" where
  "builds ar b s \<longleftrightarrow> arena_segment_at ar b = Some s \<and> seg_fine s"

lemma buildsD:
  assumes "builds (mg_arena m) b s"
  shows "builder_segment m b = Ok s" "owned s" "sused s \<le> scap s" "sdata s \<noteq> 0"
    "unat (sdata s) + 8 * scap s \<le> 2 ^ 63"
  using assms by (simp_all add: builds_def builder_segment_def seg_fine_def)

lemma builder_contains_addr:
  assumes "builds (mg_arena m) b s" "k \<le> scap s"
  shows "builder_contains m b (addr (sdata s) k) = Ok (k < scap s)"
proof -
  note d = buildsD [OF assms(1)]
  have "sdata s \<le> addr (sdata s) k" by (simp add: word_le_nat_alt unat_addr [OF d(5) assms(2)])
  moreover have "addr (sdata s) k < ptr_offset (sdata s) (seg_len (as_segment s)) \<longleftrightarrow> k < scap s"
    by (simp add: word_less_nat_alt ptr_offset_addr unat_addr [OF d(5)] assms(2))
  ultimately show ?thesis
    by (simp add: builder_contains_def d(1) to_ptr_range_def ptr_offset_def)
qed

lemma check_ref_addr:
  assumes "builds (mg_arena m) b s" "k \<le> scap s"
  shows "check_ref m b (addr (sdata s) k) = (if k < scap s then Ok (addr (sdata s) k) else Panic)"
proof -
  note d = buildsD [OF assms(1)]
  show ?thesis
    using addr_nonnull [OF d(5) assms(2) d(4)]
    by (simp add: check_ref_def builder_contains_addr [OF assms] as_ref_unchecked_def)
qed

lemma at_offset_addr:
  assumes "builds (mg_arena m) b s" "u29_val off < scap s"
  shows "at_offset m b off = Ok (addr (sdata s) (u29_val off))"
  using assms check_ref_addr [OF assms(1), of "u29_val off"] buildsD(1) [OF assms(1)]
  by (simp add: at_offset_def builder_start_def ptr_offset_addr)

lemma contains_range_addr:
  assumes "builds (mg_arena m) b s" "i \<le> j" "j \<le> sused s"
  shows "contains_range m b (addr (sdata s) i) (addr (sdata s) j) = Ok True"
proof -
  note d = buildsD [OF assms(1)]
  have u: "unat (addr (sdata s) k) = unat (sdata s) + 8 * k" if "k \<le> sused s" for k
    using that d(3) by (intro unat_addr [OF d(5)]) simp
  show ?thesis
    using assms(2,3) by (simp add: contains_range_def builder_start_def builder_end_def d(1) ptr_offset_addr
      word_le_nat_alt u)
qed

lemma offset_from_end_of_addr:
  assumes "builds (mg_arena m) b s" "i < j" "j \<le> sused s"
  obtains v where "offset_from_end_of m b (addr (sdata s) i) (addr (sdata s) j) = Ok v" "int i + 1 + i30_val v = int j"
proof -
  have one: "ptr_offset (addr (sdata s) i) (u29_clip 1) = addr (sdata s) (Suc i)"
    by (simp add: ptr_offset_addr addr_addr)
  obtain v where "offset_between (addr (sdata s) (Suc i)) (addr (sdata s) j) = Ok v" "i30_val v = int (j - Suc i)"
    by (rule offset_between_addr [of "Suc i" j]) (use assms u29_val_less [of "used_len s"] in auto)
  with assms show thesis
    by (intro that [of v]) (simp_all add: offset_from_end_of_def one offset_from_def contains_range_addr)
qed

lemma offset_from_start_addr:
  assumes "builds (mg_arena m) b s" "k < scap s" "k \<le> sused s"
  obtains v where "offset_from_start m b (addr (sdata s) k) = Ok v" "u29_val v = k"
proof -
  note d = buildsD [OF assms(1)]
  obtain v where v: "offset_between (addr (sdata s) 0) (addr (sdata s) k) = Ok v" "i30_val v = int k"
    by (rule offset_between_addr [of 0 k "sdata s"]) (use assms u29_val_less [of "used_len s"] in auto)
  have "k < 2 ^ 29" using assms(3) u29_val_less [of "used_len s"] by simp
  have u: "unat (i30_inner v) = k"
  proof -
    have "i30_inner v = (word_of_int (sint (i30_inner v)) :: u32)" by simp
    then have "i30_inner v = of_nat k" using v(2) by simp
    with \<open>k < 2 ^ 29\<close> show ?thesis by (simp add: unat_of_nat take_bit_nat_eq_self)
  qed
  have "offset_from m b (sdata s) (addr (sdata s) k) = Ok v"
    using contains_range_addr [OF assms(1), of 0 k] assms(3) v(1) by (simp add: offset_from_def)
  moreover have "u29_new (i30_inner v) = Some (u29_clip (i30_inner v))"
    using u \<open>k < 2 ^ 29\<close> by (simp add: u29_new_eq)
  ultimately have "offset_from_start m b (addr (sdata s) k) = Ok (u29_clip (i30_inner v))"
    using assms(2) by (simp add: offset_from_start_def builder_contains_addr [OF assms(1)] builder_start_def d(1))
  moreover have "u29_inner (u29_clip (i30_inner v)) = i30_inner v" using u \<open>k < 2 ^ 29\<close> by (intro u29_clip_inner) simp
  ultimately show thesis using u by (intro that [of "u29_clip (i30_inner v)"]) simp_all
qed

lemma set_ptr_addr:
  assumes "builds (mg_arena m) b s" "k < scap s" "mem (mg_heap m) (addr (sdata s) k) \<noteq> None"
  shows "set_ptr b (addr (sdata s) k) w m =
    (Ok (), m\<lparr>mg_heap := put_words [addr (sdata s) k] (Some w) (mg_heap m)\<rparr>)"
  using assms by (simp add: set_ptr_def bbind_def bget_def builder_contains_addr write_word_def)

section \<open>The invariant of a message being built\<close>

abbreviation msegs :: "'a message \<Rightarrow> arena_segment list" where "msegs m \<equiv> segs (mg_arena m)"

definition ids_ok :: "arena_segment list \<Rightarrow> bool" where
  "ids_ok ss \<longleftrightarrow> (\<forall>i < length ss. as_id (ss ! i) = of_nat i \<and> (owned (ss ! i) \<longrightarrow> sdata (ss ! i) \<noteq> 0))"

definition built_ok :: "('a \<Rightarrow> heap \<Rightarrow> bool) \<Rightarrow> ('a \<Rightarrow> u64 set) \<Rightarrow> 'a message \<Rightarrow> bool" where
  "built_ok ok owns m \<longleftrightarrow> arena_ok ok owns (mg_arena m) (mg_heap m) \<and> ids_ok (msegs m)"

text \<open>What an allocation of \<open>n\<close> words does to the message: words that were in use stay, and the new
  ones are zeroed words of the segment \<open>b\<close> that were not.\<close>

definition took :: "'a message \<Rightarrow> nat \<Rightarrow> object_builder \<Rightarrow> nat \<Rightarrow> 'a message \<Rightarrow> bool" where
  "took m n b off m' \<longleftrightarrow> segs_alloc (msegs m) n off (unat b) (msegs m') \<and>
     (let p = seg_place (msegs m' ! unat b) off n in
      zeroed (mg_heap m') p \<and> p \<inter> used_places (mg_arena m) = {} \<and>
      used_places (mg_arena m') = used_places (mg_arena m) \<union> p) \<and>
     (\<forall>x \<in> used_places (mg_arena m). mem (mg_heap m') x = mem (mg_heap m) x)"

text \<open>The segments of a message only grow. A room is a place of \<open>n\<close> words in use in a builder's segment.\<close>

definition grown :: "arena_segment list \<Rightarrow> arena_segment list \<Rightarrow> bool" where
  "grown ss ss' \<longleftrightarrow> (\<forall>i < length ss. owned (ss ! i) \<longrightarrow> i < length ss' \<and> owned (ss' ! i) \<and>
     as_segment (ss' ! i) = as_segment (ss ! i) \<and> sused (ss ! i) \<le> sused (ss' ! i))"

lemma grown_refl [simp, intro]: "grown ss ss"
  by (simp add: grown_def)

lemma grown_trans: "grown ss ss' \<Longrightarrow> grown ss' ss'' \<Longrightarrow> grown ss ss''"
  by (fastforce simp: grown_def)

lemma segs_alloc_grown: "segs_alloc ss n off i ss' \<Longrightarrow> grown ss ss'"
  by (auto simp: segs_alloc_def grown_def nth_list_update nth_append)

lemma took_grown: "took m n b off m' \<Longrightarrow> grown (msegs m) (msegs m')"
  by (auto simp: took_def intro: segs_alloc_grown)

definition room :: "'a message \<Rightarrow> object_builder \<Rightarrow> u64 \<Rightarrow> nat \<Rightarrow> bool" where
  "room m b p n \<longleftrightarrow> (\<exists>s j. builds (mg_arena m) b s \<and> p = addr (sdata s) j \<and> j + n \<le> sused s)"

lemma roomI: "builds (mg_arena m) b s \<Longrightarrow> j + n \<le> sused s \<Longrightarrow> room m b (addr (sdata s) j) n"
  by (auto simp: room_def)

lemma builtD:
  assumes "built_ok ok owns m"
  shows "arena_ok ok owns (mg_arena m) (mg_heap m)" "ids_ok (msegs m)" "first (mg_arena m) \<noteq> None"
    "segs_ok (mg_heap m) (owns (ar_alloc (mg_arena m))) (msegs m)"
    "i < length (msegs m) \<Longrightarrow> seg_ok (mg_heap m) (msegs m ! i)"
    "length (msegs m) < 2 ^ 32"
proof -
  show a: "arena_ok ok owns (mg_arena m) (mg_heap m)" and "ids_ok (msegs m)"
    using assms by (simp_all add: built_ok_def)
  then show "first (mg_arena m) \<noteq> None"
    and ss: "segs_ok (mg_heap m) (owns (ar_alloc (mg_arena m))) (msegs m)"
    by (simp_all add: arena_ok_def)
  show "i < length (msegs m) \<Longrightarrow> seg_ok (mg_heap m) (msegs m ! i)"
    using ss by (simp add: segs_ok_def list_all_length)
  show "length (msegs m) < 2 ^ 32"
    using a by (auto simp: arena_ok_def segs_def MAX_SEGMENTS_def)
qed

lemma builds_iff:
  assumes "built_ok ok owns m"
  shows "builds (mg_arena m) b s \<longleftrightarrow> unat b < length (msegs m) \<and> s = msegs m ! unat b \<and> owned s"
proof -
  note d = builtD [OF assms]
  have "seg_fine (msegs m ! unat b)" if "unat b < length (msegs m)" "owned (msegs m ! unat b)"
    using that d(2) seg_okD(1,2) [OF d(5) [OF that(1)] that(2)] by (simp add: seg_fine_def ids_ok_def)
  moreover have "arena_segment_at (mg_arena m) b = nth_opt (msegs m) (unat b)"
    by (rule segment_at_segs [OF d(3)])
  ultimately show ?thesis by (auto simp: builds_def nth_opt_def seg_fine_def)
qed

lemma room_grown:
  assumes "room m b p n" "built_ok ok owns m" "built_ok ok owns m'" "grown (msegs m) (msegs m')"
  shows "room m' b p n"
proof -
  obtain s j where s: "builds (mg_arena m) b s" "p = addr (sdata s) j" "j + n \<le> sused s"
    using assms(1) by (auto simp: room_def)
  then have "unat b < length (msegs m)" "s = msegs m ! unat b" "owned (msegs m ! unat b)"
    by (auto simp: builds_iff [OF assms(2)])
  with assms(4) s(2,3) show ?thesis
    unfolding room_def by (intro exI [of _ "msegs m' ! unat b"] exI [of _ j]) (auto simp: grown_def builds_iff [OF assms(3)])
qed

lemma used_place_mapped:
  assumes "built_ok ok owns m" "x \<in> used_places (mg_arena m)"
  shows "mem (mg_heap m) x \<noteq> None"
proof -
  from assms(2) obtain s where s: "s \<in> set (msegs m)" "x \<in> used_addrs s" by (auto simp: used_places_def)
  then obtain i where i: "i < length (msegs m)" "s = msegs m ! i" by (auto simp: in_set_conv_nth)
  have ok: "seg_ok (mg_heap m) s" unfolding i(2) by (rule builtD(5) [OF assms(1) i(1)])
  have "owned s" using s(2) by (auto simp: used_addrs_def split: if_splits)
  moreover have "x \<in> all_addrs s" using used_addrs_all [OF ok] s(2) by blast
  ultimately show ?thesis using seg_okD(3) [OF ok] by blast
qed

lemma addr_used:
  assumes "built_ok ok owns m" "builds (mg_arena m) b s" "k < sused s"
  shows "addr (sdata s) k \<in> used_places (mg_arena m)"
proof -
  from assms(1,2) have "s \<in> set (msegs m)" "owned s" by (auto simp: builds_iff)
  moreover from this assms(3) have "addr (sdata s) k \<in> used_addrs s" by (simp add: used_addrs_def seg_place_def)
  ultimately show ?thesis unfolding used_places_def by blast
qed

context allocator
begin

lemma write_built:
  assumes "built_ok ok owns m" "x \<in> used_places (mg_arena m)"
  shows "built_ok ok owns (m\<lparr>mg_heap := put_words [x] (Some w) (mg_heap m)\<rparr>)"
  using assms arena_write [OF builtD(1) [OF assms(1)] assms(2), of w]
  by (simp add: built_ok_def put_words_def fun_upd_def)

text \<open>Using more of a builder's own segment.\<close>

lemma use_built:
  assumes m: "built_ok ok owns m" and b: "builds (mg_arena m) b s"
    and s': "as_segment s' = as_segment s" "owned s'" "sused s' = sused s + n" "sused s' \<le> scap s" "as_id s' = as_id s"
  defines "m' \<equiv> m\<lparr>mg_arena := arena_put (mg_arena m) b s'\<rparr>"
  shows "built_ok ok owns m'" "took m n b (sused s) m'" "msegs m' ! unat b = s'"
proof -
  note d = builtD [OF m]
  from m b have i: "unat b < length (msegs m)" "s = msegs m ! unat b" "owned (msegs m ! unat b)"
    by (auto simp: builds_iff)
  note put = segs_put [OF d(3), of b s']
  note use = use_segment [OF d(4) i(1,3), of s' n]
  have ss: "msegs m' = (msegs m)[unat b := s']" by (simp add: m'_def put(1))
  have owned': "owned ((msegs m)[unat b := s'] ! j)" if "owned (msegs m ! j)" for j
    using that s'(2) i(1) by (cases "j = unat b") simp_all
  have "arena_ok ok owns (mg_arena m') (mg_heap m')"
    using d(1) use(1) s' i(2) owned' by (simp add: arena_ok_def m'_def put)
  moreover have "ids_ok (msegs m')"
    using d(2) s' i unfolding ss ids_ok_def by (auto simp: nth_list_update)
  ultimately show "built_ok ok owns m'" by (simp add: built_ok_def)
  show nth: "msegs m' ! unat b = s'" using i(1) by (simp add: ss)
  have "segs_alloc (msegs m) n (sused s) (unat b) (msegs m')"
    unfolding segs_alloc_def using s' i ss by (intro exI [of _ s']) simp
  then show "took m n b (sused s) m'"
    using use(2-4) s' i unfolding took_def nth Let_def used_places_def ss
    by (simp add: m'_def)
qed

lemma arena_put_same: "arena_segment_at ar b = Some s \<Longrightarrow> arena_put ar b s = ar"
  by (cases ar) (auto simp: arena_segment_at_def arena_put_def nth_opt_def split: if_splits)

lemma alloc_in_segment_cases:
  assumes m: "built_ok ok owns m" and b: "builds (mg_arena m) b s"
  obtains "alloc_in_segment b n m = (Ok None, m)"
    | m' where "alloc_in_segment b n m = (Ok (Some (addr (sdata s) (sused s))), m')"
      "built_ok ok owns m'" "took m (nz29_val n) b (sused s) m'"
proof -
  note d = buildsD [OF b]
  obtain u where u: "nz29_val u = sused s" using d(2) by (auto simp: owned_def used_len_def)
  have at: "arena_segment_at (mg_arena m) b = Some s" using b by (simp add: builds_def)
  have "seg_ok (mg_heap m) s" using m b builtD(5) [OF m] by (auto simp: builds_iff)
  with d(2) u show thesis
  proof (cases rule: try_use_len_cases [where n = n])
    case 1
    then have "alloc_in_segment b n m = (Ok None, m)"
      by (simp add: alloc_in_segment_def use_len_def d(1) expect_ok_def bbind_def bget_def arena_put_same [OF at])
    then show thesis by (rule that(1))
  next
    case (2 s')
    let ?m = "m\<lparr>mg_arena := arena_put (mg_arena m) b s'\<rparr>"
    note use = use_built [OF m b 2(2-6)]
    have b': "builds (mg_arena ?m) b s'"
      using use(1,3) 2(3) m b by (simp only: builds_iff) (auto simp: segs_put [OF builtD(3) [OF m]])
    have "at_offset ?m b (used_len s) = Ok (addr (sdata s) (sused s))"
      using at_offset_addr [OF b', of "used_len s"] 2(2,4,5) nz29_val_bounds(1) [of n] by simp
    then have "alloc_in_segment b n m = (Ok (Some (addr (sdata s) (sused s))), ?m)"
      by (simp add: alloc_in_segment_def use_len_def d(1) 2(1) expect_ok_def bbind_def bget_def)
    with use(1,2) show thesis by (intro that(2))
  qed
qed

lemma segs_alloc_ids:
  assumes "segs_alloc ss n off i ss'" "ids_ok ss"
  shows "ids_ok ss'"
  using assms unfolding segs_alloc_def ids_ok_def
  by (auto simp: nth_list_update nth_append less_Suc_eq split: if_splits)

lemma alloc_in_arena_cases:
  assumes m: "built_ok ok owns m"
  obtains m' where "alloc_in_arena alloc n m = (Ok None, m')" "built_ok ok owns m'" "msegs m' = msegs m"
      "mem (mg_heap m') = mem (mg_heap m)"
    | b off m' where "alloc_in_arena alloc n m = (Ok (Some (addr (sdata (msegs m' ! unat b)) off, b)), m')"
      "built_ok ok owns m'" "took m (nz29_val n) b off m'"
proof -
  note d = builtD [OF m]
  from d(1) show thesis
  proof (cases rule: arena_alloc_placed [where n = n])
    case (1 ar' h')
    let ?m = "\<lparr>mg_arena = ar', mg_heap = h'\<rparr>"
    have "alloc_in_arena alloc n m = (Ok None, ?m)"
      by (simp add: alloc_in_arena_def arena_allocate_def 1(1) bbind_def bget_def)
    with 1 d(2) show thesis by (intro that(1) [of ?m]) (simp_all add: built_ok_def)
  next
    case (2 off i ar' h')
    let ?m = "\<lparr>mg_arena = ar', mg_heap = h'\<rparr>"
    have sa: "segs_alloc (msegs m) (nz29_val n) (u29_val off) (unat i) (segs ar')"
      by (rule arena_alloc_segs [OF d(1) 2(1)])
    have built: "built_ok ok owns ?m" using 2(2) segs_alloc_ids [OF sa d(2)] by (simp add: built_ok_def)
    obtain s where s: "arena_segment_at ar' i = Some s" "u29_val off + nz29_val n \<le> scap s"
      "zeroed h' (seg_place s (u29_val off) (nz29_val n))"
      "seg_place s (u29_val off) (nz29_val n) \<inter> used_places (mg_arena m) = {}"
      "used_places ar' = used_places (mg_arena m) \<union> seg_place s (u29_val off) (nz29_val n)"
      "\<forall>x \<in> used_places (mg_arena m). mem h' x = mem (mg_heap m) x"
      using 2(3) by (auto simp: placed_def)
    have nth: "s = segs ar' ! unat i" "unat i < length (segs ar')"
      using s(1) segment_at_segs [of ar' i] builtD(3) [OF built] by (auto simp: nth_opt_def split: if_splits)
    have "owned s" using sa nth unfolding segs_alloc_def by auto
    then have b: "builds (mg_arena ?m) i s" using nth by (simp only: builds_iff [OF built]) simp
    have "at_offset ?m i off = Ok (addr (sdata s) (u29_val off))"
      using s(2) nz29_val_bounds(1) [of n] by (intro at_offset_addr [OF b]) simp
    then have "alloc_in_arena alloc n m = (Ok (Some (addr (sdata (msegs ?m ! unat i)) (u29_val off), i)), ?m)"
      by (simp add: alloc_in_arena_def arena_allocate_def 2(1) bbind_def bget_def nth(1))
    then show thesis using built
      by (rule that(2)) (use sa s nth in \<open>simp add: took_def Let_def\<close>)
  qed
qed

end

section \<open>What an allocation leaves\<close>

lemma took_new:
  assumes "built_ok ok owns m'" "took m n b off m'"
  shows "builds (mg_arena m') b (msegs m' ! unat b)" "sused (msegs m' ! unat b) = off + n"
  using assms(2) by (simp_all only: builds_iff [OF assms(1)]) (auto simp: took_def segs_alloc_def)

lemma took_keeps:
  assumes "built_ok ok owns m" "built_ok ok owns m'" "took m n b off m'" "builds (mg_arena m) c s"
  obtains s' where "builds (mg_arena m') c s'" "as_segment s' = as_segment s" "sused s \<le> sused s'"
    "c = b \<Longrightarrow> sused s \<le> off"
proof -
  have c: "unat c < length (msegs m)" "s = msegs m ! unat c" "owned s"
    using builds_iff [OF assms(1), of c s] assms(4) by auto
  from assms(3) obtain t where t: "owned t" "sused t = off + n" and
    "unat b < length (msegs m) \<and> owned (msegs m ! unat b) \<and> msegs m' = (msegs m)[unat b := t] \<and>
       as_segment t = as_segment (msegs m ! unat b) \<and> as_id t = as_id (msegs m ! unat b) \<and>
       sused (msegs m ! unat b) = off \<or>
     unat b = length (msegs m) \<and> msegs m' = msegs m @ [t]"
    by (auto simp: took_def segs_alloc_def)
  then consider "unat b < length (msegs m)" "msegs m' = (msegs m)[unat b := t]"
      "as_segment t = as_segment (msegs m ! unat b)" "sused (msegs m ! unat b) = off"
    | "unat b = length (msegs m)" "msegs m' = msegs m @ [t]" by blast
  then show thesis
  proof cases
    case 1
    show thesis
      by (rule that [of "msegs m' ! unat c"])
         (use 1 c t in \<open>auto simp: builds_iff [OF assms(2)] nth_list_update\<close>)
  next
    case 2
    show thesis
      by (rule that [of s]) (use 2 c in \<open>auto simp: builds_iff [OF assms(2)] nth_append\<close>)
  qed
qed

lemma set_addr_list: "set (addr_list a n) = addr a ` {..<n}"
  by (auto simp: addr_list_def)

lemma seg_place_addr_list: "seg_place s off n = set (addr_list (addr (sdata s) off) n)"
proof -
  have "seg_place s off n = (\<lambda>i. addr (sdata s) (off + i)) ` {..<n}"
    unfolding seg_place_def by (subst image_comp [symmetric, of "addr (sdata s)" "(+) off", unfolded comp_def])
      (simp add: lessThan_atLeast0 add.commute)
  then show ?thesis by (simp add: set_addr_list addr_addr)
qed

lemma bbind_ok [simp]: "m s = (Ok x, s') \<Longrightarrow> bbind m f s = f x s'"
  and bbind_err: "m s = (Err e, s') \<Longrightarrow> bbind m f s = (Err e, s')"
  and bget_app [simp]: "bget q s = (q s, s)"
  by (simp_all add: bbind_def bget_def)

section \<open>Readers of what was built\<close>

definition views :: "'a arena \<Rightarrow> object_builder \<Rightarrow> object_reader \<Rightarrow> bool" where
  "views ar b r \<longleftrightarrow> (\<exists>s sg. builds ar b s \<and> or_segment r = Some sg \<and> sg_data sg = sdata s \<and>
     sused s \<le> u29_val (sg_len sg) \<and> u29_val (sg_len sg) \<le> scap s)"

lemma viewsE:
  assumes "views ar b r" "builds ar b s"
  obtains sg where "or_segment r = Some sg" "sg_data sg = sdata s" "sused s \<le> u29_val (sg_len sg)"
    "u29_val (sg_len sg) \<le> scap s"
  using assms by (auto simp: views_def builds_def)

lemma builder_reader_views:
  assumes "builds (mg_arena m) b s"
  obtains r where "builder_as_reader m b = Ok r" "views (mg_arena m) b r"
  using assms buildsD [OF assms] by (auto simp: builder_as_reader_def views_def)

lemma section_found:
  assumes "seg_fine s" "sg_data sg = sdata s" "sused s \<le> u29_val (sg_len sg)" "u29_val (sg_len sg) \<le> scap s"
    and "j + u29_val len \<le> sused s"
  shows "try_get_section sg (addr (sdata s) j) len = Ok (Some (addr (sdata s) j))"
proof -
  have f: "unat (sdata s) + 8 * scap s \<le> 2 ^ 63" "sdata s \<noteq> 0" using assms(1) by (simp_all add: seg_fine_def)
  have u: "unat (addr (sdata s) k) = unat (sdata s) + 8 * k" if "k \<le> scap s" for k
    by (rule unat_addr [OF f(1) that])
  have b: "j \<le> scap s" "j + u29_val len \<le> scap s" using assms(3-5) by simp_all
  have e: "ptr_offset (addr (sdata s) j) len = addr (sdata s) (j + u29_val len)" by (simp add: ptr_offset_addr addr_addr)
  have "reader_end sg = Ok (addr (sdata s) (u29_val (sg_len sg)))"
    using f(1) assms(4) by (simp add: reader_end_def assms(2) ptr_offset_addr)
  moreover have "addr (sdata s) j \<noteq> 0" by (rule addr_nonnull [OF f(1) b(1) f(2)])
  moreover have "\<not> addr (sdata s) (j + u29_val len) < addr (sdata s) j" "\<not> addr (sdata s) j < sdata s"
    "\<not> addr (sdata s) (u29_val (sg_len sg)) < addr (sdata s) (j + u29_val len)"
    using assms(3-5) b by (simp_all add: word_less_nat_alt u)
  ultimately show ?thesis by (simp add: try_get_section_def Let_def e assms(2) as_ref_unchecked_def)
qed

lemma read_from_end_found:
  assumes "views ar b r" "builds ar b s" "int i + 1 + i30_val v = int j" "j + u29_val len \<le> sused s"
  shows "try_read_object_from_end_of r (addr (sdata s) i) v len None = (Ok (addr (sdata s) j), None)"
proof -
  obtain sg where sg: "or_segment r = Some sg" "sg_data sg = sdata s" "sused s \<le> u29_val (sg_len sg)"
    "u29_val (sg_len sg) \<le> scap s" by (rule viewsE [OF assms(1,2)])
  have "seg_fine s" using assms(2) by (simp add: builds_def)
  from section_found [OF this sg(2-4) assms(4)] sg(1) show ?thesis
    by (simp add: try_read_object_from_end_of_def signed_offset_addr [OF assms(3)] rbind_def rlift_def
        try_amplified_read_def)
qed

lemma read_in_found:
  assumes "or_segment r \<noteq> None" "builds ar c s" "u29_val off + u29_val len \<le> sused s"
  obtains r' where "views ar c r'"
    "try_read_object_in (arena_source ar) r c off len None = (Ok (addr (sdata s) (u29_val off), r'), None)"
proof -
  let ?sg = "segment_reader_new c (used_segment s)"
  have fine: "seg_fine s" and at: "arena_segment_at ar c = Some s" using assms(2) by (simp_all add: builds_def)
  have sg: "sg_data ?sg = sdata s" "u29_val (sg_len ?sg) = sused s"
    by (simp_all add: segment_reader_new_def used_segment_def)
  have "try_get_section ?sg (addr (sdata s) (u29_val off)) len = Ok (Some (addr (sdata s) (u29_val off)))"
    by (rule section_found [OF fine]) (use sg fine assms(3) in \<open>simp_all add: seg_fine_def\<close>)
  then have "try_read_object_in (arena_source ar) r c off len None =
      (Ok (addr (sdata s) (u29_val off), r\<lparr>or_segment := Some ?sg\<rparr>), None)"
    using assms(1) by (auto simp: try_read_object_in_def from_source_def arena_source_def at rbind_def rlift_def
        try_get_section_offset_def sg ptr_offset_addr try_amplified_read_def)
  moreover have "views ar c (r\<lparr>or_segment := Some ?sg\<rparr>)"
    using assms(2) sg fine by (auto simp: views_def seg_fine_def intro!: exI [of _ s])
  ultimately show thesis by (rule that [rotated])
qed

text \<open>Reader and builder locate the content of the pointer at \<open>ptr\<close> alike.\<close>

definition finds :: "'a message \<Rightarrow> object_builder \<Rightarrow> u64 \<Rightarrow> Word \<Rightarrow> location \<Rightarrow> object_builder \<Rightarrow> bool" where
  "finds m b ptr w loc b' \<longleftrightarrow>
     (\<forall>r. views (mg_arena m) b r \<longrightarrow> (\<exists>r'. views (mg_arena m) b' r' \<and>
        location_of (mg_heap m) (arena_source (mg_arena m)) r ptr None =
          (Ok (\<lparr>ct_ptr = w, ct_location = loc\<rparr>, r'), None))) \<and>
     locate m b ptr = Ok (\<lparr>ct_ptr = w, ct_location = loc\<rparr>, b')"

lemma finds_near:
  assumes "mem (mg_heap m) ptr = Some w" "kind w \<noteq> KFar"
  shows "finds m b ptr w (Near ptr) b"
  using assms by (auto simp: finds_def location_of_def locate_def locate_ptr_def deref_def far_ptr_def)
     (auto simp: rlift_def)

lemma far_word:
  "far_ptr (word_of_parts (far_ptr_new i off d)) = Some (far_ptr_new i off d)"
  "far_segment (far_ptr_new i off d) = i"
  by (simp_all add: far_ptr_def ptr_kinds) (simp add: far_segment_def far_ptr_new_def)

lemma views_seg: "views ar b r \<Longrightarrow> or_segment r \<noteq> None"
  by (auto simp: views_def)

lemma build_object_in_addr:
  assumes "builds (mg_arena m) c s" "u29_val off < scap s"
  shows "build_object_in m c off = Ok (Some (addr (sdata s) (u29_val off), c))"
proof -
  have "build_segment m c = Some c" using assms(1) by (simp add: build_segment_def builds_def)
  with at_offset_addr [OF assms] show ?thesis by (simp add: build_object_in_def)
qed

lemma finds_far:
  assumes "mem (mg_heap m) ptr = Some (word_of_parts (far_ptr_new c off False))"
    and c: "builds (mg_arena m) c s" "u29_val off + 1 \<le> sused s"
    and w: "mem (mg_heap m) (addr (sdata s) (u29_val off)) = Some w"
  shows "finds m b ptr w (Far (addr (sdata s) (u29_val off))) c"
proof -
  have cap: "u29_val off < scap s" using buildsD(3) [OF c(1)] c(2) by simp
  have "\<exists>r'. views (mg_arena m) c r' \<and> location_of (mg_heap m) (arena_source (mg_arena m)) r ptr None =
      (Ok (\<lparr>ct_ptr = w, ct_location = Far (addr (sdata s) (u29_val off))\<rparr>, r'), None)"
    if r: "views (mg_arena m) b r" for r
  proof -
    have len: "u29_new 1 = Some (u29_clip 1)" "u29_val (u29_clip 1) = 1" by (simp_all add: u29_new_eq)
    obtain r' where r': "views (mg_arena m) c r'"
      "try_read_object_in (arena_source (mg_arena m)) r c off (u29_clip 1) None =
        (Ok (addr (sdata s) (u29_val off), r'), None)"
      by (rule read_in_found [OF views_seg [OF r] c(1), of off "u29_clip 1"]) (use c(2) in simp)
    have "location_of (mg_heap m) (arena_source (mg_arena m)) r ptr None =
      (Ok (\<lparr>ct_ptr = w, ct_location = Far (addr (sdata s) (u29_val off))\<rparr>, r'), None)"
      by (simp add: location_of_def deref_def assms(1) far_word far_ptr_flag far_ptr_offset len(1) rbind_def
          rlift_def r'(2) landing_pad_content_def w)
    with r'(1) show ?thesis by blast
  qed
  moreover have "locate m b ptr = Ok (\<lparr>ct_ptr = w, ct_location = Far (addr (sdata s) (u29_val off))\<rparr>, c)"
    by (simp add: locate_def locate_ptr_def deref_def assms(1) far_word far_ptr_flag far_ptr_offset
        build_object_in_addr [OF c(1) cap] w)
  ultimately show ?thesis by (simp add: finds_def)
qed

lemma finds_double:
  assumes "mem (mg_heap m) ptr = Some (word_of_parts (far_ptr_new c off True))"
    and c: "builds (mg_arena m) c s" "u29_val off + 2 \<le> sused s"
    and pad: "mem (mg_heap m) (addr (sdata s) (u29_val off)) = Some (word_of_parts (far_ptr_new d off' dd))"
    and w: "mem (mg_heap m) (addr (sdata s) (u29_val off + 1)) = Some w"
  shows "finds m b ptr w (DoubleFar d off') c"
proof -
  note f = buildsD [OF c(1)]
  have cap: "u29_val off < scap s" using f(3) c(2) by simp
  have tag: "as_ref_unchecked (ptr_offset (addr (sdata s) (u29_val off)) (u29_clip 1)) =
      Ok (addr (sdata s) (u29_val off + 1))"
    using addr_nonnull [OF f(5), of "Suc (u29_val off)"] f(3,4) c(2)
    by (simp add: ptr_offset_addr addr_addr as_ref_unchecked_def)
  have "\<exists>r'. views (mg_arena m) c r' \<and> location_of (mg_heap m) (arena_source (mg_arena m)) r ptr None =
      (Ok (\<lparr>ct_ptr = w, ct_location = DoubleFar d off'\<rparr>, r'), None)"
    if r: "views (mg_arena m) b r" for r
  proof -
    have len: "u29_new 2 = Some (u29_clip 2)" "u29_val (u29_clip 2) = 2" by (simp_all add: u29_new_eq)
    obtain r' where r': "views (mg_arena m) c r'"
      "try_read_object_in (arena_source (mg_arena m)) r c off (u29_clip 2) None =
        (Ok (addr (sdata s) (u29_val off), r'), None)"
      by (rule read_in_found [OF views_seg [OF r] c(1), of off "u29_clip 2"]) (use c(2) in simp)
    have pc: "landing_pad_content (mg_heap m) (far_ptr_new c off True) (addr (sdata s) (u29_val off)) =
        Ok \<lparr>ct_ptr = w, ct_location = DoubleFar d off'\<rparr>"
      by (simp add: landing_pad_content_def deref_def pad tag w [simplified] try_far_ptr_def far_word far_ptr_flag
          far_ptr_offset)
    have "location_of (mg_heap m) (arena_source (mg_arena m)) r ptr None =
      (Ok (\<lparr>ct_ptr = w, ct_location = DoubleFar d off'\<rparr>, r'), None)"
      by (simp add: location_of_def deref_def assms(1) far_word far_ptr_flag far_ptr_offset len(1) rbind_def
          rlift_def r'(2) pc)
    with r'(1) show ?thesis by blast
  qed
  moreover have "locate m b ptr = Ok (\<lparr>ct_ptr = w, ct_location = DoubleFar d off'\<rparr>, c)"
    by (simp add: locate_def locate_ptr_def deref_def assms(1) far_word far_ptr_flag far_ptr_offset
        build_object_in_addr [OF c(1) cap] pad w [simplified] tag expect_ok_def try_far_ptr_def)
  ultimately show ?thesis by (simp add: finds_def)
qed

text \<open>A later message: the words of \<open>P\<close> are the same, and segments have only grown. What rests on words
  that it does not share with \<open>E\<close> and that, but for \<open>D\<close>, were not in use in \<open>m0\<close>, lasts.\<close>

definition later :: "u64 set \<Rightarrow> 'a message \<Rightarrow> 'a message \<Rightarrow> bool" where
  "later P m m' \<longleftrightarrow> (\<forall>x \<in> P. mem (mg_heap m') x = mem (mg_heap m) x) \<and>
     (\<forall>c s. builds (mg_arena m) c s \<longrightarrow> (\<exists>s'. builds (mg_arena m') c s' \<and> as_segment s' = as_segment s \<and> sused s \<le> sused s'))"

definition lasting :: "'a message \<Rightarrow> u64 set \<Rightarrow> u64 set \<Rightarrow> 'a message \<Rightarrow> ('a message \<Rightarrow> bool) \<Rightarrow> bool" where
  "lasting m0 D E m Q \<longleftrightarrow> (\<exists>P \<subseteq> used_places (mg_arena m). P \<inter> used_places (mg_arena m0) \<subseteq> D \<and> P \<inter> E = {} \<and>
     (\<forall>m'. later P m m' \<longrightarrow> Q m'))"

lemma later_refl [simp, intro]: "later P m m"
  by (auto simp: later_def)

lemma later_subset: "later P m m' \<Longrightarrow> P' \<subseteq> P \<Longrightarrow> later P' m m'"
  by (auto simp: later_def)

lemma laterE:
  assumes "later P m m'" "builds (mg_arena m) c s"
  obtains s' where "builds (mg_arena m') c s'" "as_segment s' = as_segment s" "sused s \<le> sused s'"
  using assms unfolding later_def by blast

lemma grown_later:
  assumes "built_ok ok owns m" "built_ok ok owns m'" "grown (msegs m) (msegs m')"
    and "\<And>x. x \<in> P \<Longrightarrow> mem (mg_heap m') x = mem (mg_heap m) x"
  shows "later P m m'"
  using assms(3,4) by (auto simp: later_def builds_iff [OF assms(1)] builds_iff [OF assms(2)] grown_def)

lemma lasting_now: "lasting m0 D E m Q \<Longrightarrow> Q m"
  unfolding lasting_def by blast

text \<open>The pointer is found with the words \<open>P\<close>, now and later.\<close>

definition finds_by :: "'a message \<Rightarrow> u64 set \<Rightarrow> object_builder \<Rightarrow> u64 \<Rightarrow> Word \<Rightarrow> location \<Rightarrow> object_builder \<Rightarrow> bool" where
  "finds_by m P b ptr w loc c \<longleftrightarrow> (\<forall>m'. later P m m' \<longrightarrow> finds m' b ptr w loc c)"

lemma finds_by_write:
  assumes "finds_by m P b ptr w loc c" "x \<notin> P"
  shows "finds_by (m\<lparr>mg_heap := put_words [x] v (mg_heap m)\<rparr>) P b ptr w loc c"
proof -
  have "later P m m'" if "later P (m\<lparr>mg_heap := put_words [x] v (mg_heap m)\<rparr>) m'" for m'
    using that assms(2) by (auto simp: later_def)
  with assms(1) show ?thesis by (auto simp: finds_by_def)
qed

lemma finds_by_finds: "finds_by m P b ptr w loc c \<Longrightarrow> finds m b ptr w loc c"
  by (auto simp: finds_by_def)

lemma finds_by_near:
  assumes "mem (mg_heap m) ptr = Some w" "kind w \<noteq> KFar"
  shows "finds_by m {ptr} b ptr w (Near ptr) b"
  unfolding finds_by_def using assms by (auto simp: later_def intro!: finds_near)

lemma finds_by_far:
  assumes "mem (mg_heap m) ptr = Some (word_of_parts (far_ptr_new c off False))"
    and "builds (mg_arena m) c s" "u29_val off + 1 \<le> sused s"
    and "mem (mg_heap m) (addr (sdata s) (u29_val off)) = Some w"
  shows "finds_by m {ptr, addr (sdata s) (u29_val off)} b ptr w (Far (addr (sdata s) (u29_val off))) c"
  unfolding finds_by_def
proof (intro allI impI)
  fix m' assume l: "later {ptr, addr (sdata s) (u29_val off)} m m'"
  obtain s' where s': "builds (mg_arena m') c s'" "as_segment s' = as_segment s" "sused s \<le> sused s'"
    by (rule laterE [OF l assms(2)])
  have "finds m' b ptr w (Far (addr (sdata s') (u29_val off))) c"
    by (rule finds_far [OF _ s'(1)]) (use assms l s' in \<open>simp_all add: later_def\<close>)
  then show "finds m' b ptr w (Far (addr (sdata s) (u29_val off))) c" by (simp add: s'(2))
qed

lemma finds_by_double:
  assumes "mem (mg_heap m) ptr = Some (word_of_parts (far_ptr_new c off True))"
    and "builds (mg_arena m) c s" "u29_val off + 2 \<le> sused s"
    and "mem (mg_heap m) (addr (sdata s) (u29_val off)) = Some (word_of_parts (far_ptr_new d off' dd))"
    and "mem (mg_heap m) (addr (sdata s) (u29_val off + 1)) = Some w"
  shows "finds_by m {ptr, addr (sdata s) (u29_val off), addr (sdata s) (u29_val off + 1)} b ptr w (DoubleFar d off') c"
  unfolding finds_by_def
proof (intro allI impI)
  fix m' assume l: "later {ptr, addr (sdata s) (u29_val off), addr (sdata s) (u29_val off + 1)} m m'"
  obtain s' where s': "builds (mg_arena m') c s'" "as_segment s' = as_segment s" "sused s \<le> sused s'"
    by (rule laterE [OF l assms(2)])
  show "finds m' b ptr w (DoubleFar d off') c"
    by (rule finds_double [OF _ s'(1), where dd = dd]) (use assms l s' in \<open>auto simp: later_def\<close>)
qed

text \<open>The content of a pointer: \<open>locates\<close> where the location and the pointer agree on word \<open>j\<close> of a segment.\<close>

definition locates :: "'a message \<Rightarrow> location \<Rightarrow> object_builder \<Rightarrow> parts \<Rightarrow> arena_segment \<Rightarrow> object_builder \<Rightarrow> nat \<Rightarrow> bool" where
  "locates m loc b p s c j \<longleftrightarrow> builds (mg_arena m) c s \<and> (case loc of
     DoubleFar i off \<Rightarrow> i = c \<and> j = u29_val off
   | Near origin \<Rightarrow> b = c \<and> (\<exists>k v. origin = addr (sdata s) k \<and>
       content_offset p = (Ok v :: (rerror, i30) outcome) \<and> int k + 1 + i30_val v = int j)
   | Far origin \<Rightarrow> b = c \<and> (\<exists>k v. origin = addr (sdata s) k \<and>
       content_offset p = (Ok v :: (rerror, i30) outcome) \<and> int k + 1 + i30_val v = int j))"

lemma locatesI:
  fixes v :: i30
  assumes "builds (mg_arena m) c s" "content_offset p = (Ok v :: (rerror, i30) outcome)" "int k + 1 + i30_val v = int j"
  shows "locates m (Near (addr (sdata s) k)) c p s c j" "locates m (Far (addr (sdata s) k)) c p s c j"
  using assms by (auto simp: locates_def)

lemma locates_later:
  assumes "locates m loc b p s c j" "later P m m'"
  obtains s' where "locates m' loc b p s' c j" "as_segment s' = as_segment s" "sused s \<le> sused s'"
proof -
  have "builds (mg_arena m) c s" using assms(1) by (simp add: locates_def)
  then obtain s' where s': "builds (mg_arena m') c s'" "as_segment s' = as_segment s" "sused s \<le> sused s'"
    by (rule laterE [OF assms(2)])
  with assms(1) show thesis by (intro that [of s']) (auto simp: locates_def split: location.splits)
qed

lemma read_at_found:
  assumes "locates m loc b p s c j" "views (mg_arena m) b r" "j + u29_val len \<le> sused s"
  obtains r' where "views (mg_arena m) c r'"
    "read_at (arena_source (mg_arena m)) r loc p len None = (Ok (addr (sdata s) j, r'), None)"
proof -
  have c: "builds (mg_arena m) c s" using assms(1) by (simp add: locates_def)
  show thesis
  proof (cases "\<exists>i off. loc = DoubleFar i off")
    case True
    then obtain off where loc: "loc = DoubleFar c off" "j = u29_val off"
      using assms(1) by (auto simp: locates_def)
    obtain r' where "views (mg_arena m) c r'"
      "try_read_object_in (arena_source (mg_arena m)) r c off len None = (Ok (addr (sdata s) (u29_val off), r'), None)"
      by (rule read_in_found [OF views_seg [OF assms(2)] c]) (use assms(3) loc(2) in auto)
    then show thesis by (intro that) (simp_all add: read_at_def loc)
  next
    case False
    then obtain k v where k: "b = c" "loc = Near (addr (sdata s) k) \<or> loc = Far (addr (sdata s) k)"
      "content_offset p = (Ok v :: (rerror, i30) outcome)" "int k + 1 + i30_val v = int j"
      using assms(1) by (auto simp: locates_def split: location.splits)
    note f = read_from_end_found [OF assms(2)[unfolded k(1)] c k(4) assms(3)]
    show thesis
      by (rule that [of r]) (use assms(2) k f in \<open>auto simp: read_at_def rbind_def rlift_def\<close>)
  qed
qed

lemma build_at_found:
  assumes "locates m loc b p s c j" "j < scap s"
  shows "build_at m b loc p = Ok (addr (sdata s) j, c)"
proof -
  have c: "builds (mg_arena m) c s" using assms(1) by (simp add: locates_def)
  have end_of: "build_object_from_end_of m c (addr (sdata s) k) v = Ok (addr (sdata s) j, c)"
    if "int k + 1 + i30_val v = int j" for k v
    using assms(2) by (simp add: build_object_from_end_of_def signed_offset_addr [OF that] check_ref_addr [OF c])
  show ?thesis
    using assms end_of build_object_in_addr [OF c]
    by (auto simp: locates_def build_at_def split: location.splits)
qed

section \<open>Structs\<close>

text \<open>Any reader of the segment reads the struct at \<open>start\<close>, and a builder builds it there.\<close>

definition struct_found :: "'a message \<Rightarrow> object_builder \<Rightarrow> u64 \<Rightarrow> struct_size \<Rightarrow> u64 \<Rightarrow> object_builder \<Rightarrow> bool" where
  "struct_found m b ptr sz start b' \<longleftrightarrow>
     (\<forall>r. views (mg_arena m) b r \<longrightarrow> (\<exists>r'. views (mg_arena m) b' r' \<and>
        try_read_struct (mg_heap m) (arena_source (mg_arena m)) r ptr None =
          (Ok (\<lparr>st_ptr = start, st_size = sz\<rparr>, r'), None))) \<and>
     build_struct m b ptr = Ok (\<lparr>st_ptr = start, st_size = sz\<rparr>, b') \<and> room m b' start (unat (struct_total sz))"

lemma struct_len_total:
  obtains len where "struct_len sz = Ok len" "u29_val len = unat (struct_total sz)"
  by (rule that [OF struct_len_Ok]) (use unat_struct_total_less [of sz] in simp)

lemma struct_foundI:
  assumes f: "finds m b ptr w loc c" "struct_ptr w = Some p" "struct_ptr_size p = sz"
    and l: "locates m loc c p s d j" "j + unat (struct_total sz) \<le> sused s" "j < scap s"
  shows "struct_found m b ptr sz (addr (sdata s) j) d"
proof -
  have t: "try_struct_ptr w = Ok p" by (simp add: try_struct_ptr_def f(2))
  obtain len where len: "struct_len sz = (Ok len :: (rerror, u29) outcome)" "u29_val len = unat (struct_total sz)"
    by (rule struct_len_total)
  have "\<exists>r'. views (mg_arena m) d r' \<and> try_read_struct (mg_heap m) (arena_source (mg_arena m)) r ptr None =
      (Ok (\<lparr>st_ptr = addr (sdata s) j, st_size = sz\<rparr>, r'), None)" if "views (mg_arena m) b r" for r
  proof -
    from f(1) that obtain r1 where r1: "views (mg_arena m) c r1"
      "location_of (mg_heap m) (arena_source (mg_arena m)) r ptr None = (Ok (\<lparr>ct_ptr = w, ct_location = loc\<rparr>, r1), None)"
      unfolding finds_def by blast
    obtain r2 where r2: "views (mg_arena m) d r2"
      "read_at (arena_source (mg_arena m)) r1 loc p len None = (Ok (addr (sdata s) j, r2), None)"
      by (rule read_at_found [OF l(1) r1(1), of len]) (use l(2) len(2) in simp)
    then show ?thesis
      by (simp add: try_read_struct_def rbind_def r1(2) try_read_as_struct_content_def t rlift_def
          read_as_struct_content_def f(3) len(1) r2(2))
  qed
  moreover have "build_struct m b ptr = Ok (\<lparr>st_ptr = addr (sdata s) j, st_size = sz\<rparr>, d)"
    using f(1) by (simp add: build_struct_def finds_def t build_at_found [OF l(1,3)] f(3))
  moreover have "room m d (addr (sdata s) j) (unat (struct_total sz))"
    by (rule roomI) (use l in \<open>simp_all add: locates_def\<close>)
  ultimately show ?thesis by (simp add: struct_found_def)
qed

lemma struct_lasting:
  assumes f: "finds_by m P b ptr w loc c" "struct_ptr w = Some p" "struct_ptr_size p = sz"
    and l: "locates m loc c p s d j" "j + unat (struct_total sz) \<le> sused s" "j < scap s"
    and P: "P \<subseteq> used_places (mg_arena m)" "P \<inter> used_places (mg_arena m0) \<subseteq> D" "P \<inter> E = {}"
  shows "lasting m0 D E m (\<lambda>m'. struct_found m' b ptr sz (addr (sdata s) j) d)"
proof -
  have "struct_found m' b ptr sz (addr (sdata s) j) d" if m': "later P m m'" for m'
  proof -
    obtain s' where s': "locates m' loc c p s' d j" "as_segment s' = as_segment s" "sused s \<le> sused s'"
      by (rule locates_later [OF l(1) m'])
    have "finds m' b ptr w loc c" using f(1) m' by (simp add: finds_by_def)
    from struct_foundI [OF this f(2,3) s'(1)] l(2,3) s'(2,3) show ?thesis by simp
  qed
  with P show ?thesis by (auto simp: lasting_def)
qed

text \<open>New words of the message: zeroed, not in use before, and what was in use is as it was, the
  pointer that was set apart.\<close>

definition fresh_object :: "'a message \<Rightarrow> u64 \<Rightarrow> 'a message \<Rightarrow> u64 \<Rightarrow> nat \<Rightarrow> bool" where
  "fresh_object m ptr m' start n \<longleftrightarrow>
     zeroed (mg_heap m') (set (addr_list start n)) \<and>
     set (addr_list start n) \<subseteq> used_places (mg_arena m') - used_places (mg_arena m) \<and>
     used_places (mg_arena m) \<subseteq> used_places (mg_arena m') \<and> grown (msegs m) (msegs m') \<and>
     (\<forall>x \<in> used_places (mg_arena m) - {ptr}. mem (mg_heap m') x = mem (mg_heap m) x)"

lemma struct_word:
  "struct_ptr (word_of_parts (struct_ptr_new off sz)) = Some (struct_ptr_new off sz)"
  by (simp add: struct_ptr_def is_struct_def ptr_kinds)

lemma i30_from_i16_0: obtains z where "i30_from_i16 0 = Ok z" "i30_val z = 0"
  by (rule that [of "i30_clip 0"]) (simp_all add: i30_from_i16_def i30_new_unwrap_def i30_new_eq)

lemma StructPtr_EMPTY_Ok:
  obtains v where "StructPtr_EMPTY = Ok (struct_ptr_new v StructSize_EMPTY)" "i30_val v = - 1"
  by (rule that [of "i30_clip (- 1)"]) (simp_all add: StructPtr_EMPTY_def i30_new_unwrap_def i30_new_eq)

context allocator
begin

lemma alloc_empty_struct:
  assumes m: "built_ok ok owns m" and b: "builds (mg_arena m) b s" and k: "k < sused s"
    and sz: "struct_total sz = 0"
  obtains m' where "alloc_struct alloc b (addr (sdata s) k) sz m = (Ok (addr (sdata s) k, b), m')"
    "built_ok ok owns m'" "fresh_object m (addr (sdata s) k) m' (addr (sdata s) k) 0"
    "lasting m {addr (sdata s) k} {} m' (\<lambda>m'. struct_found m' b (addr (sdata s) k) sz (addr (sdata s) k) b)"
proof -
  let ?p = "addr (sdata s) k"
  obtain v where v: "StructPtr_EMPTY = (Ok (struct_ptr_new v StructSize_EMPTY) :: (rerror, parts) outcome)" "i30_val v = - 1"
    by (rule StructPtr_EMPTY_Ok)
  have e: "sz = StructSize_EMPTY" using sz by (simp add: struct_total_0)
  have cap: "k < scap s" using buildsD(3) [OF b] k by simp
  note used = addr_used [OF m b k]
  let ?m = "m\<lparr>mg_heap := put_words [?p] (Some (word_of_parts (struct_ptr_new v sz))) (mg_heap m)\<rparr>"
  have none: "nz29_new (struct_total sz) = None" by (simp add: sz nz29_new_eq)
  have "alloc_struct alloc b ?p sz m = (Ok (?p, b), ?m)"
    by (simp add: alloc_struct_def none v(1) set_ptr_addr [OF b cap used_place_mapped [OF m used]] e [symmetric])
  moreover have "built_ok ok owns ?m" by (rule write_built [OF m used])
  moreover have "fresh_object m ?p ?m ?p 0" by (simp add: fresh_object_def zeroed_def addr_list_def)
  moreover have "lasting m {?p} {} ?m (\<lambda>m'. struct_found m' b ?p sz ?p b)"
  proof (rule struct_lasting)
    show "finds_by ?m {?p} b ?p (word_of_parts (struct_ptr_new v sz)) (Near ?p) b"
      by (rule finds_by_near) (simp_all add: ptr_kinds)
    show "locates ?m (Near ?p) b (struct_ptr_new v sz) s b k"
    proof (rule locatesI(1))
      show "int k + 1 + i30_val v = int k" using v(2) by linarith
    qed (use b new_offsets(1) in simp_all)
    show "k + unat (struct_total sz) \<le> sused s" using k sz by simp
  qed (use struct_word new_sizes cap used in auto)
  ultimately show thesis by (rule that)
qed

text \<open>An object in the segment of its pointer.\<close>

lemma place_near:
  assumes m: "built_ok ok owns m" and b: "builds (mg_arena m) b s" and k: "k < sused s"
    and m1: "built_ok ok owns m1" and t: "took m n b (sused s) m1"
  defines "ptr \<equiv> addr (sdata s) k" and "start \<equiv> addr (sdata s) (sused s)"
  obtains v s' where "offset_from_end_of m1 b ptr start = Ok v" "int k + 1 + i30_val v = int (sused s)"
    "\<And>w. kind w \<noteq> KFar \<Longrightarrow> \<exists>m2. set_ptr b ptr w m1 = (Ok (), m2) \<and> built_ok ok owns m2 \<and>
       fresh_object m ptr m2 start n \<and> finds_by m2 {ptr} b ptr w (Near ptr) b \<and> builds (mg_arena m2) b s'"
    "sused s' = sused s + n" "sdata s' = sdata s" "ptr \<notin> set (addr_list start n)"
proof -
  let ?s = "msegs m1 ! unat b"
  note new = took_new [OF m1 t]
  obtain s' where "builds (mg_arena m1) b s'" "as_segment s' = as_segment s"
    by (rule took_keeps [OF m m1 t b])
  with new(1) have seg: "as_segment ?s = as_segment s" by (simp add: builds_def)
  have cap: "sused s + n \<le> scap ?s" using buildsD(3) [OF new(1)] new(2) by simp
  obtain v where v: "offset_from_end_of m1 b (addr (sdata ?s) k) (addr (sdata ?s) (sused s)) = Ok v"
    "int k + 1 + i30_val v = int (sused s)"
    by (rule offset_from_end_of_addr [OF new(1), of k "sused s"]) (use k new(2) in auto)
  have p1: "ptr \<in> used_places (mg_arena m1)" using addr_used [OF m1 new(1), of k] k new(2) seg by (simp add: ptr_def)
  have place: "seg_place ?s (sused s) n = set (addr_list start n)"
    by (simp add: seg_place_addr_list seg start_def)
  have news: "zeroed (mg_heap m1) (set (addr_list start n))"
    "set (addr_list start n) \<inter> used_places (mg_arena m) = {}"
    "used_places (mg_arena m1) = used_places (mg_arena m) \<union> set (addr_list start n)"
    "\<forall>x \<in> used_places (mg_arena m). mem (mg_heap m1) x = mem (mg_heap m) x"
    using t unfolding took_def Let_def place by blast+
  have out: "ptr \<notin> set (addr_list start n)" using addr_used [OF m b k] news(2) by (auto simp: ptr_def)
  have "\<exists>m2. set_ptr b ptr w m1 = (Ok (), m2) \<and> built_ok ok owns m2 \<and>
       fresh_object m ptr m2 start n \<and> finds_by m2 {ptr} b ptr w (Near ptr) b \<and> builds (mg_arena m2) b ?s"
    if w: "kind w \<noteq> KFar" for w
  proof -
    let ?m = "m1\<lparr>mg_heap := put_words [ptr] (Some w) (mg_heap m1)\<rparr>"
    have "set_ptr b ptr w m1 = (Ok (), ?m)"
      using set_ptr_addr [OF new(1), of k w] used_place_mapped [OF m1 p1] cap k seg by (simp add: ptr_def)
    moreover have "built_ok ok owns ?m" by (rule write_built [OF m1 p1])
    moreover have "fresh_object m ptr ?m start n"
      using news out took_grown [OF t] by (auto simp: fresh_object_def zeroed_def)
    moreover have "finds_by ?m {ptr} b ptr w (Near ptr) b" by (rule finds_by_near) (simp_all add: w)
    ultimately show ?thesis using new(1) by (intro exI [of _ ?m]) simp
  qed
  then show thesis
    using v new(2) seg out by (intro that [of v ?s]) (simp_all add: ptr_def start_def)
qed

lemma alloc_near_struct:
  assumes m: "built_ok ok owns m" and b: "builds (mg_arena m) b s" and k: "k < sused s"
    and len: "nz29_new (struct_total sz) = Some len"
    and a: "alloc_in_segment b len m = (Ok (Some (addr (sdata s) (sused s))), m1)" "built_ok ok owns m1"
      "took m (nz29_val len) b (sused s) m1"
  obtains m' where "alloc_struct alloc b (addr (sdata s) k) sz m = (Ok (addr (sdata s) (sused s), b), m')"
    "built_ok ok owns m'" "fresh_object m (addr (sdata s) k) m' (addr (sdata s) (sused s)) (unat (struct_total sz))"
    "lasting m {addr (sdata s) k} (set (addr_list (addr (sdata s) (sused s)) (unat (struct_total sz)))) m'
      (\<lambda>m'. struct_found m' b (addr (sdata s) k) sz (addr (sdata s) (sused s)) b)"
proof -
  let ?p = "addr (sdata s) k"
  have n: "nz29_val len = unat (struct_total sz)" "0 < unat (struct_total sz)"
    using len nz29_val_bounds(1) [of len] by (auto simp: nz29_new_Some_iff)
  show thesis
  proof (rule place_near [OF m b k a(2,3)])
    fix v s'
    assume v: "offset_from_end_of m1 b ?p (addr (sdata s) (sused s)) = Ok v" "int k + 1 + i30_val v = int (sused s)"
      and w: "\<And>w. kind w \<noteq> KFar \<Longrightarrow> \<exists>m2. set_ptr b ?p w m1 = (Ok (), m2) \<and> built_ok ok owns m2 \<and>
        fresh_object m ?p m2 (addr (sdata s) (sused s)) (nz29_val len) \<and> finds_by m2 {?p} b ?p w (Near ?p) b \<and>
        builds (mg_arena m2) b s'"
      and s': "sused s' = sused s + nz29_val len" "sdata s' = sdata s"
        "?p \<notin> set (addr_list (addr (sdata s) (sused s)) (nz29_val len))"
    let ?w = "word_of_parts (struct_ptr_new v sz)"
    obtain m2 where m2: "set_ptr b ?p ?w m1 = (Ok (), m2)" "built_ok ok owns m2"
      "fresh_object m ?p m2 (addr (sdata s) (sused s)) (nz29_val len)" "finds_by m2 {?p} b ?p ?w (Near ?p) b"
      "builds (mg_arena m2) b s'"
      using w [of ?w] by (auto simp: ptr_kinds)
    have "?p \<in> used_places (mg_arena m2)" using addr_used [OF m b k] m2(3) by (auto simp: fresh_object_def)
    then have "lasting m {?p} (set (addr_list (addr (sdata s) (sused s)) (unat (struct_total sz)))) m2
        (\<lambda>m'. struct_found m' b ?p sz (addr (sdata s') (sused s)) b)"
    proof (intro struct_lasting [OF m2(4) struct_word])
      show "locates m2 (Near ?p) b (struct_ptr_new v sz) s' b (sused s)"
        unfolding s'(2) [symmetric] by (rule locatesI(1)) (use m2(5) v(2) new_offsets(1) in simp_all)
    qed (use n s' new_sizes buildsD(3) [OF m2(5)] in auto)
    moreover have "alloc_struct alloc b ?p sz m = (Ok (addr (sdata s) (sused s), b), m2)"
      by (simp add: alloc_struct_def len a(1) v(1) m2(1))
    ultimately show thesis using m2(2,3) n(1) s'(2) by (intro that) simp_all
  qed
qed

lemma id_of_builder:
  assumes "built_ok ok owns m" "builds (mg_arena m) c s"
  shows "builder_id m c = Ok c"
  using assms buildsD(1) [OF assms(2)] builtD(2) [OF assms(1)]
  by (auto simp: builder_id_def builds_iff [OF assms(1)] ids_ok_def)

text \<open>An object behind a landing pad, the word \<open>w\<close> of which describes it.\<close>

lemma place_far:
  assumes m: "built_ok ok owns m" and b: "builds (mg_arena m) b s" and k: "k < sused s"
    and m1: "built_ok ok owns m1" and t: "took m (Suc n) c off m1"
  defines "s' \<equiv> msegs m1 ! unat c" and "ptr \<equiv> addr (sdata s) k"
  defines "pad \<equiv> addr (sdata s') off" and "start \<equiv> addr (sdata s') (Suc off)"
  obtains ov where "as_ref_unchecked (ptr_offset pad (u29_clip 1)) = Ok start"
    "offset_from_start m1 c pad = Ok ov" "builder_id m1 c = Ok c"
    "\<And>w. \<exists>m2 m3. set_ptr b ptr (word_of_parts (far_ptr_new c ov False)) m1 = (Ok (), m2) \<and>
       set_ptr c pad w m2 = (Ok (), m3) \<and> built_ok ok owns m3 \<and> fresh_object m ptr m3 start n \<and>
       finds_by m3 {ptr, pad} b ptr w (Far pad) c \<and> builds (mg_arena m3) c s' \<and> mg_arena m3 = mg_arena m1 \<and>
       (\<forall>x. x \<noteq> ptr \<longrightarrow> x \<noteq> pad \<longrightarrow> mem (mg_heap m3) x = mem (mg_heap m1) x)"
    "sused s' = Suc off + n" "ptr \<notin> set (addr_list start n)" "pad \<notin> set (addr_list start n)"
    "{ptr, pad} \<subseteq> used_places (mg_arena m1)" "{ptr, pad} \<inter> used_places (mg_arena m) \<subseteq> {ptr}"
proof -
  note new = took_new [OF m1 t, folded s'_def]
  note f = buildsD [OF new(1)]
  obtain t' where t': "builds (mg_arena m1) b t'" "as_segment t' = as_segment s" "sused s \<le> sused t'"
    by (rule took_keeps [OF m m1 t b])
  have used: "sused s' = Suc off + n" using new(2) by simp
  have start: "as_ref_unchecked (ptr_offset pad (u29_clip 1)) = Ok start"
    using addr_nonnull [OF f(5), of "Suc off"] f(3,4) used
    by (simp add: pad_def start_def ptr_offset_addr addr_addr as_ref_unchecked_def)
  obtain ov where ov: "offset_from_start m1 c pad = Ok ov" "u29_val ov = off"
    unfolding pad_def by (rule offset_from_start_addr [OF new(1), of off]) (use used f(3) in auto)
  have id: "builder_id m1 c = Ok c" by (rule id_of_builder [OF m1 new(1)])
  have ptr: "ptr \<in> used_places (mg_arena m)" unfolding ptr_def by (rule addr_used [OF m b k])
  have place: "seg_place s' off (Suc n) = set (addr_list pad (Suc n))"
    by (simp add: seg_place_addr_list pad_def)
  have news: "zeroed (mg_heap m1) (set (addr_list pad (Suc n)))"
    "set (addr_list pad (Suc n)) \<inter> used_places (mg_arena m) = {}"
    "used_places (mg_arena m1) = used_places (mg_arena m) \<union> set (addr_list pad (Suc n))"
    "\<forall>x \<in> used_places (mg_arena m). mem (mg_heap m1) x = mem (mg_heap m) x"
    using t unfolding took_def Let_def s'_def [symmetric] place by blast+
  have all: "set (addr_list pad (Suc n)) = insert pad (set (addr_list start n))"
  proof -
    have "start = addr pad 1" by (simp add: start_def pad_def addr_addr)
    then have "set (addr_list start n) = addr pad ` (Suc ` {..<n})" by (simp add: set_addr_list image_comp addr_addr)
    then show ?thesis by (simp add: set_addr_list lessThan_Suc_eq_insert_0)
  qed
  have pad_out: "pad \<notin> set (addr_list start n)"
  proof
    assume "pad \<in> set (addr_list start n)"
    then obtain j where j: "addr (sdata s') off = addr (sdata s') (Suc off + j)" "j < n"
      by (auto simp: set_addr_list pad_def start_def addr_addr)
    then have "off = Suc off + j" using used f(3) by (intro addr_inj [OF f(5)]) auto
    then show False by simp
  qed
  have "\<exists>m2 m3. set_ptr b ptr (word_of_parts (far_ptr_new c ov False)) m1 = (Ok (), m2) \<and>
       set_ptr c pad w m2 = (Ok (), m3) \<and> built_ok ok owns m3 \<and> fresh_object m ptr m3 start n \<and>
       finds_by m3 {ptr, pad} b ptr w (Far pad) c \<and> builds (mg_arena m3) c s' \<and> mg_arena m3 = mg_arena m1 \<and>
       (\<forall>x. x \<noteq> ptr \<longrightarrow> x \<noteq> pad \<longrightarrow> mem (mg_heap m3) x = mem (mg_heap m1) x)" for w
  proof -
    let ?far = "word_of_parts (far_ptr_new c ov False)"
    let ?m2 = "m1\<lparr>mg_heap := put_words [ptr] (Some ?far) (mg_heap m1)\<rparr>"
    let ?m3 = "?m2\<lparr>mg_heap := put_words [pad] (Some w) (mg_heap ?m2)\<rparr>"
    have p1: "ptr \<in> used_places (mg_arena m1)" using ptr news(3) by simp
    have built2: "built_ok ok owns ?m2" by (rule write_built [OF m1 p1])
    have pad2: "pad \<in> used_places (mg_arena ?m2)" using news(3) all by simp
    have w1: "set_ptr b ptr ?far m1 = (Ok (), ?m2)"
      using set_ptr_addr [OF t'(1), of k ?far] used_place_mapped [OF m1 p1] k t'(2,3) buildsD(3) [OF t'(1)]
      by (simp add: ptr_def)
    have w2: "set_ptr c pad w ?m2 = (Ok (), ?m3)"
      using set_ptr_addr [of ?m2 c s' off w] used_place_mapped [OF built2 pad2] new(1) used f(3)
      by (simp add: pad_def)
    have ne: "ptr \<noteq> pad" using ptr news(2) all by auto
    have "finds_by ?m3 {ptr, addr (sdata s') (u29_val ov)} b ptr w (Far (addr (sdata s') (u29_val ov))) c"
      by (rule finds_by_far) (use ne new(1) used ov(2) in \<open>simp_all add: pad_def\<close>)
    then have "finds_by ?m3 {ptr, pad} b ptr w (Far pad) c" by (simp add: pad_def ov(2))
    moreover have "fresh_object m ptr ?m3 start n"
      using news ne ptr pad_out all took_grown [OF t] by (auto simp: fresh_object_def zeroed_def)
    moreover have "built_ok ok owns ?m3" by (rule write_built [OF built2 pad2])
    moreover have "builds (mg_arena ?m3) c s'" "mg_arena ?m3 = mg_arena m1" using new(1) by simp_all
    ultimately show ?thesis using w1 w2 by (intro exI [of _ ?m2] exI [of _ ?m3] conjI) simp_all
  qed
  moreover have "ptr \<notin> set (addr_list start n)" using ptr news(2) all by auto
  moreover have "{ptr, pad} \<subseteq> used_places (mg_arena m1)" "{ptr, pad} \<inter> used_places (mg_arena m) \<subseteq> {ptr}"
    using ptr news(2,3) all by auto
  ultimately show thesis using start ov(1) id used pad_out by (intro that)
qed

lemma struct_lasting_far:
  assumes f: "finds_by m {ptr, pad} b ptr (word_of_parts (struct_ptr_new z sz)) (Far pad) c" "pad = addr (sdata s) off"
    and s: "builds (mg_arena m) c s" "i30_val z = 0" "sused s = Suc off + unat (struct_total sz)" "0 < unat (struct_total sz)"
    and P: "{ptr, pad} \<subseteq> used_places (mg_arena m)" "{ptr, pad} \<inter> used_places (mg_arena m0) \<subseteq> D" "{ptr, pad} \<inter> E = {}"
  shows "lasting m0 D E m (\<lambda>m'. struct_found m' b ptr sz (addr (sdata s) (Suc off)) c)"
proof (rule struct_lasting [OF f(1) struct_word _ _ _ _ P])
  show "locates m (Far pad) c (struct_ptr_new z sz) s c (Suc off)"
    unfolding f(2) by (rule locatesI(2)) (use s new_offsets(1) in simp_all)
qed (use s buildsD(3) [OF s(1)] new_sizes in auto)

theorem alloc_struct_found:
  assumes m: "built_ok ok owns m" and b: "builds (mg_arena m) b s" and k: "k < sused s"
  shows "\<exists>res m'. alloc_struct alloc b (addr (sdata s) k) sz m = (res, m') \<and> built_ok ok owns m' \<and>
    (case res of
       Ok (start, b') \<Rightarrow> fresh_object m (addr (sdata s) k) m' start (unat (struct_total sz)) \<and>
         lasting m {addr (sdata s) k} (set (addr_list start (unat (struct_total sz)))) m'
           (\<lambda>m'. struct_found m' b (addr (sdata s) k) sz start b')
     | Err e \<Rightarrow> (\<exists>n. e = AllocFailed n) \<and> msegs m' = msegs m \<and> mem (mg_heap m') = mem (mg_heap m)
     | _ \<Rightarrow> False)"
proof (cases "struct_total sz = 0")
  case True
  show ?thesis by (rule alloc_empty_struct [OF m b k True]) (use True in \<open>auto simp: addr_list_def\<close>)
next
  case False
  have tot: "unat (struct_total sz) < 2 ^ 29" "0 < unat (struct_total sz)"
    using unat_struct_total_less [of sz] False by (simp_all add: unat_gt_0)
  then obtain len where len: "nz29_new (struct_total sz) = Some len" "nz29_val len = unat (struct_total sz)"
    by (simp add: nz29_new_eq)
  show ?thesis
  proof (rule alloc_in_segment_cases [OF m b, of len])
    fix m1 assume a: "alloc_in_segment b len m = (Ok (Some (addr (sdata s) (sused s))), m1)" "built_ok ok owns m1"
      "took m (nz29_val len) b (sused s) m1"
    show ?thesis by (rule alloc_near_struct [OF m b k len(1) a]) auto
  next
    assume near: "alloc_in_segment b len m = (Ok None, m)"
    have u: "unat (struct_total sz + 1) = Suc (unat (struct_total sz))"
      using unat_struct_total_less [of sz] by (subst unat_add_no_wrap) simp_all
    then obtain lp where lp: "nz29_new_unwrap (struct_total sz + 1) = (Ok lp :: (rerror, nz29) outcome)"
      "nz29_val lp = Suc (unat (struct_total sz))"
      using unat_struct_total_less [of sz] by (simp add: nz29_new_unwrap_def nz29_new_eq)
    obtain z where z: "i30_from_i16 0 = (Ok z :: (rerror, i30) outcome)" "i30_val z = 0" by (rule i30_from_i16_0)
    show ?thesis
    proof (rule alloc_in_arena_cases [OF m, of lp])
      fix m1 assume a: "alloc_in_arena alloc lp m = (Ok None, m1)" "built_ok ok owns m1" "msegs m1 = msegs m"
        "mem (mg_heap m1) = mem (mg_heap m)"
      then have "alloc_struct alloc b (addr (sdata s) k) sz m = (Err (AllocFailed lp), m1)"
        by (simp add: alloc_struct_def len(1) near lp(1)) (simp add: bbind_def)
      with a show ?thesis by auto
    next
      fix c off m1 assume a: "alloc_in_arena alloc lp m = (Ok (Some (addr (sdata (msegs m1 ! unat c)) off, c)), m1)"
        "built_ok ok owns m1" "took m (nz29_val lp) c off m1"
      let ?s = "msegs m1 ! unat c" and ?p = "addr (sdata s) k"
      have "took m (Suc (unat (struct_total sz))) c off m1" using a(3) lp(2) by simp
      then show ?thesis
      proof (rule place_far [OF m b k a(2)])
        fix ov
        assume st: "as_ref_unchecked (ptr_offset (addr (sdata ?s) off) (u29_clip 1)) = Ok (addr (sdata ?s) (Suc off))"
          "offset_from_start m1 c (addr (sdata ?s) off) = Ok ov" "builder_id m1 c = Ok c"
          and w: "\<And>w. \<exists>m2 m3. set_ptr b ?p (word_of_parts (far_ptr_new c ov False)) m1 = (Ok (), m2) \<and>
            set_ptr c (addr (sdata ?s) off) w m2 = (Ok (), m3) \<and> built_ok ok owns m3 \<and>
            fresh_object m ?p m3 (addr (sdata ?s) (Suc off)) (unat (struct_total sz)) \<and>
            finds_by m3 {?p, addr (sdata ?s) off} b ?p w (Far (addr (sdata ?s) off)) c \<and> builds (mg_arena m3) c ?s \<and> mg_arena m3 = mg_arena m1 \<and>
            (\<forall>x. x \<noteq> ?p \<longrightarrow> x \<noteq> addr (sdata ?s) off \<longrightarrow> mem (mg_heap m3) x = mem (mg_heap m1) x)"
          and used: "sused ?s = Suc off + unat (struct_total sz)"
          and out: "?p \<notin> set (addr_list (addr (sdata ?s) (Suc off)) (unat (struct_total sz)))"
            "addr (sdata ?s) off \<notin> set (addr_list (addr (sdata ?s) (Suc off)) (unat (struct_total sz)))"
            "{?p, addr (sdata ?s) off} \<subseteq> used_places (mg_arena m1)"
            "{?p, addr (sdata ?s) off} \<inter> used_places (mg_arena m) \<subseteq> {?p}"
        obtain m2 m3 where m3: "set_ptr b ?p (word_of_parts (far_ptr_new c ov False)) m1 = (Ok (), m2)"
          "set_ptr c (addr (sdata ?s) off) (word_of_parts (struct_ptr_new z sz)) m2 = (Ok (), m3)"
          "built_ok ok owns m3" "fresh_object m ?p m3 (addr (sdata ?s) (Suc off)) (unat (struct_total sz))"
          "finds_by m3 {?p, addr (sdata ?s) off} b ?p (word_of_parts (struct_ptr_new z sz)) (Far (addr (sdata ?s) off)) c" "builds (mg_arena m3) c ?s"
          "mg_arena m3 = mg_arena m1"
          using w [of "word_of_parts (struct_ptr_new z sz)"] by blast
        have "alloc_struct alloc b ?p sz m = (Ok (addr (sdata ?s) (Suc off), c), m3)"
          by (simp add: alloc_struct_def len(1) near lp(1) a(1) st m3(1,2) z(1))
        moreover have "lasting m {?p} (set (addr_list (addr (sdata ?s) (Suc off)) (unat (struct_total sz)))) m3
            (\<lambda>m'. struct_found m' b ?p sz (addr (sdata ?s) (Suc off)) c)"
          by (rule struct_lasting_far [OF m3(5) refl m3(6) z(2) used tot(2)]) (use out m3(7) in auto)
        ultimately show ?thesis using m3(3,4) by auto
      qed
    qed
  qed
qed

end

end
