(* ===== verification/Built_Lists.thy ===== *)
theory Built_Lists
  imports Built_Objects
begin

text \<open>
  Lists placed in a message (\<^verbatim>\<open>recapn/src/ptr.rs\<close>, \<open>ObjectBuilder::alloc_list\<close>): in the segment of
  their pointer, behind a landing pad, or alone in a segment behind two pads, and read back from
  there; where the sizes that \<open>alloc_list\<close> computes go wrong.
\<close>

section \<open>Lists\<close>

definition list_read :: "'a message \<Rightarrow> object_builder \<Rightarrow> u64 \<Rightarrow> list_content \<Rightarrow> object_builder \<Rightarrow> bool" where
  "list_read m b ptr l b' \<longleftrightarrow>
     (\<forall>r. views (mg_arena m) b r \<longrightarrow> (\<exists>r'. views (mg_arena m) b' r' \<and>
        try_read_list (mg_heap m) (arena_source (mg_arena m)) r ptr None None = (Ok (l, r'), None)))"

lemma flat_sizes: "\<not> is_inline_composite e \<Longrightarrow> to_element_size (as_ptr_size e) = e"
  "as_ptr_size e = PInlineComposite \<longleftrightarrow> is_inline_composite e"
  by (cases e; simp)+

lemma list_readI:
  assumes f: "finds m b ptr w loc c" "list_ptr w = Some p"
    and rd: "\<And>r1. views (mg_arena m) c r1 \<Longrightarrow> \<exists>r'. views (mg_arena m) d r' \<and>
      read_as_list_content (mg_heap m) (arena_source (mg_arena m)) r1 loc p None None = (Ok (l, r'), None)"
  shows "list_read m b ptr l d"
proof -
  have t: "try_list_ptr w = Ok p" by (simp add: try_list_ptr_def f(2))
  have "\<exists>r'. views (mg_arena m) d r' \<and> try_read_list (mg_heap m) (arena_source (mg_arena m)) r ptr None None =
      (Ok (l, r'), None)" if "views (mg_arena m) b r" for r
  proof -
    from f(1) that obtain r1 where r1: "views (mg_arena m) c r1"
      "location_of (mg_heap m) (arena_source (mg_arena m)) r ptr None = (Ok (\<lparr>ct_ptr = w, ct_location = loc\<rparr>, r1), None)"
      unfolding finds_def by blast
    from rd [OF r1(1)] show ?thesis
      by (simp add: try_read_list_def rbind_def r1(2) try_read_as_list_content_def t rlift_def)
  qed
  then show ?thesis by (simp add: list_read_def)
qed

lemma flat_list_read:
  assumes f: "finds m b ptr w loc c" "list_ptr w = Some p" "element_size p = as_ptr_size e" "\<not> is_inline_composite e"
    and n: "element_count p = (Ok n :: (rerror, u29) outcome)"
    and l: "locates m loc c p s d j" "j + list_object_words e (u29_val n) \<le> sused s"
  shows "list_read m b ptr \<lparr>ls_ptr = addr (sdata s) j, ls_element_size = e, ls_element_count = n\<rparr> d"
proof (rule list_readI [OF f(1,2)])
  fix r1 assume r1: "views (mg_arena m) c r1"
  let ?w = "round_up_bit_count (ucast (u29_inner n) * ucast (bits e))"
  note w = message_source.flat_words(1,2) [OF f(4), of n]
  have new: "u29_new ?w = Some (u29_clip ?w)" "u29_val (u29_clip ?w) = list_object_words e (u29_val n)"
    using w by (simp_all add: u29_new_eq)
  obtain r2 where r2: "views (mg_arena m) d r2"
    "read_at (arena_source (mg_arena m)) r1 loc p (u29_clip ?w) None = (Ok (addr (sdata s) j, r2), None)"
    by (rule read_at_found [OF l(1) r1, of "u29_clip ?w"]) (use l(2) new(2) in simp)
  have amp: "(if e = Void then try_amplified_read (ucast (u29_inner n)) else rok True) None = (Ok True, None)"
    by (simp add: try_amplified_read_def rlift_def)
  have "read_flat_content (arena_source (mg_arena m)) r1 loc p None None =
      (Ok (\<lparr>ls_ptr = addr (sdata s) j, ls_element_size = e, ls_element_count = n\<rparr>, r2), None)"
    unfolding read_flat_content_def Let_def f(3) flat_sizes(1) [OF f(4)] n check_expected_def option.case rbind_rok
    by (simp add: rbind_def [of "if e = Void then _ else _"] amp new(1)) (simp add: rbind_def r2(2) rlift_def)
  with r2(1) show "\<exists>r'. views (mg_arena m) d r' \<and>
      read_as_list_content (mg_heap m) (arena_source (mg_arena m)) r1 loc p None None =
        (Ok (\<lparr>ls_ptr = addr (sdata s) j, ls_element_size = e, ls_element_count = n\<rparr>, r'), None)"
    using f(3,4) by (simp add: read_as_list_content_def flat_sizes(2))
qed

text \<open>A list of structs whose pointer gives \<open>wc\<close> words and whose tag gives \<open>n\<close> elements.\<close>

lemma composite_list_outcome:
  assumes f: "finds m b ptr w loc c" "list_ptr w = Some p" "element_size p = PInlineComposite"
    and wc: "element_count p = (Ok wc :: (rerror, u29) outcome)"
    and l: "locates m loc c p s d j" "Suc j + u29_val wc \<le> sused s"
    and tag: "mem (mg_heap m) (addr (sdata s) j) = Some (word_of_parts (new_inline_composite_tag n sz))"
    and r1: "views (mg_arena m) c r1"
  obtains r' where "views (mg_arena m) d r'"
    "read_as_list_content (mg_heap m) (arena_source (mg_arena m)) r1 loc p None None =
      (if u29_val n * unat (struct_total sz) \<le> u29_val wc
       then Ok (\<lparr>ls_ptr = addr (sdata s) (Suc j), ls_element_size = InlineComposite sz, ls_element_count = n\<rparr>, r')
       else Err InlineCompositeOverrun, None)"
proof -
  have d: "builds (mg_arena m) d s" using l(1) by (simp add: locates_def)
  note fn = buildsD [OF d]
  have lt: "Suc (u29_val wc) < 2 ^ 29" using l(2) u29_val_less [of "used_len s"] by simp
  then have u: "unat (u29_inner wc + 1) = Suc (u29_val wc)" by (subst unat_add_no_wrap) simp_all
  then have new: "u29_new (u29_inner wc + 1) = Some (u29_clip (u29_inner wc + 1))"
    "u29_val (u29_clip (u29_inner wc + 1)) = Suc (u29_val wc)"
    using lt by (simp_all add: u29_new_eq)
  obtain r2 where r2: "views (mg_arena m) d r2"
    "read_at (arena_source (mg_arena m)) r1 loc p (u29_clip (u29_inner wc + 1)) None = (Ok (addr (sdata s) j, r2), None)"
    by (rule read_at_found [OF l(1) r1, of "u29_clip (u29_inner wc + 1)"]) (use l(2) new(2) in simp)
  have fst_ptr: "as_ref_unchecked (ptr_offset (addr (sdata s) j) (u29_clip 1)) = Ok (addr (sdata s) (Suc j))"
    using addr_nonnull [OF fn(5), of "Suc j"] fn(3,4) l(2)
    by (simp add: ptr_offset_addr addr_addr as_ref_unchecked_def)
  have t: "struct_ptr (word_of_parts (new_inline_composite_tag n sz)) = Some (new_inline_composite_tag n sz)"
    by (simp add: struct_ptr_def is_struct_def ptr_kinds)
  have "u29_val n * unat (struct_total sz) \<le> 2 ^ 29 * 131070"
    using u29_val_less [of n] unat_struct_total_less [of sz] by (intro mult_le_mono) simp_all
  then have mul: "unat (ucast (u29_inner n) * ucast (struct_total sz) :: u64) = u29_val n * unat (struct_total sz)"
    by (subst unat_mult_no_wrap) simp_all
  have "read_composite_content (mg_heap m) (arena_source (mg_arena m)) r1 loc p None None =
      (if u29_val n * unat (struct_total sz) \<le> u29_val wc
       then Ok (\<lparr>ls_ptr = addr (sdata s) (Suc j), ls_element_size = InlineComposite sz, ls_element_count = n\<rparr>, r2)
       else Err InlineCompositeOverrun, None)"
    by (simp add: read_composite_content_def wc rbind_def rlift_def new(1) r2(2) deref_def tag t fst_ptr tag_count
        new_sizes check_expected_def word_less_nat_alt mul try_amplified_read_def)
  then show thesis using r2(1) f(3) by (intro that [of r2]) (simp_all add: read_as_list_content_def)
qed

lemma composite_list_read:
  assumes f: "finds m b ptr w loc c" "list_ptr w = Some p" "element_size p = PInlineComposite"
    and wc: "element_count p = (Ok wc :: (rerror, u29) outcome)"
    and l: "locates m loc c p s d j" "Suc j + u29_val wc \<le> sused s"
    and tag: "mem (mg_heap m) (addr (sdata s) j) = Some (word_of_parts (new_inline_composite_tag n sz))"
    and fits: "u29_val n * unat (struct_total sz) \<le> u29_val wc"
  shows "list_read m b ptr \<lparr>ls_ptr = addr (sdata s) (Suc j), ls_element_size = InlineComposite sz, ls_element_count = n\<rparr> d"
proof (rule list_readI [OF f(1,2)])
  fix r1 assume "views (mg_arena m) c r1"
  then show "\<exists>r'. views (mg_arena m) d r' \<and>
      read_as_list_content (mg_heap m) (arena_source (mg_arena m)) r1 loc p None None =
      (Ok (\<lparr>ls_ptr = addr (sdata s) (Suc j), ls_element_size = InlineComposite sz, ls_element_count = n\<rparr>, r'), None)"
    by (rule composite_list_outcome [OF f wc l tag]) (use fits in auto)
qed

context allocator
begin

lemma took_places:
  assumes "took m n c off m1"
  defines "p \<equiv> set (addr_list (addr (sdata (msegs m1 ! unat c)) off) n)"
  shows "zeroed (mg_heap m1) p" "p \<inter> used_places (mg_arena m) = {}"
    "used_places (mg_arena m1) = used_places (mg_arena m) \<union> p"
    "x \<in> used_places (mg_arena m) \<Longrightarrow> mem (mg_heap m1) x = mem (mg_heap m) x"
  using assms(1) unfolding took_def Let_def seg_place_addr_list p_def by blast+

lemma place_double:
  assumes m: "built_ok ok owns m" and b: "builds (mg_arena m) b s" and k: "k < sused s"
    and m1: "built_ok ok owns m1" and t1: "took m 2 c off m1"
    and m2: "built_ok ok owns m2" and t2: "took m1 n d off2 m2" and n: "0 < n"
  defines "ptr \<equiv> addr (sdata s) k"
    and "pad \<equiv> addr (sdata (msegs m1 ! unat c)) off" and "tag \<equiv> addr (sdata (msegs m1 ! unat c)) (Suc off)"
    and "s2 \<equiv> msegs m2 ! unat d"
  defines "start \<equiv> addr (sdata s2) off2"
  obtains ov lv where "as_ref_unchecked (ptr_offset pad (u29_clip 1)) = Ok tag"
    "offset_from_start m2 c pad = Ok ov" "builder_id m2 c = Ok c" "u29_val lv = off2"
    "\<And>w. \<exists>m3 m4 m5. set_ptr b ptr (word_of_parts (far_ptr_new c ov True)) m2 = (Ok (), m3) \<and>
       offset_from_start m3 d start = Ok lv \<and> builder_id m3 d = Ok d \<and>
       set_ptr c pad (word_of_parts (far_ptr_new d lv False)) m3 = (Ok (), m4) \<and>
       set_ptr c tag w m4 = (Ok (), m5) \<and> built_ok ok owns m5 \<and> fresh_object m ptr m5 start n \<and>
       finds_by m5 {ptr, pad, tag} b ptr w (DoubleFar d lv) c \<and> builds (mg_arena m5) d s2 \<and> mg_arena m5 = mg_arena m2"
    "sused s2 = off2 + n" "{ptr, pad, tag} \<inter> set (addr_list start n) = {}"
    "{ptr, pad, tag} \<subseteq> used_places (mg_arena m2)" "{ptr, pad, tag} \<inter> used_places (mg_arena m) \<subseteq> {ptr}"
proof -
  let ?s1 = "msegs m1 ! unat c"
  note new1 = took_new [OF m1 t1] and new2 = took_new [OF m2 t2, folded s2_def]
  note p1 = took_places [OF t1, folded pad_def] and p2 = took_places [OF t2, folded s2_def, folded start_def]
  obtain sb1 where sb1: "builds (mg_arena m1) b sb1" "as_segment sb1 = as_segment s" "sused s \<le> sused sb1"
    by (rule took_keeps [OF m m1 t1 b])
  obtain sb where sb: "builds (mg_arena m2) b sb" "as_segment sb = as_segment sb1" "sused sb1 \<le> sused sb"
    by (rule took_keeps [OF m1 m2 t2 sb1(1)])
  obtain sc where sc: "builds (mg_arena m2) c sc" "as_segment sc = as_segment ?s1" "sused ?s1 \<le> sused sc"
    by (rule took_keeps [OF m1 m2 t2 new1(1)])
  note f = buildsD [OF sc(1)] and f2 = buildsD [OF new2(1)]
  have used: "off + 2 \<le> sused sc" using sc(3) new1(2) by simp
  have pads: "pad = addr (sdata sc) off" "tag = addr (sdata sc) (Suc off)" by (simp_all add: pad_def tag_def sc(2))
  have tag: "as_ref_unchecked (ptr_offset pad (u29_clip 1)) = Ok tag"
    using addr_nonnull [OF f(5), of "Suc off"] f(3,4) used
    by (simp add: pads ptr_offset_addr addr_addr as_ref_unchecked_def)
  obtain ov where ov: "offset_from_start m2 c pad = Ok ov" "u29_val ov = off"
    unfolding pads by (rule offset_from_start_addr [OF sc(1), of off]) (use used f(3) in auto)
  have two: "set (addr_list pad 2) = {pad, tag}"
    by (auto simp: set_addr_list numeral_2_eq_2 lessThan_Suc pad_def tag_def addr_addr)
  have ptr: "ptr \<in> used_places (mg_arena m)" unfolding ptr_def by (rule addr_used [OF m b k])
  have ptr_out: "ptr \<noteq> pad" "ptr \<noteq> tag" using ptr p1(2) two by auto
  have out: "{ptr, pad, tag} \<inter> set (addr_list start n) = {}" using ptr p1(3) p2(2) two by auto
  have "pad \<noteq> tag"
  proof
    assume "pad = tag"
    then have "off = Suc off" using used f(3) unfolding pads by (intro addr_inj [OF f(5)]) auto
    then show False by simp
  qed
  have in2: "x \<in> used_places (mg_arena m2)" if "x \<in> {ptr, pad, tag}" for x
    using that ptr p1(3) p2(3) two by auto
  obtain lv where lv: "u29_val lv = off2" "\<And>h. offset_from_start (m2\<lparr>mg_heap := h\<rparr>) d start = Ok lv"
  proof -
    obtain lv where "offset_from_start m2 d start = Ok lv" "u29_val lv = off2"
      unfolding start_def by (rule offset_from_start_addr [OF new2(1), of off2]) (use new2(2) n f2(3) in auto)
    moreover have "offset_from_start (m2\<lparr>mg_heap := h\<rparr>) d start = offset_from_start m2 d start" for h
      by (simp add: offset_from_start_def builder_contains_def builder_segment_def builder_start_def offset_from_def
          contains_range_def builder_end_def)
    ultimately show thesis by (intro that) simp_all
  qed
  have "\<exists>m3 m4 m5. set_ptr b ptr (word_of_parts (far_ptr_new c ov True)) m2 = (Ok (), m3) \<and>
       offset_from_start m3 d start = Ok lv \<and> builder_id m3 d = Ok d \<and>
       set_ptr c pad (word_of_parts (far_ptr_new d lv False)) m3 = (Ok (), m4) \<and>
       set_ptr c tag w m4 = (Ok (), m5) \<and> built_ok ok owns m5 \<and> fresh_object m ptr m5 start n \<and>
       finds_by m5 {ptr, pad, tag} b ptr w (DoubleFar d lv) c \<and> builds (mg_arena m5) d s2 \<and> mg_arena m5 = mg_arena m2" for w
  proof -
    let ?far = "word_of_parts (far_ptr_new c ov True)" and ?far2 = "word_of_parts (far_ptr_new d lv False)"
    let ?m3 = "m2\<lparr>mg_heap := put_words [ptr] (Some ?far) (mg_heap m2)\<rparr>"
    let ?m4 = "?m3\<lparr>mg_heap := put_words [pad] (Some ?far2) (mg_heap ?m3)\<rparr>"
    let ?m5 = "?m4\<lparr>mg_heap := put_words [tag] (Some w) (mg_heap ?m4)\<rparr>"
    have b3: "built_ok ok owns ?m3" by (rule write_built [OF m2 in2]) simp
    have b4: "built_ok ok owns ?m4" by (rule write_built [OF b3]) (use in2 in simp)
    have b5: "built_ok ok owns ?m5" by (rule write_built [OF b4]) (use in2 in simp)
    have mapped: "mem (mg_heap m') x \<noteq> None" if "built_ok ok owns m'" "mg_arena m' = mg_arena m2" "x \<in> {ptr, pad, tag}" for m' x
      using used_place_mapped [OF that(1), of x] in2 [OF that(3)] that(2) by simp
    have w1: "set_ptr b ptr ?far m2 = (Ok (), ?m3)"
      using set_ptr_addr [OF sb(1), of k ?far] mapped [OF m2, of ptr] k sb(2,3) sb1(2,3) buildsD(3) [OF sb(1)]
      by (simp add: ptr_def)
    have w2: "set_ptr c pad ?far2 ?m3 = (Ok (), ?m4)"
      using set_ptr_addr [of ?m3 c sc off ?far2] mapped [OF b3, of pad] sc(1) used f(3) by (simp add: pads(1))
    have w3: "set_ptr c tag w ?m4 = (Ok (), ?m5)"
      using set_ptr_addr [of ?m4 c sc "Suc off" w] mapped [OF b4, of tag] sc(1) used f(3) by (simp add: pads(2))
    have "finds_by ?m5 {ptr, addr (sdata sc) (u29_val ov), addr (sdata sc) (u29_val ov + 1)} b ptr w (DoubleFar d lv) c"
      by (rule finds_by_double [where dd = False]) (use ptr_out \<open>pad \<noteq> tag\<close> sc(1) used ov(2) pads in auto)
    then have "finds_by ?m5 {ptr, pad, tag} b ptr w (DoubleFar d lv) c" by (simp add: pads ov(2))
    moreover have "fresh_object m ptr ?m5 start n"
    proof -
      have "mem (mg_heap ?m5) x = mem (mg_heap m) x" if "x \<in> used_places (mg_arena m)" "x \<noteq> ptr" for x
        using that p1(2-4) p2(4) two by auto
      moreover have "zeroed (mg_heap ?m5) (set (addr_list start n))" using p2(1) out by (auto simp: zeroed_def)
      moreover have "grown (msegs m) (msegs ?m5)" using grown_trans [OF took_grown [OF t1] took_grown [OF t2]] by simp
      ultimately show ?thesis using p1(3) p2(2,3) by (auto simp: fresh_object_def)
    qed
    moreover have "builder_id ?m3 d = Ok d" by (rule id_of_builder [OF b3, of d s2]) (use new2(1) in simp)
    moreover have "builds (mg_arena ?m5) d s2" using new2(1) by simp
    ultimately show ?thesis
      using w1 w2 w3 lv(2) b5 by (intro exI [of _ ?m3] exI [of _ ?m4] exI [of _ ?m5] conjI) simp_all
  qed
  moreover have "{ptr, pad, tag} \<subseteq> used_places (mg_arena m2)" "{ptr, pad, tag} \<inter> used_places (mg_arena m) \<subseteq> {ptr}"
    using in2 p1(2) two by auto
  ultimately show thesis using tag ov(1) id_of_builder [OF m2 sc(1)] lv(1) new2(2) out by (intro that)
qed

end

section \<open>Placing a list\<close>

text \<open>The list object of \<open>W\<close> words at \<open>p0\<close> is found through its pointer, which says \<open>cnt\<close>; the pads
  between them are new since \<open>m0\<close>.\<close>

definition list_placed :: "'a message \<Rightarrow> 'a message \<Rightarrow> object_builder \<Rightarrow> u64 \<Rightarrow> elem_size \<Rightarrow> u29 \<Rightarrow> nat \<Rightarrow> u64 \<Rightarrow> object_builder \<Rightarrow> bool" where
  "list_placed m0 m b ptr e cnt W p0 d \<longleftrightarrow> (\<exists>s j P w loc c p. p0 = addr (sdata s) j \<and> j + W \<le> sused s \<and>
     ptr \<in> P \<and> P \<subseteq> used_places (mg_arena m) \<and> P \<inter> used_places (mg_arena m0) \<subseteq> {ptr} \<and> finds_by m P b ptr w loc c \<and> P \<inter> set (addr_list p0 W) = {} \<and> list_ptr w = Some p \<and>
     element_size p = as_ptr_size e \<and> element_count p = (Ok cnt :: (rerror, u29) outcome) \<and>
     locates m loc c p s d j)"

lemma list_word:
  "list_ptr (word_of_parts (list_ptr_new off e n)) = Some (list_ptr_new off e n)"
  by (simp add: list_ptr_def is_list_def ptr_kinds)

lemma list_placedI:
  assumes "finds_by m P b ptr (word_of_parts (list_ptr_new v (as_ptr_size e) cnt)) loc c" "ptr \<in> P"
    and "P \<inter> set (addr_list (addr (sdata s) j) W) = {}" "j + W \<le> sused s"
    and "locates m loc c (list_ptr_new v (as_ptr_size e) cnt) s d j"
    and "P \<subseteq> used_places (mg_arena m)" "P \<inter> used_places (mg_arena m0) \<subseteq> {ptr}"
  shows "list_placed m0 m b ptr e cnt W (addr (sdata s) j) d"
  unfolding list_placed_def
  by (intro exI conjI, rule refl, rule assms(4), rule assms(2), rule assms(6), rule assms(7), rule assms(1), rule assms(3), rule list_word,
      rule list_ptr_elem, rule list_ptr_count, rule assms(5))

lemma list_placed_room:
  assumes "list_placed m0 m b ptr e cnt W p0 d"
  shows "room m d p0 W" "0 < W \<Longrightarrow> room m d (addr p0 1) (W - 1)"
proof -
  obtain s j loc c p where l: "p0 = addr (sdata s) j" "j + W \<le> sused s" "locates m loc c p s d j"
    using assms unfolding list_placed_def by blast
  then have d: "builds (mg_arena m) d s" by (simp add: locates_def)
  show "room m d p0 W" unfolding l(1) by (rule roomI [OF d l(2)])
  show "room m d (addr p0 1) (W - 1)" if "0 < W"
    using roomI [OF d, of "Suc j" "W - 1"] l(2) that by (simp add: l(1) addr_addr)
qed

definition unchanged :: "'a message \<Rightarrow> 'a message \<Rightarrow> bool" where
  "unchanged m m' \<longleftrightarrow> used_places (mg_arena m) \<subseteq> used_places (mg_arena m') \<and> grown (msegs m) (msegs m') \<and>
     (\<forall>x \<in> used_places (mg_arena m). mem (mg_heap m') x = mem (mg_heap m) x)"

text \<open>What allocating may come to: an object \<open>Q\<close> holds of, or no memory.\<close>

definition build_result :: "('b \<Rightarrow> 'a message \<Rightarrow> bool) \<Rightarrow> 'a message \<Rightarrow> (rerror, 'b) outcome \<times> 'a message \<Rightarrow> bool" where
  "build_result Q m res = (case res of (r, m') \<Rightarrow> (case r of
     Ok x \<Rightarrow> Q x m' | Err e \<Rightarrow> (\<exists>n. e = AllocFailed n) \<and> unchanged m m' | _ \<Rightarrow> False))"

lemma build_result_Ok [simp]: "build_result Q m (Ok x, m') \<longleftrightarrow> Q x m'"
  and build_result_Err [simp]: "build_result Q m (Err er, m') \<longleftrightarrow> (\<exists>n. er = AllocFailed n) \<and> unchanged m m'"
  by (simp_all add: build_result_def)

lemma same_unchanged: "msegs m' = msegs m \<Longrightarrow> mem (mg_heap m') = mem (mg_heap m) \<Longrightarrow> unchanged m m'"
  by (simp add: unchanged_def used_places_def)

context allocator
begin

lemma took_unchanged: "took m n c off m' \<Longrightarrow> unchanged m m'"
  using took_grown [of m n c off m'] by (auto simp: took_def unchanged_def Let_def)

lemma unchanged_trans: "unchanged m m1 \<Longrightarrow> unchanged m1 m2 \<Longrightarrow> unchanged m m2"
  by (auto simp: unchanged_def intro: grown_trans)

lemma place_list_near:
  fixes e :: elem_size and n cnt :: u29
  assumes m: "built_ok ok owns m" and b: "builds (mg_arena m) b s" and k: "k < sused s"
    and a: "alloc_in_segment b len m = (Ok (Some (addr (sdata s) (sused s))), m1)" "built_ok ok owns m1"
      "took m (nz29_val len) b (sused s) m1"
  defines "res \<equiv> place_list alloc b (addr (sdata s) k) e n cnt len m"
  shows "built_ok ok owns (snd res) \<and> build_result (\<lambda>(p0, d) m'. fresh_object m (addr (sdata s) k) m' p0 (nz29_val len) \<and>
      list_placed m m' b (addr (sdata s) k) e cnt (nz29_val len) p0 d \<and> nz29_val len < 2 ^ 29 - 1) m res"
proof (rule place_near [OF m b k a(2,3)])
  let ?p = "addr (sdata s) k" and ?start = "addr (sdata s) (sused s)"
  fix v s'
  assume v: "offset_from_end_of m1 b ?p ?start = Ok v" "int k + 1 + i30_val v = int (sused s)"
    and w: "\<And>w. kind w \<noteq> KFar \<Longrightarrow> \<exists>m2. set_ptr b ?p w m1 = (Ok (), m2) \<and> built_ok ok owns m2 \<and>
      fresh_object m ?p m2 ?start (nz29_val len) \<and> finds_by m2 {?p} b ?p w (Near ?p) b \<and> builds (mg_arena m2) b s'"
    and s': "sused s' = sused s + nz29_val len" "sdata s' = sdata s" "?p \<notin> set (addr_list ?start (nz29_val len))"
  let ?w = "word_of_parts (list_ptr_new v (as_ptr_size e) cnt)"
  obtain m2 where m2: "set_ptr b ?p ?w m1 = (Ok (), m2)" "built_ok ok owns m2"
    "fresh_object m ?p m2 ?start (nz29_val len)" "finds_by m2 {?p} b ?p ?w (Near ?p) b" "builds (mg_arena m2) b s'"
    using w [of ?w] by (auto simp: ptr_kinds)
  have used: "?p \<in> used_places (mg_arena m2)" using addr_used [OF m b k] m2(3) by (auto simp: fresh_object_def)
  have "list_placed m m2 b ?p e cnt (nz29_val len) (addr (sdata s') (sused s)) b"
  proof (rule list_placedI [OF m2(4)])
    show "locates m2 (Near ?p) b (list_ptr_new v (as_ptr_size e) cnt) s' b (sused s)"
      unfolding s'(2) [symmetric] by (rule locatesI(1)) (use m2(5) v(2) new_offsets(2) in simp_all)
  qed (use s' used in simp_all)
  moreover have "res = (Ok (?start, b), m2)"
    by (simp add: res_def place_list_def a(1) v(1) m2(1))
  moreover have "nz29_val len < 2 ^ 29 - 1"
    using s'(1) u29_val_less [of "used_len s'"] k by simp
  ultimately show ?thesis using m2(2,3) s'(2) by simp
qed

lemma place_list_far:
  fixes e :: elem_size and n cnt :: u29
  assumes m: "built_ok ok owns m" and b: "builds (mg_arena m) b s" and k: "k < sused s"
    and near: "alloc_in_segment b len m = (Ok None, m)" and lp: "nz29_new (nz29_inner len + 1) = Some lp"
      "nz29_val lp = Suc (nz29_val len)"
  defines "res \<equiv> place_list alloc b (addr (sdata s) k) e n cnt len m"
  shows "built_ok ok owns (snd res) \<and> build_result (\<lambda>(p0, d) m'. fresh_object m (addr (sdata s) k) m' p0 (nz29_val len) \<and>
      list_placed m m' b (addr (sdata s) k) e cnt (nz29_val len) p0 d) m res"
proof (rule alloc_in_arena_cases [OF m, of lp])
  fix m1 assume a: "alloc_in_arena alloc lp m = (Ok None, m1)" "built_ok ok owns m1" "msegs m1 = msegs m"
    "mem (mg_heap m1) = mem (mg_heap m)"
  then have "res = (Err (AllocFailed lp), m1)"
    by (simp add: res_def place_list_def near lp(1)) (simp add: bbind_def)
  with a same_unchanged [OF a(3,4)] show ?thesis by simp
next
  let ?p = "addr (sdata s) k"
  fix c :: object_builder and off and m1 :: "'a message"
  let ?s = "msegs m1 ! unat c"
  let ?pad = "addr (sdata ?s) off" and ?start = "addr (sdata ?s) (Suc off)"
  assume a: "alloc_in_arena alloc lp m = (Ok (Some (?pad, c)), m1)" "built_ok ok owns m1" "took m (nz29_val lp) c off m1"
  have t: "took m (Suc (nz29_val len)) c off m1" using a(3) lp(2) by simp
  obtain z where z: "i30_from_i16 0 = (Ok z :: (rerror, i30) outcome)" "i30_val z = 0" by (rule i30_from_i16_0)
  show ?thesis
  proof (rule place_far [OF m b k a(2) t])
    fix ov
    assume st: "as_ref_unchecked (ptr_offset ?pad (u29_clip 1)) = Ok ?start"
      "offset_from_start m1 c ?pad = Ok ov" "builder_id m1 c = Ok c"
      and w: "\<And>w. \<exists>m2 m3. set_ptr b ?p (word_of_parts (far_ptr_new c ov False)) m1 = (Ok (), m2) \<and>
        set_ptr c ?pad w m2 = (Ok (), m3) \<and> built_ok ok owns m3 \<and> fresh_object m ?p m3 ?start (nz29_val len) \<and>
        finds_by m3 {?p, ?pad} b ?p w (Far ?pad) c \<and> builds (mg_arena m3) c ?s \<and> mg_arena m3 = mg_arena m1 \<and>
        (\<forall>x. x \<noteq> ?p \<longrightarrow> x \<noteq> ?pad \<longrightarrow> mem (mg_heap m3) x = mem (mg_heap m1) x)"
      and out: "sused ?s = Suc off + nz29_val len" "?p \<notin> set (addr_list ?start (nz29_val len))"
        "?pad \<notin> set (addr_list ?start (nz29_val len))"
        "{?p, ?pad} \<subseteq> used_places (mg_arena m1)" "{?p, ?pad} \<inter> used_places (mg_arena m) \<subseteq> {?p}"
    let ?w = "word_of_parts (list_ptr_new z (as_ptr_size e) cnt)"
    obtain m2 m3 where m3: "set_ptr b ?p (word_of_parts (far_ptr_new c ov False)) m1 = (Ok (), m2)"
      "set_ptr c ?pad ?w m2 = (Ok (), m3)" "built_ok ok owns m3" "fresh_object m ?p m3 ?start (nz29_val len)"
      "finds_by m3 {?p, ?pad} b ?p ?w (Far ?pad) c" "builds (mg_arena m3) c ?s" "mg_arena m3 = mg_arena m1"
      using w [of ?w] by blast
    have "list_placed m m3 b ?p e cnt (nz29_val len) ?start c"
    proof (rule list_placedI [OF m3(5)])
      show "locates m3 (Far ?pad) c (list_ptr_new z (as_ptr_size e) cnt) ?s c (Suc off)"
        by (rule locatesI(2)) (use m3(6) z(2) new_offsets(2) in simp_all)
    qed (use out m3(7) in simp_all)
    moreover have "res = (Ok (?start, c), m3)"
      by (simp add: res_def place_list_def near lp(1) a(1) st m3(1,2) z(1))
    ultimately show ?thesis using m3(3,4) by simp
  qed
qed

lemma landing_pad_cases:
  assumes m: "built_ok ok owns m" and b: "builds (mg_arena m) b s"
  obtains m1 where "alloc_double_far_landing_pad alloc b m = (Ok None, m1)" "built_ok ok owns m1" "unchanged m m1"
    | c off m1 where "alloc_double_far_landing_pad alloc b m =
        (Ok (Some (addr (sdata (msegs m1 ! unat c)) off, addr (sdata (msegs m1 ! unat c)) (Suc off), c)), m1)"
      "built_ok ok owns m1" "took m 2 c off m1"
proof -
  note got = that(2)
  have two: "nz29_val LANDING_PAD_LEN = 2" by (simp add: LANDING_PAD_LEN_def)
  have found: thesis
    if r: "builder_alloc alloc b LANDING_PAD_LEN m = (Ok (Some (addr (sdata (msegs m1 ! unat c)) off, c)), m1)"
      "built_ok ok owns m1" "took m (nz29_val LANDING_PAD_LEN) c off m1" for c off m1
  proof -
    let ?s = "msegs m1 ! unat c"
    note new = took_new [OF r(2,3)]
    note f = buildsD [OF new(1)]
    have "as_ref_unchecked (ptr_offset (addr (sdata ?s) off) (u29_clip 1)) = Ok (addr (sdata ?s) (Suc off))"
      using addr_nonnull [OF f(5), of "Suc off"] f(3,4) new(2) two
      by (simp add: ptr_offset_addr addr_addr as_ref_unchecked_def)
    with r two show thesis by (intro got [of m1 c off]) (simp_all add: alloc_double_far_landing_pad_def)
  qed
  show thesis
  proof (rule alloc_in_segment_cases [OF m b, of LANDING_PAD_LEN])
    fix m1
    assume a: "alloc_in_segment b LANDING_PAD_LEN m = (Ok (Some (addr (sdata s) (sused s))), m1)"
      "built_ok ok owns m1" "took m (nz29_val LANDING_PAD_LEN) b (sused s) m1"
    obtain s' where "builds (mg_arena m1) b s'" "as_segment s' = as_segment s" by (rule took_keeps [OF m a(2,3) b])
    with took_new(1) [OF a(2,3)] have "sdata (msegs m1 ! unat b) = sdata s" by (simp add: builds_def)
    with a(1) have "builder_alloc alloc b LANDING_PAD_LEN m =
        (Ok (Some (addr (sdata (msegs m1 ! unat b)) (sused s), b)), m1)" by (simp add: builder_alloc_def)
    then show thesis by (rule found [OF _ a(2,3)])
  next
    assume near: "alloc_in_segment b LANDING_PAD_LEN m = (Ok None, m)"
    show thesis
    proof (rule alloc_in_arena_cases [OF m, of LANDING_PAD_LEN])
      fix m1 assume a: "alloc_in_arena alloc LANDING_PAD_LEN m = (Ok None, m1)" "built_ok ok owns m1"
        "msegs m1 = msegs m" "mem (mg_heap m1) = mem (mg_heap m)"
      with near same_unchanged [OF a(3,4)] show thesis
        by (intro that(1)) (simp_all add: alloc_double_far_landing_pad_def builder_alloc_def)
    next
      fix c :: object_builder and off and m1 :: "'a message"
      assume a: "alloc_in_arena alloc LANDING_PAD_LEN m = (Ok (Some (addr (sdata (msegs m1 ! unat c)) off, c)), m1)"
        "built_ok ok owns m1" "took m (nz29_val LANDING_PAD_LEN) c off m1"
      with near have "builder_alloc alloc b LANDING_PAD_LEN m =
        (Ok (Some (addr (sdata (msegs m1 ! unat c)) off, c)), m1)" by (simp add: builder_alloc_def)
      then show thesis by (rule found [OF _ a(2,3)])
    qed
  qed
qed

lemma place_list_double:
  fixes e :: elem_size and n cnt :: u29
  assumes m: "built_ok ok owns m" and b: "builds (mg_arena m) b s" and k: "k < sused s"
  defines "res \<equiv> alloc_segment_of_list alloc b (addr (sdata s) k) e n m"
  shows "built_ok ok owns (snd res) \<and> build_result (\<lambda>(p0, d) m'. fresh_object m (addr (sdata s) k) m' p0 (2 ^ 29 - 1) \<and>
      list_placed m m' b (addr (sdata s) k) e n (2 ^ 29 - 1) p0 d) m res"
proof (rule landing_pad_cases [OF m b])
  fix m1 assume a: "alloc_double_far_landing_pad alloc b m = (Ok None, m1)" "built_ok ok owns m1" "unchanged m m1"
  then have "res = (Err (AllocFailed LANDING_PAD_LEN), m1)"
    by (simp add: res_def alloc_segment_of_list_def) (simp add: bbind_def)
  with a show ?thesis by simp
next
  let ?p = "addr (sdata s) k"
  fix c :: object_builder and off and m1 :: "'a message"
  let ?pad = "addr (sdata (msegs m1 ! unat c)) off" and ?tag = "addr (sdata (msegs m1 ! unat c)) (Suc off)"
  assume a: "alloc_double_far_landing_pad alloc b m = (Ok (Some (?pad, ?tag, c)), m1)" "built_ok ok owns m1"
    "took m 2 c off m1"
  obtain z where z: "i30_from_i16 0 = (Ok z :: (rerror, i30) outcome)" "i30_val z = 0" by (rule i30_from_i16_0)
  show ?thesis
  proof (rule alloc_in_arena_cases [OF a(2), of nz29_MAX])
    fix m2 assume a2: "alloc_in_arena alloc nz29_MAX m1 = (Ok None, m2)" "built_ok ok owns m2"
      "msegs m2 = msegs m1" "mem (mg_heap m2) = mem (mg_heap m1)"
    then have "res = (Err (AllocFailed nz29_MAX), m2)"
      by (simp add: res_def alloc_segment_of_list_def a(1)) (simp add: bbind_def)
    moreover have "unchanged m m2"
      using took_unchanged [OF a(3)] same_unchanged [OF a2(3,4)] by (rule unchanged_trans)
    ultimately show ?thesis using a2(2) by simp
  next
    fix d :: object_builder and off2 and m2 :: "'a message"
    let ?s2 = "msegs m2 ! unat d"
    let ?start = "addr (sdata ?s2) off2"
    assume a2: "alloc_in_arena alloc nz29_MAX m1 = (Ok (Some (?start, d)), m2)" "built_ok ok owns m2"
      "took m1 (nz29_val nz29_MAX) d off2 m2"
    have t2: "took m1 (2 ^ 29 - 1) d off2 m2" using a2(3) by simp
    have pos: "0 < (2 ^ 29 - 1 :: nat)" by simp
    show ?thesis
    proof (rule place_double [OF m b k a(2,3) a2(2) t2 pos])
      fix ov lv
      assume st: "offset_from_start m2 c ?pad = Ok ov" "builder_id m2 c = Ok c" "u29_val lv = off2"
        and w: "\<And>w. \<exists>m3 m4 m5. set_ptr b ?p (word_of_parts (far_ptr_new c ov True)) m2 = (Ok (), m3) \<and>
           offset_from_start m3 d ?start = Ok lv \<and> builder_id m3 d = Ok d \<and>
           set_ptr c ?pad (word_of_parts (far_ptr_new d lv False)) m3 = (Ok (), m4) \<and>
           set_ptr c ?tag w m4 = (Ok (), m5) \<and> built_ok ok owns m5 \<and> fresh_object m ?p m5 ?start (2 ^ 29 - 1) \<and>
           finds_by m5 {?p, ?pad, ?tag} b ?p w (DoubleFar d lv) c \<and> builds (mg_arena m5) d ?s2 \<and> mg_arena m5 = mg_arena m2"
        and out: "sused ?s2 = off2 + (2 ^ 29 - 1)" "{?p, ?pad, ?tag} \<inter> set (addr_list ?start (2 ^ 29 - 1)) = {}"
        "{?p, ?pad, ?tag} \<subseteq> used_places (mg_arena m2)" "{?p, ?pad, ?tag} \<inter> used_places (mg_arena m) \<subseteq> {?p}"
      let ?w = "word_of_parts (list_ptr_new z (as_ptr_size e) n)"
      obtain m3 m4 m5 where m5: "set_ptr b ?p (word_of_parts (far_ptr_new c ov True)) m2 = (Ok (), m3)"
        "offset_from_start m3 d ?start = Ok lv" "builder_id m3 d = Ok d"
        "set_ptr c ?pad (word_of_parts (far_ptr_new d lv False)) m3 = (Ok (), m4)"
        "set_ptr c ?tag ?w m4 = (Ok (), m5)" "built_ok ok owns m5" "fresh_object m ?p m5 ?start (2 ^ 29 - 1)"
        "finds_by m5 {?p, ?pad, ?tag} b ?p ?w (DoubleFar d lv) c" "builds (mg_arena m5) d ?s2" "mg_arena m5 = mg_arena m2"
        using w [of ?w] by blast
      have "list_placed m m5 b ?p e n (2 ^ 29 - 1) ?start d"
        by (rule list_placedI [OF m5(8)]) (use out m5(9,10) st(3) in \<open>simp_all add: locates_def\<close>)
      moreover have "res = (Ok (?start, d), m5)"
        by (simp add: res_def alloc_segment_of_list_def a(1) a2(1) st(1,2) m5(1-5) z(1))
      ultimately show ?thesis using m5(6,7) by simp
    qed
  qed
qed

text \<open>Wherever \<open>place_list\<close> puts the list, its pointer finds it; only in a segment of its own does the
  pointer give the number of elements where the caller wanted \<open>cnt\<close>.\<close>

lemma place_list_result:
  fixes e :: elem_size and n cnt :: u29 and len :: nz29
  assumes m: "built_ok ok owns m" and b: "builds (mg_arena m) b s" and k: "k < sused s"
  defines "res \<equiv> place_list alloc b (addr (sdata s) k) e n cnt len m"
  shows "built_ok ok owns (snd res)" and "build_result (\<lambda>(p0, d) m'. fresh_object m (addr (sdata s) k) m' p0 (nz29_val len) \<and>
      list_placed m m' b (addr (sdata s) k) e (if nz29_val len = 2 ^ 29 - 1 then n else cnt) (nz29_val len) p0 d) m res"
proof -
  have "built_ok ok owns (snd res) \<and> build_result (\<lambda>(p0, d) m'. fresh_object m (addr (sdata s) k) m' p0 (nz29_val len) \<and>
      list_placed m m' b (addr (sdata s) k) e (if nz29_val len = 2 ^ 29 - 1 then n else cnt) (nz29_val len) p0 d) m res"
  proof (rule alloc_in_segment_cases [OF m b, of len])
    fix m1 assume a: "alloc_in_segment b len m = (Ok (Some (addr (sdata s) (sused s))), m1)"
      "built_ok ok owns m1" "took m (nz29_val len) b (sused s) m1"
    show ?thesis
      using place_list_near [OF m b k a, of e n cnt] unfolding res_def
      by (auto simp: build_result_def split: prod.splits outcome.splits)
  next
    assume near: "alloc_in_segment b len m = (Ok None, m)"
    have u: "unat (nz29_inner len + 1) = Suc (nz29_val len)"
      using nz29_val_bounds(2) [of len] by (subst unat_add_no_wrap) simp_all
    show ?thesis
    proof (cases "nz29_val len = 2 ^ 29 - 1")
      case True
      then have "nz29_new (nz29_inner len + 1) = None" using u by (simp add: nz29_new_eq)
      then have "res = alloc_segment_of_list alloc b (addr (sdata s) k) e n m"
        by (simp add: res_def place_list_def near)
      then show ?thesis using place_list_double [OF m b k, of e n] True by simp
    next
      case False
      then have "Suc (nz29_val len) < 2 ^ 29" using nz29_val_bounds(2) [of len] by simp
      then obtain lp where lp: "nz29_new (nz29_inner len + 1) = Some lp" "nz29_val lp = Suc (nz29_val len)"
        using u by (simp add: nz29_new_eq)
      show ?thesis
        using place_list_far [OF m b k near lp, of e n cnt] False unfolding res_def by simp
    qed
  qed
  then show "built_ok ok owns (snd res)" and "build_result (\<lambda>(p0, d) m'. fresh_object m (addr (sdata s) k) m' p0 (nz29_val len) \<and>
      list_placed m m' b (addr (sdata s) k) e (if nz29_val len = 2 ^ 29 - 1 then n else cnt) (nz29_val len) p0 d) m res" by blast+
qed

end

section \<open>What \<open>alloc_list\<close> computes\<close>

definition tag_words :: "elem_size \<Rightarrow> nat" where
  "tag_words e = (if is_inline_composite e then 1 else 0)"

lemma list_words_split:
  "list_object_words e n = tag_words e + (case e of InlineComposite sz \<Rightarrow> n * unat (struct_total sz)
     | _ \<Rightarrow> (unat (bits e) * n + 63) div 64)"
  by (cases e) (simp_all add: list_object_words_def tag_words_def unat_struct_total)

lemma total_words_exact:
  assumes "list_object_words e (u29_val n) < 2 ^ 32"
  obtains t where "checked_add (total_words e n) (if is_inline_composite e then 1 else 0) = Some t"
    "unat t = list_object_words e (u29_val n)" "unat (total_words e n) + tag_words e = unat t"
proof (cases "is_inline_composite e")
  case True
  then obtain sz where e: "e = InlineComposite sz" by (cases e) auto
  have w: "list_object_words e (u29_val n) = Suc (unat (struct_total sz) * u29_val n)"
    by (simp add: e list_object_words_def unat_struct_total)
  with assms have "unat (total_words e n) = unat (struct_total sz) * u29_val n"
    unfolding e by (intro total_words_composite) simp
  with w assms True show thesis
    by (intro that [of "total_words e n + 1"]) (simp_all add: checked_add_def tag_words_def unat_add_no_wrap)
next
  case False
  have "unat (total_words e n) = list_object_words e (u29_val n)"
    using total_words_plain [OF False] False by (cases e) (simp_all add: list_object_words_def)
  with False show thesis
    using assms
    by (intro that [of "total_words e n"]) (simp_all add: checked_add_def tag_words_def)
qed

lemma list_placed_tag:
  assumes p: "list_placed m0 m b ptr e cnt W p0 d" and built: "allocator alloc ok owns" "built_ok ok owns m"
    and e: "e = InlineComposite sz" and W: "0 < W"
  obtains m' where "place_tag d p0 e n m = (Ok (addr p0 1), m')"
    "m' = m\<lparr>mg_heap := put_words [p0] (Some (word_of_parts (new_inline_composite_tag n sz))) (mg_heap m)\<rparr>"
    "built_ok ok owns m'" "list_placed m0 m' b ptr e cnt W p0 d" "p0 \<noteq> ptr"
proof -
  obtain s j P w loc c q where l: "p0 = addr (sdata s) j" "j + W \<le> sused s" "ptr \<in> P"
    "finds_by m P b ptr w loc c" "P \<inter> set (addr_list p0 W) = {}" "list_ptr w = Some q"
    "element_size q = as_ptr_size e" "element_count q = (Ok cnt :: (rerror, u29) outcome)" "locates m loc c q s d j"
    "P \<subseteq> used_places (mg_arena m)" "P \<inter> used_places (mg_arena m0) \<subseteq> {ptr}"
    using p unfolding list_placed_def by blast
  let ?m = "m\<lparr>mg_heap := put_words [p0] (Some (word_of_parts (new_inline_composite_tag n sz))) (mg_heap m)\<rparr>"
  have d: "builds (mg_arena m) d s" using l(9) by (simp add: locates_def)
  note f = buildsD [OF d]
  have used: "p0 \<in> used_places (mg_arena m)" unfolding l(1) by (rule addr_used [OF built(2) d]) (use l(2) W in simp)
  have in_list: "p0 \<in> set (addr_list p0 W)"
    using W by (auto simp: set_addr_list intro: image_eqI [of _ _ 0])
  have w: "set_ptr d p0 (word_of_parts (new_inline_composite_tag n sz)) m = (Ok (), ?m)"
    using set_ptr_addr [OF d, of j] used_place_mapped [OF built(2) used] l(1,2) f(3) W by simp
  have st: "as_ref_unchecked (ptr_offset p0 (u29_clip 1)) = Ok (addr p0 1)"
    using addr_nonnull [OF f(5), of "Suc j"] f(3,4) l(1,2) W
    by (simp add: ptr_offset_addr addr_addr as_ref_unchecked_def)
  have "place_tag d p0 e n m = (Ok (addr p0 1), ?m)" by (simp add: place_tag_def e w st)
  moreover have "built_ok ok owns ?m" by (rule allocator.write_built [OF built used])
  moreover have "list_placed m0 ?m b ptr e cnt W p0 d"
    unfolding list_placed_def
    by (intro exI conjI, rule l(1), rule l(2), rule l(3), use l(10) in simp, rule l(11),
        rule finds_by_write [OF l(4)], use in_list l(5) in blast, rule l(5), rule l(6), rule l(7), rule l(8)) (use l(9) in \<open>simp add: locates_def\<close>)
  moreover have "p0 \<noteq> ptr" using in_list l(3,5) by blast
  ultimately show thesis by (intro that) simp_all
qed

text \<open>The outcome of reading a list of structs hangs on the count in its pointer.\<close>

lemma list_placed_composite:
  assumes "list_placed m0 m b ptr (InlineComposite sz) cnt W p0 d" "Suc (u29_val cnt) \<le> W"
    and "mem (mg_heap m) p0 = Some (word_of_parts (new_inline_composite_tag n sz))"
  shows "u29_val cnt < u29_val n * unat (struct_total sz) \<Longrightarrow> views (mg_arena m) b r \<Longrightarrow>
      fst (try_read_list (mg_heap m) (arena_source (mg_arena m)) r ptr None None) = Err InlineCompositeOverrun"
    and "build_list m b ptr = Ok (\<lparr>ls_ptr = addr p0 1, ls_element_size = InlineComposite sz, ls_element_count = n\<rparr>, d)"
proof -
  obtain s j P w loc c q where l: "p0 = addr (sdata s) j" "j + W \<le> sused s"
    "finds_by m P b ptr w loc c" "list_ptr w = Some q"
    "element_size q = PInlineComposite" "element_count q = (Ok cnt :: (rerror, u29) outcome)" "locates m loc c q s d j"
    using assms(1) unfolding list_placed_def by auto
  note fd = finds_by_finds [OF l(3)]
  have room: "Suc j + u29_val cnt \<le> sused s" using l(2) assms(2) by simp
  note tag = assms(3) [unfolded l(1)]
  show "fst (try_read_list (mg_heap m) (arena_source (mg_arena m)) r ptr None None) = Err InlineCompositeOverrun"
    if over: "u29_val cnt < u29_val n * unat (struct_total sz)" and r: "views (mg_arena m) b r"
  proof -
    from fd r obtain r1 where r1: "views (mg_arena m) c r1"
      "location_of (mg_heap m) (arena_source (mg_arena m)) r ptr None = (Ok (\<lparr>ct_ptr = w, ct_location = loc\<rparr>, r1), None)"
      unfolding finds_def by blast
    show ?thesis
      by (rule composite_list_outcome [OF fd l(4-7) room tag r1(1)])
         (use over in \<open>simp add: try_read_list_def rbind_def r1(2) try_read_as_list_content_def try_list_ptr_def l(4) rlift_def\<close>)
  qed
  have d: "builds (mg_arena m) d s" using l(7) by (simp add: locates_def)
  note f = buildsD [OF d]
  have "build_at m c loc q = Ok (addr (sdata s) j, d)"
    by (rule build_at_found [OF l(7)]) (use room f(3) in simp)
  moreover have "as_ref_unchecked (ptr_offset (addr (sdata s) j) (u29_clip 1)) = Ok (addr p0 1)"
    using addr_nonnull [OF f(5), of "Suc j"] f(3,4) room
    by (simp add: ptr_offset_addr addr_addr as_ref_unchecked_def l(1))
  ultimately show "build_list m b ptr = Ok (\<lparr>ls_ptr = addr p0 1, ls_element_size = InlineComposite sz, ls_element_count = n\<rparr>, d)"
    using fd tag by (simp add: build_list_def finds_def try_list_ptr_def l(4,5) deref_def struct_ptr_def is_struct_def
        ptr_kinds tag_count new_sizes)
qed

lemma bbind_bret: "bbind (bret x) f = f x"
  by (rule ext) simp

lemma tag_apart:
  assumes "list_placed m0 m b ptr e cnt W p0 d"
  shows "p0 \<notin> set (addr_list (addr p0 1) (W - 1))" "W \<noteq> 0 \<Longrightarrow> p0 \<in> set (addr_list p0 W)"
    "set (addr_list (addr p0 1) (W - 1)) \<subseteq> set (addr_list p0 W)"
proof -
  obtain s j loc c q where l: "p0 = addr (sdata s) j" "j + W \<le> sused s" "locates m loc c q s d j"
    using assms unfolding list_placed_def by blast
  have d: "builds (mg_arena m) d s" using l(3) by (simp add: locates_def)
  note f = buildsD [OF d]
  show "p0 \<notin> set (addr_list (addr p0 1) (W - 1))"
  proof
    assume "p0 \<in> set (addr_list (addr p0 1) (W - 1))"
    then obtain i where i: "addr (sdata s) j = addr (sdata s) (Suc j + i)" "i < W - 1"
      by (auto simp: set_addr_list l(1) addr_addr)
    have "j = Suc j + i" using i l(2) f(3) by (intro addr_inj [OF f(5)]) auto
    then show False by simp
  qed
  show "W \<noteq> 0 \<Longrightarrow> p0 \<in> set (addr_list p0 W)"
    by (auto simp: set_addr_list intro: image_eqI [of _ _ 0])
  show "set (addr_list (addr p0 1) (W - 1)) \<subseteq> set (addr_list p0 W)"
    by (auto simp: set_addr_list addr_addr)
qed

lemma flat_list_lasting:
  assumes "list_placed m0 m b ptr e n W p0 d" "\<not> is_inline_composite e" "W = list_object_words e (u29_val n)"
  shows "lasting m0 {ptr} (set (addr_list p0 W)) m
    (\<lambda>m'. list_read m' b ptr \<lparr>ls_ptr = p0, ls_element_size = e, ls_element_count = n\<rparr> d)"
proof -
  obtain s j P w loc c q where l: "p0 = addr (sdata s) j" "j + W \<le> sused s"
    "finds_by m P b ptr w loc c" "P \<inter> set (addr_list p0 W) = {}" "list_ptr w = Some q"
    "element_size q = as_ptr_size e" "element_count q = (Ok n :: (rerror, u29) outcome)" "locates m loc c q s d j"
    "P \<subseteq> used_places (mg_arena m)" "P \<inter> used_places (mg_arena m0) \<subseteq> {ptr}"
    using assms(1) unfolding list_placed_def by blast
  have "list_read m' b ptr \<lparr>ls_ptr = p0, ls_element_size = e, ls_element_count = n\<rparr> d" if m': "later P m m'" for m'
  proof -
    obtain s' where s': "locates m' loc c q s' d j" "as_segment s' = as_segment s" "sused s \<le> sused s'"
      by (rule locates_later [OF l(8) m'])
    have "finds m' b ptr w loc c" using l(3) m' by (simp add: finds_by_def)
    from flat_list_read [OF this l(5,6) assms(2) l(7) s'(1)] show ?thesis
      using l(1,2) s'(2,3) assms(3) by simp
  qed
  with l(4,9,10) show ?thesis unfolding lasting_def by blast
qed

lemma composite_list_lasting:
  assumes lp: "list_placed m0 m b ptr (InlineComposite sz) cnt W p0 d" and W: "Suc (u29_val cnt) \<le> W"
    and tag: "mem (mg_heap m) p0 = Some (word_of_parts (new_inline_composite_tag n sz))"
    and n: "u29_val n * unat (struct_total sz) \<le> u29_val cnt" and new: "p0 \<notin> used_places (mg_arena m0)"
    and m: "built_ok ok owns m"
  shows "lasting m0 {ptr} (set (addr_list (addr p0 1) (W - 1))) m
    (\<lambda>m'. list_read m' b ptr \<lparr>ls_ptr = addr p0 1, ls_element_size = InlineComposite sz, ls_element_count = n\<rparr> d)"
proof -
  obtain s j P w loc c q where l: "p0 = addr (sdata s) j" "j + W \<le> sused s"
    "finds_by m P b ptr w loc c" "P \<inter> set (addr_list p0 W) = {}" "list_ptr w = Some q"
    "element_size q = PInlineComposite" "element_count q = (Ok cnt :: (rerror, u29) outcome)" "locates m loc c q s d j"
    "P \<subseteq> used_places (mg_arena m)" "P \<inter> used_places (mg_arena m0) \<subseteq> {ptr}"
    using lp unfolding list_placed_def by auto
  have "list_read m' b ptr \<lparr>ls_ptr = addr p0 1, ls_element_size = InlineComposite sz, ls_element_count = n\<rparr> d"
    if m': "later (insert p0 P) m m'" for m'
  proof -
    obtain s' where s': "locates m' loc c q s' d j" "as_segment s' = as_segment s" "sused s \<le> sused s'"
      by (rule locates_later [OF l(8) m'])
    have "finds m' b ptr w loc c" using l(3) later_subset [OF m'] by (auto simp: finds_by_def)
    moreover have "mem (mg_heap m') (addr (sdata s') j) = Some (word_of_parts (new_inline_composite_tag n sz))"
      using m' tag l(1) s'(2) by (simp add: later_def)
    moreover have "addr p0 1 = addr (sdata s') (Suc j)" using s'(2) by (simp add: l(1) addr_addr)
    ultimately show ?thesis
      using composite_list_read [OF _ l(5-7) s'(1) _ _ n, of b ptr] l(2) s'(3) W by simp
  qed
  moreover have "insert p0 P \<subseteq> used_places (mg_arena m)"
    using addr_used [OF m, of d s j] l(1,2,8,9) W by (auto simp: locates_def)
  moreover have "insert p0 P \<inter> set (addr_list (addr p0 1) (W - 1)) = {}"
    using l(4) tag_apart(1,3) [OF lp] by auto
  ultimately show ?thesis using l(10) new unfolding lasting_def by (intro exI [of _ "insert p0 P"]) auto
qed

context allocator
begin

lemma alloc_composite_result:
  fixes n cnt :: u29 and len :: nz29
  assumes m: "built_ok ok owns m" and b: "builds (mg_arena m) b s" and k: "k < sused s"
    and e: "e = InlineComposite sz" and t: "checked_add (total_words e n) 1 = Some t" "nz29_new t = Some len"
      "u29_new (total_words e n) = Some cnt"
  defines "res \<equiv> alloc_list alloc b (addr (sdata s) k) e n m"
  shows "built_ok ok owns (snd res) \<and> build_result (\<lambda>(start, len', d) m'. len' = u29_of_nz29 len \<and> (\<exists>p0. start = addr p0 1 \<and>
      fresh_object m (addr (sdata s) k) m' start (nz29_val len - 1) \<and>
      list_placed m m' b (addr (sdata s) k) e (if nz29_val len = 2 ^ 29 - 1 then n else cnt) (nz29_val len) p0 d \<and>
      mem (mg_heap m') p0 = Some (word_of_parts (new_inline_composite_tag n sz)) \<and> p0 \<notin> used_places (mg_arena m))) m res"
proof -
  let ?p = "addr (sdata s) k" and ?cnt = "if nz29_val len = 2 ^ 29 - 1 then n else cnt"
  have ic: "is_inline_composite e" by (simp add: e)
  have nz: "t \<noteq> 0" using t(2) nz29_val_bounds(1) [of len] by (auto simp: nz29_new_Some_iff)
  have res: "res = bbind (place_list alloc b ?p e n cnt len) (\<lambda>(start, b').
      bbind (place_tag b' start e n) (\<lambda>start'. bret (start', u29_of_nz29 len, b'))) m"
    using ic by (simp add: res_def alloc_list_def Let_def t nz)
  note pl = place_list_result [OF m b k, where e = e and n = n and cnt = cnt and len = len]
  obtain r m1 where r: "place_list alloc b ?p e n cnt len m = (r, m1)" by force
  show ?thesis
  proof (cases r)
    case (Ok x)
    obtain p0 d where x: "x = (p0, d)" by force
    have built1: "built_ok ok owns m1" and fr: "fresh_object m ?p m1 p0 (nz29_val len)"
      and lp: "list_placed m m1 b ?p e ?cnt (nz29_val len) p0 d"
      using pl by (simp_all add: r Ok x)
    obtain m2 where m2: "place_tag d p0 e n m1 = (Ok (addr p0 1), m2)"
      "m2 = m1\<lparr>mg_heap := put_words [p0] (Some (word_of_parts (new_inline_composite_tag n sz))) (mg_heap m1)\<rparr>"
      "built_ok ok owns m2" "list_placed m m2 b ?p e ?cnt (nz29_val len) p0 d" "p0 \<noteq> ?p"
      by (rule list_placed_tag [OF lp allocator_axioms built1 e nz29_val_bounds(1)])
    note ap = tag_apart [OF lp]
    have new: "p0 \<notin> used_places (mg_arena m)" using fr ap(2) nz29_val_bounds(1) [of len] by (auto simp: fresh_object_def)
    then have "fresh_object m ?p m2 (addr p0 1) (nz29_val len - 1)"
      using fr ap(1,3) m2(2) by (auto simp: fresh_object_def zeroed_def)
    moreover have "mem (mg_heap m2) p0 = Some (word_of_parts (new_inline_composite_tag n sz))" by (simp add: m2(2))
    moreover have "res = (Ok (addr p0 1, u29_of_nz29 len, d), m2)"
      unfolding res by (simp add: r Ok x m2(1))
    ultimately show ?thesis using m2(3,4) new by (simp only: snd_conv build_result_Ok prod.case) blast
  next
    case (Err er)
    then have "res = (Err er, m1)" unfolding res by (simp add: bbind_def r)
    then show ?thesis using pl by (simp add: r Err)
  qed (use pl in \<open>simp_all add: r build_result_def\<close>)
qed

lemma alloc_list_result:
  assumes m: "built_ok ok owns m" and b: "builds (mg_arena m) b s" and k: "k < sused s"
    and W: "list_object_words e (u29_val n) < 2 ^ 29"
  defines "res \<equiv> alloc_list alloc b (addr (sdata s) k) e n m"
  shows "built_ok ok owns (snd res) \<and> build_result (\<lambda>(start, len, d) m'. u29_val len = list_object_words e (u29_val n) \<and>
      fresh_object m (addr (sdata s) k) m' start (list_object_words e (u29_val n) - tag_words e) \<and>
      room m' d start (list_object_words e (u29_val n) - tag_words e) \<and>
      (\<not> (is_inline_composite e \<and> list_object_words e (u29_val n) = 2 ^ 29 - 1) \<longrightarrow>
         lasting m {addr (sdata s) k} (set (addr_list start (list_object_words e (u29_val n) - tag_words e))) m'
           (\<lambda>m'. list_read m' b (addr (sdata s) k) \<lparr>ls_ptr = start, ls_element_size = e, ls_element_count = n\<rparr> d))) m res"
proof -
  let ?p = "addr (sdata s) k" and ?W = "list_object_words e (u29_val n)"
  have "?W < 2 ^ 32" using W by simp
  then obtain t where t: "checked_add (total_words e n) (if is_inline_composite e then 1 else 0) = Some t"
    "unat t = ?W" "unat (total_words e n) + tag_words e = unat t" by (rule total_words_exact)
  show ?thesis
  proof (cases "is_inline_composite e")
    case True
    then obtain sz where e: "e = InlineComposite sz" by (cases e) auto
    have pos: "0 < ?W" by (simp add: e list_object_words_def)
    obtain len where len: "nz29_new t = Some len" "nz29_val len = ?W" using t(2) W pos by (simp add: nz29_new_eq)
    have tw: "Suc (unat (total_words e n)) = ?W" using t True by (simp add: tag_words_def)
    then obtain cnt where cnt: "u29_new (total_words e n) = Some cnt" "Suc (u29_val cnt) = ?W"
      using W by (simp add: u29_new_eq)
    have nW: "u29_val n * unat (struct_total sz) \<le> u29_val cnt"
      using cnt(2) by (simp add: e list_object_words_def unat_struct_total)
    have t1: "checked_add (total_words e n) 1 = Some t" using t(1) True by simp
    let ?cnt = "if nz29_val len = 2 ^ 29 - 1 then n else cnt"
    note ac = alloc_composite_result [OF m b k e t1 len(1) cnt(1), folded res_def]
    obtain r m1 where r: "res = (r, m1)" by force
    show ?thesis
    proof (cases r)
      case (Ok x)
      obtain start l d where x: "x = (start, l, d)" by (cases x) auto
      obtain p0 where p0: "start = addr p0 1" "fresh_object m ?p m1 start (nz29_val len - 1)"
        "list_placed m m1 b ?p e ?cnt (nz29_val len) p0 d"
        "mem (mg_heap m1) p0 = Some (word_of_parts (new_inline_composite_tag n sz))" "p0 \<notin> used_places (mg_arena m)"
        using ac unfolding r Ok x build_result_Ok prod.case by blast
      have "Suc (u29_val cnt) \<le> nz29_val len" using cnt(2) len(2) by simp
      have built1: "built_ok ok owns m1" using ac unfolding r Ok x by simp
      note rd = composite_list_lasting [OF _ \<open>Suc (u29_val cnt) \<le> nz29_val len\<close> p0(4) nW p0(5) built1, folded e p0(1)]
      have rm: "room m1 d start (?W - 1)" using list_placed_room(2) [OF p0(3)] pos len(2) p0(1) by simp
      have "lasting m {?p} (set (addr_list start (nz29_val len - 1))) m1
          (\<lambda>m'. list_read m' b ?p \<lparr>ls_ptr = start, ls_element_size = e, ls_element_count = n\<rparr> d)" if "?W \<noteq> 2 ^ 29 - 1"
        by (rule rd) (use p0(3) that len(2) in simp)
      moreover have "l = u29_of_nz29 len" "built_ok ok owns m1" using ac unfolding r Ok x by simp_all
      ultimately show ?thesis using p0(2) rm len(2) True unfolding r Ok x by (simp add: tag_words_def)
    next
      case (Err er)
      with ac show ?thesis by (simp add: r)
    qed (use ac in \<open>simp_all add: r build_result_def\<close>)
  next
    case flat: False
    show ?thesis
    proof (cases "?W = 0")
      case True
      then have z: "t = 0" using t(2) by (simp add: unat_eq_0)
      obtain v where v: "i30_from_i16 0 = (Ok v :: (rerror, i30) outcome)" "i30_val v = 0" by (rule i30_from_i16_0)
      note used = addr_used [OF m b k] and f = buildsD [OF b]
      let ?w = "word_of_parts (list_ptr_new v (as_ptr_size e) n)"
      let ?m = "m\<lparr>mg_heap := put_words [?p] (Some ?w) (mg_heap m)\<rparr>"
      have "set_ptr b ?p ?w m = (Ok (), ?m)"
        using set_ptr_addr [OF b, of k] used_place_mapped [OF m used] k f(3) by simp
      moreover have "as_ref_unchecked (ptr_offset ?p (u29_clip 1)) = Ok (addr (sdata s) (Suc k))"
        using addr_nonnull [OF f(5), of "Suc k"] f(3,4) k by (simp add: ptr_offset_addr addr_addr as_ref_unchecked_def)
      ultimately have "res = (Ok (addr (sdata s) (Suc k), u29_ZERO, b), ?m)"
        using t(1) flat by (simp add: res_def alloc_list_def Let_def z v(1))
      moreover have "built_ok ok owns ?m" by (rule write_built [OF m used])
      moreover have "room ?m b (addr (sdata s) (Suc k)) 0" by (rule roomI) (use b k in auto)
      moreover have "fresh_object m ?p ?m (addr (sdata s) (Suc k)) 0"
        by (simp add: fresh_object_def zeroed_def addr_list_def)
      moreover have "lasting m {?p} (set (addr_list (addr (sdata s) (Suc k)) 0)) ?m
          (\<lambda>m'. list_read m' b ?p \<lparr>ls_ptr = addr (sdata s) (Suc k), ls_element_size = e, ls_element_count = n\<rparr> b)"
      proof (rule flat_list_lasting [OF list_placedI])
        show "finds_by ?m {?p} b ?p ?w (Near ?p) b" by (rule finds_by_near) (simp_all add: ptr_kinds)
        show "locates ?m (Near ?p) b (list_ptr_new v (as_ptr_size e) n) s b (Suc k)"
          by (rule locatesI(1)) (use b v(2) new_offsets(2) in simp_all)
      qed (use flat True k used in \<open>auto simp: addr_list_def\<close>)
      ultimately show ?thesis using True by simp
    next
      case False
      then have nz: "t \<noteq> 0" "0 < ?W" using t(2) by (auto simp: unat_eq_0)
      obtain len where len: "nz29_new t = Some len" "nz29_val len = ?W" using t(2) W nz(2) by (simp add: nz29_new_eq)
      have tag: "place_tag d p0 e n = bret p0" for d p0 using flat by (cases e) (simp_all add: place_tag_def)
      have res: "res = bbind (place_list alloc b ?p e n n len) (\<lambda>(start, b'). bret (start, u29_of_nz29 len, b')) m"
        using t(1) flat nz(1) by (simp add: res_def alloc_list_def Let_def len(1) tag bbind_bret) (simp add: bget_def)
      note pl = place_list_result [OF m b k, where e = e and n = n and cnt = n and len = len]
      obtain r m1 where r: "place_list alloc b ?p e n n len m = (r, m1)" by force
      show ?thesis
      proof (cases r)
        case (Ok x)
        obtain p0 d where x: "x = (p0, d)" by force
        have "list_placed m m1 b ?p e n (nz29_val len) p0 d" using pl(2) by (simp add: r Ok x split: if_splits)
        then have "lasting m {?p} (set (addr_list p0 ?W)) m1
            (\<lambda>m'. list_read m' b ?p \<lparr>ls_ptr = p0, ls_element_size = e, ls_element_count = n\<rparr> d)" "room m1 d p0 ?W"
          using flat_list_lasting [OF _ flat len(2)] list_placed_room(1) len(2) by fastforce+
        moreover have "res = (Ok (p0, u29_of_nz29 len, d), m1)"
          unfolding res by (simp add: r Ok x)
        ultimately show ?thesis using pl len(2) flat by (simp add: r Ok x tag_words_def)
      next
        case (Err er)
        then have "res = (Err er, m1)" unfolding res by (simp add: bbind_def r)
        then show ?thesis using pl by (simp add: r Err)
      qed (use pl in \<open>simp_all add: r build_result_def\<close>)
    qed
  qed
qed

end

section \<open>Properties of what is built\<close>

abbreviation message_built :: "global growing scratch message \<Rightarrow> bool" where
  "message_built \<equiv> built_ok (scratch_inv (\<lambda>_ _. True) (\<lambda>_. {})) (scratch_owns (\<lambda>_. {}))"

text \<open>C14: a struct allocated for any pointer of a message is found again: readers and builders that follow
  the pointer get the struct where it was put and as large as asked for, whether it lies in the segment
  of the pointer or behind a landing pad in another. Its words are zeroed and were not in use, no other
  word in use changes, and the message stays well formed; else there is no memory, and nothing changes.\<close>

theorem built_struct_read:
  assumes "message_built m" and "builds (mg_arena m) b s" and "k < sused s"
  shows "let ptr = addr (sdata s) k; res = alloc_struct message_alloc b ptr sz m in
    message_built (snd res) \<and> build_result (\<lambda>(start, b') m'.
      fresh_object m ptr m' start (unat (struct_total sz)) \<and> struct_found m' b ptr sz start b') m res"
proof -
  obtain r m' where r: "alloc_struct message_alloc b (addr (sdata s) k) sz m = (r, m')" by force
  show ?thesis
    using scratch_growing.alloc_struct_found [OF assms, of sz] same_unchanged [of m' m]
    by (auto simp: r Let_def build_result_def split: outcome.splits dest: lasting_now)
qed

text \<open>C15: a list of any elements allocated for any pointer of a message, that fits in a segment and is not one of structs
  that fills it, is read again: readers that follow the pointer get a list of these elements, as many as asked for, at the place
  it was given, near or far. Its words are zeroed and were not in use, no other word in use
  changes, and the message stays well formed; else there is no memory, and nothing changes. A list that
  does not fit is refused with \<open>AllocTooLarge\<close>, as long as its size in words is below \<open>2 ^ 32\<close>. (Beyond that
  it may not be: \<open>alloc_list_overflows\<close>. Of building the list again nothing is said: \<open>empty_list_rebuild_panics\<close>.)\<close>

theorem built_list_read:
  assumes "message_built m" and "builds (mg_arena m) b s" and "k < sused s"
    and "list_object_words e (u29_val n) < 2 ^ 32"
    and "is_inline_composite e \<Longrightarrow> list_object_words e (u29_val n) \<noteq> 2 ^ 29 - 1"
  shows "let ptr = addr (sdata s) k; W = list_object_words e (u29_val n);
      res = alloc_list message_alloc b ptr e n m in
    if 2 ^ 29 \<le> W then res = (Err AllocTooLarge, m)
    else message_built (snd res) \<and> build_result (\<lambda>(start, len, d) m'. u29_val len = W \<and>
      fresh_object m ptr m' start (W - tag_words e) \<and>
      list_read m' b ptr \<lparr>ls_ptr = start, ls_element_size = e, ls_element_count = n\<rparr> d) m res"
proof (cases "2 ^ 29 \<le> list_object_words e (u29_val n)")
  case True
  obtain t where t: "checked_add (total_words e n) (if is_inline_composite e then 1 else 0) = Some t"
    "unat t = list_object_words e (u29_val n)" by (rule total_words_exact [OF assms(4)])
  have "t \<noteq> 0" "nz29_new t = None" using t(2) True by (auto simp: nz29_new_eq)
  then have "alloc_list message_alloc b (addr (sdata s) k) e n m = (Err AllocTooLarge, m)"
    using t(1) by (simp add: alloc_list_def Let_def) (simp add: bbind_def)
  with True show ?thesis by simp
next
  case False
  then have W: "list_object_words e (u29_val n) < 2 ^ 29" by simp
  have "\<not> (is_inline_composite e \<and> list_object_words e (u29_val n) = 2 ^ 29 - 1)" using assms(5) by blast
  with scratch_growing.alloc_list_result [OF assms(1-3) W] False show ?thesis
    by (auto simp: Let_def build_result_def split: outcome.splits prod.splits dest: lasting_now)
qed

text \<open>The size of a list of structs overflows. Where it does, and what is left of it fits in a segment,
  the list is built with only those words: a builder finds a list of all \<open>n\<close> elements at the place,
  though no segment can hold them.\<close>

lemma alloc_list_overflows:
  assumes "message_built m" and "builds (mg_arena m) b s" and "k < sused s"
    and "2 ^ 29 \<le> u29_val n * unat (struct_total sz)" and "u29_val n * unat (struct_total sz) mod 2 ^ 32 < 2 ^ 29 - 2"
  shows "build_result (\<lambda>(start, len, d) m'. u29_val len = Suc (u29_val n * unat (struct_total sz) mod 2 ^ 32) \<and>
      build_list m' b (addr (sdata s) k) =
        Ok (\<lparr>ls_ptr = start, ls_element_size = InlineComposite sz, ls_element_count = n\<rparr>, d)) m
    (alloc_list message_alloc b (addr (sdata s) k) (InlineComposite sz) n m)"
proof -
  let ?e = "InlineComposite sz" and ?T = "u29_val n * unat (struct_total sz) mod 2 ^ 32"
  let ?t = "total_words ?e n"
  have "(unat (bits ?e) * u29_val n + 63) div 64 = u29_val n * unat (struct_total sz)"
    by (simp add: unat_bits mult.assoc del: bits.simps)
  then have t: "unat ?t = ?T" by (simp only: unat_total_words)
  then have u: "unat (?t + 1) = Suc ?T" using assms(5) by (subst unat_add_no_wrap) simp_all
  have add: "checked_add ?t 1 = Some (?t + 1)" using t assms(5) by (simp add: checked_add_def)
  obtain len where len: "nz29_new (?t + 1) = Some len" "nz29_val len = Suc ?T"
    using u assms(5) by (simp add: nz29_new_eq)
  obtain cnt where cnt: "u29_new ?t = Some cnt" "u29_val cnt = ?T" using t assms(5) by (simp add: u29_new_eq)
  have small: "(if nz29_val len = 2 ^ 29 - 1 then n else cnt) = cnt" using len(2) assms(5) by simp
  have "Suc (u29_val cnt) \<le> nz29_val len" using len(2) cnt(2) by simp
  note build = list_placed_composite(2) [OF _ this]
  obtain r m' where r: "alloc_list message_alloc b (addr (sdata s) k) ?e n m = (r, m')" by force
  show ?thesis
    using scratch_growing.alloc_composite_result [OF assms(1-3) refl add len(1) cnt(1), unfolded small] build len(2)
    by (auto simp: r build_result_def split: outcome.splits)
qed

definition list_refused :: "'a message \<Rightarrow> object_builder \<Rightarrow> u64 \<Rightarrow> rerror \<Rightarrow> bool" where
  "list_refused m b ptr er \<longleftrightarrow> (\<forall>r. views (mg_arena m) b r \<longrightarrow>
     fst (try_read_list (mg_heap m) (arena_source (mg_arena m)) r ptr None None) = Err er)"

text \<open>A list of structs of two or more words that fills a segment is built with the number of its
  elements where its pointer should have the number of its words: no reader accepts it.\<close>

lemma segment_of_structs_unreadable:
  assumes "message_built m" and "builds (mg_arena m) b s" and "k < sused s"
    and "u29_val n * unat (struct_total sz) = 2 ^ 29 - 2" and "2 \<le> unat (struct_total sz)"
  shows "build_result (\<lambda>_ m'. list_refused m' b (addr (sdata s) k) InlineCompositeOverrun) m
    (alloc_list message_alloc b (addr (sdata s) k) (InlineComposite sz) n m)"
proof -
  let ?e = "InlineComposite sz"
  have W: "list_object_words ?e (u29_val n) = 2 ^ 29 - 1"
    using assms(4) by (simp add: list_object_words_def unat_struct_total)
  obtain t where t: "checked_add (total_words ?e n) 1 = Some t" "unat t = 2 ^ 29 - 1"
    "Suc (unat (total_words ?e n)) = unat t"
    by (rule total_words_exact [of ?e n]) (use W in \<open>auto simp: tag_words_def\<close>)
  obtain len where len: "nz29_new t = Some len" "nz29_val len = 2 ^ 29 - 1" using t(2) by (simp add: nz29_new_eq)
  obtain cnt where cnt: "u29_new (total_words ?e n) = Some cnt" using t(2,3) by (simp add: u29_new_eq)
  have n2: "u29_val n * 2 \<le> 2 ^ 29 - 2" using assms(4,5) by (metis mult_le_mono2)
  have lt: "u29_val n < u29_val n * unat (struct_total sz)" "Suc (u29_val n) \<le> nz29_val len"
    using n2 assms(4) len(2) by simp_all
  have full: "(if nz29_val len = 2 ^ 29 - 1 then n else cnt) = n" using len(2) by simp
  note over = list_placed_composite(1) [OF _ lt(2) _ lt(1)]
  obtain r m' where r: "alloc_list message_alloc b (addr (sdata s) k) ?e n m = (r, m')" by force
  show ?thesis
    using scratch_growing.alloc_composite_result [OF assms(1-3) refl t(1) len(1) cnt, unfolded full] over
    by (auto simp: r build_result_def list_refused_def split: outcome.splits)
qed

text \<open>An empty list whose pointer is the last word of its segment cannot be built on: finding its
  start, one word past the end, trips a debug assertion.\<close>

lemma empty_list_rebuild_panics:
  assumes "message_built m" and "builds (mg_arena m) b s" and "k < sused s" and "Suc k = scap s"
    and "\<not> is_inline_composite e" and "list_object_words e (u29_val n) = 0"
  shows "\<exists>m'. alloc_list message_alloc b (addr (sdata s) k) e n m = (Ok (addr (sdata s) (Suc k), u29_ZERO, b), m') \<and>
    build_list m' b (addr (sdata s) k) = Panic"
proof -
  let ?p = "addr (sdata s) k"
  obtain t where t: "checked_add (total_words e n) 0 = Some t" "t = 0"
    by (rule total_words_exact [of e n]) (use assms(5,6) in \<open>auto simp: unat_eq_0\<close>)
  obtain v where v: "i30_from_i16 0 = (Ok v :: (rerror, i30) outcome)" "i30_val v = 0" by (rule i30_from_i16_0)
  note used = addr_used [OF assms(1-3)] and f = buildsD [OF assms(2)]
  let ?w = "word_of_parts (list_ptr_new v (as_ptr_size e) n)"
  let ?m = "m\<lparr>mg_heap := put_words [?p] (Some ?w) (mg_heap m)\<rparr>"
  have b: "builds (mg_arena ?m) b s" using assms(2) by simp
  have "set_ptr b ?p ?w m = (Ok (), ?m)"
    using set_ptr_addr [OF assms(2), of k] used_place_mapped [OF assms(1) used] assms(3) f(3) by simp
  moreover have "as_ref_unchecked (ptr_offset ?p (u29_clip 1)) = Ok (addr (sdata s) (Suc k))"
    using addr_nonnull [OF f(5), of "Suc k"] f(3,4) assms(3) by (simp add: ptr_offset_addr addr_addr as_ref_unchecked_def)
  ultimately have "alloc_list message_alloc b ?p e n m = (Ok (addr (sdata s) (Suc k), u29_ZERO, b), ?m)"
    using t assms(5) by (simp add: alloc_list_def Let_def v(1))
  moreover have "build_list ?m b ?p = Panic"
  proof -
    have "int k + 1 + i30_val v = int (Suc k)" using v(2) by linarith
    then have "build_object_from_end_of ?m b ?p v = Panic"
      using check_ref_addr [OF b, of "Suc k"] assms(4)
      by (simp only: build_object_from_end_of_def signed_offset_addr) simp
    then show ?thesis
      using flat_sizes(2) [of e] assms(5)
      by (simp add: build_list_def locate_def locate_ptr_def deref_def far_ptr_def ptr_kinds try_list_ptr_def list_word
          build_at_def new_offsets(2))
  qed
  ultimately show ?thesis by blast
qed

section \<open>Witnesses\<close>

text \<open>The message of \<open>witness_arena\<close>, whose only word is its root, where the system has memory.\<close>

definition small_message :: "global growing scratch message" where
  "small_message = \<lparr>mg_arena = witness_arena, mg_heap = witness_heap\<lparr>choices := [Some 4096, Some 8192]\<rparr>\<rparr>"

abbreviation small_root :: arena_segment where
  "small_root \<equiv> arena_segment_new witness_space nz29_ONE 0"

lemma small_message_built: "message_built small_message"
proof -
  have s: "segs witness_arena = [small_root]" by (simp add: segs_def witness_arena_def)
  have "message_ok_arena witness_arena (witness_heap\<lparr>choices := cs\<rparr>)" for cs
    using witness_message
    by (simp add: arena_ok_def segs_ok_def seg_ok_def [abs_def] zeroed_def scratch_inv_def cong: segment_state.case_cong)
  then show ?thesis
    by (simp add: built_ok_def small_message_def ids_ok_def s) (simp add: arena_segment_new_def witness_space_def)
qed

lemma small_message_root: "builds (mg_arena small_message) 0 small_root" "sdata small_root = 64" "sused small_root = 1"
  "scap small_root = 1"
proof -
  have s: "segs witness_arena = [small_root]" by (simp add: segs_def witness_arena_def)
  show "sdata small_root = 64" "sused small_root = 1" "scap small_root = 1"
    by (simp_all add: arena_segment_new_def witness_space_def used_len_def)
  show "builds (mg_arena small_message) 0 small_root"
    by (simp add: builds_iff [OF small_message_built]) (simp add: small_message_def s arena_segment_new_def owned_def)
qed

text \<open>Its one word is in use, so every object is placed in a new segment.\<close>

lemma small_full: "alloc_in_segment 0 n small_message = (Ok None, small_message)"
proof -
  have u: "unat (nz29_inner nz29_ONE + nz29_inner n) = Suc (nz29_val n)"
    using nz29_val_bounds(2) [of n] by (subst unat_add_no_wrap) simp_all
  have at: "arena_segment_at witness_arena 0 = Some small_root"
    by (simp add: arena_segment_at_def witness_arena_def)
  have "try_use_len small_root n = Ok (None, small_root)"
    using u nz29_val_bounds(1) [of n]
    by (simp add: try_use_len_def arena_segment_new_def Let_def word_less_nat_alt witness_space_def)
  then show ?thesis
    by (simp add: alloc_in_segment_def use_len_def builder_segment_def small_message_def at expect_ok_def bbind_def
        scratch_growing.arena_put_same [OF at])
qed

lemma small_alloc:
  assumes "nz29_val n \<le> 2 ^ 16"
  shows "\<exists>m'. arena_allocate message_alloc n small_message = (Ok (Some (u29_ZERO, 1)), m')"
proof -
  have at: "arena_segment_at witness_arena 0 = Some small_root"
    by (simp add: arena_segment_at_def witness_arena_def)
  have u: "unat (nz29_inner nz29_ONE + nz29_inner n) = Suc (nz29_val n)"
    using nz29_val_bounds(2) [of n] by (subst unat_add_no_wrap) simp_all
  have use_root: "try_use_len small_root n = Ok (None, small_root)"
    using u nz29_val_bounds(1) [of n]
    by (simp add: try_use_len_def arena_segment_new_def Let_def word_less_nat_alt witness_space_def)
  have mx: "max n nz29_ONE = n" using nz29_val_bounds(1) [of n] by (auto simp: max_def nz29_le_iff nz29_eq_iff)
  have "free_range witness_heap 4096 (nz29_val n)"
  proof -
    have "addr 4096 k \<noteq> 64" if "k < nz29_val n" for k
    proof
      assume "addr 4096 k = 64"
      moreover have "unat (addr 4096 k) = unat (4096 :: u64) + 8 * k"
        by (rule unat_addr [of _ "nz29_val n"]) (use that assms in simp_all)
      ultimately show False by simp
    qed
    then show ?thesis using assms by (auto simp: free_range_def list_all_iff addr_list_def witness_heap_def)
  qed
  then have fr: "free_range (witness_heap\<lparr>choices := cs\<rparr>) 4096 (nz29_val n)" for cs
    by (simp add: free_range_def)
  have lay: "layout_array (nz29_val n) = Some (8 * nz29_val n)"
    using assms by (simp add: layout_array_def ISIZE_MAX_def)
  have sc: "sc_used (ar_alloc witness_arena)" "gr_next (sc_next (ar_alloc witness_arena)) = nz29_ONE"
    "last_owned witness_arena = 0" "tail witness_arena = []"
    by (simp_all add: witness_arena_def with_segment_def growing_new_def)
  have "\<exists>ar h. arena_alloc message_alloc witness_arena (witness_heap\<lparr>choices := [Some 4096, Some 8192]\<rparr>) n =
      Ok (Some (u29_ZERO, 1), ar, h)"
    by (simp add: arena_alloc_def sc at use_root arena_alloc_segment_def scratch_alloc_def growing_alloc_def Let_def mx
        global_alloc_def lay alloc_zeroed_def fr MAX_SEGMENTS_def)
  then show ?thesis by (auto simp: arena_allocate_def small_message_def)
qed

lemma small_arena_alloc:
  assumes "nz29_val n \<le> 2 ^ 16"
  obtains off m' where "alloc_in_arena message_alloc n small_message = (Ok (Some (addr (sdata (msegs m' ! unat (1 :: u32))) off, 1)), m')"
    "message_built m'" "took small_message (nz29_val n) 1 off m'"
proof -
  obtain m1 where m1: "arena_allocate message_alloc n small_message = (Ok (Some (u29_ZERO, 1)), m1)"
    using small_alloc [OF assms] by blast
  show thesis
    by (rule scratch_growing.alloc_in_arena_cases [OF small_message_built, of n])
       (use m1 that in \<open>auto simp: alloc_in_arena_def obind_def split: outcome.splits\<close>)
qed

text \<open>So objects that take words are allocated.\<close>

lemma small_place:
  assumes "0 < W" "W < 2 ^ 16"
  obtains lp c off m1 ov m2 m3 where "nz29_new (of_nat (Suc W)) = Some lp"
    "alloc_in_arena message_alloc lp small_message = (Ok (Some (addr (sdata (msegs m1 ! unat c)) off, c)), m1)"
    "as_ref_unchecked (ptr_offset (addr (sdata (msegs m1 ! unat c)) off) (u29_clip 1)) =
      Ok (addr (sdata (msegs m1 ! unat c)) (Suc off))"
    "offset_from_start m1 c (addr (sdata (msegs m1 ! unat c)) off) = Ok ov" "builder_id m1 c = Ok c"
    "set_ptr 0 64 (word_of_parts (far_ptr_new c ov False)) m1 = (Ok (), m2)"
    "set_ptr c (addr (sdata (msegs m1 ! unat c)) off) w m2 = (Ok (), m3)"
proof -
  have u: "unat (of_nat (Suc W) :: u32) = Suc W"
    using assms(2) by (simp add: unat_of_nat take_bit_nat_eq_self del: of_nat_Suc)
  then obtain lp where lp: "nz29_new (of_nat (Suc W)) = Some lp" "nz29_val lp = Suc W"
    using assms(2) by (simp add: nz29_new_eq del: of_nat_Suc)
  obtain off m1 where a: "alloc_in_arena message_alloc lp small_message = (Ok (Some (addr (sdata (msegs m1 ! unat (1 :: u32))) off, 1)), m1)"
    "message_built m1" "took small_message (nz29_val lp) 1 off m1"
    by (rule small_arena_alloc [of lp]) (use lp(2) assms(2) in auto)
  have t: "took small_message (Suc W) 1 off m1" using a(3) lp(2) by simp
  have pos: "0 < sused small_root" by (simp add: small_message_root)
  show thesis
  proof (rule scratch_growing.place_far [OF small_message_built small_message_root(1) pos a(2) t,
        unfolded small_message_root(2) addr_0], goal_cases)
    case (1 ov)
    from 1(4) [of w] obtain m2 m3 where "set_ptr 0 64 (word_of_parts (far_ptr_new 1 ov False)) m1 = (Ok (), m2)"
      "set_ptr 1 (addr (sdata (msegs m1 ! unat (1 :: u32))) off) w m2 = (Ok (), m3)" by (elim exE conjE) (rule that)
    with 1(1-3) a(1) lp(1) show thesis by (intro that)
  qed
qed

theorem built_struct_read_witness:
  "\<exists>start b' m'. alloc_struct message_alloc 0 64 \<lparr>ss_data = 1, ss_ptrs = 1\<rparr> small_message = (Ok (start, b'), m') \<and>
    message_built m' \<and> fresh_object small_message 64 m' start 2 \<and>
    struct_found m' 0 64 \<lparr>ss_data = 1, ss_ptrs = 1\<rparr> start b'"
proof -
  let ?sz = "\<lparr>ss_data = 1, ss_ptrs = 1\<rparr>"
  have tot: "struct_total ?sz = 2" by (simp add: struct_total_def)
  obtain z where z: "i30_from_i16 0 = (Ok z :: (rerror, i30) outcome)" by (rule i30_from_i16_0)
  obtain x m' where x: "alloc_struct message_alloc 0 64 ?sz small_message = (Ok x, m')"
    by (rule small_place [of 2 "word_of_parts (struct_ptr_new z ?sz)"])
       (auto simp: alloc_struct_def tot nz29_new_eq small_full nz29_new_unwrap_def z)
  have "0 < sused small_root" by (simp add: small_message_root)
  from built_struct_read [OF small_message_built small_message_root(1) this, of ?sz]
  show ?thesis
    by (cases x) (simp add: small_message_root(2) x tot Let_def)
qed

theorem built_list_read_witness:
  "\<exists>start len d m'. alloc_list message_alloc 0 64 FourBytes (u29_clip 3) small_message = (Ok (start, len, d), m') \<and>
    message_built m' \<and> u29_val len = 2 \<and> fresh_object small_message 64 m' start 2 \<and>
    list_read m' 0 64 \<lparr>ls_ptr = start, ls_element_size = FourBytes, ls_element_count = u29_clip 3\<rparr> d"
proof -
  let ?n = "u29_clip 3"
  have n: "u29_val ?n = 3" by simp
  have W: "list_object_words FourBytes (u29_val ?n) = 2" "list_object_words FourBytes 3 = 2"
    by (simp_all add: list_object_words_def)
  obtain t where t: "checked_add (total_words FourBytes ?n) 0 = Some t" "unat t = 2"
    by (rule total_words_exact [of FourBytes ?n]) (use W in auto)
  then have t2: "t = 2" by (simp add: word_unat_eq_iff)
  obtain z where z: "i30_from_i16 0 = (Ok z :: (rerror, i30) outcome)" by (rule i30_from_i16_0)
  obtain x m' where x: "alloc_list message_alloc 0 64 FourBytes ?n small_message = (Ok x, m')"
    by (rule small_place [of 2 "word_of_parts (list_ptr_new z PFourBytes ?n)"])
       (auto simp: alloc_list_def Let_def t t2 nz29_new_eq place_list_def place_tag_def small_full z)
  have pos: "0 < sused small_root" by (simp add: small_message_root)
  have "list_object_words FourBytes (u29_val ?n) < 2 ^ 32" using W by simp
  from built_list_read [OF small_message_built small_message_root(1) pos this] show ?thesis
    by (cases x) (simp add: small_message_root(2) x W Let_def tag_words_def del: u29_clip_inner)
qed

lemma alloc_list_overflows_witness:
  "let sz = \<lparr>ss_data = 32768, ss_ptrs = 32768\<rparr>; n = u29_clip 65536 in
   \<exists>start len d m'. alloc_list message_alloc 0 64 (InlineComposite sz) n small_message = (Ok (start, len, d), m') \<and>
     u29_val len = 1 \<and>
     build_list m' 0 64 = Ok (\<lparr>ls_ptr = start, ls_element_size = InlineComposite sz, ls_element_count = n\<rparr>, d)"
proof -
  let ?sz = "\<lparr>ss_data = 32768, ss_ptrs = 32768\<rparr>" and ?n = "u29_clip 65536"
  let ?e = "InlineComposite ?sz"
  have n: "u29_val ?n = 65536" by simp
  have tot: "unat (struct_total ?sz) = 65536" by (simp add: unat_struct_total)
  have "unat (total_words ?e ?n) = 0" using n tot by (simp add: unat_total_words unat_bits del: bits.simps u29_clip_inner)
  then have t: "total_words ?e ?n = 0" by (simp only: unat_eq_0)
  have cnt: "u29_new 0 = Some u29_ZERO" by (simp add: u29_new_Some_iff)
  have one: "nz29_new 1 = Some nz29_ONE" by (simp add: nz29_new_Some_iff)
  obtain z where z: "i30_from_i16 0 = (Ok z :: (rerror, i30) outcome)" by (rule i30_from_i16_0)
  obtain x m' where x: "place_list message_alloc 0 64 ?e ?n u29_ZERO nz29_ONE small_message = (Ok x, m')"
    by (rule small_place [of 1 "word_of_parts (list_ptr_new z PInlineComposite u29_ZERO)"])
       (auto simp: nz29_new_eq place_list_def small_full z numeral_2_eq_2 [symmetric])
  have pos: "0 < sused small_root" by (simp add: small_message_root)
  have al: "alloc_list message_alloc 0 64 ?e ?n small_message =
      bbind (place_list message_alloc 0 64 ?e ?n u29_ZERO nz29_ONE) (\<lambda>(start, b').
        bbind (place_tag b' start ?e ?n) (\<lambda>start'. bret (start', u29_of_nz29 nz29_ONE, b'))) small_message"
    by (simp add: alloc_list_def Let_def t checked_add_def one cnt)
  have "2 ^ 29 \<le> u29_val ?n * unat (struct_total ?sz)" "u29_val ?n * unat (struct_total ?sz) mod 2 ^ 32 < 2 ^ 29 - 2"
    unfolding n tot by simp_all
  note res = alloc_list_overflows [OF small_message_built small_message_root(1) pos this, unfolded small_message_root(2) addr_0]
  obtain r m2 where r: "alloc_list message_alloc 0 64 ?e ?n small_message = (r, m2)" by force
  obtain p0 d where pd: "x = (p0, d)" by force
  note pl = scratch_growing.place_list_result [OF small_message_built small_message_root(1) pos,
      where e = ?e and n = ?n and cnt = u29_ZERO and len = nz29_ONE, unfolded small_message_root(2) addr_0 x pd]
  have placed: "list_placed small_message m' 0 64 ?e (if nz29_val nz29_ONE = 2 ^ 29 - 1 then ?n else u29_ZERO) (nz29_val nz29_ONE) p0 d"
    and built: "message_built m'" using pl by simp_all
  obtain m3 where "place_tag d p0 ?e ?n m' = (Ok (addr p0 1), m3)"
    by (rule list_placed_tag [OF placed scratch_growing.allocator_axioms built refl nz29_val_bounds(1)])
  then have "alloc_list message_alloc 0 64 ?e ?n small_message = (Ok (addr p0 1, u29_of_nz29 nz29_ONE, d), m3)"
    by (simp only: al) (simp add: x pd)
  then show ?thesis using res by (simp add: n tot)
qed

text \<open>Lists of two-word structs, one element short of half of a segment.\<close>

lemma segment_of_structs_unreadable_witness:
  "let sz = \<lparr>ss_data = 1, ss_ptrs = 1\<rparr>; n = u29_clip (2 ^ 28 - 1) in
   build_result (\<lambda>_ m'. list_refused m' 0 64 InlineCompositeOverrun) small_message
     (alloc_list message_alloc 0 64 (InlineComposite sz) n small_message)"
proof -
  let ?sz = "\<lparr>ss_data = 1, ss_ptrs = 1\<rparr>" and ?n = "u29_clip (2 ^ 28 - 1)"
  have tot: "unat (struct_total ?sz) = 2" by (simp add: unat_struct_total)
  have n: "u29_val ?n = 2 ^ 28 - 1" by simp
  have pos: "0 < sused small_root" by (simp add: small_message_root)
  have "u29_val ?n * unat (struct_total ?sz) = 2 ^ 29 - 2" "2 \<le> unat (struct_total ?sz)" unfolding n tot by simp_all
  from segment_of_structs_unreadable [OF small_message_built small_message_root(1) pos this]
  show ?thesis by (simp only: small_message_root(2) addr_0 Let_def)
qed

lemma empty_list_rebuild_panics_witness:
  "\<exists>m'. alloc_list message_alloc 0 64 Byte u29_ZERO small_message = (Ok (72, u29_ZERO, 0), m') \<and> build_list m' 0 64 = Panic"
proof -
  have "0 < sused small_root" "Suc 0 = scap small_root" "\<not> is_inline_composite Byte"
    "list_object_words Byte (u29_val u29_ZERO) = 0"
    by (simp_all add: small_message_root list_object_words_def)
  from empty_list_rebuild_panics [OF small_message_built small_message_root(1) this]
  show ?thesis by (simp add: small_message_root(2) addr_def)
qed

end
