(* ===== verification/Data_Field.thy ===== *)
theory Data_Field
  imports Ptr_Reader Obj_Builder
begin

text \<open>
  The fields of a data section (\<^verbatim>\<open>recapn/src/ptr.rs\<close>: the trait \<open>Data\<close> with its implementations for
  \<open>bool\<close>, the integers and the floats, and the accessors of structs and lists over them). A value is
  stored as its difference from the default of the field, so that zeros mean the default. The locale
  \<open>wire_data\<close> is the contract of the trait.
\<close>

section \<open>Bytes of memory\<close>

text \<open>A word is aligned to its eight bytes: the byte at \<open>p\<close> is in the word at \<open>p AND NOT 7\<close>.\<close>

definition read_byte :: "heap \<Rightarrow> u64 \<Rightarrow> (rerror, u8) outcome" where
  "read_byte h p = obind (deref h (p AND NOT 7)) (\<lambda>w. Ok (word_bytes w ! unat (p AND 7)))"

definition write_byte :: "u64 \<Rightarrow> u8 \<Rightarrow> heap \<Rightarrow> (rerror, heap) outcome" where
  "write_byte p b h = obind (deref h (p AND NOT 7)) (\<lambda>w.
     Ok (put_words [p AND NOT 7] (Some (word_of_bytes ((word_bytes w)[unat (p AND 7) := b]))) h))"

fun read_bytes :: "heap \<Rightarrow> u64 \<Rightarrow> nat \<Rightarrow> (rerror, u8 list) outcome" where
  "read_bytes h p 0 = Ok []"
| "read_bytes h p (Suc n) = obind (read_byte h p) (\<lambda>b. obind (read_bytes h (p + 1) n) (\<lambda>bs. Ok (b # bs)))"

fun write_bytes :: "u64 \<Rightarrow> u8 list \<Rightarrow> heap \<Rightarrow> (rerror, heap) outcome" where
  "write_bytes p [] h = Ok h"
| "write_bytes p (b # bs) h = obind (write_byte p b h) (write_bytes (p + 1) bs)"

section \<open>The trait \<open>Data\<close>\<close>

definition bool_read_unchecked :: "heap \<Rightarrow> u64 \<Rightarrow> u64 \<Rightarrow> bool \<Rightarrow> (rerror, bool) outcome" where
  "bool_read_unchecked h ptr slot dflt =
     (let byte_offset = slot div 8; bit_num = slot mod 8 in
      obind (read_byte h (ptr + byte_offset)) (\<lambda>byte.
        let value = byte AND push_bit (unat bit_num) 1 \<noteq> 0 in Ok (value \<noteq> dflt)))"

definition bool_read :: "heap \<Rightarrow> u64 \<Rightarrow> u32 \<Rightarrow> u64 \<Rightarrow> bool \<Rightarrow> (rerror, bool) outcome" where
  "bool_read h ptr len_bytes slot dflt =
     (let byte_offset = slot div 8 in
      if byte_offset < ucast len_bytes then bool_read_unchecked h ptr slot dflt else Ok dflt)"

definition bool_write_unchecked :: "u64 \<Rightarrow> u64 \<Rightarrow> bool \<Rightarrow> bool \<Rightarrow> heap \<Rightarrow> (rerror, heap) outcome" where
  "bool_write_unchecked ptr slot value dflt h =
     (let written_value = (value \<noteq> dflt); byte_offset = slot div 8; bit_num = slot mod 8; byte = ptr + byte_offset in
      obind (read_byte h byte) (\<lambda>b.
        write_byte byte ((b AND NOT (push_bit (unat bit_num) 1)) OR push_bit (unat bit_num) (of_bool written_value)) h))"

definition bool_write :: "u64 \<Rightarrow> u32 \<Rightarrow> u64 \<Rightarrow> bool \<Rightarrow> bool \<Rightarrow> heap \<Rightarrow> (rerror, heap) outcome" where
  "bool_write ptr len slot value dflt h =
     (let byte_offset = slot div 8 in
      if byte_offset < ucast len then bool_write_unchecked ptr slot value dflt h else Ok h)"

text \<open>\<open>impl_int!\<close>. A signed integer is the word of its bits. Access to a misaligned value is undefined.\<close>

definition size_of :: "'a::len itself \<Rightarrow> nat" where
  "size_of _ = LENGTH('a) div 8"

definition wire_ref :: "nat \<Rightarrow> u64 \<Rightarrow> u64 \<Rightarrow> (rerror, u64) outcome" where
  "wire_ref n ptr slot = (let p = ptr + of_nat n * slot in if unat p mod n = 0 then Ok p else UB)"

definition int_read_unchecked :: "heap \<Rightarrow> u64 \<Rightarrow> u64 \<Rightarrow> 'a::len word \<Rightarrow> (rerror, 'a word) outcome" where
  "int_read_unchecked h ptr slot dflt =
     obind (wire_ref (size_of TYPE('a)) ptr slot) (\<lambda>data_ptr.
     obind (read_bytes h data_ptr (size_of TYPE('a))) (\<lambda>bs.
       Ok (le_word bs XOR dflt)))"

definition int_read :: "heap \<Rightarrow> u64 \<Rightarrow> u32 \<Rightarrow> u64 \<Rightarrow> 'a::len word \<Rightarrow> (rerror, 'a word) outcome" where
  "int_read h ptr len_bytes slot dflt =
     obind (unwrap (checked_mul slot (of_nat (size_of TYPE('a))))) (\<lambda>slot_byte_offset.
       if slot_byte_offset < ucast len_bytes then int_read_unchecked h ptr slot dflt else Ok dflt)"

definition int_write_unchecked :: "u64 \<Rightarrow> u64 \<Rightarrow> 'a::len word \<Rightarrow> 'a word \<Rightarrow> heap \<Rightarrow> (rerror, heap) outcome" where
  "int_write_unchecked ptr slot value dflt h =
     obind (wire_ref (size_of TYPE('a)) ptr slot) (\<lambda>data_ptr.
       write_bytes data_ptr (le_bytes (size_of TYPE('a)) (value XOR dflt)) h)"

definition int_write :: "u64 \<Rightarrow> u32 \<Rightarrow> u64 \<Rightarrow> 'a::len word \<Rightarrow> 'a word \<Rightarrow> heap \<Rightarrow> (rerror, heap) outcome" where
  "int_write ptr len_bytes slot value dflt h =
     obind (unwrap (checked_mul slot (of_nat (size_of TYPE('a))))) (\<lambda>slot_byte_offset.
       if slot_byte_offset < ucast len_bytes then int_write_unchecked ptr slot value dflt h else Ok h)"

text \<open>A float is the word \<open>to_bits\<close> gives, of 32 bits for an \<open>f32\<close> and of 64 for an \<open>f64\<close>.\<close>

datatype 'w float = from_bits (to_bits: 'w)

definition float_read :: "heap \<Rightarrow> u64 \<Rightarrow> u32 \<Rightarrow> u64 \<Rightarrow> 'a::len word float \<Rightarrow> (rerror, 'a word float) outcome" where
  "float_read h ptr len_bytes slot dflt =
     obind (int_read h ptr len_bytes slot (to_bits dflt)) (\<lambda>v. Ok (from_bits v))"

definition float_read_unchecked :: "heap \<Rightarrow> u64 \<Rightarrow> u64 \<Rightarrow> 'a::len word float \<Rightarrow> (rerror, 'a word float) outcome" where
  "float_read_unchecked h ptr slot dflt =
     obind (int_read_unchecked h ptr slot (to_bits dflt)) (\<lambda>v. Ok (from_bits v))"

definition float_write :: "u64 \<Rightarrow> u32 \<Rightarrow> u64 \<Rightarrow> 'a::len word float \<Rightarrow> 'a word float \<Rightarrow> heap \<Rightarrow> (rerror, heap) outcome" where
  "float_write ptr len_bytes slot value dflt h = int_write ptr len_bytes slot (to_bits value) (to_bits dflt) h"

definition float_write_unchecked :: "u64 \<Rightarrow> u64 \<Rightarrow> 'a::len word float \<Rightarrow> 'a word float \<Rightarrow> heap \<Rightarrow> (rerror, heap) outcome" where
  "float_write_unchecked ptr slot value dflt h =
     int_write_unchecked ptr slot (to_bits value) (to_bits dflt) h"

section \<open>Accessors\<close>

text \<open>The builders of structs and lists; each stands on the \<open>ObjectBuilder\<close> of its segment. An
  implementation of \<open>Data\<close> is passed as the function of it that the accessor calls.\<close>

record struct_builder =
  sb_builder :: object_builder
  sb_data_start :: u64
  sb_ptrs_start :: u64
  sb_data_len :: u32
  sb_ptrs_len :: u16

record list_builder =
  lb_builder :: object_builder
  lb_ptr :: u64
  lb_element_count :: u29
  lb_element_size :: elem_size

definition data_field_with_default ::
    "(heap \<Rightarrow> u64 \<Rightarrow> u32 \<Rightarrow> u64 \<Rightarrow> 'v \<Rightarrow> (rerror, 'v) outcome) \<Rightarrow> heap \<Rightarrow> struct_reader \<Rightarrow> u64 \<Rightarrow> 'v \<Rightarrow> (rerror, 'v) outcome" where
  "data_field_with_default rd h s slot dflt = rd h (sr_data_start s) (sr_data_len s) slot dflt"

definition builder_data_field_with_default ::
    "(heap \<Rightarrow> u64 \<Rightarrow> u32 \<Rightarrow> u64 \<Rightarrow> 'v \<Rightarrow> (rerror, 'v) outcome) \<Rightarrow> heap \<Rightarrow> struct_builder \<Rightarrow> u64 \<Rightarrow> 'v \<Rightarrow> (rerror, 'v) outcome" where
  "builder_data_field_with_default rd h s slot dflt = rd h (sb_data_start s) (sb_data_len s) slot dflt"

definition builder_data_field_unchecked ::
    "(heap \<Rightarrow> u64 \<Rightarrow> u64 \<Rightarrow> 'v \<Rightarrow> (rerror, 'v) outcome) \<Rightarrow> heap \<Rightarrow> struct_builder \<Rightarrow> u64 \<Rightarrow> 'v \<Rightarrow> (rerror, 'v) outcome" where
  "builder_data_field_unchecked rd h s slot dflt = rd h (sb_data_start s) slot dflt"

definition set_field_with_default ::
    "(u64 \<Rightarrow> u32 \<Rightarrow> u64 \<Rightarrow> 'v \<Rightarrow> 'v \<Rightarrow> heap \<Rightarrow> (rerror, heap) outcome) \<Rightarrow> struct_builder \<Rightarrow> u64 \<Rightarrow> 'v \<Rightarrow> 'v \<Rightarrow> heap \<Rightarrow>
      (rerror, heap) outcome" where
  "set_field_with_default wr s slot value dflt h = wr (sb_data_start s) (sb_data_len s) slot value dflt h"

definition set_field_unchecked ::
    "(u64 \<Rightarrow> u64 \<Rightarrow> 'v \<Rightarrow> 'v \<Rightarrow> heap \<Rightarrow> (rerror, heap) outcome) \<Rightarrow> struct_builder \<Rightarrow> u64 \<Rightarrow> 'v \<Rightarrow> 'v \<Rightarrow> heap \<Rightarrow>
      (rerror, heap) outcome" where
  "set_field_unchecked wr s slot value dflt h = wr (sb_data_start s) slot value dflt h"

text \<open>Elements of lists. The debug assertions ask for an element in the list and a list of the type's
  size \<open>e\<close> or of structs with data.\<close>

definition data_access_ok :: "elem_size \<Rightarrow> elem_size \<Rightarrow> u29 \<Rightarrow> u32 \<Rightarrow> bool" where
  "data_access_ok e list_size count index \<longleftrightarrow> index < u29_inner count \<and>
     (list_size = e \<or> (case list_size of InlineComposite sz \<Rightarrow> ss_data sz \<noteq> 0 | _ \<Rightarrow> False))"

definition data_unchecked ::
    "(heap \<Rightarrow> u64 \<Rightarrow> u64 \<Rightarrow> 'v \<Rightarrow> (rerror, 'v) outcome) \<Rightarrow> elem_size \<Rightarrow> 'v \<Rightarrow> heap \<Rightarrow> list_reader \<Rightarrow> u32 \<Rightarrow>
      (rerror, 'v) outcome" where
  "data_unchecked rd e dflt h l index =
     obind (assert_that (data_access_ok e (lr_element_size l) (lr_element_count l) index)) (\<lambda>_.
       if e = Bit then rd h (lr_ptr l) (ucast index) dflt
       else rd h (lr_ptr l + index_to_offset l index) 0 dflt)"

definition builder_index_to_offset :: "list_builder \<Rightarrow> u32 \<Rightarrow> u64" where
  "builder_index_to_offset l index = (ucast (bits (lb_element_size l)) * ucast index) div 8"

definition builder_data_unchecked ::
    "(heap \<Rightarrow> u64 \<Rightarrow> u64 \<Rightarrow> 'v \<Rightarrow> (rerror, 'v) outcome) \<Rightarrow> elem_size \<Rightarrow> 'v \<Rightarrow> heap \<Rightarrow> list_builder \<Rightarrow> u32 \<Rightarrow>
      (rerror, 'v) outcome" where
  "builder_data_unchecked rd e dflt h l index =
     obind (assert_that (data_access_ok e (lb_element_size l) (lb_element_count l) index)) (\<lambda>_.
       if e = Bit then rd h (lb_ptr l) (ucast index) dflt
       else rd h (lb_ptr l + builder_index_to_offset l index) 0 dflt)"

definition set_data_unchecked ::
    "(u64 \<Rightarrow> u64 \<Rightarrow> 'v \<Rightarrow> 'v \<Rightarrow> heap \<Rightarrow> (rerror, heap) outcome) \<Rightarrow> elem_size \<Rightarrow> 'v \<Rightarrow> list_builder \<Rightarrow> u32 \<Rightarrow> 'v \<Rightarrow> heap \<Rightarrow>
      (rerror, heap) outcome" where
  "set_data_unchecked wr e dflt l index value h =
     obind (assert_that (data_access_ok e (lb_element_size l) (lb_element_count l) index)) (\<lambda>_.
       if e = Bit then wr (lb_ptr l) (ucast index) value dflt h
       else wr (lb_ptr l + builder_index_to_offset l index) 0 value dflt h)"

section \<open>Memory as bytes and bits\<close>

definition live :: "heap \<Rightarrow> u64 \<Rightarrow> bool" where
  "live h p \<longleftrightarrow> mem h (p AND NOT 7) \<noteq> None"

definition byte_at :: "heap \<Rightarrow> u64 \<Rightarrow> u8" where
  "byte_at h p = word_bytes (the (mem h (p AND NOT 7))) ! unat (p AND 7)"

lemma unat_low: "unat (p AND 7 :: u64) = unat p mod 8"
proof -
  have "p AND 7 = take_bit 3 p" using take_bit_eq_mask [of 3 p] by (simp add: mask_eq_exp_minus_1)
  then have "unat (p AND 7) = take_bit 3 (unat p)" by (simp only: unsigned_take_bit_eq)
  then show ?thesis by (simp add: take_bit_eq_mod)
qed

lemma low_less: "unat (p AND 7 :: u64) < 8"
  by (simp add: unat_low)

lemma byte_address: "p = (p AND NOT 7) OR (p AND 7 :: u64)"
  by (rule bit_word_eqI) (auto simp: bit_simps)

lemma read_byte_live: "live h p \<Longrightarrow> read_byte h p = Ok (byte_at h p)"
  by (auto simp: live_def read_byte_def deref_def byte_at_def)

lemma write_byte_live:
  assumes "live h p"
  obtains h' where "write_byte p b h = Ok h'" "live h' = live h" "\<And>q. byte_at h' q = (if q = p then b else byte_at h q)"
    "\<And>x. x \<noteq> p AND NOT 7 \<Longrightarrow> mem h' x = mem h x" "choices h' = choices h"
proof -
  obtain w where w: "mem h (p AND NOT 7) = Some w" using assms by (auto simp: live_def)
  let ?w = "word_of_bytes ((word_bytes w)[unat (p AND 7) := b])"
  let ?h = "put_words [p AND NOT 7] (Some ?w) h"
  have "byte_at ?h q = (if q = p then b else byte_at h q)" for q
  proof (cases "q AND NOT 7 = p AND NOT 7")
    case True
    have "q = p \<longleftrightarrow> unat (p AND 7) = unat (q AND 7)"
      using byte_address [of p] byte_address [of q] True by (metis word_unat_eq_iff)
    with True w low_less [of p] show ?thesis by (auto simp: byte_at_def nth_list_update)
  next
    case False
    then show ?thesis by (auto simp: byte_at_def)
  qed
  with w show thesis
    by (intro that [of ?h]) (auto simp: write_byte_def deref_def live_def put_words_def fun_eq_iff)
qed

lemma of_nat_eq_u64: "i < 2 ^ 64 \<Longrightarrow> j < 2 ^ 64 \<Longrightarrow> (of_nat i :: u64) = of_nat j \<longleftrightarrow> i = j"
  by (simp add: word_of_nat_eq_iff take_bit_nat_eq_self)

lemma read_bytes_live:
  assumes "\<And>i. i < n \<Longrightarrow> live h (p + of_nat i)"
  shows "read_bytes h p n = Ok (map (\<lambda>i. byte_at h (p + of_nat i)) [0..<n])"
  using assms
proof (induction n arbitrary: p)
  case 0
  then show ?case by simp
next
  case (Suc n)
  have "read_bytes h (p + 1) n = Ok (map (\<lambda>i. byte_at h (p + 1 + of_nat i)) [0..<n])"
    by (rule Suc.IH) (use Suc.prems [of "Suc i" for i] in \<open>simp add: add.assoc\<close>)
  with Suc.prems [of 0] show ?case
    by (simp add: read_byte_live upt_conv_Cons map_Suc_upt [symmetric] add.assoc comp_def del: upt_Suc)
qed

lemma write_bytes_live:
  assumes "\<And>i. i < length bs \<Longrightarrow> live h (p + of_nat i)" "length bs \<le> 2 ^ 64"
  shows "\<exists>h'. write_bytes p bs h = Ok h' \<and> live h' = live h \<and> choices h' = choices h \<and>
    (\<forall>i < length bs. byte_at h' (p + of_nat i) = bs ! i) \<and>
    (\<forall>q. (\<forall>i < length bs. q \<noteq> p + of_nat i) \<longrightarrow> byte_at h' q = byte_at h q) \<and>
    (\<forall>x. (\<forall>i < length bs. x \<noteq> (p + of_nat i) AND NOT 7) \<longrightarrow> mem h' x = mem h x)"
  using assms
proof (induction bs arbitrary: p h)
  case Nil
  then show ?case by simp
next
  case (Cons b bs)
  obtain h1 where h1: "write_byte p b h = Ok h1" "live h1 = live h" "\<And>q. byte_at h1 q = (if q = p then b else byte_at h q)"
      "\<And>x. x \<noteq> p AND NOT 7 \<Longrightarrow> mem h1 x = mem h x" "choices h1 = choices h"
    by (rule write_byte_live [of h p b]) (use Cons.prems(1) [of 0] in auto)
  obtain h' where h': "write_bytes (p + 1) bs h1 = Ok h'" "live h' = live h1" "choices h' = choices h1"
      "\<forall>i < length bs. byte_at h' (p + 1 + of_nat i) = bs ! i"
      "\<forall>q. (\<forall>i < length bs. q \<noteq> p + 1 + of_nat i) \<longrightarrow> byte_at h' q = byte_at h1 q"
      "\<forall>x. (\<forall>i < length bs. x \<noteq> (p + 1 + of_nat i) AND NOT 7) \<longrightarrow> mem h' x = mem h1 x"
    using Cons.IH [of h1 "p + 1"] Cons.prems(1) [of "Suc i" for i] Cons.prems(2)
    by (auto simp: h1(2) add.assoc)
  have "p \<noteq> p + 1 + of_nat i" if "i < length bs" for i
  proof -
    have "(of_nat 0 :: u64) \<noteq> of_nat (Suc i)"
      using of_nat_eq_u64 [of 0 "Suc i"] that Cons.prems(2) by simp
    then have "1 + of_nat i \<noteq> (0 :: u64)" by simp
    then show ?thesis by (simp only: add.assoc add_cancel_right_right not_False_eq_True)
  qed
  then have "byte_at h' p = b" using h'(5) h1(3) by simp
  then have bytes: "byte_at h' (p + of_nat i) = (b # bs) ! i" if "i < length (b # bs)" for i
    using that h'(4) by (cases i) (auto simp: add.assoc)
  have others: "byte_at h' q = byte_at h q" if q: "\<forall>i < length (b # bs). q \<noteq> p + of_nat i" for q
  proof -
    have "q \<noteq> p + 1 + of_nat i" if "i < length bs" for i using q [rule_format, of "Suc i"] that by (simp add: add.assoc)
    moreover have "q \<noteq> p" using q [rule_format, of 0] by simp
    ultimately show ?thesis using h'(5) h1(3) by simp
  qed
  have words: "mem h' x = mem h x" if x: "\<forall>i < length (b # bs). x \<noteq> (p + of_nat i) AND NOT 7" for x
  proof -
    have "x \<noteq> (p + 1 + of_nat i) AND NOT 7" if "i < length bs" for i
      using x [rule_format, of "Suc i"] that by (simp add: add.assoc)
    moreover have "x \<noteq> p AND NOT 7" using x [rule_format, of 0] by simp
    ultimately show ?thesis using h'(6) h1(4) by simp
  qed
  have "write_bytes p (b # bs) h = Ok h'" "live h' = live h" "choices h' = choices h" using h1 h' by simp_all
  then show ?case
    by (intro exI [of _ h'] conjI allI impI) (assumption | erule bytes others words)+
qed

text \<open>A data section of \<open>len\<close> bytes, word by word, and its bits.\<close>

definition data_at :: "heap \<Rightarrow> u64 \<Rightarrow> nat \<Rightarrow> bool" where
  "data_at h p len \<longleftrightarrow> (\<forall>i < len. live h (p + of_nat i)) \<and> unat p mod 8 = 0 \<and> unat p + len \<le> 2 ^ 64"

definition data_bit :: "heap \<Rightarrow> u64 \<Rightarrow> nat \<Rightarrow> bool" where
  "data_bit h p i = bit (byte_at h (p + of_nat (i div 8))) (i mod 8)"

definition slot_bits :: "nat \<Rightarrow> heap \<Rightarrow> u64 \<Rightarrow> u64 \<Rightarrow> bool list" where
  "slot_bits width h p slot = map (\<lambda>i. data_bit h p (unat slot * width + i)) [0..<width]"

definition slot_in :: "nat \<Rightarrow> nat \<Rightarrow> u64 \<Rightarrow> bool" where
  "slot_in width len slot \<longleftrightarrow> unat slot * width + width \<le> 8 * len"

text \<open>Only the bits of one slot, and only the words they are in, may differ.\<close>

definition changes_slot :: "nat \<Rightarrow> u64 \<Rightarrow> nat \<Rightarrow> u64 \<Rightarrow> heap \<Rightarrow> heap \<Rightarrow> bool" where
  "changes_slot width p len slot h h' \<longleftrightarrow> live h' = live h \<and> choices h' = choices h \<and>
     (\<forall>i < 8 * len. i div width \<noteq> unat slot \<longrightarrow> data_bit h' p i = data_bit h p i) \<and>
     (\<forall>x. (\<forall>i < len. x \<noteq> (p + of_nat i) AND NOT 7) \<longrightarrow> mem h' x = mem h x)"

lemma data_at_changes: "changes_slot width p len slot h h' \<Longrightarrow> data_at h' p len = data_at h p len"
  by (simp add: changes_slot_def data_at_def)

section \<open>The contract of the trait\<close>

text \<open>An implementation reads a slot from its bits, which it writes so that the value is read back, and
  which mean the default where they are zero. Outside the section the default is read, and writing
  does nothing.\<close>

locale wire_data =
  fixes width :: nat and rdu :: "heap \<Rightarrow> u64 \<Rightarrow> u64 \<Rightarrow> 'v \<Rightarrow> (rerror, 'v) outcome"
    and rd :: "heap \<Rightarrow> u64 \<Rightarrow> u32 \<Rightarrow> u64 \<Rightarrow> 'v \<Rightarrow> (rerror, 'v) outcome"
    and wru :: "u64 \<Rightarrow> u64 \<Rightarrow> 'v \<Rightarrow> 'v \<Rightarrow> heap \<Rightarrow> (rerror, heap) outcome"
    and wr :: "u64 \<Rightarrow> u32 \<Rightarrow> u64 \<Rightarrow> 'v \<Rightarrow> 'v \<Rightarrow> heap \<Rightarrow> (rerror, heap) outcome"
    and decode :: "bool list \<Rightarrow> 'v \<Rightarrow> 'v"
  assumes width_pos: "0 < width"
    and read_slot: "data_at h p len \<Longrightarrow> slot_in width len slot \<Longrightarrow> rdu h p slot d = Ok (decode (slot_bits width h p slot) d)"
    and write_slot: "data_at h p len \<Longrightarrow> slot_in width len slot \<Longrightarrow>
      \<exists>h'. wru p slot v d h = Ok h' \<and> changes_slot width p len slot h h' \<and> decode (slot_bits width h' p slot) d = v"
    and decode_zero: "decode (replicate width False) d = d"
    and checked_read: "slot_in width (unat n) slot \<Longrightarrow> rd h p n slot d = rdu h p slot d"
    and checked_write: "slot_in width (unat n) slot \<Longrightarrow> wr p n slot v d h = wru p slot v d h"
    and outside: "8 * unat n \<le> unat slot * width \<Longrightarrow> unat slot * width < 2 ^ 64 \<Longrightarrow>
      rd h p n slot d = Ok d \<and> wr p n slot v d h = Ok h"
begin

lemma write_then_read:
  assumes "data_at h p (unat n)" "slot_in width (unat n) slot"
  shows "\<exists>h'. wr p n slot v d h = Ok h' \<and> changes_slot width p (unat n) slot h h' \<and> rd h' p n slot d = Ok v"
proof -
  obtain h' where h': "wru p slot v d h = Ok h'" "changes_slot width p (unat n) slot h h'"
      "decode (slot_bits width h' p slot) d = v"
    using write_slot [OF assms] by blast
  then have "data_at h' p (unat n)" using assms(1) by (simp add: data_at_changes)
  with h' assms(2) show ?thesis by (auto simp: checked_read checked_write read_slot)
qed

lemma read_same_bits:
  assumes "data_at h p (unat n)" "data_at h' p (unat n)" "slot_in width (unat n) slot"
    and "\<And>i. unat slot * width \<le> i \<Longrightarrow> i < unat slot * width + width \<Longrightarrow> data_bit h' p i = data_bit h p i"
  shows "rd h' p n slot d = rd h p n slot d"
proof -
  have "slot_bits width h' p slot = slot_bits width h p slot"
    using assms(4) by (simp add: slot_bits_def)
  then show ?thesis using assms(1-3) by (simp add: checked_read read_slot)
qed

lemma read_zeros:
  assumes "data_at h p (unat n)" "slot_in width (unat n) slot" "\<And>i. i < 8 * unat n \<Longrightarrow> \<not> data_bit h p i"
  shows "rd h p n slot d = Ok d"
proof -
  have "slot_bits width h p slot = replicate width False"
    using assms(2,3) by (auto simp: slot_bits_def slot_in_def list_eq_iff_nth_eq)
  then show ?thesis using assms(1,2) by (simp add: checked_read read_slot decode_zero)
qed

end

text \<open>Integers.\<close>

definition wire_int :: "'a::len itself \<Rightarrow> bool" where
  "wire_int _ \<longleftrightarrow> LENGTH('a) \<in> {8, 16, 32, 64}"

definition int_decode :: "bool list \<Rightarrow> 'a::len word \<Rightarrow> 'a word" where
  "int_decode xs d = horner_sum of_bool 2 xs XOR d"

lemma wire_int_size:
  assumes "wire_int TYPE('a::len)"
  shows "LENGTH('a) = 8 * size_of TYPE('a)" "0 < size_of TYPE('a)" "size_of TYPE('a) dvd 8"
  using assms by (auto simp: wire_int_def size_of_def)

lemma wire_ref_in:
  assumes "data_at h p len" "unat slot * n + n \<le> len" "n dvd 8" "0 < n"
  shows "wire_ref n p slot = Ok (p + of_nat (unat slot * n))"
    and "\<And>i. i < n \<Longrightarrow> live h (p + of_nat (unat slot * n) + of_nat i)"
proof -
  have eq: "of_nat n * slot = of_nat (unat slot * n)" by (simp add: mult.commute)
  have "unat p + unat slot * n < 2 ^ 64" using assms unfolding data_at_def by linarith
  then have "unat (p + of_nat (unat slot * n)) = unat p + unat slot * n"
    by (subst unat_add_no_wrap) (simp_all add: unat_of_nat take_bit_nat_eq_self del: of_nat_mult)
  moreover have "n dvd unat p"
    using assms(1,3) unfolding data_at_def by (meson dvd_trans mod_0_imp_dvd)
  ultimately have "unat (p + of_nat (unat slot * n)) mod n = 0" by simp
  then show "wire_ref n p slot = Ok (p + of_nat (unat slot * n))"
    by (simp add: wire_ref_def Let_def eq del: of_nat_mult)
  show "live h (p + of_nat (unat slot * n) + of_nat i)" if "i < n" for i
  proof -
    have "unat slot * n + i < len" using that assms(2) by linarith
    then have "live h (p + of_nat (unat slot * n + i))" using assms(1) unfolding data_at_def by blast
    then show ?thesis by (simp only: of_nat_add add.assoc)
  qed
qed

lemma slot_bits_bytes:
  assumes "i < 8 * n"
  shows "slot_bits (8 * n) h p slot ! i = bit (byte_at h (p + of_nat (unat slot * n) + of_nat (i div 8))) (i mod 8)"
proof -
  have "(unat slot * (8 * n) + i) div 8 = unat slot * n + i div 8" "(unat slot * (8 * n) + i) mod 8 = i mod 8"
    by (simp_all add: mult.left_commute [of _ 8])
  with assms show ?thesis by (simp add: slot_bits_def data_bit_def add.assoc)
qed

lemma le_word_slot:
  assumes "LENGTH('a::len) = 8 * n"
    and "\<And>i. i < n \<Longrightarrow> bs ! i = byte_at h (p + of_nat (unat slot * n) + of_nat i)" "length bs = n"
  shows "(le_word bs :: 'a word) = horner_sum of_bool 2 (slot_bits (8 * n) h p slot)"
proof (rule bit_word_eqI)
  fix i assume "i < LENGTH('a)"
  then have i: "i < 8 * n" "i div 8 < n" using assms(1) by auto
  have "length (slot_bits (8 * n) h p slot) = 8 * n" by (simp add: slot_bits_def)
  with i assms show "bit (le_word bs :: 'a word) i = bit (horner_sum of_bool 2 (slot_bits (8 * n) h p slot) :: 'a word) i"
    by (simp add: bit_le_word bit_horner_sum_bit_word_iff slot_bits_bytes)
qed

lemma int_read_slot:
  fixes d :: "'a::len word"
  assumes "wire_int TYPE('a)" "data_at h p len" "slot_in LENGTH('a) len slot"
  shows "int_read_unchecked h p slot d = Ok (int_decode (slot_bits LENGTH('a) h p slot) d)"
proof -
  note n = wire_int_size [OF assms(1)]
  let ?n = "size_of TYPE('a)" and ?q = "p + of_nat (unat slot * size_of TYPE('a))"
  have inn: "unat slot * ?n + ?n \<le> len" using assms(3) by (simp add: slot_in_def n(1))
  note ref = wire_ref_in [OF assms(2) inn n(3,2)]
  have rb: "read_bytes h ?q ?n = Ok (map (\<lambda>i. byte_at h (?q + of_nat i)) [0..<?n])"
    by (rule read_bytes_live) (rule ref(2))
  have "(le_word (map (\<lambda>i. byte_at h (?q + of_nat i)) [0..<?n]) :: 'a word) =
      horner_sum of_bool 2 (slot_bits (8 * ?n) h p slot)"
    by (rule le_word_slot [OF n(1)]) simp_all
  then show ?thesis
    by (simp only: int_read_unchecked_def ref(1) rb obind_simps int_decode_def n(1))
qed

lemma slot_of_bit:
  fixes i :: nat
  assumes "i div (8 * n) \<noteq> s" "j < n"
  shows "i div 8 \<noteq> s * n + j"
proof
  assume "i div 8 = s * n + j"
  then have "i div 8 div n = s" using assms(2) by simp
  with assms(1) show False by (simp add: div_mult2_eq)
qed

lemma int_write_slot:
  fixes d v :: "'a::len word"
  assumes "wire_int TYPE('a)" "data_at h p len" "slot_in LENGTH('a) len slot"
  shows "\<exists>h'. int_write_unchecked p slot v d h = Ok h' \<and> changes_slot LENGTH('a) p len slot h h' \<and>
    int_decode (slot_bits LENGTH('a) h' p slot) d = v"
proof -
  note n = wire_int_size [OF assms(1)]
  let ?n = "size_of TYPE('a)" and ?q = "p + of_nat (unat slot * size_of TYPE('a))"
  let ?bs = "le_bytes ?n (v XOR d)"
  have inn: "unat slot * ?n + ?n \<le> len" using assms(3) by (simp add: slot_in_def n(1))
  have small: "unat p + len \<le> 2 ^ 64" using assms(2) by (simp add: data_at_def)
  note ref = wire_ref_in [OF assms(2) inn n(3,2)]
  have "\<exists>h'. write_bytes ?q ?bs h = Ok h' \<and> live h' = live h \<and> choices h' = choices h \<and>
    (\<forall>i < length ?bs. byte_at h' (?q + of_nat i) = ?bs ! i) \<and>
    (\<forall>r. (\<forall>i < length ?bs. r \<noteq> ?q + of_nat i) \<longrightarrow> byte_at h' r = byte_at h r) \<and>
    (\<forall>x. (\<forall>i < length ?bs. x \<noteq> (?q + of_nat i) AND NOT 7) \<longrightarrow> mem h' x = mem h x)"
    by (rule write_bytes_live) (use ref(2) inn small in auto)
  then obtain h' where h': "write_bytes ?q ?bs h = Ok h'" "live h' = live h" "choices h' = choices h"
      "\<And>i. i < ?n \<Longrightarrow> byte_at h' (?q + of_nat i) = ?bs ! i"
      "\<And>r. (\<And>i. i < ?n \<Longrightarrow> r \<noteq> ?q + of_nat i) \<Longrightarrow> byte_at h' r = byte_at h r"
      "\<And>x. (\<And>i. i < ?n \<Longrightarrow> x \<noteq> (?q + of_nat i) AND NOT 7) \<Longrightarrow> mem h' x = mem h x"
    by (auto simp del: of_nat_mult)
  have at: "?q + of_nat j = p + of_nat (unat slot * ?n + j)" for j by (simp only: of_nat_add add.assoc)
  have bits: "data_bit h' p i = data_bit h p i" if "i < 8 * len" "i div LENGTH('a) \<noteq> unat slot" for i
  proof -
    have "p + of_nat (i div 8) \<noteq> ?q + of_nat j" if j: "j < ?n" for j
    proof -
      have "i div 8 \<noteq> unat slot * ?n + j"
        using slot_of_bit [of i ?n "unat slot" j] j \<open>i div LENGTH('a) \<noteq> unat slot\<close> by (simp add: n(1))
      moreover have "i div 8 < 2 ^ 64" "unat slot * ?n + j < 2 ^ 64"
        using small inn j \<open>i < 8 * len\<close> by linarith+
      ultimately have "(of_nat (i div 8) :: u64) \<noteq> of_nat (unat slot * ?n + j)" by (simp only: of_nat_eq_u64 not_False_eq_True)
      then show ?thesis by (simp only: at add_left_cancel not_False_eq_True)
    qed
    then have "byte_at h' (p + of_nat (i div 8)) = byte_at h (p + of_nat (i div 8))" by (rule h'(5))
    then show ?thesis by (simp only: data_bit_def)
  qed
  have words: "mem h' x = mem h x" if x: "\<forall>i < len. x \<noteq> (p + of_nat i) AND NOT 7" for x
  proof (rule h'(6))
    fix j assume "j < ?n"
    then have "unat slot * ?n + j < len" using inn by linarith
    with x show "x \<noteq> (?q + of_nat j) AND NOT 7" unfolding at by blast
  qed
  have "(le_word ?bs :: 'a word) = horner_sum of_bool 2 (slot_bits (8 * ?n) h' p slot)"
    by (rule le_word_slot [OF n(1)]) (use h'(4) in simp_all)
  then have "horner_sum of_bool 2 (slot_bits (8 * ?n) h' p slot) = v XOR d" using n(1) by simp
  then have "int_decode (slot_bits LENGTH('a) h' p slot) d = (v XOR d) XOR d"
    by (simp only: int_decode_def n(1))
  moreover have "(v XOR d) XOR d = v" by (rule bit_word_eqI) (auto simp: bit_simps)
  ultimately have "int_decode (slot_bits LENGTH('a) h' p slot) d = v" by simp
  moreover have "int_write_unchecked p slot v d h = Ok h'"
    by (simp only: int_write_unchecked_def ref(1) obind_simps h'(1))
  ultimately show ?thesis using h'(2,3) bits words by (auto simp: changes_slot_def)
qed

lemma int_checked:
  fixes d :: "'a::len word"
  assumes "wire_int TYPE('a)"
  shows "slot_in LENGTH('a) (unat n) slot \<Longrightarrow> int_read h p n slot d = int_read_unchecked h p slot d"
    and "slot_in LENGTH('a) (unat n) slot \<Longrightarrow> int_write p n slot v d h = int_write_unchecked p slot v d h"
    and "8 * unat n \<le> unat slot * LENGTH('a) \<Longrightarrow> unat slot * LENGTH('a) < 2 ^ 64 \<Longrightarrow>
      int_read h p n slot d = Ok d \<and> int_write p n slot v d h = Ok h"
proof -
  note s = wire_int_size [OF assms]
  let ?n = "size_of TYPE('a)"
  have len: "unat (ucast n :: u64) = unat n" "unat n < 2 ^ 32"
    using unsigned_less [of n] by (simp_all add: unsigned_ucast_eq take_bit_nat_eq_self)
  have "LENGTH('a) \<le> 64" using assms by (auto simp: wire_int_def)
  with s(1) have nn: "unat (of_nat ?n :: u64) = ?n" by (simp add: unat_of_nat take_bit_nat_eq_self)
  have mul: "checked_mul slot (of_nat ?n) = Some (slot * of_nat ?n)" "unat (slot * of_nat ?n) = unat slot * ?n"
    if "unat slot * ?n < 2 ^ 64"
    using that by (simp_all add: checked_mul_def nn unat_mult_no_wrap)
  show "int_read h p n slot d = int_read_unchecked h p slot d" if "slot_in LENGTH('a) (unat n) slot"
  proof -
    have i: "unat slot * ?n + ?n \<le> unat n" using that by (simp add: slot_in_def s(1))
    then have "unat slot * ?n < 2 ^ 64" using len(2) by simp
    note m = mul [OF this]
    have "slot * of_nat ?n < ucast n" unfolding word_less_nat_alt m(2) len(1) using i s(2) by linarith
    with m(1) show ?thesis by (simp add: int_read_def)
  qed
  show "int_write p n slot v d h = int_write_unchecked p slot v d h" if "slot_in LENGTH('a) (unat n) slot"
  proof -
    have i: "unat slot * ?n + ?n \<le> unat n" using that by (simp add: slot_in_def s(1))
    then have "unat slot * ?n < 2 ^ 64" using len(2) by simp
    note m = mul [OF this]
    have "slot * of_nat ?n < ucast n" unfolding word_less_nat_alt m(2) len(1) using i s(2) by linarith
    with m(1) show ?thesis by (simp add: int_write_def)
  qed
  show "int_read h p n slot d = Ok d \<and> int_write p n slot v d h = Ok h"
    if o: "8 * unat n \<le> unat slot * LENGTH('a)" "unat slot * LENGTH('a) < 2 ^ 64"
  proof -
    have "unat slot * (8 * ?n) < 2 ^ 64" using o(2) by (simp only: s(1))
    moreover have "unat slot * ?n \<le> unat slot * (8 * ?n)" by simp
    ultimately have "unat slot * ?n < 2 ^ 64" by linarith
    note m = mul [OF this]
    have "\<not> slot * of_nat ?n < ucast n" unfolding word_less_nat_alt m(2) len(1) using o(1) by (simp add: s(1))
    with m(1) show ?thesis by (simp add: int_read_def int_write_def)
  qed
qed

lemma int_decode_zero: "int_decode (replicate n False) d = d"
proof -
  have "(horner_sum of_bool 2 (replicate n False) :: 'a::len word) = 0" by (induction n) auto
  then show ?thesis by (simp add: int_decode_def)
qed

lemma int_wire_data:
  assumes "wire_int TYPE('a::len)"
  shows "wire_data LENGTH('a) int_read_unchecked int_read int_write_unchecked int_write (int_decode :: bool list \<Rightarrow> 'a word \<Rightarrow> 'a word)"
  by unfold_locales
     (simp_all add: int_read_slot [OF assms] int_write_slot [OF assms] int_decode_zero int_checked [OF assms])

interpretation u8: wire_data 8 int_read_unchecked int_read int_write_unchecked int_write "int_decode :: bool list \<Rightarrow> u8 \<Rightarrow> u8"
  using int_wire_data [where 'a = 8] by (simp add: wire_int_def)

interpretation u16: wire_data 16 int_read_unchecked int_read int_write_unchecked int_write "int_decode :: bool list \<Rightarrow> u16 \<Rightarrow> u16"
  using int_wire_data [where 'a = 16] by (simp add: wire_int_def)

interpretation u32: wire_data 32 int_read_unchecked int_read int_write_unchecked int_write "int_decode :: bool list \<Rightarrow> u32 \<Rightarrow> u32"
  using int_wire_data [where 'a = 32] by (simp add: wire_int_def)

interpretation u64: wire_data 64 int_read_unchecked int_read int_write_unchecked int_write "int_decode :: bool list \<Rightarrow> u64 \<Rightarrow> u64"
  using int_wire_data [where 'a = 64] by (simp add: wire_int_def)

text \<open>Floats.\<close>

lemma float_wire_data:
  assumes "wire_int TYPE('a::len)"
  shows "wire_data LENGTH('a) float_read_unchecked float_read float_write_unchecked float_write
    (\<lambda>xs d. from_bits (int_decode xs (to_bits d)) :: 'a word float)"
proof -
  have w: "wire_data LENGTH('a) int_read_unchecked int_read int_write_unchecked int_write
      (int_decode :: bool list \<Rightarrow> 'a word \<Rightarrow> 'a word)" by (rule int_wire_data [OF assms])
  show ?thesis
  proof (unfold_locales, goal_cases)
    case (3 h p len slot v d)
    then show ?case
      using wire_data.write_slot [OF w, of h p len slot "to_bits v" "to_bits d"]
      by (auto simp: float_write_unchecked_def)
  qed (simp_all add: float_read_unchecked_def float_read_def float_write_unchecked_def float_write_def int_decode_zero
    int_read_slot [OF assms] int_checked [OF assms])
qed

interpretation f32: wire_data 32 float_read_unchecked float_read float_write_unchecked float_write
    "\<lambda>xs d. from_bits (int_decode xs (to_bits d)) :: u32 float"
  using float_wire_data [where 'a = 32] by (simp add: wire_int_def)

interpretation f64: wire_data 64 float_read_unchecked float_read float_write_unchecked float_write
    "\<lambda>xs d. from_bits (int_decode xs (to_bits d)) :: u64 float"
  using float_wire_data [where 'a = 64] by (simp add: wire_int_def)

text \<open>Booleans.\<close>

lemma bool_slot:
  assumes "data_at h p len" "slot_in 1 len slot"
  shows "live h (p + slot div 8)" and "p + slot div 8 = p + of_nat (unat slot div 8)"
    and "unat (slot mod 8) = unat slot mod 8" "unat slot div 8 < len" "len \<le> 2 ^ 64"
proof -
  have d: "unat (slot div 8) = unat slot div 8" by (simp add: unat_div_distrib)
  have "slot div 8 = of_nat (unat (slot div 8))" by simp
  also have "\<dots> = of_nat (unat slot div 8)" by (simp only: d)
  finally show eq: "p + slot div 8 = p + of_nat (unat slot div 8)" by simp
  show "unat (slot mod 8) = unat slot mod 8" by (simp add: unat_mod_distrib)
  show lt: "unat slot div 8 < len" using assms(2) by (simp add: slot_in_def)
  show "live h (p + slot div 8)" using assms(1) lt unfolding eq data_at_def by blast
  show "len \<le> 2 ^ 64" using assms(1) by (simp add: data_at_def)
qed

lemma bool_read_slot:
  assumes "data_at h p len" "slot_in 1 len slot"
  shows "bool_read_unchecked h p slot d = Ok (List.hd (slot_bits 1 h p slot) \<noteq> d)"
proof -
  note b = bool_slot [OF assms]
  have "List.hd (slot_bits 1 h p slot) = bit (byte_at h (p + slot div 8)) (unat (slot mod 8))"
    by (simp only: b(2,3)) (simp add: slot_bits_def data_bit_def)
  then show ?thesis
    by (simp add: bool_read_unchecked_def Let_def read_byte_live [OF b(1)] bit_iff_and_push_bit_not_eq_0)
qed

lemma bool_write_slot:
  assumes "data_at h p len" "slot_in 1 len slot"
  shows "\<exists>h'. bool_write_unchecked p slot v d h = Ok h' \<and> changes_slot 1 p len slot h h' \<and>
    (List.hd (slot_bits 1 h' p slot) \<noteq> d) = v"
proof -
  note b = bool_slot [OF assms]
  let ?q = "p + slot div 8" and ?k = "unat (slot mod 8)"
  let ?b = "(byte_at h ?q AND NOT (push_bit ?k 1)) OR push_bit ?k (of_bool (v \<noteq> d))"
  obtain h' where h': "write_byte ?q ?b h = Ok h'" "live h' = live h"
      "\<And>r. byte_at h' r = (if r = ?q then ?b else byte_at h r)"
      "\<And>x. x \<noteq> ?q AND NOT 7 \<Longrightarrow> mem h' x = mem h x" "choices h' = choices h"
    by (rule write_byte_live [OF b(1), where b = ?b]) (rule that)
  have k: "?k < 8" by (simp add: b(3))
  have bit: "bit ?b j \<longleftrightarrow> (if j = ?k then v \<noteq> d else bit (byte_at h ?q) j)" if "j < 8" for j
    using that k by (auto simp: bit_simps)
  have bits: "data_bit h' p i = (if i = unat slot then v \<noteq> d else data_bit h p i)" if "i < 8 * len" for i
  proof (cases "i div 8 = unat slot div 8")
    case True
    then have "i mod 8 = ?k \<longleftrightarrow> i = unat slot" by (metis b(3) div_mod_decomp)
    with True show ?thesis
      using bit [of "i mod 8"] by (simp add: data_bit_def h'(3) b(2) [symmetric])
  next
    case False
    have "i div 8 < 2 ^ 64" "unat slot div 8 < 2 ^ 64" using that b(4,5) by linarith+
    then have "(of_nat (i div 8) :: u64) \<noteq> of_nat (unat slot div 8)" using False by (simp only: of_nat_eq_u64 not_False_eq_True)
    then have "p + of_nat (i div 8) \<noteq> ?q" by (simp only: b(2) add_left_cancel not_False_eq_True)
    with False show ?thesis by (auto simp: data_bit_def h'(3))
  qed
  have "mem h' x = mem h x" if "\<forall>i < len. x \<noteq> (p + of_nat i) AND NOT 7" for x
    using that b(4) by (intro h'(4)) (simp only: b(2), blast)
  then have "changes_slot 1 p len slot h h'"
    using h'(2,5) bits by (auto simp: changes_slot_def)
  moreover have "List.hd (slot_bits 1 h' p slot) = (v \<noteq> d)"
    using bits [of "unat slot"] assms(2) by (simp add: slot_bits_def slot_in_def)
  moreover have "bool_write_unchecked p slot v d h = Ok h'"
    using h'(1) by (simp add: bool_write_unchecked_def Let_def read_byte_live [OF b(1)])
  ultimately show ?thesis by auto
qed

lemma bool_checked:
  "slot_in 1 (unat n) slot \<Longrightarrow> bool_read h p n slot d = bool_read_unchecked h p slot d"
  "slot_in 1 (unat n) slot \<Longrightarrow> bool_write p n slot v d h = bool_write_unchecked p slot v d h"
  "8 * unat n \<le> unat slot \<Longrightarrow> bool_read h p n slot d = Ok d \<and> bool_write p n slot v d h = Ok h"
proof -
  have len: "unat (ucast n :: u64) = unat n"
    using unsigned_less [of n] by (simp add: unsigned_ucast_eq take_bit_nat_eq_self)
  have "slot div 8 < ucast n \<longleftrightarrow> unat slot < 8 * unat n"
    by (simp add: word_less_nat_alt len unat_div_distrib less_mult_imp_div_less) linarith
  then show "slot_in 1 (unat n) slot \<Longrightarrow> bool_read h p n slot d = bool_read_unchecked h p slot d"
    "slot_in 1 (unat n) slot \<Longrightarrow> bool_write p n slot v d h = bool_write_unchecked p slot v d h"
    "8 * unat n \<le> unat slot \<Longrightarrow> bool_read h p n slot d = Ok d \<and> bool_write p n slot v d h = Ok h"
    by (simp_all add: bool_read_def bool_write_def slot_in_def)
qed

interpretation bools: wire_data 1 bool_read_unchecked bool_read bool_write_unchecked bool_write "\<lambda>xs d. List.hd xs \<noteq> d"
  by unfold_locales (use bool_read_slot bool_write_slot bool_checked in simp_all)

section \<open>Sections made of words\<close>

lemma low_bits_cleared: "q AND NOT 7 = q - (q AND 7)" for q :: u64
proof -
  have "(q AND NOT 7) + (q AND 7) = (q AND NOT 7) OR (q AND 7)"
    by (rule disjunctive_add) (auto simp: bit_simps)
  with byte_address [of q] show ?thesis by (simp add: eq_diff_eq)
qed

lemma word_of_byte:
  assumes "unat p mod 8 = 0" "unat p + j < 2 ^ 64"
  shows "(p + of_nat j) AND NOT 7 = addr p (j div 8)" and "unat ((p + of_nat j) AND 7) = j mod 8"
proof -
  have "unat (p + of_nat j) = unat p + j"
    using assms(2) by (subst unat_add_no_wrap) (simp_all add: unat_of_nat take_bit_nat_eq_self)
  moreover have "(unat p + j) mod 8 = j mod 8"
    using mod_add_left_eq [of "unat p" 8 j] assms(1) by simp
  ultimately show low: "unat ((p + of_nat j) AND 7) = j mod 8" by (simp only: unat_low)
  have "(p + of_nat j) AND 7 = of_nat (unat ((p + of_nat j) AND 7))" by (simp only: of_nat_unat ucast_id)
  then have "(p + of_nat j) AND 7 = of_nat (j mod 8)" by (simp only: low)
  then have "(p + of_nat j) AND NOT 7 = p + (of_nat j - of_nat (j mod 8))" by (simp only: low_bits_cleared) simp
  also have "(of_nat j :: u64) - of_nat (j mod 8) = of_nat (j - j mod 8)" by (simp only: of_nat_diff mod_less_eq_dividend)
  also have "j - j mod 8 = 8 * (j div 8)" by (rule minus_mod_eq_mult_div)
  finally show "(p + of_nat j) AND NOT 7 = addr p (j div 8)" by (simp add: addr_def)
qed

lemma data_at_words:
  assumes "unat p mod 8 = 0" "unat p + 8 * n \<le> 2 ^ 64" "\<And>i. i < n \<Longrightarrow> mem h (addr p i) \<noteq> None"
  shows "data_at h p (8 * n)"
proof -
  have "live h (p + of_nat j)" if "j < 8 * n" for j
  proof -
    have "unat p + j < 2 ^ 64" "j div 8 < n" using that assms(2) by auto
    then show ?thesis using assms(3) unfolding live_def by (simp only: word_of_byte [OF assms(1)] not_False_eq_True)
  qed
  then show ?thesis using assms by (simp add: data_at_def)
qed

lemma data_bit_words:
  assumes "unat p mod 8 = 0" "unat p + 8 * n \<le> 2 ^ 64" "i < 64 * n" "mem h (addr p (i div 64)) = Some w"
  shows "data_bit h p i = bit (word_bytes w ! (i div 8 mod 8)) (i mod 8)"
proof -
  have "unat p + i div 8 < 2 ^ 64" using assms(2,3) by linarith
  note a = word_of_byte [OF assms(1) this]
  have "i div 8 div 8 = i div 64" by (simp add: div_mult2_eq [symmetric])
  with a assms(4) show ?thesis unfolding data_bit_def byte_at_def by (simp only: option.sel)
qed

lemma zeroed_bits:
  assumes "unat p mod 8 = 0" "unat p + 8 * n \<le> 2 ^ 64" "zeroed h (set (addr_list p n))" "i < 64 * n"
  shows "\<not> data_bit h p i"
proof -
  have "i div 64 < n" using assms(4) by linarith
  then have "mem h (addr p (i div 64)) = Some Word_NULL" using assms(3) by (auto simp: zeroed_def addr_list_def)
  moreover have "word_bytes Word_NULL ! (i div 8 mod 8) = 0" by (simp add: word_bytes_NULL)
  ultimately show ?thesis using data_bit_words [OF assms(1,2,4)] by simp
qed

section \<open>Properties\<close>

lemma slot_in_whole_words:
  fixes w n m :: nat
  assumes "w \<in> {8, 16, 32, 64}" "8 dvd n" "s * w < 8 * n"
  shows "s * w + w \<le> 8 * n"
proof -
  obtain k where "n = 8 * k" using assms(2) by blast
  with assms(1,3) show ?thesis by auto
qed

text \<open>C21: a field of the data section of a struct being built. An integer written to a slot in the section is read
  back, and only the bits of that slot change; the same holds of booleans. Outside the section the
  default is read and writing changes nothing.\<close>

theorem struct_fields:
  fixes v d :: "'a::len word"
  assumes "wire_int TYPE('a)" and "data_at h (sb_data_start s) (unat (sb_data_len s))" and "8 dvd unat (sb_data_len s)"
    and "unat slot * LENGTH('a) < 2 ^ 64"
  shows "let n = unat (sb_data_len s) in
    (if unat slot * LENGTH('a) < 8 * n then \<exists>h'. set_field_with_default int_write s slot v d h = Ok h' \<and>
        builder_data_field_with_default int_read h' s slot d = Ok v \<and> changes_slot LENGTH('a) (sb_data_start s) n slot h h'
     else set_field_with_default int_write s slot v d h = Ok h \<and> builder_data_field_with_default int_read h s slot d = Ok d) \<and>
    (if unat slot < 8 * n then \<exists>h'. set_field_with_default bool_write s slot b c h = Ok h' \<and>
        builder_data_field_with_default bool_read h' s slot c = Ok b \<and> changes_slot 1 (sb_data_start s) n slot h h'
     else set_field_with_default bool_write s slot b c h = Ok h \<and> builder_data_field_with_default bool_read h s slot c = Ok c)"
proof -
  note w = int_wire_data [OF assms(1)]
  let ?n = "unat (sb_data_len s)"
  have "slot_in LENGTH('a) ?n slot" if "unat slot * LENGTH('a) < 8 * ?n"
    using slot_in_whole_words [OF _ assms(3) that] assms(1) by (simp add: wire_int_def slot_in_def)
  moreover have "slot_in 1 ?n slot" if "unat slot < 8 * ?n" using that by (simp add: slot_in_def)
  moreover have "unat slot < 2 ^ 64" using unsigned_less [of slot] by simp
  ultimately show ?thesis
    using wire_data.write_then_read [OF w assms(2), of slot v d] wire_data.outside [OF w]
      bools.write_then_read [OF assms(2), of slot b c] bools.outside assms(4)
    by (auto simp: set_field_with_default_def builder_data_field_with_default_def Let_def not_less)
qed

lemma byte_index: "lr_element_size l = Byte \<Longrightarrow> index_to_offset l i = ucast i"
proof -
  assume "lr_element_size l = Byte"
  moreover have "unat (ucast i :: u64) < 2 ^ 32"
    using unsigned_less [of i] by (simp add: unsigned_ucast_eq take_bit_nat_eq_self)
  then have "unat (8 * ucast i :: u64) = 8 * unat (ucast i :: u64)" by (simp add: unat_mult_no_wrap)
  then have "unat (8 * ucast i div 8 :: u64) = unat (ucast i :: u64)" by (simp add: unat_div_distrib)
  then have "8 * ucast i div 8 = (ucast i :: u64)" by (rule unsigned_word_eqI)
  ultimately show ?thesis by (simp add: index_to_offset_def)
qed

text \<open>A list of bytes read as a list of structs. The check of a field against its data section looks at the
  first byte only: a field of two bytes of the struct at \<open>index\<close>, which has one byte of data, is not the
  default but takes in the byte of the next struct, or is misaligned.\<close>

lemma short_section_overread:
  assumes "lr_element_size l = Byte" and "struct_unchecked l index = Ok s"
    and "live h (sr_data_start s)" and "live h (sr_data_start s + 1)"
  shows "sr_data_start s = lr_ptr l + ucast index \<and> sr_data_len s = 1 \<and>
    data_field_with_default int_read h s 0 (d :: u16) =
      (if even (unat (sr_data_start s))
       then Ok (le_word [byte_at h (sr_data_start s), byte_at h (sr_data_start s + 1)] XOR d) else UB)"
proof -
  have s: "sr_data_start s = lr_ptr l + ucast index" "sr_data_len s = 1"
    using assms(1,2) byte_index [OF assms(1)]
    by (auto simp: struct_unchecked_def obind_Ok_iff as_ref_unchecked_def Let_def split: if_splits)
  let ?p = "sr_data_start s"
  have size: "size_of TYPE(16) = 2" by (simp add: size_of_def)
  have "read_bytes h ?p 2 = Ok [byte_at h ?p, byte_at h (?p + 1)]"
    using assms(3,4) by (simp add: numeral_2_eq_2 read_byte_live)
  moreover have "wire_ref 2 ?p 0 = (if even (unat ?p) then Ok ?p else UB)"
    by (simp add: wire_ref_def even_iff_mod_2_eq_zero)
  moreover have "checked_mul (0 :: u64) (of_nat 2) = Some 0" by (simp add: checked_mul_def)
  ultimately show ?thesis
    by (simp add: s data_field_with_default_def int_read_def int_read_unchecked_def size)
qed

section \<open>Witnesses\<close>

definition bytes_heap :: heap where
  "bytes_heap = \<lparr>mem = [64 \<mapsto> Word 1 2 3 4 5 6 7 8], choices = []\<rparr>"

definition bytes_struct :: struct_builder where
  "bytes_struct = \<lparr>sb_builder = 0, sb_data_start = 64, sb_ptrs_start = 72, sb_data_len = 8, sb_ptrs_len = 0\<rparr>"

definition bytes_list :: list_reader where
  "bytes_list = \<lparr>lr_ptr = 64, lr_reader = \<lparr>or_segment = None\<rparr>, lr_element_count = u29_clip 8, lr_nesting = 9,
     lr_element_size = Byte\<rparr>"

theorem struct_fields_witness:
  "(\<exists>h'. set_field_with_default int_write bytes_struct 1 (0xBEEF :: u16) 5 bytes_heap = Ok h' \<and>
      builder_data_field_with_default int_read h' bytes_struct 1 5 = Ok (0xBEEF :: u16) \<and>
      changes_slot 16 64 8 1 bytes_heap h') \<and>
    (\<exists>h'. set_field_with_default bool_write bytes_struct 1 True True bytes_heap = Ok h' \<and>
      builder_data_field_with_default bool_read h' bytes_struct 1 True = Ok True \<and> changes_slot 1 64 8 1 bytes_heap h')"
proof -
  have "data_at bytes_heap 64 (8 * 1)"
    by (rule data_at_words) (simp_all add: bytes_heap_def addr_def)
  then have "data_at bytes_heap (sb_data_start bytes_struct) (unat (sb_data_len bytes_struct))"
    by (simp add: bytes_struct_def)
  from struct_fields [OF _ this, of 1 "0xBEEF :: u16" 5 True True] show ?thesis
    by (simp add: wire_int_def bytes_struct_def)
qed

lemma short_section_overread_witness:
  "\<exists>s. struct_unchecked bytes_list 2 = Ok s \<and> sr_data_len s = 1 \<and>
    data_field_with_default int_read bytes_heap s 0 (0 :: u16) = Ok 0x0403"
proof -
  obtain s where s: "struct_unchecked bytes_list 2 = Ok s" "sr_data_start s = 66"
    by (auto simp: struct_unchecked_def bytes_list_def index_to_offset_def as_ref_unchecked_def Let_def)
  have "live bytes_heap 66" "live bytes_heap 67" by (simp_all add: live_def bytes_heap_def)
  with short_section_overread [of bytes_list 2 s bytes_heap 0] s show ?thesis
    by (simp add: bytes_list_def byte_at_def bytes_heap_def)
qed

end
