(* ===== verification/Ptr_Compare.thy ===== *)
theory Ptr_Compare
  imports Data_Field
begin

text \<open>
  Canonical sizes and the comparison of objects (\<^verbatim>\<open>recapn/src/ptr.rs\<close>: \<open>canonical_size\<close>, \<open>equality\<close>,
  \<open>cmp_ptr\<close> and the functions it calls). A comparison reads two messages, which may be one and share
  its limiter. The code recurses as deep as the objects do; the model counts the levels down and has
  no result where they do not suffice.
\<close>

section \<open>Sections as slices\<close>

fun read_words :: "heap \<Rightarrow> u64 list \<Rightarrow> (rerror, Word list) outcome" where
  "read_words h [] = Ok []"
| "read_words h (x # xs) = obind (deref h x) (\<lambda>w. obind (read_words h xs) (\<lambda>ws. Ok (w # ws)))"

definition section_slice :: "heap \<Rightarrow> object_reader \<Rightarrow> u64 \<Rightarrow> u29 \<Rightarrow> (rerror, Word list) outcome" where
  "section_slice h r ptr len =
     obind (case or_segment r of
         Some segment \<Rightarrow> obind (try_get_section segment ptr len) (\<lambda>s. assert_that (s \<noteq> None))
       | None \<Rightarrow> Ok ()) (\<lambda>_. read_words h (addr_list ptr (u29_val len)))"

function trim_end :: "('a \<Rightarrow> bool) \<Rightarrow> 'a list \<Rightarrow> 'a list" where
  "trim_end null xs = (if xs \<noteq> [] \<and> null (List.last xs) then trim_end null (butlast xs) else xs)"
  by auto
termination trim_end by (relation "measure (length \<circ> snd)") auto

declare trim_end.simps [simp del]

definition trim_end_null_words :: "Word list \<Rightarrow> Word list" where
  "trim_end_null_words = trim_end is_null"

definition trim_end_null_bytes :: "u8 list \<Rightarrow> u8 list" where
  "trim_end_null_bytes = trim_end (\<lambda>b. b = 0)"

definition trim_end_null_section :: "heap \<Rightarrow> object_reader \<Rightarrow> u64 \<Rightarrow> u29 \<Rightarrow> (rerror, u29) outcome" where
  "trim_end_null_section h r ptr len =
     obind (section_slice h r ptr len) (\<lambda>ws. unwrap (u29_new (of_nat (length (trim_end_null_words ws)))))"

definition data_section :: "heap \<Rightarrow> struct_reader \<Rightarrow> (rerror, u8 list) outcome" where
  "data_section h s = read_bytes h (sr_data_start s) (unat (sr_data_len s))"

definition data_section_words :: "heap \<Rightarrow> struct_reader \<Rightarrow> (rerror, Word list) outcome" where
  "data_section_words h s = read_words h (addr_list (sr_data_start s) (unat (sr_data_len s) div 8))"

definition ptr_section_slice :: "heap \<Rightarrow> struct_reader \<Rightarrow> (rerror, Word list) outcome" where
  "ptr_section_slice h s = obind (u29_from_u16 (sr_ptrs_len s)) (section_slice h (sr_reader s) (sr_ptrs_start s))"

section \<open>Canonical sizes\<close>

definition canonical_size :: "heap \<Rightarrow> struct_reader \<Rightarrow> (rerror, struct_size) outcome" where
  "canonical_size h s =
     obind (if sr_data_len s < 8 then
         obind (data_section h s) (\<lambda>data. Ok (if list_all (\<lambda>b. b = 0) data then [] else data))
       else obind (data_section_words h s) (\<lambda>words. Ok (slice_to_bytes (trim_end_null_words words)))) (\<lambda>data.
     obind (ptr_section_slice h s) (\<lambda>ptrs.
       Ok \<lparr>ss_data = ucast (round_up_byte_count (of_nat (length data))),
         ss_ptrs = of_nat (length (trim_end_null_words ptrs))\<rparr>))"

definition struct_reader_size :: "struct_reader \<Rightarrow> struct_size" where
  "struct_reader_size s = \<lparr>ss_data = ucast (round_up_byte_count (sr_data_len s)), ss_ptrs = sr_ptrs_len s\<rparr>"

definition calculate_canonical_struct_size :: "heap \<Rightarrow> object_reader \<Rightarrow> u64 \<Rightarrow> struct_size \<Rightarrow>
    (rerror, struct_size) outcome" where
  "calculate_canonical_struct_size h r src sz =
     obind (u29_from_u16 (ss_data sz)) (\<lambda>data_len.
     obind (section_slice h r src data_len) (\<lambda>src_data_section.
     obind (as_ref_unchecked (ptr_offset src data_len)) (\<lambda>src_ptrs.
     obind (u29_from_u16 (ss_ptrs sz)) (\<lambda>ptrs_len.
     obind (section_slice h r src_ptrs ptrs_len) (\<lambda>src_ptr_section.
       Ok \<lparr>ss_data = of_nat (length (trim_end_null_words src_data_section)),
         ss_ptrs = of_nat (length (trim_end_null_words src_ptr_section))\<rparr>)))))"

fun canonical_sizes :: "heap \<Rightarrow> object_reader \<Rightarrow> struct_size \<Rightarrow> u64 list \<Rightarrow> (rerror, struct_size list) outcome" where
  "canonical_sizes h r sz [] = Ok []"
| "canonical_sizes h r sz (d # ds) =
     obind (as_ref_unchecked d) (\<lambda>src_data.
     obind (calculate_canonical_struct_size h r src_data sz) (\<lambda>s.
     obind (canonical_sizes h r sz ds) (\<lambda>ss. Ok (s # ss))))"

definition calculate_canonical_inline_composite_size :: "heap \<Rightarrow> object_reader \<Rightarrow> u64 \<Rightarrow> struct_size \<Rightarrow> u29 \<Rightarrow>
    (rerror, struct_size) outcome" where
  "calculate_canonical_inline_composite_size h r src sz count =
     obind (struct_len sz) (\<lambda>step.
     obind (step_by_unchecked src step count) (\<lambda>places.
     obind (canonical_sizes h r sz places) (\<lambda>ss.
       Ok (case ss of [] \<Rightarrow> StructSize_EMPTY | s # ss' \<Rightarrow> fold (\<lambda>t acc. struct_max acc t) ss' s))))"

definition canonical_element_size :: "heap \<Rightarrow> list_reader \<Rightarrow> (rerror, elem_size) outcome" where
  "canonical_element_size h l = (case lr_element_size l of
     InlineComposite sz \<Rightarrow> obind (calculate_canonical_inline_composite_size h (lr_reader l) (lr_ptr l) sz
         (lr_element_count l)) (\<lambda>s. Ok (InlineComposite s))
   | other \<Rightarrow> Ok other)"

text \<open>The size of a struct or a list with all that it points to.\<close>

definition struct_total_size :: "heap \<Rightarrow> read_segments \<Rightarrow> struct_reader \<Rightarrow> message_size reading" where
  "struct_total_size h arena s =
     rbind (rlift (unwrap (checked_add (round_up_byte_count (sr_data_len s)) (ucast (sr_ptrs_len s))))) (\<lambda>struct_len.
     rbind (rlift (u29_from_u16 (sr_ptrs_len s))) (\<lambda>n.
     rbind (total_ptrs_size h (target_size h arena (unat (sr_nesting s)) (sr_reader s)) (sr_ptrs_start s) n)
       (\<lambda>ptrs_targets_size. rlift (size_add \<lparr>ms_words = ucast struct_len, ms_caps = 0\<rparr> ptrs_targets_size))))"

definition list_total_size :: "heap \<Rightarrow> read_segments \<Rightarrow> list_reader \<Rightarrow> message_size reading" where
  "list_total_size h arena l =
     (let len = lr_element_count l; e = lr_element_size l; target = target_size h arena (unat (lr_nesting l)) (lr_reader l);
        word_count = ucast (total_words e len) in
      rbind (if is_inline_composite e then rlift (unwrap (checked_add word_count 1)) else rok word_count) (\<lambda>word_count.
        let list_size = \<lparr>ms_words = word_count, ms_caps = 0\<rparr> in
        (case e of
           Pointer \<Rightarrow> rbind (total_ptrs_size h target (lr_ptr l) len) (\<lambda>target_sizes. rlift (size_add list_size target_sizes))
         | InlineComposite sz \<Rightarrow> rbind (total_inline_composites_targets_size h target (lr_ptr l) len sz)
             (\<lambda>target_sizes. rlift (size_add list_size target_sizes))
         | _ \<Rightarrow> rok list_size)))"

section \<open>Comparison\<close>

datatype PtrEquality = NotEqual | Equal | ContainsCaps

text \<open>The limiters of the two messages: one that both share, or one each. A comparison that needs more
  levels than it was given has no result.\<close>

datatype limits = Shared "u64 option" | Apart "u64 option" "u64 option"

type_synonym 'a comparing = "limits \<Rightarrow> ((rerror, 'a) outcome \<times> limits) option"

fun ours :: "'a reading \<Rightarrow> 'a comparing" where
  "ours m (Shared l) = (case m l of (x, l') \<Rightarrow> Some (x, Shared l'))"
| "ours m (Apart l k) = (case m l of (x, l') \<Rightarrow> Some (x, Apart l' k))"

fun theirs :: "'a reading \<Rightarrow> 'a comparing" where
  "theirs m (Shared l) = (case m l of (x, l') \<Rightarrow> Some (x, Shared l'))"
| "theirs m (Apart k l) = (case m l of (x, l') \<Rightarrow> Some (x, Apart k l'))"

definition clift :: "(rerror, 'a) outcome \<Rightarrow> 'a comparing" where
  "clift m = (\<lambda>l. Some (m, l))"

abbreviation cok :: "'a \<Rightarrow> 'a comparing" where "cok x \<equiv> clift (Ok x)"

definition cbind :: "'a comparing \<Rightarrow> ('a \<Rightarrow> 'b comparing) \<Rightarrow> 'b comparing" where
  "cbind m f = (\<lambda>l. case m l of
     None \<Rightarrow> None
   | Some (Ok x, l') \<Rightarrow> f x l' | Some (Err e, l') \<Rightarrow> Some (Err e, l')
   | Some (Panic, l') \<Rightarrow> Some (Panic, l') | Some (UB, l') \<Rightarrow> Some (UB, l'))"

text \<open>A comparison of two pointers, given the readers of the objects they are in.\<close>

type_synonym cmp_fn = "u64 \<Rightarrow> object_reader \<Rightarrow> u64 \<Rightarrow> object_reader \<Rightarrow> PtrEquality comparing"

text \<open>The loop over two zipped sections.\<close>

fun cmp_zipped :: "('a \<Rightarrow> 'b \<Rightarrow> PtrEquality comparing) \<Rightarrow> PtrEquality \<Rightarrow> ('a \<times> 'b) list \<Rightarrow> PtrEquality comparing" where
  "cmp_zipped cmp equality [] = cok equality"
| "cmp_zipped cmp equality ((our, their) # rest) = cbind (cmp our their) (\<lambda>r. case r of
     Equal \<Rightarrow> cmp_zipped cmp equality rest
   | ContainsCaps \<Rightarrow> cmp_zipped cmp ContainsCaps rest
   | NotEqual \<Rightarrow> cok NotEqual)"

definition cmp_refs :: "cmp_fn \<Rightarrow> object_reader \<Rightarrow> object_reader \<Rightarrow> u64 list \<Rightarrow> u64 list \<Rightarrow> PtrEquality comparing" where
  "cmp_refs cmp our_reader their_reader our_ptrs their_ptrs =
     cmp_zipped (\<lambda>our_ptr their_ptr.
         cbind (clift (as_ref_unchecked our_ptr)) (\<lambda>p. cbind (clift (as_ref_unchecked their_ptr)) (\<lambda>q.
           cmp p our_reader q their_reader)))
       Equal (zip our_ptrs their_ptrs)"

definition cmp_struct :: "heap \<Rightarrow> cmp_fn \<Rightarrow> struct_content \<Rightarrow> object_reader \<Rightarrow> struct_content \<Rightarrow> object_reader \<Rightarrow>
    PtrEquality comparing" where
  "cmp_struct h cmp our_struct our_reader their_struct their_reader =
     cbind (clift (obind (u29_from_u16 (ss_data (st_size our_struct)))
       (section_slice h our_reader (st_ptr our_struct)))) (\<lambda>our_data.
     cbind (clift (obind (u29_from_u16 (ss_data (st_size their_struct)))
       (section_slice h their_reader (st_ptr their_struct)))) (\<lambda>their_data.
       if our_data \<noteq> their_data then cok NotEqual
       else
         cbind (clift (ptrs_start our_struct)) (\<lambda>our_ptrs.
         cbind (clift (u29_from_u16 (ss_ptrs (st_size our_struct)))) (\<lambda>our_len.
         cbind (clift (ptrs_start their_struct)) (\<lambda>their_ptrs.
         cbind (clift (u29_from_u16 (ss_ptrs (st_size their_struct)))) (\<lambda>their_len.
           cmp_refs cmp our_reader their_reader (iter_unchecked our_ptrs our_len) (iter_unchecked their_ptrs their_len)))))))"

definition slice_to :: "nat \<Rightarrow> 'a list \<Rightarrow> (rerror, 'a list) outcome" where
  "slice_to n xs = (if n \<le> length xs then Ok (take n xs) else Panic)"

definition split_last :: "'a list \<Rightarrow> ('a \<times> 'a list) option" where
  "split_last xs = (if xs = [] then None else Some (List.last xs, butlast xs))"

definition bit_lists_equal :: "nat \<Rightarrow> u8 list \<Rightarrow> u8 list \<Rightarrow> (rerror, bool) outcome" where
  "bit_lists_equal partial_bits our_data their_data =
     (if partial_bits \<noteq> 0 then
        obind (unwrap (split_last our_data)) (\<lambda>(our_partial, our_full_data).
        obind (unwrap (split_last their_data)) (\<lambda>(their_partial, their_full_data).
          let mask = NOT (drop_bit partial_bits 255) in
          Ok (our_full_data = their_full_data \<and> our_partial AND mask = their_partial AND mask)))
      else Ok (our_data = their_data))"

definition section_bytes :: "heap \<Rightarrow> object_reader \<Rightarrow> u64 \<Rightarrow> u29 \<Rightarrow> nat \<Rightarrow> (rerror, u8 list) outcome" where
  "section_bytes h r ptr word_len byte_len =
     obind (section_slice h r ptr word_len) (\<lambda>ws. slice_to byte_len (slice_to_bytes ws))"

definition cmp_list :: "heap \<Rightarrow> cmp_fn \<Rightarrow> list_content \<Rightarrow> object_reader \<Rightarrow> list_content \<Rightarrow> object_reader \<Rightarrow>
    PtrEquality comparing" where
  "cmp_list h cmp our_list our_reader their_list their_reader =
     (let len = ls_element_count our_list; sz = ls_element_size our_list in
      if len \<noteq> ls_element_count their_list then cok NotEqual
      else if as_ptr_size sz \<noteq> as_ptr_size (ls_element_size their_list) then cok NotEqual
      else if len = u29_ZERO then cok Equal
      else (case sz of
        Void \<Rightarrow> cok Equal
      | Bit \<Rightarrow>
          (let total_bits = u29_inner len; bytes = unat (div_ceil total_bits 8);
             words = round_up_bit_count (ucast total_bits) in
           cbind (clift (unwrap (u29_new words))) (\<lambda>word_len.
           cbind (clift (section_bytes h our_reader (ls_ptr our_list) word_len bytes)) (\<lambda>our_data.
           cbind (clift (section_bytes h their_reader (ls_ptr their_list) word_len bytes)) (\<lambda>their_data.
           cbind (clift (bit_lists_equal (unat (total_bits mod 8)) our_data their_data)) (\<lambda>equals.
             cok (if equals then Equal else NotEqual))))))
      | Pointer \<Rightarrow> cmp_refs cmp our_reader their_reader (iter_unchecked (ls_ptr our_list) len)
          (iter_unchecked (ls_ptr their_list) len)
      | InlineComposite our_size \<Rightarrow> (case ls_element_size their_list of
          InlineComposite their_size \<Rightarrow>
            cbind (clift (obind (struct_len our_size) (\<lambda>step. step_by_unchecked (ls_ptr our_list) step len))) (\<lambda>our_structs.
            cbind (clift (obind (struct_len their_size) (\<lambda>step. step_by_unchecked (ls_ptr their_list) step len))) (\<lambda>their_structs.
              cmp_zipped (\<lambda>our_struct their_struct.
                cbind (clift (as_ref_unchecked our_struct)) (\<lambda>p. cbind (clift (as_ref_unchecked their_struct)) (\<lambda>q.
                  cmp_struct h cmp \<lparr>st_ptr = p, st_size = our_size\<rparr> our_reader \<lparr>st_ptr = q, st_size = their_size\<rparr> their_reader)))
                Equal (zip our_structs their_structs)))
        | _ \<Rightarrow> clift Panic)
      | e \<Rightarrow>
          (let bytes = unat (total_bytes e len) in
           cbind (clift (unwrap (u29_new (total_words e len)))) (\<lambda>word_len.
           cbind (clift (section_bytes h our_reader (ls_ptr our_list) word_len bytes)) (\<lambda>our_data.
           cbind (clift (section_bytes h their_reader (ls_ptr their_list) word_len bytes)) (\<lambda>their_data.
             cok (if our_data \<noteq> their_data then NotEqual else Equal)))))))"

definition cmp_content :: "heap \<Rightarrow> cmp_fn \<Rightarrow> typed_content \<Rightarrow> object_reader \<Rightarrow> typed_content \<Rightarrow> object_reader \<Rightarrow>
    PtrEquality comparing" where
  "cmp_content h cmp our_content our_reader their_content their_reader =
     (case (our_content, their_content) of
        (TStruct s, TStruct t) \<Rightarrow> cmp_struct h cmp s our_reader t their_reader
      | (TList s, TList t) \<Rightarrow> cmp_list h cmp s our_reader t their_reader
      | (TCapability _, TCapability _) \<Rightarrow> cok ContainsCaps
      | _ \<Rightarrow> cok NotEqual)"

definition cmp_ptr_at :: "heap \<Rightarrow> read_segments \<Rightarrow> read_segments \<Rightarrow> cmp_fn \<Rightarrow> cmp_fn" where
  "cmp_ptr_at h our_arena their_arena cmp our_ptr our_reader their_ptr their_reader =
     cbind (clift (deref h our_ptr)) (\<lambda>v. cbind (clift (deref h their_ptr)) (\<lambda>w.
       if is_null v \<and> is_null w then cok Equal
       else
         cbind (ours (try_read_typed h our_arena our_reader our_ptr)) (\<lambda>(our_content, our_reader').
         cbind (theirs (try_read_typed h their_arena their_reader their_ptr)) (\<lambda>(their_content, their_reader').
           cmp_content h cmp our_content our_reader' their_content their_reader'))))"

primrec cmp_ptr :: "heap \<Rightarrow> read_segments \<Rightarrow> read_segments \<Rightarrow> nat \<Rightarrow> cmp_fn" where
  "cmp_ptr h our_arena their_arena 0 = (\<lambda>_ _ _ _ _. None)"
| "cmp_ptr h our_arena their_arena (Suc levels) = cmp_ptr_at h our_arena their_arena (cmp_ptr h our_arena their_arena levels)"

definition cmp_ptr_sections :: "heap \<Rightarrow> cmp_fn \<Rightarrow> u64 \<Rightarrow> u29 \<Rightarrow> object_reader \<Rightarrow> u64 \<Rightarrow> u29 \<Rightarrow> object_reader \<Rightarrow>
    PtrEquality comparing" where
  "cmp_ptr_sections h cmp our_ptrs our_len our_reader their_ptrs their_len their_reader =
     cbind (clift (trim_end_null_section h our_reader our_ptrs our_len)) (\<lambda>our_len.
     cbind (clift (trim_end_null_section h their_reader their_ptrs their_len)) (\<lambda>their_len.
       if our_len \<noteq> their_len then cok NotEqual
       else cmp_refs cmp our_reader their_reader (iter_unchecked our_ptrs our_len) (iter_unchecked their_ptrs our_len)))"

text \<open>The methods \<open>equality\<close> of the readers.\<close>

definition ptr_equality :: "heap \<Rightarrow> read_segments \<Rightarrow> read_segments \<Rightarrow> nat \<Rightarrow> ptr_reader \<Rightarrow> ptr_reader \<Rightarrow>
    PtrEquality comparing" where
  "ptr_equality h our_arena their_arena levels p q =
     cmp_ptr h our_arena their_arena levels (pr_ptr p) (pr_reader p) (pr_ptr q) (pr_reader q)"

definition struct_equality :: "heap \<Rightarrow> read_segments \<Rightarrow> read_segments \<Rightarrow> nat \<Rightarrow> struct_reader \<Rightarrow> struct_reader \<Rightarrow>
    PtrEquality comparing" where
  "struct_equality h our_arena their_arena levels s t =
     cbind (clift (data_section h s)) (\<lambda>our_data. cbind (clift (data_section h t)) (\<lambda>their_data.
       if trim_end_null_bytes our_data \<noteq> trim_end_null_bytes their_data then cok NotEqual
       else
         cbind (clift (u29_from_u16 (sr_ptrs_len s))) (\<lambda>our_len. cbind (clift (u29_from_u16 (sr_ptrs_len t))) (\<lambda>their_len.
           cmp_ptr_sections h (cmp_ptr h our_arena their_arena levels) (sr_ptrs_start s) our_len (sr_reader s)
             (sr_ptrs_start t) their_len (sr_reader t)))))"

definition list_equality :: "heap \<Rightarrow> read_segments \<Rightarrow> read_segments \<Rightarrow> nat \<Rightarrow> list_reader \<Rightarrow> list_reader \<Rightarrow>
    PtrEquality comparing" where
  "list_equality h our_arena their_arena levels l k =
     cmp_list h (cmp_ptr h our_arena their_arena levels)
       \<lparr>ls_ptr = lr_ptr l, ls_element_size = lr_element_size l, ls_element_count = lr_element_count l\<rparr> (lr_reader l)
       \<lparr>ls_ptr = lr_ptr k, ls_element_size = lr_element_size k, ls_element_count = lr_element_count k\<rparr> (lr_reader k)"

section \<open>Sections in a segment\<close>

lemma unat_addr_inside:
  assumes "seg_safe h (sg_segment s)" "k \<le> u29_val (sg_len s)"
  shows "unat (addr (sg_data s) k) = unat (sg_data s) + 8 * k"
proof -
  from assms(1) have "unat (sg_data s) + 8 * u29_val (sg_len s) < 2 ^ 64" by (simp add: seg_safe_def sg_segment_def)
  with assms(2) have b: "unat (sg_data s) + 8 * k < 2 ^ 64" by simp
  then have "unat (8 * of_nat k :: u64) = 8 * k" by (simp add: unat_word_ariths unat_of_nat take_bit_nat_eq_self)
  with b show ?thesis by (simp add: addr_def unat_add_no_wrap)
qed

lemma inside_section:
  assumes "seg_safe h (sg_segment s)" "inside s p (u29_val len)"
  shows "try_get_section s p len = Ok (Some p)"
proof -
  from assms(2) obtain k where k: "p = addr (sg_data s) k" "k + u29_val len \<le> u29_val (sg_len s)" by (auto simp: inside_def)
  have e: "ptr_offset p len = addr (sg_data s) (k + u29_val len)" by (simp add: ptr_offset_addr k(1) addr_addr)
  have u: "unat p = unat (sg_data s) + 8 * k" "unat (ptr_offset p len) = unat (sg_data s) + 8 * (k + u29_val len)"
    "unat (ptr_offset (sg_data s) (sg_len s)) = unat (sg_data s) + 8 * u29_val (sg_len s)"
    unfolding e unfolding k(1) ptr_offset_addr by (rule unat_addr_inside [OF assms(1)], use k(2) in simp)+
  have en: "reader_end s = Ok (ptr_offset (sg_data s) (sg_len s))"
    using assms(1) by (simp add: reader_end_def seg_safe_def sg_segment_def)
  have "\<not> ptr_offset p len < p" "\<not> sg_data s > p" "\<not> ptr_offset p len > ptr_offset (sg_data s) (sg_len s)"
    using u k(2) by (simp_all add: word_less_nat_alt)
  then show ?thesis
    using inside_ref [OF assms] by (simp add: try_get_section_def Let_def en)
qed

lemma read_words_ok:
  assumes "\<And>x. x \<in> set xs \<Longrightarrow> mem h x \<noteq> None"
  shows "read_words h xs = Ok (map (\<lambda>x. the (mem h x)) xs)"
  using assms by (induction xs) (fastforce simp: deref_def)+

lemma inside_words:
  assumes "seg_safe h (sg_segment s)" "inside s p n" "x \<in> set (addr_list p n)"
  shows "mem h x \<noteq> None"
proof -
  from assms(2) obtain k where k: "p = addr (sg_data s) k" "k + n \<le> u29_val (sg_len s)" by (auto simp: inside_def)
  from assms(3) obtain i where "i < n" "x = addr (sg_data s) (k + i)" by (auto simp: addr_list_def k(1) addr_addr)
  with assms(1) k(2) show ?thesis by (simp add: seg_safe_def sg_segment_def)
qed

definition words_at :: "heap \<Rightarrow> u64 \<Rightarrow> nat \<Rightarrow> Word list" where
  "words_at h p n = map (\<lambda>x. the (mem h x)) (addr_list p n)"

lemma length_words_at [simp]: "length (words_at h p n) = n"
  by (simp add: words_at_def addr_list_def)

lemma section_slice_ok:
  assumes "reader_ok h r" "inside (seg_of r) p (u29_val len)"
  shows "section_slice h r p len = Ok (words_at h p (u29_val len))"
proof -
  from assms(1) obtain s where s: "or_segment r = Some s" "seg_of r = s" "seg_safe h (sg_segment s)"
    by (auto simp: reader_ok_def seg_of_def)
  have "read_words h (addr_list p (u29_val len)) = Ok (words_at h p (u29_val len))"
    unfolding words_at_def by (rule read_words_ok) (use inside_words [OF s(3)] assms(2) s(2) in blast)
  moreover have "try_get_section s p len = Ok (Some p)" using inside_section [OF s(3)] assms(2) s(2) by simp
  ultimately show ?thesis by (simp add: section_slice_def s(1))
qed

lemma trim_end_takeWhile: "trim_end null xs = rev (dropWhile null (rev xs))"
proof (induction xs rule: rev_induct)
  case (snoc x xs)
  then show ?case by (subst trim_end.simps) simp
qed (simp add: trim_end.simps)

lemma length_trim_end: "length (trim_end null xs) \<le> length xs"
  by (simp add: trim_end_takeWhile) (metis length_dropWhile_le length_rev)

lemma trim_section_ok:
  assumes "reader_ok h r" "inside (seg_of r) p (u29_val len)"
  obtains n where "trim_end_null_section h r p len = Ok n"
    "u29_val n = length (trim_end_null_words (words_at h p (u29_val len)))" "u29_val n \<le> u29_val len"
proof -
  let ?n = "length (trim_end_null_words (words_at h p (u29_val len)))"
  have le: "?n \<le> u29_val len" using length_trim_end [of is_null "words_at h p (u29_val len)"] by (simp add: trim_end_null_words_def)
  then have "unat (of_nat ?n :: u32) = ?n" "?n < 2 ^ 29"
    using u29_val_less [of len] by (simp_all add: unat_of_nat take_bit_nat_eq_self)
  with le show thesis
    by (intro that [of "u29_clip (of_nat ?n)"]) (simp_all add: trim_end_null_section_def section_slice_ok [OF assms] u29_new_eq)
qed

section \<open>Comparisons on a budget\<close>

text \<open>What is left of a limiter that the comparison is charged to.\<close>

fun budget :: "limits \<Rightarrow> nat option" where
  "budget (Shared l) = map_option unat l"
| "budget (Apart (Some k) l) = Some (unat k)"
| "budget (Apart None l) = map_option unat l"

text \<open>With at most \<open>B\<close> words left, a comparison ends, safely, and adds nothing to the limiter.\<close>

definition compares :: "nat \<Rightarrow> 'a comparing \<Rightarrow> bool" where
  "compares B m \<longleftrightarrow> (\<forall>l b. budget l = Some b \<longrightarrow> b \<le> B \<longrightarrow>
     (\<exists>x l' b'. m l = Some (x, l') \<and> safe x \<and> budget l' = Some b' \<and> b' \<le> b))"

lemma comparesE:
  assumes "compares B m" "budget l = Some b" "b \<le> B"
  obtains x l' b' where "m l = Some (x, l')" "safe x" "budget l' = Some b'" "b' \<le> b"
  using assms unfolding compares_def by blast

lemma compares_mono: "compares B m \<Longrightarrow> B' \<le> B \<Longrightarrow> compares B' m"
  unfolding compares_def by (meson le_trans)

lemma compares_lift: "safe m \<Longrightarrow> compares B (clift m)"
  by (simp add: compares_def clift_def)

lemma compares_ok [simp, intro]: "compares B (cok x)"
  by (simp add: compares_lift)

lemma compares_bind:
  assumes "compares B m" "\<And>x. compares B (f x)"
  shows "compares B (cbind m f)"
  unfolding compares_def
proof (intro allI impI)
  fix l b assume l: "budget l = Some b" "b \<le> B"
  obtain x l' b' where m: "m l = Some (x, l')" "safe x" "budget l' = Some b'" "b' \<le> b"
    by (rule comparesE [OF assms(1) l])
  show "\<exists>x l' b'. cbind m f l = Some (x, l') \<and> safe x \<and> budget l' = Some b' \<and> b' \<le> b"
  proof (cases x)
    case (Ok y)
    have le: "b' \<le> B" using m(4) l(2) by simp
    obtain z l'' b'' where z: "f y l' = Some (z, l'')" "safe z" "budget l'' = Some b''" "b'' \<le> b'"
      by (rule comparesE [OF assms(2) m(3) le])
    with m(1,4) Ok show ?thesis by (auto simp: cbind_def)
  qed (use m in \<open>auto simp: cbind_def\<close>)
qed

lemma cbind_cok [simp]: "cbind (cok x) f = f x"
  by (rule ext) (simp add: cbind_def clift_def)

lemma compares_bind_lift:
  assumes "safe m" "\<And>x. m = Ok x \<Longrightarrow> compares B (f x)"
  shows "compares B (cbind (clift m) f)"
  using assms by (cases m) (auto simp: compares_def cbind_def clift_def)

text \<open>Reading both objects: what a comparison is charged is at least the smaller of the two.\<close>

fun charges_ours :: "limits \<Rightarrow> bool" where
  "charges_ours (Apart None l) \<longleftrightarrow> False"
| "charges_ours _ \<longleftrightarrow> True"

fun charges_theirs :: "limits \<Rightarrow> bool" where
  "charges_theirs (Apart (Some k) l) \<longleftrightarrow> False"
| "charges_theirs _ \<longleftrightarrow> True"

lemma ours_reads:
  assumes "reads m P" "budget l = Some b"
  obtains x l' n b' where "ours m l = Some (x, l')" "safe x" "\<And>y. x = Ok y \<Longrightarrow> P y n"
    "budget l' = Some b'" "b = b' + (if charges_ours l then n else 0)" "charges_theirs l' = charges_theirs l"
proof (cases l)
  case (Shared k)
  obtain n where n: "safe (fst (m k))" "spends n k (snd (m k))" "\<And>y. fst (m k) = Ok y \<Longrightarrow> P y n"
    using assms(1) by (rule readsE [of m P k]) blast
  with Shared assms(2) show thesis
    by (intro that [of "fst (m k)" "Shared (snd (m k))" n "unat (the (snd (m k)))"])
       (auto simp: spends_def split: option.splits prod.splits)
next
  case (Apart k j)
  obtain n where n: "safe (fst (m k))" "spends n k (snd (m k))" "\<And>y. fst (m k) = Ok y \<Longrightarrow> P y n"
    using assms(1) by (rule readsE [of m P k]) blast
  with Apart assms(2) show thesis
    by (intro that [of "fst (m k)" "Apart (snd (m k)) j" n "case snd (m k) of None \<Rightarrow> b | Some i \<Rightarrow> unat i"])
       (auto simp: spends_def split: option.splits prod.splits)
qed

lemma theirs_reads:
  assumes "reads m P" "budget l = Some b"
  obtains x l' n b' where "theirs m l = Some (x, l')" "safe x" "\<And>y. x = Ok y \<Longrightarrow> P y n"
    "budget l' = Some b'" "b = b' + (if charges_theirs l then n else 0)"
proof (cases l)
  case (Shared k)
  obtain n where n: "safe (fst (m k))" "spends n k (snd (m k))" "\<And>y. fst (m k) = Ok y \<Longrightarrow> P y n"
    using assms(1) by (rule readsE [of m P k]) blast
  with Shared assms(2) show thesis
    by (intro that [of "fst (m k)" "Shared (snd (m k))" n "unat (the (snd (m k)))"])
       (auto simp: spends_def split: option.splits prod.splits)
next
  case (Apart j k)
  obtain n where n: "safe (fst (m k))" "spends n k (snd (m k))" "\<And>y. fst (m k) = Ok y \<Longrightarrow> P y n"
    using assms(1) by (rule readsE [of m P k]) blast
  with Apart assms(2) show thesis
    by (intro that [of "fst (m k)" "Apart j (snd (m k))" n "case j of None \<Rightarrow> unat (the (snd (m k))) | Some i \<Rightarrow> b"])
       (cases j; auto simp: spends_def split: option.splits prod.splits)+
qed

lemma compares_both:
  assumes "reads m P" "reads m' P'"
    and "\<And>x n y n' k. P x n \<Longrightarrow> P' y n' \<Longrightarrow> min n n' \<le> k \<Longrightarrow> k \<le> B \<Longrightarrow> compares (B - k) (f x y)"
  shows "compares B (cbind (ours m) (\<lambda>x. cbind (theirs m') (f x)))"
  unfolding compares_def
proof (intro allI impI)
  fix l b assume l: "budget l = Some b" "b \<le> B"
  obtain x l1 n b1 where x: "ours m l = Some (x, l1)" "safe x" "\<And>y. x = Ok y \<Longrightarrow> P y n"
      "budget l1 = Some b1" "b = b1 + (if charges_ours l then n else 0)" "charges_theirs l1 = charges_theirs l"
    by (rule ours_reads [OF assms(1) l(1)]) (rule that)
  obtain y l2 n' b2 where y: "theirs m' l1 = Some (y, l2)" "safe y" "\<And>z. y = Ok z \<Longrightarrow> P' z n'"
      "budget l2 = Some b2" "b1 = b2 + (if charges_theirs l1 then n' else 0)"
    by (rule theirs_reads [OF assms(2) x(4)]) (rule that)
  have charged: "min n n' \<le> b - b2" "b2 \<le> b"
    using x(5,6) y(5) by (cases l rule: charges_ours.cases; auto)+
  show "\<exists>x l' b'. cbind (ours m) (\<lambda>x. cbind (theirs m') (f x)) l = Some (x, l') \<and> safe x \<and> budget l' = Some b' \<and> b' \<le> b"
  proof (cases x)
    case x': (Ok u)
    show ?thesis
    proof (cases y)
      case (Ok v)
      have "compares (B - (b - b2)) (f u v)"
        by (rule assms(3) [OF x(3) [OF x'] y(3) [OF Ok] charged(1)]) (use l(2) in simp)
      then obtain z l3 b3 where "f u v l2 = Some (z, l3)" "safe z" "budget l3 = Some b3" "b3 \<le> b2"
        by (rule comparesE [OF _ y(4)]) (use charged(2) l(2) in auto)
      with x(1) x' y(1) Ok charged(2) show ?thesis by (auto simp: cbind_def)
    qed (use x(1) x' y charged(2) in \<open>auto simp: cbind_def\<close>)
  qed (use x in \<open>auto simp: cbind_def\<close>)
qed

section \<open>Comparisons end\<close>

definition ref_ok :: "heap \<Rightarrow> object_reader \<Rightarrow> u64 \<Rightarrow> bool" where
  "ref_ok h r p \<longleftrightarrow> reader_ok h r \<and> inside (seg_of r) p 1"

definition cmp_good :: "heap \<Rightarrow> nat \<Rightarrow> cmp_fn \<Rightarrow> bool" where
  "cmp_good h B cmp \<longleftrightarrow> (\<forall>p r q s. ref_ok h r p \<longrightarrow> ref_ok h s q \<longrightarrow> compares B (cmp p r q s))"

lemma cmp_zipped_ok:
  assumes "\<And>x y. (x, y) \<in> set xys \<Longrightarrow> compares B (cmp x y)"
  shows "compares B (cmp_zipped cmp equality xys)"
  using assms
proof (induction cmp equality xys rule: cmp_zipped.induct)
  case (2 cmp equality our their rest)
  then show ?case
    unfolding cmp_zipped.simps by (intro compares_bind) (auto split: PtrEquality.split)
qed simp

lemma cmp_refs_ok:
  assumes r: "reader_ok h r" "inside (seg_of r) p (u29_val n)" and s: "reader_ok h s" "inside (seg_of s) q (u29_val k)"
    and "0 < u29_val n \<Longrightarrow> 0 < u29_val k \<Longrightarrow> cmp_good h B cmp"
  shows "compares B (cmp_refs cmp r s (iter_unchecked p n) (iter_unchecked q k))"
  unfolding cmp_refs_def
proof (rule cmp_zipped_ok)
  fix x y assume xy: "(x, y) \<in> set (zip (iter_unchecked p n) (iter_unchecked q k))"
  then have mem: "x \<in> set (iter_unchecked p n)" "y \<in> set (iter_unchecked q k)" by (auto dest: set_zip_leftD set_zip_rightD)
  note x = inside_iter [OF r(2) mem(1)] and y = inside_iter [OF s(2) mem(2)]
  have "0 < u29_val n" "0 < u29_val k" using mem by (auto simp: iter_unchecked_def addr_list_def)
  then have "compares B (cmp x r y s)" using assms(5) x y r(1) s(1) by (simp add: cmp_good_def ref_ok_def)
  moreover have "as_ref_unchecked x = Ok x" "as_ref_unchecked y = Ok y"
    using x y r(1) s(1) by (auto simp: reader_ok_def intro: inside_ref)
  ultimately show "compares B (cbind (clift (as_ref_unchecked x)) (\<lambda>p. cbind (clift (as_ref_unchecked y)) (\<lambda>q. cmp p r q s)))"
    by simp
qed

definition struct_inside :: "heap \<Rightarrow> object_reader \<Rightarrow> struct_content \<Rightarrow> bool" where
  "struct_inside h r c \<longleftrightarrow> reader_ok h r \<and>
     inside (seg_of r) (st_ptr c) (unat (ss_data (st_size c)) + unat (ss_ptrs (st_size c)))"

lemma struct_sections:
  assumes "struct_inside h r c"
  obtains d p n where "u29_from_u16 (ss_data (st_size c)) = (Ok d :: (rerror, u29) outcome)"
    "section_slice h r (st_ptr c) d = Ok (words_at h (st_ptr c) (unat (ss_data (st_size c))))"
    "ptrs_start c = Ok p" "u29_from_u16 (ss_ptrs (st_size c)) = (Ok n :: (rerror, u29) outcome)"
    "u29_val n = unat (ss_ptrs (st_size c))" "inside (seg_of r) p (u29_val n)"
    "p = addr (st_ptr c) (unat (ss_data (st_size c)))"
proof -
  from assms have r: "reader_ok h r" and ins: "inside (seg_of r) (st_ptr c) (unat (ss_data (st_size c)) + unat (ss_ptrs (st_size c)))"
    by (simp_all add: struct_inside_def)
  have seg: "seg_safe h (sg_segment (seg_of r))" using r by (simp add: reader_ok_def)
  obtain d k where d: "u29_from_u16 (ss_data (st_size c)) = (Ok d :: (rerror, u29) outcome)"
      "as_ref_unchecked (ptr_offset (st_ptr c) d) = Ok (ptr_offset (st_ptr c) d)"
      "u29_from_u16 (ss_ptrs (st_size c)) = (Ok k :: (rerror, u29) outcome)" "u29_val k = unat (ss_ptrs (st_size c))"
      "inside (seg_of r) (ptr_offset (st_ptr c) d) (u29_val k)"
    by (rule struct_ptrs [OF seg ins])
  have dv: "u29_val d = unat (ss_data (st_size c))"
    using d(1) u16_offset [of "ss_data (st_size c)"] by (metis outcome.inject(1))
  have "inside (seg_of r) (st_ptr c) (u29_val d)" by (rule inside_mono [OF ins]) (simp add: dv)
  from section_slice_ok [OF r this] d dv show thesis
    by (intro that [of d "ptr_offset (st_ptr c) d" k]) (simp_all add: ptrs_start_def ptr_offset_addr)
qed

lemma cmp_struct_ok:
  assumes "struct_inside h r c" "struct_inside h s e"
    and "0 < unat (ss_ptrs (st_size c)) \<Longrightarrow> 0 < unat (ss_ptrs (st_size e)) \<Longrightarrow> cmp_good h B cmp"
  shows "compares B (cmp_struct h cmp c r e s)"
proof -
  obtain d p n where c: "u29_from_u16 (ss_data (st_size c)) = (Ok d :: (rerror, u29) outcome)"
      "section_slice h r (st_ptr c) d = Ok (words_at h (st_ptr c) (unat (ss_data (st_size c))))"
      "ptrs_start c = Ok p" "u29_from_u16 (ss_ptrs (st_size c)) = (Ok n :: (rerror, u29) outcome)"
      "u29_val n = unat (ss_ptrs (st_size c))" "inside (seg_of r) p (u29_val n)"
    by (rule struct_sections [OF assms(1)])
  obtain d' q k where e: "u29_from_u16 (ss_data (st_size e)) = (Ok d' :: (rerror, u29) outcome)"
      "section_slice h s (st_ptr e) d' = Ok (words_at h (st_ptr e) (unat (ss_data (st_size e))))"
      "ptrs_start e = Ok q" "u29_from_u16 (ss_ptrs (st_size e)) = (Ok k :: (rerror, u29) outcome)"
      "u29_val k = unat (ss_ptrs (st_size e))" "inside (seg_of s) q (u29_val k)"
    by (rule struct_sections [OF assms(2)])
  have "compares B (cmp_refs cmp r s (iter_unchecked p n) (iter_unchecked q k))"
    by (rule cmp_refs_ok) (use assms c(5,6) e(5,6) in \<open>auto simp: struct_inside_def\<close>)
  then show ?thesis by (simp add: cmp_struct_def c(1-4) e(1-4))
qed

lemma section_bytes_ok:
  assumes "reader_ok h r" "inside (seg_of r) p (u29_val len)" "n \<le> 8 * u29_val len"
  shows "section_bytes h r p len n = Ok (take n (slice_to_bytes (words_at h p (u29_val len))))"
  using assms by (simp add: section_bytes_def section_slice_ok slice_to_def)

lemma bit_lists_safe:
  assumes "xs \<noteq> []" "ys \<noteq> []"
  shows "safe (bit_lists_equal k xs ys)"
  using assms by (simp add: bit_lists_equal_def split_last_def Let_def)

definition list_inside :: "heap \<Rightarrow> object_reader \<Rightarrow> list_content \<Rightarrow> bool" where
  "list_inside h r l \<longleftrightarrow> reader_ok h r \<and> inside (seg_of r) (ls_ptr l)
     (list_object_words (ls_element_size l) (u29_val (ls_element_count l)) -
      (if is_inline_composite (ls_element_size l) then 1 else 0))"

lemma same_flat_size: "as_ptr_size e = as_ptr_size e' \<Longrightarrow> \<not> is_inline_composite e \<Longrightarrow> e' = e"
  by (cases e; cases e') auto

lemma composite_size_form: "is_inline_composite e \<Longrightarrow> \<exists>sz. e = InlineComposite sz"
  by (cases e) auto

text \<open>The data of a flat list: its words as a slice of bytes.\<close>

definition list_bytes :: "heap \<Rightarrow> list_content \<Rightarrow> u8 list" where
  "list_bytes h l = (let n = u29_val (ls_element_count l); e = ls_element_size l in
     take ((unat (bits e) * n + 7) div 8) (slice_to_bytes (words_at h (ls_ptr l) ((unat (bits e) * n + 63) div 64))))"

lemma flat_section:
  assumes "list_inside h r l" "\<not> is_inline_composite (ls_element_size l)" "e = ls_element_size l" "n = ls_element_count l"
    and "unat w = list_object_words e (u29_val n)"
  obtains len where "u29_new w = Some len"
    "section_bytes h r (ls_ptr l) len ((unat (bits e) * u29_val n + 7) div 8) = Ok (list_bytes h l)"
proof -
  have "\<not> is_inline_composite e" using assms(2,3) by simp
  then have words: "list_object_words e (u29_val n) = (unat (bits e) * u29_val n + 63) div 64"
    by (cases e) (simp_all add: list_object_words_def)
  have lt: "list_object_words e (u29_val n) < 2 ^ 29" using message_source.flat_words(2) [of e n] assms(2,3) by simp
  then have len: "u29_new w = Some (u29_clip w)" "u29_val (u29_clip w) = list_object_words e (u29_val n)"
    using assms(5) by (simp_all add: u29_new_eq)
  have "section_bytes h r (ls_ptr l) (u29_clip w) ((unat (bits e) * u29_val n + 7) div 8) =
      Ok (take ((unat (bits e) * u29_val n + 7) div 8) (slice_to_bytes (words_at h (ls_ptr l) (u29_val (u29_clip w)))))"
  proof (rule section_bytes_ok)
    show "inside (seg_of r) (ls_ptr l) (u29_val (u29_clip w))"
      using assms(1-4) unfolding len(2) by (simp add: list_inside_def)
    show "(unat (bits e) * u29_val n + 7) div 8 \<le> 8 * u29_val (u29_clip w)" unfolding len(2) words by linarith
  qed (use assms(1) in \<open>simp add: list_inside_def\<close>)
  then show thesis
    using len(1) assms(3,4) unfolding len(2) words by (intro that [of "u29_clip w"]) (simp_all add: list_bytes_def Let_def)
qed

lemma length_list_bytes: "length (list_bytes h l) = (unat (bits (ls_element_size l)) * u29_val (ls_element_count l) + 7) div 8"
  by (simp add: list_bytes_def Let_def)

lemma byte_count: "bits e \<noteq> 0 \<Longrightarrow> \<not> is_inline_composite e \<Longrightarrow>
    unat (total_bytes e n) = (unat (bits e) * u29_val n + 7) div 8"
proof -
  assume e: "bits e \<noteq> 0" "\<not> is_inline_composite e"
  then have "unat (bits e) \<le> 64" by (cases e) (auto simp: unat_bits)
  then have "unat (bits e) * u29_val n \<le> 64 * (2 ^ 29 - 1)"
    using u29_val_less [of n] by (intro mult_le_mono) simp_all
  then show ?thesis unfolding unat_total_bytes by simp
qed

text \<open>What the comparison of lists of values comes to.\<close>

lemma cmp_flat_lists:
  assumes l: "list_inside h r l" and k: "list_inside h s k"
    and same: "ls_element_count k = ls_element_count l" "ls_element_size k = ls_element_size l"
    and e: "ls_element_size l \<in> {Byte, TwoBytes, FourBytes, EightBytes}" and n: "ls_element_count l \<noteq> u29_ZERO"
  shows "cmp_list h cmp l r k s = cok (if list_bytes h l \<noteq> list_bytes h k then NotEqual else Equal)"
proof -
  let ?e = "ls_element_size l" and ?n = "ls_element_count l"
  have flat: "\<not> is_inline_composite ?e" and nz: "bits ?e \<noteq> 0" using e by auto
  have w: "unat (total_words ?e ?n) = list_object_words ?e (u29_val ?n)"
    using total_words_plain [OF flat, of ?n] flat by (cases ?e) (auto simp: list_object_words_def)
  obtain len where len: "u29_new (total_words ?e ?n) = Some len"
      "section_bytes h r (ls_ptr l) len ((unat (bits ?e) * u29_val ?n + 7) div 8) = Ok (list_bytes h l)"
    by (rule flat_section [OF l flat refl refl w])
  obtain len' where "u29_new (total_words ?e ?n) = Some len'"
      "section_bytes h s (ls_ptr k) len' ((unat (bits ?e) * u29_val ?n + 7) div 8) = Ok (list_bytes h k)"
    by (rule flat_section [OF k]) (use flat same w in auto)
  with len have their: "section_bytes h s (ls_ptr k) len ((unat (bits ?e) * u29_val ?n + 7) div 8) = Ok (list_bytes h k)" by simp
  note b = byte_count [OF nz flat, of ?n]
  from e consider "?e = Byte" | "?e = TwoBytes" | "?e = FourBytes" | "?e = EightBytes" by auto
  then show ?thesis
  proof cases
  qed (use len(1) len(2) [folded b] their [folded b] in
      \<open>simp_all add: cmp_list_def Let_def same n del: bits.simps split del: if_split\<close>)
qed

lemma cmp_bit_lists:
  assumes l: "list_inside h r l" and k: "list_inside h s k"
    and same: "ls_element_count k = ls_element_count l" "ls_element_size k = Bit"
    and e: "ls_element_size l = Bit" and n: "ls_element_count l \<noteq> u29_ZERO"
  shows "cmp_list h cmp l r k s = cbind (clift (bit_lists_equal (u29_val (ls_element_count l) mod 8) (list_bytes h l) (list_bytes h k)))
    (\<lambda>equals. cok (if equals then Equal else NotEqual))"
proof -
  let ?n = "ls_element_count l"
  let ?w = "round_up_bit_count (ucast (u29_inner ?n) * ucast (bits Bit))"
  have w: "unat ?w = list_object_words Bit (u29_val ?n)" by (rule message_source.flat_words(1)) simp
  have one: "unat (bits Bit) = 1" by (simp add: unat_bits)
  obtain len where len: "u29_new ?w = Some len"
      "section_bytes h r (ls_ptr l) len ((unat (bits Bit) * u29_val ?n + 7) div 8) = Ok (list_bytes h l)"
    by (rule flat_section [OF l _ _ refl w]) (use e in auto)
  obtain len' where "u29_new ?w = Some len'"
      "section_bytes h s (ls_ptr k) len' ((unat (bits Bit) * u29_val ?n + 7) div 8) = Ok (list_bytes h k)"
    by (rule flat_section [OF k _ _ _ w]) (use same in auto)
  with len have their: "section_bytes h s (ls_ptr k) len ((unat (bits Bit) * u29_val ?n + 7) div 8) = Ok (list_bytes h k)" by simp
  have c: "unat (div_ceil (u29_inner ?n) 8) = (unat (bits Bit) * u29_val ?n + 7) div 8"
    by (simp add: unat_div_ceil one)
  have m: "unat (u29_inner ?n mod 8) = u29_val ?n mod 8" by (simp add: unat_mod_distrib)
  show ?thesis
    using len(1) len(2) [folded c] their [folded c] by (simp add: cmp_list_def Let_def same e n m)
qed

lemma cmp_composites_ok:
  assumes l: "list_inside h r l" "ls_element_size l = InlineComposite sz"
    and k: "list_inside h s k" "ls_element_size k = InlineComposite sz'" and same: "ls_element_count k = ls_element_count l"
    and "cmp_good h B cmp"
  shows "compares B (cmp_list h cmp l r k s)"
proof -
  let ?n = "ls_element_count l" and ?st = "u29_clip (struct_total sz)" and ?st' = "u29_clip (struct_total sz')"
  have st: "u29_val ?st = unat (ss_data sz) + unat (ss_ptrs sz)" "u29_val ?st' = unat (ss_data sz') + unat (ss_ptrs sz')"
    using struct_len_val [OF struct_len_Ok] by blast+
  have "inside (seg_of r) (ls_ptr l) (u29_val ?n * u29_val ?st)"
    using l unfolding list_inside_def st by (simp add: list_object_words_def)
  then obtain ps where ps: "step_by_unchecked (ls_ptr l) ?st ?n = Ok ps" "\<And>d. d \<in> set ps \<Longrightarrow> inside (seg_of r) d (u29_val ?st)"
    by (rule step_by_ok) blast
  have "inside (seg_of s) (ls_ptr k) (u29_val ?n * u29_val ?st')"
    using k same unfolding list_inside_def st by (simp add: list_object_words_def)
  then obtain qs where qs: "step_by_unchecked (ls_ptr k) ?st' ?n = Ok qs" "\<And>d. d \<in> set qs \<Longrightarrow> inside (seg_of s) d (u29_val ?st')"
    by (rule step_by_ok) blast
  have ok: "reader_ok h r" "reader_ok h s" using l k by (simp_all add: list_inside_def)
  have "compares B (cmp_zipped (\<lambda>our_struct their_struct.
      cbind (clift (as_ref_unchecked our_struct)) (\<lambda>p. cbind (clift (as_ref_unchecked their_struct)) (\<lambda>q.
        cmp_struct h cmp \<lparr>st_ptr = p, st_size = sz\<rparr> r \<lparr>st_ptr = q, st_size = sz'\<rparr> s))) Equal (zip ps qs))"
  proof (rule cmp_zipped_ok)
    fix x y assume "(x, y) \<in> set (zip ps qs)"
    then have "x \<in> set ps" "y \<in> set qs" by (auto dest: set_zip_leftD set_zip_rightD)
    note x = ps(2) [OF this(1)] and y = qs(2) [OF this(2)]
    have "as_ref_unchecked x = Ok x" "as_ref_unchecked y = Ok y"
      using x y ok by (auto simp: reader_ok_def intro: inside_ref)
    moreover have "compares B (cmp_struct h cmp \<lparr>st_ptr = x, st_size = sz\<rparr> r \<lparr>st_ptr = y, st_size = sz'\<rparr> s)"
      using x y ok assms(6) by (intro cmp_struct_ok) (simp_all add: struct_inside_def st)
    ultimately show "compares B (cbind (clift (as_ref_unchecked x)) (\<lambda>p. cbind (clift (as_ref_unchecked y)) (\<lambda>q.
        cmp_struct h cmp \<lparr>st_ptr = p, st_size = sz\<rparr> r \<lparr>st_ptr = q, st_size = sz'\<rparr> s)))" by simp
  qed
  then show ?thesis by (simp add: cmp_list_def Let_def l(2) k(2) same struct_len_Ok ps(1) qs(1))
qed

lemma cmp_list_ok:
  assumes l: "list_inside h r l" and k: "list_inside h s k"
    and good: "0 < object_size (TList l) \<Longrightarrow> 0 < object_size (TList k) \<Longrightarrow> cmp_good h B cmp"
  shows "compares B (cmp_list h cmp l r k s)"
proof (cases "ls_element_count k = ls_element_count l \<and> as_ptr_size (ls_element_size l) = as_ptr_size (ls_element_size k) \<and>
    ls_element_count l \<noteq> u29_ZERO")
  case False
  then show ?thesis by (auto simp: cmp_list_def Let_def)
next
  case True
  then have n: "ls_element_count k = ls_element_count l" "ls_element_count l \<noteq> u29_ZERO" by simp_all
  then have pos: "0 < u29_val (ls_element_count l)" by (simp add: u29_eq_iff)
  show ?thesis
  proof (cases "is_inline_composite (ls_element_size l)")
    case comp: True
    obtain sz sz' where sz: "ls_element_size l = InlineComposite sz" "ls_element_size k = InlineComposite sz'"
      using comp True by (cases "ls_element_size l"; cases "ls_element_size k") auto
    have "cmp_good h B cmp" by (rule good) (simp_all add: sz list_object_words_def)
    then show ?thesis by (rule cmp_composites_ok [OF l sz(1) k sz(2) n(1)])
  next
    case flat: False
    then have e: "ls_element_size k = ls_element_size l" using True same_flat_size by blast
    consider "ls_element_size l = Void" | "ls_element_size l = Bit" | "ls_element_size l = Pointer"
      | "ls_element_size l \<in> {Byte, TwoBytes, FourBytes, EightBytes}"
      using flat by (cases "ls_element_size l") auto
    then show ?thesis
    proof cases
      case 1
      then show ?thesis using e n by (simp add: cmp_list_def Let_def)
    next
      case 2
      have "list_bytes h l \<noteq> []" "list_bytes h k \<noteq> []"
        using length_list_bytes [of h l] length_list_bytes [of h k] 2 e n(1) pos by (auto simp: unat_bits)
      then show ?thesis
        using cmp_bit_lists [OF l k n(1) _ 2 n(2)] 2 e by (auto intro!: compares_bind_lift bit_lists_safe)
    next
      case 3
      have "list_object_words Pointer m = m" for m by (simp add: list_object_words_def)
      with 3 e n l k good pos have "compares B (cmp_refs cmp r s (iter_unchecked (ls_ptr l) (ls_element_count l))
          (iter_unchecked (ls_ptr k) (ls_element_count l)))"
        by (intro cmp_refs_ok) (simp_all add: list_inside_def)
      with 3 e n show ?thesis by (simp add: cmp_list_def Let_def)
    next
      case 4
      show ?thesis by (simp add: cmp_flat_lists [OF l k n(1) e 4 n(2)])
    qed
  qed
qed

lemma cmp_content_ok:
  assumes "reader_ok h r" "located r t n" "reader_ok h s" "located s u k"
    and "0 < n \<Longrightarrow> 0 < k \<Longrightarrow> cmp_good h B cmp"
  shows "compares B (cmp_content h cmp t r u s)"
proof (cases t; cases u)
  fix c e assume "t = TStruct c" "u = TStruct e"
  with assms show ?thesis
    by (simp add: cmp_content_def) (rule cmp_struct_ok, auto simp: struct_inside_def located_def)
next
  fix l m assume "t = TList l" "u = TList m"
  with assms show ?thesis
    by (simp add: cmp_content_def) (rule cmp_list_ok, auto simp: list_inside_def located_def)
qed (simp_all add: cmp_content_def)

lemma cmp_ptr_good:
  assumes "source_ok ar h" "source_ok ar' h"
  shows "B < levels \<Longrightarrow> cmp_good h B (cmp_ptr h (arena_source ar) (arena_source ar') levels)"
proof (induction levels arbitrary: B)
  case (Suc levels)
  show ?case
    unfolding cmp_good_def
  proof (intro allI impI)
    fix p r q s assume p: "ref_ok h r p" and q: "ref_ok h s q"
    have d: "safe (deref h p)" "safe (deref h q)" using p q by (auto simp: ref_ok_def reader_ok_def intro: inside_deref)
    have "compares B (cbind (ours (try_read_typed h (arena_source ar) r p)) (\<lambda>x.
        cbind (theirs (try_read_typed h (arena_source ar') s q)) (\<lambda>y.
          case x of (t, r') \<Rightarrow> case y of (u, s') \<Rightarrow>
            cmp_content h (cmp_ptr h (arena_source ar) (arena_source ar') levels) t r' u s')))"
    proof (rule compares_both [OF message_source.try_read_typed_ok [OF assms(1)] message_source.try_read_typed_ok [OF assms(2)]],
        goal_cases)
      case (5 x n y n' k)
      have "cmp_good h (B - k) (cmp_ptr h (arena_source ar) (arena_source ar') levels)" if "0 < n" "0 < n'"
        by (rule Suc.IH) (use that 5(3,4) Suc.prems in auto)
      then show ?case using 5(1,2) by (auto intro!: cmp_content_ok)
    qed (use p q in \<open>simp_all add: ref_ok_def\<close>)
    then show "compares B (cmp_ptr h (arena_source ar) (arena_source ar') (Suc levels) p r q s)"
      unfolding cmp_ptr.simps cmp_ptr_at_def
      by (intro compares_bind_lift d) (auto simp: case_prod_beta')
  qed
qed simp

section \<open>More levels change no result\<close>

definition extends :: "'a comparing \<Rightarrow> 'a comparing \<Rightarrow> bool" where
  "extends m m' \<longleftrightarrow> (\<forall>l r. m l = Some r \<longrightarrow> m' l = Some r)"

lemma extends_refl [simp, intro]: "extends m m"
  by (simp add: extends_def)

lemma extends_bind:
  assumes "extends m m'" "\<And>x. extends (f x) (f' x)"
  shows "extends (cbind m f) (cbind m' f')"
  unfolding extends_def
proof (intro allI impI)
  fix l r assume r: "cbind m f l = Some r"
  then obtain x l' where m: "m l = Some (x, l')" by (auto simp: cbind_def split: option.splits)
  with assms(1) have "m' l = Some (x, l')" by (simp add: extends_def)
  with m r assms(2) show "cbind m' f' l = Some r" by (cases x; cases r) (auto simp: cbind_def extends_def)
qed

lemma extends_zipped:
  assumes "\<And>x y. extends (cmp x y) (cmp' x y)"
  shows "extends (cmp_zipped cmp equality xys) (cmp_zipped cmp' equality xys)"
proof (induction xys arbitrary: equality)
  case (Cons xy xys)
  obtain x y where "xy = (x, y)" by force
  with Cons assms show ?case by (auto intro!: extends_bind split: PtrEquality.split)
qed simp

definition cmp_extends :: "cmp_fn \<Rightarrow> cmp_fn \<Rightarrow> bool" where
  "cmp_extends cmp cmp' \<longleftrightarrow> (\<forall>p r q s. extends (cmp p r q s) (cmp' p r q s))"

lemma extends_refs: "cmp_extends cmp cmp' \<Longrightarrow> extends (cmp_refs cmp r s ps qs) (cmp_refs cmp' r s ps qs)"
  unfolding cmp_refs_def cmp_extends_def by (intro extends_zipped extends_bind) auto

lemma extends_struct: "cmp_extends cmp cmp' \<Longrightarrow> extends (cmp_struct h cmp c r e s) (cmp_struct h cmp' c r e s)"
  unfolding cmp_struct_def by (intro extends_bind) (auto intro!: extends_bind extends_refs)

lemma extends_list: "cmp_extends cmp cmp' \<Longrightarrow> extends (cmp_list h cmp l r k s) (cmp_list h cmp' l r k s)"
  by (auto simp: cmp_list_def Let_def intro!: extends_bind extends_refs extends_zipped extends_struct split: elem_size.split)

lemma extends_content: "cmp_extends cmp cmp' \<Longrightarrow> extends (cmp_content h cmp t r u s) (cmp_content h cmp' t r u s)"
  by (auto simp: cmp_content_def extends_struct extends_list split: typed_content.split)

lemma extends_at:
  "cmp_extends cmp cmp' \<Longrightarrow> extends (cmp_ptr_at h a a' cmp p r q s) (cmp_ptr_at h a a' cmp' p r q s)"
  unfolding cmp_ptr_at_def by (auto intro!: extends_bind extends_content)

lemma cmp_ptr_extends: "cmp_extends (cmp_ptr h a a' n) (cmp_ptr h a a' (n + k))"
proof (induction n)
  case 0
  show ?case by (simp add: cmp_extends_def extends_def)
next
  case (Suc n)
  show ?case
    unfolding add_Suc cmp_ptr.simps by (subst cmp_extends_def) (intro allI extends_at Suc)
qed

section \<open>What is read does not depend on the limiter\<close>

definition steady :: "'a reading \<Rightarrow> bool" where
  "steady m \<longleftrightarrow> (\<forall>l l' x y. fst (m l) = Ok x \<longrightarrow> fst (m l') = Ok y \<longrightarrow> x = y)"

lemma steady_lift [simp, intro]: "steady (rlift m)"
  by (simp add: steady_def rlift_def)

lemma rbind_Ok: "fst (rbind m f l) = Ok y \<longleftrightarrow> (\<exists>x l'. m l = (Ok x, l') \<and> fst (f x l') = Ok y)"
  by (auto simp: rbind_def split: prod.split outcome.split)

lemma steady_bind:
  assumes "steady m" "\<And>x. steady (f x)"
  shows "steady (rbind m f)"
  unfolding steady_def rbind_Ok
proof (intro allI impI, elim exE conjE)
  fix l l' x y u l1 v l2
  assume "m l = (Ok u, l1)" "fst (f u l1) = Ok x" "m l' = (Ok v, l2)" "fst (f v l2) = Ok y"
  moreover from this have "u = v" using assms(1) unfolding steady_def by (metis fst_conv)
  ultimately show "x = y" using assms(2) [of v] unfolding steady_def by blast
qed

lemma steady_if_true:
  assumes "\<And>b. fst (m l) = Ok b \<Longrightarrow> True" "steady (f True)" "\<And>l x. fst (f False l) \<noteq> Ok x"
  shows "steady (rbind m f)"
  unfolding steady_def rbind_Ok
proof (intro allI impI, elim exE conjE)
  fix l l' x y u l1 v l2
  assume a: "m l = (Ok u, l1)" "fst (f u l1) = Ok x" "m l' = (Ok v, l2)" "fst (f v l2) = Ok y"
  have "u" "v" using a(2,4) assms(3) by (metis (full_types))+
  with a assms(2) show "x = y" unfolding steady_def by (metis (full_types))
qed

lemma steady_limited:
  assumes "steady k"
  shows "steady (rbind m (\<lambda>b. if \<not> b then rerr e else k))"
  by (rule steady_if_true) (use assms in \<open>simp_all add: rlift_def\<close>)

lemma steady_amplified_if:
  "steady k \<Longrightarrow> steady (rbind (if c then try_amplified_read w else rok True) (\<lambda>b. if \<not> b then rerr e else k))"
  by (rule steady_limited)

lemma steady_object_in: "steady (try_read_object_in a r segment off len)"
  unfolding try_read_object_in_def by (intro steady_bind steady_lift steady_limited)

lemma steady_object_from_end: "steady (try_read_object_from_end_of r p off len)"
  unfolding try_read_object_from_end_of_def by (intro steady_bind steady_lift steady_limited)

lemma steady_read_at: "steady (read_at a r loc p len)"
  by (auto simp: read_at_def intro!: steady_bind steady_object_in steady_object_from_end split: location.split)

lemma steady_location: "steady (location_of h a r p)"
  by (auto simp: location_of_def intro!: steady_bind steady_object_in split: option.split)

lemma steady_struct_content: "steady (read_as_struct_content a r loc p)"
  by (auto simp: read_as_struct_content_def Let_def intro!: steady_bind steady_read_at)

lemma steady_expected: "steady (check_expected e pe ex)"
  by (auto simp: check_expected_def split: option.split)

lemma steady_composite: "steady (read_composite_content h a r loc p ex)"
  unfolding read_composite_content_def Let_def
  by (intro steady_bind steady_lift)
     (auto intro!: steady_bind steady_read_at steady_expected steady_limited simp: Let_def)

lemma steady_flat: "steady (read_flat_content a r loc p ex)"
  unfolding read_flat_content_def Let_def
  by (intro steady_bind steady_lift steady_expected steady_limited)
     (auto intro!: steady_bind steady_read_at)

lemma steady_list_content: "steady (read_as_list_content h a r loc p ex)"
  by (simp add: read_as_list_content_def steady_composite steady_flat)

lemma steady_typed: "steady (try_read_typed h a r p)"
  unfolding try_read_typed_def
  by (rule steady_bind [OF steady_location])
     (auto intro!: steady_bind steady_struct_content steady_list_content split: wire_kind.split)

section \<open>Comparing an object with itself\<close>

definition never_unequal :: "PtrEquality comparing \<Rightarrow> bool" where
  "never_unequal m \<longleftrightarrow> (\<forall>l e l'. m l = Some (Ok e, l') \<longrightarrow> e \<noteq> NotEqual)"

lemma never_ok [simp]: "never_unequal (cok e) \<longleftrightarrow> e \<noteq> NotEqual"
  by (auto simp: never_unequal_def clift_def)

lemma cbind_Ok: "cbind m f l = Some (Ok y, l') \<longleftrightarrow> (\<exists>x l1. m l = Some (Ok x, l1) \<and> f x l1 = Some (Ok y, l'))"
  by (auto simp: cbind_def split: option.split outcome.split)

lemma never_bind: "(\<And>x l l'. m l = Some (Ok x, l') \<Longrightarrow> never_unequal (f x)) \<Longrightarrow> never_unequal (cbind m f)"
  unfolding never_unequal_def cbind_Ok by blast

lemma never_lift: "(\<And>x. m = Ok x \<Longrightarrow> never_unequal (f x)) \<Longrightarrow> never_unequal (cbind (clift m) f)"
  by (rule never_bind) (simp add: clift_def)

lemma never_zipped:
  assumes "\<And>x. never_unequal (cmp x x)" "equality \<noteq> NotEqual"
  shows "never_unequal (cmp_zipped cmp equality (zip xs xs))"
  using assms(2)
proof (induction xs arbitrary: equality)
  case (Cons x xs)
  have "never_unequal (case e of Equal \<Rightarrow> cmp_zipped cmp equality (zip xs xs)
      | ContainsCaps \<Rightarrow> cmp_zipped cmp ContainsCaps (zip xs xs) | NotEqual \<Rightarrow> cok NotEqual)" if "e \<noteq> NotEqual" for e
    using that Cons by (cases e) auto
  moreover have "e \<noteq> NotEqual" if "cmp x x l = Some (Ok e, l')" for e l l'
    using assms(1) [of x] that unfolding never_unequal_def by blast
  ultimately show ?case by (auto intro!: never_bind)
qed simp

lemma never_refs:
  assumes "\<And>p. never_unequal (cmp p r p r)"
  shows "never_unequal (cmp_refs cmp r r ps ps)"
  unfolding cmp_refs_def by (intro never_zipped never_lift) (use assms in auto)

lemma never_struct:
  assumes "\<And>p. never_unequal (cmp p r p r)"
  shows "never_unequal (cmp_struct h cmp c r c r)"
  unfolding cmp_struct_def
  by (intro never_lift) (auto intro!: never_lift never_refs assms)

lemma never_list:
  assumes "\<And>p. never_unequal (cmp p r p r)"
  shows "never_unequal (cmp_list h cmp l r l r)"
proof (cases "ls_element_count l = u29_ZERO")
  case False
  have bits: "bit_lists_equal n xs xs = Ok e \<Longrightarrow> e" for n xs e
    by (auto simp: bit_lists_equal_def obind_Ok_iff Let_def split: if_splits)
  show ?thesis
    using False
    by (cases "ls_element_size l")
       (auto simp: cmp_list_def Let_def intro!: never_lift never_refs never_struct never_zipped assms dest: bits)
qed (simp add: cmp_list_def)

lemma never_content:
  assumes "\<And>p. never_unequal (cmp p r p r)"
  shows "never_unequal (cmp_content h cmp t r t r)"
  by (cases t) (simp_all add: cmp_content_def never_struct never_list assms)

lemma ours_theirs_same:
  assumes "ours (try_read_typed h a r p) l = Some (Ok x, l1)" "theirs (try_read_typed h a r p) l1 = Some (Ok y, l2)"
  shows "x = y"
proof -
  from assms(1) have "\<exists>k. fst (try_read_typed h a r p k) = Ok x" by (cases l) (auto split: prod.splits, (metis fst_conv)+)
  moreover from assms(2) have "\<exists>k. fst (try_read_typed h a r p k) = Ok y" by (cases l1) (auto split: prod.splits, (metis fst_conv)+)
  ultimately show ?thesis using steady_typed [of h a r p] unfolding steady_def by blast
qed

lemma never_ptr: "never_unequal (cmp_ptr h a a n p r p r)"
proof (induction n arbitrary: p r)
  case 0
  show ?case by (simp add: never_unequal_def)
next
  case (Suc n)
  have "never_unequal (cbind (ours (try_read_typed h a r p)) (\<lambda>(our_content, our_reader').
      cbind (theirs (try_read_typed h a r p)) (\<lambda>(their_content, their_reader').
        cmp_content h (cmp_ptr h a a n) our_content our_reader' their_content their_reader')))"
    unfolding never_unequal_def cbind_Ok
  proof (intro allI impI, elim exE conjE)
    fix l e l' x l1
    assume x: "ours (try_read_typed h a r p) l = Some (Ok x, l1)"
      and rest: "(case x of (our_content, our_reader') \<Rightarrow> cbind (theirs (try_read_typed h a r p)) (\<lambda>(their_content, their_reader').
        cmp_content h (cmp_ptr h a a n) our_content our_reader' their_content their_reader')) l1 = Some (Ok e, l')"
    obtain t s where t: "x = (t, s)" by force
    from rest [unfolded t prod.case cbind_Ok] obtain y l2 where y: "theirs (try_read_typed h a r p) l1 = Some (Ok y, l2)"
      "(case y of (u, v) \<Rightarrow> cmp_content h (cmp_ptr h a a n) t s u v) l2 = Some (Ok e, l')" by blast
    have "y = (t, s)" using ours_theirs_same [OF x y(1)] t by simp
    with y(2) never_content [of "cmp_ptr h a a n" s h t] Suc show "e \<noteq> NotEqual"
      unfolding never_unequal_def by auto
  qed
  then show ?case unfolding cmp_ptr.simps cmp_ptr_at_def by (intro never_lift) auto
qed

section \<open>Canonical sizes lose nothing\<close>

lemma trim_end_rest:
  shows "i < length xs \<Longrightarrow> length (trim_end null xs) \<le> i \<Longrightarrow> null (xs ! i)"
    and "trim_end null xs \<noteq> [] \<Longrightarrow> \<not> null (xs ! (length (trim_end null xs) - 1))"
proof -
  have "(i < length xs \<longrightarrow> length (trim_end null xs) \<le> i \<longrightarrow> null (xs ! i)) \<and>
    (trim_end null xs \<noteq> [] \<longrightarrow> \<not> null (xs ! (length (trim_end null xs) - 1)) \<and> length (trim_end null xs) \<le> length xs)" for i
  proof (induction xs arbitrary: i rule: rev_induct)
    case Nil
    then show ?case by (simp add: trim_end.simps)
  next
    case (snoc x xs)
    show ?case
    proof (cases "null x")
      case True
      then have t: "trim_end null (xs @ [x]) = trim_end null xs" by (subst trim_end.simps) simp
      have "length (trim_end null xs) - 1 < length xs" if "trim_end null xs \<noteq> []"
        using that length_trim_end [of null xs] by (cases "trim_end null xs") auto
      with snoc [of i] True length_trim_end [of null xs] show ?thesis by (auto simp: t nth_append)
    next
      case False
      then have "trim_end null (xs @ [x]) = xs @ [x]" by (subst trim_end.simps) simp
      with False show ?thesis by simp
    qed
  qed
  then show "i < length xs \<Longrightarrow> length (trim_end null xs) \<le> i \<Longrightarrow> null (xs ! i)"
    and "trim_end null xs \<noteq> [] \<Longrightarrow> \<not> null (xs ! (length (trim_end null xs) - 1))" by blast+
qed

text \<open>The words of a section of \<open>n\<close> words at \<open>p\<close> from the word \<open>k\<close> on are null; the word before is not.\<close>

definition null_from :: "heap \<Rightarrow> u64 \<Rightarrow> nat \<Rightarrow> nat \<Rightarrow> bool" where
  "null_from h p n k \<longleftrightarrow> k \<le> n \<and> (\<forall>i. k \<le> i \<and> i < n \<longrightarrow> mem h (addr p i) = Some Word_NULL)"

lemma words_at_nth: "i < n \<Longrightarrow> words_at h p n ! i = the (mem h (addr p i))"
  by (simp add: words_at_def addr_list_def)

lemma inside_mem: "seg_safe h (sg_segment s) \<Longrightarrow> inside s p n \<Longrightarrow> i < n \<Longrightarrow> mem h (addr p i) \<noteq> None"
  by (rule inside_words) (auto simp: addr_list_def)

lemma trim_null_from:
  assumes "seg_safe h (sg_segment s)" "inside s p n"
  defines "k \<equiv> length (trim_end_null_words (words_at h p n))"
  shows "null_from h p n k" "0 < k \<Longrightarrow> mem h (addr p (k - 1)) \<noteq> Some Word_NULL"
proof -
  have le: "k \<le> n" using length_trim_end [of is_null "words_at h p n"] by (simp add: k_def trim_end_null_words_def)
  have "mem h (addr p i) = Some Word_NULL" if "k \<le> i" "i < n" for i
  proof -
    have "is_null (words_at h p n ! i)"
      by (rule trim_end_rest(1)) (use that in \<open>simp_all add: k_def trim_end_null_words_def\<close>)
    with inside_mem [OF assms(1,2) that(2)] that(2) show ?thesis by (auto simp: words_at_nth is_null_def)
  qed
  with le show "null_from h p n k" by (simp add: null_from_def)
  assume "0 < k"
  then have "trim_end is_null (words_at h p n) \<noteq> []" by (simp add: k_def trim_end_null_words_def)
  from trim_end_rest(2) [OF this] have "\<not> is_null (words_at h p n ! (k - 1))"
    by (simp add: k_def trim_end_null_words_def)
  moreover have "k - 1 < n" using le \<open>0 < k\<close> by simp
  ultimately show "mem h (addr p (k - 1)) \<noteq> Some Word_NULL" by (auto simp: words_at_nth is_null_def)
qed

lemma null_from_mono: "null_from h p n k \<Longrightarrow> k \<le> j \<Longrightarrow> j \<le> n \<Longrightarrow> null_from h p n j"
  by (auto simp: null_from_def)

definition tight_size :: "heap \<Rightarrow> struct_size \<Rightarrow> u64 \<Rightarrow> struct_size \<Rightarrow> bool" where
  "tight_size h sz p t \<longleftrightarrow> null_from h p (unat (ss_data sz)) (unat (ss_data t)) \<and>
     null_from h (addr p (unat (ss_data sz))) (unat (ss_ptrs sz)) (unat (ss_ptrs t))"

lemma canonical_struct_ok:
  assumes "struct_inside h r c"
  obtains t where "calculate_canonical_struct_size h r (st_ptr c) (st_size c) = Ok t" "tight_size h (st_size c) (st_ptr c) t"
    "0 < unat (ss_data t) \<Longrightarrow> mem h (addr (st_ptr c) (unat (ss_data t) - 1)) \<noteq> Some Word_NULL"
    "0 < unat (ss_ptrs t) \<Longrightarrow> mem h (addr (st_ptr c) (unat (ss_data (st_size c)) + unat (ss_ptrs t) - 1)) \<noteq> Some Word_NULL"
proof -
  from assms have r: "reader_ok h r" and seg: "seg_safe h (sg_segment (seg_of r))"
    and ins: "inside (seg_of r) (st_ptr c) (unat (ss_data (st_size c)) + unat (ss_ptrs (st_size c)))"
    by (simp_all add: struct_inside_def reader_ok_def)
  obtain d p n where c: "u29_from_u16 (ss_data (st_size c)) = (Ok d :: (rerror, u29) outcome)"
      "section_slice h r (st_ptr c) d = Ok (words_at h (st_ptr c) (unat (ss_data (st_size c))))"
      "ptrs_start c = Ok p" "u29_from_u16 (ss_ptrs (st_size c)) = (Ok n :: (rerror, u29) outcome)"
      "u29_val n = unat (ss_ptrs (st_size c))" "inside (seg_of r) p (u29_val n)"
      "p = addr (st_ptr c) (unat (ss_data (st_size c)))"
    by (rule struct_sections [OF assms])
  define D where "D = length (trim_end_null_words (words_at h (st_ptr c) (unat (ss_data (st_size c)))))"
  define N where "N = length (trim_end_null_words (words_at h p (u29_val n)))"
  have "inside (seg_of r) (st_ptr c) (unat (ss_data (st_size c)))" by (rule inside_mono [OF ins]) simp
  note dn = trim_null_from [OF seg this, folded D_def] and pn = trim_null_from [OF seg c(6), folded N_def]
  have "unat (ss_data (st_size c)) < 2 ^ 16" "unat (ss_ptrs (st_size c)) < 2 ^ 16"
    using unsigned_less [of "ss_data (st_size c)"] unsigned_less [of "ss_ptrs (st_size c)"] by simp_all
  then have "D < 2 ^ 16" "N < 2 ^ 16" using dn(1) pn(1) by (auto simp: null_from_def c(5))
  then have u: "unat (of_nat D :: u16) = D" "unat (of_nat N :: u16) = N" by (simp_all add: unat_of_nat take_bit_nat_eq_self)
  have p: "obind (as_ref_unchecked (ptr_offset (st_ptr c) d)) f = f p" for f :: "_ \<Rightarrow> (rerror, struct_size) outcome"
    using c(1,3) by (simp add: ptrs_start_def)
  have "section_slice h r p n = Ok (words_at h p (u29_val n))" by (rule section_slice_ok [OF r c(6)])
  then have "calculate_canonical_struct_size h r (st_ptr c) (st_size c) =
      Ok \<lparr>ss_data = of_nat D, ss_ptrs = of_nat N\<rparr>"
    by (simp add: calculate_canonical_struct_size_def c(1,2,4) p D_def N_def)
  moreover have "addr p (N - 1) = addr (st_ptr c) (unat (ss_data (st_size c)) + N - 1)" if "0 < N"
  proof -
    have "unat (ss_data (st_size c)) + (N - 1) = unat (ss_data (st_size c)) + N - 1" using that by linarith
    then show ?thesis by (simp only: c(7) addr_addr)
  qed
  ultimately show thesis
    using dn pn
    by (intro that [of "\<lparr>ss_data = of_nat D, ss_ptrs = of_nat N\<rparr>"]) (simp_all add: tight_size_def u c(5,7) [symmetric])
qed

lemma fold_max_data: "unat (ss_data (fold (\<lambda>t acc. struct_max acc t) ts s)) = Max (insert (unat (ss_data s)) ((\<lambda>t. unat (ss_data t)) ` set ts))"
proof (induction ts arbitrary: s)
  case (Cons t ts)
  have "unat (ss_data (struct_max s t)) = max (unat (ss_data s)) (unat (ss_data t))"
    by (simp add: struct_max_def max_def word_le_nat_alt)
  then show ?case using Cons [of "struct_max s t"]
    by (cases "ts = []") (simp_all add: max.assoc insert_commute)
qed simp

lemma fold_max_ptrs: "unat (ss_ptrs (fold (\<lambda>t acc. struct_max acc t) ts s)) = Max (insert (unat (ss_ptrs s)) ((\<lambda>t. unat (ss_ptrs t)) ` set ts))"
proof (induction ts arbitrary: s)
  case (Cons t ts)
  have "unat (ss_ptrs (struct_max s t)) = max (unat (ss_ptrs s)) (unat (ss_ptrs t))"
    by (simp add: struct_max_def max_def word_le_nat_alt)
  then show ?case using Cons [of "struct_max s t"]
    by (cases "ts = []") (simp_all add: max.assoc insert_commute)
qed simp

definition canonical_of :: "heap \<Rightarrow> struct_size \<Rightarrow> u64 \<Rightarrow> struct_size \<Rightarrow> bool" where
  "canonical_of h sz p t \<longleftrightarrow> tight_size h sz p t \<and>
     (0 < unat (ss_data t) \<longrightarrow> mem h (addr p (unat (ss_data t) - 1)) \<noteq> Some Word_NULL) \<and>
     (0 < unat (ss_ptrs t) \<longrightarrow> mem h (addr p (unat (ss_data sz) + unat (ss_ptrs t) - 1)) \<noteq> Some Word_NULL)"

lemma canonical_sizes_ok:
  assumes "reader_ok h r" "\<And>d. d \<in> set ds \<Longrightarrow> inside (seg_of r) d (unat (ss_data sz) + unat (ss_ptrs sz))"
  shows "\<exists>ts. canonical_sizes h r sz ds = Ok ts \<and> list_all2 (canonical_of h sz) ds ts"
  using assms(2)
proof (induction ds)
  case (Cons d ds)
  then obtain ts where ts: "canonical_sizes h r sz ds = Ok ts" "list_all2 (canonical_of h sz) ds ts" by auto
  have ins: "inside (seg_of r) d (unat (ss_data sz) + unat (ss_ptrs sz))" using Cons.prems by simp
  obtain t where "calculate_canonical_struct_size h r d sz = Ok t" "canonical_of h sz d t"
    by (rule canonical_struct_ok [of h r "\<lparr>st_ptr = d, st_size = sz\<rparr>"])
       (use ins assms(1) in \<open>auto simp: struct_inside_def canonical_of_def\<close>)
  moreover have "as_ref_unchecked d = Ok d" using ins assms(1) by (auto simp: reader_ok_def intro: inside_ref)
  ultimately show ?case using ts by auto
qed simp

lemma canonical_max:
  assumes "list_all2 (canonical_of h sz) ds ts" "ts \<noteq> []"
  defines "t \<equiv> (case ts of [] \<Rightarrow> StructSize_EMPTY | s # ss \<Rightarrow> fold (\<lambda>t acc. struct_max acc t) ss s)"
  shows "\<And>d. d \<in> set ds \<Longrightarrow> tight_size h sz d t"
    and "0 < unat (ss_data t) \<Longrightarrow> \<exists>d \<in> set ds. mem h (addr d (unat (ss_data t) - 1)) \<noteq> Some Word_NULL"
    and "0 < unat (ss_ptrs t) \<Longrightarrow> \<exists>d \<in> set ds. mem h (addr d (unat (ss_data sz) + unat (ss_ptrs t) - 1)) \<noteq> Some Word_NULL"
proof -
  let ?D = "(\<lambda>t. unat (ss_data t)) ` set ts" and ?P = "(\<lambda>t. unat (ss_ptrs t)) ` set ts"
  have t: "unat (ss_data t) = Max ?D" "unat (ss_ptrs t) = Max ?P"
    using assms(2) by (auto simp: t_def fold_max_data fold_max_ptrs neq_Nil_conv)
  have ne: "finite ?D" "?D \<noteq> {}" "finite ?P" "?P \<noteq> {}" using assms(2) by auto
  have pair: "\<exists>d \<in> set ds. canonical_of h sz d u" if "u \<in> set ts" for u
    using assms(1) that by (metis in_set_conv_nth list_all2_conv_all_nth)
  have bound: "u \<in> set ts \<Longrightarrow> unat (ss_data u) \<le> unat (ss_data sz) \<and> unat (ss_ptrs u) \<le> unat (ss_ptrs sz)" for u
    using pair by (auto simp: canonical_of_def tight_size_def null_from_def)
  have max: "unat (ss_data t) \<le> unat (ss_data sz)" "unat (ss_ptrs t) \<le> unat (ss_ptrs sz)"
    unfolding t using ne bound by auto
  show "tight_size h sz d t" if "d \<in> set ds" for d
  proof -
    from \<open>d \<in> set ds\<close> obtain i where i: "i < length ds" "d = ds ! i" by (auto simp: in_set_conv_nth)
    with assms(1) have u: "ts ! i \<in> set ts" "canonical_of h sz d (ts ! i)" by (auto simp: list_all2_conv_all_nth)
    have "unat (ss_data (ts ! i)) \<le> unat (ss_data t)" "unat (ss_ptrs (ts ! i)) \<le> unat (ss_ptrs t)"
      unfolding t by (rule Max_ge, use u(1) in simp_all)+
    with u(2) max show ?thesis by (auto simp: canonical_of_def tight_size_def intro: null_from_mono)
  qed
  show "\<exists>d \<in> set ds. mem h (addr d (unat (ss_data t) - 1)) \<noteq> Some Word_NULL" if "0 < unat (ss_data t)"
  proof -
    obtain u where u: "u \<in> set ts" "unat (ss_data t) = unat (ss_data u)" using Max_in [OF ne(1,2)] t(1) by auto
    with pair [OF u(1)] that show ?thesis by (auto simp: canonical_of_def)
  qed
  show "\<exists>d \<in> set ds. mem h (addr d (unat (ss_data sz) + unat (ss_ptrs t) - 1)) \<noteq> Some Word_NULL" if "0 < unat (ss_ptrs t)"
  proof -
    obtain u where u: "u \<in> set ts" "unat (ss_ptrs t) = unat (ss_ptrs u)" using Max_in [OF ne(3,4)] t(2) by auto
    with pair [OF u(1)] that show ?thesis by (auto simp: canonical_of_def)
  qed
qed

section \<open>Properties\<close>

text \<open>C23: the canonical size of the structs of a list is no larger than their size and leaves out only null
  words, of every struct of the list. It is the least such: some struct has a word that is not null at
  its end, for the data and for the pointers.\<close>

theorem canonical_list_lossless:
  assumes "list_ok h l" and "lr_element_size l = InlineComposite sz" and "lr_element_count l \<noteq> u29_ZERO"
  shows "let n = u29_val (lr_element_count l);
      places = map (\<lambda>i. addr (lr_ptr l) ((unat (ss_data sz) + unat (ss_ptrs sz)) * i)) [0..<n] in
    \<exists>t. canonical_element_size h l = Ok (InlineComposite t) \<and> fits_inside t sz \<and>
      list_all (\<lambda>d. tight_size h sz d t) places \<and>
      (ss_data t = 0 \<or> list_ex (\<lambda>d. mem h (addr d (unat (ss_data t) - 1)) \<noteq> Some Word_NULL) places) \<and>
      (ss_ptrs t = 0 \<or> list_ex (\<lambda>d. mem h (addr d (unat (ss_data sz) + unat (ss_ptrs t) - 1)) \<noteq> Some Word_NULL) places)"
proof -
  let ?n = "lr_element_count l" and ?r = "lr_reader l"
  let ?places = "map (\<lambda>i. addr (lr_ptr l) ((unat (ss_data sz) + unat (ss_ptrs sz)) * i)) [0..<u29_val ?n]"
  have st: "u29_val (u29_clip (struct_total sz)) = unat (ss_data sz) + unat (ss_ptrs sz)"
    using struct_len_val [OF struct_len_Ok] .
  have r: "reader_ok h ?r" using assms(1) by (simp add: list_ok_def)
  have ins: "inside (seg_of ?r) (lr_ptr l) (u29_val ?n * u29_val (u29_clip (struct_total sz)))"
    using assms(1,2) unfolding list_ok_def st by (simp add: list_object_words_def)
  obtain ds where ds: "step_by_unchecked (lr_ptr l) (u29_clip (struct_total sz)) ?n = Ok ds" "length ds = u29_val ?n"
      "\<And>d. d \<in> set ds \<Longrightarrow> inside (seg_of ?r) d (u29_val (u29_clip (struct_total sz)))"
    by (rule step_by_ok [OF ins]) (rule that)
  have places: "ds = ?places" using ds(1) unfolding step_by_unchecked_def st by (auto split: option.splits if_splits)
  obtain ts where ts: "canonical_sizes h ?r sz ds = Ok ts" "list_all2 (canonical_of h sz) ds ts"
    using canonical_sizes_ok [OF r, of ds sz] ds(3) st by auto
  have "ds \<noteq> []" using ds(2) assms(3) by (auto simp: u29_eq_iff)
  then have ne: "ts \<noteq> []" using ts(2) by auto
  let ?t = "case ts of [] \<Rightarrow> StructSize_EMPTY | s # ss \<Rightarrow> fold (\<lambda>t acc. struct_max acc t) ss s"
  have eq: "canonical_element_size h l = Ok (InlineComposite ?t)"
    by (simp add: canonical_element_size_def assms(2) calculate_canonical_inline_composite_size_def struct_len_Ok ds(1) ts(1))
  note m = canonical_max [OF ts(2) ne]
  obtain d where "d \<in> set ds" using \<open>ds \<noteq> []\<close> by fastforce
  from m(1) [OF this] have "fits_inside ?t sz"
    by (simp add: fits_inside_def tight_size_def null_from_def word_le_nat_alt)
  with eq m show ?thesis
    unfolding Let_def places [symmetric]
    by (intro exI [of _ ?t]) (auto simp: list_all_iff list_ex_iff unat_gt_0)
qed

text \<open>C22: comparing any two pointers of readable messages, cyclic or not, ends without a panic where a limiter
  bounds what is read: with one level more than the words that may be read there is a result, more
  levels give the same, and no pointer differs from itself.\<close>

theorem equality_ends:
  assumes "source_ok ar h" and "source_ok ar' h" and "ptr_ok h p" and "ptr_ok h q" and "budget l = Some b"
  shows "(\<exists>x l'. ptr_equality h (arena_source ar) (arena_source ar') (Suc b + k) p q l = Some (x, l') \<and>
      ptr_equality h (arena_source ar) (arena_source ar') (Suc b) p q l = Some (x, l') \<and> safe x) \<and>
    (case ptr_equality h (arena_source ar) (arena_source ar) n p p l of Some (Ok NotEqual, _) \<Rightarrow> False | _ \<Rightarrow> True)"
proof
  have "ref_ok h (pr_reader p) (pr_ptr p)" "ref_ok h (pr_reader q) (pr_ptr q)"
    using assms(3,4) by (simp_all add: ptr_ok_def ref_ok_def)
  with cmp_ptr_good [OF assms(1,2), of b "Suc b"]
  have "compares b (ptr_equality h (arena_source ar) (arena_source ar') (Suc b) p q)"
    by (simp add: cmp_good_def ptr_equality_def)
  then obtain x l' b' where x: "ptr_equality h (arena_source ar) (arena_source ar') (Suc b) p q l = Some (x, l')" "safe x"
    by (rule comparesE [OF _ assms(5)]) auto
  with cmp_ptr_extends [of h "arena_source ar" "arena_source ar'" "Suc b" k]
  show "\<exists>x l'. ptr_equality h (arena_source ar) (arena_source ar') (Suc b + k) p q l = Some (x, l') \<and>
      ptr_equality h (arena_source ar) (arena_source ar') (Suc b) p q l = Some (x, l') \<and> safe x"
    unfolding cmp_extends_def extends_def ptr_equality_def by blast
  show "case ptr_equality h (arena_source ar) (arena_source ar) n p p l of Some (Ok NotEqual, _) \<Rightarrow> False | _ \<Rightarrow> True"
    using never_ptr [of h "arena_source ar" n "pr_ptr p" "pr_reader p"]
    by (auto simp: ptr_equality_def never_unequal_def split: option.split outcome.split PtrEquality.split)
qed

lemma drop_bit_mask_eq:
  fixes a b :: u8
  assumes "k \<le> 8"
  shows "a AND NOT (drop_bit k 255) = b AND NOT (drop_bit k 255) \<longleftrightarrow> drop_bit (8 - k) a = drop_bit (8 - k) b"
proof -
  have full: "bit (255 :: u8) i \<longleftrightarrow> i < 8" for i
  proof -
    have "(255 :: u8) = mask 8" by (simp add: mask_eq_exp_minus_1)
    then show ?thesis by (simp only: bit_mask_iff) auto
  qed
  have m: "bit (NOT (drop_bit k (255 :: u8))) i \<longleftrightarrow> i < 8 \<and> 8 - k \<le> i" for i
  proof -
    have "bit (drop_bit k (255 :: u8)) i \<longleftrightarrow> k + i < 8" by (simp only: bit_drop_bit_eq comp_def full)
    then show ?thesis using assms by (simp only: bit_not_iff) (auto dest: bit_imp_le_length)
  qed
  show ?thesis
  proof
    assume eq: "a AND NOT (drop_bit k 255) = b AND NOT (drop_bit k 255)"
    show "drop_bit (8 - k) a = drop_bit (8 - k) b"
    proof (rule bit_word_eqI)
      fix i :: nat
      have "bit (a AND NOT (drop_bit k 255)) (8 - k + i) = bit (b AND NOT (drop_bit k 255)) (8 - k + i)" by (simp only: eq)
      then show "bit (drop_bit (8 - k) a) i = bit (drop_bit (8 - k) b) i"
        by (auto simp: bit_and_iff m bit_drop_bit_eq dest: bit_imp_le_length)
    qed
  next
    assume eq: "drop_bit (8 - k) a = drop_bit (8 - k) b"
    show "a AND NOT (drop_bit k 255) = b AND NOT (drop_bit k 255)"
    proof (rule bit_word_eqI)
      fix i :: nat
      have "bit (drop_bit (8 - k) a) (i - (8 - k)) = bit (drop_bit (8 - k) b) (i - (8 - k))" by (simp only: eq)
      then show "bit (a AND NOT (drop_bit k 255)) i = bit (b AND NOT (drop_bit k 255)) i"
        by (auto simp: bit_and_iff m bit_drop_bit_eq)
    qed
  qed
qed

text \<open>Two bit lists of the same length \<open>n\<close>, \<open>k = n mod 8\<close> bits of which are in the last byte, the lowest ones.
  The comparison looks at the \<open>k\<close> highest bits of that byte: what it answers depends on padding, and for
  \<open>k \<le> 4\<close> not at all on the elements in the last byte.\<close>

lemma bit_lists_compare_padding:
  assumes "list_inside h r l" and "list_inside h s m" and "ls_element_size l = Bit" and "ls_element_size m = Bit"
    and "ls_element_count m = ls_element_count l" and "u29_val (ls_element_count l) mod 8 = k" and "0 < k"
  shows "cmp_list h cmp l r m s =
    cok (if butlast (list_bytes h l) = butlast (list_bytes h m) \<and>
        drop_bit (8 - k) (List.last (list_bytes h l)) = drop_bit (8 - k) (List.last (list_bytes h m))
      then Equal else NotEqual)"
proof -
  have n: "ls_element_count l \<noteq> u29_ZERO" using assms(6,7) by (auto simp: u29_eq_iff)
  then have pos: "0 < u29_val (ls_element_count l)" by (simp add: u29_eq_iff)
  have ne: "list_bytes h l \<noteq> []" "list_bytes h m \<noteq> []"
    using length_list_bytes [of h l] length_list_bytes [of h m] assms(3-5) pos by (auto simp: unat_bits)
  have "k \<le> 8" using assms(6) by auto
  note mask = drop_bit_mask_eq [OF this]
  have "bit_lists_equal k (list_bytes h l) (list_bytes h m) =
    Ok (butlast (list_bytes h l) = butlast (list_bytes h m) \<and>
      drop_bit (8 - k) (List.last (list_bytes h l)) = drop_bit (8 - k) (List.last (list_bytes h m)))"
    using ne assms(7) by (simp add: bit_lists_equal_def split_last_def Let_def mask del: drop_bit_numeral_bit1)
  then show ?thesis
    using cmp_bit_lists [OF assms(1,2,5,4,3) n, of cmp] by (simp add: assms(6))
qed

text \<open>Two notions of equality. Comparing what two pointers point to, a struct without pointers equals every
  struct with the same data, whatever pointers that has; the comparison of the pointer sections of two
  struct readers tells them apart.\<close>

lemma struct_pointers_ignored:
  assumes "struct_inside h r c" and "struct_inside h s e" and "ss_ptrs (st_size c) = 0"
    and "words_at h (st_ptr c) (unat (ss_data (st_size c))) = words_at h (st_ptr e) (unat (ss_data (st_size e)))"
    and "ptrs_start c = Ok p" and "ptrs_start e = Ok q" and "u29_val n = 0" and "u29_val k = unat (ss_ptrs (st_size e))"
    and "0 < u29_val k" and "mem h (addr q (u29_val k - 1)) \<noteq> Some Word_NULL"
  shows "cmp_struct h cmp c r e s = cok Equal \<and> cmp_ptr_sections h cmp p n r q k s = cok NotEqual"
proof
  obtain d p' n' where c: "u29_from_u16 (ss_data (st_size c)) = (Ok d :: (rerror, u29) outcome)"
      "section_slice h r (st_ptr c) d = Ok (words_at h (st_ptr c) (unat (ss_data (st_size c))))"
      "ptrs_start c = Ok p'" "u29_from_u16 (ss_ptrs (st_size c)) = (Ok n' :: (rerror, u29) outcome)"
      "u29_val n' = unat (ss_ptrs (st_size c))" "inside (seg_of r) p' (u29_val n')"
    by (rule struct_sections [OF assms(1)])
  obtain d' q' k' where e: "u29_from_u16 (ss_data (st_size e)) = (Ok d' :: (rerror, u29) outcome)"
      "section_slice h s (st_ptr e) d' = Ok (words_at h (st_ptr e) (unat (ss_data (st_size e))))"
      "ptrs_start e = Ok q'" "u29_from_u16 (ss_ptrs (st_size e)) = (Ok k' :: (rerror, u29) outcome)"
      "u29_val k' = unat (ss_ptrs (st_size e))" "inside (seg_of s) q' (u29_val k')"
    by (rule struct_sections [OF assms(2)])
  have "iter_unchecked p' n' = []" using c(5) assms(3) by (simp add: iter_unchecked_def addr_list_def)
  then show "cmp_struct h cmp c r e s = cok Equal"
    using assms(4) by (simp add: cmp_struct_def c(1-4) e(1-4) cmp_refs_def)
  have eq: "p' = p" "q' = q" "n' = n" "k' = k" using c(3,5) e(3,5) assms(3,5-8) by (simp_all add: u29_eq_iff)
  have r: "reader_ok h r" "reader_ok h s" and seg: "seg_safe h (sg_segment (seg_of s))"
    using assms(1,2) by (simp_all add: struct_inside_def reader_ok_def)
  obtain n1 where n1: "trim_end_null_section h r p n = Ok n1" "u29_val n1 \<le> u29_val n"
    by (rule trim_section_ok [OF r(1), of p n]) (use c(6) eq in auto)
  obtain k1 where k1: "trim_end_null_section h s q k = Ok k1"
      "u29_val k1 = length (trim_end_null_words (words_at h q (u29_val k)))"
    by (rule trim_section_ok [OF r(2), of q k]) (use e(6) eq in auto)
  have "null_from h q (u29_val k) (u29_val k1)" using trim_null_from(1) [OF seg] e(6) eq k1(2) by simp
  with assms(9,10) have "u29_val k1 \<noteq> 0"
    unfolding null_from_def by (metis diff_less le0 zero_less_one)
  then have "n1 \<noteq> k1" using n1(2) assms(7) by auto
  then show "cmp_ptr_sections h cmp p n r q k s = cok NotEqual"
    by (simp add: cmp_ptr_sections_def n1(1) k1(1))
qed

section \<open>Witnesses\<close>

text \<open>Two words, the second of them null, and their reader.\<close>

definition pair_heap :: heap where
  "pair_heap = \<lparr>mem = [64 \<mapsto> Word 1 0 0 0 0 0 0 0, 72 \<mapsto> Word_NULL], choices = []\<rparr>"

definition pair_reader :: object_reader where
  "pair_reader = \<lparr>or_segment = Some \<lparr>sg_data = 64, sg_len = u29_clip 2, sg_id = 0\<rparr>\<rparr>"

lemma pair_ok: "reader_ok pair_heap pair_reader" "seg_of pair_reader = \<lparr>sg_data = 64, sg_len = u29_clip 2, sg_id = 0\<rparr>"
proof -
  have "k < 2 \<longleftrightarrow> k = 0 \<or> k = (1 :: nat)" for k by auto
  then show "reader_ok pair_heap pair_reader"
    by (auto simp: reader_ok_def seg_of_def pair_reader_def seg_safe_def sg_segment_def pair_heap_def addr_def)
qed (simp add: seg_of_def pair_reader_def)

lemma pair_inside:
  "n \<le> 2 \<Longrightarrow> inside (seg_of pair_reader) 64 n" "n \<le> 1 \<Longrightarrow> inside (seg_of pair_reader) 72 n"
  by (auto simp: pair_ok(2) inside_def addr_def intro: exI [of _ "0 :: nat"] exI [of _ "1 :: nat"])

theorem canonical_list_lossless_witness:
  "\<exists>t. canonical_element_size pair_heap \<lparr>lr_ptr = 64, lr_reader = pair_reader, lr_element_count = u29_clip 1, lr_nesting = 9,
      lr_element_size = InlineComposite \<lparr>ss_data = 2, ss_ptrs = 0\<rparr>\<rparr> = Ok (InlineComposite t) \<and>
    fits_inside t \<lparr>ss_data = 2, ss_ptrs = 0\<rparr> \<and> tight_size pair_heap \<lparr>ss_data = 2, ss_ptrs = 0\<rparr> 64 t"
proof -
  let ?l = "\<lparr>lr_ptr = 64, lr_reader = pair_reader, lr_element_count = u29_clip 1, lr_nesting = 9,
      lr_element_size = InlineComposite \<lparr>ss_data = 2, ss_ptrs = 0\<rparr>\<rparr>"
  have "list_ok pair_heap ?l" by (simp add: list_ok_def pair_ok(1) pair_inside list_object_words_def)
  from canonical_list_lossless [OF this] show ?thesis by (auto simp: u29_eq_iff addr_def)
qed

theorem equality_ends_witness:
  "\<exists>x l'. ptr_equality loop_heap (arena_source loop_arena) (arena_source loop_arena) 9 loop_root loop_root (Shared (Some 8)) =
    Some (x, l') \<and> safe x"
proof -
  note p = ptr_root_ok(1) [OF loop_ok]
  have "budget (Shared (Some 8)) = Some 8" by simp
  from equality_ends [OF loop_ok(1) loop_ok(1) p p this, of 0 0] obtain x l' where
    "ptr_equality loop_heap (arena_source loop_arena) (arena_source loop_arena) (Suc 8) loop_root loop_root (Shared (Some 8)) =
      Some (x, l')" "safe x" by blast
  then show ?thesis by auto
qed

lemma bit_lists_compare_padding_witness:
  "let list = (\<lambda>p. \<lparr>ls_ptr = p, ls_element_size = Bit, ls_element_count = u29_clip 1\<rparr>) in
    list_bytes pair_heap (list 64) = [1] \<and> list_bytes pair_heap (list 72) = [0] \<and>
    cmp_list pair_heap (cmp_ptr pair_heap (\<lambda>_. None) (\<lambda>_. None) 0) (list 64) pair_reader (list 72) pair_reader = cok Equal"
proof -
  let ?l = "\<lambda>p. \<lparr>ls_ptr = p, ls_element_size = Bit, ls_element_count = u29_clip 1\<rparr>"
  have b: "list_bytes pair_heap (?l 64) = [1]" "list_bytes pair_heap (?l 72) = [0]"
    by (simp_all add: list_bytes_def words_at_def addr_list_def addr_def pair_heap_def Word_NULL_def)
  have "list_inside pair_heap pair_reader (?l 64)" "list_inside pair_heap pair_reader (?l 72)"
    by (simp_all add: list_inside_def pair_ok(1) pair_inside list_object_words_def)
  from bit_lists_compare_padding [OF this, of 1] show ?thesis by (simp add: Let_def b)
qed

lemma struct_pointers_ignored_witness:
  "let c = (\<lambda>n. \<lparr>st_ptr = 64, st_size = \<lparr>ss_data = 0, ss_ptrs = n\<rparr>\<rparr>); cmp = cmp_ptr pair_heap (\<lambda>_. None) (\<lambda>_. None) 0 in
    cmp_struct pair_heap cmp (c 0) pair_reader (c 1) pair_reader = cok Equal \<and>
    cmp_ptr_sections pair_heap cmp 64 u29_ZERO pair_reader 64 (u29_clip 1) pair_reader = cok NotEqual"
proof -
  let ?c = "\<lambda>n. \<lparr>st_ptr = 64, st_size = \<lparr>ss_data = 0, ss_ptrs = n\<rparr>\<rparr>"
  have "struct_inside pair_heap pair_reader (?c 0)" "struct_inside pair_heap pair_reader (?c 1)"
    by (simp_all add: struct_inside_def pair_ok(1) pair_inside)
  note s = struct_pointers_ignored [OF this, of 64 64 u29_ZERO "u29_clip 1" "cmp_ptr pair_heap (\<lambda>_. None) (\<lambda>_. None) 0"]
  have start: "ptrs_start (?c n) = Ok 64" for n
    by (simp add: ptrs_start_def u29_from_u16_def u29_new_unwrap_def u29_new_eq ptr_offset_def as_ref_unchecked_def)
  have "mem pair_heap (addr 64 0) \<noteq> Some Word_NULL" by (simp add: pair_heap_def addr_def Word_NULL_def)
  with s show ?thesis by (simp add: start Let_def)
qed

end
