(* ===== verification/Ptr_Builder.thy ===== *)
theory Ptr_Builder
  imports Ptr_Compare Built_Objects
begin

text \<open>
  The builders handed to the user (\<^verbatim>\<open>recapn/src/ptr.rs\<close>: \<open>PtrBuilder\<close>, \<open>StructBuilder\<close>,
  \<open>ListBuilder\<close>, \<open>OrphanBuilder\<close>), the clearing of what a pointer points to (\<open>Nullifier\<close>) and the
  promotion of structs and lists to larger ones. Capability tables are a parameter: the function
  \<open>clear_cap\<close> of the table. A function that hands its builder back with an error returns the error; the
  copying of values read elsewhere is left out.
\<close>

record ptr_builder =
  pb_builder :: object_builder
  pb_ptr :: u64

definition ptr_builder_root :: "'a message \<Rightarrow> (rerror, ptr_builder) outcome" where
  "ptr_builder_root m = obind (builder_segment m 0) (\<lambda>s. Ok \<lparr>pb_builder = 0, pb_ptr = seg_data (as_segment s)\<rparr>)"

definition pb_is_null :: "'a message \<Rightarrow> ptr_builder \<Rightarrow> (rerror, bool) outcome" where
  "pb_is_null m p = obind (deref (mg_heap m) (pb_ptr p)) (\<lambda>w. Ok (is_null w))"

definition pb_as_reader :: "'a message \<Rightarrow> ptr_builder \<Rightarrow> (rerror, ptr_reader) outcome" where
  "pb_as_reader m p = obind (builder_as_reader m (pb_builder p)) (\<lambda>r.
     Ok \<lparr>pr_ptr = pb_ptr p, pr_reader = r, pr_nesting = - 1\<rparr>)"

definition pb_ptr_type :: "'a message \<Rightarrow> ptr_builder \<Rightarrow> (rerror, ptr_type) outcome" where
  "pb_ptr_type m p = obind (pb_is_null m p) (\<lambda>null. if null then Ok PtNull
     else obind (locate m (pb_builder p) (pb_ptr p)) (\<lambda>(c, _).
       if is_struct (ct_ptr c) then Ok PtStruct
       else if is_list (ct_ptr c) then Ok PtList
       else if is_capability (ct_ptr c) then Ok PtCapability
       else Panic))"

text \<open>Error handlers: \<open>Some\<close> error to break with, or \<open>None\<close> to write null and go on.\<close>

type_synonym error_handler = "rerror \<Rightarrow> rerror option"

definition IgnoreErrors :: error_handler where "IgnoreErrors e = None"
definition ReturnErrors :: error_handler where "ReturnErrors e = Some e"

definition map_control_flow :: "rerror option \<Rightarrow> (rerror, unit) outcome" where
  "map_control_flow flow = (case flow of Some b \<Rightarrow> Err b | None \<Rightarrow> Ok ())"

section \<open>Clearing\<close>

text \<open>Clearing recurses as deep as the objects do; without enough levels it has no result.\<close>

type_synonym ('a, 'b) clearing = "'a message \<Rightarrow> ((rerror, 'b) outcome \<times> 'a message) option"

definition now :: "('a, 'b) build \<Rightarrow> ('a, 'b) clearing" where
  "now m = (\<lambda>s. Some (m s))"

definition nbind :: "('a, 'b) clearing \<Rightarrow> ('b \<Rightarrow> ('a, 'c) clearing) \<Rightarrow> ('a, 'c) clearing" where
  "nbind m f = (\<lambda>s. case m s of
     None \<Rightarrow> None
   | Some (Ok x, s') \<Rightarrow> f x s' | Some (Err e, s') \<Rightarrow> Some (Err e, s')
   | Some (Panic, s') \<Rightarrow> Some (Panic, s') | Some (UB, s') \<Rightarrow> Some (UB, s'))"

abbreviation nret :: "'b \<Rightarrow> ('a, 'b) clearing" where "nret x \<equiv> now (bret x)"

text \<open>The table's \<open>clear_cap\<close> and the error handler; \<open>Empty\<close> is the table that has no capabilities.\<close>

record nullifier =
  nl_clear_cap :: "u32 \<Rightarrow> (rerror, unit) outcome"
  nl_handle_err :: error_handler

definition empty_clear_cap :: "u32 \<Rightarrow> (rerror, unit) outcome" where
  "empty_clear_cap index = Err CapabilityNotAllowed"

type_synonym 'a clear_fn = "object_builder \<Rightarrow> u64 \<Rightarrow> ('a, unit) clearing"

fun clear_refs :: "'a clear_fn \<Rightarrow> object_builder \<Rightarrow> u64 list \<Rightarrow> ('a, unit) clearing" where
  "clear_refs clear b [] = nret ()"
| "clear_refs clear b (p # ps) =
     nbind (now (bget (\<lambda>_. as_ref_unchecked p))) (\<lambda>ptr.
     nbind (now (bget (\<lambda>m. deref (mg_heap m) ptr))) (\<lambda>w.
       if is_null w then clear_refs clear b ps
       else nbind (clear b ptr) (\<lambda>_. clear_refs clear b ps)))"

definition clear_ptr_section :: "'a clear_fn \<Rightarrow> object_builder \<Rightarrow> u64 \<Rightarrow> u29 \<Rightarrow> ('a, unit) clearing" where
  "clear_ptr_section clear b ptr len = clear_refs clear b (iter_unchecked ptr len)"

definition clear_struct :: "'a clear_fn \<Rightarrow> object_builder \<Rightarrow> struct_content \<Rightarrow> ('a, unit) clearing" where
  "clear_struct clear b c =
     nbind (now (bget (\<lambda>_. ptrs_start c))) (\<lambda>ptrs.
     nbind (now (bget (\<lambda>_. u29_from_u16 (ss_ptrs (st_size c))))) (\<lambda>n.
     nbind (clear_ptr_section clear b ptrs n) (\<lambda>_. now (clear_struct_section b c))))"

text \<open>The loop over \<open>iter_inline_composites\<close>.\<close>

fun clear_composites :: "'a clear_fn \<Rightarrow> object_builder \<Rightarrow> struct_size \<Rightarrow> u64 list \<Rightarrow> ('a, unit) clearing" where
  "clear_composites clear b sz [] = nret ()"
| "clear_composites clear b sz (d # ds) =
     nbind (now (bget (\<lambda>_. as_ref_unchecked d))) (\<lambda>src_data.
     nbind (now (bget (\<lambda>_. obind (u29_from_u16 (ss_data sz)) (\<lambda>n. as_ref_unchecked (ptr_offset src_data n))))) (\<lambda>ptrs.
     nbind (now (bget (\<lambda>_. u29_from_u16 (ss_ptrs sz)))) (\<lambda>n.
     nbind (clear_ptr_section clear b ptrs n) (\<lambda>_. clear_composites clear b sz ds))))"

definition clear_list :: "'a clear_fn \<Rightarrow> object_builder \<Rightarrow> list_content \<Rightarrow> ('a, unit) clearing" where
  "clear_list clear b c = (case ls_element_size c of
     Pointer \<Rightarrow> clear_ptr_section clear b (ls_ptr c) (ls_element_count c)
   | InlineComposite sz \<Rightarrow>
       nbind (now (bget (\<lambda>_. obind (struct_len sz) (\<lambda>step. step_by_unchecked (ls_ptr c) step (ls_element_count c))))) (\<lambda>places.
       nbind (clear_composites clear b sz places) (\<lambda>_. now (clear_list_section b c)))
   | _ \<Rightarrow> now (clear_list_section b c))"

text \<open>Where a struct or list is; a list of bytes may be in a segment of another owner, \<open>None\<close>.\<close>

definition locate_struct_place :: "'a message \<Rightarrow> object_builder \<Rightarrow> location \<Rightarrow> parts \<Rightarrow>
    (rerror, u64 \<times> object_builder) outcome" where
  "locate_struct_place m b loc p = expect_ok (build_at m b loc p)"

definition locate_list_place :: "'a message \<Rightarrow> object_builder \<Rightarrow> location \<Rightarrow> parts \<Rightarrow>
    (rerror, (u64 \<times> object_builder) option) outcome" where
  "locate_list_place m b loc p = (case loc of
     DoubleFar segment off \<Rightarrow> obind (build_object_in m segment off) (\<lambda>r. case r of
         Some place \<Rightarrow> Ok (Some place)
       | None \<Rightarrow> if element_size p = PByte then Ok None else Panic)
   | _ \<Rightarrow> obind (build_at m b loc p) (\<lambda>place. Ok (Some place)))"

definition remove_external :: "location \<Rightarrow> ('a, unit) build" where
  "remove_external loc m = (case loc of
     DoubleFar segment off \<Rightarrow> (case remove_external_segment (mg_arena m) segment of
         Ok ar \<Rightarrow> (Ok (), m\<lparr>mg_arena := ar\<rparr>) | UB \<Rightarrow> (UB, m) | _ \<Rightarrow> (Panic, m))
   | _ \<Rightarrow> (Ok (), m))"

definition cleared_list_content :: "'a message \<Rightarrow> u64 \<Rightarrow> parts \<Rightarrow> (rerror, list_content) outcome" where
  "cleared_list_content m start lp =
     obind (element_count lp) (\<lambda>count.
       if element_size lp = PInlineComposite then
         obind (deref (mg_heap m) start) (\<lambda>w.
         obind (unwrap (struct_ptr w)) (\<lambda>tag.
         obind (as_ref_unchecked (ptr_offset start (u29_clip 1))) (\<lambda>content_start.
           Ok \<lparr>ls_ptr = content_start, ls_element_size = InlineComposite (struct_ptr_size tag), ls_element_count = count\<rparr>)))
       else Ok \<lparr>ls_ptr = start, ls_element_size = to_element_size (element_size lp), ls_element_count = count\<rparr>)"

definition clear_content :: "nullifier \<Rightarrow> 'a clear_fn \<Rightarrow> object_builder \<Rightarrow> content \<Rightarrow> ('a, unit) clearing" where
  "clear_content N clear b c = (case kind (ct_ptr c) of
     KStruct \<Rightarrow> nbind (now (bget (\<lambda>_. unwrap (struct_ptr (ct_ptr c))))) (\<lambda>p.
       if struct_ptr_size p = StructSize_EMPTY then nret ()
       else nbind (now (bget (\<lambda>m. locate_struct_place m b (ct_location c) p))) (\<lambda>(start, b').
         clear_struct clear b' \<lparr>st_ptr = start, st_size = struct_ptr_size p\<rparr>))
   | KList \<Rightarrow> nbind (now (bget (\<lambda>_. unwrap (list_ptr (ct_ptr c))))) (\<lambda>p.
       nbind (now (bget (\<lambda>m. locate_list_place m b (ct_location c) p))) (\<lambda>r. case r of
         None \<Rightarrow> now (remove_external (ct_location c))
       | Some (start, b') \<Rightarrow>
           nbind (now (bget (\<lambda>m. cleared_list_content m start p))) (\<lambda>l. clear_list clear b' l)))
   | KOther \<Rightarrow> nbind (now (bget (\<lambda>_. unwrap (cap_ptr (ct_ptr c))))) (\<lambda>p.
       now (bget (\<lambda>_. case nl_clear_cap N (capability_index p) of
         Err e \<Rightarrow> map_control_flow (nl_handle_err N e) | r \<Rightarrow> r)))
   | KFar \<Rightarrow> now (bget (\<lambda>_. Panic)))"

primrec clear_ptr :: "nullifier \<Rightarrow> nat \<Rightarrow> 'a clear_fn" where
  "clear_ptr N 0 = (\<lambda>_ _ _. None)"
| "clear_ptr N (Suc levels) = (\<lambda>b place.
     nbind (now (bget (\<lambda>m. locate m b place))) (\<lambda>(c, b').
     nbind (now (clear_ptrs b place)) (\<lambda>_.
       clear_content N (clear_ptr N levels) b' c)))"

definition pb_try_clear :: "nullifier \<Rightarrow> nat \<Rightarrow> ptr_builder \<Rightarrow> ('a, unit) clearing" where
  "pb_try_clear N levels p = nbind (now (bget (\<lambda>m. pb_is_null m p))) (\<lambda>null.
     if null then nret () else clear_ptr N levels (pb_builder p) (pb_ptr p))"

text \<open>\<open>unwrap\<close> of the result of a whole clearing.\<close>

definition nexpect :: "('a, 'b) clearing \<Rightarrow> ('a, 'b) clearing" where
  "nexpect m = (\<lambda>s. map_option (\<lambda>(r, s'). (expect_ok r, s')) (m s))"

definition pb_clear :: "(u32 \<Rightarrow> (rerror, unit) outcome) \<Rightarrow> nat \<Rightarrow> ptr_builder \<Rightarrow> ('a, unit) clearing" where
  "pb_clear clear_cap levels p =
     nexpect (pb_try_clear \<lparr>nl_clear_cap = clear_cap, nl_handle_err = IgnoreErrors\<rparr> levels p)"

section \<open>Setting a pointer\<close>

definition struct_builder_of :: "object_builder \<Rightarrow> u64 \<Rightarrow> struct_size \<Rightarrow> (rerror, struct_builder) outcome" where
  "struct_builder_of b start sz =
     obind (u29_from_u16 (ss_data sz)) (\<lambda>n.
     obind (as_ref_unchecked (ptr_offset start n)) (\<lambda>ptrs_start.
       Ok \<lparr>sb_builder = b, sb_data_start = start, sb_ptrs_start = ptrs_start, sb_data_len = ucast (ss_data sz) * 8,
         sb_ptrs_len = ss_ptrs sz\<rparr>))"

definition try_init_struct_zeroed :: "'a alloc_fn \<Rightarrow> ptr_builder \<Rightarrow> struct_size \<Rightarrow> ('a, struct_builder) build" where
  "try_init_struct_zeroed alloc p sz =
     bbind (alloc_struct alloc (pb_builder p) (pb_ptr p) sz) (\<lambda>(struct_start, b).
       bget (\<lambda>_. struct_builder_of b struct_start sz))"

definition try_init_struct :: "'a alloc_fn \<Rightarrow> (u32 \<Rightarrow> (rerror, unit) outcome) \<Rightarrow> nat \<Rightarrow> ptr_builder \<Rightarrow> struct_size \<Rightarrow>
    ('a, struct_builder) clearing" where
  "try_init_struct alloc clear_cap levels p sz =
     nbind (pb_clear clear_cap levels p) (\<lambda>_. now (try_init_struct_zeroed alloc p sz))"

definition init_struct :: "'a alloc_fn \<Rightarrow> (u32 \<Rightarrow> (rerror, unit) outcome) \<Rightarrow> nat \<Rightarrow> ptr_builder \<Rightarrow> struct_size \<Rightarrow>
    ('a, struct_builder) clearing" where
  "init_struct alloc clear_cap levels p sz = nexpect (try_init_struct alloc clear_cap levels p sz)"

definition try_init_list :: "'a alloc_fn \<Rightarrow> (u32 \<Rightarrow> (rerror, unit) outcome) \<Rightarrow> nat \<Rightarrow> ptr_builder \<Rightarrow> elem_size \<Rightarrow> u29 \<Rightarrow>
    ('a, list_builder) clearing" where
  "try_init_list alloc clear_cap levels p e n =
     nbind (pb_clear clear_cap levels p) (\<lambda>_.
     nbind (now (alloc_list alloc (pb_builder p) (pb_ptr p) e n)) (\<lambda>(start, _, b).
       nret \<lparr>lb_builder = b, lb_ptr = start, lb_element_count = n, lb_element_size = e\<rparr>))"

text \<open>A blob is the address of its bytes and their number.\<close>

definition try_init_blob :: "'a alloc_fn \<Rightarrow> (u32 \<Rightarrow> (rerror, unit) outcome) \<Rightarrow> nat \<Rightarrow> ptr_builder \<Rightarrow> u29 \<Rightarrow>
    ('a, u64 \<times> u29) clearing" where
  "try_init_blob alloc clear_cap levels p n =
     nbind (pb_clear clear_cap levels p) (\<lambda>_.
     nbind (now (alloc_list alloc (pb_builder p) (pb_ptr p) Byte n)) (\<lambda>(start, _, _). nret (start, n)))"

definition on_heap :: "(heap \<Rightarrow> (rerror, heap) outcome) \<Rightarrow> ('a, unit) build" where
  "on_heap f m = (case f (mg_heap m) of
     Ok h \<Rightarrow> (Ok (), m\<lparr>mg_heap := h\<rparr>) | Err e \<Rightarrow> (Err e, m) | Panic \<Rightarrow> (Panic, m) | UB \<Rightarrow> (UB, m))"

text \<open>\<open>set_blob\<close> of the bytes \<open>value\<close>, with \<open>assert_eq!\<close> of the lengths.\<close>

definition set_blob :: "'a alloc_fn \<Rightarrow> (u32 \<Rightarrow> (rerror, unit) outcome) \<Rightarrow> nat \<Rightarrow> ptr_builder \<Rightarrow> u8 list \<Rightarrow>
    ('a, u64 \<times> u29) clearing" where
  "set_blob alloc clear_cap levels p value =
     nbind (now (bget (\<lambda>_. unwrap (u29_new (of_nat (length value)))))) (\<lambda>len.
     nbind (nexpect (try_init_blob alloc clear_cap levels p len)) (\<lambda>(ptr, n).
     nbind (now (bget (\<lambda>_. assert_that (n = len)))) (\<lambda>_.
     nbind (now (on_heap (write_bytes ptr value))) (\<lambda>_. nret (ptr, n)))))"

definition to_blob_mut :: "'a message \<Rightarrow> ptr_builder \<Rightarrow> (rerror, (u64 \<times> u29) option) outcome" where
  "to_blob_mut m p = obind (pb_is_null m p) (\<lambda>null. if null then Ok None
     else obind (build_list m (pb_builder p) (pb_ptr p)) (\<lambda>(l, _).
       if ls_element_size l \<noteq> Byte then Err (fail_upgrade (as_ptr_size (ls_element_size l)) PByte)
       else Ok (Some (ls_ptr l, ls_element_count l))))"

definition set_capability_ptr :: "ptr_builder \<Rightarrow> u32 \<Rightarrow> ('a, unit) build" where
  "set_capability_ptr p index = set_ptr (pb_builder p) (pb_ptr p) (word_of_parts (cap_ptr_new index))"

section \<open>Moving what a pointer points to\<close>

definition transfer_parts :: "'a alloc_fn \<Rightarrow> object_builder \<Rightarrow> u64 \<Rightarrow> object_builder \<Rightarrow> parts \<Rightarrow> u64 \<Rightarrow> ('a, Word) build" where
  "transfer_parts alloc src_builder dst dst_builder p src_content =
     bbind (bget (\<lambda>m. builder_id m src_builder)) (\<lambda>src_segment.
     bbind (bget (\<lambda>m. builder_id m dst_builder)) (\<lambda>dst_segment.
       if src_segment = dst_segment then
         bbind (bget (\<lambda>m. offset_from_end_of m dst_builder dst src_content)) (\<lambda>new_offset.
           bret (word_of_parts (set_content_offset p new_offset)))
       else bbind (alloc_in_segment src_builder nz29_ONE) (\<lambda>r. case r of
         Some new_content_ptr \<Rightarrow>
           bbind (bget (\<lambda>m. offset_from_end_of m src_builder new_content_ptr src_content)) (\<lambda>off.
           bbind (set_ptr src_builder new_content_ptr (word_of_parts (set_content_offset p off))) (\<lambda>_.
           bbind (bget (\<lambda>m. offset_from_start m src_builder new_content_ptr)) (\<lambda>far_offset.
             bret (word_of_parts (far_ptr_new src_segment far_offset False)))))
       | None \<Rightarrow> bbind (alloc_double_far_landing_pad alloc dst_builder) (\<lambda>r. case r of
           Some (new_double_far, tag, double_far_builder) \<Rightarrow>
             bbind (bget (\<lambda>m. builder_id m double_far_builder)) (\<lambda>double_far_segment.
             bbind (bget (\<lambda>m. offset_from_start m double_far_builder new_double_far)) (\<lambda>double_far_offset.
             bbind (bget (\<lambda>m. offset_from_start m src_builder src_content)) (\<lambda>content_off.
             bbind (set_ptr double_far_builder new_double_far (word_of_parts (far_ptr_new src_segment content_off False))) (\<lambda>_.
             bbind (bget (\<lambda>_. i30_from_i16 0)) (\<lambda>zero.
             bbind (set_ptr double_far_builder tag (word_of_parts (set_content_offset p zero))) (\<lambda>_.
               bret (word_of_parts (far_ptr_new double_far_segment double_far_offset True))))))))
         | None \<Rightarrow> bfail (AllocFailed LANDING_PAD_LEN)))))"

definition transfer_ptr :: "'a alloc_fn \<Rightarrow> u64 \<Rightarrow> object_builder \<Rightarrow> u64 \<Rightarrow> object_builder \<Rightarrow> ('a, unit) build" where
  "transfer_ptr alloc src src_builder dst dst_builder =
     bbind (bget (\<lambda>m. obind (deref (mg_heap m) dst) (\<lambda>w. assert_that (is_null w)))) (\<lambda>_.
     bbind (bget (\<lambda>m. deref (mg_heap m) src)) (\<lambda>ptr.
       if is_null ptr then bret ()
       else bbind (if kind ptr = KStruct \<or> kind ptr = KList then
             bbind (bget (\<lambda>_. content_offset (parts_of_word ptr))) (\<lambda>off.
             bbind (bget (\<lambda>_. ptr_signed_offset_from_end src off)) (\<lambda>src_content.
               transfer_parts alloc src_builder dst dst_builder (parts_of_word ptr) src_content))
           else bret ptr) (\<lambda>new_ptr. set_ptr dst_builder dst new_ptr)))"

fun transfer_ptrs :: "'a alloc_fn \<Rightarrow> object_builder \<Rightarrow> object_builder \<Rightarrow> (u64 \<times> u64) list \<Rightarrow> ('a, unit) build" where
  "transfer_ptrs alloc src_builder dst_builder [] = bret ()"
| "transfer_ptrs alloc src_builder dst_builder ((s, d) # rest) =
     bbind (bget (\<lambda>_. as_ref_unchecked s)) (\<lambda>src. bbind (bget (\<lambda>_. as_ref_unchecked d)) (\<lambda>dst.
     bbind (transfer_ptr alloc src src_builder dst dst_builder) (\<lambda>_. transfer_ptrs alloc src_builder dst_builder rest)))"

definition transfer_ptr_section :: "'a alloc_fn \<Rightarrow> u64 \<Rightarrow> object_builder \<Rightarrow> u64 \<Rightarrow> object_builder \<Rightarrow> u29 \<Rightarrow> ('a, unit) build" where
  "transfer_ptr_section alloc src src_builder dst dst_builder len =
     transfer_ptrs alloc src_builder dst_builder (zip (iter_unchecked src len) (iter_unchecked dst len))"

definition section_slice_mut :: "'a message \<Rightarrow> object_builder \<Rightarrow> u64 \<Rightarrow> u29 \<Rightarrow> (rerror, Word list) outcome" where
  "section_slice_mut m b start off = obind (contains_section m b start off) (\<lambda>c.
     obind (assert_that c) (\<lambda>_. read_words (mg_heap m) (addr_list start (u29_val off))))"

fun write_words :: "u64 list \<Rightarrow> Word list \<Rightarrow> ('a, unit) build" where
  "write_words (x # xs) (w # ws) = bbind (write_word x w) (\<lambda>_. write_words xs ws)"
| "write_words _ _ = bret ()"

definition promote_struct :: "'a alloc_fn \<Rightarrow> u64 \<Rightarrow> struct_size \<Rightarrow> object_builder \<Rightarrow> u64 \<Rightarrow> u64 \<Rightarrow> object_builder \<Rightarrow>
    ('a, unit) build" where
  "promote_struct alloc src src_size src_builder dst_data dst_ptrs dst_builder =
     bbind (bget (\<lambda>_. u29_from_u16 (ss_data src_size))) (\<lambda>data_len.
     bbind (bget (\<lambda>m. section_slice_mut m src_builder src data_len)) (\<lambda>src_words.
     bbind (bget (\<lambda>m. section_slice_mut m dst_builder dst_data data_len)) (\<lambda>_.
     bbind (write_words (addr_list dst_data (length src_words)) src_words) (\<lambda>_.
     bbind (bget (\<lambda>_. as_ref_unchecked (ptr_offset src data_len))) (\<lambda>src_ptrs.
     bbind (bget (\<lambda>_. u29_from_u16 (ss_ptrs src_size))) (\<lambda>n.
       transfer_ptr_section alloc src_ptrs src_builder dst_ptrs dst_builder n))))))"

text \<open>\<open>copy_data!\<close> for elements of \<open>n\<close> bytes: each goes to the start of its struct.\<close>

fun copy_elements :: "nat \<Rightarrow> u64 list \<Rightarrow> u8 list \<Rightarrow> ('a, unit) build" where
  "copy_elements n [] bs = bret ()"
| "copy_elements n (d # ds) bs =
     bbind (bget (\<lambda>_. as_ref_unchecked d)) (\<lambda>dst.
     bbind (on_heap (write_bytes dst (take n bs))) (\<lambda>_. copy_elements n ds (drop n bs)))"

definition copy_data :: "nat \<Rightarrow> u64 \<Rightarrow> elem_size \<Rightarrow> object_builder \<Rightarrow> u64 list \<Rightarrow> u29 \<Rightarrow> ('a, unit) build" where
  "copy_data n src src_size src_builder dst_structs len =
     bbind (bget (\<lambda>_. unwrap (u29_new (total_words src_size len)))) (\<lambda>total_size.
     bbind (bget (\<lambda>m. section_slice_mut m src_builder src total_size)) (\<lambda>src_words.
     bbind (bget (\<lambda>_. slice_to (n * u29_val len) (slice_to_bytes src_words))) (\<lambda>src_bytes.
       copy_elements n dst_structs src_bytes)))"

fun promote_structs :: "'a alloc_fn \<Rightarrow> struct_size \<Rightarrow> object_builder \<Rightarrow> struct_size \<Rightarrow> object_builder \<Rightarrow> (u64 \<times> u64) list \<Rightarrow>
    ('a, unit) build" where
  "promote_structs alloc src_size src_builder dst_size dst_builder [] = bret ()"
| "promote_structs alloc src_size src_builder dst_size dst_builder ((s, d) # rest) =
     bbind (bget (\<lambda>_. as_ref_unchecked s)) (\<lambda>src_struct. bbind (bget (\<lambda>_. as_ref_unchecked d)) (\<lambda>dst_struct.
     bbind (bget (\<lambda>_. obind (u29_from_u16 (ss_data dst_size)) (\<lambda>n. as_ref_unchecked (ptr_offset dst_struct n)))) (\<lambda>dst_ptrs.
     bbind (promote_struct alloc src_struct src_size src_builder dst_struct dst_ptrs dst_builder) (\<lambda>_.
       promote_structs alloc src_size src_builder dst_size dst_builder rest))))"

definition promote_list :: "'a alloc_fn \<Rightarrow> u64 \<Rightarrow> elem_size \<Rightarrow> object_builder \<Rightarrow> u64 \<Rightarrow> struct_size \<Rightarrow> object_builder \<Rightarrow> u29 \<Rightarrow>
    ('a, unit) build" where
  "promote_list alloc src src_size src_builder dst dst_size dst_builder len =
     bbind (bget (\<lambda>_. obind (struct_len dst_size) (\<lambda>step. step_by_unchecked dst step len))) (\<lambda>dst_structs.
     case src_size of
       Void \<Rightarrow> bret () | Bit \<Rightarrow> bret ()
     | Byte \<Rightarrow> copy_data 1 src src_size src_builder dst_structs len
     | TwoBytes \<Rightarrow> copy_data 2 src src_size src_builder dst_structs len
     | FourBytes \<Rightarrow> copy_data 4 src src_size src_builder dst_structs len
     | EightBytes \<Rightarrow> copy_data 8 src src_size src_builder dst_structs len
     | Pointer \<Rightarrow> transfer_ptr_section alloc src src_builder dst dst_builder len
     | InlineComposite sz \<Rightarrow>
         bbind (bget (\<lambda>_. obind (struct_len sz) (\<lambda>step. step_by_unchecked src step len))) (\<lambda>src_structs.
           promote_structs alloc sz src_builder dst_size dst_builder (zip src_structs dst_structs)))"

definition to_struct_mut_inner :: "'a alloc_fn \<Rightarrow> ptr_builder \<Rightarrow> struct_size option \<Rightarrow> ('a, struct_builder) build" where
  "to_struct_mut_inner alloc p expected_size =
     bbind (bget (\<lambda>m. build_struct m (pb_builder p) (pb_ptr p))) (\<lambda>(existing_struct, existing_builder).
       let existing_size = st_size existing_struct in
       case (case expected_size of Some e \<Rightarrow> if fits_inside e existing_size then None else Some (struct_max e existing_size)
             | None \<Rightarrow> None) of
         None \<Rightarrow> bget (\<lambda>_. struct_builder_of existing_builder (st_ptr existing_struct) existing_size)
       | Some promotion_size \<Rightarrow>
           bbind (clear_ptrs (pb_builder p) (pb_ptr p)) (\<lambda>_.
           bbind (alloc_struct alloc (pb_builder p) (pb_ptr p) promotion_size) (\<lambda>(new_start, new_builder).
           bbind (bget (\<lambda>_. struct_builder_of new_builder new_start promotion_size)) (\<lambda>s.
           bbind (promote_struct alloc (st_ptr existing_struct) existing_size existing_builder new_start
             (sb_ptrs_start s) new_builder) (\<lambda>_.
           bbind (bget (\<lambda>_. struct_len existing_size)) (\<lambda>len.
           bbind (clear_section existing_builder (st_ptr existing_struct) len) (\<lambda>_. bret s)))))))"

text \<open>\<open>None\<close> is the error of a null pointer, \<open>Err((None, self))\<close>.\<close>

definition to_struct_mut :: "'a alloc_fn \<Rightarrow> ptr_builder \<Rightarrow> struct_size option \<Rightarrow> ('a, struct_builder option) build" where
  "to_struct_mut alloc p expected_size = bbind (bget (\<lambda>m. pb_is_null m p)) (\<lambda>null. if null then bret None
     else bbind (to_struct_mut_inner alloc p expected_size) (\<lambda>s. bret (Some s)))"

definition to_struct_mut_or_init :: "'a alloc_fn \<Rightarrow> (u32 \<Rightarrow> (rerror, unit) outcome) \<Rightarrow> nat \<Rightarrow> ptr_builder \<Rightarrow> struct_size \<Rightarrow>
    ('a, struct_builder) clearing" where
  "to_struct_mut_or_init alloc clear_cap levels p sz = (\<lambda>m. case to_struct_mut alloc p (Some sz) m of
     (Ok (Some s), m') \<Rightarrow> Some (Ok s, m')
   | (Ok None, m') \<Rightarrow> init_struct alloc clear_cap levels p sz m'
   | (Err e, m') \<Rightarrow> init_struct alloc clear_cap levels p sz m'
   | (Panic, m') \<Rightarrow> Some (Panic, m') | (UB, m') \<Rightarrow> Some (UB, m'))"

definition to_list_mut_inner :: "'a alloc_fn \<Rightarrow> ptr_builder \<Rightarrow> elem_size option \<Rightarrow> ('a, list_builder) build" where
  "to_list_mut_inner alloc p expected_element_size =
     bbind (bget (\<lambda>m. build_list m (pb_builder p) (pb_ptr p))) (\<lambda>(existing_list, b).
       let existing_size = ls_element_size existing_list; len = ls_element_count existing_list in
       bbind (bget (\<lambda>_. case expected_element_size of
           None \<Rightarrow> Ok None
         | Some expected \<Rightarrow> (case upgrade_to existing_size expected of
             None \<Rightarrow> Err (fail_upgrade (as_ptr_size existing_size) (as_ptr_size expected))
           | Some upgrade \<Rightarrow> if upgrade = existing_size then Ok None
               else (case upgrade of InlineComposite sz \<Rightarrow> Ok (Some sz) | _ \<Rightarrow> Panic)))) (\<lambda>upgrade. case upgrade of
         None \<Rightarrow> bret \<lparr>lb_builder = b, lb_ptr = ls_ptr existing_list, lb_element_count = len, lb_element_size = existing_size\<rparr>
       | Some upgrade_size \<Rightarrow>
           bbind (clear_ptrs (pb_builder p) (pb_ptr p)) (\<lambda>_.
           bbind (alloc_list alloc (pb_builder p) (pb_ptr p) (InlineComposite upgrade_size) len) (\<lambda>(new_list_ptr, _, new_builder).
           bbind (promote_list alloc (ls_ptr existing_list) existing_size b new_list_ptr upgrade_size new_builder len) (\<lambda>_.
           bbind (clear_list_section b existing_list) (\<lambda>_.
             bret \<lparr>lb_builder = new_builder, lb_ptr = new_list_ptr, lb_element_count = len,
               lb_element_size = InlineComposite upgrade_size\<rparr>))))))"

definition to_list_mut :: "'a alloc_fn \<Rightarrow> ptr_builder \<Rightarrow> elem_size option \<Rightarrow> ('a, list_builder option) build" where
  "to_list_mut alloc p expected = bbind (bget (\<lambda>m. pb_is_null m p)) (\<lambda>null. if null then bret None
     else bbind (to_list_mut_inner alloc p expected) (\<lambda>l. bret (Some l)))"

definition to_list_mut_or_empty :: "'a alloc_fn \<Rightarrow> ptr_builder \<Rightarrow> elem_size option \<Rightarrow> ('a, list_builder) build" where
  "to_list_mut_or_empty alloc p expected = (\<lambda>m.
     let empty = \<lparr>lb_builder = pb_builder p, lb_ptr = pb_ptr p, lb_element_count = u29_ZERO,
       lb_element_size = (case expected of Some e \<Rightarrow> e | None \<Rightarrow> Void)\<rparr> in
     case to_list_mut alloc p expected m of
       (Ok (Some l), m') \<Rightarrow> (Ok l, m') | (Ok None, m') \<Rightarrow> (Ok empty, m') | (Err e, m') \<Rightarrow> (Ok empty, m')
     | (Panic, m') \<Rightarrow> (Panic, m') | (UB, m') \<Rightarrow> (UB, m'))"

section \<open>Orphans\<close>

record orphan_builder =
  ob_builder :: object_builder
  ob_object :: "orphan_object option"

text \<open>\<open>same_message\<close> is whether the other builder is one of this message.\<close>

definition disown_into :: "ptr_builder \<Rightarrow> object_builder \<Rightarrow> bool \<Rightarrow> ('a, orphan_builder) build" where
  "disown_into p orphanage same_message =
     bbind (bget (\<lambda>_. assert_that same_message)) (\<lambda>_.
     bbind (bget (\<lambda>m. deref (mg_heap m) (pb_ptr p))) (\<lambda>w.
       if is_null w then bret \<lparr>ob_builder = orphanage, ob_object = None\<rparr>
       else
         bbind (set_ptr (pb_builder p) (pb_ptr p) Word_NULL) (\<lambda>_.
         bbind (bget (\<lambda>m. builder_id m (pb_builder p))) (\<lambda>i. case kind w of
           KStruct \<Rightarrow> bget (\<lambda>m. obind (unwrap (struct_ptr w)) (\<lambda>sp. obind (content_offset sp) (\<lambda>off.
             obind (build_object_from_end_in m orphanage i (pb_ptr p) off) (\<lambda>r. obind (unwrap r) (\<lambda>(location, b).
               Ok \<lparr>ob_builder = b, ob_object = Some (OrphanStruct location (struct_ptr_size sp))\<rparr>)))))
         | KList \<Rightarrow> bget (\<lambda>m. obind (unwrap (list_ptr w)) (\<lambda>lp. obind (content_offset lp) (\<lambda>off.
             obind (build_object_from_end_in m orphanage i (pb_ptr p) off) (\<lambda>r. obind (unwrap r) (\<lambda>(location, b).
             obind (element_count lp) (\<lambda>n.
               Ok \<lparr>ob_builder = b, ob_object = Some (OrphanList location (element_size lp) n)\<rparr>))))))
         | KFar \<Rightarrow> bget (\<lambda>m. obind (unwrap (far_ptr w)) (\<lambda>fp. obind (far_offset fp) (\<lambda>off.
             obind (build_object_in m (far_segment fp) off) (\<lambda>r. obind (unwrap r) (\<lambda>(location, b).
               Ok \<lparr>ob_builder = b, ob_object = Some (OrphanFar location (double_far fp))\<rparr>)))))
         | KOther \<Rightarrow> bget (\<lambda>_. obind (unwrap (cap_ptr w)) (\<lambda>cp.
             Ok \<lparr>ob_builder = orphanage, ob_object = Some (OrphanCapability (capability_index cp))\<rparr>))))))"

definition adopt_parts :: "'a alloc_fn \<Rightarrow> ptr_builder \<Rightarrow> object_builder \<Rightarrow> u64 \<Rightarrow> parts \<Rightarrow> ('a, unit) build" where
  "adopt_parts alloc p orphan location base_ptr =
     (let b = pb_builder p; ptr = pb_ptr p in
      if orphan = b then
        bbind (bget (\<lambda>m. offset_from_end_of m b ptr location)) (\<lambda>off.
          set_ptr b ptr (word_of_parts (set_content_offset base_ptr off)))
      else bbind (alloc_in_segment orphan nz29_ONE) (\<lambda>r. case r of
        Some landing_pad \<Rightarrow>
          bbind (bget (\<lambda>m. offset_from_end_of m orphan landing_pad location)) (\<lambda>off.
          bbind (set_ptr orphan ptr (word_of_parts (set_content_offset base_ptr off))) (\<lambda>_.
          bbind (bget (\<lambda>m. offset_from_start m orphan landing_pad)) (\<lambda>far_offset.
          bbind (bget (\<lambda>m. builder_id m orphan)) (\<lambda>i.
            set_ptr b ptr (word_of_parts (far_ptr_new i far_offset False))))))
      | None \<Rightarrow> bbind (alloc_double_far_landing_pad alloc b) (\<lambda>r. case r of
          Some (far, tag, pad_builder) \<Rightarrow>
            bbind (bget (\<lambda>m. offset_from_start m b location)) (\<lambda>far_offset.
            bbind (bget (\<lambda>m. builder_id m b)) (\<lambda>i.
            bbind (set_ptr pad_builder far (word_of_parts (far_ptr_new i far_offset False))) (\<lambda>_.
            bbind (set_ptr pad_builder tag (word_of_parts base_ptr)) (\<lambda>_.
            bbind (bget (\<lambda>m. offset_from_start m pad_builder far)) (\<lambda>pad_offset.
            bbind (bget (\<lambda>m. builder_id m pad_builder)) (\<lambda>j.
              set_ptr b ptr (word_of_parts (far_ptr_new j pad_offset True))))))))
        | None \<Rightarrow> bfail (AllocFailed LANDING_PAD_LEN))))"

definition try_adopt :: "'a alloc_fn \<Rightarrow> (u32 \<Rightarrow> (rerror, unit) outcome) \<Rightarrow> nat \<Rightarrow> ptr_builder \<Rightarrow> orphan_builder \<Rightarrow> bool \<Rightarrow>
    ('a, unit) clearing" where
  "try_adopt alloc clear_cap levels p orphan same_message =
     (if \<not> same_message then now (bfail OrphanFromDifferentMessage)
      else nbind (pb_clear clear_cap levels p) (\<lambda>_. now (case ob_object orphan of
        None \<Rightarrow> bret ()
      | Some (OrphanFar location double) \<Rightarrow>
          bbind (bget (\<lambda>m. offset_from_start m (ob_builder orphan) location)) (\<lambda>off.
          bbind (bget (\<lambda>m. builder_id m (ob_builder orphan))) (\<lambda>i.
            set_ptr (pb_builder p) (pb_ptr p) (word_of_parts (far_ptr_new i off double))))
      | Some (OrphanCapability index) \<Rightarrow> set_capability_ptr p index
      | Some (OrphanStruct location sz) \<Rightarrow> bbind (bget (\<lambda>_. i30_from_i16 0)) (\<lambda>zero.
          adopt_parts alloc p (ob_builder orphan) location (struct_ptr_new zero sz))
      | Some (OrphanList location e n) \<Rightarrow> bbind (bget (\<lambda>_. i30_from_i16 0)) (\<lambda>zero.
          adopt_parts alloc p (ob_builder orphan) location (list_ptr_new zero e n)))))"

section \<open>Fields and elements\<close>

definition sb_as_reader :: "'a message \<Rightarrow> struct_builder \<Rightarrow> (rerror, struct_reader) outcome" where
  "sb_as_reader m s = obind (builder_as_reader m (sb_builder s)) (\<lambda>r.
     Ok \<lparr>sr_data_start = sb_data_start s, sr_ptrs_start = sb_ptrs_start s, sr_reader = r, sr_nesting = - 1,
       sr_data_len = sb_data_len s, sr_ptrs_len = sb_ptrs_len s\<rparr>)"

definition lb_as_reader :: "'a message \<Rightarrow> list_builder \<Rightarrow> (rerror, list_reader) outcome" where
  "lb_as_reader m l = obind (builder_as_reader m (lb_builder l)) (\<lambda>r.
     Ok \<lparr>lr_ptr = lb_ptr l, lr_reader = r, lr_element_count = lb_element_count l, lr_nesting = - 1,
       lr_element_size = lb_element_size l\<rparr>)"

definition sb_size :: "struct_builder \<Rightarrow> struct_size" where
  "sb_size s = \<lparr>ss_data = ucast (round_up_byte_count (sb_data_len s)), ss_ptrs = sb_ptrs_len s\<rparr>"

definition ptr_field_mut :: "struct_builder \<Rightarrow> u16 \<Rightarrow> (rerror, ptr_builder option) outcome" where
  "ptr_field_mut s slot = (if slot < sb_ptrs_len s then
     obind (u29_from_u16 slot) (\<lambda>off. obind (as_ref_unchecked (ptr_offset (sb_ptrs_start s) off)) (\<lambda>q.
       Ok (Some \<lparr>pb_builder = sb_builder s, pb_ptr = q\<rparr>)))
     else Ok None)"

definition ptr_section_mut :: "struct_builder \<Rightarrow> (rerror, list_builder) outcome" where
  "ptr_section_mut s = obind (u29_from_u16 (sb_ptrs_len s)) (\<lambda>n.
     Ok \<lparr>lb_builder = sb_builder s, lb_ptr = sb_ptrs_start s, lb_element_count = n, lb_element_size = Pointer\<rparr>)"

definition ptr_mut_unchecked :: "list_builder \<Rightarrow> u32 \<Rightarrow> (rerror, ptr_builder) outcome" where
  "ptr_mut_unchecked l index =
     obind (assert_that (index < u29_inner (lb_element_count l))) (\<lambda>_.
     obind (assert_that (case lb_element_size l of Pointer \<Rightarrow> True | InlineComposite sz \<Rightarrow> ss_ptrs sz \<noteq> 0 | _ \<Rightarrow> False)) (\<lambda>_.
       let base_offset = builder_index_to_offset l index;
         data_offset = (case lb_element_size l of InlineComposite sz \<Rightarrow> ucast (ss_data sz) * 8 | _ \<Rightarrow> 0) in
       obind (as_ref_unchecked (lb_ptr l + (base_offset + data_offset))) (\<lambda>q.
         Ok \<lparr>pb_builder = lb_builder l, pb_ptr = q\<rparr>)))"

definition struct_mut_unchecked :: "list_builder \<Rightarrow> u32 \<Rightarrow> (rerror, struct_builder) outcome" where
  "struct_mut_unchecked l index =
     obind (assert_that (index < u29_inner (lb_element_count l))) (\<lambda>_.
     obind (assert_that (is_inline_composite (lb_element_size l))) (\<lambda>_.
       case bytes_and_ptrs (lb_element_size l) of (data_len, ptrs_len) \<Rightarrow>
         let struct_start = lb_ptr l + builder_index_to_offset l index in
         obind (as_ref_unchecked struct_start) (\<lambda>d.
         obind (as_ref_unchecked (struct_start + ucast data_len)) (\<lambda>q.
           Ok \<lparr>sb_builder = lb_builder l, sb_data_start = d, sb_ptrs_start = q, sb_data_len = data_len,
             sb_ptrs_len = ptrs_len\<rparr>))))"

end
