(* ===== verification/Cleared_Objects.thy ===== *)
theory Cleared_Objects
  imports Ptr_Builder Built_Lists
begin

text \<open>
  What clearing a pointer does to the memory of a message: it ends, however the pointers in it refer to
  each other, and only nulls words.
\<close>

section \<open>Words that are not null\<close>

definition wipes :: "'a message \<Rightarrow> 'a message \<Rightarrow> bool" where
  "wipes m m' \<longleftrightarrow> (\<exists>A \<subseteq> dom (mem (mg_heap m)).
     m' = m\<lparr>mg_heap := (mg_heap m)\<lparr>mem := (\<lambda>x. if x \<in> A then Some Word_NULL else mem (mg_heap m) x)\<rparr>\<rparr>)"

definition filled :: "'a message \<Rightarrow> u64 set" where
  "filled m = {x. mem (mg_heap m) x \<noteq> None \<and> mem (mg_heap m) x \<noteq> Some Word_NULL}"

lemma wipesI: "A \<subseteq> dom (mem (mg_heap m)) \<Longrightarrow>
    wipes m (m\<lparr>mg_heap := (mg_heap m)\<lparr>mem := (\<lambda>x. if x \<in> A then Some Word_NULL else mem (mg_heap m) x)\<rparr>\<rparr>)"
  by (auto simp: wipes_def)

lemma wipes_refl [simp, intro]: "wipes m m"
  using wipesI [of "{}" m] by simp

lemma wipes_trans:
  assumes "wipes m m'" and "wipes m' m''"
  shows "wipes m m''"
proof -
  obtain A where A: "A \<subseteq> dom (mem (mg_heap m))"
    "m' = m\<lparr>mg_heap := (mg_heap m)\<lparr>mem := (\<lambda>x. if x \<in> A then Some Word_NULL else mem (mg_heap m) x)\<rparr>\<rparr>"
    using assms(1) by (auto simp: wipes_def)
  obtain B where B: "B \<subseteq> dom (mem (mg_heap m'))"
    "m'' = m'\<lparr>mg_heap := (mg_heap m')\<lparr>mem := (\<lambda>x. if x \<in> B then Some Word_NULL else mem (mg_heap m') x)\<rparr>\<rparr>"
    using assms(2) by (auto simp: wipes_def)
  have "A \<union> B \<subseteq> dom (mem (mg_heap m))" using A B(1) by (auto simp: dom_def split: if_splits)
  moreover have "m'' = m\<lparr>mg_heap := (mg_heap m)\<lparr>mem := (\<lambda>x. if x \<in> A \<union> B then Some Word_NULL else mem (mg_heap m) x)\<rparr>\<rparr>"
    using A(2) B(2) by (auto intro!: arg_cong [where f = "\<lambda>f. m\<lparr>mg_heap := mg_heap m\<lparr>mem := f\<rparr>\<rparr>"])
  ultimately show ?thesis unfolding wipes_def by blast
qed

lemma wipes_filled: "wipes m m' \<Longrightarrow> filled m' \<subseteq> filled m"
  by (auto simp: wipes_def filled_def split: if_splits)

lemma wipes_card: "wipes m m' \<Longrightarrow> card (filled m') \<le> card (filled m)"
  by (intro card_mono wipes_filled finite)

lemma wipes_null: "wipes m m' \<Longrightarrow> mem (mg_heap m) x = Some Word_NULL \<Longrightarrow> mem (mg_heap m') x = Some Word_NULL"
  by (auto simp: wipes_def)

section \<open>Operations that only null words\<close>

definition wiping :: "('a, 'b) build \<Rightarrow> bool" where
  "wiping f \<longleftrightarrow> (\<forall>m. wipes m (snd (f m)))"

lemma wiping_get [simp, intro]: "wiping (bget q)"
  by (simp add: wiping_def bget_def)

lemma wiping_bind [intro]: "wiping f \<Longrightarrow> (\<And>x. wiping (g x)) \<Longrightarrow> wiping (bbind f g)"
  unfolding wiping_def bbind_def by (auto split: prod.split outcome.split intro: wipes_trans)

lemma wiping_write: "wiping (write_word x Word_NULL)"
proof -
  have "wipes m (m\<lparr>mg_heap := put_words [x] (Some Word_NULL) (mg_heap m)\<rparr>)" if "mem (mg_heap m) x \<noteq> None" for m :: "'a message"
    using wipesI [of "{x}" m] that by (simp add: put_words_def dom_def)
  then show ?thesis by (auto simp: wiping_def write_word_def)
qed

lemma wiping_set: "wiping (set_ptr b x Word_NULL)"
  unfolding set_ptr_def by (intro wiping_bind wiping_get wiping_write)

lemma wiping_section: "wiping (clear_section b start off)"
proof -
  have "wipes m (m\<lparr>mg_heap := put_words xs (Some Word_NULL) (mg_heap m)\<rparr>)"
    if "list_all (\<lambda>x. mem (mg_heap m) x \<noteq> None) xs" for m :: "'a message" and xs
    using wipesI [of "set xs" m] that by (force simp: put_words_def list_all_iff)
  then show ?thesis unfolding clear_section_def
    by (intro wiping_bind wiping_get) (auto simp: wiping_def Let_def)
qed

lemma wiping_pads: "wiping (clear_pads far)"
  unfolding clear_pads_def by (intro wiping_bind wiping_get) (auto split: option.split intro!: wiping_bind wiping_set)

lemma wiping_ptrs: "wiping (clear_ptrs b p)"
  unfolding clear_ptrs_def
  by (intro wiping_bind wiping_get) (auto split: option.split intro!: wiping_pads wiping_set)

lemma wiping_struct_section: "wiping (clear_struct_section b c)"
  unfolding clear_struct_section_def by (intro wiping_bind wiping_get wiping_section)

lemma wiping_list_section: "wiping (clear_list_section b c)"
  unfolding clear_list_section_def by (auto split: option.split intro!: wiping_bind wiping_section)

section \<open>Clearings that end\<close>

definition ends :: "('a, 'b) clearing \<Rightarrow> 'a message \<Rightarrow> bool" where
  "ends c m \<longleftrightarrow> (\<exists>r m'. c m = Some (r, m') \<and> wipes m m')"

lemma ends_now: "wiping f \<Longrightarrow> ends (now f) m"
  unfolding ends_def now_def wiping_def by (cases "f m") (metis snd_conv)

lemma ends_bind:
  assumes "ends c m" and "\<And>x m'. c m = Some (Ok x, m') \<Longrightarrow> wipes m m' \<Longrightarrow> ends (f x) m'"
  shows "ends (nbind c f) m"
proof -
  obtain r m' where r: "c m = Some (r, m')" "wipes m m'" using assms(1) by (auto simp: ends_def)
  show ?thesis
  proof (cases r)
    case (Ok x)
    then show ?thesis using r assms(2) by (auto simp: ends_def nbind_def intro: wipes_trans)
  qed (use r in \<open>auto simp: ends_def nbind_def\<close>)
qed

lemma ends_get: "(\<And>x. q m = Ok x \<Longrightarrow> ends (f x) m) \<Longrightarrow> ends (nbind (now (bget q)) f) m"
  by (rule ends_bind) (auto simp: ends_def now_def bget_def)

lemma ends_ret [simp]: "ends (nret x) m"
  by (intro ends_now wiping_get)

definition cleaner :: "nat \<Rightarrow> 'a clear_fn \<Rightarrow> bool" where
  "cleaner k clear \<longleftrightarrow> (\<forall>b p m. card (filled m) \<le> k \<longrightarrow> p \<in> filled m \<longrightarrow> ends (clear b p) m)"

lemma ends_refs: "cleaner k clear \<Longrightarrow> card (filled m) \<le> k \<Longrightarrow> ends (clear_refs clear b ps) m"
proof (induction ps arbitrary: m)
  case (Cons p ps)
  show ?case unfolding clear_refs.simps
  proof (intro ends_get)
    fix x w assume w: "deref (mg_heap m) x = Ok w"
    have "ends (nbind (clear b x) (\<lambda>_. clear_refs clear b ps)) m" if "\<not> is_null w"
    proof (rule ends_bind)
      have "x \<in> filled m" using w that by (auto simp: filled_def deref_def is_null_def split: option.splits)
      then show "ends (clear b x) m" using Cons.prems by (auto simp: cleaner_def)
    next
      fix y m' assume "wipes m m'"
      then show "ends (clear_refs clear b ps) m'"
        using Cons.prems wipes_card [of m m'] by (intro Cons.IH) auto
    qed
    then show "ends (if is_null w then clear_refs clear b ps else nbind (clear b x) (\<lambda>_. clear_refs clear b ps)) m"
      using Cons.IH [OF Cons.prems] by simp
  qed
qed simp

lemma ends_section: "cleaner k clear \<Longrightarrow> card (filled m) \<le> k \<Longrightarrow> ends (clear_ptr_section clear b ptr len) m"
  unfolding clear_ptr_section_def by (rule ends_refs)

lemma ends_struct: "cleaner k clear \<Longrightarrow> card (filled m) \<le> k \<Longrightarrow> ends (clear_struct clear b c) m"
  unfolding clear_struct_def by (intro ends_get ends_bind ends_section ends_now wiping_struct_section)

lemma ends_composites: "cleaner k clear \<Longrightarrow> card (filled m) \<le> k \<Longrightarrow> ends (clear_composites clear b sz ds) m"
proof (induction ds arbitrary: m)
  case (Cons d ds)
  show ?case unfolding clear_composites.simps
  proof (intro ends_get ends_bind ends_section [OF Cons.prems])
    fix m' assume "wipes m m'"
    then show "ends (clear_composites clear b sz ds) m'"
      using Cons.prems wipes_card [of m m'] by (intro Cons.IH) auto
  qed
qed simp

lemma ends_list: "cleaner k clear \<Longrightarrow> card (filled m) \<le> k \<Longrightarrow> ends (clear_list clear b c) m"
  unfolding clear_list_def
  by (auto split: elem_size.split intro!: ends_now wiping_list_section ends_section ends_get ends_bind ends_composites)

text \<open>A segment that \<open>build_object_in\<close> does not find is not there to be removed either.\<close>

lemma remove_external_ends:
  assumes "locate_list_place m b loc p = Ok None"
  shows "ends (now (remove_external loc)) m"
proof -
  have "remove_external loc m = (Panic, m)"
    using assms
    by (auto simp: locate_list_place_def remove_external_def build_object_in_def build_segment_def remove_external_segment_def
        obind_Ok_iff split: location.splits option.splits if_splits)
  then show ?thesis by (auto simp: ends_def now_def)
qed

lemma ends_content:
  assumes "cleaner k clear" "card (filled m) \<le> k"
  shows "ends (clear_content N clear b c) m"
  unfolding clear_content_def
  by (auto split: wire_kind.split option.split intro!: ends_get ends_struct [OF assms] ends_list [OF assms] ends_now [OF wiping_get]
      intro: remove_external_ends)

section \<open>Clearing a pointer\<close>

lemma bbind_Ok_iff: "bbind f g m = (Ok y, m') \<longleftrightarrow> (\<exists>x m1. f m = (Ok x, m1) \<and> g x m1 = (Ok y, m'))"
  by (auto simp: bbind_def split: prod.splits outcome.splits)

lemma bget_Ok_iff: "bget q m = (Ok y, m') \<longleftrightarrow> q m = Ok y \<and> m' = m"
  by (auto simp: bget_def)

lemma nbind_Ok_iff: "nbind c f m = Some (Ok y, m') \<longleftrightarrow> (\<exists>x m1. c m = Some (Ok x, m1) \<and> f x m1 = Some (Ok y, m'))"
  by (auto simp: nbind_def split: option.splits prod.splits outcome.splits)

lemma now_Ok_iff: "now f m = Some (Ok y, m') \<longleftrightarrow> f m = (Ok y, m')"
  by (auto simp: now_def)

lemma pads_go:
  assumes "locate m b place = Ok (c, b')" "deref (mg_heap m) place = Ok w" "far_ptr w = Some far"
    and "clear_pads far m = (Ok go, m')"
  shows go
proof -
  obtain off r where r: "far_offset far = (Ok off :: (rerror, u29) outcome)" "build_object_in m (far_segment far) off = Ok (Some r)"
    using assms(1-3) by (auto simp: locate_def locate_ptr_def obind_Ok_iff)
  show ?thesis
    using assms(4) by (cases r) (auto simp: clear_pads_def bbind_Ok_iff bget_Ok_iff r obind_Ok_iff split: if_splits)
qed

lemma set_null: "set_ptr b place w m = (Ok x, m') \<Longrightarrow> mem (mg_heap m') place = Some w"
  by (auto simp: set_ptr_def bbind_Ok_iff bget_Ok_iff write_word_def put_words_def split: if_splits)

lemma clear_ptrs_nulls:
  assumes "locate m b place = Ok (c, b')" "clear_ptrs b place m = (Ok x, m')"
  shows "mem (mg_heap m') place = Some Word_NULL"
proof -
  obtain w go m1 where w: "deref (mg_heap m) place = Ok w"
    "(case far_ptr w of Some far \<Rightarrow> clear_pads far | None \<Rightarrow> bret True) m = (Ok go, m1)"
    "(if go then set_ptr b place Word_NULL else bret ()) m1 = (Ok x, m')"
    using assms(2) by (auto simp: clear_ptrs_def bbind_Ok_iff bget_Ok_iff)
  have go using w(2) pads_go [OF assms(1) w(1)] by (auto simp: bget_Ok_iff split: option.splits)
  with w(3) show ?thesis by (simp add: set_null)
qed

lemma clear_ptrs_fewer:
  assumes "locate m b place = Ok (c, b')" "clear_ptrs b place m = (Ok x, m')" "place \<in> filled m" "card (filled m) \<le> Suc k"
  shows "card (filled m') \<le> k"
proof -
  have "wipes m m'" using wiping_ptrs [of b place] assms(2) by (metis wiping_def snd_conv)
  moreover have "place \<notin> filled m'" using clear_ptrs_nulls [OF assms(1,2)] by (simp add: filled_def)
  ultimately have "filled m' \<subset> filled m" using assms(3) wipes_filled by blast
  then have "card (filled m') < card (filled m)" by (intro psubset_card_mono finite)
  then show ?thesis using assms(4) by simp
qed

lemma clear_ptr_cleaner: "k \<le> levels \<Longrightarrow> cleaner k (clear_ptr N levels)"
proof (induction k arbitrary: levels)
  case 0
  have "filled m = {}" if "card (filled m) \<le> 0" for m :: "'a message" using that by simp
  then show ?case by (auto simp: cleaner_def)
next
  case (Suc k)
  then obtain l where l: "levels = Suc l" "k \<le> l" by (cases levels) auto
  show ?case unfolding cleaner_def l(1) clear_ptr.simps
  proof (intro allI impI ends_get, clarify)
    fix b place c b' and m :: "'a message"
    assume m: "card (filled m) \<le> Suc k" "place \<in> filled m" "locate m b place = Ok (c, b')"
    show "ends (nbind (now (clear_ptrs b place)) (\<lambda>_. clear_content N (clear_ptr N l) b' c)) m"
      by (rule ends_bind [OF ends_now [OF wiping_ptrs]])
         (auto simp: now_Ok_iff intro: ends_content [OF Suc.IH [OF l(2)]] clear_ptrs_fewer [OF m(3) _ m(2,1)])
  qed
qed

lemma cleanerD: "cleaner k clear \<Longrightarrow> card (filled m) \<le> k \<Longrightarrow> p \<in> filled m \<Longrightarrow> ends (clear b p) m"
  by (simp add: cleaner_def)

lemma clear_ptr_nulls:
  assumes "card (filled m) \<le> levels" "place \<in> filled m" "clear_ptr N levels b place m = Some (Ok x, m')"
  shows "mem (mg_heap m') place = Some Word_NULL"
proof -
  have "0 < card (filled m)" using assms(2) by (auto simp: card_gt_0_iff)
  then obtain l where l: "levels = Suc l" using assms(1) by (cases levels) auto
  obtain c b' m1 u where m1: "locate m b place = Ok (c, b')" "clear_ptrs b place m = (Ok u, m1)"
    "clear_content N (clear_ptr N l) b' c m1 = Some (Ok x, m')"
    using assms(3) unfolding l clear_ptr.simps by (auto simp: nbind_Ok_iff now_Ok_iff bget_Ok_iff)
  have "ends (clear_content N (clear_ptr N l) b' c) m1"
    using ends_content [OF clear_ptr_cleaner clear_ptrs_fewer [OF m1(1,2) assms(2)], of l] assms(1) l by simp
  then have "wipes m1 m'" using m1(3) by (auto simp: ends_def)
  then show ?thesis by (rule wipes_null [OF _ clear_ptrs_nulls [OF m1(1,2)]])
qed

text \<open>More levels do not change a result.\<close>

definition agrees :: "('a, 'b) clearing \<Rightarrow> ('a, 'b) clearing \<Rightarrow> bool" where
  "agrees c d \<longleftrightarrow> (\<forall>m r. c m = Some r \<longrightarrow> d m = Some r)"

lemma agrees_refl [simp, intro]: "agrees c c"
  by (simp add: agrees_def)

lemma agrees_bind: "agrees c d \<Longrightarrow> (\<And>x. agrees (f x) (g x)) \<Longrightarrow> agrees (nbind c f) (nbind d g)"
  by (auto simp: agrees_def nbind_def split: option.splits prod.splits outcome.splits)

lemma agrees_refs: "(\<And>b p. agrees (clear b p) (clear' b p)) \<Longrightarrow> agrees (clear_refs clear b ps) (clear_refs clear' b ps)"
  by (induction ps) (auto intro!: agrees_bind)

lemma agrees_composites:
  "(\<And>b p. agrees (clear b p) (clear' b p)) \<Longrightarrow> agrees (clear_composites clear b sz ds) (clear_composites clear' b sz ds)"
  by (induction ds) (auto intro!: agrees_bind agrees_refs simp: clear_ptr_section_def)

lemma agrees_content:
  "(\<And>b p. agrees (clear b p) (clear' b p)) \<Longrightarrow> agrees (clear_content N clear b c) (clear_content N clear' b c)"
  unfolding clear_content_def clear_struct_def clear_list_def clear_ptr_section_def
  by (auto intro!: agrees_bind agrees_refs agrees_composites split: wire_kind.split option.split elem_size.split)

lemma agrees_ptr: "agrees (clear_ptr N levels b p) (clear_ptr N (levels + k) b p)"
proof (induction levels arbitrary: b p)
  case (Suc levels)
  then show ?case by (auto intro!: agrees_bind agrees_content)
qed (simp add: agrees_def)

section \<open>Segments in which a pointer can be cleared\<close>

text \<open>A pointer at word \<open>k\<close> of a segment whose object lies in the words of the segment that are in use:
  a struct, or a list that is not of structs. The words that hold the pointers of the object are in
  \<open>K\<close>. Or a pointer to a capability that the table does not panic on.\<close>

definition tame_ptr :: "(u32 \<Rightarrow> (rerror, unit) outcome) \<Rightarrow> arena_segment \<Rightarrow> nat set \<Rightarrow> nat \<Rightarrow> Word \<Rightarrow> bool" where
  "tame_ptr clear_cap s K k w = (let p = parts_of_word w in case kind w of
     KStruct \<Rightarrow> struct_ptr_size p = StructSize_EMPTY \<or>
       (\<exists>off c. content_offset p = (Ok off :: (rerror, i30) outcome) \<and> int k + 1 + i30_val off = int c \<and> c < scap s \<and>
         c + unat (struct_total (struct_ptr_size p)) \<le> sused s \<and>
         {c + unat (ss_data (struct_ptr_size p)) ..< c + unat (struct_total (struct_ptr_size p))} \<subseteq> K)
   | KList \<Rightarrow> element_size p \<noteq> PInlineComposite \<and>
       (\<exists>off c n. content_offset p = (Ok off :: (rerror, i30) outcome) \<and> int k + 1 + i30_val off = int c \<and> c < scap s \<and>
         element_count p = (Ok n :: (rerror, u29) outcome) \<and>
         c + unat (object_words (to_element_size (element_size p)) n) \<le> sused s \<and>
         (element_size p = PPointer \<longrightarrow> {c ..< c + u29_val n} \<subseteq> K))
   | KOther \<Rightarrow> (\<exists>q. cap_ptr w = Some q \<and> safe (clear_cap (capability_index q)))
   | KFar \<Rightarrow> False)"

text \<open>\<open>K\<close> are words of the segment, each null or such a pointer; pointers may form cycles.\<close>

definition tame :: "(u32 \<Rightarrow> (rerror, unit) outcome) \<Rightarrow> object_builder \<Rightarrow> arena_segment \<Rightarrow> nat set \<Rightarrow> 'a message \<Rightarrow> bool" where
  "tame clear_cap b s K m \<longleftrightarrow> builds (mg_arena m) b s \<and> (\<forall>k < sused s. mem (mg_heap m) (addr (sdata s) k) \<noteq> None) \<and>
     (\<forall>k\<in>K. k < sused s \<and> (\<forall>w. mem (mg_heap m) (addr (sdata s) k) = Some w \<longrightarrow> w \<noteq> Word_NULL \<longrightarrow> tame_ptr clear_cap s K k w))"

lemma tame_wipes: "tame clear_cap b s K m \<Longrightarrow> wipes m m' \<Longrightarrow> tame clear_cap b s K m'"
  by (auto simp: tame_def wipes_def split: if_splits)

definition finishes :: "('a, unit) clearing \<Rightarrow> 'a message \<Rightarrow> bool" where
  "finishes c m \<longleftrightarrow> (\<exists>m'. c m = Some (Ok (), m') \<and> wipes m m')"

lemma finishes_ret [simp]: "finishes (nret ()) m"
  by (auto simp: finishes_def now_def bget_def)

lemma finishes_bind:
  "finishes c m \<Longrightarrow> (\<And>m'. c m = Some (Ok (), m') \<Longrightarrow> wipes m m' \<Longrightarrow> finishes (f ()) m') \<Longrightarrow>
    finishes (nbind c f) m"
  by (auto simp: finishes_def nbind_def) (meson wipes_trans)

lemma finishes_get: "q m = Ok x \<Longrightarrow> finishes (f x) m \<Longrightarrow> finishes (nbind (now (bget q)) f) m"
  by (simp add: finishes_def nbind_def now_def bget_def)

lemma finishes_now: "wiping f \<Longrightarrow> fst (f m) = Ok () \<Longrightarrow> finishes (now f) m"
  by (cases "f m") (auto simp: finishes_def now_def wiping_def dest: spec [of _ m])

lemma tameD:
  assumes "tame clear_cap b s K m"
  shows "builds (mg_arena m) b s" "k < sused s \<Longrightarrow> mem (mg_heap m) (addr (sdata s) k) \<noteq> None"
  using assms by (auto simp: tame_def)

lemma section_finishes:
  assumes "tame clear_cap b s K m" and "c + u29_val off \<le> sused s"
  shows "fst (clear_section b (addr (sdata s) c) off m) = Ok ()"
proof -
  have "list_all (\<lambda>x. mem (mg_heap m) x \<noteq> None) (addr_list (addr (sdata s) c) (u29_val off))"
    using tameD(2) [OF assms(1)] assms(2) by (auto simp: list_all_iff set_addr_list addr_addr)
  then show ?thesis
    using contains_range_addr [OF tameD(1) [OF assms(1)], of c "c + u29_val off"] assms(2)
    by (simp add: clear_section_def bbind_def bget_def contains_section_def ptr_offset_addr addr_addr Let_def)
qed

definition tidies :: "(u32 \<Rightarrow> (rerror, unit) outcome) \<Rightarrow> object_builder \<Rightarrow> arena_segment \<Rightarrow> nat set \<Rightarrow> nat \<Rightarrow> 'a clear_fn \<Rightarrow> bool" where
  "tidies clear_cap b s K n clear \<longleftrightarrow> (\<forall>m k. tame clear_cap b s K m \<longrightarrow> card (filled m) \<le> n \<longrightarrow> k \<in> K \<longrightarrow>
     addr (sdata s) k \<in> filled m \<longrightarrow> finishes (clear b (addr (sdata s) k)) m)"

lemma refs_finish:
  assumes "tidies clear_cap b s K n clear" and "tame clear_cap b s K m" and "card (filled m) \<le> n" and "set ks \<subseteq> K"
  shows "finishes (clear_refs clear b (map (addr (sdata s)) ks)) m"
  using assms(2-4)
proof (induction ks arbitrary: m)
  case (Cons k ks)
  have k: "k \<in> K" "k < sused s" using Cons.prems(1,3) by (auto simp: tame_def)
  note b = tameD(1) [OF Cons.prems(1)]
  obtain w where w: "mem (mg_heap m) (addr (sdata s) k) = Some w" using tameD(2) [OF Cons.prems(1) k(2)] by blast
  have nz: "addr (sdata s) k \<noteq> 0" using addr_nonnull [OF buildsD(5) [OF b] _ buildsD(4) [OF b], of k] k(2) buildsD(3) [OF b] by simp
  have rest: "finishes (clear_refs clear b (map (addr (sdata s)) ks)) m'" if "wipes m m'" for m'
    using Cons.IH [OF tame_wipes [OF Cons.prems(1) that]] Cons.prems(2,3) wipes_card [OF that] by simp
  have "finishes (clear b (addr (sdata s) k)) m" if "\<not> is_null w"
    using assms(1) Cons.prems(1,2) k(1) w that by (auto simp: tidies_def filled_def is_null_def)
  then show ?case
    using rest [OF wipes_refl] rest w nz
    by (auto simp: as_ref_unchecked_def deref_def intro!: finishes_get finishes_bind)
qed simp

lemma section_refs: "iter_unchecked (addr a c) len = map (addr a) [c ..< c + u29_val len]"
  by (auto simp: iter_unchecked_def addr_list_def addr_addr intro!: nth_equalityI)

lemma struct_finishes:
  assumes "tidies clear_cap b s K n clear" and "tame clear_cap b s K m" and "card (filled m) \<le> n"
    and "c < scap s" and "c + unat (struct_total sz) \<le> sused s"
    and "{c + unat (ss_data sz) ..< c + unat (struct_total sz)} \<subseteq> K"
  shows "finishes (clear_struct clear b \<lparr>st_ptr = addr (sdata s) c, st_size = sz\<rparr>) m"
proof -
  note b = tameD(1) [OF assms(2)]
  obtain d where d: "u29_from_u16 (ss_data sz) = (Ok d :: (rerror, u29) outcome)" "u29_val d = unat (ss_data sz)"
    by (rule u16_offset)
  obtain k where k: "u29_from_u16 (ss_ptrs sz) = (Ok k :: (rerror, u29) outcome)" "u29_val k = unat (ss_ptrs sz)"
    by (rule u16_offset)
  obtain len where len: "struct_len sz = (Ok len :: (rerror, u29) outcome)" "u29_val len = unat (struct_total sz)"
    by (rule struct_len_total)
  let ?p = "c + unat (ss_data sz)"
  have "?p \<le> scap s" using assms(5) buildsD(3) [OF b] by (simp add: unat_struct_total)
  then have "addr (sdata s) ?p \<noteq> 0" using addr_nonnull [OF buildsD(5) [OF b] _ buildsD(4) [OF b]] by blast
  then have start: "ptrs_start \<lparr>st_ptr = addr (sdata s) c, st_size = sz\<rparr> = Ok (addr (sdata s) ?p)"
    by (simp add: ptrs_start_def d ptr_offset_addr addr_addr as_ref_unchecked_def)
  have refs: "finishes (clear_ptr_section clear b (addr (sdata s) ?p) k) m"
    unfolding clear_ptr_section_def section_refs
    by (rule refs_finish [OF assms(1-3)]) (use assms(6) k(2) in \<open>auto simp: unat_struct_total\<close>)
  have last: "finishes (now (clear_struct_section b \<lparr>st_ptr = addr (sdata s) c, st_size = sz\<rparr>)) m'" if "wipes m m'" for m'
    using section_finishes [OF tame_wipes [OF assms(2) that], of c len] assms(5) len
    by (intro finishes_now wiping_struct_section) (simp add: clear_struct_section_def bbind_def bget_def)
  show ?thesis unfolding clear_struct_def
    by (rule finishes_get [OF start], rule finishes_get [where x = k], simp add: k(1), rule finishes_bind [OF refs], rule last)
qed

lemma list_finishes:
  assumes "tidies clear_cap b s K n clear" and "tame clear_cap b s K m" and "card (filled m) \<le> n"
    and "c + unat (object_words e len) \<le> sused s" and "e = Pointer \<longrightarrow> {c ..< c + u29_val len} \<subseteq> K"
    and "\<not> is_inline_composite e"
  shows "finishes (clear_list clear b \<lparr>ls_ptr = addr (sdata s) c, ls_element_size = e, ls_element_count = len\<rparr>) m"
proof (cases "e = Pointer")
  case True
  have "finishes (clear_refs clear b (map (addr (sdata s)) [c ..< c + u29_val len])) m"
    by (rule refs_finish [OF assms(1-3)]) (use assms(5) True in auto)
  with True show ?thesis by (simp add: clear_list_def clear_ptr_section_def section_refs)
next
  case False
  have "fst (clear_list_section b \<lparr>ls_ptr = addr (sdata s) c, ls_element_size = e, ls_element_count = len\<rparr> m) = Ok ()"
  proof (cases "nz29_new (object_words e len)")
    case (Some N)
    then have "u29_val (u29_of_nz29 N) = unat (object_words e len)" by (auto simp: nz29_new_eq split: if_splits)
    with section_finishes [OF assms(2), of c "u29_of_nz29 N"] assms(4,6) Some show ?thesis
      by (simp add: clear_list_section_def bbind_def bget_def)
  qed (simp add: clear_list_section_def bget_def)
  with False assms(6) show ?thesis
    by (cases e) (auto simp: clear_list_def intro!: finishes_now wiping_list_section)
qed

lemma content_finishes:
  assumes "tidies clear_cap b s K n clear" and "tame clear_cap b s K m" and "card (filled m) \<le> n"
    and "tame_ptr clear_cap s K k w" and "nl_clear_cap N = clear_cap" and "nl_handle_err N = IgnoreErrors"
  shows "finishes (clear_content N clear b \<lparr>ct_ptr = w, ct_location = Near (addr (sdata s) k)\<rparr>) m"
proof -
  note b = tameD(1) [OF assms(2)]
  let ?p = "parts_of_word w"
  have place: "build_at m b (Near (addr (sdata s) k)) ?p = Ok (addr (sdata s) c, b)"
    if "content_offset ?p = (Ok off :: (rerror, i30) outcome)" "int k + 1 + i30_val off = int c" "c < scap s" for off c
    using that check_ref_addr [OF b, of c]
    by (simp add: build_at_def build_object_from_end_of_def signed_offset_addr [OF that(2)])
  show ?thesis
  proof (cases "kind w")
    case KStruct
    then have p: "struct_ptr w = Some ?p" by (simp add: struct_ptr_def is_struct_def)
    have "finishes (nbind (now (bget (\<lambda>m. locate_struct_place m b (Near (addr (sdata s) k)) ?p))) (\<lambda>(start, b').
        clear_struct clear b' \<lparr>st_ptr = start, st_size = struct_ptr_size ?p\<rparr>)) m" if ne: "struct_ptr_size ?p \<noteq> StructSize_EMPTY"
    proof -
      obtain off c where c: "content_offset ?p = (Ok off :: (rerror, i30) outcome)" "int k + 1 + i30_val off = int c"
        "c < scap s" "c + unat (struct_total (struct_ptr_size ?p)) \<le> sused s"
        "{c + unat (ss_data (struct_ptr_size ?p)) ..< c + unat (struct_total (struct_ptr_size ?p))} \<subseteq> K"
        using assms(4) KStruct ne by (auto simp: tame_ptr_def Let_def)
      have "locate_struct_place m b (Near (addr (sdata s) k)) ?p = Ok (addr (sdata s) c, b)"
        using place [OF c(1-3)] by (simp add: locate_struct_place_def expect_ok_def)
      then show ?thesis
        by (rule finishes_get) (use struct_finishes [OF assms(1-3) c(3-5)] in simp)
    qed
    with KStruct p show ?thesis by (auto simp: clear_content_def intro!: finishes_get [where x = ?p])
  next
    case KList
    then have p: "list_ptr w = Some ?p" by (simp add: list_ptr_def is_list_def)
    obtain off c n where c: "content_offset ?p = (Ok off :: (rerror, i30) outcome)" "int k + 1 + i30_val off = int c"
      "c < scap s" "element_size ?p \<noteq> PInlineComposite" "element_count ?p = (Ok n :: (rerror, u29) outcome)"
      "c + unat (object_words (to_element_size (element_size ?p)) n) \<le> sused s"
      "element_size ?p = PPointer \<longrightarrow> {c ..< c + u29_val n} \<subseteq> K"
      using assms(4) KList by (auto simp: tame_ptr_def Let_def)
    have e: "to_element_size (element_size ?p) = Pointer \<longrightarrow> {c ..< c + u29_val n} \<subseteq> K"
      "\<not> is_inline_composite (to_element_size (element_size ?p))"
      using c(4,7) by (cases "element_size ?p"; simp)+
    have "locate_list_place m b (Near (addr (sdata s) k)) ?p = Ok (Some (addr (sdata s) c, b))"
      using place [OF c(1-3)] by (simp add: locate_list_place_def)
    moreover have "cleared_list_content m (addr (sdata s) c) ?p =
        Ok \<lparr>ls_ptr = addr (sdata s) c, ls_element_size = to_element_size (element_size ?p), ls_element_count = n\<rparr>"
      using c(4,5) by (simp add: cleared_list_content_def)
    ultimately show ?thesis
      using KList p list_finishes [OF assms(1-3) c(6) e]
      by (auto simp: clear_content_def intro!: finishes_get [where x = ?p] finishes_get [where x = "Some (addr (sdata s) c, b)"]
        finishes_get [where x = "\<lparr>ls_ptr = addr (sdata s) c, ls_element_size = to_element_size (element_size ?p), ls_element_count = n\<rparr>"])
  next
    case KOther
    then obtain q where q: "cap_ptr w = Some q" "safe (clear_cap (capability_index q))"
      using assms(4) by (auto simp: tame_ptr_def Let_def)
    then show ?thesis using KOther assms(5,6)
      by (cases "clear_cap (capability_index q)")
         (auto simp: clear_content_def IgnoreErrors_def map_control_flow_def bget_def finishes_def nbind_def now_def)
  next
    case KFar
    with assms(4) show ?thesis by (simp add: tame_ptr_def)
  qed
qed

lemma clear_ptr_tidies:
  assumes "nl_clear_cap N = clear_cap" and "nl_handle_err N = IgnoreErrors"
  shows "n \<le> levels \<Longrightarrow> tidies clear_cap b s K n (clear_ptr N levels :: 'a clear_fn)"
proof (induction n arbitrary: levels)
  case 0
  have "filled m = {}" if "card (filled m) \<le> 0" for m :: "'a message" using that by simp
  then show ?case by (auto simp: tidies_def)
next
  case (Suc n)
  then obtain l where l: "levels = Suc l" "n \<le> l" by (cases levels) auto
  show ?case unfolding tidies_def l(1) clear_ptr.simps
  proof (intro allI impI)
    fix m :: "'a message" and k
    assume m: "tame clear_cap b s K m" "card (filled m) \<le> Suc n" "k \<in> K" "addr (sdata s) k \<in> filled m"
    let ?a = "addr (sdata s) k"
    note b = tameD(1) [OF m(1)]
    obtain w where w: "mem (mg_heap m) ?a = Some w" "tame_ptr clear_cap s K k w"
      using m by (auto simp: filled_def tame_def)
    then have far: "far_ptr w = None" by (auto simp: far_ptr_def tame_ptr_def)
    have k: "k < scap s" using m(1,3) buildsD(3) [OF b] by (auto simp: tame_def)
    have loc: "locate m b ?a = Ok (\<lparr>ct_ptr = w, ct_location = Near ?a\<rparr>, b)"
      by (simp add: locate_def deref_def w(1) locate_ptr_def far)
    have "fst (clear_ptrs b ?a m) = Ok ()"
      using set_ptr_addr [OF b k] w(1) by (simp add: clear_ptrs_def bbind_def bget_def deref_def far)
    then have "finishes (now (clear_ptrs b ?a)) m" by (intro finishes_now wiping_ptrs)
    moreover have "finishes (clear_content N (clear_ptr N l) b \<lparr>ct_ptr = w, ct_location = Near ?a\<rparr>) m'"
      if "now (clear_ptrs b ?a) m = Some (Ok (), m')" "wipes m m'" for m'
      using clear_ptrs_fewer [OF loc _ m(4,2)] that
      by (intro content_finishes [OF Suc.IH [OF l(2)] tame_wipes [OF m(1)] _ w(2) assms]) (auto simp: now_Ok_iff)
    ultimately show "finishes (nbind (now (bget (\<lambda>m. locate m b ?a))) (\<lambda>(c, b').
        nbind (now (clear_ptrs b ?a)) (\<lambda>_. clear_content N (clear_ptr N l) b' c))) m"
      by - (rule finishes_get, rule loc, auto intro: finishes_bind)
  qed
qed

lemma try_clear_finishes:
  assumes "card (filled m) \<le> levels" and "tame clear_cap (pb_builder p) s K m" and "pb_ptr p = addr (sdata s) k" and "k \<in> K"
  shows "finishes (pb_try_clear \<lparr>nl_clear_cap = clear_cap, nl_handle_err = IgnoreErrors\<rparr> levels p) m"
proof -
  obtain w where w: "mem (mg_heap m) (pb_ptr p) = Some w" using assms(2-4) by (auto simp: tame_def)
  then have null: "pb_is_null m p = Ok (is_null w)" by (simp add: pb_is_null_def deref_def)
  have "tidies clear_cap (pb_builder p) s K levels (clear_ptr \<lparr>nl_clear_cap = clear_cap, nl_handle_err = IgnoreErrors\<rparr> levels)"
    by (rule clear_ptr_tidies) simp_all
  then show ?thesis using assms w unfolding pb_try_clear_def
    by - (rule finishes_get, rule null, auto simp: tidies_def filled_def is_null_def)
qed

lemma agrees_table:
  assumes "\<And>i. clear_cap' i = (case clear_cap i of Err e \<Rightarrow> Ok () | r \<Rightarrow> r)"
  shows "clear_content \<lparr>nl_clear_cap = clear_cap, nl_handle_err = IgnoreErrors\<rparr> =
    clear_content \<lparr>nl_clear_cap = clear_cap', nl_handle_err = IgnoreErrors\<rparr>"
proof -
  have eq: "(case clear_cap i of Err e \<Rightarrow> map_control_flow (IgnoreErrors e) | r \<Rightarrow> r) =
      (case clear_cap' i of Err e \<Rightarrow> map_control_flow (IgnoreErrors e) | r \<Rightarrow> r)" for i
    by (cases "clear_cap i") (simp_all add: assms IgnoreErrors_def map_control_flow_def)
  show ?thesis unfolding clear_content_def
    by (simp add: eq cong del: wire_kind.case_cong_weak outcome.case_cong_weak)
qed

text \<open>C18: clearing a pointer ends, in any memory, however its pointers refer to each other: with as
  many levels as there are words that are not null it has a result, and more levels give the same.
  It only nulls words. An error of the capability table is ignored: the result is that with a
  table that answers \<open>Ok\<close> where this one answers \<open>Err\<close>. When the call returns the pointer is null; and it
  does return, and not with a panic, when the objects are in the segment of the pointer, as far as it
  is used, and the pointers to be followed are near ones to structs, to lists that are not of
  structs, and to capabilities. (Elsewhere the panic of a debug assertion is possible:
  \<open>clear_structs_overruns\<close>.)\<close>

theorem clear_ends:
  fixes m :: "'a message"
  assumes "card (filled m) \<le> levels"
  shows "\<exists>r m'. pb_clear clear_cap levels p m = Some (r, m') \<and> pb_clear clear_cap (levels + k) p m = Some (r, m') \<and>
    pb_clear (\<lambda>i. case clear_cap i of Err e \<Rightarrow> Ok () | r \<Rightarrow> r) levels p m = Some (r, m') \<and>
    wipes m m' \<and> (\<forall>e. r \<noteq> Err e) \<and> (r = Ok () \<longrightarrow> mem (mg_heap m') (pb_ptr p) = Some Word_NULL) \<and>
    ((\<exists>s K j. tame clear_cap (pb_builder p) s K m \<and> pb_ptr p = addr (sdata s) j \<and> j \<in> K) \<longrightarrow> r = Ok ())"
proof -
  let ?N = "\<lparr>nl_clear_cap = clear_cap, nl_handle_err = IgnoreErrors\<rparr>"
  let ?N' = "\<lparr>nl_clear_cap = \<lambda>i. case clear_cap i of Err e \<Rightarrow> Ok () | r \<Rightarrow> r, nl_handle_err = IgnoreErrors\<rparr>"
  have f: "pb_ptr p \<in> filled m" if "pb_is_null m p = Ok False"
    using that by (auto simp: pb_is_null_def filled_def is_null_def deref_def obind_Ok_iff split: option.splits)
  have "ends (pb_try_clear ?N levels p) m" unfolding pb_try_clear_def
    using f by (auto intro!: ends_get cleanerD [OF clear_ptr_cleaner] assms)
  then obtain r m' where r: "pb_try_clear ?N levels p m = Some (r, m')" "wipes m m'" by (auto simp: ends_def)
  have "agrees (pb_try_clear ?N levels p) (pb_try_clear ?N (levels + k) p)"
    unfolding pb_try_clear_def by (auto intro!: agrees_bind agrees_ptr)
  then have more: "pb_try_clear ?N (levels + k) p m = Some (r, m')" using r(1) by (auto simp: agrees_def)
  have "(clear_ptr ?N' l :: 'a clear_fn) = clear_ptr ?N l" for l
    by (induction l) (simp_all add: agrees_table [of "nl_clear_cap ?N'" clear_cap])
  then have table: "pb_try_clear ?N' levels p m = Some (r, m')" using r(1) by (simp add: pb_try_clear_def cong del: if_weak_cong)
  have null: "mem (mg_heap m') (pb_ptr p) = Some Word_NULL" if ok: "r = Ok ()"
  proof (cases "pb_is_null m p = Ok True")
    case True
    then have "mem (mg_heap m) (pb_ptr p) = Some Word_NULL"
      by (auto simp: pb_is_null_def is_null_def deref_def obind_Ok_iff split: option.splits)
    then show ?thesis using r(2) by (rule wipes_null [rotated])
  next
    case False
    then have "pb_is_null m p = Ok False" "clear_ptr ?N levels (pb_builder p) (pb_ptr p) m = Some (Ok (), m')"
      using r(1) ok by (auto simp: pb_try_clear_def nbind_Ok_iff now_Ok_iff bget_Ok_iff split: if_splits)
    then show ?thesis using clear_ptr_nulls [OF assms f] by blast
  qed
  have "r = Ok ()" if "tame clear_cap (pb_builder p) s K m" "pb_ptr p = addr (sdata s) j" "j \<in> K" for s K j
    using try_clear_finishes [OF assms that] r(1) by (auto simp: finishes_def)
  then show ?thesis
    using r more table null by (cases r) (auto simp: pb_clear_def nexpect_def expect_ok_def)
qed

end
