(* ===== verification/Built_Pointers.thy ===== *)
theory Built_Pointers
  imports Cleared_Objects
begin

text \<open>
  What the builders handed to the user promise: a struct initialised through a null pointer is the one
  its readers find, and all its fields have their defaults. Then the ways in which moving an object
  goes wrong.
\<close>

section \<open>Places in use\<close>

lemma used_bound:
  assumes "built_ok ok owns m" "x \<in> used_places (mg_arena m)"
  shows "x \<noteq> 0" "unat x + 8 \<le> 2 ^ 63"
proof -
  from assms(2) obtain s where s: "s \<in> set (msegs m)" "x \<in> used_addrs s" by (auto simp: used_places_def)
  then obtain i where i: "i < length (msegs m)" "s = msegs m ! i" by (auto simp: in_set_conv_nth)
  have ok: "seg_ok (mg_heap m) s" unfolding i(2) by (rule builtD(5) [OF assms(1) i(1)])
  have o: "owned s" using s(2) by (auto simp: used_addrs_def split: if_splits)
  then have nz: "sdata s \<noteq> 0" using builtD(2) [OF assms(1)] i by (simp add: ids_ok_def)
  obtain k where k: "x = addr (sdata s) k" "k < sused s" using s(2) o by (auto simp: used_addrs_def seg_place_def)
  note b = seg_okD(1,2) [OF ok o]
  from k b show "x \<noteq> 0" using addr_nonnull [OF b(2), of k] nz by simp
  from k b show "unat x + 8 \<le> 2 ^ 63" using unat_addr [OF b(2), of k] by simp
qed

lemma used_run:
  assumes "built_ok ok owns m" "set (addr_list a n) \<subseteq> used_places (mg_arena m)" "0 < n"
  shows "unat a + 8 * n \<le> 2 ^ 63" "a \<noteq> 0"
proof -
  have x: "addr a i \<noteq> 0" "unat (addr a i) + 8 \<le> 2 ^ 63" if "i < n" for i
  proof -
    have "addr a i \<in> used_places (mg_arena m)" using assms(2) that by (auto simp: addr_list_def)
    then show "addr a i \<noteq> 0" "unat (addr a i) + 8 \<le> 2 ^ 63" by (rule used_bound [OF assms(1)])+
  qed
  have "unat (addr a i) = unat a + 8 * i" if "i < n" for i
    using that
  proof (induction i)
    case (Suc i)
    have "addr a (Suc i) = addr a i + 8" by (simp add: addr_def)
    moreover have "unat (addr a i) + unat (8 :: u64) < 2 ^ 64" using x(2) [of i] Suc.prems by simp
    ultimately show ?case using Suc by (simp add: unat_add_no_wrap)
  qed simp
  with x(2) [of "n - 1"] assms(3) show "unat a + 8 * n \<le> 2 ^ 63" by simp
  show "a \<noteq> 0" using x(1) [of 0] assms(3) by simp
qed

section \<open>Structs that were initialised\<close>

lemma clear_null:
  assumes "mem (mg_heap m) (pb_ptr p) = Some Word_NULL"
  shows "pb_clear clear_cap levels p m = Some (Ok (), m)"
  using assms by (simp add: pb_clear_def nexpect_def pb_try_clear_def nbind_def now_def bget_def pb_is_null_def deref_def
      is_null_def expect_ok_def)

lemma init_on_null:
  assumes "mem (mg_heap m) (pb_ptr p) = Some Word_NULL"
  shows "init_struct alloc clear_cap levels p sz m =
    Some (case try_init_struct_zeroed alloc p sz m of (r, m') \<Rightarrow> (expect_ok r, m'))"
  by (simp add: init_struct_def nexpect_def try_init_struct_def nbind_def clear_null [OF assms] now_def
      split: prod.split outcome.split)

text \<open>The builder of a struct, from where it starts.\<close>

lemma struct_builder_at:
  assumes "addr start (unat (ss_data sz)) \<noteq> 0"
  obtains t where "struct_builder_of b start sz = Ok t" "sb_builder t = b" "sb_data_start t = start" "sb_ptrs_len t = ss_ptrs sz"
    "unat (sb_data_len t) = 8 * unat (ss_data sz)" "sb_ptrs_start t = addr start (unat (ss_data sz))" "sb_size t = sz"
proof -
  let ?len = "ucast (ss_data sz) * 8 :: u32"
  have d: "unat (ss_data sz) < 2 ^ 16" using unsigned_less [of "ss_data sz"] by simp
  have u: "unat (ucast (ss_data sz) :: u32) = unat (ss_data sz)"
    using d by (simp add: unsigned_ucast_eq take_bit_nat_eq_self)
  have len: "unat ?len = 8 * unat (ss_data sz)" using d u by (subst unat_mult_no_wrap) simp_all
  obtain n where n: "u29_from_u16 (ss_data sz) = (Ok n :: (rerror, u29) outcome)" "u29_val n = unat (ss_data sz)"
    by (rule u16_offset)
  have "ucast (round_up_byte_count ?len) = ss_data sz"
    using d len by (simp add: word_unat_eq_iff unsigned_ucast_eq unat_round_up_byte_count take_bit_nat_eq_self)
  then show thesis using assms n len
    by (intro that [of "\<lparr>sb_builder = b, sb_data_start = start, sb_ptrs_start = addr start (unat (ss_data sz)),
        sb_data_len = ?len, sb_ptrs_len = ss_ptrs sz\<rparr>"])
       (simp_all add: struct_builder_of_def ptr_offset_addr as_ref_unchecked_def sb_size_def)
qed

lemma fresh_data:
  fixes d :: "'a::len word"
  assumes "wire_int TYPE('a)" "unat slot * LENGTH('a) < 2 ^ 64" "zeroed h (set (addr_list (sb_data_start t) n))"
    and "unat (sb_data_len t) = 8 * n" "unat (sb_data_start t) + 8 * n \<le> 2 ^ 64" "8 dvd unat (sb_data_start t)"
  shows "builder_data_field_with_default int_read h t slot d = Ok d"
proof -
  note w = int_wire_data [OF assms(1)]
  have al: "unat (sb_data_start t) mod 8 = 0" using assms(6) by auto
  have at: "data_at h (sb_data_start t) (unat (sb_data_len t))" unfolding assms(4)
    by (rule data_at_words [OF al assms(5)]) (use assms(3) in \<open>auto simp: zeroed_def addr_list_def\<close>)
  have bits: "\<not> data_bit h (sb_data_start t) i" if "i < 8 * unat (sb_data_len t)" for i
    by (rule zeroed_bits [OF al assms(5,3)]) (use that assms(4) in simp)
  show ?thesis
  proof (cases "unat slot * LENGTH('a) < 8 * unat (sb_data_len t)")
    case True
    then have "slot_in LENGTH('a) (unat (sb_data_len t)) slot"
      using slot_in_whole_words [of "LENGTH('a)" "unat (sb_data_len t)" "unat slot"] assms(1,4) by (simp add: wire_int_def slot_in_def)
    then show ?thesis
      using wire_data.read_zeros [OF w at _ bits] by (simp add: builder_data_field_with_default_def)
  next
    case False
    then show ?thesis
      using wire_data.outside [OF w, of "sb_data_len t" slot] assms(2) by (simp add: builder_data_field_with_default_def)
  qed
qed

lemma fresh_pointer:
  assumes "zeroed (mg_heap m) (set (addr_list start (n + unat (sb_ptrs_len t))))" "sb_ptrs_start t = addr start n"
    and "\<And>k. k < n + unat (sb_ptrs_len t) \<Longrightarrow> addr start k \<noteq> 0" "i < sb_ptrs_len t"
  shows "\<exists>q. ptr_field_mut t i = Ok (Some q) \<and> pb_builder q = sb_builder t \<and> pb_is_null m q = Ok True"
proof -
  obtain off where off: "u29_from_u16 i = (Ok off :: (rerror, u29) outcome)" "u29_val off = unat i" by (rule u16_offset)
  have i: "n + unat i < n + unat (sb_ptrs_len t)" using assms(4) by (simp add: word_less_nat_alt)
  then have "addr start (n + unat i) \<in> set (addr_list start (n + unat (sb_ptrs_len t)))" by (auto simp: addr_list_def)
  then have "mem (mg_heap m) (addr start (n + unat i)) = Some Word_NULL" using assms(1) by (auto simp: zeroed_def)
  then show ?thesis
    using off assms(2,4) assms(3) [OF i]
    by (simp add: ptr_field_mut_def ptr_offset_addr addr_addr as_ref_unchecked_def pb_is_null_def deref_def is_null_def)
qed

text \<open>C19: a struct initialised through a null pointer of a message. It is the struct that readers of the pointer
  find, of the size asked for; every field of its data section reads as its default and every pointer
  is null; nothing else in use has changed and the message stays well formed. Without memory for it the
  call panics, with the message as it was.\<close>

theorem init_struct_fields:
  fixes d :: "'a::len word"
  assumes "message_built m" and "builds (mg_arena m) b s" and "k < sused s"
    and "mem (mg_heap m) (addr (sdata s) k) = Some Word_NULL"
    and "wire_int TYPE('a)" and "unat slot * LENGTH('a) < 2 ^ 64"
  shows "let p = \<lparr>pb_builder = b, pb_ptr = addr (sdata s) k\<rparr> in
    \<exists>r m'. init_struct message_alloc clear_cap levels p sz m = Some (r, m') \<and> message_built m' \<and>
     (case r of
        Ok t \<Rightarrow> sb_size t = sz \<and> struct_found m' b (pb_ptr p) sz (sb_data_start t) (sb_builder t) \<and>
          fresh_object m (pb_ptr p) m' (sb_data_start t) (unat (struct_total sz)) \<and>
          (8 dvd unat (sb_data_start t) \<longrightarrow> builder_data_field_with_default int_read (mg_heap m') t slot d = Ok d) \<and>
          (if i < ss_ptrs sz then \<exists>q. ptr_field_mut t i = Ok (Some q) \<and> pb_builder q = sb_builder t \<and> pb_is_null m' q = Ok True
           else ptr_field_mut t i = Ok None)
      | Panic \<Rightarrow> msegs m' = msegs m \<and> mem (mg_heap m') = mem (mg_heap m)
      | _ \<Rightarrow> False)"
proof -
  let ?ptr = "addr (sdata s) k"
  let ?p = "\<lparr>pb_builder = b, pb_ptr = ?ptr\<rparr>"
  obtain res m' where a: "alloc_struct message_alloc b ?ptr sz m = (res, m')" by force
  from scratch_growing.alloc_struct_found [OF assms(1-3), of sz, unfolded a]
  have built: "message_built m'" and res: "case res of
       Ok (start, b') \<Rightarrow> fresh_object m ?ptr m' start (unat (struct_total sz)) \<and> struct_found m' b ?ptr sz start b'
     | Err e \<Rightarrow> (\<exists>n. e = AllocFailed n) \<and> msegs m' = msegs m \<and> mem (mg_heap m') = mem (mg_heap m)
     | _ \<Rightarrow> False" by (auto split: outcome.splits dest: lasting_now)
  have run: "init_struct message_alloc clear_cap levels ?p sz m =
      Some (case bbind (\<lambda>_. (res, m')) (\<lambda>(start, b'). bget (\<lambda>_. struct_builder_of b' start sz)) m of (r, m') \<Rightarrow> (expect_ok r, m'))"
    by (subst init_on_null) (simp_all add: assms(4) try_init_struct_zeroed_def bbind_def a)
  show ?thesis
  proof (cases res)
    case (Ok x)
    obtain start b' where x: "x = (start, b')" by force
    have fo: "fresh_object m ?ptr m' start (unat (struct_total sz))" "struct_found m' b ?ptr sz start b'"
      using res Ok x by simp_all
    have z: "zeroed (mg_heap m') (set (addr_list start (unat (struct_total sz))))"
      "set (addr_list start (unat (struct_total sz))) \<subseteq> used_places (mg_arena m')"
      using fo(1) by (auto simp: fresh_object_def)
    let ?d = "unat (ss_data sz)" and ?n = "unat (struct_total sz)"
    have tot: "?n = ?d + unat (ss_ptrs sz)" by (rule unat_struct_total)
    have bound: "unat start + 8 * ?n \<le> 2 ^ 63 \<and> start \<noteq> 0"
    proof (cases "?n = 0")
      case True
      then have "nz29_new (struct_total sz) = None" by (simp add: nz29_new_eq)
      then have "start = ?ptr" using a Ok x by (auto simp: alloc_struct_def bbind_Ok_iff bget_Ok_iff)
      then show ?thesis using used_bound [OF assms(1) addr_used [OF assms(1-3)]] True by simp
    qed (use used_run [OF built z(2)] in simp)
    then have nonnull: "addr start j \<noteq> 0" if "j \<le> ?n" for j using addr_nonnull that by blast
    have "?d \<le> ?n" using tot by simp
    obtain t where t: "struct_builder_of b' start sz = Ok t" "sb_builder t = b'" "sb_data_start t = start"
        "sb_ptrs_len t = ss_ptrs sz" "unat (sb_data_len t) = 8 * ?d" "sb_ptrs_start t = addr start ?d" "sb_size t = sz"
      by (rule struct_builder_at [OF nonnull [OF \<open>?d \<le> ?n\<close>]])
    have zd: "zeroed (mg_heap m') (set (addr_list start ?d))" using z(1) tot by (auto simp: zeroed_def addr_list_def)
    have data: "8 dvd unat (sb_data_start t) \<longrightarrow> builder_data_field_with_default int_read (mg_heap m') t slot d = Ok d"
      using fresh_data [OF assms(5,6), of "mg_heap m'" t ?d d] zd t(3,5) bound tot by simp
    have "if i < ss_ptrs sz then \<exists>q. ptr_field_mut t i = Ok (Some q) \<and> pb_builder q = sb_builder t \<and> pb_is_null m' q = Ok True
        else ptr_field_mut t i = Ok None"
      using fresh_pointer [of m' start ?d t i] z(1) t(4,6) tot nonnull by (simp add: ptr_field_mut_def)
    with data show ?thesis using run built fo t
      by (simp add: Ok x bbind_def bget_def expect_ok_def)
  next
    case (Err e)
    then show ?thesis using run built res by (auto simp: bbind_def expect_ok_def Let_def)
  qed (use res in auto)
qed

section \<open>Moving a struct to another pointer\<close>

lemma set_offset_struct: "set_content_offset (struct_ptr_new z sz) v = struct_ptr_new v sz"
proof -
  have three: "(3 :: u32) = mask 2" by (simp add: mask_eq_exp_minus_1)
  have "push_bit 2 (i30_inner z) AND 3 = 0" unfolding three by (rule bit_word_eqI) (auto simp: bit_simps)
  then show ?thesis by (simp add: set_content_offset_def struct_ptr_new_def)
qed

lemma contains_backwards:
  assumes "builds (mg_arena m) b s" "i \<le> sused s" "j < i"
  shows "contains_range m b (addr (sdata s) i) (addr (sdata s) j) = Ok False"
proof -
  note d = buildsD [OF assms(1)]
  have "unat (addr (sdata s) k) = unat (sdata s) + 8 * k" if "k \<le> sused s" for k
    using that d(3) by (intro unat_addr [OF d(5)]) simp
  then show ?thesis
    using assms(2,3) by (simp add: contains_range_def builder_start_def builder_end_def d(1) word_le_nat_alt)
qed

lemma offset_from_end_of_back:
  assumes "builds (mg_arena m) b s" "i < sused s" "j \<le> i"
  shows "offset_from_end_of m b (addr (sdata s) i) (addr (sdata s) j) = Panic"
proof -
  have "ptr_offset (addr (sdata s) i) (u29_clip 1) = addr (sdata s) (Suc i)"
    by (simp add: ptr_offset_addr addr_addr)
  then show ?thesis
    using contains_backwards [OF assms(1), of "Suc i" j] assms(2,3) by (simp add: offset_from_end_of_def offset_from_def)
qed

lemma disown_struct:
  assumes "message_built m" "builds (mg_arena m) b s" "i < sused s"
    and "mem (mg_heap m) (addr (sdata s) i) = Some (word_of_parts (struct_ptr_new off sz))"
    and "word_of_parts (struct_ptr_new off sz) \<noteq> Word_NULL" "int i + 1 + i30_val off = int c" "c < scap s"
  shows "disown_into \<lparr>pb_builder = b, pb_ptr = addr (sdata s) i\<rparr> b True m =
    (Ok \<lparr>ob_builder = b, ob_object = Some (OrphanStruct (addr (sdata s) c) sz)\<rparr>,
     m\<lparr>mg_heap := put_words [addr (sdata s) i] (Some Word_NULL) (mg_heap m)\<rparr>)"
proof -
  let ?p = "addr (sdata s) i"
  let ?m = "m\<lparr>mg_heap := put_words [?p] (Some Word_NULL) (mg_heap m)\<rparr>"
  note d = buildsD [OF assms(2)]
  have b: "builds (mg_arena ?m) b s" using assms(2) by simp
  have set: "set_ptr b ?p Word_NULL m = (Ok (), ?m)"
    by (rule set_ptr_addr [OF assms(2)]) (use assms(3,4) d(3) in auto)
  have id: "builder_id ?m b = Ok b"
    using scratch_growing.id_of_builder [OF assms(1,2)] by (simp add: builder_id_def builder_segment_def)
  have seg: "build_segment ?m b = Some b" using b by (simp add: build_segment_def builds_def)
  show ?thesis
    using assms(4,5,7) set id signed_offset_addr [OF assms(6)] check_ref_addr [OF b, of c]
    by (simp add: disown_into_def bbind_def bget_def deref_def is_null_def ptr_kinds struct_word new_offsets new_sizes
        build_object_from_end_in_def seg)
qed

text \<open>C20: a struct disowned by its pointer and adopted by one in the same segment. Where the struct lies after the new
  pointer, that pointer is the struct's and readers find it there with its words untouched, and the
  old pointer is null. Where it lies before, as does every struct built before the pointer's own
  object, adopting it trips a debug assertion.\<close>

theorem move_struct:
  assumes "message_built m" and "builds (mg_arena m) b s" and "i < sused s" and "j < sused s"
    and "mem (mg_heap m) (addr (sdata s) i) = Some (word_of_parts (struct_ptr_new off sz))"
    and "word_of_parts (struct_ptr_new off sz) \<noteq> Word_NULL"
    and "int i + 1 + i30_val off = int c" and "c < scap s" and "c + unat (struct_total sz) \<le> sused s"
    and "mem (mg_heap m) (addr (sdata s) j) = Some Word_NULL \<or> i = j"
  shows "let p = \<lparr>pb_builder = b, pb_ptr = addr (sdata s) i\<rparr>; q = \<lparr>pb_builder = b, pb_ptr = addr (sdata s) j\<rparr> in
    \<exists>orphan m1. disown_into p b True m = (Ok orphan, m1) \<and>
     (if c \<le> j then try_adopt alloc clear_cap levels q orphan True m1 = Some (Panic, m1)
      else \<exists>m2. try_adopt alloc clear_cap levels q orphan True m1 = Some (Ok (), m2) \<and>
       struct_found m2 b (pb_ptr q) sz (addr (sdata s) c) b \<and> mg_arena m2 = mg_arena m \<and>
       (i = j \<or> mem (mg_heap m2) (pb_ptr p) = Some Word_NULL) \<and>
       (\<forall>x. x \<notin> {pb_ptr p, pb_ptr q} \<longrightarrow> mem (mg_heap m2) x = mem (mg_heap m) x))"
proof -
  let ?p = "\<lparr>pb_builder = b, pb_ptr = addr (sdata s) i\<rparr>" and ?q = "\<lparr>pb_builder = b, pb_ptr = addr (sdata s) j\<rparr>"
  let ?o = "\<lparr>ob_builder = b, ob_object = Some (OrphanStruct (addr (sdata s) c) sz)\<rparr>"
  let ?m1 = "m\<lparr>mg_heap := put_words [addr (sdata s) i] (Some Word_NULL) (mg_heap m)\<rparr>"
  note d = buildsD [OF assms(2)]
  have dis: "disown_into ?p b True m = (Ok ?o, ?m1)"
    by (rule disown_struct [OF assms(1,2,3,5,6,7,8)])
  have b: "builds (mg_arena ?m1) b s" using assms(2) by simp
  have null: "mem (mg_heap ?m1) (pb_ptr ?q) = Some Word_NULL" using assms(10) by (auto simp: put_words_def)
  obtain z where z: "i30_from_i16 0 = (Ok z :: (rerror, i30) outcome)" by (rule i30_from_i16_0)
  have adopt: "try_adopt alloc clear_cap levels ?q ?o True ?m1 =
      Some (bbind (bget (\<lambda>m. offset_from_end_of m b (addr (sdata s) j) (addr (sdata s) c)))
        (\<lambda>off. set_ptr b (addr (sdata s) j) (word_of_parts (struct_ptr_new off sz))) ?m1)"
    by (simp add: try_adopt_def nbind_def clear_null [OF null] now_def z adopt_parts_def set_offset_struct Let_def)
  show ?thesis
  proof (cases "c \<le> j")
    case True
    then have "try_adopt alloc clear_cap levels ?q ?o True ?m1 = Some (Panic, ?m1)"
      using adopt offset_from_end_of_back [OF b assms(4)] by (simp add: bbind_def bget_def)
    then show ?thesis using True dis by (auto simp: Let_def)
  next
    case False
    obtain v where v: "offset_from_end_of ?m1 b (addr (sdata s) j) (addr (sdata s) c) = Ok v" "int j + 1 + i30_val v = int c"
      by (rule offset_from_end_of_addr [OF b, of j c]) (use False assms(9) in auto)
    let ?w = "word_of_parts (struct_ptr_new v sz)"
    let ?m2 = "?m1\<lparr>mg_heap := put_words [addr (sdata s) j] (Some ?w) (mg_heap ?m1)\<rparr>"
    have "set_ptr b (addr (sdata s) j) ?w ?m1 = (Ok (), ?m2)"
      by (rule set_ptr_addr [OF b]) (use null assms(4) d(3) in auto)
    then have ad: "try_adopt alloc clear_cap levels ?q ?o True ?m1 = Some (Ok (), ?m2)"
      using adopt v(1) by (simp add: bbind_def bget_def)
    have "struct_found ?m2 b (addr (sdata s) j) sz (addr (sdata s) c) b"
    proof (rule struct_foundI [OF finds_near struct_word])
      show "locates ?m2 (Near (addr (sdata s) j)) b (struct_ptr_new v sz) s b c"
        by (rule locatesI(1)) (use assms(2) v(2) new_offsets(1) in simp_all)
    qed (use assms(8,9) new_sizes ptr_kinds in \<open>auto simp: put_words_def\<close>)
    moreover have "i = j \<or> mem (mg_heap ?m2) (addr (sdata s) i) = Some Word_NULL"
      using addr_inj [OF d(5), of i j] assms(3,4) d(3) by (auto simp: put_words_def)
    ultimately show ?thesis using False dis ad by (auto simp: Let_def put_words_def)
  qed
qed

text \<open>Adopting a struct that lies in another segment which has room for a landing pad. The pad is the
  newest word of that segment, so the struct lies before it and the debug assertion on the offset
  fails; without the assertion the pointer to the struct would be written over the adopting pointer
  and not into the pad.\<close>

lemma adopt_elsewhere_panics:
  assumes "message_built m" and "builds (mg_arena m) o' t" and "i < sused t" and "o' \<noteq> pb_builder p"
    and "fst (alloc_in_segment o' nz29_ONE m) \<noteq> Ok None" and "mem (mg_heap m) (pb_ptr p) = Some Word_NULL"
  shows "\<exists>m'. try_adopt alloc clear_cap levels p \<lparr>ob_builder = o', ob_object = Some (OrphanStruct (addr (sdata t) i) sz)\<rparr> True m =
    Some (Panic, m')"
proof -
  obtain m' where a: "alloc_in_segment o' nz29_ONE m = (Ok (Some (addr (sdata t) (sused t))), m')" "message_built m'"
    "took m (nz29_val nz29_ONE) o' (sused t) m'"
    by (rule scratch_growing.alloc_in_segment_cases [OF assms(1,2), of nz29_ONE]) (use assms(5) in auto)
  note new = took_new [OF a(2,3)]
  obtain t' where t': "builds (mg_arena m') o' t'" "as_segment t' = as_segment t" "sused t \<le> sused t'"
    by (rule took_keeps [OF assms(1) a(2,3) assms(2)])
  then have "sused t < sused t'" using new by (auto simp: builds_def)
  then have "offset_from_end_of m' o' (addr (sdata t) (sused t)) (addr (sdata t) i) = Panic"
    using offset_from_end_of_back [OF t'(1), of "sused t" i] t'(2) assms(3) by simp
  then have "adopt_parts alloc p o' (addr (sdata t) i) q m = (Panic, m')" for q
    using assms(4) a(1) by (simp add: adopt_parts_def Let_def bbind_def bget_def)
  moreover obtain z where "i30_from_i16 0 = (Ok z :: (rerror, i30) outcome)" by (rule i30_from_i16_0)
  ultimately show ?thesis
    by (simp add: try_adopt_def nbind_def clear_null [OF assms(6)] now_def)
qed

section \<open>Clearing a list of structs\<close>

lemma addr_in_space:
  fixes m :: "'a message"
  assumes "builds (mg_arena m) b s" "k < 2 ^ 31"
  shows "unat (addr (sdata s) k) = unat (sdata s) + 8 * k" "addr (sdata s) k \<noteq> 0"
proof -
  note d = buildsD [OF assms(1)]
  have k: "8 * k < 2 ^ 64" "unat (sdata s) + 8 * k < 2 ^ 64" using d(5) assms(2) by auto
  have "(8 * of_nat k :: u64) = of_nat (8 * k)" by simp
  then have "unat (8 * of_nat k :: u64) = 8 * k"
    using k(1) by (simp add: unat_of_nat take_bit_nat_eq_self del: of_nat_mult)
  with k(2) show u: "unat (addr (sdata s) k) = unat (sdata s) + 8 * k" by (simp add: addr_def unat_add_no_wrap)
  have "0 < unat (sdata s)" using d(4) by (simp add: unat_gt_0)
  with u show "addr (sdata s) k \<noteq> 0" by (metis add_gr_0 less_numeral_extra(3) unat_0)
qed

lemma contains_section_addr:
  assumes "builds (mg_arena m) b s" "c < scap s" "c \<le> sused s"
  shows "contains_section m b (addr (sdata s) c) n = Ok (c + u29_val n \<le> sused s)"
proof -
  note d = buildsD [OF assms(1)]
  have l: "c < 2 ^ 29" "u29_val n < 2 ^ 29" "sused s < 2 ^ 29"
    using assms(2) u29_val_less [of "seg_len (as_segment s)"] u29_val_less [of n] u29_val_less [of "used_len s"] by auto
  note u = addr_in_space(1) [OF assms(1)]
  show ?thesis
    using l assms(3) u [of c] u [of "sused s"] u [of "c + u29_val n"]
    by (simp add: contains_section_def contains_range_def builder_start_def builder_end_def d(1) ptr_offset_addr addr_addr
        word_le_nat_alt) arith
qed

lemma composites_without_pointers:
  assumes "ss_ptrs sz = 0" "\<And>d. d \<in> set ds \<Longrightarrow> d \<noteq> 0 \<and> addr d (unat (ss_data sz)) \<noteq> 0"
  shows "clear_composites clear b sz ds m = Some (Ok (), m)"
  using assms(2)
proof (induction ds)
  case (Cons d ds)
  obtain n where n: "u29_from_u16 (ss_data sz) = (Ok n :: (rerror, u29) outcome)" "u29_val n = unat (ss_data sz)" by (rule u16_offset)
  obtain z where z: "u29_from_u16 (ss_ptrs sz) = (Ok z :: (rerror, u29) outcome)" "u29_val z = unat (ss_ptrs sz)" by (rule u16_offset)
  have "iter_unchecked q z = []" for q using z(2) assms(1) by (simp add: iter_unchecked_def addr_list_def)
  then show ?case
    using Cons n z(1)
    by (simp add: nbind_def now_def bget_def as_ref_unchecked_def ptr_offset_addr clear_ptr_section_def)
qed (simp add: now_def bget_def)

lemma put_words_twice: "put_words ys v (put_words [x] v h) = put_words (x # ys) v h"
  by (cases h) (simp add: put_words_def fun_eq_iff)

lemma null_kind: "kind Word_NULL = KStruct" by code_simp

lemma tag_word: "struct_ptr (word_of_parts (new_inline_composite_tag n sz)) = Some (new_inline_composite_tag n sz)"
  by (simp add: struct_ptr_def is_struct_def ptr_kinds)

lemma step_back:
  obtains v where "i30_from_i16 (- 1) = (Ok v :: (rerror, i30) outcome)" "ptr_signed_offset (addr a (Suc c)) v = addr a c"
proof -
  have "i30_inner (i30_clip (- 1)) = - 1" by simp
  then show thesis
    by (intro that [of "i30_clip (- 1)"])
       (simp_all add: i30_from_i16_def i30_new_unwrap_def i30_new_eq ptr_signed_offset_def addr_def)
qed

text \<open>Clearing a pointer to a list of structs without pointers. The number of words in the list pointer is
  taken for the number of structs, so for structs of \<open>w\<close> words the call clears \<open>w\<close> times the list:
  the objects that follow the list in its segment are wiped, or if the segment ends before a debug
  assertion fails.\<close>

lemma clear_structs_overruns:
  assumes "message_built m" and "builds (mg_arena m) b s" and "k < sused s" and "c < sused s"
    and "mem (mg_heap m) (addr (sdata s) k) = Some (word_of_parts (list_ptr_new off PInlineComposite words))"
    and "int k + 1 + i30_val off = int c"
    and "mem (mg_heap m) (addr (sdata s) c) = Some (word_of_parts (new_inline_composite_tag n sz))"
    and "ss_ptrs sz = 0" and "u29_val words = u29_val n * unat (ss_data sz)" and "u29_val words * unat (ss_data sz) < 2 ^ 29 - 1"
  shows "let N = 1 + u29_val words * unat (ss_data sz); p = \<lparr>pb_builder = b, pb_ptr = addr (sdata s) k\<rparr> in
    if c + N \<le> sused s
    then pb_clear clear_cap (Suc levels) p m =
      Some (Ok (), m\<lparr>mg_heap := put_words (addr (sdata s) k # addr_list (addr (sdata s) c) N) (Some Word_NULL) (mg_heap m)\<rparr>)
    else \<exists>m'. pb_clear clear_cap (Suc levels) p m = Some (Panic, m')"
proof -
  let ?k = "addr (sdata s) k" and ?c = "addr (sdata s) c" and ?D = "unat (ss_data sz)"
  let ?w = "word_of_parts (list_ptr_new off PInlineComposite words)"
  let ?N = "1 + u29_val words * ?D"
  let ?m1 = "m\<lparr>mg_heap := put_words [?k] (Some Word_NULL) (mg_heap m)\<rparr>"
  let ?N' = "\<lparr>nl_clear_cap = clear_cap, nl_handle_err = IgnoreErrors\<rparr>"
  note d = buildsD [OF assms(2)]
  have b: "builds (mg_arena ?m1) b s" using assms(2) by simp
  have ne: "?k \<noteq> ?c" using assms(5,7) ptr_kinds by (metis option.inject wire_kind.distinct(1))
  have tag: "deref (mg_heap ?m1) ?c = Ok (word_of_parts (new_inline_composite_tag n sz))"
    using ne assms(7) by (simp add: deref_def put_words_def)
  have c29: "c < 2 ^ 29" using assms(4) u29_val_less [of "used_len s"] by simp
  have nn: "?w \<noteq> Word_NULL" using null_kind ptr_kinds(3) by (metis wire_kind.distinct(1))
  have locate: "locate m b ?k = Ok (\<lparr>ct_ptr = ?w, ct_location = Near ?k\<rparr>, b)"
    using assms(5) by (simp add: locate_def locate_ptr_def deref_def far_ptr_def ptr_kinds)
  have ptrs: "clear_ptrs b ?k m = (Ok (), ?m1)"
    using assms(5) set_ptr_addr [OF assms(2), of k Word_NULL] assms(3) d(3)
    by (simp add: clear_ptrs_def bbind_def bget_def deref_def far_ptr_def ptr_kinds)
  have place: "locate_list_place ?m1 b (Near ?k) (list_ptr_new off PInlineComposite words) = Ok (Some (?c, b))"
    using check_ref_addr [OF b, of c] assms(4) d(3)
    by (simp add: locate_list_place_def build_at_def new_offsets build_object_from_end_of_def signed_offset_addr [OF assms(6)])
  let ?l = "\<lparr>ls_ptr = addr (sdata s) (Suc c), ls_element_size = InlineComposite sz, ls_element_count = words\<rparr>"
  have content: "cleared_list_content ?m1 ?c (list_ptr_new off PInlineComposite words) = Ok ?l"
    using tag addr_in_space(2) [OF assms(2), of "Suc c"] c29
    by (simp add: cleared_list_content_def list_ptr_count list_ptr_elem tag_word as_ref_unchecked_def ptr_offset_addr addr_addr
        new_sizes)
  have list: "clear_list (clear_ptr ?N' levels) b ?l ?m1 = Some (clear_list_section b ?l ?m1)"
  proof -
    obtain len where len: "struct_len sz = (Ok len :: (rerror, u29) outcome)" "u29_val len = unat (struct_total sz)"
      by (rule struct_len_total)
    have D: "u29_val len = ?D" using len(2) assms(8) by (simp add: unat_struct_total)
    let ?places = "map (\<lambda>i. addr (addr (sdata s) (Suc c)) (?D * i)) [0..<u29_val words]"
    have "unat (u29_inner len * u29_inner words) = ?D * u29_val words" "?D * u29_val words < 2 ^ 32"
      using assms(10) D by (simp_all add: unat_mult_no_wrap mult.commute)
    then have step: "step_by_unchecked (addr (sdata s) (Suc c)) len words = Ok ?places"
      using assms(10) D by (simp add: step_by_unchecked_def checked_mul_def word_le_nat_alt u29_MAX_VALUE_def mult.commute)
    have "e \<noteq> 0 \<and> addr e ?D \<noteq> 0" if e: "e \<in> set ?places" for e
    proof -
      obtain i where "i < u29_val words" "e = addr (addr (sdata s) (Suc c)) (?D * i)" using e by auto
      then have i: "e = addr (sdata s) (Suc c + ?D * i)" "i < u29_val words" by (simp_all add: addr_addr)
      have "?D * (i + 1) \<le> ?D * u29_val words" using i(2) by (intro mult_le_mono2) simp
      then have "Suc c + ?D * i + ?D < 2 ^ 31" using assms(10) c29 by (simp add: mult.commute)
      then show ?thesis using i(1) addr_in_space(2) [OF assms(2)] by (simp add: addr_addr)
    qed
    then have "clear_composites (clear_ptr ?N' levels) b sz ?places ?m1 = Some (Ok (), ?m1)"
      by (intro composites_without_pointers assms(8)) blast
    then show ?thesis by (simp add: clear_list_def nbind_def now_def bget_def len(1) step)
  qed
  have sect: "clear_list_section b ?l ?m1 = (if c + ?N \<le> sused s
      then (Ok (), ?m1\<lparr>mg_heap := put_words (addr_list ?c ?N) (Some Word_NULL) (mg_heap ?m1)\<rparr>) else (Panic, ?m1))"
  proof -
    have lw: "list_object_words (InlineComposite sz) (u29_val words) = ?N"
      using assms(8) by (simp add: list_object_words_def)
    obtain t where t: "checked_add (total_words (InlineComposite sz) words) 1 = Some t" "unat t = ?N"
      by (rule total_words_exact [of "InlineComposite sz" words]) (use lw assms(10) in auto)
    then have ow: "object_words (InlineComposite sz) words = t" by (simp add: object_words_def checked_add_Some)
    have "unat t < 2 ^ 29" "0 < unat t" using t(2) assms(10) by simp_all
    then obtain N where N: "nz29_new t = Some N" "nz29_val N = ?N" using t(2) by (simp add: nz29_new_eq unat_gt_0)
    obtain v where v: "i30_from_i16 (- 1) = (Ok v :: (rerror, i30) outcome)" "ptr_signed_offset (addr (sdata s) (Suc c)) v = ?c"
      by (rule step_back)
    have mapped: "\<exists>w. mem (mg_heap m) x = Some w" if x: "x \<in> set (addr_list ?c ?N)" "c + ?N \<le> sused s" for x
    proof -
      obtain i where i: "x = addr (sdata s) (c + i)" "i < ?N" using x by (auto simp: addr_list_def addr_addr)
      then have "x \<in> used_places (mg_arena m)" using addr_used [OF assms(1,2), of "c + i"] x(2) by simp
      then show ?thesis using used_place_mapped [OF assms(1)] by blast
    qed
    then have all: "c + ?N \<le> sused s \<Longrightarrow> list_all (\<lambda>x. mem (mg_heap ?m1) x \<noteq> None) (addr_list ?c ?N)"
      by (auto simp: list_all_iff put_words_def)
    show ?thesis
      using check_ref_addr [OF b, of c] contains_section_addr [OF b, of c "u29_of_nz29 N"] assms(4) d(3) all
      by (auto simp: clear_list_section_def ow N v clear_section_def bbind_def bget_def Let_def)
  qed
  have run: "pb_clear clear_cap (Suc levels) \<lparr>pb_builder = b, pb_ptr = ?k\<rparr> m =
      map_option (\<lambda>(r, s'). (expect_ok r, s')) (Some (clear_list_section b ?l ?m1))"
    using assms(5) nn locate ptrs place content list
    by (simp add: pb_clear_def nexpect_def pb_try_clear_def nbind_def now_def bget_def pb_is_null_def deref_def is_null_def
        clear_content_def ptr_kinds list_word)
  show ?thesis unfolding Let_def run sect
    by (auto simp: expect_ok_def put_words_twice)
qed

section \<open>Witnesses\<close>

text \<open>A message with eight words of scratch space, of which the root takes the first.\<close>

definition room_space :: segment where
  "room_space = \<lparr>seg_data = 64, seg_len = u29_clip 8\<rparr>"

definition room_heap :: heap where
  "room_heap = \<lparr>mem = (\<lambda>x. if x \<in> set (addr_list 64 8) then Some Word_NULL else None), choices = []\<rparr>"

definition room_arena :: "global growing scratch arena" where
  "room_arena = \<lparr>first = Some (arena_segment_new room_space nz29_ONE 0), tail = [], last_owned = 0,
     ar_alloc = (with_segment room_space (growing_new nz29_ONE Global))\<lparr>sc_used := True\<rparr>\<rparr>"

definition room_message :: "global growing scratch message" where
  "room_message = \<lparr>mg_arena = room_arena, mg_heap = room_heap\<rparr>"

abbreviation room_root :: arena_segment where "room_root \<equiv> arena_segment_new room_space nz29_ONE 0"

lemma room_alloc_root:
  "alloc_root message_alloc (arena_new (with_segment room_space (growing_new nz29_ONE Global))) room_heap = Ok (room_arena, room_heap)"
  by (simp add: alloc_root_def arena_alloc_segment_def arena_new_def with_segment_def scratch_alloc_def
      u29_less_iff room_space_def room_arena_def)

lemma room_built: "message_built room_message"
proof -
  let ?ar = "arena_new (with_segment room_space (growing_new nz29_ONE Global))"
  have addrs: "seg_addrs room_space = set (addr_list 64 8)" by (simp add: seg_addrs_def room_space_def)
  have "zeroed room_heap (set (addr_list 64 8))" by (simp add: zeroed_def room_heap_def)
  moreover have "unat (seg_data room_space) + 8 * u29_val (seg_len room_space) \<le> 2 ^ 63" "seg_data room_space \<noteq> 0"
    by (simp_all add: room_space_def)
  ultimately have "scratch_inv (\<lambda>_ _. True) (\<lambda>_. {}) (ar_alloc ?ar) room_heap"
    by (simp add: scratch_inv_def with_segment_def arena_new_def addrs)
  then have "message_ok_arena room_arena room_heap"
    by (rule scratch_growing.alloc_root_ok) (use room_alloc_root in \<open>auto simp: arena_new_def\<close>)
  then show ?thesis
    by (simp add: built_ok_def room_message_def ids_ok_def segs_def room_arena_def)
       (simp add: arena_segment_new_def room_space_def)
qed

lemma room_null: "mem (mg_heap room_message) 64 = Some Word_NULL"
proof -
  have "addr 64 0 \<in> set (addr_list 64 8)" unfolding set_addr_list by (rule imageI) simp
  then show ?thesis by (simp add: room_message_def room_heap_def)
qed

lemma room_root_builds: "builds (mg_arena room_message) 0 room_root" "sdata room_root = 64" "sused room_root = 1"
proof -
  show "sdata room_root = 64" "sused room_root = 1"
    by (simp_all add: arena_segment_new_def room_space_def used_len_def)
  show "builds (mg_arena room_message) 0 room_root"
    by (simp add: builds_iff [OF room_built])
       (simp add: room_message_def segs_def room_arena_def arena_segment_new_def owned_def)
qed

lemma room_alloc:
  assumes "nz29_val n \<le> 7"
  obtains m' where "alloc_in_segment 0 n room_message = (Ok (Some (addr 64 1)), m')" "message_built m'"
    "took room_message (nz29_val n) 0 1 m'"
proof (rule scratch_growing.alloc_in_segment_cases [OF room_built room_root_builds(1), of n])
  assume none: "alloc_in_segment 0 n room_message = (Ok None, room_message)"
  have "unat (nz29_inner nz29_ONE + nz29_inner n) = Suc (nz29_val n)"
    using nz29_val_bounds(2) [of n] by (subst unat_add_no_wrap) simp_all
  then obtain u where "nz29_new_unwrap (nz29_inner nz29_ONE + nz29_inner n) = (Ok u :: (unit, nz29) outcome)"
    "\<not> 8 < nz29_inner nz29_ONE + nz29_inner n"
    using assms by (simp add: nz29_new_unwrap_def nz29_new_eq word_less_nat_alt)
  then have "fst (use_len 0 n room_message) \<noteq> Ok None"
    by (simp add: use_len_def builder_segment_def room_message_def room_arena_def arena_segment_at_def try_use_len_def
        arena_segment_new_def room_space_def Let_def expect_ok_def)
  then have "fst (alloc_in_segment 0 n room_message) \<noteq> Ok None"
    by (auto simp: alloc_in_segment_def bbind_def bget_def obind_Ok_iff split: prod.split outcome.split option.split)
  with none show thesis by simp
next
  fix m' assume "alloc_in_segment 0 n room_message = (Ok (Some (addr (sdata room_root) (sused room_root))), m')"
    "message_built m'" "took room_message (nz29_val n) 0 (sused room_root) m'"
  then show thesis using that room_root_builds(2,3) by simp
qed

lemma room_struct:
  assumes "unat (struct_total sz) \<in> {1..7}"
  obtains m' where "alloc_struct message_alloc 0 64 sz room_message = (Ok (addr 64 1, 0), m')" "message_built m'"
    "fresh_object room_message 64 m' (addr 64 1) (unat (struct_total sz))" "struct_found m' 0 64 sz (addr 64 1) 0"
proof -
  obtain len where len: "nz29_new (struct_total sz) = Some len" "nz29_val len = unat (struct_total sz)"
    using assms by (simp add: nz29_new_eq)
  obtain m1 where m1: "alloc_in_segment 0 len room_message = (Ok (Some (addr 64 1)), m1)" "message_built m1"
    "took room_message (nz29_val len) 0 1 m1"
    by (rule room_alloc [of len]) (use len(2) assms in auto)
  have pos: "0 < sused room_root" by (simp add: room_root_builds)
  show thesis
    by (rule scratch_growing.alloc_near_struct [OF room_built room_root_builds(1) pos len(1), unfolded room_root_builds addr_0, OF m1])
       (rule that, assumption, assumption, assumption, erule lasting_now)
qed

theorem init_struct_fields_witness:
  "\<exists>t m' q. init_struct message_alloc empty_clear_cap 0 \<lparr>pb_builder = 0, pb_ptr = 64\<rparr> \<lparr>ss_data = 1, ss_ptrs = 1\<rparr> room_message =
      Some (Ok t, m') \<and> message_built m' \<and> sb_size t = \<lparr>ss_data = 1, ss_ptrs = 1\<rparr> \<and>
    builder_data_field_with_default int_read (mg_heap m') t 3 (0xBEEF :: u16) = Ok 0xBEEF \<and>
    ptr_field_mut t 0 = Ok (Some q) \<and> pb_is_null m' q = Ok True"
proof -
  let ?sz = "\<lparr>ss_data = 1, ss_ptrs = 1\<rparr>" and ?p = "\<lparr>pb_builder = 0, pb_ptr = 64\<rparr>"
  have tot: "unat (struct_total ?sz) = 2" by (simp add: unat_struct_total)
  obtain m' where m': "alloc_struct message_alloc 0 64 ?sz room_message = (Ok (addr 64 1, 0), m')"
    by (rule room_struct [of ?sz]) (use tot in auto)
  have null: "mem (mg_heap room_message) 64 = Some Word_NULL" by (simp add: room_null)
  obtain t where t: "struct_builder_of 0 (addr 64 1) ?sz = Ok t" "sb_data_start t = addr 64 1"
    by (rule struct_builder_at [of "addr 64 1" ?sz 0]) (simp_all add: addr_def)
  have run: "init_struct message_alloc empty_clear_cap 0 ?p ?sz room_message = Some (Ok t, m')"
    using null by (subst init_on_null) (simp_all add: try_init_struct_zeroed_def bbind_def bget_def m' t(1) [unfolded One_nat_def] expect_ok_def)
  have "0 < sused room_root" by (simp add: room_root_builds)
  from init_struct_fields [OF room_built room_root_builds(1) this, where 'a = 16, of 3 empty_clear_cap 0 ?sz "0xBEEF" 0]
  show ?thesis
    using null run t(2) by (auto simp: room_root_builds Let_def wire_int_def addr_def)
qed

text \<open>The root as a struct whose only pointer is the root itself.\<close>

definition cyclic_message :: "global growing scratch message" where
  "cyclic_message = room_message\<lparr>mg_heap := put_words [64] (Some (word_of_parts (struct_ptr_new (i30_clip (- 1)) \<lparr>ss_data = 0, ss_ptrs = 1\<rparr>))) room_heap\<rparr>"

theorem clear_ends_witness:
  "\<exists>m'. pb_clear empty_clear_cap 1 \<lparr>pb_builder = 0, pb_ptr = 64\<rparr> cyclic_message = Some (Ok (), m') \<and>
    pb_clear empty_clear_cap 10 \<lparr>pb_builder = 0, pb_ptr = 64\<rparr> cyclic_message = Some (Ok (), m') \<and>
    wipes cyclic_message m' \<and> mem (mg_heap m') 64 = Some Word_NULL"
proof -
  let ?w = "word_of_parts (struct_ptr_new (i30_clip (- 1)) \<lparr>ss_data = 0, ss_ptrs = 1\<rparr>)"
  have "filled cyclic_message \<subseteq> {64}"
    by (auto simp: filled_def cyclic_message_def room_heap_def put_words_def split: if_splits)
  then have "card (filled cyclic_message) \<le> card {64 :: u64}" by (intro card_mono) auto
  then have card: "card (filled cyclic_message) \<le> 1" by simp
  have off: "i30_val (i30_clip (- 1)) = - 1" by code_simp
  have "tame_ptr empty_clear_cap room_root {0} 0 ?w"
    using off new_offsets(1) [of "i30_clip (- 1)" "\<lparr>ss_data = 0, ss_ptrs = 1\<rparr>"] buildsD(3) [OF room_root_builds(1)]
    by (auto simp: tame_ptr_def Let_def ptr_kinds new_sizes room_root_builds unat_struct_total
      intro!: exI [of _ "i30_clip (- 1)"] exI [of _ 0])
  then have "tame empty_clear_cap 0 room_root {0} cyclic_message"
    using room_root_builds by (auto simp: tame_def cyclic_message_def put_words_def)
  then have "\<exists>s K j. tame empty_clear_cap 0 s K cyclic_message \<and> 64 = addr (sdata s) j \<and> j \<in> K"
    using room_root_builds(2) by (intro exI [of _ room_root] exI [of _ "{0}"] exI [of _ 0]) simp
  with clear_ends [OF card, of empty_clear_cap "\<lparr>pb_builder = 0, pb_ptr = 64\<rparr>" 9] show ?thesis by auto
qed

text \<open>The same message with more of its words in use, and with words written to it.\<close>

lemma room_filled:
  assumes "0 < n" "n \<le> 7"
  obtains m s where "message_built m" "builds (mg_arena m) 0 s" "sdata s = 64" "sused s = Suc n"
    "\<And>i. i \<le> n \<Longrightarrow> mem (mg_heap m) (addr 64 i) = Some Word_NULL"
proof -
  obtain k where k: "nz29_val k = n" using assms by (intro that [of "nz29_clip (of_nat n)"]) (auto simp: unat_of_nat take_bit_nat_eq_self)
  obtain m where m: "message_built m" "took room_message n 0 1 m"
    by (rule room_alloc [of k]) (use k assms in auto)
  let ?s = "msegs m ! unat (0 :: u32)"
  note new = took_new [OF m]
  obtain t where t: "builds (mg_arena m) 0 t" "as_segment t = as_segment room_root"
    by (rule took_keeps [OF room_built m room_root_builds(1)])
  then have seg: "sdata ?s = 64" using new(1) room_root_builds(2) by (simp add: builds_def)
  have null: "mem (mg_heap m) (addr 64 i) = Some Word_NULL" if "i \<le> n" for i
  proof (cases i)
    case 0
    have "64 \<in> used_places (mg_arena room_message)"
      using addr_used [OF room_built room_root_builds(1), of 0] by (simp add: room_root_builds)
    then show ?thesis using m(2) room_null 0 by (simp add: took_def)
  next
    case (Suc j)
    have "addr 64 i \<in> seg_place ?s 1 n" using that Suc seg by (auto simp: seg_place_def)
    then show ?thesis using m(2) by (auto simp: took_def Let_def zeroed_def)
  qed
  show thesis by (rule that [OF m(1) new(1) seg]) (use new(2) null in auto)
qed

lemma room_write:
  assumes "message_built m" "builds (mg_arena m) 0 s" "sdata s = 64" "i < sused s"
  shows "message_built (m\<lparr>mg_heap := put_words [addr 64 i] (Some w) (mg_heap m)\<rparr>)"
  by (rule scratch_growing.write_built [OF assms(1)]) (use addr_used [OF assms(1,2,4)] assms(3) in simp)

lemma room_words:
  fixes w t v :: Word
  obtains m s where "message_built m" "builds (mg_arena m) 0 s" "sdata s = 64" "sused s = 6"
    "mem (mg_heap m) (addr 64 0) = Some w" "mem (mg_heap m) (addr 64 1) = Some t" "mem (mg_heap m) (addr 64 5) = Some v"
proof -
  obtain m s where m: "message_built m" "builds (mg_arena m) 0 s" "sdata s = 64" "sused s = Suc 5"
    by (rule room_filled [of 5]) auto
  let ?m1 = "m\<lparr>mg_heap := put_words [addr 64 5] (Some v) (mg_heap m)\<rparr>"
  let ?m2 = "?m1\<lparr>mg_heap := put_words [addr 64 1] (Some t) (mg_heap ?m1)\<rparr>"
  let ?m = "?m2\<lparr>mg_heap := put_words [addr 64 0] (Some w) (mg_heap ?m2)\<rparr>"
  have b: "builds (mg_arena ?m1) 0 s" "builds (mg_arena ?m2) 0 s" "builds (mg_arena ?m) 0 s" using m(2) by simp_all
  have "message_built ?m1" by (rule room_write [OF m(1-3)]) (simp add: m(4))
  then have "message_built ?m2" by (rule room_write [OF _ b(1) m(3)]) (simp add: m(4))
  then have built: "message_built ?m" by (rule room_write [OF _ b(2) m(3)]) (simp add: m(4))
  have ne: "addr 64 5 \<noteq> addr 64 1" "addr 64 5 \<noteq> addr 64 0" "addr 64 1 \<noteq> addr 64 0" by (simp_all add: addr_def)
  show thesis
    by (rule that [OF built b(3) m(3)]) (use ne m(4) in \<open>simp_all add: put_words_def\<close>)
qed

theorem move_struct_witness:
  "\<exists>m orphan m1 m2. message_built m \<and> mem (mg_heap m) (addr 64 1) = Some Word_NULL \<and>
    disown_into \<lparr>pb_builder = 0, pb_ptr = 64\<rparr> 0 True m = (Ok orphan, m1) \<and>
    try_adopt message_alloc empty_clear_cap 0 \<lparr>pb_builder = 0, pb_ptr = addr 64 1\<rparr> orphan True m1 = Some (Ok (), m2) \<and>
    struct_found m2 0 (addr 64 1) \<lparr>ss_data = 1, ss_ptrs = 0\<rparr> (addr 64 2) 0 \<and> mem (mg_heap m2) 64 = Some Word_NULL"
proof -
  let ?sz = "\<lparr>ss_data = 1, ss_ptrs = 0\<rparr>" and ?off = "i30_clip 1"
  let ?w = "word_of_parts (struct_ptr_new ?off ?sz)"
  obtain m s where m: "message_built m" "builds (mg_arena m) 0 s" "sdata s = 64" "sused s = Suc 2"
    "\<And>i. i \<le> 2 \<Longrightarrow> mem (mg_heap m) (addr 64 i) = Some Word_NULL"
    by (rule room_filled [of 2]) auto
  let ?m = "m\<lparr>mg_heap := put_words [addr 64 0] (Some ?w) (mg_heap m)\<rparr>"
  have "message_built ?m" by (rule room_write [OF m(1-3)]) (simp add: m(4))
  have b: "builds (mg_arena ?m) 0 s" using m(2) by simp
  have nn: "?w \<noteq> Word_NULL" by code_simp
  have null: "mem (mg_heap ?m) (addr 64 1) = Some Word_NULL" using m(5) [of 1] by (simp add: put_words_def addr_def)
  have *: "0 < sused s" "1 < sused s" "mem (mg_heap ?m) (addr (sdata s) 0) = Some ?w" "int 0 + 1 + i30_val ?off = int 2"
    "2 < scap s" "2 + unat (struct_total ?sz) \<le> sused s" "mem (mg_heap ?m) (addr (sdata s) 1) = Some Word_NULL \<or> 0 = (1 :: nat)"
    using m(3,4) null buildsD(3) [OF m(2)] by (simp_all add: put_words_def unat_struct_total)
  from move_struct [OF \<open>message_built ?m\<close> b *(1,2,3) nn *(4-7), of message_alloc empty_clear_cap 0]
  have "\<exists>orphan m1 m2. disown_into \<lparr>pb_builder = 0, pb_ptr = 64\<rparr> 0 True ?m = (Ok orphan, m1) \<and>
    try_adopt message_alloc empty_clear_cap 0 \<lparr>pb_builder = 0, pb_ptr = addr 64 1\<rparr> orphan True m1 = Some (Ok (), m2) \<and>
    struct_found m2 0 (addr 64 1) ?sz (addr 64 2) 0 \<and> mem (mg_heap m2) 64 = Some Word_NULL"
    by (auto simp: Let_def m(3))
  then show ?thesis using \<open>message_built ?m\<close> null by blast
qed

lemma adopt_elsewhere_panics_witness:
  "\<exists>m'. try_adopt message_alloc empty_clear_cap 0 \<lparr>pb_builder = 1, pb_ptr = 64\<rparr>
    \<lparr>ob_builder = 0, ob_object = Some (OrphanStruct 64 \<lparr>ss_data = 1, ss_ptrs = 0\<rparr>)\<rparr> True room_message = Some (Panic, m')"
proof -
  obtain m' where "alloc_in_segment 0 nz29_ONE room_message = (Ok (Some (addr 64 1)), m')"
    by (rule room_alloc [of nz29_ONE]) auto
  then have "fst (alloc_in_segment 0 nz29_ONE room_message) \<noteq> Ok None" by simp
  then show ?thesis
    using adopt_elsewhere_panics [OF room_built room_root_builds(1), of 0 "\<lparr>pb_builder = 1, pb_ptr = 64\<rparr>"] room_null
    by (simp add: room_root_builds)
qed

text \<open>One struct of two words, and after it a word that the call wipes.\<close>

lemma clear_structs_overruns_witness:
  "\<exists>m m'. message_built m \<and> mem (mg_heap m) (addr 64 5) = Some (Word 1 2 3 4 5 6 7 8) \<and>
    mem (mg_heap m) 64 = Some (word_of_parts (list_ptr_new (i30_clip 0) PInlineComposite (u29_clip 2))) \<and>
    mem (mg_heap m) (addr 64 1) = Some (word_of_parts (new_inline_composite_tag (u29_clip 1) \<lparr>ss_data = 2, ss_ptrs = 0\<rparr>)) \<and>
    pb_clear empty_clear_cap 1 \<lparr>pb_builder = 0, pb_ptr = 64\<rparr> m = Some (Ok (), m') \<and>
    mem (mg_heap m') (addr 64 5) = Some Word_NULL"
proof -
  let ?sz = "\<lparr>ss_data = 2, ss_ptrs = 0\<rparr>" and ?off = "i30_clip 0" and ?n = "u29_clip 1" and ?words = "u29_clip 2"
  let ?w = "word_of_parts (list_ptr_new ?off PInlineComposite ?words)" and ?t = "word_of_parts (new_inline_composite_tag ?n ?sz)"
  obtain m s where m: "message_built m" "builds (mg_arena m) 0 s" "sdata s = 64" "sused s = 6"
    "mem (mg_heap m) (addr 64 0) = Some ?w" "mem (mg_heap m) (addr 64 1) = Some ?t"
    "mem (mg_heap m) (addr 64 5) = Some (Word 1 2 3 4 5 6 7 8)"
    by (rule room_words)
  have words: "mem (mg_heap m) (addr (sdata s) 0) = Some ?w" "mem (mg_heap m) (addr (sdata s) 1) = Some ?t"
    by (simp_all only: m(3,5,6))
  have *: "0 < sused s" "1 < sused s" "int 0 + 1 + i30_val ?off = int 1" "ss_ptrs ?sz = 0"
    "u29_val ?words = u29_val ?n * unat (ss_data ?sz)" "u29_val ?words * unat (ss_data ?sz) < 2 ^ 29 - 1"
    by (simp_all add: m(4))
  have in5: "addr 64 5 \<in> set (addr_list (addr 64 1) 5)"
  proof -
    have "addr 64 5 = addr (addr 64 1) 4" by (simp add: addr_addr)
    then show ?thesis unfolding set_addr_list by (rule image_eqI) simp
  qed
  let ?m' = "m\<lparr>mg_heap := put_words (addr 64 0 # addr_list (addr 64 1) 5) (Some Word_NULL) (mg_heap m)\<rparr>"
  from clear_structs_overruns [OF m(1,2) *(1,2) words(1) *(3) words(2) *(4-6), of empty_clear_cap 0]
  have "pb_clear empty_clear_cap 1 \<lparr>pb_builder = 0, pb_ptr = 64\<rparr> m = Some (Ok (), ?m')"
    by (simp add: Let_def m(3,4))
  moreover have "mem (mg_heap ?m') (addr 64 5) = Some Word_NULL"
    using in5 by (simp add: put_words_def)
  ultimately show ?thesis using m(1,5-7) unfolding addr_0 by blast
qed

end
