(* ===== verification/Copy_Machine.thy ===== *)
theory Copy_Machine
  imports Ptr_Builder
begin

text \<open>
  Copying objects from one message into another (\<^verbatim>\<open>recapn/src/ptr.rs\<close>: \<open>CopySize\<close>, \<open>CopyMachine\<close> and
  the operations of \<open>PtrBuilder\<close>, \<open>StructBuilder\<close> and \<open>ListBuilder\<close> over it). The source is read in a
  heap of its own: while it is borrowed for the copy nothing writes to it. \<open>U::copy\<close>, which carries a
  capability from the table of the source to that of the destination, is a parameter; its table is
  part of the state.
\<close>

section \<open>Sizes\<close>

datatype 'a copy_size = FromValue | Canonical | Minimum 'a

definition is_canonical :: "'a copy_size \<Rightarrow> bool" where
  "is_canonical c \<longleftrightarrow> (case c of Canonical \<Rightarrow> True | _ \<Rightarrow> False)"

definition struct_copy_size :: "heap \<Rightarrow> struct_size copy_size \<Rightarrow> struct_reader \<Rightarrow> (rerror, struct_size) outcome" where
  "struct_copy_size h c value = (case c of
     Canonical \<Rightarrow> canonical_size h value
   | FromValue \<Rightarrow> Ok (struct_reader_size value)
   | Minimum sz \<Rightarrow> Ok (struct_max (struct_reader_size value) sz))"

text \<open>The error is the one of an incompatible upgrade.\<close>

definition list_copy_size :: "heap \<Rightarrow> elem_size copy_size \<Rightarrow> list_reader \<Rightarrow> (rerror, elem_size) outcome" where
  "list_copy_size h c value = (case c of
     Canonical \<Rightarrow> canonical_element_size h value
   | FromValue \<Rightarrow> Ok (lr_element_size value)
   | Minimum sz \<Rightarrow> ok_or (fail_upgrade (as_ptr_size (lr_element_size value)) (as_ptr_size sz))
       (upgrade_to (lr_element_size value) sz))"

section \<open>The state of a copy\<close>

text \<open>The limiter of the source, the table of the destination, the message of the destination. Copying
  recurses as deep as the objects do; without enough levels it has no result.\<close>

record ('a, 'c) copy_state =
  cs_limit :: "u64 option"
  cs_table :: 'c
  cs_message :: "'a message"

type_synonym ('a, 'c, 'b) copying = "('a, 'c) copy_state \<Rightarrow> ((rerror, 'b) outcome \<times> ('a, 'c) copy_state) option"

definition pbind :: "('a, 'c, 'b) copying \<Rightarrow> ('b \<Rightarrow> ('a, 'c, 'd) copying) \<Rightarrow> ('a, 'c, 'd) copying" where
  "pbind m f = (\<lambda>s. case m s of
     None \<Rightarrow> None
   | Some (Ok x, s') \<Rightarrow> f x s' | Some (Err e, s') \<Rightarrow> Some (Err e, s')
   | Some (Panic, s') \<Rightarrow> Some (Panic, s') | Some (UB, s') \<Rightarrow> Some (UB, s'))"

definition pure :: "(rerror, 'b) outcome \<Rightarrow> ('a, 'c, 'b) copying" where
  "pure x = (\<lambda>s. Some (x, s))"

definition in_message :: "('a, 'b) build \<Rightarrow> ('a, 'c, 'b) copying" where
  "in_message f = (\<lambda>s. case f (cs_message s) of (x, m) \<Rightarrow> Some (x, s\<lparr>cs_message := m\<rparr>))"

definition clearing_in_message :: "('a, 'b) clearing \<Rightarrow> ('a, 'c, 'b) copying" where
  "clearing_in_message f = (\<lambda>s. map_option (\<lambda>(x, m). (x, s\<lparr>cs_message := m\<rparr>)) (f (cs_message s)))"

text \<open>A match on the result of a call: an error is given to the handler.\<close>

definition on_error :: "('a, 'c, 'b) copying \<Rightarrow> (rerror \<Rightarrow> ('a, 'c, 'd) copying) \<Rightarrow> ('b \<Rightarrow> ('a, 'c, 'd) copying) \<Rightarrow>
    ('a, 'c, 'd) copying" where
  "on_error m handle f = (\<lambda>s. case m s of
     None \<Rightarrow> None
   | Some (Ok x, s') \<Rightarrow> f x s' | Some (Err e, s') \<Rightarrow> handle e s'
   | Some (Panic, s') \<Rightarrow> Some (Panic, s') | Some (UB, s') \<Rightarrow> Some (UB, s'))"

definition from_source :: "'b reading \<Rightarrow> ('a, 'c, 'b) copying" where
  "from_source m = (\<lambda>s. case m (cs_limit s) of (x, l) \<Rightarrow> Some (x, s\<lparr>cs_limit := l\<rparr>))"

section \<open>The copy machine\<close>

text \<open>\<open>cm_copy_cap\<close> is \<open>U::copy\<close> of the two tables.\<close>

record 'c copy_machine =
  cm_copy_cap :: "u32 \<Rightarrow> 'c \<Rightarrow> (rerror, u32 option) outcome \<times> 'c"
  cm_handle_err :: error_handler
  cm_canonical :: bool

definition copy_cap :: "'c copy_machine \<Rightarrow> u32 \<Rightarrow> ('a, 'c, u32 option) copying" where
  "copy_cap M index = (\<lambda>s. case cm_copy_cap M index (cs_table s) of (x, t) \<Rightarrow> Some (x, s\<lparr>cs_table := t\<rparr>))"

definition handle_err :: "'c copy_machine \<Rightarrow> rerror \<Rightarrow> ('a, 'c, unit) copying" where
  "handle_err M e = pure (map_control_flow (cm_handle_err M e))"

text \<open>\<open>copy_ptr\<close> with its source, the reader of it, its destination and the builder there.\<close>

type_synonym ('a, 'c) copy_fn = "u64 \<Rightarrow> object_reader \<Rightarrow> u64 \<Rightarrow> object_builder \<Rightarrow> ('a, 'c, unit) copying"

fun copy_refs :: "heap \<Rightarrow> ('a, 'c) copy_fn \<Rightarrow> object_reader \<Rightarrow> object_builder \<Rightarrow> (u64 \<times> u64) list \<Rightarrow> ('a, 'c, unit) copying" where
  "copy_refs h copy r b [] = pure (Ok ())"
| "copy_refs h copy r b ((s, d) # rest) =
     pbind (pure (as_ref_unchecked s)) (\<lambda>src. pbind (pure (as_ref_unchecked d)) (\<lambda>dst.
     pbind (pure (deref h src)) (\<lambda>w.
       if is_null w then copy_refs h copy r b rest
       else pbind (copy src r dst b) (\<lambda>_. copy_refs h copy r b rest))))"

definition copy_ptr_section :: "heap \<Rightarrow> ('a, 'c) copy_fn \<Rightarrow> u64 \<Rightarrow> object_reader \<Rightarrow> u64 \<Rightarrow> object_builder \<Rightarrow> u29 \<Rightarrow>
    ('a, 'c, unit) copying" where
  "copy_ptr_section h copy src r dst b len = copy_refs h copy r b (zip (iter_unchecked src len) (iter_unchecked dst len))"

text \<open>\<open>copy_from_slice\<close> of a section of words.\<close>

definition copy_words :: "heap \<Rightarrow> u64 \<Rightarrow> object_reader \<Rightarrow> u64 \<Rightarrow> object_builder \<Rightarrow> u29 \<Rightarrow> ('a, 'c, unit) copying" where
  "copy_words h src r dst b len =
     pbind (pure (section_slice h r src len)) (\<lambda>src_data.
     pbind (in_message (bget (\<lambda>m. section_slice_mut m b dst len))) (\<lambda>_.
       in_message (write_words (addr_list dst (length src_data)) src_data)))"

definition copy_struct :: "heap \<Rightarrow> ('a, 'c) copy_fn \<Rightarrow> u64 \<Rightarrow> struct_size \<Rightarrow> object_reader \<Rightarrow> u64 \<Rightarrow> struct_size \<Rightarrow>
    object_builder \<Rightarrow> ('a, 'c, unit) copying" where
  "copy_struct h copy src src_size r dst dst_size b =
     pbind (pure (u29_from_u16 (min (ss_data src_size) (ss_data dst_size)))) (\<lambda>data_to_copy.
     pbind (copy_words h src r dst b data_to_copy) (\<lambda>_.
     pbind (pure (obind (u29_from_u16 (ss_data src_size)) (\<lambda>n. as_ref_unchecked (ptr_offset src n)))) (\<lambda>src_ptrs.
     pbind (pure (obind (u29_from_u16 (ss_data dst_size)) (\<lambda>n. as_ref_unchecked (ptr_offset dst n)))) (\<lambda>dst_ptrs.
     pbind (pure (u29_from_u16 (min (ss_ptrs src_size) (ss_ptrs dst_size)))) (\<lambda>ptrs_to_copy.
       copy_ptr_section h copy src_ptrs r dst_ptrs b ptrs_to_copy)))))"

fun copy_structs :: "heap \<Rightarrow> ('a, 'c) copy_fn \<Rightarrow> struct_size \<Rightarrow> object_reader \<Rightarrow> struct_size \<Rightarrow> object_builder \<Rightarrow>
    (u64 \<times> u64) list \<Rightarrow> ('a, 'c, unit) copying" where
  "copy_structs h copy src_size r dst_size b [] = pure (Ok ())"
| "copy_structs h copy src_size r dst_size b ((s, d) # rest) =
     pbind (pure (as_ref_unchecked s)) (\<lambda>src_data. pbind (pure (as_ref_unchecked d)) (\<lambda>dst_data.
     pbind (copy_struct h copy src_data src_size r dst_data dst_size b) (\<lambda>_.
       copy_structs h copy src_size r dst_size b rest)))"

definition copy_inline_composites :: "heap \<Rightarrow> ('a, 'c) copy_fn \<Rightarrow> u64 \<Rightarrow> struct_size \<Rightarrow> object_reader \<Rightarrow> u64 \<Rightarrow> struct_size \<Rightarrow>
    object_builder \<Rightarrow> u29 \<Rightarrow> ('a, 'c, unit) copying" where
  "copy_inline_composites h copy src src_size r dst dst_size b len =
     pbind (pure (obind (struct_len src_size) (\<lambda>step. step_by_unchecked src step len))) (\<lambda>src_structs.
     pbind (pure (obind (struct_len dst_size) (\<lambda>step. step_by_unchecked dst step len))) (\<lambda>dst_structs.
       copy_structs h copy src_size r dst_size b (zip src_structs dst_structs)))"

definition copy_list :: "heap \<Rightarrow> ('a, 'c) copy_fn \<Rightarrow> u64 \<Rightarrow> object_reader \<Rightarrow> u64 \<Rightarrow> object_builder \<Rightarrow> elem_size \<Rightarrow> u29 \<Rightarrow>
    ('a, 'c, unit) copying" where
  "copy_list h copy src r dst b e len =
     (if is_ptrs e then pbind (pure (unwrap (u29_new (total_words e len)))) (copy_ptr_section h copy src r dst b)
      else if is_data e then pbind (pure (unwrap (u29_new (total_words e len)))) (copy_words h src r dst b)
      else (case e of InlineComposite sz \<Rightarrow> copy_inline_composites h copy src sz r dst sz b len | _ \<Rightarrow> pure Panic))"

text \<open>The macro \<open>copy_data!\<close> for elements of \<open>n\<close> bytes.\<close>

definition upgrade_data :: "heap \<Rightarrow> nat \<Rightarrow> u64 \<Rightarrow> object_reader \<Rightarrow> elem_size \<Rightarrow> u64 list \<Rightarrow> u29 \<Rightarrow> ('a, 'c, unit) copying" where
  "upgrade_data h n src r src_size dst_structs len =
     pbind (pure (unwrap (u29_new (total_words src_size len)))) (\<lambda>total_size.
     pbind (pure (section_slice h r src total_size)) (\<lambda>src_words.
     pbind (pure (slice_to (n * u29_val len) (slice_to_bytes src_words))) (\<lambda>src_bytes.
       in_message (copy_elements n dst_structs src_bytes))))"

text \<open>Where the pointers of the structs are.\<close>

definition struct_ptrs_at :: "struct_size \<Rightarrow> u64 list \<Rightarrow> (rerror, u64 list) outcome" where
  "struct_ptrs_at sz structs = obind (u29_from_u16 (ss_data sz)) (\<lambda>n. Ok (map (\<lambda>d. ptr_offset d n) structs))"

definition copy_to_upgraded_list :: "heap \<Rightarrow> ('a, 'c) copy_fn \<Rightarrow> u64 \<Rightarrow> object_reader \<Rightarrow> elem_size \<Rightarrow> u64 \<Rightarrow> object_builder \<Rightarrow>
    elem_size \<Rightarrow> u29 \<Rightarrow> ('a, 'c, unit) copying" where
  "copy_to_upgraded_list h copy src r src_size dst b dst_size len =
     (if elem_is_empty src_size then pure (Ok ())
      else if src_size = dst_size then copy_list h copy src r dst b dst_size len
      else (case dst_size of
        InlineComposite dst_sz \<Rightarrow> (case src_size of
          InlineComposite src_sz \<Rightarrow> copy_inline_composites h copy src src_sz r dst dst_sz b len
        | _ \<Rightarrow>
            if src_size = Pointer \<and> dst_sz = \<lparr>ss_data = 0, ss_ptrs = 1\<rparr> then
              pbind (pure (unwrap (u29_new (total_words src_size len)))) (copy_ptr_section h copy src r dst b)
            else if src_size = EightBytes \<and> dst_sz = \<lparr>ss_data = 1, ss_ptrs = 0\<rparr> then
              pbind (pure (unwrap (u29_new (total_words src_size len)))) (copy_words h src r dst b)
            else pbind (pure (obind (struct_len dst_sz) (\<lambda>step. step_by_unchecked dst step len))) (\<lambda>dst_structs.
              case src_size of
                Byte \<Rightarrow> upgrade_data h 1 src r src_size dst_structs len
              | TwoBytes \<Rightarrow> upgrade_data h 2 src r src_size dst_structs len
              | FourBytes \<Rightarrow> upgrade_data h 4 src r src_size dst_structs len
              | EightBytes \<Rightarrow> upgrade_data h 8 src r src_size dst_structs len
              | Pointer \<Rightarrow> pbind (pure (struct_ptrs_at dst_sz dst_structs)) (\<lambda>dst_ptrs.
                  copy_refs h copy r b (zip (iter_unchecked src len) dst_ptrs))
              | _ \<Rightarrow> pure Panic))
      | _ \<Rightarrow> pure Panic))"

text \<open>Copying into a place of a list: the slices \<open>[start..len]\<close> of the sections as elements of \<open>n\<close> bytes.\<close>

definition slice_range :: "nat \<Rightarrow> nat \<Rightarrow> 'a list \<Rightarrow> (rerror, 'a list) outcome" where
  "slice_range from to xs = (if from \<le> to \<and> to \<le> length xs then Ok (take (to - from) (drop from xs)) else Panic)"

definition copy_by_slice :: "nat \<Rightarrow> Word list \<Rightarrow> u29 \<Rightarrow> u64 \<Rightarrow> Word list \<Rightarrow> u29 \<Rightarrow> u29 \<Rightarrow> ('a, 'c, unit) copying" where
  "copy_by_slice n src_words src_start dst dst_words dst_start len =
     pbind (pure (slice_range (n * u29_val src_start) (n * u29_val len) (slice_to_bytes src_words))) (\<lambda>src_data.
     pbind (pure (slice_range (n * u29_val dst_start) (n * u29_val len) (slice_to_bytes dst_words))) (\<lambda>dst_data.
     pbind (pure (assert_that (length dst_data = length src_data))) (\<lambda>_.
       in_message (on_heap (write_bytes (dst + of_nat (n * u29_val dst_start)) src_data)))))"

text \<open>The loop over the bits, \<open>i\<close> being those done.\<close>

definition copy_bit :: "Word list \<Rightarrow> u64 \<Rightarrow> Word list \<Rightarrow> nat \<Rightarrow> nat \<Rightarrow> ('a, unit) build" where
  "copy_bit src_words dst dst_words src_idx dst_idx =
     bbind (bget (\<lambda>_. unwrap (nth_opt (slice_to_bytes src_words) (src_idx div 8)))) (\<lambda>byte.
     bbind (bget (\<lambda>_. assert_that (dst_idx div 8 < length (slice_to_bytes dst_words)))) (\<lambda>_.
     let value = byte AND push_bit (src_idx mod 8) 1 \<noteq> 0; place = dst + of_nat (dst_idx div 8) in
     bbind (bget (\<lambda>m. read_byte (mg_heap m) place)) (\<lambda>old.
       on_heap (write_byte place ((old AND NOT (push_bit (dst_idx mod 8) 1)) OR push_bit (dst_idx mod 8) (of_bool value))))))"

fun copy_bits :: "Word list \<Rightarrow> u64 \<Rightarrow> Word list \<Rightarrow> nat \<Rightarrow> nat \<Rightarrow> nat \<Rightarrow> ('a, unit) build" where
  "copy_bits src_words dst dst_words src_start dst_start 0 = bret ()"
| "copy_bits src_words dst dst_words src_start dst_start (Suc n) =
     bbind (copy_bit src_words dst dst_words src_start dst_start) (\<lambda>_.
       copy_bits src_words dst dst_words (Suc src_start) (Suc dst_start) n)"

text \<open>A loop without the test for null.\<close>

fun copy_all_refs :: "('a, 'c) copy_fn \<Rightarrow> object_reader \<Rightarrow> object_builder \<Rightarrow> (u64 \<times> u64) list \<Rightarrow> ('a, 'c, unit) copying" where
  "copy_all_refs copy r b [] = pure (Ok ())"
| "copy_all_refs copy r b ((s, d) # rest) =
     pbind (pure (as_ref_unchecked s)) (\<lambda>src. pbind (pure (as_ref_unchecked d)) (\<lambda>dst.
     pbind (copy src r dst b) (\<lambda>_. copy_all_refs copy r b rest)))"

definition copy_to_structs_at :: "('a, 'c) copy_fn \<Rightarrow> Word list \<Rightarrow> u64 \<Rightarrow> object_reader \<Rightarrow> elem_size \<Rightarrow> u29 \<Rightarrow> u64 \<Rightarrow> object_builder \<Rightarrow>
    struct_size \<Rightarrow> u29 \<Rightarrow> ('a, 'c, unit) copying" where
  "copy_to_structs_at copy src_words src r src_size src_start dst b dst_sz len =
     pbind (pure (obind (struct_len dst_sz) (\<lambda>step. step_by_unchecked dst step len))) (\<lambda>dst_structs.
       let upgrade = (\<lambda>n. pbind (pure (slice_range (n * u29_val src_start) (n * u29_val len) (slice_to_bytes src_words))) (\<lambda>src_data.
         in_message (copy_elements n (take (length src_data div n) dst_structs) src_data))) in
       case src_size of
         Byte \<Rightarrow> upgrade 1
       | TwoBytes \<Rightarrow> upgrade 2
       | FourBytes \<Rightarrow> upgrade 4
       | EightBytes \<Rightarrow> upgrade 8
       | Pointer \<Rightarrow> pbind (pure (as_ref_unchecked (ptr_offset src src_start))) (\<lambda>src'.
           pbind (pure (struct_ptrs_at dst_sz dst_structs)) (\<lambda>dst_ptrs.
             copy_all_refs copy r b (zip (iter_unchecked src' len) dst_ptrs)))
       | _ \<Rightarrow> pure Panic)"

definition copy_to_upgraded_list_at :: "heap \<Rightarrow> ('a, 'c) copy_fn \<Rightarrow> u64 \<Rightarrow> object_reader \<Rightarrow> elem_size \<Rightarrow> u29 \<Rightarrow> u64 \<Rightarrow>
    object_builder \<Rightarrow> elem_size \<Rightarrow> u29 \<Rightarrow> u29 \<Rightarrow> ('a, 'c, unit) copying" where
  "copy_to_upgraded_list_at h copy src r src_size src_start dst b dst_size dst_start len =
     pbind (pure (unwrap (u29_new (total_words src_size len)))) (\<lambda>section_len.
     pbind (pure (section_slice h r src section_len)) (\<lambda>src_words.
     pbind (in_message (bget (\<lambda>m. section_slice_mut m b dst section_len))) (\<lambda>dst_words.
       let by_slice = (\<lambda>n. copy_by_slice n src_words src_start dst dst_words dst_start len);
         struct_offset = (\<lambda>place sz start. obind (unwrap (checked_mul (struct_total sz) (u29_inner start))) (\<lambda>n.
           obind (unwrap (u29_new n)) (\<lambda>off. as_ref_unchecked (ptr_offset place off)))) in
       case (src_size, dst_size) of
         (Void, _) \<Rightarrow> pure (Ok ())
       | (Bit, Bit) \<Rightarrow> in_message (copy_bits src_words dst dst_words (u29_val src_start) (u29_val dst_start) (u29_val len))
       | (Byte, Byte) \<Rightarrow> by_slice 1
       | (TwoBytes, TwoBytes) \<Rightarrow> by_slice 2
       | (FourBytes, FourBytes) \<Rightarrow> by_slice 4
       | (EightBytes, EightBytes) \<Rightarrow> by_slice 8
       | (Pointer, Pointer) \<Rightarrow>
           pbind (pure (as_ref_unchecked (ptr_offset src src_start))) (\<lambda>src'.
           pbind (pure (as_ref_unchecked (ptr_offset dst dst_start))) (\<lambda>dst'.
             copy_ptr_section h copy src' r dst' b len))
       | (InlineComposite src_sz, InlineComposite dst_sz) \<Rightarrow>
           pbind (pure (struct_offset src src_sz src_start)) (\<lambda>src'.
           pbind (pure (struct_offset dst dst_sz dst_start)) (\<lambda>dst'.
             copy_inline_composites h copy src' src_sz r dst' dst_sz b len))
       | (_, InlineComposite dst_sz) \<Rightarrow>
           pbind (pure (struct_offset dst dst_sz dst_start)) (\<lambda>dst'.
             copy_to_structs_at copy src_words src r src_size src_start dst' b dst_sz len)
       | _ \<Rightarrow> pure Panic)))"

section \<open>Copying a pointer\<close>

text \<open>What is read is matched by kind; a canonical list of structs has an arm of its own, in which the size is
  computed from the place of the pointer.\<close>

definition copy_content :: "heap \<Rightarrow> 'a alloc_fn \<Rightarrow> 'c copy_machine \<Rightarrow> ('a, 'c) copy_fn \<Rightarrow> u64 \<Rightarrow> typed_content \<Rightarrow> object_reader \<Rightarrow>
    u64 \<Rightarrow> object_builder \<Rightarrow> ('a, 'c, unit) copying" where
  "copy_content h alloc M copy src content r dst b = (case content of
     TStruct c \<Rightarrow>
       pbind (pure (if cm_canonical M then calculate_canonical_struct_size h r (st_ptr c) (st_size c) else Ok (st_size c))) (\<lambda>dst_size.
       on_error (in_message (alloc_struct alloc b dst dst_size)) (handle_err M) (\<lambda>(dst', b').
         copy_struct h copy (st_ptr c) (st_size c) r dst' dst_size b'))
   | TList l \<Rightarrow> (case ls_element_size l of
       InlineComposite src_size \<Rightarrow>
         if cm_canonical M then
           pbind (pure (calculate_canonical_inline_composite_size h r src src_size (ls_element_count l))) (\<lambda>dst_size.
           on_error (in_message (alloc_list alloc b dst (InlineComposite dst_size) (ls_element_count l))) (handle_err M)
             (\<lambda>(dst', _, b'). if dst_size = StructSize_EMPTY then pure (Ok ())
               else copy_inline_composites h copy (ls_ptr l) src_size r dst' dst_size b' (ls_element_count l)))
         else on_error (in_message (alloc_list alloc b dst (ls_element_size l) (ls_element_count l))) (handle_err M)
             (\<lambda>(dst', total_size, b'). if total_size = u29_ZERO then pure (Ok ())
               else copy_list h copy (ls_ptr l) r dst' b' (ls_element_size l) (ls_element_count l))
     | _ \<Rightarrow> on_error (in_message (alloc_list alloc b dst (ls_element_size l) (ls_element_count l))) (handle_err M)
             (\<lambda>(dst', total_size, b'). if total_size = u29_ZERO then pure (Ok ())
               else copy_list h copy (ls_ptr l) r dst' b' (ls_element_size l) (ls_element_count l)))
   | TCapability index \<Rightarrow>
       if cm_canonical M then handle_err M CapabilityNotAllowed
       else on_error (copy_cap M index) (handle_err M) (\<lambda>new_idx. case new_idx of
         Some i \<Rightarrow> in_message (set_ptr b dst (word_of_parts (cap_ptr_new i)))
       | None \<Rightarrow> pure (Ok ())))"

definition copy_ptr_at :: "heap \<Rightarrow> read_segments \<Rightarrow> 'a alloc_fn \<Rightarrow> 'c copy_machine \<Rightarrow> ('a, 'c) copy_fn \<Rightarrow> ('a, 'c) copy_fn" where
  "copy_ptr_at h arena alloc M copy src reader dst b =
     on_error (from_source (try_read_typed h arena reader src)) (handle_err M) (\<lambda>(content, r).
       copy_content h alloc M copy src content r dst b)"

primrec copy_ptr :: "heap \<Rightarrow> read_segments \<Rightarrow> 'a alloc_fn \<Rightarrow> 'c copy_machine \<Rightarrow> nat \<Rightarrow> ('a, 'c) copy_fn" where
  "copy_ptr h arena alloc M 0 = (\<lambda>_ _ _ _ _. None)"
| "copy_ptr h arena alloc M (Suc levels) = copy_ptr_at h arena alloc M (copy_ptr h arena alloc M levels)"

section \<open>Copies that the builders make\<close>

text \<open>\<open>unwrap\<close> of the result of a whole copy.\<close>

definition pexpect :: "('a, 'c, 'b) copying \<Rightarrow> ('a, 'c, 'b) copying" where
  "pexpect m = (\<lambda>s. map_option (\<lambda>(r, s'). (expect_ok r, s')) (m s))"

definition pb_try_copy_from :: "heap \<Rightarrow> read_segments \<Rightarrow> 'a alloc_fn \<Rightarrow> (u32 \<Rightarrow> (rerror, unit) outcome) \<Rightarrow> 'c copy_machine \<Rightarrow>
    nat \<Rightarrow> nat \<Rightarrow> ptr_builder \<Rightarrow> ptr_reader \<Rightarrow> ('a, 'c, unit) copying" where
  "pb_try_copy_from h arena alloc clear_cap M clear_levels levels p other =
     pbind (clearing_in_message (pb_clear clear_cap clear_levels p)) (\<lambda>_.
       copy_ptr h arena alloc M levels (pr_ptr other) (pr_reader other) (pb_ptr p) (pb_builder p))"

definition pb_copy_from :: "heap \<Rightarrow> read_segments \<Rightarrow> 'a alloc_fn \<Rightarrow> (u32 \<Rightarrow> (rerror, unit) outcome) \<Rightarrow>
    (u32 \<Rightarrow> 'c \<Rightarrow> (rerror, u32 option) outcome \<times> 'c) \<Rightarrow> nat \<Rightarrow> nat \<Rightarrow> ptr_builder \<Rightarrow> ptr_reader \<Rightarrow> bool \<Rightarrow> ('a, 'c, unit) copying" where
  "pb_copy_from h arena alloc clear_cap cap_copy clear_levels levels p other canonical =
     pexpect (pb_try_copy_from h arena alloc clear_cap
       \<lparr>cm_copy_cap = cap_copy, cm_handle_err = IgnoreErrors, cm_canonical = canonical\<rparr> clear_levels levels p other)"

definition sb_try_copy_with_caveats :: "heap \<Rightarrow> read_segments \<Rightarrow> 'a alloc_fn \<Rightarrow> 'c copy_machine \<Rightarrow> nat \<Rightarrow> struct_builder \<Rightarrow>
    struct_reader \<Rightarrow> ('a, 'c, unit) copying" where
  "sb_try_copy_with_caveats h arena alloc M levels self other =
     (let data_to_copy = min (sb_data_len self) (sr_data_len other); ptrs_to_copy = min (sb_ptrs_len self) (sr_ptrs_len other) in
      pbind (pure (read_bytes h (sr_data_start other) (unat data_to_copy))) (\<lambda>bytes.
      pbind (in_message (on_heap (write_bytes (sb_data_start self) bytes))) (\<lambda>_.
      pbind (pure (u29_from_u16 ptrs_to_copy)) (\<lambda>n.
        copy_ptr_section h (copy_ptr h arena alloc M levels) (sr_ptrs_start other) (sr_reader other)
          (sb_ptrs_start self) (sb_builder self) n))))"

definition copy_with_caveats :: "heap \<Rightarrow> read_segments \<Rightarrow> 'a alloc_fn \<Rightarrow>
    (u32 \<Rightarrow> 'c \<Rightarrow> (rerror, u32 option) outcome \<times> 'c) \<Rightarrow> nat \<Rightarrow> struct_builder \<Rightarrow> struct_reader \<Rightarrow> bool \<Rightarrow> ('a, 'c, unit) copying" where
  "copy_with_caveats h arena alloc cap_copy levels self other canonical =
     pexpect (sb_try_copy_with_caveats h arena alloc
       \<lparr>cm_copy_cap = cap_copy, cm_handle_err = IgnoreErrors, cm_canonical = canonical\<rparr> levels self other)"

definition try_set_struct :: "heap \<Rightarrow> read_segments \<Rightarrow> 'a alloc_fn \<Rightarrow> (u32 \<Rightarrow> (rerror, unit) outcome) \<Rightarrow>
    (u32 \<Rightarrow> 'c \<Rightarrow> (rerror, u32 option) outcome \<times> 'c) \<Rightarrow> nat \<Rightarrow> nat \<Rightarrow> ptr_builder \<Rightarrow> struct_reader \<Rightarrow> struct_size copy_size \<Rightarrow>
    error_handler \<Rightarrow> ('a, 'c, unit) copying" where
  "try_set_struct h arena alloc clear_cap cap_copy clear_levels levels p value csize err_handler =
     (let M = \<lparr>cm_copy_cap = cap_copy, cm_handle_err = err_handler, cm_canonical = is_canonical csize\<rparr> in
      pbind (pure (struct_copy_size h csize value)) (\<lambda>sz.
      pbind (clearing_in_message (pb_clear clear_cap clear_levels p)) (\<lambda>_.
      on_error (in_message (try_init_struct_zeroed alloc p sz)) (handle_err M)
        (\<lambda>b. sb_try_copy_with_caveats h arena alloc M levels b value))))"

definition set_struct :: "heap \<Rightarrow> read_segments \<Rightarrow> 'a alloc_fn \<Rightarrow> (u32 \<Rightarrow> (rerror, unit) outcome) \<Rightarrow>
    (u32 \<Rightarrow> 'c \<Rightarrow> (rerror, u32 option) outcome \<times> 'c) \<Rightarrow> nat \<Rightarrow> nat \<Rightarrow> ptr_builder \<Rightarrow> struct_reader \<Rightarrow> struct_size copy_size \<Rightarrow>
    ('a, 'c, unit) copying" where
  "set_struct h arena alloc clear_cap cap_copy clear_levels levels p value csize =
     pexpect (try_set_struct h arena alloc clear_cap cap_copy clear_levels levels p value csize IgnoreErrors)"

definition try_set_list :: "heap \<Rightarrow> read_segments \<Rightarrow> 'a alloc_fn \<Rightarrow> (u32 \<Rightarrow> (rerror, unit) outcome) \<Rightarrow>
    (u32 \<Rightarrow> 'c \<Rightarrow> (rerror, u32 option) outcome \<times> 'c) \<Rightarrow> nat \<Rightarrow> nat \<Rightarrow> ptr_builder \<Rightarrow> list_reader \<Rightarrow> elem_size copy_size \<Rightarrow>
    error_handler \<Rightarrow> ('a, 'c, unit) copying" where
  "try_set_list h arena alloc clear_cap cap_copy clear_levels levels p value csize err_handler =
     (let M = \<lparr>cm_copy_cap = cap_copy, cm_handle_err = err_handler, cm_canonical = is_canonical csize\<rparr> in
      pbind (clearing_in_message (pb_clear clear_cap clear_levels p)) (\<lambda>_.
      on_error (pure (list_copy_size h csize value)) (handle_err M) (\<lambda>e.
      on_error (in_message (alloc_list alloc (pb_builder p) (pb_ptr p) e (lr_element_count value))) (handle_err M)
        (\<lambda>(start, total_words, b). if total_words = u29_ZERO then pure (Ok ())
          else copy_to_upgraded_list h (copy_ptr h arena alloc M levels) (lr_ptr value) (lr_reader value)
            (lr_element_size value) start b e (lr_element_count value)))))"

definition lb_try_copy_from :: "heap \<Rightarrow> read_segments \<Rightarrow> 'a alloc_fn \<Rightarrow> 'c copy_machine \<Rightarrow> nat \<Rightarrow> list_builder \<Rightarrow> list_reader \<Rightarrow>
    ('a, 'c, unit) copying" where
  "lb_try_copy_from h arena alloc M levels self other =
     pbind (pure (assert_that (upgrade_to (lb_element_size self) (lr_element_size other) = Some (lb_element_size self)))) (\<lambda>_.
     pbind (pure (assert_that (lr_element_count other \<le> lb_element_count self))) (\<lambda>_.
       copy_to_upgraded_list h (copy_ptr h arena alloc (M\<lparr>cm_canonical := False\<rparr>) levels) (lr_ptr other) (lr_reader other)
         (lr_element_size other) (lb_ptr self) (lb_builder self) (lb_element_size self) (lb_element_count self)))"

definition lb_try_copy_ranges :: "heap \<Rightarrow> read_segments \<Rightarrow> 'a alloc_fn \<Rightarrow> 'c copy_machine \<Rightarrow> nat \<Rightarrow> list_builder \<Rightarrow> u29 \<Rightarrow>
    list_reader \<Rightarrow> u29 \<Rightarrow> u29 \<Rightarrow> ('a, 'c, unit) copying" where
  "lb_try_copy_ranges h arena alloc M levels self self_start other other_start len =
     pbind (pure (assert_that (upgrade_to (lb_element_size self) (lr_element_size other) = Some (lb_element_size self)))) (\<lambda>_.
     if len = u29_ZERO then pure (Ok ())
     else
       pbind (pure (obind (unwrap (checked_add (u29_inner self_start) (u29_inner len)))
         (\<lambda>dst_end. assert_that (dst_end \<le> u29_inner (lb_element_count self))))) (\<lambda>_.
       pbind (pure (obind (unwrap (checked_add (u29_inner other_start) (u29_inner len)))
         (\<lambda>src_end. assert_that (src_end \<le> u29_inner (lr_element_count other))))) (\<lambda>_.
         copy_to_upgraded_list_at h (copy_ptr h arena alloc (M\<lparr>cm_canonical := False\<rparr>) levels) (lr_ptr other) (lr_reader other)
           (lr_element_size other) other_start (lb_ptr self) (lb_builder self) (lb_element_size self) self_start len)))"

definition lb_try_copy_with_caveats :: "heap \<Rightarrow> read_segments \<Rightarrow> 'a alloc_fn \<Rightarrow> 'c copy_machine \<Rightarrow> nat \<Rightarrow> list_builder \<Rightarrow>
    list_reader \<Rightarrow> ('a, 'c, unit) copying" where
  "lb_try_copy_with_caveats h arena alloc M levels self other =
     pbind (pure (assert_that (lb_element_count self = lr_element_count other))) (\<lambda>_.
       let copy = copy_ptr h arena alloc M levels; len = lb_element_count self in
       if lr_element_size other = lb_element_size self
       then copy_list h copy (lr_ptr other) (lr_reader other) (lb_ptr self) (lb_builder self) (lb_element_size self) len
       else (case (lr_element_size other, lb_element_size self) of
         (InlineComposite src, InlineComposite dst) \<Rightarrow>
           copy_inline_composites h copy (lr_ptr other) src (lr_reader other) (lb_ptr self) dst (lb_builder self) len
       | _ \<Rightarrow> pure Panic))"

end
