(* ===== verification/Copied_Objects.thy ===== *)
theory Copied_Objects
  imports Copy_Machine Built_Pointers
begin

text \<open>
  What copying a pointer does (\<^verbatim>\<open>recapn/src/ptr.rs\<close>, \<open>CopyMachine::copy_ptr\<close>): however the pointers of
  the source refer to each other it ends within the traversal limit, reads nothing outside the source,
  and writes only to the destination and to what it allocates.
\<close>

section \<open>Changes to a message\<close>

text \<open>Words in use stay in use, and only those of \<open>D\<close> change.\<close>

definition touches :: "u64 set \<Rightarrow> 'a message \<Rightarrow> 'a message \<Rightarrow> bool" where
  "touches D m m' \<longleftrightarrow> grown (msegs m) (msegs m') \<and> used_places (mg_arena m) \<subseteq> used_places (mg_arena m') \<and>
     (\<forall>x \<in> used_places (mg_arena m) - D. mem (mg_heap m') x = mem (mg_heap m) x)"

lemma touches_refl [simp, intro]: "touches D m m"
  by (simp add: touches_def)

lemma touches_trans: "touches D m m' \<Longrightarrow> touches D m' m'' \<Longrightarrow> touches D m m''"
  by (auto simp: touches_def intro: grown_trans)

lemma touches_within: "touches D m m' \<Longrightarrow> D \<inter> used_places (mg_arena m) \<subseteq> E \<Longrightarrow> touches E m m'"
  by (auto simp: touches_def)

text \<open>What changes next lies in \<open>D\<close> or was not in use at first.\<close>

lemma touches_new:
  assumes "touches D m m'" "touches E m' m''" "E \<inter> used_places (mg_arena m) \<subseteq> D"
  shows "touches D m m''"
proof -
  have "mem (mg_heap m'') x = mem (mg_heap m) x" if "x \<in> used_places (mg_arena m) - D" for x
  proof -
    have "x \<in> used_places (mg_arena m') - E" "mem (mg_heap m') x = mem (mg_heap m) x"
      using assms(1,3) that unfolding touches_def by blast+
    then show ?thesis using assms(2) unfolding touches_def by simp
  qed
  then show ?thesis using assms by (auto simp: touches_def intro: grown_trans)
qed

lemma fresh_touches: "fresh_object m ptr m' start n \<Longrightarrow> touches {ptr} m m'"
  by (auto simp: fresh_object_def touches_def)

lemma unchanged_touches: "unchanged m m' \<Longrightarrow> touches D m m'"
  by (auto simp: unchanged_def touches_def)

lemma room_touches: "room m b p n \<Longrightarrow> message_built m \<Longrightarrow> message_built m' \<Longrightarrow> touches D m m' \<Longrightarrow> room m' b p n"
  by (rule room_grown) (auto simp: touches_def)

lemma room_used:
  assumes "room m b p n" "built_ok ok owns m"
  shows "set (addr_list p n) \<subseteq> used_places (mg_arena m)"
proof
  fix x assume "x \<in> set (addr_list p n)"
  moreover obtain s j where s: "builds (mg_arena m) b s" "p = addr (sdata s) j" "j + n \<le> sused s"
    using assms(1) by (auto simp: room_def)
  ultimately obtain i where i: "i < n" "x = addr (sdata s) (j + i)" by (auto simp: set_addr_list addr_addr)
  show "x \<in> used_places (mg_arena m)" unfolding i(2) by (rule addr_used [OF assms(2) s(1)]) (use i(1) s(3) in simp)
qed

text \<open>A part of a section: \<open>n\<close> words from the word \<open>i\<close> on.\<close>

definition part_of :: "u64 \<Rightarrow> nat \<Rightarrow> u64 \<Rightarrow> nat \<Rightarrow> bool" where
  "part_of p n d k \<longleftrightarrow> (\<exists>i. d = addr p i \<and> i + k \<le> n)"

lemma part_words: "part_of p n d k \<Longrightarrow> set (addr_list d k) \<subseteq> set (addr_list p n)"
  by (auto simp: part_of_def set_addr_list addr_addr intro!: image_eqI)

lemma part_room: "room m b p n \<Longrightarrow> part_of p n d k \<Longrightarrow> room m b d k"
proof -
  assume "room m b p n" "part_of p n d k"
  then obtain s j i where "builds (mg_arena m) b s" "p = addr (sdata s) j" "j + n \<le> sused s" "d = addr p i" "i + k \<le> n"
    by (auto simp: room_def part_of_def)
  then show ?thesis by (auto simp: addr_addr intro!: roomI)
qed

lemma part_start: "k \<le> n \<Longrightarrow> part_of p n p k"
  unfolding part_of_def by (intro exI [of _ 0]) simp

lemma part_iter: "p \<in> set (iter_unchecked start len) \<Longrightarrow> part_of start (u29_val len) p 1"
  by (auto simp: iter_unchecked_def addr_list_def part_of_def)

lemma part_trans: "part_of p n d k \<Longrightarrow> part_of d k e i \<Longrightarrow> part_of p n e i"
proof -
  assume "part_of p n d k" "part_of d k e i"
  then obtain x y where "d = addr p x" "x + k \<le> n" "e = addr d y" "y + i \<le> k" by (auto simp: part_of_def)
  then show ?thesis unfolding part_of_def by (intro exI [of _ "x + y"]) (simp add: addr_addr)
qed

lemma part_step:
  assumes "u29_val len * u29_val step < 2 ^ 29"
  obtains places where "step_by_unchecked start step len = Ok places" "length places = u29_val len"
    "\<And>d. d \<in> set places \<Longrightarrow> part_of start (u29_val len * u29_val step) d (u29_val step)"
proof -
  let ?n = "u29_val len * u29_val step"
  let ?s = "\<lparr>sg_data = start, sg_len = u29_clip (of_nat ?n), sg_id = 0\<rparr>"
  have n: "u29_val (u29_clip (of_nat ?n)) = ?n"
  proof -
    have "unat (of_nat ?n :: u32) = ?n" using assms by (subst unat_of_nat) (simp add: take_bit_nat_eq_self)
    with assms show ?thesis by (simp only: u29_clip_inner)
  qed
  then have "inside ?s start ?n" unfolding inside_def by (intro exI [of _ 0]) simp
  then show thesis
  proof (rule step_by_ok)
    fix places assume p: "step_by_unchecked start step len = Ok places" "length places = u29_val len"
      "\<And>d. d \<in> set places \<Longrightarrow> inside ?s d (u29_val step)"
    have "part_of start ?n d (u29_val step)" if "d \<in> set places" for d
      using p(3) [OF that] n by (auto simp: inside_def part_of_def)
    with p(1,2) show thesis by (rule that)
  qed
qed

lemma room_less: "room m b p n \<Longrightarrow> n < 2 ^ 29"
proof -
  assume "room m b p n"
  then obtain s j where "j + n \<le> sused s" unfolding room_def by blast
  with u29_val_less [of "used_len s"] show ?thesis by simp
qed

lemma room_ref:
  assumes "room m b p n"
  shows "as_ref_unchecked p = Ok p"
proof -
  obtain s j where s: "builds (mg_arena m) b s" "p = addr (sdata s) j" "j + n \<le> sused s" using assms by (auto simp: room_def)
  note f = buildsD [OF s(1)]
  show ?thesis
    using addr_nonnull [OF f(5), of j] f(3,4) s(3) by (simp add: s(2) as_ref_unchecked_def)
qed

lemma room_slice:
  assumes "room m b p (u29_val n)" "built_ok ok owns m"
  shows "section_slice_mut m b p n = Ok (words_at (mg_heap m) p (u29_val n))"
proof -
  obtain s j where s: "builds (mg_arena m) b s" "p = addr (sdata s) j" "j + u29_val n \<le> sused s"
    using assms(1) by (auto simp: room_def)
  have "contains_section m b p n = Ok True"
    using contains_range_addr [OF s(1), of j "j + u29_val n"] s(3)
    by (simp add: contains_section_def s(2) ptr_offset_addr addr_addr)
  moreover have "read_words (mg_heap m) (addr_list p (u29_val n)) = Ok (words_at (mg_heap m) p (u29_val n))"
    unfolding words_at_def
    by (rule read_words_ok) (use room_used [OF assms] used_place_mapped [OF assms(2)] in blast)
  ultimately show ?thesis by (simp add: section_slice_mut_def)
qed

lemma write_words_ok:
  assumes "message_built m" "set xs \<subseteq> used_places (mg_arena m)" "length ws = length xs"
  obtains m' where "write_words xs ws m = (Ok (), m')" "message_built m'" "mg_arena m' = mg_arena m"
    "\<And>x. x \<notin> set xs \<Longrightarrow> mem (mg_heap m') x = mem (mg_heap m) x"
    "distinct xs \<Longrightarrow> map (\<lambda>x. the (mem (mg_heap m') x)) xs = ws"
proof -
  have "\<exists>m'. write_words xs ws m = (Ok (), m') \<and> message_built m' \<and> mg_arena m' = mg_arena m \<and>
    (\<forall>x. x \<notin> set xs \<longrightarrow> mem (mg_heap m') x = mem (mg_heap m) x) \<and> (distinct xs \<longrightarrow> map (\<lambda>x. the (mem (mg_heap m') x)) xs = ws)"
    using assms
  proof (induction xs arbitrary: m ws)
    case (Cons x xs)
    then obtain v vs where ws: "ws = v # vs" "length vs = length xs" by (cases ws) auto
    let ?m = "m\<lparr>mg_heap := put_words [x] (Some v) (mg_heap m)\<rparr>"
    have used: "x \<in> used_places (mg_arena m)" using Cons.prems(2) by simp
    have b: "message_built ?m" by (rule scratch_growing.write_built [OF Cons.prems(1) used])
    obtain m' where m': "write_words xs vs ?m = (Ok (), m')" "message_built m'" "mg_arena m' = mg_arena ?m"
        "\<And>x. x \<notin> set xs \<Longrightarrow> mem (mg_heap m') x = mem (mg_heap ?m) x"
        "distinct xs \<Longrightarrow> map (\<lambda>x. the (mem (mg_heap m') x)) xs = vs"
      using Cons.IH [OF b _ ws(2)] Cons.prems(2) by auto
    have "write_word x v m = (Ok (), ?m)" using used_place_mapped [OF Cons.prems(1) used] by (simp add: write_word_def)
    then have "write_words (x # xs) ws m = (Ok (), m')" using m'(1) by (simp add: ws(1))
    with m'(2-5) show ?case by (intro exI [of _ m'] conjI) (simp_all add: ws(1))
  qed simp
  then show thesis using that by blast
qed

section \<open>Copies that end\<close>

type_synonym ('c, 'b) message_copying = "(global growing scratch, 'c, 'b) copying"
type_synonym 'c message_copy_state = "(global growing scratch, 'c) copy_state"

text \<open>The destination is well formed, and at most \<open>B\<close> words can still be read from the source.\<close>

definition ready :: "nat \<Rightarrow> 'c message_copy_state \<Rightarrow> bool" where
  "ready B s \<longleftrightarrow> message_built (cs_message s) \<and> (\<exists>l. cs_limit s = Some l \<and> unat l \<le> B)"

definition copies :: "nat \<Rightarrow> u64 set \<Rightarrow> ('c, 'b) message_copying \<Rightarrow> 'c message_copy_state \<Rightarrow> bool" where
  "copies B D c s \<longleftrightarrow> (\<exists>x s'. c s = Some (x, s') \<and> safe x \<and> ready B s' \<and> touches D (cs_message s) (cs_message s'))"

lemma ready_mono: "ready B s \<Longrightarrow> B \<le> B' \<Longrightarrow> ready B' s"
  by (auto simp: ready_def)

lemma copies_within:
  assumes "copies B D c s" "B \<le> B'" "D \<inter> used_places (mg_arena (cs_message s)) \<subseteq> E"
  shows "copies B' E c s"
  using assms unfolding copies_def by (meson ready_mono touches_within)

lemma copies_pure: "ready B s \<Longrightarrow> safe x \<Longrightarrow> copies B D (pure x) s"
  by (simp add: copies_def pure_def)

lemma copies_done [simp, intro]: "ready B s \<Longrightarrow> copies B D (pure (Ok x)) s"
  by (simp add: copies_pure)

lemma copies_bind:
  assumes "copies B D c s"
    and "\<And>x s'. c s = Some (Ok x, s') \<Longrightarrow> ready B s' \<Longrightarrow> touches D (cs_message s) (cs_message s') \<Longrightarrow> copies B E (f x) s'"
    and "E \<inter> used_places (mg_arena (cs_message s)) \<subseteq> D"
  shows "copies B D (pbind c f) s"
proof -
  obtain x s' where x: "c s = Some (x, s')" "safe x" "ready B s'" "touches D (cs_message s) (cs_message s')"
    using assms(1) by (auto simp: copies_def)
  show ?thesis
  proof (cases x)
    case (Ok y)
    with assms(2) x(1,3,4) obtain z s'' where "f y s' = Some (z, s'')" "safe z" "ready B s''"
      "touches E (cs_message s') (cs_message s'')" by (auto simp: copies_def)
    with x(1) Ok touches_new [OF x(4) this(4) assms(3)] show ?thesis by (auto simp: copies_def pbind_def)
  qed (use x in \<open>auto simp: copies_def pbind_def\<close>)
qed

lemma copies_then:
  assumes "copies B D c s"
    and "\<And>x s'. ready B s' \<Longrightarrow> touches D (cs_message s) (cs_message s') \<Longrightarrow> copies B D (f x) s'"
  shows "copies B D (pbind c f) s"
  using assms by (rule copies_bind) auto

lemma pure_Ok [simp]: "pbind (pure (Ok x)) f = f x"
  by (rule ext) (simp add: pbind_def pure_def)

lemma copies_error:
  assumes "copies B D c s" "\<And>e s'. ready B s' \<Longrightarrow> copies B D (handle e) s'"
    and "\<And>x s'. c s = Some (Ok x, s') \<Longrightarrow> ready B s' \<Longrightarrow> touches D (cs_message s) (cs_message s') \<Longrightarrow> copies B E (f x) s'"
    and "E \<inter> used_places (mg_arena (cs_message s)) \<subseteq> D"
  shows "copies B D (on_error c handle f) s"
proof -
  obtain x s' where x: "c s = Some (x, s')" "safe x" "ready B s'" "touches D (cs_message s) (cs_message s')"
    using assms(1) by (auto simp: copies_def)
  show ?thesis
  proof (cases x)
    case (Ok y)
    with assms(3) x(1,3,4) obtain z s'' where "f y s' = Some (z, s'')" "safe z" "ready B s''"
      "touches E (cs_message s') (cs_message s'')" by (auto simp: copies_def)
    with x(1) Ok touches_new [OF x(4) this(4) assms(4)] show ?thesis by (auto simp: copies_def on_error_def)
  next
    case (Err e)
    from assms(2) [OF x(3), of e] obtain z s'' where "handle e s' = Some (z, s'')" "safe z" "ready B s''"
      "touches D (cs_message s') (cs_message s'')" by (auto simp: copies_def)
    with x(1) Err touches_trans [OF x(4) this(4)] show ?thesis by (auto simp: copies_def on_error_def)
  qed (use x in \<open>auto simp: copies_def on_error_def\<close>)
qed

lemma copies_handled: "ready B s \<Longrightarrow> copies B D (handle_err M e) s"
  unfolding handle_err_def by (rule copies_pure) (auto simp: map_control_flow_def split: option.split)

section \<open>Copying sections\<close>

text \<open>A copy of one pointer, to a place that is in use.\<close>

definition copier :: "heap \<Rightarrow> nat \<Rightarrow> (global growing scratch, 'c) copy_fn \<Rightarrow> bool" where
  "copier h B copy \<longleftrightarrow> (\<forall>p r q b s. ref_ok h r p \<longrightarrow> ready B s \<longrightarrow> room (cs_message s) b q 1 \<longrightarrow> copies B {q} (copy p r q b) s)"

lemma copierD: "copier h B copy \<Longrightarrow> ref_ok h r p \<Longrightarrow> ready B s \<Longrightarrow> room (cs_message s) b q 1 \<Longrightarrow> q \<in> D \<Longrightarrow>
    copies B D (copy p r q b) s"
  unfolding copier_def by (rule copies_within [where B = B and D = "{q}"]) auto

lemma ready_room: "ready B s \<Longrightarrow> ready B s' \<Longrightarrow> touches D (cs_message s) (cs_message s') \<Longrightarrow>
    room (cs_message s) b p n \<Longrightarrow> room (cs_message s') b p n"
  using room_touches by (auto simp: ready_def)

lemma copy_refs_ok:
  assumes "xys \<noteq> [] \<Longrightarrow> copier h B copy" "ready B s"
    and "\<And>x y. (x, y) \<in> set xys \<Longrightarrow> ref_ok h r x \<and> room (cs_message s) b y 1 \<and> y \<in> D"
  shows "copies B D (copy_refs h copy r b xys) s"
  using assms
proof (induction xys arbitrary: s)
  case (Cons xy xys)
  obtain x y where xy: "xy = (x, y)" by force
  have x: "ref_ok h r x" "room (cs_message s) b y 1" "y \<in> D" using Cons.prems(3) [of x y] xy by auto
  have seg: "seg_safe h (sg_segment (seg_of r))" "inside (seg_of r) x 1" using x(1) by (auto simp: ref_ok_def reader_ok_def)
  obtain w where w: "deref h x = Ok w"
    using inside_deref [OF seg] by (cases "deref h x") (auto simp: deref_def split: option.splits)
  have rest: "copies B D (copy_refs h copy r b xys) s'"
    if s': "ready B s'" "touches D (cs_message s) (cs_message s')" for s'
  proof (rule Cons.IH [OF _ s'(1)])
    show "copier h B copy" using Cons.prems(1) by simp
    fix u v assume "(u, v) \<in> set xys"
    then show "ref_ok h r u \<and> room (cs_message s') b v 1 \<and> v \<in> D"
      using Cons.prems(3) [of u v] ready_room [OF Cons.prems(2) s'] by auto
  qed
  have "copies B D (pbind (copy x r y b) (\<lambda>_. copy_refs h copy r b xys)) s"
    by (rule copies_then [OF copierD [OF _ x(1) Cons.prems(2) x(2,3)] rest]) (use Cons.prems(1) in simp_all)
  then show ?case
    using rest [OF Cons.prems(2)] by (simp add: xy inside_ref [OF seg] room_ref [OF x(2)] w)
qed simp

lemma copy_section_ok:
  assumes "reader_ok h r" "inside (seg_of r) p (u29_val n)" "ready B s" "room (cs_message s) b q (u29_val n)"
    and "set (addr_list q (u29_val n)) \<subseteq> D" "0 < u29_val n \<Longrightarrow> copier h B copy"
  shows "copies B D (copy_ptr_section h copy p r q b n) s"
  unfolding copy_ptr_section_def
proof (rule copy_refs_ok [OF _ assms(3)])
  show "copier h B copy" if "zip (iter_unchecked p n) (iter_unchecked q n) \<noteq> []"
    using that assms(6) by (cases "u29_val n") (auto simp: iter_unchecked_def addr_list_def)
  fix x y assume "(x, y) \<in> set (zip (iter_unchecked p n) (iter_unchecked q n))"
  then have m: "x \<in> set (iter_unchecked p n)" "y \<in> set (iter_unchecked q n)" by (auto dest: set_zip_leftD set_zip_rightD)
  note y = part_iter [OF m(2)]
  have "y \<in> set (addr_list y 1)" by (simp add: addr_list_def)
  then show "ref_ok h r x \<and> room (cs_message s) b y 1 \<and> y \<in> D"
    using inside_iter [OF assms(2) m(1)] part_room [OF assms(4) y] part_words [OF y] assms(1,5)
    by (auto simp: ref_ok_def)
qed

lemma copies_message:
  assumes "f (cs_message s) = (x, m')" "safe x" "message_built m'" "touches D (cs_message s) m'" "ready B s"
  shows "copies B D (in_message f) s"
  using assms by (auto simp: copies_def in_message_def ready_def)

lemma in_message_slice: "section_slice_mut (cs_message s) b q n = Ok ws \<Longrightarrow>
    pbind (in_message (bget (\<lambda>m. section_slice_mut m b q n))) f s = f ws s"
  by (simp add: pbind_def in_message_def)

lemma distinct_room:
  assumes "room m b p n" "built_ok ok owns m"
  shows "distinct (addr_list p n)"
proof -
  obtain s j where s: "builds (mg_arena m) b s" "p = addr (sdata s) j" "j + n \<le> sused s" using assms(1) by (auto simp: room_def)
  note f = buildsD [OF s(1)]
  have "i = k" if "addr (sdata s) (j + i) = addr (sdata s) (j + k)" "i < n" "k < n" for i k
    using addr_inj [OF f(5) _ _ that(1)] that(2,3) s(3) f(3) by simp
  then show ?thesis by (auto simp: addr_list_def distinct_map inj_on_def s(2) addr_addr)
qed

lemma copy_words_ok:
  assumes "reader_ok h r" "inside (seg_of r) p (u29_val n)" "ready B s" "room (cs_message s) b q (u29_val n)"
    and "set (addr_list q (u29_val n)) \<subseteq> D"
  shows "copies B D (copy_words h p r q b n) s"
    and "copy_words h p r q b n s = Some (x, s') \<Longrightarrow>
      words_at (mg_heap (cs_message s')) q (u29_val n) = words_at h p (u29_val n)"
    and "\<exists>s'. copy_words h p r q b n s = Some (Ok (), s')"
proof -
  have m: "message_built (cs_message s)" using assms(3) by (simp add: ready_def)
  obtain m' where m': "write_words (addr_list q (u29_val n)) (words_at h p (u29_val n)) (cs_message s) = (Ok (), m')"
    "message_built m'" "mg_arena m' = mg_arena (cs_message s)"
    "\<And>x. x \<notin> set (addr_list q (u29_val n)) \<Longrightarrow> mem (mg_heap m') x = mem (mg_heap (cs_message s)) x"
    "distinct (addr_list q (u29_val n)) \<Longrightarrow> map (\<lambda>x. the (mem (mg_heap m') x)) (addr_list q (u29_val n)) = words_at h p (u29_val n)"
    by (rule write_words_ok [OF m room_used [OF assms(4) m], of "words_at h p (u29_val n)"])
       (simp add: addr_list_def, rule that)
  have c: "copy_words h p r q b n s = Some (Ok (), s\<lparr>cs_message := m'\<rparr>)"
    using m'(1) by (simp add: copy_words_def section_slice_ok [OF assms(1,2)] in_message_slice [OF room_slice [OF assms(4) m]])
      (simp add: in_message_def)
  then show "\<exists>s'. copy_words h p r q b n s = Some (Ok (), s')" ..
  have "touches D (cs_message s) m'" using m'(3,4) assms(5) by (auto simp: touches_def)
  with c show "copies B D (copy_words h p r q b n) s"
    using m'(2) assms(3) by (auto simp: copies_def ready_def)
  show "words_at (mg_heap (cs_message s')) q (u29_val n) = words_at h p (u29_val n)"
    if "copy_words h p r q b n s = Some (x, s')"
    using that m'(5) [OF distinct_room [OF assms(4) m]] by (auto simp: c words_at_def)
qed

section \<open>Copying structs\<close>

lemma unat_min: "unat (min a b :: 'a::len word) = min (unat a) (unat b)"
  by (simp add: min_def word_le_nat_alt)

lemma part_ptrs: "i \<le> k \<Longrightarrow> part_of q (n + k) (addr q n) i"
  unfolding part_of_def by (intro exI [of _ n]) simp

lemma data_apart:
  assumes "room m b q (n + k)" "built_ok ok owns m"
  shows "set (addr_list q n) \<inter> set (addr_list (addr q n) k) = {}"
proof -
  obtain s j where s: "builds (mg_arena m) b s" "q = addr (sdata s) j" "j + (n + k) \<le> sused s" using assms(1) by (auto simp: room_def)
  note f = buildsD [OF s(1)]
  have "j + i = j + n + l" if "addr (sdata s) (j + i) = addr (sdata s) (j + n + l)" "i < n" "l < k" for i l
    by (rule addr_inj [OF f(5) _ _ that(1)]) (use that(2,3) s(3) f(3) in simp_all)
  then show ?thesis by (fastforce simp: set_addr_list s(2) addr_addr)
qed

lemma copy_struct_ok:
  fixes sz dsz :: struct_size
  defines "n \<equiv> min (unat (ss_data sz)) (unat (ss_data dsz))" and "N \<equiv> unat (ss_data dsz) + unat (ss_ptrs dsz)"
  assumes "struct_inside h r \<lparr>st_ptr = p, st_size = sz\<rparr>" "ready B s" "room (cs_message s) b q N"
    and "set (addr_list q N) \<subseteq> D" "0 < unat (ss_ptrs sz) \<Longrightarrow> copier h B copy"
  shows "copies B D (copy_struct h copy p sz r q dsz b) s"
    and "copy_struct h copy p sz r q dsz b s = Some (x, s') \<Longrightarrow>
      words_at (mg_heap (cs_message s')) q n = words_at h p n"
proof -
  let ?dn = "unat (ss_data dsz)" and ?m = "cs_message s"
  have r: "reader_ok h r" and seg: "seg_safe h (sg_segment (seg_of r))"
    and ins: "inside (seg_of r) p (unat (ss_data sz) + unat (ss_ptrs sz))"
    using assms(3) by (simp_all add: struct_inside_def reader_ok_def)
  have m: "message_built ?m" using assms(4) by (simp add: ready_def)
  obtain c where c: "u29_from_u16 (min (ss_data sz) (ss_data dsz)) = (Ok c :: (rerror, u29) outcome)" "u29_val c = n"
    using u16_offset [of "min (ss_data sz) (ss_data dsz)"] unfolding n_def unat_min by metis
  obtain k where k: "u29_from_u16 (min (ss_ptrs sz) (ss_ptrs dsz)) = (Ok k :: (rerror, u29) outcome)"
      "u29_val k = min (unat (ss_ptrs sz)) (unat (ss_ptrs dsz))"
    using u16_offset [of "min (ss_ptrs sz) (ss_ptrs dsz)"] unfolding unat_min by metis
  obtain a i where a: "u29_from_u16 (ss_data sz) = (Ok a :: (rerror, u29) outcome)"
      "as_ref_unchecked (ptr_offset p a) = Ok (ptr_offset p a)" "u29_val i = unat (ss_ptrs sz)"
      "inside (seg_of r) (ptr_offset p a) (u29_val i)"
    by (rule struct_ptrs [OF seg ins])
  obtain e where e: "u29_from_u16 (ss_data dsz) = (Ok e :: (rerror, u29) outcome)" "u29_val e = ?dn"
    using u16_offset [of "ss_data dsz"] by metis
  have data: "room ?m b q n" "set (addr_list q n) \<subseteq> set (addr_list q ?dn)"
    by (rule part_room [OF assms(5) part_start], simp add: N_def n_def)
       (rule part_words [OF part_start], simp add: n_def)
  have ptrs: "room ?m b (addr q ?dn) (u29_val k)" "set (addr_list (addr q ?dn) (u29_val k)) \<subseteq> set (addr_list q N)"
    using part_room [OF assms(5)] part_words part_ptrs [of "u29_val k" "unat (ss_ptrs dsz)" q ?dn] k(2)
    unfolding N_def by auto
  have dst: "as_ref_unchecked (addr q ?dn) = Ok (addr q ?dn)" by (rule room_ref [OF ptrs(1)])
  have body: "copy_struct h copy p sz r q dsz b = pbind (copy_words h p r q b c)
      (\<lambda>_. copy_ptr_section h copy (ptr_offset p a) r (addr q ?dn) b k)"
    by (simp add: copy_struct_def c(1) k(1) a(1,2) e(1)) (simp add: ptr_offset_addr e(2) dst)
  have ins1: "inside (seg_of r) p (u29_val c)" by (rule inside_mono [OF ins]) (simp add: c(2) n_def)
  have ins2: "inside (seg_of r) (ptr_offset p a) (u29_val k)" by (rule inside_mono [OF a(4)]) (simp add: a(3) k(2))
  have words: "copies B (set (addr_list q n)) (copy_words h p r q b c) s"
    by (rule copy_words_ok [OF r ins1 assms(4)]) (simp_all add: c(2) data(1))
  have sec: "copies B (set (addr_list (addr q ?dn) (u29_val k)))
      (copy_ptr_section h copy (ptr_offset p a) r (addr q ?dn) b k) s1"
    if s1: "ready B s1" "touches D' ?m (cs_message s1)" for s1 D'
    by (rule copy_section_ok [OF r ins2 s1(1) ready_room [OF assms(4) s1 ptrs(1)] subset_refl]) (use assms(7) k(2) in simp)
  show "copies B D (copy_struct h copy p sz r q dsz b) s"
    unfolding body
  proof (rule copies_within [where B = B and D = "set (addr_list q N)"])
    have "copies B (set (addr_list q N)) (copy_words h p r q b c) s"
      using words by (rule copies_within) (use data(2) part_words [OF part_start [of ?dn N q]] in \<open>auto simp: N_def\<close>)
    then show "copies B (set (addr_list q N)) (pbind (copy_words h p r q b c)
        (\<lambda>_. copy_ptr_section h copy (ptr_offset p a) r (addr q ?dn) b k)) s"
      by (rule copies_bind [OF _ sec]) (use ptrs(2) in auto)
  qed (use assms(6) in auto)
  show "words_at (mg_heap (cs_message s')) q n = words_at h p n" if res: "copy_struct h copy p sz r q dsz b s = Some (x, s')"
  proof -
    obtain y s1 where s1: "copy_words h p r q b c s = Some (y, s1)" "safe y" "ready B s1"
      "touches (set (addr_list q n)) ?m (cs_message s1)" using words by (auto simp: copies_def)
    note w = copy_words_ok(2) [OF r ins1 assms(4) _ subset_refl s1(1), unfolded c(2), OF data(1)]
    have m1: "message_built (cs_message s1)" using s1(3) by (simp add: ready_def)
    have room1: "room (cs_message s1) b q N" by (rule ready_room [OF assms(4) s1(3,4) assms(5)])
    have "mem (mg_heap (cs_message s')) z = mem (mg_heap (cs_message s1)) z" if z: "z \<in> set (addr_list q n)" for z
    proof (cases y)
      case (Ok u)
      have "copies B (set (addr_list (addr q ?dn) (u29_val k)))
        (copy_ptr_section h copy (ptr_offset p a) r (addr q ?dn) b k) s1" by (rule sec [OF s1(3,4)])
      then have t: "touches (set (addr_list (addr q ?dn) (u29_val k))) (cs_message s1) (cs_message s')"
        using res Ok s1(1) by (auto simp: body pbind_def copies_def)
      have "set (addr_list (addr q ?dn) (u29_val k)) \<subseteq> set (addr_list (addr q ?dn) (unat (ss_ptrs dsz)))"
        using k(2) by (auto simp: set_addr_list)
      then have "z \<notin> set (addr_list (addr q ?dn) (u29_val k))"
        using data_apart [OF room1 [unfolded N_def] m1] data(2) z by blast
      moreover have "z \<in> used_places (mg_arena (cs_message s1))"
      proof -
        have "n \<le> N" by (simp add: N_def n_def)
        with room_used [OF part_room [OF room1 part_start] m1, of n] z show ?thesis by blast
      qed
      ultimately show ?thesis using t by (simp add: touches_def)
    qed (use res s1(1) in \<open>auto simp: body pbind_def\<close>)
    then have "words_at (mg_heap (cs_message s')) q n = words_at (mg_heap (cs_message s1)) q n" by (simp add: words_at_def)
    with w show ?thesis by simp
  qed
qed

section \<open>Copying lists\<close>

lemma copy_structs_ok:
  fixes sz dsz :: struct_size
  defines "N \<equiv> unat (ss_data dsz) + unat (ss_ptrs dsz)"
  assumes "copier h B copy" "ready B s"
    and "\<And>x y. (x, y) \<in> set xys \<Longrightarrow> struct_inside h r \<lparr>st_ptr = x, st_size = sz\<rparr> \<and> room (cs_message s) b y N \<and>
      set (addr_list y N) \<subseteq> D"
  shows "copies B D (copy_structs h copy sz r dsz b xys) s"
  using assms(3,4)
proof (induction xys arbitrary: s)
  case (Cons xy xys)
  obtain x y where xy: "xy = (x, y)" by force
  have x: "struct_inside h r \<lparr>st_ptr = x, st_size = sz\<rparr>" "room (cs_message s) b y N" "set (addr_list y N) \<subseteq> D"
    using Cons.prems(2) [of x y] xy by auto
  have src: "as_ref_unchecked x = Ok x" using x(1) by (auto simp: struct_inside_def reader_ok_def intro: inside_ref)
  have "copies B D (pbind (copy_struct h copy x sz r y dsz b) (\<lambda>_. copy_structs h copy sz r dsz b xys)) s"
  proof (rule copies_then)
    show "copies B D (copy_struct h copy x sz r y dsz b) s"
      by (rule copy_struct_ok(1)) (use x Cons.prems(1) assms(2) in \<open>simp_all add: N_def\<close>)
    fix s' :: "'a message_copy_state"
    assume s': "ready B s'" "touches D (cs_message s) (cs_message s')"
    show "copies B D (copy_structs h copy sz r dsz b xys) s'"
    proof (rule Cons.IH [OF s'(1)])
      fix u v assume "(u, v) \<in> set xys"
      then show "struct_inside h r \<lparr>st_ptr = u, st_size = sz\<rparr> \<and> room (cs_message s') b v N \<and> set (addr_list v N) \<subseteq> D"
        using Cons.prems(2) [of u v] ready_room [OF Cons.prems(1) s'] by auto
    qed
  qed
  then show ?case by (simp add: xy src room_ref [OF x(2)])
qed simp

lemma copy_composites_ok:
  fixes sz dsz :: struct_size and len :: u29
  defines "n \<equiv> unat (ss_data sz) + unat (ss_ptrs sz)" and "N \<equiv> unat (ss_data dsz) + unat (ss_ptrs dsz)"
  assumes "copier h B copy" "ready B s" "reader_ok h r" "inside (seg_of r) p (u29_val len * n)"
    and "room (cs_message s) b q (u29_val len * N)" "set (addr_list q (u29_val len * N)) \<subseteq> D"
  shows "copies B D (copy_inline_composites h copy p sz r q dsz b len) s"
proof -
  let ?st = "u29_clip (struct_total sz)" and ?st' = "u29_clip (struct_total dsz)"
  have st: "u29_val ?st = n" "u29_val ?st' = N" using struct_len_val [OF struct_len_Ok] by (simp_all only: n_def N_def)
  obtain ps where ps: "step_by_unchecked p ?st len = Ok ps" "\<And>d. d \<in> set ps \<Longrightarrow> inside (seg_of r) d n"
    using step_by_ok [of "seg_of r" p len ?st] assms(6) unfolding st by metis
  obtain qs where qs: "step_by_unchecked q ?st' len = Ok qs" "\<And>d. d \<in> set qs \<Longrightarrow> part_of q (u29_val len * N) d N"
    using part_step [of len ?st' q] room_less [OF assms(7)] unfolding st by metis
  have "copies B D (copy_structs h copy sz r dsz b (zip ps qs)) s"
  proof (rule copy_structs_ok [OF assms(3,4)])
    fix x y assume "(x, y) \<in> set (zip ps qs)"
    then have m: "x \<in> set ps" "y \<in> set qs" by (auto dest: set_zip_leftD set_zip_rightD)
    show "struct_inside h r \<lparr>st_ptr = x, st_size = sz\<rparr> \<and> room (cs_message s) b y (unat (ss_data dsz) + unat (ss_ptrs dsz)) \<and>
        set (addr_list y (unat (ss_data dsz) + unat (ss_ptrs dsz))) \<subseteq> D"
      using ps(2) [OF m(1)] part_room [OF assms(7) qs(2) [OF m(2)]] part_words [OF qs(2) [OF m(2)]] assms(5,8)
      by (auto simp: struct_inside_def n_def N_def)
  qed
  then show ?thesis by (simp add: copy_inline_composites_def struct_len_Ok ps(1) qs(1))
qed

text \<open>The words of the elements of a list.\<close>

definition element_words :: "list_content \<Rightarrow> nat" where
  "element_words l = list_object_words (ls_element_size l) (u29_val (ls_element_count l)) - tag_words (ls_element_size l)"

lemma list_inside_words: "list_inside h r l \<longleftrightarrow> reader_ok h r \<and> inside (seg_of r) (ls_ptr l) (element_words l)"
  by (simp add: list_inside_def element_words_def tag_words_def)

lemma list_section:
  assumes "list_inside h r l"
  obtains n where "u29_new (total_words (ls_element_size l) (ls_element_count l)) = Some n" "u29_val n = element_words l"
proof -
  have lt: "element_words l < 2 ^ 29" using assms inside_less by (auto simp: list_inside_words)
  have "unat (total_words (ls_element_size l) (ls_element_count l)) = element_words l"
  proof (cases "is_inline_composite (ls_element_size l)")
    case True
    then obtain sz where sz: "ls_element_size l = InlineComposite sz" by (cases "ls_element_size l") auto
    then have "unat (struct_total sz) * u29_val (ls_element_count l) = element_words l"
      by (simp add: element_words_def list_words_split)
    with lt show ?thesis by (simp add: sz total_words_composite)
  next
    case False
    then show ?thesis
      by (cases "ls_element_size l") (simp_all add: total_words_plain element_words_def list_words_split tag_words_def)
  qed
  with lt show thesis
    by (intro that [of "u29_clip (total_words (ls_element_size l) (ls_element_count l))"]) (simp_all add: u29_new_eq)
qed

lemma copy_list_ok:
  assumes "list_inside h r l" "ready B s" "room (cs_message s) b q (element_words l)" "set (addr_list q (element_words l)) \<subseteq> D"
    and "ls_element_size l \<noteq> Void"
    and "is_inline_composite (ls_element_size l) \<or> 0 < element_words l \<Longrightarrow> copier h B copy"
  shows "copies B D (copy_list h copy (ls_ptr l) r q b (ls_element_size l) (ls_element_count l)) s"
proof -
  let ?e = "ls_element_size l" and ?n = "ls_element_count l"
  have r: "reader_ok h r" "inside (seg_of r) (ls_ptr l) (element_words l)" using assms(1) by (simp_all add: list_inside_words)
  obtain n where n: "u29_new (total_words ?e ?n) = Some n" "u29_val n = element_words l" by (rule list_section [OF assms(1)])
  consider "is_ptrs ?e" | "\<not> is_ptrs ?e" "is_data ?e" | sz where "\<not> is_ptrs ?e" "\<not> is_data ?e" "?e = InlineComposite sz"
    using assms(5) by (cases ?e) (auto simp: is_ptrs_def is_data_def is_composite_def elem_is_empty_def Let_def)
  then show ?thesis
  proof cases
    case 1
    have "copies B D (copy_ptr_section h copy (ls_ptr l) r q b n) s"
      by (rule copy_section_ok) (use r assms(2-4,6) n(2) in simp_all)
    with 1 n(1) show ?thesis by (simp add: copy_list_def)
  next
    case 2
    have "copies B D (copy_words h (ls_ptr l) r q b n) s"
      by (rule copy_words_ok(1)) (use r assms(2-4) n(2) in simp_all)
    with 2 n(1) show ?thesis by (simp add: copy_list_def)
  next
    case 3
    have w: "element_words l = u29_val ?n * (unat (ss_data sz) + unat (ss_ptrs sz))"
      by (simp add: element_words_def 3(3) list_words_split tag_words_def unat_struct_total)
    have "copies B D (copy_inline_composites h copy (ls_ptr l) sz r q sz b ?n) s"
      by (rule copy_composites_ok) (use r assms(2-4,6) 3(3) in \<open>simp_all add: w [symmetric]\<close>)
    with 3 show ?thesis by (simp add: copy_list_def)
  qed
qed

section \<open>Copying a pointer\<close>

text \<open>What allocating for a pointer of the message comes to: an object \<open>Q\<close> holds of, or no memory.\<close>

lemma fresh_apart: "fresh_object m ptr m' start n \<Longrightarrow> set (addr_list start n) \<inter> used_places (mg_arena m) = {}"
  by (auto simp: fresh_object_def)

definition allocated :: "'a message \<Rightarrow> u64 \<Rightarrow> object_builder \<Rightarrow> u64 \<Rightarrow> nat \<Rightarrow> 'a message \<Rightarrow> bool" where
  "allocated m p d start n m' \<longleftrightarrow> room m' d start n \<and> set (addr_list start n) \<inter> used_places (mg_arena m) = {} \<and> touches {p} m m'"

lemma roomE:
  assumes "room m b p 1"
  obtains s k where "builds (mg_arena m) b s" "p = addr (sdata s) k" "k < sused s"
  using assms by (auto simp: room_def)

lemma alloc_struct_room:
  assumes "message_built m" "room m b p 1"
  obtains start d m' where "alloc_struct message_alloc b p sz m = (Ok (start, d), m')" "message_built m'"
      "allocated m p d start (unat (ss_data sz) + unat (ss_ptrs sz)) m'"
      "lasting m {p} (set (addr_list start (unat (ss_data sz) + unat (ss_ptrs sz)))) m' (\<lambda>m'. struct_found m' b p sz start d)"
      "zeroed (mg_heap m') (set (addr_list start (unat (ss_data sz) + unat (ss_ptrs sz))))"
    | e m' where "alloc_struct message_alloc b p sz m = (Err e, m')" "message_built m'" "touches {p} m m'"
proof -
  obtain s k where s: "builds (mg_arena m) b s" "p = addr (sdata s) k" "k < sused s" by (rule roomE [OF assms(2)])
  obtain res m' where r: "alloc_struct message_alloc b p sz m = (res, m')" "message_built m'"
    "case res of Ok (start, d) \<Rightarrow> fresh_object m p m' start (unat (struct_total sz)) \<and>
       lasting m {p} (set (addr_list start (unat (struct_total sz)))) m' (\<lambda>m'. struct_found m' b p sz start d)
     | Err e \<Rightarrow> (\<exists>n. e = AllocFailed n) \<and> msegs m' = msegs m \<and> mem (mg_heap m') = mem (mg_heap m) | _ \<Rightarrow> False"
    using scratch_growing.alloc_struct_found [OF assms(1) s(1,3), of sz] unfolding s(2) [symmetric] by blast
  show thesis
  proof (cases res)
    case (Ok x)
    obtain start d where x: "x = (start, d)" by force
    with r(3) Ok have f: "fresh_object m p m' start (unat (struct_total sz))"
      "lasting m {p} (set (addr_list start (unat (struct_total sz)))) m' (\<lambda>m'. struct_found m' b p sz start d)" by simp_all
    have z: "zeroed (mg_heap m') (set (addr_list start (unat (struct_total sz))))" using f(1) by (simp add: fresh_object_def)
    have "allocated m p d start (unat (struct_total sz)) m'"
      using lasting_now [OF f(2)] fresh_touches [OF f(1)] fresh_apart [OF f(1)] by (simp add: allocated_def struct_found_def)
    from r(1,2) this f(2) z show thesis unfolding unat_struct_total Ok x by (rule that(1))
  next
    case (Err e)
    then have "touches {p} m m'" using r(3) same_unchanged [of m' m] by (auto intro: unchanged_touches)
    with r(1,2) show thesis unfolding Err by (rule that(2))
  qed (use r(3) in simp_all)
qed

lemma alloc_list_room:
  assumes "message_built m" "room m b p 1" "list_object_words e (u29_val n) < 2 ^ 32"
  obtains start len d m' where "alloc_list message_alloc b p e n m = (Ok (start, len, d), m')" "message_built m'"
      "u29_val len = list_object_words e (u29_val n)" "allocated m p d start (list_object_words e (u29_val n) - tag_words e) m'"
      "zeroed (mg_heap m') (set (addr_list start (list_object_words e (u29_val n) - tag_words e)))"
      "\<not> (is_inline_composite e \<and> list_object_words e (u29_val n) = 2 ^ 29 - 1) \<Longrightarrow>
        lasting m {p} (set (addr_list start (list_object_words e (u29_val n) - tag_words e))) m'
          (\<lambda>m'. list_read m' b p \<lparr>ls_ptr = start, ls_element_size = e, ls_element_count = n\<rparr> d)"
    | er m' where "alloc_list message_alloc b p e n m = (Err er, m')" "message_built m'" "touches {p} m m'"
proof (cases "list_object_words e (u29_val n) < 2 ^ 29")
  case False
  obtain t where t: "checked_add (total_words e n) (if is_inline_composite e then 1 else 0) = Some t"
    "unat t = list_object_words e (u29_val n)" by (rule total_words_exact [OF assms(3)])
  have "t \<noteq> 0" "nz29_new t = None" using t(2) False by (auto simp: nz29_new_eq)
  then have "alloc_list message_alloc b p e n m = (Err AllocTooLarge, m)"
    using t(1) by (simp add: alloc_list_def Let_def) (simp add: bbind_def)
  then show thesis using assms(1) by (rule that(2)) simp
next
  case True
  obtain s k where s: "builds (mg_arena m) b s" "p = addr (sdata s) k" "k < sused s" by (rule roomE [OF assms(2)])
  note a = scratch_growing.alloc_list_result [OF assms(1) s(1,3) True, folded s(2)]
  obtain res m' where r: "alloc_list message_alloc b p e n m = (res, m')" by force
  have m': "message_built m'" using a by (simp add: r)
  show thesis
  proof (cases res)
    case (Ok x)
    obtain start len d where x: "x = (start, len, d)" by (cases x) auto
    have f: "u29_val len = list_object_words e (u29_val n)"
      "fresh_object m p m' start (list_object_words e (u29_val n) - tag_words e)"
      "room m' d start (list_object_words e (u29_val n) - tag_words e)"
      using a by (simp_all add: r Ok x)
    have "allocated m p d start (list_object_words e (u29_val n) - tag_words e) m'"
      using f(3) fresh_touches [OF f(2)] fresh_apart [OF f(2)] by (simp add: allocated_def)
    moreover have "zeroed (mg_heap m') (set (addr_list start (list_object_words e (u29_val n) - tag_words e)))"
      using f(2) by (simp add: fresh_object_def)
    moreover have "lasting m {p} (set (addr_list start (list_object_words e (u29_val n) - tag_words e))) m'
        (\<lambda>m'. list_read m' b p \<lparr>ls_ptr = start, ls_element_size = e, ls_element_count = n\<rparr> d)"
      if "\<not> (is_inline_composite e \<and> list_object_words e (u29_val n) = 2 ^ 29 - 1)"
      using a that by (simp add: r Ok x)
    ultimately show thesis using r m' f(1) unfolding Ok x by (intro that(1)) simp_all
  next
    case (Err er)
    then have "touches {p} m m'" using a by (auto simp: r intro: unchanged_touches)
    with r m' show thesis unfolding Err by (rule that(2))
  qed (use a in \<open>simp_all add: r build_result_def\<close>)
qed

lemma copies_alloc:
  assumes "ready B s" "f (cs_message s) = (res, m')" "safe res" "message_built m'" "touches {q} (cs_message s) m'"
    and "\<And>x. res = Ok x \<Longrightarrow> ready B (s\<lparr>cs_message := m'\<rparr>) \<Longrightarrow> copies B E (g x) (s\<lparr>cs_message := m'\<rparr>)"
    and "E \<inter> used_places (mg_arena (cs_message s)) \<subseteq> {q}"
  shows "copies B {q} (on_error (in_message f) (handle_err M) g) s"
proof (rule copies_error [OF _ copies_handled _ assms(7)])
  show "copies B {q} (in_message f) s" by (rule copies_message [where f = f, OF assms(2-5,1)])
  fix x s' assume "in_message f s = Some (Ok x, s')" and s': "ready B s'"
  then have "res = Ok x" "s' = s\<lparr>cs_message := m'\<rparr>" by (simp_all add: in_message_def assms(2))
  with assms(6) s' show "copies B E (g x) s'" by simp
qed

lemma copy_struct_ptr_ok:
  assumes "struct_inside h r c" "ready B s" "room (cs_message s) b q 1" "0 < unat (ss_ptrs (st_size c)) \<Longrightarrow> copier h B copy"
  shows "copies B {q} (on_error (in_message (alloc_struct message_alloc b q (st_size c))) (handle_err M) (\<lambda>(dst, b').
    copy_struct h copy (st_ptr c) (st_size c) r dst (st_size c) b')) s"
proof -
  have m: "message_built (cs_message s)" using assms(2) by (simp add: ready_def)
  let ?n = "unat (ss_data (st_size c)) + unat (ss_ptrs (st_size c))"
  from m assms(3) show ?thesis
  proof (cases rule: alloc_struct_room [where sz = "st_size c"])
    case (1 start d m')
    then have a: "room m' d start ?n" "set (addr_list start ?n) \<inter> used_places (mg_arena (cs_message s)) = {}"
      "touches {q} (cs_message s) m'" by (simp_all add: allocated_def)
    have "copies B (set (addr_list start ?n)) (copy_struct h copy (st_ptr c) (st_size c) r start (st_size c) d) (s\<lparr>cs_message := m'\<rparr>)"
      if "ready B (s\<lparr>cs_message := m'\<rparr>)"
      by (rule copy_struct_ok(1)) (use assms(1,4) a(1) that in \<open>simp_all add: struct_inside_def\<close>)
    then show ?thesis
      by (intro copies_alloc [where f = "alloc_struct message_alloc b q (st_size c)", OF assms(2) 1(1) _ 1(2) a(3),
          where E = "set (addr_list start ?n)"]) (use a(2) in auto)
  next
    case (2 e m')
    show ?thesis by (rule copies_alloc [where f = "alloc_struct message_alloc b q (st_size c)", OF assms(2) 2(1) _ 2(2,3), where E = "{}"]) simp_all
  qed
qed

lemma copy_list_ptr_ok:
  assumes "list_inside h r l" "ready B s" "room (cs_message s) b q 1"
    and "0 < list_object_words (ls_element_size l) (u29_val (ls_element_count l)) \<Longrightarrow> copier h B copy"
  shows "copies B {q} (on_error (in_message (alloc_list message_alloc b q (ls_element_size l) (ls_element_count l))) (handle_err M)
    (\<lambda>(dst, total_size, b'). if total_size = u29_ZERO then pure (Ok ())
       else copy_list h copy (ls_ptr l) r dst b' (ls_element_size l) (ls_element_count l))) s"
proof -
  let ?W = "list_object_words (ls_element_size l) (u29_val (ls_element_count l))"
  have m: "message_built (cs_message s)" using assms(2) by (simp add: ready_def)
  have "element_words l < 2 ^ 29" using assms(1) inside_less by (auto simp: list_inside_words)
  then have W: "?W < 2 ^ 32" by (simp add: element_words_def tag_words_def split: if_splits)
  from m assms(3) W show ?thesis
  proof (cases rule: alloc_list_room)
    case (1 start len d m')
    then have a: "room m' d start (element_words l)" "touches {q} (cs_message s) m'"
      "set (addr_list start (element_words l)) \<inter> used_places (mg_arena (cs_message s)) = {}"
      by (simp_all add: allocated_def element_words_def)
    show ?thesis
    proof (rule copies_alloc [where f = "alloc_list message_alloc b q (ls_element_size l) (ls_element_count l)", OF assms(2) 1(1) _ 1(2) a(2), where E = "set (addr_list start (element_words l))"])
      fix x assume x: "Ok (start, len, d) = Ok x" and s': "ready B (s\<lparr>cs_message := m'\<rparr>)"
      have copy: "copies B (set (addr_list start (element_words l)))
        (copy_list h copy (ls_ptr l) r start d (ls_element_size l) (ls_element_count l)) (s\<lparr>cs_message := m'\<rparr>)"
        if "len \<noteq> u29_ZERO"
      proof (rule copy_list_ok [OF assms(1) s'])
        have pos: "0 < ?W" using that 1(3) by (auto simp: u29_eq_iff)
        then show "ls_element_size l \<noteq> Void" by (auto simp: list_object_words_def)
        show "copier h B copy" by (rule assms(4) [OF pos])
      qed (use a(1) in simp_all)
      from x show "copies B (set (addr_list start (element_words l))) (case x of (dst, total_size, b') \<Rightarrow>
          if total_size = u29_ZERO then pure (Ok ())
          else copy_list h copy (ls_ptr l) r dst b' (ls_element_size l) (ls_element_count l)) (s\<lparr>cs_message := m'\<rparr>)"
        using copy s' by auto
    qed (use a(3) in simp_all)
  next
    case (2 e m')
    show ?thesis by (rule copies_alloc [where f = "alloc_list message_alloc b q (ls_element_size l) (ls_element_count l)", OF assms(2) 2(1) _ 2(2,3), where E = "{}"]) simp_all
  qed
qed

lemma copy_content_flat:
  assumes "\<not> cm_canonical M"
  shows "copy_content h alloc M copy src (TStruct c) r q b = on_error (in_message (alloc_struct alloc b q (st_size c))) (handle_err M)
      (\<lambda>(dst, b'). copy_struct h copy (st_ptr c) (st_size c) r dst (st_size c) b')"
    and "copy_content h alloc M copy src (TList l) r q b =
      on_error (in_message (alloc_list alloc b q (ls_element_size l) (ls_element_count l))) (handle_err M)
      (\<lambda>(dst, total_size, b'). if total_size = u29_ZERO then pure (Ok ())
         else copy_list h copy (ls_ptr l) r dst b' (ls_element_size l) (ls_element_count l))"
    and "copy_content h alloc M copy src (TCapability index) r q b =
      on_error (copy_cap M index) (handle_err M) (\<lambda>new_idx. case new_idx of
         Some i \<Rightarrow> in_message (set_ptr b q (word_of_parts (cap_ptr_new i))) | None \<Rightarrow> pure (Ok ()))"
  using assms by (simp_all add: copy_content_def split: elem_size.split)

lemma copy_cap_ptr_ok:
  assumes "ready B s" "room (cs_message s) b q 1" "\<And>i t. safe (fst (cm_copy_cap M i t))"
  shows "copies B {q} (on_error (copy_cap M index) (handle_err M) (\<lambda>new_idx. case new_idx of
    Some i \<Rightarrow> in_message (set_ptr b q (word_of_parts (cap_ptr_new i))) | None \<Rightarrow> pure (Ok ()))) s"
proof (rule copies_error [where E = "{q}"])
  have "safe (fst (cm_copy_cap M index (cs_table s)))" by (rule assms(3))
  then show "copies B {q} (copy_cap M index) s"
    using assms(1) by (auto simp: copies_def copy_cap_def ready_def split: prod.splits)
  fix x and s' :: "'a message_copy_state"
  assume s': "ready B s'" "touches {q} (cs_message s) (cs_message s')"
  have m': "message_built (cs_message s')" using s'(1) by (simp add: ready_def)
  obtain t k where t: "builds (mg_arena (cs_message s')) b t" "q = addr (sdata t) k" "k < sused t"
    by (rule roomE [OF ready_room [OF assms(1) s' assms(2)]])
  have used: "q \<in> used_places (mg_arena (cs_message s'))" unfolding t(2) by (rule addr_used [OF m' t(1,3)])
  have w: "set_ptr b q w (cs_message s') = (Ok (), (cs_message s')\<lparr>mg_heap := put_words [q] (Some w) (mg_heap (cs_message s'))\<rparr>)" for w
    using set_ptr_addr [OF t(1)] used_place_mapped [OF m' used] t(2,3) buildsD(3) [OF t(1)] by simp
  have "copies B {q} (in_message (set_ptr b q w)) s'" for w
    by (rule copies_message [where f = "set_ptr b q w", OF w _ scratch_growing.write_built [OF m' used] _ s'(1)])
       (simp_all add: touches_def)
  then show "copies B {q} (case x of Some i \<Rightarrow> in_message (set_ptr b q (word_of_parts (cap_ptr_new i))) | None \<Rightarrow> pure (Ok ())) s'"
    using s'(1) by (simp split: option.split)
qed (auto intro: copies_handled)

lemma copy_content_ok:
  assumes "reader_ok h r" "located r t n" "ready B s" "room (cs_message s) b q 1" "0 < n \<Longrightarrow> copier h B copy"
    and "\<not> cm_canonical M" "\<And>i t. safe (fst (cm_copy_cap M i t))"
  shows "copies B {q} (copy_content h message_alloc M copy src t r q b) s"
proof (cases t)
  case (TStruct c)
  then have "struct_inside h r c" "unat (ss_ptrs (st_size c)) \<le> n" using assms(1,2) by (auto simp: struct_inside_def located_def)
  then show ?thesis
    unfolding TStruct copy_content_flat [OF assms(6)] by (intro copy_struct_ptr_ok) (use assms(3-5) in auto)
next
  case (TList l)
  then have "list_inside h r l" "list_object_words (ls_element_size l) (u29_val (ls_element_count l)) \<le> n"
    using assms(1,2) by (auto simp: list_inside_def located_def)
  then show ?thesis
    unfolding TList copy_content_flat [OF assms(6)] by (intro copy_list_ptr_ok) (use assms(3-5) in auto)
next
  case (TCapability i)
  show ?thesis unfolding TCapability copy_content_flat [OF assms(6)] by (rule copy_cap_ptr_ok [OF assms(3,4,7)])
qed

lemma copy_ptr_good:
  fixes M :: "'c copy_machine"
  assumes "source_ok ar h" "\<not> cm_canonical M" "\<And>i t. safe (fst (cm_copy_cap M i t))"
  shows "B < levels \<Longrightarrow> copier h B (copy_ptr h (arena_source ar) message_alloc M levels)"
proof (induction levels arbitrary: B)
  case (Suc levels)
  let ?copy = "copy_ptr h (arena_source ar) message_alloc M levels"
  show ?case
    unfolding copier_def
  proof (intro allI impI)
    fix p r q b and s :: "'c message_copy_state"
    assume p: "ref_ok h r p" and s: "ready B s" and q: "room (cs_message s) b q 1"
    have reads: "reads (try_read_typed h (arena_source ar) r p) (\<lambda>(t, r') n. reader_ok h r' \<and> located r' t n)"
      by (rule message_source.try_read_typed_ok [OF assms(1)]) (use p in \<open>simp_all add: ref_ok_def\<close>)
    obtain n where n: "safe (fst (try_read_typed h (arena_source ar) r p (cs_limit s)))"
        "spends n (cs_limit s) (snd (try_read_typed h (arena_source ar) r p (cs_limit s)))"
        "\<And>y. fst (try_read_typed h (arena_source ar) r p (cs_limit s)) = Ok y \<Longrightarrow> reader_ok h (snd y) \<and> located (snd y) (fst y) n"
      using readsE [OF reads, of "cs_limit s"] by (metis (no_types, lifting) case_prod_beta)
    obtain x l' where x: "try_read_typed h (arena_source ar) r p (cs_limit s) = (x, l')" by force
    let ?s = "s\<lparr>cs_limit := l'\<rparr>"
    have s': "ready (B - n) ?s" "ready B ?s" "0 < n \<Longrightarrow> B - n < levels"
      using n(2) s Suc.prems by (auto simp: x ready_def spends_def split: option.splits)
    show "copies B {q} (copy_ptr h (arena_source ar) message_alloc M (Suc levels) p r q b) s"
    proof (cases x)
      case (Ok y)
      obtain t r' where y: "y = (t, r')" by force
      have "copies (B - n) {q} (copy_content h message_alloc M ?copy p t r' q b) ?s"
        by (rule copy_content_ok [OF _ _ s'(1) _ _ assms(2,3)]) (use n(3) x Ok y q s'(3) Suc.IH in auto)
      then have "copies B {q} (copy_content h message_alloc M ?copy p t r' q b) ?s"
        by (rule copies_within) auto
      then show ?thesis
        by (simp add: copies_def copy_ptr_at_def on_error_def from_source_def x Ok y)
    next
      case (Err e)
      have "copies B {q} (handle_err M e) ?s" by (rule copies_handled [OF s'(2)])
      then show ?thesis by (simp add: copies_def copy_ptr_at_def on_error_def from_source_def x Err)
    qed (use n(1) x in simp_all)
  qed
qed simp

section \<open>More levels change no result\<close>

definition prolongs :: "('a, 'c, 'b) copying \<Rightarrow> ('a, 'c, 'b) copying \<Rightarrow> bool" where
  "prolongs c d \<longleftrightarrow> (\<forall>s r. c s = Some r \<longrightarrow> d s = Some r)"

lemma prolongs_refl [simp, intro]: "prolongs c c"
  by (simp add: prolongs_def)

lemma prolongs_bind: "prolongs c d \<Longrightarrow> (\<And>x. prolongs (f x) (g x)) \<Longrightarrow> prolongs (pbind c f) (pbind d g)"
  by (auto simp: prolongs_def pbind_def split: option.splits prod.splits outcome.splits)

lemma prolongs_error: "(\<And>x. prolongs (f x) (g x)) \<Longrightarrow> prolongs (on_error c handle f) (on_error c handle g)"
  by (auto simp: prolongs_def on_error_def split: option.splits prod.splits outcome.splits)

definition copy_prolongs :: "('a, 'c) copy_fn \<Rightarrow> ('a, 'c) copy_fn \<Rightarrow> bool" where
  "copy_prolongs copy copy' \<longleftrightarrow> (\<forall>p r q b. prolongs (copy p r q b) (copy' p r q b))"

lemma prolongs_refs: "copy_prolongs copy copy' \<Longrightarrow> prolongs (copy_refs h copy r b xys) (copy_refs h copy' r b xys)"
  by (induction xys) (auto intro!: prolongs_bind simp: copy_prolongs_def)

lemma prolongs_struct: "copy_prolongs copy copy' \<Longrightarrow>
    prolongs (copy_struct h copy p sz r q dsz b) (copy_struct h copy' p sz r q dsz b)"
  unfolding copy_struct_def copy_ptr_section_def by (intro prolongs_bind prolongs_refs prolongs_refl)

lemma prolongs_structs: "copy_prolongs copy copy' \<Longrightarrow>
    prolongs (copy_structs h copy sz r dsz b xys) (copy_structs h copy' sz r dsz b xys)"
  by (induction xys) (auto intro!: prolongs_bind prolongs_struct)

lemma prolongs_composites: "copy_prolongs copy copy' \<Longrightarrow>
    prolongs (copy_inline_composites h copy p sz r q dsz b len) (copy_inline_composites h copy' p sz r q dsz b len)"
  unfolding copy_inline_composites_def by (intro prolongs_bind prolongs_structs prolongs_refl)

lemma prolongs_list: "copy_prolongs copy copy' \<Longrightarrow>
    prolongs (copy_list h copy p r q b e len) (copy_list h copy' p r q b e len)"
  by (auto simp: copy_list_def copy_ptr_section_def intro!: prolongs_bind prolongs_refs prolongs_composites split: elem_size.split)

lemma prolongs_content: "copy_prolongs copy copy' \<Longrightarrow>
    prolongs (copy_content h alloc M copy p t r q b) (copy_content h alloc M copy' p t r q b)"
  by (auto simp: copy_content_def intro!: prolongs_bind prolongs_error prolongs_struct prolongs_list prolongs_composites
      split: typed_content.split elem_size.split prod.split)

lemma copy_ptr_prolongs: "copy_prolongs (copy_ptr h a alloc M n) (copy_ptr h a alloc M (n + k))"
proof (induction n)
  case 0
  show ?case by (simp add: copy_prolongs_def prolongs_def)
next
  case (Suc n)
  then show ?case
    unfolding add_Suc copy_ptr.simps copy_ptr_at_def
    by (subst copy_prolongs_def) (auto intro!: prolongs_error prolongs_content split: prod.split)
qed

section \<open>Copying is safe and ends\<close>

text \<open>C17: copying whatever a pointer of a well-formed source leads to, as it is and not in canonical form, into a pointer of a message ends:
  with more levels than the traversal limit has words it has a result, and more levels give the same,
  however the pointers of the source refer to each other. It neither panics nor has undefined behaviour; the limit is
  not raised, the destination stays well formed, and of the words that were in use in it only the pointer
  copied to changes.\<close>

theorem copy_ptr_ends:
  fixes M :: "'c copy_machine" and l :: u64
  assumes "source_ok ar h" and "ref_ok h r src" and "\<not> cm_canonical M" and "\<And>i t. safe (fst (cm_copy_cap M i t))"
    and "message_built m" and "builds (mg_arena m) b s" and "i < sused s" and "unat l < levels"
  shows "\<exists>x l' t' m'. safe x \<and> l' \<le> l \<and> message_built m' \<and> touches {addr (sdata s) i} m m' \<and>
    copy_ptr h (arena_source ar) message_alloc M levels src r (addr (sdata s) i) b
      \<lparr>cs_limit = Some l, cs_table = t, cs_message = m\<rparr> = Some (x, \<lparr>cs_limit = Some l', cs_table = t', cs_message = m'\<rparr>) \<and>
    copy_ptr h (arena_source ar) message_alloc M (levels + k) src r (addr (sdata s) i) b
      \<lparr>cs_limit = Some l, cs_table = t, cs_message = m\<rparr> = Some (x, \<lparr>cs_limit = Some l', cs_table = t', cs_message = m'\<rparr>)"
proof -
  let ?q = "addr (sdata s) i" and ?s = "\<lparr>cs_limit = Some l, cs_table = t, cs_message = m\<rparr>"
  have "ready (unat l) ?s" using assms(5) by (simp add: ready_def)
  moreover have "room (cs_message ?s) b ?q 1" using assms(6,7) by (auto intro: roomI)
  ultimately have "copies (unat l) {?q} (copy_ptr h (arena_source ar) message_alloc M levels src r ?q b) ?s"
    using copy_ptr_good [OF assms(1,3,4,8)] assms(2) unfolding copier_def by blast
  then obtain x s' where x: "copy_ptr h (arena_source ar) message_alloc M levels src r ?q b ?s = Some (x, s')" "safe x"
    "ready (unat l) s'" "touches {?q} m (cs_message s')" by (auto simp: copies_def)
  obtain l' where l': "cs_limit s' = Some l'" "l' \<le> l" using x(3) by (auto simp: ready_def word_le_nat_alt)
  have "s' = \<lparr>cs_limit = Some l', cs_table = cs_table s', cs_message = cs_message s'\<rparr>" using l'(1) by simp
  moreover have "prolongs (copy_ptr h (arena_source ar) message_alloc M levels src r ?q b)
      (copy_ptr h (arena_source ar) message_alloc M (levels + k) src r ?q b)"
    using copy_ptr_prolongs unfolding copy_prolongs_def by blast
  then have "copy_ptr h (arena_source ar) message_alloc M (levels + k) src r ?q b ?s = Some (x, s')"
    using x(1) by (simp add: prolongs_def)
  ultimately show ?thesis using x l'(2) by (auto simp: ready_def)
qed

text \<open>Errors returned, capabilities left out, everything else as it is.\<close>

definition plain_copy :: "unit copy_machine" where
  "plain_copy = \<lparr>cm_copy_cap = (\<lambda>_ t. (Ok None, t)), cm_handle_err = ReturnErrors, cm_canonical = False\<rparr>"

lemma plain_copy_ok: "\<not> cm_canonical plain_copy" "\<And>i t. safe (fst (cm_copy_cap plain_copy i t))" "cm_handle_err plain_copy = ReturnErrors"
  by (simp_all add: plain_copy_def)

theorem copy_ptr_ends_witness:
  "\<exists>x l' t' m'. safe x \<and> l' \<le> 8 \<and> message_built m' \<and> touches {64} room_message m' \<and>
    copy_ptr loop_heap (arena_source loop_arena) message_alloc plain_copy 9 64 (pr_reader loop_root) 64 0
      \<lparr>cs_limit = Some 8, cs_table = (), cs_message = room_message\<rparr> = Some (x, \<lparr>cs_limit = Some l', cs_table = t', cs_message = m'\<rparr>) \<and>
    copy_ptr loop_heap (arena_source loop_arena) message_alloc plain_copy 12 64 (pr_reader loop_root) 64 0
      \<lparr>cs_limit = Some 8, cs_table = (), cs_message = room_message\<rparr> = Some (x, \<lparr>cs_limit = Some l', cs_table = t', cs_message = m'\<rparr>)"
proof -
  have "ref_ok loop_heap (pr_reader loop_root) 64"
    using ptr_root_ok [OF loop_ok] by (simp add: ref_ok_def ptr_ok_def loop_root_def)
  from copy_ptr_ends [OF loop_ok(1) this plain_copy_ok(1,2) room_built room_root_builds(1), where i = 0 and l = 8 and levels = 9 and k = 3]
  show ?thesis by (simp add: room_root_builds)
qed

end
