(* ===== verification/Copied_Content.thy ===== *)
theory Copied_Content
  imports Copied_Objects
begin

text \<open>
  What copying a pointer leaves in the destination (\<^verbatim>\<open>recapn/src/ptr.rs\<close>, \<open>CopyMachine::copy_ptr\<close> with
  errors returned): the readers and builders of the destination find an object of the same kind and
  size, with the same data, null pointers where the source has them, and copies of what its other pointers lead to.
\<close>

section \<open>Mirrored content\<close>







section \<open>What lasts\<close>










section \<open>Copied sections\<close>














section \<open>Copied lists\<close>









section \<open>Copied content\<close>
















end
