(* ===== verification/Linked_List.thy ===== *)
theory Linked_List
  imports Recapn_Prelude
begin

text \<open>
  The intrusive doubly linked lists of the channels
  (\<^verbatim>\<open>recapn-channel/src/util/linked_list.rs\<close>). A node is an address; the heap maps it to the
  \<open>Pointers\<close> stored in it. A node that is not in the heap has been freed, and touching its pointers is
  undefined behaviour. Handles are the nodes themselves. The debug assertions are panics.
\<close>

section \<open>Nodes\<close>

type_synonym node = nat

record pointers =
  get_prev :: "node option"
  get_next :: "node option"

type_synonym nodes = "node \<rightharpoonup> pointers"

definition pointers_new :: pointers where
  "pointers_new = \<lparr>get_prev = None, get_next = None\<rparr>"

definition pointers_of :: "nodes \<Rightarrow> node \<Rightarrow> (unit, pointers) outcome" where
  "pointers_of h n = (case h n of Some p \<Rightarrow> Ok p | None \<Rightarrow> UB)"

definition set_prev :: "nodes \<Rightarrow> node \<Rightarrow> node option \<Rightarrow> (unit, nodes) outcome" where
  "set_prev h n v = obind (pointers_of h n) (\<lambda>p. Ok (h(n \<mapsto> p\<lparr>get_prev := v\<rparr>)))"

definition set_next :: "nodes \<Rightarrow> node \<Rightarrow> node option \<Rightarrow> (unit, nodes) outcome" where
  "set_next h n v = obind (pointers_of h n) (\<lambda>p. Ok (h(n \<mapsto> p\<lparr>get_next := v\<rparr>)))"

definition ensure :: "bool \<Rightarrow> (unit, unit) outcome" where
  "ensure b = (if b then Ok () else Panic)"

section \<open>The list\<close>

record linked_list =
  ll_head :: "node option"
  ll_tail :: "node option"

definition ll_new :: linked_list where
  "ll_new = \<lparr>ll_head = None, ll_tail = None\<rparr>"

definition push_front :: "nodes \<Rightarrow> linked_list \<Rightarrow> node \<Rightarrow> (unit, nodes \<times> linked_list) outcome" where
  "push_front h l n =
     obind (ensure (ll_head l \<noteq> Some n)) (\<lambda>_.
     obind (set_next h n (ll_head l)) (\<lambda>h.
     obind (set_prev h n None) (\<lambda>h.
     obind (case ll_head l of
         None \<Rightarrow> Ok (h, l\<lparr>ll_tail := Some n\<rparr>)
       | Some head \<Rightarrow> obind (set_prev h head (Some n)) (\<lambda>h. Ok (h, l))) (\<lambda>(h, l).
       Ok (h, l\<lparr>ll_head := Some n\<rparr>)))))"

definition push_back :: "nodes \<Rightarrow> linked_list \<Rightarrow> node \<Rightarrow> (unit, nodes \<times> linked_list) outcome" where
  "push_back h l n =
     obind (ensure (ll_tail l \<noteq> Some n)) (\<lambda>_.
     obind (set_next h n None) (\<lambda>h.
     obind (set_prev h n (ll_tail l)) (\<lambda>h.
     obind (case ll_tail l of
         None \<Rightarrow> Ok (h, l\<lparr>ll_head := Some n\<rparr>)
       | Some tail \<Rightarrow> obind (set_next h tail (Some n)) (\<lambda>h. Ok (h, l))) (\<lambda>(h, l).
       Ok (h, l\<lparr>ll_tail := Some n\<rparr>)))))"

text \<open>The list and the other list afterwards.\<close>

definition append_back :: "nodes \<Rightarrow> linked_list \<Rightarrow> linked_list \<Rightarrow> (unit, nodes \<times> linked_list \<times> linked_list) outcome" where
  "append_back h l other = (case ll_tail l of
     None \<Rightarrow> Ok (h, other, l)
   | Some tail \<Rightarrow> (case ll_head other of
       None \<Rightarrow> Ok (h, l, other)
     | Some other_head \<Rightarrow>
         obind (set_next h tail (Some other_head)) (\<lambda>h.
         obind (set_prev h other_head (Some tail)) (\<lambda>h.
           Ok (h, l\<lparr>ll_tail := ll_tail other\<rparr>, \<lparr>ll_head = None, ll_tail = None\<rparr>)))))"

definition pop_back :: "nodes \<Rightarrow> linked_list \<Rightarrow> (unit, node option \<times> nodes \<times> linked_list) outcome" where
  "pop_back h l = (case ll_tail l of
     None \<Rightarrow> Ok (None, h, l)
   | Some old \<Rightarrow>
       obind (pointers_of h old) (\<lambda>p.
       let l = l\<lparr>ll_tail := get_prev p\<rparr> in
       obind (case get_prev p of
           Some prev \<Rightarrow> obind (set_next h prev None) (\<lambda>h. Ok (h, l))
         | None \<Rightarrow> Ok (h, l\<lparr>ll_head := None\<rparr>)) (\<lambda>(h, l).
       obind (set_prev h old None) (\<lambda>h.
       obind (set_next h old None) (\<lambda>h.
         Ok (Some old, h, l))))))"

definition pop_front :: "nodes \<Rightarrow> linked_list \<Rightarrow> (unit, node option \<times> nodes \<times> linked_list) outcome" where
  "pop_front h l = (case ll_head l of
     None \<Rightarrow> Ok (None, h, l)
   | Some first \<Rightarrow>
       obind (pointers_of h first) (\<lambda>p.
       let l = l\<lparr>ll_head := get_next p\<rparr> in
       obind (case get_next p of
           Some next \<Rightarrow> obind (set_prev h next None) (\<lambda>h. Ok (h, l))
         | None \<Rightarrow> Ok (h, l\<lparr>ll_tail := None\<rparr>)) (\<lambda>(h, l).
       obind (set_prev h first None) (\<lambda>h.
       obind (set_next h first None) (\<lambda>h.
         Ok (Some first, h, l))))))"

definition ll_is_empty :: "linked_list \<Rightarrow> (unit, bool) outcome" where
  "ll_is_empty l =
     (if ll_head l \<noteq> None then Ok False
      else obind (ensure (ll_tail l = None)) (\<lambda>_. Ok True))"

text \<open>The two halves of \<open>remove\<close> give \<open>None\<close> where the code returns \<open>None\<close>. The pointers of the node
  are read anew for the second half.\<close>

definition unlink_prev :: "nodes \<Rightarrow> linked_list \<Rightarrow> node \<Rightarrow> (unit, (nodes \<times> linked_list) option) outcome" where
  "unlink_prev h l n =
     obind (pointers_of h n) (\<lambda>p. case get_prev p of
       Some prev \<Rightarrow>
         obind (pointers_of h prev) (\<lambda>q.
         obind (ensure (get_next q = Some n)) (\<lambda>_.
         obind (set_next h prev (get_next p)) (\<lambda>h. Ok (Some (h, l)))))
     | None \<Rightarrow>
         if ll_head l \<noteq> Some n then Ok None
         else Ok (Some (h, l\<lparr>ll_head := get_next p\<rparr>)))"

definition unlink_next :: "nodes \<Rightarrow> linked_list \<Rightarrow> node \<Rightarrow> (unit, (nodes \<times> linked_list) option) outcome" where
  "unlink_next h l n =
     obind (pointers_of h n) (\<lambda>p. case get_next p of
       Some next \<Rightarrow>
         obind (pointers_of h next) (\<lambda>q.
         obind (ensure (get_prev q = Some n)) (\<lambda>_.
         obind (set_prev h next (get_prev p)) (\<lambda>h. Ok (Some (h, l)))))
     | None \<Rightarrow>
         if ll_tail l \<noteq> Some n then Ok None
         else Ok (Some (h, l\<lparr>ll_tail := get_prev p\<rparr>)))"

definition ll_remove :: "nodes \<Rightarrow> linked_list \<Rightarrow> node \<Rightarrow> (unit, node option \<times> nodes \<times> linked_list) outcome" where
  "ll_remove h l n =
     obind (unlink_prev h l n) (\<lambda>r. case r of
       None \<Rightarrow> Ok (None, h, l)
     | Some (h, l) \<Rightarrow>
         obind (unlink_next h l n) (\<lambda>r. case r of
           None \<Rightarrow> Ok (None, h, l)
         | Some (h, l) \<Rightarrow>
             obind (set_next h n None) (\<lambda>h.
             obind (set_prev h n None) (\<lambda>h.
               Ok (Some n, h, l)))))"

section \<open>The guarded list\<close>

text \<open>A guarded list is its guard node.\<close>

definition into_guarded :: "nodes \<Rightarrow> linked_list \<Rightarrow> node \<Rightarrow> (unit, nodes) outcome" where
  "into_guarded h l guard = (case ll_head l of
     Some head \<Rightarrow>
       obind (pointers_of h head) (\<lambda>p.
       obind (ensure (get_prev p = None)) (\<lambda>_.
       obind (set_prev h head (Some guard)) (\<lambda>h.
       obind (set_next h guard (Some head)) (\<lambda>h.
       obind (unwrap (ll_tail l)) (\<lambda>tail.
       obind (pointers_of h tail) (\<lambda>q.
       obind (ensure (get_next q = None)) (\<lambda>_.
       obind (set_next h tail (Some guard)) (\<lambda>h.
         set_prev h guard (Some tail)))))))))
   | None \<Rightarrow>
       obind (set_prev h guard (Some guard)) (\<lambda>h. set_next h guard (Some guard)))"

definition guarded_tail :: "nodes \<Rightarrow> node \<Rightarrow> (unit, node option) outcome" where
  "guarded_tail h guard =
     obind (pointers_of h guard) (\<lambda>p.
     obind (unwrap (get_prev p)) (\<lambda>tail_ptr.
       Ok (if tail_ptr \<noteq> guard then Some tail_ptr else None)))"

definition guarded_pop_back :: "nodes \<Rightarrow> node \<Rightarrow> (unit, node option \<times> nodes) outcome" where
  "guarded_pop_back h guard =
     obind (guarded_tail h guard) (\<lambda>t. case t of
       None \<Rightarrow> Ok (None, h)
     | Some old \<Rightarrow>
         obind (obind (pointers_of h old) (\<lambda>p. unwrap (get_prev p))) (\<lambda>before_last.
         obind (set_prev h guard (Some before_last)) (\<lambda>h.
         obind (set_next h before_last (Some guard)) (\<lambda>h.
         obind (set_prev h old None) (\<lambda>h.
         obind (set_next h old None) (\<lambda>h.
           Ok (Some old, h)))))))"

section \<open>What the nodes of a list spell\<close>

text \<open>\<open>linked h p xs n\<close>: the nodes \<open>xs\<close> point to each other in this order, the first one back to \<open>p\<close>, the
  last one on to \<open>n\<close>.\<close>

definition hd_or :: "'a option \<Rightarrow> 'a list \<Rightarrow> 'a option" where
  "hd_or n xs = (case xs of [] \<Rightarrow> n | x # _ \<Rightarrow> Some x)"

definition last_or :: "'a option \<Rightarrow> 'a list \<Rightarrow> 'a option" where
  "last_or p xs = (if xs = [] then p else Some (List.last xs))"

fun linked :: "nodes \<Rightarrow> node option \<Rightarrow> node list \<Rightarrow> node option \<Rightarrow> bool" where
  "linked h p [] n \<longleftrightarrow> True"
| "linked h p (x # xs) n \<longleftrightarrow> h x = Some \<lparr>get_prev = p, get_next = hd_or n xs\<rparr> \<and> linked h (Some x) xs n"

definition list_rep :: "nodes \<Rightarrow> linked_list \<Rightarrow> node list \<Rightarrow> bool" where
  "list_rep h l xs \<longleftrightarrow> distinct xs \<and> ll_head l = hd_or None xs \<and> ll_tail l = last_or None xs \<and> linked h None xs None"

text \<open>The guard closes a ring.\<close>

definition ring_rep :: "nodes \<Rightarrow> node \<Rightarrow> node list \<Rightarrow> bool" where
  "ring_rep h g xs \<longleftrightarrow> distinct (g # xs) \<and> linked h (last_or (Some g) xs) (g # xs) (Some g)"

text \<open>A node that hangs in no list.\<close>

definition loose :: "nodes \<Rightarrow> node \<Rightarrow> bool" where
  "loose h n \<longleftrightarrow> h n = Some pointers_new"

definition same_but :: "node set \<Rightarrow> nodes \<Rightarrow> nodes \<Rightarrow> bool" where
  "same_but A h h' \<longleftrightarrow> (\<forall>m. m \<notin> A \<longrightarrow> h' m = h m) \<and> (\<forall>m. h m \<noteq> None \<longrightarrow> h' m \<noteq> None)"

lemma hd_or_simps [simp]: "hd_or n [] = n" "hd_or n (x # xs) = Some x"
  by (simp_all add: hd_or_def)

lemma last_or_simps [simp]: "last_or p [] = p" "last_or p (xs @ [x]) = Some x" "last_or p (x # xs) = last_or (Some x) xs"
  by (simp_all add: last_or_def)

lemma hd_or_append [simp]: "hd_or n (xs @ ys) = hd_or (hd_or n ys) xs"
  by (cases xs) simp_all

lemma last_or_append [simp]: "last_or p (xs @ ys) = last_or (last_or p xs) ys"
  by (simp add: last_or_def)

lemma linked_append [simp]: "linked h p (xs @ ys) n \<longleftrightarrow> linked h p xs (hd_or n ys) \<and> linked h (last_or p xs) ys n"
  by (induction xs arbitrary: p) auto

lemma linked_frame: "linked h p xs n \<Longrightarrow> (\<And>x. x \<in> set xs \<Longrightarrow> h' x = h x) \<Longrightarrow> linked h' p xs n"
  by (induction xs arbitrary: p) auto

lemma linked_upd [simp]: "x \<notin> set xs \<Longrightarrow> linked (h(x := v)) p xs n \<longleftrightarrow> linked h p xs n"
  by (auto intro: linked_frame)

lemma linked_in: "linked h p xs n \<Longrightarrow> x \<in> set xs \<Longrightarrow> h x \<noteq> None"
  by (induction xs arbitrary: p) auto

lemma pointers_of_simps [simp]: "h n = Some p \<Longrightarrow> pointers_of h n = Ok p"
  by (simp add: pointers_of_def)

lemma set_simps [simp]:
  "h n = Some p \<Longrightarrow> set_prev h n v = Ok (h(n \<mapsto> p\<lparr>get_prev := v\<rparr>))"
  "h n = Some p \<Longrightarrow> set_next h n v = Ok (h(n \<mapsto> p\<lparr>get_next := v\<rparr>))"
  by (simp_all add: set_prev_def set_next_def)

lemma ensure_simps [simp]: "ensure True = Ok ()" "b \<Longrightarrow> ensure b = Ok ()"
  by (simp_all add: ensure_def)

text \<open>A list taken apart at its ends.\<close>

lemma front_cases [case_names Nil One More]:
  assumes "xs = [] \<Longrightarrow> P" "\<And>x. xs = [x] \<Longrightarrow> P" "\<And>x y ys. xs = x # y # ys \<Longrightarrow> P"
  shows P
  using assms by (cases xs rule: remdups_adj.cases) auto

lemma back_cases [case_names Nil One More]:
  assumes "xs = [] \<Longrightarrow> P" "\<And>x. xs = [x] \<Longrightarrow> P" "\<And>x y ys. xs = ys @ [y, x] \<Longrightarrow> P"
  shows P
proof (cases xs rule: rev_cases)
  case (snoc zs x)
  then show P using assms(2,3) by (cases zs rule: rev_cases) auto
qed (use assms in auto)

lemma ends_cases [case_names Nil One Two]:
  assumes "xs = [] \<Longrightarrow> P" "\<And>x. xs = [x] \<Longrightarrow> P" "\<And>x ys y. xs = x # ys @ [y] \<Longrightarrow> P"
  shows P
proof (cases xs)
  case (Cons x zs)
  then show P using assms(2,3) by (cases zs rule: rev_cases) auto
qed (use assms in auto)

section \<open>The operations on a list\<close>

lemma push_front_rep:
  assumes "list_rep h l xs" "n \<notin> set xs" "h n \<noteq> None"
  shows "\<exists>h' l'. push_front h l n = Ok (h', l') \<and> list_rep h' l' (n # xs) \<and> same_but (set (n # xs)) h h'"
proof -
  from assms(3) obtain p where p: "h n = Some p" by auto
  show ?thesis
    using assms p by (cases xs) (auto simp: push_front_def list_rep_def same_but_def last_or_def)
qed

lemma push_back_rep:
  assumes "list_rep h l xs" "n \<notin> set xs" "h n \<noteq> None"
  shows "\<exists>h' l'. push_back h l n = Ok (h', l') \<and> list_rep h' l' (xs @ [n]) \<and> same_but (set (n # xs)) h h'"
proof -
  from assms(3) obtain p where p: "h n = Some p" by auto
  show ?thesis
    using assms p by (cases xs rule: rev_cases) (auto simp: push_back_def list_rep_def same_but_def)
qed

lemma pop_front_rep:
  assumes "list_rep h l xs"
  shows "\<exists>h' l'. pop_front h l = Ok (hd_or None xs, h', l') \<and> list_rep h' l' (tl xs) \<and>
    (\<forall>x. hd_or None xs = Some x \<longrightarrow> loose h' x) \<and> same_but (set xs) h h'"
  using assms
  by (cases xs rule: front_cases)
     (auto simp: pop_front_def list_rep_def same_but_def loose_def pointers_new_def Let_def)

lemma pop_back_rep:
  assumes "list_rep h l xs"
  shows "\<exists>h' l'. pop_back h l = Ok (last_or None xs, h', l') \<and> list_rep h' l' (butlast xs) \<and>
    (\<forall>x. last_or None xs = Some x \<longrightarrow> loose h' x) \<and> same_but (set xs) h h'"
  using assms
  by (cases xs rule: back_cases)
     (auto simp: pop_back_def list_rep_def same_but_def loose_def pointers_new_def Let_def butlast_append)

lemma append_back_rep:
  assumes "list_rep h l xs" "list_rep h other ys" "set xs \<inter> set ys = {}"
  shows "\<exists>h' l' other'. append_back h l other = Ok (h', l', other') \<and> list_rep h' l' (xs @ ys) \<and> list_rep h' other' [] \<and>
    same_but (set xs \<union> set ys) h h'"
  using assms
  by (cases xs rule: rev_cases; cases ys)
     (auto simp: append_back_def list_rep_def same_but_def last_or_def)

lemma ll_is_empty_rep: "list_rep h l xs \<Longrightarrow> ll_is_empty l = Ok (xs = [])"
  by (cases xs) (auto simp: ll_is_empty_def list_rep_def)

lemma split_at_member:
  assumes "x \<in> set xs" "distinct xs"
  obtains as bs where "xs = as @ x # bs" "remove1 x xs = as @ bs" "x \<notin> set as" "x \<notin> set bs"
proof -
  from assms(1) obtain as bs where "xs = as @ x # bs" "x \<notin> set as" by (metis split_list_first)
  with assms(2) show thesis by (intro that [of as bs]) (auto simp: remove1_append)
qed

lemma ll_remove_rep:
  assumes "list_rep h l xs" "n \<in> set xs"
  shows "\<exists>h' l'. ll_remove h l n = Ok (Some n, h', l') \<and> list_rep h' l' (remove1 n xs) \<and> loose h' n \<and> same_but (set xs) h h'"
proof -
  have "distinct xs" using assms(1) by (simp add: list_rep_def)
  with assms(2) obtain as bs where xs: "xs = as @ n # bs" "remove1 n xs = as @ bs" "n \<notin> set as" "n \<notin> set bs"
    by (rule split_at_member)
  then show ?thesis
    using assms(1)
    by (cases as rule: rev_cases; cases bs)
       (auto simp: ll_remove_def unlink_prev_def unlink_next_def list_rep_def same_but_def loose_def pointers_new_def)
qed

lemma ll_remove_loose:
  assumes "loose h n" "ll_head l \<noteq> Some n"
  shows "ll_remove h l n = Ok (None, h, l)"
  using assms by (simp add: ll_remove_def unlink_prev_def loose_def pointers_new_def)

section \<open>The operations on a ring\<close>

lemma into_guarded_rep:
  assumes "list_rep h l xs" "g \<notin> set xs" "h g \<noteq> None"
  shows "\<exists>h'. into_guarded h l g = Ok h' \<and> ring_rep h' g xs \<and> same_but (set (g # xs)) h h'"
proof -
  from assms(3) obtain p where p: "h g = Some p" by auto
  show ?thesis
    using assms p
    by (cases xs rule: ends_cases)
       (auto simp: into_guarded_def list_rep_def ring_rep_def same_but_def unwrap_def)
qed

lemma guarded_pop_back_rep:
  assumes "ring_rep h g xs"
  shows "\<exists>h'. guarded_pop_back h g = Ok (last_or None xs, h') \<and> ring_rep h' g (butlast xs) \<and>
    (\<forall>x. last_or None xs = Some x \<longrightarrow> loose h' x) \<and> same_but (set (g # xs)) h h'"
  using assms
  by (cases xs rule: back_cases)
     (auto simp: guarded_pop_back_def guarded_tail_def ring_rep_def same_but_def unwrap_def loose_def pointers_new_def
       butlast_append)

lemma guarded_pop_back_empty: "ring_rep h g [] \<Longrightarrow> guarded_pop_back h g = Ok (None, h)"
  by (simp add: guarded_pop_back_def guarded_tail_def ring_rep_def unwrap_def)

text \<open>A node of a ring can be removed through any list: it has two neighbours, so the list's own ends are
  not looked at.\<close>

lemma ll_remove_ring:
  assumes "ring_rep h g xs" "n \<in> set xs"
  shows "\<exists>h'. ll_remove h l n = Ok (Some n, h', l) \<and> ring_rep h' g (remove1 n xs) \<and> loose h' n \<and>
    same_but (set (g # xs)) h h'"
proof -
  have "distinct xs" using assms(1) by (simp add: ring_rep_def)
  with assms(2) obtain as bs where xs: "xs = as @ n # bs" "remove1 n xs = as @ bs" "n \<notin> set as" "n \<notin> set bs"
    by (rule split_at_member)
  then show ?thesis
    using assms(1)
    by (cases as rule: rev_cases; cases bs)
       (auto simp: ll_remove_def unlink_prev_def unlink_next_def ring_rep_def same_but_def loose_def pointers_new_def)
qed

section \<open>A deque\<close>

datatype deque_op = PushFront node | PushBack node | PopFront | PopBack | Remove node

text \<open>The abstract operation: what it returns, and the list afterwards.\<close>

fun deque_spec :: "deque_op \<Rightarrow> node list \<Rightarrow> node option \<times> node list" where
  "deque_spec (PushFront n) xs = (None, n # xs)"
| "deque_spec (PushBack n) xs = (None, xs @ [n])"
| "deque_spec PopFront xs = (hd_or None xs, tl xs)"
| "deque_spec PopBack xs = (last_or None xs, butlast xs)"
| "deque_spec (Remove n) xs = (Some n, remove1 n xs)"

fun deque_legal :: "node set \<Rightarrow> deque_op \<Rightarrow> node list \<Rightarrow> bool" where
  "deque_legal A (PushFront n) xs \<longleftrightarrow> n \<in> A \<and> n \<notin> set xs"
| "deque_legal A (PushBack n) xs \<longleftrightarrow> n \<in> A \<and> n \<notin> set xs"
| "deque_legal A PopFront xs \<longleftrightarrow> True"
| "deque_legal A PopBack xs \<longleftrightarrow> True"
| "deque_legal A (Remove n) xs \<longleftrightarrow> n \<in> set xs"

fun deque_run :: "deque_op list \<Rightarrow> node list \<Rightarrow> node option list \<times> node list" where
  "deque_run [] xs = ([], xs)"
| "deque_run (c # cs) xs = (case deque_spec c xs of (r, ys) \<Rightarrow> case deque_run cs ys of (rs, zs) \<Rightarrow> (r # rs, zs))"

fun deque_legal_run :: "node set \<Rightarrow> deque_op list \<Rightarrow> node list \<Rightarrow> bool" where
  "deque_legal_run A [] xs \<longleftrightarrow> True"
| "deque_legal_run A (c # cs) xs \<longleftrightarrow> deque_legal A c xs \<and> deque_legal_run A cs (snd (deque_spec c xs))"

fun run_ops :: "(deque_op \<Rightarrow> 's \<Rightarrow> (unit, node option \<times> 's) outcome) \<Rightarrow> deque_op list \<Rightarrow> 's \<Rightarrow>
    (unit, node option list \<times> 's) outcome" where
  "run_ops exec [] s = Ok ([], s)"
| "run_ops exec (c # cs) s =
     obind (exec c s) (\<lambda>(r, s). obind (run_ops exec cs s) (\<lambda>(rs, s). Ok (r # rs, s)))"

text \<open>What a client of a deque relies on: each operation does what the abstract one does, and frees no node.\<close>

locale deque =
  fixes exec :: "deque_op \<Rightarrow> 's \<Rightarrow> (unit, node option \<times> 's) outcome"
    and rep :: "'s \<Rightarrow> node list \<Rightarrow> bool"
    and live :: "'s \<Rightarrow> node set"
  assumes exec_spec: "rep s xs \<Longrightarrow> deque_legal (live s) c xs \<Longrightarrow>
    \<exists>s'. exec c s = Ok (fst (deque_spec c xs), s') \<and> rep s' (snd (deque_spec c xs)) \<and> live s \<subseteq> live s'"
begin

lemma legal_mono: "A \<subseteq> B \<Longrightarrow> deque_legal A c xs \<Longrightarrow> deque_legal B c xs"
  by (cases c) auto

lemma legal_run_mono: "A \<subseteq> B \<Longrightarrow> deque_legal_run A cs xs \<Longrightarrow> deque_legal_run B cs xs"
  by (induction cs arbitrary: xs) (auto intro: legal_mono)

lemma run_refines:
  "rep s xs \<Longrightarrow> deque_legal_run (live s) cs xs \<Longrightarrow>
    \<exists>s'. run_ops exec cs s = Ok (fst (deque_run cs xs), s') \<and> rep s' (snd (deque_run cs xs))"
proof (induction cs arbitrary: s xs)
  case (Cons c cs)
  obtain s1 where s1: "exec c s = Ok (fst (deque_spec c xs), s1)" "rep s1 (snd (deque_spec c xs))" "live s \<subseteq> live s1"
    using exec_spec [OF Cons.prems(1), of c] Cons.prems(2) by auto
  have "deque_legal_run (live s1) cs (snd (deque_spec c xs))"
    using legal_run_mono [OF s1(3)] Cons.prems(2) by simp
  with Cons.IH [OF s1(2)] show ?case by (auto simp: s1(1) split: prod.splits)
qed simp

end

fun list_exec :: "deque_op \<Rightarrow> nodes \<times> linked_list \<Rightarrow> (unit, node option \<times> nodes \<times> linked_list) outcome" where
  "list_exec (PushFront n) (h, l) = obind (push_front h l n) (\<lambda>s. Ok (None, s))"
| "list_exec (PushBack n) (h, l) = obind (push_back h l n) (\<lambda>s. Ok (None, s))"
| "list_exec PopFront (h, l) = pop_front h l"
| "list_exec PopBack (h, l) = pop_back h l"
| "list_exec (Remove n) (h, l) = ll_remove h l n"

abbreviation list_live :: "nodes \<times> linked_list \<Rightarrow> node set" where
  "list_live s \<equiv> dom (fst s)"

lemma same_but_dom: "same_but A h h' \<Longrightarrow> dom h \<subseteq> dom h'"
  by (auto simp: same_but_def)

lemma list_exec_spec:
  assumes "list_rep h l xs" "deque_legal (dom h) c xs"
  shows "\<exists>h' l'. list_exec c (h, l) = Ok (fst (deque_spec c xs), h', l') \<and> list_rep h' l' (snd (deque_spec c xs)) \<and>
    dom h \<subseteq> dom h'"
proof (cases c)
  case (PushFront n)
  with push_front_rep [OF assms(1), of n] assms(2) show ?thesis by (fastforce dest: same_but_dom)
next
  case (PushBack n)
  with push_back_rep [OF assms(1), of n] assms(2) show ?thesis by (fastforce dest: same_but_dom)
next
  case PopFront
  with pop_front_rep [OF assms(1)] show ?thesis by (fastforce dest: same_but_dom)
next
  case PopBack
  with pop_back_rep [OF assms(1)] show ?thesis by (fastforce dest: same_but_dom)
next
  case (Remove n)
  with ll_remove_rep [OF assms(1), of n] assms(2) show ?thesis by (fastforce dest: same_but_dom)
qed

interpretation ll: deque list_exec "\<lambda>(h, l). list_rep h l" list_live
proof (unfold_locales, goal_cases)
  case (1 s xs c)
  obtain h l where "s = (h, l)" by force
  with list_exec_spec [of h l xs c] 1 show ?case by force
qed

text \<open>C32: any sequence of pushes of nodes that are not in the list, pops, and removals of nodes that are in
  it, on the intrusive list, returns what the same sequence returns on a plain list, and leaves a
  well-formed doubly linked list of the remaining nodes; it neither panics nor touches a freed node.\<close>

theorem linked_list_refines:
  assumes "list_rep h l xs" and "deque_legal_run (dom h) cs xs"
  shows "\<exists>h' l'. run_ops list_exec cs (h, l) = Ok (fst (deque_run cs xs), h', l') \<and>
    list_rep h' l' (snd (deque_run cs xs))"
  using ll.run_refines [of "(h, l)" xs cs] assms by auto

theorem linked_list_refines_witness:
  "\<exists>h' l'. run_ops list_exec [PushFront 1, PushBack 2, PushFront 3, Remove 1, PopBack, PopFront, PopFront]
      ([1 \<mapsto> pointers_new, 2 \<mapsto> pointers_new, 3 \<mapsto> pointers_new], ll_new) =
      Ok ([None, None, None, Some 1, Some 2, Some 3, None], h', l') \<and> list_rep h' l' []"
  using linked_list_refines [of "[1 \<mapsto> pointers_new, 2 \<mapsto> pointers_new, 3 \<mapsto> pointers_new]" ll_new "[]"
      "[PushFront 1, PushBack 2, PushFront 3, Remove 1, PopBack, PopFront, PopFront]"]
  by (simp add: list_rep_def ll_new_def last_or_def)

end
