(* ===== verification/Atomic_State.thy ===== *)
theory Atomic_State
  imports Recapn_Prelude
begin

text \<open>
  The atomic flags of channels and requests (\<^verbatim>\<open>recapn-channel/src/util/atomic_state.rs\<close>). Every
  operation on the atomic is one step on its value; it returns the new value and the flags the code
  returns. The compare-and-swap loop of \<open>try_set_value\<close> is given by its two steps, the load and one
  exchange. Orderings are not modelled: the steps are sequentially consistent.
\<close>

definition STATE_SET :: u8 where "STATE_SET = 0x01"
definition STATE_SEND_CLOSED :: u8 where "STATE_SEND_CLOSED = 0x02"
definition STATE_RECV_CLOSED :: u8 where "STATE_RECV_CLOSED = 0x04"
definition STATE_CLOSED_TASK_SET :: u8 where "STATE_CLOSED_TASK_SET = 0x08"
definition STATE_SET_PIPELINE :: u8 where "STATE_SET_PIPELINE = 0x10"

datatype shot_state = Sent | Empty | Closed

definition atomic_new :: u8 where "atomic_new = 0"
definition atomic_new_set :: u8 where "atomic_new_set = STATE_SET"

section \<open>Flags\<close>

definition is_set :: "u8 \<Rightarrow> bool" where "is_set f \<longleftrightarrow> f AND STATE_SET \<noteq> 0"
definition is_send_closed :: "u8 \<Rightarrow> bool" where "is_send_closed f \<longleftrightarrow> f AND STATE_SEND_CLOSED \<noteq> 0"
definition is_recv_closed :: "u8 \<Rightarrow> bool" where "is_recv_closed f \<longleftrightarrow> f AND STATE_RECV_CLOSED \<noteq> 0"
definition is_closed_task_set :: "u8 \<Rightarrow> bool" where "is_closed_task_set f \<longleftrightarrow> f AND STATE_CLOSED_TASK_SET \<noteq> 0"
definition is_pipeline_set :: "u8 \<Rightarrow> bool" where "is_pipeline_set f \<longleftrightarrow> f AND STATE_SET_PIPELINE \<noteq> 0"

definition flags_state :: "u8 \<Rightarrow> shot_state" where
  "flags_state f = (if is_set f then Sent else if is_send_closed f then Closed else Empty)"

section \<open>Operations on the atomic\<close>

definition fetch_or :: "u8 \<Rightarrow> u8 \<Rightarrow> u8 \<times> u8" where
  "fetch_or b a = (a OR b, a OR b)"

definition set_send_closed :: "u8 \<Rightarrow> u8 \<times> u8" where "set_send_closed = fetch_or STATE_SEND_CLOSED"
definition set_recv_closed :: "u8 \<Rightarrow> u8 \<times> u8" where "set_recv_closed = fetch_or STATE_RECV_CLOSED"
definition set_closed_task :: "u8 \<Rightarrow> u8 \<times> u8" where "set_closed_task = fetch_or STATE_CLOSED_TASK_SET"
definition set_value :: "u8 \<Rightarrow> u8 \<times> u8" where "set_value = fetch_or STATE_SET"
definition set_pipeline :: "u8 \<Rightarrow> u8 \<times> u8" where "set_pipeline = fetch_or STATE_SET_PIPELINE"

definition clear_closed_task :: "u8 \<Rightarrow> u8 \<times> u8" where
  "clear_closed_task a = (a AND NOT STATE_CLOSED_TASK_SET, a AND NOT STATE_CLOSED_TASK_SET)"

text \<open>The loop of \<open>try_set_value\<close> holds the value it saw last. One turn breaks with it when the receivers
  are closed, or exchanges; the weak exchange may also fail when the value is the expected one
  (\<open>spurious\<close>). The result is \<open>Inl\<close> the value returned or \<open>Inr\<close> the value for the next turn.\<close>

definition try_set_turn :: "bool \<Rightarrow> u8 \<Rightarrow> u8 \<Rightarrow> (u8 + u8) \<times> u8" where
  "try_set_turn spurious seen a =
     (if is_recv_closed seen then (Inl seen, a)
      else if a = seen \<and> \<not> spurious then (Inl seen, seen OR STATE_SET)
      else (Inr a, a))"

section \<open>Facts about the flags\<close>

named_theorems flag_simps

lemma flag_bits:
  "is_set f \<longleftrightarrow> bit f 0" "is_send_closed f \<longleftrightarrow> bit f 1" "is_recv_closed f \<longleftrightarrow> bit f 2"
  "is_closed_task_set f \<longleftrightarrow> bit f 3" "is_pipeline_set f \<longleftrightarrow> bit f 4"
proof -
  have s: "STATE_SET = push_bit 0 1" "STATE_SEND_CLOSED = push_bit 1 1" "STATE_RECV_CLOSED = push_bit 2 1"
    "STATE_CLOSED_TASK_SET = push_bit 3 1" "STATE_SET_PIPELINE = push_bit 4 1"
    by (simp_all add: STATE_SET_def STATE_SEND_CLOSED_def STATE_RECV_CLOSED_def STATE_CLOSED_TASK_SET_def STATE_SET_PIPELINE_def)
  have m: "f AND push_bit n 1 \<noteq> 0 \<longleftrightarrow> bit f n" for n
    by (simp add: and_exp_eq_0_iff_not_bit push_bit_eq_mult)
  show "is_set f \<longleftrightarrow> bit f 0" "is_send_closed f \<longleftrightarrow> bit f 1" "is_recv_closed f \<longleftrightarrow> bit f 2"
    "is_closed_task_set f \<longleftrightarrow> bit f 3" "is_pipeline_set f \<longleftrightarrow> bit f 4"
    unfolding is_set_def is_send_closed_def is_recv_closed_def is_closed_task_set_def is_pipeline_set_def s
    by (rule m)+
qed

lemma const_bits:
  "bit STATE_SET n \<longleftrightarrow> n = 0" "bit STATE_SEND_CLOSED n \<longleftrightarrow> n = 1" "bit STATE_RECV_CLOSED n \<longleftrightarrow> n = 2"
  "bit STATE_CLOSED_TASK_SET n \<longleftrightarrow> n = 3" "bit STATE_SET_PIPELINE n \<longleftrightarrow> n = 4"
proof -
  have s: "STATE_SET = 2 ^ 0" "STATE_SEND_CLOSED = 2 ^ 1" "STATE_RECV_CLOSED = 2 ^ 2"
    "STATE_CLOSED_TASK_SET = 2 ^ 3" "STATE_SET_PIPELINE = 2 ^ 4"
    by (simp_all add: STATE_SET_def STATE_SEND_CLOSED_def STATE_RECV_CLOSED_def STATE_CLOSED_TASK_SET_def STATE_SET_PIPELINE_def)
  show "bit STATE_SET n \<longleftrightarrow> n = 0" "bit STATE_SEND_CLOSED n \<longleftrightarrow> n = 1" "bit STATE_RECV_CLOSED n \<longleftrightarrow> n = 2"
  "bit STATE_CLOSED_TASK_SET n \<longleftrightarrow> n = 3" "bit STATE_SET_PIPELINE n \<longleftrightarrow> n = 4"
    unfolding s bit_exp_iff by auto
qed

lemma flags_or [flag_simps]:
  "is_set (f OR g) \<longleftrightarrow> is_set f \<or> is_set g"
  "is_send_closed (f OR g) \<longleftrightarrow> is_send_closed f \<or> is_send_closed g"
  "is_recv_closed (f OR g) \<longleftrightarrow> is_recv_closed f \<or> is_recv_closed g"
  "is_closed_task_set (f OR g) \<longleftrightarrow> is_closed_task_set f \<or> is_closed_task_set g"
  "is_pipeline_set (f OR g) \<longleftrightarrow> is_pipeline_set f \<or> is_pipeline_set g"
  by (simp_all add: flag_bits bit_or_iff)

lemma flags_consts [flag_simps]:
  "is_set STATE_SET" "\<not> is_set STATE_SEND_CLOSED" "\<not> is_set STATE_RECV_CLOSED" "\<not> is_set STATE_CLOSED_TASK_SET" "\<not> is_set STATE_SET_PIPELINE"
  "\<not> is_send_closed STATE_SET" "is_send_closed STATE_SEND_CLOSED" "\<not> is_send_closed STATE_RECV_CLOSED" "\<not> is_send_closed STATE_CLOSED_TASK_SET" "\<not> is_send_closed STATE_SET_PIPELINE"
  "\<not> is_recv_closed STATE_SET" "\<not> is_recv_closed STATE_SEND_CLOSED" "is_recv_closed STATE_RECV_CLOSED" "\<not> is_recv_closed STATE_CLOSED_TASK_SET" "\<not> is_recv_closed STATE_SET_PIPELINE"
  "\<not> is_closed_task_set STATE_SET" "\<not> is_closed_task_set STATE_SEND_CLOSED" "\<not> is_closed_task_set STATE_RECV_CLOSED" "is_closed_task_set STATE_CLOSED_TASK_SET" "\<not> is_closed_task_set STATE_SET_PIPELINE"
  "\<not> is_set atomic_new" "\<not> is_send_closed atomic_new" "\<not> is_recv_closed atomic_new" "\<not> is_closed_task_set atomic_new"
  by (simp_all add: flag_bits const_bits atomic_new_def)

lemma flags_clear [flag_simps]:
  "is_set (f AND NOT STATE_CLOSED_TASK_SET) \<longleftrightarrow> is_set f"
  "is_send_closed (f AND NOT STATE_CLOSED_TASK_SET) \<longleftrightarrow> is_send_closed f"
  "is_recv_closed (f AND NOT STATE_CLOSED_TASK_SET) \<longleftrightarrow> is_recv_closed f"
  "\<not> is_closed_task_set (f AND NOT STATE_CLOSED_TASK_SET)"
  by (auto simp: flag_bits const_bits bit_and_iff bit_not_iff)

lemmas atomic_ops = fetch_or_def set_send_closed_def set_recv_closed_def set_closed_task_def set_value_def
  set_pipeline_def clear_closed_task_def

end
