(* ===== verification/Wait_List.thy ===== *)
theory Wait_List
  imports Linked_List Atomic_State
begin

text \<open>
  Tasks that wait for a one-shot event (\<^verbatim>\<open>recapn-channel/src/util/wait_list.rs\<close>: \<open>WaitList\<close>, \<open>Waiter\<close>,
  \<open>RecvWaitersList\<close>, \<open>RecvWaiter\<close>, \<open>ClosedWaiter\<close>). Threads interleave at the operations on shared data:
  the atomic flags, the \<open>notified\<close> flag of a waiter, and the critical sections of the mutex. A critical
  section that makes one access to data outside the mutex is one step; the loop of \<open>wake_all\<close>, which makes
  more, takes a step for each waiter, with the mutex held. A waker is the task it wakes, and
  \<open>will_wake\<close> compares tasks. Waiters and guards are addresses of nodes, freed when they are dropped.
\<close>

section \<open>State\<close>

type_synonym waker = nat

record waiter =
  wt_waker :: "waker option"
  wt_notified :: bool

definition waiter_new :: "waker option \<Rightarrow> waiter" where
  "waiter_new w = \<lparr>wt_waker = w, wt_notified = False\<rparr>"

definition NUM_WAKERS :: nat where "NUM_WAKERS = 32"

text \<open>Where a call of \<open>wake_all\<close> stands: taking waiters off its list with the mutex held; calling the wakers it
  collected, with the list known to be empty or not; about to lock again; and, when a waker panicked, about
  to lock in the destructor of the list or emptying the list there.\<close>

datatype wake_phase = Popping | Notifying bool | Relocking | Unwinding | Emptying

record wake_call =
  wc_wakers :: "waker list"
  wc_at :: wake_phase

record wait_state =
  ws_atom :: u8
  ws_nodes :: nodes
  ws_list :: linked_list
  ws_lock :: "node option"
  ws_waiters :: "node \<rightharpoonup> waiter"
  ws_polls :: "node \<rightharpoonup> waker"
  ws_wakes :: "node \<rightharpoonup> wake_call"
  ws_signals :: nat
  ws_woken :: "waker list"

definition wait_list_new :: wait_state where
  "wait_list_new = \<lparr>ws_atom = atomic_new, ws_nodes = Map.empty, ws_list = ll_new, ws_lock = None,
     ws_waiters = Map.empty, ws_polls = Map.empty, ws_wakes = Map.empty, ws_signals = 0, ws_woken = []\<rparr>"

section \<open>Polling\<close>

text \<open>\<open>RecvWaiter\<close> waits for a value or for the sender to close, \<open>ClosedWaiter\<close> for the receivers to close.
  \<open>early\<close> is the check made before the waiter is registered.\<close>

datatype waiter_kind = RecvKind | ClosedKind

datatype poll_result = PollRecv shot_state | PollClosed bool

fun early :: "waiter_kind \<Rightarrow> u8 \<Rightarrow> poll_result option" where
  "early RecvKind f = (if flags_state f = Sent then Some (PollRecv Sent) else None)"
| "early ClosedKind f = (if is_recv_closed f then Some (PollClosed True) else None)"

fun pending_result :: "waiter_kind \<Rightarrow> poll_result" where
  "pending_result RecvKind = PollRecv Empty"
| "pending_result ClosedKind = PollClosed False"

fun read_atom :: "waiter_kind \<Rightarrow> u8 \<Rightarrow> poll_result" where
  "read_atom RecvKind f = PollRecv (flags_state f)"
| "read_atom ClosedKind f = PollClosed (is_recv_closed f)"

fun complete :: "poll_result \<Rightarrow> bool" where
  "complete (PollRecv s) \<longleftrightarrow> s \<noteq> Empty"
| "complete (PollClosed b) \<longleftrightarrow> b"

definition waiter_of :: "wait_state \<Rightarrow> node \<Rightarrow> (unit, waiter) outcome" where
  "waiter_of s n = (case ws_waiters s n of Some wt \<Rightarrow> Ok wt | None \<Rightarrow> UB)"

text \<open>\<open>this.waiter.set(None)\<close>.\<close>

definition drop_waiter :: "wait_state \<Rightarrow> node \<Rightarrow> wait_state" where
  "drop_waiter s n = s\<lparr>ws_nodes := (ws_nodes s)(n := None), ws_waiters := (ws_waiters s)(n := None)\<rparr>"

definition poll_unlocked :: "waiter_kind \<Rightarrow> wait_state \<Rightarrow> node \<Rightarrow> poll_result option \<times> wait_state" where
  "poll_unlocked k s n = (case ws_waiters s n of
     None \<Rightarrow> (early k (ws_atom s), s)
   | Some wt \<Rightarrow>
       if wt_notified wt then (Some (read_atom k (ws_atom s)), drop_waiter s n)
       else (None, s))"

definition poll_locked :: "waiter_kind \<Rightarrow> wait_state \<Rightarrow> node \<Rightarrow> waker \<Rightarrow> (unit, poll_result \<times> wait_state) outcome" where
  "poll_locked k s n w = (case ws_waiters s n of
     None \<Rightarrow> (case early k (ws_atom s) of
         Some r \<Rightarrow> Ok (r, s)
       | None \<Rightarrow>
           obind (push_front ((ws_nodes s)(n \<mapsto> pointers_new)) (ws_list s) n) (\<lambda>(h, l).
             Ok (pending_result k, s\<lparr>ws_nodes := h, ws_list := l,
               ws_waiters := (ws_waiters s)(n \<mapsto> waiter_new (Some w))\<rparr>)))
   | Some wt \<Rightarrow>
       if wt_notified wt then Ok (read_atom k (ws_atom s), drop_waiter s n)
       else if complete (read_atom k (ws_atom s)) then
         obind (ll_remove (ws_nodes s) (ws_list s) n) (\<lambda>(_, h, l).
           Ok (read_atom k (ws_atom s), drop_waiter (s\<lparr>ws_nodes := h, ws_list := l\<rparr>) n))
       else
         (let should_update = wt_waker wt = None \<or> wt_waker wt = Some w in
          Ok (read_atom k (ws_atom s),
            if should_update then s\<lparr>ws_waiters := (ws_waiters s)(n \<mapsto> wt\<lparr>wt_waker := Some w\<rparr>)\<rparr> else s)))"

definition poll :: "waiter_kind \<Rightarrow> wait_state \<Rightarrow> node \<Rightarrow> waker \<Rightarrow> (unit, poll_result \<times> wait_state) outcome" where
  "poll k s n w = (case poll_unlocked k s n of
     (Some r, s) \<Rightarrow> Ok (r, s)
   | (None, s) \<Rightarrow> poll_locked k s n w)"

definition recv_poll :: "wait_state \<Rightarrow> node \<Rightarrow> waker \<Rightarrow> (unit, poll_result \<times> wait_state) outcome" where
  "recv_poll = poll RecvKind"

definition closed_poll :: "wait_state \<Rightarrow> node \<Rightarrow> waker \<Rightarrow> (unit, poll_result \<times> wait_state) outcome" where
  "closed_poll = poll ClosedKind"

definition pinned_drop :: "wait_state \<Rightarrow> node \<Rightarrow> (unit, wait_state) outcome" where
  "pinned_drop s n = (case ws_waiters s n of
     None \<Rightarrow> Ok s
   | Some _ \<Rightarrow>
       obind (ll_remove (ws_nodes s) (ws_list s) n) (\<lambda>(_, h, l).
         Ok (drop_waiter (s\<lparr>ws_nodes := h, ws_list := l\<rparr>) n)))"

section \<open>Waking\<close>

text \<open>A call of \<open>wake_all\<close> is known by its guard node.\<close>

definition wake_begin :: "wait_state \<Rightarrow> node \<Rightarrow> (unit, wait_state) outcome" where
  "wake_begin s g =
     obind (into_guarded ((ws_nodes s)(g \<mapsto> pointers_new)) (ws_list s) g) (\<lambda>h.
       Ok (s\<lparr>ws_nodes := h, ws_list := ll_new, ws_lock := Some g,
         ws_wakes := (ws_wakes s)(g \<mapsto> \<lparr>wc_wakers = [], wc_at = Popping\<rparr>)\<rparr>))"

text \<open>The guard and the list are dropped when the call ends.\<close>

definition wake_end :: "wait_state \<Rightarrow> node \<Rightarrow> wait_state" where
  "wake_end s g = s\<lparr>ws_nodes := (ws_nodes s)(g := None), ws_wakes := (ws_wakes s)(g := None)\<rparr>"

definition call_at :: "wait_state \<Rightarrow> node \<Rightarrow> wake_call \<Rightarrow> wait_state" where
  "call_at s g c = s\<lparr>ws_wakes := (ws_wakes s)(g \<mapsto> c)\<rparr>"

definition wake_pop :: "wait_state \<Rightarrow> node \<Rightarrow> wake_call \<Rightarrow> (unit, wait_state) outcome" where
  "wake_pop s g c =
     (if length (wc_wakers c) < NUM_WAKERS then
        obind (guarded_pop_back (ws_nodes s) g) (\<lambda>(r, h). case r of
          None \<Rightarrow> Ok (call_at (s\<lparr>ws_nodes := h, ws_lock := None\<rparr>) g (c\<lparr>wc_at := Notifying True\<rparr>))
        | Some n \<Rightarrow>
            obind (waiter_of s n) (\<lambda>wt.
              Ok (call_at (s\<lparr>ws_nodes := h,
                   ws_waiters := (ws_waiters s)(n \<mapsto> \<lparr>wt_waker = None, wt_notified = True\<rparr>)\<rparr>) g
                 (c\<lparr>wc_wakers := wc_wakers c @ (case wt_waker wt of Some w \<Rightarrow> [w] | None \<Rightarrow> [])\<rparr>))))
      else Ok (call_at (s\<lparr>ws_lock := None\<rparr>) g (c\<lparr>wc_at := Notifying False\<rparr>)))"

text \<open>\<open>for_each\<close> calls the wakers from the last one back.\<close>

definition wake_notify :: "wait_state \<Rightarrow> node \<Rightarrow> wake_call \<Rightarrow> wait_state" where
  "wake_notify s g c =
     (let s = s\<lparr>ws_woken := ws_woken s @ rev (wc_wakers c)\<rparr> in
      if wc_at c = Notifying True then wake_end s g
      else call_at s g \<lparr>wc_wakers = [], wc_at = Relocking\<rparr>)"

text \<open>The waker after the first \<open>i\<close> panics: the others are dropped, and the destructor of the list runs.\<close>

definition wake_panic :: "wait_state \<Rightarrow> node \<Rightarrow> wake_call \<Rightarrow> nat \<Rightarrow> wait_state" where
  "wake_panic s g c i =
     (let s = s\<lparr>ws_woken := ws_woken s @ take i (rev (wc_wakers c))\<rparr> in
      if wc_at c = Notifying True then wake_end s g
      else call_at s g \<lparr>wc_wakers = [], wc_at = Unwinding\<rparr>)"

definition wake_lock :: "wait_state \<Rightarrow> node \<Rightarrow> wake_call \<Rightarrow> wake_phase \<Rightarrow> wait_state" where
  "wake_lock s g c ph = call_at (s\<lparr>ws_lock := Some g\<rparr>) g (c\<lparr>wc_at := ph\<rparr>)"

definition wake_empty :: "wait_state \<Rightarrow> node \<Rightarrow> (unit, wait_state) outcome" where
  "wake_empty s g =
     obind (guarded_pop_back (ws_nodes s) g) (\<lambda>(r, h). case r of
       None \<Rightarrow> Ok (wake_end (s\<lparr>ws_nodes := h, ws_lock := None\<rparr>) g)
     | Some n \<Rightarrow>
         obind (waiter_of s n) (\<lambda>wt.
           Ok (s\<lparr>ws_nodes := h, ws_waiters := (ws_waiters s)(n \<mapsto> wt\<lparr>wt_notified := True\<rparr>)\<rparr>)))"

section \<open>The steps of the threads\<close>

text \<open>\<open>Signal\<close> is an operation that sets flags and goes on to call \<open>wake_all\<close>; \<open>Raise\<close> and \<open>ClearTask\<close> are the
  operations on the flags that are not followed by it. A poll runs up to the mutex in \<open>PollStart\<close> and through
  the critical section in \<open>PollLock\<close>.\<close>

datatype wait_action =
    Raise u8 | ClearTask | Signal u8
  | PollStart node waker | PollLock node | DropWaiter node
  | WakeBegin node | WakePop node | WakeNotify node | WakePanic node nat | WakeRelock node | WakeUnwind node | WakeEmpty node

definition wakes_for :: "waiter_kind \<Rightarrow> u8 \<Rightarrow> bool" where
  "wakes_for k f \<longleftrightarrow> complete (read_atom k f)"

definition call_in :: "wait_state \<Rightarrow> node \<Rightarrow> wake_phase \<Rightarrow> bool" where
  "call_in s g ph \<longleftrightarrow> (case ws_wakes s g of Some c \<Rightarrow> wc_at c = ph | None \<Rightarrow> False)"

fun enabled :: "waiter_kind \<Rightarrow> wait_state \<Rightarrow> wait_action \<Rightarrow> bool" where
  "enabled k s (Raise b) \<longleftrightarrow> \<not> wakes_for k b"
| "enabled k s ClearTask \<longleftrightarrow> True"
| "enabled k s (Signal b) \<longleftrightarrow> True"
| "enabled k s (PollStart n w) \<longleftrightarrow> ws_polls s n = None \<and> ws_wakes s n = None"
| "enabled k s (PollLock n) \<longleftrightarrow> ws_polls s n \<noteq> None \<and> ws_lock s = None"
| "enabled k s (DropWaiter n) \<longleftrightarrow> ws_polls s n = None \<and> ws_lock s = None"
| "enabled k s (WakeBegin g) \<longleftrightarrow> ws_signals s \<noteq> 0 \<and> ws_lock s = None \<and> ws_nodes s g = None \<and> ws_polls s g = None"
| "enabled k s (WakePop g) \<longleftrightarrow> call_in s g Popping"
| "enabled k s (WakeNotify g) \<longleftrightarrow> call_in s g (Notifying True) \<or> call_in s g (Notifying False)"
| "enabled k s (WakePanic g i) \<longleftrightarrow> call_in s g (Notifying True) \<or> call_in s g (Notifying False)"
| "enabled k s (WakeRelock g) \<longleftrightarrow> call_in s g Relocking \<and> ws_lock s = None"
| "enabled k s (WakeUnwind g) \<longleftrightarrow> call_in s g Unwinding \<and> ws_lock s = None"
| "enabled k s (WakeEmpty g) \<longleftrightarrow> call_in s g Emptying"

definition on_call :: "wait_state \<Rightarrow> node \<Rightarrow> (wake_call \<Rightarrow> (unit, wait_state) outcome) \<Rightarrow> (unit, wait_state) outcome" where
  "on_call s g f = (case ws_wakes s g of Some c \<Rightarrow> f c | None \<Rightarrow> UB)"

fun exec :: "waiter_kind \<Rightarrow> wait_state \<Rightarrow> wait_action \<Rightarrow> (unit, wait_state) outcome" where
  "exec k s (Raise b) = Ok (s\<lparr>ws_atom := fst (fetch_or b (ws_atom s))\<rparr>)"
| "exec k s ClearTask = Ok (s\<lparr>ws_atom := fst (clear_closed_task (ws_atom s))\<rparr>)"
| "exec k s (Signal b) = Ok (s\<lparr>ws_atom := fst (fetch_or b (ws_atom s)), ws_signals := Suc (ws_signals s)\<rparr>)"
| "exec k s (PollStart n w) = (case poll_unlocked k s n of
     (Some r, s) \<Rightarrow> Ok s
   | (None, s) \<Rightarrow> Ok (s\<lparr>ws_polls := (ws_polls s)(n \<mapsto> w)\<rparr>))"
| "exec k s (PollLock n) = (case ws_polls s n of
     Some w \<Rightarrow> obind (poll_locked k (s\<lparr>ws_polls := (ws_polls s)(n := None)\<rparr>) n w) (\<lambda>(_, s). Ok s)
   | None \<Rightarrow> UB)"
| "exec k s (DropWaiter n) = pinned_drop s n"
| "exec k s (WakeBegin g) = wake_begin (s\<lparr>ws_signals := ws_signals s - 1\<rparr>) g"
| "exec k s (WakePop g) = on_call s g (wake_pop s g)"
| "exec k s (WakeNotify g) = on_call s g (\<lambda>c. Ok (wake_notify s g c))"
| "exec k s (WakePanic g i) = on_call s g (\<lambda>c. Ok (wake_panic s g c i))"
| "exec k s (WakeRelock g) = on_call s g (\<lambda>c. Ok (wake_lock s g c Popping))"
| "exec k s (WakeUnwind g) = on_call s g (\<lambda>c. Ok (wake_lock s g c Emptying))"
| "exec k s (WakeEmpty g) = on_call s g (\<lambda>_. wake_empty s g)"

inductive reachable :: "waiter_kind \<Rightarrow> wait_state \<Rightarrow> bool" for k where
  init: "reachable k wait_list_new"
| step: "reachable k s \<Longrightarrow> enabled k s a \<Longrightarrow> exec k s a = Ok s' \<Longrightarrow> reachable k s'"

section \<open>The invariant\<close>

definition unnotified :: "wait_state \<Rightarrow> node \<Rightarrow> bool" where
  "unnotified s n \<longleftrightarrow> (\<exists>wt. ws_waiters s n = Some wt \<and> \<not> wt_notified wt)"

text \<open>The lists there are: the one behind the mutex, and the ring of each call of \<open>wake_all\<close>.\<close>

definition wait_lists :: "wait_state \<Rightarrow> node option set" where
  "wait_lists s = insert None (Some ` dom (ws_wakes s))"

text \<open>\<open>wait_rep k s L\<close>: the list \<open>i\<close> holds the nodes \<open>L i\<close>.\<close>

fun rep_at :: "nodes \<Rightarrow> linked_list \<Rightarrow> node option \<Rightarrow> node list \<Rightarrow> bool" where
  "rep_at h l None xs \<longleftrightarrow> list_rep h l xs"
| "rep_at h l (Some g) xs \<longleftrightarrow> ring_rep h g xs"

fun owned :: "node option \<Rightarrow> node list \<Rightarrow> node set" where
  "owned None xs = set xs"
| "owned (Some g) xs = set (g # xs)"

definition linked_up :: "wait_state \<Rightarrow> (node option \<Rightarrow> node list) \<Rightarrow> bool" where
  "linked_up s L \<longleftrightarrow> (\<forall>i \<in> wait_lists s. rep_at (ws_nodes s) (ws_list s) i (L i))"

definition apart :: "wait_state \<Rightarrow> (node option \<Rightarrow> node list) \<Rightarrow> bool" where
  "apart s L \<longleftrightarrow> (\<forall>i \<in> wait_lists s. \<forall>j \<in> wait_lists s. i \<noteq> j \<longrightarrow> set (L i) \<inter> set (L j) = {})"

definition members :: "wait_state \<Rightarrow> (node option \<Rightarrow> node list) \<Rightarrow> bool" where
  "members s L \<longleftrightarrow> (\<forall>n. unnotified s n \<longleftrightarrow> (\<exists>i \<in> wait_lists s. n \<in> set (L i)))"

definition nodes_used :: "wait_state \<Rightarrow> bool" where
  "nodes_used s \<longleftrightarrow> dom (ws_nodes s) = dom (ws_waiters s) \<union> dom (ws_wakes s) \<and>
     dom (ws_waiters s) \<inter> dom (ws_wakes s) = {} \<and> dom (ws_polls s) \<inter> dom (ws_wakes s) = {} \<and>
     (\<forall>n wt. ws_waiters s n = Some wt \<longrightarrow> wt_notified wt \<longrightarrow> loose (ws_nodes s) n)"

definition calls_ok :: "wait_state \<Rightarrow> (node option \<Rightarrow> node list) \<Rightarrow> bool" where
  "calls_ok s L \<longleftrightarrow>
     (\<forall>g. ws_lock s = Some g \<longleftrightarrow> call_in s g Popping \<or> call_in s g Emptying) \<and>
     (\<forall>g. call_in s g (Notifying True) \<longrightarrow> L (Some g) = [])"

text \<open>What the waiters wait for: the value was sent, or the receivers have closed. (A \<open>RecvWaiter\<close> is to
  wait for the sender to close, too; there the code fails, see \<open>recv_poll_misses_close\<close>.)\<close>

fun event_happened :: "waiter_kind \<Rightarrow> u8 \<Rightarrow> bool" where
  "event_happened RecvKind f \<longleftrightarrow> is_set f"
| "event_happened ClosedKind f \<longleftrightarrow> is_recv_closed f"

definition signalled :: "waiter_kind \<Rightarrow> wait_state \<Rightarrow> (node option \<Rightarrow> node list) \<Rightarrow> bool" where
  "signalled k s L \<longleftrightarrow> (event_happened k (ws_atom s) \<longrightarrow> L None \<noteq> [] \<longrightarrow> 0 < ws_signals s)"

lemmas wait_defs = linked_up_def apart_def members_def nodes_used_def calls_ok_def signalled_def

definition wait_rep :: "waiter_kind \<Rightarrow> wait_state \<Rightarrow> (node option \<Rightarrow> node list) \<Rightarrow> bool" where
  "wait_rep k s L \<longleftrightarrow> linked_up s L \<and> apart s L \<and> members s L \<and> nodes_used s \<and> calls_ok s L \<and> signalled k s L"

lemma list_rep_frame: "list_rep h l xs \<Longrightarrow> same_but A h h' \<Longrightarrow> A \<inter> set xs = {} \<Longrightarrow> list_rep h' l xs"
  by (auto simp: list_rep_def same_but_def intro: linked_frame)

lemma ring_rep_frame: "ring_rep h g xs \<Longrightarrow> same_but A h h' \<Longrightarrow> A \<inter> set (g # xs) = {} \<Longrightarrow> ring_rep h' g xs"
  by (auto simp: ring_rep_def same_but_def intro: linked_frame)

lemma loose_frame: "loose h n \<Longrightarrow> same_but A h h' \<Longrightarrow> n \<notin> A \<Longrightarrow> loose h' n"
  by (simp add: loose_def same_but_def)

lemma rep_at_frame:
  assumes "rep_at h l i xs" "same_but A h h'" "A \<inter> owned i xs = {}" "i = None \<Longrightarrow> l' = l"
  shows "rep_at h' l' i xs"
proof (cases i)
  case None
  with assms show ?thesis by (auto intro: list_rep_frame)
next
  case (Some g)
  with assms show ?thesis using ring_rep_frame [of h g xs A h'] by simp
qed

lemma same_but_free: "m \<notin> dom h \<Longrightarrow> same_but {m} h (h(m := v))" "h m = None \<Longrightarrow> same_but {m} h (h(m := v))"
  by (auto simp: same_but_def)

lemma same_but_trans: "same_but A h h1 \<Longrightarrow> same_but B h1 h2 \<Longrightarrow> A \<subseteq> C \<Longrightarrow> B \<subseteq> C \<Longrightarrow> same_but C h h2"
  by (fastforce simp: same_but_def)

lemma rep_at_remove: "n \<notin> owned i xs \<Longrightarrow> rep_at (h(n := v)) l i xs \<longleftrightarrow> rep_at h l i xs"
  by (cases i) (auto simp: list_rep_def ring_rep_def)

lemma loose_upd [simp]: "n \<noteq> m \<Longrightarrow> loose (h(n := v)) m \<longleftrightarrow> loose h m"
  by (auto simp: loose_def)

lemma same_but_domain:
  assumes "same_but A h h'" "A \<subseteq> dom h"
  shows "dom h' = dom h"
proof (intro equalityI subsetI)
  fix m assume "m \<in> dom h'"
  then show "m \<in> dom h" using assms by (cases "m \<in> A") (auto simp: same_but_def)
qed (use assms in \<open>auto simp: same_but_def\<close>)

lemma wait_list_new_rep: "wait_rep k wait_list_new (\<lambda>_. [])"
  by (simp add: wait_rep_def wait_defs wait_list_new_def wait_lists_def unnotified_def list_rep_def ll_new_def
      call_in_def last_or_def)

lemma member_facts:
  assumes "wait_rep k s L" "n \<in> set (L i)" "i \<in> wait_lists s"
  shows "unnotified s n" "n \<in> dom (ws_waiters s)" "n \<in> dom (ws_nodes s)" "ws_wakes s n = None"
proof -
  from assms show u: "unnotified s n" by (auto simp: wait_rep_def members_def)
  then show w: "n \<in> dom (ws_waiters s)" by (auto simp: unnotified_def)
  with assms(1) show "n \<in> dom (ws_nodes s)" "ws_wakes s n = None" by (auto simp: wait_rep_def nodes_used_def)
qed

lemma notified_loose:
  assumes "wait_rep k s L" "ws_waiters s n = Some wt" "wt_notified wt"
  shows "loose (ws_nodes s) n" "i \<in> wait_lists s \<Longrightarrow> n \<notin> set (L i)"
  using assms member_facts(1) [OF assms(1)] by (fastforce simp: wait_rep_def nodes_used_def unnotified_def)+

section \<open>The steps preserve it\<close>

lemma wait_rep_list: "wait_rep k s L \<Longrightarrow> list_rep (ws_nodes s) (ws_list s) (L None)"
  by (force simp: wait_rep_def linked_up_def wait_lists_def)

lemma wait_rep_ring: "wait_rep k s L \<Longrightarrow> ws_wakes s g = Some c \<Longrightarrow> ring_rep (ws_nodes s) g (L (Some g))"
  by (force simp: wait_rep_def linked_up_def wait_lists_def)

lemma owned_dom:
  assumes "wait_rep k s L" "i \<in> wait_lists s"
  shows "owned i (L i) \<subseteq> dom (ws_nodes s)"
  using member_facts(3) [OF assms(1) _ assms(2)] assms
  by (cases i) (auto simp: wait_lists_def wait_rep_def nodes_used_def)

lemma owned_apart:
  assumes "wait_rep k s L" "i \<in> wait_lists s" "j \<in> wait_lists s" "i \<noteq> j"
  shows "owned i (L i) \<inter> owned j (L j) = {}"
proof -
  have "set (L i) \<inter> set (L j) = {}" using assms by (auto simp: wait_rep_def apart_def)
  moreover have "g \<notin> set (L m)" if "Some g \<in> wait_lists s" "m \<in> wait_lists s" for g m
    using member_facts(4) [OF assms(1) _ that(2), of g] that(1) by (auto simp: wait_lists_def)
  ultimately show ?thesis using assms by (cases i; cases j) auto
qed

text \<open>One list changes, together with nodes that were free.\<close>

lemma relist:
  assumes "wait_rep k s L" "i \<in> wait_lists s" "rep_at h' l' i ys" "same_but A (ws_nodes s) h'"
    and "A \<subseteq> owned i (L i) \<union> F" "F \<inter> dom (ws_nodes s) = {}" "i \<noteq> None \<Longrightarrow> l' = ws_list s"
    and "j \<in> wait_lists s"
  shows "rep_at h' l' j ((L(i := ys)) j)"
proof (cases "j = i")
  case False
  have "rep_at (ws_nodes s) (ws_list s) j (L j)" using assms(1,8) by (simp add: wait_rep_def linked_up_def)
  moreover have "A \<inter> owned j (L j) = {}"
    using owned_apart [OF assms(1,2,8)] owned_dom [OF assms(1,8)] False assms(5,6) by blast
  ultimately have "rep_at h' l' j (L j)"
    by (rule rep_at_frame [OF _ assms(4)]) (use assms(7) False in \<open>cases i; auto\<close>)
  with False show ?thesis by simp
qed (use assms(3) in simp)

lemma other_loose:
  assumes "wait_rep k s L" "i \<in> wait_lists s" "same_but A (ws_nodes s) h'"
    and "A \<subseteq> owned i (L i) \<union> F" "F \<inter> dom (ws_nodes s) = {}" "ws_waiters s n = Some wt" "wt_notified wt"
  shows "loose h' n"
proof -
  have "n \<in> dom (ws_nodes s)" "ws_wakes s n = None"
    using assms(1,6) by (auto simp: wait_rep_def nodes_used_def)
  moreover have "n \<notin> owned i (L i)"
    using notified_loose(2) [OF assms(1,6,7,2)] calculation assms(2) by (cases i) (auto simp: wait_lists_def)
  ultimately have "n \<notin> A" using assms(4,5) by blast
  with notified_loose(1) [OF assms(1,6,7)] assms(3) show ?thesis by (auto intro: loose_frame)
qed

lemma drop_notified:
  assumes "wait_rep k s L" "ws_waiters s n = Some wt" "wt_notified wt"
  shows "wait_rep k (drop_waiter s n) L"
proof -
  have l: "wait_lists (drop_waiter s n) = wait_lists s" by (simp add: wait_lists_def drop_waiter_def)
  have u: "unnotified (drop_waiter s n) m \<longleftrightarrow> unnotified s m" for m
    using assms(2,3) by (auto simp: unnotified_def drop_waiter_def)
  have n: "n \<notin> set (L i)" if "i \<in> wait_lists s" for i by (rule notified_loose(2) [OF assms that])
  have g: "n \<notin> dom (ws_wakes s)" using assms(1,2) by (auto simp: wait_rep_def nodes_used_def)
  have "n \<notin> owned i (L i)" if "i \<in> wait_lists s" for i
    using n [OF that] g that by (cases i) (auto simp: wait_lists_def)
  then have "linked_up (drop_waiter s n) L"
    using assms(1) by (simp add: wait_rep_def linked_up_def drop_waiter_def wait_lists_def rep_at_remove)
  moreover have "nodes_used (drop_waiter s n)"
    using assms(1) g by (auto simp: wait_rep_def nodes_used_def drop_waiter_def loose_def)
  moreover have "calls_ok (drop_waiter s n) L" "signalled k (drop_waiter s n) L"
    using assms(1) by (auto simp: wait_rep_def calls_ok_def signalled_def drop_waiter_def call_in_def)
  ultimately show ?thesis using assms(1) by (auto simp: wait_rep_def apart_def members_def l u)
qed

lemma upd_members:
  "(\<exists>i \<in> I. m \<in> set ((L(j := ys)) i)) \<longleftrightarrow> j \<in> I \<and> m \<in> set ys \<or> (\<exists>i \<in> I. i \<noteq> j \<and> m \<in> set (L i))"
  by auto

text \<open>A list gets or loses a node, and its state follows.\<close>

lemma members_insert:
  assumes "members s L" "wait_lists s' = wait_lists s" "i \<in> wait_lists s"
    and "\<And>m. unnotified s' m \<longleftrightarrow> unnotified s m \<or> m = n"
  shows "members s' (L(i := n # L i))"
  using assms unfolding members_def upd_members by auto

lemma members_delete:
  assumes "members s L" "wait_lists s' = wait_lists s" "i \<in> wait_lists s" "apart s L" "n \<in> set (L i)"
    and "set ys = set (L i) - {n}" "\<And>m. unnotified s' m \<longleftrightarrow> unnotified s m \<and> m \<noteq> n"
  shows "members s' (L(i := ys))"
proof -
  have "n \<notin> set (L j)" if "j \<in> wait_lists s" "j \<noteq> i" for j using assms(3-5) that by (auto simp: apart_def)
  then show ?thesis using assms unfolding members_def upd_members by auto
qed

lemma apart_shrink:
  assumes "apart s L" "wait_lists s' = wait_lists s" "i \<in> wait_lists s" "set ys \<subseteq> set (L i)"
  shows "apart s' (L(i := ys))"
  using assms unfolding apart_def by (auto simp: Int_commute) blast+

lemma register_ok:
  assumes rep: "wait_rep k s L" and n: "ws_waiters s n = None" "ws_wakes s n = None" and e: "\<not> event_happened k (ws_atom s)"
  obtains h l where "push_front ((ws_nodes s)(n \<mapsto> pointers_new)) (ws_list s) n = Ok (h, l)"
    "wait_rep k (s\<lparr>ws_nodes := h, ws_list := l, ws_waiters := (ws_waiters s)(n \<mapsto> waiter_new (Some w))\<rparr>)
       (L(None := n # L None))"
proof -
  let ?h = "(ws_nodes s)(n \<mapsto> pointers_new)"
  have nn: "n \<notin> dom (ws_nodes s)" using rep n by (auto simp: wait_rep_def nodes_used_def)
  have none: "None \<in> wait_lists s" by (simp add: wait_lists_def)
  have out: "n \<notin> set (L i)" if "i \<in> wait_lists s" for i using member_facts(3) [OF rep _ that] nn by auto
  have "list_rep ?h (ws_list s) (L None)"
    using wait_rep_list [OF rep] rep_at_remove [of n None] out [OF none] by simp
  then obtain h l where p: "push_front ?h (ws_list s) n = Ok (h, l)" "list_rep h l (n # L None)"
    "same_but (set (n # L None)) ?h h" using push_front_rep out [OF none] by (metis fun_upd_same option.distinct(1))
  have sb: "same_but (set (n # L None)) (ws_nodes s) h"
    by (rule same_but_trans [OF same_but_free(1) [OF nn] p(3)]) auto
  let ?s = "s\<lparr>ws_nodes := h, ws_list := l, ws_waiters := (ws_waiters s)(n \<mapsto> waiter_new (Some w))\<rparr>"
  let ?L = "L(None := n # L None)"
  have l: "wait_lists ?s = wait_lists s" by (simp add: wait_lists_def)
  have "linked_up ?s ?L"
    using relist [OF rep none _ sb, of l "n # L None" "{n}"] p(2) nn by (auto simp: linked_up_def l)
  moreover have u: "unnotified ?s m \<longleftrightarrow> unnotified s m \<or> m = n" for m
    using n(1) by (auto simp: unnotified_def waiter_new_def)
  then have "members ?s ?L" using rep by (intro members_insert [OF _ l none]) (simp_all add: wait_rep_def)
  moreover have "apart ?s ?L" using rep out by (auto simp: wait_rep_def apart_def l)
  moreover have "dom h = insert n (dom (ws_nodes s))"
    using same_but_domain [OF p(3)] member_facts(3) [OF rep _ none] by auto
  then have "nodes_used ?s"
    using rep n other_loose [OF rep none sb, of "{n}"] nn by (auto simp: wait_rep_def nodes_used_def waiter_new_def)
  moreover have "calls_ok ?s ?L" "signalled k ?s ?L"
    using rep e by (auto simp: wait_rep_def calls_ok_def signalled_def call_in_def)
  ultimately show thesis using p(1) by (intro that) (simp_all add: wait_rep_def)
qed

text \<open>A registered waiter is taken out of whatever list it is in.\<close>

lemma remove_ok:
  assumes rep: "wait_rep k s L" and n: "ws_waiters s n = Some wt" "\<not> wt_notified wt"
  obtains h l L' where "ll_remove (ws_nodes s) (ws_list s) n = Ok (Some n, h, l)"
    "wait_rep k (drop_waiter (s\<lparr>ws_nodes := h, ws_list := l\<rparr>) n) L'"
proof -
  have "unnotified s n" using n by (simp add: unnotified_def)
  then obtain i where i: "i \<in> wait_lists s" "n \<in> set (L i)" using rep by (auto simp: wait_rep_def members_def)
  have ra: "rep_at (ws_nodes s) (ws_list s) i (L i)" using rep i(1) by (simp add: wait_rep_def linked_up_def)
  then obtain h l where r: "ll_remove (ws_nodes s) (ws_list s) n = Ok (Some n, h, l)" "rep_at h l i (remove1 n (L i))"
    "loose h n" "same_but (owned i (L i)) (ws_nodes s) h" "i \<noteq> None \<Longrightarrow> l = ws_list s"
  proof (cases i)
    case None
    with ra i(2) obtain h l where "ll_remove (ws_nodes s) (ws_list s) n = Ok (Some n, h, l)" "list_rep h l (remove1 n (L i))"
      "loose h n" "same_but (set (L i)) (ws_nodes s) h" using ll_remove_rep by (metis rep_at.simps(1))
    with None that show thesis by simp
  next
    case (Some g)
    with ra i(2) obtain h where "ll_remove (ws_nodes s) (ws_list s) n = Ok (Some n, h, ws_list s)" "ring_rep h g (remove1 n (L i))"
      "loose h n" "same_but (set (g # L i)) (ws_nodes s) h" using ll_remove_ring by (metis rep_at.simps(2))
    with Some that show thesis by simp
  qed
  let ?s = "drop_waiter (s\<lparr>ws_nodes := h, ws_list := l\<rparr>) n"
  let ?L = "L(i := remove1 n (L i))"
  have l: "wait_lists ?s = wait_lists s" by (simp add: wait_lists_def drop_waiter_def)
  have "distinct (L i)" using ra by (cases i) (auto simp: list_rep_def ring_rep_def)
  then have rem: "set (remove1 n (L i)) = set (L i) - {n}" by simp
  have ap: "n \<notin> set (L j)" if "j \<in> wait_lists s" "j \<noteq> i" for j
    using rep i that by (auto simp: wait_rep_def apart_def)
  have g: "ws_wakes s n = None" by (rule member_facts(4) [OF rep i(2,1)])
  have out: "n \<notin> owned j (?L j)" if "j \<in> wait_lists s" for j
  proof -
    have "n \<notin> set (?L j)" using ap [OF that] rem by (cases "j = i") simp_all
    with g that show ?thesis by (cases j) (auto simp: wait_lists_def)
  qed
  have "linked_up ?s ?L"
    unfolding linked_up_def l
  proof
    fix j assume j: "j \<in> wait_lists s"
    have "rep_at h l j (?L j)" by (rule relist [OF rep i(1) r(2,4), of "{}"]) (use r(5) j in auto)
    with out [OF j] show "rep_at (ws_nodes ?s) (ws_list ?s) j (?L j)" by (simp add: drop_waiter_def rep_at_remove)
  qed
  moreover have "unnotified ?s m \<longleftrightarrow> unnotified s m \<and> m \<noteq> n" for m by (auto simp: unnotified_def drop_waiter_def)
  then have "members ?s ?L"
    using rep rem i by (intro members_delete [OF _ l i(1)]) (simp_all add: wait_rep_def)
  moreover have "apart ?s ?L"
    using rep rem by (intro apart_shrink [OF _ l i(1)]) (auto simp: wait_rep_def)
  moreover have "dom h = dom (ws_nodes s)" by (rule same_but_domain [OF r(4) owned_dom [OF rep i(1)]])
  then have "nodes_used ?s"
    using rep g other_loose [OF rep i(1) r(4), of "{}"] by (auto simp: wait_rep_def nodes_used_def drop_waiter_def)
  moreover have "calls_ok ?s ?L" "signalled k ?s ?L"
    using rep by (auto simp: wait_rep_def calls_ok_def signalled_def call_in_def drop_waiter_def)
  ultimately show thesis using r(1) by (intro that) (simp_all add: wait_rep_def)
qed

lemma pop_ok:
  assumes rep: "wait_rep k s L" and g: "ws_wakes s g = Some c"
  obtains "guarded_pop_back (ws_nodes s) g = Ok (None, ws_nodes s)" "L (Some g) = []"
  | n wt h L' where "guarded_pop_back (ws_nodes s) g = Ok (Some n, h)" "ws_waiters s n = Some wt" "\<not> wt_notified wt"
    "\<And>v. wait_rep k (s\<lparr>ws_nodes := h, ws_waiters := (ws_waiters s)(n \<mapsto> \<lparr>wt_waker = v, wt_notified = True\<rparr>)\<rparr>) L'"
proof (cases "L (Some g)" rule: rev_cases)
  case Nil
  with wait_rep_ring [OF rep g] that(1) show thesis by (simp add: guarded_pop_back_empty)
next
  case (snoc ys n)
  have i: "Some g \<in> wait_lists s" "n \<in> set (L (Some g))" using g snoc by (auto simp: wait_lists_def)
  then obtain wt where wt: "ws_waiters s n = Some wt" "\<not> wt_notified wt"
    using member_facts(1) [OF rep] by (fastforce simp: unnotified_def)
  from guarded_pop_back_rep [OF wait_rep_ring [OF rep g]] snoc obtain h where h: "guarded_pop_back (ws_nodes s) g = Ok (Some n, h)"
    "ring_rep h g ys" "loose h n" "same_but (set (g # L (Some g))) (ws_nodes s) h" by (auto simp: butlast_append)
  let ?L = "L(Some g := ys)"
  have "wait_rep k (s\<lparr>ws_nodes := h, ws_waiters := (ws_waiters s)(n \<mapsto> \<lparr>wt_waker = v, wt_notified = True\<rparr>)\<rparr>) ?L" (is "wait_rep k ?s ?L") for v
  proof -
    have l: "wait_lists ?s = wait_lists s" by (simp add: wait_lists_def)
    have n: "n \<notin> set ys" using wait_rep_ring [OF rep g] snoc by (simp add: ring_rep_def)
    have sb: "same_but (owned (Some g) (L (Some g))) (ws_nodes s) h" using h(4) by simp
    have "linked_up ?s ?L"
      unfolding linked_up_def l
    proof
      fix j assume j: "j \<in> wait_lists s"
      have "rep_at h (ws_list s) j (?L j)"
        by (rule relist [OF rep i(1) _ sb, of _ _ "{}"]) (use h(2) j in auto)
      then show "rep_at (ws_nodes ?s) (ws_list ?s) j (?L j)" by simp
    qed
    moreover have "unnotified ?s m \<longleftrightarrow> unnotified s m \<and> m \<noteq> n" for m by (auto simp: unnotified_def)
    then have "members ?s ?L"
      using rep i n snoc by (intro members_delete [where n = n, OF _ l i(1)]) (auto simp: wait_rep_def)
    moreover have "apart ?s ?L"
      using rep snoc by (intro apart_shrink [OF _ l i(1)]) (auto simp: wait_rep_def)
    moreover have "dom h = dom (ws_nodes s)" by (rule same_but_domain [OF sb owned_dom [OF rep i(1)]])
    then have "nodes_used ?s"
      using rep wt(1) h(3) other_loose [OF rep i(1) sb, of "{}"] by (auto simp: wait_rep_def nodes_used_def)
    moreover have "calls_ok ?s ?L" "signalled k ?s ?L"
      using rep snoc by (auto simp: wait_rep_def calls_ok_def signalled_def call_in_def)
    ultimately show ?thesis by (simp add: wait_rep_def)
  qed
  with that(2) [OF h(1) wt] show thesis by blast
qed

lemma same_lock [simp]: "s\<lparr>ws_lock := ws_lock s\<rparr> = s" "ws_lock s = v \<Longrightarrow> s\<lparr>ws_lock := v\<rparr> = s"
  by (cases s; simp)+

lemma call_ok:
  assumes "wait_rep k s L" "ws_wakes s g = Some c" "\<And>m. m \<noteq> g \<Longrightarrow> lk = Some m \<longleftrightarrow> ws_lock s = Some m"
    and "lk = Some g \<longleftrightarrow> wc_at c' = Popping \<or> wc_at c' = Emptying"
    and "wc_at c' = Notifying True \<Longrightarrow> L (Some g) = []"
  shows "wait_rep k (call_at (s\<lparr>ws_lock := lk\<rparr>) g c') L"
proof -
  let ?s = "call_at (s\<lparr>ws_lock := lk\<rparr>) g c'"
  have l: "wait_lists ?s = wait_lists s" using assms(2) by (auto simp: wait_lists_def call_at_def)
  have u: "unnotified ?s m \<longleftrightarrow> unnotified s m" for m by (simp add: unnotified_def call_at_def)
  have c: "call_in ?s m ph \<longleftrightarrow> (if m = g then wc_at c' = ph else call_in s m ph)" for m ph
    by (simp add: call_in_def call_at_def)
  have lk: "ws_lock ?s = lk" by (simp add: call_at_def)
  have "linked_up ?s L" using assms(1) by (simp add: wait_rep_def linked_up_def l) (simp add: call_at_def)
  moreover have "apart ?s L" "members ?s L" "signalled k ?s L"
    using assms(1) by (auto simp: wait_rep_def apart_def members_def signalled_def l u) (auto simp: call_at_def)
  moreover have "nodes_used ?s"
    using assms(1,2) by (auto simp: wait_rep_def nodes_used_def call_at_def)
  moreover have "calls_ok ?s L"
    unfolding calls_ok_def c lk
    using assms(1,3-5) by (auto simp: wait_rep_def calls_ok_def)
  ultimately show ?thesis by (simp add: wait_rep_def)
qed

lemma end_ok:
  assumes "wait_rep k s L" "ws_wakes s g = Some c" "L (Some g) = []" "lk \<noteq> Some g"
    and "\<And>m. m \<noteq> g \<Longrightarrow> lk = Some m \<longleftrightarrow> ws_lock s = Some m"
  shows "wait_rep k (wake_end (s\<lparr>ws_lock := lk\<rparr>) g) L"
proof -
  let ?s = "wake_end (s\<lparr>ws_lock := lk\<rparr>) g"
  have l: "i \<in> wait_lists ?s \<longleftrightarrow> i \<in> wait_lists s \<and> i \<noteq> Some g" for i by (auto simp: wait_lists_def wake_end_def)
  have u: "unnotified ?s m \<longleftrightarrow> unnotified s m" for m by (simp add: unnotified_def wake_end_def)
  have c: "call_in ?s m ph \<longleftrightarrow> m \<noteq> g \<and> call_in s m ph" for m ph by (simp add: call_in_def wake_end_def)
  have lk: "ws_lock ?s = lk" by (simp add: wake_end_def)
  have gl: "Some g \<in> wait_lists s" using assms(2) by (auto simp: wait_lists_def)
  have "linked_up ?s L"
    unfolding linked_up_def
  proof
    fix i assume "i \<in> wait_lists ?s"
    then have i: "i \<in> wait_lists s" "i \<noteq> Some g" by (simp_all add: l)
    then have "g \<notin> owned i (L i)" using owned_apart [OF assms(1) gl i(1)] by auto
    with assms(1) i show "rep_at (ws_nodes ?s) (ws_list ?s) i (L i)"
      by (simp add: wait_rep_def linked_up_def wake_end_def rep_at_remove)
  qed
  moreover have "apart ?s L" "signalled k ?s L"
    using assms(1) by (auto simp: wait_rep_def apart_def l) (auto simp: signalled_def wake_end_def)
  moreover have "members ?s L" using assms(1,3) unfolding wait_rep_def members_def u Bex_def l by auto
  moreover have "nodes_used ?s"
    using assms(1,2) by (auto simp: wait_rep_def nodes_used_def wake_end_def loose_def)
  moreover have "calls_ok ?s L"
    unfolding calls_ok_def c lk
    using assms(1,4,5) by (auto simp: wait_rep_def calls_ok_def)
  ultimately show ?thesis by (simp add: wait_rep_def)
qed

lemma begin_ok:
  assumes rep: "wait_rep k s L" and g: "ws_nodes s g = None" "ws_polls s g = None" and lk: "ws_lock s = None"
  obtains s' L' where "wake_begin s g = Ok s'" "wait_rep k s' L'" "L' None = []"
    "ws_atom s' = ws_atom s" "ws_signals s' = ws_signals s"
proof -
  let ?h = "(ws_nodes s)(g \<mapsto> pointers_new)"
  have gw: "ws_waiters s g = None" "ws_wakes s g = None" using rep g by (auto simp: wait_rep_def nodes_used_def)
  have none: "None \<in> wait_lists s" by (simp add: wait_lists_def)
  have out: "g \<notin> set (L i)" if "i \<in> wait_lists s" for i using member_facts(3) [OF rep _ that] g by auto
  have nn: "g \<notin> dom (ws_nodes s)" using g by auto
  have "list_rep ?h (ws_list s) (L None)"
    using wait_rep_list [OF rep] rep_at_remove [of g None] out [OF none] by simp
  then obtain h where h: "into_guarded ?h (ws_list s) g = Ok h" "ring_rep h g (L None)" "same_but (set (g # L None)) ?h h"
    using into_guarded_rep out [OF none] by (metis fun_upd_same option.distinct(1))
  have sb: "same_but (set (g # L None)) (ws_nodes s) h"
    by (rule same_but_trans [OF same_but_free(1) [OF nn] h(3)]) auto
  let ?s = "s\<lparr>ws_nodes := h, ws_list := ll_new, ws_lock := Some g,
         ws_wakes := (ws_wakes s)(g \<mapsto> \<lparr>wc_wakers = [], wc_at = Popping\<rparr>)\<rparr>"
  let ?L = "L(None := [], Some g := L None)"
  have l: "i \<in> wait_lists ?s \<longleftrightarrow> i \<in> wait_lists s \<or> i = Some g" for i by (auto simp: wait_lists_def)
  have gl: "Some g \<notin> wait_lists s" using gw by (auto simp: wait_lists_def)
  have u: "unnotified ?s m \<longleftrightarrow> unnotified s m" for m by (simp add: unnotified_def)
  have empty: "list_rep h ll_new []" by (simp add: list_rep_def ll_new_def last_or_def)
  have "linked_up ?s ?L"
    unfolding linked_up_def
  proof
    fix j assume "j \<in> wait_lists ?s"
    then consider "j = Some g" | "j \<in> wait_lists s" "j \<noteq> Some g" by (auto simp: l)
    then show "rep_at (ws_nodes ?s) (ws_list ?s) j (?L j)"
    proof cases
      case 2
      have "rep_at h ll_new j ((L(None := [])) j)"
        by (rule relist [OF rep none _ sb, of _ _ "{g}"]) (use 2 empty nn in auto)
      with 2 show ?thesis by simp
    qed (use h in simp)
  qed
  moreover have "members ?s ?L"
    unfolding members_def u
  proof
    fix m
    have "(\<exists>i\<in>wait_lists ?s. m \<in> set (?L i)) \<longleftrightarrow> (\<exists>i\<in>wait_lists s. m \<in> set (L i))"
    proof
      assume "\<exists>i\<in>wait_lists s. m \<in> set (L i)"
      then obtain i where i: "i \<in> wait_lists s" "m \<in> set (L i)" by auto
      show "\<exists>i\<in>wait_lists ?s. m \<in> set (?L i)"
      proof (cases i)
        case None
        with i show ?thesis by (intro bexI [of _ "Some g"]) (simp_all add: l)
      next
        case (Some j)
        with i gl show ?thesis by (intro bexI [of _ i]) (auto simp: l)
      qed
    qed (use none in \<open>auto simp: l split: if_splits\<close>)
    then show "unnotified s m \<longleftrightarrow> (\<exists>i\<in>wait_lists ?s. m \<in> set (?L i))"
      using rep by (simp add: wait_rep_def members_def)
  qed
  moreover have "apart ?s ?L"
    using rep none gl unfolding wait_rep_def apart_def Ball_def l by auto
  moreover have "dom h = insert g (dom (ws_nodes s))"
    using same_but_domain [OF h(3)] member_facts(3) [OF rep _ none] by auto
  then have "nodes_used ?s"
    using rep g gw other_loose [OF rep none sb, of "{g}"] nn by (auto simp: wait_rep_def nodes_used_def)
  moreover have c: "call_in ?s m ph \<longleftrightarrow> (if m = g then ph = Popping else call_in s m ph)" for m ph
    by (auto simp: call_in_def)
  have "calls_ok ?s ?L"
    using rep lk by (auto simp: wait_rep_def calls_ok_def c)
  moreover have "signalled k ?s ?L" by (simp add: signalled_def)
  ultimately have "wait_rep k ?s ?L" by (simp add: wait_rep_def)
  then show thesis using h(1) by (intro that [of ?s ?L]) (simp_all add: wake_begin_def)
qed

text \<open>Steps that touch neither the lists nor the waiters.\<close>

lemma atom_ok:
  assumes "wait_rep k s L" "event_happened k f \<Longrightarrow> event_happened k (ws_atom s) \<or> 0 < m" "ws_signals s \<le> m"
  shows "wait_rep k (s\<lparr>ws_atom := f, ws_signals := m\<rparr>) L"
  using assms by (auto simp: wait_rep_def wait_defs wait_lists_def unnotified_def call_in_def)

lemma signals_ok:
  assumes "wait_rep k s L" "L None = []"
  shows "wait_rep k (s\<lparr>ws_signals := m\<rparr>) L"
  using assms by (auto simp: wait_rep_def wait_defs wait_lists_def unnotified_def call_in_def)

lemma woken_ok: "wait_rep k s L \<Longrightarrow> wait_rep k (s\<lparr>ws_woken := ws\<rparr>) L"
  by (auto simp: wait_rep_def wait_defs wait_lists_def unnotified_def call_in_def)

lemma polls_ok:
  assumes "wait_rep k s L" "dom ps \<inter> dom (ws_wakes s) = {}"
  shows "wait_rep k (s\<lparr>ws_polls := ps\<rparr>) L"
  using assms by (auto simp: wait_rep_def wait_defs wait_lists_def unnotified_def call_in_def)

lemma waker_ok:
  assumes "wait_rep k s L" "ws_waiters s n = Some wt" "\<not> wt_notified wt"
  shows "wait_rep k (s\<lparr>ws_waiters := (ws_waiters s)(n \<mapsto> wt\<lparr>wt_waker := w\<rparr>)\<rparr>) L"
proof -
  let ?s = "s\<lparr>ws_waiters := (ws_waiters s)(n \<mapsto> wt\<lparr>wt_waker := w\<rparr>)\<rparr>"
  have "unnotified ?s m \<longleftrightarrow> unnotified s m" for m using assms(2,3) by (auto simp: unnotified_def)
  then show ?thesis
    using assms by (auto simp: wait_rep_def wait_defs wait_lists_def call_in_def)
qed

lemma event_or: "event_happened k (a OR b) \<longleftrightarrow> event_happened k a \<or> event_happened k b"
  by (cases k) (simp_all add: flag_simps)

lemma event_clear: "event_happened k (a AND NOT STATE_CLOSED_TASK_SET) \<longleftrightarrow> event_happened k a"
  by (cases k) (simp_all add: flag_simps)

lemma event_complete: "event_happened k f \<Longrightarrow> wakes_for k f"
  by (cases k) (auto simp: wakes_for_def flags_state_def flag_simps)

text \<open>The check before a waiter is registered sees the event.\<close>

lemma early_event: "early k f = None \<Longrightarrow> \<not> event_happened k f"
  by (cases k) (auto simp: flags_state_def flag_simps split: if_splits)

lemma poll_unlocked_ok:
  assumes "wait_rep k s L"
  shows "wait_rep k (snd (poll_unlocked k s n)) L" "ws_wakes (snd (poll_unlocked k s n)) = ws_wakes s"
    "ws_polls (snd (poll_unlocked k s n)) = ws_polls s"
  using assms drop_notified [OF assms] by (auto simp: poll_unlocked_def drop_waiter_def split: option.split)

lemma poll_locked_ok:
  assumes "wait_rep k s L" "ws_wakes s n = None"
  shows "\<exists>r s' L'. poll_locked k s n w = Ok (r, s') \<and> wait_rep k s' L'"
proof (cases "ws_waiters s n")
  case None
  show ?thesis
  proof (cases "early k (ws_atom s)")
    case e: None
    obtain h l where "push_front ((ws_nodes s)(n \<mapsto> pointers_new)) (ws_list s) n = Ok (h, l)"
      "wait_rep k (s\<lparr>ws_nodes := h, ws_list := l, ws_waiters := (ws_waiters s)(n \<mapsto> waiter_new (Some w))\<rparr>)
         (L(None := n # L None))" using assms(1) None assms(2) early_event [OF e] by (rule register_ok)
    with None e show ?thesis by (fastforce simp: poll_locked_def)
  qed (use None assms in \<open>auto simp: poll_locked_def\<close>)
next
  case (Some wt)
  consider "wt_notified wt" | "\<not> wt_notified wt" "complete (read_atom k (ws_atom s))"
    | "\<not> wt_notified wt" "\<not> complete (read_atom k (ws_atom s))" by blast
  then show ?thesis
  proof cases
    case 1
    with drop_notified [OF assms(1) Some] Some show ?thesis by (auto simp: poll_locked_def)
  next
    case 2
    obtain h l L' where "ll_remove (ws_nodes s) (ws_list s) n = Ok (Some n, h, l)"
      "wait_rep k (drop_waiter (s\<lparr>ws_nodes := h, ws_list := l\<rparr>) n) L'" using assms(1) Some 2(1) by (rule remove_ok)
    with 2 Some show ?thesis by (auto simp: poll_locked_def)
  next
    case 3
    with waker_ok [OF assms(1) Some] Some assms(1) show ?thesis by (auto simp: poll_locked_def Let_def)
  qed
qed

lemma pinned_drop_ok:
  assumes "wait_rep k s L"
  shows "\<exists>s' L'. pinned_drop s n = Ok s' \<and> wait_rep k s' L'"
proof (cases "ws_waiters s n")
  case (Some wt)
  show ?thesis
  proof (cases "wt_notified wt")
    case True
    have "ll_head (ws_list s) \<noteq> Some n"
      using wait_rep_list [OF assms] notified_loose(2) [OF assms Some True, of None]
      by (cases "L None") (auto simp: list_rep_def wait_lists_def)
    with notified_loose(1) [OF assms Some True] have "ll_remove (ws_nodes s) (ws_list s) n = Ok (None, ws_nodes s, ws_list s)"
      by (rule ll_remove_loose)
    with drop_notified [OF assms Some True] Some show ?thesis by (auto simp: pinned_drop_def)
  next
    case False
    obtain h l L' where "ll_remove (ws_nodes s) (ws_list s) n = Ok (Some n, h, l)"
      "wait_rep k (drop_waiter (s\<lparr>ws_nodes := h, ws_list := l\<rparr>) n) L'" using assms Some False by (rule remove_ok)
    with Some show ?thesis by (auto simp: pinned_drop_def)
  qed
qed (use assms in \<open>auto simp: pinned_drop_def\<close>)

lemma lock_of_call:
  assumes "wait_rep k s L" "call_in s g ph"
  shows "ph = Popping \<or> ph = Emptying \<Longrightarrow> ws_lock s = Some g" "\<exists>c. ws_wakes s g = Some c \<and> wc_at c = ph"
  using assms by (auto simp: wait_rep_def calls_ok_def call_in_def split: option.splits)

lemma wake_pop_ok:
  assumes "wait_rep k s L" "ws_wakes s g = Some c" "wc_at c = Popping"
  shows "\<exists>s' L'. wake_pop s g c = Ok s' \<and> wait_rep k s' L'"
proof (cases "length (wc_wakers c) < NUM_WAKERS")
  case True
  have lk: "ws_lock s = Some g" using lock_of_call(1) [OF assms(1), of g Popping] assms(2,3) by (simp add: call_in_def)
  from assms(1,2) show ?thesis
  proof (cases rule: pop_ok)
    case 1
    with call_ok [OF assms(1,2), of None "c\<lparr>wc_at := Notifying True\<rparr>"] lk True show ?thesis
      by (auto simp: wake_pop_def)
  next
    case (2 n wt h L')
    let ?s = "s\<lparr>ws_nodes := h, ws_waiters := (ws_waiters s)(n \<mapsto> \<lparr>wt_waker = None, wt_notified = True\<rparr>)\<rparr>"
    let ?c = "c\<lparr>wc_wakers := wc_wakers c @ (case wt_waker wt of Some w \<Rightarrow> [w] | None \<Rightarrow> [])\<rparr>"
    have "wait_rep k (call_at (?s\<lparr>ws_lock := ws_lock ?s\<rparr>) g ?c) L'"
      by (rule call_ok [OF 2(4)]) (use assms lk in auto)
    then have "wait_rep k (call_at ?s g ?c) L'" by (simp only: same_lock(1))
    with 2 True show ?thesis by (auto simp: wake_pop_def waiter_of_def)
  qed
next
  case False
  have lk: "ws_lock s = Some g" using lock_of_call(1) [OF assms(1), of g Popping] assms(2,3) by (simp add: call_in_def)
  with False call_ok [OF assms(1,2), of None "c\<lparr>wc_at := Notifying False\<rparr>"] show ?thesis
    by (auto simp: wake_pop_def)
qed

lemma wake_empty_ok:
  assumes "wait_rep k s L" "ws_wakes s g = Some c" "wc_at c = Emptying"
  shows "\<exists>s' L'. wake_empty s g = Ok s' \<and> wait_rep k s' L'"
proof -
  have lk: "ws_lock s = Some g" using lock_of_call(1) [OF assms(1), of g Emptying] assms(2,3) by (simp add: call_in_def)
  from assms(1,2) show ?thesis
  proof (cases rule: pop_ok)
    case 1
    with end_ok [OF assms(1,2), of None] lk show ?thesis by (auto simp: wake_empty_def)
  next
    case (2 n wt h L')
    then have "wait_rep k (s\<lparr>ws_nodes := h, ws_waiters := (ws_waiters s)(n \<mapsto> wt\<lparr>wt_notified := True\<rparr>)\<rparr>) L'"
      using 2(4) [of "wt_waker wt"] by (cases wt) simp
    with 2 show ?thesis by (auto simp: wake_empty_def waiter_of_def)
  qed
qed

text \<open>Leaving the wakers: the call ends, or goes on without the mutex.\<close>

lemma wake_leave_ok:
  assumes "wait_rep k s L" "ws_wakes s g = Some c" "wc_at c = Notifying b" "ph = Relocking \<or> ph = Unwinding"
  shows "\<exists>L'. wait_rep k (let s = s\<lparr>ws_woken := ws\<rparr> in
      if wc_at c = Notifying True then wake_end s g else call_at s g \<lparr>wc_wakers = [], wc_at = ph\<rparr>) L'"
proof -
  let ?s = "s\<lparr>ws_woken := ws\<rparr>"
  have rep: "wait_rep k ?s L" using assms(1) by (rule woken_ok)
  have n: "ws_lock s \<noteq> Some g" using assms(1-3) by (auto simp: wait_rep_def calls_ok_def call_in_def)
  show ?thesis
  proof (cases b)
    case True
    with assms have e: "L (Some g) = []" by (auto simp: wait_rep_def calls_ok_def call_in_def)
    have "wait_rep k (wake_end (?s\<lparr>ws_lock := ws_lock ?s\<rparr>) g) L"
      by (rule end_ok [OF rep]) (use assms(2) e n in auto)
    then have "wait_rep k (wake_end ?s g) L" by (simp only: same_lock(1))
    with True assms(3) show ?thesis by (auto simp: Let_def)
  next
    case False
    have "wait_rep k (call_at (?s\<lparr>ws_lock := ws_lock ?s\<rparr>) g \<lparr>wc_wakers = [], wc_at = ph\<rparr>) L"
      by (rule call_ok [OF rep]) (use assms(2,4) n in auto)
    then have "wait_rep k (call_at ?s g \<lparr>wc_wakers = [], wc_at = ph\<rparr>) L" by (simp only: same_lock(1))
    with False assms(3) show ?thesis by (auto simp: Let_def)
  qed
qed

lemma wake_lock_ok:
  assumes "wait_rep k s L" "ws_wakes s g = Some c" "ws_lock s = None" "ph = Popping \<or> ph = Emptying"
  shows "wait_rep k (wake_lock s g c ph) L"
  unfolding wake_lock_def by (rule call_ok [OF assms(1,2)]) (use assms(3,4) in auto)

text \<open>Every step a thread can take succeeds and keeps the lists.\<close>

lemma exec_ok:
  assumes "wait_rep k s L" "enabled k s a"
  shows "\<exists>s' L'. exec k s a = Ok s' \<and> wait_rep k s' L'"
proof (cases a)
  case (Raise b)
  have b: "\<not> event_happened k b" using assms(2) Raise event_complete by auto
  then have "wait_rep k (s\<lparr>ws_atom := ws_atom s OR b, ws_signals := ws_signals s\<rparr>) L"
    by (intro atom_ok [OF assms(1)]) (use event_or [of k "ws_atom s" b] b in simp_all)
  then show ?thesis using Raise by (auto simp: fetch_or_def)
next
  case ClearTask
  have "wait_rep k (s\<lparr>ws_atom := ws_atom s AND NOT STATE_CLOSED_TASK_SET, ws_signals := ws_signals s\<rparr>) L"
    by (intro atom_ok [OF assms(1)]) (use event_clear [of k "ws_atom s"] in simp_all)
  then show ?thesis using ClearTask by (auto simp: clear_closed_task_def)
next
  case (Signal b)
  have "wait_rep k (s\<lparr>ws_atom := ws_atom s OR b, ws_signals := Suc (ws_signals s)\<rparr>) L"
    by (intro atom_ok [OF assms(1)]) auto
  then show ?thesis using Signal by (auto simp: fetch_or_def)
next
  case (PollStart n w)
  note p = poll_unlocked_ok [OF assms(1), of n]
  have "wait_rep k ((snd (poll_unlocked k s n))\<lparr>ws_polls := (ws_polls s)(n \<mapsto> w)\<rparr>) L"
    by (rule polls_ok [OF p(1)]) (use assms PollStart p(2) in \<open>auto simp: wait_rep_def nodes_used_def\<close>)
  then show ?thesis
    using PollStart p by (auto split: prod.splits option.splits)
next
  case (PollLock n)
  with assms(2) obtain w where w: "ws_polls s n = Some w" by auto
  let ?s = "s\<lparr>ws_polls := (ws_polls s)(n := None)\<rparr>"
  have "wait_rep k ?s L" by (rule polls_ok [OF assms(1)]) (use assms(1) in \<open>auto simp: wait_rep_def nodes_used_def\<close>)
  moreover have "ws_wakes ?s n = None" using assms(1) w by (auto simp: wait_rep_def nodes_used_def)
  ultimately obtain r s' L' where "poll_locked k ?s n w = Ok (r, s')" "wait_rep k s' L'" using poll_locked_ok by blast
  with PollLock w show ?thesis by auto
next
  case (DropWaiter n)
  with pinned_drop_ok [OF assms(1)] show ?thesis by simp
next
  case (WakeBegin g)
  with assms(2) have e: "ws_nodes s g = None" "ws_polls s g = None" "ws_lock s = None" by auto
  then obtain s' L' where b: "wake_begin s g = Ok s'" "wait_rep k s' L'" "L' None = []" using begin_ok [OF assms(1)] by metis
  then have "wake_begin (s\<lparr>ws_signals := ws_signals s - 1\<rparr>) g = Ok (s'\<lparr>ws_signals := ws_signals s - 1\<rparr>)"
    by (cases "into_guarded ((ws_nodes s)(g \<mapsto> pointers_new)) (ws_list s) g") (auto simp: wake_begin_def)
  with WakeBegin signals_ok [OF b(2,3)] show ?thesis by auto
next
  case (WakePop g)
  with assms(2) lock_of_call(2) [OF assms(1)] obtain c where "ws_wakes s g = Some c" "wc_at c = Popping" by auto
  with wake_pop_ok [OF assms(1)] WakePop show ?thesis by (simp add: on_call_def)
next
  case (WakeNotify g)
  with assms(2) lock_of_call(2) [OF assms(1)] obtain c b where "ws_wakes s g = Some c" "wc_at c = Notifying b" by fastforce
  with wake_leave_ok [OF assms(1), of g c b Relocking] WakeNotify show ?thesis by (simp add: on_call_def wake_notify_def)
next
  case (WakePanic g i)
  with assms(2) lock_of_call(2) [OF assms(1)] obtain c b where "ws_wakes s g = Some c" "wc_at c = Notifying b" by fastforce
  with wake_leave_ok [OF assms(1), of g c b Unwinding] WakePanic show ?thesis by (simp add: on_call_def wake_panic_def)
next
  case (WakeRelock g)
  with assms(2) lock_of_call(2) [OF assms(1)] obtain c where "ws_wakes s g = Some c" by auto
  with wake_lock_ok [OF assms(1)] assms(2) WakeRelock show ?thesis by (auto simp: on_call_def)
next
  case (WakeUnwind g)
  with assms(2) lock_of_call(2) [OF assms(1)] obtain c where "ws_wakes s g = Some c" by auto
  with wake_lock_ok [OF assms(1)] assms(2) WakeUnwind show ?thesis by (auto simp: on_call_def)
next
  case (WakeEmpty g)
  with assms(2) lock_of_call(2) [OF assms(1)] obtain c where "ws_wakes s g = Some c" "wc_at c = Emptying" by auto
  with wake_empty_ok [OF assms(1)] WakeEmpty show ?thesis by (auto simp: on_call_def)
qed

lemma reachable_rep: "reachable k s \<Longrightarrow> \<exists>L. wait_rep k s L"
proof (induction rule: reachable.induct)
  case init
  show ?case using wait_list_new_rep by blast
next
  case (step s a s')
  with exec_ok show ?case by fastforce
qed

section \<open>Properties\<close>

text \<open>C33: however polls, drops of waiting futures, changes of the flags and calls of \<open>wake_all\<close> interleave, also
  when wakers panic, every step a thread can take next succeeds: no assertion fails and no freed waiter or
  guard is touched. The list behind the mutex is well formed, and holds registered waiters that have not
  been notified.\<close>

theorem wait_list_safe:
  assumes "reachable k s" and "enabled k s a"
  shows "(\<exists>s'. exec k s a = Ok s' \<and> reachable k s') \<and>
    (\<exists>xs. list_rep (ws_nodes s) (ws_list s) xs \<and> (\<forall>n \<in> set xs. unnotified s n))"
proof -
  obtain L where L: "wait_rep k s L" using reachable_rep [OF assms(1)] by auto
  with exec_ok assms reachable.step have "\<exists>s'. exec k s a = Ok s' \<and> reachable k s'" by blast
  moreover have "\<forall>n \<in> set (L None). unnotified s n"
    using member_facts(1) [OF L] by (auto simp: wait_lists_def)
  ultimately show ?thesis using wait_rep_list [OF L] by blast
qed

text \<open>C34: once the value was sent (for \<open>RecvWaiter\<close>) or the receivers have closed (for \<open>ClosedWaiter\<close>), and
  every thread that set the flags has finished its call of \<open>wake_all\<close>, no waiter is left that was not
  notified: one that came late has seen the flag before it was registered. The sender closing
  without a value is not such an event: \<open>recv_poll_misses_close\<close>.\<close>

theorem no_waiter_left_behind:
  assumes "reachable k s" and "event_happened k (ws_atom s)" and "ws_signals s = 0" and "ws_wakes s = Map.empty"
    and "ws_waiters s n = Some wt"
  shows "wt_notified wt"
proof (rule ccontr)
  assume "\<not> wt_notified wt"
  obtain L where L: "wait_rep k s L" using reachable_rep [OF assms(1)] by auto
  have "L None = []" using L assms(2,3) by (auto simp: wait_rep_def signalled_def)
  moreover have "unnotified s n" using assms(5) \<open>\<not> wt_notified wt\<close> by (simp add: unnotified_def)
  then have "n \<in> set (L None)" using L assms(4) by (simp add: wait_rep_def members_def wait_lists_def)
  ultimately show False by simp
qed

definition run_actions :: "waiter_kind \<Rightarrow> wait_action list \<Rightarrow> wait_state \<Rightarrow> wait_state option" where
  "run_actions k as s = fold (\<lambda>a so. case so of None \<Rightarrow> None
     | Some s \<Rightarrow> if enabled k s a then (case exec k s a of Ok s' \<Rightarrow> Some s' | _ \<Rightarrow> None) else None) as (Some s)"

lemma run_actions_simps [simp]:
  "run_actions k [] s = Some s"
  "enabled k s a \<Longrightarrow> exec k s a = Ok s' \<Longrightarrow> run_actions k (a # as) s = run_actions k as s'"
  by (simp_all add: run_actions_def)

lemma fold_None: "fold (\<lambda>a so. case so of None \<Rightarrow> None | Some s \<Rightarrow> f a s) as None = None"
  by (induction as) simp_all

lemma run_reachable: "reachable k s \<Longrightarrow> run_actions k as s = Some s' \<Longrightarrow> reachable k s'"
proof (induction as arbitrary: s)
  case (Cons a as)
  obtain s1 where "enabled k s a" "exec k s a = Ok s1" "run_actions k as s1 = Some s'"
    using Cons.prems(2) by (auto simp: run_actions_def fold_None split: if_splits outcome.splits)
  with Cons show ?case by (blast intro: reachable.step)
qed simp

text \<open>A task that polls while nothing was sent, then again after the value was sent and \<open>wake_all\<close> ran.\<close>

definition sent_run :: "wait_action list" where
  "sent_run = [PollStart 7 5, PollLock 7, Signal STATE_SET, WakeBegin 1, WakePop 1, WakePop 1, WakeNotify 1]"

definition sent_end :: wait_state where
  "sent_end = \<lparr>ws_atom = STATE_SET, ws_nodes = [7 \<mapsto> pointers_new], ws_list = ll_new, ws_lock = None,
     ws_waiters = [7 \<mapsto> \<lparr>wt_waker = None, wt_notified = True\<rparr>], ws_polls = Map.empty, ws_wakes = Map.empty,
     ws_signals = 0, ws_woken = [5]\<rparr>"

lemmas list_eval = push_front_def ll_remove_def unlink_prev_def unlink_next_def into_guarded_def guarded_pop_back_def
  guarded_tail_def set_prev_def set_next_def pointers_of_def ensure_def unwrap_def pointers_new_def ll_new_def

lemmas flag_eval = flags_state_def is_set_def is_send_closed_def is_recv_closed_def STATE_SET_def STATE_SEND_CLOSED_def
  STATE_RECV_CLOSED_def atomic_new_def fetch_or_def

lemmas step_eval = poll_unlocked_def poll_locked_def wake_begin_def wake_pop_def wake_notify_def wake_end_def call_at_def
  call_in_def on_call_def waiter_of_def waiter_new_def drop_waiter_def wait_list_new_def NUM_WAKERS_def Let_def

lemma sent_run_end: "run_actions RecvKind sent_run wait_list_new = Some sent_end"
  by (simp add: run_actions_def sent_run_def sent_end_def list_eval flag_eval step_eval fun_upd_twist)

lemma sent_end_reachable: "reachable RecvKind sent_end"
  by (rule run_reachable [OF reachable.init sent_run_end])

theorem wait_list_safe_witness:
  "(\<exists>s'. exec RecvKind sent_end (PollStart 7 6) = Ok s' \<and> reachable RecvKind s') \<and>
    (\<exists>xs. list_rep (ws_nodes sent_end) (ws_list sent_end) xs \<and> (\<forall>n \<in> set xs. unnotified sent_end n))"
  by (rule wait_list_safe [OF sent_end_reachable]) (simp add: sent_end_def)

theorem no_waiter_left_behind_witness:
  "reachable RecvKind sent_end \<and> ws_waiters sent_end 7 = Some \<lparr>wt_waker = None, wt_notified = True\<rparr> \<and>
    wt_notified \<lparr>wt_waker = None, wt_notified = True\<rparr>"
  using sent_end_reachable
    no_waiter_left_behind [OF sent_end_reachable, of 7 "\<lparr>wt_waker = None, wt_notified = True\<rparr>"]
  by (simp add: sent_end_def flag_eval)

text \<open>A closed sender is not noticed by a task that polls for the first time. After the sender has closed and
  its \<open>wake_all\<close> has returned, the first poll of a \<open>RecvWaiter\<close> answers \<open>Empty\<close> and registers a waiter that
  nobody is left to wake.\<close>

lemma recv_poll_misses_close:
  "\<exists>s s'. reachable RecvKind s \<and> flags_state (ws_atom s) = Closed \<and> ws_signals s = 0 \<and> ws_wakes s = Map.empty \<and>
     ws_waiters s 7 = None \<and> recv_poll s 7 5 = Ok (PollRecv Empty, s') \<and> unnotified s' 7 \<and>
     ws_signals s' = 0 \<and> ws_wakes s' = Map.empty"
proof -
  let ?s = "wait_list_new\<lparr>ws_atom := STATE_SEND_CLOSED\<rparr>"
  have "run_actions RecvKind [Signal STATE_SEND_CLOSED, WakeBegin 1, WakePop 1, WakeNotify 1] wait_list_new = Some ?s"
    by (simp add: run_actions_def list_eval flag_eval step_eval fun_upd_twist)
  then have "reachable RecvKind ?s" by (rule run_reachable [OF reachable.init])
  moreover obtain s' where "recv_poll ?s 7 5 = Ok (PollRecv Empty, s')" "unnotified s' 7" "ws_signals s' = 0" "ws_wakes s' = Map.empty"
    by (simp add: recv_poll_def poll_def unnotified_def list_eval flag_eval step_eval)
  ultimately show ?thesis
    by (intro exI [of _ ?s] exI [of _ s']) (simp add: flag_eval wait_list_new_def)
qed

text \<open>The waker of a registered waiter is replaced only by one that wakes the same task. A future polled
  anew by a different task keeps the waker of the old one, which is the one that gets woken.\<close>

lemma poll_keeps_old_waker:
  assumes "ws_waiters s n = Some wt" and "\<not> wt_notified wt" and "wt_waker wt = Some v" and "v \<noteq> w"
    and "flags_state (ws_atom s) = Empty"
  shows "recv_poll s n w = Ok (PollRecv Empty, s)"
  using assms by (simp add: recv_poll_def poll_def poll_unlocked_def poll_locked_def)

lemma poll_keeps_old_waker_witness:
  "recv_poll (wait_list_new\<lparr>ws_waiters := [7 \<mapsto> waiter_new (Some 5)]\<rparr>) 7 6 =
     Ok (PollRecv Empty, wait_list_new\<lparr>ws_waiters := [7 \<mapsto> waiter_new (Some 5)]\<rparr>)"
  by (rule poll_keeps_old_waker [of _ _ "waiter_new (Some 5)" 5]) (simp_all add: wait_list_new_def waiter_new_def flag_eval)

end
