(* ===== verification/Shot_State.thy ===== *)
theory Shot_State
  imports Atomic_State
begin

text \<open>
  The resolution of a channel (\<^verbatim>\<open>recapn-channel/src/mpsc.rs\<close>: \<open>ResolutionState\<close>) and the task that waits for
  its senders to close (\<^verbatim>\<open>recapn-channel/src/util/closed_task.rs\<close>: \<open>ClosedTask\<close>). Both keep data in unguarded
  cells, a value and a waker, and the flags of \<open>AtomicState\<close> say who may touch them. A cell is \<open>None\<close> while
  it is uninitialised. Three threads and any number of readers interleave at the operations on the flags and
  the accesses to the cells. Reading or dropping an uninitialised cell is undefined behaviour, and so is
  writing a cell that another thread is about to read.
\<close>

section \<open>State\<close>

type_synonym waker = nat

text \<open>Where \<open>resolve\<close> stands: the value is stored; the loop of \<open>try_set_value\<close> holds the flags it saw; the
  value is to be dropped, since the receivers are closed; \<open>wake_all\<close> is to be called; it has returned. When
  the receiver has been dropped as well, it is gone.\<close>

datatype resolver = RIdle | RStored | RLoop u8 | RDrop | RWake | RDone | RGone

text \<open>Where \<open>ClosedTask::poll\<close> stands: about to clear the flag; to set it again; to drop the old waker; to write
  the new one; to set the flag.\<close>

datatype poller = PIdle | PClear waker | PReset | PDrop waker | PStore waker | PSet waker

datatype closer = CIdle | CWake | CDone

datatype poll_answer = Ready | Pending waker

record 'v shot =
  sh_atom :: u8
  sh_value :: "'v option"
  sh_task :: "waker option"
  sh_resolver :: resolver
  sh_poller :: poller
  sh_closer :: closer
  sh_readers :: nat
  sh_answer :: "poll_answer option"
  sh_woken :: "waker list"

definition shot_new :: "'v shot" where
  "shot_new = \<lparr>sh_atom = atomic_new, sh_value = None, sh_task = None, sh_resolver = RIdle, sh_poller = PIdle,
     sh_closer = CIdle, sh_readers = 0, sh_answer = None, sh_woken = []\<rparr>"

section \<open>Resolving\<close>

definition resolve_store :: "'v \<Rightarrow> 'v shot \<Rightarrow> (unit, 'v shot) outcome" where
  "resolve_store v s = (if sh_readers s \<noteq> 0 then UB else Ok (s\<lparr>sh_value := Some v, sh_resolver := RStored\<rparr>))"

definition resolve_load :: "'v shot \<Rightarrow> (unit, 'v shot) outcome" where
  "resolve_load s = Ok (s\<lparr>sh_resolver := RLoop (sh_atom s)\<rparr>)"

definition resolve_turn :: "bool \<Rightarrow> u8 \<Rightarrow> 'v shot \<Rightarrow> (unit, 'v shot) outcome" where
  "resolve_turn spurious seen s = (case try_set_turn spurious seen (sh_atom s) of
     (Inl prev, a) \<Rightarrow> Ok (s\<lparr>sh_atom := a, sh_resolver := (if is_recv_closed prev then RDrop else RWake)\<rparr>)
   | (Inr seen', a) \<Rightarrow> Ok (s\<lparr>sh_atom := a, sh_resolver := RLoop seen'\<rparr>))"

definition resolve_drop :: "'v shot \<Rightarrow> (unit, 'v shot) outcome" where
  "resolve_drop s = (if sh_value s = None \<or> sh_readers s \<noteq> 0 then UB
     else Ok (s\<lparr>sh_value := None, sh_resolver := RDone\<rparr>))"

text \<open>\<open>Receiver::drop\<close> and \<open>close_receiver\<close>; the call of \<open>wake_all\<close> is left out here.\<close>

definition drop_receiver :: "'v shot \<Rightarrow> (unit, 'v shot) outcome" where
  "drop_receiver s = Ok (s\<lparr>sh_resolver := RGone,
     sh_atom := (if is_set (sh_atom s) then sh_atom s else fst (set_send_closed (sh_atom s)))\<rparr>)"

text \<open>\<open>try_resolved\<close> and the read that follows it when the value was sent.\<close>

definition reader_load :: "'v shot \<Rightarrow> (unit, 'v shot) outcome" where
  "reader_load s = Ok (if flags_state (sh_atom s) = Sent then s\<lparr>sh_readers := Suc (sh_readers s)\<rparr> else s)"

definition get_ref_unchecked :: "'v shot \<Rightarrow> (unit, 'v) outcome" where
  "get_ref_unchecked s = (case sh_value s of Some v \<Rightarrow> Ok v | None \<Rightarrow> UB)"

definition reader_read :: "'v shot \<Rightarrow> (unit, 'v shot) outcome" where
  "reader_read s = obind (get_ref_unchecked s) (\<lambda>_. Ok (s\<lparr>sh_readers := sh_readers s - 1\<rparr>))"

section \<open>The closed task\<close>

definition poll_start :: "waker \<Rightarrow> 'v shot \<Rightarrow> (unit, 'v shot) outcome" where
  "poll_start w s =
     (if is_recv_closed (sh_atom s) then Ok (s\<lparr>sh_answer := Some Ready\<rparr>)
      else if is_closed_task_set (sh_atom s) then
        (case sh_task s of
           None \<Rightarrow> UB
         | Some closed_task \<Rightarrow>
             if closed_task \<noteq> w then Ok (s\<lparr>sh_poller := PClear w, sh_answer := None\<rparr>)
             else Ok (s\<lparr>sh_answer := Some (Pending w)\<rparr>))
      else Ok (s\<lparr>sh_poller := PStore w, sh_answer := None\<rparr>))"

definition poll_clear :: "waker \<Rightarrow> 'v shot \<Rightarrow> (unit, 'v shot) outcome" where
  "poll_clear w s = (case clear_closed_task (sh_atom s) of (a, state) \<Rightarrow>
     Ok (s\<lparr>sh_atom := a, sh_poller := (if is_recv_closed state then PReset else PDrop w)\<rparr>))"

definition poll_reset :: "'v shot \<Rightarrow> (unit, 'v shot) outcome" where
  "poll_reset s = Ok (s\<lparr>sh_atom := fst (set_closed_task (sh_atom s)), sh_poller := PIdle, sh_answer := Some Ready\<rparr>)"

definition poll_drop :: "waker \<Rightarrow> 'v shot \<Rightarrow> (unit, 'v shot) outcome" where
  "poll_drop w s = (if sh_task s = None \<or> sh_closer s = CWake then UB
     else Ok (s\<lparr>sh_task := None, sh_poller := PStore w\<rparr>))"

definition poll_store :: "waker \<Rightarrow> 'v shot \<Rightarrow> (unit, 'v shot) outcome" where
  "poll_store w s = (if sh_closer s = CWake then UB else Ok (s\<lparr>sh_task := Some w, sh_poller := PSet w\<rparr>))"

definition poll_set :: "waker \<Rightarrow> 'v shot \<Rightarrow> (unit, 'v shot) outcome" where
  "poll_set w s = (case set_closed_task (sh_atom s) of (a, state) \<Rightarrow>
     Ok (s\<lparr>sh_atom := a, sh_poller := PIdle,
       sh_answer := Some (if is_recv_closed state then Ready else Pending w)\<rparr>))"

definition close_start :: "'v shot \<Rightarrow> (unit, 'v shot) outcome" where
  "close_start s = (case set_recv_closed (sh_atom s) of (a, state) \<Rightarrow>
     Ok (s\<lparr>sh_atom := a,
       sh_closer := (if is_closed_task_set state \<and> \<not> (is_send_closed state \<or> is_set state) then CWake else CDone)\<rparr>))"

definition close_wake :: "'v shot \<Rightarrow> (unit, 'v shot) outcome" where
  "close_wake s = (case sh_task s of
     None \<Rightarrow> UB
   | Some w \<Rightarrow> Ok (s\<lparr>sh_woken := sh_woken s @ [w], sh_closer := CDone\<rparr>))"

text \<open>\<open>ResolutionState::drop\<close>: the cells that are dropped, and the cells that are left.\<close>

definition shot_drop :: "'v shot \<Rightarrow> (unit, 'v option \<times> waker option) outcome" where
  "shot_drop s =
     obind (if is_set (sh_atom s) then (if sh_value s = None then UB else Ok None) else Ok (sh_value s)) (\<lambda>v.
     obind (if is_closed_task_set (sh_atom s) then (if sh_task s = None then UB else Ok None) else Ok (sh_task s)) (\<lambda>t.
       Ok (v, t)))"

section \<open>Counting senders and receivers\<close>

text \<open>The counters are atomics: they wrap around. A count that reaches the maximum aborts, and the debug
  assertion panics. \<open>remove_sender\<close> is that of the channel, \<open>remove_receiver\<close> that of the request, whose
  receivers close with \<open>set_recv_closed\<close>; its \<open>old - 1\<close> panics for an old count of 0.\<close>

definition add_sender :: "u64 \<Rightarrow> (unit, u64) outcome" where
  "add_sender old = (if old = - 1 then Panic else if old = 0 then Panic else Ok (old + 1))"

definition remove_sender :: "u64 \<Rightarrow> 'v shot \<Rightarrow> (unit, u64 \<times> 'v shot) outcome" where
  "remove_sender old s =
     (let last_receiver = (old = 0) in
      if last_receiver then obind (close_start s) (\<lambda>s. Ok (old - 1, s)) else Ok (old - 1, s))"

definition remove_receiver :: "u64 \<Rightarrow> u8 \<Rightarrow> (unit, u64 \<times> u8) outcome" where
  "remove_receiver old atom =
     obind (unwrap (checked_sub old 1)) (\<lambda>n.
       let last_receiver = (n = 0) in
       Ok (old - 1, if last_receiver then fst (set_recv_closed atom) else atom))"

section \<open>The steps of the threads\<close>

inductive shot_step :: "'v shot \<Rightarrow> (unit, 'v shot) outcome \<Rightarrow> bool" where
  "sh_resolver s = RIdle \<Longrightarrow> shot_step s (resolve_store v s)"
| "sh_resolver s = RStored \<Longrightarrow> shot_step s (resolve_load s)"
| "sh_resolver s = RLoop seen \<Longrightarrow> shot_step s (resolve_turn spurious seen s)"
| "sh_resolver s = RDrop \<Longrightarrow> shot_step s (resolve_drop s)"
| "sh_resolver s = RWake \<Longrightarrow> shot_step s (Ok (s\<lparr>sh_resolver := RDone\<rparr>))"
| "sh_resolver s = RIdle \<or> sh_resolver s = RDone \<Longrightarrow> shot_step s (drop_receiver s)"
| "shot_step s (reader_load s)"
| "sh_readers s \<noteq> 0 \<Longrightarrow> shot_step s (reader_read s)"
| "sh_poller s = PIdle \<Longrightarrow> shot_step s (poll_start w s)"
| "sh_poller s = PClear w \<Longrightarrow> shot_step s (poll_clear w s)"
| "sh_poller s = PReset \<Longrightarrow> shot_step s (poll_reset s)"
| "sh_poller s = PDrop w \<Longrightarrow> shot_step s (poll_drop w s)"
| "sh_poller s = PStore w \<Longrightarrow> shot_step s (poll_store w s)"
| "sh_poller s = PSet w \<Longrightarrow> shot_step s (poll_set w s)"
| "sh_closer s = CIdle \<Longrightarrow> shot_step s (close_start s)"
| "sh_closer s = CWake \<Longrightarrow> shot_step s (close_wake s)"

inductive shot_reachable :: "'v shot \<Rightarrow> bool" where
  shot_init: "shot_reachable shot_new"
| shot_more: "shot_reachable s \<Longrightarrow> shot_step s (Ok s') \<Longrightarrow> shot_reachable s'"

section \<open>The invariant\<close>

text \<open>What the place of the resolver says of the value and of the flag \<open>SET\<close>, and the place of the poller of
  the waker and the flag \<open>CLOSED_TASK_SET\<close>.\<close>

fun value_at :: "resolver \<Rightarrow> bool \<Rightarrow> bool \<Rightarrow> bool" where
  "value_at RIdle full set_flag \<longleftrightarrow> \<not> full \<and> \<not> set_flag"
| "value_at RStored full set_flag \<longleftrightarrow> full \<and> \<not> set_flag"
| "value_at (RLoop _) full set_flag \<longleftrightarrow> full \<and> \<not> set_flag"
| "value_at RDrop full set_flag \<longleftrightarrow> full \<and> \<not> set_flag"
| "value_at RWake full set_flag \<longleftrightarrow> full \<and> set_flag"
| "value_at RDone full set_flag \<longleftrightarrow> full = set_flag"
| "value_at RGone full set_flag \<longleftrightarrow> full = set_flag"

fun task_at :: "poller \<Rightarrow> waker option \<Rightarrow> bool \<Rightarrow> bool \<Rightarrow> bool \<Rightarrow> bool" where
  "task_at PIdle t task_flag closed waking \<longleftrightarrow> (task_flag \<longrightarrow> t \<noteq> None)"
| "task_at (PClear _) t task_flag closed waking \<longleftrightarrow> task_flag \<and> t \<noteq> None"
| "task_at PReset t task_flag closed waking \<longleftrightarrow> \<not> task_flag \<and> t \<noteq> None \<and> closed"
| "task_at (PDrop _) t task_flag closed waking \<longleftrightarrow> \<not> task_flag \<and> t \<noteq> None \<and> \<not> waking"
| "task_at (PStore _) t task_flag closed waking \<longleftrightarrow> \<not> task_flag \<and> \<not> waking"
| "task_at (PSet w) t task_flag closed waking \<longleftrightarrow> \<not> task_flag \<and> t = Some w \<and> \<not> waking"

definition value_inv :: "'v shot \<Rightarrow> bool" where
  "value_inv s \<longleftrightarrow> (sh_readers s \<noteq> 0 \<longrightarrow> is_set (sh_atom s)) \<and>
     value_at (sh_resolver s) (sh_value s \<noteq> None) (is_set (sh_atom s))"

definition task_inv :: "'v shot \<Rightarrow> bool" where
  "task_inv s \<longleftrightarrow> (sh_closer s = CIdle \<longleftrightarrow> \<not> is_recv_closed (sh_atom s)) \<and>
     task_at (sh_poller s) (sh_task s) (is_closed_task_set (sh_atom s)) (is_recv_closed (sh_atom s)) (sh_closer s = CWake) \<and>
     (sh_closer s = CWake \<longrightarrow> sh_task s \<noteq> None)"

definition answer_inv :: "'v shot \<Rightarrow> bool" where
  "answer_inv s \<longleftrightarrow> (\<forall>w. sh_answer s = Some (Pending w) \<longrightarrow> sh_poller s = PIdle \<and>
     is_closed_task_set (sh_atom s) \<and> sh_task s = Some w \<and>
     (is_recv_closed (sh_atom s) \<longrightarrow> sh_closer s = CWake \<or> w \<in> set (sh_woken s) \<or>
       is_set (sh_atom s) \<or> is_send_closed (sh_atom s)))"

definition shot_inv :: "'v shot \<Rightarrow> bool" where
  "shot_inv s \<longleftrightarrow> value_inv s \<and> task_inv s \<and> answer_inv s"

lemmas shot_defs = resolve_store_def resolve_load_def resolve_turn_def resolve_drop_def drop_receiver_def reader_load_def
  get_ref_unchecked_def reader_read_def poll_start_def poll_clear_def poll_reset_def poll_drop_def poll_store_def poll_set_def
  close_start_def close_wake_def

lemma shot_new_inv: "shot_inv (shot_new :: 'v shot)"
proof -
  have "sh_atom (shot_new :: 'v shot) = atomic_new" "sh_resolver (shot_new :: 'v shot) = RIdle"
    "sh_poller (shot_new :: 'v shot) = PIdle" "sh_closer (shot_new :: 'v shot) = CIdle"
    "sh_readers (shot_new :: 'v shot) = 0" "sh_value (shot_new :: 'v shot) = None" "sh_answer (shot_new :: 'v shot) = None"
    by (simp_all add: shot_new_def)
  then show ?thesis by (simp add: shot_inv_def value_inv_def task_inv_def answer_inv_def flags_consts)
qed

lemma try_set_cases:
  assumes "try_set_turn spurious seen a = (r, a')"
  obtains "r = Inl seen" "is_recv_closed seen" "a' = a" | "r = Inl seen" "\<not> is_recv_closed seen" "a' = a OR STATE_SET"
  | "r = Inr a" "a' = a"
proof (cases "is_recv_closed seen")
  case True
  with assms that(1) show thesis by (simp add: try_set_turn_def)
next
  case False
  show thesis
  proof (cases "a = seen \<and> \<not> spurious")
    case True
    with assms False have "r = Inl seen" "a' = a OR STATE_SET" by (simp_all add: try_set_turn_def)
    with False that(2) show thesis by blast
  next
    case turn: False
    with assms False have "r = Inr a" "a' = a" by (auto simp: try_set_turn_def)
    with that(3) show thesis by blast
  qed
qed

text \<open>The steps of one thread leave the part of the invariant about the other cell as it was.\<close>

lemma value_inv_cong:
  assumes "value_inv s" "sh_value s' = sh_value s" "sh_resolver s' = sh_resolver s" "sh_readers s' = sh_readers s"
    "is_set (sh_atom s') = is_set (sh_atom s)"
  shows "value_inv s'"
  using assms by (simp add: value_inv_def)

lemma task_inv_cong:
  assumes "task_inv s" "sh_task s' = sh_task s" "sh_poller s' = sh_poller s" "sh_closer s' = sh_closer s"
    "is_recv_closed (sh_atom s') = is_recv_closed (sh_atom s)"
    "is_closed_task_set (sh_atom s') = is_closed_task_set (sh_atom s)"
  shows "task_inv s'"
  using assms by (simp add: task_inv_def)

lemma answer_inv_cong:
  assumes "answer_inv s" "sh_answer s' = sh_answer s" "sh_task s' = sh_task s" "sh_poller s' = sh_poller s"
    "sh_closer s' = sh_closer s" "sh_woken s' = sh_woken s" "is_recv_closed (sh_atom s') = is_recv_closed (sh_atom s)"
    "is_closed_task_set (sh_atom s') = is_closed_task_set (sh_atom s)"
    "is_set (sh_atom s) \<Longrightarrow> is_set (sh_atom s')" "is_send_closed (sh_atom s) \<Longrightarrow> is_send_closed (sh_atom s')"
  shows "answer_inv s'"
  using assms by (auto simp: answer_inv_def)

text \<open>A step on the value: the rest of the invariant follows from what it leaves alone.\<close>

lemma value_step:
  assumes "shot_inv s" "value_inv s'" "sh_task s' = sh_task s" "sh_poller s' = sh_poller s" "sh_closer s' = sh_closer s"
    "sh_answer s' = sh_answer s" "sh_woken s' = sh_woken s" "is_recv_closed (sh_atom s') = is_recv_closed (sh_atom s)"
    "is_closed_task_set (sh_atom s') = is_closed_task_set (sh_atom s)"
    "is_set (sh_atom s) \<Longrightarrow> is_set (sh_atom s')" "is_send_closed (sh_atom s) \<Longrightarrow> is_send_closed (sh_atom s')"
  shows "shot_inv s'"
  using assms task_inv_cong [of s s'] answer_inv_cong [of s s'] by (simp add: shot_inv_def)

lemma task_step:
  assumes "shot_inv s" "task_inv s'" "answer_inv s'" "sh_value s' = sh_value s" "sh_resolver s' = sh_resolver s"
    "sh_readers s' = sh_readers s" "is_set (sh_atom s') = is_set (sh_atom s)"
  shows "shot_inv s'"
  using assms value_inv_cong [of s s'] by (simp add: shot_inv_def)

lemma turn_ok:
  assumes "shot_inv s" "sh_resolver s = RLoop seen"
  shows "\<exists>s'. resolve_turn spurious seen s = Ok s' \<and> shot_inv s'"
proof -
  have v: "value_inv s" using assms(1) by (simp add: shot_inv_def)
  obtain r a where t: "try_set_turn spurious seen (sh_atom s) = (r, a)" by force
  then show ?thesis
  proof (cases rule: try_set_cases)
    case 1
    with assms(2) v have "shot_inv (s\<lparr>sh_atom := a, sh_resolver := RDrop\<rparr>)"
      by (intro value_step [OF assms(1)]) (auto simp: value_inv_def)
    with 1 t show ?thesis by (simp add: resolve_turn_def)
  next
    case 2
    with assms(2) v have "shot_inv (s\<lparr>sh_atom := a, sh_resolver := RWake\<rparr>)"
      by (intro value_step [OF assms(1)]) (auto simp: value_inv_def flag_simps)
    with 2 t show ?thesis by (simp add: resolve_turn_def)
  next
    case 3
    with assms(2) v have "shot_inv (s\<lparr>sh_atom := a, sh_resolver := RLoop a\<rparr>)"
      by (intro value_step [OF assms(1)]) (auto simp: value_inv_def)
    with 3 t show ?thesis by (simp add: resolve_turn_def)
  qed
qed

lemma resolver_ok:
  assumes "shot_inv s"
  shows "sh_resolver s = RIdle \<Longrightarrow> \<exists>s'. resolve_store v s = Ok s' \<and> shot_inv s'"
    and "sh_resolver s = RStored \<Longrightarrow> \<exists>s'. resolve_load s = Ok s' \<and> shot_inv s'"
    and "sh_resolver s = RDrop \<Longrightarrow> \<exists>s'. resolve_drop s = Ok s' \<and> shot_inv s'"
    and "sh_resolver s = RWake \<Longrightarrow> shot_inv (s\<lparr>sh_resolver := RDone\<rparr>)"
    and "sh_resolver s = RIdle \<or> sh_resolver s = RDone \<Longrightarrow> \<exists>s'. drop_receiver s = Ok s' \<and> shot_inv s'"
    and "\<exists>s'. reader_load s = Ok s' \<and> shot_inv s'"
    and "sh_readers s \<noteq> 0 \<Longrightarrow> \<exists>s'. reader_read s = Ok s' \<and> shot_inv s'"
proof -
  have v: "value_inv s" using assms by (simp add: shot_inv_def)
  show "sh_resolver s = RIdle \<Longrightarrow> \<exists>s'. resolve_store v s = Ok s' \<and> shot_inv s'"
    using v by (auto simp: resolve_store_def value_inv_def intro!: value_step [OF assms])
  show "sh_resolver s = RStored \<Longrightarrow> \<exists>s'. resolve_load s = Ok s' \<and> shot_inv s'"
    using v by (auto simp: resolve_load_def value_inv_def intro!: value_step [OF assms])
  show "sh_resolver s = RDrop \<Longrightarrow> \<exists>s'. resolve_drop s = Ok s' \<and> shot_inv s'"
    using v by (auto simp: resolve_drop_def value_inv_def intro!: value_step [OF assms])
  show "sh_resolver s = RWake \<Longrightarrow> shot_inv (s\<lparr>sh_resolver := RDone\<rparr>)"
    using v by (auto simp: value_inv_def intro!: value_step [OF assms])
  show "sh_resolver s = RIdle \<or> sh_resolver s = RDone \<Longrightarrow> \<exists>s'. drop_receiver s = Ok s' \<and> shot_inv s'"
    using v by (auto simp: drop_receiver_def value_inv_def atomic_ops flag_simps intro!: value_step [OF assms])
  show "\<exists>s'. reader_load s = Ok s' \<and> shot_inv s'"
    using v assms by (auto simp: reader_load_def value_inv_def flags_state_def intro!: value_step [OF assms] split: if_splits)
  show "sh_readers s \<noteq> 0 \<Longrightarrow> \<exists>s'. reader_read s = Ok s' \<and> shot_inv s'"
    using v by (cases "sh_resolver s")
      (auto simp: reader_read_def get_ref_unchecked_def value_inv_def intro!: value_step [OF assms])
qed

lemma poller_ok:
  assumes "shot_inv s"
  shows "sh_poller s = PIdle \<Longrightarrow> \<exists>s'. poll_start w s = Ok s' \<and> shot_inv s'"
    and "sh_poller s = PClear w \<Longrightarrow> \<exists>s'. poll_clear w s = Ok s' \<and> shot_inv s'"
    and "sh_poller s = PReset \<Longrightarrow> \<exists>s'. poll_reset s = Ok s' \<and> shot_inv s'"
    and "sh_poller s = PDrop w \<Longrightarrow> \<exists>s'. poll_drop w s = Ok s' \<and> shot_inv s'"
    and "sh_poller s = PStore w \<Longrightarrow> \<exists>s'. poll_store w s = Ok s' \<and> shot_inv s'"
    and "sh_poller s = PSet w \<Longrightarrow> \<exists>s'. poll_set w s = Ok s' \<and> shot_inv s'"
proof -
  have t: "task_inv s" "answer_inv s" using assms by (simp_all add: shot_inv_def)
  show "sh_poller s = PIdle \<Longrightarrow> \<exists>s'. poll_start w s = Ok s' \<and> shot_inv s'"
    using t assms
    by (auto simp: poll_start_def task_inv_def answer_inv_def intro!: task_step [OF assms])
  show "sh_poller s = PClear w \<Longrightarrow> \<exists>s'. poll_clear w s = Ok s' \<and> shot_inv s'"
    using t by (auto simp: poll_clear_def task_inv_def answer_inv_def atomic_ops flag_simps intro!: task_step [OF assms])
  show "sh_poller s = PReset \<Longrightarrow> \<exists>s'. poll_reset s = Ok s' \<and> shot_inv s'"
    using t by (auto simp: poll_reset_def task_inv_def answer_inv_def atomic_ops flag_simps intro!: task_step [OF assms])
  show "sh_poller s = PDrop w \<Longrightarrow> \<exists>s'. poll_drop w s = Ok s' \<and> shot_inv s'"
    using t by (auto simp: poll_drop_def task_inv_def answer_inv_def intro!: task_step [OF assms])
  show "sh_poller s = PStore w \<Longrightarrow> \<exists>s'. poll_store w s = Ok s' \<and> shot_inv s'"
    using t by (auto simp: poll_store_def task_inv_def answer_inv_def intro!: task_step [OF assms])
  show "sh_poller s = PSet w \<Longrightarrow> \<exists>s'. poll_set w s = Ok s' \<and> shot_inv s'"
    using t by (auto simp: poll_set_def task_inv_def answer_inv_def atomic_ops flag_simps intro!: task_step [OF assms])
qed

lemma task_full: "task_at p t True closed waking \<Longrightarrow> t \<noteq> None"
  by (cases p) auto

lemma task_closing:
  assumes "task_at p t flag closed False"
  shows "task_at p t flag True flag"
  using assms by (cases p) auto

lemma closer_ok:
  assumes "shot_inv s"
  shows "sh_closer s = CIdle \<Longrightarrow> \<exists>s'. close_start s = Ok s' \<and> shot_inv s'"
    and "sh_closer s = CWake \<Longrightarrow> \<exists>s'. close_wake s = Ok s' \<and> shot_inv s'"
proof -
  have t: "task_inv s" "answer_inv s" using assms by (simp_all add: shot_inv_def)
  show "sh_closer s = CIdle \<Longrightarrow> \<exists>s'. close_start s = Ok s' \<and> shot_inv s'"
    using t task_full
    by (cases "sh_poller s")
       (auto simp: close_start_def task_inv_def answer_inv_def atomic_ops flag_simps intro!: task_step [OF assms])
  show "sh_closer s = CWake \<Longrightarrow> \<exists>s'. close_wake s = Ok s' \<and> shot_inv s'"
    using t
    by (cases "sh_poller s")
       (auto simp: close_wake_def task_inv_def answer_inv_def intro!: task_step [OF assms])
qed

lemma shot_step_ok:
  assumes "shot_step s r" "shot_inv s"
  shows "\<exists>s'. r = Ok s' \<and> shot_inv s'"
  using assms by cases (auto intro: turn_ok resolver_ok poller_ok closer_ok)

lemma shot_reachable_inv: "shot_reachable s \<Longrightarrow> shot_inv s"
  by (induction rule: shot_reachable.induct) (auto simp: shot_new_inv dest: shot_step_ok)

section \<open>Properties\<close>

text \<open>C36: however the resolver, the readers, the task that polls for the end of the senders and the thread that
  closes them interleave, no step reads or drops an uninitialised cell or writes a cell that is about to be
  read.\<close>

theorem shot_cells_safe:
  assumes "shot_reachable s" and "shot_step s r"
  shows "\<exists>s'. r = Ok s' \<and> shot_reachable s'"
  using shot_step_ok [OF assms(2) shot_reachable_inv [OF assms(1)]] assms by (auto intro: shot_more)

text \<open>Once the resolver is through and no poll is running, dropping the state touches no uninitialised cell,
  and leaks no value: it drops the value exactly if it was sent, and the resolver has dropped it otherwise.\<close>

lemma shot_drop_clean:
  assumes "shot_reachable s" and "sh_resolver s = RDone \<or> sh_resolver s = RGone" and "sh_poller s = PIdle"
  shows "\<exists>t. shot_drop s = Ok (None, t)"
  using shot_reachable_inv [OF assms(1)] assms(2,3)
  by (auto simp: shot_drop_def shot_inv_def value_inv_def task_inv_def)

text \<open>C37: when the thread that closes the senders is through and the channel was neither resolved nor its receiver
  dropped, the task whose last poll answered \<open>Pending\<close> has been woken. (In those two cases \<open>close\<close> does
  not wake it.)\<close>

theorem closed_task_woken:
  assumes "shot_reachable s" and "sh_closer s = CDone" and "sh_answer s = Some (Pending w)"
    and "\<not> is_set (sh_atom s)" and "\<not> is_send_closed (sh_atom s)"
  shows "w \<in> set (sh_woken s)"
  using shot_reachable_inv [OF assms(1)] assms(2-) by (auto simp: shot_inv_def answer_inv_def task_inv_def)

definition closed_end :: "nat shot" where
  "closed_end = \<lparr>sh_atom = STATE_CLOSED_TASK_SET OR STATE_RECV_CLOSED, sh_value = None, sh_task = Some 5, sh_resolver = RIdle,
     sh_poller = PIdle, sh_closer = CDone, sh_readers = 0, sh_answer = Some (Pending 5), sh_woken = [5]\<rparr>"

lemma closed_end_reachable: "shot_reachable closed_end"
proof -
  let ?s = "shot_new :: nat shot"
  let ?s1 = "?s\<lparr>sh_poller := PStore 5\<rparr>"
  let ?s2 = "?s1\<lparr>sh_task := Some 5, sh_poller := PSet 5\<rparr>"
  let ?s3 = "?s2\<lparr>sh_atom := STATE_CLOSED_TASK_SET, sh_poller := PIdle, sh_answer := Some (Pending 5)\<rparr>"
  let ?s4 = "?s3\<lparr>sh_atom := STATE_CLOSED_TASK_SET OR STATE_RECV_CLOSED, sh_closer := CWake\<rparr>"
  have "poll_start 5 ?s = Ok ?s1" by (simp add: poll_start_def shot_new_def flags_consts)
  with shot_step.intros(9) [of ?s 5] have "shot_reachable ?s1" by (auto intro: shot_more shot_init simp: shot_new_def)
  moreover have "poll_store 5 ?s1 = Ok ?s2" by (simp add: poll_store_def shot_new_def)
  with shot_step.intros(13) [of ?s1 5] have "shot_step ?s1 (Ok ?s2)" by simp
  ultimately have "shot_reachable ?s2" by (rule shot_more)
  moreover have "poll_set 5 ?s2 = Ok ?s3" by (simp add: poll_set_def shot_new_def atomic_ops flag_simps) (simp add: atomic_new_def)
  with shot_step.intros(14) [of ?s2 5] have "shot_step ?s2 (Ok ?s3)" by simp
  ultimately have "shot_reachable ?s3" by (rule shot_more)
  moreover have "close_start ?s3 = Ok ?s4" by (simp add: close_start_def shot_new_def atomic_ops flag_simps)
  with shot_step.intros(15) [of ?s3] have "shot_step ?s3 (Ok ?s4)" by (simp add: shot_new_def)
  ultimately have "shot_reachable ?s4" by (rule shot_more)
  moreover have "close_wake ?s4 = Ok closed_end" by (simp add: close_wake_def shot_new_def closed_end_def)
  with shot_step.intros(16) [of ?s4] have "shot_step ?s4 (Ok closed_end)" by simp
  ultimately show ?thesis by (rule shot_more)
qed

theorem shot_cells_safe_witness:
  "\<exists>s'. resolve_store 3 closed_end = Ok s' \<and> shot_reachable s'"
  by (rule shot_cells_safe [OF closed_end_reachable]) (rule shot_step.intros(1), simp add: closed_end_def)

lemma shot_drop_clean_witness:
  "\<exists>t. shot_drop ((shot_new :: nat shot)\<lparr>sh_resolver := RGone, sh_atom := atomic_new OR STATE_SEND_CLOSED\<rparr>) = Ok (None, t)"
proof (rule shot_drop_clean)
  have "drop_receiver (shot_new :: nat shot) = Ok (shot_new\<lparr>sh_resolver := RGone, sh_atom := atomic_new OR STATE_SEND_CLOSED\<rparr>)"
    by (simp add: drop_receiver_def shot_new_def atomic_ops flags_consts)
  then show "shot_reachable ((shot_new :: nat shot)\<lparr>sh_resolver := RGone, sh_atom := atomic_new OR STATE_SEND_CLOSED\<rparr>)"
    using shot_step.intros(6) [of "shot_new :: nat shot"] by (auto intro!: shot_more [OF shot_init] simp: shot_new_def)
qed (simp_all add: shot_new_def)

theorem closed_task_woken_witness: "5 \<in> set (sh_woken closed_end)"
  by (rule closed_task_woken [OF closed_end_reachable]) (simp_all add: closed_end_def flag_simps)

text \<open>Dropping senders of a channel never closes it: the last of them, with a count of 1, only counts down to
  0. The receivers of a request close it exactly when the count goes from 1 to 0.\<close>

lemma last_sender_leaves_open:
  assumes "old \<noteq> 0"
  shows "remove_sender old s = Ok (old - 1, s) \<and>
    remove_receiver old a = Ok (old - 1, if old = 1 then a OR STATE_RECV_CLOSED else a)"
proof -
  have "checked_sub old 1 = Some (old - 1)" using assms by (simp add: checked_sub_Some word_le_nat_alt Suc_le_eq unat_gt_0)
  then show ?thesis using assms by (simp add: remove_sender_def remove_receiver_def unwrap_def atomic_ops)
qed

lemma last_sender_leaves_open_witness:
  "remove_sender 1 (shot_new :: nat shot) = Ok (1 - 1, shot_new) \<and>
    remove_receiver 1 0 = Ok (1 - 1, if (1 :: u64) = 1 then 0 OR STATE_RECV_CLOSED else 0)"
  by (rule last_sender_leaves_open) simp

end
