(* ===== verification/Chan_System.thy ===== *)
theory Chan_System
  imports Shot_State
begin

text \<open>
  Channels and requests in memory (\<^verbatim>\<open>recapn-channel/src/mpsc.rs\<close>, \<^verbatim>\<open>request.rs\<close>), and the walk from a
  channel along the channels it was forwarded to. Channels and requests live behind an \<open>Arc\<close>: a
  reference is an address, and memory that was freed is not mapped. The cells of \<open>MaybeUninit\<close> and
  \<open>ManuallyDrop\<close> are \<open>None\<close> when they hold no value. Lists of waiters (see \<^verbatim>\<open>Wait_List\<close>) are the number of
  times all of them were woken. The client's own data of a channel is left out.
\<close>

type_synonym chan_ref = u64
type_synonym req_ref = u64

section \<open>State\<close>

datatype request_usage = ResponseAndPipeline | Response | Pipeline

record ('p, 'r, 'l, 'k) request =
  rq_parent :: "chan_ref option"
  rq_params :: "'p option"
  rq_usage :: request_usage
  rq_atom :: u8
  rq_receivers :: u64
  rq_waiters :: nat
  rq_finished_waiters :: nat
  rq_response :: "'r option"
  rq_pipeline_map :: "('k \<times> chan_ref) list"
  rq_pipeline_dest :: "'l option option"

datatype 'v link_item = LRequest req_ref | LEvent 'v

datatype 'e channel_resolution = Forward chan_ref | ChanError 'e

text \<open>The fields of \<open>State\<close>, behind the mutex, and those of \<open>ResolutionState\<close>.\<close>

record ('v, 'e) channel =
  ch_parent_request :: "req_ref option"
  ch_requests :: "'v link_item list"
  ch_waker :: "waker option"
  ch_locked :: bool
  ch_atom :: u8
  ch_value :: "'e channel_resolution option"
  ch_senders :: u64
  ch_waiters :: nat

record ('v, 'e, 'p, 'r, 'l, 'k) system =
  chans :: "chan_ref \<Rightarrow> ('v, 'e) channel option"
  reqs :: "req_ref \<Rightarrow> ('p, 'r, 'l, 'k) request option"
  woken :: "waker list"

section \<open>Operations on one channel or request\<close>

type_synonym ('s, 'a) doing = "'s \<Rightarrow> (unit, 'a \<times> 's) outcome"

definition dret :: "'a \<Rightarrow> ('s, 'a) doing" where
  "dret x = (\<lambda>s. Ok (x, s))"

definition dbind :: "('s, 'a) doing \<Rightarrow> ('a \<Rightarrow> ('s, 'b) doing) \<Rightarrow> ('s, 'b) doing" where
  "dbind m f = (\<lambda>s. obind (m s) (\<lambda>(x, s'). f x s'))"

definition on_chan :: "chan_ref \<Rightarrow> (('v, 'e) channel, 'a) doing \<Rightarrow> (('v, 'e, 'p, 'r, 'l, 'k) system, 'a) doing" where
  "on_chan c m = (\<lambda>s. case chans s c of None \<Rightarrow> UB
     | Some ch \<Rightarrow> obind (m ch) (\<lambda>(x, ch'). Ok (x, s\<lparr>chans := (chans s)(c := Some ch')\<rparr>)))"

definition on_req :: "req_ref \<Rightarrow> (('p, 'r, 'l, 'k) request, 'a) doing \<Rightarrow> (('v, 'e, 'p, 'r, 'l, 'k) system, 'a) doing" where
  "on_req r m = (\<lambda>s. case reqs s r of None \<Rightarrow> UB
     | Some rq \<Rightarrow> obind (m rq) (\<lambda>(x, rq'). Ok (x, s\<lparr>reqs := (reqs s)(r := Some rq')\<rparr>)))"

lemma doing_simps [simp]:
  "dret x s = Ok (x, s)"
  "dbind (dret x) f = f x"
  "dbind m f s = obind (m s) (\<lambda>(x, s'). f x s')"
  by (simp_all add: dret_def dbind_def)

lemma on_chan_Some [simp]: "chans s c = Some ch \<Longrightarrow>
    on_chan c m s = obind (m ch) (\<lambda>(x, ch'). Ok (x, s\<lparr>chans := (chans s)(c := Some ch')\<rparr>))"
  by (simp add: on_chan_def)

lemma on_req_Some [simp]: "reqs s r = Some rq \<Longrightarrow>
    on_req r m s = obind (m rq) (\<lambda>(x, rq'). Ok (x, s\<lparr>reqs := (reqs s)(r := Some rq')\<rparr>))"
  by (simp add: on_req_def)

section \<open>Resolutions\<close>

datatype 'e resolution = Forwarded chan_ref | RDropped | RError 'e

datatype 'e most_resolution = MDropped | MError 'e

definition channel_ref_unchecked :: "('v, 'e) channel \<Rightarrow> (unit, 'e channel_resolution) outcome" where
  "channel_ref_unchecked ch = (case ch_value ch of Some v \<Rightarrow> Ok v | None \<Rightarrow> UB)"

definition try_resolved :: "('v, 'e, 'p, 'r, 'l, 'k) system \<Rightarrow> chan_ref \<Rightarrow> (unit, 'e resolution option) outcome" where
  "try_resolved s c = (case chans s c of None \<Rightarrow> UB
     | Some ch \<Rightarrow> (case flags_state (ch_atom ch) of
         Closed \<Rightarrow> Ok (Some RDropped)
       | Empty \<Rightarrow> Ok None
       | Sent \<Rightarrow> obind (channel_ref_unchecked ch) (\<lambda>res. Ok (Some (case res of
           Forward channel \<Rightarrow> Forwarded channel | ChanError err \<Rightarrow> RError err)))))"

text \<open>The walk may go around in circles: then it has no value.\<close>

partial_function (option) most_resolved :: "('v, 'e, 'p, 'r, 'l, 'k) system \<Rightarrow> chan_ref \<Rightarrow>
    (unit, chan_ref \<times> 'e most_resolution option) outcome option" where
  "most_resolved s c = (case try_resolved s c of
     Ok None \<Rightarrow> Some (Ok (c, None))
   | Ok (Some RDropped) \<Rightarrow> Some (Ok (c, Some MDropped))
   | Ok (Some (RError err)) \<Rightarrow> Some (Ok (c, Some (MError err)))
   | Ok (Some (Forwarded d)) \<Rightarrow> most_resolved s d
   | Panic \<Rightarrow> Some Panic
   | _ \<Rightarrow> Some UB)"

partial_function (option) most_unresolved :: "('v, 'e, 'p, 'r, 'l, 'k) system \<Rightarrow> chan_ref \<Rightarrow>
    (unit, chan_ref option) outcome option" where
  "most_unresolved s c = (case try_resolved s c of
     Ok None \<Rightarrow> Some (Ok (Some c))
   | Ok (Some (Forwarded d)) \<Rightarrow> most_unresolved s d
   | Ok (Some _) \<Rightarrow> Some (Ok None)
   | Panic \<Rightarrow> Some Panic
   | _ \<Rightarrow> Some UB)"

section \<open>Where a channel leads\<close>

definition forwards :: "('v, 'e, 'p, 'r, 'l, 'k) system \<Rightarrow> chan_ref \<Rightarrow> chan_ref \<Rightarrow> bool" where
  "forwards s c d \<longleftrightarrow> (\<exists>ch. chans s c = Some ch \<and> is_set (ch_atom ch) \<and> ch_value ch = Some (Forward d))"

definition leads_to :: "('v, 'e, 'p, 'r, 'l, 'k) system \<Rightarrow> chan_ref \<Rightarrow> chan_ref \<Rightarrow> bool" where
  "leads_to s c d \<longleftrightarrow> (forwards s)\<^sup>*\<^sup>* c d \<and> (\<forall>e. \<not> forwards s d e)"

text \<open>A value is sent exactly where the flag says so, no channel in use is freed, and no walk goes around in circles.\<close>

definition links_ok :: "('v, 'e, 'p, 'r, 'l, 'k) system \<Rightarrow> bool" where
  "links_ok s \<longleftrightarrow> (\<forall>c ch. chans s c = Some ch \<longrightarrow> (is_set (ch_atom ch) \<longleftrightarrow> ch_value ch \<noteq> None) \<and>
     (\<forall>d. ch_value ch = Some (Forward d) \<longrightarrow> chans s d \<noteq> None)) \<and> wf {(d, c). forwards s c d}"

text \<open>How a channel that is not forwarded is resolved.\<close>

definition resolved_as :: "('v, 'e) channel \<Rightarrow> 'e most_resolution option" where
  "resolved_as ch = (case flags_state (ch_atom ch) of Empty \<Rightarrow> None | Closed \<Rightarrow> Some MDropped
     | Sent \<Rightarrow> (case ch_value ch of Some (ChanError e) \<Rightarrow> Some (MError e) | _ \<Rightarrow> None))"

lemma forwards_unique: "forwards s c d \<Longrightarrow> forwards s c e \<Longrightarrow> d = e"
  by (auto simp: forwards_def)

lemma leads_to_unique: "leads_to s c d \<Longrightarrow> leads_to s c e \<Longrightarrow> d = e"
proof -
  assume "leads_to s c d" "leads_to s c e"
  then have "(forwards s)\<^sup>*\<^sup>* c d" "(forwards s)\<^sup>*\<^sup>* c e" and e: "\<And>x. \<not> forwards s d x" "\<And>x. \<not> forwards s e x"
    by (simp_all add: leads_to_def)
  then show ?thesis
  proof (induction rule: converse_rtranclp_induct)
    case base
    then show ?case by (metis converse_rtranclpE)
  next
    case (step c c')
    then show ?case by (metis converse_rtranclpE forwards_unique)
  qed
qed

lemma leads_to_step: "forwards s c d \<Longrightarrow> leads_to s c e \<longleftrightarrow> leads_to s d e"
proof
  assume f: "forwards s c d"
  { assume "leads_to s c e"
    then have "(forwards s)\<^sup>*\<^sup>* c e" "\<not> forwards s e x" for x by (auto simp: leads_to_def)
    with f show "leads_to s d e" by (metis converse_rtranclpE forwards_unique leads_to_def) }
  { assume "leads_to s d e"
    with f show "leads_to s c e" by (auto simp: leads_to_def intro: converse_rtranclp_into_rtranclp) }
qed

lemma leads_to_refl: "(\<And>e. \<not> forwards s c e) \<Longrightarrow> leads_to s c c"
  by (simp add: leads_to_def)

lemma try_resolved_hop:
  assumes "links_ok s" "chans s c = Some ch"
  obtains d where "forwards s c d" "try_resolved s c = Ok (Some (Forwarded d))" "chans s d \<noteq> None"
  | "\<And>d. \<not> forwards s c d" "try_resolved s c = Ok (map_option (\<lambda>m. case m of MDropped \<Rightarrow> RDropped | MError e \<Rightarrow> RError e) (resolved_as ch))"
proof (cases "flags_state (ch_atom ch) = Sent")
  case True
  then have set: "is_set (ch_atom ch)" by (auto simp: flags_state_def split: if_splits)
  then obtain v where v: "ch_value ch = Some v" using assms by (auto simp: links_ok_def)
  have t: "try_resolved s c = Ok (Some (case v of Forward channel \<Rightarrow> Forwarded channel | ChanError err \<Rightarrow> RError err))"
    using True by (simp add: try_resolved_def assms(2) v channel_ref_unchecked_def)
  show thesis
  proof (cases v)
    case (Forward d)
    then have "chans s d \<noteq> None" using assms v unfolding links_ok_def by blast
    with Forward t show thesis using that(1) [of d] set v assms(2) by (simp add: forwards_def)
  next
    case (ChanError e)
    with t True v assms(2) show thesis by (intro that(2)) (auto simp: forwards_def resolved_as_def)
  qed
next
  case False
  then have "\<not> forwards s c d" for d using assms(2) by (auto simp: forwards_def flags_state_def)
  with False show thesis
    by (intro that(2)) (auto simp: try_resolved_def assms(2) resolved_as_def split: shot_state.splits)
qed

lemma walk_induct [consumes 2, case_names stop hop]:
  assumes "links_ok s" "chans s c \<noteq> None"
    and stop: "\<And>c ch. chans s c = Some ch \<Longrightarrow> (\<And>d. \<not> forwards s c d) \<Longrightarrow> P c"
    and hop: "\<And>c d. forwards s c d \<Longrightarrow> chans s d \<noteq> None \<Longrightarrow> P d \<Longrightarrow> P c"
  shows "P c"
proof -
  have "wf {(d, c). forwards s c d}" using assms(1) by (simp add: links_ok_def)
  from this assms(2) show ?thesis
  proof (induction c rule: wf_induct_rule)
    case (less c)
    then obtain ch where ch: "chans s c = Some ch" by auto
    from assms(1) ch show ?case
    proof (cases rule: try_resolved_hop)
      case (1 d)
      then show ?thesis using less.IH [of d] by (auto intro: hop)
    next
      case 2
      then show ?thesis using ch by (auto intro: stop)
    qed
  qed
qed

lemma leads_somewhere:
  assumes "links_ok s" "chans s c \<noteq> None"
  obtains d ch where "leads_to s c d" "chans s d = Some ch"
proof -
  from assms have "\<exists>d ch. leads_to s c d \<and> chans s d = Some ch"
  proof (induction rule: walk_induct)
    case (stop c ch)
    then show ?case using leads_to_refl [of s c] by blast
  next
    case (hop c d)
    then show ?case by (simp add: leads_to_step)
  qed
  then show thesis using that by blast
qed

text \<open>The walk ends where the channel leads, and says how that channel is resolved.\<close>

lemma most_resolved_walk:
  assumes "links_ok s" "leads_to s c d" "chans s c \<noteq> None"
  shows "\<exists>ch. chans s d = Some ch \<and> most_resolved s c = Some (Ok (d, resolved_as ch)) \<and>
    most_unresolved s c = Some (Ok (if resolved_as ch = None then Some d else None))"
  using assms(1,3,2)
proof (induction rule: walk_induct)
  case (stop c ch)
  then have d: "d = c" using leads_to_unique leads_to_refl [of s c] by blast
  from assms(1) stop(1) show ?case
  proof (cases rule: try_resolved_hop)
    case (1 e)
    then show ?thesis using stop(2) by simp
  next
    case 2
    then show ?thesis
      by (subst most_resolved.simps, subst most_unresolved.simps)
        (auto simp: d stop(1) split: option.splits most_resolution.splits)
  qed
next
  case (hop c e)
  then obtain ch where "chans s c = Some ch" by (auto simp: forwards_def)
  from assms(1) this have "try_resolved s c = Ok (Some (Forwarded e))"
    using hop(1) forwards_unique by (cases rule: try_resolved_hop) auto
  then show ?case
    using hop by (subst most_resolved.simps, subst most_unresolved.simps) (simp add: leads_to_step)
qed

end
