(* ===== verification/Request_State.thy ===== *)
theory Request_State
  imports Chan_System
begin

text \<open>
  Requests (\<^verbatim>\<open>recapn-channel/src/request.rs\<close>). One allocation holds the parameters, the response and the
  clients queued on its results. Its owner is a \<open>Request\<close>, then the \<open>Responder\<close> made from it, and there are any
  number of receivers, counted. What a client does with a resolved pipeline is a parameter.
\<close>

section \<open>The shared state\<close>

definition shared_request_new :: "'p \<Rightarrow> request_usage \<Rightarrow> u64 \<Rightarrow> ('p, 'r, 'l, 'k) request" where
  "shared_request_new request usage receivers = \<lparr>rq_parent = None, rq_params = Some request, rq_usage = usage,
     rq_atom = atomic_new, rq_receivers = receivers, rq_waiters = 0, rq_finished_waiters = 0, rq_response = None,
     rq_pipeline_map = [], rq_pipeline_dest = None\<rparr>"

text \<open>\<open>drop_request\<close> is \<open>take_request\<close> without the value.\<close>

definition take_request :: "(('p, 'r, 'l, 'k) request, 'p) doing" where
  "take_request rq = (case rq_params rq of Some p \<Rightarrow> Ok (p, rq\<lparr>rq_params := None\<rparr>) | None \<Rightarrow> UB)"

definition drop_request :: "(('p, 'r, 'l, 'k) request, unit) doing" where
  "drop_request = dbind take_request (\<lambda>_. dret ())"

definition close_sender :: "(('p, 'r, 'l, 'k) request, unit) doing" where
  "close_sender rq = Ok ((), rq\<lparr>rq_atom := fst (set_send_closed (rq_atom rq)), rq_waiters := Suc (rq_waiters rq)\<rparr>)"

definition is_finished :: "('p, 'r, 'l, 'k) request \<Rightarrow> bool" where
  "is_finished rq = is_recv_closed (rq_atom rq)"

definition response :: "('p, 'r, 'l, 'k) request \<Rightarrow> (unit, 'r) outcome" where
  "response rq = (case rq_response rq of Some v \<Rightarrow> Ok v | None \<Rightarrow> UB)"

definition set_parent :: "chan_ref \<Rightarrow> (('p, 'r, 'l, 'k) request, unit) doing" where
  "set_parent parent rq = obind (assert_that (rq_parent rq = None)) (\<lambda>_. Ok ((), rq\<lparr>rq_parent := Some parent\<rparr>))"

definition take_parent :: "(('p, 'r, 'l, 'k) request, chan_ref option) doing" where
  "take_parent rq = Ok (rq_parent rq, rq\<lparr>rq_parent := None\<rparr>)"

definition add_receiver :: "(('p, 'r, 'l, 'k) request, unit) doing" where
  "add_receiver rq = (let old = rq_receivers rq in
     if old = - 1 then Panic else if old = 0 then Panic else Ok ((), rq\<lparr>rq_receivers := old + 1\<rparr>))"

text \<open>\<open>remove_receiver\<close>: counting down, and whether the last receiver left; then the request is to be taken out of
  the channel it waits in, which is not written yet: \<open>todo!()\<close>. \<open>found\<close> is what \<open>most_unresolved\<close> answers for the parent.\<close>

definition leave_receiver :: "(('p, 'r, 'l, 'k) request, bool) doing" where
  "leave_receiver rq = obind (remove_receiver (rq_receivers rq) (rq_atom rq)) (\<lambda>(n, atom).
     let last_receiver = (n = 0) in
     Ok (last_receiver, rq\<lparr>rq_receivers := n, rq_atom := atom,
       rq_finished_waiters := rq_finished_waiters rq + (if last_receiver then 1 else 0)\<rparr>))"

definition try_remove_from_channel :: "chan_ref option \<Rightarrow> (('p, 'r, 'l, 'k) request, unit) doing" where
  "try_remove_from_channel found rq = (case rq_parent rq of
     None \<Rightarrow> Ok ((), rq)
   | Some parent \<Rightarrow> (case found of None \<Rightarrow> Ok ((), rq) | Some _ \<Rightarrow> Panic))"

definition request_remove_receiver :: "chan_ref option \<Rightarrow> (('p, 'r, 'l, 'k) request, unit) doing" where
  "request_remove_receiver found = dbind leave_receiver (\<lambda>last_receiver.
     if last_receiver then try_remove_from_channel found else dret ())"

definition mark_pipeline :: "(('p, 'r, 'l, 'k) request, unit) doing" where
  "mark_pipeline rq = Ok ((), rq\<lparr>rq_atom := fst (set_pipeline (rq_atom rq))\<rparr>)"

text \<open>What \<open>SharedRequest::drop\<close> drops; it returns the cells that are left.\<close>

definition shared_request_drop :: "('p, 'r, 'l, 'k) request \<Rightarrow> (unit, 'p option \<times> 'r option \<times> 'l option option) outcome" where
  "shared_request_drop rq =
     obind (if is_set (rq_atom rq) then (if rq_response rq = None then UB else Ok None) else Ok (rq_response rq)) (\<lambda>r.
     obind (if is_pipeline_set (rq_atom rq) then (if rq_pipeline_dest rq = None then UB else Ok None) else Ok (rq_pipeline_dest rq)) (\<lambda>l.
       Ok (rq_params rq, r, l)))"

section \<open>Responding\<close>

text \<open>\<open>Request::respond\<close>; \<open>Responder::respond\<close> up to the resolution of the pipeline map; \<open>ResultsSender::respond\<close>;
  \<open>Responder::tail_call\<close>; what \<open>Responder::set_pipeline\<close> does before it resolves the map.\<close>

definition write_response :: "'r \<Rightarrow> (('p, 'r, 'l, 'k) request, unit) doing" where
  "write_response resp rq = Ok ((), rq\<lparr>rq_response := Some resp, rq_atom := fst (set_value (rq_atom rq)), rq_waiters := Suc (rq_waiters rq)\<rparr>)"

definition respond_write :: "'r \<Rightarrow> (('p, 'r, 'l, 'k) request, 'r) doing" where
  "respond_write resp = dbind (write_response resp) (\<lambda>_ rq.
     let rq' = rq\<lparr>rq_pipeline_dest := Some None\<rparr> in obind (response rq') (\<lambda>r. Ok (r, rq')))"

definition tail_call :: "'p \<Rightarrow> (('p, 'r, 'l, 'k) request, unit) doing" where
  "tail_call msg rq = Ok ((), rq\<lparr>rq_params := Some msg\<rparr>)"

definition set_pipeline_write :: "'l \<Rightarrow> (('p, 'r, 'l, 'k) request, 'r) doing" where
  "set_pipeline_write dst rq = (let rq' = rq\<lparr>rq_pipeline_dest := Some (Some dst)\<rparr> in obind (response rq') (\<lambda>r. Ok (r, rq')))"

text \<open>\<open>Drop\<close> of a \<open>Request\<close>; a \<open>Responder\<close> or \<open>ResultsSender\<close> that is dropped only closes.\<close>

definition request_drop :: "(('p, 'r, 'l, 'k) request, unit) doing" where
  "request_drop = dbind drop_request (\<lambda>_. close_sender)"

section \<open>Receiving\<close>

datatype try_recv_error = RecvEmpty | RecvClosed

definition try_ref :: "('p, 'r, 'l, 'k) request \<Rightarrow> (unit, 'r + try_recv_error) outcome" where
  "try_ref rq = (case flags_state (rq_atom rq) of
     Closed \<Rightarrow> Ok (Inr RecvClosed)
   | Empty \<Rightarrow> Ok (Inr RecvEmpty)
   | Sent \<Rightarrow> obind (response rq) (\<lambda>r. Ok (Inl r)))"

text \<open>Where \<open>PipelineBuilder::build\<close> finds a client once the pipeline is set: the pipeline, or else the response.\<close>

definition set_pipeline_source :: "('p, 'r, 'l, 'k) request \<Rightarrow> (unit, 'l + 'r) outcome" where
  "set_pipeline_source rq = (case rq_pipeline_dest rq of
     None \<Rightarrow> UB
   | Some (Some p) \<Rightarrow> Ok (Inl p)
   | Some None \<Rightarrow> obind (response rq) (\<lambda>r. Ok (Inr r)))"

section \<open>The life of a request\<close>

text \<open>Who owns the request: a \<open>Request\<close>; a \<open>Responder\<close>; \<open>Responder::respond\<close> or \<open>set_pipeline\<close> while it resolves the
  pipeline map; a \<open>ResultsSender\<close>; nobody any more.\<close>

datatype owner = ORequest | OResponder | OResolving | OSetting | OResults | OGone

text \<open>What the owner does, then what the channels that hold the request and its receivers do. The answer of
  \<open>most_unresolved\<close> comes with the removal of a receiver, and the clients in the map when they change.\<close>

datatype ('p, 'r, 'l, 'k) request_action =
    TakeRequest | DropRequest | Respond 'r | TailCall 'p | SetPipeline 'l | SendResults 'r | DropSender
  | TakeMap | MarkPipeline
  | SetParent chan_ref | TakeParent | AddReceiver | RemoveReceiver "chan_ref option" | QueueClients "('k \<times> chan_ref) list"

inductive request_step :: "('p, 'r, 'l, 'k) request_action \<Rightarrow> owner \<Rightarrow> ('p, 'r, 'l, 'k) request \<Rightarrow>
    (unit, owner \<times> ('p, 'r, 'l, 'k) request) outcome \<Rightarrow> bool" where
  take_request: "request_step TakeRequest ORequest rq (obind (take_request rq) (\<lambda>(_, rq'). Ok (OResponder, rq')))"
| drop_request: "request_step DropRequest ORequest rq (obind (request_drop rq) (\<lambda>(_, rq'). Ok (OGone, rq')))"
| respond: "request_step (Respond v) OResponder rq (obind (respond_write v rq) (\<lambda>(_, rq'). Ok (OResolving, rq')))"
| tail_call: "request_step (TailCall msg) OResponder rq (obind (tail_call msg rq) (\<lambda>(_, rq'). Ok (ORequest, rq')))"
| set_pipeline: "request_step (SetPipeline dst) OResponder rq (obind (set_pipeline_write dst rq) (\<lambda>(_, rq'). Ok (OSetting, rq')))"
| send_results: "request_step (SendResults v) OResults rq (obind (write_response v rq) (\<lambda>(_, rq'). Ok (OGone, rq')))"
| drop_sender: "ow = OResponder \<or> ow = OResults \<Longrightarrow>
    request_step DropSender ow rq (obind (close_sender rq) (\<lambda>(_, rq'). Ok (OGone, rq')))"
| take_map: "ow = OResolving \<or> ow = OSetting \<Longrightarrow> request_step TakeMap ow rq (Ok (ow, rq\<lparr>rq_pipeline_map := []\<rparr>))"
| mark_pipeline: "ow = OResolving \<or> ow = OSetting \<Longrightarrow> rq_pipeline_map rq = [] \<Longrightarrow>
    request_step MarkPipeline ow rq (obind (mark_pipeline rq) (\<lambda>(_, rq'). Ok (if ow = OSetting then OResults else OGone, rq')))"
| set_parent: "request_step (SetParent c) ow rq (obind (set_parent c rq) (\<lambda>(_, rq'). Ok (ow, rq')))"
| take_parent: "request_step TakeParent ow rq (obind (take_parent rq) (\<lambda>(_, rq'). Ok (ow, rq')))"
| add_receiver: "rq_receivers rq \<noteq> 0 \<Longrightarrow> rq_receivers rq \<noteq> - 1 \<Longrightarrow>
    request_step AddReceiver ow rq (obind (add_receiver rq) (\<lambda>(_, rq'). Ok (ow, rq')))"
| remove_receiver: "rq_receivers rq \<noteq> 0 \<Longrightarrow>
    request_step (RemoveReceiver found) ow rq (obind (request_remove_receiver found rq) (\<lambda>(_, rq'). Ok (ow, rq')))"
| queue_clients: "\<not> is_pipeline_set (rq_atom rq) \<Longrightarrow> request_step (QueueClients m) ow rq (Ok (ow, rq\<lparr>rq_pipeline_map := m\<rparr>))"

inductive request_reachable :: "owner \<Rightarrow> ('p, 'r, 'l, 'k) request \<Rightarrow> bool" where
  new_request: "request_reachable ORequest (shared_request_new msg usage n)"
| more_request: "request_reachable ow rq \<Longrightarrow> request_step a ow rq (Ok (ow', rq')) \<Longrightarrow> request_reachable ow' rq'"

definition request_inv :: "owner \<Rightarrow> ('p, 'r, 'l, 'k) request \<Rightarrow> bool" where
  "request_inv ow rq \<longleftrightarrow> (rq_params rq \<noteq> None \<longleftrightarrow> ow = ORequest) \<and>
     (rq_response rq \<noteq> None \<longleftrightarrow> is_set (rq_atom rq)) \<and>
     (rq_pipeline_dest rq \<noteq> None \<longleftrightarrow> is_set (rq_atom rq)) \<and>
     (is_pipeline_set (rq_atom rq) \<longrightarrow> is_set (rq_atom rq)) \<and>
     (ow = ORequest \<or> ow = OResponder \<longrightarrow> \<not> is_set (rq_atom rq)) \<and>
     (ow = OResolving \<longrightarrow> is_set (rq_atom rq)) \<and> ow \<noteq> OSetting \<and> ow \<noteq> OResults \<and>
     (ow = OGone \<longrightarrow> (is_pipeline_set (rq_atom rq) \<longleftrightarrow> is_set (rq_atom rq)))"

text \<open>The two ways in which the code panics: the last receiver leaves a request that waits in a channel that is not
  resolved, or the request is sent with its parent still in place, as \<open>try_recv\<close> leaves it.\<close>

fun panics_on :: "('p, 'r, 'l, 'k) request_action \<Rightarrow> ('p, 'r, 'l, 'k) request \<Rightarrow> bool" where
  "panics_on (RemoveReceiver found) rq \<longleftrightarrow> rq_receivers rq = 1 \<and> rq_parent rq \<noteq> None \<and> found \<noteq> None"
| "panics_on (SetParent c) rq \<longleftrightarrow> rq_parent rq \<noteq> None"
| "panics_on _ rq \<longleftrightarrow> False"

fun sets_pipeline :: "('p, 'r, 'l, 'k) request_action \<Rightarrow> bool" where
  "sets_pipeline (SetPipeline dst) \<longleftrightarrow> True"
| "sets_pipeline _ \<longleftrightarrow> False"

lemmas request_defs = take_request_def drop_request_def close_sender_def set_parent_def take_parent_def add_receiver_def
  leave_receiver_def mark_pipeline_def write_response_def respond_write_def tail_call_def request_drop_def response_def remove_receiver_def
  request_remove_receiver_def try_remove_from_channel_def set_pipeline_write_def

lemma pipeline_bit [flag_simps]:
  "is_pipeline_set STATE_SET_PIPELINE" "\<not> is_pipeline_set STATE_SET" "\<not> is_pipeline_set STATE_SEND_CLOSED"
  "\<not> is_pipeline_set STATE_RECV_CLOSED" "\<not> is_pipeline_set atomic_new"
  by (simp_all add: flag_bits const_bits atomic_new_def)

text \<open>What a step comes to.\<close>

definition step_outcome :: "('p, 'r, 'l, 'k) request_action \<Rightarrow> ('p, 'r, 'l, 'k) request \<Rightarrow>
    (owner \<Rightarrow> ('p, 'r, 'l, 'k) request \<Rightarrow> bool) \<Rightarrow> (unit, owner \<times> ('p, 'r, 'l, 'k) request) outcome \<Rightarrow> bool" where
  "step_outcome a rq P x \<longleftrightarrow> (if sets_pipeline a then x = UB
     else if panics_on a rq then x = Panic else (\<exists>ow' rq'. x = Ok (ow', rq') \<and> P ow' rq'))"

text \<open>The request when a receiver has left.\<close>

definition receiver_left :: "('p, 'r, 'l, 'k) request \<Rightarrow> ('p, 'r, 'l, 'k) request" where
  "receiver_left rq = (let last = (rq_receivers rq = 1) in rq\<lparr>rq_receivers := rq_receivers rq - 1,
     rq_atom := (if last then rq_atom rq OR STATE_RECV_CLOSED else rq_atom rq),
     rq_finished_waiters := rq_finished_waiters rq + (if last then 1 else 0)\<rparr>)"

lemma leave_receiver_left:
  assumes "rq_receivers rq \<noteq> 0"
  shows "leave_receiver rq = Ok (rq_receivers rq = 1, receiver_left rq)"
proof -
  have "checked_sub (rq_receivers rq) 1 = Some (rq_receivers rq - 1)"
    using assms by (simp add: checked_sub_Some word_le_nat_alt Suc_le_eq unat_gt_0)
  then show ?thesis by (simp add: leave_receiver_def remove_receiver_def receiver_left_def unwrap_def Let_def atomic_ops)
qed

lemma remove_receiver_left:
  assumes "rq_receivers rq \<noteq> 0"
  shows "request_remove_receiver found rq =
    (if panics_on (RemoveReceiver found) rq then Panic else Ok ((), receiver_left rq))"
  using leave_receiver_left [OF assms]
  by (auto simp: request_remove_receiver_def try_remove_from_channel_def receiver_left_def Let_def split: option.splits)

lemma request_inv_left: "request_inv ow rq \<Longrightarrow> request_inv ow (receiver_left rq)"
  by (simp add: request_inv_def receiver_left_def Let_def flag_simps)

lemma remove_receiver_outcome:
  assumes "rq_receivers rq \<noteq> 0" "request_inv ow rq"
  shows "step_outcome (RemoveReceiver found) rq request_inv (obind (request_remove_receiver found rq) (\<lambda>(_, rq'). Ok (ow, rq')))"
  using request_inv_left [OF assms(2)] by (auto simp: step_outcome_def remove_receiver_left [OF assms(1)])

lemma request_step_ok:
  assumes "request_step a ow rq x" "request_inv ow rq"
  shows "step_outcome a rq request_inv x"
  using assms
proof (cases rule: request_step.cases)
  case (add_receiver)
  then show ?thesis using assms(2) by (auto simp: step_outcome_def request_inv_def add_receiver_def Let_def)
next
  case (remove_receiver found)
  then show ?thesis using remove_receiver_outcome assms(2) by auto
qed (use assms(2) in \<open>auto simp: step_outcome_def request_inv_def request_defs assert_that_def atomic_ops flag_simps Let_def
  split: option.splits if_splits\<close>)

lemma request_reachable_inv: "request_reachable ow rq \<Longrightarrow> request_inv ow rq"
proof (induction rule: request_reachable.induct)
  case new_request
  show ?case by (simp add: request_inv_def shared_request_new_def flag_simps)
next
  case (more_request ow rq a ow' rq')
  with request_step_ok [OF more_request(2,3)] show ?case by (auto simp: step_outcome_def split: if_splits)
qed

text \<open>C26: whatever the owner of a request, the channels it waits in and its receivers do, in any order, a step does not
  panic or touch a cell that holds no value, save for three actions of which the outcome is stated: setting the
  pipeline separately is undefined behaviour, and a panic are the end of the last receiver of a request that waits in a
  channel that is not resolved, and sending a request that has a parent. A receiver that is told of a response can read
  it, and a pipeline client finds its source once the pipeline is marked as set. When the owner is gone, dropping the
  shared state drops what was written, once, and leaks nothing.\<close>

theorem request_typestate:
  assumes "request_reachable ow rq"
  shows "(\<forall>a x. request_step a ow rq x \<longrightarrow> (if sets_pipeline a then x = UB else if panics_on a rq then x = Panic
      else (\<exists>ow' rq'. x = Ok (ow', rq') \<and> request_reachable ow' rq'))) \<and>
    safe (try_ref rq) \<and> (is_pipeline_set (rq_atom rq) \<longrightarrow> safe (set_pipeline_source rq)) \<and>
    (ow = OGone \<longrightarrow> shared_request_drop rq = Ok (None, None, None))"
proof (intro conjI allI impI)
  note inv = request_reachable_inv [OF assms]
  show "if sets_pipeline a then x = UB else if panics_on a rq then x = Panic
      else (\<exists>ow' rq'. x = Ok (ow', rq') \<and> request_reachable ow' rq')" if "request_step a ow rq x" for a x
    using request_step_ok [OF that inv] that assms by (auto simp: step_outcome_def intro: more_request split: if_splits)
  show "safe (try_ref rq)"
    using inv by (auto simp: request_inv_def try_ref_def flags_state_def response_def)
  show "safe (set_pipeline_source rq)" if "is_pipeline_set (rq_atom rq)"
    using inv that by (auto simp: request_inv_def set_pipeline_source_def response_def split: option.split)
  show "shared_request_drop rq = Ok (None, None, None)" if "ow = OGone"
    using inv that by (auto simp: request_inv_def shared_request_drop_def)
qed

text \<open>C40: \<open>set_pipeline\<close> has undefined behaviour on every request: it takes a reference to the response, which its
  owner has yet to write, where the pipeline it was given is meant.\<close>

theorem set_pipeline_undefined:
  assumes "request_reachable OResponder rq"
  shows "set_pipeline_write dst rq = UB"
proof -
  have "rq_response rq = None" using request_reachable_inv [OF assms] by (auto simp: request_inv_def)
  then show ?thesis by (simp add: set_pipeline_write_def Let_def response_def)
qed

lemma responder_reachable:
  "request_reachable OResponder ((shared_request_new msg usage n)\<lparr>rq_params := None\<rparr>)"
proof (rule more_request [OF new_request])
  show "request_step TakeRequest ORequest (shared_request_new msg usage n) (Ok (OResponder, (shared_request_new msg usage n)\<lparr>rq_params := None\<rparr>))"
    using request_step.take_request [of "shared_request_new msg usage n"] by (simp add: take_request_def shared_request_new_def)
qed

theorem set_pipeline_undefined_witness:
  "set_pipeline_write (9 :: nat) ((shared_request_new (5 :: nat) ResponseAndPipeline 2)\<lparr>rq_params := None\<rparr>) = UB"
  by (rule set_pipeline_undefined [OF responder_reachable])

definition answered_request :: "(nat, nat, nat, nat) request" where
  "answered_request = \<lparr>rq_parent = None, rq_params = None, rq_usage = Response, rq_atom = STATE_SET OR STATE_SET_PIPELINE,
     rq_receivers = 1, rq_waiters = 1, rq_finished_waiters = 0, rq_response = Some 7, rq_pipeline_map = [], rq_pipeline_dest = Some None\<rparr>"

lemma answered_reachable: "request_reachable OGone answered_request"
proof -
  let ?q = "(shared_request_new (5 :: nat) Response 1 :: (nat, nat, nat, nat) request)\<lparr>rq_params := None\<rparr>"
  have new: "\<And>u n. (shared_request_new (5 :: nat) u n :: (nat, nat, nat, nat) request)\<lparr>rq_params := None\<rparr> = \<lparr>rq_parent = None,
     rq_params = None, rq_usage = u, rq_atom = 0, rq_receivers = n, rq_waiters = 0, rq_finished_waiters = 0, rq_response = None,
     rq_pipeline_map = [], rq_pipeline_dest = None\<rparr>" by (simp add: shared_request_new_def atomic_new_def)
  let ?r = "?q\<lparr>rq_response := Some 7, rq_atom := STATE_SET, rq_waiters := 1, rq_pipeline_dest := Some None\<rparr>"
  have "request_reachable OResolving ?r"
    by (rule more_request [OF responder_reachable [where msg = 5 and usage = Response and n = 1]])
       (use request_step.respond [of 7 ?q] in \<open>simp add: new respond_write_def write_response_def response_def Let_def atomic_ops\<close>)
  from more_request [OF this] request_step.mark_pipeline [of OResolving ?r]
  show ?thesis by (simp add: new mark_pipeline_def atomic_ops answered_request_def)
qed

theorem request_typestate_witness:
  "try_ref answered_request = Ok (Inl 7) \<and> shared_request_drop answered_request = Ok (None, None, None)"
proof
  show "try_ref answered_request = Ok (Inl 7)"
    by (simp add: try_ref_def flags_state_def answered_request_def flag_simps response_def)
  show "shared_request_drop answered_request = Ok (None, None, None)"
    using request_typestate [OF answered_reachable] by simp
qed

end
