(* ===== verification/Channel_Queue.thy ===== *)
theory Channel_Queue
  imports Request_State
begin

text \<open>
  The queues of channels (\<^verbatim>\<open>recapn-channel/src/mpsc.rs\<close>: \<open>Sender\<close>, \<open>Receiver\<close>, \<open>SharedChannel\<close>). Sending and
  forwarding are threads that give way to others wherever the code loads the flags of a channel or takes a
  lock; a step has no value while it waits for a lock. What other threads can tell apart of a resolution is one
  step (\<^verbatim>\<open>Shot_State\<close> has the rest). A queue, an intrusive list (\<^verbatim>\<open>Linked_List\<close>), is a list here.
\<close>

section \<open>Channels\<close>

definition shared_channel :: "req_ref option \<Rightarrow> u8 \<Rightarrow> 'e channel_resolution option \<Rightarrow> ('v, 'e) channel" where
  "shared_channel parent state value = \<lparr>ch_parent_request = parent, ch_requests = [], ch_waker = None, ch_locked = False,
     ch_atom = state, ch_value = value, ch_senders = 1, ch_waiters = 0\<rparr>"

definition new_channel :: "('v, 'e) channel" where
  "new_channel = shared_channel None atomic_new None"

definition broken :: "'e \<Rightarrow> ('v, 'e) channel" where
  "broken err = shared_channel None atomic_new_set (Some (ChanError err))"

definition weak_channel :: "req_ref \<Rightarrow> ('v, 'e) channel" where
  "weak_channel parent = shared_channel (Some parent) atomic_new None"

definition clone_sender :: "(('v, 'e) channel, unit) doing" where
  "clone_sender ch = obind (add_sender (ch_senders ch)) (\<lambda>n. Ok ((), ch\<lparr>ch_senders := n\<rparr>))"

text \<open>The drop of a \<open>Sender\<close> counts down; what closing does to the task that waits for it is in \<^verbatim>\<open>Shot_State\<close>.\<close>

definition sender_drop :: "(('v, 'e) channel, unit) doing" where
  "sender_drop ch = (let last_receiver = (ch_senders ch = 0) in
     Ok ((), ch\<lparr>ch_senders := ch_senders ch - 1,
       ch_atom := (if last_receiver then fst (set_recv_closed (ch_atom ch)) else ch_atom ch)\<rparr>))"

text \<open>\<open>resolve\<close> answers the value it is to drop, if the receivers are closed; \<open>resolve_channel\<close> drops it: a sender
  that was to be forwarded to, or an error.\<close>

definition resolve :: "'e channel_resolution \<Rightarrow> (('v, 'e) channel, 'e channel_resolution option) doing" where
  "resolve value ch =
     (if is_recv_closed (ch_atom ch) then Ok (Some value, ch\<lparr>ch_value := None\<rparr>)
      else Ok (None, ch\<lparr>ch_value := Some value, ch_atom := ch_atom ch OR STATE_SET, ch_waiters := Suc (ch_waiters ch)\<rparr>))"

definition close_receiver :: "(('v, 'e) channel, unit) doing" where
  "close_receiver ch = Ok ((), ch\<lparr>ch_atom := fst (set_send_closed (ch_atom ch)), ch_waiters := Suc (ch_waiters ch)\<rparr>)"

definition resolve_channel :: "chan_ref \<Rightarrow> 'e channel_resolution \<Rightarrow> (('v, 'e, 'p, 'r, 'l, 'k) system, unit) doing" where
  "resolve_channel c value = dbind (on_chan c (resolve value)) (\<lambda>dropped. case dropped of
     Some (Forward d) \<Rightarrow> on_chan d sender_drop
   | Some (ChanError e) \<Rightarrow> dret ()
   | None \<Rightarrow> dret ())"

definition receiver_drop :: "(('v, 'e) channel, unit) doing" where
  "receiver_drop ch = (if is_set (ch_atom ch) then Ok ((), ch) else close_receiver ch)"

section \<open>The queue behind the lock\<close>

definition lock :: "chan_ref \<Rightarrow> ('v, 'e, 'p, 'r, 'l, 'k) system \<Rightarrow> (unit, ('v, 'e, 'p, 'r, 'l, 'k) system) outcome option" where
  "lock c s = (case chans s c of None \<Rightarrow> Some UB
     | Some ch \<Rightarrow> if ch_locked ch then None else Some (Ok (s\<lparr>chans := (chans s)(c := Some (ch\<lparr>ch_locked := True\<rparr>))\<rparr>)))"

definition unlock :: "(('v, 'e) channel, unit) doing" where
  "unlock ch = Ok ((), ch\<lparr>ch_locked := False\<rparr>)"

definition push_request :: "'v link_item \<Rightarrow> (('v, 'e) channel, unit) doing" where
  "push_request item ch = Ok ((), ch\<lparr>ch_requests := ch_requests ch @ [item]\<rparr>)"

definition pop_last_request :: "(('v, 'e) channel, 'v link_item) doing" where
  "pop_last_request ch = (if ch_requests ch = [] then Panic else Ok (last (ch_requests ch), ch\<lparr>ch_requests := butlast (ch_requests ch)\<rparr>))"

definition pop_request :: "(('v, 'e) channel, 'v link_item option) doing" where
  "pop_request ch = (case ch_requests ch of [] \<Rightarrow> Ok (None, ch) | item # rest \<Rightarrow> Ok (Some item, ch\<lparr>ch_requests := rest\<rparr>))"

definition take_requests :: "(('v, 'e) channel, 'v link_item list) doing" where
  "take_requests ch = Ok (ch_requests ch, ch\<lparr>ch_requests := []\<rparr>)"

definition append_requests :: "'v link_item list \<Rightarrow> (('v, 'e) channel, unit) doing" where
  "append_requests items ch = Ok ((), ch\<lparr>ch_requests := ch_requests ch @ items\<rparr>)"

definition take_waker :: "(('v, 'e) channel, waker option) doing" where
  "take_waker ch = Ok (ch_waker ch, ch\<lparr>ch_waker := None\<rparr>)"

definition wake :: "waker \<Rightarrow> (('v, 'e, 'p, 'r, 'l, 'k) system, unit) doing" where
  "wake w s = Ok ((), s\<lparr>woken := woken s @ [w]\<rparr>)"

section \<open>Sending\<close>

text \<open>What \<open>send\<close> and \<open>send_event\<close> do to the queue of the channel that is locked, for the channel \<open>this\<close> that was found:
  the waker to wake afterwards.\<close>

definition send_locked :: "chan_ref \<Rightarrow> chan_ref \<Rightarrow> 'v link_item \<Rightarrow> (('v, 'e, 'p, 'r, 'l, 'k) system, waker option) doing" where
  "send_locked locked this item = dbind (on_chan locked (push_request item)) (\<lambda>_. case item of
     LEvent _ \<Rightarrow> on_chan locked take_waker
   | LRequest r \<Rightarrow>
       dbind (on_req r (set_parent this)) (\<lambda>_.
       dbind (on_req r (\<lambda>rq. Ok (is_finished rq, rq))) (\<lambda>finished.
         if finished then
           dbind (on_chan locked pop_last_request) (\<lambda>_.
           dbind (on_req r request_drop) (\<lambda>_.
           dbind (on_req r take_parent) (\<lambda>_. dret None)))
         else on_chan locked take_waker)))"

text \<open>Where a sender stands: walking to the most resolved channel; about to lock it; walking on, with the
  lock held; about to push; about to wake; through.\<close>

datatype 'e send_pc =
    SResolve chan_ref | SLock chan_ref | SRecheck chan_ref chan_ref | SPush chan_ref chan_ref
  | SWake waker | SSent | SFailed "'e most_resolution"

text \<open>One turn of the loop of \<open>most_resolved\<close>: on to the next channel, or out of the loop.\<close>

definition walk :: "('v, 'e, 'p, 'r, 'l, 'k) system \<Rightarrow> chan_ref \<Rightarrow> (chan_ref \<Rightarrow> (unit, 'x) outcome) \<Rightarrow>
    (unit, 'x) outcome \<Rightarrow> ('e most_resolution \<Rightarrow> (unit, 'x) outcome) \<Rightarrow> (unit, 'x) outcome" where
  "walk s c on unresolved resolved = obind (try_resolved s c) (\<lambda>res. case res of
     None \<Rightarrow> unresolved
   | Some (Forwarded d) \<Rightarrow> on d
   | Some RDropped \<Rightarrow> resolved MDropped
   | Some (RError e) \<Rightarrow> resolved (MError e))"

text \<open>\<open>resolve_and_lock\<close>, and what \<open>send\<close> and \<open>send_event\<close> do with it.\<close>

definition send_step :: "'v link_item \<Rightarrow> 'e send_pc \<Rightarrow> ('v, 'e, 'p, 'r, 'l, 'k) system \<Rightarrow>
    (unit, 'e send_pc \<times> ('v, 'e, 'p, 'r, 'l, 'k) system) outcome option" where
  "send_step item pc s = (case pc of
     SResolve c \<Rightarrow> Some (walk s c (\<lambda>d. Ok (SResolve d, s)) (Ok (SLock c, s)) (\<lambda>m. Ok (SFailed m, s)))
   | SLock c \<Rightarrow> map_option (\<lambda>r. obind r (\<lambda>s'. Ok (SRecheck c c, s'))) (lock c s)
   | SRecheck l c \<Rightarrow> Some (walk s c (\<lambda>d. Ok (SRecheck l d, s)) (Ok (SPush l c, s))
       (\<lambda>m. obind (on_chan l unlock s) (\<lambda>(_, s'). Ok (SFailed m, s'))))
   | SPush l c \<Rightarrow> Some (dbind (send_locked l c item) (\<lambda>waker. dbind (on_chan l unlock) (\<lambda>_. dret (case waker of
         Some w \<Rightarrow> SWake w | None \<Rightarrow> SSent))) s)
   | SWake w \<Rightarrow> Some (dbind (wake w) (\<lambda>_. dret SSent) s)
   | SSent \<Rightarrow> Some (Ok (SSent, s))
   | SFailed m \<Rightarrow> Some (Ok (SFailed m, s)))"

section \<open>Forwarding\<close>

text \<open>Where \<open>forward_to\<close> stands: walking; about to take the first lock, then the second; walking on, with both locks
  held; about to resolve; about to move the queue; about to wake; about to drop the receiver; through, the
  receiver given back, or to be closed with an error.\<close>

datatype 'e forward_pc =
    FResolve chan_ref | FLock chan_ref | FLock2 chan_ref | FRecheck chan_ref chan_ref | FMove chan_ref chan_ref
  | FAppend chan_ref | FWake waker | FDrop | FDone | FReturned | FClose 'e

definition forward_end :: "'e most_resolution \<Rightarrow> 'e forward_pc" where
  "forward_end m = (case m of MDropped \<Rightarrow> FDrop | MError e \<Rightarrow> FClose e)"

text \<open>\<open>this\<close> is the channel of the receiver, \<open>other\<close> that of the sender it is forwarded to.\<close>

definition forward_step :: "chan_ref \<Rightarrow> chan_ref \<Rightarrow> 'e forward_pc \<Rightarrow> ('v, 'e, 'p, 'r, 'l, 'k) system \<Rightarrow>
    (unit, 'e forward_pc \<times> ('v, 'e, 'p, 'r, 'l, 'k) system) outcome option" where
  "forward_step this other pc s = (case pc of
     FResolve c \<Rightarrow> Some (walk s c (\<lambda>d. Ok (FResolve d, s)) (Ok (FLock c, s)) (\<lambda>m. Ok (forward_end m, s)))
   | FLock other_shared \<Rightarrow>
       if this = other_shared then Some (Ok (FReturned, s))
       else map_option (\<lambda>r. obind r (\<lambda>s'. Ok (FLock2 other_shared, s'))) (lock (min this other_shared) s)
   | FLock2 other_shared \<Rightarrow>
       map_option (\<lambda>r. obind r (\<lambda>s'. Ok (FRecheck other_shared other, s'))) (lock (max this other_shared) s)
   | FRecheck other_shared c \<Rightarrow> Some (walk s c (\<lambda>d. Ok (FRecheck other_shared d, s)) (Ok (FMove other_shared c, s))
       (\<lambda>m. dbind (on_chan other_shared unlock) (\<lambda>_. dbind (on_chan this unlock) (\<lambda>_. dret (forward_end m))) s))
   | FMove other_shared c \<Rightarrow> Some (dbind (on_chan c clone_sender) (\<lambda>_. dbind (resolve_channel this (Forward c))
       (\<lambda>_. dret (FAppend other_shared))) s)
   | FAppend other_shared \<Rightarrow> Some (dbind (on_chan this take_requests) (\<lambda>items.
       dbind (if items = [] then dret None
              else dbind (on_chan other_shared (append_requests items)) (\<lambda>_. on_chan other_shared take_waker)) (\<lambda>waker.
       dbind (on_chan other_shared unlock) (\<lambda>_. dbind (on_chan this unlock) (\<lambda>_. dret (case waker of
         Some w \<Rightarrow> FWake w | None \<Rightarrow> FDrop))))) s)
   | FWake w \<Rightarrow> Some (dbind (wake w) (\<lambda>_. dret FDrop) s)
   | FDrop \<Rightarrow> Some (dbind (on_chan this receiver_drop) (\<lambda>_. dret FDone) s)
   | FDone \<Rightarrow> Some (Ok (FDone, s))
   | FReturned \<Rightarrow> Some (Ok (FReturned, s))
   | FClose e \<Rightarrow> Some (Ok (FClose e, s)))"

section \<open>Receiving\<close>

datatype 'v recv_poll = RecvReady "'v link_item option" | RecvPending

definition poll_recv :: "waker \<Rightarrow> chan_ref \<Rightarrow> (('v, 'e, 'p, 'r, 'l, 'k) system, 'v recv_poll) doing" where
  "poll_recv cx c = dbind (on_chan c (\<lambda>ch. Ok (is_recv_closed (ch_atom ch), ch))) (\<lambda>closed.
     if closed then dret (RecvReady None)
     else dbind (on_chan c pop_request) (\<lambda>next. case next of
       Some (LRequest r) \<Rightarrow> dbind (on_req r take_parent) (\<lambda>_. dret (RecvReady (Some (LRequest r))))
     | Some (LEvent v) \<Rightarrow> dret (RecvReady (Some (LEvent v)))
     | None \<Rightarrow> on_chan c (\<lambda>ch.
         let waker = (case ch_waker ch of Some w \<Rightarrow> if w = cx then Some w else None | None \<Rightarrow> None) in
         Ok (RecvPending, ch\<lparr>ch_waker := (if waker = None then Some cx else waker)\<rparr>))))"

definition try_recv :: "chan_ref \<Rightarrow> (('v, 'e, 'p, 'r, 'l, 'k) system, 'v link_item option) doing" where
  "try_recv c = on_chan c pop_request"

section \<open>A thread on its own\<close>

fun solo :: "('pc \<Rightarrow> 's \<Rightarrow> (unit, 'pc \<times> 's) outcome option) \<Rightarrow> nat \<Rightarrow> 'pc \<Rightarrow> 's \<Rightarrow> (unit, 'pc \<times> 's) outcome option" where
  "solo step 0 pc s = Some (Ok (pc, s))"
| "solo step (Suc n) pc s = (case step pc s of Some (Ok (pc', s')) \<Rightarrow> solo step n pc' s' | x \<Rightarrow> x)"

definition runs_to :: "('pc \<Rightarrow> 's \<Rightarrow> (unit, 'pc \<times> 's) outcome option) \<Rightarrow> 'pc \<Rightarrow> 's \<Rightarrow> 'pc \<Rightarrow> 's \<Rightarrow> bool" where
  "runs_to step pc s pc' s' \<longleftrightarrow> (\<exists>n. solo step n pc s = Some (Ok (pc', s')))"

lemma runs_to_refl [simp, intro]: "runs_to step pc s pc s"
  unfolding runs_to_def by (rule exI [of _ 0]) simp

lemma runs_to_step: "step pc s = Some (Ok (pc1, s1)) \<Longrightarrow> runs_to step pc1 s1 pc' s' \<Longrightarrow> runs_to step pc s pc' s'"
proof -
  assume "step pc s = Some (Ok (pc1, s1))" "runs_to step pc1 s1 pc' s'"
  then obtain n where "solo step (Suc n) pc s = Some (Ok (pc', s'))" by (auto simp: runs_to_def)
  then show ?thesis unfolding runs_to_def by blast
qed

lemma solo_append: "solo step n pc s = Some (Ok (pc1, s1)) \<Longrightarrow> solo step (n + k) pc s = solo step k pc1 s1"
  by (induction n arbitrary: pc s) (auto split: option.splits outcome.splits prod.splits)

lemma runs_to_trans: "runs_to step pc s pc1 s1 \<Longrightarrow> runs_to step pc1 s1 pc' s' \<Longrightarrow> runs_to step pc s pc' s'"
  unfolding runs_to_def using solo_append by metis

lemma runs_to_then: "runs_to step pc s pc1 s1 \<Longrightarrow> step pc1 s1 = Some (Ok (pc', s')) \<Longrightarrow> runs_to step pc s pc' s'"
  by (blast intro: runs_to_trans runs_to_step)

text \<open>A thread that is through stays there, so where it comes to is unique.\<close>

lemma solo_stays: "step pc s = Some (Ok (pc, s)) \<Longrightarrow> solo step n pc s = Some (Ok (pc, s))"
  by (induction n) simp_all

lemma runs_to_unique:
  assumes "runs_to step pc s pc1 s1" "step pc1 s1 = Some (Ok (pc1, s1))" "runs_to step pc s pc2 s2" "step pc2 s2 = Some (Ok (pc2, s2))"
  shows "pc1 = pc2 \<and> s1 = s2"
proof -
  obtain n m where n: "solo step n pc s = Some (Ok (pc1, s1))" and m: "solo step m pc s = Some (Ok (pc2, s2))"
    using assms(1,3) by (auto simp: runs_to_def)
  have "solo step (n + m) pc s = Some (Ok (pc1, s1))" using solo_append [OF n, of m] solo_stays [of step pc1 s1, OF assms(2)] by simp
  moreover have "solo step (m + n) pc s = Some (Ok (pc2, s2))" using solo_append [OF m, of n] solo_stays [of step pc2 s2, OF assms(4)] by simp
  ultimately show ?thesis by (simp add: add.commute)
qed

section \<open>What leaves the links as they are\<close>

definition link_of :: "('v, 'e, 'p, 'r, 'l, 'k) system \<Rightarrow> chan_ref \<Rightarrow> (bool \<times> bool \<times> 'e channel_resolution option) option" where
  "link_of s c = map_option (\<lambda>ch. (is_set (ch_atom ch), is_recv_closed (ch_atom ch), ch_value ch)) (chans s c)"

definition same_links :: "('v, 'e, 'p, 'r, 'l, 'k) system \<Rightarrow> ('v, 'e, 'p, 'r, 'l, 'k) system \<Rightarrow> bool" where
  "same_links s s' \<longleftrightarrow> link_of s = link_of s'"

lemma same_linksI:
  assumes "\<And>c. map_option (\<lambda>ch. (is_set (ch_atom ch), is_recv_closed (ch_atom ch), ch_value ch)) (chans s c) =
    map_option (\<lambda>ch. (is_set (ch_atom ch), is_recv_closed (ch_atom ch), ch_value ch)) (chans s' c)"
  shows "same_links s s'"
  using assms by (auto simp: same_links_def link_of_def)

lemma forwards_link: "forwards s c d \<longleftrightarrow> (\<exists>b. link_of s c = Some (True, b, Some (Forward d)))"
  by (auto simp: forwards_def link_of_def)

lemma same_links_forwards: "same_links s s' \<Longrightarrow> forwards s' = forwards s"
  by (intro ext) (simp add: forwards_link same_links_def)

lemma same_links_leads: "same_links s s' \<Longrightarrow> leads_to s' = leads_to s"
  by (intro ext) (simp add: leads_to_def same_links_forwards)

lemma links_ok_link: "links_ok s \<longleftrightarrow> (\<forall>c a b v. link_of s c = Some (a, b, v) \<longrightarrow> (a \<longleftrightarrow> v \<noteq> None) \<and>
    (\<forall>d. v = Some (Forward d) \<longrightarrow> link_of s d \<noteq> None)) \<and> wf {(d, c). forwards s c d}"
  unfolding links_ok_def link_of_def by (auto split: option.splits) blast+

lemma same_links_ok: "same_links s s' \<Longrightarrow> links_ok s' = links_ok s"
  unfolding links_ok_link by (simp add: same_links_forwards) (simp add: same_links_def)

section \<open>Walking\<close>

lemma walk_runs:
  assumes "links_ok s" "chans s c \<noteq> None" "leads_to s c d"
    and "\<And>c. step (P c) s = Some (walk s c (\<lambda>d. Ok (P d, s)) (U c) R)"
  obtains ch where "chans s d = Some ch" "runs_to step (P c) s (P d) s"
    "step (P d) s = Some (case resolved_as ch of None \<Rightarrow> U d | Some m \<Rightarrow> R m)"
proof -
  from assms(1-3) have "\<exists>ch. chans s d = Some ch \<and> runs_to step (P c) s (P d) s \<and>
    step (P d) s = Some (case resolved_as ch of None \<Rightarrow> U d | Some m \<Rightarrow> R m)"
  proof (induction rule: walk_induct)
    case (stop c ch)
    have d: "d = c" using leads_to_unique [OF stop(3) leads_to_refl [OF stop(2)]] .
    from assms(1) stop(1) show ?case
    proof (cases rule: try_resolved_hop)
      case (1 e)
      then show ?thesis using stop(2) by simp
    next
      case 2
      then show ?thesis by (auto simp: d stop(1) assms(4) walk_def split: option.split most_resolution.split)
    qed
  next
    case (hop c e)
    then obtain ch where "chans s c = Some ch" by (auto simp: forwards_def)
    from assms(1) this have "try_resolved s c = Ok (Some (Forwarded e))"
      using hop(1) forwards_unique by (cases rule: try_resolved_hop) auto
    then have "step (P c) s = Some (Ok (P e, s))" by (simp add: assms(4) walk_def)
    with hop show ?case by (auto simp: leads_to_step intro: runs_to_step)
  qed
  then show thesis using that by blast
qed

section \<open>Sending, undisturbed\<close>

text \<open>The requests in a queue.\<close>

fun queued :: "'v link_item list \<Rightarrow> req_ref list" where
  "queued [] = []"
| "queued (LRequest r # rest) = r # queued rest"
| "queued (LEvent _ # rest) = queued rest"

lemma queued_append [simp]: "queued (xs @ ys) = queued xs @ queued ys"
  by (induction xs rule: queued.induct) auto

lemma set_queued [simp]: "r \<in> set (queued xs) \<longleftrightarrow> LRequest r \<in> set xs"
  by (induction xs rule: queued.induct) auto

text \<open>No thread is at work: no lock is held; a channel that was forwarded has no requests; a request is in one queue
  at most, once, and its parent leads to the channel of the queue.\<close>

definition queue_ok :: "('v, 'e, 'p, 'r, 'l, 'k) system \<Rightarrow> bool" where
  "queue_ok s \<longleftrightarrow> links_ok s \<and> (\<forall>c ch. chans s c = Some ch \<longrightarrow>
     \<not> ch_locked ch \<and> \<not> is_recv_closed (ch_atom ch) \<and>
     ((\<exists>d. forwards s c d) \<longrightarrow> ch_requests ch = []) \<and> distinct (queued (ch_requests ch)) \<and>
     (\<forall>r. LRequest r \<in> set (ch_requests ch) \<longrightarrow>
        (\<exists>rq p. reqs s r = Some rq \<and> rq_parent rq = Some p \<and> leads_to s p c)))"

lemma queue_okD:
  assumes "queue_ok s"
  shows "links_ok s"
    and "chans s c = Some ch \<Longrightarrow> \<not> ch_locked ch \<and> \<not> is_recv_closed (ch_atom ch)"
    and "chans s c = Some ch \<Longrightarrow> forwards s c d \<Longrightarrow> ch_requests ch = []"
    and "chans s c = Some ch \<Longrightarrow> LRequest r \<in> set (ch_requests ch) \<Longrightarrow>
      \<exists>rq p. reqs s r = Some rq \<and> rq_parent rq = Some p \<and> leads_to s p c"
    and "chans s c = Some ch \<Longrightarrow> distinct (queued (ch_requests ch))"
  using assms unfolding queue_ok_def by blast+

text \<open>Something to send: an event, or a request that is in no queue. A request whose receivers are all gone is
  not wanted.\<close>

fun sendable :: "('v, 'e, 'p, 'r, 'l, 'k) system \<Rightarrow> 'v link_item \<Rightarrow> bool" where
  "sendable s (LEvent _) \<longleftrightarrow> True"
| "sendable s (LRequest r) \<longleftrightarrow> (\<exists>rq. reqs s r = Some rq \<and> rq_parent rq = None \<and> rq_params rq \<noteq> None)"

fun unwanted :: "('v, 'e, 'p, 'r, 'l, 'k) system \<Rightarrow> 'v link_item \<Rightarrow> bool" where
  "unwanted s (LEvent _) \<longleftrightarrow> False"
| "unwanted s (LRequest r) \<longleftrightarrow> (\<exists>rq. reqs s r = Some rq \<and> is_finished rq)"

text \<open>The item at the end of the queue of \<open>d\<close>, with its parent, the receiver woken; or the request dropped.\<close>

definition delivered :: "'v link_item \<Rightarrow> chan_ref \<Rightarrow> chan_ref \<Rightarrow> ('v, 'e) channel \<Rightarrow> ('v, 'e, 'p, 'r, 'l, 'k) system \<Rightarrow> ('v, 'e, 'p, 'r, 'l, 'k) system" where
  "delivered item d parent ch s = s\<lparr>chans := (chans s)(d := Some (ch\<lparr>ch_requests := ch_requests ch @ [item], ch_waker := None\<rparr>)),
     reqs := (case item of LEvent _ \<Rightarrow> reqs s | LRequest r \<Rightarrow> (reqs s)(r := map_option (rq_parent_update (\<lambda>_. Some parent)) (reqs s r))),
     woken := woken s @ (case ch_waker ch of None \<Rightarrow> [] | Some w \<Rightarrow> [w])\<rparr>"

definition refused :: "'v link_item \<Rightarrow> ('v, 'e, 'p, 'r, 'l, 'k) system \<Rightarrow> ('v, 'e, 'p, 'r, 'l, 'k) system" where
  "refused item s = s\<lparr>reqs := (case item of LEvent _ \<Rightarrow> reqs s | LRequest r \<Rightarrow> (reqs s)(r := map_option (\<lambda>rq. rq\<lparr>rq_params := None,
     rq_atom := rq_atom rq OR STATE_SEND_CLOSED, rq_waiters := Suc (rq_waiters rq)\<rparr>) (reqs s r)))\<rparr>"

lemma resolved_as_cong: "ch_atom ch = ch_atom ch' \<Longrightarrow> ch_value ch = ch_value ch' \<Longrightarrow> resolved_as ch = resolved_as ch'"
  by (auto simp: resolved_as_def split: shot_state.split option.split channel_resolution.split)

lemma leads_to_end: "leads_to s c d \<Longrightarrow> leads_to s d d"
  by (simp add: leads_to_def)

lemma send_pushes:
  assumes "chans s d = Some ch" "\<not> ch_locked ch" "sendable s item"
  shows "runs_to (send_step item) (SPush d p) (s\<lparr>chans := (chans s)(d := Some (ch\<lparr>ch_locked := True\<rparr>))\<rparr>) SSent
    (if unwanted s item then refused item s else delivered item d p ch s)"
proof -
  let ?s = "s\<lparr>chans := (chans s)(d := Some (ch\<lparr>ch_locked := True\<rparr>))\<rparr>"
  let ?s' = "if unwanted s item then refused item s else delivered item d p ch s"
  obtain pr q w a v n k where ch: "ch = \<lparr>ch_parent_request = pr, ch_requests = q, ch_waker = w, ch_locked = False,
     ch_atom = a, ch_value = v, ch_senders = n, ch_waiters = k\<rparr>" using assms(2) by (cases ch) auto
  note defs = send_step_def send_locked_def push_request_def take_waker_def unlock_def
  have same: "(chans s)(d \<mapsto> ch) = chans s" using assms(1) by (simp add: fun_upd_idem)
  have step: "\<exists>t. send_step item (SPush d p) ?s = Some (Ok (case w of None \<Rightarrow> SSent | Some x \<Rightarrow> SWake x, t)) \<and>
      ?s' = t\<lparr>woken := woken t @ (case w of None \<Rightarrow> [] | Some x \<Rightarrow> [x])\<rparr>" if "\<not> unwanted s item"
  proof (cases item)
    case (LEvent v)
    show ?thesis by (cases w) (simp_all add: LEvent ch defs delivered_def)
  next
    case (LRequest r)
    obtain rq where rq: "reqs s r = Some rq" "rq_parent rq = None" "rq_params rq \<noteq> None" using assms(3) by (auto simp: LRequest)
    then show ?thesis using that by (cases w) (simp_all add: LRequest ch defs delivered_def set_parent_def is_finished_def)
  qed
  show ?thesis
  proof (cases "unwanted s item")
    case True
    then obtain r rq where r: "item = LRequest r" "reqs s r = Some rq" "rq_parent rq = None" "rq_params rq \<noteq> None" "is_finished rq"
      using assms(3) by (cases item) auto
    have "send_step item (SPush d p) ?s = Some (Ok (SSent, refused item s))"
      using r same by (cases s; cases rq)
        (auto simp: ch defs set_parent_def pop_last_request_def request_defs atomic_ops refused_def is_finished_def)
    then show ?thesis using True by (auto intro: runs_to_step)
  next
    case False
    from step [OF this] obtain t where t: "send_step item (SPush d p) ?s = Some (Ok (case w of None \<Rightarrow> SSent | Some x \<Rightarrow> SWake x, t))"
      "?s' = t\<lparr>woken := woken t @ (case w of None \<Rightarrow> [] | Some x \<Rightarrow> [x])\<rparr>" by blast
    show ?thesis
      by (rule runs_to_step [where step = "send_step item", OF t(1)], unfold t(2))
         (cases w, auto simp: send_step_def wake_def intro: runs_to_step)
  qed
qed

lemma lock_free: "chans s c = Some ch \<Longrightarrow> \<not> ch_locked ch \<Longrightarrow>
    lock c s = Some (Ok (s\<lparr>chans := (chans s)(c := Some (ch\<lparr>ch_locked := True\<rparr>))\<rparr>))"
  by (simp add: lock_def)

lemma same_links_put:
  assumes "chans s c = Some ch" "ch_atom ch' = ch_atom ch" "ch_value ch' = ch_value ch"
  shows "same_links s (s\<lparr>chans := (chans s)(c := Some ch')\<rparr>)"
  by (rule same_linksI) (simp add: assms)

lemma send_alone:
  assumes "queue_ok s" "chans s c \<noteq> None" "leads_to s c d" "sendable s item"
  obtains ch where "chans s d = Some ch"
    "case resolved_as ch of None \<Rightarrow> runs_to (send_step item) (SResolve c) s SSent (if unwanted s item then refused item s else delivered item d d ch s)
     | Some m \<Rightarrow> runs_to (send_step item) (SResolve c) s (SFailed m) s"
proof -
  have ok: "links_ok s" by (rule queue_okD(1) [OF assms(1)])
  obtain ch where ch: "chans s d = Some ch" "runs_to (send_step item) (SResolve c) s (SResolve d) s"
    "send_step item (SResolve d) s = Some (case resolved_as ch of None \<Rightarrow> Ok (SLock d, s) | Some m \<Rightarrow> Ok (SFailed m, s))"
    by (rule walk_runs [OF ok assms(2,3), where step = "send_step item" and P = SResolve and U = "\<lambda>c. Ok (SLock c, s)" and R = "\<lambda>m. Ok (SFailed m, s)"])
      (simp add: send_step_def)
  show thesis
  proof (cases "resolved_as ch")
    case (Some m)
    with ch(3) have "send_step item (SResolve d) s = Some (Ok (SFailed m, s))" by simp
    from runs_to_then [where step = "send_step item", OF ch(2) this] Some show thesis by (intro that [OF ch(1)]) simp
  next
    case None
    have free: "\<not> ch_locked ch" using queue_okD(2) [OF assms(1) ch(1)] by simp
    let ?s = "s\<lparr>chans := (chans s)(d := Some (ch\<lparr>ch_locked := True\<rparr>))\<rparr>"
    have links: "same_links s ?s" by (rule same_links_put [OF ch(1)]) simp_all
    obtain ch1 where ch1: "chans ?s d = Some ch1"
      "send_step item (SRecheck d d) ?s = Some (case resolved_as ch1 of None \<Rightarrow> Ok (SPush d d, ?s)
         | Some m \<Rightarrow> obind (on_chan d unlock ?s) (\<lambda>(_, s'). Ok (SFailed m, s')))"
      by (rule walk_runs [where s = ?s and c = d and d = d and step = "send_step item" and P = "SRecheck d" and U = "\<lambda>c. Ok (SPush d c, ?s)"
            and R = "\<lambda>m. obind (on_chan d unlock ?s) (\<lambda>(_, s'). Ok (SFailed m, s'))"])
        (use ok leads_to_end [OF assms(3)] in \<open>simp_all add: send_step_def same_links_ok [OF links] same_links_leads [OF links]\<close>)
    have "resolved_as ch1 = None" using ch1(1) None resolved_as_cong [of ch1 ch] by auto
    with ch1 have re: "send_step item (SRecheck d d) ?s = Some (Ok (SPush d d, ?s))" by simp
    have "send_step item (SResolve d) s = Some (Ok (SLock d, s))" using ch(3) None by simp
    note at_lock = runs_to_then [where step = "send_step item", OF ch(2) this]
    have "send_step item (SLock d) s = Some (Ok (SRecheck d d, ?s))" by (simp add: send_step_def lock_free [OF ch(1) free])
    note at_push = runs_to_then [where step = "send_step item", OF runs_to_then [where step = "send_step item", OF at_lock this] re]
    from runs_to_trans [OF at_push send_pushes [OF ch(1) free assms(4)]] None show thesis
      by (intro that [OF ch(1)]) simp
  qed
qed

section \<open>Forwarding, undisturbed\<close>

text \<open>The queue of \<open>this\<close> at the end of the queue of \<open>d\<close>, whose receiver is woken if there is anything in it.\<close>

definition forwarded :: "chan_ref \<Rightarrow> ('v, 'e) channel \<Rightarrow> chan_ref \<Rightarrow> ('v, 'e) channel \<Rightarrow> ('v, 'e, 'p, 'r, 'l, 'k) system \<Rightarrow>
    ('v, 'e, 'p, 'r, 'l, 'k) system" where
  "forwarded this cht d chd s = s\<lparr>
     chans := (chans s)(
       d := Some (chd\<lparr>ch_requests := ch_requests chd @ ch_requests cht,
         ch_waker := (if ch_requests cht = [] then ch_waker chd else None), ch_senders := ch_senders chd + 1\<rparr>),
       this := Some (cht\<lparr>ch_requests := [], ch_value := Some (Forward d), ch_atom := ch_atom cht OR STATE_SET,
         ch_waiters := Suc (ch_waiters cht)\<rparr>)),
     woken := woken s @ (if ch_requests cht = [] then [] else case ch_waker chd of None \<Rightarrow> [] | Some w \<Rightarrow> [w])\<rparr>"

lemma lock_both:
  assumes "chans s a = Some cha" "\<not> ch_locked cha" "chans s b = Some chb" "\<not> ch_locked chb" "a \<noteq> b"
  obtains s1 where "lock (min a b) s = Some (Ok s1)"
    "lock (max a b) s1 = Some (Ok (s\<lparr>chans := (chans s)(a := Some (cha\<lparr>ch_locked := True\<rparr>), b := Some (chb\<lparr>ch_locked := True\<rparr>))\<rparr>))"
proof (cases "a < b")
  case True
  then have mm: "min a b = a" "max a b = b" by simp_all
  have "lock b (s\<lparr>chans := (chans s)(a := Some (cha\<lparr>ch_locked := True\<rparr>))\<rparr>) =
      Some (Ok (s\<lparr>chans := (chans s)(a := Some (cha\<lparr>ch_locked := True\<rparr>), b := Some (chb\<lparr>ch_locked := True\<rparr>))\<rparr>))"
    using assms by (simp add: lock_def)
  with lock_free [OF assms(1,2)] show thesis by (intro that) (simp_all only: mm)
next
  case False
  then have mm: "min a b = b" "max a b = a" by simp_all
  have "lock a (s\<lparr>chans := (chans s)(b := Some (chb\<lparr>ch_locked := True\<rparr>))\<rparr>) =
      Some (Ok (s\<lparr>chans := (chans s)(a := Some (cha\<lparr>ch_locked := True\<rparr>), b := Some (chb\<lparr>ch_locked := True\<rparr>))\<rparr>))"
    using assms by (simp add: lock_def fun_upd_twist)
  with lock_free [OF assms(3,4)] show thesis by (intro that) (simp_all only: mm)
qed

lemma forward_moves:
  assumes "chans s this = Some cht" "chans s d = Some chd" "this \<noteq> d" "\<not> ch_locked cht" "\<not> ch_locked chd"
    and "\<not> is_recv_closed (ch_atom cht)" "ch_senders chd \<noteq> 0" "ch_senders chd \<noteq> - 1"
  shows "runs_to (forward_step this other) (FMove d d)
    (s\<lparr>chans := (chans s)(this := Some (cht\<lparr>ch_locked := True\<rparr>), d := Some (chd\<lparr>ch_locked := True\<rparr>))\<rparr>)
    FDone (forwarded this cht d chd s)"
proof -
  let ?s = "s\<lparr>chans := (chans s)(this := Some (cht\<lparr>ch_locked := True\<rparr>), d := Some (chd\<lparr>ch_locked := True\<rparr>))\<rparr>"
  let ?f = "forward_step this other" and ?cht = "cht\<lparr>ch_value := Some (Forward d), ch_atom := ch_atom cht OR STATE_SET, ch_waiters := Suc (ch_waiters cht)\<rparr>"
  let ?chd = "chd\<lparr>ch_senders := ch_senders chd + 1\<rparr>"
  let ?s1 = "s\<lparr>chans := (chans s)(this := Some (?cht\<lparr>ch_locked := True\<rparr>), d := Some (?chd\<lparr>ch_locked := True\<rparr>))\<rparr>"
  have "?f (FMove d d) ?s = Some (Ok (FAppend d, ?s1))"
    using assms by (simp add: forward_step_def clone_sender_def add_sender_def resolve_channel_def resolve_def fun_upd_twist)
      (cases cht; cases chd; simp)
  note at_append = runs_to_then [where step = ?f, OF runs_to_refl this]
  let ?w = "if ch_requests cht = [] then None else ch_waker chd"
  let ?s2 = "(forwarded this cht d chd s)\<lparr>woken := woken s\<rparr>"
  have "?f (FAppend d) ?s1 = Some (Ok (case ?w of None \<Rightarrow> FDrop | Some w \<Rightarrow> FWake w, ?s2))"
    using assms by (cases cht; cases chd; cases s)
      (auto simp: forward_step_def take_requests_def append_requests_def take_waker_def unlock_def forwarded_def fun_eq_iff split: option.split)
  note at_wake = runs_to_then [where step = ?f, OF at_append this]
  have "runs_to ?f (case ?w of None \<Rightarrow> FDrop | Some w \<Rightarrow> FWake w) ?s2 FDrop (forwarded this cht d chd s)"
  proof (cases ?w)
    case None
    then have "?s2 = forwarded this cht d chd s" by (auto simp: forwarded_def split: if_splits)
    with None show ?thesis by simp
  next
    case (Some w)
    then have "?f (FWake w) ?s2 = Some (Ok (FDrop, forwarded this cht d chd s))"
      by (auto simp: forward_step_def wake_def forwarded_def split: if_splits)
    with Some show ?thesis by (auto intro: runs_to_then [where step = ?f, OF runs_to_refl])
  qed
  note at_drop = runs_to_trans [OF at_wake this]
  have "?f FDrop (forwarded this cht d chd s) = Some (Ok (FDone, forwarded this cht d chd s))"
    by (simp add: forward_step_def forwarded_def receiver_drop_def flag_simps fun_upd_idem)
  from runs_to_then [where step = ?f, OF at_drop this] show ?thesis .
qed

text \<open>The receiver of a channel is in use until the channel is resolved.\<close>

definition receivable :: "('v, 'e) channel \<Rightarrow> bool" where
  "receivable ch \<longleftrightarrow> flags_state (ch_atom ch) = Empty"

lemma receivable_flags: "receivable ch \<Longrightarrow> \<not> is_set (ch_atom ch) \<and> \<not> is_send_closed (ch_atom ch)"
  by (auto simp: receivable_def flags_state_def split: if_splits)

lemma receivable_leads: "chans s c = Some ch \<Longrightarrow> receivable ch \<Longrightarrow> leads_to s c c"
  by (rule leads_to_refl) (auto simp: forwards_def dest: receivable_flags)

definition dropped_receiver :: "chan_ref \<Rightarrow> ('v, 'e) channel \<Rightarrow> ('v, 'e, 'p, 'r, 'l, 'k) system \<Rightarrow> ('v, 'e, 'p, 'r, 'l, 'k) system" where
  "dropped_receiver this ch s = s\<lparr>chans := (chans s)(this := Some (ch\<lparr>ch_atom := ch_atom ch OR STATE_SEND_CLOSED, ch_waiters := Suc (ch_waiters ch)\<rparr>))\<rparr>"

lemma drop_receivable:
  "chans s this = Some ch \<Longrightarrow> receivable ch \<Longrightarrow> on_chan this receiver_drop s = Ok ((), dropped_receiver this ch s)"
  by (auto simp: receiver_drop_def close_receiver_def dropped_receiver_def atomic_ops dest: receivable_flags)

lemma forward_alone:
  assumes "queue_ok s" "chans s this = Some cht" "receivable cht" "chans s other \<noteq> None" "leads_to s other d"
  obtains chd where "chans s d = Some chd"
    "case resolved_as chd of
       None \<Rightarrow> if d = this then runs_to (forward_step this other) (FResolve other) s FReturned s
         else ch_senders chd \<noteq> 0 \<longrightarrow> ch_senders chd \<noteq> - 1 \<longrightarrow>
           runs_to (forward_step this other) (FResolve other) s FDone (forwarded this cht d chd s)
     | Some MDropped \<Rightarrow> runs_to (forward_step this other) (FResolve other) s FDone (dropped_receiver this cht s)
     | Some (MError e) \<Rightarrow> runs_to (forward_step this other) (FResolve other) s (FClose e) s"
proof -
  let ?f = "forward_step this other"
  have ok: "links_ok s" by (rule queue_okD(1) [OF assms(1)])
  obtain chd where ch: "chans s d = Some chd" "runs_to ?f (FResolve other) s (FResolve d) s"
    "?f (FResolve d) s = Some (case resolved_as chd of None \<Rightarrow> Ok (FLock d, s) | Some m \<Rightarrow> Ok (forward_end m, s))"
    by (rule walk_runs [OF ok assms(4,5), where step = ?f and P = FResolve and U = "\<lambda>c. Ok (FLock c, s)" and R = "\<lambda>m. Ok (forward_end m, s)"])
      (simp add: forward_step_def)
  show thesis
  proof (cases "resolved_as chd")
    case (Some m)
    then have "?f (FResolve d) s = Some (Ok (forward_end m, s))" using ch(3) by simp
    note at_end = runs_to_then [where step = ?f, OF ch(2) this]
    show thesis
    proof (cases m)
      case MDropped
      have "?f FDrop s = Some (Ok (FDone, dropped_receiver this cht s))"
        by (simp add: forward_step_def drop_receivable [OF assms(2,3)])
      from runs_to_then [where step = ?f, OF at_end [unfolded MDropped forward_end_def most_resolution.case] this] Some MDropped show thesis
        by (intro that [OF ch(1)]) simp
    next
      case (MError e)
      with at_end Some show thesis by (intro that [OF ch(1)]) (simp add: forward_end_def)
    qed
  next
    case None
    then have "?f (FResolve d) s = Some (Ok (FLock d, s))" using ch(3) by simp
    note at_lock = runs_to_then [where step = ?f, OF ch(2) this]
    show thesis
    proof (cases "d = this")
      case True
      then have "?f (FLock d) s = Some (Ok (FReturned, s))" by (simp add: forward_step_def)
      from runs_to_then [where step = ?f, OF at_lock this] None True show thesis by (intro that [OF ch(1)]) simp
    next
      case False
      have free: "\<not> ch_locked cht" "\<not> ch_locked chd" "\<not> is_recv_closed (ch_atom cht)"
        using queue_okD(2) [OF assms(1)] assms(2) ch(1) by blast+
      let ?s = "s\<lparr>chans := (chans s)(this := Some (cht\<lparr>ch_locked := True\<rparr>), d := Some (chd\<lparr>ch_locked := True\<rparr>))\<rparr>"
      obtain s1 where l: "lock (min this d) s = Some (Ok s1)" "lock (max this d) s1 = Some (Ok ?s)"
        by (rule lock_both [OF assms(2) free(1) ch(1) free(2)]) (use False in simp)
      have "?f (FLock d) s = Some (Ok (FLock2 d, s1))" using False l(1) by (simp add: forward_step_def)
      note at_lock2 = runs_to_then [where step = ?f, OF at_lock this]
      have "?f (FLock2 d) s1 = Some (Ok (FRecheck d other, ?s))" using l(2) by (simp add: forward_step_def)
      note at_recheck = runs_to_then [where step = ?f, OF at_lock2 this]
      have links: "same_links s ?s" by (rule same_linksI) (use assms(2) ch(1) in auto)
      have other: "chans ?s other \<noteq> None" using assms(4) by auto
      let ?R = "\<lambda>m. dbind (on_chan d unlock) (\<lambda>_. dbind (on_chan this unlock) (\<lambda>_. dret (forward_end m))) ?s"
      obtain ch1 where ch1: "chans ?s d = Some ch1" "runs_to ?f (FRecheck d other) ?s (FRecheck d d) ?s"
        "?f (FRecheck d d) ?s = Some (case resolved_as ch1 of None \<Rightarrow> Ok (FMove d d, ?s) | Some m \<Rightarrow> ?R m)"
        by (rule walk_runs [where s = ?s and c = other and d = d and step = ?f and P = "FRecheck d" and U = "\<lambda>c. Ok (FMove d c, ?s)" and R = ?R,
              OF _ other])
          (use ok assms(5) in \<open>simp_all add: same_links_ok [OF links] same_links_leads [OF links], simp add: forward_step_def\<close>)
      have "resolved_as ch1 = None" using ch1(1) None resolved_as_cong [of ch1 chd] by auto
      then have "?f (FRecheck d d) ?s = Some (Ok (FMove d d, ?s))" using ch1(3) by simp
      note at_move = runs_to_then [where step = ?f, OF runs_to_trans [OF at_recheck ch1(2)] this]
      have "runs_to ?f (FResolve other) s FDone (forwarded this cht d chd s)" if "ch_senders chd \<noteq> 0" "ch_senders chd \<noteq> - 1"
        by (rule runs_to_trans [OF at_move forward_moves [OF assms(2) ch(1) _ free that]]) (use False in simp)
      with None False show thesis by (intro that [OF ch(1)]) simp
    qed
  qed
qed

section \<open>The invariant\<close>

text \<open>Calls that leave the links alone: what is to be shown of the queues and the requests in them.\<close>

lemma queue_ok_same_links:
  assumes "queue_ok s" "same_links s s'"
    and "\<And>c ch'. chans s' c = Some ch' \<Longrightarrow> \<exists>ch. chans s c = Some ch \<and> \<not> ch_locked ch' \<and>
      (ch_requests ch = [] \<longrightarrow> leads_to s c c \<or> ch_requests ch' = []) \<and> distinct (queued (ch_requests ch')) \<and>
      (\<forall>r. LRequest r \<in> set (ch_requests ch') \<longrightarrow> (\<exists>rq p. reqs s' r = Some rq \<and> rq_parent rq = Some p \<and> leads_to s p c))"
  shows "queue_ok s'"
  unfolding queue_ok_def
proof (intro conjI allI impI)
  show "links_ok s'" using queue_okD(1) [OF assms(1)] by (simp add: same_links_ok [OF assms(2)])
  fix c ch' assume ch': "chans s' c = Some ch'"
  obtain ch where ch: "chans s c = Some ch" "\<not> ch_locked ch'" "ch_requests ch = [] \<longrightarrow> leads_to s c c \<or> ch_requests ch' = []"
    and dist: "distinct (queued (ch_requests ch'))" and reqs: "\<And>r. LRequest r \<in> set (ch_requests ch') \<Longrightarrow> \<exists>rq p. reqs s' r = Some rq \<and> rq_parent rq = Some p \<and> leads_to s p c"
    using assms(3) [OF ch'] by blast
  show "distinct (queued (ch_requests ch'))" by (rule dist)
  have "link_of s c = link_of s' c" using assms(2) by (simp add: same_links_def)
  then have atom: "is_recv_closed (ch_atom ch') = is_recv_closed (ch_atom ch)" using ch(1) ch' by (simp add: link_of_def)
  show "\<not> ch_locked ch'" "\<not> is_recv_closed (ch_atom ch')" using ch(2) queue_okD(2) [OF assms(1) ch(1)] atom by simp_all
  show "ch_requests ch' = []" if "\<exists>d. forwards s' c d"
    using that ch(3) queue_okD(3) [OF assms(1) ch(1)] by (auto simp: same_links_forwards [OF assms(2)] leads_to_def)
  show "\<exists>rq p. reqs s' r = Some rq \<and> rq_parent rq = Some p \<and> leads_to s' p c" if "LRequest r \<in> set (ch_requests ch')" for r
    using reqs [OF that] by (simp add: same_links_leads [OF assms(2)])
qed

lemma queue_ok_kept:
  assumes "queue_ok s" "same_links s s'" "reqs s' = reqs s"
    and "\<And>c ch'. chans s' c = Some ch' \<Longrightarrow> \<exists>ch. chans s c = Some ch \<and> ch_requests ch' = ch_requests ch \<and> ch_locked ch' = ch_locked ch"
  shows "queue_ok s'"
proof (rule queue_ok_same_links [OF assms(1,2)])
  fix c ch' assume "chans s' c = Some ch'"
  from assms(4) [OF this] obtain ch where ch: "chans s c = Some ch" "ch_requests ch' = ch_requests ch" "ch_locked ch' = ch_locked ch" by blast
  with queue_okD(2,4,5) [OF assms(1) ch(1)] show "\<exists>ch. chans s c = Some ch \<and> \<not> ch_locked ch' \<and>
      (ch_requests ch = [] \<longrightarrow> leads_to s c c \<or> ch_requests ch' = []) \<and> distinct (queued (ch_requests ch')) \<and>
      (\<forall>r. LRequest r \<in> set (ch_requests ch') \<longrightarrow> (\<exists>rq p. reqs s' r = Some rq \<and> rq_parent rq = Some p \<and> leads_to s p c))"
    by (intro exI [of _ ch]) (auto simp: assms(3))
qed

lemma delivered_ok:
  assumes "queue_ok s" "chans s d = Some ch" "leads_to s d d" "sendable s item"
  shows "queue_ok (delivered item d d ch s)"
proof (rule queue_ok_same_links [OF assms(1)])
  show links: "same_links s (delivered item d d ch s)" by (rule same_linksI) (simp add: delivered_def assms(2))
  fix c ch' assume ch': "chans (delivered item d d ch s) c = Some ch'"
  then obtain ch0 where ch0: "chans s c = Some ch0" "\<not> ch_locked ch'" "c \<noteq> d \<longrightarrow> ch' = ch0"
    "c = d \<longrightarrow> ch0 = ch \<and> ch_requests ch' = ch_requests ch @ [item]"
    using queue_okD(2) [OF assms(1)] assms(2) by (auto simp: delivered_def split: if_splits)
  have "\<exists>rq p. reqs (delivered item d d ch s) r = Some rq \<and> rq_parent rq = Some p \<and> leads_to s p c"
    if r: "LRequest r \<in> set (ch_requests ch')" for r
  proof (cases "LRequest r \<in> set (ch_requests ch0)")
    case True
    from queue_okD(4) [OF assms(1) ch0(1) this] obtain rq p where
      rq: "reqs s r = Some rq" "rq_parent rq = Some p" "leads_to s p c" by blast
    then have "item \<noteq> LRequest r" using assms(4) by auto
    with rq show ?thesis by (cases item) (auto simp: delivered_def)
  next
    case False
    then have "item = LRequest r" "c = d" using r ch0(3,4) by auto
    with assms(3,4) show ?thesis by (auto simp: delivered_def)
  qed
  moreover have "distinct (queued (ch_requests ch'))"
  proof (cases "c = d")
    case True
    have "LRequest r \<notin> set (ch_requests ch)" if "item = LRequest r" for r
      using queue_okD(4) [OF assms(1,2), of r] assms(4) that by auto
    with True ch0 queue_okD(5) [OF assms(1,2)] show ?thesis by (cases item) auto
  next
    case False
    with ch0 queue_okD(5) [OF assms(1)] show ?thesis by auto
  qed
  ultimately show "\<exists>ch1. chans s c = Some ch1 \<and> \<not> ch_locked ch' \<and> (ch_requests ch1 = [] \<longrightarrow> leads_to s c c \<or> ch_requests ch' = []) \<and> distinct (queued (ch_requests ch')) \<and>
      (\<forall>r. LRequest r \<in> set (ch_requests ch') \<longrightarrow> (\<exists>rq p. reqs (delivered item d d ch s) r = Some rq \<and> rq_parent rq = Some p \<and> leads_to s p c))"
    using ch0 assms(3) by (intro exI [of _ ch0]) auto
qed

lemma refused_ok:
  assumes "queue_ok s" "sendable s item"
  shows "queue_ok (refused item s)"
proof (rule queue_ok_same_links [OF assms(1)])
  show "same_links s (refused item s)" by (rule same_linksI) (simp add: refused_def)
  fix c ch assume c: "chans (refused item s) c = Some ch"
  then have ch: "chans s c = Some ch" by (simp add: refused_def)
  have "\<exists>rq p. reqs (refused item s) r = Some rq \<and> rq_parent rq = Some p \<and> leads_to s p c"
    if "LRequest r \<in> set (ch_requests ch)" for r
    using queue_okD(4) [OF assms(1) ch that] assms(2) by (cases item) (auto simp: refused_def)
  then show "\<exists>ch'. chans s c = Some ch' \<and> \<not> ch_locked ch \<and> (ch_requests ch' = [] \<longrightarrow> leads_to s c c \<or> ch_requests ch = []) \<and> distinct (queued (ch_requests ch)) \<and>
      (\<forall>r. LRequest r \<in> set (ch_requests ch) \<longrightarrow> (\<exists>rq p. reqs (refused item s) r = Some rq \<and> rq_parent rq = Some p \<and> leads_to s p c))"
    using ch queue_okD(2,5) [OF assms(1) ch] by (intro exI [of _ ch]) blast
qed

text \<open>A new link from a channel that leads nowhere yet: what led to it now leads to where the link goes.\<close>

lemma link_added:
  assumes "\<And>c e. forwards s' c e \<longleftrightarrow> forwards s c e \<or> c = a \<and> e = d"
    and "\<And>e. \<not> forwards s a e" "\<And>e. \<not> forwards s d e" "d \<noteq> a"
  shows "wf {(e, c). forwards s c e} \<Longrightarrow> wf {(e, c). forwards s' c e}"
    and "leads_to s c e \<Longrightarrow> leads_to s' c (if e = a then d else e)"
proof -
  have end_d: "\<not> forwards s' d e" for e using assms(3,4) by (simp add: assms(1))
  assume wf: "wf {(e, c). forwards s c e}"
  have "(a, d) \<notin> {(e, c). forwards s c e}\<^sup>*"
  proof
    assume "(a, d) \<in> {(e, c). forwards s c e}\<^sup>*"
    then show False using assms(3,4) by (cases rule: rtranclE) auto
  qed
  then have "wf (insert (d, a) {(e, c). forwards s c e})" using wf by (simp add: wf_insert)
  moreover have "insert (d, a) {(e, c). forwards s c e} = {(e, c). forwards s' c e}" using assms(1) by auto
  ultimately show "wf {(e, c). forwards s' c e}" by simp
next
  assume l: "leads_to s c e"
  have "(forwards s')\<^sup>*\<^sup>* c e"
    using l rtranclp_mono [of "forwards s" "forwards s'"] assms(1) by (auto simp: leads_to_def le_fun_def)
  moreover have "\<not> forwards s' d x" for x using assms(3,4) by (simp add: assms(1))
  moreover have "\<not> forwards s' e x" if "e \<noteq> a" for x using l that by (simp add: assms(1) leads_to_def)
  moreover have "forwards s' a d" by (simp add: assms(1))
  ultimately show "leads_to s' c (if e = a then d else e)"
    by (auto simp: leads_to_def intro: rtranclp.rtrancl_into_rtrancl)
qed

lemma forwarded_ok:
  assumes "queue_ok s" "chans s this = Some cht" "receivable cht" "chans s d = Some chd" "resolved_as chd = None" "leads_to s d d" "d \<noteq> this"
  shows "queue_ok (forwarded this cht d chd s)"
    and "leads_to s c e \<Longrightarrow> leads_to (forwarded this cht d chd s) c (if e = this then d else e)"
proof -
  let ?s = "forwarded this cht d chd s"
  have this_end: "\<not> forwards s this e" for e using receivable_leads [OF assms(2,3)] by (simp add: leads_to_def)
  have d_end: "\<not> forwards s d e" for e using assms(6) by (simp add: leads_to_def)
  have chans: "chans ?s c = (if c = this then Some (cht\<lparr>ch_requests := [], ch_value := Some (Forward d), ch_atom := ch_atom cht OR STATE_SET, ch_waiters := Suc (ch_waiters cht)\<rparr>)
      else if c = d then Some (chd\<lparr>ch_requests := ch_requests chd @ ch_requests cht,
         ch_waker := (if ch_requests cht = [] then ch_waker chd else None), ch_senders := ch_senders chd + 1\<rparr>) else chans s c)" for c
    by (simp add: forwarded_def)
  have fwd: "forwards ?s c e \<longleftrightarrow> forwards s c e \<or> c = this \<and> e = d" for c e
    using this_end [of e] assms(4,7) unfolding forwards_def chans by (auto simp: flag_simps)
  note added = link_added [where s' = ?s and s = s and a = this and d = d, OF fwd this_end d_end assms(7)]
  show leads: "leads_to ?s c (if e = this then d else e)" if "leads_to s c e" for c e by (rule added(2) [OF that])
  have ok: "links_ok s" by (rule queue_okD(1) [OF assms(1)])
  have "\<exists>ch0. chans s c = Some ch0 \<and> (c \<noteq> this \<longrightarrow> ch_atom ch = ch_atom ch0 \<and> ch_value ch = ch_value ch0)" if "chans ?s c = Some ch" for c ch
    using that assms(2,4) by (auto simp: chans split: if_splits)
  then have links: "links_ok ?s"
    using ok added(1) assms(2,4) unfolding links_ok_def by (auto simp: chans flag_simps split: if_splits)
  show "queue_ok ?s"
    unfolding queue_ok_def
  proof (intro conjI links allI impI)
    fix c ch assume ch: "chans ?s c = Some ch"
    have free: "\<not> ch_locked cht \<and> \<not> is_recv_closed (ch_atom cht)" "\<not> ch_locked chd \<and> \<not> is_recv_closed (ch_atom chd)"
      by (rule queue_okD(2) [OF assms(1,2)], rule queue_okD(2) [OF assms(1,4)])
    show "\<not> ch_locked ch" "\<not> is_recv_closed (ch_atom ch)"
      using ch free queue_okD(2) [OF assms(1), of c ch] by (auto simp: chans flag_simps split: if_splits)
    show "ch_requests ch = []" if "\<exists>e. forwards ?s c e"
    proof (cases "c = this")
      case True
      then show ?thesis using ch by (auto simp: chans)
    next
      case False
      then have f: "\<exists>e. forwards s c e" using that by (auto simp: fwd)
      then have "c \<noteq> d" using d_end by auto
      with False f ch queue_okD(3) [OF assms(1), of c ch] show ?thesis by (auto simp: chans)
    qed
    have "LRequest x \<notin> set (ch_requests cht)" if "LRequest x \<in> set (ch_requests chd)" for x
      using queue_okD(4) [OF assms(1,2), of x] queue_okD(4) [OF assms(1,4) that] assms(7) leads_to_unique [of s] by fastforce
    then have "set (queued (ch_requests chd)) \<inter> set (queued (ch_requests cht)) = {}" by auto
    then show "distinct (queued (ch_requests ch))"
      using ch queue_okD(5) [OF assms(1)] assms(2,4) by (auto simp: chans split: if_splits)
    fix r assume r: "LRequest r \<in> set (ch_requests ch)"
    have same: "reqs ?s = reqs s" by (simp add: forwarded_def)
    have "c \<noteq> this" using r ch by (auto simp: chans)
    then obtain c0 ch0 where c0: "chans s c0 = Some ch0" "LRequest r \<in> set (ch_requests ch0)" "c = (if c0 = this then d else c0)"
      using r ch assms(2,4) by (auto simp: chans split: if_splits)
    from queue_okD(4) [OF assms(1) c0(1,2)] show "\<exists>rq p. reqs ?s r = Some rq \<and> rq_parent rq = Some p \<and> leads_to ?s p c"
      unfolding same c0(3) using leads by blast
  qed
qed

text \<open>The first item of a queue, taken.\<close>

definition received :: "chan_ref \<Rightarrow> ('v, 'e) channel \<Rightarrow> 'v link_item \<Rightarrow> 'v link_item list \<Rightarrow> ('v, 'e, 'p, 'r, 'l, 'k) system \<Rightarrow>
    ('v, 'e, 'p, 'r, 'l, 'k) system" where
  "received c ch item rest s = s\<lparr>chans := (chans s)(c := Some (ch\<lparr>ch_requests := rest\<rparr>)),
     reqs := (case item of LEvent _ \<Rightarrow> reqs s | LRequest r \<Rightarrow> (reqs s)(r := map_option (rq_parent_update (\<lambda>_. None)) (reqs s r)))\<rparr>"

definition waiting :: "waker \<Rightarrow> chan_ref \<Rightarrow> ('v, 'e) channel \<Rightarrow> ('v, 'e, 'p, 'r, 'l, 'k) system \<Rightarrow> ('v, 'e, 'p, 'r, 'l, 'k) system" where
  "waiting w c ch s = s\<lparr>chans := (chans s)(c := Some (ch\<lparr>ch_waker := Some w\<rparr>))\<rparr>"

lemma poll_recv_alone:
  assumes "queue_ok s" "chans s c = Some ch"
  shows "poll_recv w c s = (case ch_requests ch of
    [] \<Rightarrow> Ok (RecvPending, waiting w c ch s) | item # rest \<Rightarrow> Ok (RecvReady (Some item), received c ch item rest s))"
proof -
  have open_: "\<not> is_recv_closed (ch_atom ch)" using queue_okD(2) [OF assms] by simp
  have same: "(chans s)(c \<mapsto> ch) = chans s" using assms(2) by (simp add: fun_upd_idem)
  show ?thesis
  proof (cases "ch_requests ch")
    case Nil
    then have pop: "pop_request ch = Ok (None, ch)" by (simp add: pop_request_def)
    show ?thesis
      using assms(2) open_ same Nil
      by (cases s) (auto simp: poll_recv_def pop waiting_def split: option.split)
  next
    case (Cons item rest)
    then have pop: "pop_request ch = Ok (Some item, ch\<lparr>ch_requests := rest\<rparr>)" by (simp add: pop_request_def)
    show ?thesis
    proof (cases item)
      case (LEvent v)
      with pop assms(2) open_ same Cons show ?thesis by (cases s) (auto simp: poll_recv_def received_def)
    next
      case (LRequest r)
      then obtain rq where "reqs s r = Some rq" using queue_okD(4) [OF assms, of r] Cons by auto
      with LRequest pop assms(2) open_ same Cons show ?thesis by (cases s) (auto simp: poll_recv_def received_def take_parent_def)
    qed
  qed
qed

lemma waiting_ok: "queue_ok s \<Longrightarrow> chans s c = Some ch \<Longrightarrow> queue_ok (waiting w c ch s)"
  by (rule queue_ok_kept) (auto simp: waiting_def intro: same_linksI split: if_splits)

lemma received_ok:
  assumes "queue_ok s" "chans s c = Some ch" "ch_requests ch = item # rest"
  shows "queue_ok (received c ch item rest s)"
proof (rule queue_ok_same_links [OF assms(1)])
  show "same_links s (received c ch item rest s)" by (rule same_linksI) (simp add: received_def assms(2))
  fix d ch' assume ch': "chans (received c ch item rest s) d = Some ch'"
  then obtain ch0 where ch0: "chans s d = Some ch0" "ch_locked ch' = ch_locked ch0" "set (ch_requests ch') \<subseteq> set (ch_requests ch0)"
    "ch_requests ch0 = [] \<longrightarrow> ch_requests ch' = []" "d = c \<longrightarrow> ch_requests ch' = rest" "d \<noteq> c \<longrightarrow> ch' = ch0"
    using assms(2,3) subset_insertI by (fastforce simp: received_def split: if_splits)
  have dist: "distinct (queued (ch_requests ch'))"
    using ch0 queue_okD(5) [OF assms(1,2)] queue_okD(5) [OF assms(1) ch0(1)] assms(3) by (cases "d = c"; cases item) auto
  have "\<exists>rq p. reqs (received c ch item rest s) r = Some rq \<and> rq_parent rq = Some p \<and> leads_to s p d"
    if r: "LRequest r \<in> set (ch_requests ch')" for r
  proof -
    have r0: "LRequest r \<in> set (ch_requests ch0)" using r ch0(3) by auto
    obtain rq p where rq: "reqs s r = Some rq" "rq_parent rq = Some p" "leads_to s p d"
      using queue_okD(4) [OF assms(1) ch0(1) r0] by blast
    have "item \<noteq> LRequest r"
    proof
      assume item: "item = LRequest r"
      then have "leads_to s p c" using queue_okD(4) [OF assms(1,2), of r] assms(3) rq(1,2) by auto
      then have "d = c" using rq(3) leads_to_unique by blast
      with r ch0(5) item queue_okD(5) [OF assms(1,2)] assms(3) show False by auto
    qed
    with rq show ?thesis by (cases item) (auto simp: received_def)
  qed
  with ch0 dist queue_okD(2) [OF assms(1) ch0(1)] show "\<exists>ch1. chans s d = Some ch1 \<and> \<not> ch_locked ch' \<and>
      (ch_requests ch1 = [] \<longrightarrow> leads_to s d d \<or> ch_requests ch' = []) \<and> distinct (queued (ch_requests ch')) \<and>
      (\<forall>r. LRequest r \<in> set (ch_requests ch') \<longrightarrow> (\<exists>rq p. reqs (received c ch item rest s) r = Some rq \<and> rq_parent rq = Some p \<and> leads_to s p d))"
    by (intro exI [of _ ch0]) auto
qed

lemma dropped_receiver_ok: "queue_ok s \<Longrightarrow> chans s c = Some ch \<Longrightarrow> queue_ok (dropped_receiver c ch s)"
  by (rule queue_ok_kept) (auto simp: dropped_receiver_def flag_simps intro!: same_linksI split: if_splits)

text \<open>New channels and requests, at addresses that are not in use, and senders that are cloned.\<close>

lemma new_chan_ok:
  assumes "queue_ok s" "chans s c = None" "ch_requests ch = []" "\<not> ch_locked ch" "\<not> is_recv_closed (ch_atom ch)"
    and "is_set (ch_atom ch) \<longleftrightarrow> ch_value ch \<noteq> None" "\<And>d. ch_value ch \<noteq> Some (Forward d)"
  shows "queue_ok (s\<lparr>chans := (chans s)(c := Some ch)\<rparr>)"
proof -
  let ?s = "s\<lparr>chans := (chans s)(c := Some ch)\<rparr>"
  have f: "forwards ?s = forwards s" using assms(2,7) by (intro ext) (auto simp: forwards_def)
  then have l: "leads_to ?s = leads_to s" by (intro ext) (simp add: leads_to_def)
  have "links_ok ?s" using queue_okD(1) [OF assms(1)] assms(6,7) unfolding links_ok_def f by auto
  then show ?thesis
    using assms(1,3-5) unfolding queue_ok_def l f by (auto split: if_splits)
qed

lemma new_req_ok:
  assumes "queue_ok s" "reqs s r = None"
  shows "queue_ok (s\<lparr>reqs := (reqs s)(r := Some rq)\<rparr>)"
proof (rule queue_ok_same_links [OF assms(1)])
  show "same_links s (s\<lparr>reqs := (reqs s)(r := Some rq)\<rparr>)" by (rule same_linksI) simp
  fix c ch assume "chans (s\<lparr>reqs := (reqs s)(r := Some rq)\<rparr>) c = Some ch"
  then have ch: "chans s c = Some ch" by simp
  have "\<exists>rq' p. reqs (s\<lparr>reqs := (reqs s)(r := Some rq)\<rparr>) r' = Some rq' \<and> rq_parent rq' = Some p \<and> leads_to s p c"
    if "LRequest r' \<in> set (ch_requests ch)" for r'
    using queue_okD(4) [OF assms(1) ch that] assms(2) by auto
  with queue_okD(2,5) [OF assms(1) ch] ch show "\<exists>ch1. chans s c = Some ch1 \<and> \<not> ch_locked ch \<and>
      (ch_requests ch1 = [] \<longrightarrow> leads_to s c c \<or> ch_requests ch = []) \<and> distinct (queued (ch_requests ch)) \<and>
      (\<forall>r'. LRequest r' \<in> set (ch_requests ch) \<longrightarrow> (\<exists>rq' p. reqs (s\<lparr>reqs := (reqs s)(r := Some rq)\<rparr>) r' = Some rq' \<and> rq_parent rq' = Some p \<and> leads_to s p c))"
    by (intro exI [of _ ch]) blast
qed

lemma clone_ok:
  assumes "queue_ok s" "on_chan c clone_sender s = Ok (x, s')"
  shows "queue_ok s'"
proof -
  obtain ch n where ch: "chans s c = Some ch" "s' = s\<lparr>chans := (chans s)(c := Some (ch\<lparr>ch_senders := n\<rparr>))\<rparr>"
    using assms(2) by (auto simp: on_chan_def clone_sender_def obind_Ok_iff split: option.splits)
  show ?thesis
    by (rule queue_ok_kept [OF assms(1)]) (auto simp: ch intro: same_linksI split: if_splits)
qed

section \<open>What senders see of the queues\<close>

text \<open>The queue that a sender of \<open>c\<close> sends to.\<close>

definition queue_behind :: "('v, 'e, 'p, 'r, 'l, 'k) system \<Rightarrow> chan_ref \<Rightarrow> 'v link_item list option" where
  "queue_behind s c = (case most_resolved s c of
     Some (Ok (d, None)) \<Rightarrow> map_option ch_requests (chans s d) | _ \<Rightarrow> None)"

definition same_queue :: "('v, 'e, 'p, 'r, 'l, 'k) system \<Rightarrow> chan_ref \<Rightarrow> chan_ref \<Rightarrow> bool" where
  "same_queue s c e \<longleftrightarrow> (\<exists>x y. most_resolved s c = Some (Ok x) \<and> most_resolved s e = Some (Ok y) \<and> fst x = fst y)"

lemma queue_behind_at:
  assumes "links_ok s" "chans s c \<noteq> None" "leads_to s c d" "chans s d = Some ch"
  shows "queue_behind s c = (if resolved_as ch = None then Some (ch_requests ch) else None)"
  using most_resolved_walk [OF assms(1,3,2)] assms(4) by (auto simp: queue_behind_def)

lemma same_queue_at:
  assumes "links_ok s" "chans s c \<noteq> None" "chans s e \<noteq> None" "leads_to s c d"
  shows "same_queue s c e \<longleftrightarrow> leads_to s e d"
proof -
  obtain x ch where x: "leads_to s e x" "chans s x = Some ch" by (rule leads_somewhere [OF assms(1,3)])
  show ?thesis
    using most_resolved_walk [OF assms(1,4,2)] most_resolved_walk [OF assms(1) x(1) assms(3)] x(1) leads_to_unique
    by (auto simp: same_queue_def)
qed

text \<open>Every channel has a sender, and may have one more.\<close>

definition senders_ok :: "('v, 'e, 'p, 'r, 'l, 'k) system \<Rightarrow> bool" where
  "senders_ok s \<longleftrightarrow> (\<forall>d ch. chans s d = Some ch \<longrightarrow> ch_senders ch \<noteq> 0 \<and> ch_senders ch \<noteq> - 1)"


text \<open>A channel without a queue behind it was resolved for good.\<close>

lemma queue_behind_None:
  assumes "links_ok s" "chans s c \<noteq> None" "leads_to s c d" "chans s d = Some ch" "resolved_as ch = Some m"
  shows "queue_behind s c = None" "most_resolved s c = Some (Ok (d, Some m))"
  using queue_behind_at [OF assms(1-4)] most_resolved_walk [OF assms(1,3,2)] assms(4,5) by auto



lemma forward_undisturbed:
  assumes "queue_ok s" and "chans s this = Some cht" and "receivable cht" and "chans s other \<noteq> None"
    and "\<not> same_queue s this other" and "queue_behind s other = Some q"
    and "senders_ok s"
  obtains s' where "runs_to (forward_step this other) (FResolve other) s FDone s'" "queue_ok s'" "reqs s' = reqs s"
    "\<And>e. chans s e \<noteq> None \<Longrightarrow> queue_behind s' e =
       (if same_queue s this e \<or> same_queue s other e then Some (q @ ch_requests cht) else queue_behind s e)"
proof -
  note ok = queue_okD(1) [OF assms(1)]
  have here: "leads_to s this this" "chans s this \<noteq> None" using receivable_leads [OF assms(2,3)] assms(2) by simp_all
  obtain d chd where d: "leads_to s other d" "chans s d = Some chd" by (rule leads_somewhere [OF ok assms(4)])
  from queue_behind_at [OF ok assms(4) d] assms(6) have q: "resolved_as chd = None" "ch_requests chd = q"
    by (simp_all split: if_splits)
  have ne: "d \<noteq> this" using same_queue_at [OF ok here(2) assms(4) here(1)] assms(5) d(1) by auto
  let ?s = "forwarded this cht d chd s"
  have run: "runs_to (forward_step this other) (FResolve other) s FDone ?s"
    by (rule forward_alone [OF assms(1-4) d(1)]) (use q d ne assms(7) in \<open>simp add: senders_ok_def\<close>)
  have ok': "queue_ok ?s" and leads: "\<And>c e. leads_to s c e \<Longrightarrow> leads_to ?s c (if e = this then d else e)"
    using forwarded_ok [OF assms(1-3) d(2) q(1) leads_to_end [OF d(1)] ne] by blast+
  have "queue_behind ?s e = (if same_queue s this e \<or> same_queue s other e then Some (q @ ch_requests cht) else queue_behind s e)"
    if e: "chans s e \<noteq> None" for e
  proof -
    obtain x che where x: "leads_to s e x" "chans s x = Some che" by (rule leads_somewhere [OF ok e])
    have e': "chans ?s e \<noteq> None" using e by (simp add: forwarded_def)
    have sq: "same_queue s this e \<longleftrightarrow> x = this" "same_queue s other e \<longleftrightarrow> x = d"
      using same_queue_at [OF ok here(2) e here(1)] same_queue_at [OF ok assms(4) e d(1)] x(1) leads_to_unique by blast+
    define chx where "chx = (if x = this \<or> x = d then chd\<lparr>ch_requests := ch_requests chd @ ch_requests cht,
      ch_waker := (if ch_requests cht = [] then ch_waker chd else None), ch_senders := ch_senders chd + 1\<rparr> else che)"
    have chx: "chans ?s (if x = this then d else x) = Some chx" "ch_atom chx = ch_atom (if x = this \<or> x = d then chd else che)"
      "ch_value chx = ch_value (if x = this \<or> x = d then chd else che)"
      "ch_requests chx = (if x = this \<or> x = d then q @ ch_requests cht else ch_requests che)"
      using x(2) ne q(2) by (auto simp: forwarded_def chx_def)
    have res: "resolved_as chx = resolved_as (if x = this \<or> x = d then chd else che)"
      by (rule resolved_as_cong) (rule chx(2), rule chx(3))
    show ?thesis
      unfolding queue_behind_at [OF queue_okD(1) [OF ok'] e' leads [OF x(1)] chx(1)] res chx(4) sq queue_behind_at [OF ok e x]
      using q(1) by auto
  qed
  with run ok' show thesis by (intro that [of ?s]) (simp_all add: forwarded_def)
qed

lemma forward_cases:
  assumes "queue_ok s" and "chans s this = Some cht" and "receivable cht" and "chans s other \<noteq> None" and "senders_ok s"
  shows "case queue_behind s other of
      Some q \<Rightarrow> if same_queue s this other then runs_to (forward_step this other) (FResolve other) s FReturned s
        else \<exists>s'. runs_to (forward_step this other) (FResolve other) s FDone s' \<and> queue_ok s' \<and>
          (\<forall>e. chans s e \<noteq> None \<longrightarrow> queue_behind s' e =
             (if same_queue s this e \<or> same_queue s other e then Some (q @ ch_requests cht) else queue_behind s e))
    | None \<Rightarrow> \<exists>d m. most_resolved s other = Some (Ok (d, Some m)) \<and> (case m of
        MError e \<Rightarrow> runs_to (forward_step this other) (FResolve other) s (FClose e) s
      | MDropped \<Rightarrow> runs_to (forward_step this other) (FResolve other) s FDone (dropped_receiver this cht s))"
proof -
  note ok = queue_okD(1) [OF assms(1)]
  have here: "leads_to s this this" "chans s this \<noteq> None" using receivable_leads [OF assms(2,3)] assms(2) by simp_all
  obtain d chd where d: "leads_to s other d" "chans s d = Some chd" by (rule leads_somewhere [OF ok assms(4)])
  show ?thesis
  proof (cases "resolved_as chd")
    case (Some m)
    have "case m of MError e \<Rightarrow> runs_to (forward_step this other) (FResolve other) s (FClose e) s
      | MDropped \<Rightarrow> runs_to (forward_step this other) (FResolve other) s FDone (dropped_receiver this cht s)"
      by (rule forward_alone [OF assms(1-4) d(1)]) (use d(2) Some in \<open>simp split: most_resolution.splits\<close>)
    with queue_behind_None [OF ok assms(4) d Some] show ?thesis by simp
  next
    case None
    then have q: "queue_behind s other = Some (ch_requests chd)" using queue_behind_at [OF ok assms(4) d] by simp
    show ?thesis
    proof (cases "same_queue s this other")
      case True
      then have "d = this" using same_queue_at [OF ok here(2) assms(4) here(1)] d(1) leads_to_unique by blast
      then have "runs_to (forward_step this other) (FResolve other) s FReturned s"
        by - (rule forward_alone [OF assms(1-4) d(1)], use d(2) None in simp)
      with q True show ?thesis by simp
    next
      case False
      obtain s' where "runs_to (forward_step this other) (FResolve other) s FDone s'" "queue_ok s'" "\<And>e. chans s e \<noteq> None \<Longrightarrow> queue_behind s' e =
         (if same_queue s this e \<or> same_queue s other e then Some (ch_requests chd @ ch_requests cht) else queue_behind s e)"
        by (rule forward_undisturbed [OF assms(1-4) False q assms(5)]) blast
      with q False show ?thesis by auto
    qed
  qed
qed

text \<open>C25: forwarding a receiver, with no call in between, to a sender that leads to another queue appends its queue, in
  order, to that queue; all senders of either then send to the one queue, and no other queue changes. Where the sender leads
  back to the receiver's own queue, the receiver is given back and nothing changes; where it leads to a channel that was closed with an
  error, the receiver is to be closed with that error; and where to one whose receiver was dropped, the receiver is
  dropped, with what is in its queue. In any case the call ends.\<close>

theorem forward_refines:
  assumes "queue_ok s" and "chans s this = Some cht" and "receivable cht" and "chans s other \<noteq> None" and "senders_ok s"
  shows "case queue_behind s other of
      Some q \<Rightarrow> if same_queue s this other then runs_to (forward_step this other) (FResolve other) s FReturned s
        else \<exists>s'. runs_to (forward_step this other) (FResolve other) s FDone s' \<and> queue_ok s' \<and>
          (\<forall>e. chans s e \<noteq> None \<longrightarrow> queue_behind s' e =
             (if same_queue s this e \<or> same_queue s other e then Some (q @ ch_requests cht) else queue_behind s e))
    | None \<Rightarrow> \<exists>d m. most_resolved s other = Some (Ok (d, Some m)) \<and> (case m of
        MError e \<Rightarrow> runs_to (forward_step this other) (FResolve other) s (FClose e) s
      | MDropped \<Rightarrow> runs_to (forward_step this other) (FResolve other) s FDone (dropped_receiver this cht s))"
  by (rule forward_cases [OF assms])

section \<open>Calls that do not overlap\<close>

text \<open>A receiver is used until it was forwarded, closed or dropped, which its channel shows; a sender that others may
  have cloned, fewer than \<open>2 ^ 64 - 2\<close> times.\<close>

inductive reached :: "('v, 'e, 'p, 'r, 'l, 'k) system \<Rightarrow> bool" where
  start: "reached \<lparr>chans = (\<lambda>_. None), reqs = (\<lambda>_. None), woken = []\<rparr>"
| channel: "reached s \<Longrightarrow> chans s c = None \<Longrightarrow> reached (s\<lparr>chans := (chans s)(c := Some new_channel)\<rparr>)"
| broken: "reached s \<Longrightarrow> chans s c = None \<Longrightarrow> reached (s\<lparr>chans := (chans s)(c := Some (broken e))\<rparr>)"
| request: "reached s \<Longrightarrow> reqs s r = None \<Longrightarrow> reached (s\<lparr>reqs := (reqs s)(r := Some (shared_request_new msg usage n))\<rparr>)"
| clone: "reached s \<Longrightarrow> on_chan c clone_sender s = Ok (u, s') \<Longrightarrow> reached s'"
| send: "reached s \<Longrightarrow> chans s c \<noteq> None \<Longrightarrow> sendable s item \<Longrightarrow> runs_to (send_step item) (SResolve c) s pc s' \<Longrightarrow>
    pc = SSent \<or> pc = SFailed m \<Longrightarrow> reached s'"
| forward: "reached s \<Longrightarrow> chans s this = Some cht \<Longrightarrow> receivable cht \<Longrightarrow> chans s other \<noteq> None \<Longrightarrow>
    senders_ok s \<Longrightarrow>
    runs_to (forward_step this other) (FResolve other) s pc s' \<Longrightarrow> pc \<in> {FDone, FReturned, FClose e} \<Longrightarrow> reached s'"
| receive: "reached s \<Longrightarrow> chans s c = Some ch \<Longrightarrow> receivable ch \<Longrightarrow> poll_recv w c s = Ok (x, s') \<Longrightarrow> reached s'"
| drop_receiver: "reached s \<Longrightarrow> chans s c = Some ch \<Longrightarrow> receivable ch \<Longrightarrow> on_chan c receiver_drop s = Ok (u, s') \<Longrightarrow> reached s'"

lemma send_through: "pc = SSent \<or> pc = SFailed m \<Longrightarrow> send_step item pc s = Some (Ok (pc, s))"
  by (auto simp: send_step_def)

lemma forward_through: "pc \<in> {FDone, FReturned, FClose e} \<Longrightarrow> forward_step this other pc s = Some (Ok (pc, s))"
  by (auto simp: forward_step_def)

lemma reached_ok: "reached s \<Longrightarrow> queue_ok s"
proof (induction rule: reached.induct)
  case start
  show ?case by (simp add: queue_ok_def links_ok_def forwards_def)
next
  case (channel s c)
  then show ?case by (intro new_chan_ok) (auto simp: new_channel_def shared_channel_def flag_simps)
next
  case (broken s c e)
  then show ?case by (intro new_chan_ok) (auto simp: broken_def shared_channel_def atomic_new_set_def flag_simps)
next
  case (request s r msg usage n)
  then show ?case by (intro new_req_ok)
next
  case (clone s c u s')
  show ?case by (rule clone_ok [OF clone.IH clone.hyps(2)])
next
  case (send s c item pc s' m)
  obtain d dch where d: "leads_to s c d" "chans s d = Some dch" by (rule leads_somewhere [OF queue_okD(1) [OF send.IH] send.hyps(2)])
  obtain ch where ch: "chans s d = Some ch"
    "case resolved_as ch of None \<Rightarrow> runs_to (send_step item) (SResolve c) s SSent (if unwanted s item then refused item s else delivered item d d ch s)
     | Some m \<Rightarrow> runs_to (send_step item) (SResolve c) s (SFailed m) s"
    by (rule send_alone [OF send.IH send.hyps(2) d(1) send.hyps(3)])
  note unique = runs_to_unique [where step = "send_step item", OF send.hyps(4) send_through [OF send.hyps(5)]]
  show ?case
  proof (cases "resolved_as ch")
    case None
    then have "s' = (if unwanted s item then refused item s else delivered item d d ch s)"
      using unique [OF _ send_through [of SSent]] ch(2) by auto
    then show ?thesis
      using refused_ok [OF send.IH send.hyps(3)] delivered_ok [OF send.IH ch(1) leads_to_end [OF d(1)] send.hyps(3)] by simp
  next
    case (Some m')
    then show ?thesis using unique [OF _ send_through [of "SFailed m'" m']] ch(2) send.IH by auto
  qed
next
  case (forward s this cht other pc s' e)
  obtain d dch where d: "leads_to s other d" "chans s d = Some dch" by (rule leads_somewhere [OF queue_okD(1) [OF forward.IH] forward.hyps(4)])
  obtain chd where ch: "chans s d = Some chd" "case resolved_as chd of
       None \<Rightarrow> if d = this then runs_to (forward_step this other) (FResolve other) s FReturned s
         else ch_senders chd \<noteq> 0 \<longrightarrow> ch_senders chd \<noteq> - 1 \<longrightarrow>
           runs_to (forward_step this other) (FResolve other) s FDone (forwarded this cht d chd s)
     | Some MDropped \<Rightarrow> runs_to (forward_step this other) (FResolve other) s FDone (dropped_receiver this cht s)
     | Some (MError e) \<Rightarrow> runs_to (forward_step this other) (FResolve other) s (FClose e) s"
    by (rule forward_alone [OF forward.IH forward.hyps(2-4) d(1)])
  have unique: "s' = s1" if "runs_to (forward_step this other) (FResolve other) s pc1 s1" "pc1 \<in> {FDone, FReturned, FClose e1}" for pc1 s1 e1
    using runs_to_unique [where step = "forward_step this other", OF forward.hyps(6) forward_through [OF forward.hyps(7)] that(1) forward_through [OF that(2)]]
    by simp
  show ?case
  proof (cases "resolved_as chd")
    case None
    show ?thesis
    proof (cases "d = this")
      case True
      with None ch(2) have "s' = s" by (intro unique [of FReturned]) simp_all
      with forward.IH show ?thesis by simp
    next
      case False
      have "ch_senders chd \<noteq> 0 \<and> ch_senders chd \<noteq> - 1" using forward.hyps(5) ch(1) by (simp add: senders_ok_def)
      with False None ch(2) have "s' = forwarded this cht d chd s" by (intro unique [of FDone]) simp_all
      then show ?thesis
        using forwarded_ok(1) [OF forward.IH forward.hyps(2,3) ch(1) None leads_to_end [OF d(1)] False] by simp
    qed
  next
    case (Some m)
    show ?thesis
    proof (cases m)
      case MDropped
      with Some ch(2) have "s' = dropped_receiver this cht s" by (intro unique [of FDone]) simp_all
      with dropped_receiver_ok [OF forward.IH forward.hyps(2)] show ?thesis by simp
    next
      case (MError e1)
      with Some ch(2) have "s' = s" by (intro unique [of "FClose e1"]) simp_all
      with forward.IH show ?thesis by simp
    qed
  qed
next
  case (receive s c ch w x s')
  show ?case
  proof (cases "ch_requests ch")
    case Nil
    then have "s' = waiting w c ch s" using poll_recv_alone [OF receive.IH receive.hyps(2)] receive.hyps(4) by simp
    with waiting_ok [OF receive.IH receive.hyps(2)] show ?thesis by simp
  next
    case (Cons item rest)
    then have "s' = received c ch item rest s" using poll_recv_alone [OF receive.IH receive.hyps(2)] receive.hyps(4) by simp
    with received_ok [OF receive.IH receive.hyps(2) Cons] show ?thesis by simp
  qed
next
  case (drop_receiver s c ch u s')
  then have "s' = dropped_receiver c ch s" using drop_receivable [OF drop_receiver.hyps(2,3)] by simp
  with dropped_receiver_ok [OF drop_receiver.IH drop_receiver.hyps(2)] show ?case by simp
qed

text \<open>C30: after any calls that do not overlap, no walk along forwarded channels goes around in circles: every channel in use leads to one that is not forwarded,
  and the walks find it and how it is resolved. A forwarded channel keeps no requests, and the parent of a queued request leads to
  the channel it is queued in.\<close>

theorem channels_lead_somewhere:
  assumes "reached s" and "chans s c = Some ch"
  shows "\<exists>d chd. leads_to s c d \<and> chans s d = Some chd \<and> most_resolved s c = Some (Ok (d, resolved_as chd)) \<and>
    most_unresolved s c = Some (Ok (if resolved_as chd = None then Some d else None)) \<and>
    (d \<noteq> c \<longrightarrow> ch_requests ch = []) \<and>
    (\<forall>r. LRequest r \<in> set (ch_requests ch) \<longrightarrow> (\<exists>rq p. reqs s r = Some rq \<and> rq_parent rq = Some p \<and> leads_to s p c))"
proof -
  note ok = reached_ok [OF assms(1)]
  have c: "chans s c \<noteq> None" using assms(2) by simp
  obtain d dch where d: "leads_to s c d" "chans s d = Some dch" by (rule leads_somewhere [OF queue_okD(1) [OF ok] c])
  have "ch_requests ch = []" if "d \<noteq> c"
    using that d(1) queue_okD(3) [OF ok assms(2)] by (auto simp: leads_to_def elim: converse_rtranclpE)
  with most_resolved_walk [OF queue_okD(1) [OF ok] d(1) c] queue_okD(4) [OF ok assms(2)] d show ?thesis by auto
qed

section \<open>Witnesses\<close>

text \<open>Two channels and a request.\<close>

definition two_channels :: "(nat, nat, nat, nat, nat, nat) system" where
  "two_channels = \<lparr>chans = (\<lambda>_. None)(1 := Some new_channel, 2 := Some new_channel),
     reqs = (\<lambda>_. None)(5 := Some (shared_request_new 0 Response 1)), woken = []\<rparr>"

lemma two_channels_reached: "reached two_channels"
  using reached.request [OF reached.channel [OF reached.channel [OF reached.start, of 1], of 2], of 5 0 Response 1]
  by (simp add: two_channels_def)

lemmas two_channels_ok = reached_ok [OF two_channels_reached]

lemma two_channels_at:
  "chans two_channels 1 = Some new_channel" "chans two_channels 2 = Some new_channel" "receivable new_channel"
  "resolved_as new_channel = None" "sendable two_channels (LRequest 5)" "\<not> unwanted two_channels (LRequest 5)"
  by (simp_all add: two_channels_def receivable_def new_channel_def shared_channel_def flags_state_def flag_simps resolved_as_def
      shared_request_new_def is_finished_def)



lemma two_channels_senders: "senders_ok two_channels"
  by (auto simp: senders_ok_def two_channels_def new_channel_def shared_channel_def split: if_splits)


text \<open>An event in the queue of each of the two, 7 in that of the first and 8 in that of the second.\<close>

definition two_queues :: "(nat, nat, nat, nat, nat, nat) system" where
  "two_queues = delivered (LEvent 8) 2 2 new_channel (delivered (LEvent 7) 1 1 new_channel two_channels)"

lemma two_queues_at:
  "chans two_queues 1 = Some (new_channel\<lparr>ch_requests := [LEvent 7]\<rparr>)"
  "chans two_queues 2 = Some (new_channel\<lparr>ch_requests := [LEvent 8]\<rparr>)"
  "receivable ((new_channel :: (nat, nat) channel)\<lparr>ch_requests := xs\<rparr>)"
  by (simp_all add: two_queues_def delivered_def new_channel_def shared_channel_def two_channels_def receivable_def flags_state_def flag_simps)

lemma two_queues_ok: "queue_ok two_queues" "senders_ok two_queues"
proof -
  let ?s = "delivered (LEvent 7) 1 1 new_channel two_channels"
  have "queue_ok ?s"
    by (rule delivered_ok [OF two_channels_ok two_channels_at(1) receivable_leads [OF two_channels_at(1,3)]]) simp
  moreover have c: "chans ?s 2 = Some new_channel" by (simp add: delivered_def two_channels_at(2))
  ultimately show "queue_ok two_queues"
    unfolding two_queues_def by (rule delivered_ok [OF _ _ receivable_leads [OF c two_channels_at(3)]]) simp
  show "senders_ok two_queues"
    by (auto simp: senders_ok_def two_queues_def delivered_def two_channels_def new_channel_def shared_channel_def split: if_splits)
qed

lemma two_queues_walks: "most_resolved two_queues 1 = Some (Ok (1, None))" "most_resolved two_queues 2 = Some (Ok (2, None))"
  by (subst most_resolved.simps, simp add: try_resolved_def two_queues_at(1,2), simp add: new_channel_def shared_channel_def flags_state_def flag_simps)+

text \<open>The event 7 comes after the event 8, and both channels lead to the queue.\<close>

theorem forward_refines_witness:
  "\<exists>s'. runs_to (forward_step 1 2) (FResolve 2) two_queues FDone s' \<and> queue_ok s' \<and>
    queue_behind s' 1 = Some [LEvent 8, LEvent 7] \<and> queue_behind s' 2 = Some [LEvent 8, LEvent 7]"
proof -
  have q: "queue_behind two_queues 2 = Some [LEvent 8]" "\<not> same_queue two_queues 1 2" "same_queue two_queues 1 1" "same_queue two_queues 2 2"
    by (simp_all add: queue_behind_def same_queue_def two_queues_walks two_queues_at)
  from forward_refines [OF two_queues_ok(1) two_queues_at(1,3) _ two_queues_ok(2), of 2]
  obtain s' where s': "runs_to (forward_step 1 2) (FResolve 2) two_queues FDone s'" "queue_ok s'"
    "\<And>e. chans two_queues e \<noteq> None \<Longrightarrow> queue_behind s' e = (if same_queue two_queues 1 e \<or> same_queue two_queues 2 e
       then Some ([LEvent 8] @ [LEvent 7]) else queue_behind two_queues e)"
    using q two_queues_at(2) by auto
  have "queue_behind s' 1 = Some [LEvent 8, LEvent 7]" "queue_behind s' 2 = Some [LEvent 8, LEvent 7]"
    using s'(3) [of 1] s'(3) [of 2] q by (simp_all add: two_queues_at)
  with s'(1,2) show ?thesis by blast
qed

theorem channels_lead_somewhere_witness: "\<exists>d. leads_to two_channels 1 d"
  using channels_lead_somewhere [OF two_channels_reached two_channels_at(1)] by blast

end
