(* ===== verification/Channel_Races.thy ===== *)
theory Channel_Races
  imports Channel_Queue
begin

text \<open>
  Calls on channels that overlap (\<^verbatim>\<open>recapn-channel/src/mpsc.rs\<close>): any number of threads in \<open>send\<close>, \<open>send_event\<close> and
  \<open>forward_to\<close>, which take turns. They never wait for each other forever, because \<open>forward_to\<close> takes its locks in
  the order of their addresses. But both calls go on with the lock of a channel that was forwarded while they waited for it.
\<close>

section \<open>Threads that take turns\<close>

datatype ('v, 'e) thread = TSend "'v link_item" "'e send_pc" | TForward chan_ref chan_ref "'e forward_pc"

fun thread_step :: "('v, 'e) thread \<Rightarrow> ('v, 'e, 'p, 'r, 'l, 'k) system \<Rightarrow> (unit, ('v, 'e) thread \<times> ('v, 'e, 'p, 'r, 'l, 'k) system) outcome option" where
  "thread_step (TSend item pc) s = map_option (\<lambda>x. obind x (\<lambda>(pc', s'). Ok (TSend item pc', s'))) (send_step item pc s)"
| "thread_step (TForward this other pc) s =
     map_option (\<lambda>x. obind x (\<lambda>(pc', s'). Ok (TForward this other pc', s'))) (forward_step this other pc s)"

inductive interleaved :: "('v, 'e) thread list \<Rightarrow> ('v, 'e, 'p, 'r, 'l, 'k) system \<Rightarrow>
    ('v, 'e) thread list \<Rightarrow> ('v, 'e, 'p, 'r, 'l, 'k) system \<Rightarrow> bool" where
  start: "interleaved ts s ts s"
| turn: "interleaved ts s ts1 s1 \<Longrightarrow> i < length ts1 \<Longrightarrow> thread_step (ts1 ! i) s1 = Some (Ok (t, s')) \<Longrightarrow> interleaved ts s (ts1[i := t]) s'"

fun through :: "('v, 'e) thread \<Rightarrow> bool" where
  "through (TSend _ pc) \<longleftrightarrow> (case pc of SSent \<Rightarrow> True | SFailed _ \<Rightarrow> True | _ \<Rightarrow> False)"
| "through (TForward _ _ pc) \<longleftrightarrow> (case pc of FDone \<Rightarrow> True | FReturned \<Rightarrow> True | FClose _ \<Rightarrow> True | _ \<Rightarrow> False)"

fun at_start :: "('v, 'e) thread \<Rightarrow> bool" where
  "at_start (TSend _ pc) \<longleftrightarrow> (case pc of SResolve _ \<Rightarrow> True | _ \<Rightarrow> False)"
| "at_start (TForward _ _ pc) \<longleftrightarrow> (case pc of FResolve _ \<Rightarrow> True | _ \<Rightarrow> False)"

section \<open>Who holds which lock\<close>

fun holds :: "('v, 'e) thread \<Rightarrow> chan_ref set" where
  "holds (TSend _ pc) = (case pc of SRecheck l _ \<Rightarrow> {l} | SPush l _ \<Rightarrow> {l} | _ \<Rightarrow> {})"
| "holds (TForward this _ pc) = (case pc of FLock2 os \<Rightarrow> {min this os} | FRecheck os _ \<Rightarrow> {this, os} | FMove os _ \<Rightarrow> {this, os}
     | FAppend os \<Rightarrow> {this, os} | _ \<Rightarrow> {})"

fun locks_ordered :: "('v, 'e) thread \<Rightarrow> bool" where
  "locks_ordered (TSend _ _) \<longleftrightarrow> True"
| "locks_ordered (TForward this _ pc) \<longleftrightarrow> (case pc of FLock2 os \<Rightarrow> this \<noteq> os | FRecheck os _ \<Rightarrow> this \<noteq> os | FMove os _ \<Rightarrow> this \<noteq> os
     | FAppend os \<Rightarrow> this \<noteq> os | _ \<Rightarrow> True)"

definition locked_in :: "('v, 'e, 'p, 'r, 'l, 'k) system \<Rightarrow> chan_ref set" where
  "locked_in s = {c. \<exists>ch. chans s c = Some ch \<and> ch_locked ch}"

lemma locked_in_upd [simp]:
  "locked_in (s\<lparr>chans := (chans s)(c := Some ch)\<rparr>) = (if ch_locked ch then insert c (locked_in s) else locked_in s - {c})"
  "locked_in (s\<lparr>reqs := x\<rparr>) = locked_in s" "locked_in (s\<lparr>woken := w\<rparr>) = locked_in s"
  by (auto simp: locked_in_def)

text \<open>What an operation on one channel does to its lock.\<close>

lemma on_chan_locked:
  assumes "on_chan c m s = Ok (x, s')" "\<And>ch y ch'. m ch = Ok (y, ch') \<Longrightarrow> ch_locked ch' = ch_locked ch"
  shows "locked_in s' = locked_in s"
proof -
  obtain ch ch' where ch: "chans s c = Some ch" "m ch = Ok (x, ch')" "s' = s\<lparr>chans := (chans s)(c := Some ch')\<rparr>"
    using assms(1) by (auto simp: on_chan_def obind_Ok_iff split: option.splits)
  from assms(2) [OF ch(2)] ch(1,3) show ?thesis by (auto simp: locked_in_def)
qed

lemma on_req_locked: "on_req r m s = Ok (x, s') \<Longrightarrow> locked_in s' = locked_in s"
  by (auto simp: on_req_def obind_Ok_iff split: option.splits)

lemma on_chan_unlock: "on_chan c unlock s = Ok (x, s') \<Longrightarrow> locked_in s' = locked_in s - {c}"
  by (auto simp: on_chan_def unlock_def split: option.splits)

lemma lock_locked: "lock c s = Some (Ok s') \<Longrightarrow> c \<notin> locked_in s \<and> locked_in s' = insert c (locked_in s)"
  by (auto simp: lock_def locked_in_def split: option.splits if_splits)

lemma lock_waits: "lock c s = None \<longleftrightarrow> c \<in> locked_in s"
  by (auto simp: lock_def locked_in_def split: option.splits)

lemma send_locked_locked:
  assumes "send_locked l c item s = Ok (x, s')"
  shows "locked_in s' = locked_in s"
  using assms
  by (cases item) (auto simp: send_locked_def obind_Ok_iff split: if_splits dest!: on_req_locked
    dest!: on_chan_locked [where m = "push_request _"] on_chan_locked [where m = take_waker] on_chan_locked [where m = pop_last_request]
    simp: push_request_def take_waker_def pop_last_request_def)

lemma walk_OkE:
  assumes "walk s c on unresolved resolved = Ok x"
  obtains d where "on d = Ok x" | "unresolved = Ok x" | m where "resolved m = Ok x"
proof -
  obtain res where res: "(case res of None \<Rightarrow> unresolved | Some (Forwarded d) \<Rightarrow> on d | Some RDropped \<Rightarrow> resolved MDropped
      | Some (RError e) \<Rightarrow> resolved (MError e)) = Ok x"
    using assms by (auto simp: walk_def obind_Ok_iff)
  show thesis
  proof (cases res)
    case None
    with res that(2) show thesis by simp
  next
    case (Some r)
    with res that(1,3) show thesis by (cases r) auto
  qed
qed

text \<open>What a turn of one thread does to the locks: it gives up what it held, and takes what was free.\<close>

definition lock_turn :: "chan_ref set \<Rightarrow> ('v, 'e, 'p, 'r, 'l, 'k) system \<Rightarrow> chan_ref set \<Rightarrow> ('v, 'e, 'p, 'r, 'l, 'k) system \<Rightarrow> bool" where
  "lock_turn H s H' s' \<longleftrightarrow> locked_in s' = (locked_in s - H) \<union> H' \<and> H' \<inter> (locked_in s - H) = {}"

lemma lock_turn_same: "locked_in s' = locked_in s \<Longrightarrow> H \<subseteq> locked_in s \<Longrightarrow> lock_turn H s H s'"
  by (auto simp: lock_turn_def)

lemma lock_turn_off: "locked_in s' = locked_in s - H \<Longrightarrow> lock_turn H s {} s'"
  by (auto simp: lock_turn_def)

lemma lock_turn_on: "lock c s = Some (Ok s') \<Longrightarrow> H \<subseteq> locked_in s \<Longrightarrow> lock_turn H s (insert c H) s'"
  using lock_locked [of c s s'] by (auto simp: lock_turn_def)

lemma send_turn:
  assumes "send_step item pc s = Some (Ok (pc', s'))" "holds (TSend item pc) \<subseteq> locked_in s"
  shows "lock_turn (holds (TSend item pc)) s (holds (TSend item pc')) s'"
proof (cases pc)
  case (SResolve c)
  with assms show ?thesis by (auto simp: send_step_def elim!: walk_OkE intro!: lock_turn_same)
next
  case (SLock c)
  with assms(1) have "lock c s = Some (Ok s')" "pc' = SRecheck c c"
    by (auto simp: send_step_def obind_Ok_iff)
  with SLock show ?thesis using lock_turn_on [of c s s' "{}"] by simp
next
  case (SRecheck l c)
  with assms show ?thesis
    by (auto simp: send_step_def obind_Ok_iff elim!: walk_OkE intro!: lock_turn_same lock_turn_off dest!: on_chan_unlock)
next
  case (SPush l c)
  with assms show ?thesis
    by (auto simp: send_step_def obind_Ok_iff dest!: send_locked_locked on_chan_unlock intro!: lock_turn_off split: option.splits)
next
  case (SWake w)
  with assms show ?thesis by (auto simp: send_step_def wake_def intro!: lock_turn_same)
qed (use assms in \<open>auto simp: send_step_def intro!: lock_turn_same\<close>)

lemma forward_turn:
  fixes s :: "('v, 'e, 'p, 'r, 'l, 'k) system"
  assumes "forward_step this other pc s = Some (Ok (pc', s'))" "holds (TForward this other pc) \<subseteq> locked_in s"
    and "locks_ordered (TForward this other pc :: ('v, 'e) thread)"
  shows "lock_turn (holds (TForward this other pc :: ('v, 'e) thread)) s (holds (TForward this other pc' :: ('v, 'e) thread)) s' \<and>
    locks_ordered (TForward this other pc' :: ('v, 'e) thread)"
proof (cases pc)
  case (FResolve c)
  with assms show ?thesis
    by (auto simp: forward_step_def forward_end_def elim!: walk_OkE intro!: lock_turn_same split: most_resolution.splits)
next
  case (FLock os)
  show ?thesis
  proof (cases "this = os")
    case True
    with FLock assms show ?thesis by (auto simp: forward_step_def intro!: lock_turn_same)
  next
    case False
    with FLock assms(1) have "lock (min this os) s = Some (Ok s')" "pc' = FLock2 os"
      by (auto simp: forward_step_def obind_Ok_iff)
    with FLock False show ?thesis using lock_turn_on [of "min this os" s s' "{}"] by simp
  qed
next
  case (FLock2 os)
  with assms(1) have l: "lock (max this os) s = Some (Ok s')" "pc' = FRecheck os other"
    by (auto simp: forward_step_def obind_Ok_iff)
  have "insert (max this os) {min this os} = {this, os}" by (auto simp: max_def min_def)
  with l FLock2 assms(2,3) lock_turn_on [OF l(1), of "{min this os}"] show ?thesis by simp
next
  case (FRecheck os c)
  with assms show ?thesis
    by (auto simp: forward_step_def obind_Ok_iff forward_end_def elim!: walk_OkE intro!: lock_turn_same lock_turn_off dest!: on_chan_unlock
        split: most_resolution.splits)
next
  case (FMove os c)
  have keep: "clone_sender ch = Ok (y, ch') \<Longrightarrow> ch_locked ch' = ch_locked ch"
    "resolve v ch = Ok (z, ch') \<Longrightarrow> ch_locked ch' = ch_locked ch"
    "sender_drop ch = Ok (y, ch') \<Longrightarrow> ch_locked ch' = ch_locked ch" for ch ch' :: "('v, 'e) channel" and y z v
    by (auto simp: clone_sender_def resolve_def sender_drop_def Let_def obind_Ok_iff split: if_splits)
  from FMove assms(1) obtain u s1 v s2 where s1: "on_chan c clone_sender s = Ok (u, s1)" "on_chan this (resolve (Forward c)) s1 = Ok (v, s2)"
    "(case v of Some (Forward d) \<Rightarrow> on_chan d sender_drop | Some (ChanError e) \<Rightarrow> dret () | None \<Rightarrow> dret ()) s2 = Ok ((), s')" "pc' = FAppend os"
    by (auto simp: forward_step_def resolve_channel_def obind_Ok_iff)
  have "locked_in s' = locked_in s2"
  proof (cases "\<exists>d. v = Some (Forward d)")
    case True
    then obtain d where "on_chan d sender_drop s2 = Ok ((), s')" using s1(3) by auto
    then show ?thesis by (rule on_chan_locked) (rule keep(3))
  qed (use s1(3) in \<open>auto split: option.splits channel_resolution.splits\<close>)
  then have "locked_in s' = locked_in s" using on_chan_locked [OF s1(1) keep(1)] on_chan_locked [OF s1(2) keep(2)] by simp
  with s1(4) FMove assms(2,3) show ?thesis by (auto intro!: lock_turn_same)
next
  case (FAppend os)
  have keep: "take_requests ch = Ok (q, ch') \<Longrightarrow> ch_locked ch' = ch_locked ch" "append_requests q ch = Ok (y, ch') \<Longrightarrow> ch_locked ch' = ch_locked ch"
    "take_waker ch = Ok (w, ch') \<Longrightarrow> ch_locked ch' = ch_locked ch" for ch ch' :: "('v, 'e) channel" and y q w
    by (auto simp: take_requests_def append_requests_def take_waker_def)
  from FAppend assms(1) obtain items s1 waker s2 u s3 v where s1: "on_chan this take_requests s = Ok (items, s1)"
    "(if items = [] then dret None else dbind (on_chan os (append_requests items)) (\<lambda>_. on_chan os take_waker)) s1 = Ok (waker, s2)"
    "on_chan os unlock s2 = Ok (u, s3)" "on_chan this unlock s3 = Ok (v, s')" "pc' = (case waker of Some w \<Rightarrow> FWake w | None \<Rightarrow> FDrop)"
    by (auto simp: forward_step_def obind_Ok_iff)
  have "locked_in s2 = locked_in s1"
  proof (cases "items = []")
    case True
    with s1(2) show ?thesis by simp
  next
    case False
    with s1(2) obtain y s4 where a: "on_chan os (append_requests items) s1 = Ok (y, s4)" "on_chan os take_waker s4 = Ok (waker, s2)"
      by (auto simp: obind_Ok_iff)
    show ?thesis using on_chan_locked [OF a(1) keep(2)] on_chan_locked [OF a(2) keep(3)] by simp
  qed
  then have "locked_in s' = locked_in s - {this, os}"
    using on_chan_locked [OF s1(1) keep(1)] on_chan_unlock [OF s1(3)] on_chan_unlock [OF s1(4)] by auto
  then have "lock_turn {this, os} s {} s'" by (rule lock_turn_off)
  with FAppend s1(5) show ?thesis by (cases waker) simp_all
next
  case (FWake w)
  with assms show ?thesis by (auto simp: forward_step_def wake_def intro!: lock_turn_same)
next
  case FDrop
  have "receiver_drop ch = Ok (y, ch') \<Longrightarrow> ch_locked ch' = ch_locked ch" for ch ch' :: "('v, 'e) channel" and y
    by (auto simp: receiver_drop_def close_receiver_def split: if_splits)
  with FDrop assms show ?thesis by (auto simp: forward_step_def obind_Ok_iff dest!: on_chan_locked intro!: lock_turn_same)
qed (use assms in \<open>auto simp: forward_step_def intro!: lock_turn_same\<close>)

section \<open>No deadlock\<close>

definition locks_ok :: "('v, 'e) thread list \<Rightarrow> ('v, 'e, 'p, 'r, 'l, 'k) system \<Rightarrow> bool" where
  "locks_ok ts s \<longleftrightarrow> (\<Union>t \<in> set ts. holds t) = locked_in s \<and> (\<forall>t \<in> set ts. locks_ordered t) \<and>
     (\<forall>i < length ts. \<forall>j < length ts. i \<noteq> j \<longrightarrow> holds (ts ! i) \<inter> holds (ts ! j) = {})"

lemma thread_turn:
  assumes "thread_step t s = Some (Ok (t', s'))" "holds t \<subseteq> locked_in s" "locks_ordered t"
  shows "lock_turn (holds t) s (holds t') s' \<and> locks_ordered t'"
proof (cases t)
  case (TSend item pc)
  with assms(1) obtain pc' where pc': "send_step item pc s = Some (Ok (pc', s'))" "t' = TSend item pc'"
    by (auto simp: obind_Ok_iff)
  have "lock_turn (holds (TSend item pc)) s (holds (TSend item pc')) s'"
    by (rule send_turn [OF pc'(1)]) (use assms(2) TSend in simp)
  with TSend pc'(2) show ?thesis by simp
next
  case (TForward this other pc)
  with assms(1) obtain pc' where pc': "forward_step this other pc s = Some (Ok (pc', s'))" "t' = TForward this other pc'"
    by (auto simp: obind_Ok_iff)
  from forward_turn [OF pc'(1)] assms(2,3) TForward pc'(2) show ?thesis by simp
qed

lemma turn_locks_ok:
  assumes "locks_ok ts s" "i < length ts" "thread_step (ts ! i) s = Some (Ok (t, s'))"
  shows "locks_ok (ts[i := t]) s'"
proof -
  let ?ts = "ts[i := t]"
  have i: "ts ! i \<in> set ts" using assms(2) by simp
  have held: "(\<Union>t \<in> set ts. holds t) = locked_in s" "\<forall>t \<in> set ts. locks_ordered t"
    and apart: "\<And>j k. j < length ts \<Longrightarrow> k < length ts \<Longrightarrow> j \<noteq> k \<Longrightarrow> holds (ts ! j) \<inter> holds (ts ! k) = {}"
    using assms(1) unfolding locks_ok_def by blast+
  have turn: "lock_turn (holds (ts ! i)) s (holds t) s'" "locks_ordered t"
    using thread_turn [OF assms(3)] held i by auto
  have others: "holds (ts ! j) \<subseteq> locked_in s - holds (ts ! i)" if "j < length ts" "j \<noteq> i" for j
    using that apart [of j i] assms(2) held(1) nth_mem by blast
  have sets: "(\<Union>t \<in> set xs. holds t) = (\<Union>j < length xs. holds (xs ! j))" for xs :: "('a, 'b) thread list"
    unfolding set_conv_nth by blast
  have "locked_in s - holds (ts ! i) = (\<Union>j \<in> {..<length ts} - {i}. holds (ts ! j))"
  proof -
    have "{..<length ts} = insert i ({..<length ts} - {i})" using assms(2) by auto
    then have "locked_in s = holds (ts ! i) \<union> (\<Union>j \<in> {..<length ts} - {i}. holds (ts ! j))"
      unfolding held(1) [symmetric] sets by auto
    then show ?thesis using others by auto
  qed
  moreover have "(\<Union>j < length ?ts. holds (?ts ! j)) = holds t \<union> (\<Union>j \<in> {..<length ts} - {i}. holds (ts ! j))"
    using assms(2) by (auto simp: nth_list_update split: if_splits)
  ultimately have "(\<Union>t \<in> set ?ts. holds t) = locked_in s'"
    unfolding sets using turn(1) by (auto simp: lock_turn_def)
  moreover have "\<forall>t \<in> set ?ts. locks_ordered t" using held(2) turn(2) set_update_subset_insert [of ts i t] by auto
  moreover have "holds (?ts ! j) \<inter> holds (?ts ! k) = {}" if "j < length ?ts" "k < length ?ts" "j \<noteq> k" for j k
  proof -
    have "holds t \<inter> holds (ts ! l) = {}" "holds (ts ! l) \<inter> holds t = {}" if "l < length ts" "l \<noteq> i" for l
      using others [OF that] turn(1) by (auto simp: lock_turn_def)
    then show ?thesis using that apart [of j k] by (cases "j = i"; cases "k = i") (simp_all add: nth_list_update)
  qed
  ultimately show ?thesis unfolding locks_ok_def by blast
qed

lemma start_locks_ok:
  assumes "\<forall>t \<in> set ts. at_start t" "locked_in s = {}"
  shows "locks_ok ts s"
proof -
  have "holds t = {} \<and> locks_ordered t" if "t \<in> set ts" for t
    using assms(1) that by (cases t) (auto split: send_pc.splits forward_pc.splits)
  then show ?thesis using assms(2) unfolding locks_ok_def by (auto dest: nth_mem)
qed

lemma interleaved_locks_ok: "interleaved ts s ts' s' \<Longrightarrow> locks_ok ts s \<Longrightarrow> locks_ok ts' s'"
  by (induction rule: interleaved.induct) (auto intro: turn_locks_ok)

text \<open>A thread that waits holds at most one lock, at a lower address than the one it waits for.\<close>

lemma waits_for:
  assumes "thread_step t s = None" "locks_ordered t"
  obtains c where "c \<in> locked_in s" "\<And>d. d \<in> holds t \<Longrightarrow> d < c"
proof (cases t)
  case (TSend item pc)
  with assms(1) obtain c where "pc = SLock c" "c \<in> locked_in s"
    by (auto simp: send_step_def lock_waits split: send_pc.splits)
  with TSend that show thesis by simp
next
  case (TForward this other pc)
  show thesis
  proof (cases pc)
    case (FLock os)
    with TForward assms(1) have "min this os \<in> locked_in s" by (auto simp: forward_step_def lock_waits split: if_splits)
    with FLock TForward that show thesis by simp
  next
    case (FLock2 os)
    with TForward assms have "max this os \<in> locked_in s" "this \<noteq> os" by (auto simp: forward_step_def lock_waits)
    moreover from this(2) have "min this os < max this os" by (auto simp: min_def max_def)
    ultimately show thesis using FLock2 TForward that [of "max this os"] by simp
  qed (use TForward assms(1) in \<open>auto simp: forward_step_def split: if_splits\<close>)
qed

text \<open>C27: any number of threads that send and forward, however they interleave, never deadlock: as long as one of them is not
  through, one of them that is not through does not wait for a lock.\<close>

theorem no_deadlock:
  assumes "interleaved ts s ts' s'" and "\<forall>t \<in> set ts. at_start t" and "\<forall>c ch. chans s c = Some ch \<longrightarrow> \<not> ch_locked ch"
    and "t0 \<in> set ts'" and "\<not> through t0"
  shows "\<exists>t \<in> set ts'. \<not> through t \<and> thread_step t s' \<noteq> None"
proof (rule ccontr)
  assume "\<not> ?thesis"
  then have stuck: "\<And>t. t \<in> set ts' \<Longrightarrow> \<not> through t \<Longrightarrow> thread_step t s' = None" by blast
  have "locked_in s = {}" using assms(3) by (auto simp: locked_in_def)
  then have ok: "locks_ok ts' s'" using interleaved_locks_ok [OF assms(1)] start_locks_ok [OF assms(2)] by blast
  then have held: "(\<Union>t \<in> set ts'. holds t) = locked_in s'" "\<forall>t \<in> set ts'. locks_ordered t" by (simp_all add: locks_ok_def)
  have "finite (holds t)" for t :: "('a, 'b) thread" by (cases t) (auto split: send_pc.split forward_pc.split)
  then have fin: "finite (locked_in s')" unfolding held(1) [symmetric] by blast
  obtain c0 where c0: "c0 \<in> locked_in s'"
    by (rule waits_for [OF stuck [OF assms(4,5)]]) (use held(2) assms(4) in blast)+
  define m where "m = Max (locked_in s')"
  have m: "m \<in> locked_in s'" "\<And>c. c \<in> locked_in s' \<Longrightarrow> c \<le> m"
    unfolding m_def by (rule Max_in [OF fin], use c0 in blast, rule Max_ge [OF fin])
  obtain t where t: "t \<in> set ts'" "m \<in> holds t" using m(1) unfolding held(1) [symmetric] by blast
  have "\<not> through t" using t(2) by (cases t) (auto split: send_pc.splits forward_pc.splits)
  obtain c where "c \<in> locked_in s'" "m < c"
    by (rule waits_for [OF stuck [OF t(1) \<open>\<not> through t\<close>]]) (use held(2) t in blast)+
  with m(2) [of c] show False by simp
qed

section \<open>The races\<close>

lemma interleaved_trans: "interleaved ts1 s1 ts2 s2 \<Longrightarrow> interleaved ts s ts1 s1 \<Longrightarrow> interleaved ts s ts2 s2"
  by (induction rule: interleaved.induct) (auto intro: turn)

text \<open>One thread goes on while the others wait.\<close>

lemma solo_interleaved:
  assumes step: "\<And>pc s pc' s'. step pc s = Some (Ok (pc', s')) \<Longrightarrow> thread_step (f pc) s = Some (Ok (f pc', s'))"
  shows "solo step n pc s = Some (Ok (pc', s')) \<Longrightarrow> i < length ts \<Longrightarrow> ts ! i = f pc \<Longrightarrow> interleaved ts s (ts[i := f pc']) s'"
proof (induction n arbitrary: pc s ts)
  case 0
  then show ?case using interleaved.start [of ts s] by (metis list_update_id outcome.inject(1) option.inject prod.inject solo.simps(1))
next
  case (Suc n)
  then obtain pc1 s1 where s1: "step pc s = Some (Ok (pc1, s1))" "solo step n pc1 s1 = Some (Ok (pc', s'))"
    by (auto split: option.splits outcome.splits)
  have "interleaved ts s (ts[i := f pc1]) s1"
    by (rule turn [OF interleaved.start Suc.prems(2)]) (simp add: Suc.prems(3) step [OF s1(1)])
  moreover have "interleaved (ts[i := f pc1]) s1 (ts[i := f pc']) s'"
    using Suc.IH [OF s1(2), of "ts[i := f pc1]"] Suc.prems(2) by simp
  ultimately show ?case by (rule interleaved_trans [rotated])
qed

lemma send_interleaved:
  "runs_to (send_step item) pc s pc' s' \<Longrightarrow> i < length ts \<Longrightarrow> ts ! i = TSend item pc \<Longrightarrow> interleaved ts s (ts[i := TSend item pc']) s'"
  unfolding runs_to_def by (elim exE, rule solo_interleaved [where f = "TSend item" and step = "send_step item"]) auto

lemma forward_interleaved:
  "runs_to (forward_step this other) pc s pc' s' \<Longrightarrow> i < length ts \<Longrightarrow> ts ! i = TForward this other pc \<Longrightarrow>
    interleaved ts s (ts[i := TForward this other pc']) s'"
  unfolding runs_to_def by (elim exE, rule solo_interleaved [where f = "TForward this other" and step = "forward_step this other"]) auto

lemma receivable_resolved: "receivable ch \<Longrightarrow> resolved_as ch = None"
  by (simp add: receivable_def resolved_as_def)

lemma try_receivable: "chans s c = Some ch \<Longrightarrow> receivable ch \<Longrightarrow> try_resolved s c = Ok None"
  by (simp add: try_resolved_def receivable_def)

lemma try_forwarded: "forwards s c d \<Longrightarrow> try_resolved s c = Ok (Some (Forwarded d))"
  by (auto simp: forwards_def try_resolved_def flags_state_def channel_ref_unchecked_def)

lemma forward_receivable:
  assumes "queue_ok s" "chans s a = Some cha" "receivable cha" "chans s b = Some chb" "receivable chb" "a \<noteq> b" "senders_ok s"
  shows "runs_to (forward_step a b) (FResolve b) s FDone (forwarded a cha b chb s)"
proof -
  have "ch_senders chb \<noteq> 0" "ch_senders chb \<noteq> - 1" using assms(4,7) by (auto simp: senders_ok_def)
  then show ?thesis
    by (rule_tac forward_alone [OF assms(1-3) _ receivable_leads [OF assms(4,5)]]) (use assms(4,6) receivable_resolved [OF assms(5)] in auto)
qed

text \<open>C38: when a receiver is forwarded while a send to its channel waits for the lock, the send succeeds, but what it sent is
  left in the queue of the forwarded channel: the queue that all senders of the channel now send to does not have it, and
  the receiver that could have taken it is gone.\<close>

theorem send_race_loses:
  assumes "queue_ok s" and "chans s a = Some cha" and "receivable cha" and "chans s b = Some chb" and "receivable chb" and "a \<noteq> b"
    and "senders_ok s" and "sendable s item" and "\<not> unwanted s item"
  shows "\<exists>s'. interleaved [TSend item (SResolve a), TForward a b (FResolve b)] s [TSend item SSent, TForward a b FDone] s' \<and>
    forwards s' a b \<and> map_option ch_requests (chans s' a) = Some [item] \<and> queue_behind s' a = Some (ch_requests chb @ ch_requests cha)"
proof -
  let ?f = "send_step item" and ?s1 = "forwarded a cha b chb s"
  have "?f (SResolve a) s = Some (Ok (SLock a, s))" by (simp add: send_step_def walk_def try_receivable [OF assms(2,3)])
  then have 1: "interleaved [TSend item (SResolve a), TForward a b (FResolve b)] s [TSend item (SLock a), TForward a b (FResolve b)] s"
    using send_interleaved [OF runs_to_then [where step = ?f, OF runs_to_refl], where i = 0] by fastforce
  have 2: "interleaved [TSend item (SLock a), TForward a b (FResolve b)] s [TSend item (SLock a), TForward a b FDone] ?s1"
    using forward_interleaved [OF forward_receivable [OF assms(1-7)], where i = 1 and ts = "[TSend item (SLock a), TForward a b (FResolve b)]"] by simp
  let ?a = "cha\<lparr>ch_requests := [], ch_value := Some (Forward b), ch_atom := ch_atom cha OR STATE_SET, ch_waiters := Suc (ch_waiters cha)\<rparr>"
  let ?b = "chb\<lparr>ch_requests := ch_requests chb @ ch_requests cha, ch_waker := (if ch_requests cha = [] then ch_waker chb else None), ch_senders := ch_senders chb + 1\<rparr>"
  let ?s2 = "?s1\<lparr>chans := (chans ?s1)(a := Some (?a\<lparr>ch_locked := True\<rparr>))\<rparr>"
  have free: "\<not> ch_locked ?a" using queue_okD(2) [OF assms(1,2)] by simp
  have a: "chans ?s1 a = Some ?a" and b: "chans ?s1 b = Some ?b" using assms(6) by (simp_all add: forwarded_def)
  have "?f (SLock a) ?s1 = Some (Ok (SRecheck a a, ?s2))" by (simp add: send_step_def lock_free [OF a free])
  note at_recheck = runs_to_then [where step = ?f, OF runs_to_refl this]
  have "forwards ?s2 a b" by (simp add: forwards_def flag_simps)
  then have "?f (SRecheck a a) ?s2 = Some (Ok (SRecheck a b, ?s2))" by (simp add: send_step_def walk_def try_forwarded)
  note at_target = runs_to_then [where step = ?f, OF at_recheck this]
  have "chans ?s2 b = Some ?b" using b assms(6) by simp
  then have "try_resolved ?s2 b = Ok None" by (rule try_receivable) (use assms(5) in \<open>simp add: receivable_def\<close>)
  then have "?f (SRecheck a b) ?s2 = Some (Ok (SPush a b, ?s2))" by (simp add: send_step_def walk_def)
  note at_push = runs_to_then [where step = ?f, OF at_target this]
  have reqs: "reqs ?s1 = reqs s" by (simp add: forwarded_def)
  have item: "sendable ?s1 item" "\<not> unwanted ?s1 item" using assms(8,9) by (cases item; simp add: reqs)+
  let ?s3 = "delivered item a b ?a ?s1"
  have "runs_to ?f (SLock a) ?s1 SSent ?s3"
    using runs_to_trans [OF at_push send_pushes [OF a free item(1)]] item(2) by simp
  from send_interleaved [OF this, where i = 0 and ts = "[TSend item (SLock a), TForward a b FDone]"]
  have 3: "interleaved [TSend item (SLock a), TForward a b FDone] ?s1 [TSend item SSent, TForward a b FDone] ?s3" by simp
  have s3: "chans ?s3 a = Some (?a\<lparr>ch_requests := [item], ch_waker := None\<rparr>)" "chans ?s3 b = Some ?b"
    using assms(6) b by (simp_all add: delivered_def)
  have fwd: "forwards ?s3 a b" unfolding forwards_def s3(1) by (simp add: flag_simps)
  have "try_resolved ?s3 b = Ok None" by (rule try_receivable [OF s3(2)]) (use assms(5) in \<open>simp add: receivable_def\<close>)
  then have "most_resolved ?s3 a = Some (Ok (b, None))"
    by (subst most_resolved.simps, simp add: try_forwarded [OF fwd], subst most_resolved.simps, simp)
  then have "queue_behind ?s3 a = Some (ch_requests chb @ ch_requests cha)" unfolding queue_behind_def by (simp add: s3(2))
  with interleaved_trans [OF 3 interleaved_trans [OF 2 1]] fwd s3(1) show ?thesis by auto
qed

lemma walk_in_circles:
  assumes "forwards s c c"
  shows "most_resolved s c = None"
proof -
  have t: "try_resolved s c = Ok (Some (Forwarded c))" by (rule try_forwarded [OF assms])
  have "try_resolved s c \<noteq> Ok (Some (Forwarded c))" if "most_resolved s c = Some y" for y
    by (rule most_resolved.raw_induct [where P = "\<lambda>s c y. try_resolved s c \<noteq> Ok (Some (Forwarded c))", OF _ that]) auto
  with t show ?thesis by (cases "most_resolved s c") auto
qed

lemma send_in_circles: "forwards s c c \<Longrightarrow> solo (send_step item) n (SResolve c) s = Some (Ok (SResolve c, s))"
  by (rule solo_stays [where step = "send_step item"]) (simp add: send_step_def walk_def try_forwarded)

text \<open>C39: when two receivers are forwarded to senders of each other's channels and both calls walk before either has locked, a channel comes to be
  forwarded to itself. From then on a walk from it never ends, so no call on its senders returns, and all requests of
  both are in a queue that no receiver is left for.\<close>

theorem forward_race_circle:
  assumes "queue_ok s" and "chans s a = Some cha" and "receivable cha" and "chans s b = Some chb" and "receivable chb" and "a \<noteq> b"
    and "senders_ok s" and "ch_senders cha + 1 \<noteq> - 1"
  shows "\<exists>s'. interleaved [TForward a b (FResolve b), TForward b a (FResolve a)] s [TForward a b FDone, TForward b a FDone] s' \<and>
    forwards s' a a \<and> forwards s' b a \<and> map_option ch_requests (chans s' b) = Some (ch_requests cha @ ch_requests chb) \<and>
    most_resolved s' a = None \<and> (\<forall>n item. solo (send_step item) n (SResolve a) s' = Some (Ok (SResolve a, s')))"
proof -
  let ?f = "forward_step a b" and ?s1 = "forwarded b chb a cha s" and ?q = "ch_requests cha @ ch_requests chb"
  let ?a = "cha\<lparr>ch_requests := ?q, ch_waker := (if ch_requests chb = [] then ch_waker cha else None), ch_senders := ch_senders cha + 1\<rparr>"
  let ?b = "chb\<lparr>ch_requests := [], ch_value := Some (Forward a), ch_atom := ch_atom chb OR STATE_SET, ch_waiters := Suc (ch_waiters chb)\<rparr>"
  have "?f (FResolve b) s = Some (Ok (FLock b, s))" by (simp add: forward_step_def walk_def try_receivable [OF assms(4,5)])
  then have 1: "interleaved [TForward a b (FResolve b), TForward b a (FResolve a)] s [TForward a b (FLock b), TForward b a (FResolve a)] s"
    using forward_interleaved [OF runs_to_then [where step = ?f, OF runs_to_refl], where i = 0] by fastforce
  have 2: "interleaved [TForward a b (FLock b), TForward b a (FResolve a)] s [TForward a b (FLock b), TForward b a FDone] ?s1"
    using forward_interleaved [OF forward_receivable [OF assms(1,4,5,2,3) assms(6) [symmetric] assms(7)], where i = 1
        and ts = "[TForward a b (FLock b), TForward b a (FResolve a)]"] by simp
  have at1: "chans ?s1 a = Some ?a" "chans ?s1 b = Some ?b" using assms(6) by (simp_all add: forwarded_def)
  have free: "\<not> ch_locked cha" "\<not> ch_locked chb" "\<not> is_recv_closed (ch_atom cha)"
    using queue_okD(2) [OF assms(1)] assms(2,4) by blast+
  let ?s2 = "?s1\<lparr>chans := (chans ?s1)(a := Some (?a\<lparr>ch_locked := True\<rparr>), b := Some (?b\<lparr>ch_locked := True\<rparr>))\<rparr>"
  obtain sl where l: "lock (min a b) ?s1 = Some (Ok sl)" "lock (max a b) sl = Some (Ok ?s2)"
    by (rule lock_both [OF at1(1) _ at1(2)]) (use free assms(6) in simp_all)
  have "?f (FLock b) ?s1 = Some (Ok (FLock2 b, sl))" using assms(6) l(1) by (simp add: forward_step_def)
  note at_lock2 = runs_to_then [where step = ?f, OF runs_to_refl this]
  have "?f (FLock2 b) sl = Some (Ok (FRecheck b b, ?s2))" using l(2) by (simp add: forward_step_def)
  note at_recheck = runs_to_then [where step = ?f, OF at_lock2 this]
  have "forwards ?s2 b a" by (simp add: forwards_def flag_simps)
  then have "?f (FRecheck b b) ?s2 = Some (Ok (FRecheck b a, ?s2))" by (simp add: forward_step_def walk_def try_forwarded)
  note at_target = runs_to_then [where step = ?f, OF at_recheck this]
  have "try_resolved ?s2 a = Ok None"
    by (rule try_receivable [where ch = "?a\<lparr>ch_locked := True\<rparr>"]) (use assms(3,6) in \<open>simp_all add: receivable_def\<close>)
  then have "?f (FRecheck b a) ?s2 = Some (Ok (FMove b a, ?s2))" by (simp add: forward_step_def walk_def)
  note at_move = runs_to_then [where step = ?f, OF at_target this]
  let ?a1 = "?a\<lparr>ch_senders := ch_senders cha + 1 + 1, ch_value := Some (Forward a), ch_atom := ch_atom cha OR STATE_SET,
    ch_waiters := Suc (ch_waiters cha)\<rparr>"
  let ?s3 = "?s1\<lparr>chans := (chans ?s1)(a := Some (?a1\<lparr>ch_locked := True\<rparr>), b := Some (?b\<lparr>ch_locked := True\<rparr>))\<rparr>"
  have senders: "ch_senders cha \<noteq> - 1" "ch_senders cha + 1 \<noteq> 0"
    using assms(2,7) eq_neg_iff_add_eq_0 [of "ch_senders cha" 1] by (auto simp: senders_ok_def)
  have "?f (FMove b a) ?s2 = Some (Ok (FAppend b, ?s3))"
    using assms(6,8) senders free(3)
    by (simp add: forward_step_def clone_sender_def add_sender_def resolve_channel_def resolve_def fun_upd_twist) (cases cha; simp)
  note at_append = runs_to_then [where step = ?f, OF at_move this]
  let ?w = "if ?q = [] then None else ch_waker chb"
  let ?s4 = "?s1\<lparr>chans := (chans ?s1)(a := Some (?a1\<lparr>ch_requests := []\<rparr>), b := Some (?b\<lparr>ch_requests := ?q, ch_waker := (if ?q = [] then ch_waker chb else None)\<rparr>))\<rparr>"
  have "?f (FAppend b) ?s3 = Some (Ok (case ?w of None \<Rightarrow> FDrop | Some w \<Rightarrow> FWake w, ?s4))"
    using assms(6) free by (cases cha; cases chb; cases s)
      (auto simp: forward_step_def take_requests_def append_requests_def take_waker_def unlock_def forwarded_def fun_eq_iff split: option.split)
  note at_wake = runs_to_then [where step = ?f, OF at_append this]
  obtain s5 where s5: "runs_to ?f (case ?w of None \<Rightarrow> FDrop | Some w \<Rightarrow> FWake w) ?s4 FDrop s5" "chans s5 = chans ?s4"
  proof (cases ?w)
    case None
    then show thesis using that [of ?s4] by simp
  next
    case (Some w)
    have "?f (FWake w) ?s4 = Some (Ok (FDrop, ?s4\<lparr>woken := woken ?s4 @ [w]\<rparr>))" by (simp add: forward_step_def wake_def)
    from runs_to_then [where step = ?f, OF runs_to_refl this] Some show thesis by (intro that [of "?s4\<lparr>woken := woken ?s4 @ [w]\<rparr>"]) simp_all
  qed
  have at5: "chans s5 a = Some (?a1\<lparr>ch_requests := []\<rparr>)" "map_option ch_requests (chans s5 b) = Some ?q" "forwards s5 a a" "forwards s5 b a"
    using assms(6) by (simp_all add: s5(2) forwards_def flag_simps)
  have "?f FDrop s5 = Some (Ok (FDone, s5))"
    by (cases s5) (use at5(1) in \<open>auto simp: forward_step_def receiver_drop_def flag_simps fun_upd_idem\<close>)
  from runs_to_then [where step = ?f, OF runs_to_trans [OF at_wake s5(1)] this]
  have "runs_to ?f (FLock b) ?s1 FDone s5" .
  from forward_interleaved [OF this, where i = 0 and ts = "[TForward a b (FLock b), TForward b a FDone]"]
  have 3: "interleaved [TForward a b (FLock b), TForward b a FDone] ?s1 [TForward a b FDone, TForward b a FDone] s5" by simp
  from interleaved_trans [OF 3 interleaved_trans [OF 2 1]] at5 walk_in_circles [OF at5(3)] send_in_circles [OF at5(3)] show ?thesis
    by blast
qed

section \<open>Witnesses\<close>

text \<open>One of two threads that forward holds the first lock, the other waits for it.\<close>

theorem no_deadlock_witness:
  "thread_step (TForward 2 1 (FLock 1) :: (nat, nat) thread) (two_channels\<lparr>chans := (chans two_channels)(1 := Some (new_channel\<lparr>ch_locked := True\<rparr>))\<rparr>) = None \<and>
    (\<exists>t \<in> set [TForward 1 2 (FLock2 2), TForward 2 1 (FLock 1)]. \<not> through t \<and>
      thread_step t (two_channels\<lparr>chans := (chans two_channels)(1 := Some (new_channel\<lparr>ch_locked := True\<rparr>))\<rparr>) \<noteq> None)"
proof
  let ?s = "two_channels\<lparr>chans := (chans two_channels)(1 := Some (new_channel\<lparr>ch_locked := True\<rparr>))\<rparr>"
  let ?ts = "[TForward 1 2 (FResolve 2), TForward 2 1 (FResolve 1)]"
  show "thread_step (TForward 2 1 (FLock 1) :: (nat, nat) thread) ?s = None" by (simp add: forward_step_def lock_def)
  note at = two_channels_at(1,2) try_receivable [OF two_channels_at(1,3)] try_receivable [OF two_channels_at(2,3)]
  have "interleaved ?ts two_channels (?ts[0 := TForward 1 2 (FLock 2)]) two_channels"
    by (rule turn [OF interleaved.start]) (simp_all add: forward_step_def walk_def at)
  then have "interleaved ?ts two_channels ((?ts[0 := TForward 1 2 (FLock 2)])[1 := TForward 2 1 (FLock 1)]) two_channels"
    by (rule turn) (simp_all add: forward_step_def walk_def at)
  then have "interleaved ?ts two_channels ((?ts[0 := TForward 1 2 (FLock 2)])[1 := TForward 2 1 (FLock 1), 0 := TForward 1 2 (FLock2 2)]) ?s"
    by (rule turn) (simp_all add: forward_step_def lock_def at, simp add: new_channel_def shared_channel_def)
  then have run: "interleaved ?ts two_channels [TForward 1 2 (FLock2 2), TForward 2 1 (FLock 1)] ?s" by simp
  have "\<forall>c ch. chans two_channels c = Some ch \<longrightarrow> \<not> ch_locked ch"
    by (auto simp: two_channels_def new_channel_def shared_channel_def split: if_splits)
  from no_deadlock [OF run _ this, of "TForward 2 1 (FLock 1)"]
  show "\<exists>t \<in> set [TForward 1 2 (FLock2 2), TForward 2 1 (FLock 1)]. \<not> through t \<and> thread_step t ?s \<noteq> None" by simp
qed

theorem send_race_loses_witness:
  "\<exists>s'. interleaved [TSend (LRequest 5) (SResolve 1), TForward 1 2 (FResolve 2)] two_channels [TSend (LRequest 5) SSent, TForward 1 2 FDone] s' \<and>
    map_option ch_requests (chans s' 1) = Some [LRequest 5] \<and> queue_behind s' 1 = Some []"
proof -
  have "(1 :: u64) \<noteq> 2" by simp
  from send_race_loses [OF two_channels_ok two_channels_at(1,3,2,3) this two_channels_senders two_channels_at(5,6)]
  show ?thesis by (auto simp: new_channel_def shared_channel_def)
qed

theorem forward_race_circle_witness:
  "\<exists>s'. interleaved [TForward 1 2 (FResolve 2), TForward 2 1 (FResolve 1)] two_channels [TForward 1 2 FDone, TForward 2 1 FDone] s' \<and>
    forwards s' 1 1 \<and> most_resolved s' 1 = None"
proof -
  have "(1 :: u64) \<noteq> 2" "ch_senders (new_channel :: (nat, nat) channel) + 1 \<noteq> - 1" by (simp_all add: new_channel_def shared_channel_def)
  from forward_race_circle [OF two_channels_ok two_channels_at(1,3,2,3) this(1) two_channels_senders this(2)]
  show ?thesis by blast
qed

end
