(* ===== verification/Channel_Close.thy ===== *)
theory Channel_Close
  imports Channel_Queue "HOL-Library.AList"
begin

text \<open>
  Closing a channel with an error, and the parts of a request that other channels hang on: its receivers, and the
  clients queued on its results (\<^verbatim>\<open>recapn-channel/src/mpsc.rs\<close>, \<^verbatim>\<open>request.rs\<close>, \<^verbatim>\<open>util/array_vec.rs\<close>). One thread is at work;
  where it would wait for a lock that is held, a call has no value. What the client does with a channel once the results it
  waited for are there is a parameter, as are the results made from an error.
\<close>

section \<open>The array of requests\<close>

text \<open>Slots that were never written are \<open>None\<close>. \<open>av_for_each\<close> returns the values in the order the function is called on them.\<close>

record 'a array_vec =
  av_inner :: "'a option list"
  av_curr :: nat

definition av_new :: "nat \<Rightarrow> 'a array_vec" where
  "av_new n = \<lparr>av_inner = replicate n None, av_curr = 0\<rparr>"

definition can_push :: "'a array_vec \<Rightarrow> bool" where
  "can_push v \<longleftrightarrow> av_curr v < length (av_inner v)"

definition av_push :: "'a \<Rightarrow> 'a array_vec \<Rightarrow> (unit, 'a array_vec) outcome" where
  "av_push val v = obind (assert_that (can_push v)) (\<lambda>_.
     if av_curr v < length (av_inner v) then Ok \<lparr>av_inner = (av_inner v)[av_curr v := Some val], av_curr = av_curr v + 1\<rparr> else Panic)"

primrec av_read :: "'a option list \<Rightarrow> nat \<Rightarrow> (unit, 'a list) outcome" where
  "av_read inner 0 = Ok []"
| "av_read inner (Suc n) = (if length inner \<le> n then UB else case inner ! n of
     None \<Rightarrow> UB | Some x \<Rightarrow> obind (av_read inner n) (\<lambda>xs. Ok (x # xs)))"

definition av_for_each :: "'a array_vec \<Rightarrow> (unit, 'a list \<times> 'a array_vec) outcome" where
  "av_for_each v = obind (assert_that (av_curr v \<le> length (av_inner v))) (\<lambda>_.
     obind (av_read (av_inner v) (av_curr v)) (\<lambda>xs. Ok (xs, v\<lparr>av_curr := 0\<rparr>)))"

section \<open>Calls that may not return\<close>

type_synonym ('s, 'a) run = "'s \<Rightarrow> (unit, 'a \<times> 's) outcome option"

definition at_once :: "('s, 'a) doing \<Rightarrow> ('s, 'a) run" where
  "at_once m = (\<lambda>s. Some (m s))"

definition run_then :: "('s, 'a) run \<Rightarrow> ('a \<Rightarrow> ('s, 'b) run) \<Rightarrow> ('s, 'b) run" where
  "run_then m f = (\<lambda>s. Option.bind (m s) (\<lambda>x. case x of Ok (y, s') \<Rightarrow> f y s' | Panic \<Rightarrow> Some Panic | _ \<Rightarrow> Some UB))"

section \<open>Receivers of a request\<close>

text \<open>What \<open>most_unresolved\<close> answers for the parent is found in the system; the rest is in \<^verbatim>\<open>Request_State\<close>.\<close>

definition try_remove_queued :: "req_ref \<Rightarrow> (('v, 'e, 'p, 'r, 'l, 'k) system, unit) run" where
  "try_remove_queued r s = (case reqs s r of None \<Rightarrow> Some UB
   | Some rq \<Rightarrow> Option.bind (case rq_parent rq of None \<Rightarrow> Some (Ok None) | Some parent \<Rightarrow> most_unresolved s parent)
       (\<lambda>x. Some (obind x (\<lambda>found. on_req r (try_remove_from_channel found) s))))"

definition drop_request_receiver :: "req_ref \<Rightarrow> (('v, 'e, 'p, 'r, 'l, 'k) system, unit) run" where
  "drop_request_receiver r = run_then (at_once (on_req r leave_receiver)) (\<lambda>last_receiver.
     if last_receiver then try_remove_queued r else at_once (dret ()))"

section \<open>Pipelines\<close>

definition take_parent_request :: "(('v, 'e) channel, req_ref option) doing" where
  "take_parent_request ch = Ok (ch_parent_request ch, ch\<lparr>ch_parent_request := None\<rparr>)"

text \<open>\<open>WeakChannel::sender\<close> and \<open>upgrade\<close>. A channel that was freed is not mapped.\<close>

definition weak_sender :: "chan_ref \<Rightarrow> (('v, 'e, 'p, 'r, 'l, 'k) system, chan_ref option) doing" where
  "weak_sender c s = (case chans s c of None \<Rightarrow> Ok (None, s) | Some _ \<Rightarrow> dbind (on_chan c clone_sender) (\<lambda>_. dret (Some c)) s)"

definition upgrade :: "chan_ref \<Rightarrow> (('v, 'e, 'p, 'r, 'l, 'k) system, chan_ref option) run" where
  "upgrade c s = (case chans s c of None \<Rightarrow> Some (Ok (None, s))
   | Some ch \<Rightarrow> if ch_locked ch then None else
       run_then (at_once (on_chan c take_parent_request)) (\<lambda>parent.
       run_then (case parent of None \<Rightarrow> at_once (dret ()) | Some r \<Rightarrow> drop_request_receiver r) (\<lambda>_. at_once (dret (Some c)))) s)"

type_synonym ('s, 'k) resolver = "'k \<Rightarrow> chan_ref \<Rightarrow> ('s, unit) run"

primrec resolve_entries :: "(('v, 'e, 'p, 'r, 'l, 'k) system, 'k) resolver \<Rightarrow> ('k \<times> chan_ref) list \<Rightarrow>
    (('v, 'e, 'p, 'r, 'l, 'k) system, unit) run" where
  "resolve_entries resolver [] = at_once (dret ())"
| "resolve_entries resolver (entry # rest) = run_then (upgrade (snd entry)) (\<lambda>receiver.
     run_then (case receiver of None \<Rightarrow> at_once (dret ()) | Some c \<Rightarrow> resolver (fst entry) c) (\<lambda>_. resolve_entries resolver rest))"

text \<open>The entries are in the order in which the map is iterated. Clients may be queued while others are resolved.\<close>

partial_function (option) resolve_pipeline_map :: "(('v, 'e, 'p, 'r, 'l, 'k) system, 'k) resolver \<Rightarrow> req_ref \<Rightarrow>
    (('v, 'e, 'p, 'r, 'l, 'k) system, unit) run" where
  "resolve_pipeline_map resolver r s = (case reqs s r of None \<Rightarrow> Some UB
   | Some rq \<Rightarrow> if rq_pipeline_map rq = [] then Some (on_req r mark_pipeline s)
     else Option.bind (resolve_entries resolver (rq_pipeline_map rq) (s\<lparr>reqs := (reqs s)(r := Some (rq\<lparr>rq_pipeline_map := []\<rparr>))\<rparr>))
       (\<lambda>x. case x of Ok (_, s') \<Rightarrow> resolve_pipeline_map resolver r s' | Panic \<Rightarrow> Some Panic | _ \<Rightarrow> Some UB))"

definition responder_respond :: "('r \<Rightarrow> (('v, 'e, 'p, 'r, 'l, 'k) system, 'k) resolver) \<Rightarrow> 'r \<Rightarrow> req_ref \<Rightarrow>
    (('v, 'e, 'p, 'r, 'l, 'k) system, unit) run" where
  "responder_respond resolver resp r = run_then (at_once (on_req r (respond_write resp))) (\<lambda>resp'. resolve_pipeline_map (resolver resp') r)"

definition responder_set_pipeline :: "('r \<Rightarrow> (('v, 'e, 'p, 'r, 'l, 'k) system, 'k) resolver) \<Rightarrow> 'l \<Rightarrow> req_ref \<Rightarrow>
    (('v, 'e, 'p, 'r, 'l, 'k) system, unit) run" where
  "responder_set_pipeline resolver dst r = run_then (at_once (on_req r (set_pipeline_write dst))) (\<lambda>resp. resolve_pipeline_map (resolver resp) r)"

text \<open>A new channel at \<open>new\<close>, an address that is not in use, for the clients queued under \<open>key\<close>.\<close>

definition queue_pipeline :: "req_ref \<Rightarrow> 'k \<Rightarrow> chan_ref \<Rightarrow> (('v, 'e, 'p, 'r, 'l, 'k) system, chan_ref) doing" where
  "queue_pipeline r key new = dbind (on_req r add_receiver) (\<lambda>_.
     dbind (\<lambda>s. Ok ((), s\<lparr>chans := (chans s)(new := Some (weak_channel r))\<rparr>)) (\<lambda>_.
     dbind (on_req r (\<lambda>rq. Ok ((), rq\<lparr>rq_pipeline_map := AList.update key new (rq_pipeline_map rq)\<rparr>))) (\<lambda>_. dret new)))"

definition pipeline_build :: "('l + 'r \<Rightarrow> 'k \<Rightarrow> (('v, 'e, 'p, 'r, 'l, 'k) system, chan_ref) run) \<Rightarrow> req_ref \<Rightarrow> 'k \<Rightarrow> chan_ref \<Rightarrow>
    (('v, 'e, 'p, 'r, 'l, 'k) system, chan_ref) run" where
  "pipeline_build client r key new s = (case reqs s r of None \<Rightarrow> Some UB
   | Some rq \<Rightarrow>
       if is_pipeline_set (rq_atom rq) then
         run_then (at_once (\<lambda>s. obind (set_pipeline_source rq) (\<lambda>src. Ok (src, s)))) (\<lambda>src. client src key) s
       else at_once (case map_of (rq_pipeline_map rq) key of
         Some c \<Rightarrow> dbind (weak_sender c) (\<lambda>sender. case sender of Some c \<Rightarrow> dret c | None \<Rightarrow> queue_pipeline r key new)
       | None \<Rightarrow> queue_pipeline r key new) s)"

section \<open>Closing\<close>

definition respond_with_err :: "('r \<Rightarrow> (('v, 'e, 'p, 'r, 'l, 'k) system, 'k) resolver) \<Rightarrow> 'r \<Rightarrow> 'v link_item \<Rightarrow>
    (('v, 'e, 'p, 'r, 'l, 'k) system, unit) run" where
  "respond_with_err resolver results item = (case item of
     LRequest r \<Rightarrow> run_then (at_once (on_req r take_request)) (\<lambda>_. responder_respond resolver results r)
   | LEvent _ \<Rightarrow> at_once (dret ()))"

primrec respond_all :: "('r \<Rightarrow> (('v, 'e, 'p, 'r, 'l, 'k) system, 'k) resolver) \<Rightarrow> 'r \<Rightarrow> 'v link_item list \<Rightarrow>
    (('v, 'e, 'p, 'r, 'l, 'k) system, unit) run" where
  "respond_all resolver results [] = at_once (dret ())"
| "respond_all resolver results (item # rest) = run_then (respond_with_err resolver results item) (\<lambda>_. respond_all resolver results rest)"

text \<open>The loop that fills the array, once for each slot that is free: whether it found the queue empty.\<close>

primrec close_fill :: "nat \<Rightarrow> chan_ref \<Rightarrow> 'v link_item array_vec \<Rightarrow> (('v, 'e, 'p, 'r, 'l, 'k) system, bool \<times> 'v link_item array_vec) doing" where
  "close_fill 0 c v = dret (False, v)"
| "close_fill (Suc free) c v = dbind (on_chan c pop_request) (\<lambda>next. case next of
     None \<Rightarrow> dret (True, v)
   | Some item \<Rightarrow>
       dbind (case item of LRequest r \<Rightarrow> dbind (on_req r take_parent) (\<lambda>_. dret ()) | LEvent _ \<Rightarrow> dret ()) (\<lambda>_.
       dbind (\<lambda>s. obind (av_push item v) (\<lambda>v'. Ok (v', s))) (\<lambda>v'. close_fill free c v')))"

text \<open>One turn of the outer loop, with the lock held: whether it is the last.\<close>

definition close_turn :: "('r \<Rightarrow> (('v, 'e, 'p, 'r, 'l, 'k) system, 'k) resolver) \<Rightarrow> 'r \<Rightarrow> chan_ref \<Rightarrow> 'v link_item array_vec \<Rightarrow>
    (('v, 'e, 'p, 'r, 'l, 'k) system, bool \<times> 'v link_item array_vec) run" where
  "close_turn resolver results c v =
     run_then (at_once (close_fill (length (av_inner v) - av_curr v) c v)) (\<lambda>(emptied, v').
     run_then (at_once (on_chan c unlock)) (\<lambda>_.
     run_then (at_once (\<lambda>s. obind (av_for_each v') (\<lambda>x. Ok (x, s)))) (\<lambda>(items, v'').
     run_then (respond_all resolver results items) (\<lambda>_. at_once (dret (emptied, v''))))))"

partial_function (option) close_loop :: "('r \<Rightarrow> (('v, 'e, 'p, 'r, 'l, 'k) system, 'k) resolver) \<Rightarrow> 'r \<Rightarrow> chan_ref \<Rightarrow> 'v link_item array_vec \<Rightarrow>
    (('v, 'e, 'p, 'r, 'l, 'k) system, unit) run" where
  "close_loop resolver results c v s = Option.bind (close_turn resolver results c v s) (\<lambda>x. case x of
     Ok ((emptied, v'), s') \<Rightarrow>
       if emptied then Some (Ok ((), s'))
       else Option.bind (lock c s') (\<lambda>y. case y of Ok s'' \<Rightarrow> close_loop resolver results c v' s'' | Panic \<Rightarrow> Some Panic | _ \<Rightarrow> Some UB)
   | Panic \<Rightarrow> Some Panic
   | _ \<Rightarrow> Some UB)"

definition close_channel :: "('r \<Rightarrow> (('v, 'e, 'p, 'r, 'l, 'k) system, 'k) resolver) \<Rightarrow> ('e \<Rightarrow> 'r) \<Rightarrow> chan_ref \<Rightarrow> 'e \<Rightarrow>
    (('v, 'e, 'p, 'r, 'l, 'k) system, unit) run" where
  "close_channel resolver into_results c err s =
     run_then (\<lambda>s. map_option (\<lambda>x. obind x (\<lambda>s'. Ok ((), s'))) (lock c s)) (\<lambda>_.
     run_then (at_once (on_chan c take_waker)) (\<lambda>_.
     run_then (at_once (resolve_channel c (ChanError err))) (\<lambda>_.
     run_then (close_loop resolver (into_results err) c (av_new 32)) (\<lambda>_. at_once (on_chan c receiver_drop))))) s"

section \<open>Facts about the array\<close>

definition av_holds :: "'a array_vec \<Rightarrow> 'a list \<Rightarrow> bool" where
  "av_holds v xs \<longleftrightarrow> av_curr v = length xs \<and> length xs \<le> length (av_inner v) \<and> take (length xs) (av_inner v) = map Some xs"

lemma av_new_holds: "av_holds (av_new n) []"
  by (simp add: av_holds_def av_new_def)

lemma av_push_holds:
  assumes "av_holds v xs" "length xs < length (av_inner v)"
  obtains v' where "av_push x v = Ok v'" "av_holds v' (xs @ [x])" "length (av_inner v') = length (av_inner v)"
  using assms by (intro that [of "\<lparr>av_inner = (av_inner v)[av_curr v := Some x], av_curr = av_curr v + 1\<rparr>"])
    (simp_all add: av_push_def can_push_def av_holds_def take_Suc_conv_app_nth)

lemma av_read_holds: "n \<le> length xs \<Longrightarrow> length xs \<le> length inner \<Longrightarrow> take (length xs) inner = map Some xs \<Longrightarrow> av_read inner n = Ok (rev (take n xs))"
proof (induction n)
  case (Suc n)
  then have "inner ! n = Some (xs ! n)" by (metis Suc_le_eq length_map nth_map nth_take)
  with Suc show ?case by (simp add: take_Suc_conv_app_nth)
qed simp

text \<open>The last value pushed is the first that \<open>for_each\<close> calls its function on.\<close>

lemma av_for_each_holds: "av_holds v xs \<Longrightarrow> av_for_each v = Ok (rev xs, v\<lparr>av_curr := 0\<rparr>) \<and> av_holds (v\<lparr>av_curr := 0\<rparr>) []"
  using av_read_holds [of "length xs" xs "av_inner v"] by (auto simp: av_holds_def av_for_each_def)

section \<open>Answering\<close>

lemma at_once_simp [simp]: "at_once m s = Some (m s)"
  by (simp add: at_once_def)

lemma run_then_simp [simp]: "m s = Some (Ok (x, s')) \<Longrightarrow> run_then m f s = f x s'"
  by (simp add: run_then_def)

definition at_requests :: "('q \<Rightarrow> 'q) \<Rightarrow> 'v link_item list \<Rightarrow> (req_ref \<Rightarrow> 'q option) \<Rightarrow> (req_ref \<Rightarrow> 'q option)" where
  "at_requests f items m = (\<lambda>r. if LRequest r \<in> set items then map_option f (m r) else m r)"

lemma at_requests_simps [simp]:
  "at_requests f [] m = m" "at_requests f (LEvent v # xs) m = at_requests f xs m"
  by (auto simp: at_requests_def)

lemma at_requests_at: "LRequest r \<notin> set items \<Longrightarrow> at_requests f items m r = m r"
  by (simp add: at_requests_def)

lemma at_requests_Cons:
  assumes "LRequest r \<notin> set items" "m r = Some rq"
  shows "at_requests f (LRequest r # items) m = at_requests f items (m(r := Some (f rq)))"
  using assms by (auto simp: at_requests_def fun_eq_iff)

lemma at_requests_append:
  "set (queued xs) \<inter> set (queued ys) = {} \<Longrightarrow> at_requests f (xs @ ys) m = at_requests f xs (at_requests f ys m)"
  by (auto simp: at_requests_def fun_eq_iff disjoint_iff)

definition responded :: "'r \<Rightarrow> ('p, 'r, 'l, 'k) request \<Rightarrow> ('p, 'r, 'l, 'k) request" where
  "responded res rq = rq\<lparr>rq_params := None, rq_response := Some res, rq_atom := (rq_atom rq OR STATE_SET) OR STATE_SET_PIPELINE,
     rq_waiters := Suc (rq_waiters rq), rq_pipeline_dest := Some None\<rparr>"

text \<open>A request that was not answered, and that no pipelined client is queued on.\<close>

definition unanswered :: "('p, 'r, 'l, 'k) request option \<Rightarrow> bool" where
  "unanswered x \<longleftrightarrow> (\<exists>rq. x = Some rq \<and> rq_params rq \<noteq> None \<and> rq_pipeline_map rq = [])"

lemma respond_with_err_item:
  assumes "\<And>r. item = LRequest r \<Longrightarrow> unanswered (reqs s r)"
  shows "respond_with_err resolver res item s = Some (Ok ((), s\<lparr>reqs := at_requests (responded res) [item] (reqs s)\<rparr>))"
proof (cases item)
  case (LEvent v)
  then show ?thesis by (simp add: respond_with_err_def)
next
  case (LRequest r)
  then obtain rq p where rq: "reqs s r = Some rq" "rq_params rq = Some p" "rq_pipeline_map rq = []"
    using assms by (auto simp: unanswered_def)
  then show ?thesis
    by (simp add: LRequest respond_with_err_def take_request_def responder_respond_def respond_write_def write_response_def response_def Let_def
        at_requests_Cons, subst resolve_pipeline_map.simps)
      (cases rq, simp add: mark_pipeline_def atomic_ops responded_def)
qed

lemma respond_all_items:
  assumes "distinct (queued items)" "\<And>r. LRequest r \<in> set items \<Longrightarrow> unanswered (reqs s r)"
  shows "respond_all resolver res items s = Some (Ok ((), s\<lparr>reqs := at_requests (responded res) items (reqs s)\<rparr>))"
  using assms
proof (induction items arbitrary: s)
  case (Cons item items)
  let ?s = "s\<lparr>reqs := at_requests (responded res) [item] (reqs s)\<rparr>"
  have first: "respond_with_err resolver res item s = Some (Ok ((), ?s))"
    by (rule respond_with_err_item) (use Cons.prems(2) in auto)
  have "LRequest r \<in> set items \<Longrightarrow> LRequest r \<notin> set [item]" for r using Cons.prems(1) by (cases item) auto
  then have "respond_all resolver res items ?s = Some (Ok ((), ?s\<lparr>reqs := at_requests (responded res) items (reqs ?s)\<rparr>))"
    using Cons.prems by (intro Cons.IH) (auto simp: at_requests_at simp del: list.set, cases item, auto)
  moreover have "at_requests (responded res) items (at_requests (responded res) [item] (reqs s)) = at_requests (responded res) (item # items) (reqs s)"
  proof -
    have "set (queued items) \<inter> set (queued [item]) = {}" using Cons.prems(1) by (cases item) auto
    from at_requests_append [OF this, of "responded res" "reqs s"] show ?thesis by (simp add: at_requests_def disj_commute)
  qed
  ultimately show ?case using first by simp
qed simp

section \<open>Closing answers what is queued\<close>

lemma at_requests_cong: "set xs = set ys \<Longrightarrow> at_requests f xs m = at_requests f ys m"
  by (simp add: at_requests_def)

lemma at_requests_twice: "at_requests f xs (at_requests g xs m) = at_requests (f \<circ> g) xs m"
  by (auto simp: at_requests_def fun_eq_iff option.map_comp)

lemma unanswered_keeps: "unanswered x \<Longrightarrow> unanswered (map_option (rq_parent_update f) x)"
  by (auto simp: unanswered_def)

lemma unanswered_at: "unanswered (m r) \<Longrightarrow> unanswered (at_requests (rq_parent_update f) xs m r)"
  by (simp add: at_requests_def unanswered_keeps)

lemma reqs_then_chans: "s\<lparr>reqs := m, chans := cs\<rparr> = s\<lparr>chans := cs, reqs := m\<rparr>"
  by simp

lemma close_fill_takes:
  assumes "chans s c = Some ch" "av_holds v xs" "length xs + free = length (av_inner v)"
    and "distinct (queued (ch_requests ch))" "\<And>r. LRequest r \<in> set (ch_requests ch) \<Longrightarrow> reqs s r \<noteq> None"
  obtains v' where "close_fill free c v s = Ok ((length (ch_requests ch) < free, v'),
      s\<lparr>chans := (chans s)(c := Some (ch\<lparr>ch_requests := drop free (ch_requests ch)\<rparr>)),
        reqs := at_requests (rq_parent_update (\<lambda>_. None)) (take free (ch_requests ch)) (reqs s)\<rparr>)"
    "av_holds v' (xs @ take free (ch_requests ch))" "length (av_inner v') = length (av_inner v)"
proof -
  have "\<exists>v'. close_fill free c v s = Ok ((length (ch_requests ch) < free, v'),
      s\<lparr>chans := (chans s)(c := Some (ch\<lparr>ch_requests := drop free (ch_requests ch)\<rparr>)),
        reqs := at_requests (rq_parent_update (\<lambda>_. None)) (take free (ch_requests ch)) (reqs s)\<rparr>) \<and>
    av_holds v' (xs @ take free (ch_requests ch)) \<and> length (av_inner v') = length (av_inner v)"
    using assms
  proof (induction free arbitrary: s ch v xs)
    case 0
    then show ?case by (auto simp: fun_upd_idem)
  next
    case (Suc free)
    show ?case
    proof (cases "ch_requests ch")
      case Nil
      with Suc.prems show ?thesis by (auto simp: fun_upd_idem pop_request_def)
    next
      case (Cons item rest)
      let ?ch = "ch\<lparr>ch_requests := rest\<rparr>"
      let ?s = "s\<lparr>chans := (chans s)(c := Some ?ch), reqs := at_requests (rq_parent_update (\<lambda>_. None)) [item] (reqs s)\<rparr>"
      have "length xs < length (av_inner v)" using Suc.prems(3) by simp
      from av_push_holds [OF Suc.prems(2) this] obtain v1
        where v1: "av_push item v = Ok v1" "av_holds v1 (xs @ [item])" "length (av_inner v1) = length (av_inner v)" .
      have r: "LRequest r \<in> set (ch_requests ch) \<Longrightarrow> \<exists>rq. reqs s r = Some rq" for r using Suc.prems(5) by blast
      have step: "close_fill (Suc free) c v s = close_fill free c v1 ?s"
      proof (cases item)
        case (LRequest q)
        then obtain rq where rq: "reqs s q = Some rq" using r [of q] Cons by auto
        have "rq_parent_update (\<lambda>_. None) rq = rq\<lparr>rq_parent := None\<rparr>" by simp
        with rq show ?thesis using Suc.prems(1) v1(1) Cons LRequest
          by (simp add: pop_request_def take_parent_def at_requests_Cons [of q "[]" "reqs s" rq])
      qed (use Suc.prems(1) v1(1) Cons in \<open>simp add: pop_request_def\<close>)
      have "\<exists>v'. close_fill free c v1 ?s = Ok ((length (ch_requests ?ch) < free, v'),
          ?s\<lparr>chans := (chans ?s)(c := Some (?ch\<lparr>ch_requests := drop free (ch_requests ?ch)\<rparr>)),
            reqs := at_requests (rq_parent_update (\<lambda>_. None)) (take free (ch_requests ?ch)) (reqs ?s)\<rparr>) \<and>
        av_holds v' ((xs @ [item]) @ take free (ch_requests ?ch)) \<and> length (av_inner v') = length (av_inner v1)"
        by (rule Suc.IH) (use Suc.prems v1 Cons in \<open>cases item; auto simp: at_requests_def\<close>)+
      moreover have "at_requests (rq_parent_update (\<lambda>_. None)) (take free rest) (reqs ?s) =
          at_requests (rq_parent_update (\<lambda>_. None)) (item # take free rest) (reqs s)"
      proof -
        have "set (queued (take free rest)) \<inter> set (queued [item]) = {}"
          using Suc.prems(4) Cons by (cases item) (auto dest: in_set_takeD)
        from at_requests_append [OF this, of "rq_parent_update (\<lambda>_. None)" "reqs s"] show ?thesis
          by (simp add: at_requests_cong [of "item # take free rest" "take free rest @ [item]"])
      qed
      ultimately show ?thesis using Cons v1(3) unfolding step by (auto simp: fun_upd_def cong: if_cong)
    qed
  qed
  then show thesis using that by blast
qed

text \<open>What closing makes of a queued request, and of the channel.\<close>

definition answered :: "'r \<Rightarrow> ('p, 'r, 'l, 'k) request \<Rightarrow> ('p, 'r, 'l, 'k) request" where
  "answered res = responded res \<circ> rq_parent_update (\<lambda>_. None)"

definition closed_with :: "'e \<Rightarrow> ('v, 'e) channel \<Rightarrow> ('v, 'e) channel" where
  "closed_with err ch = ch\<lparr>ch_requests := [], ch_waker := None, ch_value := Some (ChanError err),
     ch_atom := ch_atom ch OR STATE_SET, ch_waiters := Suc (ch_waiters ch)\<rparr>"

lemma close_turn_answers:
  assumes "chans s c = Some ch" "av_holds v []"
    and "distinct (queued (ch_requests ch))" "\<And>r. LRequest r \<in> set (ch_requests ch) \<Longrightarrow> unanswered (reqs s r)"
  obtains v' where "close_turn resolver res c v s = Some (Ok ((length (ch_requests ch) < length (av_inner v), v'),
      s\<lparr>chans := (chans s)(c := Some (ch\<lparr>ch_requests := drop (length (av_inner v)) (ch_requests ch), ch_locked := False\<rparr>)),
        reqs := at_requests (answered res) (take (length (av_inner v)) (ch_requests ch)) (reqs s)\<rparr>))"
    "av_holds v' []" "length (av_inner v') = length (av_inner v)"
proof -
  let ?n = "length (av_inner v)"
  let ?xs = "take ?n (ch_requests ch)"
  let ?ch = "ch\<lparr>ch_requests := drop ?n (ch_requests ch)\<rparr>"
  let ?r = "at_requests (rq_parent_update (\<lambda>_. None)) ?xs (reqs s)"
  let ?s = "s\<lparr>chans := (chans s)(c := Some ?ch), reqs := ?r\<rparr>"
  let ?s1 = "s\<lparr>chans := (chans s)(c := Some (?ch\<lparr>ch_locked := False\<rparr>)), reqs := ?r\<rparr>"
  have curr: "av_curr v = 0" using assms(2) by (simp add: av_holds_def)
  have mapped: "LRequest r \<in> set (ch_requests ch) \<Longrightarrow> reqs s r \<noteq> None" for r using assms(4) [of r] by (auto simp: unanswered_def)
  have free: "length [] + ?n = ?n" by simp
  from close_fill_takes [OF assms(1,2) free assms(3) mapped] obtain v'
    where v': "close_fill ?n c v s = Ok ((length (ch_requests ch) < ?n, v'), ?s)" "av_holds v' ?xs" "length (av_inner v') = ?n"
    by auto
  have "respond_all resolver res (rev ?xs) ?s1 = Some (Ok ((), ?s1\<lparr>reqs := at_requests (responded res) (rev ?xs) (reqs ?s1)\<rparr>))"
  proof (rule respond_all_items)
    have rev_queued: "queued (rev xs) = rev (queued xs)" for xs :: "'a link_item list"
      by (induction xs rule: queued.induct) auto
    have "distinct (queued ?xs)" using assms(3) by (metis append_take_drop_id distinct_append queued_append)
    then show "distinct (queued (rev ?xs))" by (simp add: rev_queued)
    show "LRequest r \<in> set (rev ?xs) \<Longrightarrow> unanswered (reqs ?s1 r)" for r
      using assms(4) [of r] by (auto intro: unanswered_at dest: in_set_takeD)
  qed
  moreover have "at_requests (responded res) (rev ?xs) ?r = at_requests (answered res) ?xs (reqs s)"
    by (simp add: at_requests_cong [of "rev ?xs" ?xs] at_requests_twice answered_def)
  ultimately show thesis
    using v' av_for_each_holds [OF v'(2)] by (intro that [of "v'\<lparr>av_curr := 0\<rparr>"]) (simp_all add: close_turn_def curr unlock_def reqs_then_chans)
qed

lemma close_loop_answers:
  assumes "chans s c = Some ch" "ch_locked ch" "av_holds v []" "0 < length (av_inner v)"
    and "distinct (queued (ch_requests ch))" "\<And>r. LRequest r \<in> set (ch_requests ch) \<Longrightarrow> unanswered (reqs s r)"
  shows "close_loop resolver res c v s = Some (Ok ((),
      s\<lparr>chans := (chans s)(c := Some (ch\<lparr>ch_requests := [], ch_locked := False\<rparr>)),
        reqs := at_requests (answered res) (ch_requests ch) (reqs s)\<rparr>))"
  using assms
proof (induction "length (ch_requests ch)" arbitrary: s ch v rule: less_induct)
  case less
  let ?q = "ch_requests ch"
  let ?n = "length (av_inner v)"
  let ?m = "at_requests (answered res) (take ?n ?q) (reqs s)"
  from close_turn_answers [OF less.prems(1,3,5,6), where resolver = resolver and res = res] obtain v'
    where turn: "close_turn resolver res c v s = Some (Ok ((length ?q < ?n, v'),
      s\<lparr>chans := (chans s)(c := Some (ch\<lparr>ch_requests := drop ?n ?q, ch_locked := False\<rparr>)), reqs := ?m\<rparr>))"
      "av_holds v' []" "length (av_inner v') = ?n" .
  show ?case
  proof (cases "length ?q < ?n")
    case True
    with turn(1) show ?thesis by (subst close_loop.simps) simp
  next
    case False
    let ?ch = "ch\<lparr>ch_requests := drop ?n ?q\<rparr>"
    let ?s = "s\<lparr>chans := (chans s)(c := Some ?ch), reqs := ?m\<rparr>"
    have locked: "ch\<lparr>ch_requests := q, ch_locked := True\<rparr> = ch\<lparr>ch_requests := q\<rparr>" for q using less.prems(2) by (cases ch) simp
    have again: "close_loop resolver res c v s = close_loop resolver res c v' ?s"
      using turn(1) False by (subst close_loop.simps) (simp add: lock_def locked reqs_then_chans)
    have parts: "queued ?q = queued (take ?n ?q) @ queued (drop ?n ?q)" by (metis append_take_drop_id queued_append)
    have rest: "LRequest r \<in> set (drop ?n ?q) \<Longrightarrow> LRequest r \<notin> set (take ?n ?q)" for r
      using less.prems(5) unfolding parts by (auto simp: disjoint_iff)
    have "close_loop resolver res c v' ?s = Some (Ok ((),
        ?s\<lparr>chans := (chans ?s)(c := Some (?ch\<lparr>ch_requests := [], ch_locked := False\<rparr>)),
          reqs := at_requests (answered res) (ch_requests ?ch) (reqs ?s)\<rparr>))"
    proof (rule less.hyps)
      have "length (drop ?n ?q) < length ?q" using False less.prems(4) unfolding length_drop by linarith
      then show "length (ch_requests ?ch) < length ?q" by simp
      show "distinct (queued (ch_requests ?ch))" using less.prems(5) unfolding parts by simp
      show "LRequest r \<in> set (ch_requests ?ch) \<Longrightarrow> unanswered (reqs ?s r)" for r
        using less.prems(6) [of r] rest [of r] by (auto simp: at_requests_at dest: in_set_dropD)
    qed (use less.prems turn in simp_all)
    moreover have "at_requests (answered res) (drop ?n ?q) ?m = at_requests (answered res) ?q (reqs s)"
    proof -
      have "set (queued (drop ?n ?q)) \<inter> set (queued (take ?n ?q)) = {}" using rest by (auto simp: disjoint_iff)
      from at_requests_append [OF this, of "answered res" "reqs s"] show ?thesis
        by (metis append_take_drop_id at_requests_cong set_append sup_commute)
    qed
    ultimately show ?thesis unfolding again by (simp add: fun_upd_def cong: if_cong)
  qed
qed

lemma close_undisturbed:
  assumes "queue_ok s" "chans s c = Some ch" "receivable ch"
    and "\<And>r. LRequest r \<in> set (ch_requests ch) \<Longrightarrow> unanswered (reqs s r)"
  shows "close_channel resolver into_results c err s = Some (Ok ((),
    s\<lparr>chans := (chans s)(c := Some (closed_with err ch)),
      reqs := (\<lambda>r. if LRequest r \<in> set (ch_requests ch) then map_option (answered (into_results err)) (reqs s r) else reqs s r)\<rparr>))"
proof -
  let ?ch = "ch\<lparr>ch_locked := True, ch_waker := None, ch_value := Some (ChanError err), ch_atom := ch_atom ch OR STATE_SET,
    ch_waiters := Suc (ch_waiters ch)\<rparr>"
  have free: "\<not> ch_locked ch" "\<not> is_recv_closed (ch_atom ch)" using queue_okD(2) [OF assms(1,2)] by simp_all
  have loop: "close_loop resolver (into_results err) c (av_new 32) (s\<lparr>chans := (chans s)(c := Some ?ch)\<rparr>) = Some (Ok ((),
      s\<lparr>chans := (chans s)(c := Some (closed_with err ch)),
        reqs := at_requests (answered (into_results err)) (ch_requests ch) (reqs s)\<rparr>))"
    (is "close_loop _ _ _ _ ?s = _")
  proof -
    have closed: "?ch\<lparr>ch_requests := [], ch_locked := False\<rparr> = closed_with err ch" using free by (cases ch) (simp add: closed_with_def)
    have "close_loop resolver (into_results err) c (av_new 32) ?s = Some (Ok ((),
        ?s\<lparr>chans := (chans ?s)(c := Some (?ch\<lparr>ch_requests := [], ch_locked := False\<rparr>)),
          reqs := at_requests (answered (into_results err)) (ch_requests ?ch) (reqs ?s)\<rparr>))"
    proof (rule close_loop_answers)
      show "distinct (queued (ch_requests ?ch))" using queue_okD(5) [OF assms(1,2)] by simp
      show "LRequest r \<in> set (ch_requests ?ch) \<Longrightarrow> unanswered (reqs ?s r)" for r using assms(4) [of r] by simp
    qed (simp_all add: av_new_holds, simp add: av_new_def)
    then show ?thesis unfolding closed by simp
  qed
  have start: "close_channel resolver into_results c err s =
      run_then (close_loop resolver (into_results err) c (av_new 32)) (\<lambda>_. at_once (on_chan c receiver_drop)) (s\<lparr>chans := (chans s)(c := Some ?ch)\<rparr>)"
    using free(2) unfolding close_channel_def
    by (cases ch) (simp add: run_then_def lock_free [OF assms(2) free(1)] take_waker_def resolve_channel_def resolve_def)
  have set: "is_set (ch_atom (closed_with err ch))" by (simp add: closed_with_def flag_simps)
  show ?thesis
    unfolding start run_then_def loop by (simp add: receiver_drop_def set at_requests_def)
qed

text \<open>C28: closing a channel that nobody else is using, and on whose queued requests no pipelined client hangs, returns,
  however long its queue is: the channel is resolved to the error, its queue is empty and its waker dropped, and every
  request that was queued is answered once with the results made from the error, its pipeline marked as set.
  (What becomes of clients that do hang on a request is up to the resolver.)\<close>

theorem close_answers:
  assumes "queue_ok s" "chans s c = Some ch" "receivable ch"
    and "\<And>r. LRequest r \<in> set (ch_requests ch) \<Longrightarrow> unanswered (reqs s r)"
  shows "close_channel resolver into_results c err s = Some (Ok ((),
    s\<lparr>chans := (chans s)(c := Some (closed_with err ch)),
      reqs := (\<lambda>r. if LRequest r \<in> set (ch_requests ch) then map_option (answered (into_results err)) (reqs s r) else reqs s r)\<rparr>))"
  by (rule close_undisturbed [OF assms])

text \<open>A request cannot be given up while it waits to be received: once its last receiver is dropped with the request still
  in a queue, the code that would take it out panics, as it is not written.\<close>

lemma drop_queued_panics:
  assumes "queue_ok s" "chans s c = Some ch" "receivable ch" "LRequest r \<in> set (ch_requests ch)"
    and "reqs s r = Some rq" "rq_receivers rq = 1"
  shows "drop_request_receiver r s = Some Panic"
proof -
  obtain p where p: "rq_parent rq = Some p" "leads_to s p c" "chans s p \<noteq> None"
  proof -
    obtain p where p: "rq_parent rq = Some p" "leads_to s p c"
      using queue_okD(4) [OF assms(1,2,4)] assms(5) by auto
    have "chans s p \<noteq> None"
    proof (cases "p = c")
      case False
      with p(2) have "\<exists>e. forwards s p e" by (auto simp: leads_to_def elim: converse_rtranclpE)
      then show ?thesis by (auto simp: forwards_def)
    qed (simp add: assms(2))
    with p show thesis by (rule that)
  qed
  let ?s = "s\<lparr>reqs := (reqs s)(r := Some (rq\<lparr>rq_receivers := 0, rq_atom := fst (set_recv_closed (rq_atom rq)),
    rq_finished_waiters := Suc (rq_finished_waiters rq)\<rparr>))\<rparr>"
  have links: "same_links s ?s" by (rule same_linksI) simp
  have "resolved_as ch = None" using assms(3) by (simp add: receivable_def resolved_as_def)
  moreover have "\<exists>ch. chans ?s c = Some ch \<and> most_resolved ?s p = Some (Ok (c, resolved_as ch)) \<and>
      most_unresolved ?s p = Some (Ok (if resolved_as ch = None then Some c else None))"
    by (rule most_resolved_walk) (use p queue_okD(1) [OF assms(1)] in \<open>simp_all add: same_links_ok [OF links] same_links_leads [OF links]\<close>)
  ultimately have "most_unresolved ?s p = Some (Ok (Some c))" using assms(2) by auto
  then show ?thesis
    using p assms(5,6) by (simp add: drop_request_receiver_def run_then_def leave_receiver_def remove_receiver_def checked_sub_def
        try_remove_queued_def try_remove_from_channel_def)
qed

text \<open>A request of one receiver, sent to the first of two channels.\<close>

definition one_queued :: "(nat, nat, nat, nat, nat, nat) system" where
  "one_queued = delivered (LRequest 5) 1 1 new_channel two_channels"

lemma one_queued_ok: "queue_ok one_queued"
  unfolding one_queued_def
  by (rule delivered_ok [OF two_channels_ok two_channels_at(1) receivable_leads [OF two_channels_at(1,3)] two_channels_at(5)])

lemma one_queued_at:
  "chans one_queued 1 = Some (new_channel\<lparr>ch_requests := [LRequest 5]\<rparr>)"
  "receivable (new_channel\<lparr>ch_requests := [LRequest 5]\<rparr>)"
  "reqs one_queued 5 = Some ((shared_request_new 0 Response 1)\<lparr>rq_parent := Some 1\<rparr>)"
  by (simp_all add: one_queued_def delivered_def new_channel_def shared_channel_def two_channels_def receivable_def flags_state_def flag_simps)

theorem close_answers_witness:
  "\<exists>s'. close_channel (\<lambda>_ _ _. at_once (dret ())) (\<lambda>e. e) 1 9 one_queued = Some (Ok ((), s')) \<and>
    map_option ch_requests (chans s' 1) = Some [] \<and> map_option rq_response (reqs s' 5) = Some (Some 9)"
  using close_answers [OF one_queued_ok one_queued_at(1,2), of "\<lambda>_ _ _. at_once (dret ())" "\<lambda>e. e" 9]
  by (simp add: one_queued_at(3) unanswered_def shared_request_new_def closed_with_def answered_def responded_def)

lemma drop_queued_panics_witness: "drop_request_receiver 5 one_queued = Some Panic"
  by (rule drop_queued_panics [OF one_queued_ok one_queued_at(1,2) _ one_queued_at(3)]) (simp_all add: shared_request_new_def)

end
