(* ===== verification/Rpc_Tables.thy ===== *)
theory Rpc_Tables
  imports Wire_Ptr "HOL-Library.Multiset"
begin

text \<open>
  The tables of an RPC connection (\<^verbatim>\<open>recapn-rpc/src/connection.rs\<close>: \<open>ExportTable\<close>, \<open>FreeVec\<close>, \<open>ImportTable\<close>) and
  the table of the capabilities of a message (\<^verbatim>\<open>recapn-rpc/src/table.rs\<close>), with what \<^verbatim>\<open>recapn/src/rpc.rs\<close> does with it. A
  \<open>BinaryHeap\<close> of reversed numbers is the multiset of the numbers, from which the smallest is taken. What the code
  reaches through a mutable reference is changed by a function.
\<close>

section \<open>Slots and heaps of the standard library\<close>

definition slot_get :: "'a option list \<Rightarrow> nat \<Rightarrow> 'a option" where
  "slot_get slots i = (if i < length slots then slots ! i else None)"

definition slot_fill :: "'a option list \<Rightarrow> nat \<Rightarrow> 'a \<Rightarrow> (unit, 'a option list) outcome" where
  "slot_fill slots i value = (if i < length slots then
     obind (assert_that (slots ! i = None)) (\<lambda>_. Ok (slots[i := Some value])) else Panic)"

definition heap_pop :: "'a::linorder multiset \<Rightarrow> ('a \<times> 'a multiset) option" where
  "heap_pop h = (if h = {#} then None else Some (Min_mset h, h - {#Min_mset h#}))"

section \<open>The table of exports\<close>

record 'a export_table =
  et_slots :: "'a option list"
  et_free :: "u32 multiset"

definition export_new :: "'a export_table" where
  "export_new = \<lparr>et_slots = [], et_free = {#}\<rparr>"

definition export_get :: "'a export_table \<Rightarrow> u32 \<Rightarrow> 'a option" where
  "export_get t i = slot_get (et_slots t) (unat i)"

definition export_get_mut :: "('a \<Rightarrow> 'a) \<Rightarrow> u32 \<Rightarrow> 'a export_table \<Rightarrow> 'a export_table" where
  "export_get_mut f i t = (case export_get t i of None \<Rightarrow> t | Some x \<Rightarrow> t\<lparr>et_slots := (et_slots t)[unat i := Some (f x)]\<rparr>)"

definition export_push :: "'a \<Rightarrow> 'a export_table \<Rightarrow> (unit, u32 \<times> 'a export_table) outcome" where
  "export_push value t =
     obind (case heap_pop (et_free t) of
       Some (free_slot, rest) \<Rightarrow> Ok (free_slot, t\<lparr>et_free := rest\<rparr>)
     | None \<Rightarrow> (let len = length (et_slots t) in
         if len < 2 ^ 32 then Ok (of_nat len, t\<lparr>et_slots := et_slots t @ [None]\<rparr>) else Panic)) (\<lambda>(slot, t').
     obind (slot_fill (et_slots t') (unat slot) value) (\<lambda>slots. Ok (slot, t'\<lparr>et_slots := slots\<rparr>)))"

definition export_remove :: "u32 \<Rightarrow> 'a export_table \<Rightarrow> 'a option \<times> 'a export_table" where
  "export_remove i t = (let result = export_get t i in
     (result, if result = None then t else t\<lparr>et_slots := (et_slots t)[unat i := None], et_free := add_mset i (et_free t)\<rparr>))"

section \<open>Vectors with free slots\<close>

text \<open>As a \<open>Vec\<close> is never as long as \<open>usize\<close> has values, its length is taken to fit.\<close>

record 'a free_vec =
  fv_slots :: "'a option list"
  fv_free :: "u64 multiset"

definition free_vec_new :: "'a free_vec" where
  "free_vec_new = \<lparr>fv_slots = [], fv_free = {#}\<rparr>"

definition free_vec_get :: "'a free_vec \<Rightarrow> u64 \<Rightarrow> 'a option" where
  "free_vec_get v i = slot_get (fv_slots v) (unat i)"

definition free_vec_get_mut :: "('a \<Rightarrow> 'a) \<Rightarrow> u64 \<Rightarrow> 'a free_vec \<Rightarrow> 'a free_vec" where
  "free_vec_get_mut f i v = (case free_vec_get v i of None \<Rightarrow> v | Some x \<Rightarrow> v\<lparr>fv_slots := (fv_slots v)[unat i := Some (f x)]\<rparr>)"

definition free_vec_push :: "'a \<Rightarrow> 'a free_vec \<Rightarrow> (unit, u64 \<times> 'a free_vec) outcome" where
  "free_vec_push value v =
     obind (Ok (case heap_pop (fv_free v) of
       Some (free_slot, rest) \<Rightarrow> (free_slot, v\<lparr>fv_free := rest\<rparr>)
     | None \<Rightarrow> (let len = length (fv_slots v) in (of_nat len, v\<lparr>fv_slots := fv_slots v @ [None]\<rparr>)))) (\<lambda>(slot, v').
     obind (slot_fill (fv_slots v') (unat slot) value) (\<lambda>slots. Ok (slot, v'\<lparr>fv_slots := slots\<rparr>)))"

definition free_vec_len :: "'a free_vec \<Rightarrow> (unit, u64) outcome" where
  "free_vec_len v = unwrap (checked_sub (of_nat (length (fv_slots v))) (of_nat (size (fv_free v))))"

definition free_vec_is_empty :: "'a free_vec \<Rightarrow> (unit, bool) outcome" where
  "free_vec_is_empty v = obind (free_vec_len v) (\<lambda>n. Ok (n = 0))"

definition free_vec_remove :: "u64 \<Rightarrow> 'a free_vec \<Rightarrow> 'a option \<times> 'a free_vec" where
  "free_vec_remove i v = (let result = free_vec_get v i in
     (result, if result = None then v else v\<lparr>fv_slots := (fv_slots v)[unat i := None], fv_free := add_mset i (fv_free v)\<rparr>))"

definition free_vec_take_all :: "'a free_vec \<Rightarrow> 'a list" where
  "free_vec_take_all v = List.map_filter (\<lambda>x. x) (fv_slots v)"

section \<open>The table of imports\<close>

definition IMPORT_LOW_SLOTS :: u32 where "IMPORT_LOW_SLOTS = 16"

record 'a import_table =
  it_low :: "'a option list"
  it_high :: "u32 \<rightharpoonup> 'a"

definition import_new :: "'a import_table" where
  "import_new = \<lparr>it_low = replicate 16 None, it_high = Map.empty\<rparr>"

definition import_get :: "'a import_table \<Rightarrow> u32 \<Rightarrow> (unit, 'a option) outcome" where
  "import_get t i = (if i < IMPORT_LOW_SLOTS then (if unat i < length (it_low t) then Ok (it_low t ! unat i) else Panic)
     else Ok (it_high t i))"

definition import_insert :: "u32 \<Rightarrow> 'a \<Rightarrow> 'a import_table \<Rightarrow> ('a, 'a import_table) outcome" where
  "import_insert i value t =
     (if i < IMPORT_LOW_SLOTS then
        if unat i < length (it_low t) then
          if it_low t ! unat i = None then Ok (t\<lparr>it_low := (it_low t)[unat i := Some value]\<rparr>) else Err value
        else Panic
      else case it_high t i of Some _ \<Rightarrow> Err value | None \<Rightarrow> Ok (t\<lparr>it_high := (it_high t)(i \<mapsto> value)\<rparr>))"

definition import_get_mut :: "('a \<Rightarrow> 'a) \<Rightarrow> u32 \<Rightarrow> 'a import_table \<Rightarrow> (unit, 'a import_table) outcome" where
  "import_get_mut f i t =
     (if i < IMPORT_LOW_SLOTS then
        if unat i < length (it_low t) then Ok (t\<lparr>it_low := (it_low t)[unat i := map_option f (it_low t ! unat i)]\<rparr>) else Panic
      else Ok (t\<lparr>it_high := (it_high t)(i := map_option f (it_high t i))\<rparr>))"

text \<open>\<open>todo!()\<close>\<close>

definition import_remove :: "u32 \<Rightarrow> 'a import_table \<Rightarrow> (unit, 'a option \<times> 'a import_table) outcome" where
  "import_remove i t = Panic"

section \<open>The table of capabilities\<close>

type_synonym 'c cap_table = "'c option list"

definition extract_cap :: "'c cap_table \<Rightarrow> u32 \<Rightarrow> 'c option" where
  "extract_cap vec index = slot_get vec (unat index)"

definition inject_cap :: "'c \<Rightarrow> 'c cap_table \<Rightarrow> (rerror, u32 option \<times> 'c cap_table) outcome" where
  "inject_cap cap vec = (if length vec < 2 ^ 32 then Ok (Some (of_nat (length vec)), vec @ [Some cap]) else Panic)"

definition drop_cap :: "u32 \<Rightarrow> 'c cap_table \<Rightarrow> 'c cap_table" where
  "drop_cap index vec = (if unat index < length vec then vec[unat index := None] else vec)"

text \<open>\<open>InsertableInto::copy\<close> from one table into another.\<close>

definition table_copy :: "'c cap_table \<Rightarrow> u32 \<Rightarrow> 'c cap_table \<Rightarrow> (rerror, u32 option) outcome \<times> 'c cap_table" where
  "table_copy reader index builder = (case obind (ok_or (InvalidCapabilityPointer index) (extract_cap reader index)) (\<lambda>cap. inject_cap cap builder) of
     Ok (new_index, builder') \<Rightarrow> (Ok new_index, builder') | Err e \<Rightarrow> (Err e, builder) | Panic \<Rightarrow> (Panic, builder) | UB \<Rightarrow> (UB, builder))"

section \<open>Tables that give out the lowest free number\<close>

datatype ('i, 'a) table_op = Push 'a | Remove 'i

datatype ('i, 'a) table_event = Pushed 'a 'i | Removed 'i "'a option"

fun run_table :: "('a \<Rightarrow> 't \<Rightarrow> (unit, 'i \<times> 't) outcome) \<Rightarrow> ('i \<Rightarrow> 't \<Rightarrow> 'a option \<times> 't) \<Rightarrow> ('i, 'a) table_op list \<Rightarrow> 't \<Rightarrow>
    (unit, ('i, 'a) table_event list \<times> 't) outcome" where
  "run_table push remove [] t = Ok ([], t)"
| "run_table push remove (Push x # rest) t = obind (push x t) (\<lambda>(i, t'). obind (run_table push remove rest t') (\<lambda>(es, t''). Ok (Pushed x i # es, t'')))"
| "run_table push remove (Remove i # rest) t = (case remove i t of (r, t') \<Rightarrow>
     obind (run_table push remove rest t') (\<lambda>(es, t''). Ok (Removed i r # es, t'')))"

text \<open>What is promised: a map from numbers to values, in which a push takes the lowest number that is free.\<close>

inductive served :: "('i::linorder \<Rightarrow> 'a option) \<Rightarrow> ('i, 'a) table_event list \<Rightarrow> ('i \<Rightarrow> 'a option) \<Rightarrow> bool" where
  served_Nil: "served m [] m"
| served_Push: "m i = None \<Longrightarrow> (\<And>j. j < i \<Longrightarrow> m j \<noteq> None) \<Longrightarrow> served (m(i := Some x)) es m' \<Longrightarrow> served m (Pushed x i # es) m'"
| served_Remove: "served (m(i := None)) es m' \<Longrightarrow> served m (Removed i (m i) # es) m'"

locale id_table =
  fixes get :: "'t \<Rightarrow> 'i::linorder \<Rightarrow> 'a option" and push :: "'a \<Rightarrow> 't \<Rightarrow> (unit, 'i \<times> 't) outcome" and remove :: "'i \<Rightarrow> 't \<Rightarrow> 'a option \<times> 't"
    and ok :: "'t \<Rightarrow> bool" and used :: "'t \<Rightarrow> nat" and room :: nat
  assumes push_lowest: "ok t \<Longrightarrow> used t < room \<Longrightarrow> \<exists>i t'. push x t = Ok (i, t') \<and> ok t' \<and> used t' \<le> Suc (used t) \<and>
      get t i = None \<and> (\<forall>j<i. get t j \<noteq> None) \<and> get t' = (get t)(i := Some x)"
    and remove_one: "ok t \<Longrightarrow> \<exists>t'. remove i t = (get t i, t') \<and> ok t' \<and> used t' = used t \<and> get t' = (get t)(i := None)"
begin

lemma runs: "ok t \<Longrightarrow> used t + length ops \<le> room \<Longrightarrow> \<exists>es t'. run_table push remove ops t = Ok (es, t') \<and> ok t' \<and>
    used t' \<le> used t + length ops \<and> served (get t) es (get t')"
proof (induction ops arbitrary: t)
  case Nil
  then show ?case by (auto intro: served_Nil)
next
  case (Cons a ops)
  show ?case
  proof (cases a)
    case (Push x)
    from push_lowest [OF Cons.prems(1), of x] Cons.prems(2) obtain i t1 where t1: "push x t = Ok (i, t1)" "ok t1" "used t1 \<le> Suc (used t)"
      "get t i = None" "\<forall>j<i. get t j \<noteq> None" "get t1 = (get t)(i := Some x)" by fastforce
    with Cons.IH [of t1] Cons.prems(2) obtain es t2 where t2: "run_table push remove ops t1 = Ok (es, t2)" "ok t2"
      "used t2 \<le> used t1 + length ops" "served (get t1) es (get t2)" by fastforce
    have "served (get t) (Pushed x i # es) (get t2)"
      by (rule served_Push) (use t1 t2(4) in auto)
    with t1 t2 Push show ?thesis by simp
  next
    case (Remove i)
    from remove_one [OF Cons.prems(1), of i] obtain t1 where t1: "remove i t = (get t i, t1)" "ok t1" "used t1 = used t" "get t1 = (get t)(i := None)" by blast
    with Cons.IH [of t1] Cons.prems(2) obtain es t2 where t2: "run_table push remove ops t1 = Ok (es, t2)" "ok t2"
      "used t2 \<le> used t1 + length ops" "served (get t1) es (get t2)" by fastforce
    have "served (get t) (Removed i (get t i) # es) (get t2)"
      by (rule served_Remove) (use t1(4) t2(4) in simp)
    with t1 t2 Remove show ?thesis by simp
  qed
qed

end

section \<open>The slots that are free\<close>

lemma unat_of_nat_fits: "n < 2 ^ LENGTH('w) \<Longrightarrow> unat (of_nat n :: 'w::len word) = n"
  by (simp add: unat_of_nat take_bit_nat_eq_self)

lemma unat_same: "unat i = unat j \<longleftrightarrow> i = (j :: 'w::len word)"
  by (auto intro: unsigned_word_eqI)

definition slots_ok :: "'a option list \<Rightarrow> 'w::len word multiset \<Rightarrow> bool" where
  "slots_ok slots free \<longleftrightarrow> length slots \<le> 2 ^ LENGTH('w) \<and>
     (\<forall>i. count free i = (if unat i < length slots \<and> slots ! unat i = None then 1 else 0))"

lemma slots_ok_free: "slots_ok slots free \<Longrightarrow> i \<in># free \<longleftrightarrow> unat i < length slots \<and> slots ! unat i = None"
  by (auto simp: slots_ok_def count_greater_zero_iff [symmetric] split: if_splits)

lemma slots_ok_push:
  assumes "slots_ok slots free" "heap_pop free = Some (i, rest)"
  shows "unat i < length slots" "slots ! unat i = None" "\<forall>j<i. slot_get slots (unat j) \<noteq> None" "slots_ok (slots[unat i := Some x]) rest"
proof -
  have i: "free \<noteq> {#}" "i = Min_mset free" "rest = free - {#i#}" using assms(2) by (auto simp: heap_pop_def split: if_splits)
  then have mem: "i \<in># free" by simp
  show at: "unat i < length slots" "slots ! unat i = None" using mem slots_ok_free [OF assms(1)] by auto
  show "\<forall>j<i. slot_get slots (unat j) \<noteq> None"
  proof (intro allI impI)
    fix j assume "j < i"
    then have "j \<notin># free" using i by (auto dest: Min_le [OF finite_set_mset])
    moreover have "unat j < length slots" using at(1) \<open>j < i\<close> by (simp add: word_less_nat_alt)
    ultimately show "slot_get slots (unat j) \<noteq> None" using slots_ok_free [OF assms(1)] by (auto simp: slot_get_def)
  qed
  show "slots_ok (slots[unat i := Some x]) rest"
    using assms(1) at mem by (auto simp: slots_ok_def i(3) nth_list_update intro: unsigned_word_eqI)
qed

lemma slots_ok_append:
  assumes "slots_ok slots free" "heap_pop free = None" "length slots < 2 ^ LENGTH('w)"
  shows "\<forall>j < (of_nat (length slots) :: 'w::len word). slot_get slots (unat j) \<noteq> None" "slots_ok (slots @ [Some x]) (free :: 'w word multiset)"
proof -
  have free: "free = {#}" using assms(2) by (simp add: heap_pop_def split: if_splits)
  have full: "i < length slots \<Longrightarrow> slots ! i \<noteq> None" for i
    using slots_ok_free [OF assms(1), of "of_nat i"] assms(3) by (simp add: free unat_of_nat_fits)
  show "\<forall>j < (of_nat (length slots) :: 'w word). slot_get slots (unat j) \<noteq> None"
    using full assms(3) by (auto simp: slot_get_def word_less_nat_alt unat_of_nat_fits)
  show "slots_ok (slots @ [Some x]) free"
    using full assms(3) by (auto simp: slots_ok_def free nth_append)
qed

lemma slots_ok_remove:
  assumes "slots_ok slots free" "slot_get slots (unat i) \<noteq> None"
  shows "slots_ok (slots[unat i := None]) (add_mset i free)"
  using assms by (auto simp: slots_ok_def slot_get_def nth_list_update intro: unsigned_word_eqI split: if_splits)

lemma slot_get_update: "i < length slots \<Longrightarrow> slot_get (slots[i := v]) j = (if j = i then v else slot_get slots j)"
  by (simp add: slot_get_def)

lemma slot_get_append: "slot_get (slots @ [v]) j = (if j = length slots then v else slot_get slots j)"
  by (auto simp: slot_get_def nth_append)

interpretation exports: id_table export_get export_push export_remove "\<lambda>t. slots_ok (et_slots t) (et_free t)" "\<lambda>t. length (et_slots t)" "2 ^ 32"
proof unfold_locales
  fix t :: "'a export_table" and x :: 'a
  assume ok: "slots_ok (et_slots t) (et_free t)" and room: "length (et_slots t) < 2 ^ 32"
  show "\<exists>i t'. export_push x t = Ok (i, t') \<and> slots_ok (et_slots t') (et_free t') \<and> length (et_slots t') \<le> Suc (length (et_slots t)) \<and>
      export_get t i = None \<and> (\<forall>j<i. export_get t j \<noteq> None) \<and> export_get t' = (export_get t)(i := Some x)"
  proof (cases "heap_pop (et_free t)")
    case None
    let ?i = "of_nat (length (et_slots t)) :: u32"
    have i: "unat ?i = length (et_slots t)" using room by (simp add: unat_of_nat_fits)
    then have at: "unat j = length (et_slots t) \<longleftrightarrow> j = ?i" for j by (metis unsigned_word_eqI)
    have "export_push x t = Ok (?i, t\<lparr>et_slots := et_slots t @ [Some x]\<rparr>)"
      using room i by (simp add: export_push_def None slot_fill_def)
    moreover have "export_get (t\<lparr>et_slots := et_slots t @ [Some x]\<rparr>) = (export_get t)(?i := Some x)"
      by (simp add: export_get_def slot_get_append fun_eq_iff at)
    ultimately show ?thesis
      using slots_ok_append(1) [OF ok None] slots_ok_append(2) [OF ok None, where x = x] room i by (intro exI [of _ ?i] exI) (auto simp: export_get_def slot_get_def)
  next
    case (Some p)
    then obtain i rest where pop: "heap_pop (et_free t) = Some (i, rest)" by (cases p) auto
    note ok' = slots_ok_push(1-3) [OF ok pop] slots_ok_push(4) [OF ok pop, where x = x]
    have "export_push x t = Ok (i, t\<lparr>et_free := rest, et_slots := (et_slots t)[unat i := Some x]\<rparr>)"
      using ok'(1,2) by (simp add: export_push_def pop slot_fill_def)
    moreover have "export_get (t\<lparr>et_free := rest, et_slots := (et_slots t)[unat i := Some x]\<rparr>) = (export_get t)(i := Some x)"
      using ok'(1) by (auto simp: export_get_def slot_get_update fun_eq_iff unat_same)
    ultimately show ?thesis
      using ok' by (intro exI [of _ i] exI) (auto simp: export_get_def slot_get_def)
  qed
next
  fix t :: "'a export_table" and i
  assume ok: "slots_ok (et_slots t) (et_free t)"
  show "\<exists>t'. export_remove i t = (export_get t i, t') \<and> slots_ok (et_slots t') (et_free t') \<and> length (et_slots t') = length (et_slots t) \<and>
      export_get t' = (export_get t)(i := None)"
  proof (cases "export_get t i")
    case (Some x)
    then have "unat i < length (et_slots t)" by (auto simp: export_get_def slot_get_def split: if_splits)
    with Some show ?thesis
      using slots_ok_remove [OF ok, of i] by (auto simp: export_remove_def export_get_def slot_get_update fun_eq_iff unat_same)
  qed (use ok in \<open>auto simp: export_remove_def\<close>)
qed

interpretation free_slots: id_table free_vec_get free_vec_push free_vec_remove "\<lambda>t. slots_ok (fv_slots t) (fv_free t)" "\<lambda>t. length (fv_slots t)" "2 ^ 64"
proof unfold_locales
  fix t :: "'a free_vec" and x :: 'a
  assume ok: "slots_ok (fv_slots t) (fv_free t)" and room: "length (fv_slots t) < 2 ^ 64"
  show "\<exists>i t'. free_vec_push x t = Ok (i, t') \<and> slots_ok (fv_slots t') (fv_free t') \<and> length (fv_slots t') \<le> Suc (length (fv_slots t)) \<and>
      free_vec_get t i = None \<and> (\<forall>j<i. free_vec_get t j \<noteq> None) \<and> free_vec_get t' = (free_vec_get t)(i := Some x)"
  proof (cases "heap_pop (fv_free t)")
    case None
    let ?i = "of_nat (length (fv_slots t)) :: u64"
    have i: "unat ?i = length (fv_slots t)" using room by (simp add: unat_of_nat_fits)
    then have at: "unat j = length (fv_slots t) \<longleftrightarrow> j = ?i" for j by (metis unsigned_word_eqI)
    have "free_vec_push x t = Ok (?i, t\<lparr>fv_slots := fv_slots t @ [Some x]\<rparr>)"
      using room i by (simp add: free_vec_push_def None slot_fill_def)
    moreover have "free_vec_get (t\<lparr>fv_slots := fv_slots t @ [Some x]\<rparr>) = (free_vec_get t)(?i := Some x)"
      by (simp add: free_vec_get_def slot_get_append fun_eq_iff at)
    ultimately show ?thesis
      using slots_ok_append(1) [OF ok None] slots_ok_append(2) [OF ok None, where x = x] room i by (intro exI [of _ ?i] exI) (auto simp: free_vec_get_def slot_get_def)
  next
    case (Some p)
    then obtain i rest where pop: "heap_pop (fv_free t) = Some (i, rest)" by (cases p) auto
    note ok' = slots_ok_push(1-3) [OF ok pop] slots_ok_push(4) [OF ok pop, where x = x]
    have "free_vec_push x t = Ok (i, t\<lparr>fv_free := rest, fv_slots := (fv_slots t)[unat i := Some x]\<rparr>)"
      using ok'(1,2) by (simp add: free_vec_push_def pop slot_fill_def)
    moreover have "free_vec_get (t\<lparr>fv_free := rest, fv_slots := (fv_slots t)[unat i := Some x]\<rparr>) = (free_vec_get t)(i := Some x)"
      using ok'(1) by (auto simp: free_vec_get_def slot_get_update fun_eq_iff unat_same)
    ultimately show ?thesis
      using ok' by (intro exI [of _ i] exI) (auto simp: free_vec_get_def slot_get_def)
  qed
next
  fix t :: "'a free_vec" and i
  assume ok: "slots_ok (fv_slots t) (fv_free t)"
  show "\<exists>t'. free_vec_remove i t = (free_vec_get t i, t') \<and> slots_ok (fv_slots t') (fv_free t') \<and> length (fv_slots t') = length (fv_slots t) \<and>
      free_vec_get t' = (free_vec_get t)(i := None)"
  proof (cases "free_vec_get t i")
    case (Some x)
    then have "unat i < length (fv_slots t)" by (auto simp: free_vec_get_def slot_get_def split: if_splits)
    with Some show ?thesis
      using slots_ok_remove [OF ok, of i] by (auto simp: free_vec_remove_def free_vec_get_def slot_get_update fun_eq_iff unat_same)
  qed (use ok in \<open>auto simp: free_vec_remove_def\<close>)
qed

lemma free_vec_len_values:
  assumes "slots_ok (fv_slots v) (fv_free v)" "length (fv_slots v) < 2 ^ 64"
  shows "free_vec_len v = Ok (of_nat (length (free_vec_take_all v)))"
proof -
  let ?s = "fv_slots v"
  have "size (fv_free v) = card (set_mset (fv_free v))"
  proof -
    have "count (fv_free v) i = 1" if "i \<in># fv_free v" for i
      using assms(1) slots_ok_free [OF assms(1), of i] that by (simp add: slots_ok_def)
    then show ?thesis by (simp add: size_multiset_overloaded_eq)
  qed
  also have "\<dots> = card (unat ` set_mset (fv_free v))"
    by (intro card_image [symmetric] inj_onI) (simp add: unat_same)
  also have "unat ` set_mset (fv_free v) = {k. k < length ?s \<and> ?s ! k = None}"
  proof (intro set_eqI iffI)
    fix k assume "k \<in> {k. k < length ?s \<and> ?s ! k = None}"
    then have "of_nat k \<in># fv_free v" "unat (of_nat k :: u64) = k"
      using slots_ok_free [OF assms(1), of "of_nat k"] assms(2) by (simp_all add: unat_of_nat_fits)
    then show "k \<in> unat ` set_mset (fv_free v)" by (metis image_eqI)
  qed (use slots_ok_free [OF assms(1)] in auto)
  also have "card \<dots> = length (filter (\<lambda>x. x = None) ?s)" by (simp add: length_filter_conv_card)
  finally have free: "size (fv_free v) = length (filter (\<lambda>x. x = None) ?s)" .
  have "length xs = length (filter (\<lambda>x. x = None) xs) + length (List.map_filter (\<lambda>x. x) xs)" for xs :: "'a option list"
    by (induction xs) (auto simp: map_filter_simps split: option.splits)
  from this [of ?s] have "length ?s = length (filter (\<lambda>x. x = None) ?s) + length (free_vec_take_all v)"
    by (simp only: free_vec_take_all_def)
  moreover have "checked_sub (of_nat (m + k)) (of_nat m) = Some (of_nat k :: u64)" if "m + k < 2 ^ 64" for m k :: nat
  proof -
    have "unat (of_nat m :: u64) = m" "unat (of_nat (m + k) :: u64) = m + k"
      using that by (intro unat_of_nat_fits, simp)+
    then have "(of_nat m :: u64) \<le> of_nat (m + k)" by (simp only: word_le_nat_alt)
    then show ?thesis by (simp add: checked_sub_def)
  qed
  ultimately show ?thesis using assms(2) unfolding free_vec_len_def free by (metis unwrap_Ok_iff)
qed

section \<open>Properties of the tables\<close>

text \<open>C31: for any calls of \<open>push\<close> and \<open>remove\<close> on a new table of exports, as many as there are numbers, none panics, and it answers as a
  map does: a value is at its number until it is removed, \<open>remove\<close> returns it, and a push gets the lowest number that is not in use.\<close>

theorem export_table_refines:
  assumes "length ops \<le> 2 ^ 32"
  shows "\<exists>es t. run_table export_push export_remove ops export_new = Ok (es, t) \<and> served (\<lambda>_. None) es (export_get t)"
proof -
  have start: "export_get export_new = (\<lambda>_. None)" by (auto simp: export_get_def export_new_def slot_get_def)
  have "slots_ok (et_slots export_new) (et_free export_new)" by (simp add: slots_ok_def export_new_def)
  from exports.runs [OF this, of ops] assms show ?thesis by (auto simp: start) (auto simp: export_new_def)
qed

theorem export_table_refines_witness:
  "\<exists>t. run_table export_push export_remove [Push (7 :: nat), Push 8, Push 9, Remove 0, Remove 1, Push 5] export_new =
    Ok ([Pushed 7 0, Pushed 8 1, Pushed 9 2, Removed 0 (Some 7), Removed 1 (Some 8), Pushed 5 0], t) \<and>
    served (\<lambda>_. None) [Pushed (7 :: nat) 0, Pushed 8 1, Pushed 9 2, Removed 0 (Some 7), Removed 1 (Some 8), Pushed 5 0] (export_get t)"
proof -
  let ?ops = "[Push (7 :: nat), Push 8, Push 9, Remove 0, Remove 1, Push 5]"
  obtain es t where t: "run_table export_push export_remove ?ops export_new = Ok (es, t)" "served (\<lambda>_. None) es (export_get t)"
    using export_table_refines [of ?ops] by auto
  moreover have "es = [Pushed 7 0, Pushed 8 1, Pushed 9 2, Removed 0 (Some 7), Removed 1 (Some 8), Pushed 5 0]"
    using t(1) by (simp add: export_push_def export_remove_def export_new_def export_get_def slot_get_def slot_fill_def heap_pop_def)
  ultimately show ?thesis by blast
qed

text \<open>A vector with free slots answers \<open>push\<close> and \<open>remove\<close> in the same way, and its length is the number of the values that are
  left in it.\<close>

lemma free_vec_refines:
  assumes "length ops < 2 ^ 64"
  shows "\<exists>es v. run_table free_vec_push free_vec_remove ops free_vec_new = Ok (es, v) \<and> served (\<lambda>_. None) es (free_vec_get v) \<and>
    free_vec_len v = Ok (of_nat (length (free_vec_take_all v)))"
proof -
  have start: "free_vec_get free_vec_new = (\<lambda>_. None)" by (auto simp: free_vec_get_def free_vec_new_def slot_get_def)
  have "slots_ok (fv_slots free_vec_new) (fv_free free_vec_new)" by (simp add: slots_ok_def free_vec_new_def)
  from free_slots.runs [OF this, of ops] assms obtain es v where
    "run_table free_vec_push free_vec_remove ops free_vec_new = Ok (es, v)" "slots_ok (fv_slots v) (fv_free v)"
    "length (fv_slots v) \<le> length ops" "served (\<lambda>_. None) es (free_vec_get v)"
    by (auto simp: start) (auto simp: free_vec_new_def)
  with assms free_vec_len_values [of v] show ?thesis by auto
qed

lemma free_vec_refines_witness:
  "\<exists>v. run_table free_vec_push free_vec_remove [Push (7 :: nat), Push 8, Remove 0] free_vec_new = Ok ([Pushed 7 0, Pushed 8 1, Removed 0 (Some 7)], v) \<and>
    free_vec_len v = Ok (of_nat (length (free_vec_take_all v)))"
proof -
  let ?ops = "[Push (7 :: nat), Push 8, Remove 0]"
  obtain es v where v: "run_table free_vec_push free_vec_remove ?ops free_vec_new = Ok (es, v)" "free_vec_len v = Ok (of_nat (length (free_vec_take_all v)))"
    using free_vec_refines [of ?ops] by auto
  moreover have "es = [Pushed 7 0, Pushed 8 1, Removed 0 (Some 7)]"
    using v(1) by (simp add: free_vec_push_def free_vec_remove_def free_vec_new_def free_vec_get_def slot_get_def slot_fill_def heap_pop_def)
  ultimately show ?thesis by blast
qed

text \<open>A table of imports is a map from the numbers the other side chose. It cannot be removed from: \<open>remove\<close> is not written.\<close>

definition import_ok :: "'a import_table \<Rightarrow> bool" where
  "import_ok t \<longleftrightarrow> length (it_low t) = 16 \<and> (\<forall>i < IMPORT_LOW_SLOTS. it_high t i = None)"

lemma import_table_map:
  assumes "import_ok t"
  obtains m where "\<And>i. import_get t i = Ok (m i)"
    "\<And>i x. import_insert i x t = (if m i = None then Ok (if i < IMPORT_LOW_SLOTS then t\<lparr>it_low := (it_low t)[unat i := Some x]\<rparr>
       else t\<lparr>it_high := (it_high t)(i \<mapsto> x)\<rparr>) else Err x)"
    "\<And>i x t' j. import_insert i x t = Ok t' \<Longrightarrow> import_ok t' \<and> import_get t' j = Ok ((m(i \<mapsto> x)) j)"
proof
  have low: "i < IMPORT_LOW_SLOTS \<Longrightarrow> unat i < length (it_low t)" for i
    using assms by (simp add: import_ok_def IMPORT_LOW_SLOTS_def word_less_nat_alt)
  let ?m = "\<lambda>i. if i < IMPORT_LOW_SLOTS then it_low t ! unat i else it_high t i"
  show "import_get t i = Ok (?m i)" for i using low by (simp add: import_get_def)
  show "import_insert i x t = (if ?m i = None then Ok (if i < IMPORT_LOW_SLOTS then t\<lparr>it_low := (it_low t)[unat i := Some x]\<rparr>
       else t\<lparr>it_high := (it_high t)(i \<mapsto> x)\<rparr>) else Err x)" for i x
    using low by (auto simp: import_insert_def split: option.splits)
  show "import_ok t' \<and> import_get t' j = Ok ((?m(i \<mapsto> x)) j)" if "import_insert i x t = Ok t'" for i x t' j
    using that assms low [of i] low [of j] by (auto simp: import_insert_def import_ok_def import_get_def nth_list_update unat_same split: if_splits option.splits)
qed

text \<open>C35: a capability that is copied from the table of one message to that of another is found there at the number the copy
  returns, and nowhere else is anything changed; a number that has no capability is refused as an invalid pointer.\<close>

theorem table_copy_finds:
  assumes "length builder < 2 ^ 32"
  shows "case table_copy reader index builder of (x, builder') \<Rightarrow> (case extract_cap reader index of
      None \<Rightarrow> x = Err (InvalidCapabilityPointer index) \<and> builder' = builder
    | Some cap \<Rightarrow> \<exists>i. x = Ok (Some i) \<and> extract_cap builder i = None \<and> extract_cap builder' = (extract_cap builder)(i := Some cap))"
proof (cases "extract_cap reader index")
  case (Some cap)
  let ?i = "of_nat (length builder) :: u32"
  have i: "unat ?i = length builder" using assms by (simp add: unat_of_nat_fits)
  then have at: "unat j = length builder \<longleftrightarrow> j = ?i" for j by (metis unsigned_word_eqI)
  have "extract_cap builder ?i = None" using i by (simp add: extract_cap_def slot_get_def)
  moreover have "extract_cap (builder @ [Some cap]) = (extract_cap builder)(?i := Some cap)"
    by (simp add: extract_cap_def slot_get_append fun_eq_iff at)
  ultimately show ?thesis using Some assms by (simp add: table_copy_def inject_cap_def)
qed (simp add: table_copy_def)

theorem table_copy_finds_witness:
  "\<exists>i t. table_copy [None, Some (5 :: nat)] 1 [Some 9] = (Ok (Some i), t) \<and> extract_cap t i = Some 5"
proof -
  have at: "extract_cap [None, Some (5 :: nat)] 1 = Some 5" by (simp add: extract_cap_def slot_get_def)
  show ?thesis
    using table_copy_finds [where builder = "[Some (9 :: nat)]" and reader = "[None, Some 5]" and index = 1]
    by (cases "table_copy [None, Some (5 :: nat)] 1 [Some 9]") (auto simp: at)
qed

lemma drop_cap_extract: "extract_cap (drop_cap i vec) = (extract_cap vec)(i := None)"
  by (auto simp: extract_cap_def drop_cap_def slot_get_def nth_list_update unat_same fun_eq_iff)

end
