(* ===== verification/Rpc_Pipeline.thy ===== *)
theory Rpc_Pipeline
  imports Channel_Close Ptr_Reader Rpc_Tables
begin

text \<open>
  Where the calls go that a client sent on the results of another call before they were there
  (\<^verbatim>\<open>recapn-rpc/src/chan.rs\<close>, \<^verbatim>\<open>pipeline.rs\<close>): the pointers of the results message are followed to a capability, and
  the channel that queued the calls is forwarded to its client. This is the resolver that \<^verbatim>\<open>Channel_Close\<close> leaves
  open. A client is the address of its channel. The clone of a client that is held while a channel is forwarded to it is left out. The default reader of a null
  pointer, which is outside the message, is \<open>None\<close>. A pipeline that is set separately is left open, as
  \<open>set_pipeline\<close> never gets that far (\<^verbatim>\<open>Request_State\<close>).
\<close>

section \<open>Errors\<close>

datatype error_kind = Failed | Overloaded | Disconnected | Unimplemented

text \<open>The description of an error is a literal or the text of a read error.\<close>

datatype description = Literal string | Displayed rerror

record rpc_error =
  er_kind :: error_kind
  er_description :: description

definition failed :: "description \<Rightarrow> rpc_error" where
  "failed d = \<lparr>er_kind = Failed, er_description = d\<rparr>"

definition disconnected :: "description \<Rightarrow> rpc_error" where
  "disconnected d = \<lparr>er_kind = Disconnected, er_description = d\<rparr>"

text \<open>\<open>CapTable::broken\<close> and \<open>CapTable::null\<close>, as the error of the broken client.\<close>

definition table_broken :: "description \<Rightarrow> rpc_error" where
  "table_broken reason = disconnected reason"

definition table_null :: rpc_error where
  "table_null = table_broken (Literal ''tried to read a null capability'')"

section \<open>Following the pointers of a message\<close>

datatype pipeline_op = PtrField u16

type_synonym any_ptr = "ptr_reader option"

definition any_root :: "read_segments \<Rightarrow> reader_options \<Rightarrow> any_ptr" where
  "any_root arena opts = ptr_root arena (nesting_limit opts)"

text \<open>\<open>try_read_as::<AnyStruct>\<close>, where \<open>None\<close> is the empty struct.\<close>

definition any_struct :: "heap \<Rightarrow> read_segments \<Rightarrow> any_ptr \<Rightarrow> struct_reader option reading" where
  "any_struct h arena p = (case p of None \<Rightarrow> rok None | Some q \<Rightarrow> to_struct h arena q)"

definition ptr_field_or_default :: "struct_reader option \<Rightarrow> u16 \<Rightarrow> (rerror, any_ptr) outcome" where
  "ptr_field_or_default s index = (case s of None \<Rightarrow> Ok None | Some r \<Rightarrow> ptr_field_option r index)"

fun follow_ops :: "heap \<Rightarrow> read_segments \<Rightarrow> pipeline_op list \<Rightarrow> any_ptr \<Rightarrow> any_ptr reading" where
  "follow_ops h arena [] p = rok p"
| "follow_ops h arena (PtrField index # ops) p =
     rbind (any_struct h arena p) (\<lambda>s. rbind (rlift (ptr_field_or_default s index)) (follow_ops h arena ops))"

definition try_to_capability :: "heap \<Rightarrow> 'c cap_table \<Rightarrow> any_ptr \<Rightarrow> 'c option reading" where
  "try_to_capability h table p = (case p of None \<Rightarrow> rok None | Some q \<Rightarrow>
     rbind (try_to_capability_index h q) (\<lambda>index. case index of
       Some i \<Rightarrow> rlift (obind (ok_or (InvalidCapabilityPointer i) (extract_cap table i)) (\<lambda>c. Ok (Some c)))
     | None \<Rightarrow> rok None))"

text \<open>A client of the table, or the error of a broken one.\<close>

definition read_as_client :: "heap \<Rightarrow> 'c cap_table \<Rightarrow> any_ptr \<Rightarrow> ('c + rpc_error) reading" where
  "read_as_client h table p = (\<lambda>l. case try_to_capability h table p l of
     (Ok (Some c), l') \<Rightarrow> (Ok (Inl c), l')
   | (Ok None, l') \<Rightarrow> (Ok (Inr table_null), l')
   | (Err err, l') \<Rightarrow> (Ok (Inr (table_broken (Displayed err))), l')
   | (Panic, l') \<Rightarrow> (Panic, l')
   | (UB, l') \<Rightarrow> (UB, l'))"

section \<open>Results\<close>

text \<open>The results of a call: the message they are the root of, and its capabilities.\<close>

record rpc_response =
  rr_message :: read_segments
  rr_table :: "chan_ref cap_table"

datatype rpc_results = Owned "rpc_response + rpc_error" | OtherResponse req_ref

definition with_results :: "rpc_response \<Rightarrow> (any_ptr \<Rightarrow> 'a reading) \<Rightarrow> (rerror, 'a) outcome" where
  "with_results resp f = fst (f (any_root (rr_message resp) DEFAULT_READER_OPTIONS) (Some (traversal_limit DEFAULT_READER_OPTIONS)))"

definition try_resolve_pipeline_ops :: "heap \<Rightarrow> rpc_response \<Rightarrow> pipeline_op list \<Rightarrow> (rerror, chan_ref + rpc_error) outcome" where
  "try_resolve_pipeline_ops h resp ops = with_results resp (\<lambda>ptr.
     rbind (follow_ops h (rr_message resp) ops ptr) (read_as_client h (rr_table resp)))"

section \<open>Resolving a queued channel\<close>

type_synonym ('v, 'p, 'l) rpc_system = "('v, rpc_error, 'p, rpc_results, 'l, pipeline_op list) system"

definition forward_over :: "'e forward_pc \<Rightarrow> bool" where
  "forward_over pc = (case pc of FDone \<Rightarrow> True | FReturned \<Rightarrow> True | FClose _ \<Rightarrow> True | _ \<Rightarrow> False)"

partial_function (option) forward_run :: "chan_ref \<Rightarrow> chan_ref \<Rightarrow> 'e forward_pc \<Rightarrow> (('v, 'e, 'p, 'r, 'l, 'k) system, 'e forward_pc) run" where
  "forward_run this other pc s = (if forward_over pc then Some (Ok (pc, s))
     else Option.bind (forward_step this other pc s) (\<lambda>x. case x of
       Ok (pc', s') \<Rightarrow> forward_run this other pc' s' | Panic \<Rightarrow> Some Panic | _ \<Rightarrow> Some UB))"

text \<open>\<open>forward_to\<close> until it returns: whether the receiver is given back.\<close>

definition forward_to :: "(chan_ref \<Rightarrow> 'e \<Rightarrow> (('v, 'e, 'p, 'r, 'l, 'k) system, unit) run) \<Rightarrow> chan_ref \<Rightarrow> chan_ref \<Rightarrow>
    (('v, 'e, 'p, 'r, 'l, 'k) system, bool) run" where
  "forward_to close this other = run_then (forward_run this other (FResolve other)) (\<lambda>pc. case pc of
     FReturned \<Rightarrow> at_once (dret True)
   | FClose e \<Rightarrow> run_then (close this e) (\<lambda>_. at_once (dret False))
   | _ \<Rightarrow> at_once (dret False))"

text \<open>The channel of a client: of a broken one, a new channel at the address that \<open>fresh\<close> chooses.\<close>

definition client_sender :: "(('v, 'p, 'l) rpc_system \<Rightarrow> chan_ref) \<Rightarrow> chan_ref + rpc_error \<Rightarrow> (('v, 'p, 'l) rpc_system, chan_ref) doing" where
  "client_sender fresh client = (case client of
     Inl c \<Rightarrow> dret c
   | Inr err \<Rightarrow> (\<lambda>s. Ok (fresh s, s\<lparr>chans := (chans s)(fresh s := Some (broken err))\<rparr>)))"

definition response_resolve :: "heap \<Rightarrow> (('v, 'p, 'l) rpc_system \<Rightarrow> chan_ref) \<Rightarrow>
    (chan_ref \<Rightarrow> rpc_error \<Rightarrow> (('v, 'p, 'l) rpc_system, unit) run) \<Rightarrow> rpc_response \<Rightarrow> pipeline_op list \<Rightarrow> chan_ref \<Rightarrow>
    (('v, 'p, 'l) rpc_system, unit) run" where
  "response_resolve h fresh close resp key channel s = (case try_resolve_pipeline_ops h resp key of
     Ok c \<Rightarrow> run_then (at_once (client_sender fresh c)) (\<lambda>other.
       run_then (forward_to close channel other) (\<lambda>given_back.
         if given_back then close channel (failed (Literal ''attempted to resolve client into itself'')) else at_once (dret ()))) s
   | Err err \<Rightarrow> close channel (failed (Displayed err)) s
   | Panic \<Rightarrow> Some Panic
   | UB \<Rightarrow> Some UB)"

definition error_results :: "rpc_error \<Rightarrow> rpc_results" where
  "error_results err = Owned (Inr err)"

text \<open>\<open>resolve\<close> of \<open>RpcResults\<close>. Closing a channel answers its requests, which resolves the channels that are
  queued on them in turn: the first argument bounds how deep this goes, and how many responses refer to others.\<close>

primrec rpc_resolve :: "nat \<Rightarrow> heap \<Rightarrow> (('v, 'p, 'l) rpc_system \<Rightarrow> chan_ref) \<Rightarrow> rpc_results \<Rightarrow> (('v, 'p, 'l) rpc_system, pipeline_op list) resolver" where
  "rpc_resolve 0 h fresh res = (\<lambda>key channel s. None)"
| "rpc_resolve (Suc n) h fresh res = (\<lambda>key channel s. case res of
     Owned (Inl r) \<Rightarrow> response_resolve h fresh (close_channel (rpc_resolve n h fresh) error_results) r key channel s
   | Owned (Inr err) \<Rightarrow> close_channel (rpc_resolve n h fresh) error_results channel err s
   | OtherResponse q \<Rightarrow> (case reqs s q of None \<Rightarrow> Some UB | Some rq \<Rightarrow> (case response rq of
       Ok r \<Rightarrow> rpc_resolve n h fresh r key channel s | _ \<Rightarrow> Some UB)))"

text \<open>\<open>pipeline\<close> of \<open>RpcResults\<close>: the channel for a client that asks once the results are there.\<close>

primrec rpc_pipeline :: "nat \<Rightarrow> heap \<Rightarrow> (('v, 'p, 'l) rpc_system \<Rightarrow> chan_ref) \<Rightarrow> rpc_results \<Rightarrow> pipeline_op list \<Rightarrow>
    (('v, 'p, 'l) rpc_system, chan_ref) run" where
  "rpc_pipeline 0 h fresh res key = (\<lambda>s. None)"
| "rpc_pipeline (Suc n) h fresh res key = (\<lambda>s. case res of
     Owned (Inl r) \<Rightarrow> (case try_resolve_pipeline_ops h r key of
       Ok (Inl c) \<Rightarrow> at_once (dbind (on_chan c clone_sender) (\<lambda>_. dret c)) s
     | Ok (Inr err) \<Rightarrow> at_once (client_sender fresh (Inr err)) s
     | Err err \<Rightarrow> at_once (client_sender fresh (Inr (failed (Displayed err)))) s
     | Panic \<Rightarrow> Some Panic
     | UB \<Rightarrow> Some UB)
   | Owned (Inr err) \<Rightarrow> at_once (client_sender fresh (Inr err)) s
   | OtherResponse q \<Rightarrow> (case reqs s q of None \<Rightarrow> Some UB | Some rq \<Rightarrow> (case response rq of
       Ok r \<Rightarrow> rpc_pipeline n h fresh r key s | _ \<Rightarrow> Some UB)))"

section \<open>Reading the results is safe\<close>

lemma reads_cases:
  assumes "reads m P" "\<And>x n. P x n \<Longrightarrow> Q (f (Ok x)) n" "\<And>e n. Q (f (Err e)) n"
  shows "reads (\<lambda>l. case m l of (Ok x, l') \<Rightarrow> (Ok (f (Ok x)), l') | (Err e, l') \<Rightarrow> (Ok (f (Err e)), l') | (Panic, l') \<Rightarrow> (Panic, l') | (UB, l') \<Rightarrow> (UB, l')) Q"
proof (rule readsI)
  fix l
  from assms(1) obtain n where n: "safe (fst (m l))" "spends n l (snd (m l))" "\<And>x. fst (m l) = Ok x \<Longrightarrow> P x n" by (rule readsE [of m P l]) auto
  obtain o' l' where ml: "m l = (o', l')" by force
  let ?g = "\<lambda>l. case m l of (Ok x, l') \<Rightarrow> (Ok (f (Ok x)), l') | (Err e, l') \<Rightarrow> (Ok (f (Err e)), l') | (Panic, l') \<Rightarrow> (Panic, l') | (UB, l') \<Rightarrow> (UB, l')"
  show "safe (fst (?g l))" using n(1) by (cases o') (simp_all add: ml)
  show "\<exists>n. spends n l (snd (?g l)) \<and> (\<forall>x. fst (?g l) = Ok x \<longrightarrow> Q x n)"
    using n assms(2,3) by (intro exI [of _ n]) (cases o'; simp add: ml)
qed

lemma read_as_client_cases:
  "read_as_client h table p = (\<lambda>l. case try_to_capability h table p l of
     (Ok x, l') \<Rightarrow> (Ok (case Ok x of Ok (Some c) \<Rightarrow> Inl c | Ok None \<Rightarrow> Inr table_null | Err e \<Rightarrow> Inr (table_broken (Displayed e)) | _ \<Rightarrow> Inr table_null), l')
   | (Err err, l') \<Rightarrow> (Ok (case Err err of Ok (Some c) \<Rightarrow> Inl c | Ok None \<Rightarrow> Inr table_null | Err e \<Rightarrow> Inr (table_broken (Displayed e)) | _ \<Rightarrow> Inr table_null), l')
   | (Panic, l') \<Rightarrow> (Panic, l') | (UB, l') \<Rightarrow> (UB, l'))"
  by (rule ext) (auto simp: read_as_client_def split: prod.split outcome.split option.split)

definition any_ok :: "heap \<Rightarrow> any_ptr \<Rightarrow> bool" where
  "any_ok h p \<longleftrightarrow> (\<forall>q. p = Some q \<longrightarrow> ptr_ok h q)"

lemma try_to_capability_ok:
  assumes "any_ok h p"
  shows "reads (try_to_capability h table p) (\<lambda>c _. \<forall>d. c = Some d \<longrightarrow> Some d \<in> set table)"
proof (cases p)
  case (Some q)
  then have q: "ptr_ok h q" using assms by (simp add: any_ok_def)
  have word: "safe (deref h (pr_ptr q))"
    by (rule inside_deref [of h "seg_of (pr_reader q)" _ 1]) (use q in \<open>simp_all add: ptr_ok_def reader_ok_def\<close>)
  have "reads (rlift (obind (ok_or (InvalidCapabilityPointer i) (extract_cap table i)) (\<lambda>c. Ok (Some c)))) (\<lambda>c _. \<forall>d. c = Some d \<longrightarrow> Some d \<in> set table)" for i
    by (rule reads_lift) (auto simp: obind_Ok_iff extract_cap_def slot_get_def split: if_splits dest: nth_mem)
  moreover have "reads (try_to_capability_index h q) (\<lambda>_ _. True)"
    unfolding try_to_capability_index_def try_cap_ptr_def
    by (rule reads_bind_lift [OF word]) (auto intro!: reads_bind_lift safe_ok_or reads_ok)
  ultimately show ?thesis
    unfolding Some option.case try_to_capability_def
    by (intro reads_bind [where P = "\<lambda>_ _. True"]) (auto intro!: reads_ok split: option.split)
qed (auto simp: try_to_capability_def intro!: reads_ok)

lemma read_as_client_ok: "any_ok h p \<Longrightarrow> reads (read_as_client h table p) (\<lambda>c _. \<forall>d. c = Inl d \<longrightarrow> Some d \<in> set table)"
  unfolding read_as_client_cases by (rule reads_cases [OF try_to_capability_ok]) (auto split: option.splits)

lemma ptr_field_safe:
  assumes "struct_ok h s"
  shows "safe (ptr_field_option s i)"
proof (cases "i < sr_ptrs_len s")
  case True
  obtain n where n: "u29_from_u16 i = (Ok n :: (rerror, u29) outcome)" "u29_val n = unat i" by (rule u16_offset)
  have "inside (seg_of (sr_reader s)) (addr (sr_ptrs_start s) (unat i)) (unat (sr_ptrs_len s) - unat i)"
    by (rule inside_step) (use assms True in \<open>simp_all add: struct_ok_def word_less_nat_alt\<close>)
  then have "ptr_offset (sr_ptrs_start s) n \<noteq> 0"
    unfolding ptr_offset_addr n(2) by (rule inside_nonnull [rotated, of _ _ _ h]) (use assms in \<open>simp add: struct_ok_def reader_ok_def\<close>)
  then show ?thesis by (simp add: ptr_field_option_def n(1) as_ref_unchecked_def)
qed (simp add: ptr_field_option_def)

lemma follow_ops_ok:
  assumes "source_ok ar h"
  shows "any_ok h p \<Longrightarrow> reads (follow_ops h (arena_source ar) ops p) (\<lambda>q _. any_ok h q)"
proof (induction ops arbitrary: p)
  case (Cons a ops)
  obtain index where a: "a = PtrField index" by (cases a)
  have field: "safe (ptr_field_or_default s index) \<and> (\<forall>q. ptr_field_or_default s index = Ok q \<longrightarrow> any_ok h q)"
    if "case s of None \<Rightarrow> True | Some r \<Rightarrow> struct_ok h r" for s
    using that ptr_field_safe ptr_field_ok by (cases s) (auto simp: ptr_field_or_default_def any_ok_def)
  have struct: "reads (any_struct h (arena_source ar) p) (\<lambda>s _. case s of None \<Rightarrow> True | Some r \<Rightarrow> struct_ok h r)"
  proof (cases p)
    case (Some q)
    then have "ptr_ok h q" using Cons.prems by (simp add: any_ok_def)
    from reads_mono [OF to_struct_ok [OF assms this]] Some show ?thesis by (auto simp: any_struct_def split: option.splits)
  qed (auto simp: any_struct_def intro!: reads_ok)
  show ?case
    unfolding a follow_ops.simps by (rule reads_bind [OF struct], rule reads_bind_lift) (use field Cons.IH in auto)
qed (auto intro!: reads_ok)

lemma pipeline_ops_read:
  assumes "source_ok ar h" "rr_message resp = arena_source ar"
  shows "safe (try_resolve_pipeline_ops h resp ops)" "try_resolve_pipeline_ops h resp ops = Ok (Inl d) \<Longrightarrow> Some d \<in> set (rr_table resp)"
proof -
  let ?p = "any_root (rr_message resp) DEFAULT_READER_OPTIONS"
  have "any_ok h ?p" using ptr_root_ok(1) [OF assms(1)] by (auto simp: any_ok_def any_root_def assms(2))
  then have "reads (rbind (follow_ops h (rr_message resp) ops ?p) (read_as_client h (rr_table resp)))
      (\<lambda>c _. \<forall>d. c = Inl d \<longrightarrow> Some d \<in> set (rr_table resp))"
    unfolding assms(2) by (intro reads_bind [OF follow_ops_ok [OF assms(1)]] read_as_client_ok) (simp_all add: assms(2))
  then show "safe (try_resolve_pipeline_ops h resp ops)" "try_resolve_pipeline_ops h resp ops = Ok (Inl d) \<Longrightarrow> Some d \<in> set (rr_table resp)"
    by (auto simp: try_resolve_pipeline_ops_def with_results_def reads_def)
qed

section \<open>Resolving ends\<close>

lemma forward_over_stays: "forward_over pc \<Longrightarrow> forward_step this other pc s = Some (Ok (pc, s))"
  by (cases pc) (simp_all add: forward_over_def forward_step_def)

lemma forward_run_over:
  assumes "runs_to (forward_step this other) pc s pc' s'" "forward_over pc'"
  shows "forward_run this other pc s = Some (Ok (pc', s'))"
proof -
  obtain n where "solo (forward_step this other) n pc s = Some (Ok (pc', s'))" using assms(1) by (auto simp: runs_to_def)
  then show ?thesis
  proof (induction n arbitrary: pc s)
    case 0
    then show ?case using assms(2) by (subst forward_run.simps) simp
  next
    case (Suc n)
    show ?case
    proof (cases "forward_over pc")
      case True
      from solo_stays [of "forward_step this other" pc s, OF forward_over_stays [OF True], of "Suc n"] Suc.prems
      have "pc' = pc \<and> s' = s" by simp
      with True show ?thesis by (subst forward_run.simps) simp
    next
      case False
      with Suc show ?thesis by (subst forward_run.simps) (auto split: option.splits outcome.splits prod.splits)
    qed
  qed
qed

lemma forward_to_done:
  "runs_to (forward_step this other) (FResolve other) s FDone s' \<Longrightarrow> forward_to close this other s = Some (Ok (False, s'))"
  by (simp add: forward_to_def run_then_def forward_run_over forward_over_def)

lemma forward_to_closes:
  "runs_to (forward_step this other) (FResolve other) s (FClose e) s1 \<Longrightarrow> close this e s1 = Some (Ok ((), s')) \<Longrightarrow>
    forward_to close this other s = Some (Ok (False, s'))"
  by (simp add: forward_to_def run_then_def forward_run_over forward_over_def)

lemma forward_to_returns:
  "runs_to (forward_step this other) (FResolve other) s FReturned s' \<Longrightarrow> forward_to close this other s = Some (Ok (True, s'))"
  by (simp add: forward_to_def run_then_def forward_run_over forward_over_def)

text \<open>What is left of a channel that was closed with an error, and of the requests that were in it.\<close>

definition closes_as :: "chan_ref \<Rightarrow> ('v, rpc_error) channel \<Rightarrow> rpc_error \<Rightarrow> ('v, 'p, 'l) rpc_system \<Rightarrow> ('v, 'p, 'l) rpc_system \<Rightarrow> bool" where
  "closes_as c ch err s s' \<longleftrightarrow> chans s' c = Some (closed_with err ch) \<and>
     reqs s' = (\<lambda>r. if LRequest r \<in> set (ch_requests ch) then map_option (answered (error_results err)) (reqs s r) else reqs s r)"

abbreviation into_itself :: rpc_error where
  "into_itself \<equiv> failed (Literal ''attempted to resolve client into itself'')"

text \<open>What comes of a channel \<open>c\<close> that is resolved to the client of \<open>d\<close>.\<close>

definition resolves_to :: "chan_ref \<Rightarrow> ('v, rpc_error) channel \<Rightarrow> chan_ref \<Rightarrow> ('v, 'p, 'l) rpc_system \<Rightarrow> ('v, 'p, 'l) rpc_system \<Rightarrow> bool" where
  "resolves_to c ch d s s' \<longleftrightarrow> (case queue_behind s d of
     Some q \<Rightarrow> if same_queue s c d then closes_as c ch into_itself s s'
       else queue_ok s' \<and> (\<forall>e. chans s e \<noteq> None \<longrightarrow>
         queue_behind s' e = (if same_queue s c e \<or> same_queue s d e then Some (q @ ch_requests ch) else queue_behind s e))
   | None \<Rightarrow> (case most_resolved s d of
       Some (Ok (_, Some (MError err))) \<Rightarrow> closes_as c ch err s s'
     | Some (Ok (_, Some MDropped)) \<Rightarrow> s' = dropped_receiver c ch s
     | _ \<Rightarrow> False))"

text \<open>\<open>forward_to\<close> and the close that follows when the receiver is given back.\<close>

lemma forward_to_resolves:
  assumes "queue_ok s" "chans s c = Some ch" "receivable ch" "chans s d \<noteq> None" "senders_ok s"
    and close: "\<And>err. \<exists>s'. close c err s = Some (Ok ((), s')) \<and> closes_as c ch err s s'"
  shows "\<exists>s'. run_then (forward_to close c d) (\<lambda>given_back. if given_back then close c into_itself else at_once (dret ())) s = Some (Ok ((), s')) \<and>
    resolves_to c ch d s s'"
proof (cases "queue_behind s d")
  case None
  with forward_cases [OF assms(1-5)] obtain e m where m: "most_resolved s d = Some (Ok (e, Some m))" "case m of
        MError e \<Rightarrow> runs_to (forward_step c d) (FResolve d) s (FClose e) s
      | MDropped \<Rightarrow> runs_to (forward_step c d) (FResolve d) s FDone (dropped_receiver c ch s)" by auto
  show ?thesis
  proof (cases m)
    case (MError err)
    obtain s' where "close c err s = Some (Ok ((), s'))" "closes_as c ch err s s'" using close by blast
    with forward_to_closes [of c d s err s close s'] m None MError show ?thesis by (simp add: run_then_def resolves_to_def)
  next
    case MDropped
    with forward_to_done [of c d s "dropped_receiver c ch s" close] m None show ?thesis by (simp add: run_then_def resolves_to_def)
  qed
next
  case (Some q)
  show ?thesis
  proof (cases "same_queue s c d")
    case True
    with forward_cases [OF assms(1-5)] Some have "runs_to (forward_step c d) (FResolve d) s FReturned s" by simp
    from forward_to_returns [OF this, of close] close [of into_itself] Some True show ?thesis
      by (auto simp: run_then_def resolves_to_def)
  next
    case False
    with forward_cases [OF assms(1-5)] Some obtain s' where s': "runs_to (forward_step c d) (FResolve d) s FDone s'" "queue_ok s'"
      "\<forall>e. chans s e \<noteq> None \<longrightarrow> queue_behind s' e = (if same_queue s c e \<or> same_queue s d e then Some (q @ ch_requests ch) else queue_behind s e)" by auto
    with forward_to_done [OF s'(1), of close] Some False show ?thesis by (auto simp: run_then_def resolves_to_def)
  qed
qed

text \<open>C29: whatever message the results of a call are, a channel that queued calls on them, with no pipelined client on any of these
  calls, is resolved without a panic or a read outside the message, given that the channels of its capabilities exist and
  no other call comes in between. If the pointers lead to a capability whose channel is not resolved, the channel
  joins that queue and its calls are at the end of it, in order; but if that queue is its own, or the capability is one
  that was closed with an error, or the pointers lead to none, the channel is closed with an error that says why, and each of
  its calls is answered with that error. If the receiver of the capability was dropped, so is the receiver of the channel:
  its calls are then neither queued anywhere else nor answered.\<close>

theorem pipelined_calls_resolved:
  assumes "source_ok ar h" and "rr_message resp = arena_source ar"
    and "queue_ok s" and "senders_ok s" and "chans s c = Some ch" and "receivable ch" and "chans s (fresh s) = None"
    and "\<And>r. LRequest r \<in> set (ch_requests ch) \<Longrightarrow> unanswered (reqs s r)"
    and "\<And>d. Some d \<in> set (rr_table resp) \<Longrightarrow> chans s d \<noteq> None"
  shows "\<exists>s'. rpc_resolve (Suc n) h fresh (Owned (Inl resp)) key c s = Some (Ok ((), s')) \<and>
    (case try_resolve_pipeline_ops h resp key of
       Ok (Inl d) \<Rightarrow> resolves_to c ch d s s'
     | Ok (Inr err) \<Rightarrow> closes_as c ch err s s'
     | Err e \<Rightarrow> closes_as c ch (failed (Displayed e)) s s'
     | _ \<Rightarrow> False)"
proof -
  let ?close = "close_channel (rpc_resolve n h fresh) error_results"
  have closes: "\<exists>s'. ?close c err s = Some (Ok ((), s')) \<and> closes_as c ch err s s'" for err
  proof -
    have "?close c err s = Some (Ok ((), s\<lparr>chans := (chans s)(c := Some (closed_with err ch)),
        reqs := (\<lambda>r. if LRequest r \<in> set (ch_requests ch) then map_option (answered (error_results err)) (reqs s r) else reqs s r)\<rparr>))"
      by (rule close_undisturbed [OF assms(3,5,6)]) (use assms(8) in simp)
    then show ?thesis by (simp add: closes_as_def)
  qed
  show ?thesis
  proof (cases "try_resolve_pipeline_ops h resp key")
    case (Err e)
    with closes [of "failed (Displayed e)"] show ?thesis by (simp add: response_resolve_def)
  next
    case (Ok client)
    show ?thesis
    proof (cases client)
      case (Inl d)
      then have d: "chans s d \<noteq> None" using assms(9) [OF pipeline_ops_read(2) [OF assms(1,2)], of key d] Ok by simp
      from forward_to_resolves [where close = ?close, OF assms(3,5,6) d assms(4) closes] show ?thesis
        by (simp add: response_resolve_def Ok Inl client_sender_def run_then_def)
    next
      case (Inr err)
      let ?new = "fresh s"
      let ?s = "s\<lparr>chans := (chans s)(?new := Some (broken err))\<rparr>"
      have c: "c \<noteq> ?new" "chans ?s c = Some ch" using assms(5,7) by auto
      have new: "chans ?s ?new = Some (broken err)" by simp
      have ok: "queue_ok ?s"
        by (rule new_chan_ok [OF assms(3,7)]) (auto simp: broken_def shared_channel_def atomic_new_set_def flag_simps)
      have set: "flags_state (ch_atom (broken err)) = Sent" "ch_value (broken err) = Some (ChanError err)"
        by (simp_all add: broken_def shared_channel_def atomic_new_set_def flags_state_def flag_simps)
      have leads: "leads_to ?s ?new ?new" by (rule leads_to_refl) (auto simp: forwards_def set(2))
      have closed: "runs_to (forward_step c ?new) (FResolve ?new) ?s (FClose err) ?s"
        by (rule forward_alone [OF ok c(2) assms(6) _ leads]) (auto simp: resolved_as_def set)
      have "?close c err ?s = Some (Ok ((), ?s\<lparr>chans := (chans ?s)(c := Some (closed_with err ch)),
          reqs := (\<lambda>r. if LRequest r \<in> set (ch_requests ch) then map_option (answered (error_results err)) (reqs ?s r) else reqs ?s r)\<rparr>))"
        by (rule close_undisturbed [OF ok c(2) assms(6)]) (use assms(8) in simp)
      from forward_to_closes [where close = ?close, OF closed this] have "\<exists>s'. forward_to ?close c ?new ?s = Some (Ok (False, s')) \<and> closes_as c ch err s s'"
        by (auto simp: closes_as_def)
      then show ?thesis by (auto simp: response_resolve_def Ok Inr client_sender_def run_then_def)
    qed
  qed (use pipeline_ops_read(1) [OF assms(1,2), of key] in simp_all)
qed

text \<open>Results that are one capability, and a channel with one event that is queued on them.\<close>

definition cap_heap :: heap where
  "cap_heap = \<lparr>mem = [64 \<mapsto> word_of_parts (cap_ptr_new 0), 72 \<mapsto> Word_NULL, 80 \<mapsto> Word_NULL, 88 \<mapsto> Word_NULL], choices = []\<rparr>"

definition cap_results :: rpc_response where
  "cap_results = \<lparr>rr_message = arena_source demo_arena, rr_table = [Some 2]\<rparr>"

definition idle_rpc :: "(nat, nat, nat) rpc_system" where
  "idle_rpc = \<lparr>chans = (\<lambda>_. None)(1 := Some new_channel, 2 := Some new_channel), reqs = (\<lambda>_. None), woken = []\<rparr>"

definition event_channel :: "(nat, rpc_error) channel" where
  "event_channel = new_channel\<lparr>ch_requests := [LEvent 7]\<rparr>"

definition queued_rpc :: "(nat, nat, nat) rpc_system" where
  "queued_rpc = delivered (LEvent 7) 1 1 new_channel idle_rpc"

lemma cap_heap_ok: "source_ok demo_arena cap_heap"
proof -
  have m: "mem cap_heap (addr 64 k) \<noteq> None" if "k < 4" for k
    using that unfolding four_cases by (auto simp: addr_def cap_heap_def)
  have s: "segs demo_arena = [arena_segment_new \<lparr>seg_data = 64, seg_len = u29_clip 4\<rparr> (nz29_clip 4) 0]"
    by (simp add: segs_def demo_arena_def)
  have "segment_readable cap_heap (arena_segment_new \<lparr>seg_data = 64, seg_len = u29_clip 4\<rparr> (nz29_clip 4) 0)"
    "segment_bounded (arena_segment_new \<lparr>seg_data = 64, seg_len = u29_clip 4\<rparr> (nz29_clip 4) 0)"
    using m by (auto simp: segment_readable_def seg_place_def demo_used segment_bounded_def) (simp add: arena_segment_new_def)+
  then show ?thesis by (simp add: source_ok_def arena_readable_def s) (simp add: demo_arena_def)
qed

lemma cap_results_lead: "try_resolve_pipeline_ops cap_heap cap_results [] = Ok (Inl 2)"
proof -
  have root: "from_source (arena_source demo_arena) 0 = Some \<lparr>sg_data = 64, sg_len = u29_clip 4, sg_id = 0\<rparr>"
    by (simp add: from_source_def arena_source_def arena_segment_at_def demo_arena_def
        segment_reader_new_def used_segment_def arena_segment_new_def used_len_def u29_eq_iff)
  then have "any_root (rr_message cap_results) DEFAULT_READER_OPTIONS = Some \<lparr>pr_ptr = 64,
      pr_reader = \<lparr>or_segment = Some \<lparr>sg_data = 64, sg_len = u29_clip 4, sg_id = 0\<rparr>\<rparr>, pr_nesting = 64\<rparr>"
    by (simp add: any_root_def ptr_root_def cap_results_def reader_start_def u29_eq_iff DEFAULT_READER_OPTIONS_def)
  moreover have cap: "try_cap_ptr (word_of_parts (cap_ptr_new 0)) = Ok (cap_ptr_new 0)" "capability_index (cap_ptr_new 0) = 0"
    by (simp_all add: try_cap_ptr_def cap_ptr_def is_capability_def cap_ptr_new_def capability_index_def)
  moreover have "\<not> is_null (word_of_parts (cap_ptr_new 0))"
  proof
    assume "is_null (word_of_parts (cap_ptr_new 0))"
    then have "kind Word_NULL = KOther" using ptr_kinds(5) [of 0] by (simp add: is_null_def)
    moreover have "kind Word_NULL = KStruct" by code_simp
    ultimately show False by simp
  qed
  moreover have "extract_cap (rr_table cap_results) 0 = Some 2" by (simp add: cap_results_def extract_cap_def slot_get_def)
  ultimately show ?thesis
    by (simp add: try_resolve_pipeline_ops_def with_results_def read_as_client_def try_to_capability_def try_to_capability_index_def
        rbind_def rlift_def deref_def cap_heap_def)
qed

lemma queued_rpc_ok: "queue_ok queued_rpc" "senders_ok queued_rpc"
proof -
  have "reached idle_rpc"
    using reached.channel [OF reached.channel [OF reached.start, of 1], of 2] by (simp add: idle_rpc_def)
  from reached_ok [OF this] show "queue_ok queued_rpc"
    unfolding queued_rpc_def
    by (rule delivered_ok) (simp_all add: idle_rpc_def leads_to_def forwards_def new_channel_def shared_channel_def flag_simps)
  show "senders_ok queued_rpc"
    by (auto simp: senders_ok_def queued_rpc_def idle_rpc_def delivered_def new_channel_def shared_channel_def split: if_splits)
qed

lemma queued_rpc_at:
  "chans queued_rpc 1 = Some event_channel" "chans queued_rpc 2 = Some new_channel" "chans queued_rpc 3 = None"
  "receivable event_channel"
  by (simp_all add: queued_rpc_def idle_rpc_def delivered_def event_channel_def new_channel_def shared_channel_def receivable_def flags_state_def flag_simps)

lemma queued_rpc_queues: "queue_behind queued_rpc 2 = Some []" "\<not> same_queue queued_rpc 1 2"
proof -
  have walks: "most_resolved queued_rpc 1 = Some (Ok (1, None))" "most_resolved queued_rpc 2 = Some (Ok (2, None))"
    by (subst most_resolved.simps, simp add: try_resolved_def queued_rpc_at(1,2), simp add: event_channel_def new_channel_def shared_channel_def flags_state_def flag_simps)+
  then show "queue_behind queued_rpc 2 = Some []" "\<not> same_queue queued_rpc 1 2"
    by (simp_all add: queue_behind_def same_queue_def queued_rpc_at) (simp add: new_channel_def shared_channel_def)
qed

theorem pipelined_calls_resolved_witness:
  "\<exists>s'. rpc_resolve 1 cap_heap (\<lambda>_. 3) (Owned (Inl cap_results)) [] 1 queued_rpc = Some (Ok ((), s')) \<and> queue_behind s' 2 = Some [LEvent 7]"
proof -
  have table: "rr_message cap_results = arena_source demo_arena" "rr_table cap_results = [Some 2]" by (simp_all add: cap_results_def)
  have "\<exists>s'. rpc_resolve (Suc 0) cap_heap (\<lambda>_. 3) (Owned (Inl cap_results)) [] 1 queued_rpc = Some (Ok ((), s')) \<and>
    (case try_resolve_pipeline_ops cap_heap cap_results [] of
       Ok (Inl d) \<Rightarrow> resolves_to 1 event_channel d queued_rpc s'
     | Ok (Inr err) \<Rightarrow> closes_as 1 event_channel err queued_rpc s'
     | Err e \<Rightarrow> closes_as 1 event_channel (failed (Displayed e)) queued_rpc s'
     | _ \<Rightarrow> False)"
    by (rule pipelined_calls_resolved [where fresh = "\<lambda>_. 3", OF cap_heap_ok table(1) queued_rpc_ok queued_rpc_at(1,4,3)])
      (use queued_rpc_at(2) queued_rpc_queues table in \<open>simp_all add: event_channel_def\<close>)
  moreover have "same_queue queued_rpc 2 2"
    using queued_rpc_queues(1) by (auto simp: queue_behind_def same_queue_def split: option.splits outcome.splits prod.splits)
  ultimately show ?thesis
    by (auto simp: cap_results_lead queued_rpc_at(2) queued_rpc_queues event_channel_def resolves_to_def)
qed

end
