(* ===== verification/Spec2Isabelle.thy ===== *)
theory Spec2Isabelle
  imports Packed_Stream Ptr_Reader Built_Lists Built_Pointers Copied_Content Wait_List Channel_Races Rpc_Pipeline
begin

text \<open>
  A model of \<^verbatim>\<open>recapn\<close>, an implementation of Cap'n Proto in Rust: the crate
  \<^verbatim>\<open>recapn\<close> (messages: their memory, their wire format, their streams) and the crate
  \<^verbatim>\<open>recapn-channel\<close> (the queues and one-shot events that the RPC system is built on). Paths
  below are relative to \<^verbatim>\<open>src/recapn/src\<close> or, for the channels, to
  \<^verbatim>\<open>src/recapn-channel/src\<close>.

  \<^bold>\<open>How the parts interact.\<close> A message being built is an \<^emph>\<open>arena\<close> of segments; an arena asks an
  \<^emph>\<open>allocator\<close> for each segment, and places objects in the segment it asked for last. A message
  being read is a set of segments found in a slice or a stream by means of the \<^emph>\<open>stream table\<close>
  that precedes them; the packed encoding compresses table and segments together. A reader of
  either follows the \<^emph>\<open>wire pointers\<close> in the words of the segments, checking each against the
  bounds of its segment, and charges what it reads to a limiter shared by the message. The
  channels keep intrusive linked lists of requests and of waiting tasks, and resolve at most once.

  \<^bold>\<open>Conventions\<close> (\<^verbatim>\<open>Recapn_Prelude\<close>). Machine integers are words of their width. A call ends in
  an \<open>outcome\<close>: \<open>Ok\<close>, \<open>Err\<close> with the error the code returns, \<open>Panic\<close> (which includes failed
  debug assertions and, in debug builds, overflow), or \<open>UB\<close> for undefined behaviour, the reading
  of a word that is not allocated or a violated contract of an \<^verbatim>\<open>unsafe\<close> function. State is
  passed explicitly. Buffers and streams are lists of bytes; memory is a map from addresses to
  words. Loops of the code are structural recursions or \<open>function\<close>s with a termination proof; the
  loops of a packed stream, which a reader that never ends could keep busy, are partial functions whose
  results are proved to exist.

  \<^bold>\<open>Theories.\<close>
  \<^item> \<^verbatim>\<open>Int_Types\<close> (\<^verbatim>\<open>num.rs\<close>): \<open>u29\<close>, \<open>NonZeroU29\<close>, \<open>i30\<close> as types of the words in range, the
    checked conversions between them and the primitive integers.
  \<^item> \<^verbatim>\<open>Seg_Words\<close> (\<^verbatim>\<open>alloc.rs\<close>): \<open>Word\<close> and the views of a slice of words as bytes.
  \<^item> \<^verbatim>\<open>Packing\<close>, \<^verbatim>\<open>Unpacking\<close>, \<^verbatim>\<open>Unpacking_Correct\<close> (\<^verbatim>\<open>io/packing.rs\<close>): the resumable packer
    and unpacker as state machines driven by buffers of any size. The output of the packer does not
    depend on how it is cut into buffers; the unpacker refines a byte-at-a-time automaton, which
    inverts packing.
  \<^item> \<^verbatim>\<open>Stream_Table\<close> (\<^verbatim>\<open>io/stream.rs\<close>), \<^verbatim>\<open>Segment_Set\<close> (\<^verbatim>\<open>io.rs\<close>: \<open>SegmentSet\<close>,
    \<open>TableSegmentSet\<close>, \<open>read_from_slice\<close>; the locale \<open>read_arena\<close> states what a set of segments
    promises), \<^verbatim>\<open>Message_Io\<close> (\<open>read_from_stream\<close>, \<open>write_message\<close>) and \<^verbatim>\<open>Packed_Stream\<close>
    (\<open>PackedStream\<close>, \<open>read_from_packed_stream\<close>, \<open>write_message_packed\<close>): safety on every input and
    the round trips of messages through slices, streams and packed streams. Readers and writers of
    the standard library are scripts of answers: how many bytes a call takes or gives, an
    interruption, or a failure.
  \<^item> \<^verbatim>\<open>Seg_Alloc\<close> (\<^verbatim>\<open>alloc.rs\<close>): the allocators over a heap of words. The locale \<open>allocator\<close> is
    the contract of the trait \<open>Alloc\<close>; every allocator of the crate is an interpretation. The system
    allocator answers with addresses taken from the heap's \<open>choices\<close>.
  \<^item> \<^verbatim>\<open>Msg_Arena\<close> (\<^verbatim>\<open>arena.rs\<close>, the limiter and options of \<^verbatim>\<open>message.rs\<close>): the invariant of an
    arena over any allocator, places that never overlap, and the arena as a \<open>read_arena\<close>.
  \<^item> \<^verbatim>\<open>Elem_Size\<close>, \<^verbatim>\<open>Wire_Ptr\<close> (\<^verbatim>\<open>ptr.rs\<close>): sizes of structs and lists with the rules of
    upgrades, and the encoding of pointers in words with its round trips.
  \<^item> \<^verbatim>\<open>Obj_Reader\<close> (\<^verbatim>\<open>ptr.rs\<close>: \<open>SegmentReader\<close>, \<open>ObjectReader\<close>) and \<^verbatim>\<open>Ptr_Reader\<close>
    (\<open>PtrReader\<close>, \<open>StructReader\<close>, \<open>ListReader\<close>, \<open>target_size\<close>): reading untrusted messages. The
    locale \<open>segment_source\<close> is what a reader needs of an arena. No read leaves its segment, each is
    charged, and the depth of any walk is bounded; \<open>target_size\<close> ends on cyclic messages.
  \<^item> \<^verbatim>\<open>Obj_Builder\<close> (\<^verbatim>\<open>ptr.rs\<close>: \<open>ObjectBuilder\<close>, over an arena and the heap of its words),
    \<^verbatim>\<open>Built_Objects\<close> and \<^verbatim>\<open>Built_Lists\<close>: allocating an object for a pointer, near or far, and
    locating it again. The reader of the arena being built and the builder itself find in it the struct
    or list that was asked for, at the place it was given. The debug assertions of the code are panics.
  \<^item> \<^verbatim>\<open>Data_Field\<close> (\<^verbatim>\<open>ptr.rs\<close>: the trait \<open>Data\<close> and the accessors over it): booleans,
    integers and floats in the data sections of structs and in lists, as bytes of the heap. The locale
    \<open>wire_data\<close> is what reading and writing one type promise; every type is an interpretation.
  \<^item> \<^verbatim>\<open>Ptr_Compare\<close> (\<^verbatim>\<open>ptr.rs\<close>: \<open>equality\<close>, \<open>canonical_size\<close>, \<open>total_size\<close>): comparing what two
    pointers point to, with one limiter or two, ends within the traversal limit; the canonical size of
    a list of structs loses nothing.
  \<^item> \<^verbatim>\<open>Ptr_Builder\<close> (\<^verbatim>\<open>ptr.rs\<close>: \<open>PtrBuilder\<close>, \<open>StructBuilder\<close>, \<open>ListBuilder\<close>, \<open>OrphanBuilder\<close>,
    \<open>Nullifier\<close>): initialising, clearing, promoting, disowning and adopting what a pointer points to.
    \<^verbatim>\<open>Cleared_Objects\<close>: clearing ends, only nulls words and ignores the errors of the capability table; it does not
    panic on near pointers to objects other than lists of structs. \<^verbatim>\<open>Built_Pointers\<close>: what was
    initialised or moved is found again with its fields, and the cases in which moving and clearing go wrong.
  \<^item> \<^verbatim>\<open>Copy_Machine\<close> (\<^verbatim>\<open>ptr.rs\<close>: \<open>CopySize\<close>, \<open>CopyMachine\<close>): the copying of objects from one
    message to another, with upgrades and in canonical form, and the operations of the builders over it.
    \<^verbatim>\<open>Copied_Objects\<close>: a copy as it is ends within the traversal limit of the source, is safe, and of the words
    in use changes only the pointer copied to. \<^verbatim>\<open>Copied_Content\<close>: a copy without errors is a deep copy; it rests on
    what \<^verbatim>\<open>Built_Objects\<close> and \<^verbatim>\<open>Built_Lists\<close> find, which lasts while the words they found it by are not changed.
  \<^item> \<^verbatim>\<open>Linked_List\<close> (\<^verbatim>\<open>util/linked_list.rs\<close>): the intrusive list refines a plain list; the
    locale \<open>deque\<close> is its contract.
  \<^item> \<^verbatim>\<open>Atomic_State\<close>, \<^verbatim>\<open>Wait_List\<close>, \<^verbatim>\<open>Shot_State\<close> (\<^verbatim>\<open>util/atomic_state.rs\<close>,
    \<^verbatim>\<open>util/wait_list.rs\<close>, \<^verbatim>\<open>util/closed_task.rs\<close>, \<open>ResolutionState\<close> and the counters of
    \<^verbatim>\<open>mpsc.rs\<close> and \<^verbatim>\<open>request.rs\<close>): inductive step relations in which each step is what one
    thread does between two synchronisation points, with their invariants.

  \<^item> \<^verbatim>\<open>Chan_System\<close>, \<^verbatim>\<open>Request_State\<close>, \<^verbatim>\<open>Channel_Queue\<close>, \<^verbatim>\<open>Channel_Races\<close>, \<^verbatim>\<open>Channel_Close\<close>
    (\<^verbatim>\<open>mpsc.rs\<close>, \<^verbatim>\<open>request.rs\<close>, \<^verbatim>\<open>util/array_vec.rs\<close>): the channels and requests of a program, as two maps
    from addresses. A channel that is resolved leads to another or to an error; the walks along the forwarded channels
    (\<open>most_resolved\<close>, \<open>most_unresolved\<close>) are partial functions. \<^verbatim>\<open>Request_State\<close>: who owns a request at which time may touch
    which of its cells, whatever the owner, the channels and the receivers do, and the three actions that go wrong. \<^verbatim>\<open>Channel_Queue\<close>: \<open>send\<close> and \<open>forward_to\<close>, cut where they load flags or take locks, refine one queue for all
    channels that lead to the same one, when they do not overlap, also on channels that were closed or dropped. \<^verbatim>\<open>Channel_Races\<close>: any number of these calls that overlap; they
    do not deadlock, but two interleavings go wrong. \<^verbatim>\<open>Channel_Close\<close>: closing a channel, which answers what is queued, and the clients
    that are queued on the results of a request; what is proved of closing is for requests without such clients.

  \<^item> \<^verbatim>\<open>Rpc_Tables\<close> (\<^verbatim>\<open>connection.rs\<close> and \<^verbatim>\<open>table.rs\<close> of \<^verbatim>\<open>recapn-rpc\<close>): the numbers a connection gives to what it
    exports, and the capabilities of a message. The locale \<open>id_table\<close> is the contract of a table that gives out the lowest free
    number; \<open>ExportTable\<close> and \<open>FreeVec\<close> are interpretations. Copying a capability between two tables is an instance of the
    parameter of \<^verbatim>\<open>Copy_Machine\<close>.

  \<^item> \<^verbatim>\<open>Rpc_Pipeline\<close> (\<^verbatim>\<open>chan.rs\<close> of \<^verbatim>\<open>recapn-rpc\<close>): calls that were queued on the results of another call. The pointers
    of the results message are followed with the readers of \<^verbatim>\<open>Ptr_Reader\<close>, under the default limits, to a capability of
    \<^verbatim>\<open>Rpc_Tables\<close>, and the channel is forwarded to it or closed as in \<^verbatim>\<open>Channel_Queue\<close> and \<^verbatim>\<open>Channel_Close\<close>.

  \<^bold>\<open>Bounds and fuel.\<close> A segment has at most $2^{29} - 1$ words, an arena at most $2^{32} - 1$ segments.
  The walk of \<open>target_size\<close> recurses on the nesting limit that the code counts down; that its sums do
  not overflow is proved for traversal limits up to \<open>MAX_BUDGET\<close> ($2^{31}$ words), because each object it
  visits is charged to the limiter. Comparing or copying pointers takes a level for each word that the limit
  lets it read, and clearing one a level for each word of memory that is not null; both are proved to be enough. The iterators over segments are given the number of segments plus
  one as fuel, and are proved to end within it. Resolving pipelined channels takes a level for each response that refers to another and each
  request whose channel is closed with clients queued on it; without either, one level is proved to be enough.

  \<^bold>\<open>Assumptions.\<close> Targets are little-endian with 64-bit addresses; atomic operations are sequentially
  consistent (each step of a thread is atomic); a mutex hands its contents to one thread at a time. The channels
  leave open what is done with a pipelined channel once the results are there (\<open>PipelineResolver\<close>); \<^verbatim>\<open>Rpc_Pipeline\<close> is what the RPC system does. No
  allocation crosses the middle of the address space, as Rust's \<^verbatim>\<open>Layout\<close> guarantees.

  \<^bold>\<open>Not modelled.\<close> The types of \<^verbatim>\<open>rpc.rs\<close> through which readers and builders carry the table of the
  capabilities of a message: readers here have the empty table, and what clears or copies a capability
  is a parameter of the builders. The typed interface over the
  readers (\<^verbatim>\<open>any.rs\<close>, \<^verbatim>\<open>field.rs\<close>, \<^verbatim>\<open>list.rs\<close>, \<^verbatim>\<open>ty.rs\<close>, \<^verbatim>\<open>text.rs\<close>, \<^verbatim>\<open>data.rs\<close>,
  \<^verbatim>\<open>orphan.rs\<close>), which forwards to them through traits. Of the channels, the futures around the
  wait lists, the counts of \<open>Arc\<close> with the freeing they lead to, and the data a client keeps in a channel. The rest of the RPC system (\<^verbatim>\<open>recapn-rpc\<close>, unfinished in the source), the
  compiler plugin (\<^verbatim>\<open>recapnc\<close>), generated code, tests, fuzz targets and examples.
\<close>

end
